(* ===== verification/Prelude.thy ===== *)
theory Prelude
  imports Main "HOL-Library.Word"
begin

text \<open>
  Shared vocabulary of the development: how a C function returns, the error codes of
  \<^verbatim>\<open>include/error.h\<close>, the answers of the allocator, and the generic list lemmas the
  component theories rely on.
\<close>

subsection \<open>Outcomes of a C function\<close>

text \<open>
  \<open>Ok v\<close> is a normal return, \<open>Error\<close> is the return of \<^verbatim>\<open>ERROR_CODE\<close> or of a NULL
  pointer that stands for an error, and \<open>Undef\<close> is an execution whose behaviour C leaves
  undefined: an access outside an array or through a NULL pointer. A theorem that excludes
  \<open>Undef\<close> is a memory-safety statement.
\<close>

datatype 'a result = Ok 'a | Error | Undef

fun rbind :: "'a result \<Rightarrow> ('a \<Rightarrow> 'b result) \<Rightarrow> 'b result" where
  "rbind (Ok v) f = f v"
| "rbind Error f = Error"
| "rbind Undef f = Undef"

fun is_ok :: "'a result \<Rightarrow> bool" where
  "is_ok (Ok v) = True"
| "is_ok Error = False"
| "is_ok Undef = False"

fun rmap :: "('a \<Rightarrow> 'b) \<Rightarrow> 'a result \<Rightarrow> 'b result" where
  "rmap f (Ok v) = Ok (f v)"
| "rmap f Error = Error"
| "rmap f Undef = Undef"

lemma rbind_eq_Ok: "rbind r f = Ok w \<longleftrightarrow> (\<exists>v. r = Ok v \<and> f v = Ok w)"
  by (cases r) auto

lemma rbind_eq_Undef: "rbind r f = Undef \<longleftrightarrow> r = Undef \<or> (\<exists>v. r = Ok v \<and> f v = Undef)"
  by (cases r) auto

lemma rbind_eq_Error: "rbind r f = Error \<longleftrightarrow> r = Error \<or> (\<exists>v. r = Ok v \<and> f v = Error)"
  by (cases r) auto

lemma rmap_eq_Ok: "rmap f r = Ok w \<longleftrightarrow> (\<exists>v. r = Ok v \<and> w = f v)"
  by (cases r) auto

lemma is_ok_iff: "is_ok r \<longleftrightarrow> (\<exists>v. r = Ok v)"
  by (cases r) auto

lemma result_not_Ok: "(\<forall>v. r \<noteq> Ok v) \<longleftrightarrow> r = Error \<or> r = Undef"
  by (cases r) auto

lemma rmap_rbind: "rmap f r = rbind r (\<lambda>v. Ok (f v))"
  by (cases r) auto

lemma rbind_assoc: "rbind (rbind r f) g = rbind r (\<lambda>v. rbind (f v) g)"
  by (cases r) auto

named_theorems result_simps \<open>equations that open up a result\<close>

declare rbind_eq_Ok [result_simps] rbind_eq_Undef [result_simps] rbind_eq_Error [result_simps]
  rmap_eq_Ok [result_simps]

subsection \<open>Error codes and identifiers\<close>

text \<open>
  \<^verbatim>\<open>ERROR_CODE(type)\<close> is \<^verbatim>\<open>(type)(-1)\<close>: the largest value of an unsigned type. Node
  identifiers are 32 bits wide, pipe identifiers 16 bits, \<^verbatim>\<open>size_t\<close> 64 bits; identifiers
  are naturals here and every narrowing cast writes its \<open>mod\<close> out. Pipe flags and
  servlet identifiers, which the code takes apart bit by bit, are words.
\<close>

type_synonym node_id = nat
type_synonym pipe_id = nat
type_synonym pipe_flags = "32 word"
type_synonym stab_entry = "32 word"

definition ERROR_NODE_ID :: node_id where "ERROR_NODE_ID = 2 ^ 32 - 1"
definition ERROR_PIPE_ID :: pipe_id where "ERROR_PIPE_ID = 2 ^ 16 - 1"
definition ERROR_SIZE :: nat where "ERROR_SIZE = 2 ^ 64 - 1"
definition ERROR_FLAGS :: pipe_flags where "ERROR_FLAGS = - 1"
definition ERROR_STAB_ENTRY :: stab_entry where "ERROR_STAB_ENTRY = - 1"

lemmas error_code_defs = ERROR_NODE_ID_def ERROR_PIPE_ID_def ERROR_SIZE_def ERROR_FLAGS_def
  ERROR_STAB_ENTRY_def

text \<open>
  \<^verbatim>\<open>malloc\<close>, \<^verbatim>\<open>calloc\<close> and \<^verbatim>\<open>realloc\<close> may fail at any call. The allocations of a
  function are numbered in program order and an allocator answer tells, for each number,
  whether the call succeeds; every theorem holds for every answer unless it says otherwise.
\<close>

type_synonym alloc = "nat \<Rightarrow> bool"

abbreviation (input) plenty :: alloc where "plenty \<equiv> \<lambda>_. True"

subsection \<open>Lists\<close>

lemma filter_snoc: "filter P (xs @ [x]) = filter P xs @ (if P x then [x] else [])"
  by simp

lemma count_list_distinct: "distinct xs \<Longrightarrow> count_list xs x = (if x \<in> set xs then 1 else 0)"
  by (induction xs) auto

lemma distinct_map_bound:
  assumes "distinct (map f xs)" and "\<forall>x\<in>set xs. f x < (n::nat)"
  shows "length xs \<le> n"
proof -
  have "card (set (map f xs)) = length xs" using assms(1) by (metis distinct_card length_map)
  moreover have "set (map f xs) \<subseteq> {..<n}" using assms(2) by auto
  ultimately show ?thesis by (metis card_lessThan card_mono finite_lessThan)
qed

lemma length_filter_list_update:
  assumes "i < length xs"
  shows "length (filter P (xs[i := y])) + (if P (xs ! i) then 1 else 0)
    = length (filter P xs) + (if P y then 1 else 0)"
  using assms
proof (induction xs arbitrary: i)
  case Nil
  then show ?case by simp
next
  case (Cons x xs)
  then show ?case by (cases i) auto
qed

lemma sum_list_list_update_nat:
  "i < length xs \<Longrightarrow> sum_list (xs[i := y]) + xs ! i = sum_list xs + (y::nat)"
  by (induction xs arbitrary: i) (auto split: nat.splits)

lemma filter_concat_tagged:
  assumes "\<forall>i<length ys. \<forall>e\<in>set (ys ! i). f e = i" and "u < length ys"
  shows "filter (\<lambda>e. f e = u) (concat ys) = ys ! u"
  using assms
proof (induction ys rule: rev_induct)
  case Nil
  then show ?case by simp
next
  case (snoc y ys)
  have y: "\<forall>e\<in>set y. f e = length ys" using snoc.prems(1) by (metis length_append_singleton lessI nth_append_length)
  have ys: "\<forall>i<length ys. \<forall>e\<in>set (ys ! i). f e = i"
    using snoc.prems(1) by (metis length_append_singleton less_Suc_eq nth_append)
  show ?case
  proof (cases "u < length ys")
    case True
    then have "filter (\<lambda>e. f e = u) y = []" using y by (auto simp: filter_empty_conv)
    with True ys snoc.IH show ?thesis by (simp add: nth_append)
  next
    case False
    then have u: "u = length ys" using snoc.prems(2) by simp
    have "f e < length ys" if "e \<in> set (concat ys)" for e
    proof -
      from that obtain i where "i < length ys" "e \<in> set (ys ! i)"
        by (auto simp: in_set_conv_nth) (metis in_set_conv_nth)
      with ys show ?thesis by auto
    qed
    then have "\<forall>e\<in>set (concat ys). f e \<noteq> u" using u by fastforce
    then have "filter (\<lambda>e. f e = u) (concat ys) = []" by (simp only: filter_empty_conv)
    with y u show ?thesis by simp
  qed
qed

lemma length_filter_split:
  "length (filter P xs) = length (filter (\<lambda>x. P x \<and> Q x) xs) + length (filter (\<lambda>x. P x \<and> \<not> Q x) xs)"
  by (induction xs) auto

lemma of_nat_word_eq_1:
  assumes "n < 2 ^ 32" shows "(of_nat n :: 32 word) = 1 \<longleftrightarrow> n = 1"
proof
  assume "(of_nat n :: 32 word) = 1"
  then have "unat (of_nat n :: 32 word) = 1" by simp
  then show "n = 1" using assms by (simp add: unat_of_nat)
qed simp

text \<open>The measures of the loops that count in words.\<close>

lemma drop_bit_1_less: "1 < w \<Longrightarrow> unat (drop_bit 1 w) < unat w" for w :: "32 word"
  by (simp add: drop_bit_eq_div unat_div word_less_nat_alt)

lemma unat_dist_less:
  fixes j t :: "64 word"
  assumes "j \<noteq> t"
  shows "unat (t - (j + 1)) < unat (t - j)"
proof -
  have "t - j \<noteq> 0" using assms by simp
  then have "unat (t - j - 1) < unat (t - j)" by (metis measure_unat)
  then show ?thesis by (simp add: diff_diff_add)
qed

lemma word_up_less: "i < n \<Longrightarrow> unat (n - (i + 1)) < unat (n - i)" for i n :: "32 word"
proof -
  assume "i < n"
  then have "n - i \<noteq> 0" by auto
  then have "unat (n - i - 1) < unat (n - i)" by (metis measure_unat)
  then show ?thesis by (simp add: diff_diff_add)
qed

end
