(* ===== verification/Vector.thy ===== *)
theory Vector
  imports Prelude
begin

text \<open>
  The growable array of \<^verbatim>\<open>src/utils/vector.c\<close> and \<^verbatim>\<open>include/utils/vector.h\<close>. The
  elements are typed instead of being \<^verbatim>\<open>_elem_size\<close> bytes each; the capacity is kept,
  because growth doubles it and a write beyond it is out of bounds.
\<close>

record 'a vector =
  vec_cap :: nat
  vec_data :: "'a list"

definition vector_new :: "bool \<Rightarrow> nat \<Rightarrow> 'a vector result" where
  "vector_new malloc_ok init_cap =
     (if \<not> malloc_ok then Error else Ok \<lparr>vec_cap = init_cap, vec_data = []\<rparr>)"

definition vector_length :: "'a vector \<Rightarrow> nat" where
  "vector_length vec = length (vec_data vec)"

definition vector_get :: "'a vector \<Rightarrow> nat \<Rightarrow> 'a result" where
  "vector_get vec n = (if n < vector_length vec then Ok (vec_data vec ! n) else Undef)"

definition vector_set :: "'a vector \<Rightarrow> nat \<Rightarrow> 'a \<Rightarrow> 'a vector result" where
  "vector_set vec n x =
     (if n < vector_length vec then Ok (vec\<lparr>vec_data := (vec_data vec)[n := x]\<rparr>) else Undef)"

definition vector_clear :: "'a vector \<Rightarrow> 'a vector" where
  "vector_clear vec = vec\<lparr>vec_data := []\<rparr>"

text \<open>
  \<^verbatim>\<open>vector_append\<close>: the doubling is a \<^verbatim>\<open>size_t\<close> multiplication, and the element is
  written at index \<^verbatim>\<open>_length\<close> whatever the capacity is by then. A NULL data pointer
  leaves the new element as the allocator left it, which the argument \<open>junk\<close> stands for.
\<close>

definition vector_append :: "bool \<Rightarrow> 'a vector \<Rightarrow> 'a option \<Rightarrow> 'a \<Rightarrow> 'a vector result" where
  "vector_append realloc_ok vec data junk =
     (let full = (vec_cap vec = vector_length vec);
          next_cap = vec_cap vec * 2 mod 2 ^ 64
      in if full \<and> \<not> realloc_ok then Error
         else let vec' = (if full then vec\<lparr>vec_cap := next_cap\<rparr> else vec)
              in if vector_length vec' < vec_cap vec'
                 then Ok (vec'\<lparr>vec_data := vec_data vec' @
                              [case data of Some x \<Rightarrow> x | None \<Rightarrow> junk]\<rparr>)
                 else Undef)"

text \<open>
  The well-formedness of a vector that is used within the address space: the elements fit
  the capacity and the capacity is neither zero nor at the point where doubling wraps.
\<close>

definition vector_wf :: "'a vector \<Rightarrow> bool" where
  "vector_wf vec \<longleftrightarrow> vector_length vec \<le> vec_cap vec \<and> 0 < vec_cap vec"

definition vector_fits :: "'a vector \<Rightarrow> bool" where
  "vector_fits vec \<longleftrightarrow> vec_cap vec < 2 ^ 63"

lemma vector_new_wf:
  "vector_new ok n = Ok vec \<Longrightarrow> 0 < n \<Longrightarrow> vector_wf vec"
  by (auto simp: vector_new_def vector_wf_def vector_length_def split: if_splits)

lemma vector_new_data: "vector_new ok n = Ok vec \<Longrightarrow> vec_data vec = []"
  by (auto simp: vector_new_def split: if_splits)

lemma vector_append_Ok_data:
  "vector_append ok vec (Some x) junk = Ok vec' \<Longrightarrow> vec_data vec' = vec_data vec @ [x]"
  by (auto simp: vector_append_def Let_def split: if_splits)

lemma vector_append_Ok_wf:
  "vector_append ok vec d junk = Ok vec' \<Longrightarrow> vector_wf vec'"
  by (auto simp: vector_append_def vector_wf_def vector_length_def Let_def split: if_splits)

lemma vector_append_no_Undef:
  assumes "vector_wf vec" and "vector_fits vec"
  shows "vector_append ok vec d junk \<noteq> Undef"
proof -
  have "vec_cap vec * 2 mod 2 ^ 64 = vec_cap vec * 2"
    using assms(2) by (simp add: vector_fits_def)
  then show ?thesis
    using assms(1) by (auto simp: vector_append_def vector_wf_def Let_def vector_length_def)
qed

lemma vector_append_enough:
  assumes "vector_wf vec" and "vector_fits vec"
  shows "\<exists>vec'. vector_append True vec d junk = Ok vec'"
  using vector_append_no_Undef [OF assms, of True d junk]
  by (cases "vector_append True vec d junk") (auto simp: vector_append_def Let_def split: if_splits)

lemma vector_get_append:
  assumes "vector_append ok vec (Some x) junk = Ok vec'"
  shows "vector_get vec' n =
    (if n = vector_length vec then Ok x else vector_get vec n)"
  using vector_append_Ok_data [OF assms]
  by (auto simp: vector_get_def vector_length_def nth_append)

lemma vector_set_get:
  "vector_set vec n x = Ok vec' \<Longrightarrow> vector_get vec' m = (if m = n then Ok x else vector_get vec m)"
  by (auto simp: vector_set_def vector_get_def vector_length_def split: if_splits)

subsection \<open>The interface clients see\<close>

text \<open>
  A client of the vector (the pipe definition table, the servlet table, the service buffer)
  relies on three laws: appending puts the element behind the others, reading gives it back,
  and a vector that satisfies the invariant is never written out of bounds.
\<close>

locale append_store =
  fixes elems :: "'s \<Rightarrow> 'a list"
    and append :: "bool \<Rightarrow> 's \<Rightarrow> 'a \<Rightarrow> 's result"
    and get :: "'s \<Rightarrow> nat \<Rightarrow> 'a result"
    and inv :: "'s \<Rightarrow> bool"
    and room :: "'s \<Rightarrow> bool"
  assumes append_elems: "append ok s x = Ok s' \<Longrightarrow> elems s' = elems s @ [x]"
    and append_inv: "append ok s x = Ok s' \<Longrightarrow> inv s'"
    and append_safe: "inv s \<Longrightarrow> room s \<Longrightarrow> append ok s x \<noteq> Undef"
    and append_total: "inv s \<Longrightarrow> room s \<Longrightarrow> append True s x \<noteq> Error"
    and get_elems: "get s n = (if n < length (elems s) then Ok (elems s ! n) else Undef)"
begin

lemma append_succeeds:
  assumes "inv s" and "room s"
  shows "\<exists>s'. append True s x = Ok s' \<and> elems s' = elems s @ [x] \<and> inv s'"
  using append_safe [OF assms, of True x] append_total [OF assms, of x]
    append_elems [of True s x] append_inv [of True s x]
  by (cases "append True s x") auto

lemma append_fresh_index:
  assumes "append ok s x = Ok s'"
  shows "get s' (length (elems s)) = Ok x"
    and "n < length (elems s) \<Longrightarrow> get s' n = get s n"
  using append_elems [OF assms] by (auto simp: get_elems nth_append)

lemma append_length: "append ok s x = Ok s' \<Longrightarrow> length (elems s') = Suc (length (elems s))"
  using append_elems by fastforce

lemma append_all:
  assumes "append ok s x = Ok s'" and "list_all P (elems s)" and "P x"
  shows "list_all P (elems s')"
  using append_elems [OF assms(1)] assms(2,3) by simp

end

definition vector_push :: "bool \<Rightarrow> 'a vector \<Rightarrow> 'a \<Rightarrow> 'a vector result" where
  "vector_push ok vec x = vector_append ok vec (Some x) x"

lemma vector_append_None: "vector_append ok vec None junk = vector_push ok vec junk"
  by (simp add: vector_push_def vector_append_def Let_def)

lemma vector_append_Some: "vector_append ok vec (Some x) junk = vector_push ok vec x"
  by (simp add: vector_push_def vector_append_def Let_def)

interpretation vec: append_store vec_data vector_push vector_get vector_wf vector_fits
proof
  fix ok s x s'
  assume a: "vector_push ok s x = Ok s'"
  show "vec_data s' = vec_data s @ [x]"
    using a vector_append_Ok_data by (metis vector_push_def)
  show "vector_wf s'"
    using a vector_append_Ok_wf by (metis vector_push_def)
next
  fix s :: "'a vector" and ok x
  assume a: "vector_wf s" "vector_fits s"
  show "vector_push ok s x \<noteq> Undef"
    using vector_append_no_Undef [OF a] by (simp add: vector_push_def)
  show "vector_push True s x \<noteq> Error"
    using vector_append_enough [OF a, of "Some x" x] by (auto simp: vector_push_def)
next
  fix s :: "'a vector" and n
  show "vector_get s n = (if n < length (vec_data s) then Ok (vec_data s ! n) else Undef)"
    by (simp add: vector_get_def vector_length_def)
qed

subsection \<open>Properties\<close>

text \<open>appending to a well-formed vector that can still be doubled succeeds when the
  allocator does, never writes out of bounds, puts the element behind the others, keeps the
  vector well formed, and every read before or at the new index gives the expected element.\<close>

theorem vector_append_correct:
  assumes "vector_wf vec" and "vector_fits vec"
  shows "\<exists>vec'. vector_append True vec (Some x) junk = Ok vec' \<and> vector_wf vec'
    \<and> vec_data vec' = vec_data vec @ [x]
    \<and> (\<forall>n. vector_get vec' n = (if n = vector_length vec then Ok x else vector_get vec n))"
proof -
  obtain vec' where "vector_push True vec x = Ok vec'" "vec_data vec' = vec_data vec @ [x]" "vector_wf vec'"
    using vec.append_succeeds [OF assms] by blast
  then show ?thesis
    using vector_get_append [of True vec x junk] by (auto simp: vector_append_Some)
qed

definition sample_vector :: "nat vector" where
  "sample_vector = \<lparr>vec_cap = 2, vec_data = [7, 8]\<rparr>"

theorem vector_append_correct_witness:
  "\<exists>vec'. vector_append True sample_vector (Some 9) 0 = Ok vec' \<and> vec_data vec' = [7, 8, 9]"
proof -
  have "vector_wf sample_vector" "vector_fits sample_vector"
    by (simp_all add: sample_vector_def vector_wf_def vector_fits_def vector_length_def)
  from vector_append_correct [OF this, of 9 0] show ?thesis by (auto simp: sample_vector_def)
qed

text \<open>a vector created with capacity zero never grows, because zero is doubled to zero: the
  first append to it writes outside the allocated memory.\<close>

theorem vector_zero_capacity_overrun:
  "rbind (vector_new True 0) (\<lambda>vec. vector_append True vec (Some x) junk) = Undef"
  by (simp add: vector_new_def vector_append_def vector_length_def Let_def)

end
