(* ===== verification/StrBuf.thy ===== *)
theory StrBuf
  imports Prelude
begin

text \<open>
  The bounded string builder of \<^verbatim>\<open>src/utils/string.c\<close>. The memory behind
  \<^verbatim>\<open>res->result\<close> is \<open>sb_mem\<close>; the write pointer \<^verbatim>\<open>buffer\<close> is the offset
  \<open>sb_pos\<close> into it and \<open>sb_size\<close> is the remaining \<^verbatim>\<open>size\<close>. C strings are lists of
  characters without the terminating NUL.
\<close>

record strbuf =
  sb_mem :: string
  sb_pos :: nat
  sb_size :: nat

abbreviation NUL :: char where "NUL \<equiv> CHR 0x00"

definition write_at :: "string \<Rightarrow> nat \<Rightarrow> string \<Rightarrow> string result" where
  "write_at mem pos s =
     (if pos + length s \<le> length mem
      then Ok (take pos mem @ s @ drop (pos + length s) mem) else Undef)"

definition c_str :: "string \<Rightarrow> string" where
  "c_str mem = takeWhile (\<lambda>c. c \<noteq> NUL) mem"

definition string_buffer_open :: "string \<Rightarrow> nat \<Rightarrow> strbuf" where
  "string_buffer_open buffer sz = \<lparr>sb_mem = buffer, sb_pos = 0, sb_size = sz\<rparr>"

text \<open>The part the two append functions share: copy \<open>s\<close> and advance by its length.\<close>

definition sb_advance :: "strbuf \<Rightarrow> string \<Rightarrow> (nat \<times> strbuf) result" where
  "sb_advance buf s =
     rmap (\<lambda>mem. (length s, buf\<lparr>sb_mem := mem, sb_pos := sb_pos buf + length s,
                               sb_size := sb_size buf - length s\<rparr>))
       (write_at (sb_mem buf) (sb_pos buf) s)"

definition string_buffer_append :: "string \<Rightarrow> strbuf \<Rightarrow> (nat \<times> strbuf) result" where
  "string_buffer_append str buf =
     (if sb_size buf \<le> 1 then Ok (0, buf)
      else let s_size = length str;
               s_size = (if s_size \<ge> sb_size buf then sb_size buf - 1 else s_size)
           in sb_advance buf (take s_size str))"

text \<open>
  \<^verbatim>\<open>string_buffer_append_range\<close> takes a pointer pair; \<open>None\<close> is a NULL pointer on
  either side. The test \<^verbatim>\<open>begin >= end\<close> is the empty range.
\<close>

definition string_buffer_append_range :: "string option \<Rightarrow> strbuf \<Rightarrow> (nat \<times> strbuf) result" where
  "string_buffer_append_range rng buf =
     (case rng of
        None \<Rightarrow> Ok (0, buf)
      | Some str \<Rightarrow>
          if str = [] \<or> sb_size buf = 0 then Ok (0, buf)
          else let to_write = length str;
                   to_write = (if to_write + 1 > sb_size buf then sb_size buf - 1 else to_write)
               in sb_advance buf (take to_write str))"

definition c_int :: "nat \<Rightarrow> int" where
  "c_int n = sint (of_nat n :: 32 word)"

text \<open>
  \<^verbatim>\<open>string_buffer_appendf\<close>: \<open>out\<close> is the complete text \<^verbatim>\<open>vsnprintf\<close> formats, \<open>None\<close>
  its failure. \<^verbatim>\<open>vsnprintf\<close> writes the part that fits and a NUL and returns the length of
  the complete text as an \<^verbatim>\<open>int\<close>.
\<close>

definition string_buffer_appendf :: "strbuf \<Rightarrow> string option \<Rightarrow> (nat \<times> strbuf) result" where
  "string_buffer_appendf buf out =
     (if sb_size buf \<le> 1 then Ok (0, buf)
      else case out of
        None \<Rightarrow> Ok (0, buf)
      | Some text \<Rightarrow>
          rbind (write_at (sb_mem buf) (sb_pos buf) (take (sb_size buf - 1) text @ [NUL]))
            (\<lambda>mem.
               let rc = c_int (length text);
                   rc' = (if c_int (sb_size buf) - rc < 1 then c_int (sb_size buf) - 1 else rc)
               in if rc < 0 then Ok (0, buf\<lparr>sb_mem := mem\<rparr>)
                  else Ok (nat rc', buf\<lparr>sb_mem := mem, sb_pos := sb_pos buf + nat rc',
                                       sb_size := sb_size buf - nat rc'\<rparr>)))"

definition string_buffer_close :: "strbuf \<Rightarrow> (string option \<times> strbuf) result" where
  "string_buffer_close buf =
     (if sb_size buf < 1 then Ok (None, buf)
      else rmap (\<lambda>mem. (Some mem, buf\<lparr>sb_mem := mem, sb_size := sb_size buf - 1\<rparr>))
             (write_at (sb_mem buf) (sb_pos buf) [NUL]))"

subsection \<open>Invariant and abstraction\<close>

text \<open>
  The write pointer and the remaining size stay within the memory; the text written so far
  is the prefix of the memory before the write pointer.
\<close>

definition sb_inv :: "strbuf \<Rightarrow> bool" where
  "sb_inv buf \<longleftrightarrow> sb_pos buf + sb_size buf \<le> length (sb_mem buf)"

definition sb_text :: "strbuf \<Rightarrow> string" where
  "sb_text buf = take (sb_pos buf) (sb_mem buf)"

lemma write_at_safe: "pos + length s \<le> length mem \<Longrightarrow> write_at mem pos s \<noteq> Undef"
  by (simp add: write_at_def)

lemma sb_open_inv: "sz \<le> length mem \<Longrightarrow> sb_inv (string_buffer_open mem sz)"
  by (simp add: sb_inv_def string_buffer_open_def)

lemma sb_advance_ok:
  assumes "sb_inv buf" and "length s \<le> sb_size buf"
  obtains buf' where "sb_advance buf s = Ok (length s, buf')" and "sb_inv buf'"
    and "sb_text buf' = sb_text buf @ s" and "sb_size buf' = sb_size buf - length s"
    and "length (sb_mem buf') = length (sb_mem buf)"
    and "sb_pos buf' = sb_pos buf + length s"
proof -
  have le: "sb_pos buf + length s \<le> length (sb_mem buf)"
    using assms by (simp add: sb_inv_def)
  let ?b = "buf\<lparr>sb_mem := take (sb_pos buf) (sb_mem buf) @ s @ drop (sb_pos buf + length s) (sb_mem buf),
    sb_pos := sb_pos buf + length s, sb_size := sb_size buf - length s\<rparr>"
  show ?thesis
    by (rule that [of ?b])
      (use le assms in \<open>auto simp: sb_advance_def write_at_def sb_inv_def sb_text_def\<close>)
qed

text \<open>What an append adds to the text: the string cut at the room that is left.\<close>

definition sb_room :: "strbuf \<Rightarrow> nat" where
  "sb_room buf = sb_size buf - 1"

lemma append_ok:
  assumes "sb_inv buf"
  obtains buf' where "string_buffer_append str buf = Ok (min (length str) (sb_room buf), buf')"
    and "sb_inv buf'" and "sb_text buf' = sb_text buf @ take (sb_room buf) str"
    and "sb_room buf' = sb_room buf - min (length str) (sb_room buf)"
    and "length (sb_mem buf') = length (sb_mem buf)" and "(0 < sb_size buf) = (0 < sb_size buf')"
proof (cases "sb_size buf \<le> 1")
  case True
  then show ?thesis
    by (intro that [of buf]) (auto simp: string_buffer_append_def sb_room_def assms)
next
  case False
  let ?s = "take (sb_size buf - 1) str"
  have s: "take (if length str \<ge> sb_size buf then sb_size buf - 1 else length str) str = ?s"
    using False by auto
  have "length ?s \<le> sb_size buf" by simp
  then obtain buf' where b: "sb_advance buf ?s = Ok (length ?s, buf')" "sb_inv buf'"
    "sb_text buf' = sb_text buf @ ?s" "sb_size buf' = sb_size buf - length ?s"
    "length (sb_mem buf') = length (sb_mem buf)"
    using sb_advance_ok [OF assms] by metis
  show ?thesis
    by (rule that [of buf'])
      (use b False s in \<open>auto simp: string_buffer_append_def Let_def sb_room_def\<close>)
qed

lemma close_ok:
  assumes "sb_inv buf" and "0 < sb_size buf" and "NUL \<notin> set (sb_text buf)"
  obtains mem buf' where "string_buffer_close buf = Ok (Some mem, buf')"
    and "c_str mem = sb_text buf" and "length mem = length (sb_mem buf)"
proof -
  let ?m = "take (sb_pos buf) (sb_mem buf) @ [NUL] @ drop (sb_pos buf + 1) (sb_mem buf)"
  have le: "sb_pos buf + 1 \<le> length (sb_mem buf)"
    using assms by (simp add: sb_inv_def)
  have "c_str ?m = sb_text buf"
    using assms(3) by (auto simp: c_str_def sb_text_def takeWhile_append2 takeWhile_tail)
  then show ?thesis
    by (rule that [rotated]) (use le assms in \<open>auto simp: string_buffer_close_def write_at_def\<close>)
qed

fun string_buffer_append_all :: "string list \<Rightarrow> strbuf \<Rightarrow> strbuf result" where
  "string_buffer_append_all [] buf = Ok buf"
| "string_buffer_append_all (s # ss) buf =
     rbind (string_buffer_append s buf) (\<lambda>(n, buf'). string_buffer_append_all ss buf')"

lemma append_all_ok:
  assumes "sb_inv buf"
  shows "\<exists>buf'. string_buffer_append_all ss buf = Ok buf' \<and> sb_inv buf'
    \<and> sb_text buf' = sb_text buf @ take (sb_room buf) (concat ss)
    \<and> length (sb_mem buf') = length (sb_mem buf) \<and> (0 < sb_size buf) = (0 < sb_size buf')"
  using assms
proof (induction ss arbitrary: buf)
  case Nil
  then show ?case by simp
next
  case (Cons s ss)
  obtain b1 where b1: "string_buffer_append s buf = Ok (min (length s) (sb_room buf), b1)"
    "sb_inv b1" "sb_text b1 = sb_text buf @ take (sb_room buf) s"
    "sb_room b1 = sb_room buf - min (length s) (sb_room buf)"
    "length (sb_mem b1) = length (sb_mem buf)" "(0 < sb_size buf) = (0 < sb_size b1)"
    using append_ok [OF Cons.prems] by metis
  obtain b2 where b2: "string_buffer_append_all ss b1 = Ok b2" "sb_inv b2"
    "sb_text b2 = sb_text b1 @ take (sb_room b1) (concat ss)"
    "length (sb_mem b2) = length (sb_mem b1)" "(0 < sb_size b1) = (0 < sb_size b2)"
    using Cons.IH [OF b1(2)] by auto
  have "take (sb_room buf - length s) (concat ss) = take (sb_room b1) (concat ss)"
    by (cases "length s \<le> sb_room buf") (auto simp: b1(4))
  then show ?case
    using b1 b2 by (simp add: take_append)
qed

text \<open>The whole life of a builder: open on a buffer, append strings, close.\<close>

definition string_buffer_build :: "string \<Rightarrow> nat \<Rightarrow> string list \<Rightarrow> (string option \<times> strbuf) result" where
  "string_buffer_build mem sz ss =
     rbind (string_buffer_append_all ss (string_buffer_open mem sz)) string_buffer_close"

lemma build_ok:
  assumes "0 < sz" and "sz \<le> length mem" and "NUL \<notin> set (concat ss)"
  shows "\<exists>mem' buf. string_buffer_build mem sz ss = Ok (Some mem', buf)
     \<and> c_str mem' = take (sz - 1) (concat ss) \<and> length mem' = length mem"
proof -
  let ?b = "string_buffer_open mem sz"
  have inv: "sb_inv ?b" by (rule sb_open_inv [OF assms(2)])
  have init: "sb_text ?b = []" "sb_room ?b = sz - 1" "0 < sb_size ?b" "sb_mem ?b = mem"
    using assms(1) by (simp_all add: string_buffer_open_def sb_text_def sb_room_def)
  obtain b1 where b1: "string_buffer_append_all ss ?b = Ok b1" "sb_inv b1"
    "sb_text b1 = take (sz - 1) (concat ss)" "length (sb_mem b1) = length mem" "0 < sb_size b1"
    using append_all_ok [OF inv, of ss] init by auto
  have "NUL \<notin> set (sb_text b1)"
    using assms(3) b1(3) by (metis in_set_takeD)
  then obtain mem' buf' where "string_buffer_close b1 = Ok (Some mem', buf')"
    "c_str mem' = sb_text b1" "length mem' = length (sb_mem b1)"
    using close_ok [OF b1(2,5)] by metis
  with b1 show ?thesis by (simp add: string_buffer_build_def)
qed

subsection \<open>Properties\<close>

text \<open>C38: opening a string builder on a buffer, appending any strings and closing it never
  writes outside the buffer and leaves the concatenation of the strings, cut to one character
  less than the size, as the C string of the buffer.\<close>

theorem string_buffer_build_correct:
  assumes "0 < sz" and "sz \<le> length mem" and "NUL \<notin> set (concat ss)"
  shows "\<exists>mem' buf. string_buffer_build mem sz ss = Ok (Some mem', buf)
     \<and> c_str mem' = take (sz - 1) (concat ss) \<and> length mem' = length mem"
  using assms by (rule build_ok)

theorem string_buffer_build_correct_witness:
  "\<exists>mem' buf. string_buffer_build ''........'' 6 [''abc'', ''defg''] = Ok (Some mem', buf)
     \<and> c_str mem' = ''abcde'' \<and> length mem' = 8"
  using string_buffer_build_correct [of 6 "''........''" "[''abc'', ''defg'']"]
  by (simp add: numeral_eq_Suc)

end
