(* ===== verification/Pdt.thy ===== *)
theory Pdt
  imports Vector StrBuf
begin

unbundle bit_operations_syntax

text \<open>
  The pipe definition table of a servlet, \<^verbatim>\<open>src/runtime/pdt.c\<close>: a vector of name
  entries with the counters of input and output pipes. A pipe identifier is the index of its
  entry, narrowed to 16 bits. The name is the 128-byte array of the entry; lookups compare
  it as a C string.
\<close>

definition RUNTIME_PIPE_NAME_LEN :: nat where "RUNTIME_PIPE_NAME_LEN = 128"
definition RUNTIME_PDT_INIT_SIZE :: nat where "RUNTIME_PDT_INIT_SIZE = 8"

definition UNTYPED_PIPE_HEADER :: string where
  "UNTYPED_PIPE_HEADER = ''plumber/base/Raw''"

record name_entry =
  ent_name :: string
  ent_flags :: pipe_flags
  ent_type_expr :: "string option"
  ent_type_callback :: "nat option"
  ent_type_callback_data :: nat

record runtime_pdt =
  input_count :: nat
  output_count :: nat
  pdt_vec :: "name_entry vector"

definition RUNTIME_API_PIPE_OUTPUT :: pipe_flags where "RUNTIME_API_PIPE_OUTPUT = 0x10000"

definition pipe_is_output :: "pipe_flags \<Rightarrow> bool" where
  "pipe_is_output f \<longleftrightarrow> f AND RUNTIME_API_PIPE_OUTPUT = RUNTIME_API_PIPE_OUTPUT"

definition pipe_is_input :: "pipe_flags \<Rightarrow> bool" where
  "pipe_is_input f \<longleftrightarrow> \<not> pipe_is_output f"

text \<open>The linear search of \<^verbatim>\<open>_search_table\<close>, from index \<open>i\<close> on.\<close>

fun search_from :: "name_entry list \<Rightarrow> string \<Rightarrow> nat \<Rightarrow> pipe_id" where
  "search_from [] name i = ERROR_PIPE_ID"
| "search_from (e # es) name i =
     (if c_str (ent_name e) = name then i mod 2 ^ 16 else search_from es name (Suc i))"

definition search_table :: "runtime_pdt \<Rightarrow> string \<Rightarrow> pipe_id" where
  "search_table table name = search_from (vec_data (pdt_vec table)) name 0"

definition runtime_pdt_new :: "alloc \<Rightarrow> runtime_pdt result" where
  "runtime_pdt_new mem =
     (if \<not> mem 0 then Error
      else rmap (\<lambda>v. \<lparr>input_count = 0, output_count = 0, pdt_vec = v\<rparr>)
             (vector_new (mem 1) RUNTIME_PDT_INIT_SIZE))"

definition pdt_count_pipe :: "pipe_flags \<Rightarrow> runtime_pdt \<Rightarrow> runtime_pdt" where
  "pdt_count_pipe flags table =
     (if pipe_is_input flags then table\<lparr>input_count := (input_count table + 1) mod 2 ^ 16\<rparr>
      else if pipe_is_output flags then table\<lparr>output_count := (output_count table + 1) mod 2 ^ 16\<rparr>
      else table)"

text \<open>
  \<^verbatim>\<open>runtime_pdt_insert\<close>. Allocation 0 is the copy of the type expression, allocation 1 the
  growth of the vector; \<open>junk\<close> is the uninitialised entry the vector hands out. An \<open>Error\<close>
  leaves the table as it was.
\<close>

definition runtime_pdt_insert ::
  "alloc \<Rightarrow> name_entry \<Rightarrow> runtime_pdt \<Rightarrow> string \<Rightarrow> pipe_flags \<Rightarrow> string option
     \<Rightarrow> (pipe_id \<times> runtime_pdt) result" where
  "runtime_pdt_insert mem junk table name flags type_expr =
     (if search_table table name \<noteq> ERROR_PIPE_ID then Error
      else if type_expr \<noteq> None \<and> \<not> mem 0 then Error
      else rbind (vector_append (mem 1) (pdt_vec table) None junk) (\<lambda>new_vec.
           let id = vector_length new_vec - 1 in
           rbind (vector_get new_vec id) (\<lambda>last.
           rbind (string_buffer_append name
                    (string_buffer_open (ent_name last) RUNTIME_PIPE_NAME_LEN)) (\<lambda>(n, namebuf).
           rbind (string_buffer_close namebuf) (\<lambda>(s, namebuf').
           rbind (vector_set new_vec id
                    (last\<lparr>ent_name := sb_mem namebuf', ent_flags := flags,
                          ent_type_expr := type_expr, ent_type_callback := None,
                          ent_type_callback_data := 0\<rparr>)) (\<lambda>vec'.
           Ok (id mod 2 ^ 16, pdt_count_pipe flags (table\<lparr>pdt_vec := vec'\<rparr>))))))))"

definition runtime_pdt_get_pd_by_name :: "runtime_pdt \<Rightarrow> string \<Rightarrow> pipe_id" where
  "runtime_pdt_get_pd_by_name table name = search_table table name"

text \<open>The guard every access by pipe identifier starts with.\<close>

definition pd_invalid :: "runtime_pdt \<Rightarrow> pipe_id \<Rightarrow> bool" where
  "pd_invalid table pd \<longleftrightarrow> pd = ERROR_PIPE_ID \<or> pd \<ge> vector_length (pdt_vec table)"

definition runtime_pdt_get_flags_by_pd :: "runtime_pdt \<Rightarrow> pipe_id \<Rightarrow> pipe_flags result" where
  "runtime_pdt_get_flags_by_pd table pd =
     (if pd_invalid table pd then Ok ERROR_FLAGS else rmap ent_flags (vector_get (pdt_vec table) pd))"

definition runtime_pdt_get_name :: "runtime_pdt \<Rightarrow> pipe_id \<Rightarrow> string result" where
  "runtime_pdt_get_name table pd =
     (if pd_invalid table pd then Error
      else rmap (\<lambda>e. c_str (ent_name e)) (vector_get (pdt_vec table) pd))"

definition runtime_pdt_get_size :: "runtime_pdt \<Rightarrow> pipe_id" where
  "runtime_pdt_get_size table = vector_length (pdt_vec table) mod 2 ^ 16"

definition runtime_pdt_input_count :: "runtime_pdt \<Rightarrow> pipe_id" where
  "runtime_pdt_input_count table = input_count table"

definition runtime_pdt_output_count :: "runtime_pdt \<Rightarrow> pipe_id" where
  "runtime_pdt_output_count table = output_count table"

definition runtime_pdt_type_expr :: "runtime_pdt \<Rightarrow> pipe_id \<Rightarrow> string result" where
  "runtime_pdt_type_expr table pid =
     (if pd_invalid table pid then Error
      else rmap (\<lambda>e. case ent_type_expr e of None \<Rightarrow> UNTYPED_PIPE_HEADER | Some t \<Rightarrow> t)
             (vector_get (pdt_vec table) pid))"

definition runtime_pdt_set_type_hook ::
  "runtime_pdt \<Rightarrow> pipe_id \<Rightarrow> nat option \<Rightarrow> nat \<Rightarrow> runtime_pdt result" where
  "runtime_pdt_set_type_hook table pid callback data =
     (if pd_invalid table pid then Error
      else rbind (vector_get (pdt_vec table) pid) (\<lambda>entry.
           rmap (\<lambda>v. table\<lparr>pdt_vec := v\<rparr>)
             (vector_set (pdt_vec table) pid
                (entry\<lparr>ent_type_callback := callback, ent_type_callback_data := data\<rparr>))))"

definition runtime_pdt_get_type_hook :: "runtime_pdt \<Rightarrow> pipe_id \<Rightarrow> (nat option \<times> nat) result" where
  "runtime_pdt_get_type_hook table pid =
     (if pd_invalid table pid then Error
      else rmap (\<lambda>e. (ent_type_callback e, ent_type_callback_data e))
             (vector_get (pdt_vec table) pid))"

subsection \<open>Invariant\<close>

abbreviation pdt_entries :: "runtime_pdt \<Rightarrow> name_entry list" where
  "pdt_entries table \<equiv> vec_data (pdt_vec table)"

definition pdt_names :: "runtime_pdt \<Rightarrow> string list" where
  "pdt_names table = map (\<lambda>e. c_str (ent_name e)) (pdt_entries table)"

definition pdt_inv :: "runtime_pdt \<Rightarrow> bool" where
  "pdt_inv table \<longleftrightarrow> vector_wf (pdt_vec table)
     \<and> input_count table = length (filter (\<lambda>e. pipe_is_input (ent_flags e)) (pdt_entries table)) mod 2 ^ 16
     \<and> output_count table = length (filter (\<lambda>e. pipe_is_output (ent_flags e)) (pdt_entries table)) mod 2 ^ 16
     \<and> list_all (\<lambda>e. length (ent_name e) = RUNTIME_PIPE_NAME_LEN) (pdt_entries table)
     \<and> list_all (\<lambda>n. length n < RUNTIME_PIPE_NAME_LEN) (pdt_names table)"

lemma pipe_direction: "pipe_is_output f = (\<not> pipe_is_input f)"
  by (simp add: pipe_is_input_def)

lemma search_from_app:
  "search_from (xs @ ys) name i =
    (if name \<in> (\<lambda>e. c_str (ent_name e)) ` set xs then search_from xs name i
     else search_from ys name (i + length xs))"
  by (induction xs arbitrary: i) auto

lemma search_from_notin:
  "name \<notin> (\<lambda>e. c_str (ent_name e)) ` set es \<Longrightarrow> search_from es name i = ERROR_PIPE_ID"
  by (induction es arbitrary: i) auto

lemma search_from_nth:
  assumes "distinct (map (\<lambda>e. c_str (ent_name e)) es)" and "k < length es"
  shows "search_from es (c_str (ent_name (es ! k))) i = (i + k) mod 2 ^ 16"
  using assms
proof (induction es arbitrary: i k)
  case Nil
  then show ?case by simp
next
  case (Cons e es)
  show ?case
  proof (cases k)
    case 0
    then show ?thesis by simp
  next
    case (Suc j)
    with Cons.prems have "c_str (ent_name e) \<noteq> c_str (ent_name (es ! j))" by auto
    with Suc Cons.prems Cons.IH [of j "Suc i"] show ?thesis by simp
  qed
qed

lemma search_from_in:
  assumes "name \<in> (\<lambda>e. c_str (ent_name e)) ` set es" and "i + length es < 2 ^ 16"
  shows "search_from es name i < 2 ^ 16 - 1"
  using assms by (induction es arbitrary: i) (auto simp: mod_less)

lemma search_table_in:
  assumes "length (pdt_entries table) < 2 ^ 16"
  shows "(search_table table name \<noteq> ERROR_PIPE_ID) = (name \<in> set (pdt_names table))"
proof (cases "name \<in> set (pdt_names table)")
  case True
  then have "search_table table name < 2 ^ 16 - 1"
    unfolding search_table_def using assms by (intro search_from_in) (auto simp: pdt_names_def)
  with True show ?thesis by (simp add: ERROR_PIPE_ID_def)
next
  case False
  then show ?thesis
    unfolding search_table_def pdt_names_def using search_from_notin by (metis set_map)
qed

subsection \<open>What an insertion does\<close>

text \<open>The entry an insertion leaves behind the others.\<close>

lemma pdt_name_buffer:
  assumes "length buf = RUNTIME_PIPE_NAME_LEN" and "NUL \<notin> set name"
  obtains n b s b' where
    "string_buffer_append name (string_buffer_open buf RUNTIME_PIPE_NAME_LEN) = Ok (n, b)"
    and "string_buffer_close b = Ok (s, b')"
    and "c_str (sb_mem b') = take (RUNTIME_PIPE_NAME_LEN - 1) name"
    and "length (sb_mem b') = RUNTIME_PIPE_NAME_LEN"
proof -
  let ?o = "string_buffer_open buf RUNTIME_PIPE_NAME_LEN"
  have inv: "sb_inv ?o" using assms(1) by (simp add: sb_open_inv)
  obtain b where b: "string_buffer_append name ?o = Ok (min (length name) (sb_room ?o), b)"
    "sb_inv b" "sb_text b = sb_text ?o @ take (sb_room ?o) name"
    "length (sb_mem b) = length (sb_mem ?o)" "(0 < sb_size ?o) = (0 < sb_size b)"
    using append_ok [OF inv] by metis
  have t: "sb_text b = take (RUNTIME_PIPE_NAME_LEN - 1) name"
    using b(3) by (simp add: string_buffer_open_def sb_text_def sb_room_def)
  have z: "0 < sb_size b"
    using b(5) by (simp add: string_buffer_open_def RUNTIME_PIPE_NAME_LEN_def)
  have "NUL \<notin> set (sb_text b)"
    using t assms(2) by (metis in_set_takeD)
  then obtain mem b' where c: "string_buffer_close b = Ok (Some mem, b')" "c_str mem = sb_text b"
    "length mem = length (sb_mem b)"
    using close_ok [OF b(2) z] by metis
  have "sb_mem b' = mem"
    using c(1) z by (auto simp: string_buffer_close_def result_simps split: if_splits)
  with b c t show ?thesis
    by (intro that [OF b(1) c(1)]) (auto simp: string_buffer_open_def assms(1))
qed

lemma insert_entry:
  assumes "length (ent_name junk) = RUNTIME_PIPE_NAME_LEN" and "NUL \<notin> set name"
    and "runtime_pdt_insert mem junk table name flags texpr = Ok (pd, table')"
  obtains e where "pdt_entries table' = pdt_entries table @ [e]"
    and "c_str (ent_name e) = take (RUNTIME_PIPE_NAME_LEN - 1) name"
    and "length (ent_name e) = RUNTIME_PIPE_NAME_LEN"
    and "ent_flags e = flags" and "ent_type_expr e = texpr"
    and "ent_type_callback e = None" and "ent_type_callback_data e = 0"
    and "pd = length (pdt_entries table) mod 2 ^ 16" and "vector_wf (pdt_vec table')"
    and "input_count table' = (if pipe_is_input flags then (input_count table + 1) mod 2 ^ 16
           else input_count table)"
    and "output_count table' = (if pipe_is_output flags then (output_count table + 1) mod 2 ^ 16
           else output_count table)"
    and "search_table table name = ERROR_PIPE_ID"
proof -
  obtain n b s b' where name:
    "string_buffer_append name (string_buffer_open (ent_name junk) RUNTIME_PIPE_NAME_LEN) = Ok (n, b)"
    "string_buffer_close b = Ok (s, b')"
    "c_str (sb_mem b') = take (RUNTIME_PIPE_NAME_LEN - 1) name"
    "length (sb_mem b') = RUNTIME_PIPE_NAME_LEN"
    using pdt_name_buffer [OF assms(1,2)] by metis
  obtain v where v: "vector_push (mem 1) (pdt_vec table) junk = Ok v"
    using assms(3) by (auto simp: runtime_pdt_insert_def vector_append_None result_simps split: if_splits)
  have vd: "vec_data v = pdt_entries table @ [junk]" by (rule vec.append_elems [OF v])
  have wf: "vector_wf v" by (rule vec.append_inv [OF v])
  let ?e = "junk\<lparr>ent_name := sb_mem b', ent_flags := flags, ent_type_expr := texpr,
    ent_type_callback := None, ent_type_callback_data := 0\<rparr>"
  let ?t = "table\<lparr>pdt_vec := v\<lparr>vec_data := pdt_entries table @ [?e]\<rparr>\<rparr>"
  have "search_table table name = ERROR_PIPE_ID"
    using assms(3) by (auto simp: runtime_pdt_insert_def split: if_splits)
  moreover have "(pd, table') = (length (pdt_entries table) mod 2 ^ 16, pdt_count_pipe flags ?t)"
    using assms(3) v vd name(1,2)
    by (auto simp: runtime_pdt_insert_def vector_append_None Let_def vector_length_def
        vec.get_elems vector_set_def split: if_splits)
  moreover have "vector_wf (v\<lparr>vec_data := pdt_entries table @ [?e]\<rparr>)"
    using wf vd by (simp add: vector_wf_def vector_length_def)
  ultimately show ?thesis
    by (intro that [of ?e]) (auto simp: name pdt_count_pipe_def pipe_direction)
qed

lemma pdt_insert_inv:
  assumes "pdt_inv table" and "length (ent_name junk) = RUNTIME_PIPE_NAME_LEN"
    and "NUL \<notin> set name"
    and "runtime_pdt_insert mem junk table name flags texpr = Ok (pd, table')"
  shows "pdt_inv table'"
proof -
  obtain e where e: "pdt_entries table' = pdt_entries table @ [e]"
    "c_str (ent_name e) = take (RUNTIME_PIPE_NAME_LEN - 1) name"
    "length (ent_name e) = RUNTIME_PIPE_NAME_LEN" "ent_flags e = flags"
    "vector_wf (pdt_vec table')"
    "input_count table' = (if pipe_is_input flags then (input_count table + 1) mod 2 ^ 16
           else input_count table)"
    "output_count table' = (if pipe_is_output flags then (output_count table + 1) mod 2 ^ 16
           else output_count table)"
    using insert_entry [OF assms(2,3,4)] by metis
  have len: "length (c_str (ent_name e)) < RUNTIME_PIPE_NAME_LEN"
    using e(2) by (simp add: RUNTIME_PIPE_NAME_LEN_def)
  show ?thesis
    using assms(1) e(1,3-7) len
    by (auto simp: pdt_inv_def pdt_names_def pipe_direction mod_Suc_eq)
qed

lemma pdt_new_inv: "runtime_pdt_new mem = Ok table \<Longrightarrow> pdt_inv table \<and> pdt_entries table = []"
  by (auto simp: runtime_pdt_new_def result_simps pdt_inv_def pdt_names_def vector_new_data
      RUNTIME_PDT_INIT_SIZE_def split: if_splits dest: vector_new_wf)

lemma pdt_insert_safe:
  assumes "pdt_inv table" and "vector_fits (pdt_vec table)"
    and "length (ent_name junk) = RUNTIME_PIPE_NAME_LEN" and "NUL \<notin> set name"
  shows "runtime_pdt_insert mem junk table name flags texpr \<noteq> Undef"
proof -
  obtain n b s b' where name:
    "string_buffer_append name (string_buffer_open (ent_name junk) RUNTIME_PIPE_NAME_LEN) = Ok (n, b)"
    "string_buffer_close b = Ok (s, b')"
    using pdt_name_buffer [OF assms(3,4)] by metis
  have "vector_push (mem 1) (pdt_vec table) junk \<noteq> Undef"
    using assms(1,2) by (simp add: pdt_inv_def vec.append_safe)
  then show ?thesis
    by (cases "vector_push (mem 1) (pdt_vec table) junk")
      (auto simp: runtime_pdt_insert_def vector_append_None Let_def vec.append_length
        vector_length_def vec.get_elems vector_set_def name(2)
        name(1) vec.append_elems)
qed

subsection \<open>Properties\<close>

text \<open>A pipe whose name fits the entry is found under its name right after it was inserted,
  with its flags and its type expression, and every other name is found as before.\<close>

theorem pdt_insert_lookup:
  assumes "pdt_inv table" and "length (ent_name junk) = RUNTIME_PIPE_NAME_LEN"
    and "NUL \<notin> set name" and "length name < RUNTIME_PIPE_NAME_LEN"
    and "length (pdt_entries table) < 2 ^ 16 - 1"
    and "runtime_pdt_insert mem junk table name flags texpr = Ok (pd, table')"
  shows "runtime_pdt_get_pd_by_name table' name = pd \<and> pd = length (pdt_entries table)
    \<and> runtime_pdt_get_name table' pd = Ok name
    \<and> runtime_pdt_get_flags_by_pd table' pd = Ok flags
    \<and> runtime_pdt_type_expr table' pd = Ok (case texpr of None \<Rightarrow> UNTYPED_PIPE_HEADER | Some t \<Rightarrow> t)
    \<and> (\<forall>other. other \<noteq> name \<longrightarrow>
         runtime_pdt_get_pd_by_name table' other = runtime_pdt_get_pd_by_name table other)"
proof -
  obtain e where e: "pdt_entries table' = pdt_entries table @ [e]"
    "c_str (ent_name e) = take (RUNTIME_PIPE_NAME_LEN - 1) name" "ent_flags e = flags"
    "ent_type_expr e = texpr" "pd = length (pdt_entries table) mod 2 ^ 16"
    "search_table table name = ERROR_PIPE_ID"
    using insert_entry [OF assms(2,3,6)] by metis
  have n: "c_str (ent_name e) = name" using e(2) assms(4) by simp
  have pd: "pd = length (pdt_entries table)" "pd < 2 ^ 16 - 1" using e(5) assms(5) by simp_all
  have "name \<notin> set (pdt_names table)" using e(6) search_table_in [of table name] assms(5) by auto
  then have "name \<notin> (\<lambda>e. c_str (ent_name e)) ` set (pdt_entries table)" by (simp add: pdt_names_def)
  then have "search_table table' name = pd"
    using pd by (simp add: search_table_def e(1) search_from_app n)
  moreover have "search_table table' other = search_table table other" if "other \<noteq> name" for other
    using that n search_from_notin [of other "pdt_entries table" 0]
    by (auto simp: search_table_def e(1) search_from_app)
  moreover have "vector_get (pdt_vec table') pd = Ok e" and "\<not> pd_invalid table' pd"
    using e(1) pd by (simp_all add: vec.get_elems pd_invalid_def vector_length_def ERROR_PIPE_ID_def)
  ultimately show ?thesis
    using n e(3,4) pd by (simp add: runtime_pdt_get_pd_by_name_def runtime_pdt_get_name_def
        runtime_pdt_get_flags_by_pd_def runtime_pdt_type_expr_def)
qed

text \<open>A table for the witnesses: one pipe, then another one.\<close>

definition blank_entry :: name_entry where
  "blank_entry = \<lparr>ent_name = replicate 128 CHR ''x'', ent_flags = 0, ent_type_expr = None,
     ent_type_callback = None, ent_type_callback_data = 0\<rparr>"

definition empty_pdt :: runtime_pdt where
  "empty_pdt = \<lparr>input_count = 0, output_count = 0, pdt_vec = \<lparr>vec_cap = 8, vec_data = []\<rparr>\<rparr>"

lemma empty_pdt_new: "runtime_pdt_new plenty = Ok empty_pdt"
  by (simp add: runtime_pdt_new_def vector_new_def empty_pdt_def RUNTIME_PDT_INIT_SIZE_def)

lemma empty_pdt_insert:
  "\<exists>table'. NUL \<notin> set name \<longrightarrow>
     runtime_pdt_insert plenty blank_entry empty_pdt name flags texpr = Ok (0, table')"
proof (cases "NUL \<in> set name")
  case False
  have len: "length (ent_name blank_entry) = RUNTIME_PIPE_NAME_LEN"
    by (simp add: blank_entry_def RUNTIME_PIPE_NAME_LEN_def)
  obtain n b s b' where "string_buffer_append name
      (string_buffer_open (ent_name blank_entry) RUNTIME_PIPE_NAME_LEN) = Ok (n, b)"
    "string_buffer_close b = Ok (s, b')"
    using pdt_name_buffer [OF len False] by metis
  then show ?thesis
    by (simp add: runtime_pdt_insert_def search_table_def empty_pdt_def vector_append_def
        vector_length_def vector_get_def vector_set_def Let_def)
qed simp

theorem pdt_insert_lookup_witness:
  "\<exists>pd table'. runtime_pdt_insert plenty blank_entry empty_pdt ''in'' 0 None = Ok (pd, table')
     \<and> runtime_pdt_get_pd_by_name table' ''in'' = 0
     \<and> runtime_pdt_type_expr table' 0 = Ok ''plumber/base/Raw''"
proof -
  obtain table' where ins: "runtime_pdt_insert plenty blank_entry empty_pdt ''in'' 0 None = Ok (0, table')"
    using empty_pdt_insert [of "''in''" 0 None] by auto
  have inv: "pdt_inv empty_pdt" using pdt_new_inv [OF empty_pdt_new] by simp
  have len: "length (ent_name blank_entry) = RUNTIME_PIPE_NAME_LEN"
    by (simp add: blank_entry_def RUNTIME_PIPE_NAME_LEN_def)
  show ?thesis
    using pdt_insert_lookup [OF inv len _ _ _ ins] ins
    by (simp add: RUNTIME_PIPE_NAME_LEN_def empty_pdt_def UNTYPED_PIPE_HEADER_def)
qed

text \<open>a pipe whose name has 128 or more characters is inserted, but it is stored under a cut
  name: the table does not find it under the name it was declared with, and inserting the same
  name again is not refused as a duplicate.\<close>

theorem pdt_long_name_not_found:
  assumes "pdt_inv table" and "length (ent_name junk) = RUNTIME_PIPE_NAME_LEN"
    and "NUL \<notin> set name" and "RUNTIME_PIPE_NAME_LEN \<le> length name"
    and "length (pdt_entries table) < 2 ^ 16 - 1"
    and "runtime_pdt_insert mem junk table name flags texpr = Ok (pd, table')"
  shows "runtime_pdt_get_pd_by_name table' name = ERROR_PIPE_ID"
proof -
  have inv: "pdt_inv table'" by (rule pdt_insert_inv [OF assms(1-3,6)])
  then have "name \<notin> set (pdt_names table')"
    using assms(4) by (auto simp: pdt_inv_def list_all_iff)
  moreover obtain e where "pdt_entries table' = pdt_entries table @ [e]"
    using insert_entry [OF assms(2,3,6)] by metis
  ultimately show ?thesis
    using search_table_in [of table' name] assms(5) by (simp add: runtime_pdt_get_pd_by_name_def)
qed

theorem pdt_long_name_not_found_witness:
  "\<exists>pd table'. runtime_pdt_insert plenty blank_entry empty_pdt (replicate 130 CHR ''a'') 0 None = Ok (pd, table')
     \<and> runtime_pdt_get_pd_by_name table' (replicate 130 CHR ''a'') = ERROR_PIPE_ID"
proof -
  let ?name = "replicate 130 CHR ''a''"
  obtain table' where ins: "runtime_pdt_insert plenty blank_entry empty_pdt ?name 0 None = Ok (0, table')"
    using empty_pdt_insert [of ?name 0 None] by auto
  have inv: "pdt_inv empty_pdt" using pdt_new_inv [OF empty_pdt_new] by simp
  have len: "length (ent_name blank_entry) = RUNTIME_PIPE_NAME_LEN"
    by (simp add: blank_entry_def RUNTIME_PIPE_NAME_LEN_def)
  have "NUL \<notin> set ?name" by simp
  then show ?thesis
    using pdt_long_name_not_found [OF inv len _ _ _ ins] ins
    by (simp add: RUNTIME_PIPE_NAME_LEN_def empty_pdt_def)
qed

text \<open>The tables the operations can produce.\<close>

inductive pdt_reachable :: "runtime_pdt \<Rightarrow> bool" where
  new: "runtime_pdt_new mem = Ok table \<Longrightarrow> pdt_reachable table"
| insert: "pdt_reachable table \<Longrightarrow> length (ent_name junk) = RUNTIME_PIPE_NAME_LEN \<Longrightarrow> NUL \<notin> set name \<Longrightarrow>
    runtime_pdt_insert mem junk table name flags texpr = Ok (pd, table') \<Longrightarrow> pdt_reachable table'"
| hook: "pdt_reachable table \<Longrightarrow> runtime_pdt_set_type_hook table pid cb data = Ok table' \<Longrightarrow>
    pdt_reachable table'"

lemma set_type_hook_inv:
  assumes "pdt_inv table" and "runtime_pdt_set_type_hook table pid cb data = Ok table'"
  shows "pdt_inv table'"
proof -
  let ?es = "pdt_entries table"
  let ?e = "(?es ! pid)\<lparr>ent_type_callback := cb, ent_type_callback_data := data\<rparr>"
  have pid: "pid < length ?es" and t': "table' = table\<lparr>pdt_vec := (pdt_vec table)\<lparr>vec_data := ?es[pid := ?e]\<rparr>\<rparr>"
    using assms(2) by (auto simp: runtime_pdt_set_type_hook_def result_simps vec.get_elems
        vector_set_def vector_length_def pd_invalid_def split: if_splits)
  have names: "map (\<lambda>e. c_str (ent_name e)) (?es[pid := ?e]) = map (\<lambda>e. c_str (ent_name e)) ?es"
    using pid by (simp add: map_update list_update_same_conv)
  have cnt: "length (filter P (?es[pid := ?e])) = length (filter P ?es)" if "P ?e = P (?es ! pid)" for P
    using length_filter_list_update [OF pid, of P ?e] that by (auto split: if_splits)
  have len: "list_all (\<lambda>e. length (ent_name e) = RUNTIME_PIPE_NAME_LEN) (?es[pid := ?e])"
    using assms(1) pid by (auto simp: pdt_inv_def list_all_length nth_list_update)
  show ?thesis
    using assms(1) names cnt len
    by (simp add: pdt_inv_def t' pdt_names_def vector_wf_def vector_length_def)
qed



end
