(* ===== verification/Stab.thy ===== *)
theory Stab
  imports Pdt
begin

unbundle bit_operations_syntax

text \<open>
  The servlet table, \<^verbatim>\<open>src/runtime/stab.c\<close>: two namespaces, each with a table of loaded
  binaries and a table of servlet instances, of which one is current. A servlet identifier
  is the index of the instance with the mask \<^verbatim>\<open>0x70000000\<close> set for namespace 1. Loading
  a binary and initialising a servlet run code outside the repository (the dynamic loader and
  the servlet's own functions); they are arguments of \<open>runtime_stab_load\<close>.
\<close>

definition RUNTIME_SERVLET_TAB_INIT_SIZE :: nat where "RUNTIME_SERVLET_TAB_INIT_SIZE = 32"

definition NS_MASK :: stab_entry where "NS_MASK = 0x70000000"
definition NUM_NS :: nat where "NUM_NS = 2"

record servlet_binary =
  bin_name :: string
  bin_path :: string
  bin_desc :: string
  bin_version :: "32 word"

record servlet =
  sv_bin :: servlet_binary
  sv_async :: bool
  sv_argv :: "string list"
  sv_pdt :: runtime_pdt
  sv_owner :: "nat option"
  sv_sig_null :: "32 word"
  sv_sig_error :: "32 word"

record namespace =
  b_table :: "servlet_binary vector option"
  i_table :: "servlet vector option"

record stab =
  ns :: "nat \<Rightarrow> namespace"
  current_nsid :: nat
  first_load :: bool

definition nsid_of :: "stab_entry \<Rightarrow> nat" where
  "nsid_of sid = (if sid AND NS_MASK > 0 then 1 else 0)"

definition get_servlet :: "stab \<Rightarrow> stab_entry \<Rightarrow> servlet result" where
  "get_servlet st sid =
     (if sid = ERROR_STAB_ENTRY then Error
      else if nsid_of sid \<ge> NUM_NS then Error
      else case i_table (ns st (nsid_of sid)) of
        None \<Rightarrow> Error
      | Some tab \<Rightarrow> vector_get tab (unat (sid AND NOT NS_MASK)))"

text \<open>
  \<^verbatim>\<open>_dispose_namespace\<close>; \<open>servlet_free\<close> and \<open>binary_unload\<close> answer whether the
  disposal of one element succeeds. The tables are dropped whatever the answers are.
\<close>

definition dispose_namespace ::
  "(servlet \<Rightarrow> bool) \<Rightarrow> (servlet_binary \<Rightarrow> bool) \<Rightarrow> nat \<Rightarrow> stab \<Rightarrow> bool \<times> stab" where
  "dispose_namespace servlet_free binary_unload nsid st =
     (let n = ns st nsid;
          ok_i = (case i_table n of None \<Rightarrow> True | Some v \<Rightarrow> list_all servlet_free (vec_data v));
          ok_b = (case b_table n of None \<Rightarrow> True | Some v \<Rightarrow> list_all binary_unload (vec_data v))
      in (ok_i \<and> ok_b,
          st\<lparr>ns := (ns st)(nsid := \<lparr>b_table = None, i_table = None\<rparr>)\<rparr>))"

text \<open>
  \<^verbatim>\<open>_init_namespace\<close>. The error path frees a table only when it is NULL, so an instance
  table that was already created stays in place.
\<close>

definition init_namespace :: "alloc \<Rightarrow> nat \<Rightarrow> stab \<Rightarrow> bool \<times> stab" where
  "init_namespace mem nsid st =
     (case vector_new (mem 0) RUNTIME_SERVLET_TAB_INIT_SIZE of
        Ok i \<Rightarrow>
          (case vector_new (mem 1) RUNTIME_SERVLET_TAB_INIT_SIZE of
             Ok b \<Rightarrow> (True, st\<lparr>ns := (ns st)(nsid := \<lparr>b_table = Some b, i_table = Some i\<rparr>)\<rparr>)
           | _ \<Rightarrow> (False, st\<lparr>ns := (ns st)(nsid := \<lparr>b_table = None, i_table = Some i\<rparr>)\<rparr>))
      | _ \<Rightarrow> (False, st\<lparr>ns := (ns st)(nsid := (ns st nsid)\<lparr>i_table := None\<rparr>)\<rparr>))"

definition runtime_stab_init :: "alloc \<Rightarrow> stab \<Rightarrow> bool \<times> stab" where
  "runtime_stab_init mem st = init_namespace mem 0 st"

definition runtime_stab_dispose_all_namespaces ::
  "(servlet \<Rightarrow> bool) \<Rightarrow> (servlet_binary \<Rightarrow> bool) \<Rightarrow> stab \<Rightarrow> bool \<times> stab" where
  "runtime_stab_dispose_all_namespaces sf bu st =
     (let (ok0, st0) = dispose_namespace sf bu 0 st
      in if NUM_NS > 1
         then let (ok1, st1) = dispose_namespace sf bu 1 st0 in (ok0 \<and> ok1, st1)
         else (ok0, st0))"

definition unused_nsid :: "stab \<Rightarrow> nat" where
  "unused_nsid st = NUM_NS - 1 - current_nsid st"

definition runtime_stab_dispose_unused_namespace ::
  "(servlet \<Rightarrow> bool) \<Rightarrow> (servlet_binary \<Rightarrow> bool) \<Rightarrow> stab \<Rightarrow> bool \<times> stab" where
  "runtime_stab_dispose_unused_namespace sf bu st = dispose_namespace sf bu (unused_nsid st) st"

definition runtime_stab_revert_current_namespace ::
  "(servlet \<Rightarrow> bool) \<Rightarrow> (servlet_binary \<Rightarrow> bool) \<Rightarrow> stab \<Rightarrow> bool \<times> stab" where
  "runtime_stab_revert_current_namespace sf bu st =
     (let nsid = unused_nsid st
      in if b_table (ns st nsid) = None \<or> i_table (ns st nsid) = None then (False, st)
         else let (ok, st') = dispose_namespace sf bu (current_nsid st) st
              in if \<not> ok then (False, st') else (True, st'\<lparr>current_nsid := nsid\<rparr>))"

definition runtime_stab_switch_namespace :: "alloc \<Rightarrow> stab \<Rightarrow> bool \<times> stab" where
  "runtime_stab_switch_namespace mem st =
     (if NUM_NS = 1 then (True, st)
      else let new_nsid = unused_nsid st
           in if b_table (ns st new_nsid) \<noteq> None \<or> i_table (ns st new_nsid) \<noteq> None then (False, st)
              else let (ok, st') = init_namespace mem new_nsid (st\<lparr>current_nsid := new_nsid\<rparr>)
                   in if \<not> ok then (False, st') else (True, st'\<lparr>first_load := False\<rparr>))"

text \<open>
  \<^verbatim>\<open>runtime_stab_load\<close>. \<open>find_binary\<close> is the search of the servlet path,
  \<open>binary_load\<close> the dynamic loader, \<open>servlet_new\<close> the instantiation. Allocation 0 is
  the growth of the binary table and 1 that of the instance table.
\<close>

definition load_binary ::
  "alloc \<Rightarrow> (string \<Rightarrow> string option) \<Rightarrow> (string \<Rightarrow> string \<Rightarrow> bool \<Rightarrow> servlet_binary option)
     \<Rightarrow> string \<Rightarrow> string option \<Rightarrow> stab \<Rightarrow> servlet_binary vector
     \<Rightarrow> (servlet_binary option \<times> stab) result" where
  "load_binary mem find_binary binary_load name path st b_tab =
     (case find (\<lambda>b. bin_name b = name) (vec_data b_tab) of
        Some binary \<Rightarrow> Ok (Some binary, st)
      | None \<Rightarrow>
          (case (case path of None \<Rightarrow> find_binary name | Some p \<Rightarrow> Some p) of
             None \<Rightarrow> Ok (None, st)
           | Some p \<Rightarrow>
               (case binary_load p name (first_load st) of
                  None \<Rightarrow> Ok (None, st)
                | Some binary \<Rightarrow>
                    (case vector_push (mem 0) b_tab binary of
                       Error \<Rightarrow> Ok (None, st)
                     | Undef \<Rightarrow> Undef
                     | Ok b_tab' \<Rightarrow>
                         Ok (Some binary,
                             st\<lparr>ns := (ns st)(current_nsid st :=
                                 (ns st (current_nsid st))\<lparr>b_table := Some b_tab'\<rparr>)\<rparr>)))))"

definition runtime_stab_load ::
  "alloc \<Rightarrow> (string \<Rightarrow> string option) \<Rightarrow> (string \<Rightarrow> string \<Rightarrow> bool \<Rightarrow> servlet_binary option)
     \<Rightarrow> (servlet_binary \<Rightarrow> string list \<Rightarrow> servlet option) \<Rightarrow> string list \<Rightarrow> string option \<Rightarrow> stab
     \<Rightarrow> (stab_entry \<times> stab) result" where
  "runtime_stab_load mem find_binary binary_load servlet_new argv path st =
     (case argv of
        [] \<Rightarrow> Ok (ERROR_STAB_ENTRY, st)
      | name # _ \<Rightarrow>
          (let nsid = current_nsid st in
           case (i_table (ns st nsid), b_table (ns st nsid)) of
             (Some i_tab, Some b_tab) \<Rightarrow>
               rbind (load_binary mem find_binary binary_load name path st b_tab)
                 (\<lambda>(bin, st1).
                    case bin of
                      None \<Rightarrow> Ok (ERROR_STAB_ENTRY, st1)
                    | Some binary \<Rightarrow>
                        (case servlet_new binary argv of
                           None \<Rightarrow> Ok (ERROR_STAB_ENTRY, st1)
                         | Some servlet \<Rightarrow>
                             (case vector_push (mem 1) i_tab servlet of
                                Error \<Rightarrow> Ok (ERROR_STAB_ENTRY, st1)
                              | Undef \<Rightarrow> Undef
                              | Ok i_tab' \<Rightarrow>
                                  Ok ((of_nat (vector_length i_tab') - 1)
                                        OR (if nsid \<noteq> 0 then NS_MASK else 0),
                                      st1\<lparr>ns := (ns st1)(nsid :=
                                            (ns st1 nsid)\<lparr>i_table := Some i_tab'\<rparr>)\<rparr>))))
           | _ \<Rightarrow> Ok (ERROR_STAB_ENTRY, st)))"

subsection \<open>Queries on a servlet\<close>

definition runtime_stab_num_pipes :: "stab \<Rightarrow> stab_entry \<Rightarrow> nat result" where
  "runtime_stab_num_pipes st sid =
     (case get_servlet st sid of
        Ok sv \<Rightarrow> Ok (runtime_pdt_get_size (sv_pdt sv)) | Error \<Rightarrow> Ok ERROR_SIZE | Undef \<Rightarrow> Undef)"

definition runtime_stab_get_pdt :: "stab \<Rightarrow> stab_entry \<Rightarrow> runtime_pdt result" where
  "runtime_stab_get_pdt st sid = rmap sv_pdt (get_servlet st sid)"

definition runtime_stab_get_pipe :: "stab \<Rightarrow> stab_entry \<Rightarrow> string \<Rightarrow> pipe_id result" where
  "runtime_stab_get_pipe st sid pipe =
     (case runtime_stab_get_pdt st sid of
        Ok pdt \<Rightarrow> Ok (runtime_pdt_get_pd_by_name pdt pipe) | Error \<Rightarrow> Ok ERROR_PIPE_ID
      | Undef \<Rightarrow> Undef)"

definition runtime_stab_get_pipe_flags :: "stab \<Rightarrow> stab_entry \<Rightarrow> pipe_id \<Rightarrow> pipe_flags result" where
  "runtime_stab_get_pipe_flags st sid pipe =
     (case get_servlet st sid of
        Ok sv \<Rightarrow> runtime_pdt_get_flags_by_pd (sv_pdt sv) pipe | Error \<Rightarrow> Ok ERROR_FLAGS
      | Undef \<Rightarrow> Undef)"

definition runtime_stab_get_num_input_pipe :: "stab \<Rightarrow> stab_entry \<Rightarrow> nat result" where
  "runtime_stab_get_num_input_pipe st sid =
     rmap (\<lambda>sv. runtime_pdt_input_count (sv_pdt sv)) (get_servlet st sid)"

definition runtime_stab_get_num_output_pipe :: "stab \<Rightarrow> stab_entry \<Rightarrow> nat result" where
  "runtime_stab_get_num_output_pipe st sid =
     rmap (\<lambda>sv. runtime_pdt_output_count (sv_pdt sv)) (get_servlet st sid)"

definition runtime_stab_get_description :: "stab \<Rightarrow> stab_entry \<Rightarrow> string result" where
  "runtime_stab_get_description st sid = rmap (\<lambda>sv. bin_desc (sv_bin sv)) (get_servlet st sid)"

definition runtime_stab_get_version :: "stab \<Rightarrow> stab_entry \<Rightarrow> 32 word result" where
  "runtime_stab_get_version st sid =
     (case get_servlet st sid of
        Ok sv \<Rightarrow> Ok (bin_version (sv_bin sv)) | Error \<Rightarrow> Ok (- 1) | Undef \<Rightarrow> Undef)"

definition runtime_stab_get_init_arg :: "stab \<Rightarrow> stab_entry \<Rightarrow> string list result" where
  "runtime_stab_get_init_arg st sid = rmap sv_argv (get_servlet st sid)"

definition runtime_stab_get_binary_path :: "stab \<Rightarrow> stab_entry \<Rightarrow> string result" where
  "runtime_stab_get_binary_path st sid = rmap (\<lambda>sv. bin_path (sv_bin sv)) (get_servlet st sid)"

text \<open>An owner is the address of a service node; NULL, no owner, is \<open>None\<close>.\<close>

definition runtime_stab_set_owner :: "stab \<Rightarrow> stab_entry \<Rightarrow> nat option \<Rightarrow> bool \<Rightarrow> stab result" where
  "runtime_stab_set_owner st sid owner reuse_servlet =
     (if sid = ERROR_STAB_ENTRY \<or> owner = None then Error
      else rbind (get_servlet st sid) (\<lambda>sv.
           if sv_owner sv \<noteq> None \<and> \<not> reuse_servlet then Error
           else case i_table (ns st (nsid_of sid)) of
             None \<Rightarrow> Error
           | Some tab \<Rightarrow>
               rmap (\<lambda>tab'. st\<lparr>ns := (ns st)(nsid_of sid :=
                               (ns st (nsid_of sid))\<lparr>i_table := Some tab'\<rparr>)\<rparr>)
                 (vector_set tab (unat (sid AND NOT NS_MASK)) (sv\<lparr>sv_owner := owner\<rparr>))))"

definition runtime_stab_get_owner :: "stab \<Rightarrow> stab_entry \<Rightarrow> nat option result" where
  "runtime_stab_get_owner st sid =
     (if sid = ERROR_STAB_ENTRY then Ok None
      else case get_servlet st sid of Ok sv \<Rightarrow> Ok (sv_owner sv) | Error \<Rightarrow> Ok None | Undef \<Rightarrow> Undef)"

subsection \<open>Identifiers and their servlets\<close>

text \<open>The identifier of instance \<open>i\<close> of namespace \<open>n\<close>.\<close>

definition sid_of :: "nat \<Rightarrow> nat \<Rightarrow> stab_entry" where
  "sid_of n i = of_nat i OR (if n \<noteq> 0 then NS_MASK else 0)"

lemma NS_MASK_bit: "bit NS_MASK k \<longleftrightarrow> k \<in> {28, 29, 30}"
proof -
  have eq: "NS_MASK = push_bit 28 7" by (simp add: NS_MASK_def)
  have "bit NS_MASK k \<longleftrightarrow> 28 \<le> k \<and> possible_bit TYPE(32 word) k \<and> bit (7 :: 32 word) (k - 28)"
    by (simp only: eq bit_push_bit_iff)
  moreover have "bit (7 :: 32 word) j \<longleftrightarrow> j < 3" for j
  proof -
    have seven: "(7 :: 32 word) = mask 3" by (simp add: mask_eq_exp_minus_1)
    show ?thesis by (subst seven) (auto simp: bit_mask_iff)
  qed
  ultimately have "bit NS_MASK k \<longleftrightarrow> 28 \<le> k \<and> k < 32 \<and> k - 28 < 3"
    by (simp only: possible_bit_word) simp
  also have "\<dots> \<longleftrightarrow> k = 28 \<or> k = 29 \<or> k = 30" by presburger
  finally show ?thesis by simp
qed

lemma small_bit: "i < 2 ^ 28 \<Longrightarrow> bit (of_nat i :: 32 word) k \<Longrightarrow> k < 28"
proof -
  assume i: "i < 2 ^ 28" and b: "bit (of_nat i :: 32 word) k"
  from b have "bit i k" by (simp add: bit_of_nat_iff)
  moreover have "take_bit 28 i = i" using i by (simp add: take_bit_nat_eq_self)
  ultimately show "k < 28" by (metis bit_take_bit_iff)
qed

lemma sid_index:
  assumes "i < 2 ^ 28"
  shows "unat (sid_of n i AND NOT NS_MASK) = i"
proof -
  have "sid_of n i AND NOT NS_MASK = of_nat i"
  proof (rule bit_eqI)
    fix k assume p: "possible_bit TYPE(32 word) k"
    have "bit (of_nat i :: 32 word) k \<Longrightarrow> k < 28" by (rule small_bit [OF assms])
    then show "bit (sid_of n i AND NOT NS_MASK) k = bit (of_nat i :: 32 word) k"
      using p by (auto simp: sid_of_def bit_and_iff bit_or_iff bit_not_iff NS_MASK_bit)
  qed
  then show ?thesis using assms by (simp add: unat_of_nat)
qed

lemma sid_namespace:
  assumes "i < 2 ^ 28" and "n < 2"
  shows "nsid_of (sid_of n i) = n"
proof -
  have "of_nat i AND NS_MASK = 0"
    by (rule bit_eqI) (use small_bit [OF assms(1)] in \<open>fastforce simp: bit_and_iff NS_MASK_bit\<close>)
  moreover have "(of_nat i OR NS_MASK) AND NS_MASK = NS_MASK"
    by (rule bit_eqI) (auto simp: bit_and_iff bit_or_iff)
  moreover have "0 < NS_MASK" by (simp add: NS_MASK_def word_less_def)
  ultimately show ?thesis using assms(2) by (auto simp: nsid_of_def sid_of_def)
qed

lemma sid_not_error: "i < 2 ^ 28 \<Longrightarrow> sid_of n i \<noteq> ERROR_STAB_ENTRY"
proof
  assume i: "i < 2 ^ 28" and e: "sid_of n i = ERROR_STAB_ENTRY"
  have "\<not> bit (sid_of n i) 31"
    using small_bit [OF i, of 31] by (auto simp: sid_of_def bit_or_iff NS_MASK_bit)
  with e show False by (simp add: ERROR_STAB_ENTRY_def)
qed

lemma get_servlet_sid_of:
  assumes "i < 2 ^ 28" and "n < 2" and "i_table (ns st n) = Some tab"
  shows "get_servlet st (sid_of n i) = vector_get tab i"
  using assms by (simp add: get_servlet_def sid_not_error sid_namespace sid_index NUM_NS_def)

lemma load_binary_i_table:
  "load_binary mem fb bl name path st b_tab = Ok (bin, st') \<Longrightarrow>
     i_table (ns st' n) = i_table (ns st n) \<and> current_nsid st' = current_nsid st"
  by (auto simp: load_binary_def split: option.splits result.splits)

text \<open>A successful load, taken apart.\<close>

lemma load_success:
  assumes "runtime_stab_load mem fb bl sn argv path st = Ok (sid, st')" and "sid \<noteq> ERROR_STAB_ENTRY"
  obtains tab tab' bin sv where "i_table (ns st (current_nsid st)) = Some tab"
    and "sn bin argv = Some sv" and "vector_push (mem 1) tab sv = Ok tab'"
    and "sid = sid_of (current_nsid st) (length (vec_data tab))"
    and "i_table (ns st' (current_nsid st)) = Some tab'"
    and "\<And>n. n \<noteq> current_nsid st \<Longrightarrow> i_table (ns st' n) = i_table (ns st n)"
proof -
  obtain name rest where argv: "argv = name # rest"
    using assms by (cases argv) (auto simp: runtime_stab_load_def)
  obtain tab b_tab where tabs: "i_table (ns st (current_nsid st)) = Some tab"
    "b_table (ns st (current_nsid st)) = Some b_tab"
    using assms by (auto simp: runtime_stab_load_def argv Let_def split: option.splits)
  obtain bin st1 where lb: "load_binary mem fb bl name path st b_tab = Ok (Some bin, st1)"
    using assms by (cases "load_binary mem fb bl name path st b_tab")
      (auto simp: runtime_stab_load_def argv Let_def tabs split: option.splits)
  obtain sv where sv: "sn bin argv = Some sv"
    using assms by (cases "sn bin argv") (auto simp: runtime_stab_load_def argv Let_def tabs lb)
  obtain tab' where push: "vector_push (mem 1) tab sv = Ok tab'"
    using assms sv by (cases "vector_push (mem 1) tab sv")
      (auto simp: runtime_stab_load_def argv Let_def tabs lb)
  have "length (vec_data tab') = Suc (length (vec_data tab))" by (rule vec.append_length [OF push])
  with assms(1) sv push show ?thesis
    using load_binary_i_table [OF lb]
    by (intro that [OF tabs(1) sv push])
      (auto simp: runtime_stab_load_def argv Let_def tabs lb sid_of_def vector_length_def)
qed

subsection \<open>Properties\<close>

text \<open>The identifier a load returns names the new servlet, whichever of the two namespaces
  is current, and every identifier that named a servlet before still names the same one.\<close>

theorem stab_load_lookup:
  assumes "runtime_stab_load mem fb bl sn argv path st = Ok (sid, st')" and "sid \<noteq> ERROR_STAB_ENTRY"
    and "current_nsid st < 2"
    and "\<And>tab. i_table (ns st (current_nsid st)) = Some tab \<Longrightarrow> length (vec_data tab) < 2 ^ 28"
  shows "(\<exists>bin sv. sn bin argv = Some sv \<and> get_servlet st' sid = Ok sv)
    \<and> (\<forall>old sv. get_servlet st old = Ok sv \<longrightarrow> get_servlet st' old = Ok sv)"
proof -
  obtain tab tab' bin sv where l: "i_table (ns st (current_nsid st)) = Some tab" "sn bin argv = Some sv"
    "vector_push (mem 1) tab sv = Ok tab'" "sid = sid_of (current_nsid st) (length (vec_data tab))"
    "i_table (ns st' (current_nsid st)) = Some tab'"
    "\<And>n. n \<noteq> current_nsid st \<Longrightarrow> i_table (ns st' n) = i_table (ns st n)"
    using load_success [OF assms(1,2)] by metis
  have "get_servlet st' sid = vector_get tab' (length (vec_data tab))"
    unfolding l(4) by (rule get_servlet_sid_of) (use assms(3,4) l(1,5) in auto)
  then have new: "get_servlet st' sid = Ok sv" using vec.append_fresh_index(1) [OF l(3)] by simp
  moreover have "get_servlet st' old = Ok sv'" if o: "get_servlet st old = Ok sv'" for old sv'
  proof (cases "nsid_of old = current_nsid st")
    case True
    then have g: "vector_get tab (unat (old AND NOT NS_MASK)) = Ok sv'" "old \<noteq> ERROR_STAB_ENTRY"
      using o l(1) by (auto simp: get_servlet_def split: if_splits)
    then have "unat (old AND NOT NS_MASK) < length (vec_data tab)"
      by (auto simp: vec.get_elems split: if_splits)
    then have "vector_get tab' (unat (old AND NOT NS_MASK)) = Ok sv'"
      using vec.append_fresh_index(2) [OF l(3)] g(1) by simp
    with True l(5) g(2) assms(3) show ?thesis by (simp add: get_servlet_def NUM_NS_def)
  next
    case False
    then show ?thesis using o l(6) [OF False] by (auto simp: get_servlet_def split: if_splits)
  qed
  ultimately show ?thesis using l(2) by blast
qed

text \<open>A small table for the witnesses.\<close>

definition mk_entry :: "string \<Rightarrow> pipe_flags \<Rightarrow> name_entry" where
  "mk_entry name flags = \<lparr>ent_name = name @ [NUL], ent_flags = flags, ent_type_expr = None,
     ent_type_callback = None, ent_type_callback_data = 0\<rparr>"

definition mk_servlet :: "string \<Rightarrow> nat \<Rightarrow> nat \<Rightarrow> name_entry list \<Rightarrow> servlet" where
  "mk_servlet name nin nout es =
     \<lparr>sv_bin = \<lparr>bin_name = name, bin_path = ''/'' @ name, bin_desc = [], bin_version = 0\<rparr>,
      sv_async = False, sv_argv = [name],
      sv_pdt = \<lparr>input_count = nin, output_count = nout, pdt_vec = \<lparr>vec_cap = 8, vec_data = es\<rparr>\<rparr>,
      sv_owner = None, sv_sig_null = 0, sv_sig_error = 0\<rparr>"

definition source_servlet :: servlet where
  "source_servlet = mk_servlet ''source'' 1 2
     [mk_entry ''in'' 0, mk_entry ''out'' 0x10000, mk_entry ''alt'' 0x10000]"

definition join_servlet :: servlet where
  "join_servlet = mk_servlet ''join'' 2 1
     [mk_entry ''left'' 0, mk_entry ''right'' 0, mk_entry ''out'' 0x10000]"

definition sample_stab :: stab where
  "sample_stab = \<lparr>ns = (\<lambda>n. if n = 0
       then \<lparr>b_table = Some \<lparr>vec_cap = 4, vec_data = [sv_bin source_servlet, sv_bin join_servlet]\<rparr>,
             i_table = Some \<lparr>vec_cap = 4, vec_data = [source_servlet, join_servlet, source_servlet]\<rparr>\<rparr>
       else \<lparr>b_table = None, i_table = None\<rparr>),
     current_nsid = 0, first_load = True\<rparr>"

lemmas sample_stab_eval = sample_stab_def get_servlet_def nsid_of_def NS_MASK_def NUM_NS_def
  ERROR_STAB_ENTRY_def vector_get_def vector_set_def vector_length_def

lemma sample_servlets:
  "get_servlet sample_stab 0 = Ok source_servlet" "get_servlet sample_stab 1 = Ok join_servlet"
  "get_servlet sample_stab 2 = Ok source_servlet"
  by (simp_all add: sample_stab_eval)

theorem stab_load_lookup_witness:
  "\<exists>sid st'. runtime_stab_load plenty (\<lambda>_. None) (\<lambda>_ _ _. None) (\<lambda>b argv. Some join_servlet)
       [''join''] None sample_stab = Ok (sid, st') \<and> get_servlet st' sid = Ok join_servlet
     \<and> get_servlet st' 0 = Ok source_servlet"
proof -
  let ?load = "runtime_stab_load plenty (\<lambda>_. None) (\<lambda>_ _ _. None) (\<lambda>b argv. Some join_servlet)
       [''join''] None sample_stab"
  obtain st' where l: "?load = Ok (3, st')"
    by (simp add: runtime_stab_load_def sample_stab_def load_binary_def Let_def vector_push_def
        vector_append_def vector_length_def source_servlet_def join_servlet_def mk_servlet_def)
  have e: "(3 :: stab_entry) \<noteq> ERROR_STAB_ENTRY" by (simp add: ERROR_STAB_ENTRY_def)
  show ?thesis using l stab_load_lookup [OF l e] sample_servlets(1) by (simp add: sample_stab_def)
qed

lemma set_owner_get:
  assumes "runtime_stab_set_owner st sid owner reuse = Ok st'"
  obtains sv where "get_servlet st sid = Ok sv" and "get_servlet st' sid = Ok (sv\<lparr>sv_owner := owner\<rparr>)"
    and "owner \<noteq> None" and "sv_owner sv = None \<or> reuse" and "sid \<noteq> ERROR_STAB_ENTRY"
proof -
  have sid: "sid \<noteq> ERROR_STAB_ENTRY" "owner \<noteq> None"
    using assms by (auto simp: runtime_stab_set_owner_def split: if_splits)
  then obtain sv where sv: "get_servlet st sid = Ok sv" "sv_owner sv = None \<or> reuse"
    using assms by (auto simp: runtime_stab_set_owner_def result_simps split: if_splits)
  then obtain tab tab' where t: "i_table (ns st (nsid_of sid)) = Some tab"
    "vector_set tab (unat (sid AND NOT NS_MASK)) (sv\<lparr>sv_owner := owner\<rparr>) = Ok tab'"
    "st' = st\<lparr>ns := (ns st)(nsid_of sid := (ns st (nsid_of sid))\<lparr>i_table := Some tab'\<rparr>)\<rparr>"
    using assms sid by (auto simp: runtime_stab_set_owner_def result_simps split: if_splits option.splits)
  have "nsid_of sid < NUM_NS" by (simp add: nsid_of_def NUM_NS_def)
  then have "get_servlet st' sid = Ok (sv\<lparr>sv_owner := owner\<rparr>)"
    using sid t vector_set_get [OF t(2)] by (simp add: get_servlet_def)
  with sv sid show ?thesis using that by blast
qed

text \<open>A servlet has at most one owner: once a node owns a servlet, claiming it for another
  node fails unless reuse is allowed, and the recorded owner is the one that was set.\<close>

theorem stab_owner_exclusive:
  assumes "runtime_stab_set_owner st sid (Some a) reuse = Ok st'"
  shows "runtime_stab_get_owner st' sid = Ok (Some a)
    \<and> runtime_stab_set_owner st' sid (Some b) False = Error"
proof -
  obtain sv where "get_servlet st' sid = Ok (sv\<lparr>sv_owner := Some a\<rparr>)" "sid \<noteq> ERROR_STAB_ENTRY"
    using set_owner_get [OF assms] by metis
  then show ?thesis by (simp add: runtime_stab_get_owner_def runtime_stab_set_owner_def)
qed

theorem stab_owner_exclusive_witness:
  "\<exists>st'. runtime_stab_set_owner sample_stab 1 (Some 5) False = Ok st'
     \<and> runtime_stab_set_owner st' 1 (Some 6) False = Error"
proof -
  obtain st' where o: "runtime_stab_set_owner sample_stab 1 (Some 5) False = Ok st'"
    by (simp add: runtime_stab_set_owner_def sample_stab_eval join_servlet_def mk_servlet_def)
  then show ?thesis using stab_owner_exclusive [OF o, of 6] by blast
qed

end
