(* ===== verification/ServiceBuf.thy ===== *)
theory ServiceBuf
  imports Stab
begin

text \<open>
  The service buffer of \<^verbatim>\<open>src/sched/service.c\<close>, in which a service graph is described
  before it is built: the nodes, the pipes between them and the two ends of the service.
\<close>

definition SCHED_SERVICE_BUFFER_NODE_LIST_INIT_SIZE :: nat where
  "SCHED_SERVICE_BUFFER_NODE_LIST_INIT_SIZE = 32"
definition SCHED_SERVICE_BUFFER_OUT_GOING_LIST_INIT_SIZE :: nat where
  "SCHED_SERVICE_BUFFER_OUT_GOING_LIST_INIT_SIZE = 8"

record pipe_descriptor =
  source_node_id :: node_id
  destination_node_id :: node_id
  source_pipe_desc :: pipe_id
  destination_pipe_desc :: pipe_id

record buffer_node =
  bn_servlet_id :: stab_entry
  bn_flags :: "32 word"

record service_buffer =
  reuse_servlet :: bool
  buf_nodes :: "buffer_node vector"
  buf_pipes :: "pipe_descriptor vector"
  buf_input_node :: node_id
  buf_input_pipe :: pipe_id
  buf_output_node :: node_id
  buf_output_pipe :: pipe_id

definition check_node_id :: "service_buffer \<Rightarrow> node_id \<Rightarrow> bool" where
  "check_node_id buffer node_id \<longleftrightarrow>
     node_id \<noteq> ERROR_NODE_ID \<and> node_id < vector_length (buf_nodes buffer)"

definition check_pipe :: "stab \<Rightarrow> service_buffer \<Rightarrow> node_id \<Rightarrow> pipe_id \<Rightarrow> bool \<Rightarrow> unit result" where
  "check_pipe st buffer node_id pipe_id incoming =
     (if \<not> check_node_id buffer node_id then Error
      else rbind (vector_get (buf_nodes buffer) node_id) (\<lambda>node.
           rbind (runtime_stab_num_pipes st (bn_servlet_id node)) (\<lambda>npipes.
           if npipes = ERROR_SIZE \<or> npipes \<le> pipe_id \<or> pipe_id = ERROR_PIPE_ID then Error
           else rbind (runtime_stab_get_pipe_flags st (bn_servlet_id node) pipe_id) (\<lambda>flags.
                if incoming
                then (if \<not> pipe_is_input flags then Error else Ok ())
                else (if \<not> pipe_is_output flags then Error else Ok ())))))"

definition sched_service_buffer_new :: "alloc \<Rightarrow> service_buffer result" where
  "sched_service_buffer_new mem =
     (if \<not> mem 0 then Error
      else rbind (vector_new (mem 1) SCHED_SERVICE_BUFFER_NODE_LIST_INIT_SIZE) (\<lambda>nodes.
           rmap (\<lambda>pipes. \<lparr>reuse_servlet = False, buf_nodes = nodes, buf_pipes = pipes,
                          buf_input_node = ERROR_NODE_ID, buf_input_pipe = ERROR_PIPE_ID,
                          buf_output_node = ERROR_NODE_ID, buf_output_pipe = ERROR_PIPE_ID\<rparr>)
             (vector_new (mem 2) SCHED_SERVICE_BUFFER_OUT_GOING_LIST_INIT_SIZE)))"

definition sched_service_buffer_allow_reuse_servlet :: "service_buffer \<Rightarrow> service_buffer" where
  "sched_service_buffer_allow_reuse_servlet buffer = buffer\<lparr>reuse_servlet := True\<rparr>"

definition sched_service_buffer_add_node ::
  "bool \<Rightarrow> service_buffer \<Rightarrow> stab_entry \<Rightarrow> (node_id \<times> service_buffer) result" where
  "sched_service_buffer_add_node realloc_ok buffer sid =
     (if sid = ERROR_STAB_ENTRY then Error
      else let ret = vector_length (buf_nodes buffer) mod 2 ^ 32;
               node = \<lparr>bn_servlet_id = sid, bn_flags = 0\<rparr>
           in rmap (\<lambda>v. (ret, buffer\<lparr>buf_nodes := v\<rparr>))
                (vector_push realloc_ok (buf_nodes buffer) node))"

text \<open>The two ends of a pipe are slots: a node and one of its pipes.\<close>

definition src_slot :: "pipe_descriptor \<Rightarrow> node_id \<times> pipe_id" where
  "src_slot d = (source_node_id d, source_pipe_desc d)"

definition dst_slot :: "pipe_descriptor \<Rightarrow> node_id \<times> pipe_id" where
  "dst_slot d = (destination_node_id d, destination_pipe_desc d)"

text \<open>The duplication check of \<^verbatim>\<open>sched_service_buffer_add_pipe\<close>, a linear search.\<close>

definition slot_conflict :: "pipe_descriptor \<Rightarrow> pipe_descriptor \<Rightarrow> bool" where
  "slot_conflict desc d \<longleftrightarrow>
     (source_node_id desc = source_node_id d \<and> source_pipe_desc desc = source_pipe_desc d)
     \<or> (source_node_id desc = destination_node_id d \<and> source_pipe_desc desc = destination_pipe_desc d)
     \<or> (destination_node_id desc = source_node_id d \<and> destination_pipe_desc desc = source_pipe_desc d)
     \<or> (destination_node_id desc = destination_node_id d
         \<and> destination_pipe_desc desc = destination_pipe_desc d)"

definition sched_service_buffer_add_pipe ::
  "bool \<Rightarrow> stab \<Rightarrow> service_buffer \<Rightarrow> pipe_descriptor \<Rightarrow> service_buffer result" where
  "sched_service_buffer_add_pipe realloc_ok st buffer desc =
     rbind (check_pipe st buffer (source_node_id desc) (source_pipe_desc desc) False) (\<lambda>_.
     rbind (check_pipe st buffer (destination_node_id desc) (destination_pipe_desc desc) True) (\<lambda>_.
     if list_ex (slot_conflict desc) (vec_data (buf_pipes buffer)) then Error
     else rmap (\<lambda>v. buffer\<lparr>buf_pipes := v\<rparr>) (vector_push realloc_ok (buf_pipes buffer) desc)))"

definition sched_service_buffer_set_input ::
  "stab \<Rightarrow> service_buffer \<Rightarrow> node_id \<Rightarrow> pipe_id \<Rightarrow> service_buffer result" where
  "sched_service_buffer_set_input st buffer node pipe =
     rmap (\<lambda>_. buffer\<lparr>buf_input_node := node, buf_input_pipe := pipe\<rparr>)
       (check_pipe st buffer node pipe True)"

definition sched_service_buffer_set_output ::
  "stab \<Rightarrow> service_buffer \<Rightarrow> node_id \<Rightarrow> pipe_id \<Rightarrow> service_buffer result" where
  "sched_service_buffer_set_output st buffer node pipe =
     rmap (\<lambda>_. buffer\<lparr>buf_output_node := node, buf_output_pipe := pipe\<rparr>)
       (check_pipe st buffer node pipe False)"

subsection \<open>Invariant\<close>

abbreviation nodes_of :: "service_buffer \<Rightarrow> buffer_node list" where
  "nodes_of buffer \<equiv> vec_data (buf_nodes buffer)"

abbreviation pipes_of :: "service_buffer \<Rightarrow> pipe_descriptor list" where
  "pipes_of buffer \<equiv> vec_data (buf_pipes buffer)"

text \<open>A slot that the checks of the buffer accept, on the input or the output side.\<close>

definition valid_slot :: "stab \<Rightarrow> service_buffer \<Rightarrow> node_id \<times> pipe_id \<Rightarrow> bool \<Rightarrow> bool" where
  "valid_slot st buffer s incoming \<longleftrightarrow> check_pipe st buffer (fst s) (snd s) incoming = Ok ()"

text \<open>
  Every pipe leads from an output slot to an input slot, and no slot carries two pipes.
\<close>

definition buffer_inv :: "stab \<Rightarrow> service_buffer \<Rightarrow> bool" where
  "buffer_inv st buffer \<longleftrightarrow> vector_wf (buf_nodes buffer) \<and> vector_wf (buf_pipes buffer)
     \<and> (\<forall>d\<in>set (pipes_of buffer). valid_slot st buffer (src_slot d) False
                                 \<and> valid_slot st buffer (dst_slot d) True)
     \<and> distinct (map src_slot (pipes_of buffer)) \<and> distinct (map dst_slot (pipes_of buffer))"

lemma slot_conflict_iff:
  "slot_conflict desc d \<longleftrightarrow>
     src_slot desc \<in> {src_slot d, dst_slot d} \<or> dst_slot desc \<in> {src_slot d, dst_slot d}"
  by (auto simp: slot_conflict_def src_slot_def dst_slot_def)

lemma check_pipe_bounds:
  assumes "check_pipe st buffer nid pid inc = Ok ()"
  shows "nid < length (nodes_of buffer)" and "pid < 2 ^ 16 - 1"
    and "\<exists>sv. get_servlet st (bn_servlet_id (nodes_of buffer ! nid)) = Ok sv
           \<and> pid < length (pdt_entries (sv_pdt sv))
           \<and> pipe_is_input (ent_flags (pdt_entries (sv_pdt sv) ! pid)) = inc"
proof -
  show n: "nid < length (nodes_of buffer)"
    using assms by (auto simp: check_pipe_def check_node_id_def vector_length_def split: if_splits)
  let ?sid = "bn_servlet_id (nodes_of buffer ! nid)"
  obtain sv where sv: "get_servlet st ?sid = Ok sv"
    using assms n by (cases "get_servlet st ?sid")
      (auto simp: check_pipe_def vec.get_elems runtime_stab_num_pipes_def ERROR_SIZE_def split: if_splits)
  let ?len = "length (pdt_entries (sv_pdt sv))"
  have p: "pid < ?len mod 2 ^ 16" "pid \<noteq> ERROR_PIPE_ID"
    using assms n sv by (auto simp: check_pipe_def vec.get_elems runtime_stab_num_pipes_def
        runtime_pdt_get_size_def vector_length_def split: if_splits)
  moreover have "?len mod 2 ^ 16 < 2 ^ 16" and "?len mod 2 ^ 16 \<le> ?len" by simp_all
  ultimately show "pid < 2 ^ 16 - 1" by (simp add: ERROR_PIPE_ID_def)
  have len: "pid < ?len" using p \<open>?len mod 2 ^ 16 \<le> ?len\<close> by linarith
  with sv show "\<exists>sv. get_servlet st ?sid = Ok sv \<and> pid < length (pdt_entries (sv_pdt sv))
           \<and> pipe_is_input (ent_flags (pdt_entries (sv_pdt sv) ! pid)) = inc"
    using assms n p
    by (auto simp: check_pipe_def vec.get_elems runtime_stab_get_pipe_flags_def
        runtime_pdt_get_flags_by_pd_def pd_invalid_def vector_length_def pipe_is_input_def
        runtime_stab_num_pipes_def runtime_pdt_get_size_def split: if_splits)
qed

lemma check_pipe_cong:
  assumes "nodes_of b' = nodes_of b @ extra" and "check_pipe st b nid pid inc = Ok ()"
  shows "check_pipe st b' nid pid inc = Ok ()"
proof -
  have "nid < length (nodes_of b)" using check_pipe_bounds(1) [OF assms(2)] .
  with assms show ?thesis
    by (auto simp: check_pipe_def check_node_id_def vector_length_def vec.get_elems nth_append
        split: if_splits)
qed

lemma valid_slot_disjoint:
  assumes "valid_slot st b s False" shows "\<not> valid_slot st b s True"
  using assms check_pipe_bounds(3) [of st b "fst s" "snd s" False]
    check_pipe_bounds(3) [of st b "fst s" "snd s" True] by (auto simp: valid_slot_def)

lemma buffer_new_inv: "sched_service_buffer_new mem = Ok b \<Longrightarrow> buffer_inv st b"
  by (auto simp: sched_service_buffer_new_def buffer_inv_def result_simps vector_new_data
      SCHED_SERVICE_BUFFER_NODE_LIST_INIT_SIZE_def SCHED_SERVICE_BUFFER_OUT_GOING_LIST_INIT_SIZE_def
      split: if_splits dest: vector_new_wf)

lemma add_node_inv:
  assumes "buffer_inv st b" and "sched_service_buffer_add_node ok b sid = Ok (nid, b')"
  shows "buffer_inv st b'"
proof -
  obtain v where v: "vector_push ok (buf_nodes b) \<lparr>bn_servlet_id = sid, bn_flags = 0\<rparr> = Ok v"
    "b' = b\<lparr>buf_nodes := v\<rparr>"
    using assms(2) by (auto simp: sched_service_buffer_add_node_def Let_def result_simps split: if_splits)
  have "nodes_of b' = nodes_of b @ [\<lparr>bn_servlet_id = sid, bn_flags = 0\<rparr>]"
    using vec.append_elems [OF v(1)] v(2) by simp
  with assms(1) v vec.append_inv [OF v(1)] show ?thesis
    unfolding buffer_inv_def valid_slot_def by (auto intro: check_pipe_cong)
qed

lemma add_pipe_success:
  assumes "sched_service_buffer_add_pipe ok st b desc = Ok b'"
  shows "pipes_of b' = pipes_of b @ [desc]" and "buf_nodes b' = buf_nodes b"
    and "vector_wf (buf_pipes b')"
    and "valid_slot st b (src_slot desc) False" and "valid_slot st b (dst_slot desc) True"
    and "list_all (\<lambda>d. \<not> slot_conflict desc d) (pipes_of b)"
proof -
  obtain v where v: "vector_push ok (buf_pipes b) desc = Ok v" "b' = b\<lparr>buf_pipes := v\<rparr>"
    using assms by (auto simp: sched_service_buffer_add_pipe_def result_simps split: if_splits)
  show "pipes_of b' = pipes_of b @ [desc]" and "buf_nodes b' = buf_nodes b"
    and "vector_wf (buf_pipes b')"
    using v vec.append_elems [OF v(1)] vec.append_inv [OF v(1)] by auto
  show "valid_slot st b (src_slot desc) False" and "valid_slot st b (dst_slot desc) True"
    and "list_all (\<lambda>d. \<not> slot_conflict desc d) (pipes_of b)"
    using assms by (auto simp: sched_service_buffer_add_pipe_def result_simps valid_slot_def
        src_slot_def dst_slot_def list_ex_iff list_all_iff split: if_splits)
qed

lemma valid_slot_pipes: "buf_nodes b' = buf_nodes b \<Longrightarrow> valid_slot st b' s i = valid_slot st b s i"
  by (simp add: valid_slot_def check_pipe_def check_node_id_def)

lemma add_pipe_inv:
  assumes "buffer_inv st b" and "sched_service_buffer_add_pipe ok st b desc = Ok b'"
  shows "buffer_inv st b'"
proof -
  note s = add_pipe_success [OF assms(2)]
  have "src_slot desc \<notin> set (map src_slot (pipes_of b))" "dst_slot desc \<notin> set (map dst_slot (pipes_of b))"
    using s(6) by (auto simp: list_all_iff slot_conflict_iff)
  then show ?thesis
    using assms(1) s by (auto simp: buffer_inv_def valid_slot_pipes [OF s(2)])
qed

text \<open>Distinct slots of one node have distinct pipes, so a node has fewer than \<open>2 ^ 16\<close> pipes.\<close>

lemma slots_of_node_bound:
  fixes f :: "'a \<Rightarrow> node_id \<times> pipe_id"
  assumes "distinct (map f ds)" and "\<forall>d\<in>set ds. fst (f d) = v" and "\<forall>d\<in>set ds. snd (f d) < 2 ^ 16 - 1"
  shows "length ds < 2 ^ 16"
proof -
  have "inj_on snd (set (map f ds))"
    using assms(2) by (auto simp: inj_on_def prod_eq_iff)
  then have "distinct (map (\<lambda>d. snd (f d)) ds)"
    using assms(1) by (simp add: distinct_map inj_on_def)
  then have "length ds \<le> 2 ^ 16 - 1"
    by (rule distinct_map_bound) (use assms(3) in simp)
  then show ?thesis by simp
qed

subsection \<open>Properties\<close>

text \<open>The buffers the API can produce over a fixed servlet table.\<close>

inductive buffer_reachable :: "stab \<Rightarrow> service_buffer \<Rightarrow> bool" for st where
  new: "sched_service_buffer_new mem = Ok b \<Longrightarrow> buffer_reachable st b"
| reuse: "buffer_reachable st b \<Longrightarrow> buffer_reachable st (sched_service_buffer_allow_reuse_servlet b)"
| add_node: "buffer_reachable st b \<Longrightarrow> sched_service_buffer_add_node ok b sid = Ok (nid, b') \<Longrightarrow>
    buffer_reachable st b'"
| add_pipe: "buffer_reachable st b \<Longrightarrow> sched_service_buffer_add_pipe ok st b desc = Ok b' \<Longrightarrow>
    buffer_reachable st b'"
| set_input: "buffer_reachable st b \<Longrightarrow> sched_service_buffer_set_input st b nid pid = Ok b' \<Longrightarrow>
    buffer_reachable st b'"
| set_output: "buffer_reachable st b \<Longrightarrow> sched_service_buffer_set_output st b nid pid = Ok b' \<Longrightarrow>
    buffer_reachable st b'"

lemma buffer_inv_cong:
  assumes "buffer_inv st b" and "buf_nodes b' = buf_nodes b" and "buf_pipes b' = buf_pipes b"
  shows "buffer_inv st b'"
  using assms by (simp add: buffer_inv_def valid_slot_pipes [OF assms(2)])

lemma buffer_reachable_inv: "buffer_reachable st b \<Longrightarrow> buffer_inv st b"
proof (induction rule: buffer_reachable.induct)
  case (new mem b)
  then show ?case by (rule buffer_new_inv)
next
  case (reuse b)
  show ?case by (intro buffer_inv_cong [OF reuse.IH]) (simp_all add: sched_service_buffer_allow_reuse_servlet_def)
next
  case (add_node b ok sid nid b')
  then show ?case using add_node_inv by blast
next
  case (add_pipe b ok desc b')
  then show ?case using add_pipe_inv by blast
next
  case (set_input b nid pid b')
  then show ?case by (intro buffer_inv_cong [OF set_input.IH])
      (auto simp: sched_service_buffer_set_input_def result_simps)
next
  case (set_output b nid pid b')
  then show ?case by (intro buffer_inv_cong [OF set_output.IH])
      (auto simp: sched_service_buffer_set_output_def result_simps)
qed

text \<open>C7: in every buffer that the API can produce, each pipe leads from an output slot of an
  existing node to an input slot of an existing node, no slot carries two pipes, and no node
  has more incoming or outgoing pipes than the 16-bit counters of a service node can hold.\<close>

theorem buffer_slots_exclusive:
  assumes "buffer_reachable st b"
  shows "buffer_inv st b \<and> (\<forall>v. length (filter (\<lambda>d. destination_node_id d = v) (pipes_of b)) < 2 ^ 16
     \<and> length (filter (\<lambda>d. source_node_id d = v) (pipes_of b)) < 2 ^ 16)"
proof -
  have inv: "buffer_inv st b" by (rule buffer_reachable_inv [OF assms])
  have bound: "snd (src_slot d) < 2 ^ 16 - 1 \<and> snd (dst_slot d) < 2 ^ 16 - 1" if "d \<in> set (pipes_of b)" for d
    using inv that check_pipe_bounds(2) unfolding buffer_inv_def valid_slot_def by blast
  have "length (filter (\<lambda>d. destination_node_id d = v) (pipes_of b)) < 2 ^ 16" for v
    by (rule slots_of_node_bound [where f = dst_slot and v = v])
      (use inv bound in \<open>auto simp: buffer_inv_def dst_slot_def intro: distinct_map_filter\<close>)
  moreover have "length (filter (\<lambda>d. source_node_id d = v) (pipes_of b)) < 2 ^ 16" for v
    by (rule slots_of_node_bound [where f = src_slot and v = v])
      (use inv bound in \<open>auto simp: buffer_inv_def src_slot_def intro: distinct_map_filter\<close>)
  ultimately show ?thesis using inv by blast
qed

text \<open>A buffer with one node for the witnesses, and its reachability.\<close>

definition empty_buffer :: service_buffer where
  "empty_buffer = \<lparr>reuse_servlet = False, buf_nodes = \<lparr>vec_cap = 32, vec_data = []\<rparr>,
     buf_pipes = \<lparr>vec_cap = 8, vec_data = []\<rparr>, buf_input_node = ERROR_NODE_ID,
     buf_input_pipe = ERROR_PIPE_ID, buf_output_node = ERROR_NODE_ID, buf_output_pipe = ERROR_PIPE_ID\<rparr>"

lemma empty_buffer_new: "sched_service_buffer_new plenty = Ok empty_buffer"
  by (simp add: sched_service_buffer_new_def vector_new_def empty_buffer_def
      SCHED_SERVICE_BUFFER_NODE_LIST_INIT_SIZE_def SCHED_SERVICE_BUFFER_OUT_GOING_LIST_INIT_SIZE_def)

theorem buffer_slots_exclusive_witness: "buffer_inv sample_stab empty_buffer"
  using buffer_slots_exclusive [OF buffer_reachable.new [OF empty_buffer_new]] by blast

text \<open>A pipe is refused exactly when an end of it is not a valid output or input slot, when one
  of its slots is already in use, or when the vector cannot grow; a refusal changes nothing and
  the checks themselves never go out of bounds when the servlets of the two nodes exist.\<close>

theorem add_pipe_accepts_iff:
  assumes "vector_wf (buf_pipes b)" and "vector_fits (buf_pipes b)"
  shows "(\<exists>b'. sched_service_buffer_add_pipe True st b desc = Ok b') \<longleftrightarrow>
    valid_slot st b (src_slot desc) False \<and> valid_slot st b (dst_slot desc) True
    \<and> (\<forall>d\<in>set (pipes_of b). src_slot desc \<notin> {src_slot d, dst_slot d}
                            \<and> dst_slot desc \<notin> {src_slot d, dst_slot d})"
proof -
  obtain v where v: "vector_push True (buf_pipes b) desc = Ok v"
    using vec.append_succeeds [OF assms] by blast
  show ?thesis
    by (auto simp: sched_service_buffer_add_pipe_def result_simps v valid_slot_def list_ex_iff
        slot_conflict_iff src_slot_def [of desc] dst_slot_def [of desc] split: if_splits)
qed

theorem add_pipe_accepts_iff_witness:
  "\<not> (\<exists>b'. sched_service_buffer_add_pipe True sample_stab empty_buffer
      \<lparr>source_node_id = 0, destination_node_id = 0, source_pipe_desc = 1, destination_pipe_desc = 0\<rparr> = Ok b')"
proof -
  have "vector_wf (buf_pipes empty_buffer)" "vector_fits (buf_pipes empty_buffer)"
    by (simp_all add: empty_buffer_def vector_wf_def vector_fits_def vector_length_def)
  from add_pipe_accepts_iff [OF this] show ?thesis
    by (simp add: valid_slot_def check_pipe_def check_node_id_def empty_buffer_def vector_length_def
        src_slot_def)
qed

end
