(* ===== verification/Digraph.thy ===== *)
theory Digraph
  imports Prelude
begin

text \<open>
  Finite directed graphs on the nodes \<open>0..<n\<close>: what the service graph check and the
  critical-node analysis rely on. A topological enumeration exists exactly for acyclic
  graphs, reachability is the reflexive transitive closure, and removing a node leaves the
  paths that avoid it.
\<close>

definition topo_prefix :: "(nat \<times> nat) set \<Rightarrow> nat list \<Rightarrow> bool" where
  "topo_prefix E ps \<longleftrightarrow> distinct ps \<and> (\<forall>i<length ps. \<forall>u. (u, ps ! i) \<in> E \<longrightarrow> u \<in> set (take i ps))"

definition reach :: "(nat \<times> nat) set \<Rightarrow> nat \<Rightarrow> nat set" where
  "reach E r = E\<^sup>* `` {r}"

definition remove_node :: "(nat \<times> nat) set \<Rightarrow> nat \<Rightarrow> (nat \<times> nat) set" where
  "remove_node E c = {(u, v) \<in> E. u \<noteq> c \<and> v \<noteq> c}"

text \<open>The nodes reached from \<open>r\<close> by a path that avoids \<open>c\<close>.\<close>

definition reach_avoiding :: "(nat \<times> nat) set \<Rightarrow> nat \<Rightarrow> nat \<Rightarrow> nat set" where
  "reach_avoiding E r c = (if r = c then {} else reach (remove_node E c) r)"

lemma topo_prefix_Nil [simp]: "topo_prefix E []"
  by (simp add: topo_prefix_def)

lemma topo_prefix_snoc:
  assumes "topo_prefix E ps" and "v \<notin> set ps" and "\<And>u. (u, v) \<in> E \<Longrightarrow> u \<in> set ps"
  shows "topo_prefix E (ps @ [v])"
  using assms by (auto simp: topo_prefix_def nth_append less_Suc_eq)

lemma topo_prefix_closed: "topo_prefix E ps \<Longrightarrow> v \<in> set ps \<Longrightarrow> (u, v) \<in> E \<Longrightarrow> u \<in> set ps"
  unfolding topo_prefix_def by (metis in_set_conv_nth in_set_takeD)

lemma reach_refl [simp]: "r \<in> reach E r"
  by (simp add: reach_def)

lemma reach_step: "u \<in> reach E r \<Longrightarrow> (u, v) \<in> E \<Longrightarrow> v \<in> reach E r"
  by (auto simp: reach_def)

lemma reach_least:
  assumes "r \<in> S" and "\<And>u v. u \<in> S \<Longrightarrow> (u, v) \<in> E \<Longrightarrow> v \<in> S"
  shows "reach E r \<subseteq> S"
proof
  fix v assume "v \<in> reach E r"
  then have "(r, v) \<in> E\<^sup>*" by (simp add: reach_def)
  then show "v \<in> S" by (induction rule: rtrancl_induct) (auto intro: assms)
qed

lemma reach_avoiding_subset: "reach_avoiding E r c \<subseteq> reach E r"
proof -
  have "(remove_node E c)\<^sup>* \<subseteq> E\<^sup>*" by (rule rtrancl_mono) (auto simp: remove_node_def)
  then show ?thesis by (auto simp: reach_avoiding_def reach_def)
qed

lemma reach_avoiding_not: "c \<notin> reach_avoiding E r c"
proof (cases "r = c")
  case False
  have "reach (remove_node E c) r \<subseteq> - {c}"
    by (rule reach_least) (use False in \<open>auto simp: remove_node_def\<close>)
  with False show ?thesis by (auto simp: reach_avoiding_def)
qed (simp add: reach_avoiding_def)

lemma reach_avoiding_step:
  assumes "u \<in> reach_avoiding E r c" and "(u, v) \<in> E" and "v \<noteq> c"
  shows "v \<in> reach_avoiding E r c"
proof -
  have "r \<noteq> c" and "u \<noteq> c" using assms(1) reach_avoiding_not [of c E r]
    by (auto simp: reach_avoiding_def split: if_splits)
  with assms show ?thesis by (auto simp: reach_avoiding_def remove_node_def intro: reach_step)
qed

locale digraph =
  fixes n :: nat and E :: "(nat \<times> nat) set"
  assumes E_bound: "E \<subseteq> {..<n} \<times> {..<n}"
begin

lemma finite_E: "finite E"
  by (rule finite_subset [OF E_bound]) simp

lemma reach_bound: "r < n \<Longrightarrow> reach E r \<subseteq> {..<n}"
  by (rule reach_least) (use E_bound in auto)

lemma topo_acyclic:
  assumes "topo_prefix E ps" and "{..<n} \<subseteq> set ps"
  shows "acyclic E"
proof -
  have d: "distinct ps" using assms(1) by (simp add: topo_prefix_def)
  define pos where "pos v = (THE i. i < length ps \<and> ps ! i = v)" for v
  have pos: "pos (ps ! i) = i" if "i < length ps" for i
    unfolding pos_def using that d by (auto simp: nth_eq_iff_index_eq)
  have "E \<subseteq> measure pos"
  proof (clarsimp)
    fix u v assume uv: "(u, v) \<in> E"
    with E_bound assms(2) have "v \<in> set ps" by auto
    then obtain j where j: "j < length ps" "v = ps ! j" by (metis in_set_conv_nth)
    with uv assms(1) have "u \<in> set (take j ps)" by (simp add: topo_prefix_def)
    then obtain i where "i < j" "u = ps ! i" using j by (auto simp: in_set_conv_nth)
    with j show "pos u < pos v" using pos by simp
  qed
  then show ?thesis using wf_subset [OF wf_measure] wf_acyclic by blast
qed

lemma acyclic_has_source:
  assumes "acyclic E" and "S \<noteq> {}"
  shows "\<exists>v\<in>S. \<forall>u\<in>S. (u, v) \<notin> E"
proof -
  have "wf E" using finite_acyclic_wf [OF finite_E assms(1)] .
  moreover obtain x where "x \<in> S" using assms(2) by auto
  ultimately obtain v where "v \<in> S" "\<And>u. (u, v) \<in> E \<Longrightarrow> u \<notin> S"
    by (metis wf_eq_minimal)
  then show ?thesis by blast
qed

text \<open>
  In an acyclic graph in which every node of \<open>S\<close> has a predecessor unless it is \<open>r\<close>,
  everything is reachable from \<open>r\<close>.
\<close>

lemma acyclic_all_reachable:
  assumes "acyclic E" and "\<And>v. v < n \<Longrightarrow> v \<noteq> r \<Longrightarrow> \<exists>u. (u, v) \<in> E"
  shows "{..<n} \<subseteq> reach E r"
proof (rule ccontr)
  assume "\<not> {..<n} \<subseteq> reach E r"
  then have "{..<n} - reach E r \<noteq> {}" by auto
  then obtain v where v: "v \<in> {..<n} - reach E r" "\<forall>u\<in>{..<n} - reach E r. (u, v) \<notin> E"
    using acyclic_has_source [OF assms(1)] by metis
  then have "v \<noteq> r" by auto
  with v assms(2) obtain u where uv: "(u, v) \<in> E" by auto
  with E_bound v(2) have "u \<in> reach E r" by auto
  with uv have "v \<in> reach E r" by (auto intro: reach_step)
  with v show False by auto
qed

text \<open>
  The criterion of the critical-node analysis. The nodes cut off by removing \<open>c\<close> are
  those reachable only through it; if one of them is not \<open>c\<close> itself, then some node
  has all its incoming edges from \<open>c\<close>.
\<close>

lemma cut_off_has_single_source:
  assumes "acyclic E" and "v \<in> reach E r" and "v \<notin> reach_avoiding E r c" and "v \<noteq> c" and "v \<noteq> r"
    and "{..<n} \<subseteq> reach E r" and "\<And>u. (u, r) \<notin> E"
  shows "\<exists>w. w \<noteq> c \<and> (c, w) \<in> E \<and> (\<forall>u. (u, w) \<in> E \<longrightarrow> u = c)"
proof -
  let ?S = "{w. w < n \<and> w \<noteq> c \<and> w \<noteq> r \<and> w \<notin> reach_avoiding E r c}"
  obtain u0 where "(u0, v) \<in> E"
    using assms(2,5) by (auto simp: reach_def elim: rtranclE)
  then have "v < n" using E_bound by auto
  with assms(3,4,5) have ne: "?S \<noteq> {}" by blast
  obtain w where w: "w \<in> ?S" "\<forall>u\<in>?S. (u, w) \<notin> E"
    using acyclic_has_source [OF assms(1) ne] by blast
  have src: "u = c" if "(u, w) \<in> E" for u
  proof (rule ccontr)
    assume "u \<noteq> c"
    have "u \<notin> reach_avoiding E r c" using that w(1) reach_avoiding_step by blast
    moreover have "u < n" using that E_bound by auto
    ultimately have "u = r" using \<open>u \<noteq> c\<close> w(2) that by blast
    with \<open>u \<notin> reach_avoiding E r c\<close> \<open>u \<noteq> c\<close> show False by (simp add: reach_avoiding_def)
  qed
  have "w \<in> reach E r" using w(1) assms(6) by auto
  moreover have "w \<noteq> r" using w(1) by auto
  ultimately obtain u where "(u, w) \<in> E" by (auto simp: reach_def elim: rtranclE)
  with src w(1) show ?thesis by blast
qed

lemma single_source_cut_off:
  assumes "(c, w) \<in> E" and "\<And>u. (u, w) \<in> E \<Longrightarrow> u = c" and "w \<noteq> r"
  shows "w \<notin> reach_avoiding E r c"
proof
  assume "w \<in> reach_avoiding E r c"
  then have "(r, w) \<in> (remove_node E c)\<^sup>*" by (auto simp: reach_avoiding_def reach_def split: if_splits)
  with assms(3) obtain u where "(u, w) \<in> remove_node E c" by (auto elim: rtranclE)
  with assms(2) show False by (auto simp: remove_node_def)
qed

end

end
