(* ===== verification/Service.thy ===== *)
theory Service
  imports ServiceBuf Digraph "HOL-Library.Multiset"
begin

unbundle bit_operations_syntax

text \<open>
  The service graph of \<^verbatim>\<open>src/sched/service.c\<close>: its representation, the accessors the
  scheduler and the analyses call, the pipe types, and the check that the graph is well
  formed, a topological sort by in-degrees.
\<close>

subsection \<open>Representation\<close>

record cnode_boundary =
  output_cancelled :: bool
  bd_dest :: "(node_id \<times> pipe_id) list"

type_synonym cnode_info = "cnode_boundary option list"

record snode =
  incoming :: "pipe_descriptor list"
  outgoing :: "pipe_descriptor list"
  node_servlet_id :: stab_entry
  node_flags :: "32 word"
  pipe_type :: "string option list"
  pipe_header_size :: "nat list"

record service =
  svc_input_node :: node_id
  svc_output_node :: node_id
  svc_input_pipe :: pipe_id
  svc_output_pipe :: pipe_id
  svc_c_nodes :: "cnode_info option"
  svc_nodes :: "snode list"

abbreviation node_count :: "service \<Rightarrow> nat" where
  "node_count svc \<equiv> length (svc_nodes svc)"

text \<open>The guard of the accessors by node identifier, then the node.\<close>

definition svc_node :: "service \<Rightarrow> node_id \<Rightarrow> snode result" where
  "svc_node svc nid =
     (if nid = ERROR_NODE_ID \<or> nid \<ge> node_count svc then Error else Ok (svc_nodes svc ! nid))"

definition sched_service_get_incoming_pipes :: "service \<Rightarrow> node_id \<Rightarrow> pipe_descriptor list result" where
  "sched_service_get_incoming_pipes svc nid = rmap incoming (svc_node svc nid)"

definition sched_service_get_outgoing_pipes :: "service \<Rightarrow> node_id \<Rightarrow> pipe_descriptor list result" where
  "sched_service_get_outgoing_pipes svc nid = rmap outgoing (svc_node svc nid)"

definition sched_service_get_node_args :: "stab \<Rightarrow> service \<Rightarrow> node_id \<Rightarrow> string list result" where
  "sched_service_get_node_args st svc nid =
     rbind (svc_node svc nid) (\<lambda>node. runtime_stab_get_init_arg st (node_servlet_id node))"

definition sched_service_get_pipe_flags ::
  "stab \<Rightarrow> service \<Rightarrow> node_id \<Rightarrow> pipe_id \<Rightarrow> pipe_flags result" where
  "sched_service_get_pipe_flags st svc nid pid =
     (case svc_node svc nid of
        Ok node \<Rightarrow> runtime_stab_get_pipe_flags st (node_servlet_id node) pid
      | Error \<Rightarrow> Ok ERROR_FLAGS | Undef \<Rightarrow> Undef)"

definition sched_service_get_num_node :: "service \<Rightarrow> nat" where
  "sched_service_get_num_node svc = node_count svc"

definition sched_service_get_input_node :: "service \<Rightarrow> node_id" where
  "sched_service_get_input_node svc = svc_input_node svc"

definition sched_service_get_output_node :: "service \<Rightarrow> node_id" where
  "sched_service_get_output_node svc = svc_output_node svc"

definition sched_service_get_cnode_info :: "service \<Rightarrow> cnode_info option" where
  "sched_service_get_cnode_info svc = svc_c_nodes svc"

subsection \<open>Pipe types\<close>

text \<open>
  The guards the three pipe type operations share: a valid node, a pipe identifier that is
  not the error code, a PDT, and a pipe the PDT has.
\<close>

definition typed_pipe :: "stab \<Rightarrow> service \<Rightarrow> node_id \<Rightarrow> pipe_id \<Rightarrow> (snode \<times> runtime_pdt) result" where
  "typed_pipe st svc nid pid =
     (if pid = ERROR_PIPE_ID then Error
      else rbind (svc_node svc nid) (\<lambda>node.
           rbind (runtime_stab_get_pdt st (node_servlet_id node)) (\<lambda>pdt.
           let pcount = runtime_pdt_get_size pdt
           in if pcount = ERROR_PIPE_ID then Error
              else if pcount \<le> pid then Error
              else Ok (node, pdt))))"

definition list_get :: "'a list \<Rightarrow> nat \<Rightarrow> 'a result" where
  "list_get xs i = (if i < length xs then Ok (xs ! i) else Undef)"

definition sched_service_get_pipe_type ::
  "stab \<Rightarrow> service \<Rightarrow> node_id \<Rightarrow> pipe_id \<Rightarrow> string option result" where
  "sched_service_get_pipe_type st svc nid pid =
     rbind (typed_pipe st svc nid pid) (\<lambda>(node, pdt). list_get (pipe_type node) pid)"

definition sched_service_get_pipe_type_size ::
  "stab \<Rightarrow> service \<Rightarrow> node_id \<Rightarrow> pipe_id \<Rightarrow> nat result" where
  "sched_service_get_pipe_type_size st svc nid pid =
     (case typed_pipe st svc nid pid of
        Ok (node, pdt) \<Rightarrow> list_get (pipe_header_size node) pid
      | Error \<Rightarrow> Ok ERROR_SIZE | Undef \<Rightarrow> Undef)"

definition svc_update_node :: "service \<Rightarrow> node_id \<Rightarrow> snode \<Rightarrow> service" where
  "svc_update_node svc nid node = svc\<lparr>svc_nodes := (svc_nodes svc)[nid := node]\<rparr>"

definition RUNTIME_API_PIPE_FROM_ID :: "pipe_id \<Rightarrow> 32 word" where
  "RUNTIME_API_PIPE_FROM_ID pid = 0xff000000 OR of_nat pid"

text \<open>
  \<^verbatim>\<open>sched_service_set_pipe_type\<close>: the old name is dropped before the new one is
  allocated, and the type hook of the pipe runs last. \<open>callback cb pipe name data\<close> is the
  answer of the servlet's hook. The first component tells whether the call succeeds.
\<close>

definition sched_service_set_pipe_type ::
  "(nat \<Rightarrow> 32 word \<Rightarrow> string \<Rightarrow> nat \<Rightarrow> bool) \<Rightarrow> bool \<Rightarrow> stab \<Rightarrow> service \<Rightarrow> node_id \<Rightarrow> pipe_id
     \<Rightarrow> string \<Rightarrow> nat \<Rightarrow> (bool \<times> service) result" where
  "sched_service_set_pipe_type callback malloc_ok st svc nid pid type_name header_size =
     (if header_size = ERROR_SIZE then Ok (False, svc)
      else case typed_pipe st svc nid pid of
        Error \<Rightarrow> Ok (False, svc)
      | Undef \<Rightarrow> Undef
      | Ok (node, pdt) \<Rightarrow>
          if \<not> (pid < length (pipe_type node) \<and> pid < length (pipe_header_size node)) then Undef
          else if \<not> malloc_ok
          then Ok (False, svc_update_node svc nid
                            (node\<lparr>pipe_type := (pipe_type node)[pid := None]\<rparr>))
          else let svc' = svc_update_node svc nid
                      (node\<lparr>pipe_type := (pipe_type node)[pid := Some type_name],
                            pipe_header_size := (pipe_header_size node)[pid := header_size]\<rparr>)
               in (case runtime_pdt_get_type_hook pdt pid of
                     Error \<Rightarrow> Ok (False, svc') | Undef \<Rightarrow> Undef
                   | Ok (cb, data) \<Rightarrow>
                       (case cb of
                          None \<Rightarrow> Ok (True, svc')
                        | Some f \<Rightarrow>
                            Ok (callback f (RUNTIME_API_PIPE_FROM_ID pid) type_name data, svc'))))"

definition sched_service_get_pipe_type_expr ::
  "stab \<Rightarrow> service \<Rightarrow> node_id \<Rightarrow> pipe_id \<Rightarrow> string result" where
  "sched_service_get_pipe_type_expr st svc nid pid =
     (if pid = ERROR_PIPE_ID then Error
      else rbind (svc_node svc nid) (\<lambda>node.
           rbind (runtime_stab_get_pdt st (node_servlet_id node)) (\<lambda>pdt.
           runtime_pdt_type_expr pdt pid)))"

lemma set_pipe_type_get:
  assumes "sched_service_set_pipe_type cb ok st svc nid pid name hs = Ok (True, svc')"
  shows "sched_service_get_pipe_type st svc' nid pid = Ok (Some name)"
    and "sched_service_get_pipe_type_size st svc' nid pid = Ok hs"
    and "m \<noteq> nid \<or> q \<noteq> pid \<Longrightarrow>
      sched_service_get_pipe_type st svc' m q = sched_service_get_pipe_type st svc m q"
proof -
  obtain node pdt where tp: "typed_pipe st svc nid pid = Ok (node, pdt)"
    using assms by (auto simp: sched_service_set_pipe_type_def split: if_splits result.splits)
  then have n: "svc_node svc nid = Ok node" "nid < node_count svc" "node = svc_nodes svc ! nid"
    by (auto simp: typed_pipe_def result_simps svc_node_def Let_def split: if_splits)
  let ?node = "node\<lparr>pipe_type := (pipe_type node)[pid := Some name],
    pipe_header_size := (pipe_header_size node)[pid := hs]\<rparr>"
  have len: "pid < length (pipe_type node)" "pid < length (pipe_header_size node)"
    and svc': "svc' = svc_update_node svc nid ?node"
    using assms tp by (auto simp: sched_service_set_pipe_type_def Let_def
        split: if_splits result.splits option.splits)
  have nodes: "svc_node svc' m = (if m = nid then Ok ?node else svc_node svc m)" for m
    using n by (auto simp: svc' svc_update_node_def svc_node_def)
  have tp': "typed_pipe st svc' m q =
      (if m = nid then rmap (\<lambda>(_, p). (?node, p)) (typed_pipe st svc nid q) else typed_pipe st svc m q)"
    for m q
    by (cases "runtime_stab_get_pdt st (node_servlet_id node)")
      (auto simp: typed_pipe_def nodes n(1) Let_def)
  show "sched_service_get_pipe_type st svc' nid pid = Ok (Some name)"
    and "sched_service_get_pipe_type_size st svc' nid pid = Ok hs"
    using len by (simp_all add: sched_service_get_pipe_type_def sched_service_get_pipe_type_size_def
        tp' tp list_get_def)
  assume q: "m \<noteq> nid \<or> q \<noteq> pid"
  show "sched_service_get_pipe_type st svc' m q = sched_service_get_pipe_type st svc m q"
  proof (cases "m = nid")
    case True
    then have "q \<noteq> pid" using q by simp
    moreover have "a = node" if "typed_pipe st svc nid q = Ok (a, b)" for a b
      using that by (auto simp: typed_pipe_def n(1) result_simps Let_def split: if_splits)
    ultimately show ?thesis using True
      by (cases "typed_pipe st svc nid q") (auto simp: sched_service_get_pipe_type_def tp' list_get_def)
  next
    case False
    then show ?thesis by (simp add: sched_service_get_pipe_type_def tp')
  qed
qed

subsection \<open>The graph check\<close>

text \<open>
  \<^verbatim>\<open>_check_service_graph\<close>. \<open>dec_dests\<close> is the loop over the outgoing pipes of a node,
  \<open>first_zero\<close> the search for the next node without open inputs, \<open>kahn_loop\<close> the main
  loop, which runs at most \<open>nz\<close> times and returns the value of \<^verbatim>\<open>nz\<close> when it stops.
\<close>

fun dec_dests :: "pipe_descriptor list \<Rightarrow> int list \<Rightarrow> int list result" where
  "dec_dests [] deg = Ok deg"
| "dec_dests (e # es) deg =
     (let d = destination_node_id e
      in if d < length deg then dec_dests es (deg[d := deg ! d - 1]) else Undef)"

fun first_zero :: "int list \<Rightarrow> nat" where
  "first_zero [] = 0"
| "first_zero (d # ds) = (if d \<noteq> 0 then Suc (first_zero ds) else 0)"

fun kahn_loop :: "snode list \<Rightarrow> nat \<Rightarrow> int list \<Rightarrow> nat \<Rightarrow> nat result" where
  "kahn_loop nodes 0 deg next = Ok 0"
| "kahn_loop nodes (Suc nz) deg next =
     (if next < length nodes
      then rbind (dec_dests (outgoing (nodes ! next)) deg)
             (\<lambda>deg'. let deg'' = deg'[next := -1] in kahn_loop nodes nz deg'' (first_zero deg''))
      else Ok (Suc nz))"

definition init_deg :: "snode list \<Rightarrow> int list" where
  "init_deg nodes = map (\<lambda>node. int (length (incoming node))) nodes"

definition orphan_ids :: "snode list \<Rightarrow> node_id \<Rightarrow> node_id list" where
  "orphan_ids nodes input = filter (\<lambda>id. init_deg nodes ! id = 0 \<and> id \<noteq> input) [0..<length nodes]"

definition init_nz :: "snode list \<Rightarrow> node_id \<Rightarrow> nat" where
  "init_nz nodes input = length nodes - length (orphan_ids nodes input)"

definition check_service_graph :: "bool \<Rightarrow> stab \<Rightarrow> service \<Rightarrow> unit result" where
  "check_service_graph malloc_ok st svc =
     rbind (list_get (svc_nodes svc) (svc_input_node svc)) (\<lambda>in_node.
     if length (incoming in_node) \<noteq> 0 then Error
     else rbind (runtime_stab_get_num_input_pipe st (node_servlet_id in_node)) (\<lambda>n_in.
          if n_in \<noteq> 1 then Error
          else rbind (list_get (svc_nodes svc) (svc_output_node svc)) (\<lambda>out_node.
               if length (outgoing out_node) \<noteq> 0 then Error
               else if \<not> malloc_ok then Error
               else rbind (kahn_loop (svc_nodes svc) (init_nz (svc_nodes svc) (svc_input_node svc))
                             (init_deg (svc_nodes svc)) (svc_input_node svc)) (\<lambda>nz.
                    if nz \<noteq> 0 then Error else Ok ()))))"

subsection \<open>The graph behind a service\<close>

definition svc_graph :: "service \<Rightarrow> (nat \<times> nat) set" where
  "svc_graph svc = {(u, v). u < node_count svc \<and> v < node_count svc
     \<and> (\<exists>e\<in>set (outgoing (svc_nodes svc ! u)). destination_node_id e = v)}"

definition all_edges :: "service \<Rightarrow> pipe_descriptor list" where
  "all_edges svc = concat (map outgoing (svc_nodes svc))"

text \<open>
  A well-formed service: each edge is listed at its source as outgoing and at its destination
  as incoming, and its ends are nodes of the service.
\<close>

definition service_wf :: "service \<Rightarrow> bool" where
  "service_wf svc \<longleftrightarrow>
     (\<forall>u<node_count svc. \<forall>e\<in>set (outgoing (svc_nodes svc ! u)).
        source_node_id e = u \<and> destination_node_id e < node_count svc)
     \<and> (\<forall>v<node_count svc. mset (incoming (svc_nodes svc ! v))
           = mset (filter (\<lambda>e. destination_node_id e = v) (all_edges svc)))
     \<and> node_count svc \<le> ERROR_NODE_ID
     \<and> svc_input_node svc < node_count svc \<and> svc_output_node svc < node_count svc"

interpretation sg: digraph "node_count svc" "svc_graph svc" for svc
  by unfold_locales (auto simp: svc_graph_def)

text \<open>A node other than the input that no pipe leads to.\<close>

definition no_orphans :: "service \<Rightarrow> bool" where
  "no_orphans svc \<longleftrightarrow> orphan_ids (svc_nodes svc) (svc_input_node svc) = []"

subsection \<open>The topological sort\<close>

text \<open>The pipes into \<open>v\<close> from nodes that are not in \<open>P\<close>.\<close>

definition deg_from :: "service \<Rightarrow> nat set \<Rightarrow> nat \<Rightarrow> nat" where
  "deg_from svc P v =
     length (filter (\<lambda>e. destination_node_id e = v \<and> source_node_id e \<notin> P) (all_edges svc))"

definition kahn_inv :: "service \<Rightarrow> nat list \<Rightarrow> int list \<Rightarrow> bool" where
  "kahn_inv svc ps deg \<longleftrightarrow> topo_prefix (svc_graph svc) ps \<and> set ps \<subseteq> {..<node_count svc}
     \<and> length deg = node_count svc
     \<and> (\<forall>v<node_count svc. deg ! v = (if v \<in> set ps then -1 else int (deg_from svc (set ps) v)))"

lemma dec_dests_ok:
  assumes "\<forall>e\<in>set es. destination_node_id e < length deg"
  shows "\<exists>deg'. dec_dests es deg = Ok deg' \<and> length deg' = length deg
    \<and> (\<forall>v<length deg. deg' ! v = deg ! v - int (length (filter (\<lambda>e. destination_node_id e = v) es)))"
  using assms
proof (induction es arbitrary: deg)
  case Nil
  then show ?case by simp
next
  case (Cons e es)
  let ?d = "destination_node_id e"
  obtain deg' where d: "dec_dests es (deg[?d := deg ! ?d - 1]) = Ok deg'" "length deg' = length deg"
    "\<forall>v<length deg. deg' ! v = deg[?d := deg ! ?d - 1] ! v
       - int (length (filter (\<lambda>e. destination_node_id e = v) es))"
    using Cons.IH [of "deg[?d := deg ! ?d - 1]"] Cons.prems by auto
  with Cons.prems show ?case by (auto simp: Let_def nth_list_update)
qed

lemma first_zero_le: "first_zero ds \<le> length ds"
  by (induction ds) auto

lemma first_zero_zero: "first_zero ds < length ds \<Longrightarrow> ds ! first_zero ds = 0"
  by (induction ds) auto

lemma first_zero_none: "\<not> first_zero ds < length ds \<Longrightarrow> v < length ds \<Longrightarrow> ds ! v \<noteq> 0"
proof (induction ds arbitrary: v)
  case Nil
  then show ?case by simp
next
  case (Cons d ds)
  then show ?case by (cases v) (auto split: if_splits)
qed

lemma edges_of_node:
  assumes "service_wf svc" and "u < node_count svc"
  shows "filter (\<lambda>e. source_node_id e = u) (all_edges svc) = outgoing (svc_nodes svc ! u)"
  using filter_concat_tagged [of "map outgoing (svc_nodes svc)" source_node_id u] assms
  by (simp add: service_wf_def all_edges_def)

lemma all_edges_source:
  assumes "service_wf svc" and "e \<in> set (all_edges svc)"
  shows "source_node_id e < node_count svc \<and> e \<in> set (outgoing (svc_nodes svc ! source_node_id e))
    \<and> destination_node_id e < node_count svc"
proof -
  obtain u where u: "u < node_count svc" "e \<in> set (outgoing (svc_nodes svc ! u))"
    using assms(2) by (auto simp: all_edges_def) (metis in_set_conv_nth)
  moreover have "source_node_id e = u \<and> destination_node_id e < node_count svc"
    using assms(1) u by (simp add: service_wf_def)
  ultimately show ?thesis by simp
qed

lemma svc_graph_edge:
  assumes "service_wf svc"
  shows "(u, v) \<in> svc_graph svc \<longleftrightarrow>
    (\<exists>e\<in>set (all_edges svc). source_node_id e = u \<and> destination_node_id e = v)"
proof
  assume "(u, v) \<in> svc_graph svc"
  then obtain e where e: "u < node_count svc" "e \<in> set (outgoing (svc_nodes svc ! u))"
    "destination_node_id e = v" by (auto simp: svc_graph_def)
  then have "source_node_id e = u" and "e \<in> set (all_edges svc)"
    using assms by (simp_all add: all_edges_def service_wf_def) (metis nth_mem)
  with e(3) show "\<exists>e\<in>set (all_edges svc). source_node_id e = u \<and> destination_node_id e = v"
    by blast
next
  assume "\<exists>e\<in>set (all_edges svc). source_node_id e = u \<and> destination_node_id e = v"
  with all_edges_source [OF assms] show "(u, v) \<in> svc_graph svc" by (force simp: svc_graph_def)
qed

lemma deg_from_insert:
  assumes "service_wf svc" and "u < node_count svc" and "u \<notin> P"
  shows "deg_from svc P v = deg_from svc (insert u P) v
    + length (filter (\<lambda>e. destination_node_id e = v) (outgoing (svc_nodes svc ! u)))"
proof -
  have "filter (\<lambda>e. (destination_node_id e = v \<and> source_node_id e \<notin> P) \<and> source_node_id e = u) (all_edges svc)
      = filter (\<lambda>e. destination_node_id e = v) (filter (\<lambda>e. source_node_id e = u) (all_edges svc))"
    using assms(3) by (auto simp: filter_filter intro!: filter_cong)
  moreover have "filter (\<lambda>e. (destination_node_id e = v \<and> source_node_id e \<notin> P) \<and> source_node_id e \<noteq> u) (all_edges svc)
      = filter (\<lambda>e. destination_node_id e = v \<and> source_node_id e \<notin> insert u P) (all_edges svc)"
    by (rule filter_cong) auto
  ultimately show ?thesis
    using length_filter_split [of "\<lambda>e. destination_node_id e = v \<and> source_node_id e \<notin> P" "all_edges svc"
        "\<lambda>e. source_node_id e = u"]
    by (simp add: deg_from_def edges_of_node [OF assms(1,2)])
qed

lemma deg_from_zero:
  assumes "service_wf svc"
  shows "deg_from svc P v = 0 \<longleftrightarrow> (\<forall>u. (u, v) \<in> svc_graph svc \<longrightarrow> u \<in> P)"
  by (auto simp: deg_from_def filter_empty_conv svc_graph_edge [OF assms])

lemma kahn_step:
  assumes wf: "service_wf svc" and inv: "kahn_inv svc ps deg"
    and u: "u < node_count svc" "u \<notin> set ps" "deg ! u = 0"
  shows "\<exists>deg'. dec_dests (outgoing (svc_nodes svc ! u)) deg = Ok deg'
    \<and> kahn_inv svc (ps @ [u]) (deg'[u := -1])"
proof -
  let ?out = "outgoing (svc_nodes svc ! u)"
  have len: "length deg = node_count svc" using inv by (simp add: kahn_inv_def)
  have pre: "w \<in> set ps" if "(w, u) \<in> svc_graph svc" for w
    using inv u that deg_from_zero [OF wf, of "set ps" u] by (simp add: kahn_inv_def)
  obtain deg' where d: "dec_dests ?out deg = Ok deg'" "length deg' = length deg"
    "\<forall>v<length deg. deg' ! v = deg ! v - int (length (filter (\<lambda>e. destination_node_id e = v) ?out))"
    using dec_dests_ok [of ?out deg] wf u(1) len by (auto simp: service_wf_def)
  have topo: "topo_prefix (svc_graph svc) (ps @ [u])"
    using inv u(2) pre by (intro topo_prefix_snoc) (auto simp: kahn_inv_def)
  have "deg'[u := -1] ! v = (if v \<in> set (ps @ [u]) then -1 else int (deg_from svc (set (ps @ [u])) v))"
    if v: "v < node_count svc" for v
  proof (cases "v = u")
    case True
    then show ?thesis using d(2) len u(1) by simp
  next
    case vu: False
    show ?thesis
    proof (cases "v \<in> set ps")
      case True
      have "(u, v) \<notin> svc_graph svc"
        using topo_prefix_closed [of "svc_graph svc" ps v u] inv True u(2) by (auto simp: kahn_inv_def)
      then have "filter (\<lambda>e. destination_node_id e = v) ?out = []"
        using u(1) v by (auto simp: svc_graph_def filter_empty_conv)
      with True vu d(3) len v inv show ?thesis by (simp add: kahn_inv_def)
    next
      case False
      with vu d(3) len v inv deg_from_insert [OF wf u(1,2), of v] show ?thesis
        by (simp add: kahn_inv_def)
    qed
  qed
  with topo d(1,2) len u(1) inv show ?thesis by (auto simp: kahn_inv_def)
qed

lemma kahn_loop_result:
  assumes "service_wf svc" and "kahn_inv svc ps deg"
    and "next < node_count svc \<Longrightarrow> next \<notin> set ps \<and> deg ! next = 0"
    and "\<not> next < node_count svc \<Longrightarrow> \<forall>v<node_count svc. deg ! v \<noteq> 0"
  shows "\<exists>k ps'. kahn_loop (svc_nodes svc) nz deg next = Ok k
    \<and> topo_prefix (svc_graph svc) ps' \<and> set ps' \<subseteq> {..<node_count svc}
    \<and> length ps' + k = length ps + nz
    \<and> (0 < k \<longrightarrow> (\<forall>v<node_count svc. v \<notin> set ps' \<longrightarrow> deg_from svc (set ps') v \<noteq> 0))"
  using assms(2-4)
proof (induction nz arbitrary: ps deg "next")
  case 0
  then show ?case by (auto simp: kahn_inv_def)
next
  case (Suc nz)
  show ?case
  proof (cases "next < node_count svc")
    case False
    then have "deg_from svc (set ps) v \<noteq> 0" if "v < node_count svc" "v \<notin> set ps" for v
      using Suc.prems(1,3) that by (auto simp: kahn_inv_def)
    with False Suc.prems(1) show ?thesis
      by (intro exI [of _ "Suc nz"] exI [of _ ps]) (auto simp: kahn_inv_def)
  next
    case True
    with Suc.prems(2) have nx: "next \<notin> set ps" "deg ! next = 0" by auto
    obtain deg' where d: "dec_dests (outgoing (svc_nodes svc ! next)) deg = Ok deg'"
      "kahn_inv svc (ps @ [next]) (deg'[next := -1])"
      using kahn_step [OF assms(1) Suc.prems(1) True nx] by blast
    let ?deg = "deg'[next := -1]"
    let ?nx = "first_zero ?deg"
    have len: "length ?deg = node_count svc" using d(2) by (simp add: kahn_inv_def)
    have "?nx \<notin> set (ps @ [next]) \<and> ?deg ! ?nx = 0" if "?nx < node_count svc"
    proof -
      have z: "?deg ! ?nx = 0" using first_zero_zero [of ?deg] that len by simp
      with d(2) that show ?thesis by (fastforce simp: kahn_inv_def)
    qed
    moreover have "\<forall>v<node_count svc. ?deg ! v \<noteq> 0" if "\<not> ?nx < node_count svc"
      using first_zero_none [of ?deg] that len by auto
    ultimately obtain k ps' where "kahn_loop (svc_nodes svc) nz ?deg ?nx = Ok k"
      "topo_prefix (svc_graph svc) ps'" "set ps' \<subseteq> {..<node_count svc}"
      "length ps' + k = length (ps @ [next]) + nz"
      "0 < k \<longrightarrow> (\<forall>v<node_count svc. v \<notin> set ps' \<longrightarrow> deg_from svc (set ps') v \<noteq> 0)"
      using Suc.IH [OF d(2)] by blast
    with d(1) True show ?thesis by (auto simp: Let_def intro!: exI [of _ k] exI [of _ ps'])
  qed
qed

lemma init_deg_from:
  assumes "service_wf svc" and "v < node_count svc"
  shows "length (incoming (svc_nodes svc ! v)) = deg_from svc {} v"
  using assms by (metis (no_types, lifting) deg_from_def empty_iff filter_cong service_wf_def size_mset)

lemma kahn_init:
  assumes "service_wf svc" shows "kahn_inv svc [] (init_deg (svc_nodes svc))"
  using init_deg_from [OF assms] by (simp add: kahn_inv_def init_deg_def)

text \<open>The run of the sort from the input node.\<close>

lemma kahn_run:
  assumes "service_wf svc" and "incoming (svc_nodes svc ! svc_input_node svc) = []"
  shows "\<exists>k ps. kahn_loop (svc_nodes svc) nz (init_deg (svc_nodes svc)) (svc_input_node svc) = Ok k
    \<and> topo_prefix (svc_graph svc) ps \<and> set ps \<subseteq> {..<node_count svc} \<and> length ps + k = nz
    \<and> (0 < k \<longrightarrow> (\<forall>v<node_count svc. v \<notin> set ps \<longrightarrow> deg_from svc (set ps) v \<noteq> 0))"
proof -
  have "svc_input_node svc < node_count svc" using assms(1) by (simp add: service_wf_def)
  with assms(2) have "init_deg (svc_nodes svc) ! svc_input_node svc = 0" by (simp add: init_deg_def)
  then show ?thesis
    using kahn_loop_result [OF assms(1) kahn_init [OF assms(1)], of "svc_input_node svc" nz]
      \<open>svc_input_node svc < node_count svc\<close> by simp
qed

lemma topo_prefix_complete:
  assumes "topo_prefix E ps" and "set ps \<subseteq> {..<n}" and "length ps = n"
  shows "{..<n} \<subseteq> set ps"
proof -
  have "card (set ps) = n" using assms by (metis distinct_card topo_prefix_def)
  then show ?thesis using assms(2) by (metis card_lessThan card_subset_eq finite_lessThan order_refl)
qed

lemma kahn_sound:
  assumes "service_wf svc" and "incoming (svc_nodes svc ! svc_input_node svc) = []"
    and "kahn_loop (svc_nodes svc) (node_count svc) (init_deg (svc_nodes svc)) (svc_input_node svc) = Ok 0"
  shows "acyclic (svc_graph svc)"
proof -
  obtain ps where ps: "topo_prefix (svc_graph svc) ps" "set ps \<subseteq> {..<node_count svc}"
    "length ps = node_count svc"
    using kahn_run [OF assms(1,2), of "node_count svc"] assms(3) by auto
  then show ?thesis using sg.topo_acyclic topo_prefix_complete by blast
qed

lemma kahn_complete:
  assumes "service_wf svc" and "incoming (svc_nodes svc ! svc_input_node svc) = []"
    and "acyclic (svc_graph svc)" and "nz \<le> node_count svc"
  shows "kahn_loop (svc_nodes svc) nz (init_deg (svc_nodes svc)) (svc_input_node svc) = Ok 0"
proof -
  obtain k ps where r: "kahn_loop (svc_nodes svc) nz (init_deg (svc_nodes svc)) (svc_input_node svc) = Ok k"
    "topo_prefix (svc_graph svc) ps" "set ps \<subseteq> {..<node_count svc}" "length ps + k = nz"
    "0 < k \<longrightarrow> (\<forall>v<node_count svc. v \<notin> set ps \<longrightarrow> deg_from svc (set ps) v \<noteq> 0)"
    using kahn_run [OF assms(1,2)] by metis
  have "k = 0"
  proof (rule ccontr)
    assume "k \<noteq> 0"
    then have "length ps < node_count svc" using r(4) assms(4) by simp
    moreover have "card (set ps) \<le> length ps" by (rule card_length)
    ultimately have "{..<node_count svc} - set ps \<noteq> {}"
      by (metis Diff_eq_empty_iff card_lessThan card_mono finite_set leD order_trans)
    then obtain v where v: "v \<in> {..<node_count svc} - set ps"
      "\<forall>u\<in>{..<node_count svc} - set ps. (u, v) \<notin> svc_graph svc"
      using sg.acyclic_has_source [OF assms(3)] by metis
    then have "deg_from svc (set ps) v = 0"
      using deg_from_zero [OF assms(1)] sg.E_bound [of svc] by auto
    with v r(5) \<open>k \<noteq> 0\<close> show False by auto
  qed
  with r(1) show ?thesis by simp
qed

text \<open>The check, opened up for a well-formed service.\<close>

lemma check_graph_Ok_iff:
  assumes "service_wf svc"
  shows "check_service_graph ok st svc = Ok () \<longleftrightarrow>
    ok \<and> incoming (svc_nodes svc ! svc_input_node svc) = []
    \<and> runtime_stab_get_num_input_pipe st (node_servlet_id (svc_nodes svc ! svc_input_node svc)) = Ok 1
    \<and> outgoing (svc_nodes svc ! svc_output_node svc) = []
    \<and> kahn_loop (svc_nodes svc) (init_nz (svc_nodes svc) (svc_input_node svc))
        (init_deg (svc_nodes svc)) (svc_input_node svc) = Ok 0"
  using assms
  by (auto simp: check_service_graph_def service_wf_def list_get_def result_simps split: if_splits)

lemma incoming_source:
  assumes "service_wf svc" and "v < node_count svc"
  shows "(\<exists>p\<in>set (incoming (svc_nodes svc ! v)). source_node_id p = u) \<longleftrightarrow> (u, v) \<in> svc_graph svc"
proof -
  have "set (incoming (svc_nodes svc ! v)) = set (filter (\<lambda>e. destination_node_id e = v) (all_edges svc))"
    using assms unfolding service_wf_def by (metis set_mset_mset)
  then show ?thesis by (auto simp: svc_graph_edge [OF assms(1)])
qed

lemma incoming_nonempty:
  assumes "service_wf svc" and "v < node_count svc"
  shows "incoming (svc_nodes svc ! v) \<noteq> [] \<longleftrightarrow> (\<exists>u. (u, v) \<in> svc_graph svc)"
proof -
  have "incoming (svc_nodes svc ! v) \<noteq> []
      \<longleftrightarrow> (\<exists>u. \<exists>p\<in>set (incoming (svc_nodes svc ! v)). source_node_id p = u)"
    by (cases "incoming (svc_nodes svc ! v)") auto
  then show ?thesis by (simp only: incoming_source [OF assms])
qed

lemma no_orphans_pred:
  assumes "service_wf svc" and "no_orphans svc" and "v < node_count svc" and "v \<noteq> svc_input_node svc"
  shows "\<exists>u. (u, v) \<in> svc_graph svc"
proof -
  have "incoming (svc_nodes svc ! v) \<noteq> []"
    using assms(2-4) by (auto simp: no_orphans_def orphan_ids_def init_deg_def filter_empty_conv)
  then show ?thesis by (simp only: incoming_nonempty [OF assms(1,3)])
qed

subsection \<open>Concrete services\<close>

definition edge :: "node_id \<Rightarrow> pipe_id \<Rightarrow> node_id \<Rightarrow> pipe_id \<Rightarrow> pipe_descriptor" where
  "edge u p v q = \<lparr>source_node_id = u, destination_node_id = v, source_pipe_desc = p, destination_pipe_desc = q\<rparr>"

lemma edge_simps [simp]:
  "source_node_id (edge u p v q) = u" "destination_node_id (edge u p v q) = v"
  "source_pipe_desc (edge u p v q) = p" "destination_pipe_desc (edge u p v q) = q"
  by (simp_all add: edge_def)

definition blank_node :: "stab_entry \<Rightarrow> nat \<Rightarrow> pipe_descriptor list \<Rightarrow> pipe_descriptor list \<Rightarrow> snode" where
  "blank_node sid np inc out = \<lparr>incoming = inc, outgoing = out, node_servlet_id = sid, node_flags = 0,
     pipe_type = replicate np None, pipe_header_size = replicate np 0\<rparr>"

lemma blank_node_simps [simp]:
  "incoming (blank_node sid np inc out) = inc" "outgoing (blank_node sid np inc out) = out"
  "node_servlet_id (blank_node sid np inc out) = sid"
  by (simp_all add: blank_node_def)

definition service_of :: "node_id \<Rightarrow> pipe_id \<Rightarrow> node_id \<Rightarrow> pipe_id \<Rightarrow> snode list \<Rightarrow> service" where
  "service_of i p n q nodes = \<lparr>svc_input_node = i, svc_output_node = n, svc_input_pipe = p,
     svc_output_pipe = q, svc_c_nodes = None, svc_nodes = nodes\<rparr>"

lemma service_of_simps [simp]:
  "svc_input_node (service_of i p n q nodes) = i" "svc_output_node (service_of i p n q nodes) = n"
  "svc_nodes (service_of i p n q nodes) = nodes"
  by (simp_all add: service_of_def)

lemma all_less_3: "(\<forall>i<Suc (Suc (Suc 0)). P i) \<longleftrightarrow> P 0 \<and> P (Suc 0) \<and> P 2"
  by (auto simp: less_Suc_eq numeral_2_eq_2)

text \<open>Three nodes in a row, the last one the output.\<close>

definition sample_chain :: service where
  "sample_chain = service_of 0 0 2 2
     [blank_node 0 3 [] [edge 0 1 1 0], blank_node 2 3 [edge 0 1 1 0] [edge 1 1 2 0],
      blank_node 1 3 [edge 1 1 2 0] []]"

lemma sample_chain_wf: "service_wf sample_chain"
  by (simp add: service_wf_def sample_chain_def all_edges_def ERROR_NODE_ID_def all_less_3)

lemma sample_chain_no_orphans: "no_orphans sample_chain"
  by (simp add: no_orphans_def orphan_ids_def init_deg_def sample_chain_def numeral_eq_Suc upt_rec)

lemma sample_chain_graph: "svc_graph sample_chain = {(0, 1), (1, 2)}"
  by (auto simp: svc_graph_def sample_chain_def numeral_eq_Suc less_Suc_eq)

lemma sample_chain_acyclic: "acyclic (svc_graph sample_chain)"
proof -
  have "topo_prefix {(0, 1), (1, 2)} [0, 1, 2]"
    by (auto simp: topo_prefix_def less_Suc_eq numeral_eq_Suc)
  then have "topo_prefix (svc_graph sample_chain) [0, 1, 2]" by (simp only: sample_chain_graph)
  moreover have "{..<node_count sample_chain} \<subseteq> set [0, 1, 2]" by (auto simp: sample_chain_def)
  ultimately show ?thesis by (rule sg.topo_acyclic)
qed

text \<open>An input that is the output too, a node without pipes, and a node that feeds itself.\<close>

definition orphan_loop :: service where
  "orphan_loop = service_of 0 0 0 1
     [blank_node 0 3 [] [], blank_node 2 3 [] [], blank_node 1 3 [edge 2 2 2 0] [edge 2 2 2 0]]"

lemma orphan_loop_wf: "service_wf orphan_loop"
  by (simp add: service_wf_def orphan_loop_def all_edges_def ERROR_NODE_ID_def all_less_3)

lemmas sample_servlet_eval = source_servlet_def join_servlet_def mk_servlet_def mk_entry_def
  runtime_pdt_get_size_def runtime_pdt_input_count_def vector_length_def vector_get_def

subsection \<open>Properties\<close>

text \<open>A successful \<^verbatim>\<open>sched_service_set_pipe_type\<close> is read back by
  \<^verbatim>\<open>sched_service_get_pipe_type\<close> and \<^verbatim>\<open>sched_service_get_pipe_type_size\<close>, and the type
  of every other pipe of every node is left as it was.\<close>

theorem pipe_type_roundtrip:
  assumes "sched_service_set_pipe_type cb ok st svc nid pid name hs = Ok (True, svc')"
  shows "sched_service_get_pipe_type st svc' nid pid = Ok (Some name)
    \<and> sched_service_get_pipe_type_size st svc' nid pid = Ok hs
    \<and> (\<forall>m q. m \<noteq> nid \<or> q \<noteq> pid \<longrightarrow>
        sched_service_get_pipe_type st svc' m q = sched_service_get_pipe_type st svc m q)"
  using set_pipe_type_get [OF assms] by blast

theorem pipe_type_roundtrip_witness:
  "\<exists>svc'. sched_service_set_pipe_type (\<lambda>_ _ _ _. True) True sample_stab sample_chain 1 0 ''t'' 4
       = Ok (True, svc') \<and> sched_service_get_pipe_type sample_stab svc' 1 0 = Ok (Some ''t'')"
proof -
  obtain svc' where s: "sched_service_set_pipe_type (\<lambda>_ _ _ _. True) True sample_stab sample_chain 1 0 ''t'' 4
       = Ok (True, svc')"
    by (simp add: sched_service_set_pipe_type_def typed_pipe_def svc_node_def sample_chain_def
        runtime_stab_get_pdt_def sample_servlets sample_servlet_eval ERROR_SIZE_def ERROR_PIPE_ID_def
        ERROR_NODE_ID_def runtime_pdt_get_size_def runtime_pdt_get_type_hook_def pd_invalid_def
        blank_node_def Let_def)
  with pipe_type_roundtrip [OF s] show ?thesis by blast
qed

text \<open>C3: the graph check is sound for the services it is meant for. When every node other than
  the input has a pipe into it, an accepted service has no cycle, so each of its requests is
  finite work, and every node is reached from the input node.\<close>

theorem check_graph_sound:
  assumes "service_wf svc" and "no_orphans svc" and "check_service_graph ok st svc = Ok ()"
  shows "acyclic (svc_graph svc) \<and> {..<node_count svc} \<subseteq> reach (svc_graph svc) (svc_input_node svc)"
proof -
  have c: "incoming (svc_nodes svc ! svc_input_node svc) = []"
    "kahn_loop (svc_nodes svc) (node_count svc) (init_deg (svc_nodes svc)) (svc_input_node svc) = Ok 0"
    using assms check_graph_Ok_iff [OF assms(1)] by (simp_all add: no_orphans_def init_nz_def)
  have a: "acyclic (svc_graph svc)" by (rule kahn_sound [OF assms(1) c])
  moreover have "\<exists>u. (u, v) \<in> svc_graph svc" if "v < node_count svc" "v \<noteq> svc_input_node svc" for v
    by (rule no_orphans_pred [OF assms(1,2) that])
  ultimately show ?thesis using sg.acyclic_all_reachable [OF a] by blast
qed

theorem check_graph_sound_witness:
  "acyclic (svc_graph sample_chain) \<and> {..<3} \<subseteq> reach (svc_graph sample_chain) 0"
proof -
  have "check_service_graph True sample_stab sample_chain = Ok ()"
    by (simp add: check_service_graph_def sample_chain_def list_get_def init_nz_def orphan_ids_def
        init_deg_def runtime_stab_get_num_input_pipe_def sample_servlets sample_servlet_eval
        numeral_eq_Suc upt_rec)
  from check_graph_sound [OF sample_chain_wf sample_chain_no_orphans this]
  show ?thesis by (simp add: sample_chain_def numeral_3_eq_3)
qed

text \<open>C4: the graph check is complete. An acyclic service whose input node takes nothing and has
  one input pipe, and whose output node sends nothing, is accepted.\<close>

theorem check_graph_complete:
  assumes "service_wf svc" and "acyclic (svc_graph svc)"
    and "incoming (svc_nodes svc ! svc_input_node svc) = []"
    and "outgoing (svc_nodes svc ! svc_output_node svc) = []"
    and "runtime_stab_get_num_input_pipe st (node_servlet_id (svc_nodes svc ! svc_input_node svc)) = Ok 1"
  shows "check_service_graph True st svc = Ok ()"
  using assms kahn_complete [OF assms(1,3,2), of "init_nz (svc_nodes svc) (svc_input_node svc)"]
  by (simp add: check_graph_Ok_iff init_nz_def)

theorem check_graph_complete_witness: "check_service_graph True sample_stab sample_chain = Ok ()"
  by (rule check_graph_complete [OF sample_chain_wf sample_chain_acyclic])
    (simp_all add: sample_chain_def runtime_stab_get_num_input_pipe_def sample_servlets sample_servlet_eval)

text \<open>With a node that no pipe leads to, the check accepts a cycle. Such a node is taken off
  the number of nodes to visit and is visited all the same, so the loop stops before it has
  seen every node: here the third node feeds itself.\<close>

theorem check_graph_accepts_cycle:
  "check_service_graph True sample_stab orphan_loop = Ok () \<and> service_wf orphan_loop
     \<and> \<not> acyclic (svc_graph orphan_loop)"
proof (intro conjI)
  show "check_service_graph True sample_stab orphan_loop = Ok ()"
    by (simp add: check_service_graph_def orphan_loop_def list_get_def init_nz_def orphan_ids_def
        init_deg_def runtime_stab_get_num_input_pipe_def sample_servlets sample_servlet_eval
        numeral_eq_Suc upt_rec)
  have "(2, 2) \<in> svc_graph orphan_loop" by (simp add: svc_graph_def orphan_loop_def)
  then show "\<not> acyclic (svc_graph orphan_loop)" by (auto simp: acyclic_def)
qed (rule orphan_loop_wf)

end
