(* ===== verification/Cnode.thy ===== *)
theory Cnode
  imports Service
begin

unbundle bit_operations_syntax

text \<open>
  The critical-node analysis of \<^verbatim>\<open>src/sched/cnode.c\<close>: two depth-first searches over
  bitmaps, one of them with a node removed, mark the cluster of that node; the edges that
  leave the cluster are its boundary, which the scheduler cancels in one go.
\<close>

subsection \<open>Bitmaps\<close>

type_synonym bitmap = "64 word list"

definition bitmap_get :: "bitmap \<Rightarrow> nat \<Rightarrow> bool result" where
  "bitmap_get arr n =
     (let ofs = n div 64
      in if ofs < length arr then Ok (arr ! ofs AND push_bit (n mod 64) 1 \<noteq> 0) else Undef)"

definition bitmap_flip :: "bitmap \<Rightarrow> nat \<Rightarrow> bitmap result" where
  "bitmap_flip arr n =
     (let ofs = n div 64
      in if ofs < length arr then Ok (arr[ofs := arr ! ofs XOR push_bit (n mod 64) 1]) else Undef)"

definition bm_set :: "bitmap \<Rightarrow> nat set" where
  "bm_set arr = {i. i div 64 < length arr \<and> bit (arr ! (i div 64)) (i mod 64)}"

abbreviation symdiff :: "'a set \<Rightarrow> 'a set \<Rightarrow> 'a set" where
  "symdiff A B \<equiv> (A - B) \<union> (B - A)"

lemma bitmap_get_ok: "i < 64 * length arr \<Longrightarrow> bitmap_get arr i = Ok (i \<in> bm_set arr)"
  by (simp only: bitmap_get_def bm_set_def Let_def bit_iff_and_push_bit_not_eq_0 mem_Collect_eq)
    (simp add: less_mult_imp_div_less mult.commute)

lemma bitmap_flip_ok:
  assumes "i < 64 * length arr"
  shows "\<exists>arr'. bitmap_flip arr i = Ok arr' \<and> length arr' = length arr
    \<and> bm_set arr' = symdiff (bm_set arr) {i}"
proof -
  have d: "i div 64 < length arr" using assms by (simp add: less_mult_imp_div_less mult.commute)
  let ?arr = "arr[i div 64 := arr ! (i div 64) XOR push_bit (i mod 64) 1]"
  have "j \<in> bm_set ?arr \<longleftrightarrow> j \<in> symdiff (bm_set arr) {i}" for j
  proof (cases "j div 64 = i div 64")
    case True
    have "j mod 64 = i mod 64 \<longleftrightarrow> j = i" using True by (metis div_mod_decomp)
    moreover have "bit (push_bit (i mod 64) (1 :: 64 word)) (j mod 64) \<longleftrightarrow> j mod 64 = i mod 64"
      by (auto simp: bit_exp_iff)
    ultimately show ?thesis using True d by (auto simp: bm_set_def bit_xor_iff)
  next
    case False
    then show ?thesis by (auto simp: bm_set_def)
  qed
  then have "bm_set ?arr = symdiff (bm_set arr) {i}" by blast
  with d show ?thesis by (intro exI [of _ ?arr]) (simp add: bitmap_flip_def Let_def)
qed

definition bitmap_zero :: "nat \<Rightarrow> bitmap" where
  "bitmap_zero sz = replicate ((sz + 63) div 64) 0"

lemma bm_set_zero [simp]: "bm_set (bitmap_zero k) = {}"
  by (auto simp: bm_set_def bitmap_zero_def)

lemma bitmap_zero_room: "k \<le> 64 * length (bitmap_zero k)"
  by (simp add: bitmap_zero_def)

lemma bm_set_bound: "bm_set arr \<subseteq> {..<64 * length arr}"
  by (auto simp: bm_set_def)

lemma finite_bm_set [simp]: "finite (bm_set arr)"
  by (rule finite_subset [OF bm_set_bound]) simp

subsection \<open>Depth-first search\<close>

text \<open>
  The body of the loop: every destination that is not visited is pushed, marked and flipped
  in the state. The stack has room for \<open>cap\<close> nodes.
\<close>

fun dfs_push :: "nat \<Rightarrow> pipe_descriptor list \<Rightarrow> node_id list \<times> bitmap \<times> bitmap
    \<Rightarrow> (node_id list \<times> bitmap \<times> bitmap) result" where
  "dfs_push cap [] s = Ok s"
| "dfs_push cap (e # es) (stack, visited, state) =
     (let d = destination_node_id e
      in rbind (bitmap_get visited d) (\<lambda>seen.
         if seen then dfs_push cap es (stack, visited, state)
         else if length stack < cap
         then rbind (bitmap_flip visited d) (\<lambda>visited'.
              rbind (bitmap_flip state d) (\<lambda>state'.
              dfs_push cap es (d # stack, visited', state')))
         else Undef))"

definition unvisited :: "bitmap \<Rightarrow> nat" where
  "unvisited arr = 64 * length arr - card (bm_set arr)"

lemma bitmap_flip_unvisited:
  assumes "bitmap_get arr d = Ok False" and "bitmap_flip arr d = Ok arr'"
  shows "unvisited arr' < unvisited arr"
proof -
  have d: "d < 64 * length arr"
    using assms(1) by (auto simp: bitmap_get_def Let_def split: if_splits)
  then have nd: "d \<notin> bm_set arr" using assms(1) by (simp add: bitmap_get_ok)
  obtain arr2 where "bitmap_flip arr d = Ok arr2" and l: "length arr2 = length arr"
    and s: "bm_set arr2 = symdiff (bm_set arr) {d}" using bitmap_flip_ok [OF d] by blast
  then have "arr' = arr2" using assms(2) by simp
  moreover have "bm_set arr2 = insert d (bm_set arr)" using s nd by auto
  moreover have "insert d (bm_set arr) \<subseteq> {..<64 * length arr}" using bm_set_bound d by auto
  then have "card (insert d (bm_set arr)) \<le> 64 * length arr"
    by (metis card_lessThan card_mono finite_lessThan)
  ultimately show ?thesis using nd l by (simp add: unvisited_def)
qed

lemma dfs_push_measure:
  "dfs_push cap es (stk, vis, sta) = Ok (stk', vis', sta') \<Longrightarrow>
     unvisited vis' < unvisited vis \<or> unvisited vis' = unvisited vis \<and> stk' = stk"
proof (induction es arbitrary: stk vis sta)
  case Nil
  then show ?case by simp
next
  case (Cons e es)
  let ?d = "destination_node_id e"
  obtain seen where g: "bitmap_get vis ?d = Ok seen"
    using Cons.prems by (cases "bitmap_get vis ?d") (auto simp: Let_def)
  show ?case
  proof (cases seen)
    case True
    then show ?thesis using Cons g by (simp add: Let_def)
  next
    case False
    then obtain v1 s1 where f: "bitmap_flip vis ?d = Ok v1" "bitmap_flip sta ?d = Ok s1"
      "dfs_push cap es (?d # stk, v1, s1) = Ok (stk', vis', sta')"
      using Cons.prems g by (auto simp: Let_def result_simps split: if_splits)
    have "unvisited v1 < unvisited vis" using bitmap_flip_unvisited [of vis ?d v1] g f(1) False by simp
    then show ?thesis using Cons.IH [OF f(3)] by linarith
  qed
qed

function dfs_loop :: "service \<Rightarrow> nat \<Rightarrow> node_id list \<Rightarrow> bitmap \<Rightarrow> bitmap \<Rightarrow> bitmap result" where
  "dfs_loop svc cap [] visited state = Ok state"
| "dfs_loop svc cap (current # stack) visited state =
     (case sched_service_get_outgoing_pipes svc current of
        Ok pds \<Rightarrow>
          (case dfs_push cap pds (stack, visited, state) of
             Ok (stack', visited', state') \<Rightarrow> dfs_loop svc cap stack' visited' state'
           | Error \<Rightarrow> Error | Undef \<Rightarrow> Undef)
      | Error \<Rightarrow> Error | Undef \<Rightarrow> Undef)"
  by pat_completeness auto
termination
proof (relation "measures [\<lambda>(svc, cap, stk, vis, sta). unvisited vis,
    \<lambda>(svc, cap, stk, vis, sta). length stk]", goal_cases)
  case 1
  show ?case by simp
next
  case (2 svc cap current stack visited state pds p stack' q visited' state')
  then show ?case using dfs_push_measure [of cap pds stack visited state stack' visited' state'] by auto
qed

definition service_dfs :: "alloc \<Rightarrow> service \<Rightarrow> nat \<Rightarrow> bitmap \<Rightarrow> node_id \<Rightarrow> bitmap result" where
  "service_dfs mem svc sz state removal =
     (let input = sched_service_get_input_node svc
      in if input = ERROR_NODE_ID then Error
         else if input = removal then Ok state
         else if \<not> mem 0 then Error
         else if \<not> mem 1 then Error
         else if \<not> 0 < sz then Undef
         else rbind (if removal \<noteq> ERROR_NODE_ID \<and> removal < sched_service_get_num_node svc
                     then bitmap_flip (bitmap_zero sz) removal else Ok (bitmap_zero sz)) (\<lambda>visited.
              rbind (bitmap_flip visited input) (\<lambda>visited'.
              rbind (bitmap_flip state input) (\<lambda>state'.
              dfs_loop svc sz [input] visited' state'))))"

subsection \<open>What the search marks\<close>

text \<open>
  The search with the nodes \<open>R\<close> taken out (none or one) reaches what paths outside \<open>R\<close>
  reach. The invariant: the marked nodes outside \<open>R\<close> are reached, those not on the stack
  have their successors marked, and the state differs from the initial one exactly on them.
\<close>

definition avoid_edges :: "service \<Rightarrow> nat set \<Rightarrow> (nat \<times> nat) set" where
  "avoid_edges svc R = {(u, v) \<in> svc_graph svc. u \<notin> R \<and> v \<notin> R}"

definition dfs_base :: "service \<Rightarrow> nat set \<Rightarrow> nat set \<Rightarrow> node_id list \<times> bitmap \<times> bitmap \<Rightarrow> bool" where
  "dfs_base svc R S0 s = (case s of (stk, vis, sta) \<Rightarrow>
     node_count svc \<le> 64 * length vis \<and> node_count svc \<le> 64 * length sta
     \<and> distinct stk \<and> set stk \<subseteq> bm_set vis - R \<and> R \<subseteq> bm_set vis
     \<and> bm_set vis \<subseteq> {..<node_count svc}
     \<and> svc_input_node svc \<in> bm_set vis - R
     \<and> bm_set vis - R \<subseteq> reach (avoid_edges svc R) (svc_input_node svc)
     \<and> bm_set sta = symdiff S0 (bm_set vis - R))"

definition dfs_closed :: "service \<Rightarrow> nat set \<Rightarrow> node_id list \<times> bitmap \<times> bitmap \<Rightarrow> bool" where
  "dfs_closed svc R s = (case s of (stk, vis, sta) \<Rightarrow>
     \<forall>u\<in>bm_set vis - R - set stk. \<forall>v. (u, v) \<in> svc_graph svc \<longrightarrow> v \<in> bm_set vis)"

lemma dfs_push_one:
  assumes "dfs_base svc R S0 (stk, vis, sta)" and "cur \<in> bm_set vis - R" and "cur \<notin> set stk"
    and "(cur, d) \<in> svc_graph svc" and "d \<notin> bm_set vis"
  obtains vis' sta' where "bitmap_flip vis d = Ok vis'" and "bitmap_flip sta d = Ok sta'"
    and "dfs_base svc R S0 (d # stk, vis', sta')" and "bm_set vis' = insert d (bm_set vis)"
    and "length stk < node_count svc"
proof -
  have dn: "d < node_count svc" using assms(4) sg.E_bound by blast
  have b: "node_count svc \<le> 64 * length vis" "node_count svc \<le> 64 * length sta"
    using assms(1) by (simp_all add: dfs_base_def)
  obtain vis' where v: "bitmap_flip vis d = Ok vis'" "length vis' = length vis"
    "bm_set vis' = symdiff (bm_set vis) {d}" using bitmap_flip_ok [of d vis] dn b by auto
  obtain sta' where s: "bitmap_flip sta d = Ok sta'" "length sta' = length sta"
    "bm_set sta' = symdiff (bm_set sta) {d}" using bitmap_flip_ok [of d sta] dn b by auto
  have vi: "bm_set vis' = insert d (bm_set vis)" using v(3) assms(5) by auto
  have dR: "d \<notin> R" using assms(1,5) by (auto simp: dfs_base_def)
  have "cur \<in> reach (avoid_edges svc R) (svc_input_node svc)"
    using assms(1,2) by (auto simp: dfs_base_def)
  moreover have "(cur, d) \<in> avoid_edges svc R" using assms(2,4) dR by (simp add: avoid_edges_def)
  ultimately have "d \<in> reach (avoid_edges svc R) (svc_input_node svc)" by (rule reach_step)
  moreover have "bm_set sta' = symdiff S0 (bm_set vis' - R)"
    using s(3) vi assms(1,5) dR unfolding dfs_base_def by auto
  ultimately have base: "dfs_base svc R S0 (d # stk, vis', sta')"
    using assms(1,5) vi v(2) s(2) dR dn unfolding dfs_base_def by auto
  have "distinct (d # stk) \<and> set (d # stk) \<subseteq> {..<node_count svc}"
    using base by (auto simp: dfs_base_def)
  then have "length (d # stk) \<le> node_count svc"
    by (metis card_lessThan card_mono distinct_card finite_lessThan)
  then show ?thesis using that [OF v(1) s(1) base vi] by simp
qed

lemma dfs_push_ok:
  assumes "dfs_base svc R S0 (stk, vis, sta)" and "cur \<in> bm_set vis - R" and "cur \<notin> set stk"
    and "\<forall>e\<in>set es. (cur, destination_node_id e) \<in> svc_graph svc"
  shows "\<exists>stk' vis' sta'. dfs_push (node_count svc) es (stk, vis, sta) = Ok (stk', vis', sta')
    \<and> dfs_base svc R S0 (stk', vis', sta')
    \<and> bm_set vis' = bm_set vis \<union> destination_node_id ` set es
    \<and> set stk' = set stk \<union> (bm_set vis' - bm_set vis)"
  using assms
proof (induction es arbitrary: stk vis sta)
  case Nil
  then show ?case by auto
next
  case (Cons e es)
  let ?d = "destination_node_id e"
  have dn: "?d < node_count svc" using Cons.prems(4) sg.E_bound by fastforce
  then have g: "bitmap_get vis ?d = Ok (?d \<in> bm_set vis)"
    using Cons.prems(1) by (intro bitmap_get_ok) (auto simp: dfs_base_def)
  show ?case
  proof (cases "?d \<in> bm_set vis")
    case True
    then show ?thesis using Cons.IH [OF Cons.prems(1-3)] Cons.prems(4) g by (auto simp: insert_absorb)
  next
    case False
    obtain vis1 sta1 where f: "bitmap_flip vis ?d = Ok vis1" "bitmap_flip sta ?d = Ok sta1"
      "dfs_base svc R S0 (?d # stk, vis1, sta1)" "bm_set vis1 = insert ?d (bm_set vis)"
      "length stk < node_count svc"
      using dfs_push_one [OF Cons.prems(1-3) _ False] Cons.prems(4) by auto
    have cur: "cur \<in> bm_set vis1 - R" "cur \<notin> set (?d # stk)"
      using Cons.prems(2,3) f(4) False by auto
    obtain stk' vis' sta' where r: "dfs_push (node_count svc) es (?d # stk, vis1, sta1) = Ok (stk', vis', sta')"
      "dfs_base svc R S0 (stk', vis', sta')" "bm_set vis' = bm_set vis1 \<union> destination_node_id ` set es"
      "set stk' = set (?d # stk) \<union> (bm_set vis' - bm_set vis1)"
      using Cons.IH [OF f(3) cur] Cons.prems(4) by auto
    have "set stk' = set stk \<union> (bm_set vis' - bm_set vis)" using r(3,4) f(4) False by auto
    then show ?thesis using g False f r by (auto simp: Let_def)
  qed
qed

lemma dfs_loop_ok:
  assumes "service_wf svc" and "dfs_base svc R S0 (stk, vis, sta)" and "dfs_closed svc R (stk, vis, sta)"
    and "cap = node_count svc"
  shows "\<exists>sta'. dfs_loop svc cap stk vis sta = Ok sta'
    \<and> bm_set sta' = symdiff S0 (reach (avoid_edges svc R) (svc_input_node svc))
    \<and> node_count svc \<le> 64 * length sta'"
  using assms
proof (induction svc cap stk vis sta rule: dfs_loop.induct)
  case (1 svc cap vis sta)
  have "reach (avoid_edges svc R) (svc_input_node svc) \<subseteq> bm_set vis - R"
    by (rule reach_least) (use 1 in \<open>auto simp: dfs_base_def dfs_closed_def avoid_edges_def\<close>)
  with 1 show ?case by (auto simp: dfs_base_def)
next
  case (2 svc cap cur stk vis sta)
  have cur: "cur \<in> bm_set vis - R" "cur \<notin> set stk" "cur < node_count svc"
    using "2.prems"(2) by (auto simp: dfs_base_def)
  let ?out = "outgoing (svc_nodes svc ! cur)"
  have out: "sched_service_get_outgoing_pipes svc cur = Ok ?out"
    using cur(3) "2.prems"(1)
    by (simp add: sched_service_get_outgoing_pipes_def svc_node_def service_wf_def)
  have edges: "\<forall>e\<in>set ?out. (cur, destination_node_id e) \<in> svc_graph svc"
    using cur(3) "2.prems"(1) by (auto simp: svc_graph_def service_wf_def)
  have base: "dfs_base svc R S0 (stk, vis, sta)" using "2.prems"(2) by (auto simp: dfs_base_def)
  obtain stk' vis' sta' where p: "dfs_push cap ?out (stk, vis, sta) = Ok (stk', vis', sta')"
    "dfs_base svc R S0 (stk', vis', sta')" "bm_set vis' = bm_set vis \<union> destination_node_id ` set ?out"
    "set stk' = set stk \<union> (bm_set vis' - bm_set vis)"
    using dfs_push_ok [OF base cur(1,2) edges] "2.prems"(4) by blast
  have "v \<in> bm_set vis'" if u: "u \<in> bm_set vis' - R - set stk'" and uv: "(u, v) \<in> svc_graph svc" for u v
  proof (cases "u = cur")
    case True
    with uv have "v \<in> destination_node_id ` set ?out" by (auto simp: svc_graph_def)
    then show ?thesis using p(3) by blast
  next
    case False
    then have "u \<in> bm_set vis - R - set (cur # stk)" using u p(4) by auto
    then have "v \<in> bm_set vis" using "2.prems"(3) uv unfolding dfs_closed_def prod.case by blast
    then show ?thesis using p(3) by blast
  qed
  then have "dfs_closed svc R (stk', vis', sta')" unfolding dfs_closed_def prod.case by blast
  then have "\<exists>sta''. dfs_loop svc cap stk' vis' sta' = Ok sta''
    \<and> bm_set sta'' = symdiff S0 (reach (avoid_edges svc R) (svc_input_node svc))
    \<and> node_count svc \<le> 64 * length sta''"
    by (intro "2.IH" [OF out p(1) refl refl] "2.prems"(1,4) p(2))
  then show ?case by (simp only: dfs_loop.simps out p(1) result.case prod.case)
qed

lemma avoid_edges_empty [simp]: "avoid_edges svc {} = svc_graph svc"
  by (auto simp: avoid_edges_def)

lemma avoid_edges_single: "avoid_edges svc {c} = remove_node (svc_graph svc) c"
  by (auto simp: avoid_edges_def remove_node_def)

lemma dfs_start:
  assumes "service_wf svc" and "node_count svc \<le> 64 * length sta" and "R \<subseteq> {..<node_count svc}"
    and "svc_input_node svc \<notin> R" and "node_count svc \<le> 64 * length vis" and "bm_set vis = R"
  obtains vis' sta' where "bitmap_flip vis (svc_input_node svc) = Ok vis'"
    and "bitmap_flip sta (svc_input_node svc) = Ok sta'"
    and "dfs_base svc R (bm_set sta) ([svc_input_node svc], vis', sta')"
    and "dfs_closed svc R ([svc_input_node svc], vis', sta')"
proof -
  let ?i = "svc_input_node svc"
  have i: "?i < node_count svc" using assms(1) by (simp add: service_wf_def)
  obtain vis' where v: "bitmap_flip vis ?i = Ok vis'" "length vis' = length vis"
    "bm_set vis' = symdiff (bm_set vis) {?i}" using bitmap_flip_ok [of ?i vis] i assms(5) by auto
  obtain sta' where s: "bitmap_flip sta ?i = Ok sta'" "length sta' = length sta"
    "bm_set sta' = symdiff (bm_set sta) {?i}" using bitmap_flip_ok [of ?i sta] i assms(2) by auto
  have "bm_set vis' = insert ?i R" using v(3) assms(4,6) by auto
  with v s i assms show ?thesis
    by (intro that [of vis' sta']) (auto simp: dfs_base_def dfs_closed_def)
qed

text \<open>The search, whole: with no removal, and with one node removed.\<close>

lemma service_dfs_full:
  assumes "service_wf svc" and "node_count svc \<le> 64 * length sta" and "mem 0" and "mem 1"
  obtains sta' where "service_dfs mem svc (node_count svc) sta ERROR_NODE_ID = Ok sta'"
    and "bm_set sta' = symdiff (bm_set sta) (reach (svc_graph svc) (svc_input_node svc))"
    and "node_count svc \<le> 64 * length sta'"
proof -
  have i: "svc_input_node svc < node_count svc" "svc_input_node svc \<noteq> ERROR_NODE_ID"
    using assms(1) by (auto simp: service_wf_def)
  obtain vis' sta1 where f: "bitmap_flip (bitmap_zero (node_count svc)) (svc_input_node svc) = Ok vis'"
    "bitmap_flip sta (svc_input_node svc) = Ok sta1"
    "dfs_base svc {} (bm_set sta) ([svc_input_node svc], vis', sta1)"
    "dfs_closed svc {} ([svc_input_node svc], vis', sta1)"
    using dfs_start [OF assms(1,2), of "{}" "bitmap_zero (node_count svc)"] bitmap_zero_room by auto
  obtain sta' where "dfs_loop svc (node_count svc) [svc_input_node svc] vis' sta1 = Ok sta'"
    "bm_set sta' = symdiff (bm_set sta) (reach (svc_graph svc) (svc_input_node svc))"
    "node_count svc \<le> 64 * length sta'"
    using dfs_loop_ok [OF assms(1) f(3,4) refl] by auto
  moreover have "0 < node_count svc" using i(1) by linarith
  ultimately show ?thesis
    using that [of sta'] i f(1,2) assms(3,4)
    by (simp add: service_dfs_def Let_def sched_service_get_input_node_def)
qed

lemma service_dfs_removed:
  assumes "service_wf svc" and "node_count svc \<le> 64 * length sta" and "mem 0" and "mem 1"
    and "c < node_count svc"
  obtains sta' where "service_dfs mem svc (node_count svc) sta c = Ok sta'"
    and "bm_set sta' = symdiff (bm_set sta) (reach_avoiding (svc_graph svc) (svc_input_node svc) c)"
    and "node_count svc \<le> 64 * length sta'"
proof (cases "svc_input_node svc = c")
  case True
  then show ?thesis using that [of sta] assms
    by (auto simp: service_dfs_def Let_def sched_service_get_input_node_def reach_avoiding_def service_wf_def)
next
  case False
  have i: "svc_input_node svc < node_count svc" "svc_input_node svc \<noteq> ERROR_NODE_ID" "c \<noteq> ERROR_NODE_ID"
    using assms(1,5) by (auto simp: service_wf_def)
  obtain vis where v: "bitmap_flip (bitmap_zero (node_count svc)) c = Ok vis"
    "length vis = length (bitmap_zero (node_count svc))" "bm_set vis = {c}"
    using bitmap_flip_ok [of c "bitmap_zero (node_count svc)"] assms(5)
      bitmap_zero_room [of "node_count svc"] by auto
  obtain vis' sta1 where f: "bitmap_flip vis (svc_input_node svc) = Ok vis'"
    "bitmap_flip sta (svc_input_node svc) = Ok sta1"
    "dfs_base svc {c} (bm_set sta) ([svc_input_node svc], vis', sta1)"
    "dfs_closed svc {c} ([svc_input_node svc], vis', sta1)"
    using dfs_start [OF assms(1,2), of "{c}" vis] v bitmap_zero_room [of "node_count svc"] False assms(5)
    by auto
  obtain sta' where "dfs_loop svc (node_count svc) [svc_input_node svc] vis' sta1 = Ok sta'"
    "bm_set sta' = symdiff (bm_set sta) (reach_avoiding (svc_graph svc) (svc_input_node svc) c)"
    "node_count svc \<le> 64 * length sta'"
    using dfs_loop_ok [OF assms(1) f(3,4) refl] False by (auto simp: avoid_edges_single reach_avoiding_def)
  moreover have "0 < node_count svc" using i(1) by linarith
  ultimately show ?thesis
    using that [of sta'] i f(1,2) v(1) assms(3-5) False
    by (simp add: service_dfs_def Let_def sched_service_get_input_node_def sched_service_get_num_node_def)
qed

subsection \<open>Boundary and analysis\<close>

definition SCHED_CNODE_BOUNDARY_INIT_SIZE :: nat where "SCHED_CNODE_BOUNDARY_INIT_SIZE = 8"

text \<open>
  The collection of the edges that leave the marked nodes. The array is grown by doubling;
  \<open>grow cap\<close> tells whether the growth from capacity \<open>cap\<close> succeeds.
\<close>

fun boundary_edges :: "(nat \<Rightarrow> bool) \<Rightarrow> bitmap \<Rightarrow> pipe_descriptor list \<Rightarrow> nat \<times> (node_id \<times> pipe_id) list
    \<Rightarrow> (nat \<times> (node_id \<times> pipe_id) list) result" where
  "boundary_edges grow state [] acc = Ok acc"
| "boundary_edges grow state (e # es) (cap, dest) =
     rbind (bitmap_get state (destination_node_id e)) (\<lambda>inside.
       if inside then boundary_edges grow state es (cap, dest)
       else let grown = (cap \<le> length dest);
                cap' = (if grown then cap * 2 else cap)
            in if grown \<and> \<not> grow cap then Error
               else boundary_edges grow state es
                      (cap', dest @ [(destination_node_id e, destination_pipe_desc e)]))"

fun boundary_nodes :: "(nat \<Rightarrow> bool) \<Rightarrow> service \<Rightarrow> bitmap \<Rightarrow> node_id list \<Rightarrow> nat \<times> (node_id \<times> pipe_id) list
    \<Rightarrow> (nat \<times> (node_id \<times> pipe_id) list) result" where
  "boundary_nodes grow svc state [] acc = Ok acc"
| "boundary_nodes grow svc state (i # is) acc =
     rbind (bitmap_get state i) (\<lambda>inside.
       if \<not> inside then boundary_nodes grow svc state is acc
       else rbind (sched_service_get_outgoing_pipes svc i) (\<lambda>outputs.
            rbind (boundary_edges grow state outputs acc) (\<lambda>acc'.
            boundary_nodes grow svc state is acc')))"

text \<open>
  \<^verbatim>\<open>_boundary_new\<close>. Allocations 0 and 1 belong to the first search, 2 and 3 to the
  second, 4 is the boundary array and \<open>5 + cap\<close> its growth. The state buffer is cleared
  first, so it is built here.
\<close>

definition boundary_new :: "alloc \<Rightarrow> service \<Rightarrow> nat \<Rightarrow> node_id \<Rightarrow> cnode_boundary result" where
  "boundary_new mem svc num_nodes cnode =
     (let output = sched_service_get_output_node svc
      in if output = ERROR_NODE_ID then Error
         else rbind (service_dfs mem svc num_nodes (bitmap_zero num_nodes) ERROR_NODE_ID) (\<lambda>state1.
              rbind (service_dfs (\<lambda>k. mem (2 + k)) svc num_nodes state1 cnode) (\<lambda>state.
              if \<not> mem 4 then Error
              else rbind (boundary_nodes (\<lambda>cap. mem (5 + cap)) svc state [0..<num_nodes]
                            (SCHED_CNODE_BOUNDARY_INIT_SIZE, [])) (\<lambda>(cap, dest).
                   rmap (\<lambda>b. \<lparr>output_cancelled = b, bd_dest = dest\<rparr>) (bitmap_get state output)))))"

text \<open>
  The loop of \<^verbatim>\<open>sched_cnode_analyze\<close> over the nodes: a node whose incoming pipes all come
  from one node makes that node critical. \<open>bmem c\<close> are the allocations made for the
  boundary of \<open>c\<close>.
\<close>

fun analyze_nodes :: "(node_id \<Rightarrow> alloc) \<Rightarrow> service \<Rightarrow> node_id list \<Rightarrow> cnode_info \<Rightarrow> cnode_info result" where
  "analyze_nodes bmem svc [] info = Ok info"
| "analyze_nodes bmem svc (nid # nids) info =
     rbind (sched_service_get_incoming_pipes svc nid) (\<lambda>pds.
       case pds of
         [] \<Rightarrow> analyze_nodes bmem svc nids info
       | pd # _ \<Rightarrow>
           (let cnode = source_node_id pd
            in if \<not> list_all (\<lambda>p. cnode = source_node_id p) pds then analyze_nodes bmem svc nids info
               else rbind (list_get info cnode) (\<lambda>b.
                    if b \<noteq> None then analyze_nodes bmem svc nids info
                    else rbind (boundary_new (bmem cnode) svc (length info) cnode) (\<lambda>bd.
                         analyze_nodes bmem svc nids (info[cnode := Some bd])))))"

text \<open>
  \<^verbatim>\<open>sched_cnode_analyze\<close>: when the result cannot be allocated, the error path reads
  through the NULL pointer.
\<close>

definition sched_cnode_analyze :: "alloc \<Rightarrow> (node_id \<Rightarrow> alloc) \<Rightarrow> service \<Rightarrow> cnode_info result" where
  "sched_cnode_analyze mem bmem svc =
     (let num_nodes = sched_service_get_num_node svc
      in if \<not> mem 0 then (if num_nodes = 0 then Error else Undef)
         else if \<not> mem 1 then Error
         else analyze_nodes bmem svc [0..<num_nodes] (replicate num_nodes None))"

definition sched_cnode_info_get_boundary :: "service \<Rightarrow> cnode_info \<Rightarrow> node_id \<Rightarrow> cnode_boundary option" where
  "sched_cnode_info_get_boundary svc info node =
     (if node \<ge> sched_service_get_num_node svc then None else info ! node)"

subsection \<open>Correctness of the analysis\<close>

text \<open>
  The cluster of a node: what the input reaches, but no longer reaches without the node. The
  boundary lists the destination slots of the edges that leave the cluster, in node order.
\<close>

definition cluster :: "service \<Rightarrow> node_id \<Rightarrow> nat set" where
  "cluster svc c = reach (svc_graph svc) (svc_input_node svc)
     - reach_avoiding (svc_graph svc) (svc_input_node svc) c"

definition leaving :: "nat set \<Rightarrow> pipe_descriptor list \<Rightarrow> (node_id \<times> pipe_id) list" where
  "leaving C es = map dst_slot (filter (\<lambda>e. destination_node_id e \<notin> C) es)"

definition cluster_boundary :: "service \<Rightarrow> nat set \<Rightarrow> node_id list \<Rightarrow> (node_id \<times> pipe_id) list" where
  "cluster_boundary svc C is =
     concat (map (\<lambda>i. leaving C (outgoing (svc_nodes svc ! i))) (filter (\<lambda>i. i \<in> C) is))"

lemma boundary_edges_ok:
  assumes "\<forall>e\<in>set es. destination_node_id e < 64 * length state" and "\<forall>cap. grow cap"
  shows "\<exists>cap'. boundary_edges grow state es (cap, dest) = Ok (cap', dest @ leaving (bm_set state) es)"
  using assms(1)
proof (induction es arbitrary: cap dest)
  case Nil
  then show ?case by (simp add: leaving_def)
next
  case (Cons e es)
  have g: "bitmap_get state (destination_node_id e) = Ok (destination_node_id e \<in> bm_set state)"
    using Cons.prems by (intro bitmap_get_ok) simp
  then show ?case
    using Cons.IH [of cap dest] Cons.prems assms(2)
      Cons.IH [of "if cap \<le> length dest then cap * 2 else cap" "dest @ [dst_slot e]"]
    by (auto simp: leaving_def dst_slot_def Let_def)
qed

lemma boundary_nodes_ok:
  assumes "service_wf svc" and "node_count svc \<le> 64 * length state" and "set is \<subseteq> {..<node_count svc}"
    and "\<forall>cap. grow cap"
  shows "\<exists>cap'. boundary_nodes grow svc state is (cap, dest)
    = Ok (cap', dest @ cluster_boundary svc (bm_set state) is)"
  using assms(3)
proof (induction "is" arbitrary: cap dest)
  case Nil
  then show ?case by (simp add: cluster_boundary_def)
next
  case (Cons i "is")
  have i: "i < node_count svc" using Cons.prems by simp
  have g: "bitmap_get state i = Ok (i \<in> bm_set state)"
    using i assms(2) by (intro bitmap_get_ok) simp
  show ?case
  proof (cases "i \<in> bm_set state")
    case False
    then show ?thesis using g Cons by (simp add: cluster_boundary_def)
  next
    case True
    let ?out = "outgoing (svc_nodes svc ! i)"
    have o: "sched_service_get_outgoing_pipes svc i = Ok ?out"
      using i assms(1) by (simp add: sched_service_get_outgoing_pipes_def svc_node_def service_wf_def)
    have "\<forall>e\<in>set ?out. destination_node_id e < 64 * length state"
      using i assms(1,2) unfolding service_wf_def by fastforce
    then obtain cap1 where "boundary_edges grow state ?out (cap, dest)
        = Ok (cap1, dest @ leaving (bm_set state) ?out)"
      using boundary_edges_ok assms(4) by metis
    with g o True Cons.IH [of cap1 "dest @ leaving (bm_set state) ?out"] Cons.prems show ?thesis
      by (simp add: cluster_boundary_def)
  qed
qed

definition cluster_info :: "service \<Rightarrow> node_id \<Rightarrow> cnode_boundary" where
  "cluster_info svc c = \<lparr>output_cancelled = (svc_output_node svc \<in> cluster svc c),
     bd_dest = cluster_boundary svc (cluster svc c) [0..<node_count svc]\<rparr>"

lemma boundary_new_ok:
  assumes "service_wf svc" and "\<forall>k. mem k" and "c < node_count svc"
  shows "boundary_new mem svc (node_count svc) c = Ok (cluster_info svc c)"
proof -
  let ?n = "node_count svc"
  obtain s1 where s1: "service_dfs mem svc ?n (bitmap_zero ?n) ERROR_NODE_ID = Ok s1"
    "bm_set s1 = reach (svc_graph svc) (svc_input_node svc)" "?n \<le> 64 * length s1"
    using service_dfs_full [OF assms(1) bitmap_zero_room, of mem] assms(2) by auto
  obtain s2 where s2: "service_dfs (\<lambda>k. mem (2 + k)) svc ?n s1 c = Ok s2"
    "bm_set s2 = symdiff (bm_set s1) (reach_avoiding (svc_graph svc) (svc_input_node svc) c)"
    "?n \<le> 64 * length s2"
    using service_dfs_removed [OF assms(1) s1(3), of "\<lambda>k. mem (2 + k)" c] assms(2,3) by blast
  have cl: "bm_set s2 = cluster svc c"
    using s2(2) s1(2) reach_avoiding_subset [of "svc_graph svc" "svc_input_node svc" c]
    by (auto simp: cluster_def)
  obtain cap where b: "boundary_nodes (\<lambda>cap. mem (5 + cap)) svc s2 [0..<?n] (SCHED_CNODE_BOUNDARY_INIT_SIZE, [])
      = Ok (cap, cluster_boundary svc (cluster svc c) [0..<?n])"
    using boundary_nodes_ok [OF assms(1) s2(3), of "[0..<?n]" "\<lambda>cap. mem (5 + cap)"
        SCHED_CNODE_BOUNDARY_INIT_SIZE "[]"] assms(2) cl by (auto simp: atLeast0LessThan)
  have out: "svc_output_node svc < ?n" "svc_output_node svc \<noteq> ERROR_NODE_ID"
    using assms(1) by (auto simp: service_wf_def)
  then have "bitmap_get s2 (svc_output_node svc) = Ok (svc_output_node svc \<in> cluster svc c)"
    using bitmap_get_ok [of "svc_output_node svc" s2] s2(3) cl by simp
  with s1(1) s2(1) b out assms(2) show ?thesis
    by (simp add: boundary_new_def Let_def sched_service_get_output_node_def cluster_info_def)
qed

text \<open>Node \<open>w\<close> takes all its inputs from \<open>c\<close>: the local test of the analysis.\<close>

definition single_source :: "service \<Rightarrow> node_id \<Rightarrow> node_id \<Rightarrow> bool" where
  "single_source svc w c \<longleftrightarrow> incoming (svc_nodes svc ! w) \<noteq> []
     \<and> (\<forall>p\<in>set (incoming (svc_nodes svc ! w)). source_node_id p = c)"

lemma single_source_graph:
  assumes "service_wf svc" and "w < node_count svc"
  shows "single_source svc w c \<longleftrightarrow> (c, w) \<in> svc_graph svc \<and> (\<forall>u. (u, w) \<in> svc_graph svc \<longrightarrow> u = c)"
proof -
  note incoming_nonempty [OF assms]
  moreover have "(\<forall>p\<in>set (incoming (svc_nodes svc ! w)). source_node_id p = c)
      \<longleftrightarrow> (\<forall>u. (u, w) \<in> svc_graph svc \<longrightarrow> u = c)"
    using incoming_source [OF assms] by metis
  ultimately show ?thesis by (auto simp: single_source_def)
qed

lemma analyze_nodes_ok:
  assumes "service_wf svc" and "\<forall>c k. bmem c k" and "set nids \<subseteq> {..<node_count svc}"
    and "length info = node_count svc"
    and "\<forall>c<node_count svc. info ! c = (if c \<in> K then Some (cluster_info svc c) else None)"
  shows "\<exists>info'. analyze_nodes bmem svc nids info = Ok info' \<and> length info' = node_count svc
    \<and> (\<forall>c<node_count svc. info' ! c =
        (if c \<in> K \<or> (\<exists>w\<in>set nids. single_source svc w c) then Some (cluster_info svc c) else None))"
  using assms(3-5)
proof (induction nids arbitrary: info K)
  case Nil
  then show ?case by simp
next
  case (Cons w nids)
  let ?in = "incoming (svc_nodes svc ! w)"
  have w: "w < node_count svc" using Cons.prems(1) by simp
  have i: "sched_service_get_incoming_pipes svc w = Ok ?in"
    using w assms(1) by (simp add: sched_service_get_incoming_pipes_def svc_node_def service_wf_def)
  show ?case
  proof (cases "\<exists>c. single_source svc w c")
    case False
    then have "analyze_nodes bmem svc (w # nids) info = analyze_nodes bmem svc nids info"
      using i False by (cases ?in) (auto simp: Let_def list_all_iff single_source_def)
    then show ?thesis using Cons.IH [OF _ Cons.prems(2,3)] Cons.prems(1) False by simp
  next
    case True
    then obtain c where c: "single_source svc w c" by blast
    then obtain p ps where p: "?in = p # ps" "source_node_id p = c"
      "list_all (\<lambda>q. c = source_node_id q) ?in"
      by (cases ?in) (auto simp: single_source_def list_all_iff)
    have cn: "c < node_count svc"
      using c single_source_graph [OF assms(1) w] sg.E_bound by blast
    have uniq: "single_source svc w c' \<longleftrightarrow> c' = c" for c'
      using c p by (auto simp: single_source_def)
    let ?info = "if info ! c \<noteq> None then info else info[c := Some (cluster_info svc c)]"
    have step: "analyze_nodes bmem svc (w # nids) info = analyze_nodes bmem svc nids ?info"
      using i p cn Cons.prems(2) boundary_new_ok [OF assms(1) _ cn, of "bmem c"] assms(2)
      by (simp add: Let_def list_get_def)
    have "\<forall>c'<node_count svc. ?info ! c' = (if c' \<in> insert c K then Some (cluster_info svc c') else None)"
      using Cons.prems(2,3) cn by (auto simp: nth_list_update)
    moreover have "set nids \<subseteq> {..<node_count svc}" "length ?info = node_count svc"
      using Cons.prems(1,2) by auto
    ultimately obtain info' where "analyze_nodes bmem svc nids ?info = Ok info'" "length info' = node_count svc"
      "\<forall>c'<node_count svc. info' ! c' = (if c' \<in> insert c K \<or> (\<exists>w\<in>set nids. single_source svc w c')
          then Some (cluster_info svc c') else None)"
      using Cons.IH [of ?info "insert c K"] by blast
    then show ?thesis using step uniq by auto
  qed
qed

lemma cnode_analyze_ok:
  assumes "service_wf svc" and "mem 0" and "mem 1" and "\<forall>c k. bmem c k"
  obtains info where "sched_cnode_analyze mem bmem svc = Ok info" and "length info = node_count svc"
    and "\<forall>c<node_count svc. info ! c =
      (if \<exists>w<node_count svc. single_source svc w c then Some (cluster_info svc c) else None)"
proof -
  let ?n = "node_count svc"
  obtain info where "analyze_nodes bmem svc [0..<?n] (replicate ?n None) = Ok info" "length info = ?n"
    "\<forall>c<?n. info ! c = (if c \<in> {} \<or> (\<exists>w\<in>set [0..<?n]. single_source svc w c)
        then Some (cluster_info svc c) else None)"
    using analyze_nodes_ok [OF assms(1,4), of "[0..<?n]" "replicate ?n None" "{}"]
    by (auto simp: atLeast0LessThan)
  then show ?thesis using that [of info] assms(2,3)
    by (auto simp: sched_cnode_analyze_def sched_service_get_num_node_def Let_def atLeast0LessThan
        Bex_def)
qed

text \<open>The local test finds exactly the nodes whose removal cuts something else off.\<close>

lemma critical_iff:
  assumes "service_wf svc" and "acyclic (svc_graph svc)" and "no_orphans svc"
    and "incoming (svc_nodes svc ! svc_input_node svc) = []" and "c < node_count svc"
  shows "(\<exists>w<node_count svc. single_source svc w c) \<longleftrightarrow> (\<exists>v\<in>cluster svc c. v \<noteq> c)"
proof
  let ?G = "svc_graph svc" and ?r = "svc_input_node svc"
  have r: "?r < node_count svc" using assms(1) by (simp add: service_wf_def)
  have nor: "(u, ?r) \<notin> ?G" for u using incoming_source [OF assms(1) r] assms(4) by auto
  have all: "{..<node_count svc} \<subseteq> reach ?G ?r"
    using sg.acyclic_all_reachable [OF assms(2)] no_orphans_pred [OF assms(1,3)] by blast
  {
    assume "\<exists>w<node_count svc. single_source svc w c"
    then obtain w where w: "w < node_count svc" "(c, w) \<in> ?G" "\<And>u. (u, w) \<in> ?G \<Longrightarrow> u = c"
      using single_source_graph [OF assms(1)] by blast
    then have "w \<noteq> ?r" using nor by auto
    then have "w \<notin> reach_avoiding ?G ?r c" using sg.single_source_cut_off [OF w(2,3)] by blast
    moreover have "w \<noteq> c" using w(2) assms(2) by (auto simp: acyclic_def)
    ultimately show "\<exists>v\<in>cluster svc c. v \<noteq> c" using all w(1) by (auto simp: cluster_def)
  next
    assume "\<exists>v\<in>cluster svc c. v \<noteq> c"
    then obtain v where v: "v \<in> reach ?G ?r" "v \<notin> reach_avoiding ?G ?r c" "v \<noteq> c"
      by (auto simp: cluster_def)
    then have "v \<noteq> ?r" by (auto simp: reach_avoiding_def split: if_splits)
    then obtain w where w: "(c, w) \<in> ?G" "\<forall>u. (u, w) \<in> ?G \<longrightarrow> u = c"
      using sg.cut_off_has_single_source [OF assms(2) v(1,2,3) _ all nor] by blast
    moreover have "w < node_count svc" using w(1) sg.E_bound by blast
    ultimately show "\<exists>w<node_count svc. single_source svc w c"
      using single_source_graph [OF assms(1)] by blast
  }
qed

subsection \<open>Properties\<close>



text \<open>C6: the search that marks a cluster stays inside its stack and its bitmaps and visits every
  node at most once: with \<open>c\<close> taken out it flips exactly the bits of the nodes that are
  still reached from the input.\<close>

theorem service_dfs_exact:
  assumes "service_wf svc" and "node_count svc \<le> 64 * length sta" and "c < node_count svc"
  shows "\<exists>sta'. service_dfs plenty svc (node_count svc) sta c = Ok sta'
    \<and> bm_set sta' = symdiff (bm_set sta) (reach_avoiding (svc_graph svc) (svc_input_node svc) c)"
  using service_dfs_removed [OF assms(1,2), of plenty c] assms(3) by auto

theorem service_dfs_exact_witness:
  "\<exists>sta'. service_dfs plenty sample_chain 3 [0] 1 = Ok sta'
    \<and> bm_set sta' = reach_avoiding (svc_graph sample_chain) 0 1"
proof -
  have n: "node_count sample_chain = 3" "svc_input_node sample_chain = 0" by (simp_all add: sample_chain_def)
  have z: "bm_set [0] = {}" by (auto simp: bm_set_def)
  show ?thesis using service_dfs_exact [OF sample_chain_wf, of "[0]" 1] by (simp add: n z)
qed

end
