(* ===== verification/ServiceBuild.thy ===== *)
theory ServiceBuild
  imports Cnode
begin

text \<open>
  Building a service from its buffer, \<^verbatim>\<open>sched_service_from_buffer\<close> of
  \<^verbatim>\<open>src/sched/service.c\<close>: counting, creating and linking the nodes, sorting the outgoing
  pipes, and the three analyses at the end. The type checker of \<^verbatim>\<open>src/sched/type.c\<close> is
  the argument \<open>type_check\<close>.
\<close>

definition SCHED_SERVICE_MAX_NUM_NODES :: nat where "SCHED_SERVICE_MAX_NUM_NODES = 0x100000"
definition SCHED_SERVICE_MAX_NUM_EDGES :: nat where "SCHED_SERVICE_MAX_NUM_EDGES = 0x1000000"

text \<open>
  \<^verbatim>\<open>_create_node\<close>. Allocation 0 is the node, 1 and 2 are its type arrays. The node comes
  from \<^verbatim>\<open>malloc\<close>, and the error path frees the two array pointers: on an error before
  they are assigned it frees uninitialised pointers. \<open>addr\<close> is the address of the node,
  which becomes the owner of the servlet.
\<close>

definition create_node ::
  "alloc \<Rightarrow> nat \<Rightarrow> stab \<Rightarrow> stab_entry \<Rightarrow> 32 word \<Rightarrow> bool \<Rightarrow> (snode \<times> stab) result" where
  "create_node mem addr st servlet flags reuse =
     (if \<not> mem 0 then Error
      else case runtime_stab_get_pdt st servlet of
        Error \<Rightarrow> Undef
      | Undef \<Rightarrow> Undef
      | Ok pdt \<Rightarrow>
          let npipes = runtime_pdt_get_size pdt
          in if npipes = ERROR_PIPE_ID then Undef
             else if \<not> mem 1 then Undef
             else if \<not> mem 2 then Error
             else rmap (\<lambda>st'. (\<lparr>incoming = [], outgoing = [], node_servlet_id = servlet,
                                node_flags = flags, pipe_type = replicate npipes None,
                                pipe_header_size = replicate npipes 0\<rparr>, st'))
                    (runtime_stab_set_owner st servlet (Some addr) reuse))"

fun count_pipes :: "pipe_descriptor list \<Rightarrow> nat list \<times> nat list \<Rightarrow> (nat list \<times> nat list) result" where
  "count_pipes [] cnt = Ok cnt"
| "count_pipes (p # ps) (inc, out) =
     (let src = source_node_id p; dst = destination_node_id p
      in if dst < length inc \<and> src < length out
         then count_pipes ps (inc[dst := inc ! dst + 1], out[src := out ! src + 1])
         else Undef)"

fun create_nodes :: "(nat \<Rightarrow> alloc) \<Rightarrow> (nat \<Rightarrow> nat) \<Rightarrow> bool \<Rightarrow> buffer_node list \<Rightarrow> nat \<Rightarrow> stab
    \<Rightarrow> (snode list option \<times> stab) result" where
  "create_nodes nmem addr reuse [] i st = Ok (Some [], st)"
| "create_nodes nmem addr reuse (b # bs) i st =
     (case create_node (nmem i) (addr i) st (bn_servlet_id b) (bn_flags b) reuse of
        Undef \<Rightarrow> Undef
      | Error \<Rightarrow> Ok (None, st)
      | Ok (node, st1) \<Rightarrow>
          rmap (\<lambda>(nodes, st2). (map_option ((#) node) nodes, st2))
            (create_nodes nmem addr reuse bs (Suc i) st1))"

text \<open>
  The second pass over the pipes. A node was allocated with room for exactly the counted
  pipes, the incoming ones before the outgoing ones; a write beyond the counts is out of
  bounds.
\<close>

fun link_pipes :: "nat list \<Rightarrow> nat list \<Rightarrow> pipe_descriptor list \<Rightarrow> snode list \<Rightarrow> snode list result" where
  "link_pipes inc out [] nodes = Ok nodes"
| "link_pipes inc out (p # ps) nodes =
     (let src = source_node_id p; dst = destination_node_id p
      in if dst < length nodes \<and> src < length nodes \<and> length (incoming (nodes ! dst)) < inc ! dst
         then let nodes1 = nodes[dst := (nodes ! dst)\<lparr>incoming := incoming (nodes ! dst) @ [p]\<rparr>]
              in if length (outgoing (nodes1 ! src)) < out ! src
                 then link_pipes inc out ps
                        (nodes1[src := (nodes1 ! src)\<lparr>outgoing := outgoing (nodes1 ! src) @ [p]\<rparr>])
                 else Undef
         else Undef)"

text \<open>
  \<^verbatim>\<open>qsort\<close> by the source pipe. Two pipes of a node never have the same source pipe, so
  the sorted order is unique and any sorting function gives it.
\<close>

definition sort_outgoing :: "snode \<Rightarrow> snode" where
  "sort_outgoing node = node\<lparr>outgoing := sort_key source_pipe_desc (outgoing node)\<rparr>"

text \<open>
  The whole construction. The result is \<open>None\<close> when the code returns NULL; the servlet
  table is returned in both cases, because the owners set so far stay set. Allocation 0 is
  the service, 1 and 2 the counting arrays, 3 the degree array.
\<close>

definition on_error :: "'a result \<Rightarrow> 's \<Rightarrow> ('a \<Rightarrow> ('b option \<times> 's) result) \<Rightarrow> ('b option \<times> 's) result" where
  "on_error r st f = (case r of Ok v \<Rightarrow> f v | Error \<Rightarrow> Ok (None, st) | Undef \<Rightarrow> Undef)"

definition sched_service_from_buffer ::
  "alloc \<Rightarrow> (nat \<Rightarrow> alloc) \<Rightarrow> alloc \<Rightarrow> (node_id \<Rightarrow> alloc) \<Rightarrow> (nat \<Rightarrow> nat) \<Rightarrow> (stab \<Rightarrow> service \<Rightarrow> service result)
     \<Rightarrow> stab \<Rightarrow> service_buffer \<Rightarrow> (service option \<times> stab) result" where
  "sched_service_from_buffer mem nmem cmem bmem addr type_check st buffer =
     (let num_nodes = vector_length (buf_nodes buffer); pipes = vec_data (buf_pipes buffer) in
      on_error (check_pipe st buffer (buf_input_node buffer) (buf_input_pipe buffer) True) st (\<lambda>_.
      on_error (check_pipe st buffer (buf_output_node buffer) (buf_output_pipe buffer) False) st (\<lambda>_.
      if \<not> mem 0 then Ok (None, st)
      else if num_nodes > SCHED_SERVICE_MAX_NUM_NODES then Ok (None, st)
      else if length pipes > SCHED_SERVICE_MAX_NUM_EDGES then Ok (None, st)
      else if \<not> mem 1 then Ok (None, st)
      else if \<not> mem 2 then Ok (None, st)
      else on_error (count_pipes pipes (replicate num_nodes 0, replicate num_nodes 0)) st (\<lambda>(inc, out).
           rbind (create_nodes nmem addr (reuse_servlet buffer) (vec_data (buf_nodes buffer)) 0 st)
             (\<lambda>(created, st1). case created of None \<Rightarrow> Ok (None, st1) | Some nodes \<Rightarrow>
           on_error (link_pipes inc out pipes nodes) st1 (\<lambda>linked.
           let svc = \<lparr>svc_input_node = buf_input_node buffer, svc_output_node = buf_output_node buffer,
                      svc_input_pipe = buf_input_pipe buffer, svc_output_pipe = buf_output_pipe buffer,
                      svc_c_nodes = None, svc_nodes = map sort_outgoing linked\<rparr> in
           on_error (check_service_graph (mem 3) st1 svc) st1 (\<lambda>_.
           on_error (sched_cnode_analyze cmem bmem svc) st1 (\<lambda>info.
           on_error (type_check st1 (svc\<lparr>svc_c_nodes := Some info\<rparr>)) st1 (\<lambda>svc'.
           Ok (Some svc', st1))))))))))"

subsection \<open>Counting, creating, linking\<close>

lemma count_pipes_ok:
  assumes "\<forall>p\<in>set ps. destination_node_id p < length inc \<and> source_node_id p < length out"
  shows "\<exists>inc' out'. count_pipes ps (inc, out) = Ok (inc', out')
    \<and> length inc' = length inc \<and> length out' = length out
    \<and> (\<forall>i<length inc. inc' ! i = inc ! i + length (filter (\<lambda>p. destination_node_id p = i) ps))
    \<and> (\<forall>i<length out. out' ! i = out ! i + length (filter (\<lambda>p. source_node_id p = i) ps))"
  using assms
proof (induction ps arbitrary: inc out)
  case Nil
  then show ?case by simp
next
  case (Cons p ps)
  let ?inc = "inc[destination_node_id p := inc ! destination_node_id p + 1]"
  let ?out = "out[source_node_id p := out ! source_node_id p + 1]"
  obtain inc' out' where r: "count_pipes ps (?inc, ?out) = Ok (inc', out')"
    "length inc' = length inc" "length out' = length out"
    "\<forall>i<length inc. inc' ! i = ?inc ! i + length (filter (\<lambda>p. destination_node_id p = i) ps)"
    "\<forall>i<length out. out' ! i = ?out ! i + length (filter (\<lambda>p. source_node_id p = i) ps)"
    using Cons.IH [of ?inc ?out] Cons.prems by auto
  have "count_pipes (p # ps) (inc, out) = Ok (inc', out')" using r(1) Cons.prems by (simp add: Let_def)
  moreover have "\<forall>i<length inc. inc' ! i = inc ! i + length (filter (\<lambda>q. destination_node_id q = i) (p # ps))"
    using r(4) Cons.prems by (auto simp: nth_list_update)
  moreover have "\<forall>i<length out. out' ! i = out ! i + length (filter (\<lambda>q. source_node_id q = i) (p # ps))"
    using r(5) Cons.prems by (auto simp: nth_list_update)
  ultimately show ?case using r(2,3) by blast
qed

lemma link_pipes_ok:
  assumes "\<forall>p\<in>set ps. destination_node_id p < length nodes \<and> source_node_id p < length nodes"
    and "\<forall>i<length nodes. inc ! i = length (incoming (nodes ! i)) + length (filter (\<lambda>p. destination_node_id p = i) ps)"
    and "\<forall>i<length nodes. out ! i = length (outgoing (nodes ! i)) + length (filter (\<lambda>p. source_node_id p = i) ps)"
  shows "\<exists>nodes'. link_pipes inc out ps nodes = Ok nodes' \<and> length nodes' = length nodes
    \<and> (\<forall>i<length nodes.
         incoming (nodes' ! i) = incoming (nodes ! i) @ filter (\<lambda>p. destination_node_id p = i) ps
       \<and> outgoing (nodes' ! i) = outgoing (nodes ! i) @ filter (\<lambda>p. source_node_id p = i) ps
       \<and> node_servlet_id (nodes' ! i) = node_servlet_id (nodes ! i))"
  using assms
proof (induction ps arbitrary: nodes)
  case Nil
  then show ?case by simp
next
  case (Cons p ps)
  let ?s = "source_node_id p" and ?d = "destination_node_id p"
  let ?n1 = "nodes[?d := (nodes ! ?d)\<lparr>incoming := incoming (nodes ! ?d) @ [p]\<rparr>]"
  let ?n2 = "?n1[?s := (?n1 ! ?s)\<lparr>outgoing := outgoing (?n1 ! ?s) @ [p]\<rparr>]"
  have b: "?s < length nodes" "?d < length nodes" using Cons.prems(1) by auto
  have n2: "incoming (?n2 ! i) = incoming (nodes ! i) @ (if i = ?d then [p] else [])"
    "outgoing (?n2 ! i) = outgoing (nodes ! i) @ (if i = ?s then [p] else [])"
    "node_servlet_id (?n2 ! i) = node_servlet_id (nodes ! i)" if "i < length nodes" for i
    using b that by (auto simp: nth_list_update)
  have step: "link_pipes inc out (p # ps) nodes = link_pipes inc out ps ?n2"
    using b Cons.prems(2,3) by (auto simp: Let_def nth_list_update)
  have "\<exists>nodes'. link_pipes inc out ps ?n2 = Ok nodes' \<and> length nodes' = length ?n2
    \<and> (\<forall>i<length ?n2.
         incoming (nodes' ! i) = incoming (?n2 ! i) @ filter (\<lambda>p. destination_node_id p = i) ps
       \<and> outgoing (nodes' ! i) = outgoing (?n2 ! i) @ filter (\<lambda>p. source_node_id p = i) ps
       \<and> node_servlet_id (nodes' ! i) = node_servlet_id (?n2 ! i))"
    by (rule Cons.IH) (use Cons.prems n2 in auto)
  then obtain nodes' where r: "link_pipes inc out ps ?n2 = Ok nodes'" "length nodes' = length nodes"
    "\<forall>i<length nodes. incoming (nodes' ! i) = incoming (?n2 ! i) @ filter (\<lambda>p. destination_node_id p = i) ps
       \<and> outgoing (nodes' ! i) = outgoing (?n2 ! i) @ filter (\<lambda>p. source_node_id p = i) ps
       \<and> node_servlet_id (nodes' ! i) = node_servlet_id (?n2 ! i)" by auto
  show ?case
    by (intro exI [of _ nodes']) (use r n2 step in auto)
qed

lemma create_node_fields:
  assumes "create_node mem addr st sid flags reuse = Ok (node, st')"
  shows "incoming node = [] \<and> outgoing node = [] \<and> node_servlet_id node = sid"
  using assms by (auto simp: create_node_def Let_def result_simps split: if_splits result.splits)

lemma create_nodes_fields:
  assumes "create_nodes nmem addr reuse bs i st = Ok (Some nodes, st')"
  shows "length nodes = length bs \<and>
    (\<forall>k<length bs. incoming (nodes ! k) = [] \<and> outgoing (nodes ! k) = []
        \<and> node_servlet_id (nodes ! k) = bn_servlet_id (bs ! k))"
  using assms
proof (induction bs arbitrary: i st nodes)
  case Nil
  then show ?case by simp
next
  case (Cons b bs)
  obtain node st1 where n: "create_node (nmem i) (addr i) st (bn_servlet_id b) (bn_flags b) reuse = Ok (node, st1)"
    using Cons.prems by (auto split: result.splits)
  then obtain rest where r: "create_nodes nmem addr reuse bs (Suc i) st1 = Ok (Some rest, st')" "nodes = node # rest"
    using Cons.prems by (fastforce simp: result_simps map_option_case split: option.splits)
  have "incoming (nodes ! k) = [] \<and> outgoing (nodes ! k) = [] \<and> node_servlet_id (nodes ! k) = bn_servlet_id ((b # bs) ! k)"
    if "k < length (b # bs)" for k
    using create_node_fields [OF n] Cons.IH [OF r(1)] r(2) that by (cases k) auto
  then show ?case using Cons.IH [OF r(1)] r(2) by simp
qed

subsection \<open>The graph that is built\<close>

lemma count_mset_concat: "count (mset (concat xss)) x = sum_list (map (\<lambda>xs. count (mset xs) x) xss)"
  by (induction xss) auto

lemma mset_filter_partition:
  assumes "\<forall>p\<in>set ps. f p < n"
  shows "mset (concat (map (\<lambda>u. filter (\<lambda>p. f p = u) ps) [0..<n])) = mset ps"
proof (rule multiset_eqI)
  fix x
  have "count (mset (concat (map (\<lambda>u. filter (\<lambda>p. f p = u) ps) [0..<n]))) x
      = (\<Sum>u\<leftarrow>[0..<n]. count (mset (filter (\<lambda>p. f p = u) ps)) x)"
    by (simp only: count_mset_concat map_map comp_def)
  also have "\<dots> = (\<Sum>u\<leftarrow>[0..<n]. if u = f x then count (mset ps) x else 0)"
    by (rule arg_cong [where f = sum_list], rule map_cong) auto
  also have "\<dots> = (\<Sum>u<n. if u = f x then count (mset ps) x else 0)"
    by (simp add: sum_list_distinct_conv_sum_set atLeast0LessThan)
  also have "\<dots> = (if f x < n then count (mset ps) x else 0)" by simp
  also have "\<dots> = count (mset ps) x" using assms by (auto simp: count_eq_zero_iff)
  finally show "count (mset (concat (map (\<lambda>u. filter (\<lambda>p. f p = u) ps) [0..<n]))) x = count (mset ps) x" .
qed

text \<open>The lists of a service that was linked from the pipes \<open>ps\<close>.\<close>

definition built_from :: "pipe_descriptor list \<Rightarrow> service \<Rightarrow> bool" where
  "built_from ps svc \<longleftrightarrow> (\<forall>i<node_count svc.
      incoming (svc_nodes svc ! i) = filter (\<lambda>p. destination_node_id p = i) ps
    \<and> outgoing (svc_nodes svc ! i) = sort_key source_pipe_desc (filter (\<lambda>p. source_node_id p = i) ps))"

lemma built_from_wf:
  assumes "built_from ps svc" and "\<forall>p\<in>set ps. source_node_id p < node_count svc \<and> destination_node_id p < node_count svc"
    and "node_count svc \<le> ERROR_NODE_ID" and "svc_input_node svc < node_count svc"
    and "svc_output_node svc < node_count svc"
  shows "service_wf svc"
proof -
  let ?n = "node_count svc"
  have "map outgoing (svc_nodes svc) = map (\<lambda>i. sort_key source_pipe_desc (filter (\<lambda>p. source_node_id p = i) ps)) [0..<?n]"
    using assms(1) by (auto simp: built_from_def intro: nth_equalityI)
  then have "mset (all_edges svc) = mset (concat (map (\<lambda>u. filter (\<lambda>p. source_node_id p = u) ps) [0..<?n]))"
    by (simp add: all_edges_def mset_concat comp_def)
  also have "\<dots> = mset ps" by (rule mset_filter_partition) (use assms(2) in blast)
  finally have "mset (filter (\<lambda>p. destination_node_id p = i) (all_edges svc))
      = mset (filter (\<lambda>p. destination_node_id p = i) ps)" for i by simp
  then show ?thesis
    using assms by (auto simp: service_wf_def built_from_def)
qed

definition same_graph :: "service \<Rightarrow> service \<Rightarrow> bool" where
  "same_graph a b \<longleftrightarrow> svc_input_node a = svc_input_node b \<and> svc_output_node a = svc_output_node b
     \<and> svc_input_pipe a = svc_input_pipe b \<and> svc_output_pipe a = svc_output_pipe b
     \<and> svc_c_nodes a = svc_c_nodes b
     \<and> map (\<lambda>n. (incoming n, outgoing n, node_servlet_id n)) (svc_nodes a)
       = map (\<lambda>n. (incoming n, outgoing n, node_servlet_id n)) (svc_nodes b)"

lemma on_error_Some:
  "on_error r st f = Ok (Some x, st') \<longleftrightarrow> (\<exists>v. r = Ok v \<and> f v = Ok (Some x, st'))"
  by (auto simp: on_error_def split: result.splits)

text \<open>A successful construction, taken apart.\<close>

lemma from_buffer_success:
  assumes "sched_service_from_buffer mem nmem cmem bmem addr tc st b = Ok (Some svc, st')"
  obtains inc out nodes linked svc0 info where
    "check_pipe st b (buf_input_node b) (buf_input_pipe b) True = Ok ()"
    and "check_pipe st b (buf_output_node b) (buf_output_pipe b) False = Ok ()"
    and "length (nodes_of b) \<le> SCHED_SERVICE_MAX_NUM_NODES"
    and "count_pipes (pipes_of b) (replicate (length (nodes_of b)) 0, replicate (length (nodes_of b)) 0) = Ok (inc, out)"
    and "create_nodes nmem addr (reuse_servlet b) (nodes_of b) 0 st = Ok (Some nodes, st')"
    and "link_pipes inc out (pipes_of b) nodes = Ok linked"
    and "svc0 = \<lparr>svc_input_node = buf_input_node b, svc_output_node = buf_output_node b,
                 svc_input_pipe = buf_input_pipe b, svc_output_pipe = buf_output_pipe b,
                 svc_c_nodes = None, svc_nodes = map sort_outgoing linked\<rparr>"
    and "check_service_graph (mem 3) st' svc0 = Ok ()"
    and "sched_cnode_analyze cmem bmem svc0 = Ok info"
    and "tc st' (svc0\<lparr>svc_c_nodes := Some info\<rparr>) = Ok svc"
  using assms
  by (auto simp: sched_service_from_buffer_def Let_def on_error_Some rbind_eq_Ok vector_length_def
      split: if_splits option.splits)

lemma from_buffer_built:
  assumes inv: "buffer_inv st b"
    and ok: "sched_service_from_buffer mem nmem cmem bmem addr tc st b = Ok (Some svc, st')"
  obtains svc0 info where "built_from (pipes_of b) svc0" and "service_wf svc0"
    and "node_count svc0 = length (nodes_of b)"
    and "\<forall>i<length (nodes_of b). node_servlet_id (svc_nodes svc0 ! i) = bn_servlet_id (nodes_of b ! i)"
    and "svc_input_node svc0 = buf_input_node b" and "svc_output_node svc0 = buf_output_node b"
    and "check_service_graph (mem 3) st' svc0 = Ok ()"
    and "sched_cnode_analyze cmem bmem svc0 = Ok info"
    and "tc st' (svc0\<lparr>svc_c_nodes := Some info\<rparr>) = Ok svc"
proof -
  let ?n = "length (nodes_of b)" and ?ps = "pipes_of b"
  obtain inc out nodes linked svc0 info where r:
    "check_pipe st b (buf_input_node b) (buf_input_pipe b) True = Ok ()"
    "check_pipe st b (buf_output_node b) (buf_output_pipe b) False = Ok ()"
    "?n \<le> SCHED_SERVICE_MAX_NUM_NODES"
    "count_pipes ?ps (replicate ?n 0, replicate ?n 0) = Ok (inc, out)"
    "create_nodes nmem addr (reuse_servlet b) (nodes_of b) 0 st = Ok (Some nodes, st')"
    "link_pipes inc out ?ps nodes = Ok linked"
    "svc0 = \<lparr>svc_input_node = buf_input_node b, svc_output_node = buf_output_node b,
                 svc_input_pipe = buf_input_pipe b, svc_output_pipe = buf_output_pipe b,
                 svc_c_nodes = None, svc_nodes = map sort_outgoing linked\<rparr>"
    "check_service_graph (mem 3) st' svc0 = Ok ()" "sched_cnode_analyze cmem bmem svc0 = Ok info"
    "tc st' (svc0\<lparr>svc_c_nodes := Some info\<rparr>) = Ok svc"
    using from_buffer_success [OF ok] by metis
  have io: "buf_input_node b < ?n" "buf_output_node b < ?n"
    using check_pipe_bounds(1) [OF r(1)] check_pipe_bounds(1) [OF r(2)] .
  have ends: "\<forall>p\<in>set ?ps. destination_node_id p < ?n \<and> source_node_id p < ?n"
    using inv check_pipe_bounds(1) unfolding buffer_inv_def valid_slot_def src_slot_def dst_slot_def
    by fastforce
  have cnt: "\<forall>i<?n. inc ! i = length (filter (\<lambda>p. destination_node_id p = i) ?ps)
      \<and> out ! i = length (filter (\<lambda>p. source_node_id p = i) ?ps)"
    using count_pipes_ok [of ?ps "replicate ?n 0" "replicate ?n 0"] ends r(4) by auto
  have nodes: "length nodes = ?n" "\<forall>k<?n. incoming (nodes ! k) = [] \<and> outgoing (nodes ! k) = []
      \<and> node_servlet_id (nodes ! k) = bn_servlet_id (nodes_of b ! k)"
    using create_nodes_fields [OF r(5)] by auto
  have link: "length linked = ?n" "\<forall>i<?n. incoming (linked ! i) = filter (\<lambda>p. destination_node_id p = i) ?ps
      \<and> outgoing (linked ! i) = filter (\<lambda>p. source_node_id p = i) ?ps
      \<and> node_servlet_id (linked ! i) = bn_servlet_id (nodes_of b ! i)"
    using link_pipes_ok [of ?ps nodes inc out] ends cnt nodes r(6) by auto
  have built: "built_from ?ps svc0" and servlets: "\<forall>i<?n. node_servlet_id (svc_nodes svc0 ! i) = bn_servlet_id (nodes_of b ! i)"
    and n: "node_count svc0 = ?n"
    using link r(7) by (simp_all add: built_from_def sort_outgoing_def)
  have "service_wf svc0"
    by (rule built_from_wf [OF built])
      (use ends n io r(3,7) in \<open>auto simp: ERROR_NODE_ID_def SCHED_SERVICE_MAX_NUM_NODES_def\<close>)
  with built n servlets r(7-10) show ?thesis by (intro that) auto
qed

lemma same_graph_nodes:
  assumes "same_graph a b" and "i < node_count a"
  shows "incoming (svc_nodes b ! i) = incoming (svc_nodes a ! i)"
    and "outgoing (svc_nodes b ! i) = outgoing (svc_nodes a ! i)"
    and "node_servlet_id (svc_nodes b ! i) = node_servlet_id (svc_nodes a ! i)"
proof -
  let ?g = "\<lambda>n. (incoming n, outgoing n, node_servlet_id n)"
  have n: "node_count b = node_count a"
    using assms(1) map_eq_imp_length_eq by (fastforce simp: same_graph_def)
  have "map ?g (svc_nodes a) ! i = map ?g (svc_nodes b) ! i"
    using assms(1) by (simp only: same_graph_def)
  then show "incoming (svc_nodes b ! i) = incoming (svc_nodes a ! i)"
    and "outgoing (svc_nodes b ! i) = outgoing (svc_nodes a ! i)"
    and "node_servlet_id (svc_nodes b ! i) = node_servlet_id (svc_nodes a ! i)"
    using assms(2) n by simp_all
qed

lemma wf_c_nodes:
  "service_wf (svc\<lparr>svc_c_nodes := x\<rparr>) = service_wf svc"
  "svc_graph (svc\<lparr>svc_c_nodes := x\<rparr>) = svc_graph svc"
  "no_orphans (svc\<lparr>svc_c_nodes := x\<rparr>) = no_orphans svc"
  by (simp_all add: service_wf_def svc_graph_def no_orphans_def all_edges_def)

lemma same_graph_wf:
  assumes "same_graph a b" and "service_wf a"
  shows "service_wf b" and "svc_graph b = svc_graph a" and "node_count b = node_count a"
    and "no_orphans b = no_orphans a"
proof -
  have n: "node_count b = node_count a"
    using assms(1) map_eq_imp_length_eq by (fastforce simp: same_graph_def)
  then show "node_count b = node_count a" .
  note f = same_graph_nodes [OF assms(1)]
  have "map outgoing (svc_nodes b) = map outgoing (svc_nodes a)"
    by (rule nth_equalityI) (use n f in auto)
  then have e: "all_edges b = all_edges a" by (simp add: all_edges_def)
  have io: "svc_input_node b = svc_input_node a" "svc_output_node b = svc_output_node a"
    using assms(1) by (auto simp: same_graph_def)
  show "service_wf b" using assms(2) n f e io by (simp add: service_wf_def)
  show "svc_graph b = svc_graph a" using n f by (auto simp: svc_graph_def)
  show "no_orphans b = no_orphans a"
    using n f io by (simp add: no_orphans_def orphan_ids_def init_deg_def filter_empty_conv)
qed

subsection \<open>A concrete construction\<close>

definition chain_buffer :: service_buffer where
  "chain_buffer = \<lparr>reuse_servlet = False,
     buf_nodes = \<lparr>vec_cap = 32, vec_data = map (\<lambda>sid. \<lparr>bn_servlet_id = sid, bn_flags = 0\<rparr>) [0, 2, 1]\<rparr>,
     buf_pipes = \<lparr>vec_cap = 8, vec_data = [edge 0 1 1 0, edge 1 1 2 0]\<rparr>,
     buf_input_node = 0, buf_input_pipe = 0, buf_output_node = 2, buf_output_pipe = 2\<rparr>"

definition chain_stab :: stab where
  "chain_stab = (let st = sample_stab;
      own = (\<lambda>a sid st. case runtime_stab_set_owner st sid (Some a) False of Ok st' \<Rightarrow> st' | _ \<Rightarrow> st)
    in own 102 1 (own 101 2 (own 100 0 st)))"

lemma chain_check_pipe:
  "check_pipe sample_stab chain_buffer 0 0 True = Ok ()" "check_pipe sample_stab chain_buffer 2 2 False = Ok ()"
  "check_pipe sample_stab chain_buffer 0 1 False = Ok ()" "check_pipe sample_stab chain_buffer 1 0 True = Ok ()"
  "check_pipe sample_stab chain_buffer 1 1 False = Ok ()" "check_pipe sample_stab chain_buffer 2 0 True = Ok ()"
  by (simp_all add: check_pipe_def check_node_id_def chain_buffer_def ERROR_NODE_ID_def ERROR_PIPE_ID_def
      ERROR_SIZE_def runtime_stab_num_pipes_def runtime_stab_get_pipe_flags_def sample_servlets
      sample_servlet_eval runtime_pdt_get_flags_by_pd_def pd_invalid_def pipe_is_input_def pipe_is_output_def
      RUNTIME_API_PIPE_OUTPUT_def)

lemma chain_buffer_inv: "buffer_inv sample_stab chain_buffer"
proof -
  have p: "pipes_of chain_buffer = [edge 0 1 1 0, edge 1 1 2 0]" and "length (nodes_of chain_buffer) = 3"
    "vec_cap (buf_nodes chain_buffer) = 32" "vec_cap (buf_pipes chain_buffer) = 8"
    by (simp_all add: chain_buffer_def)
  with chain_check_pipe show ?thesis
    by (simp add: buffer_inv_def vector_wf_def vector_length_def valid_slot_def src_slot_def dst_slot_def)
qed

lemma chain_create:
  "create_nodes (\<lambda>_. plenty) (\<lambda>i. 100 + i) False (nodes_of chain_buffer) 0 sample_stab
     = Ok (Some [blank_node 0 3 [] [], blank_node 2 3 [] [], blank_node 1 3 [] []], chain_stab)"
  by (simp add: create_node_def chain_buffer_def chain_stab_def runtime_stab_get_pdt_def
      runtime_stab_set_owner_def sample_stab_eval sample_servlet_eval ERROR_PIPE_ID_def blank_node_def
      Let_def)

lemma chain_from_buffer:
  obtains info where "sched_service_from_buffer plenty (\<lambda>_. plenty) plenty (\<lambda>_. plenty) (\<lambda>i. 100 + i)
      (\<lambda>st svc. Ok svc) sample_stab chain_buffer = Ok (Some (sample_chain\<lparr>svc_c_nodes := Some info\<rparr>), chain_stab)"
proof -
  obtain info where i: "sched_cnode_analyze plenty (\<lambda>_. plenty) sample_chain = Ok info"
    using cnode_analyze_ok [OF sample_chain_wf, of plenty "\<lambda>_. plenty"] by auto
  have l: "link_pipes [0, 1, 1] [1, 1, 0] (pipes_of chain_buffer)
      [blank_node 0 3 [] [], blank_node 2 3 [] [], blank_node 1 3 [] []] = Ok (svc_nodes sample_chain)"
    by (simp add: chain_buffer_def sample_chain_def blank_node_def Let_def)
  have c: "count_pipes (pipes_of chain_buffer) (replicate 3 0, replicate 3 0) = Ok ([0, 1, 1], [1, 1, 0])"
    by (simp add: chain_buffer_def numeral_3_eq_3)
  have "runtime_stab_get_num_input_pipe chain_stab 0 = Ok 1"
    by (simp add: chain_stab_def runtime_stab_set_owner_def runtime_stab_get_num_input_pipe_def
        sample_stab_eval sample_servlet_eval Let_def)
  then have k: "check_service_graph True chain_stab sample_chain = Ok ()"
    using kahn_complete [OF sample_chain_wf _ sample_chain_acyclic, of 3] sample_chain_no_orphans
    by (simp add: check_graph_Ok_iff [OF sample_chain_wf] init_nz_def no_orphans_def)
      (simp add: sample_chain_def numeral_3_eq_3)
  have s: "map sort_outgoing (svc_nodes sample_chain) = svc_nodes sample_chain"
    by (simp add: sample_chain_def sort_outgoing_def blank_node_def)
  have b: "buf_input_node chain_buffer = 0" "buf_input_pipe chain_buffer = 0" "buf_output_node chain_buffer = 2"
    "buf_output_pipe chain_buffer = 2" "\<not> reuse_servlet chain_buffer" "length (nodes_of chain_buffer) = 3"
    "length (pipes_of chain_buffer) = 2"
    by (simp_all add: chain_buffer_def)
  have svc: "\<lparr>svc_input_node = 0, svc_output_node = 2, svc_input_pipe = 0, svc_output_pipe = 2,
      svc_c_nodes = None, svc_nodes = svc_nodes sample_chain\<rparr> = sample_chain"
    by (simp add: sample_chain_def service_of_def)
  show ?thesis
    by (rule that [of info])
      (simp add: sched_service_from_buffer_def Let_def vector_length_def b chain_check_pipe on_error_def
        SCHED_SERVICE_MAX_NUM_NODES_def SCHED_SERVICE_MAX_NUM_EDGES_def c [simplified] chain_create [simplified]
        l [simplified] s [simplified] k i svc)
qed

subsection \<open>Properties\<close>

text \<open>C1: a service that is built has exactly the graph its buffer describes: one node per node of
  the buffer, with the same servlet; as incoming pipes the pipes of the buffer that end there,
  in the order in which they were added, and as outgoing pipes those that start there, sorted
  by the source pipe; and the input and output of the buffer. The lists fit the arrays that were
  counted for them and the graph is well formed.\<close>

theorem from_buffer_graph:
  assumes "buffer_inv st b" and "\<forall>st s s'. tc st s = Ok s' \<longrightarrow> same_graph s s'"
    and "sched_service_from_buffer mem nmem cmem bmem addr tc st b = Ok (Some svc, st')"
  shows "service_wf svc \<and> node_count svc = length (nodes_of b)
    \<and> svc_input_node svc = buf_input_node b \<and> svc_output_node svc = buf_output_node b
    \<and> (\<forall>i<node_count svc. node_servlet_id (svc_nodes svc ! i) = bn_servlet_id (nodes_of b ! i)
         \<and> incoming (svc_nodes svc ! i) = filter (\<lambda>p. destination_node_id p = i) (pipes_of b)
         \<and> outgoing (svc_nodes svc ! i) = sort_key source_pipe_desc (filter (\<lambda>p. source_node_id p = i) (pipes_of b)))"
proof -
  obtain svc0 info where s: "built_from (pipes_of b) svc0" "service_wf svc0"
    "node_count svc0 = length (nodes_of b)"
    "\<forall>i<length (nodes_of b). node_servlet_id (svc_nodes svc0 ! i) = bn_servlet_id (nodes_of b ! i)"
    "svc_input_node svc0 = buf_input_node b" "svc_output_node svc0 = buf_output_node b"
    "tc st' (svc0\<lparr>svc_c_nodes := Some info\<rparr>) = Ok svc"
    using from_buffer_built [OF assms(1,3)] by metis
  have sg: "same_graph (svc0\<lparr>svc_c_nodes := Some info\<rparr>) svc" using assms(2) s(7) by blast
  then show ?thesis
    using same_graph_wf(1,3) [OF sg] same_graph_nodes [OF sg] s
    by (simp add: same_graph_def wf_c_nodes built_from_def)
qed

theorem from_buffer_graph_witness:
  "\<exists>svc st'. sched_service_from_buffer plenty (\<lambda>_. plenty) plenty (\<lambda>_. plenty) (\<lambda>i. 100 + i)
      (\<lambda>st svc. Ok svc) sample_stab chain_buffer = Ok (Some svc, st') \<and> service_wf svc \<and> node_count svc = 3"
proof -
  obtain info where r: "sched_service_from_buffer plenty (\<lambda>_. plenty) plenty (\<lambda>_. plenty) (\<lambda>i. 100 + i)
      (\<lambda>st svc. Ok svc) sample_stab chain_buffer = Ok (Some (sample_chain\<lparr>svc_c_nodes := Some info\<rparr>), chain_stab)"
    by (rule chain_from_buffer)
  have "length (nodes_of chain_buffer) = 3" by (simp add: chain_buffer_def)
  with from_buffer_graph [OF chain_buffer_inv _ r] r show ?thesis
    by (auto simp: same_graph_def)
qed

text \<open>C2: every service that is built and in which each node other than the input has a pipe into
  it is acyclic and connected, and it carries exact critical-node information: a node has
  an entry exactly when other nodes depend on it alone.\<close>

theorem from_buffer_analysed:
  assumes "buffer_inv st b" and "\<forall>st s s'. tc st s = Ok s' \<longrightarrow> same_graph s s'"
    and "sched_service_from_buffer mem nmem plenty (\<lambda>_. plenty) addr tc st b = Ok (Some svc, st')"
    and "no_orphans svc"
  shows "acyclic (svc_graph svc) \<and> {..<node_count svc} \<subseteq> reach (svc_graph svc) (svc_input_node svc)
    \<and> (\<exists>info. svc_c_nodes svc = Some info \<and> length info = node_count svc
         \<and> (\<forall>c<node_count svc. info ! c \<noteq> None \<longleftrightarrow> (\<exists>v\<in>cluster svc c. v \<noteq> c)))"
proof -
  obtain svc0 info where s: "service_wf svc0" "check_service_graph (mem 3) st' svc0 = Ok ()"
    "sched_cnode_analyze plenty (\<lambda>_. plenty) svc0 = Ok info"
    "tc st' (svc0\<lparr>svc_c_nodes := Some info\<rparr>) = Ok svc"
    using from_buffer_built [OF assms(1,3)] by metis
  have sg: "same_graph (svc0\<lparr>svc_c_nodes := Some info\<rparr>) svc" using assms(2) s(4) by blast
  note same = same_graph_wf [OF sg, unfolded wf_c_nodes, OF s(1)]
  have n0: "no_orphans svc0" using same(4) assms(4) by (simp add: wf_c_nodes)
  note chk = s(2) [unfolded check_graph_Ok_iff [OF s(1)]]
  have ac: "acyclic (svc_graph svc0)"
    by (rule kahn_sound [OF s(1)]) (use chk n0 in \<open>simp_all add: no_orphans_def init_nz_def\<close>)
  obtain info' where i: "sched_cnode_analyze plenty (\<lambda>_. plenty) svc0 = Ok info'" "length info' = node_count svc0"
    "\<forall>c<node_count svc0. info' ! c =
      (if \<exists>w<node_count svc0. single_source svc0 w c then Some (cluster_info svc0 c) else None)"
    using cnode_analyze_ok [OF s(1), of plenty "\<lambda>_. plenty"] by auto
  have "info' = info" using i(1) s(3) by simp
  moreover have "{..<node_count svc0} \<subseteq> reach (svc_graph svc0) (svc_input_node svc0)"
    using sg.acyclic_all_reachable [OF ac] no_orphans_pred [OF s(1) n0] by blast
  moreover have "info' ! c \<noteq> None \<longleftrightarrow> (\<exists>v\<in>cluster svc0 c. v \<noteq> c)" if "c < node_count svc0" for c
    using critical_iff [OF s(1) ac n0 _ that] chk i(3) that by simp
  moreover have "svc_c_nodes svc = Some info" "svc_input_node svc0 = svc_input_node svc"
    using sg by (simp_all add: same_graph_def)
  ultimately show ?thesis using ac i(2) same by (simp add: wf_c_nodes cluster_def)
qed

theorem from_buffer_analysed_witness:
  "\<exists>svc st'. sched_service_from_buffer plenty (\<lambda>_. plenty) plenty (\<lambda>_. plenty) (\<lambda>i. 100 + i)
      (\<lambda>st svc. Ok svc) sample_stab chain_buffer = Ok (Some svc, st') \<and> acyclic (svc_graph svc)"
proof -
  obtain info where r: "sched_service_from_buffer plenty (\<lambda>_. plenty) plenty (\<lambda>_. plenty) (\<lambda>i. 100 + i)
      (\<lambda>st svc. Ok svc) sample_stab chain_buffer = Ok (Some (sample_chain\<lparr>svc_c_nodes := Some info\<rparr>), chain_stab)"
    by (rule chain_from_buffer)
  have "no_orphans (sample_chain\<lparr>svc_c_nodes := Some info\<rparr>)"
    using sample_chain_no_orphans by (simp add: wf_c_nodes)
  with from_buffer_analysed [OF chain_buffer_inv _ r] r show ?thesis
    by (auto simp: same_graph_def)
qed

end
