(* ===== verification/FdIo.thy ===== *)
theory FdIo
  imports StrBuf
begin

text \<open>
  The byte format of a dumped service, \<^verbatim>\<open>_fd_io\<close>, \<^verbatim>\<open>_dump_string\<close> and
  \<^verbatim>\<open>_read_string\<close> of \<^verbatim>\<open>src/sched/service.c\<close>. The kernel's \<^verbatim>\<open>read\<close> and \<^verbatim>\<open>write\<close> are
  a script of answers, one per call: how many bytes a call transfers at most, that it is to be
  repeated, or that it fails. A script is finite, and after its end every call transfers as
  much as it can; a descriptor that asks for repetition for ever is outside the model, there the
  loop of \<^verbatim>\<open>_fd_io\<close> does not end. Bytes are characters.
\<close>

datatype io_answer = Transfer nat | Retry | Hangup | Failure

subsection \<open>Numbers\<close>

text \<open>Unsigned integers of \<open>k\<close> bytes, little endian, as the packed structures have them.\<close>

primrec le_bytes :: "nat \<Rightarrow> nat \<Rightarrow> string" where
  "le_bytes 0 n = []"
| "le_bytes (Suc k) n = char_of (n mod 256) # le_bytes k (n div 256)"

primrec le_val :: "string \<Rightarrow> nat" where
  "le_val [] = 0"
| "le_val (c # cs) = of_char c + 256 * le_val cs"

lemma le_bytes_length [simp]: "length (le_bytes k n) = k"
  by (induction k arbitrary: n) auto

lemma le_val_bytes: "n < 256 ^ k \<Longrightarrow> le_val (le_bytes k n) = n"
proof (induction k arbitrary: n)
  case 0
  then show ?case by simp
next
  case (Suc k)
  have "n div 256 < 256 ^ k" using Suc.prems by (simp add: less_mult_imp_div_less mult.commute)
  then have "le_val (le_bytes k (n div 256)) = n div 256" by (rule Suc.IH)
  then show ?case by (simp add: of_char_of)
qed

subsection \<open>The transfer loop\<close>

text \<open>
  \<^verbatim>\<open>_fd_io\<close>: the bytes to go are a signed number, so a size of \<open>2 ^ 63\<close> or more transfers nothing and
  succeeds. Reading returns whether it succeeded, the bytes that arrived, what is left to
  be read and the rest of the script.
\<close>

definition ssize_of :: "nat \<Rightarrow> nat" where
  "ssize_of n = (if n < 2 ^ 63 then n else 0)"

fun read_loop :: "nat \<Rightarrow> string \<Rightarrow> io_answer list \<Rightarrow> bool \<times> string \<times> string \<times> io_answer list" where
  "read_loop n inp [] =
     (if length inp < n then (False, inp, [], []) else (True, take n inp, drop n inp, []))"
| "read_loop n inp (a # as) =
     (if n = 0 then (True, [], inp, a # as)
      else case a of
        Retry \<Rightarrow> read_loop n inp as
      | Hangup \<Rightarrow> (False, [], inp, as)
      | Failure \<Rightarrow> (False, [], inp, as)
      | Transfer k \<Rightarrow>
          (let m = min n (min (Suc k) (length inp))
           in if m = 0 then (False, [], inp, as)
              else case read_loop (n - m) (drop m inp) as of
                     (ok, got, rest) \<Rightarrow> (ok, take m inp @ got, rest)))"

fun write_loop :: "string \<Rightarrow> io_answer list \<Rightarrow> bool \<times> string \<times> io_answer list" where
  "write_loop bs [] = (True, bs, [])"
| "write_loop bs (a # as) =
     (if bs = [] then (True, [], a # as)
      else case a of
        Retry \<Rightarrow> write_loop bs as
      | Hangup \<Rightarrow> (False, [], as)
      | Failure \<Rightarrow> (False, [], as)
      | Transfer k \<Rightarrow>
          (let m = min (Suc k) (length bs)
           in case write_loop (drop m bs) as of (ok, put, rest) \<Rightarrow> (ok, take m bs @ put, rest)))"

text \<open>
  A descriptor that is read, with the answers of the allocator to the allocations of the
  reader, and one that is written.
\<close>

record fd_reader =
  fr_in :: string
  fr_script :: "io_answer list"
  fr_mem :: "bool list"

record fd_writer =
  fw_out :: string
  fw_script :: "io_answer list"

definition fd_read :: "nat \<Rightarrow> fd_reader \<Rightarrow> bool \<times> string \<times> fd_reader" where
  "fd_read n r = (case read_loop (ssize_of n) (fr_in r) (fr_script r) of
     (ok, got, rest, script) \<Rightarrow> (ok, got, r\<lparr>fr_in := rest, fr_script := script\<rparr>))"

definition fd_write :: "string \<Rightarrow> fd_writer \<Rightarrow> bool \<times> fd_writer" where
  "fd_write bs w = (case write_loop (take (ssize_of (length bs)) bs) (fw_script w) of
     (ok, put, script) \<Rightarrow> (ok, w\<lparr>fw_out := fw_out w @ put, fw_script := script\<rparr>))"

definition next_alloc :: "fd_reader \<Rightarrow> bool \<times> fd_reader" where
  "next_alloc r = (case fr_mem r of [] \<Rightarrow> (True, r) | b # bs \<Rightarrow> (b, r\<lparr>fr_mem := bs\<rparr>))"

subsection \<open>Strings\<close>

definition and_then :: "bool \<times> 's \<Rightarrow> ('s \<Rightarrow> bool \<times> 's) \<Rightarrow> bool \<times> 's" where
  "and_then r f = (if fst r then f (snd r) else r)"

definition dump_string :: "string \<Rightarrow> fd_writer \<Rightarrow> bool \<times> fd_writer" where
  "dump_string s w = and_then (fd_write (le_bytes 8 (length s)) w) (fd_write s)"

text \<open>
  \<^verbatim>\<open>_read_string\<close>: the result is \<open>None\<close> for NULL. The length field comes from the file; the buffer
  has one byte more, modulo \<open>2 ^ 64\<close>, and the terminator is written at index \<^verbatim>\<open>header.length\<close>. The
  string ends at the first NUL.
\<close>

definition read_string :: "fd_reader \<Rightarrow> (string option \<times> fd_reader) result" where
  "read_string r =
     (let (ok, hdr, r1) = fd_read 8 r in
      if \<not> ok then Ok (None, r1)
      else let len = le_val hdr; (mem_ok, r2) = next_alloc r1 in
           if \<not> mem_ok then Ok (None, r2)
           else if len \<ge> (len + 1) mod 2 ^ 64 then Undef
           else let (ok', s, r3) = fd_read len r2 in
                if \<not> ok' then Ok (None, r3)
                else Ok (Some (c_str s), r3))"

subsection \<open>Scripts without failures\<close>

definition clean :: "io_answer list \<Rightarrow> bool" where
  "clean as \<longleftrightarrow> Hangup \<notin> set as \<and> Failure \<notin> set as"

lemma clean_simps [simp]:
  "clean []" "clean (Transfer k # as) = clean as" "clean (Retry # as) = clean as"
  "\<not> clean (Hangup # as)" "\<not> clean (Failure # as)"
  by (auto simp: clean_def)

lemma read_loop_clean:
  assumes "clean as"
  shows "\<exists>as'. clean as' \<and> read_loop (length xs) (xs @ ys) as = (True, xs, ys, as')"
  using assms
proof (induction as arbitrary: xs)
  case Nil
  then show ?case by simp
next
  case (Cons a as)
  show ?case
  proof (cases a)
    case (Transfer k)
    show ?thesis
    proof (cases "xs = []")
      case False
      let ?m = "min (length xs) (min (Suc k) (length xs + length ys))"
      have m: "?m \<noteq> 0" "?m \<le> length xs" using False by auto
      obtain as' where as': "clean as'" "read_loop (length (drop ?m xs)) (drop ?m xs @ ys) as = (True, drop ?m xs, ys, as')"
        using Cons.IH [of "drop ?m xs"] Cons.prems Transfer by auto
      have "drop ?m (xs @ ys) = drop ?m xs @ ys" "take ?m (xs @ ys) = take ?m xs" using m(2) by simp_all
      with as' False m Transfer show ?thesis by (simp add: Let_def)
    qed (use Cons.prems in simp)
  qed (use Cons in auto)
qed

lemma write_loop_clean:
  assumes "clean as"
  shows "\<exists>as'. clean as' \<and> write_loop bs as = (True, bs, as')"
  using assms
proof (induction as arbitrary: bs)
  case Nil
  then show ?case by simp
next
  case (Cons a as)
  show ?case
  proof (cases a)
    case (Transfer k)
    let ?m = "min (Suc k) (length bs)"
    obtain as' where "clean as'" "write_loop (drop ?m bs) as = (True, drop ?m bs, as')"
      using Cons Transfer by force
    with Transfer Cons.prems show ?thesis by (cases "bs = []") (auto simp: Let_def)
  qed (use Cons in auto)
qed

text \<open>
  A reader that delivers: no failure in the script, memory for every allocation, and \<open>xs\<close>
  next in the input. A writer that accepts everything.
\<close>

definition delivers :: "fd_reader \<Rightarrow> string \<Rightarrow> bool" where
  "delivers r xs \<longleftrightarrow> clean (fr_script r) \<and> fr_mem r = [] \<and> fr_in r = xs"

lemma fd_read_delivers:
  assumes "delivers r (xs @ ys)" and "length xs < 2 ^ 63" and "n = length xs"
  shows "\<exists>r'. fd_read n r = (True, xs, r') \<and> delivers r' ys"
proof -
  obtain as' where "clean as'" "read_loop (length xs) (xs @ ys) (fr_script r) = (True, xs, ys, as')"
    using read_loop_clean assms(1) unfolding delivers_def by blast
  then show ?thesis using assms by (auto simp: fd_read_def ssize_of_def delivers_def)
qed

lemma fd_write_clean:
  assumes "clean (fw_script w)" and "length bs < 2 ^ 63"
  shows "\<exists>w'. fd_write bs w = (True, w') \<and> fw_out w' = fw_out w @ bs \<and> clean (fw_script w')"
proof -
  obtain as' where "clean as'" "write_loop bs (fw_script w) = (True, bs, as')"
    using write_loop_clean assms(1) by blast
  then show ?thesis using assms(2) by (auto simp: fd_write_def ssize_of_def)
qed

text \<open>The bytes of a string, and that they are read back.\<close>

definition enc_string :: "string \<Rightarrow> string" where
  "enc_string s = le_bytes 8 (length s) @ s"

definition plain_string :: "string \<Rightarrow> bool" where
  "plain_string s \<longleftrightarrow> NUL \<notin> set s \<and> length s < 2 ^ 63"

lemma dump_string_clean:
  assumes "clean (fw_script w)" and "plain_string s"
  shows "\<exists>w'. dump_string s w = (True, w') \<and> fw_out w' = fw_out w @ enc_string s \<and> clean (fw_script w')"
proof -
  obtain w1 where w1: "fd_write (le_bytes 8 (length s)) w = (True, w1)"
    "fw_out w1 = fw_out w @ le_bytes 8 (length s)" "clean (fw_script w1)"
    using fd_write_clean [OF assms(1), of "le_bytes 8 (length s)"] by auto
  obtain w2 where "fd_write s w1 = (True, w2)" "fw_out w2 = fw_out w1 @ s" "clean (fw_script w2)"
    using fd_write_clean [OF w1(3), of s] assms(2) by (auto simp: plain_string_def)
  with w1 show ?thesis by (simp add: dump_string_def and_then_def enc_string_def)
qed

lemma read_string_delivers:
  assumes "delivers r (enc_string s @ rest)" and "plain_string s"
  shows "\<exists>r'. read_string r = Ok (Some s, r') \<and> delivers r' rest"
proof -
  have len: "length s < 2 ^ 63" and nul: "NUL \<notin> set s" using assms(2) by (auto simp: plain_string_def)
  have d: "delivers r (le_bytes 8 (length s) @ s @ rest)" using assms(1) by (simp add: enc_string_def)
  obtain r1 where r1: "fd_read 8 r = (True, le_bytes 8 (length s), r1)" "delivers r1 (s @ rest)"
    using fd_read_delivers [OF d, of 8] by auto
  obtain r2 where r2: "fd_read (length s) r1 = (True, s, r2)" "delivers r2 rest"
    using fd_read_delivers [OF r1(2) len refl] by auto
  have v: "le_val (le_bytes 8 (length s)) = length s" by (rule le_val_bytes) (use len in simp)
  have m: "next_alloc r1 = (True, r1)" using r1(2) by (simp add: next_alloc_def delivers_def)
  have "c_str s = s" using nul by (auto simp: c_str_def takeWhile_eq_all_conv)
  with r1 r2 v m len show ?thesis by (simp add: read_string_def)
qed

end
