(* ===== verification/ServiceDump.thy ===== *)
theory ServiceDump
  imports ServiceBuild FdIo
begin

text \<open>
  Dumping a service to a file descriptor and building a service from one,
  \<^verbatim>\<open>sched_service_dump_fd\<close> and \<^verbatim>\<open>sched_service_from_fd\<close> of \<^verbatim>\<open>src/sched/service.c\<close>. The dump is a header, the
  names of the input and the output port, the nodes in order (path of the binary and
  arguments) and the pipes (the two nodes and the names of the two ports). Loading runs the
  servlet loader for every node and reconstructs the service through a service buffer.
\<close>

subsection \<open>Dumping\<close>

text \<open>A failing query ends the dump with an error and leaves what was written.\<close>

definition or_stop :: "'a result \<Rightarrow> 's \<Rightarrow> ('a \<Rightarrow> (bool \<times> 's) result) \<Rightarrow> (bool \<times> 's) result" where
  "or_stop r w f = (case r of Ok v \<Rightarrow> f v | Error \<Rightarrow> Ok (False, w) | Undef \<Rightarrow> Undef)"

definition when_ok :: "bool \<times> 's \<Rightarrow> ('s \<Rightarrow> (bool \<times> 's) result) \<Rightarrow> (bool \<times> 's) result" where
  "when_ok r f = (if fst r then f (snd r) else Ok r)"

primrec dump_strings :: "string list \<Rightarrow> fd_writer \<Rightarrow> bool \<times> fd_writer" where
  "dump_strings [] w = (True, w)"
| "dump_strings (s # ss) w = and_then (dump_string s w) (dump_strings ss)"

definition dump_node :: "stab \<Rightarrow> service \<Rightarrow> nat \<Rightarrow> fd_writer \<Rightarrow> (bool \<times> fd_writer) result" where
  "dump_node st svc i w =
     rbind (list_get (svc_nodes svc) i) (\<lambda>node.
     or_stop (runtime_stab_get_binary_path st (node_servlet_id node)) w (\<lambda>binary_path.
     when_ok (dump_string binary_path w) (\<lambda>w1.
     or_stop (sched_service_get_node_args st svc i) w1 (\<lambda>argv.
     Ok (and_then (fd_write (le_bytes 4 (length argv)) w1) (dump_strings argv))))))"

primrec dump_nodes :: "stab \<Rightarrow> service \<Rightarrow> nat list \<Rightarrow> fd_writer \<Rightarrow> (bool \<times> fd_writer) result" where
  "dump_nodes st svc [] w = Ok (True, w)"
| "dump_nodes st svc (i # is) w = rbind (dump_node st svc i w) (\<lambda>r. when_ok r (dump_nodes st svc is))"

definition node_pdt :: "stab \<Rightarrow> service \<Rightarrow> node_id \<Rightarrow> runtime_pdt result" where
  "node_pdt st svc nid = rbind (list_get (svc_nodes svc) nid) (\<lambda>node. runtime_stab_get_pdt st (node_servlet_id node))"

definition dump_pipe :: "stab \<Rightarrow> service \<Rightarrow> pipe_descriptor \<Rightarrow> fd_writer \<Rightarrow> (bool \<times> fd_writer) result" where
  "dump_pipe st svc p w =
     or_stop (node_pdt st svc (source_node_id p)) w (\<lambda>src_pdt.
     or_stop (node_pdt st svc (destination_node_id p)) w (\<lambda>dst_pdt.
     or_stop (runtime_pdt_get_name src_pdt (source_pipe_desc p)) w (\<lambda>src_port.
     or_stop (runtime_pdt_get_name dst_pdt (destination_pipe_desc p)) w (\<lambda>dst_port.
     Ok (and_then (fd_write (le_bytes 4 (source_node_id p) @ le_bytes 4 (destination_node_id p)) w) (\<lambda>w1.
         and_then (dump_string src_port w1) (dump_string dst_port)))))))"

primrec dump_pipes :: "stab \<Rightarrow> service \<Rightarrow> pipe_descriptor list \<Rightarrow> fd_writer \<Rightarrow> (bool \<times> fd_writer) result" where
  "dump_pipes st svc [] w = Ok (True, w)"
| "dump_pipes st svc (p # ps) w = rbind (dump_pipe st svc p w) (\<lambda>r. when_ok r (dump_pipes st svc ps))"

text \<open>The header: number of nodes and pipes, input and output node, 32 bits each.\<close>

definition dump_header :: "service \<Rightarrow> string" where
  "dump_header svc = le_bytes 4 (node_count svc) @ le_bytes 4 (sum_list (map (\<lambda>n. length (incoming n)) (svc_nodes svc)))
     @ le_bytes 4 (svc_input_node svc) @ le_bytes 4 (svc_output_node svc)"

definition sched_service_dump_fd :: "stab \<Rightarrow> service \<Rightarrow> fd_writer \<Rightarrow> (bool \<times> fd_writer) result" where
  "sched_service_dump_fd st svc w =
     or_stop (node_pdt st svc (svc_input_node svc)) w (\<lambda>input_pdt.
     or_stop (node_pdt st svc (svc_output_node svc)) w (\<lambda>output_pdt.
     or_stop (runtime_pdt_get_name input_pdt (svc_input_pipe svc)) w (\<lambda>input_port.
     or_stop (runtime_pdt_get_name output_pdt (svc_output_pipe svc)) w (\<lambda>output_port.
     when_ok (fd_write (dump_header svc) w) (\<lambda>w1.
     when_ok (dump_string input_port w1) (\<lambda>w2.
     when_ok (dump_string output_port w2) (\<lambda>w3.
     rbind (dump_nodes st svc [0..<node_count svc mod 2 ^ 32] w3) (\<lambda>r.
     when_ok r (\<lambda>w4. dump_pipes st svc (concat (map incoming (take (node_count svc mod 2 ^ 32) (svc_nodes svc)))) w4)))))))))"

subsection \<open>Loading\<close>

text \<open>
  What loading calls outside this file: the dynamic loader and the servlets themselves, as in
  \<open>runtime_stab_load\<close>, the type checker, and the answers of the allocator to the calls that
  \<^verbatim>\<open>sched_service_from_fd\<close> makes through other functions, by the index of the node or the pipe.
\<close>

record loader =
  ld_find :: "string \<Rightarrow> string option"
  ld_binary :: "string \<Rightarrow> string \<Rightarrow> bool \<Rightarrow> servlet_binary option"
  ld_servlet :: "servlet_binary \<Rightarrow> string list \<Rightarrow> servlet option"
  ld_stab_mem :: "nat \<Rightarrow> alloc"
  ld_buf_mem :: alloc
  ld_ids_mem :: bool
  ld_node_mem :: alloc
  ld_pipe_mem :: alloc
  ld_svc_mem :: alloc
  ld_create_mem :: "nat \<Rightarrow> alloc"
  ld_cnode_mem :: alloc
  ld_bound_mem :: "node_id \<Rightarrow> alloc"
  ld_addr :: "nat \<Rightarrow> nat"
  ld_type_check :: "stab \<Rightarrow> service \<Rightarrow> service result"

definition build_service :: "loader \<Rightarrow> stab \<Rightarrow> service_buffer \<Rightarrow> (service option \<times> stab) result" where
  "build_service ld = sched_service_from_buffer (ld_svc_mem ld) (ld_create_mem ld) (ld_cnode_mem ld)
     (ld_bound_mem ld) (ld_addr ld) (ld_type_check ld)"

primrec read_strings :: "nat \<Rightarrow> fd_reader \<Rightarrow> (string list option \<times> fd_reader) result" where
  "read_strings 0 r = Ok (Some [], r)"
| "read_strings (Suc n) r =
     rbind (read_string r) (\<lambda>(s, r1).
     case s of None \<Rightarrow> Ok (None, r1)
     | Some x \<Rightarrow> rmap (\<lambda>(xs, r2). (map_option ((#) x) xs, r2)) (read_strings n r1))"

text \<open>
  One round of the node loop; \<open>None\<close> leads to the error exit. The clean-up at \<^verbatim>\<open>NODE_ERR\<close> visits
  \<^verbatim>\<open>argv[0..argc-1]\<close> also when \<^verbatim>\<open>argv\<close> is still NULL: when the argument count was read only in
  part, or when its array could not be allocated.
\<close>

definition load_node ::
  "loader \<Rightarrow> nat \<Rightarrow> service_buffer \<Rightarrow> stab \<Rightarrow> fd_reader
     \<Rightarrow> ((stab_entry \<times> service_buffer) option \<times> stab \<times> fd_reader) result" where
  "load_node ld i buf st r =
     rbind (read_string r) (\<lambda>(bin, r1).
     case bin of None \<Rightarrow> Ok (None, st, r1) | Some binary \<Rightarrow>
     (let (ok, bs, r2) = fd_read 4 r1; argc = le_val bs in
      if \<not> ok then (if 0 < argc then Undef else Ok (None, st, r2))
      else let (mem_ok, r3) = next_alloc r2 in
        if \<not> mem_ok then (if 0 < argc then Undef else Ok (None, st, r3))
        else rbind (read_strings argc r3) (\<lambda>(args, r4).
          case args of None \<Rightarrow> Ok (None, st, r4) | Some argv \<Rightarrow>
          rbind (runtime_stab_load (ld_stab_mem ld i) (ld_find ld) (ld_binary ld) (ld_servlet ld) argv (Some binary) st)
            (\<lambda>(sid, st1).
             if sid = ERROR_STAB_ENTRY then Ok (None, st1, r4)
             else case sched_service_buffer_add_node (ld_node_mem ld i) buf sid of
                    Undef \<Rightarrow> Undef | Error \<Rightarrow> Ok (None, st1, r4)
                  | Ok (nid, buf') \<Rightarrow> if nid \<noteq> i then Ok (None, st1, r4) else Ok (Some (sid, buf'), st1, r4)))))"

primrec load_nodes ::
  "loader \<Rightarrow> nat \<Rightarrow> nat \<Rightarrow> service_buffer \<Rightarrow> stab \<Rightarrow> fd_reader
     \<Rightarrow> ((stab_entry list \<times> service_buffer) option \<times> stab \<times> fd_reader) result" where
  "load_nodes ld 0 i buf st r = Ok (Some ([], buf), st, r)"
| "load_nodes ld (Suc n) i buf st r =
     rbind (load_node ld i buf st r) (\<lambda>(x, st1, r1).
     case x of None \<Rightarrow> Ok (None, st1, r1)
     | Some (sid, buf1) \<Rightarrow>
         rmap (\<lambda>(y, rest). (map_option (\<lambda>(sids, buf2). (sid # sids, buf2)) y, rest))
           (load_nodes ld n (Suc i) buf1 st1 r1))"

text \<open>
  One round of the pipe loop. The node numbers come from the file and index the array of the
  servlets without a check.
\<close>

definition load_pipe ::
  "loader \<Rightarrow> stab_entry list \<Rightarrow> stab \<Rightarrow> nat \<Rightarrow> service_buffer \<Rightarrow> fd_reader
     \<Rightarrow> (service_buffer option \<times> fd_reader) result" where
  "load_pipe ld ids st i buf r =
     (let (ok, bs, r1) = fd_read 8 r; src = le_val (take 4 bs); dst = le_val (drop 4 bs) in
      if \<not> ok then Ok (None, r1)
      else rbind (read_string r1) (\<lambda>(from, r2).
      case from of None \<Rightarrow> Ok (None, r2) | Some from_port \<Rightarrow>
      rbind (list_get ids src) (\<lambda>src_sid.
      rbind (runtime_stab_get_pipe st src_sid from_port) (\<lambda>from_pid.
      if from_pid = ERROR_PIPE_ID then Ok (None, r2)
      else rbind (read_string r2) (\<lambda>(to, r3).
      case to of None \<Rightarrow> Ok (None, r3) | Some to_port \<Rightarrow>
      rbind (list_get ids dst) (\<lambda>dst_sid.
      rbind (runtime_stab_get_pipe st dst_sid to_port) (\<lambda>to_pid.
      if to_pid = ERROR_PIPE_ID then Ok (None, r3)
      else case sched_service_buffer_add_pipe (ld_pipe_mem ld i) st buf
             \<lparr>source_node_id = src, destination_node_id = dst, source_pipe_desc = from_pid, destination_pipe_desc = to_pid\<rparr> of
             Undef \<Rightarrow> Undef | Error \<Rightarrow> Ok (None, r3) | Ok buf' \<Rightarrow> Ok (Some buf', r3))))))))"

primrec load_pipes ::
  "loader \<Rightarrow> stab_entry list \<Rightarrow> stab \<Rightarrow> nat \<Rightarrow> nat \<Rightarrow> service_buffer \<Rightarrow> fd_reader
     \<Rightarrow> (service_buffer option \<times> fd_reader) result" where
  "load_pipes ld ids st 0 i buf r = Ok (Some buf, r)"
| "load_pipes ld ids st (Suc n) i buf r =
     rbind (load_pipe ld ids st i buf r) (\<lambda>(x, r1).
     case x of None \<Rightarrow> Ok (None, r1) | Some buf1 \<Rightarrow> load_pipes ld ids st n (Suc i) buf1 r1)"

text \<open>
  The end of the construction: the input and output port, then the pipes. \<open>None\<close> leads to the
  error exit.
\<close>

definition load_ends ::
  "stab_entry list \<Rightarrow> stab \<Rightarrow> node_id \<Rightarrow> node_id \<Rightarrow> string \<Rightarrow> string \<Rightarrow> service_buffer \<Rightarrow> service_buffer option result" where
  "load_ends ids st inode onode input_port output_port buf =
     rbind (list_get ids inode) (\<lambda>isid.
     rbind (runtime_stab_get_pipe st isid input_port) (\<lambda>input_pid.
     if input_pid = ERROR_PIPE_ID then Ok None
     else rbind (list_get ids onode) (\<lambda>osid.
     rbind (runtime_stab_get_pipe st osid output_port) (\<lambda>output_pid.
     if output_pid = ERROR_PIPE_ID then Ok None
     else case sched_service_buffer_set_input st buf inode input_pid of
            Undef \<Rightarrow> Undef | Error \<Rightarrow> Ok None
          | Ok buf1 \<Rightarrow> (case sched_service_buffer_set_output st buf1 onode output_pid of
              Undef \<Rightarrow> Undef | Error \<Rightarrow> Ok None | Ok buf2 \<Rightarrow> Ok (Some buf2))))))"

definition sched_service_from_fd :: "loader \<Rightarrow> stab \<Rightarrow> fd_reader \<Rightarrow> (service option \<times> stab) result" where
  "sched_service_from_fd ld st r =
     (let (ok, hdr, r1) = fd_read 16 r;
          nodes = le_val (take 4 hdr); edges = le_val (take 4 (drop 4 hdr));
          inode = le_val (take 4 (drop 8 hdr)); onode = le_val (drop 12 hdr) in
      if \<not> ok then Ok (None, st)
      else on_error (sched_service_buffer_new (ld_buf_mem ld)) st (\<lambda>buf.
      rbind (read_string r1) (\<lambda>(ip, r2). case ip of None \<Rightarrow> Ok (None, st) | Some input_port \<Rightarrow>
      rbind (read_string r2) (\<lambda>(op, r3). case op of None \<Rightarrow> Ok (None, st) | Some output_port \<Rightarrow>
      if nodes > SCHED_SERVICE_MAX_NUM_NODES then Ok (None, st)
      else if edges > SCHED_SERVICE_MAX_NUM_EDGES then Ok (None, st)
      else if \<not> ld_ids_mem ld then Ok (None, st)
      else rbind (load_nodes ld nodes 0 buf st r3) (\<lambda>(x, st1, r4).
      case x of None \<Rightarrow> Ok (None, st1) | Some (ids, buf1) \<Rightarrow>
      rbind (load_ends ids st1 inode onode input_port output_port buf1) (\<lambda>y.
      case y of None \<Rightarrow> Ok (None, st1) | Some buf2 \<Rightarrow>
      rbind (load_pipes ld ids st1 edges 0 buf2 r4) (\<lambda>(z, r5).
      case z of None \<Rightarrow> Ok (None, st1) | Some buf3 \<Rightarrow> build_service ld st1 buf3)))))))"

subsection \<open>Encoding of the parts\<close>

text \<open>
  A table of pipes with which names identify pipes, and the slots that exist for a list of
  tables.
\<close>

definition good_pdt :: "runtime_pdt \<Rightarrow> bool" where
  "good_pdt pdt \<longleftrightarrow> distinct (pdt_names pdt) \<and> length (pdt_entries pdt) < 2 ^ 16 - 1
     \<and> (\<forall>n\<in>set (pdt_names pdt). plain_string n)"

definition slot_fits :: "runtime_pdt list \<Rightarrow> node_id \<Rightarrow> pipe_id \<Rightarrow> bool \<Rightarrow> bool" where
  "slot_fits pdts n p inc \<longleftrightarrow> n < length pdts \<and> p < length (pdt_entries (pdts ! n))
     \<and> pipe_is_input (ent_flags (pdt_entries (pdts ! n) ! p)) = inc"

definition servlets_of :: "stab \<Rightarrow> stab_entry list \<Rightarrow> servlet list \<Rightarrow> bool" where
  "servlets_of st sids svs \<longleftrightarrow> list_all2 (\<lambda>sid sv. get_servlet st sid = Ok sv) sids svs"

abbreviation pdts_of :: "servlet list \<Rightarrow> runtime_pdt list" where
  "pdts_of svs \<equiv> map sv_pdt svs"

abbreviation port :: "runtime_pdt list \<Rightarrow> node_id \<Rightarrow> pipe_id \<Rightarrow> string" where
  "port pdts n p \<equiv> pdt_names (pdts ! n) ! p"

text \<open>
  What a service must satisfy to be dumped completely: it is within the limits, every pipe
  joins existing slots and is listed at its destination, no slot is used twice, the paths and
  arguments are C strings.
\<close>

definition dumpable :: "servlet list \<Rightarrow> service \<Rightarrow> bool" where
  "dumpable svs svc \<longleftrightarrow> node_count svc \<le> SCHED_SERVICE_MAX_NUM_NODES
     \<and> length (concat (map incoming (svc_nodes svc))) \<le> SCHED_SERVICE_MAX_NUM_EDGES
     \<and> (\<forall>sv\<in>set svs. good_pdt (sv_pdt sv) \<and> plain_string (bin_path (sv_bin sv))
          \<and> (\<forall>s\<in>set (sv_argv sv). plain_string s) \<and> length (sv_argv sv) < 2 ^ 32)
     \<and> (\<forall>p\<in>set (concat (map incoming (svc_nodes svc))).
          slot_fits (pdts_of svs) (source_node_id p) (source_pipe_desc p) False
        \<and> slot_fits (pdts_of svs) (destination_node_id p) (destination_pipe_desc p) True)
     \<and> distinct (map src_slot (concat (map incoming (svc_nodes svc))))
     \<and> distinct (map dst_slot (concat (map incoming (svc_nodes svc))))
     \<and> slot_fits (pdts_of svs) (svc_input_node svc) (svc_input_pipe svc) True
     \<and> slot_fits (pdts_of svs) (svc_output_node svc) (svc_output_pipe svc) False"

definition enc_node :: "servlet \<Rightarrow> string" where
  "enc_node sv = enc_string (bin_path (sv_bin sv)) @ le_bytes 4 (length (sv_argv sv)) @ concat (map enc_string (sv_argv sv))"

definition enc_pipe :: "runtime_pdt list \<Rightarrow> pipe_descriptor \<Rightarrow> string" where
  "enc_pipe pdts p = (le_bytes 4 (source_node_id p) @ le_bytes 4 (destination_node_id p))
     @ enc_string (port pdts (source_node_id p) (source_pipe_desc p))
     @ enc_string (port pdts (destination_node_id p) (destination_pipe_desc p))"

definition enc_service :: "servlet list \<Rightarrow> service \<Rightarrow> string" where
  "enc_service svs svc = dump_header svc
     @ enc_string (port (pdts_of svs) (svc_input_node svc) (svc_input_pipe svc))
     @ enc_string (port (pdts_of svs) (svc_output_node svc) (svc_output_pipe svc))
     @ concat (map enc_node svs) @ concat (map (enc_pipe (pdts_of svs)) (concat (map incoming (svc_nodes svc))))"

text \<open>Writers that accept: \<open>writes r w bs\<close> says that \<open>r\<close> is a success that appended \<open>bs\<close>.\<close>

definition writes :: "bool \<times> fd_writer \<Rightarrow> fd_writer \<Rightarrow> string \<Rightarrow> bool" where
  "writes r w bs \<longleftrightarrow> fst r \<and> fw_out (snd r) = fw_out w @ bs \<and> clean (fw_script (snd r))"

lemma writes_then:
  "writes r w bs \<Longrightarrow> (clean (fw_script (snd r)) \<Longrightarrow> writes (f (snd r)) (snd r) cs) \<Longrightarrow> writes (and_then r f) w (bs @ cs)"
  by (simp add: writes_def and_then_def)

lemma fd_write_writes: "clean (fw_script w) \<Longrightarrow> length bs < 2 ^ 63 \<Longrightarrow> writes (fd_write bs w) w bs"
  using fd_write_clean [of w bs] by (auto simp: writes_def)

lemma dump_string_writes: "clean (fw_script w) \<Longrightarrow> plain_string s \<Longrightarrow> writes (dump_string s w) w (enc_string s)"
  using dump_string_clean [of w s] by (auto simp: writes_def)

lemma dump_strings_writes:
  "clean (fw_script w) \<Longrightarrow> \<forall>s\<in>set ss. plain_string s \<Longrightarrow> writes (dump_strings ss w) w (concat (map enc_string ss))"
proof (induction ss arbitrary: w)
  case Nil
  then show ?case by (simp add: writes_def)
next
  case (Cons s ss)
  have "writes (dump_string s w) w (enc_string s)" using Cons.prems by (simp add: dump_string_writes)
  then show ?case using Cons by (auto intro!: writes_then)
qed

text \<open>The same for operations that may be undefined.\<close>

definition rwrites :: "(bool \<times> fd_writer) result \<Rightarrow> fd_writer \<Rightarrow> string \<Rightarrow> bool" where
  "rwrites r w bs \<longleftrightarrow> (\<exists>v. r = Ok v \<and> writes v w bs)"

lemma rwrites_Ok: "writes r w bs \<Longrightarrow> rwrites (Ok r) w bs"
  by (simp add: rwrites_def)

lemma rwrites_when:
  assumes "writes r w bs" and "clean (fw_script (snd r)) \<Longrightarrow> rwrites (f (snd r)) (snd r) cs"
  shows "rwrites (when_ok r f) w (bs @ cs)"
  using assms by (auto simp: rwrites_def writes_def when_ok_def)

lemma rwrites_bind:
  assumes "rwrites r w bs" and "\<And>w1. clean (fw_script w1) \<Longrightarrow> rwrites (f w1) w1 cs"
  shows "rwrites (rbind r (\<lambda>v. when_ok v f)) w (bs @ cs)"
proof -
  obtain v where v: "r = Ok v" "writes v w bs" using assms(1) by (auto simp: rwrites_def)
  have "rwrites (when_ok v f) w (bs @ cs)" by (rule rwrites_when [OF v(2)]) (rule assms(2))
  then show ?thesis using v(1) by simp
qed

lemmas write_rules = rwrites_when rwrites_Ok writes_then dump_string_writes fd_write_writes
  dump_strings_writes

text \<open>The queries on a node of a dumpable service.\<close>

lemma servlets_nth:
  assumes "servlets_of st sids svs" and "i < length svs"
  shows "i < length sids" and "get_servlet st (sids ! i) = Ok (svs ! i)"
  using assms by (auto simp: servlets_of_def list_all2_conv_all_nth)

lemma pdt_name_nth:
  assumes "good_pdt pdt" and "p < length (pdt_entries pdt)"
  shows "runtime_pdt_get_name pdt p = Ok (pdt_names pdt ! p)" and "plain_string (pdt_names pdt ! p)"
    and "runtime_pdt_get_pd_by_name pdt (pdt_names pdt ! p) = p"
proof -
  have p: "p < 2 ^ 16 - 1" "p < length (pdt_names pdt)" using assms by (auto simp: good_pdt_def pdt_names_def)
  then show "runtime_pdt_get_name pdt p = Ok (pdt_names pdt ! p)"
    using assms(2) by (simp add: runtime_pdt_get_name_def pd_invalid_def ERROR_PIPE_ID_def vector_length_def
        vec.get_elems pdt_names_def)
  show "plain_string (pdt_names pdt ! p)" using assms(1) p(2) by (auto simp: good_pdt_def)
  show "runtime_pdt_get_pd_by_name pdt (pdt_names pdt ! p) = p"
    using search_from_nth [of "pdt_entries pdt" p 0] assms p(1)
    by (simp add: runtime_pdt_get_pd_by_name_def search_table_def good_pdt_def pdt_names_def)
qed

lemma dump_node_writes:
  assumes "servlets_of st (map node_servlet_id (svc_nodes svc)) svs" and "dumpable svs svc"
    and "i < length svs" and "clean (fw_script w)"
  shows "rwrites (dump_node st svc i w) w (enc_node (svs ! i))"
proof -
  let ?sv = "svs ! i"
  have n: "i < node_count svc" "get_servlet st (node_servlet_id (svc_nodes svc ! i)) = Ok ?sv"
    using servlets_nth [OF assms(1,3)] by auto
  have d: "plain_string (bin_path (sv_bin ?sv))" "\<forall>s\<in>set (sv_argv ?sv). plain_string s"
    using assms(2,3) by (auto simp: dumpable_def)
  have "i \<noteq> ERROR_NODE_ID" using n(1) assms(2) by (auto simp: dumpable_def ERROR_NODE_ID_def SCHED_SERVICE_MAX_NUM_NODES_def)
  then have q: "runtime_stab_get_binary_path st (node_servlet_id (svc_nodes svc ! i)) = Ok (bin_path (sv_bin ?sv))"
    "sched_service_get_node_args st svc i = Ok (sv_argv ?sv)"
    using n by (simp_all add: runtime_stab_get_binary_path_def sched_service_get_node_args_def svc_node_def
        runtime_stab_get_init_arg_def)
  then show ?thesis
    unfolding dump_node_def list_get_def or_stop_def enc_node_def
    by (simp add: n(1) q) (intro write_rules; simp add: d assms(4))
qed

lemma dump_nodes_writes:
  assumes "servlets_of st (map node_servlet_id (svc_nodes svc)) svs" and "dumpable svs svc"
    and "\<forall>i\<in>set is. i < length svs" and "clean (fw_script w)"
  shows "rwrites (dump_nodes st svc is w) w (concat (map (\<lambda>i. enc_node (svs ! i)) is))"
  using assms(3,4)
proof (induction "is" arbitrary: w)
  case Nil
  then show ?case by (simp add: rwrites_def writes_def)
next
  case (Cons i js)
  show ?case
    unfolding dump_nodes.simps list.map concat.simps
    by (rule rwrites_bind [OF dump_node_writes [OF assms(1,2)]]) (use Cons in auto)
qed

lemma node_pdt_ok:
  assumes "servlets_of st (map node_servlet_id (svc_nodes svc)) svs" and "n < length svs"
  shows "node_pdt st svc n = Ok (pdts_of svs ! n)"
  using servlets_nth [OF assms] assms(2)
  by (simp add: node_pdt_def list_get_def runtime_stab_get_pdt_def)

lemma slot_port:
  assumes "dumpable svs svc" and "slot_fits (pdts_of svs) n p inc"
  shows "n < length svs" and "good_pdt (pdts_of svs ! n)"
    and "runtime_pdt_get_name (pdts_of svs ! n) p = Ok (port (pdts_of svs) n p)"
    and "plain_string (port (pdts_of svs) n p)"
proof -
  show n: "n < length svs" using assms(2) by (simp add: slot_fits_def)
  then show g: "good_pdt (pdts_of svs ! n)" using assms(1) by (simp add: dumpable_def)
  show "runtime_pdt_get_name (pdts_of svs ! n) p = Ok (port (pdts_of svs) n p)"
    and "plain_string (port (pdts_of svs) n p)"
    using pdt_name_nth [OF g] assms(2) by (auto simp: slot_fits_def)
qed

lemma dump_pipe_writes:
  assumes "servlets_of st (map node_servlet_id (svc_nodes svc)) svs" and "dumpable svs svc"
    and "p \<in> set (concat (map incoming (svc_nodes svc)))" and "clean (fw_script w)"
  shows "rwrites (dump_pipe st svc p w) w (enc_pipe (pdts_of svs) p)"
proof -
  have "slot_fits (pdts_of svs) (source_node_id p) (source_pipe_desc p) False"
    "slot_fits (pdts_of svs) (destination_node_id p) (destination_pipe_desc p) True"
    using assms(2,3) unfolding dumpable_def by blast+
  note s = slot_port [OF assms(2) this(1)] and t = slot_port [OF assms(2) this(2)]
  show ?thesis
    unfolding dump_pipe_def or_stop_def enc_pipe_def
    by (simp only: node_pdt_ok [OF assms(1)] s t result.case) (intro write_rules; simp add: s(4) t(4) assms(4))
qed

lemma dump_pipes_writes:
  assumes "servlets_of st (map node_servlet_id (svc_nodes svc)) svs" and "dumpable svs svc"
    and "set ps \<subseteq> set (concat (map incoming (svc_nodes svc)))" and "clean (fw_script w)"
  shows "rwrites (dump_pipes st svc ps w) w (concat (map (enc_pipe (pdts_of svs)) ps))"
  using assms(3,4)
proof (induction ps arbitrary: w)
  case Nil
  then show ?case by (simp add: rwrites_def writes_def)
next
  case (Cons p ps)
  then have "rwrites (dump_pipe st svc p w) w (enc_pipe (pdts_of svs) p)"
    by (intro dump_pipe_writes [OF assms(1,2)]) auto
  then show ?case
    unfolding dump_pipes.simps list.map concat.simps by (rule rwrites_bind) (use Cons in auto)
qed

lemma dump_service_writes:
  assumes "servlets_of st (map node_servlet_id (svc_nodes svc)) svs" and "dumpable svs svc" and "clean (fw_script w)"
  shows "rwrites (sched_service_dump_fd st svc w) w (enc_service svs svc)"
proof -
  have "slot_fits (pdts_of svs) (svc_input_node svc) (svc_input_pipe svc) True"
    "slot_fits (pdts_of svs) (svc_output_node svc) (svc_output_pipe svc) False"
    using assms(2) unfolding dumpable_def by blast+
  note s = slot_port [OF assms(2) this(1)] and t = slot_port [OF assms(2) this(2)]
  have len: "length svs = node_count svc" using assms(1) by (auto simp: servlets_of_def list_all2_conv_all_nth)
  have n: "node_count svc mod 2 ^ 32 = node_count svc"
    using assms(2) by (simp add: dumpable_def SCHED_SERVICE_MAX_NUM_NODES_def)
  have e: "map (\<lambda>i. enc_node (svs ! i)) [0..<node_count svc] = map enc_node svs"
    by (rule nth_equalityI) (simp_all add: len)
  have nodes: "rwrites (dump_nodes st svc [0..<node_count svc] w') w' (concat (map enc_node svs))"
    if "clean (fw_script w')" for w'
    using dump_nodes_writes [OF assms(1,2) _ that, of "[0..<node_count svc]"] by (simp add: len e)
  show ?thesis
    unfolding sched_service_dump_fd_def or_stop_def enc_service_def
    by (simp only: node_pdt_ok [OF assms(1)] s t result.case n take_all le_refl)
      (intro rwrites_bind write_rules nodes dump_pipes_writes [OF assms(1,2)] subset_refl;
       simp add: dump_header_def s(4) t(4) assms(3))
qed

subsection \<open>Reading the parts back\<close>

lemma read_strings_delivers:
  assumes "delivers r (concat (map enc_string ss) @ rest)" and "\<forall>s\<in>set ss. plain_string s"
  shows "\<exists>r'. read_strings (length ss) r = Ok (Some ss, r') \<and> delivers r' rest"
  using assms
proof (induction ss arbitrary: r)
  case Nil
  then show ?case by simp
next
  case (Cons s ss)
  obtain r1 where r1: "read_string r = Ok (Some s, r1)" "delivers r1 (concat (map enc_string ss) @ rest)"
    using read_string_delivers [of r s "concat (map enc_string ss) @ rest"] Cons.prems by auto
  from Cons.IH [OF r1(2)] Cons.prems(2) r1(1) show ?case by auto
qed

text \<open>A vector whose capacity is proportionate to its length can always grow.\<close>

definition vec_tight :: "'a vector \<Rightarrow> bool" where
  "vec_tight v \<longleftrightarrow> vector_wf v \<and> vec_cap v \<le> 64 + 2 * length (vec_data v)"

lemma push_tight:
  assumes "vec_tight v" and "length (vec_data v) < 2 ^ 32"
  shows "\<exists>v'. vector_push True v x = Ok v' \<and> vec_tight v' \<and> vec_data v' = vec_data v @ [x]"
proof -
  have "vector_wf v" "vector_fits v" using assms by (simp_all add: vec_tight_def vector_fits_def)
  from vec.append_succeeds [OF this, of x]
  obtain v' where v': "vector_push True v x = Ok v'" "vec_data v' = vec_data v @ [x]" "vector_wf v'" by auto
  have "vec_cap v' = (if vec_cap v = length (vec_data v) then vec_cap v * 2 mod 2 ^ 64 else vec_cap v)"
    using v'(1) by (auto simp: vector_push_def vector_append_def vector_length_def Let_def split: if_splits)
  moreover have "vec_cap v * 2 mod 2 ^ 64 \<le> vec_cap v * 2" by (rule mod_less_eq_dividend)
  ultimately have "vec_cap v' \<le> 64 + 2 * length (vec_data v')"
    using assms(1) v'(2) by (simp add: vec_tight_def split: if_splits)
  with v' show ?thesis by (auto simp: vec_tight_def)
qed

text \<open>The allocator never fails.\<close>

definition ample :: "loader \<Rightarrow> bool" where
  "ample ld \<longleftrightarrow> ld_buf_mem ld = plenty \<and> ld_ids_mem ld \<and> ld_node_mem ld = plenty \<and> ld_pipe_mem ld = plenty"

definition plain_servlet :: "servlet \<Rightarrow> bool" where
  "plain_servlet sv \<longleftrightarrow> plain_string (bin_path (sv_bin sv)) \<and> (\<forall>s\<in>set (sv_argv sv). plain_string s)
     \<and> length (sv_argv sv) < 2 ^ 32"

abbreviation stab_load :: "loader \<Rightarrow> nat \<Rightarrow> servlet \<Rightarrow> stab \<Rightarrow> (stab_entry \<times> stab) result" where
  "stab_load ld i sv st \<equiv> runtime_stab_load (ld_stab_mem ld i) (ld_find ld) (ld_binary ld) (ld_servlet ld)
     (sv_argv sv) (Some (bin_path (sv_bin sv))) st"

lemma load_node_delivers:
  assumes d: "delivers r (enc_node sv @ rest)" and sv: "plain_servlet sv" and am: "ample ld"
    and l: "stab_load ld i sv st = Ok (sid, st1)" "sid \<noteq> ERROR_STAB_ENTRY"
    and b: "vec_tight (buf_nodes buf)" "length (nodes_of buf) = i" "i < 2 ^ 32"
  shows "\<exists>v r'. load_node ld i buf st r = Ok (Some (sid, buf\<lparr>buf_nodes := v\<rparr>), st1, r') \<and> delivers r' rest
    \<and> vec_tight v \<and> vec_data v = nodes_of buf @ [\<lparr>bn_servlet_id = sid, bn_flags = 0\<rparr>]"
proof -
  have p: "plain_string (bin_path (sv_bin sv))" "\<forall>s\<in>set (sv_argv sv). plain_string s" "length (sv_argv sv) < 2 ^ 32"
    using sv by (auto simp: plain_servlet_def)
  have d': "delivers r (enc_string (bin_path (sv_bin sv)) @ le_bytes 4 (length (sv_argv sv))
      @ concat (map enc_string (sv_argv sv)) @ rest)" using d by (simp add: enc_node_def)
  obtain r1 where r1: "read_string r = Ok (Some (bin_path (sv_bin sv)), r1)"
    "delivers r1 (le_bytes 4 (length (sv_argv sv)) @ concat (map enc_string (sv_argv sv)) @ rest)"
    using read_string_delivers [OF d' p(1)] by blast
  obtain r2 where r2: "fd_read 4 r1 = (True, le_bytes 4 (length (sv_argv sv)), r2)"
    "delivers r2 (concat (map enc_string (sv_argv sv)) @ rest)"
    using fd_read_delivers [OF r1(2), of 4] by auto
  have m: "next_alloc r2 = (True, r2)" using r2(2) by (simp add: next_alloc_def delivers_def)
  have v: "le_val (le_bytes 4 (length (sv_argv sv))) = length (sv_argv sv)"
    by (rule le_val_bytes) (use p(3) in simp)
  obtain r3 where r3: "read_strings (length (sv_argv sv)) r2 = Ok (Some (sv_argv sv), r3)" "delivers r3 rest"
    using read_strings_delivers [OF r2(2) p(2)] by blast
  obtain vec where vec: "vector_push True (buf_nodes buf) \<lparr>bn_servlet_id = sid, bn_flags = 0\<rparr> = Ok vec"
    "vec_tight vec" "vec_data vec = nodes_of buf @ [\<lparr>bn_servlet_id = sid, bn_flags = 0\<rparr>]"
    using push_tight [OF b(1)] b(2,3) by blast
  have a: "sched_service_buffer_add_node (ld_node_mem ld i) buf sid = Ok (i, buf\<lparr>buf_nodes := vec\<rparr>)"
    using am l(2) vec(1) b(2,3) by (simp add: sched_service_buffer_add_node_def ample_def vector_length_def Let_def)
  show ?thesis
    by (intro exI [of _ vec] exI [of _ r3]) (simp add: load_node_def r1(1) r2(1) m v r3 l a vec(2,3))
qed

text \<open>Loading a list of servlets one after the other.\<close>

primrec stab_load_all :: "loader \<Rightarrow> servlet list \<Rightarrow> nat \<Rightarrow> stab \<Rightarrow> (stab_entry list \<times> stab) option" where
  "stab_load_all ld [] i st = Some ([], st)"
| "stab_load_all ld (sv # svs) i st =
     (case stab_load ld i sv st of
        Ok (sid, st1) \<Rightarrow>
          if sid = ERROR_STAB_ENTRY then None
          else (case stab_load_all ld svs (Suc i) st1 of None \<Rightarrow> None | Some (sids, st2) \<Rightarrow> Some (sid # sids, st2))
      | _ \<Rightarrow> None)"

lemma stab_load_all_length: "stab_load_all ld svs i st = Some (sids, st1) \<Longrightarrow> length sids = length svs"
  by (induction svs arbitrary: i st sids) (auto split: result.splits if_splits option.splits)

lemma load_nodes_delivers:
  assumes "delivers r (concat (map enc_node svs) @ rest)" and "\<forall>sv\<in>set svs. plain_servlet sv" and "ample ld"
    and "stab_load_all ld svs i st = Some (sids, st1)"
    and "vec_tight (buf_nodes buf)" "length (nodes_of buf) = i" "i + length svs \<le> 2 ^ 32"
  shows "\<exists>v r'. load_nodes ld (length svs) i buf st r = Ok (Some (sids, buf\<lparr>buf_nodes := v\<rparr>), st1, r') \<and> delivers r' rest
    \<and> vec_tight v \<and> vec_data v = nodes_of buf @ map (\<lambda>sid. \<lparr>bn_servlet_id = sid, bn_flags = 0\<rparr>) sids"
  using assms(1,2,4-)
proof (induction svs arbitrary: r i buf st sids)
  case Nil
  then show ?case by (auto intro!: exI [of _ "buf_nodes buf"])
next
  case (Cons sv svs)
  obtain sid st2 sids' where l: "stab_load ld i sv st = Ok (sid, st2)" "sid \<noteq> ERROR_STAB_ENTRY"
    "stab_load_all ld svs (Suc i) st2 = Some (sids', st1)" "sids = sid # sids'"
    using Cons.prems(3) by (auto split: result.splits if_splits option.splits)
  have d: "delivers r (enc_node sv @ concat (map enc_node svs) @ rest)" using Cons.prems(1) by simp
  have "plain_servlet sv" "i < 2 ^ 32" using Cons.prems(2,6) by auto
  then obtain v r1 where v: "load_node ld i buf st r = Ok (Some (sid, buf\<lparr>buf_nodes := v\<rparr>), st2, r1)"
    "delivers r1 (concat (map enc_node svs) @ rest)" "vec_tight v"
    "vec_data v = nodes_of buf @ [\<lparr>bn_servlet_id = sid, bn_flags = 0\<rparr>]"
    using load_node_delivers [OF d _ assms(3) l(1,2) Cons.prems(4,5)] by blast
  have "\<exists>v' r'. load_nodes ld (length svs) (Suc i) (buf\<lparr>buf_nodes := v\<rparr>) st2 r1
      = Ok (Some (sids', buf\<lparr>buf_nodes := v, buf_nodes := v'\<rparr>), st1, r') \<and> delivers r' rest
    \<and> vec_tight v' \<and> vec_data v' = nodes_of (buf\<lparr>buf_nodes := v\<rparr>) @ map (\<lambda>sid. \<lparr>bn_servlet_id = sid, bn_flags = 0\<rparr>) sids'"
    by (rule Cons.IH [OF v(2) _ l(3)]) (use Cons.prems v in auto)
  then show ?case using v(1,4) l(4) by auto
qed

text \<open>The slots of the original service are slots of the reconstructed buffer.\<close>

abbreviation fresh_nodes :: "stab_entry list \<Rightarrow> buffer_node list" where
  "fresh_nodes sids \<equiv> map (\<lambda>sid. \<lparr>bn_servlet_id = sid, bn_flags = 0\<rparr>) sids"

definition reloaded :: "stab \<Rightarrow> stab_entry list \<Rightarrow> runtime_pdt list \<Rightarrow> bool" where
  "reloaded st sids pdts \<longleftrightarrow> length sids = length pdts \<and> length pdts < 2 ^ 32 - 1 \<and> (\<forall>pdt\<in>set pdts. good_pdt pdt)
     \<and> (\<forall>i<length pdts. \<exists>sv. get_servlet st (sids ! i) = Ok sv \<and> sv_pdt sv = pdts ! i)"

lemma reloaded_slot:
  assumes "reloaded st sids pdts" and "slot_fits pdts n p inc"
  shows "runtime_stab_get_pipe st (sids ! n) (port pdts n p) = Ok p" and "list_get sids n = Ok (sids ! n)"
    and "p \<noteq> ERROR_PIPE_ID" and "plain_string (port pdts n p)" and "n < 2 ^ 32"
    and "nodes_of buf = fresh_nodes sids \<Longrightarrow> check_pipe st buf n p inc = Ok ()"
proof -
  have n: "n < length pdts" "n < length sids" "n < 2 ^ 32 - 1" using assms by (auto simp: slot_fits_def reloaded_def)
  obtain sv where sv: "get_servlet st (sids ! n) = Ok sv" "sv_pdt sv = pdts ! n"
    using assms(1) n(1) by (auto simp: reloaded_def)
  have g: "good_pdt (sv_pdt sv)" using assms(1) n(1) sv(2) by (auto simp: reloaded_def)
  have p: "p < length (pdt_entries (sv_pdt sv))" using assms(2) sv(2) by (simp add: slot_fits_def)
  have len: "length (pdt_entries (sv_pdt sv)) < 2 ^ 16 - 1" using g by (simp add: good_pdt_def)
  show "list_get sids n = Ok (sids ! n)" "n < 2 ^ 32" using n by (auto simp: list_get_def)
  show pe: "p \<noteq> ERROR_PIPE_ID" using p len by (simp add: ERROR_PIPE_ID_def)
  show "plain_string (port pdts n p)" using pdt_name_nth(2) [OF g p] sv(2) by simp
  show "runtime_stab_get_pipe st (sids ! n) (port pdts n p) = Ok p"
    using pdt_name_nth(3) [OF g p] sv by (simp add: runtime_stab_get_pipe_def runtime_stab_get_pdt_def)
  show "check_pipe st buf n p inc = Ok ()" if b: "nodes_of buf = fresh_nodes sids"
    using n sv p len pe assms(2) b
    by (auto simp: check_pipe_def check_node_id_def ERROR_NODE_ID_def vector_length_def vec.get_elems
        runtime_stab_num_pipes_def runtime_pdt_get_size_def ERROR_SIZE_def runtime_stab_get_pipe_flags_def
        runtime_pdt_get_flags_by_pd_def pd_invalid_def slot_fits_def pipe_is_input_def)
qed

lemma load_ends_reloaded:
  assumes "reloaded st sids pdts" and "slot_fits pdts inode ip True" and "slot_fits pdts onode op False"
    and "nodes_of buf = fresh_nodes sids"
  shows "load_ends sids st inode onode (port pdts inode ip) (port pdts onode op) buf
    = Ok (Some (buf\<lparr>buf_input_node := inode, buf_input_pipe := ip, buf_output_node := onode, buf_output_pipe := op\<rparr>))"
proof -
  let ?b = "buf\<lparr>buf_input_node := inode, buf_input_pipe := ip\<rparr>"
  have "nodes_of ?b = fresh_nodes sids" using assms(4) by simp
  then show ?thesis
    using reloaded_slot [OF assms(1,2)] reloaded_slot [OF assms(1,3)] assms(4)
    by (simp add: load_ends_def sched_service_buffer_set_input_def sched_service_buffer_set_output_def)
qed

text \<open>Pipes that can be added one after the other.\<close>

definition addable :: "runtime_pdt list \<Rightarrow> pipe_descriptor list \<Rightarrow> bool" where
  "addable pdts ps \<longleftrightarrow> distinct (map src_slot ps) \<and> distinct (map dst_slot ps)
     \<and> (\<forall>p\<in>set ps. slot_fits pdts (source_node_id p) (source_pipe_desc p) False
                   \<and> slot_fits pdts (destination_node_id p) (destination_pipe_desc p) True)"

lemma addable_no_conflict:
  assumes "addable pdts (qs @ p # ps)"
  shows "\<not> list_ex (slot_conflict p) qs"
proof -
  have "\<not> slot_conflict p q" if q: "q \<in> set qs" for q
  proof -
    have s: "src_slot p \<noteq> src_slot q" "dst_slot p \<noteq> dst_slot q"
      using assms q by (auto simp: addable_def)
    have "slot_fits pdts (source_node_id p) (source_pipe_desc p) False"
      "slot_fits pdts (destination_node_id p) (destination_pipe_desc p) True"
      "slot_fits pdts (source_node_id q) (source_pipe_desc q) False"
      "slot_fits pdts (destination_node_id q) (destination_pipe_desc q) True"
      using assms q by (auto simp: addable_def)
    then show ?thesis using s by (auto simp: slot_conflict_iff src_slot_def dst_slot_def slot_fits_def)
  qed
  then show ?thesis by (auto simp: list_ex_iff)
qed

lemma load_pipe_delivers:
  assumes re: "reloaded st sids pdts" and d: "delivers r (enc_pipe pdts p @ rest)" and am: "ample ld"
    and b: "nodes_of buf = fresh_nodes sids" "vec_tight (buf_pipes buf)" "length (pipes_of buf) < 2 ^ 32"
    and ad: "addable pdts (pipes_of buf @ p # ps)"
  shows "\<exists>v r'. load_pipe ld sids st i buf r = Ok (Some (buf\<lparr>buf_pipes := v\<rparr>), r') \<and> delivers r' rest
    \<and> vec_tight v \<and> vec_data v = pipes_of buf @ [p]"
proof -
  let ?sp = "port pdts (source_node_id p) (source_pipe_desc p)"
    and ?dp = "port pdts (destination_node_id p) (destination_pipe_desc p)"
    and ?ids = "le_bytes 4 (source_node_id p) @ le_bytes 4 (destination_node_id p)"
  have f: "slot_fits pdts (source_node_id p) (source_pipe_desc p) False"
    "slot_fits pdts (destination_node_id p) (destination_pipe_desc p) True"
    using ad by (auto simp: addable_def)
  note s = reloaded_slot [OF re f(1)] and t = reloaded_slot [OF re f(2)]
  have d': "delivers r (?ids @ enc_string ?sp @ enc_string ?dp @ rest)" using d by (simp add: enc_pipe_def)
  have "length ?ids < 2 ^ 63" "8 = length ?ids" by simp_all
  from fd_read_delivers [OF d' this]
  obtain r1 where r1: "fd_read 8 r = (True, ?ids, r1)" "delivers r1 (enc_string ?sp @ enc_string ?dp @ rest)" by blast
  obtain r2 where r2: "read_string r1 = Ok (Some ?sp, r2)" "delivers r2 (enc_string ?dp @ rest)"
    using read_string_delivers [OF r1(2) s(4)] by blast
  obtain r3 where r3: "read_string r2 = Ok (Some ?dp, r3)" "delivers r3 rest"
    using read_string_delivers [OF r2(2) t(4)] by blast
  have v: "le_val (take 4 ?ids) = source_node_id p" "le_val (drop 4 ?ids) = destination_node_id p"
    using s(5) t(5) by (simp_all add: le_val_bytes)
  obtain vec where vec: "vector_push True (buf_pipes buf) p = Ok vec" "vec_tight vec" "vec_data vec = pipes_of buf @ [p]"
    using push_tight [OF b(2,3)] by blast
  have a: "sched_service_buffer_add_pipe (ld_pipe_mem ld i) st buf p = Ok (buf\<lparr>buf_pipes := vec\<rparr>)"
    using s(6) [OF b(1)] t(6) [OF b(1)] addable_no_conflict [OF ad] am vec(1)
    by (simp add: sched_service_buffer_add_pipe_def ample_def)
  have p: "\<lparr>source_node_id = source_node_id p, destination_node_id = destination_node_id p,
      source_pipe_desc = source_pipe_desc p, destination_pipe_desc = destination_pipe_desc p\<rparr> = p" by simp
  show ?thesis
    by (intro exI [of _ vec] exI [of _ r3])
      (simp add: load_pipe_def r1(1) v [simplified] r2(1) s(1-3) r3 t(1-3) p a vec(2,3))
qed

lemma load_pipes_delivers:
  assumes "reloaded st sids pdts" and "ample ld" and "delivers r (concat (map (enc_pipe pdts) ps) @ rest)"
    and "nodes_of buf = fresh_nodes sids" "vec_tight (buf_pipes buf)" "length (pipes_of buf) + length ps \<le> 2 ^ 32"
    and "addable pdts (pipes_of buf @ ps)"
  shows "\<exists>v r'. load_pipes ld sids st (length ps) i buf r = Ok (Some (buf\<lparr>buf_pipes := v\<rparr>), r')
    \<and> vec_tight v \<and> vec_data v = pipes_of buf @ ps"
  using assms(3-)
proof (induction ps arbitrary: r i buf)
  case Nil
  then show ?case by (auto intro!: exI [of _ "buf_pipes buf"])
next
  case (Cons p ps)
  have d: "delivers r (enc_pipe pdts p @ concat (map (enc_pipe pdts) ps) @ rest)" using Cons.prems(1) by simp
  have "length (pipes_of buf) < 2 ^ 32" using Cons.prems(4) by simp
  from load_pipe_delivers [OF assms(1) d assms(2) Cons.prems(2,3) this Cons.prems(5), of i]
  obtain v r1 where v: "load_pipe ld sids st i buf r = Ok (Some (buf\<lparr>buf_pipes := v\<rparr>), r1)"
    "delivers r1 (concat (map (enc_pipe pdts) ps) @ rest)" "vec_tight v" "vec_data v = pipes_of buf @ [p]" by blast
  have "\<exists>v' r'. load_pipes ld sids st (length ps) (Suc i) (buf\<lparr>buf_pipes := v\<rparr>) r1
      = Ok (Some (buf\<lparr>buf_pipes := v, buf_pipes := v'\<rparr>), r') \<and> vec_tight v'
      \<and> vec_data v' = pipes_of (buf\<lparr>buf_pipes := v\<rparr>) @ ps"
    by (rule Cons.IH [OF v(2)]) (use Cons.prems v in auto)
  then show ?case using v(1,4) by auto
qed

lemma header_fields:
  assumes "dumpable svs svc" and "length svs = node_count svc"
  shows "le_val (take 4 (dump_header svc)) = node_count svc"
    and "le_val (take 4 (drop 4 (dump_header svc))) = length (concat (map incoming (svc_nodes svc)))"
    and "le_val (take 4 (drop 8 (dump_header svc))) = svc_input_node svc"
    and "le_val (drop 12 (dump_header svc)) = svc_output_node svc"
proof -
  have b: "node_count svc < 256 ^ 4" "length (concat (map incoming (svc_nodes svc))) < 256 ^ 4"
    "svc_input_node svc < 256 ^ 4" "svc_output_node svc < 256 ^ 4"
    using assms by (auto simp: dumpable_def SCHED_SERVICE_MAX_NUM_NODES_def SCHED_SERVICE_MAX_NUM_EDGES_def slot_fits_def)
  have "sum_list (map (\<lambda>n. length (incoming n)) (svc_nodes svc)) = length (concat (map incoming (svc_nodes svc)))"
    by (simp add: length_concat comp_def)
  then show "le_val (take 4 (dump_header svc)) = node_count svc"
    "le_val (take 4 (drop 4 (dump_header svc))) = length (concat (map incoming (svc_nodes svc)))"
    "le_val (take 4 (drop 8 (dump_header svc))) = svc_input_node svc"
    "le_val (drop 12 (dump_header svc)) = svc_output_node svc"
    using b by (simp_all add: dump_header_def le_val_bytes)
qed

text \<open>The buffer that loading a dump reconstructs.\<close>

definition rebuilds :: "service \<Rightarrow> stab_entry list \<Rightarrow> service_buffer \<Rightarrow> bool" where
  "rebuilds svc sids buf \<longleftrightarrow> nodes_of buf = fresh_nodes sids \<and> pipes_of buf = concat (map incoming (svc_nodes svc))
     \<and> buf_input_node buf = svc_input_node svc \<and> buf_input_pipe buf = svc_input_pipe svc
     \<and> buf_output_node buf = svc_output_node svc \<and> buf_output_pipe buf = svc_output_pipe svc"

lemma new_buffer_tight:
  "\<exists>buf. sched_service_buffer_new plenty = Ok buf \<and> vec_tight (buf_nodes buf) \<and> vec_tight (buf_pipes buf)
     \<and> nodes_of buf = [] \<and> pipes_of buf = []"
  using empty_buffer_new by (auto simp: empty_buffer_def vec_tight_def vector_wf_def vector_length_def)

lemma from_fd_delivers:
  assumes d: "delivers r (enc_service svs svc)" and du: "dumpable svs svc" and len: "length svs = node_count svc"
    and am: "ample ld" and l: "stab_load_all ld svs 0 st = Some (sids, st1)" and re: "reloaded st1 sids (pdts_of svs)"
  shows "\<exists>buf. sched_service_from_fd ld st r = build_service ld st1 buf \<and> rebuilds svc sids buf"
proof -
  let ?pdts = "pdts_of svs" and ?ps = "concat (map incoming (svc_nodes svc))"
  let ?ip = "port ?pdts (svc_input_node svc) (svc_input_pipe svc)"
    and ?op = "port ?pdts (svc_output_node svc) (svc_output_pipe svc)"
  let ?nodes = "concat (map enc_node svs)" and ?pipes = "concat (map (enc_pipe ?pdts) ?ps)"
  have f: "slot_fits ?pdts (svc_input_node svc) (svc_input_pipe svc) True"
    "slot_fits ?pdts (svc_output_node svc) (svc_output_pipe svc) False" "addable ?pdts ?ps"
    "node_count svc \<le> SCHED_SERVICE_MAX_NUM_NODES" "length ?ps \<le> SCHED_SERVICE_MAX_NUM_EDGES"
    "\<forall>sv\<in>set svs. plain_servlet sv"
    using du by (auto simp: dumpable_def addable_def plain_servlet_def)
  have bd: "0 + length svs \<le> 2 ^ 32" "0 + length ?ps \<le> 2 ^ 32"
    using f(4,5) len by (simp_all add: SCHED_SERVICE_MAX_NUM_NODES_def SCHED_SERVICE_MAX_NUM_EDGES_def)
  have d': "delivers r (dump_header svc @ enc_string ?ip @ enc_string ?op @ ?nodes @ ?pipes)"
    using d by (simp add: enc_service_def)
  have "length (dump_header svc) < 2 ^ 63" "16 = length (dump_header svc)" by (simp_all add: dump_header_def)
  from fd_read_delivers [OF d' this]
  obtain r1 where r1: "fd_read 16 r = (True, dump_header svc, r1)" "delivers r1 (enc_string ?ip @ enc_string ?op @ ?nodes @ ?pipes)"
    by blast
  obtain r2 where r2: "read_string r1 = Ok (Some ?ip, r2)" "delivers r2 (enc_string ?op @ ?nodes @ ?pipes)"
    using read_string_delivers [OF r1(2) reloaded_slot(4) [OF re f(1)]] by blast
  obtain r3 where r3: "read_string r2 = Ok (Some ?op, r3)" "delivers r3 (?nodes @ ?pipes)"
    using read_string_delivers [OF r2(2) reloaded_slot(4) [OF re f(2)]] by blast
  obtain buf where buf: "sched_service_buffer_new (ld_buf_mem ld) = Ok buf" "vec_tight (buf_nodes buf)"
    "vec_tight (buf_pipes buf)" "nodes_of buf = []" "pipes_of buf = []"
    using new_buffer_tight am by (auto simp: ample_def)
  from load_nodes_delivers [OF r3(2) f(6) am l buf(2) _ bd(1)] buf(4)
  obtain v r4 where v: "load_nodes ld (length svs) 0 buf st r3 = Ok (Some (sids, buf\<lparr>buf_nodes := v\<rparr>), st1, r4)"
    "delivers r4 ?pipes" "vec_data v = fresh_nodes sids" by auto
  let ?b1 = "buf\<lparr>buf_nodes := v\<rparr>"
  let ?b2 = "?b1\<lparr>buf_input_node := svc_input_node svc, buf_input_pipe := svc_input_pipe svc,
                  buf_output_node := svc_output_node svc, buf_output_pipe := svc_output_pipe svc\<rparr>"
  have e: "load_ends sids st1 (svc_input_node svc) (svc_output_node svc) ?ip ?op ?b1 = Ok (Some ?b2)"
    by (rule load_ends_reloaded [OF re f(1,2)]) (simp add: v(3))
  have "delivers r4 (?pipes @ [])" using v(2) by simp
  then obtain u r5 where u: "load_pipes ld sids st1 (length ?ps) 0 ?b2 r4 = Ok (Some (?b2\<lparr>buf_pipes := u\<rparr>), r5)"
    "vec_data u = ?ps"
    using load_pipes_delivers [OF re am, of r4 ?ps "[]" ?b2 0] v(3) buf(3,5) bd(2) f(3) by auto
  note h = header_fields [OF du len]
  have "sched_service_from_fd ld st r = build_service ld st1 (?b2\<lparr>buf_pipes := u\<rparr>)"
    unfolding sched_service_from_fd_def r1(1) Let_def
    using f(4,5) am buf(1) r2(1) r3(1) v(1) e u(1) len by (simp add: h ample_def on_error_def del: length_concat)
  moreover have "rebuilds svc sids (?b2\<lparr>buf_pipes := u\<rparr>)" using v(3) u(2) by (simp add: rebuilds_def)
  ultimately show ?thesis by blast
qed

lemma servlets_reloaded:
  assumes "servlets_of st sids svs'" and "pdts_of svs' = pdts_of svs" and "dumpable svs svc"
    and "length svs = node_count svc"
  shows "reloaded st sids (pdts_of svs)"
proof -
  have len: "length sids = length svs'" "length svs' = length svs"
    using assms(1) map_eq_imp_length_eq [OF assms(2)] by (auto simp: servlets_of_def list_all2_lengthD)
  have "\<exists>sv. get_servlet st (sids ! i) = Ok sv \<and> sv_pdt sv = pdts_of svs ! i" if "i < length svs" for i
  proof -
    have "pdts_of svs' ! i = pdts_of svs ! i" using assms(2) by simp
    then show ?thesis using servlets_nth(2) [OF assms(1)] that len by auto
  qed
  then show ?thesis
    using assms(3,4) len by (auto simp: reloaded_def dumpable_def SCHED_SERVICE_MAX_NUM_NODES_def)
qed

subsection \<open>Properties\<close>

text \<open>C35: a dumped service is reconstructed from its dump. For every service whose servlets exist,
  dumping succeeds when the descriptor accepts the data, in whatever portions; reading the
  bytes back, again in whatever portions, runs the servlet loader on the recorded paths and
  arguments and, when it returns servlets with the same pipe tables, hands
  \<^verbatim>\<open>sched_service_from_buffer\<close> a buffer with the same nodes, the same pipes and the same input and output.\<close>

theorem dump_load_roundtrip:
  assumes "servlets_of st (map node_servlet_id (svc_nodes svc)) svs" and "dumpable svs svc"
    and "clean wscript" and "clean rscript" and "ample ld"
    and "stab_load_all ld svs 0 st0 = Some (sids, st1)" and "servlets_of st1 sids svs'" and "pdts_of svs' = pdts_of svs"
  shows "\<exists>w'. sched_service_dump_fd st svc \<lparr>fw_out = [], fw_script = wscript\<rparr> = Ok (True, w')
    \<and> (\<exists>buf. sched_service_from_fd ld st0 \<lparr>fr_in = fw_out w', fr_script = rscript, fr_mem = []\<rparr> = build_service ld st1 buf
         \<and> rebuilds svc sids buf)"
proof -
  have len: "length svs = node_count svc" using assms(1) by (auto simp: servlets_of_def list_all2_conv_all_nth)
  obtain w' where w': "sched_service_dump_fd st svc \<lparr>fw_out = [], fw_script = wscript\<rparr> = Ok (True, w')"
    "fw_out w' = enc_service svs svc"
    using dump_service_writes [OF assms(1,2), of "\<lparr>fw_out = [], fw_script = wscript\<rparr>"] assms(3)
    by (auto simp: rwrites_def writes_def)
  have "delivers \<lparr>fr_in = fw_out w', fr_script = rscript, fr_mem = []\<rparr> (enc_service svs svc)"
    using w'(2) assms(4) by (simp add: delivers_def)
  from from_fd_delivers [OF this assms(2) len assms(5,6) servlets_reloaded [OF assms(7,8,2) len]] w'(1)
  show ?thesis by blast
qed

text \<open>An example: the chain of three nodes is dumped and loaded into the same servlet table.\<close>

definition sample_loader :: loader where
  "sample_loader = \<lparr>ld_find = (\<lambda>_. None), ld_binary = (\<lambda>_ _ _. None),
     ld_servlet = (\<lambda>b argv. Some (if argv = [''join''] then join_servlet else source_servlet)),
     ld_stab_mem = (\<lambda>_. plenty), ld_buf_mem = plenty, ld_ids_mem = True, ld_node_mem = plenty, ld_pipe_mem = plenty,
     ld_svc_mem = plenty, ld_create_mem = (\<lambda>_. plenty), ld_cnode_mem = plenty, ld_bound_mem = (\<lambda>_. plenty),
     ld_addr = (\<lambda>i. i), ld_type_check = (\<lambda>st svc. Ok svc)\<rparr>"

definition chain_servlets :: "servlet list" where
  "chain_servlets = [source_servlet, source_servlet, join_servlet]"

definition reloaded_stab :: stab where
  "reloaded_stab = sample_stab\<lparr>ns := (ns sample_stab)(0 := (ns sample_stab 0)\<lparr>i_table := Some
     \<lparr>vec_cap = 8, vec_data = [source_servlet, join_servlet, source_servlet, source_servlet, source_servlet, join_servlet]\<rparr>\<rparr>)\<rparr>"

lemma chain_names:
  "pdt_names (sv_pdt source_servlet) = [''in'', ''out'', ''alt'']"
  "pdt_names (sv_pdt join_servlet) = [''left'', ''right'', ''out'']"
  by (simp_all add: pdt_names_def sample_servlet_eval c_str_def)

lemma chain_good: "good_pdt (sv_pdt source_servlet)" "good_pdt (sv_pdt join_servlet)"
  unfolding good_pdt_def chain_names by (simp_all add: sample_servlet_eval plain_string_def)

lemma chain_dumpable: "dumpable chain_servlets sample_chain"
proof -
  have "slot_fits (pdts_of chain_servlets) 0 1 False" "slot_fits (pdts_of chain_servlets) 1 0 True"
    "slot_fits (pdts_of chain_servlets) 1 1 False" "slot_fits (pdts_of chain_servlets) 2 0 True"
    "slot_fits (pdts_of chain_servlets) 0 0 True" "slot_fits (pdts_of chain_servlets) 2 2 False"
    by (simp_all add: slot_fits_def chain_servlets_def sample_servlet_eval pipe_is_input_def pipe_is_output_def
        RUNTIME_API_PIPE_OUTPUT_def)
  moreover have "svc_input_node sample_chain = 0" "svc_input_pipe sample_chain = 0" "svc_output_node sample_chain = 2"
    "svc_output_pipe sample_chain = 2" "concat (map incoming (svc_nodes sample_chain)) = [edge 0 1 1 0, edge 1 1 2 0]"
    "node_count sample_chain = 3"
    by (simp_all add: sample_chain_def service_of_def blank_node_def)
  moreover have "\<forall>sv\<in>set chain_servlets. good_pdt (sv_pdt sv) \<and> plain_string (bin_path (sv_bin sv))
          \<and> (\<forall>s\<in>set (sv_argv sv). plain_string s) \<and> length (sv_argv sv) < 2 ^ 32"
    using chain_good by (simp add: chain_servlets_def) (simp add: sample_servlet_eval plain_string_def)
  ultimately show ?thesis
    by (simp add: dumpable_def SCHED_SERVICE_MAX_NUM_NODES_def SCHED_SERVICE_MAX_NUM_EDGES_def src_slot_def dst_slot_def)
qed

lemma chain_load: "stab_load_all sample_loader chain_servlets 0 sample_stab = Some ([3, 4, 5], reloaded_stab)"
  by (simp add: chain_servlets_def runtime_stab_load_def load_binary_def sample_loader_def sample_stab_def reloaded_stab_def
      sample_servlet_eval Let_def vector_push_def vector_append_def vector_length_def ERROR_STAB_ENTRY_def fun_upd_def
      cong: if_cong)

theorem dump_load_roundtrip_witness:
  "\<exists>w' buf. sched_service_dump_fd sample_stab sample_chain \<lparr>fw_out = [], fw_script = [Transfer 2, Retry]\<rparr> = Ok (True, w')
     \<and> sched_service_from_fd sample_loader sample_stab \<lparr>fr_in = fw_out w', fr_script = [Retry, Transfer 0], fr_mem = []\<rparr>
         = build_service sample_loader reloaded_stab buf
     \<and> pipes_of buf = [edge 0 1 1 0, edge 1 1 2 0]"
proof -
  have a: "servlets_of sample_stab (map node_servlet_id (svc_nodes sample_chain)) chain_servlets"
    using sample_servlets by (simp add: servlets_of_def sample_chain_def service_of_def blank_node_def chain_servlets_def)
  have b: "servlets_of reloaded_stab [3, 4, 5] chain_servlets"
    by (simp add: servlets_of_def chain_servlets_def reloaded_stab_def sample_stab_eval)
  have c: "clean [Transfer 2, Retry]" "clean [Retry, Transfer 0]" "ample sample_loader"
    by (simp_all add: ample_def sample_loader_def)
  show ?thesis
    using dump_load_roundtrip [OF a chain_dumpable c chain_load b refl]
    by (auto simp: rebuilds_def sample_chain_def service_of_def blank_node_def)
qed

text \<open>The node numbers of a dump are not checked. A file whose header names an input node that is
  not smaller than its number of nodes is accepted up to the point where
  \<^verbatim>\<open>servlet_ids[header.input_node]\<close> is read out of bounds, after all its servlets have been loaded.\<close>

theorem from_fd_unchecked_node:
  assumes "delivers r ((le_bytes 4 (length svs) @ le_bytes 4 edges @ le_bytes 4 inode @ le_bytes 4 onode)
      @ enc_string ip @ enc_string op @ concat (map enc_node svs) @ rest)"
    and "length svs \<le> SCHED_SERVICE_MAX_NUM_NODES" and "edges \<le> SCHED_SERVICE_MAX_NUM_EDGES"
    and "length svs \<le> inode" and "inode < 2 ^ 32" and "plain_string ip" and "plain_string op"
    and "\<forall>sv\<in>set svs. plain_servlet sv" and "ample ld" and "stab_load_all ld svs 0 st = Some (sids, st1)"
  shows "sched_service_from_fd ld st r = Undef"
proof -
  let ?hdr = "le_bytes 4 (length svs) @ le_bytes 4 edges @ le_bytes 4 inode @ le_bytes 4 onode"
  have "length ?hdr < 2 ^ 63" "16 = length ?hdr" by simp_all
  from fd_read_delivers [OF assms(1) this]
  obtain r1 where r1: "fd_read 16 r = (True, ?hdr, r1)" "delivers r1 (enc_string ip @ enc_string op @ concat (map enc_node svs) @ rest)"
    by blast
  obtain r2 where r2: "read_string r1 = Ok (Some ip, r2)" "delivers r2 (enc_string op @ concat (map enc_node svs) @ rest)"
    using read_string_delivers [OF r1(2) assms(6)] by blast
  obtain r3 where r3: "read_string r2 = Ok (Some op, r3)" "delivers r3 (concat (map enc_node svs) @ rest)"
    using read_string_delivers [OF r2(2) assms(7)] by blast
  obtain buf where buf: "sched_service_buffer_new (ld_buf_mem ld) = Ok buf" "vec_tight (buf_nodes buf)" "nodes_of buf = []"
    using new_buffer_tight assms(9) by (auto simp: ample_def)
  have bd: "0 + length svs \<le> 2 ^ 32" using assms(2) by (simp add: SCHED_SERVICE_MAX_NUM_NODES_def)
  from load_nodes_delivers [OF r3(2) assms(8-10) buf(2) _ bd] buf(3)
  obtain v r4 where v: "load_nodes ld (length svs) 0 buf st r3 = Ok (Some (sids, buf\<lparr>buf_nodes := v\<rparr>), st1, r4)" by auto
  have h: "le_val (take 4 ?hdr) = length svs" "le_val (take 4 (drop 4 ?hdr)) = edges" "le_val (take 4 (drop 8 ?hdr)) = inode"
    using assms(2,3,5) by (simp_all add: le_val_bytes SCHED_SERVICE_MAX_NUM_NODES_def SCHED_SERVICE_MAX_NUM_EDGES_def)
  have "length sids = length svs"
    using assms(10) by (rule stab_load_all_length)
  then have e: "load_ends sids st1 inode x ip op b = Undef" for x b using assms(4) by (simp add: load_ends_def list_get_def)
  show ?thesis
    unfolding sched_service_from_fd_def r1(1) Let_def prod.case h
    using assms(2,3,9) buf(1) r2(1) r3(1) v by (simp add: ample_def on_error_def e)
qed

theorem from_fd_unchecked_node_witness:
  "sched_service_from_fd sample_loader sample_stab
     \<lparr>fr_in = (le_bytes 4 3 @ le_bytes 4 0 @ le_bytes 4 77 @ le_bytes 4 0) @ enc_string ''in'' @ enc_string ''out''
        @ concat (map enc_node chain_servlets), fr_script = [], fr_mem = []\<rparr> = Undef"
proof -
  have p: "plain_string ''in''" "plain_string ''out''" "\<forall>sv\<in>set chain_servlets. plain_servlet sv" "length chain_servlets = 3"
    using chain_dumpable by (auto simp: plain_string_def dumpable_def plain_servlet_def chain_servlets_def)
  show ?thesis
    by (rule from_fd_unchecked_node [OF _ _ _ _ _ p(1-3) _ chain_load, where edges = 0 and inode = 77 and onode = 0 and rest = "[]"])
      (simp_all add: delivers_def p(4) SCHED_SERVICE_MAX_NUM_NODES_def ample_def sample_loader_def)
qed

text \<open>a string length of \<open>2 ^ 64 - 1\<close> in a file makes \<^verbatim>\<open>_read_string\<close> allocate a block of
  size 0 and write the terminator in front of it; every smaller length is read within its block.\<close>

theorem read_string_length_wraps:
  assumes "delivers r (le_bytes 8 len @ rest)" and "len < 2 ^ 64"
  shows "read_string r = Undef \<longleftrightarrow> len = 2 ^ 64 - 1"
proof -
  have "length (le_bytes 8 len) < 2 ^ 63" "8 = length (le_bytes 8 len)" by simp_all
  from fd_read_delivers [OF assms(1) this]
  obtain r1 where r1: "fd_read 8 r = (True, le_bytes 8 len, r1)" "delivers r1 rest" by blast
  have m: "next_alloc r1 = (True, r1)" using r1(2) by (simp add: next_alloc_def delivers_def)
  have v: "le_val (le_bytes 8 len) = len" by (rule le_val_bytes) (use assms(2) in simp)
  have w: "(len + 1) mod 2 ^ 64 \<le> len \<longleftrightarrow> len = 2 ^ 64 - 1"
  proof (cases "len = 2 ^ 64 - 1")
    case False
    then have "len + 1 < 2 ^ 64" using assms(2) by simp
    then have "(len + 1) mod 2 ^ 64 = len + 1" by (rule mod_less)
    then show ?thesis using False by simp
  qed simp
  show ?thesis
    unfolding read_string_def r1(1) Let_def prod.case v m using w by (auto split: prod.splits)
qed

theorem read_string_length_wraps_witness:
  "read_string \<lparr>fr_in = le_bytes 8 (2 ^ 64 - 1) @ [], fr_script = [], fr_mem = []\<rparr> = Undef"
  using read_string_length_wraps [of "\<lparr>fr_in = le_bytes 8 (2 ^ 64 - 1) @ [], fr_script = [], fr_mem = []\<rparr>" "2 ^ 64 - 1" "[]"]
  by (simp add: delivers_def)

end
