(* ===== verification/Linked.thy ===== *)
theory Linked
  imports Prelude
begin

text \<open>
  Intrusive linked lists on a store of entries, the representation of the task table chains and
  queues of the scheduler. The operations are the pointer manipulations the C code writes out;
  the locale proves, once for every entry type, that they implement list operations and touch
  nothing but links.
\<close>

type_synonym 'e store = "nat \<Rightarrow> 'e option"

subsection \<open>Operations\<close>

definition deref :: "'e store \<Rightarrow> nat \<Rightarrow> 'e result" where
  "deref h r = (case h r of None \<Rightarrow> Undef | Some e \<Rightarrow> Ok e)"

definition modify :: "'e store \<Rightarrow> nat \<Rightarrow> ('e \<Rightarrow> 'e) \<Rightarrow> 'e store result" where
  "modify h r f = rmap (\<lambda>e. h(r := Some (f e))) (deref h r)"

definition modify_opt :: "'e store \<Rightarrow> nat option \<Rightarrow> ('e \<Rightarrow> 'e) \<Rightarrow> 'e store result" where
  "modify_opt h p f = (case p of None \<Rightarrow> Ok h | Some r \<Rightarrow> modify h r f)"

text \<open>Put \<open>r\<close> in front of the list at \<open>hp\<close>: its next link and the back link of the old head.\<close>

definition link_push ::
  "(nat option \<Rightarrow> 'e \<Rightarrow> 'e) \<Rightarrow> (nat option \<Rightarrow> 'e \<Rightarrow> 'e) \<Rightarrow> 'e store \<Rightarrow> nat option \<Rightarrow> nat \<Rightarrow> 'e store result" where
  "link_push set_nx set_pv h hp r =
     rbind (modify h r (set_nx hp)) (\<lambda>h1. modify_opt h1 hp (set_pv (Some r)))"

text \<open>Take \<open>r\<close> out of the doubly linked list at \<open>hp\<close>; the result is the new head and store.\<close>

definition link_remove ::
  "('e \<Rightarrow> nat option) \<Rightarrow> ('e \<Rightarrow> nat option) \<Rightarrow> (nat option \<Rightarrow> 'e \<Rightarrow> 'e) \<Rightarrow> (nat option \<Rightarrow> 'e \<Rightarrow> 'e)
     \<Rightarrow> 'e store \<Rightarrow> nat option \<Rightarrow> nat \<Rightarrow> (nat option \<times> 'e store) result" where
  "link_remove nx pv set_nx set_pv h hp r =
     rbind (deref h r) (\<lambda>e.
     rbind (modify_opt h (pv e) (set_nx (nx e))) (\<lambda>h1.
     rbind (deref h1 r) (\<lambda>e1.
     rmap (\<lambda>h2. (if pv e1 = None then nx e1 else hp, h2)) (modify_opt h1 (nx e1) (set_pv (pv e1))))))"

subsection \<open>Lists in the store\<close>

primrec chain :: "('e \<Rightarrow> nat option) \<Rightarrow> 'e store \<Rightarrow> nat option \<Rightarrow> nat list \<Rightarrow> bool" where
  "chain nx h p [] \<longleftrightarrow> p = None"
| "chain nx h p (x # xs) \<longleftrightarrow> p = Some x \<and> (\<exists>e. h x = Some e \<and> chain nx h (nx e) xs)"

primrec dseg ::
  "('e \<Rightarrow> nat option) \<Rightarrow> ('e \<Rightarrow> nat option) \<Rightarrow> 'e store \<Rightarrow> nat option \<Rightarrow> nat option \<Rightarrow> nat list
     \<Rightarrow> nat option \<Rightarrow> bool" where
  "dseg nx pv h q p [] m \<longleftrightarrow> p = m"
| "dseg nx pv h q p (x # xs) m \<longleftrightarrow>
     p = Some x \<and> (\<exists>e. h x = Some e \<and> pv e = q \<and> dseg nx pv h (Some x) (nx e) xs m)"

abbreviation dchain ::
  "('e \<Rightarrow> nat option) \<Rightarrow> ('e \<Rightarrow> nat option) \<Rightarrow> 'e store \<Rightarrow> nat option \<Rightarrow> nat option \<Rightarrow> nat list \<Rightarrow> bool" where
  "dchain nx pv h q p xs \<equiv> dseg nx pv h q p xs None"

definition last_opt :: "'a list \<Rightarrow> 'a option" where
  "last_opt xs = (if xs = [] then None else Some (last xs))"

lemma last_opt_simps [simp]: "last_opt [] = None" "last_opt (xs @ [x]) = Some x"
  by (simp_all add: last_opt_def)

lemma last_opt_None [simp]: "last_opt xs = None \<longleftrightarrow> xs = []"
  by (simp add: last_opt_def)

lemma last_opt_Cons: "last_opt (x # xs) = (if xs = [] then Some x else last_opt xs)"
  by (simp add: last_opt_def)

lemma dchain_chain: "dchain nx pv h q p xs \<Longrightarrow> chain nx h p xs"
  by (induction xs arbitrary: q p) auto

lemma chain_head: "chain nx h p xs \<Longrightarrow> p = (case xs of [] \<Rightarrow> None | x # _ \<Rightarrow> Some x)"
  by (cases xs) auto

lemma dchain_head: "dchain nx pv h q p xs \<Longrightarrow> p = (case xs of [] \<Rightarrow> None | x # _ \<Rightarrow> Some x)"
  by (cases xs) auto

lemma chain_live: "chain nx h p xs \<Longrightarrow> x \<in> set xs \<Longrightarrow> h x \<noteq> None"
  by (induction xs arbitrary: p) auto

lemma chain_unique: "chain nx h p xs \<Longrightarrow> chain nx h p ys \<Longrightarrow> xs = ys"
proof (induction xs arbitrary: p ys)
  case Nil
  then show ?case by (cases ys) auto
next
  case (Cons x xs)
  then show ?case by (cases ys) auto
qed

lemma chain_suffix: "chain nx h p (xs @ x # ys) \<Longrightarrow> chain nx h (Some x) (x # ys)"
  by (induction xs arbitrary: p) auto

lemma chain_distinct: "chain nx h p xs \<Longrightarrow> distinct xs"
proof (induction xs arbitrary: p)
  case Nil
  then show ?case by simp
next
  case (Cons x xs)
  have "x \<notin> set xs"
  proof
    assume "x \<in> set xs"
    then obtain ys zs where xs: "xs = ys @ x # zs" by (meson split_list)
    have "chain nx h (Some x) (x # xs)" using Cons.prems by simp
    moreover have "chain nx h (Some x) (x # zs)"
      using Cons.prems xs chain_suffix [of nx h p "x # ys" x zs] by simp
    ultimately have "x # xs = x # zs" by (rule chain_unique)
    with xs show False by simp
  qed
  with Cons show ?case by auto
qed

text \<open>Only the links of the members matter.\<close>

lemma chain_cong:
  "\<forall>x\<in>set xs. map_option nx (h' x) = map_option nx (h x) \<Longrightarrow> chain nx h' p xs = chain nx h p xs"
proof (induction xs arbitrary: p)
  case Nil
  then show ?case by simp
next
  case (Cons x xs)
  from Cons.prems have "map_option nx (h' x) = map_option nx (h x)" by simp
  then show ?case using Cons by (cases "h x"; cases "h' x") auto
qed

lemma dseg_cong:
  "\<forall>x\<in>set xs. map_option (\<lambda>e. (nx e, pv e)) (h' x) = map_option (\<lambda>e. (nx e, pv e)) (h x) \<Longrightarrow>
     dseg nx pv h' q p xs m = dseg nx pv h q p xs m"
proof (induction xs arbitrary: q p)
  case Nil
  then show ?case by simp
next
  case (Cons x xs)
  from Cons.prems have "map_option (\<lambda>e. (nx e, pv e)) (h' x) = map_option (\<lambda>e. (nx e, pv e)) (h x)" by simp
  then show ?case using Cons by (cases "h x"; cases "h' x") auto
qed

lemma chain_agree: "chain nx h p xs \<Longrightarrow> \<forall>x\<in>set xs. h' x = h x \<Longrightarrow> chain nx h' p xs"
  using chain_cong [of xs nx h' h p] by simp

lemma dseg_agree: "dseg nx pv h q p xs m \<Longrightarrow> \<forall>x\<in>set xs. h' x = h x \<Longrightarrow> dseg nx pv h' q p xs m"
  using dseg_cong [of xs nx pv h' h q p m] by simp

lemma chain_frame [simp]: "x \<notin> set xs \<Longrightarrow> chain nx (h(x := v)) p xs = chain nx h p xs"
  by (rule chain_cong) auto

lemma dseg_frame [simp]: "x \<notin> set xs \<Longrightarrow> dseg nx pv (h(x := v)) q p xs m = dseg nx pv h q p xs m"
  by (rule dseg_cong) auto

lemma deref_Some [simp]: "h r = Some e \<Longrightarrow> deref h r = Ok e"
  by (simp add: deref_def)

lemma deref_None [simp]: "h r = None \<Longrightarrow> deref h r = Undef"
  by (simp add: deref_def)

lemma modify_Some [simp]: "h r = Some e \<Longrightarrow> modify h r f = Ok (h(r := Some (f e)))"
  by (simp add: modify_def)

lemma modify_opt_simps [simp]:
  "modify_opt h None f = Ok h" "modify_opt h (Some r) f = modify h r f"
  by (simp_all add: modify_opt_def)

subsection \<open>The operations implement lists\<close>

text \<open>
  An entry type with two links. \<open>core\<close> is everything else in the entry: the operations must
  not change it.
\<close>

locale linked =
  fixes nx :: "'e \<Rightarrow> nat option" and pv :: "'e \<Rightarrow> nat option"
    and set_nx :: "nat option \<Rightarrow> 'e \<Rightarrow> 'e" and set_pv :: "nat option \<Rightarrow> 'e \<Rightarrow> 'e" and core :: "'e \<Rightarrow> 'd"
  assumes nx_set_nx [simp]: "nx (set_nx p e) = p"
    and pv_set_nx [simp]: "pv (set_nx p e) = pv e"
    and nx_set_pv [simp]: "nx (set_pv p e) = nx e"
    and pv_set_pv [simp]: "pv (set_pv p e) = p"
    and core_set_nx [simp]: "core (set_nx p e) = core e"
    and core_set_pv [simp]: "core (set_pv p e) = core e"
begin

definition same_core :: "'e store \<Rightarrow> 'e store \<Rightarrow> bool" where
  "same_core h h' \<longleftrightarrow> (\<forall>x. map_option core (h' x) = map_option core (h x))"

lemma push_list:
  assumes "dchain nx pv h None hp xs" and "h r = Some e" and "pv e = None" and "r \<notin> set xs"
  obtains h' where "link_push set_nx set_pv h hp r = Ok h'" and "dchain nx pv h' None (Some r) (r # xs)"
    and "same_core h h'" and "\<And>y. y \<notin> set (r # xs) \<Longrightarrow> h' y = h y"
proof (cases xs)
  case Nil
  then have hp: "hp = None" using assms(1) by simp
  let ?h = "h(r := Some (set_nx None e))"
  have "link_push set_nx set_pv h hp r = Ok ?h" using assms(2) hp by (simp add: link_push_def)
  moreover have "dchain nx pv ?h None (Some r) (r # xs)" using Nil assms(3) by simp
  moreover have "same_core h ?h" using assms(2) by (simp add: same_core_def)
  ultimately show ?thesis using that Nil by simp
next
  case (Cons x ys)
  then obtain ex where x: "hp = Some x" "h x = Some ex" "pv ex = None" "dchain nx pv h (Some x) (nx ex) ys"
    using assms(1) by auto
  have "distinct xs" using chain_distinct [OF dchain_chain [OF assms(1)]] .
  then have n: "x \<noteq> r" "r \<notin> set ys" "x \<notin> set ys" using assms(4) Cons by auto
  let ?h = "h(r := Some (set_nx (Some x) e), x := Some (set_pv (Some r) ex))"
  have "link_push set_nx set_pv h hp r = Ok ?h" "dchain nx pv ?h None (Some r) (r # xs)"
    using assms(2,3) x Cons n by (simp_all add: link_push_def)
  moreover have "same_core h ?h" using assms(2) x(2) by (simp add: same_core_def)
  ultimately show ?thesis using that Cons by simp
qed

lemma dseg_append:
  "dseg nx pv h q p (xs @ ys) m \<longleftrightarrow>
     (\<exists>k. dseg nx pv h q p xs k \<and> dseg nx pv h (if xs = [] then q else Some (last xs)) k ys m)"
  by (induction xs arbitrary: q p) auto

lemma dseg_snoc:
  "dseg nx pv h q p (xs @ [a]) m \<longleftrightarrow>
     (\<exists>e. dseg nx pv h q p xs (Some a) \<and> h a = Some e
        \<and> pv e = (if xs = [] then q else Some (last xs)) \<and> nx e = m)"
  by (auto simp: dseg_append)

text \<open>The next link of the last element can be redirected.\<close>

lemma dseg_redirect:
  assumes "dseg nx pv h q p (xs @ [a]) m" and "a \<notin> set xs" and "h a = Some e"
  shows "dseg nx pv (h(a := Some (set_nx k e))) q p (xs @ [a]) k"
  using assms by (auto simp: dseg_snoc)

text \<open>The back link of the first element can be redirected.\<close>

lemma dseg_rehead:
  assumes "dseg nx pv h q p (b # bs) m" and "b \<notin> set bs" and "h b = Some e"
  shows "dseg nx pv (h(b := Some (set_pv k e))) k p (b # bs) m"
  using assms by auto

lemma remove_list:
  assumes "dchain nx pv h None hp (xs @ r # ys)"
  obtains hp' h' where "link_remove nx pv set_nx set_pv h hp r = Ok (hp', h')"
    and "dchain nx pv h' None hp' (xs @ ys)"
    and "same_core h h'" and "h' r = h r"
    and "\<And>y. y \<notin> set (xs @ ys) \<Longrightarrow> h' y = h y"
proof -
  have d: "distinct (xs @ r # ys)" using chain_distinct [OF dchain_chain [OF assms]] .
  let ?q = "if xs = [] then None else Some (last xs)"
  obtain e where e: "h r = Some e" "pv e = ?q" and xs: "dseg nx pv h None hp xs (Some r)"
    and ys: "dchain nx pv h (Some r) (nx e) ys"
    using assms by (auto simp: dseg_append)
  define hp' where "hp' = (if xs = [] then nx e else hp)"
  obtain h1 where h1: "modify_opt h ?q (set_nx (nx e)) = Ok h1" "dseg nx pv h1 None hp' xs (nx e)"
    "same_core h h1" "\<And>y. y \<notin> set xs \<Longrightarrow> h1 y = h y"
  proof (cases xs rule: rev_cases)
    case Nil
    then show ?thesis using that [of h] by (simp add: hp'_def same_core_def)
  next
    case (snoc as a)
    then obtain ea where ea: "h a = Some ea" using xs by (auto simp: dseg_snoc)
    have "dseg nx pv (h(a := Some (set_nx (nx e) ea))) None hp (as @ [a]) (nx e)"
      by (rule dseg_redirect [where m = "Some r"]) (use xs snoc d ea in auto)
    with snoc ea show ?thesis
      by (intro that [of "h(a := Some (set_nx (nx e) ea))"]) (auto simp: hp'_def same_core_def)
  qed
  have r1: "h1 r = Some e" using h1(4) d e(1) by auto
  have ys1: "dchain nx pv h1 (Some r) (nx e) ys"
    by (rule dseg_agree [OF ys]) (use h1(4) d in auto)
  obtain h2 where h2: "modify_opt h1 (nx e) (set_pv ?q) = Ok h2" "dchain nx pv h2 ?q (nx e) ys"
    "same_core h1 h2" "\<And>y. y \<notin> set ys \<Longrightarrow> h2 y = h1 y"
  proof (cases ys)
    case Nil
    then show ?thesis using that [of h1] ys by (simp add: same_core_def)
  next
    case (Cons b bs)
    then obtain eb where eb: "h1 b = Some eb" "nx e = Some b" using ys1 by auto
    have "dchain nx pv (h1(b := Some (set_pv ?q eb))) ?q (nx e) (b # bs)"
      by (rule dseg_rehead [where q = "Some r"]) (use ys1 Cons d eb(1) in auto)
    with Cons eb show ?thesis
      by (intro that [of "h1(b := Some (set_pv ?q eb))"]) (auto simp: same_core_def)
  qed
  have "dseg nx pv h2 None hp' xs (nx e)"
    by (rule dseg_agree [OF h1(2)]) (use h2(4) d in auto)
  then have l: "dchain nx pv h2 None hp' (xs @ ys)" using h2(2) by (auto simp: dseg_append)
  have rm: "link_remove nx pv set_nx set_pv h hp r = Ok (hp', h2)"
    using e r1 h1(1) h2(1) by (auto simp: link_remove_def hp'_def)
  have "same_core h h2" using h1(3) h2(3) by (simp add: same_core_def)
  moreover have "h2 r = h r" using r1 h2(4) d e(1) by auto
  moreover have "h2 y = h y" if "y \<notin> set (xs @ ys)" for y using that h1(4) h2(4) by auto
  ultimately show ?thesis using that rm l by blast
qed

lemma append_list:
  assumes "chain nx h hp xs" and "h r = Some e" and "nx e = None" and "r \<notin> set xs"
  obtains h' where "modify_opt h (last_opt xs) (set_nx (Some r)) = Ok h'"
    and "chain nx h' (if xs = [] then Some r else hp) (xs @ [r])" and "same_core h h'"
    and "h' r = h r" and "\<And>y. y \<notin> set xs \<Longrightarrow> h' y = h y"
proof (cases xs rule: rev_cases)
  case Nil
  then show ?thesis using that [of h] assms by (simp add: same_core_def)
next
  case (snoc as a)
  have d: "distinct xs" using chain_distinct [OF assms(1)] .
  have ar: "a \<noteq> r" using snoc assms(4) by auto
  have "chain nx h hp (as @ [a]) \<Longrightarrow> a \<notin> set as \<Longrightarrow> r \<notin> set (as @ [a]) \<Longrightarrow>
      \<exists>ea. h a = Some ea \<and> chain nx (h(a := Some (set_nx (Some r) ea))) hp (as @ [a, r])"
  proof (induction as arbitrary: hp)
    case Nil
    then show ?case using assms(2,3) ar by auto
  next
    case (Cons b bs)
    then show ?case by auto
  qed
  then obtain ea where ea: "h a = Some ea" "chain nx (h(a := Some (set_nx (Some r) ea))) hp (xs @ [r])"
    using assms(1,4) d snoc by auto
  then show ?thesis using snoc ar
    by (intro that [of "h(a := Some (set_nx (Some r) ea))"]) (auto simp: same_core_def)
qed

end

end
