(* ===== verification/RuntimeTask.thy ===== *)
theory RuntimeTask
  imports Service
begin

unbundle bit_operations_syntax

text \<open>
  Runtime tasks, \<^verbatim>\<open>src/runtime/task.c\<close>: one activation of a servlet with its pipe table.
  An asynchronous servlet runs as three tasks, setup, execution and cleanup, that share one
  buffer, one handle and one set of pipes; the ownership of these is what this theory is about.
\<close>

subsection \<open>Flags and tasks\<close>

type_synonym task_flags = "32 word"

definition RUNTIME_TASK_FLAG_ACTION_MASK :: task_flags where "RUNTIME_TASK_FLAG_ACTION_MASK = 0xc0000000"
definition RUNTIME_TASK_FLAG_ACTION_INIT :: task_flags where "RUNTIME_TASK_FLAG_ACTION_INIT = 0x00000000"
definition RUNTIME_TASK_FLAG_ACTION_EXEC :: task_flags where "RUNTIME_TASK_FLAG_ACTION_EXEC = 0x40000000"
definition RUNTIME_TASK_FLAG_ACTION_UNLOAD :: task_flags where "RUNTIME_TASK_FLAG_ACTION_UNLOAD = 0x80000000"
definition RUNTIME_TASK_FLAG_ACTION_INVOKED :: task_flags where "RUNTIME_TASK_FLAG_ACTION_INVOKED = 0x20000000"
definition RUNTIME_TASK_FLAG_ACTION_ASYNC :: task_flags where "RUNTIME_TASK_FLAG_ACTION_ASYNC = 0x10000000"

lemmas task_flag_defs = RUNTIME_TASK_FLAG_ACTION_MASK_def RUNTIME_TASK_FLAG_ACTION_INIT_def
  RUNTIME_TASK_FLAG_ACTION_EXEC_def RUNTIME_TASK_FLAG_ACTION_UNLOAD_def
  RUNTIME_TASK_FLAG_ACTION_INVOKED_def RUNTIME_TASK_FLAG_ACTION_ASYNC_def

definition get_action :: "task_flags \<Rightarrow> task_flags" where
  "get_action flags = flags AND RUNTIME_TASK_FLAG_ACTION_MASK"

definition flag_async :: "task_flags \<Rightarrow> bool" where
  "flag_async flags \<longleftrightarrow> flags AND RUNTIME_TASK_FLAG_ACTION_ASYNC \<noteq> 0"

definition flag_invoked :: "task_flags \<Rightarrow> bool" where
  "flag_invoked flags \<longleftrightarrow> flags AND RUNTIME_TASK_FLAG_ACTION_INVOKED \<noteq> 0"

text \<open>
  A task. \<^verbatim>\<open>npipes\<close> is the length of the pipe table; pipe handles, buffers and async
  handles are addresses. The three async fields of a synchronous task are never read.
\<close>

record runtime_task =
  rt_flags :: task_flags
  rt_servlet :: stab_entry
  async_owner :: bool
  async_handle :: "nat option"
  async_data :: "nat option"
  rt_pipes :: "nat option list"

definition runtime_task_is_async :: "runtime_task \<Rightarrow> bool" where
  "runtime_task_is_async task = flag_async (rt_flags task)"

text \<open>
  What a servlet binary defines, as far as the tasks see it: the size of the async buffer and
  what each callback that is present returns.
\<close>

record servlet_def =
  async_buf_size :: nat
  def_init :: "int option"
  def_exec :: "int option"
  def_unload :: "int option"
  def_async_setup :: "int option"
  def_async_exec :: "int option"
  def_async_cleanup :: "int option"

text \<open>
  The object pools that are created on demand, and the mutex around their creation. A thread
  that locks the mutex while it holds it is undefined, as for a default POSIX mutex.
\<close>

record task_pools =
  task_pool :: "stab_entry \<Rightarrow> bool"
  async_pool :: "servlet_binary \<Rightarrow> bool"
  pool_mutex :: bool

definition pool_lock :: "task_pools \<Rightarrow> task_pools result" where
  "pool_lock p = (if pool_mutex p then Undef else Ok (p\<lparr>pool_mutex := True\<rparr>))"

definition pool_unlock :: "task_pools \<Rightarrow> task_pools" where
  "pool_unlock p = p\<lparr>pool_mutex := False\<rparr>"

subsection \<open>Creation\<close>

text \<open>
  The two places of \<^verbatim>\<open>_task_new\<close> that create a pool on demand: lock, create, unlock. When the
  creation fails the function leaves at once, with the mutex locked; the flag tells whether it
  goes on.
\<close>

definition ensure_task_pool :: "bool \<Rightarrow> stab_entry \<Rightarrow> task_pools \<Rightarrow> (bool \<times> task_pools) result" where
  "ensure_task_pool create_ok sid p =
     (if task_pool p sid then Ok (True, p)
      else rmap (\<lambda>p1. if create_ok then (True, pool_unlock (p1\<lparr>task_pool := (task_pool p1)(sid := True)\<rparr>))
                      else (False, p1)) (pool_lock p))"

definition ensure_async_pool :: "bool \<Rightarrow> servlet_binary \<Rightarrow> task_pools \<Rightarrow> (bool \<times> task_pools) result" where
  "ensure_async_pool create_ok bin p =
     (if async_pool p bin then Ok (True, p)
      else rmap (\<lambda>p1. if create_ok then (True, pool_unlock (p1\<lparr>async_pool := (async_pool p1)(bin := True)\<rparr>))
                      else (False, p1)) (pool_lock p))"

text \<open>
  \<^verbatim>\<open>_task_new\<close>. \<open>mem\<close>: 0 the task pool, 1 the task, 2 the pool of the async buffers, 3 the
  buffer, 4 the task of an init or unload action. \<open>buf\<close> is the address of the new buffer. The
  flags of the task are set by the caller.
\<close>

definition new_task :: "nat \<Rightarrow> stab_entry \<Rightarrow> bool \<Rightarrow> nat option \<Rightarrow> runtime_task" where
  "new_task npipes sid owner data = \<lparr>rt_flags = 0, rt_servlet = sid, async_owner = owner,
     async_handle = None, async_data = data, rt_pipes = replicate npipes None\<rparr>"

definition task_new ::
  "alloc \<Rightarrow> nat \<Rightarrow> servlet_def \<Rightarrow> stab_entry \<Rightarrow> servlet \<Rightarrow> task_flags \<Rightarrow> task_pools
     \<Rightarrow> (runtime_task option \<times> task_pools) result" where
  "task_new mem buf def sid sv action p =
     (let act = RUNTIME_TASK_FLAG_ACTION_MASK AND NOT RUNTIME_TASK_FLAG_ACTION_ASYNC AND action
      in if act \<noteq> RUNTIME_TASK_FLAG_ACTION_INIT \<and> act \<noteq> RUNTIME_TASK_FLAG_ACTION_UNLOAD
         then let npipes = runtime_pdt_get_size (sv_pdt sv)
              in rbind (ensure_task_pool (mem 0) sid p) (\<lambda>(go, p1).
                 if \<not> go then Ok (None, p1)
                 else if \<not> mem 1 then Ok (None, p1)
                 else if sv_async sv
                 then if async_buf_size def > 0
                      then rbind (ensure_async_pool (mem 2) (sv_bin sv) p1) (\<lambda>(go2, p2).
                           if \<not> go2 then Ok (None, p2)
                           else if \<not> mem 3 then Ok (None, p2)
                           else Ok (Some (new_task npipes sid True (Some buf)), p2))
                      else Ok (Some (new_task npipes sid True None), p1)
                 else Ok (Some (new_task npipes sid False None), p1))
         else Ok (if mem 4 then Some (new_task 0 sid False None) else None, p))"

text \<open>
  \<^verbatim>\<open>runtime_task_new\<close>: the execution of an asynchronous servlet becomes its setup task. The
  caller installs the new task as the current one.
\<close>

definition runtime_task_new ::
  "alloc \<Rightarrow> nat \<Rightarrow> servlet_def \<Rightarrow> stab_entry \<Rightarrow> servlet \<Rightarrow> task_flags \<Rightarrow> task_pools
     \<Rightarrow> (runtime_task option \<times> task_pools) result" where
  "runtime_task_new mem buf def sid sv flags p =
     (if flag_invoked flags then Ok (None, p)
      else rmap (\<lambda>(t, p1). (map_option (\<lambda>task. task\<lparr>rt_flags :=
                if get_action flags = RUNTIME_TASK_FLAG_ACTION_EXEC \<and> sv_async sv
                then (flags AND NOT RUNTIME_TASK_FLAG_ACTION_MASK) OR RUNTIME_TASK_FLAG_ACTION_ASYNC
                       OR RUNTIME_TASK_FLAG_ACTION_INIT
                else flags\<rparr>) t, p1))
             (task_new mem buf def sid sv (get_action flags) p))"

text \<open>\<^verbatim>\<open>runtime_stab_create_exec_task\<close> and \<^verbatim>\<open>sched_service_create_task\<close>, which create the task of a node.\<close>

definition runtime_stab_create_exec_task ::
  "alloc \<Rightarrow> nat \<Rightarrow> (stab_entry \<Rightarrow> servlet_def) \<Rightarrow> stab \<Rightarrow> stab_entry \<Rightarrow> task_flags \<Rightarrow> task_pools
     \<Rightarrow> (runtime_task option \<times> task_pools) result" where
  "runtime_stab_create_exec_task mem buf defs st sid flags p =
     (case get_servlet st sid of
        Error \<Rightarrow> Ok (None, p)
      | Undef \<Rightarrow> Undef
      | Ok sv \<Rightarrow> runtime_task_new mem buf (defs sid) sid sv
                  ((flags AND NOT RUNTIME_TASK_FLAG_ACTION_MASK) OR RUNTIME_TASK_FLAG_ACTION_EXEC) p)"

definition sched_service_create_task ::
  "alloc \<Rightarrow> nat \<Rightarrow> (stab_entry \<Rightarrow> servlet_def) \<Rightarrow> stab \<Rightarrow> service \<Rightarrow> node_id \<Rightarrow> task_pools
     \<Rightarrow> (runtime_task option \<times> task_pools) result" where
  "sched_service_create_task mem buf defs st svc nid p =
     (case svc_node svc nid of
        Error \<Rightarrow> Ok (None, p)
      | Undef \<Rightarrow> Undef
      | Ok node \<Rightarrow> runtime_stab_create_exec_task mem buf defs st (node_servlet_id node) (node_flags node) p)"

subsection \<open>Disposal\<close>

text \<open>
  What \<^verbatim>\<open>runtime_task_free\<close> gives back: the pipes, the async buffer and the async handle, and
  whether the task itself goes back to its pool. The status is an error when one of the
  deallocations fails.
\<close>

record task_disposal =
  freed_pipes :: "nat list"
  freed_data :: "nat option"
  freed_handle :: "nat option"
  to_pool :: bool

definition owns_pipes :: "runtime_task \<Rightarrow> bool" where
  "owns_pipes task \<longleftrightarrow> \<not> flag_async (rt_flags task) \<or> async_owner task"

definition owns_async :: "runtime_task \<Rightarrow> bool" where
  "owns_async task \<longleftrightarrow> flag_async (rt_flags task) \<and> async_owner task"

definition task_disposal_of :: "runtime_task \<Rightarrow> task_disposal" where
  "task_disposal_of task =
     \<lparr>freed_pipes = (if owns_pipes task then [h. Some h \<leftarrow> rt_pipes task] else []),
      freed_data = (if owns_async task then async_data task else None),
      freed_handle = (if owns_async task then async_handle task else None),
      to_pool = (flag_async (rt_flags task)
        \<or> get_action (rt_flags task) \<noteq> RUNTIME_TASK_FLAG_ACTION_INIT
          \<and> get_action (rt_flags task) \<noteq> RUNTIME_TASK_FLAG_ACTION_UNLOAD)\<rparr>"

definition runtime_task_free ::
  "(nat \<Rightarrow> bool) \<Rightarrow> (nat \<Rightarrow> bool) \<Rightarrow> (nat \<Rightarrow> bool) \<Rightarrow> runtime_task option \<Rightarrow> (bool \<times> task_disposal) result" where
  "runtime_task_free pipe_ok data_ok handle_ok t =
     (case t of None \<Rightarrow> Error
      | Some task \<Rightarrow>
          let d = task_disposal_of task
          in Ok (list_all pipe_ok (freed_pipes d) \<and> pred_option data_ok (freed_data d)
                 \<and> pred_option handle_ok (freed_handle d), d))"

subsection \<open>Execution\<close>

text \<open>
  \<^verbatim>\<open>runtime_task_start\<close>: the callback of the action, once. The result is the status code, -1
  for an unknown action, and the task with its flag set.
\<close>

definition callback_of :: "servlet_def \<Rightarrow> task_flags \<Rightarrow> int option option" where
  "callback_of def flags =
     (let action = get_action flags
      in if \<not> flag_async flags
         then (if action = RUNTIME_TASK_FLAG_ACTION_INIT then Some (def_init def)
               else if action = RUNTIME_TASK_FLAG_ACTION_EXEC then Some (def_exec def)
               else if action = RUNTIME_TASK_FLAG_ACTION_UNLOAD then Some (def_unload def) else None)
         else (if action = RUNTIME_TASK_FLAG_ACTION_INIT then Some (def_async_setup def)
               else if action = RUNTIME_TASK_FLAG_ACTION_EXEC then Some (def_async_exec def)
               else if action = RUNTIME_TASK_FLAG_ACTION_UNLOAD then Some (def_async_cleanup def) else None))"

definition runtime_task_start :: "servlet_def \<Rightarrow> runtime_task option \<Rightarrow> (int \<times> runtime_task) result" where
  "runtime_task_start def t =
     (case t of None \<Rightarrow> Error
      | Some task \<Rightarrow>
          if flag_invoked (rt_flags task) then Error
          else let flags = rt_flags task OR RUNTIME_TASK_FLAG_ACTION_INVOKED
               in Ok (case callback_of def flags of
                        None \<Rightarrow> -1 | Some None \<Rightarrow> 0 | Some (Some rc) \<Rightarrow> rc,
                      task\<lparr>rt_flags := flags\<rparr>))"

text \<open>
  The three fast variants. The execution variant checks nothing and sets no flag; the other two
  call their callback without a check that it exists.
\<close>

definition runtime_task_start_exec_fast :: "servlet_def \<Rightarrow> runtime_task \<Rightarrow> int \<times> runtime_task" where
  "runtime_task_start_exec_fast def task = (case def_exec def of None \<Rightarrow> 0 | Some rc \<Rightarrow> rc, task)"

definition runtime_task_start_async_setup_fast :: "servlet_def \<Rightarrow> runtime_task \<Rightarrow> (int \<times> runtime_task) result" where
  "runtime_task_start_async_setup_fast def task =
     (case def_async_setup def of None \<Rightarrow> Undef
      | Some rc \<Rightarrow> Ok (rc, task\<lparr>rt_flags := rt_flags task OR RUNTIME_TASK_FLAG_ACTION_INVOKED\<rparr>))"

definition runtime_task_start_async_cleanup_fast :: "servlet_def \<Rightarrow> runtime_task \<Rightarrow> (int \<times> runtime_task) result" where
  "runtime_task_start_async_cleanup_fast def task =
     (case def_async_cleanup def of None \<Rightarrow> Undef
      | Some rc \<Rightarrow> Ok (rc, task\<lparr>rt_flags := rt_flags task OR RUNTIME_TASK_FLAG_ACTION_INVOKED\<rparr>))"

text \<open>
  \<^verbatim>\<open>runtime_task_async_companions\<close>: the execution and cleanup tasks of a setup task. The
  cleanup task takes over the buffer, the handle and the pipes. The result is the execution task,
  the cleanup task and the setup task without its ownership.
\<close>

definition runtime_task_async_companions ::
  "bool \<Rightarrow> alloc \<Rightarrow> runtime_task \<Rightarrow> (runtime_task \<times> runtime_task \<times> runtime_task) result" where
  "runtime_task_async_companions has_pool mem task =
     (if get_action (rt_flags task) \<noteq> RUNTIME_TASK_FLAG_ACTION_INIT \<or> \<not> runtime_task_is_async task then Error
      else if \<not> async_owner task then Error
      else if async_handle task = None then Error
      else if \<not> has_pool then Error
      else if \<not> mem 0 then Error
      else if \<not> mem 1 then Error
      else let flags = rt_flags task AND NOT RUNTIME_TASK_FLAG_ACTION_MASK
                         AND NOT RUNTIME_TASK_FLAG_ACTION_INVOKED
           in Ok (task\<lparr>rt_flags := flags OR RUNTIME_TASK_FLAG_ACTION_EXEC, rt_pipes := [], async_owner := False\<rparr>,
                  task\<lparr>rt_flags := flags OR RUNTIME_TASK_FLAG_ACTION_UNLOAD, async_owner := True\<rparr>,
                  task\<lparr>async_owner := False\<rparr>))"

subsection \<open>Flag arithmetic\<close>

lemma async_setup_flags:
  fixes f :: task_flags
  defines "g \<equiv> (f AND NOT RUNTIME_TASK_FLAG_ACTION_MASK) OR RUNTIME_TASK_FLAG_ACTION_ASYNC OR RUNTIME_TASK_FLAG_ACTION_INIT"
  shows "get_action g = RUNTIME_TASK_FLAG_ACTION_INIT" and "flag_async g" and "flag_invoked g = flag_invoked f"
proof -
  have "(0xc0000000 :: 32 word) AND NOT 0xc0000000 = 0" by simp
  then show "get_action g = RUNTIME_TASK_FLAG_ACTION_INIT"
    by (simp add: g_def get_action_def task_flag_defs bit.conj_disj_distrib2 and.assoc)
  show "flag_async g" by (simp add: g_def flag_async_def task_flag_defs bit.conj_disj_distrib2 and.assoc)
  show "flag_invoked g = flag_invoked f"
    by (simp add: g_def flag_invoked_def task_flag_defs bit.conj_disj_distrib2 and.assoc)
qed

lemma action_flags:
  fixes f act :: task_flags
  assumes "act = RUNTIME_TASK_FLAG_ACTION_EXEC \<or> act = RUNTIME_TASK_FLAG_ACTION_UNLOAD"
  shows "get_action ((f AND NOT RUNTIME_TASK_FLAG_ACTION_MASK) OR act) = act"
    and "flag_async ((f AND NOT RUNTIME_TASK_FLAG_ACTION_MASK) OR act) = flag_async f"
    and "flag_invoked ((f AND NOT RUNTIME_TASK_FLAG_ACTION_MASK) OR act) = flag_invoked f"
  using assms
  by (auto simp: get_action_def flag_async_def flag_invoked_def task_flag_defs bit.conj_disj_distrib2 and.assoc)

lemma not_invoked_flags:
  fixes f :: task_flags
  shows "\<not> flag_invoked (f AND NOT RUNTIME_TASK_FLAG_ACTION_INVOKED)"
    and "flag_async (f AND NOT RUNTIME_TASK_FLAG_ACTION_INVOKED) = flag_async f"
  by (simp_all add: flag_async_def flag_invoked_def task_flag_defs and.assoc)

lemma invoked_flags:
  fixes f :: task_flags
  shows "flag_invoked (f OR RUNTIME_TASK_FLAG_ACTION_INVOKED)"
    and "flag_async (f OR RUNTIME_TASK_FLAG_ACTION_INVOKED) = flag_async f"
    and "get_action (f OR RUNTIME_TASK_FLAG_ACTION_INVOKED) = get_action f"
  by (simp_all add: flag_async_def flag_invoked_def get_action_def task_flag_defs bit.conj_disj_distrib2)

subsection \<open>Properties\<close>

text \<open>The task that is created for a node has one empty slot per pipe of its servlet. A
  synchronous servlet gets an execution task; an asynchronous one gets its setup task, which
  owns the buffer and the pipes and has no handle yet. The pool mutex is free afterwards.\<close>

theorem create_task_shape:
  assumes "sched_service_create_task mem buf defs st svc nid p = Ok (Some task, p')" and "\<not> pool_mutex p"
    and "svc_node svc nid = Ok node" and "get_servlet st (node_servlet_id node) = Ok sv"
  shows "rt_pipes task = replicate (runtime_pdt_get_size (sv_pdt sv)) None
    \<and> rt_servlet task = node_servlet_id node \<and> \<not> pool_mutex p'
    \<and> (if sv_async sv
       then runtime_task_is_async task \<and> async_owner task \<and> async_handle task = None
         \<and> get_action (rt_flags task) = RUNTIME_TASK_FLAG_ACTION_INIT
       else get_action (rt_flags task) = RUNTIME_TASK_FLAG_ACTION_EXEC)"
proof -
  let ?f = "(node_flags node AND NOT RUNTIME_TASK_FLAG_ACTION_MASK) OR RUNTIME_TASK_FLAG_ACTION_EXEC"
  let ?sid = "node_servlet_id node"
  have e: "RUNTIME_TASK_FLAG_ACTION_MASK AND NOT RUNTIME_TASK_FLAG_ACTION_ASYNC AND RUNTIME_TASK_FLAG_ACTION_EXEC
      = RUNTIME_TASK_FLAG_ACTION_EXEC"
    and ne: "RUNTIME_TASK_FLAG_ACTION_EXEC \<noteq> RUNTIME_TASK_FLAG_ACTION_INIT"
      "RUNTIME_TASK_FLAG_ACTION_EXEC \<noteq> RUNTIME_TASK_FLAG_ACTION_UNLOAD"
    by (simp_all add: task_flag_defs)
  have act: "get_action ?f = RUNTIME_TASK_FLAG_ACTION_EXEC" by (rule action_flags(1)) simp
  obtain t where t: "task_new mem buf (defs ?sid) ?sid sv RUNTIME_TASK_FLAG_ACTION_EXEC p = Ok (Some t, p')"
    and task: "task = t\<lparr>rt_flags := if sv_async sv
        then (?f AND NOT RUNTIME_TASK_FLAG_ACTION_MASK) OR RUNTIME_TASK_FLAG_ACTION_ASYNC OR RUNTIME_TASK_FLAG_ACTION_INIT
        else ?f\<rparr>"
    using assms(1,3,4) act
    by (auto simp: sched_service_create_task_def runtime_stab_create_exec_task_def runtime_task_new_def
        result_simps map_option_case split: if_splits option.splits)
  have "rt_pipes t = replicate (runtime_pdt_get_size (sv_pdt sv)) None \<and> rt_servlet t = ?sid
      \<and> \<not> pool_mutex p' \<and> (sv_async sv \<longrightarrow> async_owner t \<and> async_handle t = None)"
    using t e ne assms(2)
    by (auto simp: task_new_def Let_def result_simps ensure_task_pool_def ensure_async_pool_def pool_lock_def
        pool_unlock_def new_task_def split: if_splits)
  then show ?thesis using task act async_setup_flags [of ?f] by (simp add: runtime_task_is_async_def)
qed

definition free_pools :: task_pools where
  "free_pools = \<lparr>task_pool = (\<lambda>_. False), async_pool = (\<lambda>_. False), pool_mutex = False\<rparr>"

definition plain_def :: servlet_def where
  "plain_def = \<lparr>async_buf_size = 0, def_init = None, def_exec = Some 0, def_unload = None,
     def_async_setup = None, def_async_exec = None, def_async_cleanup = None\<rparr>"

theorem create_task_shape_witness:
  "\<exists>task p'. sched_service_create_task plenty 7 (\<lambda>_. plain_def) sample_stab sample_chain 0 free_pools
      = Ok (Some task, p') \<and> rt_pipes task = [None, None, None]"
proof -
  have n: "svc_node sample_chain 0 = Ok (blank_node 0 3 [] [edge 0 1 1 0])"
    by (simp add: svc_node_def sample_chain_def ERROR_NODE_ID_def)
  have np: "runtime_pdt_get_size (sv_pdt source_servlet) = 3" by (simp add: sample_servlet_eval ERROR_PIPE_ID_def)
  obtain task p' where c: "sched_service_create_task plenty 7 (\<lambda>_. plain_def) sample_stab sample_chain 0 free_pools
      = Ok (Some task, p')"
    by (simp add: sched_service_create_task_def n runtime_stab_create_exec_task_def sample_servlets
        runtime_task_new_def flag_invoked_def get_action_def blank_node_def task_new_def task_flag_defs Let_def
        ensure_task_pool_def pool_lock_def free_pools_def source_servlet_def mk_servlet_def)
  have "\<not> pool_mutex free_pools" by (simp add: free_pools_def)
  with create_task_shape [OF c _ n] c np show ?thesis
    by (simp add: sample_servlets numeral_3_eq_3)
qed

text \<open>C34: the three tasks of an asynchronous activation share their resources safely. After the
  companions are created, disposing of setup, execution and cleanup task gives back every
  pipe, the buffer and the handle exactly once, in whatever order they are disposed of, and the
  companions have not been started.\<close>

theorem async_resources_freed_once:
  assumes "runtime_task_async_companions has_pool mem task = Ok (exec, cleanup, first)"
  shows "freed_pipes (task_disposal_of cleanup) = [h. Some h \<leftarrow> rt_pipes task]
    \<and> freed_pipes (task_disposal_of exec) = [] \<and> freed_pipes (task_disposal_of first) = []
    \<and> freed_data (task_disposal_of cleanup) = async_data task
    \<and> freed_data (task_disposal_of exec) = None \<and> freed_data (task_disposal_of first) = None
    \<and> freed_handle (task_disposal_of cleanup) = async_handle task
    \<and> freed_handle (task_disposal_of exec) = None \<and> freed_handle (task_disposal_of first) = None
    \<and> \<not> flag_invoked (rt_flags exec) \<and> \<not> flag_invoked (rt_flags cleanup)
    \<and> get_action (rt_flags exec) = RUNTIME_TASK_FLAG_ACTION_EXEC
    \<and> get_action (rt_flags cleanup) = RUNTIME_TASK_FLAG_ACTION_UNLOAD"
proof -
  let ?g = "\<lambda>act. (rt_flags task AND NOT RUNTIME_TASK_FLAG_ACTION_INVOKED) AND NOT RUNTIME_TASK_FLAG_ACTION_MASK OR act"
  have r: "exec = task\<lparr>rt_flags := ?g RUNTIME_TASK_FLAG_ACTION_EXEC, rt_pipes := [], async_owner := False\<rparr>"
    "cleanup = task\<lparr>rt_flags := ?g RUNTIME_TASK_FLAG_ACTION_UNLOAD, async_owner := True\<rparr>"
    "first = task\<lparr>async_owner := False\<rparr>" and a: "flag_async (rt_flags task)"
    using assms by (auto simp: runtime_task_async_companions_def Let_def runtime_task_is_async_def ac_simps
        split: if_splits)
  note f = action_flags [of RUNTIME_TASK_FLAG_ACTION_EXEC "rt_flags task AND NOT RUNTIME_TASK_FLAG_ACTION_INVOKED"]
    action_flags [of RUNTIME_TASK_FLAG_ACTION_UNLOAD "rt_flags task AND NOT RUNTIME_TASK_FLAG_ACTION_INVOKED"]
  show ?thesis
    using f a not_invoked_flags [of "rt_flags task"]
    by (simp add: r task_disposal_of_def owns_pipes_def owns_async_def)
qed

definition setup_task :: runtime_task where
  "setup_task = \<lparr>rt_flags = RUNTIME_TASK_FLAG_ACTION_ASYNC, rt_servlet = 0, async_owner = True,
     async_handle = Some 5, async_data = Some 6, rt_pipes = [None, Some 8]\<rparr>"

theorem async_resources_freed_once_witness:
  "\<exists>exec cleanup first. runtime_task_async_companions True plenty setup_task = Ok (exec, cleanup, first)
     \<and> freed_pipes (task_disposal_of cleanup) = [8]"
proof -
  obtain exec cleanup first where
    c: "runtime_task_async_companions True plenty setup_task = Ok (exec, cleanup, first)"
    by (simp add: runtime_task_async_companions_def setup_task_def get_action_def runtime_task_is_async_def
        flag_async_def task_flag_defs Let_def)
  with async_resources_freed_once [OF c] show ?thesis by (simp add: setup_task_def)
qed

text \<open>A task is started at most once. The start calls the callback that its flags select and
  returns its status, 0 when the servlet does not define it; a second start is refused.\<close>

theorem task_starts_once:
  assumes "runtime_task_start def (Some task) = Ok (rc, task')"
  shows "runtime_task_start def (Some task') = Error \<and> \<not> flag_invoked (rt_flags task)
    \<and> callback_of def (rt_flags task') = callback_of def (rt_flags task)
    \<and> (callback_of def (rt_flags task) = Some None \<longrightarrow> rc = 0)
    \<and> (\<forall>r. callback_of def (rt_flags task) = Some (Some r) \<longrightarrow> rc = r)"
proof -
  have c: "callback_of def (rt_flags task OR RUNTIME_TASK_FLAG_ACTION_INVOKED) = callback_of def (rt_flags task)"
    by (simp add: callback_of_def invoked_flags)
  show ?thesis using assms c invoked_flags(1) [of "rt_flags task"]
    by (auto simp: runtime_task_start_def Let_def split: if_splits)
qed

theorem task_starts_once_witness:
  "\<exists>rc task'. runtime_task_start plain_def (Some setup_task) = Ok (rc, task')
     \<and> runtime_task_start plain_def (Some task') = Error"
proof -
  obtain rc task' where s: "runtime_task_start plain_def (Some setup_task) = Ok (rc, task')"
    by (simp add: runtime_task_start_def setup_task_def flag_invoked_def task_flag_defs Let_def)
  with task_starts_once [OF s] show ?thesis by blast
qed

text \<open>when the pool of a servlet cannot be created, the mutex stays locked: the call fails, and
  the next task of any servlet whose pool does not exist yet locks the mutex a second time.\<close>

theorem failed_pool_keeps_mutex:
  assumes "\<not> pool_mutex p" and "\<not> task_pool p sid" and "\<not> task_pool p sid'" and "\<not> mem 0"
  shows "\<exists>p'. task_new mem buf def sid sv RUNTIME_TASK_FLAG_ACTION_EXEC p = Ok (None, p')
    \<and> task_new mem' buf' def' sid' sv' RUNTIME_TASK_FLAG_ACTION_EXEC p' = Undef"
  using assms
  by (simp add: task_new_def Let_def ensure_task_pool_def pool_lock_def task_flag_defs)

theorem failed_pool_keeps_mutex_witness:
  "\<exists>p'. task_new (\<lambda>_. False) 0 plain_def 0 source_servlet RUNTIME_TASK_FLAG_ACTION_EXEC free_pools = Ok (None, p')
    \<and> task_new plenty 0 plain_def 1 join_servlet RUNTIME_TASK_FLAG_ACTION_EXEC p' = Undef"
  by (rule failed_pool_keeps_mutex) (simp_all add: free_pools_def)

end
