(* ===== verification/SchedTask.thy ===== *)
theory SchedTask
  imports Linked RuntimeTask Cnode
begin

unbundle bit_operations_syntax

text \<open>
  The scheduler task table, \<^verbatim>\<open>src/sched/task.c\<close>. The entries live in a store and are linked
  into one of four kinds of list: a slot of the task table while inputs are awaited, the ready
  queue, the list of pending async tasks and the queue of completed async tasks. The pointer
  manipulations are those of the code; an access through a pointer to a disposed entry is
  undefined.
\<close>

subsection \<open>Data\<close>

definition SCHED_TASK_TABLE_SLOT_SIZE :: nat where "SCHED_TASK_TABLE_SLOT_SIZE = 37813"

type_synonym task_ref = nat
type_synonym request_id = "64 word"

definition ERROR_REQUEST :: request_id where "ERROR_REQUEST = -1"

record task_entry =
  te_service :: nat
  te_scope :: nat
  te_node :: node_id
  te_request :: request_id
  te_exec :: "runtime_task option"
  num_required_inputs :: "32 word"
  num_cancelled_inputs :: "32 word"
  num_awaiting_inputs :: "32 word"
  te_prev :: "task_ref option"
  te_next :: "task_ref option"

record request_entry =
  rq_id :: request_id
  num_pending_tasks :: "32 word"
  rq_scope :: nat

text \<open>
  The context, with the store of entries, the owner field of the pipe handles and the thread's
  request counter. The request table chains its entries by a link that nothing else uses, so a
  slot is a list.
\<close>

record task_ctx =
  task_table :: "nat \<Rightarrow> task_ref option"
  request_table :: "nat \<Rightarrow> request_entry list"
  queue_head :: "task_ref option"
  queue_tail :: "task_ref option"
  async_pending :: "task_ref option"
  async_completed_head :: "task_ref option"
  async_completed_tail :: "task_ref option"
  queue_size :: "32 word"
  num_reqs :: "32 word"
  tasks :: "task_entry store"
  pipe_owner :: "nat \<Rightarrow> task_ref option"
  next_request :: request_id

text \<open>
  What the table calls: the service at an address, the creation of the runtime task of a node
  (\<open>sched_service_create_task\<close>), the address the object pool hands out for an entry, the scope
  that \<^verbatim>\<open>sched_rscope_new\<close> creates for a request (nothing when it or the request entry cannot be
  allocated), the state of a pipe handle in the ITC layer, whether the disposal of a runtime
  task succeeds, and the answer of the async processor with the runtime task it leaves behind.
  Giving a valid object back to its pool succeeds.
\<close>

record task_env =
  env_service :: "nat \<Rightarrow> service option"
  env_create :: "nat \<Rightarrow> node_id \<Rightarrow> runtime_task option"
  env_alloc :: "task_entry store \<Rightarrow> task_ref option"
  env_scope :: "nat option"
  env_cancelled :: "nat \<Rightarrow> bool option"
  env_shadow :: "nat \<Rightarrow> bool option"
  env_input :: "nat \<Rightarrow> bool option"
  env_free_ok :: "runtime_task \<Rightarrow> bool"
  env_post :: "task_ref \<Rightarrow> runtime_task \<Rightarrow> int \<times> runtime_task option"

definition service_at :: "task_env \<Rightarrow> nat \<Rightarrow> service result" where
  "service_at env s = (case env_service env s of None \<Rightarrow> Undef | Some svc \<Rightarrow> Ok svc)"

text \<open>
  Most operations return a status beside the state they leave behind, also when they fail half
  way: \<open>succ\<close> and \<open>fail\<close>, and \<open>seq_ok\<close> for going on after a success.
\<close>

type_synonym 's status = "(bool \<times> 's) result"

definition succ :: "'s \<Rightarrow> 's status" where "succ s = Ok (True, s)"
definition fail :: "'s \<Rightarrow> 's status" where "fail s = Ok (False, s)"

definition seq_ok :: "'s status \<Rightarrow> ('s \<Rightarrow> 's status) \<Rightarrow> 's status" where
  "seq_ok r f = rbind r (\<lambda>(ok, s). if ok then f s else Ok (False, s))"

definition or_fail :: "'a result \<Rightarrow> 's \<Rightarrow> ('a \<Rightarrow> 's status) \<Rightarrow> 's status" where
  "or_fail r s f = (case r of Ok v \<Rightarrow> f v | Error \<Rightarrow> fail s | Undef \<Rightarrow> Undef)"

subsection \<open>Queues\<close>

abbreviation set_next :: "task_ref option \<Rightarrow> task_entry \<Rightarrow> task_entry" where
  "set_next p e \<equiv> e\<lparr>te_next := p\<rparr>"

abbreviation set_prev :: "task_ref option \<Rightarrow> task_entry \<Rightarrow> task_entry" where
  "set_prev p e \<equiv> e\<lparr>te_prev := p\<rparr>"

definition async_comp_enqueue :: "task_ctx \<Rightarrow> task_ref \<Rightarrow> task_ctx result" where
  "async_comp_enqueue ctx task =
     rbind (modify_opt (tasks ctx) (async_completed_tail ctx) (set_next (Some task))) (\<lambda>h1.
     rmap (\<lambda>h2. ctx\<lparr>async_completed_head :=
                    (if async_completed_tail ctx = None then Some task else async_completed_head ctx),
                  async_completed_tail := Some task, tasks := h2\<rparr>)
       (modify h1 task (set_next None)))"

definition async_comp_dequeue :: "task_ctx \<Rightarrow> (task_ref option \<times> task_ctx) result" where
  "async_comp_dequeue ctx =
     (case async_completed_head ctx of
        None \<Rightarrow> Ok (None, ctx)
      | Some ret \<Rightarrow>
          rmap (\<lambda>e. (Some ret, ctx\<lparr>async_completed_head := te_next e,
                       async_completed_tail := (if te_next e = None then None else async_completed_tail ctx)\<rparr>))
            (deref (tasks ctx) ret))"

definition async_pending_add :: "task_ctx \<Rightarrow> task_ref \<Rightarrow> task_ctx result" where
  "async_pending_add ctx task =
     rbind (modify (tasks ctx) task (set_prev None)) (\<lambda>h1.
     rmap (\<lambda>h2. ctx\<lparr>async_pending := Some task, tasks := h2\<rparr>)
       (link_push set_next set_prev h1 (async_pending ctx) task))"

definition async_pending_remove :: "task_ctx \<Rightarrow> task_ref \<Rightarrow> task_ctx result" where
  "async_pending_remove ctx task =
     rmap (\<lambda>(p, h). ctx\<lparr>async_pending := p, tasks := h\<rparr>)
       (link_remove te_next te_prev set_next set_prev (tasks ctx) (async_pending ctx) task)"

definition enqueue :: "task_ctx \<Rightarrow> task_ref \<Rightarrow> task_ctx result" where
  "enqueue ctx task =
     rmap (\<lambda>h. ctx\<lparr>queue_head := (if queue_tail ctx = None then Some task else queue_head ctx),
                   queue_tail := Some task, queue_size := queue_size ctx + 1, tasks := h\<rparr>)
       (modify_opt (tasks ctx) (queue_tail ctx) (set_next (Some task)))"

definition dequeue :: "task_ctx \<Rightarrow> (task_ref option \<times> task_ctx) result" where
  "dequeue ctx =
     (if queue_size ctx = 0 then Ok (None, ctx)
      else case queue_head ctx of
        None \<Rightarrow> Undef
      | Some ret \<Rightarrow>
          rmap (\<lambda>e. (Some ret, ctx\<lparr>queue_head := te_next e,
                       queue_tail := (if te_next e = None then None else queue_tail ctx),
                       queue_size := queue_size ctx - 1\<rparr>))
            (deref (tasks ctx) ret))"

subsection \<open>The request table\<close>

definition request_slot :: "request_id \<Rightarrow> nat" where
  "request_slot request = unat request mod SCHED_TASK_TABLE_SLOT_SIZE"

definition request_entry_new :: "nat option \<Rightarrow> request_id \<Rightarrow> request_entry result" where
  "request_entry_new scope request =
     (case scope of None \<Rightarrow> Error
      | Some s \<Rightarrow> Ok \<lparr>rq_id = request, num_pending_tasks = 0, rq_scope = s\<rparr>)"

definition request_entry_find :: "task_ctx \<Rightarrow> request_id \<Rightarrow> request_entry option" where
  "request_entry_find ctx request =
     List.find (\<lambda>e. rq_id e = request) (request_table ctx (request_slot request))"

definition request_entry_insert :: "task_env \<Rightarrow> task_ctx \<Rightarrow> request_id \<Rightarrow> task_ctx result" where
  "request_entry_insert env ctx request =
     rmap (\<lambda>e. ctx\<lparr>num_reqs := num_reqs ctx + 1,
                   request_table := (request_table ctx)
                     (request_slot request := e # request_table ctx (request_slot request))\<rparr>)
       (request_entry_new (env_scope env) request)"

text \<open>The first entry with the identifier is taken out; the number of deleted entries is returned.\<close>

fun drop_request :: "request_id \<Rightarrow> request_entry list \<Rightarrow> request_entry list option" where
  "drop_request request [] = None"
| "drop_request request (e # es) =
     (if rq_id e = request then Some es else map_option ((#) e) (drop_request request es))"

definition request_entry_delete :: "task_ctx \<Rightarrow> request_id \<Rightarrow> nat \<times> task_ctx" where
  "request_entry_delete ctx request =
     (case drop_request request (request_table ctx (request_slot request)) of
        None \<Rightarrow> (0, ctx)
      | Some es \<Rightarrow> (1, ctx\<lparr>request_table := (request_table ctx)(request_slot request := es),
                          num_reqs := num_reqs ctx - 1\<rparr>))"

text \<open>The counter of an entry that was found, changed in place.\<close>

fun map_request :: "request_id \<Rightarrow> (request_entry \<Rightarrow> request_entry) \<Rightarrow> request_entry list \<Rightarrow> request_entry list" where
  "map_request request f [] = []"
| "map_request request f (e # es) = (if rq_id e = request then f e # es else e # map_request request f es)"

definition request_update :: "task_ctx \<Rightarrow> request_id \<Rightarrow> (request_entry \<Rightarrow> request_entry) \<Rightarrow> task_ctx" where
  "request_update ctx request f = ctx\<lparr>request_table := (request_table ctx)
     (request_slot request := map_request request f (request_table ctx (request_slot request)))\<rparr>"

subsection \<open>The task table\<close>

definition task_hash :: "nat \<Rightarrow> request_id \<Rightarrow> node_id \<Rightarrow> nat" where
  "task_hash service request_id node_id =
     (let service_id = of_nat service :: 64 word;
          h = service_id + push_bit 32 service_id + push_bit 16 request_id + of_nat node_id
      in unat h mod SCHED_TASK_TABLE_SLOT_SIZE)"

text \<open>Allocates an entry for a node; the awaiting counter starts at the number of incoming pipes.\<close>

definition task_entry_new ::
  "task_env \<Rightarrow> task_ctx \<Rightarrow> nat \<Rightarrow> request_id \<Rightarrow> node_id \<Rightarrow> (task_ref \<times> task_ctx) result" where
  "task_entry_new env ctx service request node =
     (case request_entry_find ctx request of
        None \<Rightarrow> Error
      | Some req \<Rightarrow>
          (case env_alloc env (tasks ctx) of
             None \<Rightarrow> Error
           | Some r \<Rightarrow>
               rbind (service_at env service) (\<lambda>svc.
               rmap (\<lambda>inc.
                   let n = of_nat (length inc);
                       e = \<lparr>te_service = service, te_scope = rq_scope req, te_node = node, te_request = request,
                            te_exec = None, num_required_inputs = n, num_cancelled_inputs = 0,
                            num_awaiting_inputs = n, te_prev = None, te_next = None\<rparr>
                   in (r, request_update (ctx\<lparr>tasks := (tasks ctx)(r := Some e)\<rparr>) request
                            (\<lambda>q. q\<lparr>num_pending_tasks := num_pending_tasks q + 1\<rparr>)))
                 (sched_service_get_incoming_pipes svc node))))"

definition task_key :: "task_entry \<Rightarrow> nat \<times> request_id \<times> node_id" where
  "task_key e = (te_service e, te_request e, te_node e)"

text \<open>The walk along a slot. A walk that does not end is undefined, too.\<close>

partial_function (option) find_from ::
  "task_entry store \<Rightarrow> nat \<times> request_id \<times> node_id \<Rightarrow> task_ref option \<Rightarrow> task_ref option result option" where
  "find_from h key p =
     (case p of None \<Rightarrow> Some (Ok None)
      | Some r \<Rightarrow> (case h r of
            None \<Rightarrow> Some Undef
          | Some e \<Rightarrow> if task_key e \<noteq> key then find_from h key (te_next e) else Some (Ok (Some r))))"

definition task_table_find :: "task_ctx \<Rightarrow> nat \<Rightarrow> request_id \<Rightarrow> node_id \<Rightarrow> task_ref option result" where
  "task_table_find ctx service request node =
     (case find_from (tasks ctx) (service, request, node) (task_table ctx (task_hash service request node)) of
        None \<Rightarrow> Undef | Some r \<Rightarrow> r)"

definition task_table_insert ::
  "task_env \<Rightarrow> task_ctx \<Rightarrow> nat \<Rightarrow> request_id \<Rightarrow> node_id \<Rightarrow> (task_ref \<times> task_ctx) result" where
  "task_table_insert env ctx service request node =
     rbind (task_entry_new env ctx service request node) (\<lambda>(ret, ctx1).
     let s = task_hash service request node
     in rmap (\<lambda>h. (ret, ctx1\<lparr>task_table := (task_table ctx1)(s := Some ret), tasks := h\<rparr>))
          (link_push set_next set_prev (tasks ctx1) (task_table ctx1 s) ret))"

definition task_table_delete :: "task_ctx \<Rightarrow> task_ref \<Rightarrow> task_ctx result" where
  "task_table_delete ctx task =
     rbind (deref (tasks ctx) task) (\<lambda>e.
     let s = task_hash (te_service e) (te_request e) (te_node e)
     in rbind (link_remove te_next te_prev set_next set_prev (tasks ctx) (task_table ctx s) task) (\<lambda>(p, h).
        rmap (\<lambda>h2. ctx\<lparr>task_table := (task_table ctx)(s := p), tasks := h2\<rparr>)
          (modify h task (\<lambda>e. set_prev None (set_next None e)))))"

definition sched_task_context_new :: "alloc \<Rightarrow> task_ctx result" where
  "sched_task_context_new mem =
     (if \<not> mem 0 then Undef
      else if \<not> mem 1 then Error
      else if \<not> mem 2 then Error
      else Ok \<lparr>task_table = (\<lambda>_. None), request_table = (\<lambda>_. []), queue_head = None, queue_tail = None,
               async_pending = None, async_completed_head = None, async_completed_tail = None,
               queue_size = 0, num_reqs = 0, tasks = (\<lambda>_. None), pipe_owner = (\<lambda>_. None), next_request = 0\<rparr>)"

subsection \<open>Pipes and readiness\<close>

definition task_instantiate :: "task_env \<Rightarrow> task_ctx \<Rightarrow> task_ref \<Rightarrow> task_ctx result" where
  "task_instantiate env ctx task =
     rbind (deref (tasks ctx) task) (\<lambda>e.
     if te_exec e \<noteq> None then Ok ctx
     else case env_create env (te_service e) (te_node e) of
            None \<Rightarrow> Error
          | Some t \<Rightarrow> Ok (ctx\<lparr>tasks := (tasks ctx)(task := Some (e\<lparr>te_exec := Some t\<rparr>))\<rparr>))"

text \<open>Sets a pipe slot of the runtime task of an entry; the slot must exist.\<close>

definition assign_pipe :: "task_ctx \<Rightarrow> task_ref \<Rightarrow> pipe_id \<Rightarrow> nat \<Rightarrow> task_ctx result" where
  "assign_pipe ctx task pipe handle =
     rbind (deref (tasks ctx) task) (\<lambda>e.
     case te_exec e of None \<Rightarrow> Undef
     | Some t \<Rightarrow> if pipe < length (rt_pipes t)
         then Ok (ctx\<lparr>tasks := (tasks ctx)
                (task := Some (e\<lparr>te_exec := Some (t\<lparr>rt_pipes := (rt_pipes t)[pipe := Some handle]\<rparr>)\<rparr>))\<rparr>)
         else Undef)"

definition task_add_pipe ::
  "task_env \<Rightarrow> task_ctx \<Rightarrow> task_ref option \<Rightarrow> pipe_id \<Rightarrow> nat \<Rightarrow> bool \<Rightarrow> task_ctx status" where
  "task_add_pipe env ctx task pipe handle claim =
     (case task of None \<Rightarrow> fail ctx
      | Some r \<Rightarrow>
          if pipe = ERROR_PIPE_ID then fail ctx
          else or_fail (task_instantiate env ctx r) ctx (\<lambda>ctx1.
               rbind (deref (tasks ctx1) r) (\<lambda>e.
               case te_exec e of None \<Rightarrow> Undef
               | Some t \<Rightarrow>
                   if pipe \<ge> length (rt_pipes t) then fail ctx1
                   else if rt_pipes t ! pipe \<noteq> None then fail ctx1
                   else rbind (assign_pipe ctx1 r pipe handle) (\<lambda>ctx2.
                        succ (if claim then ctx2\<lparr>pipe_owner := (pipe_owner ctx2)(handle := Some r)\<rparr> else ctx2)))))"

definition sched_task_pipe_ready :: "task_ctx \<Rightarrow> task_ref option \<Rightarrow> task_ctx result" where
  "sched_task_pipe_ready ctx task =
     (case task of None \<Rightarrow> Ok ctx
      | Some r \<Rightarrow>
          rbind (deref (tasks ctx) r) (\<lambda>e.
          let e1 = e\<lparr>num_awaiting_inputs := num_awaiting_inputs e - 1\<rparr>;
              ctx1 = ctx\<lparr>tasks := (tasks ctx)(r := Some e1)\<rparr>
          in if num_awaiting_inputs e1 = 0
             then rbind (task_table_delete ctx1 r) (\<lambda>ctx2. enqueue ctx2 r)
             else Ok ctx1))"

definition sched_task_input_cancelled :: "task_ctx \<Rightarrow> task_ref option \<Rightarrow> task_ctx result" where
  "sched_task_input_cancelled ctx task =
     (case task of None \<Rightarrow> Error
      | Some r \<Rightarrow> rmap (\<lambda>h. ctx\<lparr>tasks := h\<rparr>)
          (modify (tasks ctx) r (\<lambda>e. e\<lparr>num_cancelled_inputs := num_cancelled_inputs e + 1\<rparr>)))"

text \<open>
  \<^verbatim>\<open>sched_task_new_request\<close>. On an error the request entry is deleted again and the number stays
  the same; what was inserted into the task table stays there.
\<close>

definition new_request_tasks ::
  "task_env \<Rightarrow> task_ctx \<Rightarrow> nat \<Rightarrow> service \<Rightarrow> nat \<Rightarrow> nat \<Rightarrow> task_ctx status" where
  "new_request_tasks env ctx service svc input_pipe output_pipe =
     or_fail (task_table_insert env ctx service (next_request ctx) (svc_input_node svc)) ctx
       (\<lambda>(in_task, ctx1).
     or_fail (if svc_input_node svc = svc_output_node svc then Ok (in_task, ctx1)
              else task_table_insert env ctx1 service (next_request ctx) (svc_output_node svc)) ctx1
       (\<lambda>(out_task, ctx2).
     rbind (deref (tasks ctx2) in_task) (\<lambda>e.
     if num_awaiting_inputs e \<noteq> 0 then fail ctx2
     else or_fail (task_instantiate env ctx2 in_task) ctx2 (\<lambda>ctx3.
          or_fail (task_instantiate env ctx3 out_task) ctx3 (\<lambda>ctx4.
          rbind (assign_pipe ctx4 in_task (svc_input_pipe svc) input_pipe) (\<lambda>ctx5.
          rbind (assign_pipe ctx5 out_task (svc_output_pipe svc) output_pipe) (\<lambda>ctx6.
          let ctx7 = ctx6\<lparr>pipe_owner := (pipe_owner ctx6)(input_pipe := Some in_task,
                                                             output_pipe := Some out_task)\<rparr>
          in rbind (task_table_delete ctx7 in_task) (\<lambda>ctx8.
             rbind (enqueue ctx8 in_task) succ))))))))"

definition sched_task_new_request ::
  "task_env \<Rightarrow> task_ctx \<Rightarrow> nat \<Rightarrow> nat \<Rightarrow> nat \<Rightarrow> (request_id option \<times> task_ctx) result" where
  "sched_task_new_request env ctx service input_pipe output_pipe =
     (let ret = next_request ctx
      in case request_entry_insert env ctx ret of
           Undef \<Rightarrow> Undef | Error \<Rightarrow> Ok (None, ctx)
         | Ok ctx1 \<Rightarrow>
             rbind (service_at env service) (\<lambda>svc.
             rmap (\<lambda>(ok, ctx2).
                 if ok then (Some ret, ctx2\<lparr>next_request := ret + 1\<rparr>)
                 else (None, snd (request_entry_delete ctx2 ret)))
               (new_request_tasks env ctx1 service svc input_pipe output_pipe)))"

definition input_ready :: "task_env \<Rightarrow> task_ctx \<Rightarrow> task_ref \<Rightarrow> nat option \<Rightarrow> task_ctx status" where
  "input_ready env ctx entry handle =
     rbind (sched_task_pipe_ready ctx (Some entry)) (\<lambda>ctx1.
     case Option.bind handle (env_cancelled env) of
       None \<Rightarrow> fail ctx1
     | Some False \<Rightarrow> succ ctx1
     | Some True \<Rightarrow> or_fail (sched_task_input_cancelled ctx1 (Some entry)) ctx1 succ)"

text \<open>The handle the entry has at a pipe, as \<^verbatim>\<open>task->task.exec_task->pipes[pipe]\<close> reads it.\<close>

definition pipe_at :: "task_ctx \<Rightarrow> task_ref \<Rightarrow> pipe_id \<Rightarrow> nat option result" where
  "pipe_at ctx r pipe =
     rbind (deref (tasks ctx) r) (\<lambda>e.
     case te_exec e of None \<Rightarrow> Undef | Some t \<Rightarrow> list_get (rt_pipes t) pipe)"

text \<open>The entry of a node, which is created when the table does not have it.\<close>

definition task_table_obtain ::
  "task_env \<Rightarrow> task_ctx \<Rightarrow> nat \<Rightarrow> request_id \<Rightarrow> node_id \<Rightarrow> (task_ref \<times> task_ctx) result" where
  "task_table_obtain env ctx service request node =
     rbind (task_table_find ctx service request node) (\<lambda>found.
     case found of Some r \<Rightarrow> Ok (r, ctx) | None \<Rightarrow> task_table_insert env ctx service request node)"

definition sched_task_input_pipe ::
  "task_env \<Rightarrow> task_ctx \<Rightarrow> nat \<Rightarrow> request_id \<Rightarrow> node_id \<Rightarrow> pipe_id \<Rightarrow> nat option \<Rightarrow> bool \<Rightarrow> task_ctx status" where
  "sched_task_input_pipe env ctx service request node pipe handle is_async =
     (case task_table_obtain env ctx service request node of
       Undef \<Rightarrow> Undef
     | Error \<Rightarrow> (if handle = None then Undef else fail ctx)
     | Ok (r, ctx1) \<Rightarrow>
         seq_ok (case handle of None \<Rightarrow> succ ctx1 | Some f \<Rightarrow> task_add_pipe env ctx1 (Some r) pipe f True) (\<lambda>ctx2.
         if \<not> is_async \<or> handle = None
         then rbind (if handle = None then pipe_at ctx2 r pipe else Ok handle) (input_ready env ctx2 r)
         else succ ctx2))"

definition sched_task_async_completed :: "task_ctx \<Rightarrow> task_ref option \<Rightarrow> task_ctx result" where
  "sched_task_async_completed ctx task =
     (case task of None \<Rightarrow> Error
      | Some r \<Rightarrow> rbind (async_pending_remove ctx r) (\<lambda>ctx1. async_comp_enqueue ctx1 r))"

definition sched_task_output_pipe ::
  "task_env \<Rightarrow> task_ctx \<Rightarrow> task_ref option \<Rightarrow> pipe_id \<Rightarrow> nat option \<Rightarrow> task_ctx status" where
  "sched_task_output_pipe env ctx task pipe handle =
     (case handle of None \<Rightarrow> fail ctx
      | Some f \<Rightarrow> if task = None \<or> pipe = ERROR_PIPE_ID then fail ctx else task_add_pipe env ctx task pipe f True)"

definition sched_task_output_shadow ::
  "task_env \<Rightarrow> task_ctx \<Rightarrow> task_ref option \<Rightarrow> pipe_id \<Rightarrow> nat option \<Rightarrow> task_ctx status" where
  "sched_task_output_shadow env ctx task pipe handle =
     (case handle of None \<Rightarrow> fail ctx
      | Some f \<Rightarrow>
          if task = None \<or> pipe = ERROR_PIPE_ID then fail ctx
          else if env_shadow env f \<noteq> Some True then fail ctx
          else if env_input env f \<noteq> Some True then fail ctx
          else task_add_pipe env ctx task pipe f False)"

subsection \<open>Disposal, cancellation and the next task\<close>

definition sched_task_free :: "task_env \<Rightarrow> task_ctx \<Rightarrow> task_ref \<Rightarrow> task_ctx status" where
  "sched_task_free env ctx task =
     rbind (deref (tasks ctx) task) (\<lambda>e.
     let req = request_entry_find ctx (te_request e);
         rc = (case te_exec e of None \<Rightarrow> req \<noteq> None | Some t \<Rightarrow> env_free_ok env t);
         ctx1 = ctx\<lparr>tasks := (tasks ctx)(task := None)\<rparr>
     in case req of
          None \<Rightarrow> Ok (rc, ctx1)
        | Some q \<Rightarrow>
            let ctx2 = request_update ctx1 (te_request e) (\<lambda>q. q\<lparr>num_pending_tasks := num_pending_tasks q - 1\<rparr>)
            in Ok (rc, if num_pending_tasks q - 1 = 0 then snd (request_entry_delete ctx2 (te_request e)) else ctx2))"

definition pipe_cancel ::
  "task_env \<Rightarrow> nat \<Rightarrow> request_id \<Rightarrow> node_id \<times> pipe_id \<Rightarrow> task_ctx \<Rightarrow> task_ctx status" where
  "pipe_cancel env service request dest ctx =
     or_fail (task_table_obtain env ctx service request (fst dest)) ctx (\<lambda>(r, ctx1).
     rbind (modify (tasks ctx1) r (\<lambda>e. e\<lparr>num_cancelled_inputs := num_cancelled_inputs e + 1\<rparr>)) (\<lambda>h.
     let ctx2 = ctx1\<lparr>tasks := h\<rparr>
     in rbind (deref h r) (\<lambda>e.
        rbind (case te_exec e of None \<Rightarrow> Ok None | Some t \<Rightarrow> list_get (rt_pipes t) (snd dest)) (\<lambda>assigned.
        if assigned = None then rbind (sched_task_pipe_ready ctx2 (Some r)) succ else succ ctx2))))"

fun cancel_pipes ::
  "task_env \<Rightarrow> nat \<Rightarrow> request_id \<Rightarrow> (node_id \<times> pipe_id) list \<Rightarrow> task_ctx \<Rightarrow> task_ctx status" where
  "cancel_pipes env service request [] ctx = succ ctx"
| "cancel_pipes env service request (d # ds) ctx =
     seq_ok (pipe_cancel env service request d ctx) (cancel_pipes env service request ds)"

text \<open>
  The branch of \<^verbatim>\<open>sched_task_next_ready_task\<close> for a task whose inputs are all cancelled: the
  downstream pipes are cancelled, for a critical node the boundary of its cluster and, when the
  output node lies in the cluster, the waiting output task; then the task is disposed of.
\<close>

definition cancel_output :: "task_env \<Rightarrow> service \<Rightarrow> task_entry \<Rightarrow> task_ctx \<Rightarrow> task_ctx status" where
  "cancel_output env svc e ctx =
     (let out = sched_service_get_output_node svc
      in if out = ERROR_NODE_ID then fail ctx
         else rbind (task_table_find ctx (te_service e) (te_request e) out) (\<lambda>found.
              case found of None \<Rightarrow> fail ctx
              | Some out_task \<Rightarrow> rbind (task_table_delete ctx out_task) (\<lambda>ctx1. sched_task_free env ctx1 out_task)))"

definition cancel_task :: "task_env \<Rightarrow> task_ref \<Rightarrow> task_ctx \<Rightarrow> task_ctx status" where
  "cancel_task env task ctx =
     rbind (deref (tasks ctx) task) (\<lambda>e.
     rbind (service_at env (te_service e)) (\<lambda>svc.
     case sched_service_get_cnode_info svc of
       None \<Rightarrow> fail ctx
     | Some info \<Rightarrow>
         rbind (list_get info (te_node e)) (\<lambda>bd.
         seq_ok (case bd of
             None \<Rightarrow> or_fail (sched_service_get_outgoing_pipes svc (te_node e)) ctx (\<lambda>pds.
                       cancel_pipes env (te_service e) (te_request e)
                         (map (\<lambda>d. (destination_node_id d, destination_pipe_desc d)) pds) ctx)
           | Some b \<Rightarrow> seq_ok (cancel_pipes env (te_service e) (te_request e) (bd_dest b) ctx) (\<lambda>ctx1.
                       if output_cancelled b then cancel_output env svc e ctx1 else succ ctx1))
           (\<lambda>ctx2. sched_task_free env ctx2 task))))"

definition pick_next :: "task_ctx \<Rightarrow> (task_ref option \<times> task_ctx) result" where
  "pick_next ctx =
     rbind (async_comp_dequeue ctx) (\<lambda>(p, ctx1). if p \<noteq> None then Ok (p, ctx1) else dequeue ctx1)"

definition is_cancelled :: "task_entry \<Rightarrow> bool" where
  "is_cancelled e \<longleftrightarrow> num_required_inputs e > 0 \<and> num_cancelled_inputs e = num_required_inputs e"

text \<open>The loop: \<open>None\<close> stands for a run that does not end.\<close>

partial_function (option) next_ready_task ::
  "task_env \<Rightarrow> task_ctx \<Rightarrow> (task_ref option \<times> task_ctx) result option" where
  "next_ready_task env ctx =
     (case pick_next ctx of
        Undef \<Rightarrow> Some Undef | Error \<Rightarrow> Some Error
      | Ok (p, ctx1) \<Rightarrow>
         (case p of None \<Rightarrow> Some (Ok (None, ctx1))
          | Some r \<Rightarrow>
             (case deref (tasks ctx1) r of
                Undef \<Rightarrow> Some Undef | Error \<Rightarrow> Some Error
              | Ok e \<Rightarrow>
                 if is_cancelled e
                 then (case cancel_task env r ctx1 of
                         Undef \<Rightarrow> Some Undef | Error \<Rightarrow> Some Error
                       | Ok (ok, ctx2) \<Rightarrow> if ok then next_ready_task env ctx2 else Some (Ok (None, ctx2)))
                 else Some (Ok (Some r, ctx1)))))"

definition sched_task_request_status :: "task_ctx \<Rightarrow> request_id \<Rightarrow> bool result" where
  "sched_task_request_status ctx request =
     (if request = ERROR_REQUEST then Error else Ok (request_entry_find ctx request \<noteq> None))"

definition sched_task_launch_async :: "task_env \<Rightarrow> task_ctx \<Rightarrow> task_ref option \<Rightarrow> (int \<times> task_ctx) result" where
  "sched_task_launch_async env ctx task =
     (case task of None \<Rightarrow> Ok (-1, ctx)
      | Some r \<Rightarrow>
          rbind (deref (tasks ctx) r) (\<lambda>e.
          case te_exec e of None \<Rightarrow> Undef
          | Some t \<Rightarrow>
              if \<not> runtime_task_is_async t then Ok (-1, ctx)
              else let (rc, t') = env_post env r t;
                       ctx1 = ctx\<lparr>tasks := (tasks ctx)(r := Some (e\<lparr>te_exec := if rc = -2 then None else t'\<rparr>))\<rparr>
                   in if rc = -1 \<or> rc = -2 then Ok (-1, ctx1)
                      else if rc > 0 then rmap (\<lambda>ctx2. (rc, ctx2)) (async_pending_add ctx1 r)
                      else Ok (rc, ctx1)))"

definition sched_task_num_concurrent_requests :: "task_ctx \<Rightarrow> 32 word" where
  "sched_task_num_concurrent_requests ctx = num_reqs ctx"

end
