(* ===== verification/TaskLists.thy ===== *)
theory TaskLists
  imports SchedTask
begin

text \<open>
  The pointer structures of the scheduler task table refine lists: the operations of
  \<open>SchedTask\<close> keep every task in exactly one place, move it as the abstract lists say, and
  count the tasks of a request.
\<close>

subsection \<open>The lists behind the pointers\<close>

definition task_core :: "task_entry \<Rightarrow> task_entry" where
  "task_core e = e\<lparr>te_prev := None, te_next := None\<rparr>"

interpretation tl: linked te_next te_prev set_next set_prev task_core
  by unfold_locales (simp_all add: task_core_def)

text \<open>
  The abstract state: where every task is, and the four lists. A task that is at no list is
  held by the stepper.
\<close>

datatype place = InTable nat | Ready | Pending | Completed | Held

record task_view =
  v_table :: "nat \<Rightarrow> task_ref list"
  v_ready :: "task_ref list"
  v_pending :: "task_ref list"
  v_completed :: "task_ref list"

definition entry_slot :: "task_entry \<Rightarrow> nat" where
  "entry_slot e = task_hash (te_service e) (te_request e) (te_node e)"

definition rep_slot :: "task_entry store \<Rightarrow> (task_ref \<Rightarrow> place) \<Rightarrow> nat \<Rightarrow> task_ref option \<Rightarrow> task_ref list \<Rightarrow> bool" where
  "rep_slot h loc s p xs \<longleftrightarrow> dchain te_next te_prev h None p xs
     \<and> (\<forall>r\<in>set xs. loc r = InTable s \<and> map_option entry_slot (h r) = Some s)"

definition rep_pending :: "task_entry store \<Rightarrow> (task_ref \<Rightarrow> place) \<Rightarrow> task_ref option \<Rightarrow> task_ref list \<Rightarrow> bool" where
  "rep_pending h loc p xs \<longleftrightarrow> dchain te_next te_prev h None p xs \<and> (\<forall>r\<in>set xs. loc r = Pending)"

definition rep_queue ::
  "place \<Rightarrow> task_entry store \<Rightarrow> (task_ref \<Rightarrow> place) \<Rightarrow> task_ref option \<Rightarrow> task_ref option \<Rightarrow> task_ref list \<Rightarrow> bool" where
  "rep_queue P h loc p q xs \<longleftrightarrow> chain te_next h p xs \<and> q = last_opt xs \<and> (\<forall>r\<in>set xs. loc r = P)"

definition task_rep :: "task_ctx \<Rightarrow> (task_ref \<Rightarrow> place) \<Rightarrow> task_view \<Rightarrow> bool" where
  "task_rep ctx loc v \<longleftrightarrow>
     (\<forall>s. rep_slot (tasks ctx) loc s (task_table ctx s) (v_table v s))
     \<and> rep_queue Ready (tasks ctx) loc (queue_head ctx) (queue_tail ctx) (v_ready v)
     \<and> queue_size ctx = of_nat (length (v_ready v))
     \<and> rep_pending (tasks ctx) loc (async_pending ctx) (v_pending v)
     \<and> rep_queue Completed (tasks ctx) loc (async_completed_head ctx) (async_completed_tail ctx) (v_completed v)"

lemma entry_slot_core [simp]: "entry_slot (task_core e) = entry_slot e"
  by (simp add: entry_slot_def task_core_def)

lemma same_core_slot:
  assumes "tl.same_core h h'" shows "map_option entry_slot (h' x) = map_option entry_slot (h x)"
proof -
  have "map_option task_core (h' x) = map_option task_core (h x)" using assms by (simp add: tl.same_core_def)
  then have "map_option (entry_slot \<circ> task_core) (h' x) = map_option (entry_slot \<circ> task_core) (h x)"
    by (metis option.map_comp)
  then show ?thesis by (simp add: comp_def)
qed

text \<open>
  A list is not affected by what happens to the entries at other places, nor by changes of the
  data of its own entries.
\<close>

definition same_links :: "task_entry option \<Rightarrow> task_entry option \<Rightarrow> bool" where
  "same_links a b \<longleftrightarrow> map_option (\<lambda>e. (te_next e, te_prev e, entry_slot e)) a
      = map_option (\<lambda>e. (te_next e, te_prev e, entry_slot e)) b"

lemma same_links_refl [simp]: "same_links a a"
  by (simp add: same_links_def)

lemma same_links_proj:
  assumes "same_links a b"
  shows "map_option (\<lambda>e. (te_next e, te_prev e)) a = map_option (\<lambda>e. (te_next e, te_prev e)) b"
    and "map_option te_next a = map_option te_next b" and "map_option entry_slot a = map_option entry_slot b"
  using assms by (cases a; cases b; simp add: same_links_def)+

lemma rep_slot_frame:
  assumes "rep_slot h loc s p xs" and "\<forall>x. loc x = InTable s \<longrightarrow> same_links (h' x) (h x) \<and> loc' x = InTable s"
  shows "rep_slot h' loc' s p xs"
proof -
  have x: "\<forall>x\<in>set xs. same_links (h' x) (h x) \<and> loc' x = InTable s" using assms by (simp add: rep_slot_def)
  then have "dchain te_next te_prev h' None p xs = dchain te_next te_prev h None p xs"
    by (intro dseg_cong ballI same_links_proj(1)) simp
  moreover have "\<forall>x\<in>set xs. map_option entry_slot (h' x) = map_option entry_slot (h x)"
    using x same_links_proj(3) by blast
  ultimately show ?thesis using x assms(1) by (simp add: rep_slot_def)
qed

lemma rep_pending_frame:
  assumes "rep_pending h loc p xs" and "\<forall>x. loc x = Pending \<longrightarrow> same_links (h' x) (h x) \<and> loc' x = Pending"
  shows "rep_pending h' loc' p xs"
proof -
  have x: "\<forall>x\<in>set xs. same_links (h' x) (h x) \<and> loc' x = Pending" using assms by (simp add: rep_pending_def)
  then have "dchain te_next te_prev h' None p xs = dchain te_next te_prev h None p xs"
    by (intro dseg_cong ballI same_links_proj(1)) simp
  with x assms(1) show ?thesis by (simp add: rep_pending_def)
qed

lemma rep_queue_frame:
  assumes "rep_queue P h loc p q xs" and "\<forall>x. loc x = P \<longrightarrow> same_links (h' x) (h x) \<and> loc' x = P"
  shows "rep_queue P h' loc' p q xs"
proof -
  have x: "\<forall>x\<in>set xs. same_links (h' x) (h x) \<and> loc' x = P" using assms by (simp add: rep_queue_def)
  then have "chain te_next h' p xs = chain te_next h p xs"
    by (intro chain_cong ballI same_links_proj(2)) simp
  with x assms(1) show ?thesis by (simp add: rep_queue_def)
qed

lemma task_rep_data:
  assumes "task_rep ctx loc v" and "\<forall>x. same_links (h x) (tasks ctx x)"
  shows "task_rep (ctx\<lparr>tasks := h\<rparr>) loc v"
  using assms rep_slot_frame [where h = "tasks ctx" and h' = h and loc = loc and loc' = loc]
    rep_pending_frame [where h = "tasks ctx" and h' = h and loc = loc and loc' = loc]
    rep_queue_frame [where h = "tasks ctx" and h' = h and loc = loc and loc' = loc]
  by (simp add: task_rep_def)

text \<open>One slot changes, and one task \<open>r\<close> moves between the slot and the stepper.\<close>

lemma task_rep_slot_change:
  assumes "task_rep ctx loc v" and "\<forall>x. loc x \<noteq> InTable s \<longrightarrow> x \<noteq> r \<longrightarrow> h x = tasks ctx x"
    and "loc r = InTable s \<and> loc' = loc(r := Held) \<or> loc r = Held \<and> loc' = loc(r := InTable s)"
    and "rep_slot h loc' s p xs"
  shows "task_rep (ctx\<lparr>task_table := (task_table ctx)(s := p), tasks := h\<rparr>) loc' (v\<lparr>v_table := (v_table v)(s := xs)\<rparr>)"
proof -
  have o: "\<forall>x. loc x = P \<longrightarrow> same_links (h x) (tasks ctx x) \<and> loc' x = P"
    if "P \<noteq> InTable s" "P \<noteq> Held" for P
    using assms(2,3) that by auto
  have "rep_slot h loc' s' (task_table ctx s') (v_table v s')" if "s' \<noteq> s" for s'
    by (rule rep_slot_frame [of "tasks ctx" loc]) (use assms(1) o [of "InTable s'"] that in \<open>auto simp: task_rep_def\<close>)
  moreover have "rep_queue Ready h loc' (queue_head ctx) (queue_tail ctx) (v_ready v)"
    by (rule rep_queue_frame [of _ "tasks ctx" loc]) (use assms(1) o [of Ready] in \<open>auto simp: task_rep_def\<close>)
  moreover have "rep_queue Completed h loc' (async_completed_head ctx) (async_completed_tail ctx) (v_completed v)"
    by (rule rep_queue_frame [of _ "tasks ctx" loc]) (use assms(1) o [of Completed] in \<open>auto simp: task_rep_def\<close>)
  moreover have "rep_pending h loc' (async_pending ctx) (v_pending v)"
    by (rule rep_pending_frame [of "tasks ctx" loc]) (use assms(1) o [of Pending] in \<open>auto simp: task_rep_def\<close>)
  ultimately show ?thesis using assms(1,4) by (auto simp: task_rep_def)
qed

subsection \<open>Operations on the lists\<close>

lemma table_delete_rep:
  assumes rep: "task_rep ctx loc v" and r: "r \<in> set (v_table v s)" and live: "tasks ctx r = Some e"
  obtains ctx' where "task_table_delete ctx r = Ok ctx'" and "request_table ctx' = request_table ctx"
    and "tasks ctx' r = Some (set_prev None (set_next None e))" and "tl.same_core (tasks ctx) (tasks ctx')"
    and "task_rep ctx' (loc(r := Held)) (v\<lparr>v_table := (v_table v)(s := remove1 r (v_table v s))\<rparr>)"
proof -
  obtain xs ys where xy: "v_table v s = xs @ r # ys" using r by (meson split_list)
  have slot: "rep_slot (tasks ctx) loc s (task_table ctx s) (xs @ r # ys)"
    using rep xy by (metis task_rep_def)
  then have e: "tasks ctx r = Some e" "entry_slot e = s" using live by (auto simp: rep_slot_def)
  have d: "dchain te_next te_prev (tasks ctx) None (task_table ctx s) (xs @ r # ys)"
    using slot by (simp add: rep_slot_def)
  have dist: "distinct (xs @ r # ys)" using chain_distinct [OF dchain_chain [OF d]] .
  obtain p h where lr: "link_remove te_next te_prev set_next set_prev (tasks ctx) (task_table ctx s) r = Ok (p, h)"
    "dchain te_next te_prev h None p (xs @ ys)" "tl.same_core (tasks ctx) h" "h r = tasks ctx r"
    "\<And>y. y \<notin> set (xs @ ys) \<Longrightarrow> h y = tasks ctx y"
    using tl.remove_list [OF d] by blast
  let ?h = "h(r := Some (set_prev None (set_next None e)))"
  let ?ctx = "ctx\<lparr>task_table := (task_table ctx)(s := p), tasks := ?h\<rparr>"
  have del: "task_table_delete ctx r = Ok ?ctx"
    using e lr(1,4) by (simp add: task_table_delete_def entry_slot_def Let_def)
  have core: "tl.same_core (tasks ctx) ?h"
    using lr(3) e by (simp add: tl.same_core_def task_core_def)
  have "rep_slot ?h (loc(r := Held)) s p (xs @ ys)"
    unfolding rep_slot_def
  proof (intro conjI ballI)
    show "dchain te_next te_prev ?h None p (xs @ ys)" using lr(2) dist by simp
    fix x assume x: "x \<in> set (xs @ ys)"
    then show "(loc(r := Held)) x = InTable s" using slot dist by (auto simp: rep_slot_def)
    show "map_option entry_slot (?h x) = Some s"
      using same_core_slot [OF core, of x] slot x by (auto simp: rep_slot_def)
  qed
  then have "task_rep ?ctx (loc(r := Held)) (v\<lparr>v_table := (v_table v)(s := xs @ ys)\<rparr>)"
    by (intro task_rep_slot_change [OF rep, where s = s and r = r])
      (use lr(5) slot in \<open>auto simp: rep_slot_def\<close>)
  moreover have "remove1 r (v_table v s) = xs @ ys" using xy dist by (simp add: remove1_append)
  ultimately show ?thesis using del core by (intro that [of ?ctx]) auto
qed

lemma enqueue_rep:
  assumes rep: "task_rep ctx loc v" and r: "loc r = Held" "tasks ctx r = Some e" "te_next e = None"
  obtains ctx' where "enqueue ctx r = Ok ctx'" and "tl.same_core (tasks ctx) (tasks ctx')"
    and "request_table ctx' = request_table ctx"
    and "task_rep ctx' (loc(r := Ready)) (v\<lparr>v_ready := v_ready v @ [r]\<rparr>)"
proof -
  let ?q = "v_ready v"
  have q: "chain te_next (tasks ctx) (queue_head ctx) ?q" "queue_tail ctx = last_opt ?q" "\<forall>x\<in>set ?q. loc x = Ready"
    using rep by (simp_all add: task_rep_def rep_queue_def)
  then have "r \<notin> set ?q" using r(1) by auto
  then obtain h where h: "modify_opt (tasks ctx) (last_opt ?q) (set_next (Some r)) = Ok h"
    "chain te_next h (if ?q = [] then Some r else queue_head ctx) (?q @ [r])" "tl.same_core (tasks ctx) h"
    "h r = tasks ctx r" "\<And>y. y \<notin> set ?q \<Longrightarrow> h y = tasks ctx y"
    using tl.append_list [OF q(1) r(2,3)] by blast
  let ?ctx = "ctx\<lparr>queue_head := (if ?q = [] then Some r else queue_head ctx), queue_tail := Some r,
    queue_size := queue_size ctx + 1, tasks := h\<rparr>"
  let ?loc = "loc(r := Ready)"
  have enq: "enqueue ctx r = Ok ?ctx" using h(1) q(2) by (simp add: enqueue_def)
  have o: "\<forall>x. loc x = P \<longrightarrow> same_links (h x) (tasks ctx x) \<and> ?loc x = P" if "P \<noteq> Ready" "P \<noteq> Held" for P
    using h(5) q(3) r(1) that by (metis fun_upd_other same_links_refl)
  have "rep_slot h ?loc s (task_table ctx s) (v_table v s)" for s
    by (rule rep_slot_frame [of "tasks ctx" loc]) (use rep o [of "InTable s"] in \<open>auto simp: task_rep_def\<close>)
  moreover have "rep_queue Completed h ?loc (async_completed_head ctx) (async_completed_tail ctx) (v_completed v)"
    by (rule rep_queue_frame [of _ "tasks ctx" loc]) (use rep o [of Completed] in \<open>auto simp: task_rep_def\<close>)
  moreover have "rep_pending h ?loc (async_pending ctx) (v_pending v)"
    by (rule rep_pending_frame [of "tasks ctx" loc]) (use rep o [of Pending] in \<open>auto simp: task_rep_def\<close>)
  moreover have "rep_queue Ready h ?loc (queue_head ?ctx) (queue_tail ?ctx) (?q @ [r])"
    using h(2) q(3) by (simp add: rep_queue_def)
  moreover have "queue_size ?ctx = of_nat (length (?q @ [r]))" using rep by (simp add: task_rep_def)
  ultimately have "task_rep ?ctx ?loc (v\<lparr>v_ready := ?q @ [r]\<rparr>)" by (simp add: task_rep_def)
  then show ?thesis using that [of ?ctx] enq h(3) by simp
qed

text \<open>The lists at the places that an operation does not touch.\<close>

lemma rep_others:
  assumes "task_rep ctx loc v" and "\<forall>x. loc x \<notin> C \<longrightarrow> same_links (h x) (tasks ctx x) \<and> loc' x = loc x"
  shows "InTable s \<notin> C \<Longrightarrow> rep_slot h loc' s (task_table ctx s) (v_table v s)"
    and "Ready \<notin> C \<Longrightarrow> rep_queue Ready h loc' (queue_head ctx) (queue_tail ctx) (v_ready v)"
    and "Completed \<notin> C \<Longrightarrow>
      rep_queue Completed h loc' (async_completed_head ctx) (async_completed_tail ctx) (v_completed v)"
    and "Pending \<notin> C \<Longrightarrow> rep_pending h loc' (async_pending ctx) (v_pending v)"
proof -
  have o: "\<forall>x. loc x = P \<longrightarrow> same_links (h x) (tasks ctx x) \<and> loc' x = P" if "P \<notin> C" for P
    using assms(2) that by auto
  show "rep_slot h loc' s (task_table ctx s) (v_table v s)" if "InTable s \<notin> C"
    by (rule rep_slot_frame [of "tasks ctx" loc]) (use assms(1) o [OF that] in \<open>auto simp: task_rep_def\<close>)
  show "rep_queue Ready h loc' (queue_head ctx) (queue_tail ctx) (v_ready v)" if "Ready \<notin> C"
    by (rule rep_queue_frame [of _ "tasks ctx" loc]) (use assms(1) o [OF that] in \<open>auto simp: task_rep_def\<close>)
  show "rep_queue Completed h loc' (async_completed_head ctx) (async_completed_tail ctx) (v_completed v)"
    if "Completed \<notin> C"
    by (rule rep_queue_frame [of _ "tasks ctx" loc]) (use assms(1) o [OF that] in \<open>auto simp: task_rep_def\<close>)
  show "rep_pending h loc' (async_pending ctx) (v_pending v)" if "Pending \<notin> C"
    by (rule rep_pending_frame [of "tasks ctx" loc]) (use assms(1) o [OF that] in \<open>auto simp: task_rep_def\<close>)
qed

lemma rep_queue_pop:
  assumes "rep_queue P h loc p q (r # xs)" and "P \<noteq> Held"
  obtains e where "p = Some r" and "h r = Some e" and "te_next e = None \<longleftrightarrow> xs = []"
    and "rep_queue P h (loc(r := Held)) (te_next e) (if te_next e = None then None else q) xs"
proof -
  obtain e where e: "p = Some r" "h r = Some e" "chain te_next h (te_next e) xs"
    using assms(1) by (auto simp: rep_queue_def)
  have n: "te_next e = None \<longleftrightarrow> xs = []" using chain_head [OF e(3)] by (cases xs) auto
  have "r \<notin> set xs" using chain_distinct [of te_next h p "r # xs"] assms(1) by (simp add: rep_queue_def)
  with assms(1) e n have "rep_queue P h (loc(r := Held)) (te_next e) (if te_next e = None then None else q) xs"
    by (auto simp: rep_queue_def last_opt_Cons split: if_splits)
  then show ?thesis using that [OF e(1,2) n] by simp
qed

lemma dequeue_rep:
  assumes rep: "task_rep ctx loc v" and n: "length (v_ready v) < 2 ^ 32"
  shows "v_ready v = [] \<Longrightarrow> dequeue ctx = Ok (None, ctx)"
    and "v_ready v = r # q \<Longrightarrow> \<exists>ctx'. dequeue ctx = Ok (Some r, ctx') \<and> tasks ctx' = tasks ctx
        \<and> task_table ctx' = task_table ctx \<and> request_table ctx' = request_table ctx
        \<and> task_rep ctx' (loc(r := Held)) (v\<lparr>v_ready := q\<rparr>)"
proof -
  have sz: "queue_size ctx = of_nat (length (v_ready v))" using rep by (simp add: task_rep_def)
  show "dequeue ctx = Ok (None, ctx)" if "v_ready v = []" using sz that by (simp add: dequeue_def)
  assume q: "v_ready v = r # q"
  have "queue_size ctx \<noteq> 0"
    using sz n q nat_dvd_not_less [of "length (v_ready v)" "2 ^ 32"]
    by (simp add: word_of_nat_eq_0_iff del: of_nat_Suc)
  moreover have "rep_queue Ready (tasks ctx) loc (queue_head ctx) (queue_tail ctx) (r # q)"
    using rep q by (metis task_rep_def)
  then obtain e where e: "queue_head ctx = Some r" "tasks ctx r = Some e"
    "rep_queue Ready (tasks ctx) (loc(r := Held)) (te_next e) (if te_next e = None then None else queue_tail ctx) q"
    using rep_queue_pop [of Ready] by blast
  moreover have "loc r = Ready" using rep q by (simp add: task_rep_def rep_queue_def)
  then have o: "\<forall>x. loc x \<notin> {Ready} \<longrightarrow> same_links (tasks ctx x) (tasks ctx x) \<and> (loc(r := Held)) x = loc x" by auto
  note others = rep_others [where loc' = "loc(r := Held)", OF rep o]
  let ?ctx = "ctx\<lparr>queue_head := te_next e, queue_tail := (if te_next e = None then None else queue_tail ctx),
    queue_size := queue_size ctx - 1\<rparr>"
  have "task_rep ?ctx (loc(r := Held)) (v\<lparr>v_ready := q\<rparr>)"
    using others e(3) sz q by (simp add: task_rep_def)
  ultimately show "\<exists>ctx'. dequeue ctx = Ok (Some r, ctx') \<and> tasks ctx' = tasks ctx
        \<and> task_table ctx' = task_table ctx \<and> request_table ctx' = request_table ctx
        \<and> task_rep ctx' (loc(r := Held)) (v\<lparr>v_ready := q\<rparr>)"
    by (intro exI [of _ ?ctx]) (simp add: dequeue_def)
qed

lemma comp_dequeue_rep:
  assumes rep: "task_rep ctx loc v"
  shows "v_completed v = [] \<Longrightarrow> async_comp_dequeue ctx = Ok (None, ctx)"
    and "v_completed v = r # q \<Longrightarrow> \<exists>ctx'. async_comp_dequeue ctx = Ok (Some r, ctx') \<and> tasks ctx' = tasks ctx
        \<and> task_table ctx' = task_table ctx \<and> request_table ctx' = request_table ctx
        \<and> task_rep ctx' (loc(r := Held)) (v\<lparr>v_completed := q\<rparr>)"
proof -
  show "async_comp_dequeue ctx = Ok (None, ctx)" if "v_completed v = []"
    using rep that by (simp add: async_comp_dequeue_def task_rep_def rep_queue_def)
  assume q: "v_completed v = r # q"
  have "rep_queue Completed (tasks ctx) loc (async_completed_head ctx) (async_completed_tail ctx) (r # q)"
    using rep q by (metis task_rep_def)
  then obtain e where e: "async_completed_head ctx = Some r" "tasks ctx r = Some e"
    "rep_queue Completed (tasks ctx) (loc(r := Held)) (te_next e)
       (if te_next e = None then None else async_completed_tail ctx) q"
    using rep_queue_pop [of Completed] by blast
  have "loc r = Completed" using rep q by (simp add: task_rep_def rep_queue_def)
  then have o: "\<forall>x. loc x \<notin> {Completed} \<longrightarrow> same_links (tasks ctx x) (tasks ctx x) \<and> (loc(r := Held)) x = loc x" by auto
  note others = rep_others [where loc' = "loc(r := Held)", OF rep o]
  let ?ctx = "ctx\<lparr>async_completed_head := te_next e,
    async_completed_tail := (if te_next e = None then None else async_completed_tail ctx)\<rparr>"
  have "task_rep ?ctx (loc(r := Held)) (v\<lparr>v_completed := q\<rparr>)"
    using others e(3) rep by (simp add: task_rep_def)
  with e(1,2) show "\<exists>ctx'. async_comp_dequeue ctx = Ok (Some r, ctx') \<and> tasks ctx' = tasks ctx
        \<and> task_table ctx' = task_table ctx \<and> request_table ctx' = request_table ctx
        \<and> task_rep ctx' (loc(r := Held)) (v\<lparr>v_completed := q\<rparr>)"
    by (intro exI [of _ ?ctx]) (simp add: async_comp_dequeue_def)
qed

lemma pending_add_rep:
  assumes rep: "task_rep ctx loc v" and r: "loc r = Held" "tasks ctx r = Some e"
  obtains ctx' where "async_pending_add ctx r = Ok ctx'" and "tl.same_core (tasks ctx) (tasks ctx')"
    and "task_rep ctx' (loc(r := Pending)) (v\<lparr>v_pending := r # v_pending v\<rparr>)"
proof -
  let ?h1 = "(tasks ctx)(r := Some (set_prev None e))" and ?xs = "v_pending v" and ?loc = "loc(r := Pending)"
  have p: "dchain te_next te_prev (tasks ctx) None (async_pending ctx) ?xs" "\<forall>x\<in>set ?xs. loc x = Pending"
    using rep by (simp_all add: task_rep_def rep_pending_def)
  then have nr: "r \<notin> set ?xs" using r(1) by auto
  then have "dchain te_next te_prev ?h1 None (async_pending ctx) ?xs" using p(1) by simp
  then obtain h where h: "link_push set_next set_prev ?h1 (async_pending ctx) r = Ok h"
    "dchain te_next te_prev h None (Some r) (r # ?xs)" "tl.same_core ?h1 h"
    "\<And>y. y \<notin> set (r # ?xs) \<Longrightarrow> h y = ?h1 y"
    using tl.push_list [of ?h1 "async_pending ctx" ?xs r "set_prev None e"] nr by auto
  let ?ctx = "ctx\<lparr>async_pending := Some r, tasks := h\<rparr>"
  have "same_links (h x) (tasks ctx x)" if "loc x \<notin> {Pending, Held}" for x
    using that h(4) [of x] p(2) r(1) by (cases "x = r") auto
  then have o: "\<forall>x. loc x \<notin> {Pending, Held} \<longrightarrow> same_links (h x) (tasks ctx x) \<and> ?loc x = loc x" using r(1) by auto
  have "task_rep ?ctx ?loc (v\<lparr>v_pending := r # ?xs\<rparr>)"
    using rep_others [where loc' = ?loc, OF rep o] h(2) p(2) rep by (auto simp: task_rep_def rep_pending_def)
  moreover have "tl.same_core (tasks ctx) h"
    using h(3) r(2) by (auto simp: tl.same_core_def task_core_def)
  ultimately show ?thesis using that [of ?ctx] h(1) r(2) by (simp add: async_pending_add_def)
qed

lemma pending_remove_rep:
  assumes rep: "task_rep ctx loc v" and r: "r \<in> set (v_pending v)"
  obtains ctx' where "async_pending_remove ctx r = Ok ctx'" and "tl.same_core (tasks ctx) (tasks ctx')"
    and "tasks ctx' r = tasks ctx r" and "tasks ctx r \<noteq> None"
    and "task_rep ctx' (loc(r := Held)) (v\<lparr>v_pending := remove1 r (v_pending v)\<rparr>)"
proof -
  obtain xs ys where xy: "v_pending v = xs @ r # ys" using r by (meson split_list)
  have d: "dchain te_next te_prev (tasks ctx) None (async_pending ctx) (xs @ r # ys)"
    and l: "\<forall>x\<in>set (xs @ r # ys). loc x = Pending"
    using rep xy by (simp_all add: task_rep_def rep_pending_def)
  have dist: "distinct (xs @ r # ys)" using chain_distinct [OF dchain_chain [OF d]] .
  obtain p h where h: "link_remove te_next te_prev set_next set_prev (tasks ctx) (async_pending ctx) r = Ok (p, h)"
    "dchain te_next te_prev h None p (xs @ ys)" "tl.same_core (tasks ctx) h" "h r = tasks ctx r"
    "\<And>y. y \<notin> set (xs @ ys) \<Longrightarrow> h y = tasks ctx y"
    using tl.remove_list [OF d] by blast
  let ?ctx = "ctx\<lparr>async_pending := p, tasks := h\<rparr>"
  have o: "\<forall>x. loc x \<notin> {Pending} \<longrightarrow> same_links (h x) (tasks ctx x) \<and> (loc(r := Held)) x = loc x"
  proof (intro allI impI)
    fix x assume x: "loc x \<notin> {Pending}"
    then have "x \<notin> set (xs @ ys)" "x \<noteq> r" using l by auto
    then show "same_links (h x) (tasks ctx x) \<and> (loc(r := Held)) x = loc x" using h(5) [of x] by simp
  qed
  have "task_rep ?ctx (loc(r := Held)) (v\<lparr>v_pending := xs @ ys\<rparr>)"
    using rep_others [where loc' = "loc(r := Held)", OF rep o] h(2) l dist rep by (auto simp: task_rep_def rep_pending_def)
  moreover have "remove1 r (v_pending v) = xs @ ys" using xy dist by (simp add: remove1_append)
  moreover have "tasks ctx r \<noteq> None" using chain_live [OF dchain_chain [OF d]] by simp
  ultimately show ?thesis using that [of ?ctx] h(1,3,4) by (simp add: async_pending_remove_def)
qed

lemma comp_enqueue_rep:
  assumes rep: "task_rep ctx loc v" and r: "loc r = Held" "tasks ctx r = Some e"
  obtains ctx' where "async_comp_enqueue ctx r = Ok ctx'" and "tl.same_core (tasks ctx) (tasks ctx')"
    and "task_rep ctx' (loc(r := Completed)) (v\<lparr>v_completed := v_completed v @ [r]\<rparr>)"
proof -
  let ?q = "v_completed v" and ?h0 = "(tasks ctx)(r := Some (set_next None e))" and ?loc = "loc(r := Completed)"
  have q: "chain te_next (tasks ctx) (async_completed_head ctx) ?q" "async_completed_tail ctx = last_opt ?q"
    "\<forall>x\<in>set ?q. loc x = Completed"
    using rep by (simp_all add: task_rep_def rep_queue_def)
  then have nr: "r \<notin> set ?q" using r(1) by auto
  have c0: "chain te_next ?h0 (async_completed_head ctx) ?q" using q(1) nr by simp
  obtain h where h: "modify_opt ?h0 (last_opt ?q) (set_next (Some r)) = Ok h"
    "chain te_next h (if ?q = [] then Some r else async_completed_head ctx) (?q @ [r])" "tl.same_core ?h0 h"
    "\<And>y. y \<notin> set ?q \<Longrightarrow> h y = ?h0 y"
    using tl.append_list [OF c0 _ _ nr, of "set_next None e"] by auto
  have swap: "rbind (modify_opt (tasks ctx) (last_opt ?q) (set_next (Some r))) (\<lambda>h1. modify h1 r (set_next None)) = Ok h"
  proof (cases ?q rule: rev_cases)
    case Nil
    then show ?thesis using h(1) r(2) by simp
  next
    case (snoc as a)
    then obtain ea where "tasks ctx a = Some ea" using chain_live [OF q(1), of a] by auto
    moreover have "a \<noteq> r" using snoc nr by auto
    ultimately show ?thesis using h(1) r(2) snoc by (simp add: fun_upd_twist)
  qed
  let ?ctx = "ctx\<lparr>async_completed_head := (if ?q = [] then Some r else async_completed_head ctx),
    async_completed_tail := Some r, tasks := h\<rparr>"
  have enq: "async_comp_enqueue ctx r = Ok ?ctx"
    using swap q(2) by (cases "modify_opt (tasks ctx) (last_opt ?q) (set_next (Some r))")
      (simp_all add: async_comp_enqueue_def)
  have o: "\<forall>x. loc x \<notin> {Completed, Held} \<longrightarrow> same_links (h x) (tasks ctx x) \<and> ?loc x = loc x"
  proof (intro allI impI)
    fix x assume x: "loc x \<notin> {Completed, Held}"
    then have "x \<notin> set ?q" "x \<noteq> r" using q(3) r(1) by auto
    then show "same_links (h x) (tasks ctx x) \<and> ?loc x = loc x" using h(4) [of x] by simp
  qed
  have "task_rep ?ctx ?loc (v\<lparr>v_completed := ?q @ [r]\<rparr>)"
    using rep_others [where loc' = ?loc, OF rep o] h(2) q(3) rep by (simp add: task_rep_def rep_queue_def)
  moreover have "tl.same_core (tasks ctx) h" using h(3) r(2) by (auto simp: tl.same_core_def task_core_def)
  ultimately show ?thesis using that [of ?ctx] enq by simp
qed

lemma find_from_chain:
  "chain te_next h p xs \<Longrightarrow>
     find_from h key p = Some (Ok (List.find (\<lambda>r. map_option task_key (h r) = Some key) xs))"
proof (induction xs arbitrary: p)
  case Nil
  then show ?case by (simp add: find_from.simps)
next
  case (Cons x xs)
  then obtain e where e: "p = Some x" "h x = Some e" "chain te_next h (te_next e) xs" by auto
  then show ?case using Cons.IH [OF e(3)] by (subst find_from.simps) simp
qed

lemma table_find_rep:
  assumes "task_rep ctx loc v"
  shows "task_table_find ctx service request node
    = Ok (List.find (\<lambda>r. map_option task_key (tasks ctx r) = Some (service, request, node))
            (v_table v (task_hash service request node)))"
proof -
  have "chain te_next (tasks ctx) (task_table ctx (task_hash service request node))
      (v_table v (task_hash service request node))"
    using assms by (auto simp: task_rep_def rep_slot_def intro: dchain_chain)
  then show ?thesis by (simp add: task_table_find_def find_from_chain)
qed

text \<open>A free address is at no list.\<close>

lemma task_rep_dead:
  assumes "task_rep ctx loc v" and "tasks ctx r = None"
  shows "task_rep ctx (loc(r := P)) v" and "r \<notin> set (v_table v s)"
proof -
  have n: "r \<notin> set (v_table v s)" for s
    using assms chain_live [OF dchain_chain] by (fastforce simp: task_rep_def rep_slot_def)
  moreover have "r \<notin> set (v_ready v)" "r \<notin> set (v_completed v)" "r \<notin> set (v_pending v)"
    using assms chain_live [OF dchain_chain, of te_next te_prev "tasks ctx" None "async_pending ctx" "v_pending v" r]
      chain_live [of te_next "tasks ctx" "queue_head ctx" "v_ready v" r]
      chain_live [of te_next "tasks ctx" "async_completed_head ctx" "v_completed v" r]
    by (auto simp: task_rep_def rep_queue_def rep_pending_def)
  ultimately show "task_rep ctx (loc(r := P)) v"
    using assms(1) by (auto simp: task_rep_def rep_slot_def rep_queue_def rep_pending_def)
  show "r \<notin> set (v_table v s)" by (rule n)
qed

lemma task_rep_request [simp]: "task_rep (request_update ctx q f) loc v = task_rep ctx loc v"
  "task_rep (ctx\<lparr>request_table := rt\<rparr>) loc v = task_rep ctx loc v"
  "task_rep (ctx\<lparr>num_reqs := n\<rparr>) loc v = task_rep ctx loc v"
  "task_rep (ctx\<lparr>pipe_owner := po\<rparr>) loc v = task_rep ctx loc v"
  "task_rep (ctx\<lparr>next_request := nr\<rparr>) loc v = task_rep ctx loc v"
  by (simp_all add: request_update_def task_rep_def)

lemma request_update_fields [simp]:
  "tasks (request_update ctx q f) = tasks ctx" "task_table (request_update ctx q f) = task_table ctx"
  by (simp_all add: request_update_def)

text \<open>The entry that is created for a node.\<close>

definition fresh_entry :: "nat \<Rightarrow> request_entry \<Rightarrow> node_id \<Rightarrow> nat \<Rightarrow> task_entry" where
  "fresh_entry service req node n = \<lparr>te_service = service, te_scope = rq_scope req, te_node = node,
     te_request = rq_id req, te_exec = None, num_required_inputs = of_nat n, num_cancelled_inputs = 0,
     num_awaiting_inputs = of_nat n, te_prev = None, te_next = None\<rparr>"

lemma find_request_id: "request_entry_find ctx request = Some req \<Longrightarrow> rq_id req = request"
  by (auto simp: request_entry_find_def find_Some_iff)

lemma entry_new_Ok:
  assumes "task_entry_new env ctx service request node = Ok (r, ctx')"
  obtains req svc inc where "request_entry_find ctx request = Some req" and "env_alloc env (tasks ctx) = Some r"
    and "env_service env service = Some svc" and "sched_service_get_incoming_pipes svc node = Ok inc"
    and "ctx' = request_update (ctx\<lparr>tasks := (tasks ctx)(r := Some (fresh_entry service req node (length inc)))\<rparr>)
        request (\<lambda>q. q\<lparr>num_pending_tasks := num_pending_tasks q + 1\<rparr>)"
  using assms find_request_id
  by (auto simp: task_entry_new_def service_at_def result_simps Let_def fresh_entry_def split: option.splits)

lemma table_insert_rep:
  assumes rep: "task_rep ctx loc v" and fresh: "\<forall>h r. env_alloc env h = Some r \<longrightarrow> h r = None"
    and ins: "task_table_insert env ctx service request node = Ok (r, ctx')"
  obtains req svc n where "request_entry_find ctx request = Some req" and "tasks ctx r = None"
    and "env_service env service = Some svc" and "node < node_count svc"
    and "n = length (incoming (svc_nodes svc ! node))"
    and "map_option task_core (tasks ctx' r) = Some (fresh_entry service req node n)"
    and "\<forall>x. x \<noteq> r \<longrightarrow> map_option task_core (tasks ctx' x) = map_option task_core (tasks ctx x)"
    and "task_rep ctx' (loc(r := InTable (task_hash service request node)))
      (v\<lparr>v_table := (v_table v)(task_hash service request node := r # v_table v (task_hash service request node))\<rparr>)"
proof -
  let ?s = "task_hash service request node"
  obtain ctx1 where new: "task_entry_new env ctx service request node = Ok (r, ctx1)"
    and push: "rmap (\<lambda>h. (r, ctx1\<lparr>task_table := (task_table ctx1)(?s := Some r), tasks := h\<rparr>))
          (link_push set_next set_prev (tasks ctx1) (task_table ctx1 ?s) r) = Ok (r, ctx')"
    using ins by (auto simp: task_table_insert_def result_simps Let_def)
  obtain req svc inc where q: "request_entry_find ctx request = Some req" "env_alloc env (tasks ctx) = Some r"
    "env_service env service = Some svc" "sched_service_get_incoming_pipes svc node = Ok inc"
    and ctx1: "ctx1 = request_update (ctx\<lparr>tasks := (tasks ctx)(r := Some (fresh_entry service req node (length inc)))\<rparr>)
        request (\<lambda>q. q\<lparr>num_pending_tasks := num_pending_tasks q + 1\<rparr>)"
    by (rule entry_new_Ok [OF new])
  have dead: "tasks ctx r = None" using fresh q(2) by blast
  have nd: "node < node_count svc" "inc = incoming (svc_nodes svc ! node)"
    using q(4) by (auto simp: sched_service_get_incoming_pipes_def svc_node_def split: if_splits)
  let ?e = "fresh_entry service req node (length inc)" and ?loc = "loc(r := InTable ?s)"
  let ?h1 = "(tasks ctx)(r := Some ?e)"
  have slot: "rep_slot (tasks ctx) loc ?s (task_table ctx ?s) (v_table v ?s)" using rep by (simp add: task_rep_def)
  have nr: "r \<notin> set (v_table v ?s)" by (rule task_rep_dead(2) [OF rep dead])
  then have "dchain te_next te_prev ?h1 None (task_table ctx ?s) (v_table v ?s)" using slot by (simp add: rep_slot_def)
  then obtain h where h: "link_push set_next set_prev ?h1 (task_table ctx ?s) r = Ok h"
    "dchain te_next te_prev h None (Some r) (r # v_table v ?s)" "tl.same_core ?h1 h"
    "\<And>y. y \<notin> set (r # v_table v ?s) \<Longrightarrow> h y = ?h1 y"
    using tl.push_list [of ?h1 "task_table ctx ?s" "v_table v ?s" r ?e] nr by (auto simp: fresh_entry_def)
  have ctx': "ctx' = ctx1\<lparr>task_table := (task_table ctx)(?s := Some r), tasks := h\<rparr>"
    using push h(1) by (simp add: ctx1)
  have "entry_slot ?e = ?s" using find_request_id [OF q(1)] by (simp add: entry_slot_def fresh_entry_def)
  then have "map_option entry_slot (?h1 x) = Some ?s" if "x \<in> set (r # v_table v ?s)" for x
    using that slot by (cases "x = r") (auto simp: rep_slot_def)
  then have "map_option entry_slot (h x) = Some ?s" if "x \<in> set (r # v_table v ?s)" for x
    using that same_core_slot [OF h(3), of x] by simp
  then have rs: "rep_slot h ?loc ?s (Some r) (r # v_table v ?s)"
    using h(2) slot by (auto simp: rep_slot_def simp del: dseg.simps)
  have rep0: "task_rep ctx (loc(r := Held)) v" by (rule task_rep_dead(1) [OF rep dead])
  have "task_rep (ctx\<lparr>task_table := (task_table ctx)(?s := Some r), tasks := h\<rparr>) ?loc
      (v\<lparr>v_table := (v_table v)(?s := r # v_table v ?s)\<rparr>)"
    by (rule task_rep_slot_change [OF rep0, where r = r])
      (use h(4) slot rs in \<open>auto simp: rep_slot_def simp del: dseg.simps\<close>)
  then have "task_rep ctx' ?loc (v\<lparr>v_table := (v_table v)(?s := r # v_table v ?s)\<rparr>)"
    by (simp add: ctx' ctx1 request_update_def task_rep_def)
  moreover have "map_option task_core (h x) = map_option task_core (?h1 x)" for x
    using h(3) by (simp add: tl.same_core_def)
  moreover have "task_core ?e = ?e" by (simp add: task_core_def fresh_entry_def)
  ultimately show ?thesis using that [OF q(1) dead q(3) nd(1)] nd(2) by (simp add: ctx')
qed

subsection \<open>Properties of the lists\<close>

lemma task_core_data:
  "task_core a = task_core b \<Longrightarrow> task_key a = task_key b \<and> te_exec a = te_exec b
     \<and> num_awaiting_inputs a = num_awaiting_inputs b \<and> num_cancelled_inputs a = num_cancelled_inputs b
     \<and> num_required_inputs a = num_required_inputs b"
  by (cases a; cases b) (simp add: task_core_def task_key_def)

lemma task_key_core: "map_option task_core x = map_option task_core y \<Longrightarrow> map_option task_key x = map_option task_key y"
  by (cases x; cases y) (auto dest: task_core_data)

text \<open>C29: an input of a waiting task becomes ready. Its counter goes down by one; when it was the
  last input awaited, the task moves from its slot of the table to the end of the ready queue,
  otherwise every list stays as it is. No other task changes.\<close>

theorem pipe_ready_refines:
  assumes "task_rep ctx loc v" and "r \<in> set (v_table v s)" and "tasks ctx r = Some e"
  shows "\<exists>ctx'. sched_task_pipe_ready ctx (Some r) = Ok ctx'
    \<and> (if num_awaiting_inputs e = 1
       then task_rep ctx' (loc(r := Ready))
              (v\<lparr>v_table := (v_table v)(s := remove1 r (v_table v s)), v_ready := v_ready v @ [r]\<rparr>)
       else task_rep ctx' loc v)
    \<and> map_option task_core (tasks ctx' r) = Some (task_core (e\<lparr>num_awaiting_inputs := num_awaiting_inputs e - 1\<rparr>))
    \<and> (\<forall>x. x \<noteq> r \<longrightarrow> map_option task_core (tasks ctx' x) = map_option task_core (tasks ctx x))"
proof -
  let ?e = "e\<lparr>num_awaiting_inputs := num_awaiting_inputs e - 1\<rparr>"
  let ?ctx = "ctx\<lparr>tasks := (tasks ctx)(r := Some ?e)\<rparr>"
  have rep1: "task_rep ?ctx loc v"
    by (rule task_rep_data [OF assms(1)]) (simp add: assms(3) same_links_def entry_slot_def)
  show ?thesis
  proof (cases "num_awaiting_inputs e = 1")
    case False
    then show ?thesis using assms(3) rep1 by (simp add: sched_task_pipe_ready_def)
  next
    case True
    have live: "tasks ?ctx r = Some ?e" by simp
    obtain ctx2 where d: "task_table_delete ?ctx r = Ok ctx2"
      "tasks ctx2 r = Some (set_prev None (set_next None ?e))" "tl.same_core (tasks ?ctx) (tasks ctx2)"
      "task_rep ctx2 (loc(r := Held)) (v\<lparr>v_table := (v_table v)(s := remove1 r (v_table v s))\<rparr>)"
      by (rule table_delete_rep [OF rep1 assms(2) live])
    have h: "(loc(r := Held)) r = Held" and n: "te_next (set_prev None (set_next None ?e)) = None" by simp_all
    obtain ctx3 where q: "enqueue ctx2 r = Ok ctx3" "tl.same_core (tasks ctx2) (tasks ctx3)"
      "task_rep ctx3 (loc(r := Held, r := Ready)) (v\<lparr>v_table := (v_table v)(s := remove1 r (v_table v s)),
         v_ready := v_ready v @ [r]\<rparr>)"
      by (rule enqueue_rep [where loc = "loc(r := Held)", OF d(4) h d(2) n]) simp
    have core: "map_option task_core (tasks ctx3 x) = map_option task_core (((tasks ctx)(r := Some ?e)) x)" for x
      using q(2) d(3) by (simp add: tl.same_core_def)
    show ?thesis using True assms(3) d(1) q(1,3) core
      by (intro exI [of _ ctx3]) (simp add: sched_task_pipe_ready_def)
  qed
qed

text \<open>A context with one task of node 1 of the sample service, waiting for its only input.\<close>

definition empty_ctx :: task_ctx where
  "empty_ctx = \<lparr>task_table = (\<lambda>_. None), request_table = (\<lambda>_. []), queue_head = None, queue_tail = None,
     async_pending = None, async_completed_head = None, async_completed_tail = None,
     queue_size = 0, num_reqs = 0, tasks = (\<lambda>_. None), pipe_owner = (\<lambda>_. None), next_request = 0\<rparr>"

definition empty_view :: task_view where
  "empty_view = \<lparr>v_table = (\<lambda>_. []), v_ready = [], v_pending = [], v_completed = []\<rparr>"

lemma empty_ctx_rep: "task_rep empty_ctx loc empty_view"
  by (simp add: task_rep_def rep_slot_def rep_queue_def rep_pending_def empty_ctx_def empty_view_def)

definition waiting_entry :: task_entry where
  "waiting_entry = fresh_entry 1 \<lparr>rq_id = 0, num_pending_tasks = 1, rq_scope = 3\<rparr> 1 1"

definition waiting_ctx :: task_ctx where
  "waiting_ctx = empty_ctx\<lparr>task_table := (\<lambda>_. None)(task_hash 1 0 1 := Some 7), tasks := (\<lambda>_. None)(7 := Some waiting_entry),
     request_table := (\<lambda>_. [])(request_slot 0 := [\<lparr>rq_id = 0, num_pending_tasks = 1, rq_scope = 3\<rparr>]), num_reqs := 1\<rparr>"

definition waiting_view :: task_view where
  "waiting_view = empty_view\<lparr>v_table := (\<lambda>_. [])(task_hash 1 0 1 := [7])\<rparr>"

lemma waiting_ctx_rep: "task_rep waiting_ctx (\<lambda>_. InTable (task_hash 1 0 1)) waiting_view"
  by (simp add: task_rep_def rep_slot_def rep_queue_def rep_pending_def waiting_ctx_def waiting_view_def empty_ctx_def
      empty_view_def waiting_entry_def fresh_entry_def entry_slot_def)

theorem pipe_ready_refines_witness:
  "\<exists>ctx'. sched_task_pipe_ready waiting_ctx (Some 7) = Ok ctx'
    \<and> task_rep ctx' ((\<lambda>_. InTable (task_hash 1 0 1))(7 := Ready))
        (waiting_view\<lparr>v_table := (v_table waiting_view)(task_hash 1 0 1 := []), v_ready := [7]\<rparr>)"
proof -
  have r: "7 \<in> set (v_table waiting_view (task_hash 1 0 1))" and e: "tasks waiting_ctx 7 = Some waiting_entry"
    and n: "num_awaiting_inputs waiting_entry = 1" "v_table waiting_view (task_hash 1 0 1) = [7]" "v_ready waiting_view = []"
    by (simp_all add: waiting_view_def waiting_ctx_def waiting_entry_def fresh_entry_def empty_view_def)
  show ?thesis using pipe_ready_refines [OF waiting_ctx_rep r e] n by auto
qed

text \<open>The task table finds what it holds. The entry obtained for a node of a request, found or
  created, is the one every later search for it returns until it leaves the table; searches
  for other nodes are not affected, and the lists stay well formed. This needs of the object pool
  only that it hands out unused objects.\<close>

theorem task_obtain_find:
  assumes "task_rep ctx loc v" and "\<forall>h r. env_alloc env h = Some r \<longrightarrow> h r = None"
    and "task_table_obtain env ctx service request node = Ok (r, ctx')"
  shows "task_table_find ctx' service request node = Ok (Some r)
    \<and> (\<forall>service' request' node'. (service', request', node') \<noteq> (service, request, node) \<longrightarrow>
         task_table_find ctx' service' request' node' = task_table_find ctx service' request' node')
    \<and> (\<exists>loc' v'. task_rep ctx' loc' v')"
proof (cases "task_table_find ctx service request node = Ok None")
  case False
  then have "task_table_find ctx service request node = Ok (Some r) \<and> ctx' = ctx"
    using assms(3) by (auto simp: task_table_obtain_def result_simps split: option.splits)
  then show ?thesis using assms(1) by blast
next
  case True
  let ?s = "task_hash service request node"
  let ?v = "v\<lparr>v_table := (v_table v)(?s := r # v_table v ?s)\<rparr>" and ?loc = "loc(r := InTable ?s)"
  have ins: "task_table_insert env ctx service request node = Ok (r, ctx')"
    using True assms(3) by (simp add: task_table_obtain_def)
  obtain req svc n where i: "request_entry_find ctx request = Some req" "tasks ctx r = None"
    "map_option task_core (tasks ctx' r) = Some (fresh_entry service req node n)"
    "\<forall>x. x \<noteq> r \<longrightarrow> map_option task_core (tasks ctx' x) = map_option task_core (tasks ctx x)"
    "task_rep ctx' ?loc ?v"
    by (rule table_insert_rep [OF assms(1,2) ins])
  have key: "map_option task_key (tasks ctx' r) = Some (service, request, node)"
    using task_key_core [of "tasks ctx' r" "Some (fresh_entry service req node n)"] i(3) find_request_id [OF i(1)]
    by (simp add: task_key_def fresh_entry_def task_core_def)
  have other: "map_option task_key (tasks ctx' x) = map_option task_key (tasks ctx x)" if "x \<noteq> r" for x
    using i(4) that task_key_core by blast
  have same: "List.find (\<lambda>x. map_option task_key (tasks ctx' x) = k) (v_table v s)
      = List.find (\<lambda>x. map_option task_key (tasks ctx x) = k) (v_table v s)" for k s
  proof (rule find_cong [OF refl])
    fix x assume "x \<in> set (v_table v s)"
    then have "x \<noteq> r" using task_rep_dead(2) [OF assms(1) i(2)] by auto
    then show "(map_option task_key (tasks ctx' x) = k) = (map_option task_key (tasks ctx x) = k)" using other by simp
  qed
  have "task_table_find ctx' service request node = Ok (Some r)"
    using table_find_rep [OF i(5)] key by simp
  moreover have "task_table_find ctx' service' request' node' = task_table_find ctx service' request' node'"
    if k: "(service', request', node') \<noteq> (service, request, node)" for service' request' node'
  proof -
    have "map_option task_key (tasks ctx' r) \<noteq> Some (service', request', node')"
      unfolding key using k by blast
    then have "List.find (\<lambda>x. map_option task_key (tasks ctx' x) = Some (service', request', node'))
          (v_table ?v (task_hash service' request' node'))
        = List.find (\<lambda>x. map_option task_key (tasks ctx x) = Some (service', request', node'))
          (v_table v (task_hash service' request' node'))"
      using same [of "Some (service', request', node')"] by (simp del: map_option_eq_Some)
    then show ?thesis by (simp only: table_find_rep [OF i(5)] table_find_rep [OF assms(1)])
  qed
  ultimately show ?thesis using i(5) by blast
qed

definition sample_env :: task_env where
  "sample_env = \<lparr>env_service = (\<lambda>s. if s = 1 then Some sample_chain else None), env_create = (\<lambda>_ _. None),
     env_alloc = (\<lambda>h. if h 7 = None then Some 7 else if h 8 = None then Some 8 else None), env_scope = Some 3,
     env_cancelled = (\<lambda>_. Some False), env_shadow = (\<lambda>_. Some False), env_input = (\<lambda>_. Some True),
     env_free_ok = (\<lambda>_. True), env_post = (\<lambda>_ t. (1, Some t))\<rparr>"

theorem task_obtain_find_witness:
  "\<exists>r ctx'. task_table_obtain sample_env waiting_ctx 1 0 2 = Ok (r, ctx')
     \<and> task_table_find ctx' 1 0 2 = Ok (Some r) \<and> task_table_find ctx' 1 0 1 = Ok (Some 7)"
proof -
  have key: "task_key waiting_entry = (1, 0, 1)" by (simp add: waiting_entry_def fresh_entry_def task_key_def)
  have f: "task_table_find waiting_ctx 1 0 1 = Ok (Some 7)" "task_table_find waiting_ctx 1 0 2 = Ok None"
    using table_find_rep [OF waiting_ctx_rep] key by (auto simp: waiting_view_def empty_view_def waiting_ctx_def)
  have live: "tasks waiting_ctx 7 = Some waiting_entry" "tasks waiting_ctx 8 = None" by (simp_all add: waiting_ctx_def)
  have q: "request_entry_find waiting_ctx 0 = Some \<lparr>rq_id = 0, num_pending_tasks = 1, rq_scope = 3\<rparr>"
    by (simp add: request_entry_find_def waiting_ctx_def)
  have inc: "sched_service_get_incoming_pipes sample_chain 2 = Ok [edge 1 1 2 0]"
    by (simp add: sched_service_get_incoming_pipes_def svc_node_def sample_chain_def ERROR_NODE_ID_def)
  let ?p = "task_table waiting_ctx (task_hash 1 0 2)"
  have "?p = None \<or> ?p = Some 7" by (simp add: waiting_ctx_def empty_ctx_def)
  then obtain ctx' where o: "task_table_obtain sample_env waiting_ctx 1 0 2 = Ok (8, ctx')"
    using f q inc live
    by (auto simp: task_table_obtain_def task_table_insert_def task_entry_new_def sample_env_def service_at_def
        link_push_def Let_def)
  have "\<forall>h r. env_alloc sample_env h = Some r \<longrightarrow> h r = None" by (auto simp: sample_env_def split: if_splits)
  from task_obtain_find [OF waiting_ctx_rep this o] o f show ?thesis by auto
qed



text \<open>A pending async task that completes leaves the pending list and is appended to the queue
  of completed tasks; its data and every other task stay as they are.\<close>

theorem async_completed_refines:
  assumes "task_rep ctx loc v" and "r \<in> set (v_pending v)"
  shows "\<exists>ctx'. sched_task_async_completed ctx (Some r) = Ok ctx'
    \<and> task_rep ctx' (loc(r := Completed))
        (v\<lparr>v_pending := remove1 r (v_pending v), v_completed := v_completed v @ [r]\<rparr>)
    \<and> (\<forall>x. map_option task_core (tasks ctx' x) = map_option task_core (tasks ctx x))"
proof -
  obtain ctx1 where p: "async_pending_remove ctx r = Ok ctx1" "tl.same_core (tasks ctx) (tasks ctx1)"
    "tasks ctx1 r = tasks ctx r" "tasks ctx r \<noteq> None"
    "task_rep ctx1 (loc(r := Held)) (v\<lparr>v_pending := remove1 r (v_pending v)\<rparr>)"
    by (rule pending_remove_rep [OF assms])
  then obtain e where e: "tasks ctx1 r = Some e" by auto
  have h: "(loc(r := Held)) r = Held" by simp
  obtain ctx2 where c: "async_comp_enqueue ctx1 r = Ok ctx2" "tl.same_core (tasks ctx1) (tasks ctx2)"
    "task_rep ctx2 (loc(r := Completed)) (v\<lparr>v_pending := remove1 r (v_pending v), v_completed := v_completed v @ [r]\<rparr>)"
    by (rule comp_enqueue_rep [where loc = "loc(r := Held)", OF p(5) h e]) simp
  then show ?thesis using p(1,2) by (simp add: sched_task_async_completed_def tl.same_core_def)
qed

definition pending_ctx :: task_ctx where
  "pending_ctx = empty_ctx\<lparr>async_pending := Some 7, tasks := (\<lambda>_. None)(7 := Some waiting_entry)\<rparr>"

lemma pending_ctx_rep: "task_rep pending_ctx (\<lambda>_. Pending) (empty_view\<lparr>v_pending := [7]\<rparr>)"
  by (simp add: task_rep_def rep_slot_def rep_queue_def rep_pending_def pending_ctx_def empty_ctx_def
      empty_view_def waiting_entry_def fresh_entry_def)

theorem async_completed_refines_witness:
  "\<exists>ctx'. sched_task_async_completed pending_ctx (Some 7) = Ok ctx'
    \<and> task_rep ctx' ((\<lambda>_. Pending)(7 := Completed)) (empty_view\<lparr>v_pending := [], v_completed := [7]\<rparr>)"
proof -
  have "7 \<in> set (v_pending (empty_view\<lparr>v_pending := [7]\<rparr>))" by simp
  from async_completed_refines [OF pending_ctx_rep this] show ?thesis by (auto simp: empty_view_def)
qed

subsection \<open>Requests and their tasks\<close>

definition requests_wf :: "task_ctx \<Rightarrow> bool" where
  "requests_wf ctx \<longleftrightarrow> (\<forall>s. distinct (map rq_id (request_table ctx s)))"

abbreviation find_request :: "request_id \<Rightarrow> request_entry list \<Rightarrow> request_entry option" where
  "find_request q \<equiv> List.find (\<lambda>e. rq_id e = q)"

lemma find_request_None: "find_request q es = None \<longleftrightarrow> q \<notin> rq_id ` set es"
  by (auto simp: find_None_iff)

lemma drop_request_find:
  "find_request q es = Some e \<Longrightarrow> distinct (map rq_id es) \<Longrightarrow>
     \<exists>es'. drop_request q es = Some es' \<and> find_request q es' = None \<and> distinct (map rq_id es')
       \<and> set es' \<subseteq> set es \<and> (\<forall>q'. q' \<noteq> q \<longrightarrow> find_request q' es' = find_request q' es)"
proof (induction es)
  case Nil
  then show ?case by simp
next
  case (Cons a es)
  show ?case
  proof (cases "rq_id a = q")
    case True
    then show ?thesis using Cons.prems by (auto simp: find_request_None)
  next
    case False
    then obtain es' where "drop_request q es = Some es'" "find_request q es' = None" "distinct (map rq_id es')"
      "set es' \<subseteq> set es" "\<forall>q'. q' \<noteq> q \<longrightarrow> find_request q' es' = find_request q' es"
      using Cons by auto
    with False Cons.prems(2) show ?thesis by (auto simp: image_iff)
  qed
qed

lemma map_request_find:
  assumes "\<And>e. rq_id (f e) = rq_id e"
  shows "find_request q' (map_request q f es) = (if q' = q then map_option f (find_request q es) else find_request q' es)"
    and "map rq_id (map_request q f es) = map rq_id es"
  using assms by (induction es) auto

lemma request_update_find:
  assumes "\<And>e. rq_id (f e) = rq_id e"
  shows "request_entry_find (request_update ctx q f) q'
      = (if q' = q then map_option f (request_entry_find ctx q) else request_entry_find ctx q')"
    and "requests_wf (request_update ctx q f) = requests_wf ctx"
    and "num_reqs (request_update ctx q f) = num_reqs ctx"
  using map_request_find [of f, OF assms]
  by (auto simp: request_entry_find_def request_update_def requests_wf_def)

lemma request_delete_find:
  assumes "requests_wf ctx" and "request_entry_find ctx q = Some e"
  shows "request_entry_find (snd (request_entry_delete ctx q)) q' = (if q' = q then None else request_entry_find ctx q')"
    and "requests_wf (snd (request_entry_delete ctx q))"
    and "num_reqs (snd (request_entry_delete ctx q)) = num_reqs ctx - 1"
    and "tasks (snd (request_entry_delete ctx q)) = tasks ctx"
proof -
  obtain es where es: "drop_request q (request_table ctx (request_slot q)) = Some es" "find_request q es = None"
    "distinct (map rq_id es)" "\<forall>q'. q' \<noteq> q \<longrightarrow> find_request q' es = find_request q' (request_table ctx (request_slot q))"
    using drop_request_find [of q "request_table ctx (request_slot q)" e] assms
    by (auto simp: request_entry_find_def requests_wf_def)
  then show "request_entry_find (snd (request_entry_delete ctx q)) q' = (if q' = q then None else request_entry_find ctx q')"
    and "requests_wf (snd (request_entry_delete ctx q))"
    and "num_reqs (snd (request_entry_delete ctx q)) = num_reqs ctx - 1"
    and "tasks (snd (request_entry_delete ctx q)) = tasks ctx"
    using assms(1) by (auto simp: request_entry_delete_def request_entry_find_def requests_wf_def)
qed

text \<open>
  The live tasks of a request, and the accounts: every live task belongs to a registered
  request, and the counter of a request is the number of its live tasks.
\<close>

definition live_tasks :: "task_ctx \<Rightarrow> request_id \<Rightarrow> task_ref set" where
  "live_tasks ctx q = {r. map_option te_request (tasks ctx r) = Some q}"

definition accounts :: "task_ctx \<Rightarrow> bool" where
  "accounts ctx \<longleftrightarrow> requests_wf ctx \<and> finite (dom (tasks ctx))
     \<and> (\<forall>q. request_entry_find ctx q = None \<longrightarrow> live_tasks ctx q = {})
     \<and> (\<forall>q e. request_entry_find ctx q = Some e \<longrightarrow> num_pending_tasks e = of_nat (card (live_tasks ctx q)))"

lemma live_tasks_finite: "accounts ctx \<Longrightarrow> finite (live_tasks ctx q)"
  by (rule finite_subset [of _ "dom (tasks ctx)"]) (auto simp: live_tasks_def accounts_def)

lemma live_tasks_free:
  "tasks ctx' = (tasks ctx)(r := None) \<Longrightarrow> live_tasks ctx' q = live_tasks ctx q - {r}"
  by (auto simp: live_tasks_def)

lemma task_entry_new_accounts:
  assumes "accounts ctx" and "\<forall>h r. env_alloc env h = Some r \<longrightarrow> h r = None"
    and "task_entry_new env ctx service request node = Ok (r, ctx')"
  shows "accounts ctx'" and "live_tasks ctx' request = insert r (live_tasks ctx request)"
proof -
  obtain req svc inc where q: "request_entry_find ctx request = Some req" "env_alloc env (tasks ctx) = Some r"
    "env_service env service = Some svc" "sched_service_get_incoming_pipes svc node = Ok inc"
    and ctx0: "ctx' = request_update (ctx\<lparr>tasks := (tasks ctx)(r := Some (fresh_entry service req node (length inc)))\<rparr>)
        request (\<lambda>q. q\<lparr>num_pending_tasks := num_pending_tasks q + 1\<rparr>)"
    by (rule entry_new_Ok [OF assms(3)])
  define e where "e = fresh_entry service req node (length inc)"
  have er: "te_request e = request" using find_request_id [OF q(1)] by (simp add: e_def fresh_entry_def)
  note ctx' = ctx0 [folded e_def]
  have dead: "tasks ctx r = None" using assms(2) q(2) by blast
  have live: "live_tasks ctx' q' = (if q' = request then insert r (live_tasks ctx q') else live_tasks ctx q')" for q'
    using dead er by (auto simp: live_tasks_def ctx')
  then show "live_tasks ctx' request = insert r (live_tasks ctx request)" by simp
  have "r \<notin> live_tasks ctx request" using dead by (simp add: live_tasks_def)
  then have card: "card (insert r (live_tasks ctx request)) = card (live_tasks ctx request) + 1"
    using live_tasks_finite [OF assms(1)] by simp
  let ?ctx1 = "ctx\<lparr>tasks := (tasks ctx)(r := Some e)\<rparr>"
  have f1: "request_entry_find ?ctx1 q' = request_entry_find ctx q'" for q' by (simp add: request_entry_find_def)
  have f: "request_entry_find ctx' q' = (if q' = request then Some (req\<lparr>num_pending_tasks := num_pending_tasks req + 1\<rparr>)
      else request_entry_find ctx q')" for q'
    unfolding ctx' by (subst request_update_find(1)) (simp_all add: f1 q(1))
  have p: "num_pending_tasks req = of_nat (card (live_tasks ctx request))"
    using assms(1) q(1) by (simp add: accounts_def)
  have "live_tasks ctx' q' = {}" if "request_entry_find ctx' q' = None" for q'
    using that assms(1) f live by (auto simp: accounts_def split: if_splits)
  moreover have "num_pending_tasks x = of_nat (card (live_tasks ctx' q'))" if "request_entry_find ctx' q' = Some x" for q' x
    using that assms(1) f live p card by (auto simp: accounts_def split: if_splits)
  moreover have "requests_wf ctx'"
    unfolding ctx' by (subst request_update_find(2)) (use assms(1) in \<open>simp_all add: accounts_def requests_wf_def\<close>)
  moreover have "finite (dom (tasks ctx'))" using assms(1) by (simp add: ctx' accounts_def)
  ultimately show "accounts ctx'" by (simp add: accounts_def)
qed



text \<open>When the creation of a request fails after its input task was inserted, the request entry
  is deleted and its number is used again, but the task stays in the table with the number
  and the disposed scope of the failed request; the next request finds it there.\<close>

theorem failed_request_leaves_task:
  "\<exists>ctx'. sched_task_new_request sample_env empty_ctx 1 20 21 = Ok (None, ctx')
     \<and> next_request ctx' = next_request empty_ctx \<and> request_entry_find ctx' 0 = None
     \<and> task_table_find ctx' 1 0 0 = Ok (Some 7) \<and> \<not> accounts ctx'"
proof -
  let ?req = "\<lparr>rq_id = 0, num_pending_tasks = 0, rq_scope = 3\<rparr>"
  have h: "task_hash 1 0 0 = 15505" "task_hash 1 0 2 = 15507"
    by (simp_all add: task_hash_def SCHED_TASK_TABLE_SLOT_SIZE_def)
  have inc: "sched_service_get_incoming_pipes sample_chain 0 = Ok []"
    "sched_service_get_incoming_pipes sample_chain 2 = Ok [edge 1 1 2 0]"
    by (simp_all add: sched_service_get_incoming_pipes_def svc_node_def sample_chain_def ERROR_NODE_ID_def)
  have io: "svc_input_node sample_chain = 0" "svc_output_node sample_chain = 2" by (simp_all add: sample_chain_def)
  let ?in = "fresh_entry 1 ?req 0 0" and ?out = "fresh_entry 1 ?req 2 1"
  let ?ctx' = "empty_ctx\<lparr>task_table := (\<lambda>_. None)(15505 := Some 7, 15507 := Some 8),
    tasks := (\<lambda>_. None)(7 := Some ?in, 8 := Some ?out), num_reqs := 0,
    request_table := (\<lambda>_. [])(request_slot 0 := [])\<rparr>"
  have run: "sched_task_new_request sample_env empty_ctx 1 20 21 = Ok (None, ?ctx')"
    by (simp add: sched_task_new_request_def request_entry_insert_def request_entry_new_def service_at_def
        new_request_tasks_def task_table_insert_def task_entry_new_def request_entry_find_def sample_env_def
        empty_ctx_def inc io h [simplified] request_update_def link_push_def task_instantiate_def or_fail_def fail_def
        request_entry_delete_def fresh_entry_def Let_def)
  have find: "task_table_find ?ctx' 1 0 0 = Ok (Some 7)"
    by (simp add: task_table_find_def h [simplified] find_from.simps fresh_entry_def task_key_def)
  have q: "request_entry_find ?ctx' 0 = None" by (simp add: request_entry_find_def)
  have "7 \<in> live_tasks ?ctx' 0" by (simp add: live_tasks_def fresh_entry_def)
  then have "\<not> accounts ?ctx'" using q by (auto simp: accounts_def)
  with run find q show ?thesis by (intro exI [of _ ?ctx']) simp
qed

end
