(* ===== verification/Step.thy ===== *)
theory Step
  imports TaskLists
begin

unbundle bit_operations_syntax

text \<open>
  One step of the scheduler, \<^verbatim>\<open>sched_step_next\<close> of \<^verbatim>\<open>src/sched/step.c\<close>: take the next ready task,
  create its output pipes and hand their other ends to the downstream tasks, run the servlet,
  raise the null or the error signal, and dispose of the task; an asynchronous task is posted to
  the async processor instead of being run. The inter-task communication layer (\<^verbatim>\<open>src/itc\<close>) is
  the argument \<open>itc_api\<close>, over a state of any type; the profiler is compiled out.
\<close>

subsection \<open>Environment and state\<close>

definition RUNTIME_API_PIPE_SHADOW :: pipe_flags where "RUNTIME_API_PIPE_SHADOW = 0x80000"
definition RUNTIME_API_PIPE_DISABLED :: pipe_flags where "RUNTIME_API_PIPE_DISABLED = 0x100000"
definition RUNTIME_API_PIPE_FLAGS_TARGET_MASK :: pipe_flags where "RUNTIME_API_PIPE_FLAGS_TARGET_MASK = 0xffff"

definition RUNTIME_API_PIPE_TO_PID :: "32 word \<Rightarrow> pipe_id" where
  "RUNTIME_API_PIPE_TO_PID pipe = unat (pipe AND 0xffffff) mod 2 ^ 16"

record pipe_param =
  output_flags :: pipe_flags
  output_header :: nat
  input_flags :: pipe_flags
  input_header :: nat

text \<open>
  The calls into the communication layer. A write returns the number of bytes it took, \<open>None\<close> for an
  error; \<open>itc_run\<close> is the servlet: what its callbacks return and the state they leave.
\<close>

record 'i itc_api =
  itc_allocate :: "pipe_param \<Rightarrow> 'i \<Rightarrow> (nat option \<times> nat option) option \<times> 'i"
  itc_fork :: "nat option \<Rightarrow> pipe_flags \<Rightarrow> nat \<Rightarrow> 'i \<Rightarrow> nat option \<times> 'i"
  itc_is_touched :: "nat option \<Rightarrow> 'i \<Rightarrow> bool option"
  itc_write_byte :: "nat \<Rightarrow> 'i \<Rightarrow> nat option \<times> 'i"
  itc_set_error :: "nat option \<Rightarrow> 'i \<Rightarrow> bool \<times> 'i"
  itc_run :: "runtime_task \<Rightarrow> 'i \<Rightarrow> servlet_def \<times> 'i"
  async_status :: "nat option \<Rightarrow> int option"

record 'i step_state =
  ss_ctx :: task_ctx
  ss_itc :: 'i
  ss_scope :: "nat option"

definition sched_step_current_scope :: "'i step_state \<Rightarrow> nat option" where
  "sched_step_current_scope s = ss_scope s"

text \<open>An operation on the task table, lifted to the state of a step.\<close>

definition on_ctx :: "task_ctx status \<Rightarrow> 'i step_state \<Rightarrow> 'i step_state status" where
  "on_ctx r s = rmap (\<lambda>(ok, ctx). (ok, s\<lparr>ss_ctx := ctx\<rparr>)) r"

definition exec_task :: "task_ctx \<Rightarrow> task_ref \<Rightarrow> runtime_task result" where
  "exec_task ctx r = rbind (deref (tasks ctx) r) (\<lambda>e. case te_exec e of None \<Rightarrow> Undef | Some t \<Rightarrow> Ok t)"

definition set_exec_task :: "task_ctx \<Rightarrow> task_ref \<Rightarrow> runtime_task \<Rightarrow> task_ctx result" where
  "set_exec_task ctx r t = rmap (\<lambda>h. ctx\<lparr>tasks := h\<rparr>) (modify (tasks ctx) r (\<lambda>e. e\<lparr>te_exec := Some t\<rparr>))"

subsection \<open>Connecting the outputs\<close>

text \<open>The two ends of one outgoing pipe: a fork of the target for a shadow pipe, a new pipe otherwise.\<close>

definition create_ends ::
  "'i itc_api \<Rightarrow> task_env \<Rightarrow> stab \<Rightarrow> service \<Rightarrow> task_ref \<Rightarrow> pipe_descriptor \<Rightarrow> 'i step_state
     \<Rightarrow> ((nat option \<times> nat option) option \<times> 'i step_state) result" where
  "create_ends itc env st svc r d s =
     rbind (sched_service_get_pipe_flags st svc (source_node_id d) (source_pipe_desc d)) (\<lambda>out_flags.
     if out_flags = ERROR_FLAGS then Ok (None, s) else
     rbind (sched_service_get_pipe_flags st svc (destination_node_id d) (destination_pipe_desc d)) (\<lambda>in_flags.
     if in_flags = ERROR_FLAGS then Ok (None, s) else
     rbind (sched_service_get_pipe_type_size st svc (source_node_id d) (source_pipe_desc d)) (\<lambda>output_header_size.
     if output_header_size = ERROR_SIZE then Ok (None, s) else
     rbind (sched_service_get_pipe_type_size st svc (destination_node_id d) (destination_pipe_desc d)) (\<lambda>input_header_size.
     if input_header_size = ERROR_SIZE then Ok (None, s) else
     if out_flags AND RUNTIME_API_PIPE_SHADOW \<noteq> 0
     then let target = out_flags AND RUNTIME_API_PIPE_FLAGS_TARGET_MASK;
              disabled = out_flags AND RUNTIME_API_PIPE_DISABLED
          in rbind (pipe_at (ss_ctx s) r (unat target)) (\<lambda>src.
             let (p, i) = itc_fork itc src (in_flags OR RUNTIME_API_PIPE_SHADOW OR target OR disabled) input_header_size (ss_itc s);
                 s1 = s\<lparr>ss_itc := i\<rparr>
             in rmap (\<lambda>(ok, s2). (if ok then Some (None, p) else None, s2))
                  (on_ctx (sched_task_output_shadow env (ss_ctx s1) (Some r) (source_pipe_desc d) p) s1))
     else let (ends, i) = itc_allocate itc \<lparr>output_flags = out_flags, output_header = output_header_size,
                            input_flags = in_flags, input_header = input_header_size\<rparr> (ss_itc s)
          in Ok (ends, s\<lparr>ss_itc := i\<rparr>)))))"

definition link_output ::
  "'i itc_api \<Rightarrow> task_env \<Rightarrow> stab \<Rightarrow> service \<Rightarrow> task_ref \<Rightarrow> task_entry \<Rightarrow> bool \<Rightarrow> bool \<Rightarrow> pipe_descriptor
     \<Rightarrow> 'i step_state \<Rightarrow> 'i step_state status" where
  "link_output itc env st svc r e pipe_init async_init d s =
     (if pipe_init
      then rbind (create_ends itc env st svc r d s) (\<lambda>(ends, s1).
           case ends of None \<Rightarrow> fail s1
           | Some (p0, p1) \<Rightarrow>
               seq_ok (if p0 = None then succ s1
                       else on_ctx (sched_task_output_pipe env (ss_ctx s1) (Some r) (source_pipe_desc d) p0) s1) (\<lambda>s2.
               on_ctx (sched_task_input_pipe env (ss_ctx s2) (te_service e) (te_request e)
                         (destination_node_id d) (destination_pipe_desc d) p1 async_init) s2))
      else on_ctx (sched_task_input_pipe env (ss_ctx s) (te_service e) (te_request e)
                     (destination_node_id d) (destination_pipe_desc d) None True) s)"

fun link_outputs ::
  "'i itc_api \<Rightarrow> task_env \<Rightarrow> stab \<Rightarrow> service \<Rightarrow> task_ref \<Rightarrow> task_entry \<Rightarrow> bool \<Rightarrow> bool \<Rightarrow> pipe_descriptor list
     \<Rightarrow> 'i step_state \<Rightarrow> 'i step_state status" where
  "link_outputs itc env st svc r e pipe_init async_init [] s = succ s"
| "link_outputs itc env st svc r e pipe_init async_init (d # ds) s =
     seq_ok (link_output itc env st svc r e pipe_init async_init d s)
       (link_outputs itc env st svc r e pipe_init async_init ds)"

subsection \<open>Signals\<close>

text \<open>Writing one byte, again and again until it is taken; \<open>None\<close> stands for a loop that does not end.\<close>

partial_function (option) touch_loop :: "'i itc_api \<Rightarrow> nat \<Rightarrow> 'i \<Rightarrow> (bool \<times> 'i) option" where
  "touch_loop itc h i =
     (case itc_write_byte itc h i of
        (rc, i1) \<Rightarrow> (case rc of None \<Rightarrow> Some (False, i1)
          | Some n \<Rightarrow> if n = 0 then touch_loop itc h i1 else Some (True, i1)))"

definition touch_pipe :: "'i itc_api \<Rightarrow> nat \<Rightarrow> 'i step_state \<Rightarrow> 'i step_state status" where
  "touch_pipe itc h s = (case touch_loop itc h (ss_itc s) of
     None \<Rightarrow> Undef | Some (ok, i) \<Rightarrow> Ok (ok, s\<lparr>ss_itc := i\<rparr>))"

text \<open>The signal pipes of the servlet of a task, and the pipes that carry data.\<close>

definition signals :: "stab \<Rightarrow> runtime_task \<Rightarrow> (32 word \<times> 32 word) result" where
  "signals st t = (case get_servlet st (rt_servlet t) of Ok sv \<Rightarrow> Ok (sv_sig_null sv, sv_sig_error sv) | _ \<Rightarrow> Undef)"

definition data_pipe :: "32 word \<times> 32 word \<Rightarrow> pipe_descriptor \<Rightarrow> bool" where
  "data_pipe sg d \<longleftrightarrow> of_nat (source_pipe_desc d) \<noteq> fst sg \<and> of_nat (source_pipe_desc d) \<noteq> snd sg"

text \<open>Whether some data pipe was written: the scan stops at the first one; \<open>None\<close> is an error.\<close>

fun any_touched ::
  "'i itc_api \<Rightarrow> runtime_task \<Rightarrow> 32 word \<times> 32 word \<Rightarrow> 'i \<Rightarrow> pipe_descriptor list \<Rightarrow> bool option result" where
  "any_touched itc t sg i [] = Ok (Some False)"
| "any_touched itc t sg i (d # ds) =
     (if data_pipe sg d
      then rbind (list_get (rt_pipes t) (source_pipe_desc d)) (\<lambda>h.
           case itc_is_touched itc h i of None \<Rightarrow> Ok None | Some True \<Rightarrow> Ok (Some True)
           | Some False \<Rightarrow> any_touched itc t sg i ds)
      else any_touched itc t sg i ds)"

definition null_signal ::
  "'i itc_api \<Rightarrow> stab \<Rightarrow> runtime_task \<Rightarrow> pipe_descriptor list \<Rightarrow> 'i step_state \<Rightarrow> 'i step_state status" where
  "null_signal itc st t pds s =
     rbind (signals st t) (\<lambda>sg.
     rbind (list_get (rt_pipes t) (RUNTIME_API_PIPE_TO_PID (fst sg))) (\<lambda>h.
     case h of None \<Rightarrow> succ s
     | Some null_pipe \<Rightarrow>
         rbind (any_touched itc t sg (ss_itc s) pds) (\<lambda>touched.
         case touched of None \<Rightarrow> fail s | Some True \<Rightarrow> succ s | Some False \<Rightarrow> touch_pipe itc null_pipe s)))"

fun set_errors ::
  "'i itc_api \<Rightarrow> runtime_task \<Rightarrow> 32 word \<times> 32 word \<Rightarrow> pipe_descriptor list \<Rightarrow> 'i step_state \<Rightarrow> 'i step_state status" where
  "set_errors itc t sg [] s = succ s"
| "set_errors itc t sg (d # ds) s =
     (if data_pipe sg d
      then rbind (list_get (rt_pipes t) (source_pipe_desc d)) (\<lambda>h.
           let (ok, i) = itc_set_error itc h (ss_itc s); s1 = s\<lparr>ss_itc := i\<rparr>
           in if \<not> ok then fail s1 else set_errors itc t sg ds s1)
      else set_errors itc t sg ds s)"

definition error_signal ::
  "'i itc_api \<Rightarrow> stab \<Rightarrow> runtime_task \<Rightarrow> pipe_descriptor list \<Rightarrow> 'i step_state \<Rightarrow> 'i step_state status" where
  "error_signal itc st t pds s =
     rbind (signals st t) (\<lambda>sg.
     seq_ok (set_errors itc t sg pds s) (\<lambda>s1.
     rbind (list_get (rt_pipes t) (RUNTIME_API_PIPE_TO_PID (snd sg))) (\<lambda>h.
     case h of None \<Rightarrow> succ s1 | Some error_pipe \<Rightarrow> touch_pipe itc error_pipe s1)))"

subsection \<open>The step\<close>

datatype step_outcome = StartOver | Returned int

text \<open>The two ways out: \<open>done\<close> after the work, \<open>lerr\<close> after an error of the scheduler itself.\<close>

definition step_done :: "task_env \<Rightarrow> task_ref \<Rightarrow> 'i step_state \<Rightarrow> (step_outcome \<times> 'i step_state) result" where
  "step_done env r s = rmap (\<lambda>(ok, ctx). (Returned 1, s\<lparr>ss_ctx := ctx\<rparr>)) (sched_task_free env (ss_ctx s) r)"

definition step_lerr :: "task_env \<Rightarrow> task_ref \<Rightarrow> 'i step_state \<Rightarrow> (step_outcome \<times> 'i step_state) result" where
  "step_lerr env r s = rmap (\<lambda>(ok, ctx). (Returned (-1), s\<lparr>ss_ctx := ctx\<rparr>)) (sched_task_free env (ss_ctx s) r)"

definition or_lerr ::
  "task_env \<Rightarrow> task_ref \<Rightarrow> 'i step_state status \<Rightarrow> ('i step_state \<Rightarrow> (step_outcome \<times> 'i step_state) result)
     \<Rightarrow> (step_outcome \<times> 'i step_state) result" where
  "or_lerr env r x f = rbind x (\<lambda>(ok, s). if ok then f s else step_lerr env r s)"

definition task_failed ::
  "'i itc_api \<Rightarrow> task_env \<Rightarrow> stab \<Rightarrow> task_ref \<Rightarrow> pipe_descriptor list \<Rightarrow> 'i step_state
     \<Rightarrow> (step_outcome \<times> 'i step_state) result" where
  "task_failed itc env st r pds s =
     rbind (exec_task (ss_ctx s) r) (\<lambda>t. or_lerr env r (error_signal itc st t pds s) (step_done env r))"

text \<open>Running the task: the callback, the status of a finished asynchronous task, the null signal.\<close>

definition run_task ::
  "'i itc_api \<Rightarrow> task_env \<Rightarrow> stab \<Rightarrow> task_ref \<Rightarrow> task_entry \<Rightarrow> bool \<Rightarrow> pipe_descriptor list \<Rightarrow> 'i step_state
     \<Rightarrow> (step_outcome \<times> 'i step_state) result" where
  "run_task itc env st r e pipe_init pds s =
     rbind (exec_task (ss_ctx s) r) (\<lambda>t.
     let (def, i) = itc_run itc t (ss_itc s); s1 = s\<lparr>ss_scope := Some (te_scope e), ss_itc := i\<rparr>
     in case runtime_task_start def (Some t) of
          Undef \<Rightarrow> Undef
        | Error \<Rightarrow> task_failed itc env st r pds (s\<lparr>ss_scope := Some (te_scope e)\<rparr>)
        | Ok (rc, t1) \<Rightarrow>
            rbind (set_exec_task (ss_ctx s1) r t1) (\<lambda>ctx1.
            let s2 = s1\<lparr>ss_ctx := ctx1\<rparr>
            in if rc = -1 then task_failed itc env st r pds s2
               else if \<not> pipe_init \<and> (case async_status itc (async_handle t1) of None \<Rightarrow> True | Some c \<Rightarrow> c = -1)
               then task_failed itc env st r pds s2
               else or_lerr env r (null_signal itc st t1 pds s2) (step_done env r)))"

text \<open>When the async processor does not take the task, the downstream tasks are told at once.\<close>

fun notify_all :: "task_env \<Rightarrow> task_entry \<Rightarrow> pipe_descriptor list \<Rightarrow> 'i step_state \<Rightarrow> 'i step_state result" where
  "notify_all env e [] s = Ok s"
| "notify_all env e (d # ds) s =
     rbind (sched_task_input_pipe env (ss_ctx s) (te_service e) (te_request e) (destination_node_id d)
              (destination_pipe_desc d) None True)
       (\<lambda>(ok, ctx). notify_all env e ds (s\<lparr>ss_ctx := ctx\<rparr>))"

definition launch_task ::
  "'i itc_api \<Rightarrow> task_env \<Rightarrow> stab \<Rightarrow> task_ref \<Rightarrow> task_entry \<Rightarrow> pipe_descriptor list \<Rightarrow> 'i step_state
     \<Rightarrow> (step_outcome \<times> 'i step_state) result" where
  "launch_task itc env st r e pds s =
     rbind (sched_task_launch_async env (ss_ctx s) (Some r)) (\<lambda>(rc, ctx1).
     let s1 = s\<lparr>ss_ctx := ctx1\<rparr>
     in if rc = -1 then rbind (notify_all env e pds s1) (task_failed itc env st r pds)
        else if rc = 0 then Ok (StartOver, s1)
        else Ok (Returned 1, s1))"

definition step_round ::
  "'i itc_api \<Rightarrow> task_env \<Rightarrow> stab \<Rightarrow> task_ref \<Rightarrow> 'i step_state \<Rightarrow> (step_outcome \<times> 'i step_state) result" where
  "step_round itc env st r s =
     rbind (deref (tasks (ss_ctx s)) r) (\<lambda>e.
     rbind (service_at env (te_service e)) (\<lambda>svc.
     case sched_service_get_outgoing_pipes svc (te_node e) of
       Undef \<Rightarrow> Undef
     | Error \<Rightarrow> step_lerr env r s
     | Ok pds \<Rightarrow>
         rbind (exec_task (ss_ctx s) r) (\<lambda>t.
         let pipe_init = (\<not> runtime_task_is_async t
               \<or> rt_flags t AND (RUNTIME_TASK_FLAG_ACTION_UNLOAD OR RUNTIME_TASK_FLAG_ACTION_EXEC) = 0);
             async_init = (pipe_init \<and> runtime_task_is_async t)
         in or_lerr env r (link_outputs itc env st svc r e pipe_init async_init pds s) (\<lambda>s1.
            if \<not> async_init then run_task itc env st r e pipe_init pds s1
            else launch_task itc env st r e pds s1))))"

partial_function (option) step_task ::
  "'i itc_api \<Rightarrow> task_env \<Rightarrow> stab \<Rightarrow> task_ref \<Rightarrow> 'i step_state \<Rightarrow> (int \<times> 'i step_state) result option" where
  "step_task itc env st r s =
     (case step_round itc env st r s of
        Undef \<Rightarrow> Some Undef | Error \<Rightarrow> Some Error
      | Ok (out, s1) \<Rightarrow> (case out of StartOver \<Rightarrow> step_task itc env st r s1 | Returned rc \<Rightarrow> Some (Ok (rc, s1))))"

definition sched_step_next ::
  "'i itc_api \<Rightarrow> task_env \<Rightarrow> stab \<Rightarrow> 'i step_state \<Rightarrow> (int \<times> 'i step_state) result option" where
  "sched_step_next itc env st s =
     (case next_ready_task env (ss_ctx s) of
        None \<Rightarrow> None
      | Some Undef \<Rightarrow> Some Undef | Some Error \<Rightarrow> Some Error
      | Some (Ok (p, ctx)) \<Rightarrow>
          (case p of None \<Rightarrow> Some (Ok (0, s\<lparr>ss_ctx := ctx\<rparr>)) | Some r \<Rightarrow> step_task itc env st r (s\<lparr>ss_ctx := ctx\<rparr>)))"

subsection \<open>What a step leaves behind\<close>

lemma request_delete_tasks [simp]: "tasks (snd (request_entry_delete ctx q)) = tasks ctx"
  by (simp add: request_entry_delete_def split: option.splits)

lemma task_free_gone: "sched_task_free env ctx r = Ok (ok, ctx') \<Longrightarrow> tasks ctx' r = None"
  by (auto simp: sched_task_free_def Let_def result_simps request_update_def split: option.splits if_splits)

lemma task_free_live: "tasks ctx r \<noteq> None \<Longrightarrow> \<exists>ok ctx'. sched_task_free env ctx r = Ok (ok, ctx')"
  by (auto simp: sched_task_free_def Let_def deref_def split: option.splits)

lemma step_exit_gone:
  "step_done env r s = Ok (out, s') \<Longrightarrow> out = Returned 1 \<and> tasks (ss_ctx s') r = None"
  "step_lerr env r s = Ok (out, s') \<Longrightarrow> out = Returned (-1) \<and> tasks (ss_ctx s') r = None"
  using task_free_gone by (auto simp: step_done_def step_lerr_def result_simps)

text \<open>The task was disposed of, or it is pending and the step reports work done.\<close>

definition settled :: "task_ref \<Rightarrow> step_outcome \<Rightarrow> 'i step_state \<Rightarrow> bool" where
  "settled r out s \<longleftrightarrow> (case out of StartOver \<Rightarrow> True
     | Returned rc \<Rightarrow> (rc = 1 \<or> rc = -1) \<and> tasks (ss_ctx s) r = None
         \<or> rc = 1 \<and> async_pending (ss_ctx s) = Some r \<and> tasks (ss_ctx s) r \<noteq> None)"

definition settles :: "task_ref \<Rightarrow> (step_outcome \<times> 'i step_state) result \<Rightarrow> bool" where
  "settles r x \<longleftrightarrow> (\<forall>out s. x = Ok (out, s) \<longrightarrow> settled r out s)"

lemma settles_bind: "(\<And>v. m = Ok v \<Longrightarrow> settles r (f v)) \<Longrightarrow> settles r (rbind m f)"
  by (cases m) (auto simp: settles_def)

lemma settles_exit: "settles r (step_done env r s)" "settles r (step_lerr env r s)"
  using step_exit_gone by (force simp: settles_def settled_def)+

lemma settles_or_lerr: "(\<And>s. settles r (f s)) \<Longrightarrow> settles r (or_lerr env r x f)"
  unfolding or_lerr_def by (rule settles_bind) (auto simp: settles_exit split: prod.split)

lemma settles_Undef: "settles r Undef"
  by (simp add: settles_def)

lemma task_failed_settles: "settles r (task_failed itc env st r pds s)"
  unfolding task_failed_def by (intro settles_bind settles_or_lerr settles_exit)

lemma run_task_settles: "settles r (run_task itc env st r e pi pds s)"
  unfolding run_task_def Let_def
  by (rule settles_bind)
    (auto simp: task_failed_settles settles_Undef split: prod.split result.split
      intro!: settles_bind settles_or_lerr settles_exit)

lemma pending_add_keeps:
  "async_pending_add ctx r = Ok ctx' \<Longrightarrow> async_pending ctx' = Some r \<and> tasks ctx' r \<noteq> None"
  by (auto simp: async_pending_add_def result_simps link_push_def modify_def modify_opt_def deref_def
      split: option.splits)

lemma launch_async_pending:
  assumes "\<forall>r t. fst (env_post env r t) \<ge> -2" and "sched_task_launch_async env ctx (Some r) = Ok (rc, ctx1)"
    and "rc \<noteq> -1" and "rc \<noteq> 0"
  shows "async_pending ctx1 = Some r \<and> tasks ctx1 r \<noteq> None"
proof -
  obtain e t where e: "deref (tasks ctx) r = Ok e" "te_exec e = Some t"
    using assms(2) by (auto simp: sched_task_launch_async_def result_simps split: option.splits)
  obtain rc' t' where p: "env_post env r t = (rc', t')" by fastforce
  have "rc' \<ge> -2" using assms(1) [rule_format, of r t] p by simp
  then have "rc' = -2 \<or> rc' = -1 \<or> rc' = 0 \<or> rc' > 0" by linarith
  then show ?thesis
    using assms(2-4) e p pending_add_keeps
    by (auto simp: sched_task_launch_async_def result_simps Let_def split: if_splits)
qed

lemma launch_task_settles:
  assumes "\<forall>r t. fst (env_post env r t) \<ge> -2"
  shows "settles r (launch_task itc env st r e pds s)"
  unfolding launch_task_def Let_def
proof (rule settles_bind)
  fix v
  assume v: "sched_task_launch_async env (ss_ctx s) (Some r) = Ok v"
  show "settles r (case v of (rc, ctx1) \<Rightarrow>
      if rc = -1 then rbind (notify_all env e pds (s\<lparr>ss_ctx := ctx1\<rparr>)) (task_failed itc env st r pds)
      else if rc = 0 then Ok (StartOver, s\<lparr>ss_ctx := ctx1\<rparr>) else Ok (Returned 1, s\<lparr>ss_ctx := ctx1\<rparr>))"
    using launch_async_pending [OF assms, of "ss_ctx s" r] v
    by (cases v) (auto simp: settles_def [of r "Ok _"] settled_def intro!: settles_bind task_failed_settles)
qed

lemma step_round_settles:
  assumes "\<forall>r t. fst (env_post env r t) \<ge> -2"
  shows "settles r (step_round itc env st r s)"
  unfolding step_round_def Let_def
  by (intro settles_bind)
    (auto simp: settles_Undef settles_exit split: result.split
      intro!: settles_bind settles_or_lerr run_task_settles launch_task_settles [OF assms])

lemma step_task_settled:
  assumes "\<forall>r t. fst (env_post env r t) \<ge> -2" and "step_task itc env st r s = Some (Ok (rc, s'))"
  shows "settled r (Returned rc) s'"
proof -
  let ?P = "\<lambda>itc env st r s x. (\<forall>r t. fst (env_post env r t) \<ge> -2) \<longrightarrow>
    (\<forall>rc s'. x = Ok (rc, s') \<longrightarrow> settled r (Returned rc) s')"
  have "?P itc env st r s (Ok (rc, s'))"
  proof (rule step_task.raw_induct [where P = ?P, OF _ assms(2)])
    fix f itc env st r s x
    assume IH: "\<And>itc env st r s x. f itc env st r s = Some x \<Longrightarrow> ?P itc env st r s x"
      and eq: "(case step_round itc env st r s of
        Undef \<Rightarrow> Some Undef | Error \<Rightarrow> Some Error
      | Ok (out, s1) \<Rightarrow> (case out of StartOver \<Rightarrow> f itc env st r s1 | Returned rc \<Rightarrow> Some (Ok (rc, s1)))) = Some x"
    show "?P itc env st r s x"
    proof
      assume p: "\<forall>r t. fst (env_post env r t) \<ge> -2"
      show "\<forall>rc s'. x = Ok (rc, s') \<longrightarrow> settled r (Returned rc) s'"
        using eq IH p step_round_settles [OF p, of r itc st s]
        by (auto simp: settles_def split: result.splits step_outcome.splits)
    qed
  qed
  then show ?thesis using assms(1) by blast
qed

subsection \<open>Signals in the communication layer\<close>

text \<open>
  To state which signals a step raises, the state of the communication layer is a log of the
  calls that raise them; the other calls are arbitrary.
\<close>

datatype itc_event = ErrorSet "nat option" | Written nat

definition logging :: "itc_event list itc_api \<Rightarrow> bool" where
  "logging itc \<longleftrightarrow> (\<forall>h i. itc_set_error itc h i = (True, i @ [ErrorSet h]))
     \<and> (\<forall>h i. itc_write_byte itc h i = (Some 1, i @ [Written h]))"

lemma touch_pipe_logging:
  "logging itc \<Longrightarrow> touch_pipe itc h s = Ok (True, s\<lparr>ss_itc := ss_itc s @ [Written h]\<rparr>)"
  by (simp add: touch_pipe_def touch_loop.simps logging_def)

lemma set_errors_logging:
  assumes "logging itc" and "\<forall>d\<in>set pds. data_pipe sg d \<longrightarrow> source_pipe_desc d < length (rt_pipes t)"
  shows "set_errors itc t sg pds s = Ok (True, s\<lparr>ss_itc := ss_itc s @
     map (\<lambda>d. ErrorSet (rt_pipes t ! source_pipe_desc d)) (filter (data_pipe sg) pds)\<rparr>)"
  using assms
proof (induction pds arbitrary: s)
  case Nil
  then show ?case by (simp add: succ_def)
next
  case (Cons d ds)
  then show ?case by (simp add: list_get_def logging_def)
qed

lemma error_signal_logging:
  assumes "logging itc" and "\<forall>d\<in>set pds. data_pipe sg d \<longrightarrow> source_pipe_desc d < length (rt_pipes t)"
    and "signals st t = Ok sg" and "RUNTIME_API_PIPE_TO_PID (snd sg) < length (rt_pipes t)"
  shows "error_signal itc st t pds s = Ok (True, s\<lparr>ss_itc := ss_itc s @
     map (\<lambda>d. ErrorSet (rt_pipes t ! source_pipe_desc d)) (filter (data_pipe sg) pds)
     @ (case rt_pipes t ! RUNTIME_API_PIPE_TO_PID (snd sg) of None \<Rightarrow> [] | Some h \<Rightarrow> [Written h])\<rparr>)"
  using assms
  by (simp add: error_signal_def set_errors_logging seq_ok_def list_get_def succ_def touch_pipe_logging
      split: option.split)

lemma set_exec_task_live:
  "exec_task ctx r = Ok t \<Longrightarrow> \<exists>ctx'. set_exec_task ctx r t1 = Ok ctx' \<and> exec_task ctx' r = Ok t1 \<and> tasks ctx' r \<noteq> None"
  by (auto simp: exec_task_def set_exec_task_def deref_def modify_def split: option.splits)

subsection \<open>Properties\<close>

text \<open>C31: a step settles the task it takes. Whatever the servlet, the communication layer and the
  async processor answer, a step that returns has disposed of the task, or the task was posted
  to the async processor, is at the head of the pending list and the step reports success.\<close>

theorem step_settles_task:
  assumes "\<forall>r t. fst (env_post env r t) \<ge> -2" and "next_ready_task env (ss_ctx s) = Some (Ok (Some r, ctx))"
    and "sched_step_next itc env st s = Some (Ok (rc, s'))"
  shows "(rc = 1 \<or> rc = -1) \<and> tasks (ss_ctx s') r = None
    \<or> rc = 1 \<and> async_pending (ss_ctx s') = Some r \<and> tasks (ss_ctx s') r \<noteq> None"
  using step_task_settled [OF assms(1), of itc st r "s\<lparr>ss_ctx := ctx\<rparr>" rc s'] assms(2,3)
  by (simp add: sched_step_next_def settled_def)

text \<open>A context whose only task, of the last node of the sample service, is ready.\<close>

definition sample_task :: "nat option list \<Rightarrow> runtime_task" where
  "sample_task pipes = \<lparr>rt_flags = RUNTIME_TASK_FLAG_ACTION_EXEC, rt_servlet = 1, async_owner = False,
     async_handle = None, async_data = None, rt_pipes = pipes\<rparr>"

definition ready_entry :: "runtime_task \<Rightarrow> task_entry" where
  "ready_entry t = (fresh_entry 1 \<lparr>rq_id = 0, num_pending_tasks = 1, rq_scope = 3\<rparr> 2 0)\<lparr>te_exec := Some t\<rparr>"

definition ready_state :: "runtime_task \<Rightarrow> 'i \<Rightarrow> 'i step_state" where
  "ready_state t i = \<lparr>ss_ctx = empty_ctx\<lparr>queue_head := Some 7, queue_tail := Some 7, queue_size := 1,
     tasks := (\<lambda>_. None)(7 := Some (ready_entry t))\<rparr>, ss_itc = i, ss_scope = None\<rparr>"

definition quiet_def :: "int option \<Rightarrow> servlet_def" where
  "quiet_def rc = \<lparr>async_buf_size = 0, def_init = None, def_exec = rc, def_unload = None, def_async_setup = None,
     def_async_exec = None, def_async_cleanup = None\<rparr>"

definition sample_itc :: "int option \<Rightarrow> itc_event list itc_api" where
  "sample_itc rc = \<lparr>itc_allocate = (\<lambda>p i. (None, i)), itc_fork = (\<lambda>h f n i. (None, i)),
     itc_is_touched = (\<lambda>h i. Some False), itc_write_byte = (\<lambda>h i. (Some 1, i @ [Written h])),
     itc_set_error = (\<lambda>h i. (True, i @ [ErrorSet h])), itc_run = (\<lambda>t i. (quiet_def rc, i)), async_status = (\<lambda>h. None)\<rparr>"

lemmas step_samples = sample_task_def ready_entry_def fresh_entry_def ready_state_def quiet_def_def sample_itc_def
  empty_ctx_def sample_env_def task_flag_defs flag_async_def flag_invoked_def get_action_def runtime_task_is_async_def

lemma sample_start:
  "runtime_task_start (quiet_def rc) (Some (sample_task ps))
     = Ok (case rc of None \<Rightarrow> 0 | Some c \<Rightarrow> c, sample_task ps\<lparr>rt_flags := 0x60000000\<rparr>)"
  by (simp add: runtime_task_start_def callback_of_def step_samples Let_def)

theorem step_settles_task_witness:
  "\<exists>rc s'. sched_step_next (sample_itc None) sample_env sample_stab (ready_state (sample_task [None, None, None]) [])
       = Some (Ok (rc, s')) \<and> (rc = 1 \<or> rc = -1) \<and> tasks (ss_ctx s') 7 = None"
proof -
  let ?t = "sample_task [None, None, None]"
  let ?s = "ready_state ?t ([] :: itc_event list)"
  define ctx where "ctx = (ss_ctx ?s)\<lparr>queue_head := None, queue_tail := None, queue_size := 0\<rparr>"
  have n: "next_ready_task sample_env (ss_ctx ?s) = Some (Ok (Some 7, ctx))"
    by (subst next_ready_task.simps)
      (simp add: pick_next_def async_comp_dequeue_def dequeue_def deref_def is_cancelled_def step_samples ctx_def)
  have o: "sched_service_get_outgoing_pipes sample_chain 2 = Ok []"
    by (simp add: sched_service_get_outgoing_pipes_def svc_node_def sample_chain_def service_of_def blank_node_def ERROR_NODE_ID_def)
  have sg: "signals sample_stab (?t\<lparr>rt_flags := f\<rparr>) = Ok (0, 0)" for f
    by (simp add: signals_def sample_task_def sample_servlets sample_servlet_eval)
  have t: "\<not> runtime_task_is_async ?t" by (simp add: step_samples)
  have x: "exec_task ctx 7 = Ok ?t" "deref (tasks ctx) 7 = Ok (ready_entry ?t)" "service_at sample_env 1 = Ok sample_chain"
    "te_service (ready_entry ?t) = 1" "te_node (ready_entry ?t) = 2"
    by (simp_all add: exec_task_def deref_def service_at_def ready_state_def ready_entry_def fresh_entry_def sample_env_def
        ctx_def)
  obtain ctx1 where c: "set_exec_task ctx 7 (?t\<lparr>rt_flags := 0x60000000\<rparr>) = Ok ctx1" "tasks ctx1 7 \<noteq> None"
    using set_exec_task_live [OF x(1)] by blast
  obtain ok ctx2 where f: "sched_task_free sample_env ctx1 7 = Ok (ok, ctx2)" using task_free_live [OF c(2)] by blast
  have r: "itc_run (sample_itc None) ?t i = (quiet_def None, i)" for i by (simp add: sample_itc_def)
  have "\<exists>s'. step_round (sample_itc None) sample_env sample_stab 7 (?s\<lparr>ss_ctx := ctx\<rparr>) = Ok (Returned 1, s') \<and> tasks (ss_ctx s') 7 = None"
    using c(1) f task_free_gone [OF f]
    by (simp add: step_round_def x [simplified] o t or_lerr_def succ_def run_task_def r sample_start [simplified] null_signal_def sg)
      (simp add: Let_def sample_task_def list_get_def RUNTIME_API_PIPE_TO_PID_def step_done_def succ_def)
  then obtain s' where s': "sched_step_next (sample_itc None) sample_env sample_stab ?s = Some (Ok (1, s'))"
      "tasks (ss_ctx s') 7 = None"
    using n by (auto simp: sched_step_next_def step_task.simps)
  have p: "\<forall>r t. fst (env_post sample_env r t) \<ge> -2" by (simp add: sample_env_def)
  show ?thesis using step_settles_task [OF p n s'(1)] s' by blast
qed

text \<open>C32: a servlet that fails marks its outputs. When the callback of a task returns the error
  code, the error state is set on each connected data output exactly once, in the order of the
  pipes, the error signal is written exactly when it is connected, the null signal is not
  written, and the task is disposed of.\<close>

theorem failed_task_signals:
  assumes "logging itc" and "exec_task (ss_ctx s) r = Ok t" and "itc_run itc t (ss_itc s) = (def, i)"
    and "runtime_task_start def (Some t) = Ok (-1, t1)" and "signals st t1 = Ok sg"
    and "\<forall>d\<in>set pds. data_pipe sg d \<longrightarrow> source_pipe_desc d < length (rt_pipes t1)"
    and "RUNTIME_API_PIPE_TO_PID (snd sg) < length (rt_pipes t1)"
  shows "\<exists>s'. run_task itc env st r e pipe_init pds s = Ok (Returned 1, s') \<and> tasks (ss_ctx s') r = None
    \<and> ss_itc s' = i @ map (\<lambda>d. ErrorSet (rt_pipes t1 ! source_pipe_desc d)) (filter (data_pipe sg) pds)
         @ (case rt_pipes t1 ! RUNTIME_API_PIPE_TO_PID (snd sg) of None \<Rightarrow> [] | Some h \<Rightarrow> [Written h])"
proof -
  obtain ctx1 where c: "set_exec_task (ss_ctx s) r t1 = Ok ctx1" "exec_task ctx1 r = Ok t1" "tasks ctx1 r \<noteq> None"
    using set_exec_task_live [OF assms(2)] by blast
  obtain ok ctx2 where f: "sched_task_free env ctx1 r = Ok (ok, ctx2)" using task_free_live [OF c(3)] by blast
  show ?thesis
    using error_signal_logging [OF assms(1,6,5,7)] assms(2-4) c f task_free_gone [OF f]
    by (auto simp: run_task_def Let_def task_failed_def or_lerr_def step_done_def)
qed

theorem failed_task_signals_witness:
  "\<exists>s'. run_task (sample_itc (Some (-1))) sample_env sample_stab 7 (ready_entry (sample_task [Some 50, Some 51, None])) True
       [edge 2 1 0 0] (ready_state (sample_task [Some 50, Some 51, None]) []) = Ok (Returned 1, s')
     \<and> ss_itc s' = [ErrorSet (Some 51), Written 50]"
proof -
  let ?t = "sample_task [Some 50, Some 51, None]"
  let ?t1 = "?t\<lparr>rt_flags := 0x60000000\<rparr>" and ?s = "ready_state ?t ([] :: itc_event list)"
  have l: "logging (sample_itc (Some (-1)))" by (simp add: logging_def sample_itc_def)
  have x: "exec_task (ss_ctx ?s) 7 = Ok ?t" by (simp add: exec_task_def deref_def ready_state_def ready_entry_def)
  have r: "itc_run (sample_itc (Some (-1))) ?t (ss_itc ?s) = (quiet_def (Some (-1)), [])"
    by (simp add: sample_itc_def ready_state_def)
  have st: "runtime_task_start (quiet_def (Some (-1))) (Some ?t) = Ok (-1, ?t1)" using sample_start by simp
  have sg: "signals sample_stab ?t1 = Ok (0, 0)"
    by (simp add: signals_def sample_task_def sample_servlets sample_servlet_eval)
  have d: "\<forall>d\<in>set [edge 2 1 0 0]. data_pipe (0, 0) d \<longrightarrow> source_pipe_desc d < length (rt_pipes ?t1)"
    "RUNTIME_API_PIPE_TO_PID (snd (0, 0 :: 32 word)) < length (rt_pipes ?t1)"
    by (simp_all add: sample_task_def RUNTIME_API_PIPE_TO_PID_def)
  show ?thesis
    using failed_task_signals [OF l x r st sg d, of sample_env "ready_entry ?t" True]
    by (simp add: sample_task_def RUNTIME_API_PIPE_TO_PID_def data_pipe_def) blast
qed

end
