(* ===== verification/Rscope.thy ===== *)
theory Rscope
  imports Linked
begin

text \<open>
  Request-local scopes, \<^verbatim>\<open>src/sched/rscope.c\<close>: every scheduler thread keeps a table of entries
  whose indices are the tokens a servlet passes around. An entry refers to a reference-counted
  entity; the entries of a scope form a list, the disposed ones the list of cached entries. A byte
  stream opened on a token keeps the entity alive beyond its scope.
\<close>

subsection \<open>Data\<close>

type_synonym token = nat

definition NULL_ENTRY :: token where "NULL_ENTRY = 0xffffffff"
definition SCHED_RSCOPE_ENTRY_TABLE_INIT_SIZE :: nat where "SCHED_RSCOPE_ENTRY_TABLE_INIT_SIZE = 4096"
definition SCHED_RSCOPE_ENTRY_TABLE_SIZE_LIMIT :: nat where "SCHED_RSCOPE_ENTRY_TABLE_SIZE_LIMIT = 0x100000"

text \<open>
  The pointer a servlet registers, with what its callbacks answer: objects and stream handles are
  addresses, a NULL callback is \<open>None\<close>.
\<close>

record scope_pointer =
  sp_data :: "nat option"
  sp_copy :: "(nat \<Rightarrow> nat option) option"
  sp_free :: "(nat \<Rightarrow> bool) option"
  sp_open :: "(nat \<Rightarrow> nat option) option"
  sp_read :: "(nat \<Rightarrow> nat \<Rightarrow> string option) option"
  sp_eos :: "(nat \<Rightarrow> int) option"
  sp_event :: "(nat \<Rightarrow> int) option"
  sp_close :: "(nat \<Rightarrow> bool) option"

record scope_entity =
  se_entity :: scope_pointer
  se_refcnt :: "32 word"

record rs_entry =
  re_next :: token
  re_scope_id :: "64 word"
  re_data :: "nat option"

record rscope =
  sc_id :: "64 word"
  sc_head :: token

record rs_stream =
  st_entity :: nat
  st_token :: token
  st_handle :: nat

text \<open>
  The state of a thread. Of the table only the entries below \<open>rs_unused\<close> have been written; they are
  the list \<open>rs_entries\<close>, and reading beyond it is undefined. \<open>rs_freed\<close> records the objects that
  were handed to their free callback.
\<close>

record rs_state =
  rs_capacity :: nat
  rs_cached :: token
  rs_entries :: "rs_entry list"
  rs_entities :: "nat \<Rightarrow> scope_entity option"
  rs_freed :: "nat list"
  rs_next_id :: "64 word"

abbreviation rs_unused :: "rs_state \<Rightarrow> nat" where
  "rs_unused st \<equiv> length (rs_entries st)"

definition entry_at :: "rs_state \<Rightarrow> token \<Rightarrow> rs_entry result" where
  "entry_at st tok = (if tok < rs_unused st then Ok (rs_entries st ! tok) else Undef)"

definition entity_at :: "rs_state \<Rightarrow> nat option \<Rightarrow> (nat \<times> scope_entity) result" where
  "entity_at st p = (case p of None \<Rightarrow> Undef
     | Some a \<Rightarrow> (case rs_entities st a of None \<Rightarrow> Undef | Some e \<Rightarrow> Ok (a, e)))"

subsection \<open>Entities and entries\<close>

definition dispose_scope_entity :: "rs_state \<Rightarrow> nat option \<Rightarrow> (bool \<times> rs_state) result" where
  "dispose_scope_entity st p =
     rmap (\<lambda>(a, e).
         let n = se_refcnt e - 1
         in if n = 0
            then (case (sp_data (se_entity e), sp_free (se_entity e)) of
                    (Some d, Some f) \<Rightarrow> (f d, st\<lparr>rs_entities := (rs_entities st)(a := None), rs_freed := rs_freed st @ [d]\<rparr>)
                  | _ \<Rightarrow> (True, st\<lparr>rs_entities := (rs_entities st)(a := None)\<rparr>))
            else (True, st\<lparr>rs_entities := (rs_entities st)(a := Some (e\<lparr>se_refcnt := n\<rparr>))\<rparr>))
       (entity_at st p)"

definition sched_rscope_init_thread :: "bool \<Rightarrow> rs_state result" where
  "sched_rscope_init_thread malloc_ok =
     (if \<not> malloc_ok then Error
      else Ok \<lparr>rs_capacity = SCHED_RSCOPE_ENTRY_TABLE_INIT_SIZE, rs_cached = NULL_ENTRY, rs_entries = [],
               rs_entities = (\<lambda>_. None), rs_freed = [], rs_next_id = 0\<rparr>)"

text \<open>A zeroed entity object.\<close>

definition zero_entity :: scope_entity where
  "zero_entity = \<lparr>se_entity = \<lparr>sp_data = None, sp_copy = None, sp_free = None, sp_open = None, sp_read = None,
     sp_eos = None, sp_event = None, sp_close = None\<rparr>, se_refcnt = 0\<rparr>"

text \<open>
  \<^verbatim>\<open>_entry_alloc\<close>. \<open>pool\<close> is the address the entity pool hands out. A cached entry is taken off
  its list before the entity is allocated, and is lost when that fails.
\<close>

definition entry_alloc ::
  "(( nat \<Rightarrow> scope_entity option) \<Rightarrow> nat option) \<Rightarrow> bool \<Rightarrow> rs_state \<Rightarrow> (token option \<times> rs_state) result" where
  "entry_alloc pool realloc_ok st =
     (if rs_cached st \<noteq> NULL_ENTRY
      then let ret = rs_cached st
           in rmap (\<lambda>e.
                let st1 = st\<lparr>rs_cached := re_next e\<rparr>
                in case pool (rs_entities st) of
                     None \<Rightarrow> (None, st1\<lparr>rs_entries := (rs_entries st)[ret := e\<lparr>re_data := None\<rparr>]\<rparr>)
                   | Some a \<Rightarrow> (Some ret, st1\<lparr>rs_entries := (rs_entries st)[ret := e\<lparr>re_data := Some a\<rparr>],
                                              rs_entities := (rs_entities st)(a := Some zero_entity)\<rparr>))
                (entry_at st ret)
      else if rs_unused st \<ge> rs_capacity st \<and> rs_capacity st * 2 > SCHED_RSCOPE_ENTRY_TABLE_SIZE_LIMIT
      then Ok (None, st)
      else if rs_unused st \<ge> rs_capacity st \<and> \<not> realloc_ok then Ok (None, st)
      else let st1 = (if rs_unused st \<ge> rs_capacity st then st\<lparr>rs_capacity := rs_capacity st * 2\<rparr> else st)
           in case pool (rs_entities st) of
                None \<Rightarrow> Ok (None, st1)
              | Some a \<Rightarrow> Ok (Some (rs_unused st),
                   st1\<lparr>rs_entries := rs_entries st @ [\<lparr>re_next = NULL_ENTRY, re_scope_id = 0, re_data = Some a\<rparr>],
                       rs_entities := (rs_entities st)(a := Some zero_entity)\<rparr>))"

text \<open>
  \<^verbatim>\<open>sched_rscope_finalize_thread\<close>: the entities still in the table are disposed.
\<close>

primrec dispose_table :: "rs_entry list \<Rightarrow> bool \<Rightarrow> rs_state \<Rightarrow> (bool \<times> rs_state) result" where
  "dispose_table [] rc st = Ok (rc, st)"
| "dispose_table (e # es) rc st =
     (if re_data e = None then dispose_table es rc st
      else rbind (dispose_scope_entity st (re_data e)) (\<lambda>(ok, st'). dispose_table es (rc \<and> ok) st'))"

definition sched_rscope_finalize_thread :: "rs_state \<Rightarrow> (bool \<times> rs_state) result" where
  "sched_rscope_finalize_thread st =
     rmap (\<lambda>(rc, st'). (rc, st'\<lparr>rs_entries := []\<rparr>)) (dispose_table (rs_entries st) True st)"

subsection \<open>Scopes\<close>

definition sched_rscope_new :: "bool \<Rightarrow> rs_state \<Rightarrow> (rscope option \<times> rs_state)" where
  "sched_rscope_new alloc_ok st =
     (if \<not> alloc_ok then (None, st)
      else (Some \<lparr>sc_id = rs_next_id st, sc_head = NULL_ENTRY\<rparr>, st\<lparr>rs_next_id := rs_next_id st + 1\<rparr>))"

text \<open>The loop of \<^verbatim>\<open>sched_rscope_free\<close>; \<open>None\<close> stands for a walk that does not end.\<close>

partial_function (option) free_entries :: "token \<Rightarrow> bool \<Rightarrow> rs_state \<Rightarrow> (bool \<times> rs_state) result option" where
  "free_entries tok rc st =
     (if tok = NULL_ENTRY then Some (Ok (rc, st))
      else case entry_at st tok of
        Error \<Rightarrow> Some Error | Undef \<Rightarrow> Some Undef
      | Ok e \<Rightarrow>
         (case dispose_scope_entity st (re_data e) of
            Error \<Rightarrow> Some Error | Undef \<Rightarrow> Some Undef
          | Ok (ok, st1) \<Rightarrow>
              free_entries (re_next e) (rc \<and> ok)
                (st1\<lparr>rs_entries := (rs_entries st1)[tok := e\<lparr>re_next := rs_cached st1, re_data := None\<rparr>],
                     rs_cached := tok\<rparr>)))"

definition sched_rscope_free :: "rscope \<Rightarrow> rs_state \<Rightarrow> (bool \<times> rs_state) result" where
  "sched_rscope_free scope st =
     (case free_entries (sc_head scope) True st of None \<Rightarrow> Undef | Some r \<Rightarrow> r)"

definition sched_rscope_add ::
  "((nat \<Rightarrow> scope_entity option) \<Rightarrow> nat option) \<Rightarrow> bool \<Rightarrow> rscope \<Rightarrow> scope_pointer \<Rightarrow> rs_state
     \<Rightarrow> (token option \<times> rscope \<times> rs_state) result" where
  "sched_rscope_add pool realloc_ok scope pointer st =
     (if sp_data pointer = None \<or> sp_free pointer = None then Ok (None, scope, st)
      else rbind (entry_alloc pool realloc_ok st) (\<lambda>(ret, st1).
           case ret of None \<Rightarrow> Ok (None, scope, st1)
           | Some tok \<Rightarrow>
               rbind (entry_at st1 tok) (\<lambda>e.
               rmap (\<lambda>(a, ent).
                   (Some tok, scope\<lparr>sc_head := tok\<rparr>,
                    st1\<lparr>rs_entities := (rs_entities st1)(a := Some \<lparr>se_entity = pointer, se_refcnt = 1\<rparr>),
                        rs_entries := (rs_entries st1)[tok := e\<lparr>re_next := sc_head scope, re_scope_id := sc_id scope\<rparr>]\<rparr>))
                 (entity_at st1 (re_data e)))))"

text \<open>
  \<^verbatim>\<open>sched_rscope_copy\<close>: the copy callback of the entity, and the copy as a new entry of the scope.
  The result is the token and the address of the copy. On a failure the copy is freed again.
\<close>

definition sched_rscope_copy ::
  "((nat \<Rightarrow> scope_entity option) \<Rightarrow> nat option) \<Rightarrow> bool \<Rightarrow> rscope \<Rightarrow> token \<Rightarrow> rs_state
     \<Rightarrow> ((token \<times> nat) option \<times> rscope \<times> rs_state) result" where
  "sched_rscope_copy pool realloc_ok scope tok st =
     (if tok = NULL_ENTRY \<or> tok \<ge> rs_capacity st then Ok (None, scope, st)
      else rbind (entry_at st tok) (\<lambda>src.
           rbind (entity_at st (re_data src)) (\<lambda>(a, ent).
           case sp_copy (se_entity ent) of
             None \<Rightarrow> Ok (None, scope, st)
           | Some f \<Rightarrow>
               (case sp_data (se_entity ent) of None \<Rightarrow> Undef
                | Some d \<Rightarrow>
                    (case f d of None \<Rightarrow> Ok (None, scope, st)
                     | Some d' \<Rightarrow>
                         rmap (\<lambda>(r, scope', st').
                             case r of
                               Some t \<Rightarrow> (Some (t, d'), scope', st')
                             | None \<Rightarrow> (None, scope', st'\<lparr>rs_freed := rs_freed st' @
                                         (if sp_free (se_entity ent) \<noteq> None then [d'] else [])\<rparr>))
                           (sched_rscope_add pool realloc_ok scope ((se_entity ent)\<lparr>sp_data := Some d'\<rparr>) st))))))"

definition sched_rscope_get :: "rscope \<Rightarrow> token \<Rightarrow> rs_state \<Rightarrow> nat result" where
  "sched_rscope_get scope tok st =
     (if tok = NULL_ENTRY \<or> tok \<ge> rs_capacity st then Error
      else rbind (entry_at st tok) (\<lambda>e.
           rbind (entity_at st (re_data e)) (\<lambda>(a, ent).
           case sp_data (se_entity ent) of
             None \<Rightarrow> Error
           | Some d \<Rightarrow> if re_scope_id e \<noteq> sc_id scope then Error else Ok d)))"

subsection \<open>Streams\<close>

definition sched_rscope_stream_open :: "bool \<Rightarrow> token \<Rightarrow> rs_state \<Rightarrow> (rs_stream option \<times> rs_state) result" where
  "sched_rscope_stream_open alloc_ok tok st =
     (if tok = NULL_ENTRY \<or> tok \<ge> rs_capacity st then Ok (None, st)
      else rbind (entry_at st tok) (\<lambda>e.
           if re_data e = None then Ok (None, st)
           else rbind (entity_at st (re_data e)) (\<lambda>(a, ent).
                let p = se_entity ent
                in if sp_open p = None \<or> sp_close p = None \<or> sp_read p = None \<or> sp_eos p = None then Ok (None, st)
                   else if \<not> alloc_ok then Ok (None, st)
                   else case (sp_open p, sp_data p) of
                          (Some f, Some d) \<Rightarrow>
                            (case f d of
                               None \<Rightarrow> Ok (None, st)
                             | Some h \<Rightarrow> Ok (Some \<lparr>st_entity = a, st_token = tok, st_handle = h\<rparr>,
                                 st\<lparr>rs_entities := (rs_entities st)(a := Some (ent\<lparr>se_refcnt := se_refcnt ent + 1\<rparr>))\<rparr>))
                        | _ \<Rightarrow> Undef)))"

definition sched_rscope_stream_close :: "rs_stream \<Rightarrow> rs_state \<Rightarrow> (bool \<times> rs_state) result" where
  "sched_rscope_stream_close stream st =
     rbind (entity_at st (Some (st_entity stream))) (\<lambda>(a, ent).
     case sp_close (se_entity ent) of None \<Rightarrow> Undef
     | Some f \<Rightarrow> rmap (\<lambda>(ok, st'). (f (st_handle stream) \<and> ok, st')) (dispose_scope_entity st (Some a)))"

definition sched_rscope_stream_eos :: "rs_stream \<Rightarrow> rs_state \<Rightarrow> int result" where
  "sched_rscope_stream_eos stream st =
     rbind (entity_at st (Some (st_entity stream))) (\<lambda>(a, ent).
     case sp_eos (se_entity ent) of None \<Rightarrow> Undef | Some f \<Rightarrow> Ok (f (st_handle stream)))"

definition sched_rscope_stream_read :: "rs_stream \<Rightarrow> nat \<Rightarrow> rs_state \<Rightarrow> string result" where
  "sched_rscope_stream_read stream count st =
     (if count = ERROR_SIZE then Error
      else rbind (entity_at st (Some (st_entity stream))) (\<lambda>(a, ent).
           case sp_read (se_entity ent) of None \<Rightarrow> Undef
           | Some f \<Rightarrow> (case f (st_handle stream) count of None \<Rightarrow> Error | Some s \<Rightarrow> Ok s)))"

definition sched_rscope_stream_get_event :: "rs_stream \<Rightarrow> rs_state \<Rightarrow> int result" where
  "sched_rscope_stream_get_event stream st =
     rbind (entity_at st (Some (st_entity stream))) (\<lambda>(a, ent).
     case sp_event (se_entity ent) of None \<Rightarrow> Ok 0 | Some f \<Rightarrow> Ok (f (st_handle stream)))"

subsection \<open>The lists of entries\<close>

definition entry_store :: "rs_state \<Rightarrow> rs_entry store" where
  "entry_store st = (\<lambda>i. if i < rs_unused st then Some (rs_entries st ! i) else None)"

definition tok_ptr :: "token \<Rightarrow> token option" where
  "tok_ptr t = (if t = NULL_ENTRY then None else Some t)"

definition tok_list :: "rs_state \<Rightarrow> token \<Rightarrow> token list \<Rightarrow> bool" where
  "tok_list st t xs = chain (\<lambda>e. tok_ptr (re_next e)) (entry_store st) (tok_ptr t) xs"

abbreviation data_at :: "rs_state \<Rightarrow> token \<Rightarrow> nat option" where
  "data_at st i \<equiv> re_data (rs_entries st ! i)"

text \<open>
  The invariant of the table: the cached entries form a list and refer to no entity, and the
  table never exceeds its limit, so that the error code is no token.
\<close>

definition cached_list :: "rs_state \<Rightarrow> token list \<Rightarrow> bool" where
  "cached_list st cs \<longleftrightarrow> tok_list st (rs_cached st) cs \<and> (\<forall>c\<in>set cs. data_at st c = None)"

definition rs_inv :: "rs_state \<Rightarrow> bool" where
  "rs_inv st \<longleftrightarrow> (\<exists>cs. cached_list st cs) \<and> rs_unused st \<le> rs_capacity st
     \<and> rs_capacity st \<le> SCHED_RSCOPE_ENTRY_TABLE_SIZE_LIMIT \<and> 0 < rs_capacity st"

lemma entry_store_upd [simp]:
  "i < rs_unused st \<Longrightarrow> entry_store (st\<lparr>rs_entries := (rs_entries st)[i := e]\<rparr>) = (entry_store st)(i := Some e)"
  by (auto simp: entry_store_def)

lemma entry_store_other [simp]:
  "entry_store (st\<lparr>rs_cached := c\<rparr>) = entry_store st" "entry_store (st\<lparr>rs_entities := m\<rparr>) = entry_store st"
  "entry_store (st\<lparr>rs_freed := f\<rparr>) = entry_store st"
  by (auto simp: entry_store_def fun_eq_iff)

lemma tok_list_bound: "tok_list st t xs \<Longrightarrow> x \<in> set xs \<Longrightarrow> x < rs_unused st"
  using chain_live [of "\<lambda>e. tok_ptr (re_next e)" "entry_store st" "tok_ptr t" xs x]
  by (auto simp: tok_list_def entry_store_def split: if_splits)

lemma tok_list_Cons:
  "tok_list st t (x # xs) \<longleftrightarrow> t = x \<and> t \<noteq> NULL_ENTRY \<and> x < rs_unused st \<and> tok_list st (re_next (rs_entries st ! x)) xs"
  by (auto simp: tok_list_def tok_ptr_def entry_store_def split: if_splits)

lemma tok_list_Nil: "tok_list st t [] \<longleftrightarrow> t = NULL_ENTRY"
  by (auto simp: tok_list_def tok_ptr_def)

lemma tok_list_cong:
  assumes "tok_list st t xs" and "\<forall>x\<in>set xs. entry_store st' x = entry_store st x"
  shows "tok_list st' t xs"
  using chain_agree assms unfolding tok_list_def by blast

text \<open>A token that \<^verbatim>\<open>sched_rscope_get\<close> accepts.\<close>

lemma rscope_get_Ok:
  "sched_rscope_get scope tok st = Ok d \<longleftrightarrow>
     tok \<noteq> NULL_ENTRY \<and> tok < rs_capacity st \<and> tok < rs_unused st \<and> re_scope_id (rs_entries st ! tok) = sc_id scope
     \<and> (\<exists>a ent. data_at st tok = Some a \<and> rs_entities st a = Some ent \<and> sp_data (se_entity ent) = Some d)"
  by (auto simp: sched_rscope_get_def entry_at_def entity_at_def result_simps split: option.splits if_splits)

lemma token_not_null:
  assumes "rs_inv st" and "tok < rs_capacity st"
  shows "tok \<noteq> NULL_ENTRY"
  using assms by (auto simp: rs_inv_def NULL_ENTRY_def SCHED_RSCOPE_ENTRY_TABLE_SIZE_LIMIT_def)

text \<open>What an allocation does.\<close>

lemma entry_alloc_Some:
  assumes inv: "rs_inv st" and fresh: "\<forall>m a. pool m = Some a \<longrightarrow> m a = None"
    and al: "entry_alloc pool ok st = Ok (Some tok, st')"
  obtains a where "rs_entities st a = None" and "rs_entities st' = (rs_entities st)(a := Some zero_entity)"
    and "tok < rs_unused st'" and "data_at st' tok = Some a" and "rs_inv st'"
    and "\<forall>i<rs_unused st. i \<noteq> tok \<longrightarrow> rs_entries st' ! i = rs_entries st ! i"
    and "tok < rs_unused st \<longrightarrow> data_at st tok = None" and "rs_unused st \<le> rs_unused st'"
    and "rs_capacity st \<le> rs_capacity st'" and "rs_freed st' = rs_freed st"
    and "\<exists>cs. cached_list st' cs \<and> tok \<notin> set cs"
proof (cases "rs_cached st = NULL_ENTRY")
  case False
  let ?e = "rs_entries st ! rs_cached st"
  obtain cs where cs: "cached_list st cs" using inv by (auto simp: rs_inv_def)
  then obtain cs' where c: "cs = rs_cached st # cs'" "rs_cached st < rs_unused st"
    "tok_list st (re_next ?e) cs'" "data_at st (rs_cached st) = None"
    using False by (cases cs) (auto simp: cached_list_def tok_list_Nil tok_list_Cons)
  have d: "distinct cs" using cs chain_distinct by (auto simp: cached_list_def tok_list_def)
  obtain a where a: "pool (rs_entities st) = Some a" "tok = rs_cached st"
    "st' = st\<lparr>rs_cached := re_next ?e, rs_entries := (rs_entries st)[tok := ?e\<lparr>re_data := Some a\<rparr>],
              rs_entities := (rs_entities st)(a := Some zero_entity)\<rparr>"
    using al False c(2) by (auto simp: entry_alloc_def entry_at_def Let_def split: option.splits)
  have es: "entry_store st' = (entry_store st)(tok := Some (?e\<lparr>re_data := Some a\<rparr>))"
    using a(2,3) c(2) by (auto simp: entry_store_def)
  have t: "tok \<notin> set cs'" using d c(1) a(2) by simp
  have "tok_list st' (re_next ?e) cs'"
    by (rule tok_list_cong [OF c(3)]) (use t in \<open>auto simp: es\<close>)
  moreover have "data_at st' x = None" if x: "x \<in> set cs'" for x
  proof -
    have "x \<noteq> tok" using t x by auto
    then show ?thesis using cs c(1) x a(3) by (simp add: cached_list_def)
  qed
  ultimately have "cached_list st' cs'" using a(3) by (simp add: cached_list_def)
  moreover have "rs_entities st a = None" using fresh a(1) by blast
  ultimately show ?thesis using that [of a] a(2,3) c(2,4) t inv by (auto simp: rs_inv_def)
next
  case True
  define cap where "cap = (if rs_unused st \<ge> rs_capacity st then rs_capacity st * 2 else rs_capacity st)"
  have cap: "rs_capacity st \<le> cap" "rs_unused st < cap" "cap \<le> SCHED_RSCOPE_ENTRY_TABLE_SIZE_LIMIT"
    using al True inv by (auto simp: cap_def entry_alloc_def Let_def rs_inv_def split: if_splits)
  have st1: "(if rs_unused st \<ge> rs_capacity st then st\<lparr>rs_capacity := rs_capacity st * 2\<rparr> else st)
      = st\<lparr>rs_capacity := cap\<rparr>" by (simp add: cap_def)
  obtain a where a: "pool (rs_entities st) = Some a" "tok = rs_unused st"
    "st' = st\<lparr>rs_capacity := cap, rs_entries := rs_entries st @ [\<lparr>re_next = NULL_ENTRY, re_scope_id = 0, re_data = Some a\<rparr>],
                       rs_entities := (rs_entities st)(a := Some zero_entity)\<rparr>"
    using al True unfolding entry_alloc_def st1 Let_def by (auto split: option.splits if_splits)
  have "cached_list st' []" using True a(3) by (simp add: cached_list_def tok_list_Nil)
  moreover have "rs_entities st a = None" using fresh a(1) by blast
  ultimately show ?thesis using that [of a] a cap by (fastforce simp: rs_inv_def nth_append)
qed

subsection \<open>Disposing a scope\<close>

text \<open>What one disposal does to an entity: the object it frees, and what is left of the entity.\<close>

definition last_ref :: "scope_entity \<Rightarrow> bool" where
  "last_ref e \<longleftrightarrow> se_refcnt e = 1"

definition released :: "scope_entity \<Rightarrow> scope_entity option" where
  "released e = (if last_ref e then None else Some (e\<lparr>se_refcnt := se_refcnt e - 1\<rparr>))"

definition objects_freed :: "scope_entity \<Rightarrow> nat list" where
  "objects_freed e = (case (sp_data (se_entity e), sp_free (se_entity e)) of
     (Some d, Some f) \<Rightarrow> if last_ref e then [d] else [] | _ \<Rightarrow> [])"

definition free_succeeds :: "scope_entity \<Rightarrow> bool" where
  "free_succeeds e \<longleftrightarrow> (case (sp_data (se_entity e), sp_free (se_entity e)) of
     (Some d, Some f) \<Rightarrow> last_ref e \<longrightarrow> f d | _ \<Rightarrow> True)"

lemma dispose_scope_entity_live:
  assumes "rs_entities st a = Some e"
  shows "dispose_scope_entity st (Some a) = Ok (free_succeeds e,
     st\<lparr>rs_entities := (rs_entities st)(a := released e), rs_freed := rs_freed st @ objects_freed e\<rparr>)"
proof -
  have "se_refcnt e - 1 = 0 \<longleftrightarrow> last_ref e" by (simp add: last_ref_def)
  then show ?thesis using assms
    by (auto simp: dispose_scope_entity_def entity_at_def result_simps Let_def released_def
          objects_freed_def free_succeeds_def split: option.splits)
qed

text \<open>The entity of a token.\<close>

definition token_entity :: "rs_state \<Rightarrow> token \<Rightarrow> scope_entity option" where
  "token_entity st x = (case data_at st x of None \<Rightarrow> None | Some a \<Rightarrow> rs_entities st a)"

text \<open>A scope owns the list \<open>xs\<close> of tokens: each has an entity of its own, and none is cached.\<close>

definition scope_tokens :: "rs_state \<Rightarrow> token list \<Rightarrow> token \<Rightarrow> token list \<Rightarrow> bool" where
  "scope_tokens st cs t xs \<longleftrightarrow> tok_list st t xs \<and> cached_list st cs \<and> set xs \<inter> set cs = {}
     \<and> (\<forall>x\<in>set xs. token_entity st x \<noteq> None) \<and> inj_on (data_at st) (set xs)"

definition entities_of :: "rs_state \<Rightarrow> token list \<Rightarrow> scope_entity list" where
  "entities_of st xs = map (\<lambda>x. the (token_entity st x)) xs"

text \<open>One round of the loop.\<close>

definition drop_entry :: "token \<Rightarrow> rs_state \<Rightarrow> rs_state" where
  "drop_entry x st =
     (let e = rs_entries st ! x; ent = the (token_entity st x); a = the (re_data e)
      in st\<lparr>rs_entities := (rs_entities st)(a := released ent), rs_freed := rs_freed st @ objects_freed ent,
            rs_entries := (rs_entries st)[x := e\<lparr>re_next := rs_cached st, re_data := None\<rparr>], rs_cached := x\<rparr>)"

lemma free_entries_step:
  assumes "scope_tokens st cs t (x # xs)"
  shows "free_entries t rc st =
    free_entries (re_next (rs_entries st ! x)) (rc \<and> free_succeeds (the (token_entity st x))) (drop_entry x st)"
proof -
  from assms have t: "t = x" "x \<noteq> NULL_ENTRY" "x < rs_unused st" "token_entity st x \<noteq> None"
    by (auto simp: scope_tokens_def tok_list_Cons)
  then obtain a ent where a: "data_at st x = Some a" "rs_entities st a = Some ent"
    by (auto simp: token_entity_def split: option.splits)
  show ?thesis
    by (subst free_entries.simps)
      (use t a in \<open>simp add: entry_at_def dispose_scope_entity_live drop_entry_def token_entity_def Let_def\<close>)
qed

lemma drop_entry_keeps:
  assumes "x < rs_unused st"
  shows "rs_unused (drop_entry x st) = rs_unused st" "rs_capacity (drop_entry x st) = rs_capacity st"
    "rs_next_id (drop_entry x st) = rs_next_id st" "y \<noteq> x \<Longrightarrow> rs_entries (drop_entry x st) ! y = rs_entries st ! y"
    "rs_cached (drop_entry x st) = x" "re_next (rs_entries (drop_entry x st) ! x) = rs_cached st"
    "data_at (drop_entry x st) x = None"
    "re_scope_id (rs_entries (drop_entry x st) ! x) = re_scope_id (rs_entries st ! x)"
  using assms by (auto simp: drop_entry_def Let_def)

lemma drop_entry_other:
  assumes "x \<notin> set xs" and "y \<in> set xs"
  shows "rs_entries (drop_entry x st) ! y = rs_entries st ! y"
proof -
  have "x \<noteq> y" using assms by auto
  then show ?thesis by (simp add: drop_entry_def Let_def)
qed

lemma drop_entry_tok_list:
  assumes "x < rs_unused st" and "tok_list st t xs" and "x \<notin> set xs"
  shows "tok_list (drop_entry x st) t xs"
  by (rule tok_list_cong [OF assms(2)])
     (use assms in \<open>auto simp: entry_store_def drop_entry_keeps drop_entry_other\<close>)

lemma drop_entry_tokens:
  assumes "scope_tokens st cs t (x # xs)"
  shows "scope_tokens (drop_entry x st) (x # cs) (re_next (rs_entries st ! x)) xs"
    and "entities_of (drop_entry x st) xs = entities_of st xs"
proof -
  have "distinct (x # xs)" using assms chain_distinct unfolding scope_tokens_def tok_list_def by blast
  then have x: "x \<notin> set xs" "x \<notin> set cs" "x < rs_unused st" "x \<noteq> NULL_ENTRY"
    using assms by (auto simp: scope_tokens_def tok_list_Cons)
  have tl: "tok_list st (re_next (rs_entries st ! x)) xs" "tok_list st (rs_cached st) cs"
    using assms by (auto simp: scope_tokens_def tok_list_Cons cached_list_def)
  have same: "data_at (drop_entry x st) y = data_at st y" "token_entity (drop_entry x st) y = token_entity st y"
    if y: "y \<in> set xs" for y
  proof -
    have ne: "y \<noteq> x" using x(1) y by auto
    then show d: "data_at (drop_entry x st) y = data_at st y" using x(3) by (simp add: drop_entry_keeps)
    have "data_at st y \<noteq> data_at st x" using assms ne y by (auto simp: scope_tokens_def inj_on_def)
    moreover have "data_at st x \<noteq> None" using assms by (auto simp: scope_tokens_def token_entity_def)
    ultimately show "token_entity (drop_entry x st) y = token_entity st y"
      unfolding token_entity_def d by (auto simp: drop_entry_def Let_def split: option.splits)
  qed
  have c: "data_at (drop_entry x st) y = None" if y: "y \<in> set cs" for y
  proof -
    have "y \<noteq> x" using x(2) y by auto
    then show ?thesis using assms x(3) y by (simp add: drop_entry_keeps scope_tokens_def cached_list_def)
  qed
  have "cached_list (drop_entry x st) (x # cs)"
    using drop_entry_tok_list [OF x(3) tl(2) x(2)] x(3,4) c
    by (auto simp: cached_list_def tok_list_Cons drop_entry_keeps)
  moreover have "inj_on (data_at (drop_entry x st)) (set xs)"
    using assms same(1) by (auto simp: scope_tokens_def inj_on_def)
  ultimately show "scope_tokens (drop_entry x st) (x # cs) (re_next (rs_entries st ! x)) xs"
    using assms drop_entry_tok_list [OF x(3) tl(1) x(1)] x(1) same
    by (auto simp: scope_tokens_def)
  show "entities_of (drop_entry x st) xs = entities_of st xs"
    using same by (simp add: entities_of_def)
qed

text \<open>The whole loop.\<close>

lemma free_entries_list:
  assumes "scope_tokens st cs t xs"
  shows "\<exists>st'. free_entries t rc st = Some (Ok (rc \<and> list_all free_succeeds (entities_of st xs), st'))
    \<and> cached_list st' (rev xs @ cs) \<and> rs_unused st' = rs_unused st \<and> rs_capacity st' = rs_capacity st
    \<and> rs_freed st' = rs_freed st @ concat (map objects_freed (entities_of st xs))
    \<and> (\<forall>a. rs_entities st' a = (if Some a \<in> data_at st ` set xs then released (the (rs_entities st a))
                                 else rs_entities st a))
    \<and> (\<forall>y. y \<notin> set xs \<longrightarrow> rs_entries st' ! y = rs_entries st ! y)"
  using assms
proof (induction xs arbitrary: t rc st cs)
  case Nil
  then have "t = NULL_ENTRY" by (simp add: scope_tokens_def tok_list_Nil)
  then have "free_entries t rc st = Some (Ok (rc, st))" by (simp add: free_entries.simps)
  with Nil show ?case by (simp add: entities_of_def scope_tokens_def)
next
  case (Cons x xs)
  let ?s = "drop_entry x st" and ?rc = "rc \<and> free_succeeds (the (token_entity st x))"
  have d: "distinct (x # xs)" using Cons.prems chain_distinct unfolding scope_tokens_def tok_list_def by blast
  have x: "x < rs_unused st" "token_entity st x \<noteq> None"
    using Cons.prems by (auto simp: scope_tokens_def tok_list_Cons)
  then obtain b ent where b: "data_at st x = Some b" "rs_entities st b = Some ent"
    by (auto simp: token_entity_def split: option.splits)
  have s: "rs_freed ?s = rs_freed st @ objects_freed (the (token_entity st x))"
    "rs_entities ?s = (rs_entities st)(b := released ent)"
    using b by (simp_all add: drop_entry_def Let_def token_entity_def)
  have im1: "data_at ?s ` set xs = data_at st ` set xs"
    using d by (intro image_cong) (auto simp: drop_entry_other)
  have im2: "Some b \<notin> data_at st ` set xs"
    using d b(1) Cons.prems by (auto simp: scope_tokens_def inj_on_def image_iff)
  obtain st' where st': "free_entries (re_next (rs_entries st ! x)) ?rc ?s
       = Some (Ok (?rc \<and> list_all free_succeeds (entities_of ?s xs), st'))"
    "cached_list st' (rev xs @ x # cs)" "rs_unused st' = rs_unused ?s" "rs_capacity st' = rs_capacity ?s"
    "rs_freed st' = rs_freed ?s @ concat (map objects_freed (entities_of ?s xs))"
    "\<forall>a. rs_entities st' a = (if Some a \<in> data_at ?s ` set xs then released (the (rs_entities ?s a)) else rs_entities ?s a)"
    "\<forall>y. y \<notin> set xs \<longrightarrow> rs_entries st' ! y = rs_entries ?s ! y"
    using Cons.IH [OF drop_entry_tokens(1) [OF Cons.prems], of ?rc] by blast
  have ents: "entities_of st (x # xs) = the (token_entity st x) # entities_of ?s xs"
    using drop_entry_tokens(2) [OF Cons.prems] by (simp add: entities_of_def)
  show ?case
  proof (intro exI [of _ st'] conjI)
    show "free_entries t rc st = Some (Ok (rc \<and> list_all free_succeeds (entities_of st (x # xs)), st'))"
      using free_entries_step [OF Cons.prems] st'(1) by (simp add: ents)
    show "\<forall>a. rs_entities st' a = (if Some a \<in> data_at st ` set (x # xs) then released (the (rs_entities st a))
                                 else rs_entities st a)"
      using st'(6) b s(2) im1 im2 by auto
  qed (use st' s ents x(1) in \<open>auto simp: drop_entry_keeps\<close>)
qed

subsection \<open>Properties\<close>

text \<open>What is added to a scope is found again. The token that \<^verbatim>\<open>sched_rscope_add\<close> returns
  gives the registered object in this scope, and every token that was valid before, in any
  scope, still gives its object.\<close>

theorem rscope_add_get:
  assumes "rs_inv st" and "\<forall>m a. pool m = Some a \<longrightarrow> m a = None"
    and "sched_rscope_add pool ok scope pointer st = Ok (Some tok, scope', st')"
  shows "rs_inv st' \<and> Some tok = tok_ptr (sc_head scope')
    \<and> sched_rscope_get scope' tok st' = Ok (the (sp_data pointer)) \<and> sp_data pointer \<noteq> None
    \<and> (\<forall>other t d. sched_rscope_get other t st = Ok d \<longrightarrow> sched_rscope_get other t st' = Ok d)"
proof -
  obtain st1 e a ent where al: "entry_alloc pool ok st = Ok (Some tok, st1)"
    and e: "entry_at st1 tok = Ok e" "entity_at st1 (re_data e) = Ok (a, ent)"
    and r: "scope' = scope\<lparr>sc_head := tok\<rparr>"
      "st' = st1\<lparr>rs_entities := (rs_entities st1)(a := Some \<lparr>se_entity = pointer, se_refcnt = 1\<rparr>),
                 rs_entries := (rs_entries st1)[tok := e\<lparr>re_next := sc_head scope, re_scope_id := sc_id scope\<rparr>]\<rparr>"
    and p: "sp_data pointer \<noteq> None"
    using assms(3) by (auto simp: sched_rscope_add_def result_simps split: if_splits option.splits)
  obtain a' where k: "rs_entities st a' = None" "rs_entities st1 = (rs_entities st)(a' := Some zero_entity)"
    "tok < rs_unused st1" "data_at st1 tok = Some a'" "rs_inv st1"
    "\<forall>i<rs_unused st. i \<noteq> tok \<longrightarrow> rs_entries st1 ! i = rs_entries st ! i"
    "tok < rs_unused st \<longrightarrow> data_at st tok = None" "rs_unused st \<le> rs_unused st1"
    "rs_capacity st \<le> rs_capacity st1" "\<exists>cs. cached_list st1 cs \<and> tok \<notin> set cs"
    by (rule entry_alloc_Some [OF assms(1,2) al])
  have e': "e = rs_entries st1 ! tok" "a' = a"
    using e k(2-4) by (auto simp: entry_at_def entity_at_def split: option.splits if_splits)
  have cap: "tok < rs_capacity st1" using k(3,5) by (simp add: rs_inv_def)
  then have nn: "tok \<noteq> NULL_ENTRY" by (rule token_not_null [OF k(5)])
  obtain cs where cs: "cached_list st1 cs" "tok \<notin> set cs" using k(10) by blast
  have es: "entry_store st' = (entry_store st1)(tok := Some (e\<lparr>re_next := sc_head scope, re_scope_id := sc_id scope\<rparr>))"
    using k(3) by (simp add: r(2) entry_store_def fun_eq_iff nth_list_update)
  have "tok_list st' (rs_cached st1) cs"
    by (rule tok_list_cong [of st1]) (use cs in \<open>auto simp: cached_list_def es\<close>)
  moreover have "data_at st' x = None" if x: "x \<in> set cs" for x
  proof -
    have "x \<noteq> tok" using cs(2) x by auto
    then show ?thesis using cs(1) x r(2) by (simp add: cached_list_def)
  qed
  ultimately have "cached_list st' cs" using r(2) by (simp add: cached_list_def)
  then have inv': "rs_inv st'" using k(5) r(2) by (auto simp: rs_inv_def)
  have "sched_rscope_get scope' tok st' = Ok (the (sp_data pointer))"
    unfolding rscope_get_Ok using nn cap k(3,4) p e' r by auto
  moreover have "sched_rscope_get other t st' = Ok d" if g: "sched_rscope_get other t st = Ok d" for other t d
  proof -
    obtain b x where t: "t \<noteq> NULL_ENTRY" "t < rs_capacity st" "t < rs_unused st"
      "re_scope_id (rs_entries st ! t) = sc_id other" "data_at st t = Some b" "rs_entities st b = Some x"
      "sp_data (se_entity x) = Some d" using g unfolding rscope_get_Ok by blast
    have "t \<noteq> tok" using k(7) t(3,5) by auto
    moreover have "b \<noteq> a" using k(1) e'(2) t(6) by auto
    ultimately show ?thesis unfolding rscope_get_Ok using t k(2,6,8,9) e' r(2) by (auto simp: nth_list_update)
  qed
  ultimately show ?thesis using inv' nn p r(1) by (auto simp: tok_ptr_def)
qed

text \<open>An example: a thread with two objects in one scope; the first can be read as a stream.\<close>

definition sample_pool :: "(nat \<Rightarrow> scope_entity option) \<Rightarrow> nat option" where
  "sample_pool m = find (\<lambda>a. m a = None) [0..<4]"

definition file_pointer :: scope_pointer where
  "file_pointer = \<lparr>sp_data = Some 100, sp_copy = Some (\<lambda>d. Some (d + 1)), sp_free = Some (\<lambda>d. True),
     sp_open = Some (\<lambda>d. Some 7), sp_read = Some (\<lambda>h n. Some (take n ''hello'')), sp_eos = Some (\<lambda>h. 0),
     sp_event = None, sp_close = Some (\<lambda>h. True)\<rparr>"

definition plain_pointer :: scope_pointer where
  "plain_pointer = file_pointer\<lparr>sp_data := Some 200, sp_open := None\<rparr>"

definition empty_thread :: rs_state where
  "empty_thread = \<lparr>rs_capacity = 4096, rs_cached = NULL_ENTRY, rs_entries = [], rs_entities = (\<lambda>_. None),
     rs_freed = [], rs_next_id = 1\<rparr>"

definition one_object :: rs_state where
  "one_object = empty_thread\<lparr>rs_entries := [\<lparr>re_next = NULL_ENTRY, re_scope_id = 0, re_data = Some 0\<rparr>],
     rs_entities := (\<lambda>_. None)(0 := Some \<lparr>se_entity = file_pointer, se_refcnt = 1\<rparr>)\<rparr>"

definition two_objects :: rs_state where
  "two_objects = empty_thread\<lparr>rs_entries := [\<lparr>re_next = NULL_ENTRY, re_scope_id = 0, re_data = Some 0\<rparr>,
        \<lparr>re_next = 0, re_scope_id = 0, re_data = Some 1\<rparr>],
     rs_entities := (\<lambda>_. None)(0 := Some \<lparr>se_entity = file_pointer, se_refcnt = 1\<rparr>,
        1 := Some \<lparr>se_entity = plain_pointer, se_refcnt = 1\<rparr>)\<rparr>"

definition sample_scope :: rscope where
  "sample_scope = \<lparr>sc_id = 0, sc_head = 1\<rparr>"

lemma sample_pool_fresh: "sample_pool m = Some a \<longrightarrow> m a = None"
  by (auto simp: sample_pool_def find_Some_iff)

lemmas rs_samples = sample_pool_def file_pointer_def plain_pointer_def empty_thread_def one_object_def
  two_objects_def sample_scope_def NULL_ENTRY_def SCHED_RSCOPE_ENTRY_TABLE_SIZE_LIMIT_def

lemma one_object_inv: "rs_inv one_object"
  by (auto simp: rs_inv_def cached_list_def tok_list_Nil rs_samples intro!: exI [of _ "[]"])

lemma one_object_add:
  "sched_rscope_add sample_pool True \<lparr>sc_id = 0, sc_head = 0\<rparr> plain_pointer one_object
     = Ok (Some 1, sample_scope, two_objects)"
  by (simp add: sched_rscope_add_def entry_alloc_def entry_at_def entity_at_def result_simps rs_samples
        upt_rec Let_def)

lemma two_objects_tokens: "scope_tokens two_objects [] (sc_head sample_scope) [1, 0]"
  by (simp add: scope_tokens_def cached_list_def tok_list_Cons tok_list_Nil rs_samples token_entity_def)

theorem rscope_add_get_witness:
  "sched_rscope_get sample_scope 1 two_objects = Ok 200 \<and> sched_rscope_get sample_scope 0 two_objects = Ok 100"
proof -
  have g: "sched_rscope_get sample_scope 0 one_object = Ok 100"
    by (simp add: rscope_get_Ok rs_samples)
  show ?thesis
    using rscope_add_get [OF one_object_inv _ one_object_add] sample_pool_fresh g
    by (simp add: plain_pointer_def)
qed

text \<open>C36: disposing a scope releases every object of the scope exactly once. The call returns for
  every well-formed scope; the free callbacks run, in the order of the list, for the entities
  nobody else refers to, the other entities lose one reference, no other entity and no other
  entry changes, all tokens of the scope become cached and the invariant is kept. The result is
  an error exactly when one of the callbacks failed.\<close>

theorem rscope_free_disposes:
  assumes "rs_inv st" and "scope_tokens st cs (sc_head scope) xs"
  shows "\<exists>st'. sched_rscope_free scope st = Ok (list_all free_succeeds (entities_of st xs), st')
    \<and> rs_freed st' = rs_freed st @ concat (map objects_freed (entities_of st xs))
    \<and> (\<forall>a. rs_entities st' a = (if Some a \<in> data_at st ` set xs then released (the (rs_entities st a))
                                 else rs_entities st a))
    \<and> (\<forall>y. y \<notin> set xs \<longrightarrow> rs_entries st' ! y = rs_entries st ! y)
    \<and> cached_list st' (rev xs @ cs) \<and> rs_inv st'"
proof -
  obtain st' where "free_entries (sc_head scope) True st
      = Some (Ok (list_all free_succeeds (entities_of st xs), st'))"
    "cached_list st' (rev xs @ cs)" "rs_unused st' = rs_unused st" "rs_capacity st' = rs_capacity st"
    "rs_freed st' = rs_freed st @ concat (map objects_freed (entities_of st xs))"
    "\<forall>a. rs_entities st' a = (if Some a \<in> data_at st ` set xs then released (the (rs_entities st a))
                                 else rs_entities st a)"
    "\<forall>y. y \<notin> set xs \<longrightarrow> rs_entries st' ! y = rs_entries st ! y"
    using free_entries_list [OF assms(2), of True] by auto
  then show ?thesis using assms(1) by (auto simp: sched_rscope_free_def rs_inv_def)
qed

lemma two_objects_inv: "rs_inv two_objects"
  by (auto simp: rs_inv_def cached_list_def tok_list_Nil rs_samples intro!: exI [of _ "[]"])

theorem rscope_free_disposes_witness:
  "\<exists>st'. sched_rscope_free sample_scope two_objects = Ok (True, st') \<and> rs_freed st' = [200, 100]
     \<and> cached_list st' [0, 1]"
proof -
  have "concat (map objects_freed (entities_of two_objects [1, 0])) = [200, 100]"
    "list_all free_succeeds (entities_of two_objects [1, 0])" "rs_freed two_objects = []"
    by (simp_all add: entities_of_def token_entity_def objects_freed_def free_succeeds_def last_ref_def rs_samples)
  then show ?thesis using rscope_free_disposes [OF two_objects_inv two_objects_tokens] by auto
qed

text \<open>Opening a stream adds a reference and changes nothing else.\<close>

lemma concat_map_filter:
  "\<forall>x\<in>set xs. f x = (if P x then g x else []) \<Longrightarrow> concat (map f xs) = concat (map g (filter P xs))"
  by (induction xs) auto

lemma stream_open_Some:
  assumes "sched_rscope_stream_open ok tok st = Ok (Some s, st1)" and "token_entity st tok = Some ent"
  obtains a where "data_at st tok = Some a" and "rs_entities st a = Some ent" and "st_entity s = a"
    and "st1 = st\<lparr>rs_entities := (rs_entities st)(a := Some (ent\<lparr>se_refcnt := se_refcnt ent + 1\<rparr>))\<rparr>"
    and "sp_close (se_entity ent) \<noteq> None"
  using assms
  by (auto simp: sched_rscope_stream_open_def entry_at_def entity_at_def token_entity_def result_simps Let_def
        split: option.splits if_splits)

lemma extra_ref_tokens:
  assumes sc: "scope_tokens st cs t xs" and tok: "tok \<in> set xs" "data_at st tok = Some a"
    and st1: "st1 = st\<lparr>rs_entities := (rs_entities st)(a := Some ent')\<rparr>"
  shows "scope_tokens st1 cs t xs" and "x \<in> set xs \<Longrightarrow> token_entity st1 x = (if x = tok then Some ent' else token_entity st x)"
proof -
  have es: "entry_store st1 = entry_store st" and en: "rs_entries st1 = rs_entries st" by (simp_all add: st1)
  show te: "token_entity st1 x = (if x = tok then Some ent' else token_entity st x)" if x: "x \<in> set xs" for x
  proof -
    have "x \<noteq> tok \<Longrightarrow> data_at st x \<noteq> Some a" using sc tok x by (auto simp: scope_tokens_def inj_on_def)
    then show ?thesis using tok(2) by (auto simp: token_entity_def st1 split: option.splits)
  qed
  show "scope_tokens st1 cs t xs"
    using sc te unfolding scope_tokens_def cached_list_def tok_list_def es en by (simp add: st1)
qed

text \<open>A byte stream outlives its scope. When a stream was opened on a token of the scope, the
  disposal of the scope neither frees the object nor changes what the stream reads; closing the
  stream then frees the object.\<close>

theorem stream_outlives_scope:
  assumes "rs_inv st" and "scope_tokens st cs (sc_head scope) xs" and "tok \<in> set xs"
    and "token_entity st tok = Some ent" and "se_refcnt ent = 1"
    and "sched_rscope_stream_open ok tok st = Ok (Some s, st1)"
  shows "\<exists>rc st2. sched_rscope_free scope st1 = Ok (rc, st2)
    \<and> rs_freed st2 = rs_freed st @ concat (map objects_freed (entities_of st (filter (\<lambda>x. x \<noteq> tok) xs)))
    \<and> (\<forall>n. sched_rscope_stream_read s n st2 = sched_rscope_stream_read s n st1)
    \<and> (\<exists>rc' st3. sched_rscope_stream_close s st2 = Ok (rc', st3)
         \<and> rs_freed st3 = rs_freed st2 @ objects_freed ent \<and> rs_entities st3 (st_entity s) = None)"
proof -
  obtain a where a: "data_at st tok = Some a" "rs_entities st a = Some ent" "st_entity s = a"
    "st1 = st\<lparr>rs_entities := (rs_entities st)(a := Some (ent\<lparr>se_refcnt := se_refcnt ent + 1\<rparr>))\<rparr>"
    "sp_close (se_entity ent) \<noteq> None"
    by (rule stream_open_Some [OF assms(6,4)])
  let ?e = "ent\<lparr>se_refcnt := se_refcnt ent + 1\<rparr>"
  note t = extra_ref_tokens [OF assms(2,3) a(1,4)]
  have nl: "\<not> last_ref ?e" using assms(5) by (simp add: last_ref_def)
  then have fr: "objects_freed ?e = []" "released ?e = Some ent"
    using assms(5) by (auto simp: objects_freed_def released_def split: option.splits)
  obtain rc st2 where f: "sched_rscope_free scope st1 = Ok (rc, st2)"
    "rs_freed st2 = rs_freed st1 @ concat (map objects_freed (entities_of st1 xs))"
    "\<forall>b. rs_entities st2 b = (if Some b \<in> data_at st1 ` set xs then released (the (rs_entities st1 b))
                                 else rs_entities st1 b)"
    using free_entries_list [OF t(1), of True] unfolding sched_rscope_free_def by auto
  have "concat (map (\<lambda>x. objects_freed (the (token_entity st1 x))) xs)
      = concat (map (\<lambda>x. objects_freed (the (token_entity st x))) (filter (\<lambda>x. x \<noteq> tok) xs))"
    by (rule concat_map_filter) (use t(2) fr in auto)
  then have freed: "rs_freed st2 = rs_freed st @ concat (map objects_freed (entities_of st (filter (\<lambda>x. x \<noteq> tok) xs)))"
    using f(2) a(4) by (simp add: entities_of_def comp_def)
  have e1: "rs_entities st1 a = Some ?e" and "Some a \<in> data_at st1 ` set xs"
    using a(1,4) assms(3) by (auto simp: image_iff intro!: bexI [of _ tok])
  then have e2: "rs_entities st2 a = Some ent" using f(3) fr(2) by simp
  have read: "sched_rscope_stream_read s n st2 = sched_rscope_stream_read s n st1" for n
    using e1 e2 a(3) by (simp add: sched_rscope_stream_read_def entity_at_def result_simps)
  have "released ent = None" using assms(5) by (simp add: released_def last_ref_def)
  then have "\<exists>rc' st3. sched_rscope_stream_close s st2 = Ok (rc', st3)
      \<and> rs_freed st3 = rs_freed st2 @ objects_freed ent \<and> rs_entities st3 (st_entity s) = None"
    using e2 a(3,5) by (auto simp: sched_rscope_stream_close_def entity_at_def dispose_scope_entity_live result_simps)
  then show ?thesis using f(1) freed read by blast
qed

theorem stream_outlives_scope_witness:
  "\<exists>s st1 rc st2 rc' st3. sched_rscope_stream_open True 0 two_objects = Ok (Some s, st1)
     \<and> sched_rscope_free sample_scope st1 = Ok (rc, st2) \<and> rs_freed st2 = [200]
     \<and> sched_rscope_stream_close s st2 = Ok (rc', st3) \<and> rs_freed st3 = [200, 100]"
proof -
  let ?e = "\<lparr>se_entity = file_pointer, se_refcnt = 1\<rparr>" and ?s = "\<lparr>st_entity = 0, st_token = 0, st_handle = 7\<rparr>"
  let ?st1 = "two_objects\<lparr>rs_entities := (rs_entities two_objects)(0 := Some (?e\<lparr>se_refcnt := 2\<rparr>))\<rparr>"
  have o: "sched_rscope_stream_open True 0 two_objects = Ok (Some ?s, ?st1)"
    by (simp add: sched_rscope_stream_open_def entry_at_def entity_at_def result_simps rs_samples)
  have e: "token_entity two_objects 0 = Some ?e" by (simp add: token_entity_def rs_samples)
  have v: "concat (map objects_freed (entities_of two_objects (filter (\<lambda>x. x \<noteq> 0) [1, 0]))) = [200]"
    "objects_freed ?e = [100]" "rs_freed two_objects = []"
    by (simp_all add: entities_of_def token_entity_def objects_freed_def last_ref_def rs_samples)
  have "0 \<in> set [1, 0::nat]" and "se_refcnt ?e = 1" by simp_all
  from stream_outlives_scope [OF two_objects_inv two_objects_tokens this(1) e this(2) o] obtain rc st2 rc' st3
    where "sched_rscope_free sample_scope ?st1 = Ok (rc, st2)" "rs_freed st2 = [200]"
      "sched_rscope_stream_close ?s st2 = Ok (rc', st3)" "rs_freed st3 = rs_freed st2 @ [100]"
    using v by auto
  with o show ?thesis by force
qed

text \<open>a token of a disposed scope is not rejected. \<^verbatim>\<open>sched_rscope_get\<close> and
  \<^verbatim>\<open>sched_rscope_copy\<close> compare the token with the capacity of the table only and follow the entity
  pointer of the entry, which the disposal has set to NULL; only \<^verbatim>\<open>sched_rscope_stream_open\<close> tests
  that pointer.\<close>

theorem stale_token_undefined:
  assumes "rs_inv st" and "scope_tokens st cs (sc_head scope) xs" and "tok \<in> set xs"
    and "sched_rscope_free scope st = Ok (rc, st')"
  shows "sched_rscope_get scope tok st' = Undef \<and> sched_rscope_copy pool ok scope tok st' = Undef
    \<and> sched_rscope_stream_open ok tok st' = Ok (None, st')"
proof -
  obtain st2 where "sched_rscope_free scope st = Ok (list_all free_succeeds (entities_of st xs), st2)"
    "cached_list st2 (rev xs @ cs)" "rs_unused st2 = rs_unused st" "rs_capacity st2 = rs_capacity st"
    using free_entries_list [OF assms(2), of True] unfolding sched_rscope_free_def by auto
  then have c: "cached_list st' (rev xs @ cs)" "rs_unused st' = rs_unused st" "rs_capacity st' = rs_capacity st"
    using assms(4) by auto
  have "data_at st' tok = None" "tok < rs_unused st'"
    using c(1) assms(3) tok_list_bound unfolding cached_list_def by auto
  moreover from this(2) have "tok < rs_capacity st'" using assms(1) c by (simp add: rs_inv_def)
  moreover from this have "tok \<noteq> NULL_ENTRY" using token_not_null [OF assms(1)] c(3) by simp
  ultimately show ?thesis
    by (simp add: sched_rscope_get_def sched_rscope_copy_def sched_rscope_stream_open_def entry_at_def entity_at_def
          result_simps)
qed

theorem stale_token_undefined_witness:
  "\<exists>rc st'. sched_rscope_free sample_scope two_objects = Ok (rc, st')
     \<and> sched_rscope_get sample_scope 0 st' = Undef"
proof -
  obtain st' where f: "sched_rscope_free sample_scope two_objects
      = Ok (list_all free_succeeds (entities_of two_objects [1, 0]), st')"
    using free_entries_list [OF two_objects_tokens, of True] unfolding sched_rscope_free_def by auto
  show ?thesis
    using stale_token_undefined [OF two_objects_inv two_objects_tokens _ f, of 0] f by auto
qed

end
