(* ===== verification/HashMap.thy ===== *)
theory HashMap
  imports Prelude
begin

unbundle bit_operations_syntax

text \<open>
  The hash map of \<^verbatim>\<open>src/utils/hashmap.c\<close>: byte strings as keys and values, MurmurHash2 with
  64-bit arithmetic, chained slots, and the comparison of keys eight bytes at a time.
\<close>

type_synonym byte = "8 word"

subsection \<open>Words in memory\<close>

text \<open>
  A little-endian load. The code also loads words that reach up to seven bytes beyond a key;
  \<open>load64\<close> reads the memory after the key from \<open>beyond\<close>.
\<close>

primrec le_word :: "byte list \<Rightarrow> 64 word" where
  "le_word [] = 0"
| "le_word (b # bs) = ucast b OR push_bit 8 (le_word bs)"

definition load64 :: "byte list \<Rightarrow> byte list \<Rightarrow> nat \<Rightarrow> 64 word" where
  "load64 data beyond i = le_word (take 8 (drop (8 * i) (data @ beyond)))"

subsection \<open>The hash function\<close>

definition murmur_m :: "64 word" where "murmur_m = 0xc6a4a7935bd1e995"
definition murmur_r :: nat where "murmur_r = 47"

text \<open>The loop over the words; it stops with one to eight bytes left.\<close>

function hash_words :: "byte list \<Rightarrow> nat \<Rightarrow> nat \<Rightarrow> 64 word \<Rightarrow> nat \<times> 64 word" where
  "hash_words data i count ret =
     (if count > 8
      then let cur = load64 data [] i * murmur_m;
               cur = (cur XOR drop_bit murmur_r cur) * murmur_m
           in hash_words data (Suc i) (count - 8) ((ret XOR cur) * murmur_m)
      else (count, ret))"
  by pat_completeness auto
termination by (relation "measure (\<lambda>(data, i, count, ret). count)") auto

declare hash_words.simps [simp del]

text \<open>The switch over the bytes that are left; with eight of them no case applies.\<close>

definition hash_tail :: "byte list \<Rightarrow> nat \<Rightarrow> 64 word \<Rightarrow> 64 word" where
  "hash_tail rest count ret =
     (if 1 \<le> count \<and> count \<le> 7
      then foldr (\<lambda>n ret. ret XOR push_bit (n * 8) (ucast (rest ! n))) [0..<count] ret * murmur_m
      else ret)"

definition hash_code :: "byte list \<Rightarrow> 64 word" where
  "hash_code data =
     (let count = length data;
          rest = drop (count - count mod 8) data;
          (left, ret) = hash_words data 0 count 0;
          ret = hash_tail rest left ret;
          ret = (ret XOR drop_bit murmur_r ret) * murmur_m
      in ret XOR drop_bit murmur_r ret)"

subsection \<open>Nodes and comparison\<close>

record hash_node =
  hn_hashcode :: "64 word"
  hn_key :: "byte list"
  hn_val :: "byte list"

record hashmap =
  num_slots :: nat
  hm_slots :: "nat \<Rightarrow> hash_node list"

definition node_alloc :: "bool \<Rightarrow> byte list \<Rightarrow> byte list \<Rightarrow> hash_node result" where
  "node_alloc malloc_ok key val =
     (if \<not> malloc_ok then Error else Ok \<lparr>hn_hashcode = hash_code key, hn_key = key, hn_val = val\<rparr>)"

text \<open>
  \<^verbatim>\<open>_node_key_equal\<close> on a little-endian machine: whole words first, then the rest under a mask.
  \<open>xa\<close> and \<open>xb\<close> are the bytes after the two keys.
\<close>

fun words_differ :: "byte list \<Rightarrow> byte list \<Rightarrow> nat \<Rightarrow> nat \<Rightarrow> bool" where
  "words_differ a b i 0 = False"
| "words_differ a b i (Suc cnt) = (if load64 a [] i = load64 b [] i then words_differ a b (Suc i) cnt else True)"

definition node_key_equal :: "byte list \<Rightarrow> byte list \<Rightarrow> byte list \<Rightarrow> hash_node \<Rightarrow> bool" where
  "node_key_equal xa xb key node =
     (let b = hn_key node; n = length key; cnt = n div 8; left = n - 8 * cnt
      in if n \<noteq> length b then False
         else if words_differ key b 0 cnt then False
         else if left = 0 then True
         else (load64 key xa cnt XOR load64 b xb cnt) AND drop_bit (64 - left * 8) (- 1) = 0)"

subsection \<open>Operations\<close>

text \<open>\<open>xa\<close> is what lies in memory after the key the caller passes, \<open>xb\<close> after the key of a node.\<close>

definition hash_find :: "byte list \<Rightarrow> (hash_node \<Rightarrow> byte list) \<Rightarrow> hashmap \<Rightarrow> byte list \<Rightarrow> hash_node option result" where
  "hash_find xa xb hm key =
     (if num_slots hm = 0 then Undef
      else Ok (List.find (\<lambda>node. node_key_equal xa (xb node) key node)
                 (hm_slots hm (unat (hash_code key) mod num_slots hm))))"

definition hashmap_new :: "alloc \<Rightarrow> nat \<Rightarrow> hashmap result" where
  "hashmap_new mem n =
     (if \<not> mem 0 then Error else if \<not> mem 1 then Error else Ok \<lparr>num_slots = n, hm_slots = (\<lambda>_. [])\<rparr>)"

fun set_val :: "(hash_node \<Rightarrow> bool) \<Rightarrow> byte list \<Rightarrow> hash_node list \<Rightarrow> hash_node list" where
  "set_val p val [] = []"
| "set_val p val (n # ns) = (if p n then n\<lparr>hn_val := val\<rparr> # ns else n # set_val p val ns)"

text \<open>
  \<^verbatim>\<open>hashmap_insert\<close>: the status, the node that a caller-supplied result buffer describes, and the
  map. \<open>has_result\<close> tells whether the caller passed a result buffer; it is filled without a check when
  the key exists.
\<close>

definition hashmap_insert ::
  "bool \<Rightarrow> byte list \<Rightarrow> (hash_node \<Rightarrow> byte list) \<Rightarrow> hashmap \<Rightarrow> byte list \<Rightarrow> byte list \<Rightarrow> bool \<Rightarrow> bool
     \<Rightarrow> (int \<times> hash_node \<times> hashmap) result" where
  "hashmap_insert malloc_ok xa xb hm key val has_result override =
     (if key = [] then Error
      else rbind (hash_find xa xb hm key) (\<lambda>rc.
        let s = unat (hash_code key) mod num_slots hm
        in case rc of
             Some node \<Rightarrow>
               if \<not> override then (if has_result then Ok (0, node, hm) else Undef)
               else if length (hn_val node) = length val
               then (if has_result
                     then Ok (1, node\<lparr>hn_val := val\<rparr>,
                              hm\<lparr>hm_slots := (hm_slots hm)
                                   (s := set_val (\<lambda>n. node_key_equal xa (xb n) key n) val (hm_slots hm s))\<rparr>)
                     else Undef)
               else Error
           | None \<Rightarrow>
               rmap (\<lambda>node. (1, node, hm\<lparr>hm_slots := (hm_slots hm)(s := node # hm_slots hm s)\<rparr>))
                 (node_alloc malloc_ok key val)))"

definition hashmap_find ::
  "byte list \<Rightarrow> (hash_node \<Rightarrow> byte list) \<Rightarrow> hashmap \<Rightarrow> byte list \<Rightarrow> hash_node option result" where
  "hashmap_find xa xb hm key = (if key = [] then Error else hash_find xa xb hm key)"

subsection \<open>The comparison decides equality\<close>

lemma le_word_bit:
  "bit (le_word bs) n \<longleftrightarrow> n < 64 \<and> n div 8 < length bs \<and> bit (bs ! (n div 8)) (n mod 8)"
proof (induction bs arbitrary: n)
  case Nil
  then show ?case by simp
next
  case (Cons b bs)
  show ?case
  proof (cases "n < 8")
    case True
    then show ?thesis by (simp add: bit_or_iff bit_push_bit_iff bit_ucast_iff)
  next
    case False
    then have n: "(n - 8) div 8 = n div 8 - 1" "(n - 8) mod 8 = n mod 8" "0 < n div 8"
      by (simp_all add: le_div_geq le_mod_geq)
    have "\<not> bit b n" using False bit_imp_le_length [of b n] by auto
    moreover have "n div 8 - 1 < length bs \<longleftrightarrow> n div 8 < Suc (length bs)" using n(3) by linarith
    ultimately show ?thesis using False n Cons.IH [of "n - 8"]
      by (auto simp: bit_or_iff bit_push_bit_iff bit_ucast_iff nth_Cons')
  qed
qed

lemma le_word_take_eq:
  assumes "k \<le> 8" and "k \<le> length a" and "k \<le> length b"
  shows "take_bit (8 * k) (le_word a) = take_bit (8 * k) (le_word b) \<longleftrightarrow> take k a = take k b"
proof
  assume l: "take_bit (8 * k) (le_word a) = take_bit (8 * k) (le_word b)"
  have "a ! i = b ! i" if i: "i < k" for i
  proof (rule bit_word_eqI)
    fix j assume j: "j < LENGTH(8)"
    have "bit (take_bit (8 * k) (le_word a)) (8 * i + j) = bit (take_bit (8 * k) (le_word b)) (8 * i + j)" using l by simp
    moreover have "8 * i + j < 8 * k" "8 * i + j < 64" using i j assms(1) by simp_all
    moreover have "(8 * i + j) div 8 = i" "(8 * i + j) mod 8 = j" using j by simp_all
    ultimately show "bit (a ! i) j = bit (b ! i) j"
      using i assms by (simp add: bit_take_bit_iff le_word_bit)
  qed
  then show "take k a = take k b" using assms(2,3) by (intro nth_take_lemma) auto
next
  assume t: "take k a = take k b"
  show "take_bit (8 * k) (le_word a) = take_bit (8 * k) (le_word b)"
  proof (rule bit_word_eqI)
    fix n assume "n < LENGTH(64)"
    have "a ! (n div 8) = b ! (n div 8)" if "n < 8 * k"
      using t that by (metis less_mult_imp_div_less mult.commute nth_take)
    moreover have "n div 8 < k" if "n < 8 * k" using that by (simp add: less_mult_imp_div_less mult.commute)
    ultimately show "bit (take_bit (8 * k) (le_word a)) n = bit (take_bit (8 * k) (le_word b)) n"
      using assms by (auto simp: bit_take_bit_iff le_word_bit)
  qed
qed

lemma load64_eq:
  assumes "8 * i + 8 \<le> length a" and "8 * i + 8 \<le> length b"
  shows "load64 a [] i = load64 b [] i \<longleftrightarrow> take 8 (drop (8 * i) a) = take 8 (drop (8 * i) b)"
  using le_word_take_eq [of 8 "take 8 (drop (8 * i) a)" "take 8 (drop (8 * i) b)"] assms
  by (simp add: load64_def take_bit_length_eq [where 'a = 64, simplified])

lemma words_differ_iff:
  "8 * (i + cnt) \<le> length a \<Longrightarrow> 8 * (i + cnt) \<le> length b \<Longrightarrow>
     words_differ a b i cnt \<longleftrightarrow> take (8 * cnt) (drop (8 * i) a) \<noteq> take (8 * cnt) (drop (8 * i) b)"
proof (induction cnt arbitrary: i)
  case 0
  then show ?case by simp
next
  case (Suc cnt)
  have split: "take (8 * Suc cnt) (drop (8 * i) xs) = take 8 (drop (8 * i) xs) @ take (8 * cnt) (drop (8 * Suc i) xs)"
    for xs :: "byte list"
    using take_add [of 8 "8 * cnt" "drop (8 * i) xs"] by (simp add: add.commute)
  have e: "load64 a [] i = load64 b [] i \<longleftrightarrow> take 8 (drop (8 * i) a) = take 8 (drop (8 * i) b)"
    by (rule load64_eq) (use Suc.prems in simp_all)
  have l: "length (take 8 (drop (8 * i) a)) = length (take 8 (drop (8 * i) b))" using Suc.prems by simp
  show ?case using Suc.IH [of "Suc i"] Suc.prems e l by (simp only: split append_eq_append_conv words_differ.simps) simp
qed

lemma masked_xor:
  assumes "k \<le> 64"
  shows "(x XOR y) AND drop_bit (64 - k) (- 1) = 0 \<longleftrightarrow> take_bit k x = take_bit k (y :: 64 word)"
proof -
  have "bit (drop_bit (64 - k) (- 1 :: 64 word)) n \<longleftrightarrow> n < k" for n
    using assms by (auto simp: bit_mask_iff)
  then have "(x XOR y) AND drop_bit (64 - k) (- 1) = take_bit k x XOR take_bit k y"
    by (intro bit_word_eqI) (auto simp: bit_and_iff bit_xor_iff bit_take_bit_iff)
  moreover have "take_bit k x XOR take_bit k y = 0 \<longleftrightarrow> take_bit k x = take_bit k y"
    by (auto simp: bit_eq_iff bit_xor_iff)
  ultimately show ?thesis by simp
qed

lemma node_key_equal_iff:
  assumes "8 \<le> length xa" and "8 \<le> length xb"
  shows "node_key_equal xa xb key node \<longleftrightarrow> key = hn_key node"
proof (cases "length key = length (hn_key node)")
  case False
  then show ?thesis by (auto simp: node_key_equal_def Let_def)
next
  case len: True
  let ?b = "hn_key node" and ?c = "length key div 8"
  let ?l = "length key - 8 * ?c"
  have c: "8 * ?c \<le> length key" and l: "?l < 8" by (simp_all add: minus_mult_div_eq_mod)
  have w: "words_differ key ?b 0 ?c \<longleftrightarrow> take (8 * ?c) key \<noteq> take (8 * ?c) ?b"
    using words_differ_iff [of 0 ?c key ?b] c len by simp
  have ld: "load64 xs ys ?c = le_word (take 8 (drop (8 * ?c) xs @ ys))" if "length xs = length key" for xs ys
    using that c by (simp add: load64_def)
  have t: "take ?l (take 8 (drop (8 * ?c) xs @ ys)) = drop (8 * ?c) xs" if "length xs = length key" for xs ys :: "byte list"
    using that l by simp
  have m: "(load64 key xa ?c XOR load64 ?b xb ?c) AND drop_bit (64 - ?l * 8) (- 1) = 0
      \<longleftrightarrow> drop (8 * ?c) key = drop (8 * ?c) ?b"
    using masked_xor [of "?l * 8" "load64 key xa ?c" "load64 ?b xb ?c"]
      le_word_take_eq [of ?l "take 8 (drop (8 * ?c) key @ xa)" "take 8 (drop (8 * ?c) ?b @ xb)"]
      t [of key xa] t [of ?b xb] ld [of key xa] ld [of ?b xb] l assms len by (simp add: mult.commute)
  have eq: "key = ?b \<longleftrightarrow> take (8 * ?c) key = take (8 * ?c) ?b \<and> drop (8 * ?c) key = drop (8 * ?c) ?b"
    by (metis append_take_drop_id)
  have z: "drop (8 * ?c) key = drop (8 * ?c) ?b" if "?l = 0" using that len by simp
  have "node_key_equal xa xb key node \<longleftrightarrow> \<not> words_differ key ?b 0 ?c \<and> (?l = 0
      \<or> (load64 key xa ?c XOR load64 ?b xb ?c) AND drop_bit (64 - ?l * 8) (- 1) = 0)"
    unfolding node_key_equal_def Let_def using len by argo
  then show ?thesis unfolding w m using eq z by blast
qed

subsection \<open>The map behind the table\<close>

text \<open>
  What a client of a key-value store relies on, and what it gets for a series of insertions.
\<close>

locale kv_store =
  fixes look :: "'s \<Rightarrow> 'k \<Rightarrow> 'v option" and put :: "'s \<Rightarrow> 'k \<Rightarrow> 'v \<Rightarrow> 's option" and inv :: "'s \<Rightarrow> bool"
  assumes put_inv: "inv s \<Longrightarrow> put s k v = Some s' \<Longrightarrow> inv s'"
    and look_put: "inv s \<Longrightarrow> put s k v = Some s' \<Longrightarrow> look s' = (look s)(k := Some v)"
begin

fun put_all :: "('k \<times> 'v) list \<Rightarrow> 's \<Rightarrow> 's option" where
  "put_all [] s = Some s"
| "put_all ((k, v) # kvs) s = Option.bind (put s k v) (put_all kvs)"

lemma put_all_look:
  "inv s \<Longrightarrow> put_all kvs s = Some s' \<Longrightarrow> inv s' \<and> look s' = look s ++ map_of (rev kvs)"
proof (induction kvs arbitrary: s)
  case Nil
  then show ?case by simp
next
  case (Cons kv kvs)
  obtain k v where kv: "kv = (k, v)" by (cases kv)
  then obtain s1 where s1: "put s k v = Some s1" "put_all kvs s1 = Some s'"
    using Cons.prems(2) by (auto simp: bind_eq_Some_conv)
  have "inv s' \<and> look s' = look s1 ++ map_of (rev kvs)"
    using Cons.IH [OF put_inv [OF Cons.prems(1) s1(1)] s1(2)] .
  then show ?case using look_put [OF Cons.prems(1) s1(1)] kv by (simp add: map_add_assoc)
qed

end

definition slot_of :: "hashmap \<Rightarrow> byte list \<Rightarrow> nat" where
  "slot_of hm key = unat (hash_code key) mod num_slots hm"

definition hm_lookup :: "hashmap \<Rightarrow> byte list \<Rightarrow> byte list option" where
  "hm_lookup hm key = map_option hn_val (List.find (\<lambda>n. key = hn_key n) (hm_slots hm (slot_of hm key)))"

definition hm_inv :: "hashmap \<Rightarrow> bool" where
  "hm_inv hm \<longleftrightarrow> 0 < num_slots hm
     \<and> (\<forall>s. distinct (map hn_key (hm_slots hm s)) \<and> (\<forall>n\<in>set (hm_slots hm s). slot_of hm (hn_key n) = s))"

lemma set_val_find:
  assumes "\<And>n. p n \<longleftrightarrow> key = hn_key n"
  shows "map_option hn_val (List.find (\<lambda>n. k = hn_key n) (set_val p val ns))
      = (if k = key \<and> List.find (\<lambda>n. key = hn_key n) ns \<noteq> None then Some val
         else map_option hn_val (List.find (\<lambda>n. k = hn_key n) ns))"
    and "map hn_key (set_val p val ns) = map hn_key ns"
    and "hn_key ` set (set_val p val ns) = hn_key ` set ns"
  using assms by (induction ns) auto

text \<open>The memory after a key or a node is readable for the word that covers the last bytes.\<close>

definition readable :: "byte list \<Rightarrow> (hash_node \<Rightarrow> byte list) \<Rightarrow> bool" where
  "readable xa xb \<longleftrightarrow> 8 \<le> length xa \<and> (\<forall>n. 8 \<le> length (xb n))"

lemma hash_find_eq:
  assumes "readable xa xb" and "0 < num_slots hm"
  shows "hash_find xa xb hm key = Ok (List.find (\<lambda>n. key = hn_key n) (hm_slots hm (slot_of hm key)))"
  using assms by (simp add: hash_find_def readable_def node_key_equal_iff slot_of_def)

lemma hm_update_slot:
  assumes "hm_inv hm" and "distinct (map hn_key ns)" and "\<forall>n\<in>set ns. slot_of hm (hn_key n) = s"
  shows "hm_inv (hm\<lparr>hm_slots := (hm_slots hm)(s := ns)\<rparr>)"
  using assms by (simp add: hm_inv_def slot_of_def)

lemma hashmap_insert_cases:
  assumes inv: "hm_inv hm" and mem: "readable xa xb"
    and ins: "hashmap_insert ok xa xb hm key val res over = Ok (rc, node, hm')"
  shows "hm_inv hm' \<and> (if hm_lookup hm key = None \<or> over
      then rc = 1 \<and> hm_lookup hm' = (hm_lookup hm)(key := Some val) \<and> hn_val node = val
      else rc = 0 \<and> hm' = hm \<and> Some (hn_val node) = hm_lookup hm key)"
proof -
  let ?s = "slot_of hm key" and ?f = "List.find (\<lambda>n. key = hn_key n) (hm_slots hm (slot_of hm key))"
  have n0: "0 < num_slots hm" using inv by (simp add: hm_inv_def)
  note hf = hash_find_eq [OF mem n0, of key]
  show ?thesis
  proof (cases ?f)
    case None
    define new where "new = \<lparr>hn_hashcode = hash_code key, hn_key = key, hn_val = val\<rparr>"
    have hm': "rc = 1" "node = new" "hm' = hm\<lparr>hm_slots := (hm_slots hm)(?s := new # hm_slots hm ?s)\<rparr>"
      using ins hf None by (auto simp: hashmap_insert_def node_alloc_def slot_of_def new_def result_simps Let_def split: if_splits)
    have "key \<notin> hn_key ` set (hm_slots hm ?s)" using None by (auto simp: find_None_iff)
    then have "hm_inv hm'" unfolding hm'(3)
      by (intro hm_update_slot [OF inv]) (use inv in \<open>auto simp: hm_inv_def new_def\<close>)
    moreover have "hm_lookup hm' k = ((hm_lookup hm)(key := Some val)) k" for k
      by (simp add: hm_lookup_def hm'(3) slot_of_def new_def)
    ultimately show ?thesis using hm'(1,2) None by (auto simp: hm_lookup_def new_def)
  next
    case (Some n)
    show ?thesis
    proof (cases over)
      case False
      then show ?thesis using ins hf Some inv
        by (auto simp: hashmap_insert_def hm_lookup_def Let_def split: if_splits)
    next
      case True
      let ?p = "\<lambda>n. node_key_equal xa (xb n) key n"
      have p: "?p n \<longleftrightarrow> key = hn_key n" for n using mem by (simp add: readable_def node_key_equal_iff)
      let ?ns = "set_val ?p val (hm_slots hm ?s)"
      have hm': "rc = 1" "hn_val node = val" "hm' = hm\<lparr>hm_slots := (hm_slots hm)(?s := ?ns)\<rparr>"
        using ins hf Some True by (auto simp: hashmap_insert_def slot_of_def Let_def split: if_splits)
      have "\<forall>n\<in>set ?ns. slot_of hm (hn_key n) = ?s"
      proof
        fix n assume "n \<in> set ?ns"
        then have "hn_key n \<in> hn_key ` set (hm_slots hm ?s)" using set_val_find(3) [of ?p, OF p] by blast
        then show "slot_of hm (hn_key n) = ?s" using inv by (auto simp: hm_inv_def)
      qed
      then have "hm_inv hm'" unfolding hm'(3)
        by (intro hm_update_slot [OF inv]) (use inv in \<open>auto simp: hm_inv_def set_val_find(2) [of ?p, OF p]\<close>)
      moreover have "hm_lookup hm' k = ((hm_lookup hm)(key := Some val)) k" for k
        using set_val_find(1) [of ?p, OF p, of k val "hm_slots hm ?s"] Some
        by (auto simp: hm_lookup_def hm'(3) slot_of_def)
      ultimately show ?thesis using hm'(1,2) True by auto
    qed
  qed
qed

text \<open>The insertion with replacement, as a store of its own.\<close>

definition hm_put :: "hashmap \<Rightarrow> byte list \<Rightarrow> byte list \<Rightarrow> hashmap option" where
  "hm_put hm key val =
     (case hashmap_insert True (replicate 8 0) (\<lambda>_. replicate 8 0) hm key val True True of
        Ok (rc, node, hm') \<Rightarrow> Some hm' | _ \<Rightarrow> None)"

interpretation hm: kv_store hm_lookup hm_put hm_inv
proof
  have r: "readable (replicate 8 0) (\<lambda>_. replicate 8 0)" by (simp add: readable_def)
  fix s :: hashmap and k v s'
  assume i: "hm_inv s" and "hm_put s k v = Some s'"
  then obtain rc node where "hashmap_insert True (replicate 8 0) (\<lambda>_. replicate 8 0) s k v True True = Ok (rc, node, s')"
    by (auto simp: hm_put_def split: result.splits)
  from hashmap_insert_cases [OF i r this]
  show "hm_inv s'" and "hm_lookup s' = (hm_lookup s)(k := Some v)" by auto
qed

subsection \<open>Properties\<close>

text \<open>The hash map is a map. An insertion that succeeds stores the value for the key and leaves
  every other key alone; when the key exists and must not be replaced, nothing changes, the
  status is 0 and the result describes the stored value. A search returns what is stored. The bytes
  that the comparison reads beyond the keys have no influence.\<close>

theorem hashmap_insert_find:
  assumes "hm_inv hm" and "readable xa xb" and "readable ya yb"
    and "hashmap_insert ok xa xb hm key val res over = Ok (rc, node, hm')" and "k \<noteq> []"
  shows "hm_inv hm' \<and> (rc = 0 \<longrightarrow> hm' = hm \<and> hm_lookup hm key = Some (hn_val node))
    \<and> rmap (map_option hn_val) (hashmap_find ya yb hm' k)
        = Ok (if k = key \<and> rc = 1 then Some val else hm_lookup hm k)"
proof -
  have r: "hm_inv hm' \<and> (if hm_lookup hm key = None \<or> over
      then rc = 1 \<and> hm_lookup hm' = (hm_lookup hm)(key := Some val) \<and> hn_val node = val
      else rc = 0 \<and> hm' = hm \<and> Some (hn_val node) = hm_lookup hm key)"
    by (rule hashmap_insert_cases [OF assms(1,2,4)])
  then have "0 < num_slots hm'" by (simp add: hm_inv_def)
  then have "rmap (map_option hn_val) (hashmap_find ya yb hm' k) = Ok (hm_lookup hm' k)"
    using assms(3,5) by (simp add: hashmap_find_def hash_find_eq hm_lookup_def)
  then show ?thesis using r by (auto split: if_splits)
qed

definition empty_map :: hashmap where "empty_map = \<lparr>num_slots = 31, hm_slots = (\<lambda>_. [])\<rparr>"

lemma empty_map_inv: "hm_inv empty_map"
  by (simp add: hm_inv_def empty_map_def)

theorem hashmap_insert_find_witness:
  "\<exists>hm'. hashmap_insert True (replicate 8 1) (\<lambda>_. replicate 8 2) empty_map [65, 66] [1] False False
      = Ok (1, \<lparr>hn_hashcode = hash_code [65, 66], hn_key = [65, 66], hn_val = [1]\<rparr>, hm')
    \<and> rmap (map_option hn_val) (hashmap_find (replicate 8 3) (\<lambda>_. replicate 8 4) hm' [65, 66]) = Ok (Some [1])"
proof -
  have r: "readable (replicate 8 x) (\<lambda>_. replicate 8 y)" for x y by (simp add: readable_def)
  obtain hm' where i: "hashmap_insert True (replicate 8 1) (\<lambda>_. replicate 8 2) empty_map [65, 66] [1] False False
      = Ok (1, \<lparr>hn_hashcode = hash_code [65, 66], hn_key = [65, 66], hn_val = [1]\<rparr>, hm')"
    by (simp add: hashmap_insert_def hash_find_def empty_map_def node_alloc_def Let_def)
  from hashmap_insert_find [OF empty_map_inv r r i, of "[65, 66]"] i show ?thesis by simp
qed

text \<open>The words that the loop loads do not reach the last eight bytes.\<close>

lemma hash_words_ignores:
  "8 * i + count = length p + 8 \<Longrightarrow> length p mod 8 = 0 \<Longrightarrow> length w = 8 \<Longrightarrow> length w' = 8 \<Longrightarrow>
     hash_words (p @ w) i count ret = hash_words (p @ w') i count ret"
proof (induction "p @ w" i count ret rule: hash_words.induct)
  case (1 i count ret)
  show ?case
  proof (cases "count > 8")
    case True
    then have "8 * i < length p" using "1.prems"(1) by linarith
    then have "8 * i + 8 \<le> length p" using "1.prems"(2) by presburger
    then have ld: "load64 (p @ w) [] i = load64 (p @ w') [] i" by (simp add: load64_def)
    show ?thesis
      using True ld "1.hyps" [OF True refl refl] "1.prems" by (subst (1 2) hash_words.simps) (simp add: Let_def)
  next
    case False
    then show ?thesis by (simp add: hash_words.simps)
  qed
qed

text \<open>for a key whose size is a multiple of eight the hash code does not depend on the last eight
  bytes; all keys of eight bytes share one hash code, and one slot.\<close>

theorem hash_ignores_last_word:
  assumes "length p mod 8 = 0" and "length w = 8" and "length w' = 8"
  shows "hash_code (p @ w) = hash_code (p @ w')"
proof -
  have "hash_words (p @ w) 0 (length p + 8) 0 = hash_words (p @ w') 0 (length p + 8) 0"
    by (rule hash_words_ignores) (use assms in auto)
  moreover have "fst (hash_words d i count ret) = 8" if "count mod 8 = 0" "0 < count" for d i count ret
    using that
  proof (induction d i count ret rule: hash_words.induct)
    case (1 d i count ret)
    then show ?case by (subst hash_words.simps) (auto simp: Let_def mod_eq_0_iff_dvd dvd_diff_nat dest: nat_dvd_not_less)
  qed
  then have "fst (hash_words (p @ w) 0 (length p + 8) 0) = 8" using assms(1) by simp
  ultimately obtain ret where "hash_words (p @ w) 0 (length p + 8) 0 = (8, ret)"
    "hash_words (p @ w') 0 (length p + 8) 0 = (8, ret)"
    by (metis prod.collapse)
  then show ?thesis using assms(2,3) by (simp add: hash_code_def hash_tail_def Let_def)
qed

theorem hash_ignores_last_word_witness: "hash_code [1, 2, 3, 4, 5, 6, 7, 8] = hash_code [8, 7, 6, 5, 4, 3, 2, 1]"
  using hash_ignores_last_word [of "[]" "[1, 2, 3, 4, 5, 6, 7, 8]" "[8, 7, 6, 5, 4, 3, 2, 1]"] by simp

end
