(* ===== verification/Chunks.thy ===== *)
theory Chunks
  imports Prelude
begin

text \<open>
  The contract of a component that is fed with the pieces of a stream: feeding two pieces one after
  the other is feeding them joined. From it follows that only the concatenation of the pieces
  matters. The text matcher and the request parser promise it.
\<close>

locale stream_machine =
  fixes good :: "'s \<Rightarrow> bool"
    and accepts :: "'s \<Rightarrow> 'c list \<Rightarrow> bool"
    and feed :: "'s \<Rightarrow> 'c list \<Rightarrow> 's"
    and same :: "'s \<Rightarrow> 's \<Rightarrow> bool"
  assumes same_refl: "same s s"
    and same_trans: "\<lbrakk> same s u; same u v \<rbrakk> \<Longrightarrow> same s v"
    and feed_good: "\<lbrakk> good s; accepts s a \<rbrakk> \<Longrightarrow> good (feed s a)"
    and feed_accepts: "\<lbrakk> good s; accepts s a; accepts s b \<rbrakk> \<Longrightarrow> accepts (feed s a) b"
    and accepts_Nil: "good s \<Longrightarrow> accepts s []"
    and accepts_append: "\<lbrakk> accepts s a; accepts s b \<rbrakk> \<Longrightarrow> accepts s (a @ b)"
    and feed_Nil: "good s \<Longrightarrow> feed s [] = s"
    and feed_same: "\<lbrakk> good s; good u; same s u; accepts s a; accepts u a \<rbrakk> \<Longrightarrow> same (feed s a) (feed u a)"
    and feed_append: "\<lbrakk> good s; accepts s a; accepts s b \<rbrakk> \<Longrightarrow> same (feed (feed s a) b) (feed s (a @ b))"
begin

lemma accepts_concat: "\<lbrakk> good s; list_all (accepts s) cs \<rbrakk> \<Longrightarrow> accepts s (concat cs)"
  by (induction cs) (auto intro: accepts_append accepts_Nil)

lemma feed_pieces:
  assumes "good s" and "list_all (accepts s) cs"
  shows "good (foldl feed s cs) \<and> (\<forall>b. accepts s b \<longrightarrow> accepts (foldl feed s cs) b)
    \<and> same (foldl feed s cs) (feed s (concat cs))"
  using assms
proof (induction cs rule: rev_induct)
  case Nil
  then show ?case using same_refl feed_Nil by simp
next
  case (snoc c cs)
  let ?u = "foldl feed s cs" and ?a = "concat cs"
  have ih: "good ?u" "\<forall>b. accepts s b \<longrightarrow> accepts ?u b" "same ?u (feed s ?a)"
    using snoc by auto
  have acc: "accepts s ?a" "accepts s c" using snoc.prems accepts_concat by auto
  have "same (feed ?u c) (feed (feed s ?a) c)"
    using feed_same [OF ih(1) feed_good [OF snoc.prems(1) acc(1)] ih(3)] ih(2) acc
      feed_accepts [OF snoc.prems(1) acc] by blast
  moreover have "same (feed (feed s ?a) c) (feed s (?a @ c))" using feed_append snoc.prems(1) acc by blast
  ultimately show ?case
    using same_trans ih feed_good feed_accepts acc by (auto simp: snoc.prems(1))
qed

text \<open>Two ways to cut the same stream lead to the same state.\<close>

lemma cut_irrelevant:
  assumes "good s" and "list_all (accepts s) cs"
  shows "same (foldl feed s cs) (feed s (concat cs))"
  using feed_pieces [OF assms] by blast

end

end
