(* ===== verification/Kmp.thy ===== *)
theory Kmp
  imports Chunks "HOL-Library.Sublist"
begin

text \<open>
  The streaming string matcher of the text search servlet,
  \<^verbatim>\<open>servlets/dataflow/regex/kmp.c\<close>: the prefix array, the partial match that is resumed
  chunk by chunk through its state, and the match of a whole line. The loops that follow the
  prefix array are partial functions (\<open>None\<close> is a loop that does not end), so that returning is
  part of what is proved. The reference is the longest overlap between the end of the text read
  so far and the beginning of the pattern.
\<close>

subsection \<open>Data\<close>

type_synonym kchar = "8 word"

text \<open>\<^verbatim>\<open>char\<close> is signed on the platforms the code is built for; a comparison with the
  \<^verbatim>\<open>int\<close> marker compares the sign-extended value.\<close>

record kmp_pattern_t =
  kmp_size :: nat
  kmp_pattern :: "kchar list"
  kmp_prefix :: "nat list"

definition is_eol :: "int \<Rightarrow> kchar \<Rightarrow> bool" where
  "is_eol eol_marker c \<longleftrightarrow> sint c = eol_marker"

subsection \<open>Building a pattern\<close>

text \<open>
  The inner \<^verbatim>\<open>for\<close> of \<^verbatim>\<open>kmp_pattern_new\<close>: \<^verbatim>\<open>prefix[i]\<close> falls back along the array. No
  value stored exceeds the length of the pattern, so the additions cannot wrap.
\<close>

partial_function (option) prefix_fall :: "kchar list \<Rightarrow> nat list \<Rightarrow> nat \<Rightarrow> nat list result option"
  where
  "prefix_fall pat pre i =
     (if length pre \<le> i then Some Undef
      else if pre ! i > 1
      then if length pat \<le> pre ! i - 1 \<or> length pat \<le> i then Some Undef
           else if pat ! (pre ! i - 1) \<noteq> pat ! i
           then if length pre \<le> pre ! i - 2 then Some Undef
                else prefix_fall pat (pre[i := pre ! (pre ! i - 2) + 1]) i
           else Some (Ok pre)
      else Some (Ok pre))"

definition prefix_step :: "kchar list \<Rightarrow> nat list \<Rightarrow> nat \<Rightarrow> nat list result option" where
  "prefix_step pat pre i =
     Option.bind (prefix_fall pat (pre[i := pre ! (i - 1) + 1]) i) (\<lambda>r. Some
       (rmap (\<lambda>pre. if pre ! i = 1 \<and> pat ! 0 \<noteq> pat ! i then pre[i := 0] else pre) r))"

function prefix_loop :: "kchar list \<Rightarrow> nat list \<Rightarrow> nat \<Rightarrow> nat \<Rightarrow> nat list result option" where
  "prefix_loop pat pre i len =
     (if i < len
      then Option.bind (prefix_step pat pre i) (\<lambda>r. case r of
             Ok pre \<Rightarrow> prefix_loop pat pre (i + 1) len
           | Error \<Rightarrow> Some Error
           | Undef \<Rightarrow> Some Undef)
      else Some (Ok pre))"
  by pat_completeness auto
termination by (relation "measure (\<lambda>(pat, pre, i, len). len - i)") auto

declare prefix_loop.simps [simp del]

text \<open>
  The allocations are the object, the copy of the text and the array. With \<^verbatim>\<open>len = 0\<close> the
  assignment to \<^verbatim>\<open>prefix[0]\<close> is outside the array.
\<close>

definition kmp_pattern_new :: "alloc \<Rightarrow> kchar list option \<Rightarrow> nat \<Rightarrow> kmp_pattern_t result option"
  where
  "kmp_pattern_new a text len =
     (case text of None \<Rightarrow> Some Error
      | Some text \<Rightarrow>
          if \<not> a 0 then Some Error
          else if \<not> a 1 then Some Error
          else if length text < len then Some Undef
          else if \<not> a 2 then Some Error
          else if len = 0 then Some Undef
          else let pat = take len text in
               Option.bind (prefix_loop pat ((replicate len 0)[0 := 0]) 1 len) (\<lambda>r. Some
                 (rmap (\<lambda>pre. \<lparr>kmp_size = len, kmp_pattern = pat, kmp_prefix = pre\<rparr>) r)))"

definition kmp_pattern_length :: "kmp_pattern_t option \<Rightarrow> nat result" where
  "kmp_pattern_length kmp = (case kmp of None \<Rightarrow> Error | Some kmp \<Rightarrow> Ok (kmp_size kmp))"

subsection \<open>Matching\<close>

partial_function (option) match_fall :: "kmp_pattern_t \<Rightarrow> kchar \<Rightarrow> nat \<Rightarrow> nat result option" where
  "match_fall kmp c matched =
     (if matched > 0
      then if length (kmp_pattern kmp) \<le> matched then Some Undef
           else if c \<noteq> kmp_pattern kmp ! matched
           then if length (kmp_prefix kmp) \<le> matched - 1 then Some Undef
                else match_fall kmp c (kmp_prefix kmp ! (matched - 1))
           else Some (Ok matched)
      else Some (Ok matched))"

function match_loop :: "kmp_pattern_t \<Rightarrow> kchar list \<Rightarrow> nat \<Rightarrow> int \<Rightarrow> nat \<Rightarrow> nat
    \<Rightarrow> (nat \<times> nat) result option" where
  "match_loop kmp text maxlen eol_marker i matched =
     (if i < maxlen
      then if length text \<le> i then Some Undef
           else if \<not> is_eol eol_marker (text ! i) \<and> matched < kmp_size kmp
           then Option.bind (match_fall kmp (text ! i) matched) (\<lambda>r. case r of
                  Ok m \<Rightarrow> match_loop kmp text maxlen eol_marker (i + 1)
                            (if m \<noteq> 0 \<or> text ! i = kmp_pattern kmp ! 0 then m + 1 else m)
                | Error \<Rightarrow> Some Error
                | Undef \<Rightarrow> Some Undef)
           else Some (Ok (i, matched))
      else Some (Ok (i, matched)))"
  by pat_completeness auto
termination by (relation "measure (\<lambda>(kmp, text, maxlen, eol, i, m). maxlen - i)") auto

declare match_loop.simps [simp del]

text \<open>The result is a \<^verbatim>\<open>size_t\<close>: a match that began in an earlier chunk wraps around.\<close>

definition kmp_partial_match :: "kmp_pattern_t option \<Rightarrow> kchar list option \<Rightarrow> nat \<Rightarrow> int
    \<Rightarrow> nat option \<Rightarrow> (nat \<times> nat option) result option" where
  "kmp_partial_match kmp text maxlen eol_marker state =
     (case (kmp, text) of
        (Some kmp, Some text) \<Rightarrow>
          Option.bind (match_loop kmp text maxlen eol_marker 0
              (case state of None \<Rightarrow> 0 | Some m \<Rightarrow> m)) (\<lambda>r. Some
            (rmap (\<lambda>(i, matched).
                (if matched \<noteq> kmp_size kmp then i
                 else (i + 2 ^ 64 - kmp_size kmp) mod 2 ^ 64,
                 map_option (\<lambda>_. matched) state)) r))
      | _ \<Rightarrow> Some Error)"

function full_loop :: "kmp_pattern_t \<Rightarrow> kchar list \<Rightarrow> int \<Rightarrow> nat \<Rightarrow> nat \<Rightarrow> nat \<Rightarrow> nat result" where
  "full_loop kmp text eol_marker start end i =
     (if i < kmp_size kmp \<and> i < end
      then if length text \<le> i - start then Undef
           else if \<not> is_eol eol_marker (text ! (i - start)) \<and> text ! (i - start) = kmp_pattern kmp ! i
           then full_loop kmp text eol_marker start end (i + 1)
           else Ok i
      else Ok i)"
  by pat_completeness auto
termination by (relation "measure (\<lambda>(kmp, text, eol, start, end, i). end - i)") auto

declare full_loop.simps [simp del]

definition kmp_full_match :: "kmp_pattern_t option \<Rightarrow> kchar list option \<Rightarrow> int \<Rightarrow> nat \<Rightarrow> nat
    \<Rightarrow> nat result" where
  "kmp_full_match kmp text eol_marker start len =
     (case (kmp, text) of
        (Some kmp, Some text) \<Rightarrow>
          let end = (start + len) mod 2 ^ 64 in
          rbind (full_loop kmp text eol_marker start end start) (\<lambda>i.
            if end = i then Ok i
            else if length text \<le> i - start then Undef
            else if is_eol eol_marker (text ! (i - start)) then Ok i
            else Ok 0)
      | _ \<Rightarrow> Error)"

subsection \<open>The reference: overlaps\<close>

text \<open>
  \<open>overlaps p t k\<close>: the first \<open>k\<close> characters of the pattern are the last \<open>k\<close> of the text.
  \<open>overlap p t\<close> is the largest such number; the pattern has just been seen when it is the
  whole length.
\<close>

definition overlaps :: "'a list \<Rightarrow> 'a list \<Rightarrow> nat \<Rightarrow> bool" where
  "overlaps p t k \<longleftrightarrow> k \<le> length p \<and> suffix (take k p) t"

definition overlap :: "'a list \<Rightarrow> 'a list \<Rightarrow> nat" where
  "overlap p t = Max (set (filter (overlaps p t) [0..<Suc (length p)]))"

lemma overlaps_0 [simp]: "overlaps p t 0"
  by (simp add: overlaps_def)

lemma finite_overlaps: "finite (Collect (overlaps p t))"
  by (rule finite_subset [of _ "{..length p}"]) (auto simp: overlaps_def)

lemma overlap_Max: "overlap p t = Max (Collect (overlaps p t))"
proof -
  have "set (filter (overlaps p t) [0..<Suc (length p)]) = Collect (overlaps p t)"
    unfolding set_filter set_upt overlaps_def by auto
  then show ?thesis by (simp only: overlap_def)
qed

lemma overlap_overlaps: "overlaps p t (overlap p t)"
proof -
  have "Collect (overlaps p t) \<noteq> {}" using overlaps_0 by blast
  then show ?thesis using Max_in [OF finite_overlaps] by (simp add: overlap_Max)
qed

lemma overlap_max: "overlaps p t k \<Longrightarrow> k \<le> overlap p t"
  using Max_ge [OF finite_overlaps, of k p t] by (simp add: overlap_Max)

lemma overlap_eqI: "\<lbrakk> overlaps p t k; \<And>j. overlaps p t j \<Longrightarrow> j \<le> k \<rbrakk> \<Longrightarrow> overlap p t = k"
  by (simp add: overlap_max overlap_overlaps order_antisym)

lemma overlap_le_pattern: "overlap p t \<le> length p"
  using overlap_overlaps by (auto simp: overlaps_def)

lemma overlap_le_text: "overlap p t \<le> length t"
  using overlap_overlaps [of p t] suffix_length_le by (fastforce simp: overlaps_def)

lemma overlap_Nil [simp]: "overlap p [] = 0"
  using overlap_le_text [of p "[]"] by simp

lemma overlap_full_iff: "overlap p t = length p \<longleftrightarrow> suffix p t"
proof
  show "overlap p t = length p \<Longrightarrow> suffix p t"
    using overlap_overlaps [of p t] by (simp add: overlaps_def)
  show "suffix p t \<Longrightarrow> overlap p t = length p"
    using overlap_max [of p t "length p"] overlap_le_pattern [of p t] by (simp add: overlaps_def)
qed

text \<open>Shorter overlaps of the text are the borders of the longer one.\<close>

lemma overlaps_border:
  assumes "overlaps p t m" and "k < m"
  shows "overlaps p t k \<longleftrightarrow> overlaps p (tl (take m p)) k"
proof -
  have m: "m \<le> length p" "suffix (take m p) t" using assms(1) by (auto simp: overlaps_def)
  have tl_t: "suffix (tl (take m p)) t"
    using m(2) suffix_tl [of "take m p"] suffix_order.trans by blast
  have len: "length (take k p) \<le> length (tl (take m p))" using assms(2) m(1) by simp
  show ?thesis
    using suffix_length_suffix [OF _ tl_t len] suffix_order.trans [OF _ tl_t] assms(2) m(1)
    by (auto simp: overlaps_def)
qed

lemma overlap_border_less:
  assumes "0 < m" and "m \<le> length p"
  shows "overlap p (tl (take m p)) < m"
  using overlap_le_text [of p "tl (take m p)"] assms by simp

lemma overlaps_snoc: "overlaps p (t @ [c]) (Suc k) \<longleftrightarrow> k < length p \<and> p ! k = c \<and> overlaps p t k"
  by (auto simp: overlaps_def take_Suc_conv_app_nth)

text \<open>The candidates for the overlap after one more character.\<close>

definition candidate :: "'a list \<Rightarrow> 'a list \<Rightarrow> 'a \<Rightarrow> nat \<Rightarrow> bool" where
  "candidate p t c k \<longleftrightarrow> k < length p \<and> p ! k = c \<and> overlaps p t k"

definition fall_inv :: "'a list \<Rightarrow> 'a list \<Rightarrow> 'a \<Rightarrow> nat \<Rightarrow> bool" where
  "fall_inv p t c m \<longleftrightarrow> m < length p \<and> overlaps p t m \<and> (\<forall>k. candidate p t c k \<longrightarrow> k \<le> m)"

lemma fall_inv_init: "overlap p t < length p \<Longrightarrow> fall_inv p t c (overlap p t)"
  by (simp add: fall_inv_def overlap_overlaps candidate_def overlap_max)

lemma fall_inv_step:
  assumes inv: "fall_inv p t c m" and "0 < m" and ne: "p ! m \<noteq> c"
  shows "fall_inv p t c (overlap p (tl (take m p)))"
proof -
  let ?b = "overlap p (tl (take m p))"
  have m: "m < length p" "overlaps p t m" using inv by (auto simp: fall_inv_def)
  have b: "?b < m" using overlap_border_less [OF assms(2), of p] m(1) by simp
  have "overlaps p t ?b" using overlaps_border [OF m(2) b] overlap_overlaps by blast
  moreover have "k \<le> ?b" if "candidate p t c k" for k
  proof -
    have "k < m" using inv that ne by (metis candidate_def fall_inv_def nat_less_le)
    then show ?thesis
      using overlaps_border [OF m(2)] that by (simp add: candidate_def overlap_max)
  qed
  ultimately show ?thesis using b m(1) by (simp add: fall_inv_def)
qed

lemma fall_inv_stop:
  assumes inv: "fall_inv p t c m" and stop: "m = 0 \<or> p ! m = c"
  shows "overlap p (t @ [c]) = (if m \<noteq> 0 \<or> c = p ! 0 then m + 1 else m)"
proof (rule overlap_eqI)
  have m: "m < length p" "overlaps p t m" using inv by (auto simp: fall_inv_def)
  show "overlaps p (t @ [c]) (if m \<noteq> 0 \<or> c = p ! 0 then m + 1 else m)"
    using stop m by (auto simp: overlaps_snoc)
  fix j assume j: "overlaps p (t @ [c]) j"
  show "j \<le> (if m \<noteq> 0 \<or> c = p ! 0 then m + 1 else m)"
  proof (cases j)
    case (Suc k)
    then have "candidate p t c k" using j by (simp add: overlaps_snoc candidate_def)
    then show ?thesis using inv Suc by (cases "m = 0") (auto simp: fall_inv_def candidate_def)
  qed simp
qed

subsection \<open>The prefix array\<close>

text \<open>Entry \<open>m - 1\<close> holds the longest proper border of the first \<open>m\<close> characters.\<close>

definition prefix_ok :: "kchar list \<Rightarrow> nat list \<Rightarrow> nat \<Rightarrow> bool" where
  "prefix_ok p pre n \<longleftrightarrow> length pre = length p \<and> n \<le> length p
     \<and> (\<forall>m<n. pre ! m = overlap p (tl (take (Suc m) p)))"

lemma prefix_fall_returns:
  assumes "fall_inv p t (p ! i) m" and "m < i" and "i < length p" and "prefix_ok p pre i"
  shows "\<exists>v. prefix_fall p (pre[i := m + 1]) i = Some (Ok (pre[i := v + 1]))
    \<and> fall_inv p t (p ! i) v \<and> (v = 0 \<or> p ! v = p ! i)"
  using assms(1,2)
proof (induction m rule: less_induct)
  case (less m)
  have len: "length pre = length p" using assms(4) by (simp add: prefix_ok_def)
  show ?case
  proof (cases "m = 0 \<or> p ! m = p ! i")
    case True
    then have "prefix_fall p (pre[i := m + 1]) i = Some (Ok (pre[i := m + 1]))"
      using less.prems(2) assms(3) len by (subst prefix_fall.simps) auto
    then show ?thesis using True less.prems(1) by blast
  next
    case False
    let ?b = "overlap p (tl (take m p))"
    have b: "?b < m" using overlap_border_less [of m p] False less.prems(2) assms(3) by simp
    have "pre ! (m - 1) = ?b"
      using assms(4) False less.prems(2) unfolding prefix_ok_def by (cases m) auto
    then have "prefix_fall p (pre[i := m + 1]) i = prefix_fall p (pre[i := ?b + 1]) i"
      using False less.prems(2) assms(3) len by (subst prefix_fall.simps) auto
    moreover have "fall_inv p t (p ! i) ?b"
      using fall_inv_step [OF less.prems(1)] False by simp
    ultimately show ?thesis using less.IH [OF b] b less.prems(2) by simp
  qed
qed

lemma tl_take_Suc: "\<lbrakk> 0 < i; i < length p \<rbrakk> \<Longrightarrow> tl (take (Suc i) p) = tl (take i p) @ [p ! i]"
  by (cases p) (auto simp: take_Suc_conv_app_nth take_tl gr0_conv_Suc)

lemma prefix_step_correct:
  assumes i: "0 < i" "i < length p" and ok: "prefix_ok p pre i"
  shows "\<exists>pre'. prefix_step p pre i = Some (Ok pre') \<and> prefix_ok p pre' (Suc i)"
proof -
  let ?t = "tl (take i p)"
  have less: "overlap p ?t < i" using overlap_border_less [of i p] i by simp
  then have inv: "fall_inv p ?t (p ! i) (overlap p ?t)" using i(2) by (simp add: fall_inv_init)
  have prev: "pre ! (i - 1) = overlap p ?t" using ok i(1) unfolding prefix_ok_def by (cases i) auto
  obtain v where v: "prefix_fall p (pre[i := overlap p ?t + 1]) i = Some (Ok (pre[i := v + 1]))"
    "fall_inv p ?t (p ! i) v" "v = 0 \<or> p ! v = p ! i"
    using prefix_fall_returns [OF inv less i(2) ok] by blast
  have len: "length pre = length p" using ok by (simp add: prefix_ok_def)
  have new: "overlap p (tl (take (Suc i) p)) = (if v \<noteq> 0 \<or> p ! i = p ! 0 then v + 1 else v)"
    using fall_inv_stop [OF v(2,3)] tl_take_Suc [OF i] by simp
  have "prefix_step p pre i = Some (Ok (pre[i := overlap p (tl (take (Suc i) p))]))"
    unfolding new prefix_step_def prev v(1) using i(2) len by (cases "v = 0") auto
  moreover have "prefix_ok p (pre[i := overlap p (tl (take (Suc i) p))]) (Suc i)"
    using ok i(2) by (auto simp: prefix_ok_def less_Suc_eq nth_list_update)
  ultimately show ?thesis by blast
qed

lemma prefix_loop_correct:
  assumes "0 < i" and "prefix_ok p pre i"
  shows "\<exists>pre'. prefix_loop p pre i (length p) = Some (Ok pre') \<and> prefix_ok p pre' (length p)"
  using assms
proof (induction "length p - i" arbitrary: i pre)
  case 0
  then show ?case by (subst prefix_loop.simps) (auto simp: prefix_ok_def)
next
  case (Suc n)
  then have i: "0 < i" "i < length p" by auto
  obtain pre' where pre': "prefix_step p pre i = Some (Ok pre')" "prefix_ok p pre' (Suc i)"
    using prefix_step_correct [OF i Suc.prems(2)] by blast
  show ?case
    using Suc.hyps(1) [of "Suc i" pre'] Suc.hyps(2) pre' i(2)
    by (subst prefix_loop.simps) simp
qed

definition kmp_ok :: "kchar list \<Rightarrow> kmp_pattern_t \<Rightarrow> bool" where
  "kmp_ok p kmp \<longleftrightarrow> p \<noteq> [] \<and> kmp_size kmp = length p \<and> kmp_pattern kmp = p
     \<and> kmp_prefix kmp = map (\<lambda>m. overlap p (tl (take (Suc m) p))) [0..<length p]"

lemma kmp_ok_prefix: "kmp_ok p kmp \<Longrightarrow> prefix_ok p (kmp_prefix kmp) (length p)"
  by (simp add: kmp_ok_def prefix_ok_def)

lemma prefix_okE: "prefix_ok p pre (length p) \<Longrightarrow>
    pre = map (\<lambda>m. overlap p (tl (take (Suc m) p))) [0..<length p]"
  unfolding prefix_ok_def by (rule nth_equalityI) auto

lemma kmp_new_ok:
  assumes "0 < len" and "len \<le> length text"
  shows "\<exists>kmp. kmp_pattern_new plenty (Some text) len = Some (Ok kmp) \<and> kmp_ok (take len text) kmp"
proof -
  let ?p = "take len text"
  have p: "length ?p = len" "?p \<noteq> []" using assms by auto
  have "tl (take (Suc 0) ?p) = []" by (cases ?p) auto
  then have "prefix_ok ?p ((replicate len 0)[0 := 0]) 1"
    using assms by (simp add: prefix_ok_def)
  then obtain pre where pre: "prefix_loop ?p ((replicate len 0)[0 := 0]) 1 len = Some (Ok pre)"
    "prefix_ok ?p pre len"
    using prefix_loop_correct [of 1 ?p] p(1) by auto
  have "kmp_ok ?p \<lparr>kmp_size = len, kmp_pattern = ?p, kmp_prefix = pre\<rparr>"
    using prefix_okE [of ?p pre] pre(2) p by (simp add: kmp_ok_def)
  then show ?thesis using pre(1) assms by (simp add: kmp_pattern_new_def)
qed

lemma kmp_new_Some:
  "kmp_pattern_new a text len = Some (Ok kmp) \<Longrightarrow>
    (\<exists>s. text = Some s \<and> 0 < len \<and> len \<le> length s \<and> kmp_ok (take len s) kmp)"
proof -
  assume new: "kmp_pattern_new a text len = Some (Ok kmp)"
  then obtain s where s: "text = Some s" "0 < len" "len \<le> length s"
    by (auto simp: kmp_pattern_new_def split: option.splits if_splits)
  have "kmp_pattern_new a text len = kmp_pattern_new plenty text len"
    using new by (auto simp: kmp_pattern_new_def split: option.splits if_splits)
  then show ?thesis using kmp_new_ok [OF s(2,3)] new s by auto
qed

subsection \<open>The partial match\<close>

text \<open>
  The reference: read the line character by character and stop as soon as the text read,
  \<open>t\<close> and what was read of the line, ends with the pattern.
\<close>

primrec stop_at :: "'a list \<Rightarrow> 'a list \<Rightarrow> 'a list \<Rightarrow> nat" where
  "stop_at p t [] = 0"
| "stop_at p t (c # s) = (if suffix p t then 0 else Suc (stop_at p (t @ [c]) s))"

lemma stop_at_le: "stop_at p t s \<le> length s"
  by (induction s arbitrary: t) auto

lemma stop_at_before: "j < stop_at p t s \<Longrightarrow> \<not> suffix p (t @ take j s)"
proof (induction s arbitrary: t j)
  case (Cons c s)
  then show ?case using Cons.IH [of "j - 1" "t @ [c]"] by (cases j) (auto split: if_splits)
qed simp

lemma stop_at_end: "stop_at p t s = length s \<or> suffix p (t @ take (stop_at p t s) s)"
proof (induction s arbitrary: t)
  case (Cons c s)
  then show ?case using Cons.IH [of "t @ [c]"] by auto
qed simp

lemma stop_at_unique:
  assumes "n \<le> length s" and "\<forall>j<n. \<not> suffix p (t @ take j s)"
    and "n = length s \<or> suffix p (t @ take n s)"
  shows "stop_at p t s = n"
  using assms stop_at_le [of p t s] stop_at_before [of _ p t s] stop_at_end [of p t s]
  by (metis linorder_neqE_nat not_less)

lemma match_fall_returns:
  assumes "kmp_ok p kmp" and "fall_inv p t c m"
  shows "\<exists>v. match_fall kmp c m = Some (Ok v) \<and> fall_inv p t c v \<and> (v = 0 \<or> p ! v = c)"
  using assms(2)
proof (induction m rule: less_induct)
  case (less m)
  have kmp: "kmp_pattern kmp = p" "length (kmp_prefix kmp) = length p" and m: "m < length p"
    using assms(1) less.prems by (auto simp: kmp_ok_def fall_inv_def)
  show ?case
  proof (cases "m = 0 \<or> p ! m = c")
    case True
    then have "match_fall kmp c m = Some (Ok m)"
      using kmp m by (subst match_fall.simps) auto
    then show ?thesis using True less.prems by blast
  next
    case False
    let ?b = "overlap p (tl (take m p))"
    have b: "?b < m" using overlap_border_less [of m p] False m by simp
    have "kmp_prefix kmp ! (m - 1) = ?b"
      using kmp_ok_prefix [OF assms(1)] False m unfolding prefix_ok_def by (cases m) auto
    then have "match_fall kmp c m = match_fall kmp c ?b"
      using False kmp m by (subst match_fall.simps) auto
    then show ?thesis using less.IH [OF b] fall_inv_step [OF less.prems] False by auto
  qed
qed

lemma match_loop_correct:
  assumes kmp: "kmp_ok p kmp" and len: "maxlen \<le> length text"
  shows "match_loop kmp text maxlen eol i (overlap p t)
    = (let s = takeWhile (Not \<circ> is_eol eol) (drop i (take maxlen text)); n = stop_at p t s
       in Some (Ok (i + n, overlap p (t @ take n s))))"
proof (induction "maxlen - i" arbitrary: i t)
  case 0
  then show ?case by (subst match_loop.simps) auto
next
  case (Suc k)
  have i: "i < maxlen" "i < length text" and size: "kmp_size kmp = length p" "kmp_pattern kmp = p"
    using Suc.hyps(2) len kmp by (auto simp: kmp_ok_def)
  let ?s = "takeWhile (Not \<circ> is_eol eol) (drop (Suc i) (take maxlen text))"
  have s: "takeWhile (Not \<circ> is_eol eol) (drop i (take maxlen text))
      = (if is_eol eol (text ! i) then [] else text ! i # ?s)"
    using i Cons_nth_drop_Suc [of i "take maxlen text"] by (simp flip: Cons_nth_drop_Suc)
  show ?case
  proof (cases "is_eol eol (text ! i) \<or> suffix p t")
    case True
    then show ?thesis
      using i size s overlap_full_iff [of p t] by (subst match_loop.simps) auto
  next
    case False
    then have less: "overlap p t < length p"
      using overlap_full_iff [of p t] overlap_le_pattern [of p t] by simp
    obtain v where v: "match_fall kmp (text ! i) (overlap p t) = Some (Ok v)"
      "fall_inv p t (text ! i) v" "v = 0 \<or> p ! v = text ! i"
      using match_fall_returns [OF kmp fall_inv_init [OF less]] by blast
    have "match_loop kmp text maxlen eol i (overlap p t)
        = match_loop kmp text maxlen eol (i + 1) (overlap p (t @ [text ! i]))"
      using False i size less v(1) fall_inv_stop [OF v(2,3)] by (subst match_loop.simps) auto
    then show ?thesis
      using Suc.hyps(1) [of "Suc i" "t @ [text ! i]"] Suc.hyps(2) False s by (auto simp: Let_def)
  qed
qed

lemma stop_at_occurs:
  "overlap p (take (stop_at p [] t) t) = (if sublist p t then length p else overlap p t)"
proof (cases "suffix p (take (stop_at p [] t) t)")
  case True
  then have "sublist p t" using take_is_prefix [of "stop_at p [] t" t] sublist_altdef by blast
  then show ?thesis using True overlap_full_iff by metis
next
  case False
  then have stop: "stop_at p [] t = length t" using stop_at_end [of p "[]" t] by auto
  have "\<not> suffix p (take j t)" for j
    using stop_at_before [of j p "[]" t] False stop by (cases "j < length t") auto
  moreover have "\<exists>j. suffix p (take j t)" if "sublist p t"
  proof -
    obtain u v where "t = u @ p @ v" using \<open>sublist p t\<close> by (auto simp: sublist_def)
    then have "take (length (u @ p)) t = u @ p" by simp
    then show ?thesis by (metis suffixI)
  qed
  ultimately show ?thesis using stop by auto
qed

subsection \<open>The matcher as a stream\<close>

lemma stop_at_suffix: "suffix p t \<Longrightarrow> stop_at p t s = 0"
  by (cases s) auto

lemma stop_at_append:
  "stop_at p t (a @ b) = (if suffix p (t @ take (stop_at p t a) a) then stop_at p t a
     else length a + stop_at p (t @ a) b)"
proof (induction a arbitrary: t)
  case (Cons c a)
  then show ?case using Cons.IH [of "t @ [c]"] by auto
qed (simp add: stop_at_suffix)

text \<open>What one call makes of the state: the pattern, the marker and the number of characters matched.\<close>

type_synonym scan = "kmp_pattern_t \<times> int \<times> nat"

definition scan_feed :: "scan \<Rightarrow> kchar list \<Rightarrow> scan" where
  "scan_feed = (\<lambda>(kmp, eol, m) text.
     case kmp_partial_match (Some kmp) (Some text) (length text) eol (Some m) of
       Some (Ok (n, Some m')) \<Rightarrow> (kmp, eol, m')
     | _ \<Rightarrow> (kmp, eol, m))"

definition scan_good :: "scan \<Rightarrow> bool" where
  "scan_good = (\<lambda>(kmp, eol, m). \<exists>p t. kmp_ok p kmp \<and> m = overlap p t)"

definition scan_accepts :: "scan \<Rightarrow> kchar list \<Rightarrow> bool" where
  "scan_accepts = (\<lambda>(kmp, eol, m) text. list_all (Not \<circ> is_eol eol) text)"

lemma scan_feed_overlap:
  assumes "kmp_ok p kmp" and "list_all (Not \<circ> is_eol eol) s"
  shows "scan_feed (kmp, eol, overlap p t) s = (kmp, eol, overlap p (t @ take (stop_at p t s) s))"
proof -
  have "takeWhile (Not \<circ> is_eol eol) s = s" using assms(2) by (simp add: list_all_iff)
  then have "match_loop kmp s (length s) eol 0 (overlap p t)
      = Some (Ok (stop_at p t s, overlap p (t @ take (stop_at p t s) s)))"
    using match_loop_correct [OF assms(1) order_refl, of s eol 0 t]
    by (simp add: Let_def del: takeWhile_eq_all_conv)
  then show ?thesis by (simp add: scan_feed_def kmp_partial_match_def)
qed

lemma scan_feed_cut:
  assumes "kmp_ok p kmp" and "list_all (Not \<circ> is_eol eol) a" and "list_all (Not \<circ> is_eol eol) b"
  shows "scan_feed (scan_feed (kmp, eol, overlap p t) a) b = scan_feed (kmp, eol, overlap p t) (a @ b)"
proof -
  have ab: "list_all (Not \<circ> is_eol eol) (a @ b)" using assms(2,3) by simp
  show ?thesis
  proof (cases "suffix p (t @ take (stop_at p t a) a)")
    case True
    then show ?thesis
      using stop_at_suffix [OF True, of b] stop_at_append [of p t a b] stop_at_le [of p t a]
      by (simp add: scan_feed_overlap [OF assms(1)] assms(2,3) ab)
  next
    case False
    then have "stop_at p t a = length a" using stop_at_end [of p t a] by blast
    then show ?thesis
      using False stop_at_append [of p t a b]
      by (simp add: scan_feed_overlap [OF assms(1)] assms(2,3) ab)
  qed
qed

interpretation scan: stream_machine scan_good scan_accepts scan_feed "(=)"
proof unfold_locales
  fix s :: scan and a b :: "kchar list"
  obtain kmp eol m where s: "s = (kmp, eol, m)" by (cases s) auto
  show "scan_good s \<Longrightarrow> scan_accepts s []" by (simp add: s scan_accepts_def)
  show "\<lbrakk> scan_accepts s a; scan_accepts s b \<rbrakk> \<Longrightarrow> scan_accepts s (a @ b)" by (simp add: s scan_accepts_def)
  assume "scan_good s"
  then obtain p t where p: "kmp_ok p kmp" "m = overlap p t" by (auto simp: s scan_good_def)
  show "scan_feed s [] = s" using scan_feed_overlap [OF p(1), of eol "[]" t] p(2) by (simp add: s)
  assume acc: "scan_accepts s a"
  then have step: "scan_feed s a = (kmp, eol, overlap p (t @ take (stop_at p t a) a))"
    using scan_feed_overlap [OF p(1), of eol a t] p(2) by (simp add: s scan_accepts_def)
  then show "scan_good (scan_feed s a)" using p(1) by (auto simp: scan_good_def)
  assume "scan_accepts s b"
  then show "scan_accepts (scan_feed s a) b" "scan_feed (scan_feed s a) b = scan_feed s (a @ b)"
    using acc step scan_feed_cut [OF p(1), of eol a b t] p(2) by (auto simp: s scan_accepts_def)
qed auto

subsection \<open>The match of a line\<close>

lemma lcp_simps:
  "longest_common_prefix [] ys = []" "longest_common_prefix xs [] = []"
  "longest_common_prefix (x # xs) (y # ys) = (if x = y then x # longest_common_prefix xs ys else [])"
  by (cases xs; simp)+

lemma lcp_full_iff: "length (longest_common_prefix xs ys) = length xs \<longleftrightarrow> prefix xs ys"
  by (induction xs ys rule: longest_common_prefix.induct) auto

lemma lcp_length: "length (longest_common_prefix xs ys) \<le> length xs"
  by (induction xs ys rule: longest_common_prefix.induct) auto

lemma full_loop_correct:
  assumes kmp: "kmp_size kmp = length p" "kmp_pattern kmp = p" and len: "len \<le> length text"
  shows "full_loop kmp text eol start (start + len) (start + k) = Ok (start + k + length
    (longest_common_prefix (takeWhile (Not \<circ> is_eol eol) (drop k (take len text))) (drop (start + k) p)))"
proof (induction "len - k" arbitrary: k)
  case 0
  then show ?case by (subst full_loop.simps) (auto simp: lcp_simps)
next
  case (Suc n)
  then have k: "k < len" by simp
  let ?s = "takeWhile (Not \<circ> is_eol eol) (drop (Suc k) (take len text))"
  have s: "takeWhile (Not \<circ> is_eol eol) (drop k (take len text))
      = (if is_eol eol (text ! k) then [] else text ! k # ?s)"
    using k len Cons_nth_drop_Suc [of k "take len text"] by (simp flip: Cons_nth_drop_Suc)
  show ?case
  proof (cases "start + k < length p")
    case True
    then have "drop (start + k) p = p ! (start + k) # drop (start + Suc k) p"
      by (simp add: Cons_nth_drop_Suc)
    then show ?thesis
      using Suc.hyps(1) [of "Suc k"] Suc.hyps(2) True k kmp len s
      by (subst full_loop.simps) (auto simp: lcp_simps)
  next
    case False
    then show ?thesis using kmp by (subst full_loop.simps) (simp add: lcp_simps)
  qed
qed

lemma kmp_full_match_correct:
  assumes kmp: "kmp_size kmp = length p" "kmp_pattern kmp = p"
    and start: "start + len < 2 ^ 64" and len: "len \<le> length text"
  shows "kmp_full_match (Some kmp) (Some text) eol start len
    = (let line = takeWhile (Not \<circ> is_eol eol) (take len text)
       in Ok (if prefix line (drop start p) then start + length line else 0))"
proof -
  let ?text = "take len text"
  let ?line = "takeWhile (Not \<circ> is_eol eol) ?text"
  let ?n = "length (longest_common_prefix ?line (drop start p))"
  have loop: "full_loop kmp text eol start (start + len) start = Ok (start + ?n)"
    using full_loop_correct [OF kmp len, of eol start 0] by simp
  have line: "length ?line \<le> len" using length_takeWhile_le [of _ ?text] len by simp
  show ?thesis
  proof (cases "?n = length ?line")
    case True
    then have "?n = len \<or> ?n < len \<and> is_eol eol (text ! ?n)"
      using nth_length_takeWhile [of "Not \<circ> is_eol eol" ?text] line len by fastforce
    then show ?thesis
      using loop True lcp_full_iff [of ?line] start len
      by (auto simp: kmp_full_match_def Let_def)
  next
    case False
    then have n: "?n < length ?line" using lcp_length [of ?line "drop start p"] by simp
    then have "\<not> is_eol eol (text ! ?n)"
      using takeWhile_nth [OF n] nth_mem [OF n] set_takeWhileD [of "?line ! ?n"] line by fastforce
    then show ?thesis
      using loop n False lcp_full_iff [of ?line] line start len
      by (auto simp: kmp_full_match_def Let_def)
  qed
qed

subsection \<open>Properties\<close>

text \<open>Building a pattern from a text of at least one character always returns: it fails exactly
  when an allocation does, and otherwise the object holds the text and entry \<open>m\<close> of its prefix
  array is the length of the longest proper border of the first \<open>m + 1\<close> characters.\<close>

theorem kmp_pattern_new_borders:
  assumes "0 < len" and "len \<le> length text"
  shows "kmp_pattern_new a (Some text) len
    = (if a 0 \<and> a 1 \<and> a 2
       then Some (Ok \<lparr>kmp_size = len, kmp_pattern = take len text,
              kmp_prefix = map (\<lambda>m. overlap (take len text) (tl (take (Suc m) (take len text)))) [0..<len]\<rparr>)
       else Some Error)"
proof -
  obtain kmp where kmp: "kmp_pattern_new plenty (Some text) len = Some (Ok kmp)"
    "kmp_ok (take len text) kmp" using kmp_new_ok [OF assms] by blast
  show ?thesis
    using kmp assms by (auto simp: kmp_pattern_new_def kmp_ok_def min_def)
qed

theorem kmp_pattern_new_borders_witness:
  "kmp_pattern_new plenty (Some [97, 98, 97, 99]) 4
    = Some (Ok \<lparr>kmp_size = 4, kmp_pattern = [97, 98, 97, 99], kmp_prefix = [0, 0, 1, 0]\<rparr>)"
proof -
  have "map (\<lambda>m. overlap (take 4 [97, 98, 97, 99 :: kchar]) (tl (take (Suc m) (take 4 [97, 98, 97, 99]))))
      [0..<4] = [0, 0, 1, 0]" by code_simp
  then show ?thesis using kmp_pattern_new_borders [of 4 "[97, 98, 97, 99]" plenty] by simp
qed



text \<open>Whatever pieces a text without an end-of-line marker is cut into, calling the partial match on one
  piece after the other from the start leaves the state the naive search on the joined text has: the
  whole length exactly when the pattern occurs in it, otherwise the longest overlap at its end.\<close>

theorem kmp_cut_irrelevant:
  assumes "kmp_pattern_new a (Some pat) len = Some (Ok kmp)"
    and "list_all (\<lambda>c. list_all (Not \<circ> is_eol eol) c) pieces"
  shows "foldl scan_feed (kmp, eol, 0) pieces
    = (kmp, eol, if sublist (take len pat) (concat pieces) then len else overlap (take len pat) (concat pieces))"
proof -
  let ?p = "take len pat" and ?t = "concat pieces"
  have kmp: "kmp_ok ?p kmp" "length ?p = len" using kmp_new_Some [OF assms(1)] by auto
  have good: "scan_good (kmp, eol, 0)" 
    using kmp(1) overlap_Nil [of ?p] unfolding scan_good_def by (simp, metis)
  have "list_all (scan_accepts (kmp, eol, 0)) pieces" using assms(2) by (simp add: scan_accepts_def)
  then have "foldl scan_feed (kmp, eol, 0) pieces = scan_feed (kmp, eol, 0) ?t"
    using scan.cut_irrelevant [OF good] by blast
  also have "\<dots> = (kmp, eol, overlap ?p (take (stop_at ?p [] ?t) ?t))"
    using scan_feed_overlap [OF kmp(1), of eol ?t "[]"] assms(2) overlap_Nil [of ?p] by (simp add: list_all_iff)
  also have "overlap ?p (take (stop_at ?p [] ?t) ?t) = (if sublist ?p ?t then len else overlap ?p ?t)"
    using stop_at_occurs [of ?p ?t] kmp(2) by simp
  finally show ?thesis .
qed

theorem kmp_cut_irrelevant_witness:
  "\<exists>kmp. kmp_pattern_new plenty (Some [97, 98]) 2 = Some (Ok kmp)
    \<and> foldl scan_feed (kmp, 10, 0) [[99, 97], [98, 99], [97]] = (kmp, 10, 2)"
proof -
  obtain kmp where kmp: "kmp_pattern_new plenty (Some [97, 98]) 2 = Some (Ok kmp)"
    using kmp_new_ok [of 2 "[97, 98]"] by auto
  have "list_all (\<lambda>c. list_all (Not \<circ> is_eol 10) c) [[99, 97], [98, 99], [97]]"
    "sublist (take 2 [97, 98]) (concat [[99, 97], [98, 99], [97 :: kchar]])" by code_simp+
  then show ?thesis using kmp kmp_cut_irrelevant [OF kmp, of 10 "[[99, 97], [98, 99], [97]]"] by auto
qed

text \<open>The match of a whole line: with \<open>start\<close> characters of the pattern consumed, the call
  returns the number consumed after the line when the line continues the pattern, and 0 otherwise.\<close>

theorem kmp_full_match_line:
  assumes "kmp_pattern_new a (Some pat) len = Some (Ok kmp)"
    and "start + tlen < 2 ^ 64" and "tlen \<le> length text"
  shows "kmp_full_match (Some kmp) (Some text) eol start tlen
    = (let line = takeWhile (Not \<circ> is_eol eol) (take tlen text)
       in Ok (if prefix line (drop start (take len pat)) then start + length line else 0))"
proof -
  have "kmp_ok (take len pat) kmp" using kmp_new_Some [OF assms(1)] by auto
  then show ?thesis using kmp_full_match_correct assms(2,3) by (simp add: kmp_ok_def)
qed

theorem kmp_full_match_line_witness:
  "\<exists>kmp. kmp_pattern_new plenty (Some [97, 98, 99]) 3 = Some (Ok kmp)
    \<and> kmp_full_match (Some kmp) (Some [98, 99, 10, 7]) 10 1 4 = Ok 3
    \<and> kmp_full_match (Some kmp) (Some [98, 98, 10, 7]) 10 1 4 = Ok 0"
proof -
  obtain kmp where kmp: "kmp_pattern_new plenty (Some [97, 98, 99]) 3 = Some (Ok kmp)"
    using kmp_new_ok [of 3 "[97, 98, 99]"] by auto
  then show ?thesis
    using kmp_full_match_line [OF kmp, of 1 4 "[98, 99, 10, 7]" 10]
      kmp_full_match_line [OF kmp, of 1 4 "[98, 98, 10, 7]" 10]
    by (intro exI [of _ kmp]) (simp add: Let_def is_eol_def)
qed

text \<open>A match that begins with the last character of the previous chunk is reported as the
  error code: the position is \<open>-1\<close>, which is \<^verbatim>\<open>ERROR_CODE(size_t)\<close>, and the servlet gives up on
  the line.\<close>

theorem kmp_straddling_match_is_error:
  assumes "kmp_pattern_new a (Some pat) len = Some (Ok kmp)" and "maxlen \<le> length text"
    and "stop_at (take len pat) t (takeWhile (Not \<circ> is_eol eol) (take maxlen text)) + 1 = len"
    and "suffix (take len pat) (t @ take (len - 1) (takeWhile (Not \<circ> is_eol eol) (take maxlen text)))"
  shows "kmp_partial_match (Some kmp) (Some text) maxlen eol (Some (overlap (take len pat) t))
    = Some (Ok (ERROR_SIZE, Some len))"
proof -
  let ?p = "take len pat" and ?line = "takeWhile (Not \<circ> is_eol eol) (take maxlen text)"
  have kmp: "kmp_ok ?p kmp" "length ?p = len"
    using kmp_new_Some [OF assms(1)] by auto
  have n: "stop_at ?p t ?line = len - 1" "0 < len" using assms(3) by auto
  have "overlap ?p (t @ take (len - 1) ?line) = len"
    using overlap_full_iff [of ?p] assms(4) kmp(2) by simp
  then show ?thesis
    using match_loop_correct [OF kmp(1) assms(2), of eol 0 t] n kmp
    by (simp add: kmp_partial_match_def Let_def kmp_ok_def ERROR_SIZE_def)
qed

theorem kmp_straddling_match_is_error_witness:
  "\<exists>kmp. kmp_pattern_new plenty (Some [97, 98]) 2 = Some (Ok kmp)
    \<and> kmp_partial_match (Some kmp) (Some [98, 99]) 2 10 (Some 1) = Some (Ok (ERROR_SIZE, Some 2))"
proof -
  obtain kmp where kmp: "kmp_pattern_new plenty (Some [97, 98]) 2 = Some (Ok kmp)"
    using kmp_new_ok [of 2 "[97, 98]"] by auto
  have "overlap (take 2 [97, 98]) [97 :: kchar] = 1" by code_simp
  moreover have "stop_at (take 2 [97, 98]) [97 :: kchar]
      (takeWhile (Not \<circ> is_eol 10) (take 2 [98, 99])) + 1 = 2" by code_simp
  moreover have "suffix (take 2 [97, 98]) ([97 :: kchar]
      @ take (2 - 1) (takeWhile (Not \<circ> is_eol 10) (take 2 [98, 99])))" by code_simp
  ultimately show ?thesis
    using kmp kmp_straddling_match_is_error [OF kmp, of 2 "[98, 99]" "[97]" 10] by auto
qed

text \<open>With the marker \<open>-1\<close>, which should scan everything, the byte \<open>0xff\<close> still ends the line.\<close>

lemma kmp_marker_minus_one:
  assumes "m < kmp_size kmp" and "0 < maxlen"
  shows "kmp_partial_match (Some kmp) (Some (0xff # s)) maxlen (- 1) (Some m) = Some (Ok (0, Some m))"
proof -
  have "is_eol (- 1) 0xff" by (simp add: is_eol_def)
  then have "match_loop kmp (0xff # s) maxlen (- 1) 0 m = Some (Ok (0, m))"
    using assms by (subst match_loop.simps) simp
  then show ?thesis using assms(1) by (simp add: kmp_partial_match_def)
qed

text \<open>An empty pattern writes outside its array.\<close>

lemma kmp_empty_pattern: "kmp_pattern_new plenty (Some []) 0 = Some Undef"
  by (simp add: kmp_pattern_new_def)

end
