(* ===== verification/HttpParser.thy ===== *)
theory HttpParser
  imports Prelude "HOL-Library.Sublist"
begin

text \<open>
  The request parser of the HTTP server, \<^verbatim>\<open>servlets/network/http/parser/parser.c\<close>: a state
  machine driven by a table of state descriptions, fed with the buffers the socket delivers. This
  theory holds the data, the sub-parsers of every state, the parse loop and the entry points; the
  theories \<^verbatim>\<open>HttpSafety\<close> and \<^verbatim>\<open>HttpChunks\<close> hold what is proved about them.
\<close>

subsection \<open>States and their descriptions\<close>

text \<open>
  \<^verbatim>\<open>_STATE_PENDING\<close> is a bit beside the state code; it is a field of its own here. A literal
  is a HOL string and its end is what the terminator is in C.
\<close>

datatype state_code =
    ST_INIT | ST_METHOD_GET | ST_METHOD_HEAD | ST_METHOD_POST | ST_METHOD_PATH_SEP
  | ST_URI | ST_URI_SCHEME | ST_URI_SCHEME_SEP | ST_URI_HOST | ST_URI_PATH | ST_URI_QUERY
  | ST_URI_VERSION_SEP | ST_VERSION | ST_REQ_LINE_END | ST_FIELD_NAME_INIT
  | ST_FIELD_NAME_ACCEPT_ENC | ST_FIELD_NAME_RANGE | ST_FIELD_NAME_HOST
  | ST_FIELD_NAME_CONTENT_LEN | ST_FIELD_NAME_CONNECT | ST_FIELD_KV_SEP | ST_FIELD_VALUE
  | ST_FIELD_VAL_HOST | ST_FIELD_VAL_ACCEPT_ENC | ST_FIELD_VAL_RANGE | ST_FIELD_LINE_END
  | ST_FIELD_NOT_INST | ST_BODY_BEGIN | ST_BODY_DATA | ST_BODY_END | ST_DONE | ST_ERROR

text \<open>The string members of the parser state a copy can be directed to.\<close>

datatype str_field = F_PATH | F_HOST | F_QUERY | F_ACCEPT_ENCODING | F_RANGE_TEXT

datatype state_desc =
    Generic
  | Liter state_code string
  | Liter_ic state_code state_code string
  | Copy state_code char nat str_field
  | Ws state_code nat
  | Ignore state_code char

abbreviation (input) CR :: char where "CR \<equiv> CHR 0x0D"
abbreviation (input) LF :: char where "LF \<equiv> CHR 0x0A"
abbreviation (input) TAB :: char where "TAB \<equiv> CHR 0x09"
abbreviation (input) NUL :: char where "NUL \<equiv> CHR 0x00"

text \<open>\<^verbatim>\<open>ST_ERROR\<close> is \<open>0x80\<close>, an index outside the table.\<close>

fun state_info :: "state_code \<Rightarrow> state_desc option" where
  "state_info ST_INIT = Some Generic"
| "state_info ST_METHOD_GET = Some (Liter ST_METHOD_PATH_SEP ''ET '')"
| "state_info ST_METHOD_HEAD = Some (Liter ST_METHOD_PATH_SEP ''EAD '')"
| "state_info ST_METHOD_POST = Some (Liter ST_METHOD_PATH_SEP ''OST '')"
| "state_info ST_METHOD_PATH_SEP = Some (Ws ST_URI 0)"
| "state_info ST_URI = Some Generic"
| "state_info ST_URI_SCHEME = Some (Ignore ST_URI_SCHEME_SEP (CHR '':''))"
| "state_info ST_URI_SCHEME_SEP = Some (Liter ST_URI_HOST ''://'')"
| "state_info ST_URI_HOST = Some (Copy ST_URI_PATH (CHR ''/'') 64 F_HOST)"
| "state_info ST_URI_PATH = Some Generic"
| "state_info ST_URI_QUERY = Some (Copy ST_URI_VERSION_SEP (CHR '' '') 2048 F_QUERY)"
| "state_info ST_URI_VERSION_SEP = Some (Ws ST_VERSION 1)"
| "state_info ST_VERSION = Some (Ignore ST_REQ_LINE_END CR)"
| "state_info ST_REQ_LINE_END = Some (Liter ST_FIELD_NAME_INIT [CR, LF])"
| "state_info ST_FIELD_NAME_INIT = Some Generic"
| "state_info ST_FIELD_NAME_ACCEPT_ENC = Some (Liter_ic ST_FIELD_KV_SEP ST_FIELD_NOT_INST ''ccept-encoding:'')"
| "state_info ST_FIELD_NAME_RANGE = Some (Liter_ic ST_FIELD_KV_SEP ST_FIELD_NOT_INST ''ange:'')"
| "state_info ST_FIELD_NAME_HOST = Some (Liter_ic ST_FIELD_KV_SEP ST_FIELD_NOT_INST ''ost:'')"
| "state_info ST_FIELD_NAME_CONNECT = Some (Liter_ic ST_FIELD_KV_SEP ST_FIELD_NOT_INST ''ection:'')"
| "state_info ST_FIELD_NAME_CONTENT_LEN = Some (Liter_ic ST_FIELD_KV_SEP ST_FIELD_NOT_INST ''ent-length:'')"
| "state_info ST_FIELD_KV_SEP = Some (Ws ST_FIELD_VALUE 0)"
| "state_info ST_FIELD_VALUE = Some Generic"
| "state_info ST_FIELD_VAL_HOST = Some (Copy ST_FIELD_LINE_END CR 64 F_HOST)"
| "state_info ST_FIELD_VAL_ACCEPT_ENC = Some (Copy ST_FIELD_LINE_END CR 64 F_ACCEPT_ENCODING)"
| "state_info ST_FIELD_VAL_RANGE = Some (Copy ST_FIELD_LINE_END CR 64 F_RANGE_TEXT)"
| "state_info ST_FIELD_NOT_INST = Some (Ignore ST_FIELD_LINE_END CR)"
| "state_info ST_FIELD_LINE_END = Some (Liter ST_FIELD_NAME_INIT [CR, LF])"
| "state_info ST_BODY_BEGIN = Some (Liter ST_BODY_DATA [CR, LF])"
| "state_info ST_BODY_DATA = Some Generic"
| "state_info ST_BODY_END = Some Generic"
| "state_info ST_DONE = Some Generic"
| "state_info ST_ERROR = None"

datatype field_name_state =
    FN_UNKNOWN | FN_CON_OR_CL | FN_N_DETERMINED | FN_HOST | FN_ACCEPT_ENCODING | FN_RANGE
  | FN_CONN | FN_CL

datatype parser_method = METHOD_GET | METHOD_POST | METHOD_HEAD

subsection \<open>The parser state\<close>

text \<open>
  A string points to a heap block (\<open>None\<close> is NULL) and has a length; a byte of the block that
  was never written is \<open>None\<close>. The internal state lies behind the public one in the same
  allocation, so both are one record. \<open>ps_allocs\<close> counts the calls of the allocator.
\<close>

type_synonym block = "char option list"

record parser_string =
  str_value :: "block option"
  str_length :: nat

record parser_state =
  ps_error :: bool
  ps_empty :: bool
  ps_keep_alive :: bool
  ps_has_range :: bool
  ps_method :: parser_method
  ps_path :: parser_string
  ps_host :: parser_string
  ps_query :: parser_string
  ps_accept_encoding :: parser_string
  ps_body :: parser_string
  ps_range_text :: parser_string
  ps_range_begin :: "64 word"
  ps_range_end :: "64 word"
  ps_content_length :: "64 word"
  ps_code :: state_code
  ps_pending :: bool
  ps_sub_state :: nat
  ps_fn_state :: field_name_state
  ps_buffer :: "str_field option"
  ps_buffer_cap :: nat
  ps_allocs :: nat

text \<open>
  The allocator answers call number \<open>n\<close> for \<open>k\<close> bytes: a call for no bytes may succeed and
  return a block nothing can be stored in.
\<close>

type_synonym sized_alloc = "nat \<Rightarrow> nat \<Rightarrow> bool"

abbreviation (input) empty_string :: parser_string where
  "empty_string \<equiv> \<lparr>str_value = None, str_length = 0\<rparr>"

definition new_state :: parser_state where
  "new_state = \<lparr>ps_error = False, ps_empty = True, ps_keep_alive = True, ps_has_range = False,
     ps_method = METHOD_GET, ps_path = empty_string, ps_host = empty_string,
     ps_query = empty_string, ps_accept_encoding = empty_string, ps_body = empty_string,
     ps_range_text = empty_string, ps_range_begin = 0, ps_range_end = 0, ps_content_length = 0,
     ps_code = ST_INIT, ps_pending = False, ps_sub_state = 0, ps_fn_state = FN_UNKNOWN,
     ps_buffer = None, ps_buffer_cap = 0, ps_allocs = 0\<rparr>"

definition parser_state_new :: "bool \<Rightarrow> parser_state result" where
  "parser_state_new calloc_ok = (if calloc_ok then Ok new_state else Error)"

fun get_str :: "str_field \<Rightarrow> parser_state \<Rightarrow> parser_string" where
  "get_str F_PATH st = ps_path st"
| "get_str F_HOST st = ps_host st"
| "get_str F_QUERY st = ps_query st"
| "get_str F_ACCEPT_ENCODING st = ps_accept_encoding st"
| "get_str F_RANGE_TEXT st = ps_range_text st"

fun set_str :: "str_field \<Rightarrow> parser_string \<Rightarrow> parser_state \<Rightarrow> parser_state" where
  "set_str F_PATH s st = st\<lparr>ps_path := s\<rparr>"
| "set_str F_HOST s st = st\<lparr>ps_host := s\<rparr>"
| "set_str F_QUERY s st = st\<lparr>ps_query := s\<rparr>"
| "set_str F_ACCEPT_ENCODING s st = st\<lparr>ps_accept_encoding := s\<rparr>"
| "set_str F_RANGE_TEXT s st = st\<lparr>ps_range_text := s\<rparr>"

definition transite_state :: "parser_state \<Rightarrow> state_code \<Rightarrow> parser_state" where
  "transite_state st next = st\<lparr>ps_code := next, ps_pending := True\<rparr>"

text \<open>\<^verbatim>\<open>memcpy\<close> and the store of one byte, both undefined outside the block.\<close>

definition block_write :: "block \<Rightarrow> nat \<Rightarrow> string \<Rightarrow> block result" where
  "block_write b off data =
     (if off + length data \<le> length b
      then Ok (take off b @ map Some data @ drop (off + length data) b) else Undef)"

subsection \<open>The copy buffer\<close>

definition init_buffer :: "sized_alloc \<Rightarrow> parser_state \<Rightarrow> str_field \<Rightarrow> nat \<Rightarrow> bool \<times> parser_state" where
  "init_buffer a st f limit =
     (let st = st\<lparr>ps_buffer := Some f\<rparr>;
          init_size = (if limit + 1 < 64 then limit + 1 else 64);
          ok = a (ps_allocs st) init_size;
          st = st\<lparr>ps_allocs := ps_allocs st + 1\<rparr>
      in if ok
         then (True, (set_str f \<lparr>str_value = Some (replicate init_size None), str_length = 0\<rparr> st)
                       \<lparr>ps_buffer_cap := init_size\<rparr>)
         else (False, set_str f ((get_str f st)\<lparr>str_value := None\<rparr>) st))"

text \<open>
  The doubling loop. An object is smaller than \<open>2 ^ 63\<close> bytes, so doubling does not wrap before
  the size is reached; it would not end for the capacity 0, which \<open>ensure_buffer\<close> calls undefined.
\<close>

function double_to :: "nat \<Rightarrow> nat \<Rightarrow> nat" where
  "double_to n need = (if 0 < n \<and> n < need then double_to (2 * n) need else n)"
  by pat_completeness auto
termination by (relation "measure (\<lambda>(n, need). need - n)") auto

declare double_to.simps [simp del]

datatype ensured = E_ERROR | E_FULL | E_READY

definition ensure_buffer :: "sized_alloc \<Rightarrow> parser_state \<Rightarrow> nat \<Rightarrow> nat
    \<Rightarrow> (ensured \<times> parser_state) result" where
  "ensure_buffer a st new_bytes limit =
     (case ps_buffer st of
        None \<Rightarrow> Undef
      | Some f \<Rightarrow>
          let s = get_str f st; need = str_length s + new_bytes + 1 in
          if need > ps_buffer_cap st
          then if ps_buffer_cap st = 0 then Undef
               else let new_size = double_to (ps_buffer_cap st) need in
                    if new_size > limit + 1 then Ok (E_FULL, transite_state st ST_ERROR)
                    else if \<not> a (ps_allocs st) new_size
                    then Ok (E_ERROR, st\<lparr>ps_allocs := ps_allocs st + 1\<rparr>)
                    else let b = (case str_value s of None \<Rightarrow> [] | Some b \<Rightarrow> b) in
                         Ok (E_READY,
                           (set_str f (s\<lparr>str_value := Some (b @ replicate (new_size - length b) None)\<rparr>)
                             (st\<lparr>ps_allocs := ps_allocs st + 1\<rparr>))\<lparr>ps_buffer_cap := new_size\<rparr>)
          else Ok (E_READY, st))"

text \<open>Append bytes at the current length of the buffer, and terminate it there.\<close>

definition buffer_append :: "parser_state \<Rightarrow> string \<Rightarrow> parser_state result" where
  "buffer_append st data =
     (case ps_buffer st of
        None \<Rightarrow> Undef
      | Some f \<Rightarrow>
          (case str_value (get_str f st) of
             None \<Rightarrow> Undef
           | Some b \<Rightarrow>
               rbind (block_write b (str_length (get_str f st)) data) (\<lambda>b.
                 Ok (set_str f \<lparr>str_value = Some b,
                       str_length = str_length (get_str f st) + length data\<rparr> st))))"

definition buffer_terminate :: "parser_state \<Rightarrow> parser_state result" where
  "buffer_terminate st =
     (case ps_buffer st of
        None \<Rightarrow> Undef
      | Some f \<Rightarrow>
          (case str_value (get_str f st) of
             None \<Rightarrow> Undef
           | Some b \<Rightarrow>
               rbind (block_write b (str_length (get_str f st)) [NUL]) (\<lambda>b.
                 Ok (set_str f ((get_str f st)\<lparr>str_value := Some b\<rparr>) st))))"

subsection \<open>The sub-parsers\<close>

text \<open>
  A sub-parser gets the bytes from \<^verbatim>\<open>data\<close> to \<^verbatim>\<open>end\<close> and returns the new state and the
  bytes from the pointer it returns to \<^verbatim>\<open>end\<close>; \<open>None\<close> is the NULL pointer.
\<close>

type_synonym sub_result = "(parser_state \<times> string option) result"

definition copy_term :: "parser_state \<Rightarrow> state_code \<Rightarrow> string \<Rightarrow> sub_result" where
  "copy_term st next rest =
     (if rest \<noteq> []
      then rbind (buffer_terminate st) (\<lambda>st. Ok (transite_state st next, Some rest))
      else Ok (st, Some rest))"

definition copy_data :: "sized_alloc \<Rightarrow> parser_state \<Rightarrow> state_code \<Rightarrow> char \<Rightarrow> nat \<Rightarrow> string
    \<Rightarrow> sub_result" where
  "copy_data a st next term lim data =
     (let chunk = takeWhile (\<lambda>c. c \<noteq> term) data; rest = dropWhile (\<lambda>c. c \<noteq> term) data in
      rbind (ensure_buffer a st (length chunk) lim) (\<lambda>(rc, st). case rc of
          E_FULL \<Rightarrow> Ok (st, Some data)
        | E_ERROR \<Rightarrow> Ok (st, None)
        | E_READY \<Rightarrow> rbind (buffer_append st chunk) (\<lambda>st. copy_term st next rest)))"

definition parse_copy :: "sized_alloc \<Rightarrow> parser_state \<Rightarrow> state_code \<Rightarrow> char \<Rightarrow> nat \<Rightarrow> str_field
    \<Rightarrow> string \<Rightarrow> sub_result" where
  "parse_copy a st next term lim f data =
     (if ps_pending st
      then let (ok, st) = init_buffer a st f lim in
           if \<not> ok then Ok (st, None)
           else copy_data a (st\<lparr>ps_pending := False\<rparr>) next term lim data
      else copy_data a st next term lim data)"

text \<open>The loop of \<^verbatim>\<open>_uri_path\<close>; \<open>True\<close> says that it was left by a return.\<close>

fun path_loop :: "sized_alloc \<Rightarrow> parser_state \<Rightarrow> string \<Rightarrow> (bool \<times> parser_state \<times> string option) result"
  where
  "path_loop a st [] = Ok (False, st, Some [])"
| "path_loop a st (c # data) =
     (if c \<noteq> CHR ''?'' \<and> c \<noteq> CHR '' ''
      then rbind (ensure_buffer a st 1 2048) (\<lambda>(rc, st). case rc of
             E_FULL \<Rightarrow> Ok (True, st, Some (c # data))
           | E_ERROR \<Rightarrow> Ok (True, st, None)
           | E_READY \<Rightarrow> rbind (buffer_append st [c]) (\<lambda>st. path_loop a st data))
      else Ok (False, st, Some (c # data)))"

definition path_data :: "sized_alloc \<Rightarrow> parser_state \<Rightarrow> string \<Rightarrow> sub_result" where
  "path_data a st data =
     rbind (path_loop a st data) (\<lambda>(ret, st, rest).
       if ret then Ok (st, rest)
       else (case rest of
           Some (c # cs) \<Rightarrow>
             if c = CHR ''?''
             then rbind (buffer_terminate st) (\<lambda>st. Ok (transite_state st ST_URI_QUERY, Some cs))
             else rbind (buffer_terminate st) (\<lambda>st. Ok (transite_state st ST_VERSION, Some cs))
         | _ \<Rightarrow> Ok (st, rest)))"

definition parse_uri_path :: "sized_alloc \<Rightarrow> parser_state \<Rightarrow> string \<Rightarrow> sub_result" where
  "parse_uri_path a st data =
     (if ps_pending st
      then let (ok, st) = init_buffer a st F_PATH 2048 in
           if \<not> ok then Ok (st, None)
           else path_data a (st\<lparr>ps_pending := False\<rparr>) data
      else path_data a st data)"

text \<open>\<^verbatim>\<open>malloc(content_length + 1)\<close> wraps to 0 for the largest length.\<close>

definition body_copy :: "parser_state \<Rightarrow> string \<Rightarrow> sub_result" where
  "body_copy st data =
     (let left = unat (ps_content_length st - of_nat (str_length (ps_body st)));
          n = min (length data) left in
      if n = 0 then Ok (transite_state st ST_DONE, Some data)
      else (case str_value (ps_body st) of
              None \<Rightarrow> Undef
            | Some b \<Rightarrow>
                rbind (block_write b (str_length (ps_body st)) (take n data)) (\<lambda>b.
                  Ok (st\<lparr>ps_body := \<lparr>str_value = Some b, str_length = str_length (ps_body st) + n\<rparr>\<rparr>,
                      Some (drop n data)))))"

definition parse_body_data :: "sized_alloc \<Rightarrow> parser_state \<Rightarrow> string \<Rightarrow> sub_result" where
  "parse_body_data a st data =
     (if ps_pending st
      then if ps_content_length st > 0
           then let body_size = unat (ps_content_length st + 1);
                    ok = a (ps_allocs st) body_size;
                    st = st\<lparr>ps_allocs := ps_allocs st + 1\<rparr> in
                if \<not> ok then Ok (st\<lparr>ps_body := (ps_body st)\<lparr>str_value := None\<rparr>\<rparr>, None)
                else body_copy (st\<lparr>ps_body := (ps_body st)\<lparr>str_value := Some (replicate body_size None)\<rparr>,
                                   ps_pending := False\<rparr>) data
           else body_copy (st\<lparr>ps_pending := False\<rparr>) data
      else body_copy st data)"

definition parse_ignore :: "parser_state \<Rightarrow> state_code \<Rightarrow> char \<Rightarrow> string \<Rightarrow> sub_result" where
  "parse_ignore st next ch data =
     (let rest = dropWhile (\<lambda>c. c \<noteq> ch) data in
      if rest \<noteq> [] then Ok (transite_state st next, Some rest) else Ok (st, Some []))"

definition is_ws :: "char \<Rightarrow> bool" where "is_ws c \<longleftrightarrow> c = CHR '' '' \<or> c = TAB"

definition parse_ws :: "parser_state \<Rightarrow> state_code \<Rightarrow> nat \<Rightarrow> string \<Rightarrow> sub_result" where
  "parse_ws st next n data =
     (let st = (if ps_pending st then st\<lparr>ps_sub_state := n, ps_pending := False\<rparr> else st);
          st = st\<lparr>ps_sub_state := ps_sub_state st - length (takeWhile is_ws data)\<rparr>;
          rest = dropWhile is_ws data in
      if rest \<noteq> []
      then if ps_sub_state st > 0 then Ok (transite_state st ST_ERROR, Some rest)
           else Ok (transite_state st next, Some rest)
      else Ok (st, Some rest))"

text \<open>\<^verbatim>\<open>ch |= 0x20\<close> for the capital letters.\<close>

definition lower :: "char \<Rightarrow> char" where
  "lower c = (if 65 \<le> (of_char c :: nat) \<and> of_char c \<le> (90 :: nat) then char_of (of_char c + 32 :: nat) else c)"

text \<open>
  The loop of a literal: the index runs over the literal while the characters match. The result
  says whether it stopped at a character that differs, and has the index and the bytes left.
\<close>

fun liter_loop :: "(char \<Rightarrow> char) \<Rightarrow> string \<Rightarrow> nat \<Rightarrow> string \<Rightarrow> bool \<times> nat \<times> string" where
  "liter_loop f lit k [] = (False, k, [])"
| "liter_loop f lit k (c # data) =
     (if k < length lit
      then if lit ! k \<noteq> f c then (True, k, c # data) else liter_loop f lit (Suc k) data
      else (False, k, c # data))"

definition liter_from :: "(char \<Rightarrow> char) \<Rightarrow> parser_state \<Rightarrow> state_code \<Rightarrow> state_code \<Rightarrow> string \<Rightarrow> string
    \<Rightarrow> sub_result" where
  "liter_from f st next fail lit data =
     (if ps_sub_state st > length lit then Undef
      else let (differs, k, rest) = liter_loop f lit (ps_sub_state st) data;
               st = st\<lparr>ps_sub_state := k\<rparr> in
           if differs then Ok (transite_state st fail, Some rest)
           else if k = length lit then Ok (transite_state st next, Some rest)
           else Ok (st, Some rest))"

definition reset_pending :: "parser_state \<Rightarrow> parser_state" where
  "reset_pending st = (if ps_pending st then st\<lparr>ps_sub_state := 0, ps_pending := False\<rparr> else st)"

definition parse_literal :: "parser_state \<Rightarrow> state_code \<Rightarrow> string \<Rightarrow> string \<Rightarrow> sub_result" where
  "parse_literal st next lit data = liter_from (\<lambda>c. c) (reset_pending st) next ST_ERROR lit data"

definition parse_literal_ci :: "parser_state \<Rightarrow> state_code \<Rightarrow> state_code \<Rightarrow> string \<Rightarrow> string
    \<Rightarrow> sub_result" where
  "parse_literal_ci st next fail lit data = liter_from lower (reset_pending st) next fail lit data"

fun parse_init :: "parser_state \<Rightarrow> string \<Rightarrow> sub_result" where
  "parse_init st [] = Undef"
| "parse_init st (c # data) =
     (if c = CHR ''G''
      then Ok (transite_state (st\<lparr>ps_method := METHOD_GET\<rparr>) ST_METHOD_GET, Some data)
      else if c = CHR ''P''
      then Ok (transite_state (st\<lparr>ps_method := METHOD_POST\<rparr>) ST_METHOD_POST, Some data)
      else if c = CHR ''H''
      then Ok (transite_state (st\<lparr>ps_method := METHOD_HEAD\<rparr>) ST_METHOD_HEAD, Some data)
      else Ok (transite_state st ST_ERROR, Some data))"

fun parse_uri :: "parser_state \<Rightarrow> string \<Rightarrow> sub_result" where
  "parse_uri st [] = Undef"
| "parse_uri st (c # data) =
     Ok (transite_state st (if c = CHR ''/'' then ST_URI_PATH
           else if c = CHR ''h'' then ST_URI_SCHEME else ST_ERROR), Some (c # data))"

definition parse_connection :: "parser_state \<Rightarrow> string \<Rightarrow> sub_result" where
  "parse_connection st data =
     (let (differs, k, rest) = liter_loop (\<lambda>c. c) ''close'' (ps_sub_state st) data;
          st = st\<lparr>ps_sub_state := k\<rparr> in
      if k = 5 then Ok (transite_state (st\<lparr>ps_keep_alive := False\<rparr>) ST_FIELD_LINE_END, Some rest)
      else if rest \<noteq> [] \<and> k > 5 then Undef
      else if rest \<noteq> [] then Ok (transite_state st ST_FIELD_NOT_INST, Some rest)
      else Ok (st, Some rest))"

definition is_digit :: "char \<Rightarrow> bool" where
  "is_digit c \<longleftrightarrow> 48 \<le> (of_char c :: nat) \<and> of_char c \<le> (57 :: nat)"

definition add_digit :: "64 word \<Rightarrow> char \<Rightarrow> 64 word" where
  "add_digit n c = n * 10 + of_nat (of_char c - 48)"

definition parse_content_length :: "parser_state \<Rightarrow> string \<Rightarrow> bool \<Rightarrow> sub_result" where
  "parse_content_length st data reset =
     (let st = (if reset then st\<lparr>ps_content_length := 0\<rparr> else st);
          st = st\<lparr>ps_content_length := foldl add_digit (ps_content_length st) (takeWhile is_digit data)\<rparr>;
          rest = dropWhile is_digit data in
      if rest \<noteq> [] then Ok (transite_state st ST_FIELD_LINE_END, Some rest) else Ok (st, Some rest))"

definition parse_field_value :: "parser_state \<Rightarrow> string \<Rightarrow> sub_result" where
  "parse_field_value st data =
     (let reset = ps_pending st; st = reset_pending st in
      case ps_fn_state st of
        FN_HOST \<Rightarrow>
          if str_value (ps_host st) \<noteq> None then Ok (transite_state st ST_FIELD_NOT_INST, Some data)
          else Ok (transite_state st ST_FIELD_VAL_HOST, Some data)
      | FN_ACCEPT_ENCODING \<Rightarrow> Ok (transite_state st ST_FIELD_VAL_ACCEPT_ENC, Some data)
      | FN_RANGE \<Rightarrow> Ok (transite_state st ST_FIELD_VAL_RANGE, Some data)
      | FN_CONN \<Rightarrow> parse_connection st data
      | FN_CL \<Rightarrow> parse_content_length st data reset
      | _ \<Rightarrow> Ok (transite_state st ST_FIELD_VAL_HOST, Some data))"

fun con_loop :: "nat \<Rightarrow> string \<Rightarrow> bool \<times> nat \<times> string" where
  "con_loop k [] = (False, k, [])"
| "con_loop k (c # data) =
     (if k < 3
      then if ''con'' ! k = lower c then con_loop (Suc k) data else (True, k, data)
      else (False, k, c # data))"

definition con_or_cl :: "parser_state \<Rightarrow> string \<Rightarrow> sub_result" where
  "con_or_cl st data =
     (let (differs, k, rest) = con_loop (ps_sub_state st) data; st = st\<lparr>ps_sub_state := k\<rparr> in
      if differs then Ok (transite_state st ST_FIELD_NOT_INST, Some rest)
      else (case rest of
          [] \<Rightarrow> Ok (st, Some [])
        | c # cs \<Rightarrow>
            if c = CHR ''n''
            then Ok (transite_state (st\<lparr>ps_fn_state := FN_CONN\<rparr>) ST_FIELD_NAME_CONNECT, Some cs)
            else if c = CHR ''t''
            then Ok (transite_state (st\<lparr>ps_fn_state := FN_CL\<rparr>) ST_FIELD_NAME_CONTENT_LEN, Some cs)
            else Ok (transite_state st ST_FIELD_NOT_INST, Some cs)))"

fun parse_field_name_init :: "parser_state \<Rightarrow> string \<Rightarrow> sub_result" where
  "parse_field_name_init st [] = Undef"
| "parse_field_name_init st (c # data) =
     (let st = (if ps_pending st then st\<lparr>ps_fn_state := FN_UNKNOWN, ps_pending := False\<rparr> else st) in
      if ps_fn_state st = FN_UNKNOWN
      then if lower c = CHR ''r''
           then Ok ((transite_state st ST_FIELD_NAME_RANGE)\<lparr>ps_fn_state := FN_RANGE\<rparr>, Some data)
           else if lower c = CHR ''a''
           then Ok ((transite_state st ST_FIELD_NAME_ACCEPT_ENC)\<lparr>ps_fn_state := FN_ACCEPT_ENCODING\<rparr>, Some data)
           else if lower c = CHR ''h''
           then Ok ((transite_state st ST_FIELD_NAME_HOST)\<lparr>ps_fn_state := FN_HOST\<rparr>, Some data)
           else if lower c = CHR ''c''
           then con_or_cl (st\<lparr>ps_fn_state := FN_CON_OR_CL, ps_sub_state := 0\<rparr>) (c # data)
           else if c = CR then Ok (transite_state st ST_BODY_BEGIN, Some (c # data))
           else Ok (transite_state st ST_FIELD_NOT_INST, Some data)
      else if ps_fn_state st = FN_CON_OR_CL then con_or_cl st (c # data)
      else Ok (st, None))"

subsection \<open>The parse loop\<close>

definition sub_parse :: "sized_alloc \<Rightarrow> parser_state \<Rightarrow> string \<Rightarrow> sub_result" where
  "sub_parse a st data =
     (case state_info (ps_code st) of
        None \<Rightarrow> Undef
      | Some (Liter next lit) \<Rightarrow> parse_literal st next lit data
      | Some (Liter_ic next fail lit) \<Rightarrow> parse_literal_ci st next fail lit data
      | Some (Copy next term lim f) \<Rightarrow> parse_copy a st next term lim f data
      | Some (Ws next n) \<Rightarrow> parse_ws st next n data
      | Some (Ignore next ch) \<Rightarrow> parse_ignore st next ch data
      | Some Generic \<Rightarrow>
          (case ps_code st of
             ST_URI_PATH \<Rightarrow> parse_uri_path a st data
           | ST_BODY_DATA \<Rightarrow> parse_body_data a st data
           | ST_INIT \<Rightarrow> parse_init st data
           | ST_URI \<Rightarrow> parse_uri st data
           | ST_FIELD_VALUE \<Rightarrow> parse_field_value st data
           | ST_FIELD_NAME_INIT \<Rightarrow> parse_field_name_init st data
           | _ \<Rightarrow> Ok (st, None)))"

definition body_complete :: "parser_state \<Rightarrow> parser_state" where
  "body_complete st =
     (if ps_code st = ST_BODY_DATA \<and> ps_content_length st = of_nat (str_length (ps_body st))
      then st\<lparr>ps_code := ST_DONE, ps_pending := False\<rparr> else st)"

definition halted :: "parser_state \<Rightarrow> bool" where
  "halted st \<longleftrightarrow> ps_code st = ST_DONE \<or> ps_code st = ST_ERROR"

text \<open>
  The result has the state and the bytes that were not consumed; \<open>None\<close> is the return of the
  error code. Leaving the loop with a NULL pointer subtracts pointers into different objects.
\<close>

partial_function (option) parse_next_buf :: "sized_alloc \<Rightarrow> parser_state \<Rightarrow> string
    \<Rightarrow> (parser_state \<times> string option) result option" where
  "parse_next_buf a st data =
     (if data = [] then Some (Ok (st, Some []))
      else (case sub_parse a st data of
          Undef \<Rightarrow> Some Undef
        | Error \<Rightarrow> Some Error
        | Ok (st, ret) \<Rightarrow>
            let st = body_complete st in
            if halted st
            then (case ret of None \<Rightarrow> Some Undef | Some rest \<Rightarrow> Some (Ok (st, Some rest)))
            else (case ret of
                None \<Rightarrow> Some (Ok (st, None))
              | Some rest \<Rightarrow> parse_next_buf a st rest)))"

declare parse_next_buf.simps [code]

subsection \<open>The end of a request\<close>

text \<open>The C string in a block: undefined when it is not terminated or was not written.\<close>

fun cstring :: "block \<Rightarrow> string result" where
  "cstring [] = Undef"
| "cstring (None # b) = Undef"
| "cstring (Some c # b) = (if c = NUL then Ok [] else rmap (\<lambda>s. c # s) (cstring b))"

text \<open>\<^verbatim>\<open>strchr\<close> followed by the store of a terminator: the text before and after the character.\<close>

fun split_at :: "char \<Rightarrow> string \<Rightarrow> (string \<times> string) option" where
  "split_at ch [] = None"
| "split_at ch (c # s) =
     (if c = ch then Some ([], s) else map_option (\<lambda>(x, y). (c # x, y)) (split_at ch s))"

fun parse_u64_loop :: "64 word \<Rightarrow> string \<Rightarrow> 64 word" where
  "parse_u64_loop n [] = n"
| "parse_u64_loop n (c # s) = (if is_digit c then parse_u64_loop (add_digit n c) s else - 1)"

definition parse_u64 :: "string \<Rightarrow> 64 word" where
  "parse_u64 s = (if s = [] then - 1 else parse_u64_loop 0 s)"

definition finish_range :: "parser_state \<Rightarrow> parser_state result" where
  "finish_range st =
     (case str_value (ps_range_text st) of
        None \<Rightarrow> Ok st
      | Some b \<Rightarrow>
          rmap (\<lambda>s.
            let st = (case split_at (CHR ''='') s of
                 None \<Rightarrow> st
               | Some (unit, start) \<Rightarrow>
                   (case split_at (CHR ''-'') start of
                      None \<Rightarrow> st
                    | Some (begin, end) \<Rightarrow>
                        st\<lparr>ps_range_begin := parse_u64 begin,
                           ps_range_end := (if end \<noteq> [] then parse_u64 end else - 1),
                           ps_has_range := True\<rparr>))
            in st\<lparr>ps_range_text := (ps_range_text st)\<lparr>str_value := None\<rparr>\<rparr>) (cstring b))"

definition finish_request :: "parser_state \<Rightarrow> parser_state result" where
  "finish_request st =
     rmap (\<lambda>st. if str_value (ps_host st) = None \<or> str_value (ps_path st) = None
                 then st\<lparr>ps_error := True\<rparr> else st) (finish_range st)"

text \<open>
  The entry point. The result is the state and the number of bytes consumed, \<open>None\<close> for the error
  code; the state is kept on every path.
\<close>

definition parser_process_next_buf :: "sized_alloc \<Rightarrow> parser_state \<Rightarrow> string option
    \<Rightarrow> (parser_state \<times> nat option) result option" where
  "parser_process_next_buf a st buf =
     (case buf of None \<Rightarrow> Some (Ok (st, None))
      | Some data \<Rightarrow>
          if data = [] then Some (Ok (st, None))
          else Option.bind (parse_next_buf a st data) (\<lambda>r. Some (rbind r (\<lambda>(st, ret).
            case ret of
              None \<Rightarrow> Ok (st, None)
            | Some rest \<Rightarrow>
                let n = length data - length rest; st = st\<lparr>ps_empty := False\<rparr> in
                if ps_code st = ST_ERROR
                then Ok (st\<lparr>ps_error := True, ps_pending := False\<rparr>, Some n)
                else if ps_code st = ST_DONE
                then rmap (\<lambda>st. (st, Some n)) (finish_request st)
                else Ok (st, Some n)))))"

definition parser_state_done :: "parser_state \<Rightarrow> bool" where
  "parser_state_done st \<longleftrightarrow> ps_error st \<or> (\<not> ps_pending st \<and> (ps_code st = ST_DONE \<or> ps_code st = ST_ERROR))"

end
