(* ===== verification/HttpSafety.thy ===== *)
theory HttpSafety
  imports HttpParser
begin

text \<open>
  The invariant of the request parser: what holds of the copy buffer, the sub-state and the body
  between two steps of the loop. Every sub-parser keeps it and either consumes a byte, or moves to a
  state of a smaller rank, or ends the parse; so the loop terminates and never touches memory
  outside its blocks.
\<close>

subsection \<open>Strings of the state\<close>

lemma get_set_str [simp]: "get_str f (set_str g s st) = (if f = g then s else get_str f st)"
  by (cases f; cases g) auto

lemma get_str_update [simp]:
  "get_str f (st\<lparr>ps_code := c\<rparr>) = get_str f st"
  "get_str f (st\<lparr>ps_pending := b\<rparr>) = get_str f st"
  "get_str f (st\<lparr>ps_sub_state := n\<rparr>) = get_str f st"
  "get_str f (st\<lparr>ps_fn_state := fn\<rparr>) = get_str f st"
  "get_str f (st\<lparr>ps_buffer := fo\<rparr>) = get_str f st"
  "get_str f (st\<lparr>ps_buffer_cap := n\<rparr>) = get_str f st"
  "get_str f (st\<lparr>ps_allocs := n\<rparr>) = get_str f st"
  "get_str f (st\<lparr>ps_content_length := w\<rparr>) = get_str f st"
  "get_str f (st\<lparr>ps_keep_alive := b\<rparr>) = get_str f st"
  "get_str f (st\<lparr>ps_method := m\<rparr>) = get_str f st"
  "get_str f (st\<lparr>ps_body := s\<rparr>) = get_str f st"
  "get_str f (st\<lparr>ps_empty := b\<rparr>) = get_str f st"
  "get_str f (st\<lparr>ps_error := b\<rparr>) = get_str f st"
  by (cases f; simp)+

lemma set_str_fields [simp]:
  "ps_code (set_str f s st) = ps_code st"
  "ps_pending (set_str f s st) = ps_pending st"
  "ps_sub_state (set_str f s st) = ps_sub_state st"
  "ps_fn_state (set_str f s st) = ps_fn_state st"
  "ps_buffer (set_str f s st) = ps_buffer st"
  "ps_buffer_cap (set_str f s st) = ps_buffer_cap st"
  "ps_allocs (set_str f s st) = ps_allocs st"
  "ps_content_length (set_str f s st) = ps_content_length st"
  "ps_body (set_str f s st) = ps_body st"
  by (cases f; simp)+

lemma transite_fields [simp]:
  "ps_code (transite_state st c) = c"
  "ps_pending (transite_state st c)"
  "ps_sub_state (transite_state st c) = ps_sub_state st"
  "ps_fn_state (transite_state st c) = ps_fn_state st"
  "ps_content_length (transite_state st c) = ps_content_length st"
  "ps_body (transite_state st c) = ps_body st"
  "get_str f (transite_state st c) = get_str f st"
  by (simp_all add: transite_state_def)

text \<open>A string that is complete, and one that is being written.\<close>

definition holds_text :: "parser_string \<Rightarrow> string \<Rightarrow> bool" where
  "holds_text s xs \<longleftrightarrow>
     (\<exists>t. s = \<lparr>str_value = Some (map Some xs @ Some NUL # t), str_length = length xs\<rparr>)"

definition str_closed :: "parser_string \<Rightarrow> bool" where
  "str_closed s \<longleftrightarrow> str_value s = None \<or> (\<exists>xs. holds_text s xs)"

definition str_open :: "parser_string \<Rightarrow> nat \<Rightarrow> string \<Rightarrow> bool" where
  "str_open s cap xs \<longleftrightarrow>
     (\<exists>t. s = \<lparr>str_value = Some (map Some xs @ t), str_length = length xs\<rparr>
        \<and> cap = length xs + length t \<and> t \<noteq> [])"

lemma block_write_open:
  "length data \<le> length t \<Longrightarrow>
    block_write (map Some xs @ t) (length xs) data = Ok (map Some (xs @ data) @ drop (length data) t)"
  by (simp add: block_write_def)

subsection \<open>The invariant\<close>

fun copy_field :: "state_code \<Rightarrow> str_field option" where
  "copy_field ST_URI_HOST = Some F_HOST"
| "copy_field ST_URI_PATH = Some F_PATH"
| "copy_field ST_URI_QUERY = Some F_QUERY"
| "copy_field ST_FIELD_VAL_HOST = Some F_HOST"
| "copy_field ST_FIELD_VAL_ACCEPT_ENC = Some F_ACCEPT_ENCODING"
| "copy_field ST_FIELD_VAL_RANGE = Some F_RANGE_TEXT"
| "copy_field _ = None"

definition copying :: "parser_state \<Rightarrow> str_field option" where
  "copying st = (if ps_pending st then None else copy_field (ps_code st))"

definition strings_ok :: "parser_state \<Rightarrow> bool" where
  "strings_ok st \<longleftrightarrow>
     (\<forall>f. copying st \<noteq> Some f \<longrightarrow> str_closed (get_str f st))
   \<and> (\<forall>f. copying st = Some f \<longrightarrow> ps_buffer st = Some f
        \<and> (\<exists>xs. str_open (get_str f st) (ps_buffer_cap st) xs))"

definition sub_ok :: "parser_state \<Rightarrow> bool" where
  "sub_ok st \<longleftrightarrow> ps_pending st \<or>
     (case state_info (ps_code st) of
        Some (Liter next lit) \<Rightarrow> ps_sub_state st < length lit
      | Some (Liter_ic next fail lit) \<Rightarrow> ps_sub_state st < length lit
      | _ \<Rightarrow> (ps_code st = ST_FIELD_VALUE \<longrightarrow> ps_fn_state st = FN_CONN \<longrightarrow> ps_sub_state st < 5)
           \<and> (ps_code st = ST_FIELD_NAME_INIT \<longrightarrow> ps_fn_state st = FN_CON_OR_CL))"

definition body_open :: "parser_state \<Rightarrow> string \<Rightarrow> bool" where
  "body_open st xs \<longleftrightarrow>
     (\<exists>t. ps_body st = \<lparr>str_value = Some (map Some xs @ t), str_length = length xs\<rparr>
        \<and> length xs + length t = Suc (unat (ps_content_length st)) \<and> t \<noteq> [])"

definition body_ok :: "parser_state \<Rightarrow> bool" where
  "body_ok st \<longleftrightarrow>
     (if ps_code st = ST_DONE then True
      else if ps_code st = ST_BODY_DATA \<and> \<not> ps_pending st then \<exists>xs. body_open st xs
      else str_length (ps_body st) = 0)"

definition parser_inv :: "parser_state \<Rightarrow> bool" where
  "parser_inv st \<longleftrightarrow> ps_code st = ST_ERROR
     \<or> strings_ok st \<and> sub_ok st \<and> body_ok st \<and> ps_code st \<noteq> ST_BODY_END
       \<and> (ps_code st = ST_DONE \<longrightarrow> \<not> ps_pending st)"

text \<open>The body has bytes left: the state the loop is entered with.\<close>

definition body_left :: "parser_state \<Rightarrow> bool" where
  "body_left st \<longleftrightarrow>
     (ps_code st = ST_BODY_DATA \<longrightarrow> ps_content_length st \<noteq> of_nat (str_length (ps_body st)))"

lemma new_state_inv: "parser_inv new_state" "body_left new_state" "\<not> halted new_state"
proof -
  have "str_closed (get_str f new_state)" for f
    by (cases f) (simp_all add: new_state_def str_closed_def)
  then show "parser_inv new_state"
    by (simp add: parser_inv_def strings_ok_def copying_def sub_ok_def body_ok_def) (simp add: new_state_def)
  show "body_left new_state" "\<not> halted new_state"
    by (simp_all add: new_state_def body_left_def halted_def)
qed

text \<open>A step without input moves down this order.\<close>

fun rank :: "state_code \<Rightarrow> nat" where
  "rank ST_METHOD_PATH_SEP = 9"
| "rank ST_URI = 8"
| "rank ST_URI_SCHEME = 7"
| "rank ST_FIELD_NAME_INIT = 7"
| "rank ST_FIELD_NAME_ACCEPT_ENC = 6"
| "rank ST_FIELD_NAME_RANGE = 6"
| "rank ST_FIELD_NAME_HOST = 6"
| "rank ST_FIELD_NAME_CONTENT_LEN = 6"
| "rank ST_FIELD_NAME_CONNECT = 6"
| "rank ST_FIELD_KV_SEP = 5"
| "rank ST_FIELD_VALUE = 4"
| "rank ST_FIELD_VAL_HOST = 3"
| "rank ST_FIELD_VAL_ACCEPT_ENC = 3"
| "rank ST_FIELD_VAL_RANGE = 3"
| "rank ST_URI_HOST = 3"
| "rank ST_URI_PATH = 2"
| "rank ST_URI_QUERY = 3"
| "rank ST_URI_VERSION_SEP = 2"
| "rank ST_FIELD_NOT_INST = 2"
| "rank ST_VERSION = 1"
| "rank _ = 0"

definition progress :: "parser_state \<Rightarrow> string \<Rightarrow> parser_state \<Rightarrow> string \<Rightarrow> bool" where
  "progress st data st' rest \<longleftrightarrow> suffix rest data
     \<and> (length rest < length data \<or> halted st' \<or> rank (ps_code st') < rank (ps_code st))"

text \<open>What every sub-parser guarantees.\<close>

definition good_step :: "sized_alloc \<Rightarrow> parser_state \<Rightarrow> string \<Rightarrow> sub_result \<Rightarrow> bool" where
  "good_step a st data r \<longleftrightarrow>
     (\<exists>st' ret. r = Ok (st', ret) \<and> parser_inv st'
        \<and> (case ret of None \<Rightarrow> \<not> halted st' \<and> body_left st' \<and> (\<exists>k n. \<not> a k n)
           | Some rest \<Rightarrow> progress st data st' rest))"

lemma good_step_Ok [simp]:
  "good_step a st data (Ok (st', Some rest)) \<longleftrightarrow> parser_inv st' \<and> progress st data st' rest"
  "good_step a st data (Ok (st', None))
    \<longleftrightarrow> parser_inv st' \<and> \<not> halted st' \<and> body_left st' \<and> (\<exists>k n. \<not> a k n)"
  by (auto simp: good_step_def)

lemma progress_error [simp]: "suffix rest data \<Longrightarrow> ps_code st' = ST_ERROR \<Longrightarrow> progress st data st' rest"
  by (simp add: progress_def halted_def)

text \<open>A transition to a state other than the body keeps the invariant as soon as the strings are
  closed.\<close>

definition strings_closed :: "parser_state \<Rightarrow> bool" where
  "strings_closed st \<longleftrightarrow> (\<forall>f. str_closed (get_str f st))"

lemma strings_ok_closed: "strings_ok st \<Longrightarrow> copying st = None \<Longrightarrow> strings_closed st"
  by (simp add: strings_ok_def strings_closed_def)

lemma inv_transite:
  assumes "strings_closed st" and "str_length (ps_body st) = 0" and "c \<notin> {ST_BODY_END, ST_DONE}"
  shows "parser_inv (transite_state st c)"
  using assms
  by (simp add: parser_inv_def strings_ok_def copying_def sub_ok_def body_ok_def strings_closed_def)

lemma inv_error: "parser_inv (transite_state st ST_ERROR)"
  by (simp add: parser_inv_def)

subsection \<open>Sub-parsers without a buffer\<close>

lemma inv_cases:
  assumes "parser_inv st" and "\<not> halted st"
  shows "strings_ok st" "sub_ok st" "body_ok st" "ps_code st \<noteq> ST_BODY_END"
  using assms by (auto simp: parser_inv_def halted_def)

text \<open>The states that copy nothing and are not the body.\<close>

definition plain_state :: "state_code \<Rightarrow> bool" where
  "plain_state c \<longleftrightarrow> copy_field c = None \<and> c \<notin> {ST_BODY_DATA, ST_BODY_END, ST_DONE, ST_ERROR}"

lemma plain_closed:
  assumes "parser_inv st" and "plain_state (ps_code st)"
  shows "strings_closed st" "str_length (ps_body st) = 0"
  using assms strings_ok_closed [of st]
  by (auto simp: parser_inv_def plain_state_def copying_def body_ok_def)

lemma inv_plain:
  assumes "strings_closed st" and "str_length (ps_body st) = 0" and "plain_state (ps_code st)"
    and "sub_ok st"
  shows "parser_inv st"
  using assms
  by (auto simp: parser_inv_def strings_ok_def copying_def body_ok_def strings_closed_def plain_state_def)

lemma closed_update [simp]:
  "strings_closed (st\<lparr>ps_code := c\<rparr>) = strings_closed st"
  "strings_closed (st\<lparr>ps_pending := b\<rparr>) = strings_closed st"
  "strings_closed (st\<lparr>ps_sub_state := n\<rparr>) = strings_closed st"
  "strings_closed (st\<lparr>ps_fn_state := fn\<rparr>) = strings_closed st"
  "strings_closed (st\<lparr>ps_content_length := w\<rparr>) = strings_closed st"
  "strings_closed (st\<lparr>ps_keep_alive := b\<rparr>) = strings_closed st"
  "strings_closed (st\<lparr>ps_method := m\<rparr>) = strings_closed st"
  "strings_closed (transite_state st c) = strings_closed st"
  by (simp_all add: strings_closed_def)

lemma reset_fields [simp]:
  "ps_code (reset_pending st) = ps_code st"
  "\<not> ps_pending (reset_pending st)"
  "ps_fn_state (reset_pending st) = ps_fn_state st"
  "ps_body (reset_pending st) = ps_body st"
  "ps_content_length (reset_pending st) = ps_content_length st"
  "get_str f (reset_pending st) = get_str f st"
  "strings_closed (reset_pending st) = strings_closed st"
  by (simp_all add: reset_pending_def)

lemma good_step_code:
  "ps_code st = ps_code st1 \<Longrightarrow> good_step a st data r \<longleftrightarrow> good_step a st1 data r"
  by (auto simp: good_step_def progress_def split: option.splits)

lemma liter_loop_spec:
  "\<lbrakk> liter_loop f lit k data = (differs, k', rest); k \<le> length lit \<rbrakk> \<Longrightarrow>
    suffix rest data \<and> k' \<le> length lit \<and> k' = k + (length data - length rest)
    \<and> (differs \<longrightarrow> k' < length lit) \<and> (\<not> differs \<longrightarrow> k' < length lit \<longrightarrow> rest = [])"
proof (induction f lit k data rule: liter_loop.induct)
  case (2 f lit k c data)
  show ?case
  proof (cases "k < length lit \<and> lit ! k = f c")
    case True
    then have run: "liter_loop f lit (Suc k) data = (differs, k', rest)" using "2.prems"(1) by simp
    have ih: "suffix rest data" "k' \<le> length lit" "k' = Suc k + (length data - length rest)"
      "differs \<longrightarrow> k' < length lit" "\<not> differs \<longrightarrow> k' < length lit \<longrightarrow> rest = []"
      using "2.IH" [OF _ _ run Suc_leI] True by blast+
    have "length rest \<le> length data" using suffix_length_le [OF ih(1)] .
    then have "k' = k + (length (c # data) - length rest)" using ih(3) by simp
    then show ?thesis using ih by (simp add: suffix_ConsI)
  next
    case False
    then show ?thesis using "2.prems" by (auto split: if_splits)
  qed
qed simp

lemma liter_good:
  assumes inv: "strings_closed st" "str_length (ps_body st) = 0" "\<not> ps_pending st"
      "ps_sub_state st < length lit"
    and desc: "plain_state (ps_code st)" "state_info (ps_code st) = Some (Liter nx lit)
      \<or> state_info (ps_code st) = Some (Liter_ic nx fail lit)"
    and fail: "fail = ST_ERROR \<or> fail \<notin> {ST_BODY_END, ST_DONE} \<and> rank fail < rank (ps_code st)"
    and "nx \<notin> {ST_BODY_END, ST_DONE}" and data: "data \<noteq> []"
  shows "good_step a st data (liter_from f st nx fail lit data)"
proof -
  obtain differs k rest where run: "liter_loop f lit (ps_sub_state st) data = (differs, k, rest)"
    by (metis prod_cases3)
  let ?st = "st\<lparr>ps_sub_state := k\<rparr>"
  have spec: "suffix rest data" "k = ps_sub_state st + (length data - length rest)" "k \<le> length lit"
    "\<not> differs \<Longrightarrow> k < length lit \<Longrightarrow> rest = []"
    using liter_loop_spec [OF run less_imp_le [OF inv(4)]] by blast+
  consider "differs" | "\<not> differs" "k = length lit" | "\<not> differs" "k < length lit"
    using spec(3) by linarith
  then show ?thesis
  proof cases
    case 1
    have "progress st data (transite_state ?st fail) rest"
      using fail spec(1) by (auto simp: progress_def halted_def)
    moreover have "parser_inv (transite_state ?st fail)"
      using fail inv(1,2) by (cases "fail = ST_ERROR") (auto simp: inv_error intro: inv_transite)
    ultimately show ?thesis using run 1 inv(4) by (simp add: liter_from_def)
  next
    case 2
    then have "length rest < length data" using spec(2) inv(4) by linarith
    then have "progress st data (transite_state ?st nx) rest" using spec(1) by (simp add: progress_def)
    moreover have "parser_inv (transite_state ?st nx)"
      using assms(8) inv(1,2) by (auto intro: inv_transite)
    ultimately show ?thesis using run 2 inv(4) by (simp add: liter_from_def)
  next
    case 3
    then have "rest = []" using spec(4) by simp
    then have "progress st data ?st rest" using data by (simp add: progress_def)
    moreover have "parser_inv ?st"
      using inv desc 3 by (intro inv_plain) (auto simp: sub_ok_def)
    ultimately show ?thesis using run 3 inv(4) by (simp add: liter_from_def)
  qed
qed

lemma reset_sub:
  assumes "sub_ok st" and "lit \<noteq> []" and "state_info (ps_code st) = Some (Liter nx lit)
      \<or> state_info (ps_code st) = Some (Liter_ic nx fail lit)"
  shows "ps_sub_state (reset_pending st) < length lit"
  using assms by (auto simp: sub_ok_def reset_pending_def)

lemma liter_desc:
  "state_info c = Some (Liter nx lit) \<Longrightarrow> plain_state c \<and> lit \<noteq> [] \<and> nx \<notin> {ST_BODY_END, ST_DONE}"
  by (cases c) (auto simp: plain_state_def)

lemma liter_ic_desc:
  "state_info c = Some (Liter_ic nx fail lit) \<Longrightarrow> plain_state c \<and> lit \<noteq> [] \<and> nx \<notin> {ST_BODY_END, ST_DONE}
    \<and> fail \<notin> {ST_BODY_END, ST_DONE} \<and> rank fail < rank c"
  by (cases c) (auto simp: plain_state_def)

lemma parse_literal_good:
  assumes "parser_inv st" "\<not> halted st" "data \<noteq> []" "state_info (ps_code st) = Some (Liter nx lit)"
  shows "good_step a st data (parse_literal st nx lit data)"
  using liter_good [of "reset_pending st" lit nx ST_ERROR data a "\<lambda>c. c"] assms
    plain_closed [OF assms(1)] liter_desc [OF assms(4)] reset_sub [OF inv_cases(2) [OF assms(1,2)], of lit nx]
    good_step_code [of st "reset_pending st"]
  by (simp add: parse_literal_def)

lemma parse_literal_ci_good:
  assumes "parser_inv st" "\<not> halted st" "data \<noteq> []"
    "state_info (ps_code st) = Some (Liter_ic nx fail lit)"
  shows "good_step a st data (parse_literal_ci st nx fail lit data)"
  using liter_good [of "reset_pending st" lit nx fail data a lower] assms
    plain_closed [OF assms(1)] liter_ic_desc [OF assms(4)]
    reset_sub [OF inv_cases(2) [OF assms(1,2)], of lit nx fail]
    good_step_code [of st "reset_pending st"]
  by (simp add: parse_literal_ci_def)

lemma suffix_dropWhile' [simp]: "suffix (dropWhile P xs) xs"
  by (simp add: suffix_dropWhile)

lemma ignore_desc:
  "state_info c = Some (Ignore nx ch) \<Longrightarrow> plain_state c \<and> nx \<notin> {ST_BODY_END, ST_DONE} \<and> rank nx < rank c
    \<and> c \<notin> {ST_FIELD_VALUE, ST_FIELD_NAME_INIT}"
  by (cases c) (auto simp: plain_state_def)

lemma parse_ignore_good:
  assumes "parser_inv st" "data \<noteq> []" "state_info (ps_code st) = Some (Ignore nx ch)"
  shows "good_step a st data (parse_ignore st nx ch data)"
proof (cases "dropWhile (\<lambda>c. c \<noteq> ch) data = []")
  case True
  then show ?thesis
    using assms by (simp add: parse_ignore_def progress_def del: dropWhile_eq_Nil_conv)
next
  case False
  have "progress st data (transite_state st nx) (dropWhile (\<lambda>c. c \<noteq> ch) data)"
    using ignore_desc [OF assms(3)] by (simp add: progress_def)
  then show ?thesis
    using False assms(1) ignore_desc [OF assms(3)] plain_closed [OF assms(1)] inv_transite [of st nx]
    by (simp add: parse_ignore_def)
qed

lemma ws_desc:
  "state_info c = Some (Ws nx n) \<Longrightarrow> plain_state c \<and> nx \<notin> {ST_BODY_END, ST_DONE} \<and> rank nx < rank c
    \<and> c \<notin> {ST_FIELD_VALUE, ST_FIELD_NAME_INIT}"
  by (cases c) (auto simp: plain_state_def)

lemma parse_ws_good:
  assumes inv: "parser_inv st" and data: "data \<noteq> []" and desc: "state_info (ps_code st) = Some (Ws nx n)"
  shows "good_step a st data (parse_ws st nx n data)"
proof -
  define st1 where "st1 = (let st = (if ps_pending st then st\<lparr>ps_sub_state := n, ps_pending := False\<rparr> else st)
    in st\<lparr>ps_sub_state := ps_sub_state st - length (takeWhile is_ws data)\<rparr>)"
  have st1: "ps_code st1 = ps_code st" "strings_closed st1" "str_length (ps_body st1) = 0"
    "\<not> ps_pending st1"
    using plain_closed [OF inv] ws_desc [OF desc] by (auto simp: st1_def Let_def)
  have run: "parse_ws st nx n data = (let rest = dropWhile is_ws data in
      if rest \<noteq> []
      then if ps_sub_state st1 > 0 then Ok (transite_state st1 ST_ERROR, Some rest)
           else Ok (transite_state st1 nx, Some rest)
      else Ok (st1, Some rest))"
    by (simp add: parse_ws_def st1_def Let_def)
  have inv1: "parser_inv st1" "parser_inv (transite_state st1 nx)"
    using st1 ws_desc [OF desc] desc by (auto intro!: inv_plain inv_transite simp: sub_ok_def)
  consider "dropWhile is_ws data = []" | "dropWhile is_ws data \<noteq> []" "ps_sub_state st1 > 0"
    | "dropWhile is_ws data \<noteq> []" "ps_sub_state st1 = 0" by blast
  then show ?thesis
  proof cases
    case 1
    then show ?thesis
      using run inv1 data by (simp add: progress_def del: dropWhile_eq_Nil_conv)
  next
    case 2
    then show ?thesis
      using run by (simp add: inv_error)
  next
    case 3
    then show ?thesis
      using run inv1 ws_desc [OF desc] by (simp add: progress_def)
  qed
qed

lemma parse_init_good:
  assumes "parser_inv st" "data \<noteq> []" "ps_code st = ST_INIT"
  shows "good_step a st data (parse_init st data)"
proof -
  obtain c cs where data: "data = c # cs" using assms(2) by (cases data) auto
  have "strings_closed st" "str_length (ps_body st) = 0"
    using plain_closed [OF assms(1)] assms(3) by (auto simp: plain_state_def)
  then show ?thesis
    unfolding data
    by (simp add: inv_transite inv_error progress_def suffix_Cons)
qed

lemma parse_uri_good:
  assumes "parser_inv st" "data \<noteq> []" "ps_code st = ST_URI"
  shows "good_step a st data (parse_uri st data)"
proof -
  obtain c cs where data: "data = c # cs" using assms(2) by (cases data) auto
  have "strings_closed st" "str_length (ps_body st) = 0"
    using plain_closed [OF assms(1)] assms(3) by (auto simp: plain_state_def)
  then show ?thesis
    unfolding data using assms(3)
    by (simp add: inv_transite inv_error progress_def halted_def)
qed

lemma parse_connection_good:
  assumes inv: "strings_closed st" "str_length (ps_body st) = 0" "\<not> ps_pending st"
      "ps_sub_state st < 5" and code: "ps_code st = ST_FIELD_VALUE" and data: "data \<noteq> []"
  shows "good_step a st data (parse_connection st data)"
proof -
  obtain differs k rest where run: "liter_loop (\<lambda>c. c) ''close'' (ps_sub_state st) data = (differs, k, rest)"
    by (metis prod_cases3)
  have spec: "suffix rest data" "k \<le> 5"
    using liter_loop_spec [OF run] inv(4) by auto
  consider "k = 5" | "k < 5" "rest \<noteq> []" | "k < 5" "rest = []" using spec(2) by linarith
  then show ?thesis
  proof cases
    case 3
    have "parser_inv (st\<lparr>ps_sub_state := k\<rparr>)"
      using inv code 3 by (intro inv_plain) (auto simp: sub_ok_def plain_state_def)
    then show ?thesis using run 3 data by (simp add: parse_connection_def progress_def)
  qed (use run spec inv code in \<open>simp_all add: parse_connection_def progress_def inv_transite\<close>)
qed

lemma parse_content_length_good:
  assumes inv: "strings_closed st" "str_length (ps_body st) = 0" "\<not> ps_pending st"
      "ps_fn_state st \<noteq> FN_CONN" and code: "ps_code st = ST_FIELD_VALUE" and data: "data \<noteq> []"
  shows "good_step a st data (parse_content_length st data reset)"
proof -
  have "parser_inv (st\<lparr>ps_content_length := n\<rparr>)" for n
    using inv code by (intro inv_plain) (auto simp: sub_ok_def plain_state_def)
  then show ?thesis
    using inv data code
    by (cases "dropWhile is_digit data = []")
      (simp_all add: parse_content_length_def progress_def inv_transite del: dropWhile_eq_Nil_conv)
qed

lemma parse_field_value_good:
  assumes inv: "parser_inv st" "\<not> halted st" and data: "data \<noteq> []" and code: "ps_code st = ST_FIELD_VALUE"
  shows "good_step a st data (parse_field_value st data)"
proof -
  let ?st = "reset_pending st"
  have closed: "strings_closed ?st" "str_length (ps_body ?st) = 0"
    using plain_closed [OF inv(1)] code by (auto simp: plain_state_def)
  have sub: "ps_fn_state st = FN_CONN \<Longrightarrow> ps_sub_state ?st < 5"
    using inv_cases(2) [OF inv] code by (auto simp: sub_ok_def reset_pending_def)
  have "good_step a ?st data (parse_field_value st data)"
    using parse_connection_good [of ?st data a] parse_content_length_good [of ?st data a "ps_pending st"]
      closed sub code data
    by (cases "ps_fn_state st")
      (simp_all add: parse_field_value_def Let_def progress_def inv_transite)
  then show ?thesis using good_step_code [of st ?st] by simp
qed

lemma con_loop_spec:
  "con_loop k data = (differs, k', rest) \<Longrightarrow> suffix rest data \<and> (differs \<longrightarrow> length rest < length data)"
  by (induction k data rule: con_loop.induct) (auto simp: suffix_Cons split: if_splits)

lemma con_or_cl_good:
  assumes inv: "strings_closed st" "str_length (ps_body st) = 0" "\<not> ps_pending st"
      "ps_fn_state st = FN_CON_OR_CL" and code: "ps_code st = ST_FIELD_NAME_INIT" and data: "data \<noteq> []"
  shows "good_step a st data (con_or_cl st data)"
proof -
  obtain differs k rest where run: "con_loop (ps_sub_state st) data = (differs, k, rest)"
    by (metis prod_cases3)
  note spec = con_loop_spec [OF run]
  show ?thesis
  proof (cases rest)
    case Nil
    have "parser_inv (st\<lparr>ps_sub_state := k\<rparr>)"
      using inv code by (intro inv_plain) (auto simp: sub_ok_def plain_state_def)
    then show ?thesis
      using run Nil spec inv data by (simp add: con_or_cl_def progress_def inv_transite Let_def)
  next
    case (Cons c cs)
    then have "suffix cs data" "length cs < length data"
      using spec suffix_length_le [of rest data] suffix_ConsD [of c cs data] by auto
    then show ?thesis
      using run Cons spec inv by (simp add: con_or_cl_def progress_def inv_transite Let_def)
  qed
qed

lemma inv_transite_fn:
  assumes "strings_closed st" and "str_length (ps_body st) = 0" and "c \<notin> {ST_BODY_END, ST_DONE}"
  shows "parser_inv ((transite_state st c)\<lparr>ps_fn_state := fn\<rparr>)"
  using assms
  by (simp add: parser_inv_def strings_ok_def copying_def sub_ok_def body_ok_def strings_closed_def)

lemma parse_field_name_init_good:
  assumes inv: "parser_inv st" "\<not> halted st" and data: "data \<noteq> []"
    and code: "ps_code st = ST_FIELD_NAME_INIT"
  shows "good_step a st data (parse_field_name_init st data)"
proof -
  obtain c cs where cs: "data = c # cs" using data by (cases data) auto
  define st1 where "st1 = (if ps_pending st then st\<lparr>ps_fn_state := FN_UNKNOWN, ps_pending := False\<rparr> else st)"
  have st1: "strings_closed st1" "str_length (ps_body st1) = 0" "\<not> ps_pending st1"
    "ps_code st1 = ST_FIELD_NAME_INIT" "ps_fn_state st1 = FN_UNKNOWN \<or> ps_fn_state st1 = FN_CON_OR_CL"
    using plain_closed [OF inv(1)] inv_cases(2) [OF inv] code
    by (auto simp: plain_state_def st1_def sub_ok_def)
  have "good_step a st1 data (parse_field_name_init st data)"
    using con_or_cl_good [of "st1\<lparr>ps_fn_state := FN_CON_OR_CL, ps_sub_state := 0\<rparr>" data a]
      con_or_cl_good [of st1 data a] st1
      good_step_code [of "st1\<lparr>ps_fn_state := FN_CON_OR_CL, ps_sub_state := 0\<rparr>" st1]
    unfolding cs
    by (cases "ps_fn_state st1 = FN_UNKNOWN")
      (simp_all add: st1_def [symmetric] Let_def progress_def inv_transite inv_transite_fn suffix_Cons)
  then show ?thesis using good_step_code [of st st1] st1(4) code by simp
qed

subsection \<open>Copying\<close>

text \<open>
  The buffer is open on \<open>xs\<close>: the current buffer is \<open>f\<close>, its block has the size recorded and starts
  with \<open>xs\<close>; every other string is complete.
\<close>

definition open_on :: "str_field \<Rightarrow> string \<Rightarrow> parser_state \<Rightarrow> bool" where
  "open_on f xs st \<longleftrightarrow> ps_buffer st = Some f \<and> str_open (get_str f st) (ps_buffer_cap st) xs
     \<and> (\<forall>g. g \<noteq> f \<longrightarrow> str_closed (get_str g st))"

lemma strings_ok_open:
  "copying st = Some f \<Longrightarrow> strings_ok st \<longleftrightarrow> (\<exists>xs. open_on f xs st)"
  by (auto simp: strings_ok_def open_on_def)

lemma open_on_update [simp]:
  "open_on f xs (st\<lparr>ps_pending := b\<rparr>) = open_on f xs st"
  "open_on f xs (st\<lparr>ps_allocs := n\<rparr>) = open_on f xs st"
  by (simp_all add: open_on_def)

lemma double_to_ge: "0 < n \<Longrightarrow> need \<le> double_to n need"
proof (induction n need rule: double_to.induct)
  case (1 n need)
  then show ?case by (subst double_to.simps) auto
qed

lemma double_to_le: "n \<le> double_to n need"
proof (induction n need rule: double_to.induct)
  case (1 n need)
  then show ?case by (subst double_to.simps) auto
qed

text \<open>The copy frame: what copying never changes.\<close>

definition same_frame :: "parser_state \<Rightarrow> parser_state \<Rightarrow> bool" where
  "same_frame st st' \<longleftrightarrow> ps_code st' = ps_code st \<and> ps_pending st' = ps_pending st
     \<and> ps_body st' = ps_body st \<and> ps_content_length st' = ps_content_length st
     \<and> ps_sub_state st' = ps_sub_state st \<and> ps_fn_state st' = ps_fn_state st"

lemma same_frame_trans: "\<lbrakk> same_frame x y; same_frame y z \<rbrakk> \<Longrightarrow> same_frame x z"
  by (simp add: same_frame_def)

lemma same_frame_refl [simp]: "same_frame x x"
  by (simp add: same_frame_def)

lemma init_buffer_open:
  assumes "strings_closed st" and "63 \<le> limit"
  shows "\<exists>ok st'. init_buffer a st f limit = (ok, st') \<and> same_frame st st'
    \<and> (if ok then open_on f [] st' \<and> ps_buffer_cap st' = 64
       else (\<exists>k n. \<not> a k n) \<and> strings_closed st')"
  using assms
  by (auto simp: init_buffer_def Let_def open_on_def str_open_def strings_closed_def str_closed_def
      same_frame_def)

lemma ensure_buffer_open:
  assumes "open_on f xs st"
  shows "\<exists>rc st'. ensure_buffer a st n limit = Ok (rc, st')
    \<and> (rc = E_FULL \<longrightarrow> st' = transite_state st ST_ERROR)
    \<and> (rc = E_ERROR \<longrightarrow> (\<exists>k n. \<not> a k n) \<and> same_frame st st' \<and> open_on f xs st')
    \<and> (rc = E_READY \<longrightarrow> same_frame st st' \<and> open_on f xs st' \<and> length xs + n < ps_buffer_cap st')"
proof -
  obtain t where t: "get_str f st = \<lparr>str_value = Some (map Some xs @ t), str_length = length xs\<rparr>"
    "ps_buffer_cap st = length xs + length t" "t \<noteq> []"
    using assms by (auto simp: open_on_def str_open_def)
  have buf: "ps_buffer st = Some f" "\<And>g. g \<noteq> f \<Longrightarrow> str_closed (get_str g st)"
    using assms by (auto simp: open_on_def)
  let ?size = "double_to (ps_buffer_cap st) (length xs + n + 1)"
  have size: "length xs + n + 1 \<le> ?size" "ps_buffer_cap st \<le> ?size"
    using double_to_ge [of "ps_buffer_cap st"] double_to_le t by auto
  consider "length xs + n + 1 \<le> ps_buffer_cap st" | "length xs + n + 1 > ps_buffer_cap st" "?size > limit + 1"
    | "length xs + n + 1 > ps_buffer_cap st" "\<not> ?size > limit + 1" "\<not> a (ps_allocs st) ?size"
    | "length xs + n + 1 > ps_buffer_cap st" "\<not> ?size > limit + 1" "a (ps_allocs st) ?size" by linarith
  then show ?thesis
  proof cases
    case 1
    then show ?thesis using t buf assms by (simp add: ensure_buffer_def)
  next
    case 2
    then show ?thesis using t buf by (simp add: ensure_buffer_def)
  next
    case 3
    then show ?thesis using t buf assms by (auto simp: ensure_buffer_def same_frame_def)
  next
    case 4
    then show ?thesis
      using t buf size
      by (auto simp: ensure_buffer_def same_frame_def open_on_def str_open_def Let_def)
  qed
qed

lemma buffer_append_open:
  assumes "open_on f xs st" and "length xs + length data < ps_buffer_cap st"
  shows "\<exists>st'. buffer_append st data = Ok st' \<and> same_frame st st' \<and> open_on f (xs @ data) st'
    \<and> ps_buffer_cap st' = ps_buffer_cap st"
proof -
  obtain t where t: "get_str f st = \<lparr>str_value = Some (map Some xs @ t), str_length = length xs\<rparr>"
    "ps_buffer_cap st = length xs + length t" "t \<noteq> []" and buf: "ps_buffer st = Some f"
    using assms(1) by (auto simp: open_on_def str_open_def)
  have "block_write (map Some xs @ t) (length xs) data = Ok (map Some (xs @ data) @ drop (length data) t)"
    using block_write_open assms(2) t(2) by simp
  then show ?thesis
    using t buf assms by (auto simp: buffer_append_def same_frame_def open_on_def str_open_def)
qed

lemma buffer_terminate_closed:
  assumes "open_on f xs st"
  shows "\<exists>st'. buffer_terminate st = Ok st' \<and> same_frame st st' \<and> strings_closed st'
    \<and> holds_text (get_str f st') xs"
proof -
  obtain c t where t: "get_str f st = \<lparr>str_value = Some (map Some xs @ c # t), str_length = length xs\<rparr>"
    and buf: "ps_buffer st = Some f"
    using assms(1) by (auto simp: open_on_def str_open_def neq_Nil_conv)
  have "block_write (map Some xs @ c # t) (length xs) [NUL] = Ok (map Some xs @ Some NUL # t)"
    using block_write_open [of "[NUL]" "c # t" xs] by simp
  then show ?thesis
    using t buf assms
    by (auto simp: buffer_terminate_def same_frame_def open_on_def strings_closed_def str_closed_def
        holds_text_def)
qed

lemma copy_field_state:
  "copy_field c = Some f \<Longrightarrow> c \<notin> {ST_BODY_DATA, ST_BODY_END, ST_DONE, ST_ERROR}
    \<and> (state_info c = Some Generic \<and> c = ST_URI_PATH \<or> (\<exists>nx ch lim. state_info c = Some (Copy nx ch lim f)))"
  by (cases c) auto

lemma inv_copying:
  assumes "open_on f xs st" and "\<not> ps_pending st" and "copy_field (ps_code st) = Some f"
    and "str_length (ps_body st) = 0"
  shows "parser_inv st" "\<not> halted st" "body_left st"
proof -
  have "strings_ok st" using assms strings_ok_open [of st f] by (auto simp: copying_def)
  moreover have "sub_ok st" "body_ok st" "ps_code st \<noteq> ST_BODY_END"
    using copy_field_state [OF assms(3)] assms(4) by (auto simp: sub_ok_def body_ok_def)
  ultimately show "parser_inv st" using assms(2) by (simp add: parser_inv_def)
  show "\<not> halted st" "body_left st"
    using copy_field_state [OF assms(3)] by (simp_all add: halted_def body_left_def)
qed

lemma copy_desc:
  "state_info c = Some (Copy nx ch lim f) \<Longrightarrow> copy_field c = Some f \<and> 63 \<le> lim \<and> nx \<notin> {ST_BODY_END, ST_DONE}
    \<and> rank nx < rank c"
  by (cases c) auto

lemma copy_data_good:
  assumes op: "open_on f xs st" and st: "\<not> ps_pending st" "copy_field (ps_code st) = Some f"
      "str_length (ps_body st) = 0"
    and nx: "nx \<notin> {ST_BODY_END, ST_DONE}" "rank nx < rank (ps_code st)" and data: "data \<noteq> []"
  shows "good_step a st data (copy_data a st nx ch lim data)"
proof -
  let ?chunk = "takeWhile (\<lambda>c. c \<noteq> ch) data" and ?rest = "dropWhile (\<lambda>c. c \<noteq> ch) data"
  obtain rc st1 where ens: "ensure_buffer a st (length ?chunk) lim = Ok (rc, st1)"
    and full: "rc = E_FULL \<Longrightarrow> st1 = transite_state st ST_ERROR"
    and err: "rc = E_ERROR \<Longrightarrow> (\<exists>k n. \<not> a k n) \<and> same_frame st st1 \<and> open_on f xs st1"
    and ready: "rc = E_READY \<Longrightarrow> same_frame st st1 \<and> open_on f xs st1
      \<and> length xs + length ?chunk < ps_buffer_cap st1"
    using ensure_buffer_open [OF op, of a "length ?chunk" lim] by blast
  show ?thesis
  proof (cases rc)
    case E_FULL
    then show ?thesis using ens full by (simp add: copy_data_def Let_def inv_error)
  next
    case E_ERROR
    then show ?thesis
      using ens err st inv_copying [of f xs st1] by (simp add: copy_data_def Let_def same_frame_def)
  next
    case E_READY
    obtain st2 where app: "buffer_append st1 ?chunk = Ok st2" "same_frame st st2" "open_on f (xs @ ?chunk) st2"
      using buffer_append_open ready E_READY same_frame_trans by blast
    obtain st3 where fin: "buffer_terminate st2 = Ok st3" "same_frame st st3" "strings_closed st3"
      using buffer_terminate_closed [OF app(3)] same_frame_trans [OF app(2)] by blast
    have "parser_inv st2" using inv_copying [OF app(3)] app(2) st by (simp add: same_frame_def)
    moreover have "parser_inv (transite_state st3 nx)"
      using inv_transite [OF fin(3), of nx] fin(2) st(3) nx(1) by (simp add: same_frame_def)
    ultimately show ?thesis
      using ens E_READY app(1) fin(1) nx data
      by (cases "?rest = []")
        (simp_all add: copy_data_def Let_def copy_term_def progress_def del: dropWhile_eq_Nil_conv)
  qed
qed

text \<open>Both copying sub-parsers begin by opening the buffer when the state is entered.\<close>

lemma start_copy_good:
  assumes inv: "parser_inv st" "\<not> halted st" and f: "copy_field (ps_code st) = Some f" and lim: "63 \<le> lim"
    and good: "\<And>st1 xs. \<lbrakk> open_on f xs st1; \<not> ps_pending st1; ps_code st1 = ps_code st;
      str_length (ps_body st1) = 0 \<rbrakk> \<Longrightarrow> good_step a st1 data (g st1)"
  shows "good_step a st data (if ps_pending st
    then let (ok, st) = init_buffer a st f lim in
         if \<not> ok then Ok (st, None) else g (st\<lparr>ps_pending := False\<rparr>)
    else g st)"
proof (cases "ps_pending st")
  case True
  have body: "str_length (ps_body st) = 0"
    using inv_cases(3) [OF inv] True copy_field_state [OF f] by (auto simp: body_ok_def split: if_splits)
  have "strings_closed st"
    using inv_cases(1) [OF inv] strings_ok_closed True by (simp add: copying_def)
  then obtain ok st1 where ini: "init_buffer a st f lim = (ok, st1)" "same_frame st st1"
    "ok \<Longrightarrow> open_on f [] st1" "\<not> ok \<Longrightarrow> (\<exists>k n. \<not> a k n) \<and> strings_closed st1"
    using init_buffer_open [of st lim a f] lim by (auto split: if_splits)
  show ?thesis
  proof (cases ok)
    case True
    let ?st = "st1\<lparr>ps_pending := False\<rparr>"
    have "good_step a ?st data (g ?st)"
      using good [of "[]" ?st] ini(2,3) True body by (simp add: same_frame_def)
    then show ?thesis
      using ini(1,2) True \<open>ps_pending st\<close> good_step_code [of st ?st] by (simp add: same_frame_def)
  next
    case False
    have "parser_inv st1" "\<not> halted st1" "body_left st1"
      using ini(2,4) False body True inv(2) copy_field_state [OF f]
      by (auto simp: parser_inv_def strings_ok_def copying_def sub_ok_def body_ok_def same_frame_def
          halted_def strings_closed_def body_left_def)
    then show ?thesis using ini(1,4) False True by simp
  qed
next
  case False
  have body: "str_length (ps_body st) = 0"
    using inv_cases(3) [OF inv] copy_field_state [OF f] by (auto simp: body_ok_def split: if_splits)
  obtain xs where "open_on f xs st"
    using inv_cases(1) [OF inv] strings_ok_open [of st f] False f by (auto simp: copying_def)
  then show ?thesis using good [of xs st] False body by simp
qed

lemma parse_copy_good:
  assumes inv: "parser_inv st" "\<not> halted st" and data: "data \<noteq> []"
    and desc: "state_info (ps_code st) = Some (Copy nx ch lim f)"
  shows "good_step a st data (parse_copy a st nx ch lim f data)"
  unfolding parse_copy_def using copy_desc [OF desc] data
  by (intro start_copy_good [OF inv] copy_data_good) auto

definition path_char :: "char \<Rightarrow> bool" where
  "path_char c \<longleftrightarrow> c \<noteq> CHR ''?'' \<and> c \<noteq> CHR '' ''"

lemma path_loop_spec:
  assumes "open_on F_PATH xs st"
  shows "\<exists>ret st' rest. path_loop a st data = Ok (ret, st', rest)
    \<and> (ret \<longrightarrow> (case rest of
          None \<Rightarrow> (\<exists>k n. \<not> a k n) \<and> same_frame st st' \<and> (\<exists>ys. open_on F_PATH ys st')
        | Some r \<Rightarrow> suffix r data \<and> ps_code st' = ST_ERROR))
    \<and> (\<not> ret \<longrightarrow> rest = Some (dropWhile path_char data) \<and> same_frame st st'
        \<and> open_on F_PATH (xs @ takeWhile path_char data) st')"
  using assms
proof (induction data arbitrary: xs st)
  case Nil
  then show ?case by auto
next
  case (Cons c data)
  show ?case
  proof (cases "path_char c")
    case True
    obtain rc st1 where ens: "ensure_buffer a st 1 2048 = Ok (rc, st1)"
      and full: "rc = E_FULL \<Longrightarrow> st1 = transite_state st ST_ERROR"
      and err: "rc = E_ERROR \<Longrightarrow> (\<exists>k n. \<not> a k n) \<and> same_frame st st1 \<and> open_on F_PATH xs st1"
      and ready: "rc = E_READY \<Longrightarrow> same_frame st st1 \<and> open_on F_PATH xs st1
        \<and> length xs + 1 < ps_buffer_cap st1"
      using ensure_buffer_open [OF Cons.prems, of a 1 2048] by blast
    show ?thesis
    proof (cases rc)
      case E_READY
      then obtain st2 where app: "buffer_append st1 [c] = Ok st2" "same_frame st st2"
        "open_on F_PATH (xs @ [c]) st2"
        using buffer_append_open [of F_PATH xs st1 "[c]"] ready same_frame_trans by fastforce
      then have "path_loop a st (c # data) = path_loop a st2 data"
        using True ens E_READY by (simp add: path_char_def)
      moreover obtain ret st' rest where "path_loop a st2 data = Ok (ret, st', rest)"
        "ret \<Longrightarrow> case rest of
            None \<Rightarrow> (\<exists>k n. \<not> a k n) \<and> same_frame st2 st' \<and> (\<exists>ys. open_on F_PATH ys st')
          | Some r \<Rightarrow> suffix r data \<and> ps_code st' = ST_ERROR"
        "\<not> ret \<Longrightarrow> rest = Some (dropWhile path_char data) \<and> same_frame st2 st'
          \<and> open_on F_PATH ((xs @ [c]) @ takeWhile path_char data) st'"
        using Cons.IH [OF app(3)] by blast
      ultimately show ?thesis
        using True same_frame_trans [OF app(2)]
        by (intro exI [of _ ret] exI [of _ st'] exI [of _ rest])
          (auto simp: suffix_Cons split: option.splits)
    next
      case E_FULL
      then show ?thesis using True ens full by (auto simp: path_char_def)
    next
      case E_ERROR
      then show ?thesis using True ens err by (auto simp: path_char_def)
    qed
  next
    case False
    then show ?thesis using Cons.prems by (auto simp: path_char_def)
  qed
qed

lemma path_data_good:
  assumes op: "open_on F_PATH xs st" and st: "\<not> ps_pending st" "ps_code st = ST_URI_PATH"
      "str_length (ps_body st) = 0" and data: "data \<noteq> []"
  shows "good_step a st data (path_data a st data)"
proof -
  obtain ret st1 rest where run: "path_loop a st data = Ok (ret, st1, rest)"
    and returned: "ret \<Longrightarrow> (case rest of
          None \<Rightarrow> (\<exists>k n. \<not> a k n) \<and> same_frame st st1 \<and> (\<exists>ys. open_on F_PATH ys st1)
        | Some r \<Rightarrow> suffix r data \<and> ps_code st1 = ST_ERROR)"
    and went: "\<not> ret \<Longrightarrow> rest = Some (dropWhile path_char data) \<and> same_frame st st1
        \<and> open_on F_PATH (xs @ takeWhile path_char data) st1"
    using path_loop_spec [OF op, of a data] by blast
  show ?thesis
  proof (cases ret)
    case True
    show ?thesis
    proof (cases rest)
      case None
      then obtain ys where "open_on F_PATH ys st1" "same_frame st st1" "\<exists>k n. \<not> a k n"
        using returned True by auto
      then show ?thesis
        using run True None st inv_copying [of F_PATH ys st1] by (simp add: path_data_def same_frame_def)
    next
      case (Some r)
      then show ?thesis
        using run True returned by (simp add: path_data_def parser_inv_def)
    qed
  next
    case False
    let ?rest = "dropWhile path_char data"
    have rest: "rest = Some ?rest" and frame: "same_frame st st1"
      and op1: "open_on F_PATH (xs @ takeWhile path_char data) st1" using went False by auto
    show ?thesis
    proof (cases ?rest)
      case Nil
      then show ?thesis
        using run False rest st data frame inv_copying [OF op1]
        by (simp add: path_data_def same_frame_def progress_def del: dropWhile_eq_Nil_conv)
    next
      case (Cons c cs)
      obtain st2 where fin: "buffer_terminate st1 = Ok st2" "same_frame st st2" "strings_closed st2"
        using buffer_terminate_closed [OF op1] same_frame_trans [OF frame] by blast
      have "suffix (c # cs) data" using suffix_dropWhile [of path_char data] Cons by simp
      then have "suffix cs data" "length cs < length data"
        using suffix_ConsD suffix_length_le by fastforce+
      then show ?thesis
        using run False rest Cons fin st(3)
        by (simp add: path_data_def progress_def inv_transite same_frame_def)
    qed
  qed
qed

lemma parse_uri_path_good:
  assumes inv: "parser_inv st" "\<not> halted st" and data: "data \<noteq> []" and code: "ps_code st = ST_URI_PATH"
  shows "good_step a st data (parse_uri_path a st data)"
  unfolding parse_uri_path_def using code data
  by (intro start_copy_good [OF inv] path_data_good) auto

subsection \<open>The body\<close>

text \<open>A call of the allocator for no bytes fails, as the C standard allows.\<close>

definition no_empty_block :: "sized_alloc \<Rightarrow> bool" where
  "no_empty_block a \<longleftrightarrow> (\<forall>k. \<not> a k 0)"

lemma body_copy_run:
  assumes op: "body_open st xs" and left: "length xs < unat (ps_content_length st)"
    and t: "ps_body st = \<lparr>str_value = Some (map Some xs @ t), str_length = length xs\<rparr>" and data: "data \<noteq> []"
  shows "body_copy st data = (let n = min (length data) (unat (ps_content_length st) - length xs) in
    Ok (st\<lparr>ps_body := \<lparr>str_value = Some (map Some (xs @ take n data) @ drop n t), str_length = length xs + n\<rparr>\<rparr>,
      Some (drop n data)))"
proof -
  let ?cl = "ps_content_length st"
  have len: "length xs + length t = Suc (unat ?cl)" using op t by (auto simp: body_open_def)
  have "length xs < 2 ^ 64" using left unsigned_less [of ?cl, where ?'a = nat] by simp
  then have nat_len: "unat (of_nat (length xs) :: 64 word) = length xs" by (simp add: unat_of_nat)
  have diff: "unat (?cl - of_nat (length xs)) = unat ?cl - length xs"
    using left nat_len unat_sub [of "of_nat (length xs)" ?cl] by (simp add: word_le_nat_alt)
  define n where "n = min (length data) (unat ?cl - length xs)"
  have n: "n \<noteq> 0" "n \<le> length t" "n \<le> length data" using data left len by (auto simp: n_def)
  then have "block_write (map Some xs @ t) (length xs) (take n data) = Ok (map Some (xs @ take n data) @ drop n t)"
    using block_write_open [of "take n data" t xs] by simp
  then show ?thesis using t diff n(1) by (simp add: body_copy_def n_def [symmetric] Let_def)
qed

lemma unat_neq_length: "w \<noteq> of_nat n \<Longrightarrow> n \<le> unat w \<Longrightarrow> n < unat w"
  using word_of_nat_eq_iff by (metis le_neq_implies_less word_nat_cases of_nat_unat ucast_id unat_of_nat)

lemma body_copy_good:
  assumes closed: "strings_closed st" and op: "body_open st xs" and st: "\<not> ps_pending st"
      "ps_code st = ST_BODY_DATA" and left: "ps_content_length st \<noteq> of_nat (length xs)" and data: "data \<noteq> []"
  shows "good_step a st data (body_copy st data)"
proof -
  let ?cl = "ps_content_length st"
  obtain t where t: "ps_body st = \<lparr>str_value = Some (map Some xs @ t), str_length = length xs\<rparr>"
    "length xs + length t = Suc (unat ?cl)" "t \<noteq> []" using op by (auto simp: body_open_def)
  have "length xs \<le> unat ?cl" using t(2,3) by (cases t) auto
  then have less: "length xs < unat ?cl" using unat_neq_length [OF left] by blast
  define n where "n = min (length data) (unat ?cl - length xs)"
  have n: "0 < n" "n < length t" "n \<le> length data" using data less t(2) by (auto simp: n_def)
  let ?st = "st\<lparr>ps_body := \<lparr>str_value = Some (map Some (xs @ take n data) @ drop n t),
      str_length = length xs + n\<rparr>\<rparr>"
  have run: "body_copy st data = Ok (?st, Some (drop n data))"
    using body_copy_run [OF op less t(1) data] by (simp only: Let_def n_def)
  have "body_open ?st (xs @ take n data)"
    using t(2) n(2,3) by (auto simp: body_open_def)
  then have "parser_inv ?st"
    using closed st
    by (auto simp: parser_inv_def strings_ok_def copying_def sub_ok_def body_ok_def strings_closed_def)
  moreover have "progress st data ?st (drop n data)"
    using n(1) data by (auto simp: progress_def suffix_drop)
  ultimately show ?thesis unfolding run by simp
qed

lemma parse_body_data_good:
  assumes inv: "parser_inv st" "\<not> halted st" and left: "body_left st" and data: "data \<noteq> []"
    and code: "ps_code st = ST_BODY_DATA" and zero: "no_empty_block a"
  shows "good_step a st data (parse_body_data a st data)"
proof -
  have closed: "strings_closed st"
    using inv_cases(1) [OF inv] strings_ok_closed code by (simp add: copying_def)
  have left: "ps_content_length st \<noteq> of_nat (str_length (ps_body st))" using left code by (simp add: body_left_def)
  show ?thesis
  proof (cases "ps_pending st")
    case True
    then have body: "str_length (ps_body st) = 0" using inv_cases(3) [OF inv] code by (simp add: body_ok_def)
    then have pos: "ps_content_length st > 0" using left by (simp add: word_neq_0_conv)
    let ?size = "unat (ps_content_length st + 1)"
    show ?thesis
    proof (cases "a (ps_allocs st) ?size")
      case True
      then have "ps_content_length st + 1 \<noteq> 0" using zero by (auto simp: no_empty_block_def)
      then have size: "?size = Suc (unat (ps_content_length st))" by (simp add: unatSuc add.commute [of _ 1])
      let ?st = "st\<lparr>ps_allocs := ps_allocs st + 1,
        ps_body := (ps_body st)\<lparr>str_value := Some (replicate ?size None)\<rparr>, ps_pending := False\<rparr>"
      have "body_open ?st []" using body size by (cases "ps_body st") (auto simp: body_open_def)
      moreover have "strings_closed ?st" using closed by (simp add: strings_closed_def)
      ultimately have "good_step a ?st data (body_copy ?st data)"
        using body_copy_good [of ?st "[]" data a] code data left body by simp
      then show ?thesis
        using True \<open>ps_pending st\<close> pos good_step_code [of st ?st] by (simp add: parse_body_data_def Let_def)
    next
      case False
      let ?st = "st\<lparr>ps_allocs := ps_allocs st + 1, ps_body := (ps_body st)\<lparr>str_value := None\<rparr>\<rparr>"
      have "parser_inv ?st" "\<not> halted ?st" "body_left ?st"
        using closed body code True left
        by (auto simp: parser_inv_def strings_ok_def copying_def sub_ok_def body_ok_def halted_def
            strings_closed_def body_left_def)
      then show ?thesis using False True pos by (auto simp: parse_body_data_def Let_def)
    qed
  next
    case False
    then obtain xs where xs: "body_open st xs" using inv_cases(3) [OF inv] code by (auto simp: body_ok_def)
    then have "str_length (ps_body st) = length xs" by (auto simp: body_open_def)
    then show ?thesis
      using body_copy_good [OF closed xs False code _ data] left False by (simp add: parse_body_data_def)
  qed
qed

subsection \<open>The loop\<close>

lemma sub_parse_good:
  assumes inv: "parser_inv st" "\<not> halted st" "body_left st" and data: "data \<noteq> []" and zero: "no_empty_block a"
  shows "good_step a st data (sub_parse a st data)"
proof (cases "state_info (ps_code st)")
  case None
  then show ?thesis using inv(2) by (cases "ps_code st") (auto simp: halted_def)
next
  case (Some d)
  have generic: "ps_code st \<in> {ST_INIT, ST_URI, ST_URI_PATH, ST_FIELD_NAME_INIT, ST_FIELD_VALUE, ST_BODY_DATA}"
    if "d = Generic"
    using that Some inv(2) inv_cases(4) [OF inv(1,2)] by (cases "ps_code st") (auto simp: halted_def)
  show ?thesis
  proof (cases d)
    case Generic
    then show ?thesis
      using generic [OF Generic] Some parse_init_good [OF inv(1) data] parse_uri_good [OF inv(1) data]
        parse_uri_path_good [OF inv(1,2) data] parse_field_name_init_good [OF inv(1,2) data]
        parse_field_value_good [OF inv(1,2) data] parse_body_data_good [OF inv data _ zero]
      by (auto simp: sub_parse_def)
  qed (use Some in \<open>simp_all add: sub_parse_def parse_literal_good [OF inv(1,2) data]
      parse_literal_ci_good [OF inv(1,2) data] parse_copy_good [OF inv(1,2) data]
      parse_ws_good [OF inv(1) data] parse_ignore_good [OF inv(1) data]\<close>)
qed

text \<open>After a step, and once a complete body is recognised, the state can be entered again.\<close>

definition ready :: "parser_state \<Rightarrow> bool" where
  "ready st \<longleftrightarrow> parser_inv st \<and> (halted st \<or> body_left st)"

lemma body_complete_ready: "parser_inv st \<Longrightarrow> ready (body_complete st)"
  by (auto simp: ready_def body_complete_def parser_inv_def strings_ok_def copying_def sub_ok_def
      body_ok_def halted_def body_left_def)

lemma body_complete_code:
  "ps_code (body_complete st) = (if ps_code st = ST_BODY_DATA
      \<and> ps_content_length st = of_nat (str_length (ps_body st)) then ST_DONE else ps_code st)"
  by (simp add: body_complete_def)

lemma halted_body_complete: "halted st \<Longrightarrow> halted (body_complete st)"
  by (simp add: halted_def body_complete_code)

text \<open>
  The loop returns: every step consumes a byte, or moves to a smaller rank, or ends it.
\<close>

lemma parse_next_buf_returns:
  assumes "ready st" and "\<not> halted st \<or> data = []" and zero: "no_empty_block a"
  shows "\<exists>st' ret. parse_next_buf a st data = Some (Ok (st', ret)) \<and> ready st'
    \<and> (case ret of None \<Rightarrow> \<not> halted st' \<and> (\<exists>k n. \<not> a k n) | Some rest \<Rightarrow> suffix rest data \<and> (rest = [] \<or> halted st'))"
  using assms(1,2)
proof (induction "(st, data)" arbitrary: st data
    rule: wf_induct_rule [OF wf_measures [of "[\<lambda>(st, d). length d, \<lambda>(st, d). rank (ps_code st)]"]])
  case (1 st data)
  show ?case
  proof (cases "data = []")
    case True
    then show ?thesis using "1.prems" by (subst parse_next_buf.simps) simp
  next
    case False
    then have inv: "parser_inv st" "\<not> halted st" "body_left st" using "1.prems" by (auto simp: ready_def)
    obtain st1 ret where step: "sub_parse a st data = Ok (st1, ret)" "parser_inv st1"
      and out: "case ret of None \<Rightarrow> \<not> halted st1 \<and> body_left st1 \<and> (\<exists>k n. \<not> a k n)
        | Some rest \<Rightarrow> progress st data st1 rest"
      using sub_parse_good [OF inv False zero] by (auto simp: good_step_def)
    let ?st = "body_complete st1"
    have rdy: "ready ?st" using body_complete_ready step(2) by blast
    show ?thesis
    proof (cases ret)
      case None
      then have "\<not> halted ?st" using out by (simp add: halted_def body_complete_code body_left_def)
      then show ?thesis using None step(1) False rdy out by (subst parse_next_buf.simps) simp
    next
      case (Some rest)
      then have prog: "progress st data st1 rest" using out by simp
      show ?thesis
      proof (cases "halted ?st")
        case True
        then show ?thesis
          using Some step(1) False rdy prog by (subst parse_next_buf.simps) (simp add: progress_def)
      next
        case nh: False
        have code: "ps_code ?st = ps_code st1" using nh by (auto simp: body_complete_code halted_def split: if_splits)
        have "\<not> halted st1" using nh halted_body_complete by blast
        then have "((?st, rest), (st, data)) \<in> measures [\<lambda>(st, d). length d, \<lambda>(st, d). rank (ps_code st)]"
          using prog suffix_length_le [of rest data] code by (auto simp: progress_def)
        from "1.hyps" [OF this rdy] nh
        obtain st2 ret2 where ih: "parse_next_buf a ?st rest = Some (Ok (st2, ret2))" "ready st2"
          "case ret2 of None \<Rightarrow> \<not> halted st2 \<and> (\<exists>k n. \<not> a k n)
            | Some r \<Rightarrow> suffix r rest \<and> (r = [] \<or> halted st2)" by blast
        have "parse_next_buf a st data = parse_next_buf a ?st rest"
          using Some step(1) False nh by (subst parse_next_buf.simps) simp
        moreover have "suffix rest data" using prog by (simp add: progress_def)
        ultimately show ?thesis
          using ih suffix_order.trans [of _ rest data] by (auto split: option.splits)
      qed
    qed
  qed
qed

subsection \<open>The end of a request\<close>

lemma get_str_range [simp]:
  "get_str f (st\<lparr>ps_range_begin := w\<rparr>) = get_str f st"
  "get_str f (st\<lparr>ps_range_end := w\<rparr>) = get_str f st"
  "get_str f (st\<lparr>ps_has_range := b\<rparr>) = get_str f st"
  "get_str f (st\<lparr>ps_range_text := s\<rparr>) = (if f = F_RANGE_TEXT then s else get_str f st)"
  by (cases f; simp)+

lemma cstring_text: "cstring (map Some xs @ Some NUL # t) = Ok (takeWhile (\<lambda>c. c \<noteq> NUL) xs)"
  by (induction xs) auto

text \<open>What finishing a request leaves alone.\<close>

lemma finish_range_ok:
  assumes "strings_closed st"
  shows "\<exists>st'. finish_range st = Ok st' \<and> strings_closed st' \<and> ps_code st' = ps_code st
    \<and> ps_pending st' = ps_pending st"
proof (cases "str_value (ps_range_text st)")
  case None
  then show ?thesis using assms by (simp add: finish_range_def)
next
  case (Some b)
  have "str_closed (get_str F_RANGE_TEXT st)" using assms by (simp only: strings_closed_def)
  then obtain xs where "holds_text (ps_range_text st) xs" using Some by (auto simp: str_closed_def)
  then obtain t where b: "b = map Some xs @ Some NUL # t" using Some by (auto simp: holds_text_def)
  show ?thesis
    using assms Some
    by (auto simp: finish_range_def b cstring_text Let_def strings_closed_def str_closed_def
        split: option.splits)
qed

lemma finish_request_ready:
  assumes "ready st" and "ps_code st = ST_DONE"
  shows "\<exists>st'. finish_request st = Ok st' \<and> ready st' \<and> ps_code st' = ST_DONE \<and> \<not> ps_pending st'"
proof -
  have "strings_closed st" "\<not> ps_pending st"
    using assms strings_ok_closed [of st] by (auto simp: ready_def parser_inv_def copying_def)
  then obtain st1 where st1: "finish_range st = Ok st1" "strings_closed st1" "ps_code st1 = ST_DONE"
    "\<not> ps_pending st1" using finish_range_ok [of st] assms(2) by auto
  then have "ready st1" "ready (st1\<lparr>ps_error := True\<rparr>)"
    by (auto simp: ready_def parser_inv_def strings_ok_def copying_def sub_ok_def body_ok_def halted_def
        strings_closed_def)
  then show ?thesis using st1 by (simp add: finish_request_def)
qed

subsection \<open>Properties\<close>

text \<open>The states a client reaches: it feeds buffers until the parser says it is done.\<close>

inductive fed :: "sized_alloc \<Rightarrow> parser_state \<Rightarrow> bool" for a where
  fed_new: "fed a new_state"
| fed_next: "\<lbrakk> fed a st; \<not> parser_state_done st; parser_process_next_buf a st buf = Some (Ok (st', n)) \<rbrakk>
    \<Longrightarrow> fed a st'"

lemma ready_empty: "ready st \<Longrightarrow> ready (st\<lparr>ps_empty := b\<rparr>)"
proof -
  have "strings_ok (st\<lparr>ps_empty := b\<rparr>) = strings_ok st" by (simp add: strings_ok_def copying_def)
  moreover have "sub_ok (st\<lparr>ps_empty := b\<rparr>) = sub_ok st"
    by (auto simp: sub_ok_def split: option.splits state_desc.splits)
  moreover have "body_open (st\<lparr>ps_empty := b\<rparr>) = body_open st" by (rule ext) (simp add: body_open_def)
  then have "body_ok (st\<lparr>ps_empty := b\<rparr>) = body_ok st" by (simp add: body_ok_def)
  ultimately show "ready st \<Longrightarrow> ready (st\<lparr>ps_empty := b\<rparr>)"
    by (simp add: ready_def parser_inv_def halted_def body_left_def)
qed

lemma ready_error: "ps_code st = ST_ERROR \<Longrightarrow> ready st"
  by (simp add: ready_def parser_inv_def halted_def)

lemma process_returns:
  assumes rdy: "ready st" "\<not> halted st" and zero: "no_empty_block a"
  shows "\<exists>st' n. parser_process_next_buf a st buf = Some (Ok (st', n)) \<and> ready st'
    \<and> (halted st' \<longrightarrow> parser_state_done st')
    \<and> (n = None \<longrightarrow> buf = None \<or> buf = Some [] \<or> (\<exists>k m. \<not> a k m))
    \<and> (\<forall>data k. buf = Some data \<longrightarrow> n = Some k \<longrightarrow> k \<le> length data \<and> (k < length data \<longrightarrow> parser_state_done st'))"
proof (cases "buf = None \<or> buf = Some []")
  case True
  then show ?thesis using rdy by (auto simp: parser_process_next_buf_def)
next
  case False
  then obtain data where data: "buf = Some data" "data \<noteq> []" by auto
  obtain st1 ret where run: "parse_next_buf a st data = Some (Ok (st1, ret))" "ready st1"
    and out: "case ret of None \<Rightarrow> \<not> halted st1 \<and> (\<exists>k n. \<not> a k n)
      | Some rest \<Rightarrow> suffix rest data \<and> (rest = [] \<or> halted st1)"
    using parse_next_buf_returns [OF rdy(1) disjI1 [OF rdy(2)] zero, of data] by blast
  show ?thesis
  proof (cases ret)
    case None
    then show ?thesis using data run out by (simp add: parser_process_next_buf_def)
  next
    case (Some rest)
    let ?st = "st1\<lparr>ps_empty := False\<rparr>"
    have rest: "rest = [] \<or> halted st1" using out Some by simp
    consider "ps_code st1 = ST_ERROR" | "ps_code st1 = ST_DONE" | "\<not> halted st1"
      by (auto simp: halted_def)
    then show ?thesis
    proof cases
      case 1
      then show ?thesis
        using data run(1) Some by (auto simp: parser_process_next_buf_def parser_state_done_def ready_error)
    next
      case 2
      then obtain st2 where "finish_request ?st = Ok st2" "ready st2" "ps_code st2 = ST_DONE" "\<not> ps_pending st2"
        using finish_request_ready [of ?st] ready_empty [OF run(2)] by auto
      then show ?thesis
        using data run(1) Some 2 by (auto simp: parser_process_next_buf_def parser_state_done_def)
    next
      case 3
      then have "\<not> halted ?st" "rest = []" using rest by (auto simp: halted_def)
      then show ?thesis
        using data run(1) Some 3 ready_empty [OF run(2)]
        by (auto simp: parser_process_next_buf_def halted_def)
    qed
  qed
qed

lemma fed_ready: "\<lbrakk> fed a st; no_empty_block a \<rbrakk> \<Longrightarrow> ready st \<and> (halted st \<longrightarrow> parser_state_done st)"
proof (induction rule: fed.induct)
  case fed_new
  then show ?case using new_state_inv by (simp add: ready_def)
next
  case (fed_next st buf st' n)
  then show ?case using process_returns [of st a buf] by auto
qed

text \<open>C8: The parse loop terminates and stays inside its memory. Whatever buffers were fed before, a
  call on a parser that is not done returns normally, provided the allocator gives no block for a
  request of 0 bytes: it consumes the whole buffer or is done, and it reports an error only for an
  empty buffer or when an allocation failed.\<close>

theorem parser_terminates_safely:
  assumes "no_empty_block a" and "fed a st" and "\<not> parser_state_done st"
  shows "\<exists>st' n. parser_process_next_buf a st buf = Some (Ok (st', n))
    \<and> (n = None \<longrightarrow> buf = None \<or> buf = Some [] \<or> (\<exists>k m. \<not> a k m))
    \<and> (\<forall>data k. buf = Some data \<longrightarrow> n = Some k \<longrightarrow> k \<le> length data \<and> (k < length data \<longrightarrow> parser_state_done st'))"
proof -
  have "ready st" "\<not> halted st" using fed_ready [OF assms(2,1)] assms(3) by auto
  then show ?thesis using process_returns [OF _ _ assms(1), of st buf] by blast
qed

theorem parser_terminates_safely_witness:
  "no_empty_block (\<lambda>k n. 0 < n) \<and> fed (\<lambda>k n. 0 < n) new_state \<and> \<not> parser_state_done new_state
    \<and> (\<exists>st' n. parser_process_next_buf (\<lambda>k n. 0 < n) new_state (Some ''GET /'') = Some (Ok (st', n)))"
proof -
  have "no_empty_block (\<lambda>k n. 0 < n)" by (simp add: no_empty_block_def)
  moreover have "fed (\<lambda>k n. 0 < n) new_state" by (rule fed_new)
  moreover have "\<not> parser_state_done new_state" by (simp add: parser_state_done_def new_state_def)
  ultimately show ?thesis
    using parser_terminates_safely [of "\<lambda>k n. 0 < n" new_state "Some ''GET /''"] by blast
qed

text \<open>The body of a request whose content length is \<open>2 ^ 64 - 1\<close>: the size of the block wraps to 0.\<close>

lemma body_block_wraps:
  assumes "ps_code st = ST_BODY_DATA" "ps_pending st" "ps_content_length st = - 1"
    "str_length (ps_body st) = 0" and "a (ps_allocs st) 0" and "data \<noteq> []"
  shows "parser_process_next_buf a st (Some data) = Some Undef"
proof -
  have "unat (- 1 :: 64 word) = 2 ^ 64 - 1" by (simp add: unsigned_minus_1_eq_mask mask_eq_exp_minus_1)
  moreover have "(0 :: 64 word) < - 1" by (simp add: word_gt_0)
  ultimately have "sub_parse a st data = Undef"
    using assms
    by (auto simp: sub_parse_def parse_body_data_def body_copy_def Let_def block_write_def min_def)
  then have "parse_next_buf a st data = Some Undef" using assms(6) by (subst parse_next_buf.simps) simp
  then show ?thesis using assms(6) by (simp add: parser_process_next_buf_def)
qed

text \<open>A client can make the parser write outside the body: the header announces \<open>2 ^ 64 - 1\<close> bytes, the
  block allocated has \<open>content_length + 1 = 0\<close> bytes, and the first byte of the body is stored in it.\<close>

theorem content_length_overflow:
  "\<exists>st n. parser_process_next_buf (\<lambda>k n. True) new_state
       (Some (''POST / x'' @ [CR, LF] @ ''content-length: 18446744073709551615'' @ [CR, LF, CR, LF])) = Some (Ok (st, n))
     \<and> \<not> parser_state_done st
     \<and> (\<forall>c. parser_process_next_buf (\<lambda>k n. True) st (Some [c]) = Some Undef)"
proof -
  have "case parser_process_next_buf (\<lambda>k n. True) new_state
       (Some (''POST / x'' @ [CR, LF] @ ''content-length: 18446744073709551615'' @ [CR, LF, CR, LF])) of
      Some (Ok (st, n)) \<Rightarrow> ps_code st = ST_BODY_DATA \<and> ps_pending st \<and> ps_content_length st = - 1
        \<and> str_length (ps_body st) = 0 \<and> \<not> parser_state_done st
    | _ \<Rightarrow> False" by code_simp
  then show ?thesis
    using body_block_wraps [where a = "\<lambda>k n. True"] by (fastforce split: option.splits result.splits)
qed

end
