(* ===== verification/HttpChunks.thy ===== *)
theory HttpChunks
  imports HttpSafety
begin

text \<open>
  The parser does not depend on how the input is cut into buffers: parsing two buffers one after
  the other gives the state that parsing their concatenation gives. Two states are compared up to
  the number of allocations made (a string that grows in two steps is reallocated more often) and
  the flag that says whether anything was parsed.
\<close>

subsection \<open>States up to bookkeeping\<close>

definition norm :: "parser_state \<Rightarrow> parser_state" where
  "norm st = st\<lparr>ps_allocs := 0, ps_empty := False\<rparr>"

definition tweak :: "nat \<Rightarrow> bool \<Rightarrow> parser_state \<Rightarrow> parser_state" where
  "tweak k e st = st\<lparr>ps_allocs := k, ps_empty := e\<rparr>"

lemma norm_eq_tweak: "norm u = norm v \<Longrightarrow> u = tweak (ps_allocs u) (ps_empty u) v"
  by (cases u; cases v) (simp add: norm_def tweak_def)

lemma norm_tweak [simp]: "norm (tweak k e st) = norm st"
  by (simp add: norm_def tweak_def)

lemma tweak_fields [simp]:
  "ps_code (tweak k e st) = ps_code st"
  "ps_pending (tweak k e st) = ps_pending st"
  "ps_sub_state (tweak k e st) = ps_sub_state st"
  "ps_fn_state (tweak k e st) = ps_fn_state st"
  "ps_buffer (tweak k e st) = ps_buffer st"
  "ps_buffer_cap (tweak k e st) = ps_buffer_cap st"
  "ps_content_length (tweak k e st) = ps_content_length st"
  "ps_body (tweak k e st) = ps_body st"
  "ps_host (tweak k e st) = ps_host st"
  "ps_path (tweak k e st) = ps_path st"
  "ps_range_text (tweak k e st) = ps_range_text st"
  "ps_error (tweak k e st) = ps_error st"
  "ps_allocs (tweak k e st) = k"
  by (simp_all add: tweak_def)

lemma get_str_tweak [simp]: "get_str f (tweak k e st) = get_str f st"
  by (simp add: tweak_def)

lemma tweak_updates [simp]:
  "(tweak k e st)\<lparr>ps_code := c\<rparr> = tweak k e (st\<lparr>ps_code := c\<rparr>)"
  "(tweak k e st)\<lparr>ps_pending := b\<rparr> = tweak k e (st\<lparr>ps_pending := b\<rparr>)"
  "(tweak k e st)\<lparr>ps_sub_state := n\<rparr> = tweak k e (st\<lparr>ps_sub_state := n\<rparr>)"
  "(tweak k e st)\<lparr>ps_fn_state := fn\<rparr> = tweak k e (st\<lparr>ps_fn_state := fn\<rparr>)"
  "(tweak k e st)\<lparr>ps_buffer := fo\<rparr> = tweak k e (st\<lparr>ps_buffer := fo\<rparr>)"
  "(tweak k e st)\<lparr>ps_buffer_cap := n\<rparr> = tweak k e (st\<lparr>ps_buffer_cap := n\<rparr>)"
  "(tweak k e st)\<lparr>ps_content_length := w\<rparr> = tweak k e (st\<lparr>ps_content_length := w\<rparr>)"
  "(tweak k e st)\<lparr>ps_keep_alive := b\<rparr> = tweak k e (st\<lparr>ps_keep_alive := b\<rparr>)"
  "(tweak k e st)\<lparr>ps_method := m\<rparr> = tweak k e (st\<lparr>ps_method := m\<rparr>)"
  "(tweak k e st)\<lparr>ps_body := s\<rparr> = tweak k e (st\<lparr>ps_body := s\<rparr>)"
  "(tweak k e st)\<lparr>ps_error := b\<rparr> = tweak k e (st\<lparr>ps_error := b\<rparr>)"
  "(tweak k e st)\<lparr>ps_range_begin := w\<rparr> = tweak k e (st\<lparr>ps_range_begin := w\<rparr>)"
  "(tweak k e st)\<lparr>ps_range_end := w\<rparr> = tweak k e (st\<lparr>ps_range_end := w\<rparr>)"
  "(tweak k e st)\<lparr>ps_has_range := b\<rparr> = tweak k e (st\<lparr>ps_has_range := b\<rparr>)"
  "(tweak k e st)\<lparr>ps_range_text := s\<rparr> = tweak k e (st\<lparr>ps_range_text := s\<rparr>)"
  "(tweak k e st)\<lparr>ps_allocs := n\<rparr> = tweak n e st"
  "(tweak k e st)\<lparr>ps_empty := b\<rparr> = tweak k b st"
  by (simp_all add: tweak_def)

lemma set_str_tweak [simp]: "set_str f s (tweak k e st) = tweak k e (set_str f s st)"
  by (cases f) (simp_all add: tweak_def)

lemma transite_tweak [simp]: "transite_state (tweak k e st) c = tweak k e (transite_state st c)"
  by (simp add: transite_state_def)

lemma reset_tweak [simp]: "reset_pending (tweak k e st) = tweak k e (reset_pending st)"
  by (simp add: reset_pending_def)

text \<open>Outcomes up to bookkeeping.\<close>

definition nout :: "sub_result \<Rightarrow> sub_result" where
  "nout r = rmap (map_prod norm id) r"

lemma nout_simps [simp]: "nout (Ok (st, r)) = Ok (norm st, r)" "nout Undef = Undef" "nout Error = Error"
  by (simp_all add: nout_def)

lemma norm_case [simp]: "map_prod norm id (case v of (st, x) \<Rightarrow> (tweak k e st, x)) = map_prod norm id v"
  by (cases v) simp

lemma nout_rmap [simp]: "nout (rmap (\<lambda>(st, r). (tweak k e st, r)) x) = nout x"
  by (cases x) (auto simp: nout_def split_beta)

text \<open>An allocator that never fails for a positive size, and gives nothing for 0 bytes.\<close>

abbreviation (input) heap :: sized_alloc where "heap \<equiv> \<lambda>k n. 0 < n"

lemma tweak_plain:
  "liter_from f (tweak k e st) nx fail lit data
    = rmap (\<lambda>(st, r). (tweak k e st, r)) (liter_from f st nx fail lit data)"
  "parse_ws (tweak k e st) nx n data = rmap (\<lambda>(st, r). (tweak k e st, r)) (parse_ws st nx n data)"
  "parse_ignore (tweak k e st) nx ch data = rmap (\<lambda>(st, r). (tweak k e st, r)) (parse_ignore st nx ch data)"
  "parse_connection (tweak k e st) data = rmap (\<lambda>(st, r). (tweak k e st, r)) (parse_connection st data)"
  "parse_content_length (tweak k e st) data b
    = rmap (\<lambda>(st, r). (tweak k e st, r)) (parse_content_length st data b)"
  "con_or_cl (tweak k e st) data = rmap (\<lambda>(st, r). (tweak k e st, r)) (con_or_cl st data)"
  by (simp_all add: liter_from_def parse_ws_def parse_ignore_def parse_connection_def
      parse_content_length_def con_or_cl_def Let_def split_beta split: list.splits)

lemma tweak_body_copy:
  "body_copy (tweak k e st) data = rmap (\<lambda>(st, r). (tweak k e st, r)) (body_copy st data)"
  unfolding body_copy_def Let_def tweak_fields
  by (rule if_cong [THEN trans, rotated 3, OF if_distrib [of "rmap _", symmetric], OF refl])
    (simp_all add: rmap_rbind rbind_assoc split: option.splits)

lemma tweak_init: "data \<noteq> [] \<Longrightarrow>
    parse_init (tweak k e st) data = rmap (\<lambda>(st, r). (tweak k e st, r)) (parse_init st data)"
  by (cases data) auto

lemma tweak_uri: "data \<noteq> [] \<Longrightarrow>
    parse_uri (tweak k e st) data = rmap (\<lambda>(st, r). (tweak k e st, r)) (parse_uri st data)"
  by (cases data) auto

lemma tweak_field_value:
  "parse_field_value (tweak k e st) data = rmap (\<lambda>(st, r). (tweak k e st, r)) (parse_field_value st data)"
  by (auto simp: parse_field_value_def Let_def tweak_plain split: field_name_state.splits)

lemma tweak_field_name_init: "data \<noteq> [] \<Longrightarrow>
    parse_field_name_init (tweak k e st) data
    = rmap (\<lambda>(st, r). (tweak k e st, r)) (parse_field_name_init st data)"
  by (cases data) (simp_all add: Let_def tweak_plain)

lemma allocs_outward:
  "set_str f s (st\<lparr>ps_allocs := n\<rparr>) = (set_str f s st)\<lparr>ps_allocs := n\<rparr>"
  "(st\<lparr>ps_allocs := n\<rparr>)\<lparr>ps_buffer_cap := c\<rparr> = (st\<lparr>ps_buffer_cap := c\<rparr>)\<lparr>ps_allocs := n\<rparr>"
  "tweak k e (st\<lparr>ps_allocs := n\<rparr>) = tweak k e st"
  by (cases f) (simp_all add: tweak_def)

lemma init_buffer_tweak:
  "init_buffer heap (tweak k e st) f lim = map_prod id (tweak (Suc k) e) (init_buffer heap st f lim)"
  by (simp add: init_buffer_def Let_def allocs_outward)

lemma ensure_buffer_tweak:
  "\<exists>k'. ensure_buffer heap (tweak k e st) n lim
    = rmap (\<lambda>(rc, x). (rc, tweak k' e x)) (ensure_buffer heap st n lim)"
proof (cases "ps_buffer st")
  case (Some f)
  let ?need = "str_length (get_str f st) + n + 1"
  show ?thesis
  proof (cases "?need > ps_buffer_cap st \<and> \<not> double_to (ps_buffer_cap st) ?need > lim + 1")
    case True
    then show ?thesis
      using Some by (intro exI [of _ "Suc k"]) (auto simp: ensure_buffer_def Let_def allocs_outward)
  next
    case False
    then show ?thesis
      using Some by (intro exI [of _ k]) (auto simp: ensure_buffer_def Let_def allocs_outward)
  qed
qed (simp add: ensure_buffer_def)

lemma buffer_append_tweak: "buffer_append (tweak k e st) d = rmap (tweak k e) (buffer_append st d)"
  by (simp add: buffer_append_def rmap_rbind rbind_assoc split: option.splits)

lemma buffer_terminate_tweak: "buffer_terminate (tweak k e st) = rmap (tweak k e) (buffer_terminate st)"
  by (simp add: buffer_terminate_def rmap_rbind rbind_assoc split: option.splits)

lemma copy_term_tweak: "copy_term (tweak k e st) nx r = rmap (\<lambda>(st, r). (tweak k e st, r)) (copy_term st nx r)"
  by (simp add: copy_term_def buffer_terminate_tweak rmap_rbind rbind_assoc)

lemma copy_term_norm: "norm u = norm v \<Longrightarrow> nout (copy_term u nx r) = nout (copy_term v nx r)"
  by (subst norm_eq_tweak [of u v]) (simp_all add: copy_term_tweak)

lemma copy_data_norm: "nout (copy_data heap (tweak k e st) nx ch lim data) = nout (copy_data heap st nx ch lim data)"
proof -
  obtain k' where k': "ensure_buffer heap (tweak k e st) (length (takeWhile (\<lambda>c. c \<noteq> ch) data)) lim
    = rmap (\<lambda>(rc, x). (rc, tweak k' e x)) (ensure_buffer heap st (length (takeWhile (\<lambda>c. c \<noteq> ch) data)) lim)"
    using ensure_buffer_tweak by blast
  show ?thesis
    by (cases "ensure_buffer heap st (length (takeWhile (\<lambda>c. c \<noteq> ch) data)) lim")
      (auto simp: copy_data_def Let_def k' buffer_append_tweak copy_term_tweak rbind_assoc rmap_rbind nout_def
        split: ensured.splits prod.splits)
qed

lemma parse_copy_norm:
  "nout (parse_copy heap (tweak k e st) nx ch lim f data) = nout (parse_copy heap st nx ch lim f data)"
  by (cases "init_buffer heap st f lim")
    (auto simp: parse_copy_def init_buffer_tweak copy_data_norm)

lemma path_loop_tweak:
  "\<exists>k'. path_loop heap (tweak k e st) data = rmap (\<lambda>(b, x, r). (b, tweak k' e x, r)) (path_loop heap st data)"
proof (induction data arbitrary: k st)
  case (Cons c data)
  obtain k' where k': "ensure_buffer heap (tweak k e st) 1 2048
    = rmap (\<lambda>(rc, x). (rc, tweak k' e x)) (ensure_buffer heap st 1 2048)"
    using ensure_buffer_tweak by blast
  show ?case
  proof (cases "c \<noteq> CHR ''?'' \<and> c \<noteq> CHR '' ''")
    case True
    note c = True
    show ?thesis
    proof (cases "ensure_buffer heap st 1 2048")
      case (Ok p)
      obtain rc x where p: "p = (rc, x)" by force
      show ?thesis
      proof (cases rc)
        case E_READY
        show ?thesis
        proof (cases "buffer_append x [c]")
          case (Ok y)
          then show ?thesis
            using Cons.IH [of k' y] c \<open>ensure_buffer heap st 1 2048 = Ok p\<close> p E_READY k'
            by (simp add: buffer_append_tweak)
        qed (use c \<open>ensure_buffer heap st 1 2048 = Ok p\<close> p E_READY k' in \<open>simp_all add: buffer_append_tweak\<close>)
      qed (use c Ok p k' in auto)
    qed (use c k' in auto)
  next
    case False
    then show ?thesis by auto
  qed
qed auto

lemma path_data_norm: "nout (path_data heap (tweak k e st) data) = nout (path_data heap st data)"
proof -
  obtain k' where k': "path_loop heap (tweak k e st) data
      = rmap (\<lambda>(b, x, r). (b, tweak k' e x, r)) (path_loop heap st data)"
    using path_loop_tweak by blast
  have fin: "nout (rbind (buffer_terminate (tweak k' e x)) (\<lambda>st. Ok (transite_state st c, r)))
    = nout (rbind (buffer_terminate x) (\<lambda>st. Ok (transite_state st c, r)))" for x c r
    by (cases "buffer_terminate x") (simp_all add: buffer_terminate_tweak)
  show ?thesis
    by (cases "path_loop heap st data")
      (auto simp: path_data_def k' fin split: option.splits list.splits)
qed

lemma parse_uri_path_norm: "nout (parse_uri_path heap (tweak k e st) data) = nout (parse_uri_path heap st data)"
  by (cases "init_buffer heap st F_PATH 2048")
    (auto simp: parse_uri_path_def init_buffer_tweak path_data_norm)

lemma body_copy_norm: "norm u = norm v \<Longrightarrow> nout (body_copy u data) = nout (body_copy v data)"
  by (subst norm_eq_tweak [of u v]) (simp_all add: tweak_body_copy)

lemma parse_body_data_norm: "nout (parse_body_data heap (tweak k e st) data) = nout (parse_body_data heap st data)"
proof -
  have drop_allocs: "norm (x\<lparr>ps_allocs := n, ps_body := b\<rparr>) = norm (x\<lparr>ps_body := b\<rparr>)"
    "norm (x\<lparr>ps_body := b, ps_pending := p\<rparr>) = norm (x\<lparr>ps_allocs := n, ps_body := b, ps_pending := p\<rparr>)"
    for x n b p by (simp_all add: norm_def)
  show ?thesis
    by (auto simp: parse_body_data_def Let_def tweak_body_copy drop_allocs(1)
        intro!: body_copy_norm drop_allocs(2))
qed

lemma sub_parse_norm:
  assumes "norm u = norm v" and "data \<noteq> []"
  shows "nout (sub_parse heap u data) = nout (sub_parse heap v data)"
proof -
  have "nout (sub_parse heap (tweak k e v) data) = nout (sub_parse heap v data)" for k e
    unfolding sub_parse_def
    by (simp add: parse_literal_def parse_literal_ci_def tweak_plain tweak_init tweak_uri
        tweak_field_value tweak_field_name_init parse_copy_norm parse_uri_path_norm
        parse_body_data_norm assms(2) split: option.splits state_desc.splits state_code.splits)
  then show ?thesis using norm_eq_tweak [OF assms(1)] by metis
qed

text \<open>Two states are equivalent when they differ in bookkeeping only, or when both are the error
  state, whose strings are not looked at any more.\<close>

definition equiv_state :: "parser_state \<Rightarrow> parser_state \<Rightarrow> bool" where
  "equiv_state u v \<longleftrightarrow> ps_code u = ST_ERROR \<and> ps_code v = ST_ERROR \<or> norm u = norm v"

lemma norm_eq_fields:
  assumes "norm u = norm v"
  shows "ps_code u = ps_code v" "ps_content_length u = ps_content_length v" "ps_body u = ps_body v"
    "ps_pending u = ps_pending v" "ps_fn_state u = ps_fn_state v" "halted u = halted v" "norm (body_complete u) = norm (body_complete v)"
proof -
  obtain k e where u: "u = tweak k e v" using norm_eq_tweak [OF assms] by blast
  show "ps_code u = ps_code v" "ps_content_length u = ps_content_length v" "ps_body u = ps_body v"
    "ps_pending u = ps_pending v" "ps_fn_state u = ps_fn_state v" "halted u = halted v" "norm (body_complete u) = norm (body_complete v)"
    unfolding u by (simp_all add: halted_def body_complete_def)
qed

subsection \<open>Cutting the input of a sub-parser\<close>

text \<open>
  A sub-parser meets the end of a first buffer in one of three ways: it stops before it, with the
  same result for any continuation; it finishes exactly there; or it stays in its state and
  continues with the second buffer as if there had been no cut.
\<close>

definition same_out :: "sub_result \<Rightarrow> sub_result \<Rightarrow> bool" where
  "same_out r1 r2 \<longleftrightarrow> nout r1 = nout r2
     \<or> (\<exists>u v p q. r1 = Ok (u, Some p) \<and> r2 = Ok (v, Some q) \<and> ps_code u = ST_ERROR \<and> ps_code v = ST_ERROR)"

lemma same_out_refl [simp]: "same_out r r"
  by (simp add: same_out_def)

definition chunked :: "(parser_state \<Rightarrow> string \<Rightarrow> sub_result) \<Rightarrow> parser_state \<Rightarrow> string \<Rightarrow> string \<Rightarrow> bool" where
  "chunked h st s1 s2 \<longleftrightarrow> (\<exists>x r. h st s1 = Ok (x, Some r)
     \<and> (r \<noteq> [] \<longrightarrow> h st (s1 @ s2) = Ok (x, Some (r @ s2)))
     \<and> (r = [] \<longrightarrow> h st (s1 @ s2) = Ok (x, Some s2)
          \<or> ps_code x = ps_code st \<and> (\<not> ps_pending st \<longrightarrow> \<not> ps_pending x \<and> ps_fn_state x = ps_fn_state st)
            \<and> body_complete x = x \<and> same_out (h st (s1 @ s2)) (h x s2)))"

lemma chunked_stop: "\<lbrakk> h st s1 = Ok (x, Some r); r \<noteq> []; h st (s1 @ s2) = Ok (x, Some (r @ s2)) \<rbrakk> \<Longrightarrow> chunked h st s1 s2"
  by (simp add: chunked_def)

lemma chunked_end: "\<lbrakk> h st s1 = Ok (x, Some r); h st (s1 @ s2) = Ok (x, Some (r @ s2)) \<rbrakk> \<Longrightarrow> chunked h st s1 s2"
  by (auto simp: chunked_def)

lemma chunked_more:
  "\<lbrakk> h st s1 = Ok (x, Some []); ps_code x = ps_code st;
     \<not> ps_pending st \<Longrightarrow> \<not> ps_pending x \<and> ps_fn_state x = ps_fn_state st; body_complete x = x;
     same_out (h st (s1 @ s2)) (h x s2) \<rbrakk> \<Longrightarrow> chunked h st s1 s2"
  by (simp add: chunked_def)

lemma not_body_complete [simp]: "ps_code x \<noteq> ST_BODY_DATA \<Longrightarrow> body_complete x = x"
  by (simp add: body_complete_def)

lemma dropWhile_cut:
  "dropWhile P (s1 @ s2) = (if dropWhile P s1 = [] then dropWhile P s2 else dropWhile P s1 @ s2)"
  by (induction s1) auto

lemma takeWhile_cut:
  "takeWhile P (s1 @ s2) = (if dropWhile P s1 = [] then s1 @ takeWhile P s2 else takeWhile P s1)"
  by (induction s1) auto

lemma takeWhile_grows: "\<exists>d. takeWhile P (s1 @ s2) = takeWhile P s1 @ d"
  by (induction s1) auto

lemma takeWhile_all: "dropWhile P s = [] \<Longrightarrow> takeWhile P s = s"
  by (induction s) (auto split: if_splits)

lemma liter_loop_append:
  "liter_loop f lit k (s1 @ s2) = (case liter_loop f lit k s1 of (d, k1, r) \<Rightarrow>
     if r \<noteq> [] then (d, k1, r @ s2) else liter_loop f lit k1 s2)"
  by (induction f lit k s1 rule: liter_loop.induct) auto

lemma liter_loop_differs: "liter_loop f lit k s = (True, k1, r) \<Longrightarrow> r \<noteq> []"
  by (induction f lit k s rule: liter_loop.induct) (auto split: if_splits)

lemma liter_loop_full: "s \<noteq> [] \<Longrightarrow> liter_loop f lit (length lit) s = (False, length lit, s)"
  by (cases s) auto

lemma liter_chunked:
  assumes "ps_sub_state st < length lit" and "\<not> ps_pending st" and "ps_code st \<noteq> ST_BODY_DATA" and "s2 \<noteq> []"
  shows "chunked (\<lambda>st. liter_from f (reset_pending st) nx fail lit) st s1 s2"
proof -
  obtain d k r where run: "liter_loop f lit (ps_sub_state st) s1 = (d, k, r)" by (metis prod_cases3)
  have reset: "reset_pending st = st" "reset_pending (st\<lparr>ps_sub_state := k\<rparr>) = st\<lparr>ps_sub_state := k\<rparr>"
    using assms(2) by (simp_all add: reset_pending_def)
  have spec: "k \<le> length lit" "\<not> d \<Longrightarrow> k < length lit \<Longrightarrow> r = []"
    using liter_loop_spec [OF run less_imp_le [OF assms(1)]] by blast+
  have differs: "d \<Longrightarrow> r \<noteq> []" using run liter_loop_differs [of f lit "ps_sub_state st" s1 k r] by simp
  consider "r \<noteq> []" | "r = []" "\<not> d" "k = length lit" | "r = []" "\<not> d" "k < length lit"
    using spec differs by fastforce
  then show ?thesis
  proof cases
    case 1
    then have "\<not> d \<Longrightarrow> k = length lit" using spec by fastforce
    then show ?thesis
      using 1 run reset assms(1)
      by (intro chunked_end [of _ _ _ "transite_state (st\<lparr>ps_sub_state := k\<rparr>) (if d then fail else nx)" r])
        (auto simp: liter_from_def liter_loop_append Let_def)
  next
    case 2
    then show ?thesis
      using run reset assms(1,4)
      by (intro chunked_end [of _ _ _ "transite_state (st\<lparr>ps_sub_state := k\<rparr>) nx" "[]"])
        (auto simp: liter_from_def liter_loop_append liter_loop_full)
  next
    case 3
    then show ?thesis
      using run reset assms(1,3)
      by (intro chunked_more [of _ _ _ "st\<lparr>ps_sub_state := k\<rparr>"])
        (auto simp: liter_from_def liter_loop_append split: prod.splits)
  qed
qed

lemma reset_idem [simp]: "reset_pending (reset_pending st) = reset_pending st"
  by (simp add: reset_pending_def)

lemma chunked_reset:
  "chunked (\<lambda>st. g (reset_pending st)) (reset_pending st) s1 s2 \<Longrightarrow> chunked (\<lambda>st. g (reset_pending st)) st s1 s2"
  unfolding chunked_def by fastforce

lemma literal_chunked:
  assumes "parser_inv st" "\<not> halted st" "state_info (ps_code st) = Some (Liter nx lit)" "s2 \<noteq> []"
  shows "chunked (\<lambda>st. parse_literal st nx lit) st s1 s2"
proof -
  have "ps_sub_state (reset_pending st) < length lit"
    using reset_sub [OF inv_cases(2) [OF assms(1,2)], of lit nx] liter_desc [OF assms(3)] assms(3) by blast
  moreover have "ps_code st \<noteq> ST_BODY_DATA" using assms(3) by auto
  ultimately have "chunked (\<lambda>st. liter_from (\<lambda>c. c) (reset_pending st) nx ST_ERROR lit) (reset_pending st) s1 s2"
    using assms(4) by (intro liter_chunked) simp_all
  then show ?thesis
    unfolding parse_literal_def by (rule chunked_reset [where g = "\<lambda>st. liter_from (\<lambda>c. c) st nx ST_ERROR lit"])
qed

lemma literal_ci_chunked:
  assumes "parser_inv st" "\<not> halted st" "state_info (ps_code st) = Some (Liter_ic nx fail lit)" "s2 \<noteq> []"
  shows "chunked (\<lambda>st. parse_literal_ci st nx fail lit) st s1 s2"
proof -
  have "ps_sub_state (reset_pending st) < length lit"
    using reset_sub [OF inv_cases(2) [OF assms(1,2)], of lit nx fail] liter_ic_desc [OF assms(3)] assms(3) by blast
  moreover have "ps_code st \<noteq> ST_BODY_DATA" using assms(3) by auto
  ultimately have "chunked (\<lambda>st. liter_from lower (reset_pending st) nx fail lit) (reset_pending st) s1 s2"
    using assms(4) by (intro liter_chunked) simp_all
  then show ?thesis
    unfolding parse_literal_ci_def by (rule chunked_reset [where g = "\<lambda>st. liter_from lower st nx fail lit"])
qed

lemma ignore_chunked:
  assumes "ps_code st \<noteq> ST_BODY_DATA"
  shows "chunked (\<lambda>st. parse_ignore st nx ch) st s1 s2"
proof (cases "dropWhile (\<lambda>c. c \<noteq> ch) s1 = []")
  case True
  then have "dropWhile (\<lambda>c. c \<noteq> ch) (s1 @ s2) = dropWhile (\<lambda>c. c \<noteq> ch) s2"
    by (simp add: dropWhile_cut del: dropWhile_eq_Nil_conv)
  then show ?thesis using True assms by (intro chunked_more [of _ _ _ st]) (simp_all add: parse_ignore_def)
next
  case False
  then have "dropWhile (\<lambda>c. c \<noteq> ch) (s1 @ s2) = dropWhile (\<lambda>c. c \<noteq> ch) s1 @ s2"
    by (simp add: dropWhile_cut del: dropWhile_eq_Nil_conv)
  then show ?thesis using False by (intro chunked_end) (simp_all add: parse_ignore_def)
qed

lemma ws_chunked:
  assumes code: "ps_code st \<noteq> ST_BODY_DATA"
  shows "chunked (\<lambda>st. parse_ws st nx n) st s1 s2"
proof -
  define st1 where "st1 = (if ps_pending st then st\<lparr>ps_sub_state := n, ps_pending := False\<rparr> else st)"
  have run: "parse_ws st nx n d = (let x = st1\<lparr>ps_sub_state := ps_sub_state st1 - length (takeWhile is_ws d)\<rparr>;
      rest = dropWhile is_ws d in
      if rest \<noteq> []
      then Ok (transite_state x (if ps_sub_state x > 0 then ST_ERROR else nx), Some rest)
      else Ok (x, Some rest))" for d
    by (simp add: parse_ws_def st1_def Let_def)
  have st1: "\<not> ps_pending st1" "ps_code st1 = ps_code st" "ps_fn_state st1 = ps_fn_state st"
    by (auto simp: st1_def)
  show ?thesis
  proof (cases "dropWhile is_ws s1 = []")
    case True
    let ?x = "st1\<lparr>ps_sub_state := ps_sub_state st1 - length s1\<rparr>"
    have "parse_ws ?x nx n s2 = parse_ws st nx n (s1 @ s2)"
      using True st1(1) unfolding run
      by (simp add: parse_ws_def Let_def dropWhile_cut takeWhile_cut del: dropWhile_eq_Nil_conv)
    moreover have "parse_ws st nx n s1 = Ok (?x, Some [])"
      using True takeWhile_all [OF True] by (simp add: run Let_def del: dropWhile_eq_Nil_conv takeWhile_eq_all_conv)
    ultimately show ?thesis using st1 code by (intro chunked_more [of _ _ _ ?x]) simp_all
  next
    case False
    then show ?thesis
      by (intro chunked_end)
        (simp_all add: run Let_def dropWhile_cut takeWhile_cut del: dropWhile_eq_Nil_conv)
  qed
qed

lemma connection_chunked:
  assumes "ps_sub_state st < 5" and "ps_code st = ST_FIELD_VALUE" and "s2 \<noteq> []"
  shows "chunked parse_connection st s1 s2"
proof -
  obtain d k r where run: "liter_loop (\<lambda>c. c) ''close'' (ps_sub_state st) s1 = (d, k, r)" by (metis prod_cases3)
  have spec: "k \<le> 5" using liter_loop_spec [OF run] assms(1) by simp
  have full: "liter_loop (\<lambda>c. c) ''close'' 5 s2 = (False, 5, s2)"
    using liter_loop_full [OF assms(3), of "\<lambda>c. c" "''close''"] by (simp add: eval_nat_numeral)
  consider "k = 5" | "k < 5" "r \<noteq> []" | "k < 5" "r = []" using spec by linarith
  then show ?thesis
  proof cases
    case 1
    then show ?thesis
      using run full
      by (intro chunked_end [of _ _ _ "transite_state (st\<lparr>ps_sub_state := k, ps_keep_alive := False\<rparr>) ST_FIELD_LINE_END" r])
        (auto simp: parse_connection_def liter_loop_append)
  next
    case 2
    then show ?thesis
      using run
      by (intro chunked_end [of _ _ _ "transite_state (st\<lparr>ps_sub_state := k\<rparr>) ST_FIELD_NOT_INST" r])
        (auto simp: parse_connection_def liter_loop_append)
  next
    case 3
    then show ?thesis
      using run assms(2)
      by (intro chunked_more [of _ _ _ "st\<lparr>ps_sub_state := k\<rparr>"])
        (auto simp: parse_connection_def liter_loop_append split: prod.splits)
  qed
qed

lemma field_value_reset:
  "parse_field_value st d = (if ps_fn_state st = FN_CL then parse_content_length (reset_pending st) d (ps_pending st)
     else parse_field_value (reset_pending st) d)"
  by (simp add: parse_field_value_def Let_def split: field_name_state.splits)

lemma content_length_chunked:
  assumes fn: "ps_fn_state st = FN_CL" and code: "ps_code st = ST_FIELD_VALUE"
  shows "chunked parse_field_value st s1 s2"
proof -
  define st1 where "st1 = (if ps_pending st then (reset_pending st)\<lparr>ps_content_length := 0\<rparr> else reset_pending st)"
  have run: "parse_field_value st d
    = (let x = st1\<lparr>ps_content_length := foldl add_digit (ps_content_length st1) (takeWhile is_digit d)\<rparr>;
           rest = dropWhile is_digit d
       in if rest \<noteq> [] then Ok (transite_state x ST_FIELD_LINE_END, Some rest) else Ok (x, Some rest))" for d
    using fn by (simp add: field_value_reset [of st] parse_content_length_def st1_def Let_def)
  have st1: "ps_code st1 = ps_code st" "\<not> ps_pending st1" "ps_fn_state st1 = ps_fn_state st"
    "reset_pending st1 = st1"
    by (auto simp: st1_def reset_pending_def)
  show ?thesis
  proof (cases "dropWhile is_digit s1 = []")
    case True
    let ?x = "st1\<lparr>ps_content_length := foldl add_digit (ps_content_length st1) s1\<rparr>"
    have "reset_pending ?x = ?x" using st1(2) by (simp add: reset_pending_def)
    then have "parse_field_value st (s1 @ s2) = parse_field_value ?x s2"
      using True st1 fn unfolding run
      by (simp add: field_value_reset [of ?x] parse_content_length_def Let_def dropWhile_cut takeWhile_cut
          del: dropWhile_eq_Nil_conv)
    moreover have "parse_field_value st s1 = Ok (?x, Some [])"
      using True takeWhile_all [OF True]
      by (simp add: run Let_def del: dropWhile_eq_Nil_conv takeWhile_eq_all_conv)
    ultimately show ?thesis using st1 code by (intro chunked_more [of _ _ _ ?x]) simp_all
  next
    case False
    then show ?thesis
      by (intro chunked_end) (simp_all add: run Let_def dropWhile_cut takeWhile_cut del: dropWhile_eq_Nil_conv)
  qed
qed

lemma field_value_chunked:
  assumes inv: "parser_inv st" "\<not> halted st" and code: "ps_code st = ST_FIELD_VALUE" and s: "s1 \<noteq> []" "s2 \<noteq> []"
  shows "chunked parse_field_value st s1 s2"
proof (cases "ps_fn_state st")
  case FN_CONN
  let ?st = "reset_pending st"
  have "ps_sub_state ?st < 5"
    using inv_cases(2) [OF inv] code FN_CONN by (auto simp: sub_ok_def reset_pending_def)
  then have conn: "chunked parse_connection ?st s1 s2"
    using connection_chunked [of ?st s2 s1] code s(2) by simp
  have "\<not> ps_pending x \<Longrightarrow> ps_fn_state x = FN_CONN \<Longrightarrow> parse_field_value x d = parse_connection x d" for x d
    by (simp add: parse_field_value_def reset_pending_def)
  moreover have "parse_field_value st d = parse_connection ?st d" for d
    using FN_CONN by (simp add: parse_field_value_def Let_def)
  ultimately show ?thesis
    using conn FN_CONN unfolding chunked_def by fastforce
next
  case FN_CL
  then show ?thesis using content_length_chunked code by blast
qed (use s in \<open>auto simp: chunked_def parse_field_value_def Let_def\<close>)

lemma con_loop_append:
  "con_loop k (s1 @ s2) = (case con_loop k s1 of (d, k1, r) \<Rightarrow>
     if d \<or> r \<noteq> [] then (d, k1, r @ s2) else con_loop k1 s2)"
  by (induction k s1 rule: con_loop.induct) auto

lemma con_or_cl_chunked:
  assumes "ps_code st = ST_FIELD_NAME_INIT"
  shows "chunked con_or_cl st s1 s2"
proof -
  obtain d k r where run: "con_loop (ps_sub_state st) s1 = (d, k, r)" by (metis prod_cases3)
  consider "d" | "\<not> d" "r = []" | c cs where "\<not> d" "r = c # cs" by (cases r) auto
  then show ?thesis
  proof cases
    case 1
    then show ?thesis
      using run by (intro chunked_end) (simp_all add: con_or_cl_def con_loop_append)
  next
    case 2
    then show ?thesis
      using run assms
      by (intro chunked_more [of _ _ _ "st\<lparr>ps_sub_state := k\<rparr>"])
        (simp_all add: con_or_cl_def con_loop_append split: prod.splits)
  next
    case 3
    then have "con_loop (ps_sub_state st) (s1 @ s2) = (False, k, c # cs @ s2)"
      using run by (simp add: con_loop_append)
    then show ?thesis
      using run 3 by (simp add: chunked_def con_or_cl_def Let_def)
  qed
qed

lemma field_name_init_chunked:
  assumes inv: "parser_inv st" "\<not> halted st" and code: "ps_code st = ST_FIELD_NAME_INIT"
    and s: "s1 \<noteq> []" "s2 \<noteq> []"
  shows "chunked parse_field_name_init st s1 s2"
proof -
  obtain c cs where c: "s1 = c # cs" using s(1) by (cases s1) auto
  define st1 where "st1 = (if ps_pending st then st\<lparr>ps_fn_state := FN_UNKNOWN, ps_pending := False\<rparr> else st)"
  let ?st2 = "st1\<lparr>ps_fn_state := FN_CON_OR_CL, ps_sub_state := 0\<rparr>"
  have st1: "ps_code st1 = ST_FIELD_NAME_INIT" "\<not> ps_pending st1"
    "ps_fn_state st1 = FN_CON_OR_CL \<or> ps_pending st \<and> ps_fn_state st1 = FN_UNKNOWN"
    using code inv_cases(2) [OF inv] by (auto simp: st1_def sub_ok_def)
  have cont: "parse_field_name_init x s2 = con_or_cl x s2"
    if "\<not> ps_pending x" "ps_fn_state x = FN_CON_OR_CL" for x
    using that s(2) by (cases s2) simp_all
  consider "ps_fn_state st1 = FN_CON_OR_CL" | "ps_pending st" "ps_fn_state st1 = FN_UNKNOWN" "lower c = CHR ''c''"
    | "ps_fn_state st1 = FN_UNKNOWN" "lower c \<noteq> CHR ''c''" using st1(3) by blast
  then show ?thesis
  proof cases
    case 1
    then have "parse_field_name_init st (c # d) = con_or_cl st1 (c # d)" for d
      by (simp add: st1_def [symmetric])
    then show ?thesis
      using con_or_cl_chunked [OF st1(1), of s1 s2] cont st1 1 code
      unfolding chunked_def c by (fastforce simp: st1_def)
  next
    case 2
    have "parse_field_name_init st (c # d) = con_or_cl ?st2 (c # d)" for d
      using 2(2,3) by (simp add: st1_def [symmetric])
    then show ?thesis
      using con_or_cl_chunked [of ?st2 s1 s2] cont st1 2 code
      unfolding chunked_def c by fastforce
  next
    case 3
    then show ?thesis
      unfolding c by (simp add: chunked_def st1_def [symmetric] Let_def)
  qed
qed

text \<open>The sub-parsers that prepare something when the state is entered.\<close>

lemma chunked_via:
  assumes "chunked g st0 s1 s2" and "\<And>d. h st d = g st0 d" and "ps_code st0 = ps_code st"
    and "\<not> ps_pending st0" and "\<not> ps_pending st \<Longrightarrow> st0 = st"
    and "\<And>x. \<not> ps_pending x \<Longrightarrow> h x s2 = g x s2"
  shows "chunked h st s1 s2"
  using assms unfolding chunked_def by metis

lemma double_to_fix: "need \<le> n \<Longrightarrow> double_to n need = n"
  by (subst double_to.simps) simp

lemma double_to_twice: "\<lbrakk> 0 < n; a \<le> b \<rbrakk> \<Longrightarrow> double_to (double_to n a) b = double_to n b"
proof (induction n a rule: double_to.induct)
  case (1 n a)
  show ?case
  proof (cases "n < a")
    case True
    then have "double_to n a = double_to (2 * n) a" "double_to n b = double_to (2 * n) b"
      using "1.prems" by (subst double_to.simps, simp)+
    then show ?thesis using 1 True by simp
  next
    case False
    then show ?thesis by (simp add: double_to_fix)
  qed
qed

lemma double_to_mono: "a \<le> b \<Longrightarrow> double_to n a \<le> double_to n b"
proof (cases "n = 0")
  case False
  assume "a \<le> b"
  then show ?thesis using double_to_le [of "double_to n a" b] double_to_twice [of n a b] False by simp
qed (simp add: double_to.simps)

text \<open>The open buffer with its unused part, and what appending makes of it.\<close>

definition buffer_at :: "str_field \<Rightarrow> string \<Rightarrow> block \<Rightarrow> parser_state \<Rightarrow> bool" where
  "buffer_at f xs t st \<longleftrightarrow> ps_buffer st = Some f \<and> t \<noteq> [] \<and> ps_buffer_cap st = length xs + length t
     \<and> get_str f st = \<lparr>str_value = Some (map Some xs @ t), str_length = length xs\<rparr>"

lemma open_on_buffer_at: "open_on f xs st \<Longrightarrow> \<exists>t. buffer_at f xs t st"
  by (auto simp: open_on_def str_open_def buffer_at_def)

definition size_for :: "parser_state \<Rightarrow> string \<Rightarrow> string \<Rightarrow> nat" where
  "size_for st xs d = double_to (ps_buffer_cap st) (length xs + length d + 1)"

definition too_long :: "parser_state \<Rightarrow> string \<Rightarrow> string \<Rightarrow> nat \<Rightarrow> bool" where
  "too_long st xs d lim \<longleftrightarrow> length xs + length d + 1 > ps_buffer_cap st \<and> size_for st xs d > lim + 1"

definition rest_block :: "block \<Rightarrow> nat \<Rightarrow> nat \<Rightarrow> block" where
  "rest_block t used k = drop used (t @ replicate k None)"

definition grown :: "str_field \<Rightarrow> string \<Rightarrow> block \<Rightarrow> string \<Rightarrow> parser_state \<Rightarrow> parser_state" where
  "grown f xs t d st = (set_str f \<lparr>str_value = Some (map Some (xs @ d)
      @ rest_block t (length d) (size_for st xs d - ps_buffer_cap st)), str_length = length (xs @ d)\<rparr> st)
      \<lparr>ps_buffer_cap := size_for st xs d\<rparr>"

lemma size_for_ge:
  assumes "buffer_at f xs t st"
  shows "length xs + length d < size_for st xs d" "ps_buffer_cap st \<le> size_for st xs d" "0 < size_for st xs d"
proof -
  have "0 < ps_buffer_cap st" using assms by (auto simp: buffer_at_def)
  then show "length xs + length d < size_for st xs d" "ps_buffer_cap st \<le> size_for st xs d"
    using double_to_ge [of "ps_buffer_cap st" "length xs + length d + 1"] double_to_le by (auto simp: size_for_def)
  then show "0 < size_for st xs d" by simp
qed

lemma set_str_set_str [simp]: "set_str f s (set_str f s' st) = set_str f s st"
  by (cases f) simp_all

lemma set_str_get_str [simp]: "set_str f (get_str f st) st = st"
  by (cases f) simp_all

lemma set_str_cap: "set_str f s (st\<lparr>ps_buffer_cap := n\<rparr>) = (set_str f s st)\<lparr>ps_buffer_cap := n\<rparr>"
  by (cases f) simp_all

lemma ensure_append:
  assumes at: "buffer_at f xs t st"
  shows "too_long st xs d lim \<Longrightarrow> ensure_buffer heap st (length d) lim = Ok (E_FULL, transite_state st ST_ERROR)"
    and "\<not> too_long st xs d lim \<Longrightarrow> \<exists>st1 st2. ensure_buffer heap st (length d) lim = Ok (E_READY, st1)
      \<and> buffer_append st1 d = Ok st2 \<and> norm st2 = norm (grown f xs t d st)"
proof -
  have cap: "ps_buffer st = Some f" "ps_buffer_cap st = length xs + length t" "0 < length t"
    "get_str f st = \<lparr>str_value = Some (map Some xs @ t), str_length = length xs\<rparr>"
    using at by (auto simp: buffer_at_def)
  note ge = size_for_ge [OF at, of d]
  show "too_long st xs d lim \<Longrightarrow> ensure_buffer heap st (length d) lim = Ok (E_FULL, transite_state st ST_ERROR)"
    using cap by (auto simp: ensure_buffer_def too_long_def size_for_def Let_def)
  assume fits: "\<not> too_long st xs d lim"
  have wr: "length d \<le> length u \<Longrightarrow> block_write (map Some xs @ u) (length xs) d
      = Ok (map Some (xs @ d) @ drop (length d) u)" for u
    by (rule block_write_open)
  show "\<exists>st1 st2. ensure_buffer heap st (length d) lim = Ok (E_READY, st1)
      \<and> buffer_append st1 d = Ok st2 \<and> norm st2 = norm (grown f xs t d st)"
  proof (cases "length xs + length d + 1 > ps_buffer_cap st")
    case True
    let ?u = "t @ replicate (size_for st xs d - ps_buffer_cap st) None"
    let ?st1 = "(set_str f \<lparr>str_value = Some (map Some xs @ ?u), str_length = length xs\<rparr> st)
      \<lparr>ps_buffer_cap := size_for st xs d, ps_allocs := Suc (ps_allocs st)\<rparr>"
    have "ensure_buffer heap st (length d) lim = Ok (E_READY, ?st1)"
      using True fits cap ge(3)
      by (simp add: ensure_buffer_def too_long_def size_for_def Let_def allocs_outward)
    moreover have "length d \<le> length ?u" using ge(1,2) cap by simp
    then have "buffer_append ?st1 d = Ok ((grown f xs t d st)\<lparr>ps_allocs := Suc (ps_allocs st)\<rparr>)"
      using cap wr [of ?u]
      by (simp add: buffer_append_def grown_def rest_block_def allocs_outward set_str_cap)
    ultimately show ?thesis by (auto simp: norm_def)
  next
    case False
    then have size: "size_for st xs d = ps_buffer_cap st" by (simp add: size_for_def double_to_fix)
    have "ensure_buffer heap st (length d) lim = Ok (E_READY, st)"
      using False cap by (simp add: ensure_buffer_def)
    moreover have "(set_str f s st)\<lparr>ps_buffer_cap := ps_buffer_cap st\<rparr> = set_str f s st" for s
      by (cases f) simp_all
    then have "buffer_append st d = Ok (grown f xs t d st)"
      using cap wr [of t] False size by (simp add: buffer_append_def grown_def rest_block_def)
    ultimately show ?thesis by auto
  qed
qed

lemma buffer_at_norm: "norm u = norm v \<Longrightarrow> buffer_at f xs t u = buffer_at f xs t v"
  using norm_eq_tweak [of u v] by (metis buffer_at_def tweak_fields(5,6) get_str_tweak)

lemma grown_norm: "norm u = norm v \<Longrightarrow> norm (grown f xs t d u) = norm (grown f xs t d v)"
  by (subst norm_eq_tweak [of u v]) (simp_all add: grown_def size_for_def)

lemma grown_fields [simp]:
  "ps_code (grown f xs t d st) = ps_code st" "ps_pending (grown f xs t d st) = ps_pending st"
  "ps_fn_state (grown f xs t d st) = ps_fn_state st"
  by (simp_all add: grown_def)

lemma buffer_terminate_at: "buffer_at f xs t st \<Longrightarrow> \<exists>y. buffer_terminate st = Ok y"
  by (cases t) (auto simp: buffer_at_def buffer_terminate_def block_write_def)

lemma size_norm: "norm u = norm v \<Longrightarrow> size_for u xs d = size_for v xs d \<and> too_long u xs d lim = too_long v xs d lim"
  using norm_eq_tweak [of u v] by (metis size_for_def too_long_def tweak_fields(6))

lemma buffer_at_grown:
  assumes "buffer_at f xs t st"
  shows "buffer_at f (xs @ d) (rest_block t (length d) (size_for st xs d - ps_buffer_cap st)) (grown f xs t d st)"
  using assms size_for_ge [OF assms, of d]
  by (auto simp: buffer_at_def grown_def rest_block_def)

lemma size_for_grown:
  assumes "buffer_at f xs t st"
  shows "size_for (grown f xs t d st) (xs @ d) d2 = size_for st xs (d @ d2)"
  using assms double_to_twice [of "ps_buffer_cap st" "length xs + length d + 1" "length xs + length (d @ d2) + 1"]
  by (auto simp: size_for_def grown_def buffer_at_def add.assoc)

lemma too_long_grown:
  assumes "buffer_at f xs t st" and "\<not> too_long st xs d lim"
  shows "too_long (grown f xs t d st) (xs @ d) d2 lim \<longleftrightarrow> too_long st xs (d @ d2) lim"
proof -
  have cap: "ps_buffer_cap (grown f xs t d st) = size_for st xs d" by (simp add: grown_def)
  have "size_for st xs d \<ge> ps_buffer_cap st" using size_for_ge [OF assms(1)] by blast
  moreover have "size_for st xs (d @ d2) = size_for st xs d" if "length xs + length (d @ d2) + 1 \<le> size_for st xs d"
    using that size_for_grown [OF assms(1), of d d2] double_to_fix [of "length xs + length (d @ d2) + 1" "size_for st xs d"]
    by (simp add: size_for_def [of "grown f xs t d st"] cap add.assoc)
  moreover have "size_for st xs d = ps_buffer_cap st" if "length xs + length d + 1 \<le> ps_buffer_cap st"
    using that by (simp add: size_for_def double_to_fix)
  ultimately show ?thesis
    using assms(2) size_for_grown [OF assms(1), of d d2] cap
    by (simp add: too_long_def add.assoc) linarith
qed

lemma too_long_mono: "too_long st xs d lim \<Longrightarrow> too_long st xs (d @ d2) lim"
  using double_to_mono [of "length xs + length d + 1" "length xs + length (d @ d2) + 1" "ps_buffer_cap st"]
  by (auto simp: too_long_def size_for_def)

lemma rest_block_twice:
  assumes "u \<le> length t + k"
  shows "rest_block (rest_block t u k) u' k' = rest_block t (u + u') (k + k')"
proof -
  have "drop u ((t @ replicate k None) @ replicate k' None) = drop u (t @ replicate k None) @ replicate k' None"
    using assms by (subst drop_append) simp
  then have "drop u (t @ replicate (k + k') None) = drop u (t @ replicate k None) @ replicate k' None"
    by (simp only: replicate_add append_assoc)
  then show ?thesis by (simp only: rest_block_def drop_drop add.commute [of u u'] flip: drop_drop)
qed

lemma grown_grown:
  assumes "buffer_at f xs t st"
  shows "grown f (xs @ d) (rest_block t (length d) (size_for st xs d - ps_buffer_cap st)) d2 (grown f xs t d st)
    = grown f xs t (d @ d2) st"
proof -
  let ?k1 = "size_for st xs d - ps_buffer_cap st" and ?k2 = "size_for st xs (d @ d2) - size_for st xs d"
  have cap: "ps_buffer_cap st = length xs + length t" using assms by (simp add: buffer_at_def)
  have le: "length d \<le> length t + ?k1" using size_for_ge [OF assms, of d] cap by simp
  have "size_for st xs d \<le> size_for st xs (d @ d2)"
    using double_to_mono [of "length xs + length d + 1" "length xs + length (d @ d2) + 1" "ps_buffer_cap st"]
    by (simp add: size_for_def)
  then have k: "size_for st xs (d @ d2) - ps_buffer_cap st = ?k1 + ?k2"
    using size_for_ge(2) [OF assms, of d] by simp
  have "rest_block (rest_block t (length d) ?k1) (length d2) ?k2 = rest_block t (length (d @ d2)) (?k1 + ?k2)"
    using rest_block_twice [OF le] by simp
  then show ?thesis
    using size_for_grown [OF assms, of d d2] k
    by (simp add: grown_def [of f "xs @ d"]) (simp add: grown_def set_str_cap)
qed

lemma copy_data_full:
  assumes "buffer_at f xs t st" and "too_long st xs (takeWhile (\<lambda>c. c \<noteq> ch) data) lim"
  shows "copy_data heap st nx ch lim data = Ok (transite_state st ST_ERROR, Some data)"
  using ensure_append(1) [OF assms] by (simp add: copy_data_def Let_def)

lemma copy_data_fits:
  assumes "buffer_at f xs t st" and "\<not> too_long st xs (takeWhile (\<lambda>c. c \<noteq> ch) data) lim"
  shows "\<exists>st2. norm st2 = norm (grown f xs t (takeWhile (\<lambda>c. c \<noteq> ch) data) st)
    \<and> (\<forall>s2. dropWhile (\<lambda>c. c \<noteq> ch) data \<noteq> [] \<or> s2 = [] \<longrightarrow>
         copy_data heap st nx ch lim (data @ s2) = copy_term st2 nx (dropWhile (\<lambda>c. c \<noteq> ch) data @ s2))"
proof -
  obtain st1 st2 where "ensure_buffer heap st (length (takeWhile (\<lambda>c. c \<noteq> ch) data)) lim = Ok (E_READY, st1)"
    "buffer_append st1 (takeWhile (\<lambda>c. c \<noteq> ch) data) = Ok st2"
    "norm st2 = norm (grown f xs t (takeWhile (\<lambda>c. c \<noteq> ch) data) st)"
    using ensure_append(2) [OF assms] by blast
  moreover have "copy_data heap st nx ch lim (data @ s2) = copy_term st2 nx (dropWhile (\<lambda>c. c \<noteq> ch) data @ s2)"
    if "dropWhile (\<lambda>c. c \<noteq> ch) data \<noteq> [] \<or> s2 = []" for s2
    using that calculation
    by (cases "s2 = []")
      (auto simp: copy_data_def Let_def dropWhile_cut takeWhile_cut simp del: dropWhile_eq_Nil_conv)
  ultimately show ?thesis by blast
qed

lemma copy_data_chunked:
  assumes at: "buffer_at f xs t st" and st: "\<not> ps_pending st" "ps_code st \<noteq> ST_BODY_DATA" and s: "s1 \<noteq> []"
  shows "chunked (\<lambda>st. copy_data heap st nx ch lim) st s1 s2"
proof (cases "too_long st xs (takeWhile (\<lambda>c. c \<noteq> ch) s1) lim")
  case True
  have "\<exists>d2. takeWhile (\<lambda>c. c \<noteq> ch) (s1 @ s2) = takeWhile (\<lambda>c. c \<noteq> ch) s1 @ d2"
    by (rule takeWhile_grows)
  then have "too_long st xs (takeWhile (\<lambda>c. c \<noteq> ch) (s1 @ s2)) lim"
    using too_long_mono [OF True] by metis
  then show ?thesis
    using copy_data_full [OF at, of ch "s1 @ s2" lim nx] copy_data_full [OF at True, of nx] s
    by (intro chunked_stop [of _ _ _ "transite_state st ST_ERROR" s1])
next
  case False
  obtain x where x: "norm x = norm (grown f xs t (takeWhile (\<lambda>c. c \<noteq> ch) s1) st)"
    and run: "\<And>s2. dropWhile (\<lambda>c. c \<noteq> ch) s1 \<noteq> [] \<or> s2 = [] \<Longrightarrow>
         copy_data heap st nx ch lim (s1 @ s2) = copy_term x nx (dropWhile (\<lambda>c. c \<noteq> ch) s1 @ s2)"
    using copy_data_fits [OF at False] by blast
  show ?thesis
  proof (cases "dropWhile (\<lambda>c. c \<noteq> ch) s1 = []")
    case True
    have all: "takeWhile (\<lambda>c. c \<noteq> ch) s1 = s1" using takeWhile_all [OF True] .
    let ?y = "grown f xs t s1 st" and ?c2 = "takeWhile (\<lambda>c. c \<noteq> ch) s2"
    have whole: "takeWhile (\<lambda>c. c \<noteq> ch) (s1 @ s2) = s1 @ ?c2"
      using True by (simp add: takeWhile_cut del: dropWhile_eq_Nil_conv)
    let ?t = "rest_block t (length s1) (size_for st xs s1 - ps_buffer_cap st)"
    have aty: "buffer_at f (xs @ s1) ?t ?y" using buffer_at_grown [OF at] .
    then have atx: "buffer_at f (xs @ s1) ?t x" using x all buffer_at_norm by metis
    have long: "too_long x (xs @ s1) ?c2 lim \<longleftrightarrow> too_long st xs (s1 @ ?c2) lim"
      using too_long_grown [OF at, of s1 lim ?c2] size_norm [of x ?y] x False all by metis
    have "same_out (copy_data heap st nx ch lim (s1 @ s2)) (copy_data heap x nx ch lim s2)"
    proof (cases "too_long st xs (s1 @ ?c2) lim")
      case True
      then show ?thesis
        using copy_data_full [OF at, of ch "s1 @ s2" lim nx] copy_data_full [OF atx, of ch s2 lim nx] long whole
        by (simp add: same_out_def)
    next
      case fits: False
      obtain z where z: "norm z = norm (grown f xs t (s1 @ ?c2) st)"
        "copy_data heap st nx ch lim (s1 @ s2) = copy_term z nx (dropWhile (\<lambda>c. c \<noteq> ch) s2)"
        using copy_data_fits [OF at, of ch "s1 @ s2" lim nx] fits whole True
        by (auto simp: dropWhile_cut simp del: dropWhile_eq_Nil_conv dropWhile_append1 dropWhile_append2)
      obtain x2 where x2: "norm x2 = norm (grown f (xs @ s1) ?t ?c2 x)"
        "copy_data heap x nx ch lim s2 = copy_term x2 nx (dropWhile (\<lambda>c. c \<noteq> ch) s2)"
        using copy_data_fits [OF atx, of ch s2 lim nx] fits long by fastforce
      have "norm z = norm x2"
        using x2(1) z(1) grown_norm [of x ?y] x all grown_grown [OF at, of s1 ?c2] by metis
      then show ?thesis unfolding same_out_def z(2) x2(2) by (intro disjI1 copy_term_norm)
    qed
    moreover have "copy_data heap st nx ch lim s1 = Ok (x, Some [])"
      using run [of "[]"] True by (simp add: copy_term_def)
    moreover have "ps_code x = ps_code st" "ps_pending x = ps_pending st" "ps_fn_state x = ps_fn_state st"
      using norm_eq_fields [OF x] by simp_all
    ultimately show ?thesis using st by (intro chunked_more [of _ _ _ x]) simp_all
  next
    case False
    have "buffer_at f (xs @ takeWhile (\<lambda>c. c \<noteq> ch) s1) (rest_block t (length (takeWhile (\<lambda>c. c \<noteq> ch) s1))
        (size_for st xs (takeWhile (\<lambda>c. c \<noteq> ch) s1) - ps_buffer_cap st)) x"
      using buffer_at_grown [OF at] buffer_at_norm [OF x] by blast
    then obtain y where "buffer_terminate x = Ok y" using buffer_terminate_at by blast
    then show ?thesis
      using run [of "[]"] run [of s2] False by (intro chunked_end) (simp_all add: copy_term_def del: dropWhile_eq_Nil_conv)
  qed
qed

text \<open>The state in which a copying sub-parser really starts.\<close>

lemma copy_start:
  assumes inv: "parser_inv st" "\<not> halted st" and f: "copy_field (ps_code st) = Some f" and lim: "63 \<le> lim"
  shows "\<exists>st0 xs. open_on f xs st0 \<and> ps_code st0 = ps_code st \<and> \<not> ps_pending st0 \<and> (\<not> ps_pending st \<longrightarrow> st0 = st)
    \<and> (ps_pending st \<longrightarrow> (\<exists>st1. init_buffer heap st f lim = (True, st1) \<and> st0 = st1\<lparr>ps_pending := False\<rparr>))"
proof (cases "ps_pending st")
  case True
  have "strings_closed st"
    using inv_cases(1) [OF inv] strings_ok_closed True by (simp add: copying_def)
  moreover have "fst (init_buffer heap st f lim)" by (simp add: init_buffer_def Let_def)
  ultimately obtain st1 where "init_buffer heap st f lim = (True, st1)" "same_frame st st1" "open_on f [] st1"
    using init_buffer_open [of st lim heap f] lim by (cases "init_buffer heap st f lim") auto
  then show ?thesis
    using True by (intro exI [of _ "st1\<lparr>ps_pending := False\<rparr>"] exI [of _ "[]"]) (simp add: same_frame_def)
next
  case False
  then show ?thesis
    using inv_cases(1) [OF inv] strings_ok_open [of st f] f by (auto simp: copying_def)
qed

lemma copy_chunked:
  assumes inv: "parser_inv st" "\<not> halted st" and desc: "state_info (ps_code st) = Some (Copy nx ch lim f)"
    and s: "s1 \<noteq> []"
  shows "chunked (\<lambda>st. parse_copy heap st nx ch lim f) st s1 s2"
proof -
  obtain st0 xs where st0: "open_on f xs st0" "ps_code st0 = ps_code st" "\<not> ps_pending st0"
    "\<not> ps_pending st \<longrightarrow> st0 = st"
    "ps_pending st \<longrightarrow> (\<exists>st1. init_buffer heap st f lim = (True, st1) \<and> st0 = st1\<lparr>ps_pending := False\<rparr>)"
    using copy_start [OF inv, of f lim] copy_desc [OF desc] by blast
  obtain t where "buffer_at f xs t st0" using open_on_buffer_at [OF st0(1)] by blast
  moreover have "ps_code st0 \<noteq> ST_BODY_DATA" using st0(2) desc by auto
  ultimately have "chunked (\<lambda>st. copy_data heap st nx ch lim) st0 s1 s2"
    using copy_data_chunked [of f xs t st0 s1] st0(3) s by blast
  then show ?thesis
    by (rule chunked_via) (use st0 in \<open>auto simp: parse_copy_def\<close>)
qed

lemma path_loop_append:
  "path_loop a st (s1 @ s2) = rbind (path_loop a st s1) (\<lambda>(b, st1, r). case r of
       None \<Rightarrow> Ok (b, st1, None)
     | Some r \<Rightarrow> if \<not> b \<and> r = [] then path_loop a st1 s2 else Ok (b, st1, Some (r @ s2)))"
proof (induction s1 arbitrary: st)
  case (Cons c data)
  show ?case
  proof (cases "c \<noteq> CHR ''?'' \<and> c \<noteq> CHR '' ''")
    case True
    note c = True
    show ?thesis
    proof (cases "ensure_buffer a st 1 2048")
      case (Ok p)
      obtain rc x where p: "p = (rc, x)" by force
      show ?thesis
      proof (cases rc)
        case E_READY
        then show ?thesis
          using Cons.IH c Ok p by (cases "buffer_append x [c]") simp_all
      qed (use c Ok p in simp_all)
    qed (use c in simp_all)
  qed auto
qed simp

lemma path_loop_not_None:
  assumes "open_on F_PATH xs st" and "path_loop heap st data = Ok (b, x, r)"
  shows "r \<noteq> None"
  using assms
proof (induction data arbitrary: xs st)
  case (Cons c data)
  obtain t where at: "buffer_at F_PATH xs t st" using open_on_buffer_at [OF Cons.prems(1)] by blast
  show ?case
  proof (cases "path_char c \<and> \<not> too_long st xs [c] 2048")
    case True
    obtain st1 where ens: "ensure_buffer heap st 1 2048 = Ok (E_READY, st1)"
      using ensure_append(2) [OF at, of "[c]" 2048] True by auto
    have "open_on F_PATH xs st1 \<and> length xs + 1 < ps_buffer_cap st1"
      using ensure_buffer_open [OF Cons.prems(1), of heap 1 2048] ens by auto
    then obtain st2 where "buffer_append st1 [c] = Ok st2" "open_on F_PATH (xs @ [c]) st2"
      using buffer_append_open [of F_PATH xs st1 "[c]"] by auto
    then show ?thesis using Cons ens True by (auto simp: path_char_def)
  next
    case False
    then show ?thesis
      using Cons.prems(2) ensure_append(1) [OF at, of "[c]" 2048] by (auto simp: path_char_def split: if_splits)
  qed
qed auto

lemma path_data_chunked:
  assumes op: "open_on F_PATH xs st" and st: "\<not> ps_pending st" "ps_code st = ST_URI_PATH" and s: "s1 \<noteq> []"
  shows "chunked (path_data heap) st s1 s2"
proof -
  obtain b x rest where run: "path_loop heap st s1 = Ok (b, x, rest)"
    and went: "\<not> b \<Longrightarrow> rest = Some (dropWhile path_char s1) \<and> same_frame st x
        \<and> open_on F_PATH (xs @ takeWhile path_char s1) x"
    using path_loop_spec [OF op, of heap s1] by blast
  obtain r where r: "rest = Some r" using path_loop_not_None [OF op run] by blast
  have app: "path_loop heap st (s1 @ s2) = (if \<not> b \<and> r = [] then path_loop heap x s2 else Ok (b, x, Some (r @ s2)))"
    using run r by (simp add: path_loop_append)
  show ?thesis
  proof (cases b)
    case True
    then show ?thesis
      using run r app by (intro chunked_end [of _ _ _ x r]) (simp_all add: path_data_def)
  next
    case False
    then have x: "same_frame st x" "open_on F_PATH (xs @ takeWhile path_char s1) x" using went by auto
    obtain y where y: "buffer_terminate x = Ok y" using buffer_terminate_closed [OF x(2)] by blast
    show ?thesis
    proof (cases r)
      case Nil
      then have "path_data heap st (s1 @ s2) = path_data heap x s2"
        using app False by (simp add: path_data_def)
      moreover have "path_data heap st s1 = Ok (x, Some [])" using run r Nil False by (simp add: path_data_def)
      ultimately show ?thesis
        using x(1) st by (intro chunked_more [of _ _ _ x]) (simp_all add: same_frame_def)
    next
      case (Cons c cs)
      then show ?thesis
        using run r app False y by (simp add: chunked_def path_data_def)
    qed
  qed
qed

lemma uri_path_chunked:
  assumes inv: "parser_inv st" "\<not> halted st" and code: "ps_code st = ST_URI_PATH" and s: "s1 \<noteq> []"
  shows "chunked (parse_uri_path heap) st s1 s2"
proof -
  obtain st0 xs where st0: "open_on F_PATH xs st0" "ps_code st0 = ps_code st" "\<not> ps_pending st0"
    "\<not> ps_pending st \<longrightarrow> st0 = st"
    "ps_pending st \<longrightarrow> (\<exists>st1. init_buffer heap st F_PATH 2048 = (True, st1) \<and> st0 = st1\<lparr>ps_pending := False\<rparr>)"
    using copy_start [OF inv, of F_PATH 2048] code by auto
  have "chunked (path_data heap) st0 s1 s2"
    using path_data_chunked [OF st0(1,3)] st0(2) code s by simp
  then show ?thesis
    by (rule chunked_via) (use st0 in \<open>auto simp: parse_uri_path_def\<close>)
qed

lemma less_unat_neq: "n < unat w \<Longrightarrow> w \<noteq> of_nat n" for w :: "64 word"
  using mod_less_eq_dividend [of n "2 ^ 64"] by (auto simp: unat_of_nat)

lemma body_copy_chunked:
  assumes op: "body_open st xs" and st: "\<not> ps_pending st" "ps_code st = ST_BODY_DATA"
    and left: "length xs < unat (ps_content_length st)" and s: "s1 \<noteq> []" "s2 \<noteq> []"
  shows "chunked body_copy st s1 s2"
proof -
  let ?cl = "unat (ps_content_length st)"
  obtain t where t: "ps_body st = \<lparr>str_value = Some (map Some xs @ t), str_length = length xs\<rparr>"
    "length xs + length t = Suc ?cl" using op by (auto simp: body_open_def)
  note run = body_copy_run [OF op left t(1)]
  show ?thesis
  proof (cases "?cl - length xs \<le> length s1")
    case True
    then have n: "min (length s1) (?cl - length xs) = ?cl - length xs"
      "min (length (s1 @ s2)) (?cl - length xs) = ?cl - length xs" by auto
    show ?thesis
      using run [of s1] run [of "s1 @ s2"] s True unfolding n by (intro chunked_end) (simp_all add: Let_def)
  next
    case False
    let ?x = "st\<lparr>ps_body := \<lparr>str_value = Some (map Some (xs @ s1) @ drop (length s1) t),
      str_length = length (xs @ s1)\<rparr>\<rparr>"
    have more: "length (xs @ s1) < ?cl" using False by simp
    have "body_open ?x (xs @ s1)" using t(2) more by (auto simp: body_open_def)
    then have again: "body_copy ?x s2 = (let n = min (length s2) (?cl - length (xs @ s1)) in
      Ok (?x\<lparr>ps_body := \<lparr>str_value = Some (map Some ((xs @ s1) @ take n s2) @ drop n (drop (length s1) t)),
          str_length = length (xs @ s1) + n\<rparr>\<rparr>, Some (drop n s2)))"
      using body_copy_run [of ?x "xs @ s1" "drop (length s1) t" s2] more s(2) by simp
    have n: "min (length (s1 @ s2)) (?cl - length xs) = length s1 + min (length s2) (?cl - length (xs @ s1))"
      using False by simp
    have "body_copy st (s1 @ s2) = body_copy ?x s2"
      using run [of "s1 @ s2"] s(1) unfolding n again by (simp add: Let_def add.assoc add.commute)
    moreover have "body_copy st s1 = Ok (?x, Some [])"
      using run [of s1] s(1) False by (simp add: Let_def min_def)
    moreover have "body_complete ?x = ?x"
      using less_unat_neq [OF more] by (simp add: body_complete_def)
    ultimately show ?thesis using st by (intro chunked_more [of _ _ _ ?x]) simp_all
  qed
qed

lemma body_data_chunked:
  assumes inv: "parser_inv st" "\<not> halted st" and left: "body_left st" and code: "ps_code st = ST_BODY_DATA"
    and s: "s1 \<noteq> []" "s2 \<noteq> []" and run: "parse_body_data heap st s1 = Ok (x, Some r)"
  shows "chunked (parse_body_data heap) st s1 s2"
proof -
  have neq: "ps_content_length st \<noteq> of_nat (str_length (ps_body st))" using left code by (simp add: body_left_def)
  define st0 where "st0 = (if ps_pending st
    then st\<lparr>ps_allocs := ps_allocs st + 1, ps_body := (ps_body st)\<lparr>str_value := Some (replicate (unat (ps_content_length st + 1)) None)\<rparr>,
      ps_pending := False\<rparr> else st)"
  have zero: "ps_pending st \<Longrightarrow> str_length (ps_body st) = 0"
    using inv_cases(3) [OF inv] code by (simp add: body_ok_def)
  have pos: "ps_pending st \<Longrightarrow> ps_content_length st > 0" using zero neq by (simp add: word_neq_0_conv)
  have ok: "ps_pending st \<Longrightarrow> 0 < unat (ps_content_length st + 1)"
    using run pos by (auto simp: parse_body_data_def Let_def split: if_splits)
  have via: "parse_body_data heap st d = body_copy st0 d" for d
    using pos ok by (cases "ps_pending st") (simp_all add: parse_body_data_def st0_def Let_def)
  have st0: "ps_code st0 = ST_BODY_DATA" "\<not> ps_pending st0" "ps_content_length st0 = ps_content_length st"
    using code by (auto simp: st0_def)
  obtain xs where xs: "body_open st0 xs" "str_length (ps_body st) = length xs"
  proof (cases "ps_pending st")
    case True
    have "1 + ps_content_length st \<noteq> 0" using ok [OF True] by (auto simp: add.commute)
    then have "unat (ps_content_length st + 1) = Suc (unat (ps_content_length st))"
      using unatSuc [of "ps_content_length st"] by (simp add: add.commute)
    then have "body_open st0 []" using True zero by (cases "ps_body st") (auto simp: st0_def body_open_def)
    then show ?thesis using that [of "[]"] zero True by simp
  next
    case False
    then show ?thesis
      using that inv_cases(3) [OF inv] code by (fastforce simp: body_ok_def st0_def body_open_def)
  qed
  have "length xs \<le> unat (ps_content_length st)"
    using xs(1) st0(3) by (auto simp: body_open_def neq_Nil_conv)
  then have "length xs < unat (ps_content_length st0)" using unat_neq_length neq xs(2) st0(3) by metis
  then have "chunked body_copy st0 s1 s2" using body_copy_chunked [OF xs(1) st0(2,1)] s by blast
  then show ?thesis
    by (rule chunked_via) (use via st0 code in \<open>auto simp: parse_body_data_def st0_def\<close>)
qed

lemma init_chunked: "s1 \<noteq> [] \<Longrightarrow> chunked parse_init st s1 s2"
  by (cases s1) (auto simp: chunked_def)

lemma uri_chunked: "s1 \<noteq> [] \<Longrightarrow> chunked parse_uri st s1 s2"
  by (cases s1) (auto simp: chunked_def)

subsection \<open>Cutting the input of the loop\<close>

text \<open>In a state with a given code the step is the sub-parser of that code.\<close>

lemma chunked_sub_parse:
  assumes "chunked h st s1 s2" and "\<And>x d. ps_code x = ps_code st \<Longrightarrow> sub_parse heap x d = h x d"
  shows "chunked (sub_parse heap) st s1 s2"
  using assms unfolding chunked_def by metis

lemma sub_parse_chunked:
  assumes inv: "parser_inv st" "\<not> halted st" "body_left st" and s: "s1 \<noteq> []" "s2 \<noteq> []"
    and run: "ps_code st = ST_BODY_DATA \<Longrightarrow> sub_parse heap st s1 = Ok (x, Some r)"
  shows "chunked (sub_parse heap) st s1 s2"
proof (cases "state_info (ps_code st)")
  case None
  then show ?thesis using inv(2) by (cases "ps_code st") (auto simp: halted_def)
next
  case (Some d)
  have plain: "ps_code st \<noteq> ST_BODY_DATA" if "d \<noteq> Generic" using that Some by auto
  have generic: "ps_code st \<in> {ST_INIT, ST_URI, ST_URI_PATH, ST_FIELD_NAME_INIT, ST_FIELD_VALUE, ST_BODY_DATA}"
    if "d = Generic"
    using that Some inv(2) inv_cases(4) [OF inv(1,2)] by (cases "ps_code st") (auto simp: halted_def)
  show ?thesis
  proof (cases d)
    case Generic
    then consider "ps_code st = ST_INIT" | "ps_code st = ST_URI" | "ps_code st = ST_URI_PATH"
      | "ps_code st = ST_FIELD_NAME_INIT" | "ps_code st = ST_FIELD_VALUE" | "ps_code st = ST_BODY_DATA"
      using generic by blast
    then show ?thesis
    proof cases
      case 1
      show ?thesis
        by (rule chunked_sub_parse [OF init_chunked [OF s(1)]]) (use 1 in \<open>simp add: sub_parse_def\<close>)
    next
      case 2
      show ?thesis
        by (rule chunked_sub_parse [OF uri_chunked [OF s(1)]]) (use 2 in \<open>simp add: sub_parse_def\<close>)
    next
      case 3
      show ?thesis
        by (rule chunked_sub_parse [OF uri_path_chunked [OF inv(1,2) 3 s(1)]]) (use 3 in \<open>simp add: sub_parse_def\<close>)
    next
      case 4
      show ?thesis
        by (rule chunked_sub_parse [OF field_name_init_chunked [OF inv(1,2) 4 s]])
          (use 4 in \<open>simp add: sub_parse_def\<close>)
    next
      case 5
      show ?thesis
        by (rule chunked_sub_parse [OF field_value_chunked [OF inv(1,2) 5 s]]) (use 5 in \<open>simp add: sub_parse_def\<close>)
    next
      case 6
      then have "parse_body_data heap st s1 = Ok (x, Some r)" using run [OF 6] by (simp add: sub_parse_def)
      then show ?thesis
        by (rule chunked_sub_parse [OF body_data_chunked [OF inv 6 s]]) (use 6 in \<open>simp add: sub_parse_def\<close>)
    qed
  next
    case (Liter nx lit)
    show ?thesis
      by (rule chunked_sub_parse [OF literal_chunked [OF inv(1,2) _ s(2), of nx lit]])
        (use Some Liter in \<open>simp_all add: sub_parse_def\<close>)
  next
    case (Liter_ic nx fail lit)
    show ?thesis
      by (rule chunked_sub_parse [OF literal_ci_chunked [OF inv(1,2) _ s(2), of nx fail lit]])
        (use Some Liter_ic in \<open>simp_all add: sub_parse_def\<close>)
  next
    case (Copy nx ch lim f)
    show ?thesis
      by (rule chunked_sub_parse [OF copy_chunked [OF inv(1,2) _ s(1), of nx ch lim f]])
        (use Some Copy in \<open>simp_all add: sub_parse_def\<close>)
  next
    case (Ws nx n)
    show ?thesis
      by (rule chunked_sub_parse [OF ws_chunked, of st nx n])
        (use Some Ws plain in \<open>simp_all add: sub_parse_def\<close>)
  next
    case (Ignore nx ch)
    show ?thesis
      by (rule chunked_sub_parse [OF ignore_chunked, of st nx ch])
        (use Some Ignore plain in \<open>simp_all add: sub_parse_def\<close>)
  qed
qed

lemma no_empty_heap: "no_empty_block heap"
  by (simp add: no_empty_block_def)

text \<open>Induction along the steps of the loop.\<close>

lemma parse_induct:
  assumes "ready st" and "\<not> halted st"
    and base: "\<And>st. \<not> halted st \<Longrightarrow> P st []"
    and step: "\<And>st data. \<lbrakk> parser_inv st; \<not> halted st; body_left st; data \<noteq> [];
      \<And>x r. \<lbrakk> sub_parse heap st data = Ok (x, Some r); \<not> halted (body_complete x) \<rbrakk> \<Longrightarrow> P (body_complete x) r \<rbrakk>
      \<Longrightarrow> P st data"
  shows "P st data"
  using assms(1,2)
proof (induction "(st, data)" arbitrary: st data
    rule: wf_induct_rule [OF wf_measures [of "[\<lambda>(st, d). length d, \<lambda>(st, d). rank (ps_code st)]"]])
  case (1 st data)
  show ?case
  proof (cases "data = []")
    case True
    then show ?thesis using base "1.prems"(2) by simp
  next
    case False
    have inv: "parser_inv st" "\<not> halted st" "body_left st" using "1.prems" by (auto simp: ready_def)
    show ?thesis
    proof (rule step [OF inv False])
      fix x r
      assume x: "sub_parse heap st data = Ok (x, Some r)" "\<not> halted (body_complete x)"
      then have good: "parser_inv x" "progress st data x r"
        using sub_parse_good [OF inv False no_empty_heap] by simp_all
      have code: "ps_code (body_complete x) = ps_code x"
        using x(2) by (auto simp: body_complete_code halted_def split: if_splits)
      have "\<not> halted x" using x(2) halted_body_complete by blast
      then have "((body_complete x, r), (st, data)) \<in> measures [\<lambda>(st, d). length d, \<lambda>(st, d). rank (ps_code st)]"
        using good(2) suffix_length_le [of r data] code by (auto simp: progress_def)
      then show "P (body_complete x) r" using "1.hyps" body_complete_ready [OF good(1)] x(2) by blast
    qed
  qed
qed

lemma parse_Nil [simp]: "parse_next_buf a st [] = Some (Ok (st, Some []))"
  by (subst parse_next_buf.simps) simp

lemma parse_Cons:
  "data \<noteq> [] \<Longrightarrow> parse_next_buf a st data = (case sub_parse a st data of
        Undef \<Rightarrow> Some Undef
      | Error \<Rightarrow> Some Error
      | Ok (st, ret) \<Rightarrow>
          if halted (body_complete st)
          then (case ret of None \<Rightarrow> Some Undef | Some rest \<Rightarrow> Some (Ok (body_complete st, Some rest)))
          else (case ret of
              None \<Rightarrow> Some (Ok (body_complete st, None))
            | Some rest \<Rightarrow> parse_next_buf a (body_complete st) rest))"
  by (subst parse_next_buf.simps) (simp add: Let_def split: result.splits prod.splits)

text \<open>One unfolding of the loop on outcomes that agree up to bookkeeping.\<close>

lemma parse_step_norm:
  assumes eq: "nout (sub_parse heap u d) = nout (sub_parse heap v d')" and "d \<noteq> []" "d' \<noteq> []"
    and rec: "\<And>x y r. \<lbrakk> sub_parse heap u d = Ok (x, Some r); sub_parse heap v d' = Ok (y, Some r); norm x = norm y;
        \<not> halted (body_complete y) \<rbrakk> \<Longrightarrow>
      map_option nout (parse_next_buf heap (body_complete x) r) = map_option nout (parse_next_buf heap (body_complete y) r)"
  shows "map_option nout (parse_next_buf heap u d) = map_option nout (parse_next_buf heap v d')"
proof (cases "sub_parse heap v d'")
  case (Ok p)
  obtain y ret where p: "p = (y, ret)" by force
  obtain x where x: "sub_parse heap u d = Ok (x, ret)" "norm x = norm y"
    using eq Ok p by (cases "sub_parse heap u d") auto
  have same: "norm (body_complete x) = norm (body_complete y)" "halted (body_complete x) = halted (body_complete y)"
    using norm_eq_fields(7) [OF x(2)] norm_eq_fields(6) by blast+
  show ?thesis
    using x(1) Ok p assms(2,3) same rec [of x _ y] x(2)
    by (cases ret) (simp_all add: parse_Cons [of d _ u] parse_Cons [of d' _ v])
next
  case Error
  then have "sub_parse heap u d = Error" using eq by (cases "sub_parse heap u d") auto
  then show ?thesis
    using Error assms(2,3) by (simp add: parse_Cons [of d _ u] parse_Cons [of d' _ v])
next
  case Undef
  then have "sub_parse heap u d = Undef" using eq by (cases "sub_parse heap u d") auto
  then show ?thesis
    using Undef assms(2,3) by (simp add: parse_Cons [of d _ u] parse_Cons [of d' _ v])
qed

lemma parse_norm:
  assumes "ready v" and "\<not> halted v" and "norm u = norm v"
  shows "map_option nout (parse_next_buf heap u d) = map_option nout (parse_next_buf heap v d)"
proof -
  have "\<forall>u. norm u = norm v \<longrightarrow>
      map_option nout (parse_next_buf heap u d) = map_option nout (parse_next_buf heap v d)"
  proof (rule parse_induct [OF assms(1,2)])
    fix v :: parser_state
    show "\<forall>u. norm u = norm v \<longrightarrow>
        map_option nout (parse_next_buf heap u []) = map_option nout (parse_next_buf heap v [])"
      by simp
  next
    fix v :: parser_state and data :: string
    assume data: "data \<noteq> []" and ih: "\<And>x r. \<lbrakk> sub_parse heap v data = Ok (x, Some r); \<not> halted (body_complete x) \<rbrakk>
      \<Longrightarrow> \<forall>u. norm u = norm (body_complete x) \<longrightarrow> map_option nout (parse_next_buf heap u r)
        = map_option nout (parse_next_buf heap (body_complete x) r)"
    show "\<forall>u. norm u = norm v \<longrightarrow>
        map_option nout (parse_next_buf heap u data) = map_option nout (parse_next_buf heap v data)"
    proof (intro allI impI)
      fix u :: parser_state
      assume n: "norm u = norm v"
      show "map_option nout (parse_next_buf heap u data) = map_option nout (parse_next_buf heap v data)"
      proof (rule parse_step_norm [OF sub_parse_norm [OF n data] data data])
        fix x y r
        assume "sub_parse heap v data = Ok (y, Some r)" "norm x = norm y" "\<not> halted (body_complete y)"
        then show "map_option nout (parse_next_buf heap (body_complete x) r)
            = map_option nout (parse_next_buf heap (body_complete y) r)"
          using ih [of y r] norm_eq_fields(7) [of x y] by blast
      qed
    qed
  qed
  then show ?thesis using assms(3) by blast
qed

definition psame :: "sub_result option \<Rightarrow> sub_result option \<Rightarrow> bool" where
  "psame p q \<longleftrightarrow> map_option nout p = map_option nout q
     \<or> (\<exists>u v a b. p = Some (Ok (u, Some a)) \<and> q = Some (Ok (v, Some b)) \<and> ps_code u = ST_ERROR \<and> ps_code v = ST_ERROR)"

lemma parse_same_out:
  assumes out: "same_out (sub_parse heap st d) (sub_parse heap x d')" and d: "d \<noteq> []" "d' \<noteq> []"
    and x: "parser_inv x" "\<not> halted x" "body_left x"
  shows "psame (parse_next_buf heap st d) (parse_next_buf heap x d')"
proof (cases "nout (sub_parse heap st d) = nout (sub_parse heap x d')")
  case True
  have "map_option nout (parse_next_buf heap st d) = map_option nout (parse_next_buf heap x d')"
  proof (rule parse_step_norm [OF True d])
    fix u v r
    assume v: "sub_parse heap x d' = Ok (v, Some r)" "norm u = norm v" "\<not> halted (body_complete v)"
    have "ready (body_complete v)"
      using sub_parse_good [OF x d(2) no_empty_heap] v(1) body_complete_ready by simp
    then show "map_option nout (parse_next_buf heap (body_complete u) r)
        = map_option nout (parse_next_buf heap (body_complete v) r)"
      using parse_norm v norm_eq_fields(7) by blast
  qed
  then show ?thesis by (simp add: psame_def)
next
  case False
  then obtain u v p q where "sub_parse heap st d = Ok (u, Some p)" "sub_parse heap x d' = Ok (v, Some q)"
    "ps_code u = ST_ERROR" "ps_code v = ST_ERROR" using out by (auto simp: same_out_def)
  then show ?thesis
    using d by (simp add: psame_def parse_Cons [of d _ st] parse_Cons [of d' _ x] halted_def)
qed

lemma parse_chunks:
  assumes "ready st" and "\<not> halted st" and s2: "s2 \<noteq> []"
    and "parse_next_buf heap st s1 = Some (Ok (st1, Some r1))"
  shows "if halted st1 then parse_next_buf heap st (s1 @ s2) = Some (Ok (st1, Some (r1 @ s2)))
    else psame (parse_next_buf heap st (s1 @ s2)) (parse_next_buf heap st1 s2)"
proof -
  let ?P = "\<lambda>st s1. parse_next_buf heap st s1 = Some (Ok (st1, Some r1)) \<longrightarrow>
    (if halted st1 then parse_next_buf heap st (s1 @ s2) = Some (Ok (st1, Some (r1 @ s2)))
     else psame (parse_next_buf heap st (s1 @ s2)) (parse_next_buf heap st1 s2))"
  have "?P st s1"
  proof (rule parse_induct [where P = ?P, OF assms(1,2)])
    fix st :: parser_state
    assume "\<not> halted st"
    then show "?P st []" by (auto simp: psame_def)
  next
    fix st :: parser_state and s1 :: string
    assume inv: "parser_inv st" "\<not> halted st" "body_left st" and s1: "s1 \<noteq> []"
      and ih: "\<And>x r. \<lbrakk> sub_parse heap st s1 = Ok (x, Some r); \<not> halted (body_complete x) \<rbrakk> \<Longrightarrow> ?P (body_complete x) r"
    show "?P st s1"
    proof
      assume run: "parse_next_buf heap st s1 = Some (Ok (st1, Some r1))"
      obtain x0 r0 where "sub_parse heap st s1 = Ok (x0, Some r0)"
        using run s1 by (auto simp: parse_Cons [of s1] split: result.splits if_splits option.splits)
      from sub_parse_chunked [OF inv s1 s2 this]
      obtain x r where step: "sub_parse heap st s1 = Ok (x, Some r)"
        and stop: "r \<noteq> [] \<Longrightarrow> sub_parse heap st (s1 @ s2) = Ok (x, Some (r @ s2))"
        and cont: "r = [] \<Longrightarrow> sub_parse heap st (s1 @ s2) = Ok (x, Some s2)
          \<or> ps_code x = ps_code st \<and> body_complete x = x \<and> same_out (sub_parse heap st (s1 @ s2)) (sub_parse heap x s2)"
        unfolding chunked_def by blast
      let ?goal = "if halted st1 then parse_next_buf heap st (s1 @ s2) = Some (Ok (st1, Some (r1 @ s2)))
        else psame (parse_next_buf heap st (s1 @ s2)) (parse_next_buf heap st1 s2)"
      consider "sub_parse heap st (s1 @ s2) = Ok (x, Some (r @ s2))"
        | "r = []" "ps_code x = ps_code st" "body_complete x = x"
          "same_out (sub_parse heap st (s1 @ s2)) (sub_parse heap x s2)"
        using stop cont by (cases "r = []") auto
      then show ?goal
      proof cases
        case 1
        show ?goal
          using ih [OF step] run 1 step s1 by (cases "halted (body_complete x)")
            (simp_all add: parse_Cons [of s1 _ st] parse_Cons [of "s1 @ s2" _ st])
      next
        case 2
        have nh: "\<not> halted x" using inv(2) 2(2) by (simp add: halted_def)
        then have "st1 = x" using run step s1 2 by (simp add: parse_Cons [of s1 _ st])
        moreover have "parser_inv x" using sub_parse_good [OF inv s1 no_empty_heap] step by simp
        moreover have "body_left x" using 2(3) body_complete_code [of x] by (auto simp: body_left_def)
        ultimately show ?goal using parse_same_out [OF 2(4)] nh s1 s2 by simp
      qed
    qed
  qed
  then show ?thesis using assms(4) by blast
qed

text \<open>A call that fails for want of memory fails for the longer buffer, too.\<close>

lemma sub_parse_None:
  assumes inv: "parser_inv st" "\<not> halted st" "body_left st" and s: "s1 \<noteq> []" "s2 \<noteq> []"
    and run: "sub_parse heap st s1 = Ok (x, None)"
  shows "sub_parse heap st (s1 @ s2) = Ok (x, None)"
proof (cases "ps_code st = ST_BODY_DATA")
  case True
  have "body_copy u d \<noteq> Ok (y, None)" for u d y
    by (auto simp: body_copy_def Let_def result_simps split: option.splits)
  then show ?thesis
    using True run by (auto simp: sub_parse_def parse_body_data_def Let_def split: if_splits)
next
  case False
  then show ?thesis using sub_parse_chunked [OF inv s] run by (auto simp: chunked_def)
qed

lemma parse_None:
  assumes "ready st" and "\<not> halted st" and s2: "s2 \<noteq> []"
    and "parse_next_buf heap st s1 = Some (Ok (st1, None))"
  shows "parse_next_buf heap st (s1 @ s2) = Some (Ok (st1, None))"
proof -
  let ?P = "\<lambda>st s1. parse_next_buf heap st s1 = Some (Ok (st1, None)) \<longrightarrow>
    parse_next_buf heap st (s1 @ s2) = Some (Ok (st1, None))"
  have "?P st s1"
  proof (rule parse_induct [where P = ?P, OF assms(1,2)])
    fix st :: parser_state and s1 :: string
    assume inv: "parser_inv st" "\<not> halted st" "body_left st" and s1: "s1 \<noteq> []"
      and ih: "\<And>x r. \<lbrakk> sub_parse heap st s1 = Ok (x, Some r); \<not> halted (body_complete x) \<rbrakk> \<Longrightarrow> ?P (body_complete x) r"
    show "?P st s1"
    proof
      assume run: "parse_next_buf heap st s1 = Some (Ok (st1, None))"
      obtain x ret where step: "sub_parse heap st s1 = Ok (x, ret)"
        using run s1 by (auto simp: parse_Cons [of s1] split: result.splits)
      have nh: "\<not> halted (body_complete x)"
        using run s1 step by (auto simp: parse_Cons [of s1] split: option.splits)
      show "parse_next_buf heap st (s1 @ s2) = Some (Ok (st1, None))"
      proof (cases ret)
        case None
        then show ?thesis
          using sub_parse_None [OF inv s1 s2] step run nh s1
          by (simp add: parse_Cons [of s1 _ st] parse_Cons [of "s1 @ s2" _ st])
      next
        case (Some r)
        then have run': "parse_next_buf heap (body_complete x) r = Some (Ok (st1, None))"
          using run s1 step nh by (simp add: parse_Cons [of s1 _ st])
        then have "r \<noteq> []" by auto
        then have "sub_parse heap st (s1 @ s2) = Ok (x, Some (r @ s2))"
          using sub_parse_chunked [OF inv s1 s2] step Some by (auto simp: chunked_def)
        then show ?thesis
          using ih [of x r] step Some nh run' s1 by (simp add: parse_Cons [of "s1 @ s2" _ st])
      qed
    qed
  qed simp
  then show ?thesis using assms(4) by blast
qed

subsection \<open>Cutting the input of the parser\<close>

lemma norm_empty [simp]: "norm (st\<lparr>ps_empty := b\<rparr>) = norm st"
  by (simp add: norm_def)

lemma finish_request_tweak: "finish_request (tweak k e st) = rmap (tweak k e) (finish_request st)"
proof -
  have "finish_range (tweak k e st) = rmap (tweak k e) (finish_range st)"
  proof (cases "str_value (ps_range_text st)")
    case (Some b)
    then show ?thesis
      by (cases "cstring b") (auto simp: finish_range_def Let_def split: option.splits)
  qed (simp add: finish_range_def)
  then show ?thesis by (cases "finish_range st") (simp_all add: finish_request_def)
qed

lemma finish_request_norm:
  assumes "norm u = norm v" and "finish_request v = Ok v'"
  shows "\<exists>u'. finish_request u = Ok u' \<and> norm u' = norm v'"
proof -
  obtain k e where u: "u = tweak k e v" using norm_eq_tweak [OF assms(1)] by blast
  show ?thesis unfolding u using assms(2) by (simp add: finish_request_tweak)
qed

text \<open>
  Two calls look the same to the client: both report the broken request, or the states agree up to
  bookkeeping and the second call consumed what the first did after the bytes \<open>skipped\<close>.
\<close>

definition same_call :: "nat \<Rightarrow> (parser_state \<times> nat option) result option
    \<Rightarrow> (parser_state \<times> nat option) result option \<Rightarrow> bool" where
  "same_call skipped p q \<longleftrightarrow> (\<exists>u v m n. p = Some (Ok (u, m)) \<and> q = Some (Ok (v, n))
     \<and> (ps_error u \<and> ps_error v \<and> halted u \<and> halted v
        \<or> norm u = norm v \<and> m = map_option (\<lambda>k. skipped + k) n))"

definition finish_call :: "nat \<Rightarrow> parser_state \<times> string option \<Rightarrow> (parser_state \<times> nat option) result" where
  "finish_call len = (\<lambda>(st, ret). case ret of
      None \<Rightarrow> Ok (st, None)
    | Some rest \<Rightarrow>
        let n = len - length rest; st = st\<lparr>ps_empty := False\<rparr> in
        if ps_code st = ST_ERROR then Ok (st\<lparr>ps_error := True, ps_pending := False\<rparr>, Some n)
        else if ps_code st = ST_DONE then rmap (\<lambda>st. (st, Some n)) (finish_request st)
        else Ok (st, Some n))"

lemma process_finish:
  "data \<noteq> [] \<Longrightarrow> parser_process_next_buf a st (Some data)
    = map_option (\<lambda>r. rbind r (finish_call (length data))) (parse_next_buf a st data)"
  by (cases "parse_next_buf a st data") (simp_all add: parser_process_next_buf_def finish_call_def)

lemma finish_call_error:
  "ps_code u = ST_ERROR \<Longrightarrow> \<exists>u' m. finish_call len (u, Some rest) = Ok (u', m) \<and> ps_error u' \<and> halted u'"
  by (simp add: finish_call_def halted_def)

lemma finish_call_norm:
  assumes n: "norm u = norm v" and v: "ready v" and rest: "\<And>r. ret = Some r \<Longrightarrow> length r \<le> len"
  shows "same_call k (Some (finish_call (k + len) (u, ret))) (Some (finish_call len (v, ret)))"
proof (cases ret)
  case None
  then show ?thesis using n by (simp add: same_call_def finish_call_def)
next
  case (Some r)
  have code: "ps_code u = ps_code v" using norm_eq_fields(1) [OF n] .
  have len: "k + len - length r = k + (len - length r)" using rest [OF Some] by simp
  consider "ps_code v = ST_ERROR" | "ps_code v = ST_DONE" | "\<not> halted v" by (auto simp: halted_def)
  then show ?thesis
  proof cases
    case 1
    then show ?thesis
      using Some code by (simp add: same_call_def finish_call_def halted_def)
  next
    case 2
    obtain v' where v': "finish_request (v\<lparr>ps_empty := False\<rparr>) = Ok v'"
      using finish_request_ready [of "v\<lparr>ps_empty := False\<rparr>"] ready_empty [OF v] 2 by auto
    obtain u' where "finish_request (u\<lparr>ps_empty := False\<rparr>) = Ok u'" "norm u' = norm v'"
      using finish_request_norm [OF _ v', of "u\<lparr>ps_empty := False\<rparr>"] n by auto
    then show ?thesis
      using Some code 2 v' len by (simp add: same_call_def finish_call_def)
  next
    case 3
    then show ?thesis
      using Some code n len by (simp add: same_call_def finish_call_def halted_def)
  qed
qed

lemma finish_call_halted:
  assumes "ready x" and "finish_call len (x, Some r) = Ok (st, m)"
  shows "halted st \<longleftrightarrow> halted x"
proof (cases "ps_code x = ST_DONE")
  case True
  then show ?thesis
    using assms(2) finish_request_ready [of "x\<lparr>ps_empty := False\<rparr>"] ready_empty [OF assms(1)]
    by (auto simp: finish_call_def halted_def)
next
  case False
  then show ?thesis using assms(2) by (auto simp: finish_call_def halted_def Let_def split: if_splits)
qed

lemma nout_eq_Ok: "map_option nout p = Some (Ok (w, ret)) \<Longrightarrow> \<exists>y. p = Some (Ok (y, ret)) \<and> norm y = w"
proof (cases p)
  case (Some r)
  assume "map_option nout p = Some (Ok (w, ret))"
  then show ?thesis using Some by (cases r) (auto simp: nout_def map_prod_def split: prod.splits)
qed simp

lemma finish_call_psame:
  assumes same: "psame p q" and q: "q = Some (Ok (y, ret))" "norm y = norm v" and v: "ready v"
    and rest: "\<And>r. ret = Some r \<Longrightarrow> length r \<le> len"
  shows "same_call k (map_option (\<lambda>r. rbind r (finish_call (k + len))) p) (Some (finish_call len (v, ret)))"
proof (cases "map_option nout p = map_option nout q")
  case True
  then have "map_option nout p = Some (Ok (norm y, ret))" using q(1) by simp
  then obtain u where u: "p = Some (Ok (u, ret))" "norm u = norm v" using nout_eq_Ok q(2) by metis
  then show ?thesis using finish_call_norm [OF u(2) v, of ret len k] rest by simp
next
  case False
  then obtain u a b where u: "p = Some (Ok (u, Some a))" "ret = Some b" "ps_code u = ST_ERROR" "ps_code y = ST_ERROR"
    using same q(1) by (auto simp: psame_def)
  then have "ps_code v = ST_ERROR" using norm_eq_fields(1) [OF q(2)] by simp
  then show ?thesis
    using u finish_call_error [OF u(3), of "k + len" a] finish_call_error [of v len b]
    by (auto simp: same_call_def)
qed

text \<open>Two buffers and their concatenation, from any state between two calls.\<close>

lemma chunks_ready:
  assumes st: "ready st" "\<not> halted st"
    and "parser_process_next_buf heap st (Some s1) = Some (Ok (st1, Some n))" and "s2 \<noteq> []"
  shows "if halted st1 then parser_process_next_buf heap st (Some (s1 @ s2)) = parser_process_next_buf heap st (Some s1)
    else same_call (length s1) (parser_process_next_buf heap st (Some (s1 @ s2))) (parser_process_next_buf heap st1 (Some s2))"
proof -
  have s1: "s1 \<noteq> []" using assms(3) by (auto simp: parser_process_next_buf_def)
  obtain x ret where run: "parse_next_buf heap st s1 = Some (Ok (x, ret))" "ready x"
    and out: "case ret of None \<Rightarrow> \<not> halted x \<and> (\<exists>k n. \<not> heap k n)
      | Some rest \<Rightarrow> suffix rest s1 \<and> (rest = [] \<or> halted x)"
    using parse_next_buf_returns [OF st(1) disjI1 [OF st(2)] no_empty_heap, of s1] by blast
  have call: "finish_call (length s1) (x, ret) = Ok (st1, Some n)" using assms(3) run(1) s1 by (simp add: process_finish)
  then obtain r where r: "ret = Some r" by (cases ret) (auto simp: finish_call_def)
  have halt: "halted st1 \<longleftrightarrow> halted x" using finish_call_halted [OF run(2)] call r by simp
  show ?thesis
  proof (cases "halted x")
    case True
    then show ?thesis
      using parse_chunks [OF st assms(4), of s1 x r] run(1) r s1 halt
      by (simp add: process_finish finish_call_def)
  next
    case False
    then have st1: "st1 = x\<lparr>ps_empty := False\<rparr>" using call r by (simp add: finish_call_def halted_def)
    have chunks: "psame (parse_next_buf heap st (s1 @ s2)) (parse_next_buf heap x s2)"
      using parse_chunks [OF st assms(4), of s1 x r] run(1) r False by simp
    have rst1: "ready st1" "\<not> halted st1" using ready_empty [OF run(2)] False halt st1 by auto
    obtain v vr where v: "parse_next_buf heap st1 s2 = Some (Ok (v, vr))" "ready v"
      "case vr of None \<Rightarrow> \<not> halted v \<and> (\<exists>k n. \<not> heap k n) | Some rest \<Rightarrow> suffix rest s2 \<and> (rest = [] \<or> halted v)"
      using parse_next_buf_returns [OF rst1(1) disjI1 [OF rst1(2)] no_empty_heap, of s2] by blast
    have "map_option nout (parse_next_buf heap st1 s2) = map_option nout (parse_next_buf heap x s2)"
      using parse_norm [OF run(2) False, of st1] st1 by simp
    then obtain y where y: "parse_next_buf heap x s2 = Some (Ok (y, vr))" "norm y = norm v"
      using nout_eq_Ok [of "parse_next_buf heap x s2" "norm v" vr] v(1) by auto
    have "\<And>r. vr = Some r \<Longrightarrow> length r \<le> length s2" using v(3) suffix_length_le by auto
    then show ?thesis
      using finish_call_psame [OF chunks y v(2), of "length s2" "length s1"] rst1(2) s1 assms(4) v(1)
      by (simp add: process_finish)
  qed
qed

text \<open>The parse does not depend on how the stream is cut into buffers. After any history, feed
  \<open>s1\<close>: if that ends the request, feeding \<open>s1 @ s2\<close> is the same call; otherwise feeding \<open>s1 @ s2\<close> gives
  what feeding \<open>s2\<close> next gives, with the consumed bytes counted from the start of \<open>s1\<close>.\<close>

theorem chunk_independence:
  assumes "fed heap st" and "\<not> parser_state_done st"
    and "parser_process_next_buf heap st (Some s1) = Some (Ok (st1, Some n))" and "s2 \<noteq> []"
  shows "if halted st1 then parser_process_next_buf heap st (Some (s1 @ s2)) = parser_process_next_buf heap st (Some s1)
    else same_call (length s1) (parser_process_next_buf heap st (Some (s1 @ s2))) (parser_process_next_buf heap st1 (Some s2))"
  using chunks_ready [OF _ _ assms(3,4)] fed_ready [OF assms(1) no_empty_heap] assms(2) by blast

theorem chunk_independence_witness:
  "\<exists>st1 n. parser_process_next_buf heap new_state (Some ''GET /a'') = Some (Ok (st1, Some n)) \<and> \<not> halted st1
    \<and> same_call (length ''GET /a'') (parser_process_next_buf heap new_state (Some ''GET /ab c''))
        (parser_process_next_buf heap st1 (Some ''b c''))"
proof -
  have "case parser_process_next_buf heap new_state (Some ''GET /a'') of
      Some (Ok (st, n)) \<Rightarrow> n \<noteq> None \<and> \<not> halted st | _ \<Rightarrow> False" by code_simp
  then obtain st1 n where st1: "parser_process_next_buf heap new_state (Some ''GET /a'') = Some (Ok (st1, Some n))"
    "\<not> halted st1" by (auto split: option.splits result.splits)
  have "\<not> parser_state_done new_state" by (simp add: parser_state_done_def new_state_def)
  then show ?thesis
    using chunk_independence [OF fed_new _ st1(1), of "''b c''"] st1 by (intro exI [of _ st1] exI [of _ n]) simp
qed

end
