(* ===== verification/HttpRequest.thy ===== *)
theory HttpRequest
  imports HttpChunks
begin

text \<open>
  Parsing what a client prints: a request with a path and a host gives them back. Every step of
  the loop is one lemma that says which bytes the state consumes, where it goes, and which members
  of the state it leaves alone.
\<close>

subsection \<open>Frames\<close>

text \<open>Only the strings in \<open>fs\<close> and the internal bookkeeping may change.\<close>

definition frame :: "str_field set \<Rightarrow> parser_state \<Rightarrow> parser_state \<Rightarrow> bool" where
  "frame fs st st' \<longleftrightarrow> (\<forall>f. f \<notin> fs \<longrightarrow> get_str f st' = get_str f st) \<and> ps_body st' = ps_body st
     \<and> ps_content_length st' = ps_content_length st \<and> ps_method st' = ps_method st
     \<and> ps_keep_alive st' = ps_keep_alive st \<and> ps_error st' = ps_error st"

lemma frame_refl [simp]: "frame fs st st"
  by (simp add: frame_def)

lemma frame_trans: "\<lbrakk> frame fs st st1; frame gs st1 st2 \<rbrakk> \<Longrightarrow> frame (fs \<union> gs) st st2"
  by (simp add: frame_def)

lemma frame_update [simp]:
  "frame fs st (x\<lparr>ps_code := c\<rparr>) = frame fs st x"
  "frame fs st (x\<lparr>ps_pending := b\<rparr>) = frame fs st x"
  "frame fs st (x\<lparr>ps_sub_state := n\<rparr>) = frame fs st x"
  "frame fs st (x\<lparr>ps_fn_state := fn\<rparr>) = frame fs st x"
  "frame fs st (x\<lparr>ps_buffer := fo\<rparr>) = frame fs st x"
  "frame fs st (x\<lparr>ps_buffer_cap := n\<rparr>) = frame fs st x"
  "frame fs st (x\<lparr>ps_allocs := n\<rparr>) = frame fs st x"
  "frame fs st (transite_state x c) = frame fs st x"
  by (simp_all add: frame_def transite_state_def)

lemma frame_transite [simp]: "frame fs (transite_state st c) x = frame fs st x"
  by (simp add: frame_def transite_state_def)

lemma frame_set_str [simp]: "f \<in> fs \<Longrightarrow> frame fs st (set_str f s x) = frame fs st x"
proof -
  have "ps_method (set_str f s x) = ps_method x" "ps_keep_alive (set_str f s x) = ps_keep_alive x"
    "ps_error (set_str f s x) = ps_error x" by (cases f; simp)+
  then show "f \<in> fs \<Longrightarrow> frame fs st (set_str f s x) = frame fs st x" by (auto simp: frame_def)
qed

lemma frame_path [simp]: "F_PATH \<in> fs \<Longrightarrow> frame fs st (x\<lparr>ps_path := s\<rparr>) = frame fs st x"
  using frame_set_str [of F_PATH fs st s x] by simp

lemma frame_reset [simp]: "frame fs st (reset_pending x) = frame fs st x"
  by (simp add: reset_pending_def)

subsection \<open>Steps\<close>

text \<open>\<open>goes st data c st' rest\<close>: the loop on \<open>data\<close> continues in \<open>st'\<close>, entered anew in code \<open>c\<close>,
  on \<open>rest\<close>.\<close>

definition goes :: "parser_state \<Rightarrow> string \<Rightarrow> state_code \<Rightarrow> parser_state \<Rightarrow> string \<Rightarrow> bool" where
  "goes st data c st' rest \<longleftrightarrow> parse_next_buf heap st data = parse_next_buf heap st' rest
     \<and> ps_code st' = c \<and> ps_pending st'"

lemma goes_step:
  assumes "sub_parse heap st data = Ok (x, Some rest)" and "data \<noteq> []" and "ps_pending x"
    and "ps_code x = c" and "c \<notin> {ST_BODY_DATA, ST_DONE, ST_ERROR}"
  shows "goes st data c x rest"
  using assms by (auto simp: goes_def parse_Cons [of data _ st] halted_def)

lemma goes_trans: "\<lbrakk> goes st d1 c1 x d2; goes x d2 c2 y d3 \<rbrakk> \<Longrightarrow> goes st d1 c2 y d3"
  by (simp add: goes_def)

lemma liter_loop_match: "map f d = lit \<Longrightarrow> liter_loop f (pre @ lit) (length pre) (d @ rest) = (False, length (pre @ lit), rest)"
proof (induction d arbitrary: pre lit)
  case Nil
  then show ?case by (cases rest) auto
next
  case (Cons c d)
  then show ?case using Cons.IH [of "map f d" "pre @ [f c]"] by (auto simp: nth_append)
qed

lemma liter_from_match:
  assumes "ps_sub_state st = 0" and "map f d = lit"
  shows "liter_from f st nx fail lit (d @ rest) = Ok (transite_state (st\<lparr>ps_sub_state := length lit\<rparr>) nx, Some rest)"
  using assms liter_loop_match [of f d lit "[]" rest] by (simp add: liter_from_def)

lemma goes_liter:
  assumes "ps_pending st" and "state_info (ps_code st) = Some (Liter nx lit)" and "lit \<noteq> []"
    and "nx \<notin> {ST_BODY_DATA, ST_DONE, ST_ERROR}"
  shows "\<exists>x. goes st (lit @ rest) nx x rest \<and> frame {} st x \<and> ps_fn_state x = ps_fn_state st"
proof -
  let ?x = "transite_state ((reset_pending st)\<lparr>ps_sub_state := length lit\<rparr>) nx"
  have "sub_parse heap st (lit @ rest) = Ok (?x, Some rest)"
    using assms liter_from_match [of "reset_pending st" "\<lambda>c. c" lit lit nx ST_ERROR rest]
    by (simp add: sub_parse_def parse_literal_def) (simp add: reset_pending_def)
  then have "goes st (lit @ rest) nx ?x rest" using assms(3,4) by (intro goes_step) auto
  then show ?thesis by (intro exI [of _ ?x]) simp
qed

lemma goes_liter_ic:
  assumes "ps_pending st" and "state_info (ps_code st) = Some (Liter_ic nx fail (map lower d))" and "d \<noteq> []"
    and "nx \<notin> {ST_BODY_DATA, ST_DONE, ST_ERROR}"
  shows "\<exists>x. goes st (d @ rest) nx x rest \<and> frame {} st x \<and> ps_fn_state x = ps_fn_state st"
proof -
  let ?x = "transite_state ((reset_pending st)\<lparr>ps_sub_state := length d\<rparr>) nx"
  have "sub_parse heap st (d @ rest) = Ok (?x, Some rest)"
    using assms liter_from_match [of "reset_pending st" lower d "map lower d" nx fail rest]
    by (simp add: sub_parse_def parse_literal_ci_def) (simp add: reset_pending_def)
  then have "goes st (d @ rest) nx ?x rest" using assms(3,4) by (intro goes_step) auto
  then show ?thesis by (intro exI [of _ ?x]) simp
qed

lemma goes_ws:
  assumes "ps_pending st" and "state_info (ps_code st) = Some (Ws nx 0)" and "list_all is_ws d"
    and "rest \<noteq> []" "\<not> is_ws (hd rest)" and "nx \<notin> {ST_BODY_DATA, ST_DONE, ST_ERROR}"
  shows "\<exists>x. goes st (d @ rest) nx x rest \<and> frame {} st x \<and> ps_fn_state x = ps_fn_state st"
proof -
  let ?x = "transite_state (st\<lparr>ps_pending := False, ps_sub_state := 0\<rparr>) nx"
  have "takeWhile is_ws rest = []" "dropWhile is_ws rest = rest" using assms(4,5) by (cases rest; simp)+
  then have "takeWhile is_ws (d @ rest) = d" "dropWhile is_ws (d @ rest) = rest"
    using assms(3) by (induction d) auto
  then have "sub_parse heap st (d @ rest) = Ok (?x, Some rest)"
    using assms(1,2,4) by (simp add: sub_parse_def parse_ws_def)
  then have "goes st (d @ rest) nx ?x rest" using assms(4,6) by (intro goes_step) auto
  then show ?thesis by (intro exI [of _ ?x]) simp
qed

lemma goes_ignore:
  assumes "state_info (ps_code st) = Some (Ignore nx ch)" and "ch \<notin> set d"
    and "nx \<notin> {ST_BODY_DATA, ST_DONE, ST_ERROR}"
  shows "\<exists>x. goes st (d @ ch # rest) nx x (ch # rest) \<and> frame {} st x"
proof -
  have "dropWhile (\<lambda>c. c \<noteq> ch) (d @ ch # rest) = ch # rest" using assms(2) by (induction d) auto
  then have "sub_parse heap st (d @ ch # rest) = Ok (transite_state st nx, Some (ch # rest))"
    using assms(1) by (simp add: sub_parse_def parse_ignore_def)
  then have "goes st (d @ ch # rest) nx (transite_state st nx) (ch # rest)" using assms(3) by (intro goes_step) auto
  then show ?thesis by (intro exI [of _ "transite_state st nx"]) simp
qed

subsection \<open>Copies\<close>

lemma frame_norm: "norm x = norm y \<Longrightarrow> frame fs st x = frame fs st y"
proof -
  assume "norm x = norm y"
  then obtain k e where x: "x = tweak k e y" using norm_eq_tweak by blast
  have "ps_method (tweak k e y) = ps_method y" "ps_keep_alive (tweak k e y) = ps_keep_alive y"
    by (simp_all add: tweak_def)
  then show "frame fs st x = frame fs st y" unfolding x frame_def by simp
qed

lemma terminate_holds:
  assumes "buffer_at f xs t st"
  shows "\<exists>s. buffer_terminate st = Ok (set_str f s st) \<and> holds_text s xs"
proof -
  obtain c u where t: "t = c # u" using assms by (cases t) (auto simp: buffer_at_def)
  have "block_write (map Some xs @ c # u) (length xs) [NUL] = Ok (map Some xs @ Some NUL # u)"
    using block_write_open [of "[NUL]" "c # u" xs] by simp
  then show ?thesis using assms t by (auto simp: buffer_at_def buffer_terminate_def holds_text_def)
qed

lemma init_buffer_at:
  assumes "63 \<le> lim"
  shows "\<exists>x. init_buffer heap st f lim = (True, x) \<and> buffer_at f [] (replicate 64 None) x \<and> frame {f} st x
    \<and> ps_code x = ps_code st \<and> ps_buffer_cap x = 64"
  using assms by (auto simp: init_buffer_def Let_def buffer_at_def)

lemma buffer_at_pending [simp]: "buffer_at f xs t (st\<lparr>ps_pending := b\<rparr>) = buffer_at f xs t st"
  by (simp add: buffer_at_def)

lemma goes_copy:
  assumes "ps_pending st" and "state_info (ps_code st) = Some (Copy nx ch lim f)" and "ch \<notin> set d"
    and "length d < 64" and "63 \<le> lim" and "nx \<notin> {ST_BODY_DATA, ST_DONE, ST_ERROR}"
  shows "\<exists>x. goes st (d @ ch # rest) nx x (ch # rest) \<and> frame {f} st x \<and> holds_text (get_str f x) d"
proof -
  obtain y where y: "init_buffer heap st f lim = (True, y)" "buffer_at f [] (replicate 64 None) y" "frame {f} st y"
    "ps_buffer_cap y = 64" using init_buffer_at [OF assms(5)] by blast
  let ?y = "y\<lparr>ps_pending := False\<rparr>"
  have cut: "takeWhile (\<lambda>c. c \<noteq> ch) (d @ ch # rest) = d" "dropWhile (\<lambda>c. c \<noteq> ch) (d @ ch # rest) = ch # rest"
    using assms(3) by (induction d) auto
  have at: "buffer_at f [] (replicate 64 None) ?y" using y(2) by simp
  have fits: "\<not> too_long ?y [] d lim" using assms(4) y(4) by (simp add: too_long_def)
  obtain z where z: "norm z = norm (grown f [] (replicate 64 None) d ?y)"
    "copy_data heap ?y nx ch lim (d @ ch # rest) = copy_term z nx (ch # rest)"
    using copy_data_fits [OF at, of ch "d @ ch # rest" lim nx, unfolded cut, OF fits]
    by (auto dest: spec [of _ "[]"])
  have atz: "buffer_at f ([] @ d) (rest_block (replicate 64 None) (length d) (size_for ?y [] d - ps_buffer_cap ?y)) z"
    using buffer_at_norm [OF z(1)] buffer_at_grown [OF at, of d] by blast
  obtain s where s: "buffer_terminate z = Ok (set_str f s z)" "holds_text s d"
    using terminate_holds [OF atz] by auto
  let ?x = "transite_state (set_str f s z) nx"
  have "sub_parse heap st (d @ ch # rest) = Ok (?x, Some (ch # rest))"
    using assms(1,2) y(1) z(2) s(1) by (simp add: sub_parse_def parse_copy_def copy_term_def)
  then have "goes st (d @ ch # rest) nx ?x (ch # rest)" using assms(6) by (intro goes_step) auto
  moreover have "frame {f} st z" using y(3) frame_norm [OF z(1)] by (simp add: grown_def)
  ultimately show ?thesis using s(2) by (intro exI [of _ ?x]) simp
qed

lemma path_loop_fits:
  assumes "buffer_at F_PATH xs t st" and "ps_buffer_cap st = double_to 64 (length xs + 1)"
    and "list_all path_char d" and "length xs + length d \<le> 2047" and "\<not> path_char c"
  shows "\<exists>x u. path_loop heap st (d @ c # rest) = Ok (False, x, Some (c # rest)) \<and> frame {F_PATH} st x
    \<and> buffer_at F_PATH (xs @ d) u x"
  using assms
proof (induction d arbitrary: xs t st)
  case Nil
  then show ?case by (auto simp: path_char_def)
next
  case (Cons b d)
  have size: "size_for st xs [b] = double_to 64 (length xs + 2)"
    using Cons.prems(2) double_to_twice [of 64 "length xs + 1" "length xs + 2"] by (simp add: size_for_def)
  have "double_to 64 2048 = 2048" by code_simp
  then have "size_for st xs [b] \<le> 2048"
    using size double_to_mono [of "length xs + 2" 2048 64] Cons.prems(4) by simp
  then have "\<not> too_long st xs [b] 2048" by (simp add: too_long_def)
  then obtain st1 st2 where st2: "ensure_buffer heap st 1 2048 = Ok (E_READY, st1)" "buffer_append st1 [b] = Ok st2"
    "norm st2 = norm (grown F_PATH xs t [b] st)"
    using ensure_append(2) [OF Cons.prems(1), of "[b]" 2048] by auto
  obtain t' where at2: "buffer_at F_PATH (xs @ [b]) t' st2"
    using buffer_at_norm [OF st2(3)] buffer_at_grown [OF Cons.prems(1), of "[b]"] by blast
  have "ps_buffer_cap st2 = ps_buffer_cap (grown F_PATH xs t [b] st)"
    using norm_eq_tweak [OF st2(3)] tweak_fields(6) by metis
  then have cap: "ps_buffer_cap st2 = double_to 64 (length (xs @ [b]) + 1)" using size by (simp add: grown_def)
  have "path_loop heap st ((b # d) @ c # rest) = path_loop heap st2 (d @ c # rest)"
    using st2(1,2) Cons.prems(3) by (simp add: path_char_def)
  moreover obtain x u where "path_loop heap st2 (d @ c # rest) = Ok (False, x, Some (c # rest))"
    "frame {F_PATH} st2 x" "buffer_at F_PATH ((xs @ [b]) @ d) u x"
    using Cons.IH [OF at2 cap] Cons.prems(3-5) by auto
  moreover have "frame {F_PATH} st st2" using frame_norm [OF st2(3)] by (simp add: grown_def)
  ultimately show ?case using frame_trans [of "{F_PATH}" st st2 "{F_PATH}" x] by auto
qed

lemma goes_path:
  assumes "ps_pending st" and "ps_code st = ST_URI_PATH" and "list_all path_char d" and "length d < 2048"
  shows "\<exists>x. goes st (d @ CHR '' '' # rest) ST_VERSION x rest \<and> frame {F_PATH} st x \<and> holds_text (ps_path x) d"
proof -
  obtain y where y: "init_buffer heap st F_PATH 2048 = (True, y)" "buffer_at F_PATH [] (replicate 64 None) y"
    "frame {F_PATH} st y" "ps_buffer_cap y = 64" using init_buffer_at [of 2048 st F_PATH] by auto
  let ?y = "y\<lparr>ps_pending := False\<rparr>"
  have "double_to 64 1 = 64" by code_simp
  then obtain x u where x: "path_loop heap ?y (d @ CHR '' '' # rest) = Ok (False, x, Some (CHR '' '' # rest))"
    "frame {F_PATH} ?y x" "buffer_at F_PATH ([] @ d) u x"
    using path_loop_fits [of "[]" "replicate 64 None" ?y d "CHR '' ''" rest] y assms(3,4)
    by (auto simp: path_char_def)
  obtain s where s: "buffer_terminate x = Ok (set_str F_PATH s x)" "holds_text s d"
    using terminate_holds [OF x(3)] by auto
  let ?x = "transite_state (set_str F_PATH s x) ST_VERSION"
  have "sub_parse heap st (d @ CHR '' '' # rest) = Ok (?x, Some rest)"
    using assms(1,2) y(1) x(1) s(1) by (simp add: sub_parse_def parse_uri_path_def path_data_def)
  then have "goes st (d @ CHR '' '' # rest) ST_VERSION ?x rest" by (intro goes_step) auto
  moreover have "frame {F_PATH} st x"
    using frame_trans [of "{F_PATH}" st ?y "{F_PATH}" x] y(3) x(2) by simp
  ultimately show ?thesis
    using s(2) by (intro exI [of _ ?x]) (simp add: transite_state_def)
qed

subsection \<open>A whole request\<close>

fun method_name :: "parser_method \<Rightarrow> string" where
  "method_name METHOD_GET = ''GET''"
| "method_name METHOD_POST = ''POST''"
| "method_name METHOD_HEAD = ''HEAD''"

definition print_request :: "parser_method \<Rightarrow> string \<Rightarrow> string \<Rightarrow> string" where
  "print_request m path host = method_name m @ '' '' @ path @ '' HTTP/1.1'' @ [CR, LF]
     @ ''Host: '' @ host @ [CR, LF, CR, LF]"

lemma goes_method:
  "\<exists>x. goes new_state (method_name m @ '' '' @ rest) ST_METHOD_PATH_SEP x rest
    \<and> frame {} (new_state\<lparr>ps_method := m\<rparr>) x"
proof -
  define c where "c = (case m of METHOD_GET \<Rightarrow> ST_METHOD_GET | METHOD_POST \<Rightarrow> ST_METHOD_POST | METHOD_HEAD \<Rightarrow> ST_METHOD_HEAD)"
  define lit where "lit = tl (method_name m) @ '' ''"
  let ?x = "transite_state (new_state\<lparr>ps_method := m\<rparr>) c"
  have c: "state_info c = Some (Liter ST_METHOD_PATH_SEP lit)" "c \<notin> {ST_BODY_DATA, ST_DONE, ST_ERROR}"
    by (cases m; simp add: c_def lit_def)+
  have "sub_parse heap new_state (method_name m @ '' '' @ rest) = Ok (?x, Some (lit @ rest))"
    by (cases m) (simp_all add: sub_parse_def c_def lit_def, simp_all add: new_state_def)
  then have "goes new_state (method_name m @ '' '' @ rest) c ?x (lit @ rest)"
    using c(2) by (intro goes_step) auto
  moreover have "\<exists>y. goes ?x (lit @ rest) ST_METHOD_PATH_SEP y rest \<and> frame {} ?x y \<and> ps_fn_state y = ps_fn_state ?x"
    by (rule goes_liter) (simp_all add: c(1), simp add: lit_def)
  ultimately show ?thesis using goes_trans frame_transite by blast
qed

lemma goes_uri:
  assumes "ps_pending st" and "ps_code st = ST_METHOD_PATH_SEP"
  shows "\<exists>x. goes st (CHR ''/'' # rest) ST_URI_PATH x (CHR ''/'' # rest) \<and> frame {} st x"
proof -
  obtain x where x: "goes st (CHR ''/'' # rest) ST_URI x (CHR ''/'' # rest)" "frame {} st x"
    using goes_ws [of st ST_URI "[]" "CHR ''/'' # rest"] assms by (auto simp: is_ws_def)
  then have "sub_parse heap x (CHR ''/'' # rest) = Ok (transite_state x ST_URI_PATH, Some (CHR ''/'' # rest))"
    by (simp add: goes_def sub_parse_def)
  then have "goes x (CHR ''/'' # rest) ST_URI_PATH (transite_state x ST_URI_PATH) (CHR ''/'' # rest)"
    by (intro goes_step) auto
  then show ?thesis using x goes_trans by (metis frame_update(8))
qed

lemma goes_first_line:
  assumes "list_all path_char path" and "path \<noteq> []" "hd path = CHR ''/''" and "length path < 2048"
  shows "\<exists>x. goes new_state (method_name m @ '' '' @ path @ '' HTTP/1.1'' @ [CR, LF] @ rest) ST_FIELD_NAME_INIT x rest
    \<and> frame {F_PATH} (new_state\<lparr>ps_method := m\<rparr>) x \<and> holds_text (ps_path x) path"
proof -
  let ?tail = "''HTTP/1.1'' @ CR # LF # rest"
  obtain p where p: "path = CHR ''/'' # p" using assms(2,3) by (cases path) auto
  obtain x1 where x1: "goes new_state (method_name m @ '' '' @ path @ CHR '' '' # ?tail) ST_METHOD_PATH_SEP x1
      (path @ CHR '' '' # ?tail)" "frame {} (new_state\<lparr>ps_method := m\<rparr>) x1" using goes_method by blast
  obtain x2 where x2: "goes x1 (path @ CHR '' '' # ?tail) ST_URI_PATH x2 (path @ CHR '' '' # ?tail)" "frame {} x1 x2"
    using goes_uri [of x1 "p @ CHR '' '' # ?tail"] x1(1) unfolding p goes_def by auto
  obtain x3 where x3: "goes x2 (path @ CHR '' '' # ?tail) ST_VERSION x3 ?tail" "frame {F_PATH} x2 x3"
    "holds_text (ps_path x3) path"
    using goes_path [of x2 path ?tail] assms(1,4) x2(1) unfolding goes_def by auto
  obtain x4 where x4: "goes x3 ?tail ST_REQ_LINE_END x4 (CR # LF # rest)" "frame {} x3 x4"
    using goes_ignore [of x3 ST_REQ_LINE_END CR "''HTTP/1.1''" "LF # rest"] x3(1) by (auto simp: goes_def)
  obtain x5 where x5: "goes x4 ([CR, LF] @ rest) ST_FIELD_NAME_INIT x5 rest" "frame {} x4 x5"
    using goes_liter [of x4 ST_FIELD_NAME_INIT "[CR, LF]" rest] x4(1) by (auto simp: goes_def)
  have "goes new_state (method_name m @ '' '' @ path @ CHR '' '' # ?tail) ST_FIELD_NAME_INIT x5 rest"
    using goes_trans [OF goes_trans [OF goes_trans [OF goes_trans [OF x1(1) x2(1)] x3(1)] x4(1)]] x5(1) by simp
  moreover have "frame {F_PATH} (new_state\<lparr>ps_method := m\<rparr>) x5"
    using frame_trans [OF frame_trans [OF frame_trans [OF frame_trans [OF x1(2) x2(2)] x3(2)] x4(2)] x5(2)] by simp
  moreover have "get_str F_PATH x5 = get_str F_PATH x3"
    using frame_trans [OF x4(2) x5(2)] unfolding frame_def by blast
  ultimately show ?thesis using x3(3) by (intro exI [of _ x5]) simp
qed

lemma goes_host_name:
  assumes "ps_pending st" and "ps_code st = ST_FIELD_NAME_INIT" and "rest \<noteq> []" "\<not> is_ws (hd rest)"
    and "str_value (ps_host st) = None"
  shows "\<exists>x. goes st (''Host: '' @ rest) ST_FIELD_VAL_HOST x rest \<and> frame {} st x"
proof -
  let ?x1 = "(transite_state (st\<lparr>ps_fn_state := FN_UNKNOWN, ps_pending := False\<rparr>) ST_FIELD_NAME_HOST)\<lparr>ps_fn_state := FN_HOST\<rparr>"
  have "lower (CHR ''H'') = CHR ''h''" by code_simp
  then have "sub_parse heap st (''Host: '' @ rest) = Ok (?x1, Some (''ost: '' @ rest))"
    using assms(1,2) by (simp add: sub_parse_def Let_def)
  then have g1: "goes st (''Host: '' @ rest) ST_FIELD_NAME_HOST ?x1 (''ost:'' @ '' '' @ rest)" by (intro goes_step) auto
  have "map lower ''ost:'' = ''ost:''" by code_simp
  then have "\<exists>x. goes ?x1 (''ost:'' @ '' '' @ rest) ST_FIELD_KV_SEP x ('' '' @ rest) \<and> frame {} ?x1 x
      \<and> ps_fn_state x = ps_fn_state ?x1"
    by (intro goes_liter_ic [where fail = ST_FIELD_NOT_INST]) simp_all
  then obtain x2 where x2: "goes ?x1 (''ost:'' @ '' '' @ rest) ST_FIELD_KV_SEP x2 ('' '' @ rest)" "frame {} ?x1 x2"
    "ps_fn_state x2 = FN_HOST" by auto
  have "\<exists>x. goes x2 ('' '' @ rest) ST_FIELD_VALUE x rest \<and> frame {} x2 x \<and> ps_fn_state x = ps_fn_state x2"
    by (rule goes_ws) (use x2(1) assms(3,4) in \<open>simp_all add: goes_def is_ws_def\<close>)
  then obtain x3 where x3: "goes x2 ('' '' @ rest) ST_FIELD_VALUE x3 rest" "frame {} x2 x3" "ps_fn_state x3 = FN_HOST"
    using x2(3) by auto
  have f3: "frame {} st x3" using frame_trans [OF x2(2) x3(2)] by (simp add: frame_def transite_state_def)
  have "get_str F_HOST x3 = get_str F_HOST st" using f3 unfolding frame_def by blast
  then have "str_value (ps_host x3) = None" using assms(5) by simp
  then have "str_value (ps_host (reset_pending x3)) = None" by (simp add: reset_pending_def)
  then have "sub_parse heap x3 rest = Ok (transite_state (reset_pending x3) ST_FIELD_VAL_HOST, Some rest)"
    using x3(1,3) by (simp add: goes_def sub_parse_def parse_field_value_def Let_def)
  then have "goes x3 rest ST_FIELD_VAL_HOST (transite_state (reset_pending x3) ST_FIELD_VAL_HOST) rest"
    using assms(3) by (intro goes_step) auto
  then have "goes st (''Host: '' @ rest) ST_FIELD_VAL_HOST (transite_state (reset_pending x3) ST_FIELD_VAL_HOST) rest"
    using goes_trans [OF goes_trans [OF goes_trans [OF g1 x2(1)] x3(1)]] by blast
  then show ?thesis using f3 by (intro exI [of _ "transite_state (reset_pending x3) ST_FIELD_VAL_HOST"]) simp
qed

lemma goes_host:
  assumes "ps_pending st" and "ps_code st = ST_FIELD_NAME_INIT" and "CR \<notin> set host" "length host < 64"
    "host = [] \<or> \<not> is_ws (hd host)" and "str_value (ps_host st) = None"
  shows "\<exists>x. goes st (''Host: '' @ host @ [CR, LF] @ rest) ST_FIELD_NAME_INIT x rest \<and> frame {F_HOST} st x
    \<and> holds_text (ps_host x) host"
proof -
  let ?tail = "host @ CR # LF # rest"
  have "hd ?tail = (if host = [] then CR else hd host)" by simp
  then have "\<not> is_ws (hd ?tail)" using assms(5) by (auto simp: is_ws_def)
  then obtain x1 where x1: "goes st (''Host: '' @ ?tail) ST_FIELD_VAL_HOST x1 ?tail" "frame {} st x1"
    using goes_host_name [OF assms(1,2), of ?tail] assms(6) by auto
  have "\<exists>x. goes x1 ?tail ST_FIELD_LINE_END x (CR # LF # rest) \<and> frame {F_HOST} x1 x \<and> holds_text (get_str F_HOST x) host"
    by (rule goes_copy [where lim = 64]) (use x1(1) assms(3,4) in \<open>simp_all add: goes_def\<close>)
  then obtain x2 where x2: "goes x1 ?tail ST_FIELD_LINE_END x2 (CR # LF # rest)" "frame {F_HOST} x1 x2"
    "holds_text (get_str F_HOST x2) host" by auto
  have "\<exists>x. goes x2 ([CR, LF] @ rest) ST_FIELD_NAME_INIT x rest \<and> frame {} x2 x \<and> ps_fn_state x = ps_fn_state x2"
    by (rule goes_liter) (use x2(1) in \<open>simp_all add: goes_def\<close>)
  then obtain x3 where x3: "goes x2 (CR # LF # rest) ST_FIELD_NAME_INIT x3 rest" "frame {} x2 x3" by auto
  have "goes st (''Host: '' @ ?tail) ST_FIELD_NAME_INIT x3 rest"
    using goes_trans [OF goes_trans [OF x1(1) x2(1)] x3(1)] .
  moreover have "frame {F_HOST} st x3" using frame_trans [OF frame_trans [OF x1(2) x2(2)] x3(2)] by simp
  moreover have "get_str F_HOST x3 = get_str F_HOST x2" using x3(2) unfolding frame_def by blast
  ultimately show ?thesis using x2(3) by (intro exI [of _ x3]) simp
qed

text \<open>The empty line ends a request without a body.\<close>

lemma parse_end:
  assumes "ps_pending st" and "ps_code st = ST_FIELD_NAME_INIT" and "ps_content_length st = 0"
    "str_length (ps_body st) = 0"
  shows "\<exists>x. parse_next_buf heap st [CR, LF] = Some (Ok (x, Some [])) \<and> frame {} st x
    \<and> ps_code x = ST_DONE \<and> \<not> ps_pending x"
proof -
  let ?x1 = "transite_state (st\<lparr>ps_fn_state := FN_UNKNOWN, ps_pending := False\<rparr>) ST_BODY_BEGIN"
  have "lower CR = CR" by code_simp
  then have "sub_parse heap st [CR, LF] = Ok (?x1, Some [CR, LF])"
    using assms(1,2) by (simp add: sub_parse_def Let_def)
  then have g1: "goes st [CR, LF] ST_BODY_BEGIN ?x1 [CR, LF]" by (intro goes_step) auto
  let ?x2 = "transite_state ((reset_pending ?x1)\<lparr>ps_sub_state := 2\<rparr>) ST_BODY_DATA"
  have "liter_from (\<lambda>c. c) (reset_pending ?x1) ST_BODY_DATA ST_ERROR [CR, LF] ([CR, LF] @ [])
      = Ok (transite_state ((reset_pending ?x1)\<lparr>ps_sub_state := length [CR, LF]\<rparr>) ST_BODY_DATA, Some [])"
    by (rule liter_from_match) (simp_all add: reset_pending_def)
  then have "sub_parse heap ?x1 [CR, LF] = Ok (?x2, Some [])"
    by (simp add: sub_parse_def parse_literal_def eval_nat_numeral)
  moreover have "ps_content_length ?x2 = 0" "str_length (ps_body ?x2) = 0" using assms(3,4) by simp_all
  ultimately have "parse_next_buf heap ?x1 [CR, LF] = Some (Ok (?x2\<lparr>ps_code := ST_DONE, ps_pending := False\<rparr>, Some []))"
    by (simp add: parse_Cons [of "[CR, LF]" _ ?x1] body_complete_def halted_def)
  then show ?thesis
    using g1 by (intro exI [of _ "?x2\<lparr>ps_code := ST_DONE, ps_pending := False\<rparr>"]) (simp add: goes_def)
qed

lemma holds_text_value: "holds_text s xs \<Longrightarrow> str_value s \<noteq> None"
  by (auto simp: holds_text_def)

text \<open>C10: Parsing gives back what was printed. A request with a path of at most 2047 characters and a host
  of at most 63 is consumed completely; the parser is done without an error and holds the method, the
  path and the host, each terminated in its block.\<close>

theorem request_roundtrip:
  assumes "list_all path_char path" "path \<noteq> []" "hd path = CHR ''/''" "length path < 2048"
    and "CR \<notin> set host" "length host < 64" "host = [] \<or> \<not> is_ws (hd host)"
  shows "\<exists>st. parser_process_next_buf heap new_state (Some (print_request m path host))
      = Some (Ok (st, Some (length (print_request m path host))))
    \<and> parser_state_done st \<and> \<not> ps_error st \<and> ps_method st = m \<and> ps_keep_alive st
    \<and> holds_text (ps_path st) path \<and> holds_text (ps_host st) host"
proof -
  let ?fields = "''Host: '' @ host @ [CR, LF] @ [CR, LF]"
  have req: "print_request m path host = method_name m @ '' '' @ path @ '' HTTP/1.1'' @ [CR, LF] @ ?fields"
    by (simp add: print_request_def)
  obtain x1 where x1: "goes new_state (print_request m path host) ST_FIELD_NAME_INIT x1 ?fields"
    "frame {F_PATH} (new_state\<lparr>ps_method := m\<rparr>) x1" "holds_text (ps_path x1) path"
    using goes_first_line [OF assms(1-4), of m ?fields] unfolding req by blast
  have "get_str F_HOST x1 = get_str F_HOST (new_state\<lparr>ps_method := m\<rparr>)" using x1(2) unfolding frame_def by blast
  then have "str_value (ps_host x1) = None" by (simp add: new_state_def)
  then obtain x2 where x2: "goes x1 ?fields ST_FIELD_NAME_INIT x2 [CR, LF]" "frame {F_HOST} x1 x2"
    "holds_text (ps_host x2) host"
    using goes_host [of x1 host "[CR, LF]"] x1(1) assms(5-7) unfolding goes_def by blast
  have f2: "frame {F_PATH, F_HOST} (new_state\<lparr>ps_method := m\<rparr>) x2"
    using frame_trans [OF x1(2) x2(2)] by (simp add: insert_commute)
  then obtain x3 where x3: "parse_next_buf heap x2 [CR, LF] = Some (Ok (x3, Some []))" "frame {} x2 x3"
    "ps_code x3 = ST_DONE" "\<not> ps_pending x3"
    using parse_end [of x2] x2(1) by (auto simp: goes_def frame_def new_state_def)
  have run: "parse_next_buf heap new_state (print_request m path host) = Some (Ok (x3, Some []))"
    using x1(1) x2(1) x3(1) by (simp add: goes_def)
  have f3: "frame {F_PATH, F_HOST} (new_state\<lparr>ps_method := m\<rparr>) x3" using frame_trans [OF f2 x3(2)] by simp
  have strs: "get_str F_HOST x3 = get_str F_HOST x2" "get_str F_PATH x3 = get_str F_PATH x1"
    using x3(2) x2(2) unfolding frame_def by (metis empty_iff, metis empty_iff insertE str_field.distinct(1))
  have "get_str F_RANGE_TEXT x3 = get_str F_RANGE_TEXT (new_state\<lparr>ps_method := m\<rparr>)"
    using f3 unfolding frame_def by blast
  then have "str_value (ps_range_text x3) = None" by (simp add: new_state_def)
  then have "finish_request (x3\<lparr>ps_empty := False\<rparr>) = Ok (x3\<lparr>ps_empty := False\<rparr>)"
    using holds_text_value [OF x1(3)] holds_text_value [OF x2(3)] strs
    by (auto simp: finish_request_def finish_range_def)
  moreover have "print_request m path host \<noteq> []" by (simp add: print_request_def)
  ultimately have "parser_process_next_buf heap new_state (Some (print_request m path host))
      = Some (Ok (x3\<lparr>ps_empty := False\<rparr>, Some (length (print_request m path host))))"
    using run x3(3) by (simp add: process_finish finish_call_def)
  then show ?thesis
    using x3(3,4) f3 strs x1(3) x2(3)
    by (intro exI [of _ "x3\<lparr>ps_empty := False\<rparr>"])
      (auto simp: parser_state_done_def frame_def new_state_def)
qed

theorem request_roundtrip_witness:
  "\<exists>st. parser_process_next_buf heap new_state (Some (print_request METHOD_GET ''/index'' ''a.b''))
      = Some (Ok (st, Some (length (print_request METHOD_GET ''/index'' ''a.b''))))
    \<and> parser_state_done st \<and> \<not> ps_error st \<and> holds_text (ps_path st) ''/index'' \<and> holds_text (ps_host st) ''a.b''"
proof -
  have "list_all path_char ''/index''" "\<not> is_ws (hd ''a.b'')" by (simp_all add: path_char_def is_ws_def)
  then show ?thesis using request_roundtrip [of "''/index''" "''a.b''" METHOD_GET] by auto
qed

text \<open>
  The name of a field is compared without regard to case, except the character that tells
  \<^verbatim>\<open>Connection\<close> from \<^verbatim>\<open>Content-Length\<close>: in capitals the length is not seen.
\<close>

lemma content_length_case:
  "case parser_process_next_buf heap new_state
       (Some (''POST / x'' @ [CR, LF] @ ''CONTENT-LENGTH: 5'' @ [CR, LF, CR, LF])) of
     Some (Ok (st, n)) \<Rightarrow> ps_content_length st = 0 \<and> ps_code st = ST_DONE | _ \<Rightarrow> False"
  by code_simp

end
