(* ===== verification/HttpStream.thy ===== *)
theory HttpStream
  imports HttpRequest Chunks
begin

text \<open>
  The request parser as a machine that is fed with the buffers of a connection. The client feeds
  until the request is done and gives up when a call returns the error code.
\<close>

definition give_up :: "parser_state \<Rightarrow> parser_state" where
  "give_up st = st\<lparr>ps_code := ST_ERROR, ps_error := True\<rparr>"

definition http_feed :: "parser_state \<Rightarrow> string \<Rightarrow> parser_state" where
  "http_feed st data =
     (if halted st \<or> data = [] then st
      else (case parser_process_next_buf heap st (Some data) of
          Some (Ok (st', Some n)) \<Rightarrow> st'
        | Some (Ok (st', None)) \<Rightarrow> give_up st'
        | _ \<Rightarrow> st))"

text \<open>The request failed in both, or the states agree up to bookkeeping.\<close>

definition same_request :: "parser_state \<Rightarrow> parser_state \<Rightarrow> bool" where
  "same_request u v \<longleftrightarrow> (ps_error u \<and> ps_error v \<and> halted u \<and> halted v) \<or> norm u = norm v"

lemma norm_halted: "norm u = norm v \<Longrightarrow> halted u = halted v \<and> ps_error u = ps_error v"
  using norm_eq_tweak [of u v] by (metis halted_def tweak_fields(1,12))

lemma give_up_simps [simp]:
  "ready (give_up st)" "halted (give_up st)" "ps_error (give_up st)"
  by (simp_all add: give_up_def ready_error halted_def)

lemma feed_call:
  assumes "ready st" "\<not> halted st" "data \<noteq> []"
  obtains st' n where "parser_process_next_buf heap st (Some data) = Some (Ok (st', n))" "ready st'"
    "http_feed st data = (if n = None then give_up st' else st')"
proof -
  obtain st' n where call: "parser_process_next_buf heap st (Some data) = Some (Ok (st', n))" "ready st'"
    using process_returns [OF assms(1,2) no_empty_heap, of "Some data"] by blast
  then have "http_feed st data = (if n = None then give_up st' else st')"
    using assms by (cases n) (simp_all add: http_feed_def)
  then show ?thesis using that call by blast
qed

lemma http_feed_idle [simp]: "halted st \<Longrightarrow> http_feed st data = st" "http_feed st [] = st"
  by (simp_all add: http_feed_def)

text \<open>Calls that look the same lead to the same request.\<close>

lemma same_call_request:
  assumes "same_call k (Some (Ok (u, m))) (Some (Ok (v, n)))"
  shows "same_request (if m = None then give_up u else u) (if n = None then give_up v else v)"
  using assms by (auto simp: same_call_def same_request_def)

lemma http_feed_ready:
  assumes "ready st"
  shows "ready (http_feed st data)"
proof (cases "halted st \<or> data = []")
  case False
  then have idle: "\<not> halted st" "data \<noteq> []" by auto
  obtain st' n where call: "parser_process_next_buf heap st (Some data) = Some (Ok (st', n))" "ready st'"
    "http_feed st data = (if n = None then give_up st' else st')"
    by (rule feed_call [OF assms idle])
  then show ?thesis by (cases n) simp_all
qed (use assms in auto)

lemma http_feed_same:
  assumes "ready u" "ready v" "same_request u v"
  shows "same_request (http_feed u data) (http_feed v data)"
proof (cases "halted v \<or> data = []")
  case True
  then show ?thesis using assms norm_halted [of u v] by (auto simp: same_request_def)
next
  case False
  then have v: "\<not> halted v" "data \<noteq> []" "norm u = norm v" using assms(3) by (auto simp: same_request_def)
  have u: "\<not> halted u" using v norm_halted by blast
  obtain w ret where w: "parse_next_buf heap v data = Some (Ok (w, ret))" "ready w"
    "case ret of None \<Rightarrow> \<not> halted w \<and> (\<exists>k n. \<not> heap k n) | Some rest \<Rightarrow> suffix rest data \<and> (rest = [] \<or> halted w)"
    using parse_next_buf_returns [OF assms(2) disjI1 [OF v(1)] no_empty_heap, of data] by blast
  have "map_option nout (parse_next_buf heap u data) = Some (Ok (norm w, ret))"
    using parse_norm [OF assms(2) v(1) v(3), of data] w(1) by (simp add: nout_def)
  then obtain y where y: "parse_next_buf heap u data = Some (Ok (y, ret))" "norm y = norm w"
    using nout_eq_Ok by blast
  have "\<And>r. ret = Some r \<Longrightarrow> length r \<le> length data" using w(3) suffix_length_le by auto
  then have "same_call 0 (parser_process_next_buf heap u (Some data)) (parser_process_next_buf heap v (Some data))"
    using finish_call_norm [OF y(2) w(2), of ret "length data" 0] v(2) y(1) w(1) by (simp add: process_finish)
  moreover obtain x n where "parser_process_next_buf heap u (Some data) = Some (Ok (x, n))"
    "http_feed u data = (if n = None then give_up x else x)" using feed_call [OF assms(1) u v(2)] by blast
  moreover obtain x' n' where "parser_process_next_buf heap v (Some data) = Some (Ok (x', n'))"
    "http_feed v data = (if n' = None then give_up x' else x')" using feed_call [OF assms(2) v(1,2)] by blast
  ultimately show ?thesis using same_call_request by simp
qed

lemma http_feed_append:
  assumes "ready st"
  shows "same_request (http_feed (http_feed st a) b) (http_feed st (a @ b))"
proof (cases "halted st \<or> a = [] \<or> b = []")
  case True
  then show ?thesis by (auto simp: same_request_def)
next
  case False
  then have st: "\<not> halted st" "a \<noteq> []" "b \<noteq> []" "a @ b \<noteq> []" by auto
  obtain x n where x: "parser_process_next_buf heap st (Some a) = Some (Ok (x, n))" "ready x"
    "http_feed st a = (if n = None then give_up x else x)" using feed_call [OF assms st(1,2)] by blast
  obtain y m where y: "parser_process_next_buf heap st (Some (a @ b)) = Some (Ok (y, m))"
    "http_feed st (a @ b) = (if m = None then give_up y else y)" using feed_call [OF assms st(1,4)] by blast
  show ?thesis
  proof (cases n)
    case None
    obtain z ret where z: "parse_next_buf heap st a = Some (Ok (z, ret))"
      "case ret of None \<Rightarrow> \<not> halted z \<and> (\<exists>k n. \<not> heap k n) | Some rest \<Rightarrow> suffix rest a \<and> (rest = [] \<or> halted z)"
      "ready z"
      using parse_next_buf_returns [OF assms disjI1 [OF st(1)] no_empty_heap, of a] by blast
    have "ret = None"
    proof (rule ccontr)
      assume "ret \<noteq> None"
      then obtain r where r: "ret = Some r" by blast
      then have "finish_call (length a) (z, Some r) = Ok (x, None)" using x(1) None z(1) st(2) by (simp add: process_finish)
      then show False by (auto simp: finish_call_def Let_def result_simps split: if_splits)
    qed
    then have "parse_next_buf heap st (a @ b) = Some (Ok (z, None))" "x = z"
      using parse_None [OF assms st(1,3)] z(1) x(1) st(2) by (auto simp: process_finish finish_call_def)
    then have "m = None" using y(1) st by (auto simp: process_finish finish_call_def)
    then show ?thesis using x(3) y(2) None by (simp add: same_request_def)
  next
    case (Some k)
    note cut = chunks_ready [OF assms st(1) x(1)[unfolded Some] st(3)]
    show ?thesis
    proof (cases "halted x")
      case True
      then show ?thesis using cut x y Some by (simp add: same_request_def)
    next
      case False
      then have same: "same_call (length a) (Some (Ok (y, m))) (parser_process_next_buf heap x (Some b))"
        using cut y(1) by simp
      obtain w l where w: "parser_process_next_buf heap x (Some b) = Some (Ok (w, l))"
        "http_feed x b = (if l = None then give_up w else w)" using feed_call [OF x(2) False st(3)] by blast
      have "same_request (http_feed st (a @ b)) (http_feed x b)"
        using same_call_request [of "length a" y m w l] same w y(2) by simp
      then show ?thesis using x(3) Some by (auto simp: same_request_def)
    qed
  qed
qed

lemma same_request_trans: "\<lbrakk> same_request s u; same_request u v \<rbrakk> \<Longrightarrow> same_request s v"
  using norm_halted [of s u] norm_halted [of u v] by (auto simp: same_request_def)

interpretation http: stream_machine ready "\<lambda>st data. True" http_feed same_request
  by unfold_locales
    (use http_feed_ready http_feed_same http_feed_append same_request_trans in \<open>auto simp: same_request_def\<close>)

text \<open>C9: A request that arrives in any number of buffers leaves the parser in the state that the
  same bytes in one buffer leave it in, up to bookkeeping, or the request is broken in both cases.\<close>

theorem connection_cut_irrelevant:
  "same_request (foldl http_feed new_state buffers) (http_feed new_state (concat buffers))"
  using http.cut_irrelevant [of new_state buffers] new_state_inv by (simp add: ready_def list_all_iff)

end
