(* ===== verification/Ring.thy ===== *)
theory Ring
  imports Prelude
begin

unbundle bit_operations_syntax

text \<open>
  Ring buffers with 32-bit positions that only ever grow and wrap around: the queue of the event
  loop and the queue of the async processor. The capacity is a power of two, the slot of a position
  is its lower bits, and the number of elements is the difference of the two positions modulo
  \<open>2 ^ 32\<close>. The locale proves that storing and advancing are the operations of a bounded queue,
  however often the positions have wrapped.
\<close>

definition ring_slot :: "32 word \<Rightarrow> 32 word \<Rightarrow> nat" where
  "ring_slot cap pos = unat (pos AND (cap - 1))"

definition ring_length :: "32 word \<Rightarrow> 32 word \<Rightarrow> nat" where
  "ring_length front rear = unat (rear - front)"

definition ring_contents :: "32 word \<Rightarrow> 32 word \<Rightarrow> 32 word \<Rightarrow> 'a list \<Rightarrow> 'a list" where
  "ring_contents cap front rear cells =
     map (\<lambda>i. cells ! ring_slot cap (front + of_nat i)) [0..<ring_length front rear]"

definition ring_wf :: "32 word \<Rightarrow> 32 word \<Rightarrow> 32 word \<Rightarrow> 'a list \<Rightarrow> bool" where
  "ring_wf cap front rear cells \<longleftrightarrow>
     (\<exists>k<32. cap = 2 ^ k \<and> length cells = 2 ^ k \<and> ring_length front rear \<le> 2 ^ k)"

subsection \<open>Slots\<close>

lemma unat_pow: "k < 32 \<Longrightarrow> unat (2 ^ k :: 32 word) = 2 ^ k"
proof -
  assume "k < 32"
  then have "(2 :: nat) ^ k < 2 ^ 32" by (intro power_strict_increasing) simp_all
  then show ?thesis using unat_of_nat [of "2 ^ k", where 'a = 32] by simp
qed

lemma ring_slot_mod:
  assumes "k < 32"
  shows "ring_slot (2 ^ k) pos = unat pos mod 2 ^ k"
proof -
  have "(2 ^ k - 1 :: 32 word) = mask k" by (simp add: mask_eq_exp_minus_1)
  then have "ring_slot (2 ^ k) pos = unat (take_bit k pos)" by (simp only: ring_slot_def take_bit_eq_mask)
  also have "\<dots> = unat pos mod 2 ^ k" by (simp only: unsigned_take_bit_eq) (simp only: take_bit_eq_mod)
  finally show ?thesis .
qed

lemma pow_dvd_word: "k \<le> 32 \<Longrightarrow> (2 :: nat) ^ k dvd 2 ^ 32"
  by (rule le_imp_power_dvd)

lemma ring_slot_add:
  assumes "k < 32"
  shows "ring_slot (2 ^ k) (pos + of_nat i) = (unat pos + i) mod 2 ^ k"
proof -
  have "unat (pos + of_nat i) mod 2 ^ k = (unat pos + i mod 2 ^ 32) mod 2 ^ k"
    using pow_dvd_word [of k] assms by (simp add: unat_word_ariths unat_of_nat mod_mod_cancel)
  also have "\<dots> = (unat pos + i) mod 2 ^ k"
    using pow_dvd_word [of k] assms by (metis less_imp_le mod_add_right_eq mod_mod_cancel)
  finally show ?thesis using ring_slot_mod [OF assms] by simp
qed

lemma mod_window:
  fixes a :: nat
  assumes "(a + i) mod n = (a + j) mod n" and "i < n" and "j < n"
  shows "i = j"
proof (cases "i \<le> j")
  case True
  then have "n dvd j - i" using assms(1) mod_eq_dvd_iff_nat [of "a + i" "a + j" n] by simp
  then show ?thesis using True assms(3) by (auto dest: dvd_imp_le)
next
  case False
  then have "n dvd i - j" using assms(1) mod_eq_dvd_iff_nat [of "a + j" "a + i" n] by simp
  then show ?thesis using False assms(2) by (auto dest: dvd_imp_le)
qed

lemma ring_slot_bound: "ring_wf cap front rear cells \<Longrightarrow> ring_slot cap pos < length cells"
  by (auto simp: ring_wf_def ring_slot_mod)

text \<open>The queue is full exactly when the positions differ by the capacity.\<close>

lemma ring_full_iff:
  assumes "ring_wf cap front rear cells"
  shows "rear = front + cap \<longleftrightarrow> ring_length front rear = length cells"
proof -
  obtain k where k: "k < 32" "cap = 2 ^ k" "length cells = 2 ^ k" using assms by (auto simp: ring_wf_def)
  have "rear = front + cap \<longleftrightarrow> rear - front = cap" by (auto simp: algebra_simps)
  also have "\<dots> \<longleftrightarrow> unat (rear - front) = unat cap" by (simp add: word_unat_eq_iff)
  also have "unat cap = 2 ^ k" using unat_pow [OF k(1)] k(2) by simp
  finally show ?thesis using k(3) by (simp add: ring_length_def)
qed

lemma ring_length_contents [simp]: "length (ring_contents cap front rear cells) = ring_length front rear"
  by (simp add: ring_contents_def)

lemma ring_length_bound: "ring_wf cap front rear cells \<Longrightarrow> ring_length front rear \<le> length cells"
  by (auto simp: ring_wf_def)

subsection \<open>Storing and advancing\<close>

lemma unat_diff_add:
  fixes front rear :: "32 word"
  assumes "unat (rear - front) + n < 2 ^ 32"
  shows "unat (rear + of_nat n - front) = unat (rear - front) + n"
proof -
  have "rear + of_nat n - front = (rear - front) + of_nat n" by simp
  also have "unat \<dots> = (unat (rear - front) + n mod 2 ^ 32) mod 2 ^ 32"
    by (simp add: unat_word_ariths unat_of_nat)
  also have "\<dots> = unat (rear - front) + n" using assms by simp
  finally show ?thesis .
qed

lemma unat_diff_sub:
  fixes front rear :: "32 word"
  assumes "n \<le> unat (rear - front)"
  shows "unat (rear - (front + of_nat n)) = unat (rear - front) - n"
proof -
  have n: "n < 2 ^ 32" using assms unsigned_less [of "rear - front", where 'a = nat] by simp
  then have "unat (of_nat n :: 32 word) = n" by (simp add: unat_of_nat)
  moreover have "of_nat n \<le> rear - front" using assms n by (simp add: word_le_nat_alt unat_of_nat)
  ultimately show ?thesis using unat_sub [of "of_nat n" "rear - front"] by (simp add: algebra_simps)
qed

lemma ring_store:
  assumes wf: "ring_wf cap front rear cells" and room: "ring_length front rear < length cells"
  shows "ring_wf cap front (rear + 1) (cells[ring_slot cap rear := x])"
    and "ring_contents cap front (rear + 1) (cells[ring_slot cap rear := x]) = ring_contents cap front rear cells @ [x]"
proof -
  obtain k where k: "k < 32" "cap = 2 ^ k" "length cells = 2 ^ k" using wf by (auto simp: ring_wf_def)
  let ?n = "unat (rear - front)"
  have n: "?n < 2 ^ k" using room k(3) by (simp add: ring_length_def)
  have "(2 :: nat) ^ k \<le> 2 ^ 31" using k(1) by (intro power_increasing) simp_all
  then have len: "ring_length front (rear + 1) = ?n + 1"
    using unat_diff_add [of rear front 1] n by (simp add: ring_length_def)
  show "ring_wf cap front (rear + 1) (cells[ring_slot cap rear := x])"
    using k len n by (auto simp: ring_wf_def)
  have rear: "rear = front + of_nat ?n" by simp
  have slot: "ring_slot cap (front + of_nat i) = (unat front + i) mod 2 ^ k" for i
    using ring_slot_add [OF k(1)] k(2) by simp
  have at: "ring_slot cap rear = (unat front + ?n) mod 2 ^ k" by (subst rear, rule slot)
  have "i \<noteq> ?n \<Longrightarrow> i < ?n \<Longrightarrow> (unat front + i) mod 2 ^ k \<noteq> (unat front + ?n) mod 2 ^ k" for i
    using mod_window [of "unat front" i "2 ^ k" ?n] n by auto
  then show "ring_contents cap front (rear + 1) (cells[ring_slot cap rear := x]) = ring_contents cap front rear cells @ [x]"
    using k(3) by (simp add: ring_contents_def len slot at) (fastforce simp: ring_length_def nth_list_update)
qed

lemma ring_advance:
  assumes wf: "ring_wf cap front rear cells" and n: "n \<le> ring_length front rear"
  shows "ring_wf cap (front + of_nat n) rear cells"
    and "ring_contents cap (front + of_nat n) rear cells = drop n (ring_contents cap front rear cells)"
proof -
  have len: "ring_length (front + of_nat n) rear = ring_length front rear - n"
    using unat_diff_sub n by (simp add: ring_length_def)
  show "ring_wf cap (front + of_nat n) rear cells" using wf len by (auto simp: ring_wf_def)
  have "front + of_nat n + of_nat i = front + of_nat (n + i)" for i by simp
  then show "ring_contents cap (front + of_nat n) rear cells = drop n (ring_contents cap front rear cells)"
    by (intro nth_equalityI) (simp_all add: ring_contents_def len add.assoc)
qed

lemma ring_nth:
  "i < ring_length front rear \<Longrightarrow> cells ! ring_slot cap (front + of_nat i) = ring_contents cap front rear cells ! i"
  by (simp add: ring_contents_def)

lemma ring_empty: "ring_contents cap front front cells = []" "ring_length front front = 0"
  by (simp_all add: ring_contents_def ring_length_def)

lemma ring_empty_iff: "front = rear \<longleftrightarrow> ring_length front rear = 0"
  by (auto simp: ring_length_def unat_eq_0)

subsection \<open>The interface\<close>

text \<open>
  What a component has to show of its queue: one operation stores an element at the slot of the rear
  and moves the rear, the other moves the front.
\<close>

locale ring =
  fixes cap :: "'s \<Rightarrow> 32 word" and front :: "'s \<Rightarrow> 32 word" and rear :: "'s \<Rightarrow> 32 word"
    and cells :: "'s \<Rightarrow> 'a list" and put :: "'a \<Rightarrow> 's \<Rightarrow> 's" and skip :: "nat \<Rightarrow> 's \<Rightarrow> 's"
  assumes put: "cap (put x s) = cap s" "front (put x s) = front s" "rear (put x s) = rear s + 1"
      "cells (put x s) = (cells s)[ring_slot (cap s) (rear s) := x]"
    and skip: "cap (skip n s) = cap s" "front (skip n s) = front s + of_nat n" "rear (skip n s) = rear s"
      "cells (skip n s) = cells s"
begin

lemma put_queue:
  assumes "ring_wf (cap s) (front s) (rear s) (cells s)" and "ring_length (front s) (rear s) < length (cells s)"
  shows "ring_wf (cap (put x s)) (front (put x s)) (rear (put x s)) (cells (put x s))"
    and "ring_contents (cap (put x s)) (front (put x s)) (rear (put x s)) (cells (put x s))
      = ring_contents (cap s) (front s) (rear s) (cells s) @ [x]"
  using ring_store [OF assms] by (simp_all add: put)

lemma skip_queue:
  assumes "ring_wf (cap s) (front s) (rear s) (cells s)" and "n \<le> ring_length (front s) (rear s)"
  shows "ring_wf (cap (skip n s)) (front (skip n s)) (rear (skip n s)) (cells (skip n s))"
    and "ring_contents (cap (skip n s)) (front (skip n s)) (rear (skip n s)) (cells (skip n s))
      = drop n (ring_contents (cap s) (front s) (rear s) (cells s))"
  using ring_advance [OF assms] by (simp_all add: skip)

lemma head_slot:
  assumes "front s \<noteq> rear s"
  shows "cells s ! ring_slot (cap s) (front s) = hd (ring_contents (cap s) (front s) (rear s) (cells s))"
  using ring_nth [of 0 "front s" "rear s" "cells s" "cap s"] ring_empty_iff [of "front s" "rear s"] assms
  by (simp add: hd_conv_nth flip: length_greater_0_conv)

end

end
