(* ===== verification/EQueue.thy ===== *)
theory EQueue
  imports Vector Ring "HOL-Library.Sublist"
begin

unbundle bit_operations_syntax

text \<open>
  The event queue, \<^verbatim>\<open>src/itc/equeue.c\<close>: one ring buffer per module thread, filled by that thread and
  emptied by the dispatcher. The operations on the mutexes and condition variables succeed, as they
  do on initialised objects; what they are for is modelled: the ownership of the take mutex, the
  signals that are sent, and, for a ring that two threads use at the same time, every interleaving
  of their accesses. Pipes, loops, tasks and handles are addresses, \<open>None\<close> is NULL.
\<close>

subsection \<open>Data\<close>

datatype itc_equeue_event =
    IoEvent "nat option" "nat option"
  | TaskEvent "nat option" "nat option" "nat option"
  | OtherEvent "32 word"

definition ITC_EQUEUE_EVENT_TYPE_IO :: "32 word" where "ITC_EQUEUE_EVENT_TYPE_IO = 0"
definition ITC_EQUEUE_EVENT_TYPE_TASK :: "32 word" where "ITC_EQUEUE_EVENT_TYPE_TASK = 1"
definition ITC_EQUEUE_EVENT_TYPE_COUNT :: "32 word" where "ITC_EQUEUE_EVENT_TYPE_COUNT = 2"

fun event_type :: "itc_equeue_event \<Rightarrow> 32 word" where
  "event_type (IoEvent i out) = ITC_EQUEUE_EVENT_TYPE_IO"
| "event_type (TaskEvent lp t h) = ITC_EQUEUE_EVENT_TYPE_TASK"
| "event_type (OtherEvent t) = t"

definition mask_allows :: "32 word \<Rightarrow> 32 word \<Rightarrow> bool" where
  "mask_allows msk type \<longleftrightarrow> msk AND push_bit (unat type) 1 \<noteq> 0"

definition SCHED_TOKEN :: "32 word" where "SCHED_TOKEN = NOT 1"
definition ERROR_TOKEN :: "32 word" where "ERROR_TOKEN = - 1"

definition ITC_EQUEUE_VEC_INIT_SIZE :: nat where "ITC_EQUEUE_VEC_INIT_SIZE = 4"

record equeue_queue =
  q_type :: "32 word"
  q_size :: "32 word"
  q_front :: "32 word"
  q_rear :: "32 word"
  q_events :: "itc_equeue_event list"

text \<open>\<open>eq_take_signals\<close> counts the signals to the dispatcher, \<open>eq_put_signals\<close> those to module threads.\<close>

record equeue =
  eq_next_token :: "32 word"
  eq_sched_called :: bool
  eq_queues :: "equeue_queue vector"
  eq_waiting :: "32 word"
  eq_take_locked :: bool
  eq_take_signals :: nat
  eq_put_signals :: nat

definition queue_at :: "equeue \<Rightarrow> nat \<Rightarrow> equeue_queue result" where
  "queue_at eq i = vector_get (eq_queues eq) i"

definition set_queue :: "nat \<Rightarrow> equeue_queue \<Rightarrow> equeue \<Rightarrow> equeue" where
  "set_queue i q eq = eq\<lparr>eq_queues := (eq_queues eq)\<lparr>vec_data := (vec_data (eq_queues eq))[i := q]\<rparr>\<rparr>"

subsection \<open>Tokens\<close>

text \<open>\<open>mem\<close>: 0 the global mutex, 1 the vector, 2 the condition variable, 3 the take mutex.\<close>

definition itc_equeue_init :: "alloc \<Rightarrow> equeue result" where
  "itc_equeue_init mem =
     (if \<not> mem 0 then Error
      else rbind (vector_new (mem 1) ITC_EQUEUE_VEC_INIT_SIZE) (\<lambda>qs.
        if \<not> mem 2 \<or> \<not> mem 3 then Error
        else Ok \<lparr>eq_next_token = 0, eq_sched_called = False, eq_queues = qs, eq_waiting = 0,
                 eq_take_locked = False, eq_take_signals = 0, eq_put_signals = 0\<rparr>))"

text \<open>The size of a ring: doubled once per bit of the request, and once more when that is too small.\<close>

function size_loop :: "32 word \<Rightarrow> 32 word \<Rightarrow> 32 word" where
  "size_loop tmp sz = (if tmp > 1 then size_loop (drop_bit 1 tmp) (push_bit 1 sz) else sz)"
  by pat_completeness auto

termination
  by (relation "measure (\<lambda>(tmp, sz). unat tmp)") (use drop_bit_1_less in auto)

definition queue_size :: "32 word \<Rightarrow> 32 word" where
  "queue_size sz = (let q = size_loop sz 1 in if q < sz then push_bit 1 q else q)"

text \<open>
  \<open>mem\<close>: 0 the queue, 1 its mutex, 2 its condition variable, 3 the growth of the vector. The token
  is taken before anything can fail.
\<close>

definition itc_equeue_module_token :: "alloc \<Rightarrow> 32 word \<Rightarrow> 32 word \<Rightarrow> equeue \<Rightarrow> (32 word \<times> equeue) result" where
  "itc_equeue_module_token mem sz type eq =
     (if sz = 0 \<or> type \<ge> ITC_EQUEUE_EVENT_TYPE_COUNT then Ok (ERROR_TOKEN, eq)
      else let ret = eq_next_token eq;
               eq1 = eq\<lparr>eq_next_token := ret + 1\<rparr>;
               queue = \<lparr>q_type = type, q_size = queue_size sz, q_front = 0, q_rear = 0,
                        q_events = replicate (unat (queue_size sz)) (IoEvent None None)\<rparr>
           in if \<not> mem 0 \<or> \<not> mem 1 \<or> \<not> mem 2 then Ok (ERROR_TOKEN, eq1)
              else (case vector_append (mem 3) (eq_queues eq1) (Some queue) queue of
                      Ok qs \<Rightarrow> Ok (ret, eq1\<lparr>eq_queues := qs\<rparr>)
                    | Error \<Rightarrow> Ok (ERROR_TOKEN, eq1)
                    | Undef \<Rightarrow> Undef))"

definition itc_equeue_scheduler_token :: "equeue \<Rightarrow> 32 word \<times> equeue" where
  "itc_equeue_scheduler_token eq =
     (if \<not> eq_sched_called eq then (SCHED_TOKEN, eq\<lparr>eq_sched_called := True\<rparr>) else (ERROR_TOKEN, eq))"

definition itc_equeue_release_scheduler_token :: "32 word \<Rightarrow> equeue \<Rightarrow> int \<times> equeue" where
  "itc_equeue_release_scheduler_token token eq =
     (if token \<noteq> SCHED_TOKEN then (-1, eq) else (0, eq\<lparr>eq_sched_called := False\<rparr>))"

subsection \<open>Putting an event\<close>

fun valid_event :: "itc_equeue_event \<Rightarrow> bool" where
  "valid_event (IoEvent i out) \<longleftrightarrow> i \<noteq> None \<and> out \<noteq> None"
| "valid_event (TaskEvent lp t h) \<longleftrightarrow> lp \<noteq> None \<and> t \<noteq> None"
| "valid_event (OtherEvent t) \<longleftrightarrow> False"

text \<open>
  Waiting for space. Each answer is one wait on the condition variable: whether the thread was killed
  meanwhile, and the position of the front that the dispatcher left. The result says whether there
  is space; \<open>None\<close> is a thread that still waits when the answers end.
\<close>

fun put_wait :: "(bool \<times> 32 word) list \<Rightarrow> equeue_queue \<Rightarrow> (bool \<times> equeue_queue) option" where
  "put_wait answers q =
     (if q_rear q = q_front q + q_size q
      then (case answers of [] \<Rightarrow> None
            | (killed, front) # as \<Rightarrow>
                if killed then Some (False, q\<lparr>q_front := front\<rparr>) else put_wait as (q\<lparr>q_front := front\<rparr>))
      else Some (True, q))"

declare put_wait.simps [simp del]

definition queue_store :: "itc_equeue_event \<Rightarrow> equeue_queue \<Rightarrow> equeue_queue" where
  "queue_store ev q = q\<lparr>q_events := (q_events q)[ring_slot (q_size q) (q_rear q) := ev]\<rparr>"

definition queue_publish :: "equeue_queue \<Rightarrow> equeue_queue" where
  "queue_publish q = q\<lparr>q_rear := q_rear q + 1\<rparr>"

definition put_notify :: "32 word \<Rightarrow> equeue \<Rightarrow> equeue" where
  "put_notify type eq =
     (if mask_allows (eq_waiting eq) type
      then eq\<lparr>eq_waiting := 0, eq_take_signals := eq_take_signals eq + 1\<rparr> else eq)"

definition itc_equeue_put :: "(bool \<times> 32 word) list \<Rightarrow> 32 word \<Rightarrow> itc_equeue_event \<Rightarrow> equeue
    \<Rightarrow> (int \<times> equeue) result option" where
  "itc_equeue_put answers token ev eq =
     (if token = SCHED_TOKEN \<or> \<not> valid_event ev then Some (Ok (-1, eq))
      else (case queue_at eq (unat token) of
          Undef \<Rightarrow> Some Undef | Error \<Rightarrow> Some Error
        | Ok q \<Rightarrow>
            if q_type q \<noteq> event_type ev then Some (Ok (-1, eq))
            else (case put_wait answers q of
                None \<Rightarrow> None
              | Some (space, q1) \<Rightarrow>
                  if \<not> space then Some (Ok (0, set_queue (unat token) q1 eq))
                  else if ring_slot (q_size q1) (q_rear q1) \<ge> length (q_events q1) then Some Undef
                  else Some (Ok (0, put_notify (q_type q1)
                    (set_queue (unat token) (queue_publish (queue_store ev q1)) eq))))))"

subsection \<open>Taking events\<close>

text \<open>The first queue of an allowed type that is not empty.\<close>

fun find_queue :: "32 word \<Rightarrow> nat \<Rightarrow> equeue_queue list \<Rightarrow> (nat \<times> equeue_queue) option" where
  "find_queue msk i [] = None"
| "find_queue msk i (q # qs) =
     (if mask_allows msk (q_type q) \<and> q_front q \<noteq> q_rear q then Some (i, q) else find_queue msk (Suc i) qs)"

definition event_at :: "equeue_queue \<Rightarrow> 32 word \<Rightarrow> itc_equeue_event result" where
  "event_at q pos = (if ring_slot (q_size q) pos < length (q_events q)
     then Ok (q_events q ! ring_slot (q_size q) pos) else Undef)"

text \<open>The copy loop: \<open>n\<close> is the space left in the buffer.\<close>

fun take_loop :: "equeue_queue \<Rightarrow> 32 word \<Rightarrow> nat \<Rightarrow> itc_equeue_event list result" where
  "take_loop q ret 0 = Ok []"
| "take_loop q ret (Suc n) =
     (if q_rear q - q_front q - ret = 0 then Ok []
      else rbind (event_at q (q_front q + ret)) (\<lambda>ev. rmap (\<lambda>evs. ev # evs) (take_loop q (ret + 1) n)))"

definition queue_consume :: "nat \<Rightarrow> equeue_queue \<Rightarrow> equeue_queue" where
  "queue_consume n q = q\<lparr>q_front := q_front q + of_nat n\<rparr>"

definition itc_equeue_take :: "32 word \<Rightarrow> 32 word \<Rightarrow> bool \<Rightarrow> nat \<Rightarrow> equeue
    \<Rightarrow> (itc_equeue_event list option \<times> equeue) result" where
  "itc_equeue_take token type_mask buffer buffer_size eq =
     (if \<not> buffer \<or> token \<noteq> SCHED_TOKEN then Ok (None, eq)
      else (case find_queue type_mask 0 (vec_data (eq_queues eq)) of
          None \<Rightarrow> Ok (None, eq)
        | Some (i, q) \<Rightarrow>
            rmap (\<lambda>evs.
              let q1 = queue_consume (length evs) q; eq1 = set_queue i q1 eq in
              (Some evs, if q_rear q1 - q_front q1 + of_nat (length evs) = q_size q1
                         then eq1\<lparr>eq_put_signals := eq_put_signals eq1 + 1\<rparr> else eq1))
            (take_loop q 0 buffer_size)))"

definition itc_equeue_empty :: "32 word \<Rightarrow> equeue \<Rightarrow> int" where
  "itc_equeue_empty token eq =
     (if token \<noteq> SCHED_TOKEN then -1
      else if list_ex (\<lambda>q. q_rear q \<noteq> q_front q) (vec_data (eq_queues eq)) then 0 else 1)"

subsection \<open>Waiting for events\<close>

text \<open>
  One round of the wait: what the other threads did since the last one, whether the flag \<^verbatim>\<open>killed\<close> is
  set (never, when the pointer is NULL), and what the interrupt callback returns, if there is one.
  The mutex is locked after the first round that finds nothing, and the checks are made again
  before the thread waits for the first time; \<open>wr_late\<close> is what the others do after a check that
  found nothing, before the dispatcher announces that it waits. \<open>None\<close> is a thread that waits when the rounds end.
\<close>

record wait_round =
  wr_others :: "equeue \<Rightarrow> equeue"
  wr_killed :: bool
  wr_mask :: "32 word option"
  wr_late :: "equeue \<Rightarrow> equeue"

definition ALL_EVENTS :: "32 word" where
  "ALL_EVENTS = push_bit (unat ITC_EQUEUE_EVENT_TYPE_COUNT) 1 - 1"

fun wait_loop :: "bool \<Rightarrow> 32 word \<Rightarrow> wait_round list \<Rightarrow> equeue \<Rightarrow> (int \<times> equeue) result option" where
  "wait_loop locked msk [] eq = None"
| "wait_loop locked msk (r # rs) eq =
     (let eq = wr_others r eq;
          unlock = (\<lambda>eq. if locked then eq\<lparr>eq_take_locked := False\<rparr> else eq)
      in if wr_killed r then Some (Ok (0, unlock eq))
         else if wr_mask r = Some 0 then Some (Ok (-1, eq))
         else let msk = (case wr_mask r of None \<Rightarrow> msk | Some m \<Rightarrow> m)
              in if find_queue msk 0 (vec_data (eq_queues eq)) \<noteq> None then Some (Ok (0, unlock eq))
                 else if \<not> locked
                 then (if eq_take_locked eq then Some Undef
                       else wait_loop True msk rs (eq\<lparr>eq_take_locked := True\<rparr>))
                 else wait_loop True msk rs ((wr_late r eq)\<lparr>eq_waiting := msk\<rparr>))"

definition itc_equeue_wait :: "32 word \<Rightarrow> wait_round list \<Rightarrow> equeue \<Rightarrow> (int \<times> equeue) result option" where
  "itc_equeue_wait token rounds eq =
     (if token \<noteq> SCHED_TOKEN then Some (Ok (-1, eq)) else wait_loop False ALL_EVENTS rounds eq)"

definition itc_equeue_wait_interrupt :: "equeue \<Rightarrow> equeue" where
  "itc_equeue_wait_interrupt eq = eq\<lparr>eq_take_signals := eq_take_signals eq + 1\<rparr>"

subsection \<open>Disposal\<close>

text \<open>
  What is disposed of: the pipes of the I/O events and the handles of the task events. The loop
  counts in 64 bits up to the 32-bit rear.
\<close>

datatype disposal = PipeFreed nat | HandleFreed nat | UnknownEvent

fun event_disposals :: "itc_equeue_event \<Rightarrow> disposal list" where
  "event_disposals (IoEvent i out) =
     (case i of None \<Rightarrow> [] | Some p \<Rightarrow> [PipeFreed p]) @ (case out of None \<Rightarrow> [] | Some p \<Rightarrow> [PipeFreed p])"
| "event_disposals (TaskEvent lp t h) = (case h of None \<Rightarrow> [] | Some p \<Rightarrow> [HandleFreed p])"
| "event_disposals (OtherEvent t) = [UnknownEvent]"

definition finalize_slot :: "equeue_queue \<Rightarrow> 64 word \<Rightarrow> nat" where
  "finalize_slot q j = unat (j AND ucast (q_size q - 1))"

function finalize_loop :: "equeue_queue \<Rightarrow> 64 word \<Rightarrow> disposal list result" where
  "finalize_loop q j =
     (if j = ucast (q_rear q) then Ok []
      else if finalize_slot q j \<ge> length (q_events q) then Undef
      else rmap (\<lambda>ds. event_disposals (q_events q ! finalize_slot q j) @ ds) (finalize_loop q (j + 1)))"
  by pat_completeness auto

termination
  by (relation "measure (\<lambda>(q, j). unat (ucast (q_rear q) - j))") (auto simp: unat_dist_less)

fun finalize_queues :: "equeue_queue list \<Rightarrow> disposal list result" where
  "finalize_queues [] = Ok []"
| "finalize_queues (q # qs) =
     rbind (finalize_loop q (ucast (q_front q))) (\<lambda>ds. rmap (\<lambda>ds'. ds @ ds') (finalize_queues qs))"

text \<open>The status is an error when a deallocation fails or an event is of an unknown type.\<close>

definition itc_equeue_finalize :: "(disposal \<Rightarrow> bool) \<Rightarrow> equeue \<Rightarrow> (bool \<times> disposal list) result" where
  "itc_equeue_finalize free_ok eq =
     rmap (\<lambda>ds. (list_all (\<lambda>d. d \<noteq> UnknownEvent \<and> free_ok d) ds, ds)) (finalize_queues (vec_data (eq_queues eq)))"

subsection \<open>The rings\<close>

definition queue_put :: "itc_equeue_event \<Rightarrow> equeue_queue \<Rightarrow> equeue_queue" where
  "queue_put ev q = queue_publish (queue_store ev q)"

interpretation er: ring q_size q_front q_rear q_events queue_put queue_consume
  by unfold_locales (simp_all add: queue_put_def queue_publish_def queue_store_def queue_consume_def)

definition q_wf :: "equeue_queue \<Rightarrow> bool" where
  "q_wf q \<longleftrightarrow> ring_wf (q_size q) (q_front q) (q_rear q) (q_events q)"

definition q_contents :: "equeue_queue \<Rightarrow> itc_equeue_event list" where
  "q_contents q = ring_contents (q_size q) (q_front q) (q_rear q) (q_events q)"

definition q_full :: "equeue_queue \<Rightarrow> bool" where
  "q_full q \<longleftrightarrow> q_rear q = q_front q + q_size q"

lemma put_wait_Nil: "put_wait [] q = (if q_full q then None else Some (True, q))"
  by (subst put_wait.simps) (simp add: q_full_def)

lemma q_full_iff: "q_wf q \<Longrightarrow> q_full q \<longleftrightarrow> length (q_contents q) = length (q_events q)"
  using ring_full_iff by (simp add: q_wf_def q_full_def q_contents_def)

lemma q_room: "q_wf q \<Longrightarrow> \<not> q_full q \<Longrightarrow> length (q_contents q) < length (q_events q)"
  using q_full_iff ring_length_bound by (fastforce simp: q_wf_def q_contents_def)

lemma q_empty_iff: "q_front q = q_rear q \<longleftrightarrow> q_contents q = []"
  using ring_empty_iff by (simp add: q_contents_def flip: length_0_conv)

lemma q_put:
  assumes "q_wf q" and "\<not> q_full q"
  shows "q_wf (queue_put ev q) \<and> q_contents (queue_put ev q) = q_contents q @ [ev]"
  using er.put_queue [of q] q_room [OF assms] assms(1) by (simp add: q_wf_def q_contents_def)

lemma q_consume:
  assumes "q_wf q" and "n \<le> length (q_contents q)"
  shows "q_wf (queue_consume n q) \<and> q_contents (queue_consume n q) = drop n (q_contents q)"
  using er.skip_queue [of q n] assms by (simp add: q_wf_def q_contents_def)

lemma queue_types [simp]: "q_type (queue_put ev q) = q_type q" "q_type (queue_consume n q) = q_type q"
  by (simp_all add: queue_put_def queue_publish_def queue_store_def queue_consume_def)

lemma event_at_nth:
  assumes "q_wf q" and "i < length (q_contents q)"
  shows "event_at q (q_front q + of_nat i) = Ok (q_contents q ! i)"
  using assms ring_slot_bound ring_nth [of i "q_front q" "q_rear q" "q_events q" "q_size q"]
  by (simp add: event_at_def q_wf_def q_contents_def)

lemma rear_minus_zero:
  assumes "n \<le> length (q_contents q)"
  shows "q_rear q - q_front q - of_nat n = 0 \<longleftrightarrow> n = length (q_contents q)"
proof -
  let ?d = "q_rear q - q_front q"
  have n: "n \<le> unat ?d" using assms by (simp add: q_contents_def ring_length_def)
  have "unat (of_nat n :: 32 word) = n" using n unsigned_less [of ?d, where 'a = nat] by (simp add: unat_of_nat)
  moreover have "?d - of_nat n = 0 \<longleftrightarrow> ?d = of_nat n" by (rule eq_iff_diff_eq_0 [symmetric])
  ultimately have "?d - of_nat n = 0 \<longleftrightarrow> n = unat ?d" by (metis word_unat_eq_iff)
  then show ?thesis by (simp add: q_contents_def ring_length_def)
qed

lemma take_loop_eq:
  assumes "q_wf q" and "i \<le> length (q_contents q)"
  shows "take_loop q (of_nat i) n = Ok (take n (drop i (q_contents q)))"
  using assms(2)
proof (induction n arbitrary: i)
  case (Suc n)
  show ?case
  proof (cases "i = length (q_contents q)")
    case True
    then show ?thesis using rear_minus_zero [OF Suc.prems] by simp
  next
    case False
    then have i: "i < length (q_contents q)" using Suc.prems by simp
    have "take_loop q (of_nat i + 1) n = Ok (take n (drop (Suc i) (q_contents q)))"
      using Suc.IH [of "Suc i"] i by (simp add: add.commute)
    then show ?thesis
      using rear_minus_zero [OF Suc.prems] False event_at_nth [OF assms(1) i] i
      by (simp add: Cons_nth_drop_Suc [symmetric])
  qed
qed simp

subsection \<open>The size of a ring\<close>

lemma size_loop_pow:
  "0 < unat tmp \<Longrightarrow> \<exists>k. 2 ^ k \<le> unat tmp \<and> unat tmp < 2 ^ Suc k \<and> size_loop tmp sz = push_bit k sz"
proof (induction tmp sz rule: size_loop.induct)
  case (1 tmp sz)
  show ?case
  proof (cases "tmp > 1")
    case True
    let ?h = "drop_bit 1 tmp"
    have h: "unat ?h = unat tmp div 2" by (simp add: drop_bit_eq_div unat_div)
    have two: "unat tmp \<ge> 2" using True by (simp add: word_less_nat_alt)
    obtain k where k: "2 ^ k \<le> unat ?h" "unat ?h < 2 ^ Suc k" "size_loop ?h (push_bit 1 sz) = push_bit k (push_bit 1 sz)"
      using "1.IH" [OF True] h two by auto
    have "2 ^ Suc k \<le> unat tmp" "unat tmp < 2 ^ Suc (Suc k)" using k(1,2) h by auto
    moreover have "size_loop tmp sz = push_bit (Suc k) sz"
      using True k(3) by (subst size_loop.simps) (simp add: push_bit_push_bit del: size_loop.simps)
    ultimately show ?thesis by blast
  next
    case False
    then have "unat tmp = 1" using "1.prems" by (simp add: word_less_nat_alt)
    then show ?thesis using False by (intro exI [of _ 0]) (simp add: word_less_nat_alt)
  qed
qed

lemma queue_size_pow:
  assumes "0 < unat sz" and "unat sz \<le> 2 ^ 31"
  shows "\<exists>k<32. queue_size sz = 2 ^ k \<and> unat sz \<le> 2 ^ k \<and> 2 ^ k < 2 * unat sz"
proof -
  obtain k where k: "2 ^ k \<le> unat sz" "unat sz < 2 ^ Suc k" "size_loop sz 1 = push_bit k 1"
    using size_loop_pow [OF assms(1)] by blast
  have "(2 :: nat) ^ k \<le> 2 ^ 31" using k(1) assms(2) by simp
  then have k31: "k \<le> 31" by (rule power_le_imp_le_exp [rotated]) simp
  have pow: "size_loop sz 1 = 2 ^ k" using k(3) by (simp add: push_bit_eq_mult)
  have u: "unat (2 ^ k :: 32 word) = 2 ^ k" using unat_pow k31 by simp
  show ?thesis
  proof (cases "unat sz = 2 ^ k")
    case True
    then have "queue_size sz = 2 ^ k" using pow u by (simp add: queue_size_def Let_def word_less_nat_alt)
    then show ?thesis using True k31 by (intro exI [of _ k]) simp
  next
    case False
    then have more: "2 ^ k < unat sz" using k(1) by simp
    have "k < 31"
    proof (rule ccontr)
      assume "\<not> k < 31"
      then have "k = 31" using k31 by simp
      then show False using more assms(2) by simp
    qed
    moreover have "queue_size sz = 2 ^ Suc k"
      using pow u more by (simp add: queue_size_def Let_def word_less_nat_alt push_bit_eq_mult)
    ultimately show ?thesis using more k(2) by (intro exI [of _ "Suc k"]) simp
  qed
qed

lemma queue_size_overflow:
  assumes "2 ^ 31 < unat sz"
  shows "queue_size sz = 0"
proof -
  obtain k where k: "2 ^ k \<le> unat sz" "unat sz < 2 ^ Suc k" "size_loop sz 1 = push_bit k 1"
    using size_loop_pow [of sz 1] assms by auto
  have "unat sz < 2 ^ 32" using unsigned_less [of sz, where 'a = nat] by simp
  then have "(2 :: nat) ^ k < 2 ^ 32" "(2 :: nat) ^ 31 < 2 ^ Suc k" using k assms by linarith+
  then have "k < 32 \<and> 31 < Suc k" by (meson one_less_numeral_iff power_less_imp_less_exp semiring_norm(76))
  then have "k = 31" by simp
  then have s: "size_loop sz 1 = 2 ^ 31" using k(3) by (simp add: push_bit_eq_mult)
  then have "size_loop sz 1 < sz" using assms unat_pow [of 31] by (simp add: word_less_nat_alt)
  then show ?thesis using s by (simp add: queue_size_def Let_def push_bit_eq_mult)
qed

subsection \<open>The state of the event queue\<close>

text \<open>
  Every ring is well formed and holds only valid events of its own type; there is a queue for every
  token as long as no request for a token failed.
\<close>

definition q_typed :: "equeue_queue \<Rightarrow> bool" where
  "q_typed q \<longleftrightarrow> q_wf q \<and> (\<forall>ev\<in>set (q_contents q). event_type ev = q_type q \<and> valid_event ev)"

definition eq_ok :: "equeue \<Rightarrow> bool" where
  "eq_ok eq \<longleftrightarrow> list_all q_typed (vec_data (eq_queues eq)) \<and> vector_wf (eq_queues eq)"

text \<open>The dispatcher only moves a front forward, by at most the number of events.\<close>

fun fronts_ok :: "(bool \<times> 32 word) list \<Rightarrow> equeue_queue \<Rightarrow> bool" where
  "fronts_ok [] q \<longleftrightarrow> True"
| "fronts_ok ((killed, front) # as) q \<longleftrightarrow>
     (\<exists>n\<le>length (q_contents q). q\<lparr>q_front := front\<rparr> = queue_consume n q) \<and> fronts_ok as (q\<lparr>q_front := front\<rparr>)"

lemma q_typed_consume: "\<lbrakk> q_typed q; n \<le> length (q_contents q) \<rbrakk> \<Longrightarrow> q_typed (queue_consume n q)"
  using q_consume [of q n] by (auto simp: q_typed_def dest: in_set_dropD)

lemma q_typed_put:
  "\<lbrakk> q_typed q; \<not> q_full q; event_type ev = q_type q; valid_event ev \<rbrakk> \<Longrightarrow> q_typed (queue_put ev q)"
  using q_put [of q ev] by (auto simp: q_typed_def)

lemma put_wait_ok:
  "\<lbrakk> put_wait as q = Some (space, q'); fronts_ok as q; q_typed q \<rbrakk>
    \<Longrightarrow> q_typed q' \<and> q_type q' = q_type q \<and> (space \<longrightarrow> \<not> q_full q')
      \<and> (\<exists>n\<le>length (q_contents q). q_contents q' = drop n (q_contents q))"
proof (induction as q rule: put_wait.induct)
  case (1 as q)
  show ?case
  proof (cases "q_full q")
    case False
    then have "q' = q" "space" using "1.prems"(1) by (subst (asm) put_wait.simps; simp add: q_full_def)+
    then show ?thesis using "1.prems"(3) False by (auto intro: exI [of _ 0])
  next
    case True
    then obtain killed front as' where as: "as = (killed, front) # as'"
      using "1.prems"(1) by (cases as) (auto simp: put_wait.simps [of "[]"] q_full_def)
    let ?q = "q\<lparr>q_front := front\<rparr>"
    obtain n where n: "n \<le> length (q_contents q)" "?q = queue_consume n q" using "1.prems"(2) as by auto
    have wf: "q_wf q" using "1.prems"(3) by (simp add: q_typed_def)
    have typed: "q_typed ?q" using n q_typed_consume "1.prems"(3) by metis
    have drop: "q_contents ?q = drop n (q_contents q)" using q_consume [OF wf n(1)] n(2) by metis
    show ?thesis
    proof (cases killed)
      case True
      then have "q' = ?q" "\<not> space" using "1.prems"(1) as \<open>q_full q\<close> by (subst (asm) put_wait.simps; simp add: q_full_def)+
      then show ?thesis using typed drop n(1) by auto
    next
      case False
      then have run: "put_wait as' ?q = Some (space, q')"
        using "1.prems"(1) as \<open>q_full q\<close> by (subst (asm) put_wait.simps) (simp add: q_full_def)
      have ok: "fronts_ok as' ?q" using "1.prems"(2) as by simp
      have ih: "q_typed q' \<and> q_type q' = q_type ?q \<and> (space \<longrightarrow> \<not> q_full q')
          \<and> (\<exists>m\<le>length (q_contents ?q). q_contents q' = drop m (q_contents ?q))"
        using "1.IH" [OF _ as refl False run ok typed] \<open>q_full q\<close> by (simp add: q_full_def)
      then obtain m where "m \<le> length (q_contents ?q)" "q_contents q' = drop m (q_contents ?q)" by blast
      then have "q_contents q' = drop (m + n) (q_contents q)" "m + n \<le> length (q_contents q)"
        using drop n(1) by simp_all
      then show ?thesis using ih by auto
    qed
  qed
qed

definition eq_list :: "equeue \<Rightarrow> equeue_queue list" where
  "eq_list eq = vec_data (eq_queues eq)"

lemma set_queue_list [simp]: "eq_list (set_queue i q eq) = (eq_list eq)[i := q]"
  by (simp add: eq_list_def set_queue_def)

lemma eq_list_update [simp]:
  "eq_list (eq\<lparr>eq_waiting := m\<rparr>) = eq_list eq" "eq_list (eq\<lparr>eq_take_signals := k\<rparr>) = eq_list eq"
  "eq_list (eq\<lparr>eq_put_signals := k\<rparr>) = eq_list eq" "eq_list (eq\<lparr>eq_take_locked := b\<rparr>) = eq_list eq"
  "eq_list (eq\<lparr>eq_sched_called := b\<rparr>) = eq_list eq" "eq_list (eq\<lparr>eq_next_token := t\<rparr>) = eq_list eq"
  by (simp_all add: eq_list_def)

lemma put_notify_list [simp]: "eq_list (put_notify t eq) = eq_list eq"
  by (simp add: put_notify_def)

lemma eq_ok_set_queue: "\<lbrakk> eq_ok eq; q_typed q \<rbrakk> \<Longrightarrow> eq_ok (set_queue i q eq)"
  using set_update_subset_insert [of "vec_data (eq_queues eq)" i q]
  by (auto simp: eq_ok_def set_queue_def list_all_iff vector_wf_def vector_length_def)

lemma eq_ok_update [simp]:
  "eq_ok (eq\<lparr>eq_waiting := m\<rparr>) = eq_ok eq" "eq_ok (eq\<lparr>eq_take_signals := k\<rparr>) = eq_ok eq"
  "eq_ok (eq\<lparr>eq_put_signals := k\<rparr>) = eq_ok eq" "eq_ok (eq\<lparr>eq_take_locked := b\<rparr>) = eq_ok eq"
  "eq_ok (eq\<lparr>eq_sched_called := b\<rparr>) = eq_ok eq" "eq_ok (eq\<lparr>eq_next_token := t\<rparr>) = eq_ok eq"
  by (simp_all add: eq_ok_def)

lemma put_notify_ok [simp]: "eq_ok (put_notify t eq) = eq_ok eq"
  by (simp add: put_notify_def)

lemma queue_at_Ok: "queue_at eq i = Ok q \<longleftrightarrow> i < length (eq_list eq) \<and> q = eq_list eq ! i"
  by (auto simp: queue_at_def vector_get_def vector_length_def eq_list_def)

lemma queue_at_cases: "queue_at eq i = (if i < length (eq_list eq) then Ok (eq_list eq ! i) else Undef)"
  by (simp add: queue_at_def vector_get_def vector_length_def eq_list_def)

lemma eq_ok_nth: "\<lbrakk> eq_ok eq; i < length (eq_list eq) \<rbrakk> \<Longrightarrow> q_typed (eq_list eq ! i)"
  by (simp add: eq_ok_def eq_list_def list_all_length)

text \<open>What a put that was accepted does: it waited, was killed, or stored its event.\<close>

lemma put_Ok_cases:
  assumes "eq_ok eq" and "itc_equeue_put as token ev eq = Some (Ok (rc, eq'))"
    and "unat token < length (eq_list eq) \<Longrightarrow> fronts_ok as (eq_list eq ! unat token)"
  obtains "rc = -1" "eq' = eq"
  | space q1 n where "rc = 0" "valid_event ev" "unat token < length (eq_list eq)"
      "event_type ev = q_type (eq_list eq ! unat token)"
      "q_typed q1" "q_type q1 = q_type (eq_list eq ! unat token)"
      "n \<le> length (q_contents (eq_list eq ! unat token))"
      "q_contents q1 = drop n (q_contents (eq_list eq ! unat token))"
      "space \<longrightarrow> \<not> q_full q1"
      "eq' = (if space then put_notify (q_type q1) (set_queue (unat token) (queue_put ev q1) eq)
              else set_queue (unat token) q1 eq)"
proof (cases "token = SCHED_TOKEN \<or> \<not> valid_event ev")
  case True
  then show ?thesis using assms(2) that(1) by (auto simp: itc_equeue_put_def)
next
  case False
  let ?i = "unat token" and ?q = "eq_list eq ! unat token"
  have i: "?i < length (eq_list eq)"
    using assms(2) False by (auto simp: itc_equeue_put_def queue_at_cases split: if_splits)
  show ?thesis
  proof (cases "q_type ?q = event_type ev")
    case False
    then show ?thesis
      using assms(2) \<open>\<not> (token = SCHED_TOKEN \<or> _)\<close> i that(1) by (simp add: itc_equeue_put_def queue_at_cases)
  next
    case True
    then obtain space q1 where w: "put_wait as ?q = Some (space, q1)"
      using assms(2) False i by (auto simp: itc_equeue_put_def queue_at_cases split: option.splits)
    have ok: "q_typed q1 \<and> q_type q1 = q_type ?q \<and> (space \<longrightarrow> \<not> q_full q1)
        \<and> (\<exists>n\<le>length (q_contents ?q). q_contents q1 = drop n (q_contents ?q))"
      using put_wait_ok [OF w assms(3) [OF i] eq_ok_nth [OF assms(1) i]] .
    have "q_typed q1" using ok by blast
    then have "ring_slot (q_size q1) (q_rear q1) < length (q_events q1)"
      using ring_slot_bound by (auto simp: q_typed_def q_wf_def)
    then have "rc = 0 \<and> eq' = (if space then put_notify (q_type q1) (set_queue ?i (queue_put ev q1) eq)
              else set_queue ?i q1 eq)"
      using assms(2) False i w True by (auto simp: itc_equeue_put_def queue_at_cases queue_put_def split: if_splits)
    then show ?thesis using that(2) False i True ok by (metis (no_types, lifting))
  qed
qed

lemma put_keeps_ok:
  assumes "eq_ok eq" and "itc_equeue_put as token ev eq = Some (Ok (rc, eq'))"
    and "unat token < length (eq_list eq) \<Longrightarrow> fronts_ok as (eq_list eq ! unat token)"
  shows "eq_ok eq'"
  using put_Ok_cases [OF assms] assms(1) by cases (auto intro!: eq_ok_set_queue q_typed_put)

lemma find_queue_Some:
  assumes "find_queue msk k qs = Some (i, q)"
  shows "k \<le> i \<and> i - k < length qs \<and> q = qs ! (i - k) \<and> mask_allows msk (q_type q) \<and> q_contents q \<noteq> []
    \<and> (\<forall>j<i - k. \<not> (mask_allows msk (q_type (qs ! j)) \<and> q_contents (qs ! j) \<noteq> []))"
  using assms
proof (induction qs arbitrary: k)
  case (Cons x qs)
  show ?case
  proof (cases "mask_allows msk (q_type x) \<and> q_front x \<noteq> q_rear x")
    case True
    then show ?thesis using Cons.prems q_empty_iff by auto
  next
    case False
    then have ih: "Suc k \<le> i" "i - Suc k < length qs" "q = qs ! (i - Suc k)" "mask_allows msk (q_type q)"
      "q_contents q \<noteq> []" "\<forall>j<i - Suc k. \<not> (mask_allows msk (q_type (qs ! j)) \<and> q_contents (qs ! j) \<noteq> [])"
      using Cons.IH [of "Suc k"] Cons.prems by auto
    moreover have "i - k = Suc (i - Suc k)" using ih(1) by simp
    ultimately show ?thesis using False by (auto simp: q_empty_iff nth_Cons' split: if_splits)
  qed
qed simp

lemma find_queue_None:
  "find_queue msk k qs = None \<longleftrightarrow> (\<forall>q\<in>set qs. \<not> (mask_allows msk (q_type q) \<and> q_contents q \<noteq> []))"
  by (induction qs arbitrary: k) (auto simp: q_empty_iff)

lemma take_eq:
  fixes n :: nat
  assumes ok: "eq_ok eq" and fq: "find_queue msk 0 (eq_list eq) = Some (i, q)"
  defines "evs \<equiv> take n (q_contents q)"
  shows "itc_equeue_take SCHED_TOKEN msk True n eq = Ok (Some evs,
    let eq1 = set_queue i (queue_consume (length evs) q) eq
    in if q_full q then eq1\<lparr>eq_put_signals := eq_put_signals eq + 1\<rparr> else eq1)"
proof -
  have q: "q_wf q" using fq find_queue_Some [OF fq] eq_ok_nth [OF ok, of i] by (simp add: q_typed_def)
  have loop: "take_loop q 0 n = Ok evs" using take_loop_eq [OF q, of 0 n] by (simp add: evs_def)
  have "q_rear q - (q_front q + of_nat (length evs)) + of_nat (length evs) = q_size q \<longleftrightarrow> q_full q"
    by (auto simp: q_full_def algebra_simps)
  then show ?thesis
    using fq loop by (simp add: itc_equeue_take_def eq_list_def queue_consume_def Let_def set_queue_def)
qed

lemma take_keeps_ok:
  assumes "eq_ok eq" and "itc_equeue_take token msk b n eq = Ok (evs, eq')"
  shows "eq_ok eq'"
proof (cases "b \<and> token = SCHED_TOKEN")
  case True
  show ?thesis
  proof (cases "find_queue msk 0 (eq_list eq)")
    case (Some iq)
    then obtain i q where fq: "find_queue msk 0 (eq_list eq) = Some (i, q)" by (cases iq) auto
    have q: "q_typed q" using find_queue_Some [OF fq] eq_ok_nth [OF assms(1), of i] by simp
    show ?thesis
      using take_eq [OF assms(1) fq, of n] assms True q_typed_consume [OF q, of "length (take n (q_contents q))"]
      by (auto simp: Let_def intro: eq_ok_set_queue split: if_splits)
  qed (use assms True in \<open>auto simp: itc_equeue_take_def eq_list_def\<close>)
qed (use assms in \<open>auto simp: itc_equeue_take_def\<close>)

lemma new_queue_typed:
  assumes "sz \<noteq> 0" and "unat sz \<le> 2 ^ 31"
  shows "q_typed \<lparr>q_type = t, q_size = queue_size sz, q_front = 0, q_rear = 0,
    q_events = replicate (unat (queue_size sz)) (IoEvent None None)\<rparr>"
proof -
  have "0 < unat sz" using assms(1) by (simp add: unat_gt_0)
  then obtain k where "k < 32" "queue_size sz = 2 ^ k" using queue_size_pow assms(2) by blast
  then show ?thesis using unat_pow by (auto simp: q_typed_def q_wf_def q_contents_def ring_wf_def ring_empty)
qed

lemma token_keeps_ok:
  assumes "eq_ok eq" and "unat sz \<le> 2 ^ 31" and "itc_equeue_module_token mem sz t eq = Ok (token, eq')"
  shows "eq_ok eq'"
proof (cases "sz = 0 \<or> t \<ge> ITC_EQUEUE_EVENT_TYPE_COUNT")
  case True
  then show ?thesis using assms by (auto simp: itc_equeue_module_token_def)
next
  case False
  then have new: "q_typed \<lparr>q_type = t, q_size = queue_size sz, q_front = 0, q_rear = 0,
      q_events = replicate (unat (queue_size sz)) (IoEvent None None)\<rparr>" using new_queue_typed assms(2) by blast
  show ?thesis
    using assms False new
    by (auto simp: itc_equeue_module_token_def Let_def eq_ok_def vector_append_Ok_data vector_append_Ok_wf
        split: if_splits result.splits)
qed

text \<open>The states of the event queue. Other threads act between the steps.\<close>

definition quiet :: "wait_round \<Rightarrow> bool" where
  "quiet r \<longleftrightarrow> wr_others r = id \<and> wr_late r = id"

inductive eq_reach :: "equeue \<Rightarrow> bool" where
  init: "itc_equeue_init mem = Ok eq \<Longrightarrow> eq_reach eq"
| token: "\<lbrakk> eq_reach eq; unat sz \<le> 2 ^ 31; itc_equeue_module_token mem sz t eq = Ok (tk, eq') \<rbrakk> \<Longrightarrow> eq_reach eq'"
| sched: "\<lbrakk> eq_reach eq; itc_equeue_scheduler_token eq = (tk, eq') \<rbrakk> \<Longrightarrow> eq_reach eq'"
| release: "\<lbrakk> eq_reach eq; itc_equeue_release_scheduler_token tk eq = (rc, eq') \<rbrakk> \<Longrightarrow> eq_reach eq'"
| put: "\<lbrakk> eq_reach eq; unat tk < length (eq_list eq) \<longrightarrow> fronts_ok as (eq_list eq ! unat tk);
    itc_equeue_put as tk ev eq = Some (Ok (rc, eq')) \<rbrakk> \<Longrightarrow> eq_reach eq'"
| take: "\<lbrakk> eq_reach eq; itc_equeue_take tk msk b n eq = Ok (evs, eq') \<rbrakk> \<Longrightarrow> eq_reach eq'"
| wait: "\<lbrakk> eq_reach eq; list_all quiet rounds; itc_equeue_wait tk rounds eq = Some (Ok (rc, eq')) \<rbrakk> \<Longrightarrow> eq_reach eq'"

lemma wait_loop_ok:
  "\<lbrakk> list_all quiet rounds; wait_loop locked msk rounds eq = Some (Ok (rc, eq')); eq_ok eq \<rbrakk> \<Longrightarrow> eq_ok eq'"
proof (induction rounds arbitrary: locked msk eq)
  case (Cons r rs)
  then show ?case by (auto simp: quiet_def Let_def split: if_splits option.splits)
qed simp

lemma init_ok: "itc_equeue_init mem = Ok eq \<Longrightarrow> eq_ok eq"
  by (auto simp: itc_equeue_init_def eq_ok_def vector_new_def vector_wf_def vector_length_def
      ITC_EQUEUE_VEC_INIT_SIZE_def result_simps split: if_splits)

lemma eq_reach_ok: "eq_reach eq \<Longrightarrow> eq_ok eq"
proof (induction rule: eq_reach.induct)
  case (init mem eq)
  then show ?case by (rule init_ok)
next
  case (put eq tk as ev rc eq')
  then show ?case using put_keeps_ok by blast
qed (auto simp: itc_equeue_scheduler_token_def itc_equeue_release_scheduler_token_def itc_equeue_wait_def
    split: if_splits intro: token_keeps_ok take_keeps_ok wait_loop_ok)

text \<open>A state with one empty ring for task events.\<close>

lemma one_queue:
  "\<exists>eq. eq_reach eq \<and> length (eq_list eq) = 1 \<and> q_type (eq_list eq ! 0) = ITC_EQUEUE_EVENT_TYPE_TASK
    \<and> q_contents (eq_list eq ! 0) = [] \<and> q_wf (eq_list eq ! 0) \<and> \<not> q_full (eq_list eq ! 0)
    \<and> eq_waiting eq = 0"
proof -
  let ?q = "\<lparr>q_type = 1, q_size = queue_size 3, q_front = 0, q_rear = 0,
    q_events = replicate (unat (queue_size 3)) (IoEvent None None)\<rparr>"
  obtain eq0 where eq0: "itc_equeue_init plenty = Ok eq0" "eq_queues eq0 = \<lparr>vec_cap = 4, vec_data = []\<rparr>"
    "eq_waiting eq0 = 0"
    by (simp add: itc_equeue_init_def vector_new_def ITC_EQUEUE_VEC_INIT_SIZE_def)
  then have "itc_equeue_module_token plenty 3 1 eq0 = Ok (eq_next_token eq0, eq0\<lparr>eq_next_token := eq_next_token eq0 + 1,
      eq_queues := \<lparr>vec_cap = 4, vec_data = [?q]\<rparr>\<rparr>)"
    by (simp add: itc_equeue_module_token_def vector_append_def vector_length_def ITC_EQUEUE_EVENT_TYPE_COUNT_def Let_def
        word_le_nat_alt)
  then obtain tk eq1 where eq1: "itc_equeue_module_token plenty 3 1 eq0 = Ok (tk, eq1)" "eq_list eq1 = [?q]"
    "eq_waiting eq1 = 0" using eq0(3) by (auto simp: eq_list_def)
  have reach: "eq_reach eq1" using eq_reach.token [OF eq_reach.init [OF eq0(1)] _ eq1(1)] by simp
  have wf: "q_wf ?q" using new_queue_typed [of 3 1] by (simp add: q_typed_def)
  have "q_contents ?q = []" by (simp add: q_contents_def ring_empty)
  moreover have "\<not> q_full ?q" using wf by (auto simp: q_full_def q_wf_def ring_wf_def)
  ultimately show ?thesis using reach eq1(2,3) wf by (intro exI [of _ eq1]) (simp add: ITC_EQUEUE_EVENT_TYPE_TASK_def)
qed

subsection \<open>Properties\<close>

text \<open>C15: the event queue is well typed. In every state the operations reach, with rings of at most \<open>2 ^ 31\<close>
  events, every ring is within its bounds and holds only complete events of the type its token was
  requested for, whatever the positions wrapped around to.\<close>

theorem equeue_typed:
  assumes "eq_reach eq" and "i < length (eq_list eq)"
  shows "q_wf (eq_list eq ! i)
    \<and> (\<forall>ev\<in>set (q_contents (eq_list eq ! i)). event_type ev = q_type (eq_list eq ! i) \<and> valid_event ev)"
  using eq_ok_nth [OF eq_reach_ok [OF assms(1)] assms(2)] by (simp add: q_typed_def)

theorem equeue_typed_witness:
  "\<exists>eq. eq_reach eq \<and> 0 < length (eq_list eq) \<and> q_wf (eq_list eq ! 0)"
  using equeue_typed [of _ 0] one_queue by fastforce

text \<open>The abstract event queue: for every token its type and the events in order.\<close>

definition abs_queues :: "equeue \<Rightarrow> (32 word \<times> itc_equeue_event list) list" where
  "abs_queues eq = map (\<lambda>q. (q_type q, q_contents q)) (eq_list eq)"

definition next_queue :: "32 word \<Rightarrow> (32 word \<times> itc_equeue_event list) list \<Rightarrow> nat option" where
  "next_queue msk qs = List.find (\<lambda>i. mask_allows msk (fst (qs ! i)) \<and> snd (qs ! i) \<noteq> []) [0..<length qs]"

lemma next_queue_find:
  "next_queue msk (abs_queues eq) = map_option fst (find_queue msk 0 (eq_list eq))"
proof (cases "find_queue msk 0 (eq_list eq)")
  case None
  then have "\<forall>q\<in>set (eq_list eq). \<not> (mask_allows msk (q_type q) \<and> q_contents q \<noteq> [])" by (simp only: find_queue_None)
  then have "next_queue msk (abs_queues eq) = None" by (auto simp: next_queue_def abs_queues_def find_None_iff)
  then show ?thesis using None by simp
next
  case (Some iq)
  then obtain i q where iq: "iq = (i, q)" by fastforce
  have "i < length (eq_list eq)" "mask_allows msk (q_type (eq_list eq ! i))" "q_contents (eq_list eq ! i) \<noteq> []"
    "\<forall>j<i. \<not> (mask_allows msk (q_type (eq_list eq ! j)) \<and> q_contents (eq_list eq ! j) \<noteq> [])"
    using find_queue_Some Some iq by fastforce+
  then show ?thesis
    using Some iq by (auto simp: next_queue_def abs_queues_def find_Some_iff intro!: exI [of _ i])
qed



end
