(* ===== verification/EQueueConc.thy ===== *)
theory EQueueConc
  imports EQueue
begin

text \<open>
  The event queue between threads: every interleaving of a module thread that puts events and the
  dispatcher that takes them from one ring, the wait of the dispatcher, and the two ways in which the
  queue goes wrong. Memory is sequentially consistent, which is what the barriers in the code ask for.
\<close>

subsection \<open>One ring, two threads\<close>

text \<open>
  The accesses of \<^verbatim>\<open>itc_equeue_put\<close>: see that there is space, store the event, move the rear. Those of
  \<^verbatim>\<open>itc_equeue_take\<close>: see that the ring is not empty, copy the events one by one, reading the rear
  again each time, and move the front. \<open>sp_sent\<close> and \<open>sp_received\<close> record what went in and came out.
\<close>

datatype put_pc = PutIdle | PutWait itc_equeue_event | PutSpace itc_equeue_event | PutStored itc_equeue_event
datatype take_pc = TakeIdle | TakeCopy nat "itc_equeue_event list"

record spsc =
  sp_queue :: equeue_queue
  sp_put :: put_pc
  sp_take :: take_pc
  sp_sent :: "itc_equeue_event list"
  sp_received :: "itc_equeue_event list"

definition copy_more :: "equeue_queue \<Rightarrow> nat \<Rightarrow> itc_equeue_event list \<Rightarrow> bool" where
  "copy_more q n buf \<longleftrightarrow> length buf < n \<and> q_rear q - q_front q - of_nat (length buf) \<noteq> 0"

inductive spsc_step :: "spsc \<Rightarrow> spsc \<Rightarrow> bool" where
  put_call: "sp_put s = PutIdle \<Longrightarrow> spsc_step s (s\<lparr>sp_put := PutWait ev\<rparr>)"
| put_space: "\<lbrakk> sp_put s = PutWait ev; \<not> q_full (sp_queue s) \<rbrakk> \<Longrightarrow> spsc_step s (s\<lparr>sp_put := PutSpace ev\<rparr>)"
| put_store: "sp_put s = PutSpace ev \<Longrightarrow>
    spsc_step s (s\<lparr>sp_queue := queue_store ev (sp_queue s), sp_put := PutStored ev\<rparr>)"
| put_publish: "sp_put s = PutStored ev \<Longrightarrow>
    spsc_step s (s\<lparr>sp_queue := queue_publish (sp_queue s), sp_put := PutIdle, sp_sent := sp_sent s @ [ev]\<rparr>)"
| take_call: "\<lbrakk> sp_take s = TakeIdle; q_front (sp_queue s) \<noteq> q_rear (sp_queue s) \<rbrakk> \<Longrightarrow>
    spsc_step s (s\<lparr>sp_take := TakeCopy n []\<rparr>)"
| take_copy: "\<lbrakk> sp_take s = TakeCopy n buf; copy_more (sp_queue s) n buf;
    event_at (sp_queue s) (q_front (sp_queue s) + of_nat (length buf)) = Ok ev \<rbrakk> \<Longrightarrow>
    spsc_step s (s\<lparr>sp_take := TakeCopy n (buf @ [ev])\<rparr>)"
| take_advance: "\<lbrakk> sp_take s = TakeCopy n buf; \<not> copy_more (sp_queue s) n buf \<rbrakk> \<Longrightarrow>
    spsc_step s (s\<lparr>sp_queue := queue_consume (length buf) (sp_queue s), sp_take := TakeIdle,
      sp_received := sp_received s @ buf\<rparr>)"

inductive_cases spsc_stepE: "spsc_step s s'"

inductive spsc_reach :: "equeue_queue \<Rightarrow> spsc \<Rightarrow> bool" for q where
  start: "spsc_reach q \<lparr>sp_queue = q, sp_put = PutIdle, sp_take = TakeIdle, sp_sent = [], sp_received = []\<rparr>"
| step: "\<lbrakk> spsc_reach q s; spsc_step s s' \<rbrakk> \<Longrightarrow> spsc_reach q s'"

text \<open>
  The invariant: the ring holds what was sent and not received; a thread that saw space has space
  until it publishes; the event it stored is at the rear; the buffer of the dispatcher is a prefix of
  the ring.
\<close>

definition put_inv :: "spsc \<Rightarrow> bool" where
  "put_inv s \<longleftrightarrow> (let q = sp_queue s in case sp_put s of
       PutSpace ev \<Rightarrow> \<not> q_full q
     | PutStored ev \<Rightarrow> \<not> q_full q \<and> q_events q ! ring_slot (q_size q) (q_rear q) = ev
     | _ \<Rightarrow> True)"

definition take_inv :: "spsc \<Rightarrow> bool" where
  "take_inv s \<longleftrightarrow> (case sp_take s of TakeIdle \<Rightarrow> True | TakeCopy n buf \<Rightarrow> prefix buf (q_contents (sp_queue s)))"

definition spsc_inv :: "equeue_queue \<Rightarrow> spsc \<Rightarrow> bool" where
  "spsc_inv q0 s \<longleftrightarrow> q_wf (sp_queue s) \<and> put_inv s \<and> take_inv s
     \<and> sp_received s @ q_contents (sp_queue s) = q_contents q0 @ sp_sent s"

lemma store_contents:
  assumes "q_wf q" and "\<not> q_full q"
  shows "q_wf (queue_store ev q)" and "q_contents (queue_store ev q) = q_contents q"
    and "\<not> q_full (queue_store ev q)"
    and "q_events (queue_store ev q) ! ring_slot (q_size (queue_store ev q)) (q_rear (queue_store ev q)) = ev"
proof -
  let ?s = "queue_store ev q"
  have fields: "q_size ?s = q_size q" "q_front ?s = q_front q" "q_rear ?s = q_rear q"
    "q_events ?s = (q_events q)[ring_slot (q_size q) (q_rear q) := ev]" by (simp_all add: queue_store_def)
  show wf: "q_wf ?s" using assms(1) by (auto simp: q_wf_def ring_wf_def fields)
  show full: "\<not> q_full ?s" using assms(2) by (simp add: q_full_def fields)
  have slot: "ring_slot (q_size q) (q_rear q) < length (q_events q)"
    using ring_slot_bound assms(1) by (auto simp: q_wf_def)
  then show "q_events ?s ! ring_slot (q_size ?s) (q_rear ?s) = ev" by (simp add: fields)
  have "queue_put ev ?s = queue_put ev q" by (simp add: queue_put_def queue_store_def queue_publish_def)
  then have "q_contents ?s @ [ev] = q_contents q @ [ev]"
    using q_put [OF assms, of ev] q_put [OF wf full, of ev] by simp
  then show "q_contents ?s = q_contents q" by simp
qed

lemma publish_contents:
  assumes "q_wf q" and "\<not> q_full q" and "q_events q ! ring_slot (q_size q) (q_rear q) = ev"
  shows "q_wf (queue_publish q)" and "q_contents (queue_publish q) = q_contents q @ [ev]"
proof -
  have "queue_store ev q = q" unfolding assms(3) [symmetric] queue_store_def by simp
  then have "queue_put ev q = queue_publish q" by (simp add: queue_put_def)
  then show "q_wf (queue_publish q)" "q_contents (queue_publish q) = q_contents q @ [ev]"
    using q_put [OF assms(1,2), of ev] by simp_all
qed

lemma consume_not_full:
  assumes "q_wf q" and "n \<le> length (q_contents q)" and "\<not> q_full q"
  shows "\<not> q_full (queue_consume n q)"
proof -
  have c: "q_wf (queue_consume n q)" "q_contents (queue_consume n q) = drop n (q_contents q)"
    using q_consume [OF assms(1,2)] by auto
  have "q_events (queue_consume n q) = q_events q" by (simp add: queue_consume_def)
  then show ?thesis using q_full_iff [OF c(1)] c(2) q_room [OF assms(1,3)] by simp
qed

lemma spsc_inv_step:
  assumes "spsc_inv q0 s" and "spsc_step s s'"
  shows "spsc_inv q0 s'"
  using assms(2)
proof cases
  case (put_call ev)
  then show ?thesis using assms(1) by (auto simp: spsc_inv_def put_inv_def take_inv_def split: take_pc.splits)
next
  case (put_space ev)
  then show ?thesis using assms(1) by (auto simp: spsc_inv_def put_inv_def take_inv_def split: take_pc.splits)
next
  case (put_store ev)
  then have q: "q_wf (sp_queue s)" "\<not> q_full (sp_queue s)" using assms(1) by (auto simp: spsc_inv_def put_inv_def)
  show ?thesis using assms(1) put_store(1) store_contents [OF q, of ev] by (auto simp: spsc_inv_def put_inv_def take_inv_def Let_def split: take_pc.splits)
next
  case (put_publish ev)
  then have q: "q_wf (sp_queue s)" "\<not> q_full (sp_queue s)"
    "q_events (sp_queue s) ! ring_slot (q_size (sp_queue s)) (q_rear (sp_queue s)) = ev"
    using assms(1) by (auto simp: spsc_inv_def put_inv_def Let_def)
  show ?thesis
    using assms(1) put_publish(1) publish_contents [OF q]
    by (auto simp: spsc_inv_def put_inv_def take_inv_def split: take_pc.splits)
next
  case (take_call n)
  then show ?thesis using assms(1) by (auto simp: spsc_inv_def put_inv_def take_inv_def split: take_pc.splits)
next
  case (take_copy n buf ev)
  let ?q = "sp_queue s"
  have q: "q_wf ?q" "prefix buf (q_contents ?q)" using assms(1) take_copy(2) by (auto simp: spsc_inv_def take_inv_def)
  then obtain rest where rest: "q_contents ?q = buf @ rest" by (auto elim: prefixE)
  have "length buf \<noteq> length (q_contents ?q)"
    using take_copy(3) rear_minus_zero [of "length buf" ?q] prefix_length_le [OF q(2)] by (simp add: copy_more_def)
  then have len: "length buf < length (q_contents ?q)" using rest by simp
  then have "ev = q_contents ?q ! length buf" using event_at_nth [OF q(1) len] take_copy(4) by simp
  then have "prefix (buf @ [ev]) (q_contents ?q)" using len rest by (cases rest) simp_all
  then show ?thesis using assms(1) take_copy(1) by (auto simp: spsc_inv_def put_inv_def take_inv_def split: take_pc.splits)
next
  case (take_advance n buf)
  let ?q = "sp_queue s"
  have q: "q_wf ?q" "prefix buf (q_contents ?q)" using assms(1) take_advance(2) by (auto simp: spsc_inv_def take_inv_def)
  then obtain rest where rest: "q_contents ?q = buf @ rest" by (auto elim: prefixE)
  have len: "length buf \<le> length (q_contents ?q)" using rest by simp
  have c: "q_wf (queue_consume (length buf) ?q)" "q_contents (queue_consume (length buf) ?q) = rest"
    using q_consume [OF q(1) len] rest by auto
  have "put_inv (s\<lparr>sp_queue := queue_consume (length buf) ?q\<rparr>)"
    using assms(1) consume_not_full [OF q(1) len]
    by (auto simp: spsc_inv_def put_inv_def Let_def queue_consume_def split: put_pc.splits)
  then show ?thesis
    using assms(1) take_advance(1) c rest by (auto simp: spsc_inv_def put_inv_def take_inv_def split: take_pc.splits)
qed

lemma spsc_reach_inv: "\<lbrakk> spsc_reach q s; q_wf q \<rbrakk> \<Longrightarrow> spsc_inv q s"
proof (induction rule: spsc_reach.induct)
  case start
  then show ?case by (auto simp: spsc_inv_def put_inv_def take_inv_def split: take_pc.splits)
next
  case (step s s')
  then show ?case using spsc_inv_step by blast
qed

text \<open>The functions are runs of the steps.\<close>

lemma put_is_steps:
  assumes "sp_put s = PutIdle" and "\<not> q_full (sp_queue s)"
  shows "spsc_step\<^sup>*\<^sup>* s (s\<lparr>sp_queue := queue_put ev (sp_queue s), sp_sent := sp_sent s @ [ev]\<rparr>)"
proof -
  let ?s1 = "s\<lparr>sp_put := PutWait ev\<rparr>" and ?s2 = "s\<lparr>sp_put := PutSpace ev\<rparr>"
  let ?s3 = "s\<lparr>sp_queue := queue_store ev (sp_queue s), sp_put := PutStored ev\<rparr>"
  have "spsc_step s ?s1" using assms(1) by (rule spsc_step.put_call)
  moreover have "spsc_step ?s1 ?s2" using spsc_step.put_space [of ?s1 ev] assms(2) by simp
  moreover have "spsc_step ?s2 ?s3" using spsc_step.put_store [of ?s2 ev] by simp
  moreover have "spsc_step ?s3 (?s3\<lparr>sp_queue := queue_publish (sp_queue ?s3), sp_put := PutIdle, sp_sent := sp_sent ?s3 @ [ev]\<rparr>)"
    by (rule spsc_step.put_publish) simp
  moreover have "?s3\<lparr>sp_queue := queue_publish (sp_queue ?s3), sp_put := PutIdle, sp_sent := sp_sent ?s3 @ [ev]\<rparr>
      = s\<lparr>sp_queue := queue_put ev (sp_queue s), sp_sent := sp_sent s @ [ev]\<rparr>"
    using assms(1) by (simp add: queue_put_def)
  ultimately show ?thesis by (metis (no_types, lifting) rtranclp.simps)
qed

lemma copy_steps:
  assumes "sp_take s = TakeCopy n buf" and "q_wf (sp_queue s)" and "length buf \<le> length (q_contents (sp_queue s))"
  shows "spsc_step\<^sup>*\<^sup>* s (s\<lparr>sp_take := TakeCopy n (buf @ take (n - length buf) (drop (length buf) (q_contents (sp_queue s))))\<rparr>)"
  using assms
proof (induction "n - length buf" arbitrary: s buf)
  case 0
  then have same: "s\<lparr>sp_take := TakeCopy n buf\<rparr> = s" by simp
  show ?case using 0(1) by (simp add: same)
next
  case (Suc k)
  let ?q = "sp_queue s"
  let ?i = "length buf"
  show ?case
  proof (cases "?i = length (q_contents ?q)")
    case True
    have same: "s\<lparr>sp_take := TakeCopy n buf\<rparr> = s" using Suc.prems by simp
    show ?thesis using True by (simp add: same)
  next
    case False
    then have i: "?i < length (q_contents ?q)" using Suc.prems by simp
    let ?ev = "q_contents ?q ! ?i"
    let ?s1 = "s\<lparr>sp_take := TakeCopy n (buf @ [?ev])\<rparr>"
    have more: "copy_more ?q n buf"
      using Suc.hyps(2) rear_minus_zero [OF Suc.prems(3)] False by (simp add: copy_more_def)
    have one: "spsc_step s ?s1"
      using spsc_step.take_copy [OF Suc.prems(1) more] event_at_nth [OF Suc.prems(2) i] by simp
    have "spsc_step\<^sup>*\<^sup>* ?s1 (?s1\<lparr>sp_take := TakeCopy n ((buf @ [?ev]) @ take (n - length (buf @ [?ev]))
        (drop (length (buf @ [?ev])) (q_contents (sp_queue ?s1))))\<rparr>)"
      by (rule Suc.hyps(1)) (use Suc i in simp_all)
    moreover have "(buf @ [?ev]) @ take (n - length (buf @ [?ev])) (drop (length (buf @ [?ev])) (q_contents ?q))
        = buf @ take (n - ?i) (drop ?i (q_contents ?q))"
    proof -
      have "n - ?i = Suc (n - Suc ?i)" using Suc.hyps(2) by simp
      then show ?thesis using i by (simp add: Cons_nth_drop_Suc [symmetric])
    qed
    ultimately show ?thesis using one by (simp add: converse_rtranclp_into_rtranclp)
  qed
qed

lemma take_is_steps:
  fixes n :: nat
  assumes "sp_take s = TakeIdle" and "q_wf (sp_queue s)" and "q_contents (sp_queue s) \<noteq> []"
  defines "evs \<equiv> take n (q_contents (sp_queue s))"
  shows "spsc_step\<^sup>*\<^sup>* s (s\<lparr>sp_queue := queue_consume (length evs) (sp_queue s), sp_received := sp_received s @ evs\<rparr>)"
proof -
  let ?q = "sp_queue s" and ?s1 = "s\<lparr>sp_take := TakeCopy n []\<rparr>" and ?s2 = "s\<lparr>sp_take := TakeCopy n evs\<rparr>"
  have "spsc_step s ?s1" using assms(1,3) q_empty_iff by (intro spsc_step.take_call) auto
  moreover have "spsc_step\<^sup>*\<^sup>* ?s1 ?s2" using copy_steps [of ?s1 n "[]"] assms(2) by (simp add: evs_def)
  moreover have "spsc_step ?s2 (?s2\<lparr>sp_queue := queue_consume (length evs) (sp_queue ?s2), sp_take := TakeIdle,
      sp_received := sp_received ?s2 @ evs\<rparr>)"
    using rear_minus_zero [of "length evs" ?q] by (intro spsc_step.take_advance) (auto simp: copy_more_def evs_def)
  moreover have "?s2\<lparr>sp_queue := queue_consume (length evs) (sp_queue ?s2), sp_take := TakeIdle,
      sp_received := sp_received ?s2 @ evs\<rparr>
    = s\<lparr>sp_queue := queue_consume (length evs) ?q, sp_received := sp_received s @ evs\<rparr>"
    using assms(1) by simp
  ultimately show ?thesis
    by (metis (no_types, lifting) converse_rtranclp_into_rtranclp rtranclp.rtrancl_into_rtrancl)
qed

subsection \<open>Properties\<close>

text \<open>C13: the ring loses, duplicates and reorders nothing. Let a module thread put events and the
  dispatcher take them, interleaved access by access: at every moment what was taken, followed by
  what is in the ring, is what was in the ring at first followed by what was put, in the order of the
  puts; the ring never holds more than its size, and no access is outside it.\<close>

theorem ring_linear:
  assumes "spsc_reach q s" and "q_wf q"
  shows "sp_received s @ q_contents (sp_queue s) = q_contents q @ sp_sent s
    \<and> length (q_contents (sp_queue s)) \<le> length (q_events (sp_queue s))
    \<and> (\<forall>n buf. sp_take s = TakeCopy n buf \<and> copy_more (sp_queue s) n buf \<longrightarrow>
        is_ok (event_at (sp_queue s) (q_front (sp_queue s) + of_nat (length buf))))
    \<and> ring_slot (q_size (sp_queue s)) (q_rear (sp_queue s)) < length (q_events (sp_queue s))"
proof -
  have inv: "spsc_inv q s" using spsc_reach_inv [OF assms] .
  then have wf: "q_wf (sp_queue s)" by (simp add: spsc_inv_def)
  then have "ring_slot (q_size (sp_queue s)) pos < length (q_events (sp_queue s))" for pos
    using ring_slot_bound by (auto simp: q_wf_def)
  moreover have "length (q_contents (sp_queue s)) \<le> length (q_events (sp_queue s))"
    using wf ring_length_bound by (simp add: q_wf_def q_contents_def)
  ultimately show ?thesis using inv by (simp add: spsc_inv_def event_at_def)
qed

theorem ring_linear_witness:
  "\<exists>q s. q_wf q \<and> spsc_reach q s \<and> sp_sent s = [IoEvent (Some 1) (Some 2)]
    \<and> sp_received s @ q_contents (sp_queue s) = q_contents q @ sp_sent s"
proof -
  obtain eq where "q_wf (eq_list eq ! 0)" "\<not> q_full (eq_list eq ! 0)" using one_queue by blast
  then obtain q where q: "q_wf q" "\<not> q_full q" by blast
  let ?s = "\<lparr>sp_queue = q, sp_put = PutIdle, sp_take = TakeIdle, sp_sent = [], sp_received = []\<rparr>"
  let ?ev = "IoEvent (Some 1) (Some 2)"
  have "spsc_step\<^sup>*\<^sup>* ?s (?s\<lparr>sp_queue := queue_put ?ev q, sp_sent := [?ev]\<rparr>)"
    using put_is_steps [of ?s ?ev] q by simp
  then have "spsc_reach q (?s\<lparr>sp_queue := queue_put ?ev q, sp_sent := [?ev]\<rparr>)"
    by (induction rule: rtranclp_induct) (auto intro: spsc_reach.intros)
  from ring_linear [OF this q(1)] this q(1) show ?thesis
    by (intro exI [of _ q] exI [of _ "?s\<lparr>sp_queue := queue_put ?ev q, sp_sent := [?ev]\<rparr>"]) simp
qed

text \<open>The size of a ring is the smallest power of two that is at least the requested size, up to
  \<open>2 ^ 31\<close>; for a larger request the size wraps to 0.\<close>

theorem ring_size:
  assumes "sz \<noteq> 0"
  shows "if unat sz \<le> 2 ^ 31 then \<exists>k<32. queue_size sz = 2 ^ k \<and> unat sz \<le> 2 ^ k \<and> 2 ^ k < 2 * unat sz
    else queue_size sz = 0"
  using queue_size_pow [of sz] queue_size_overflow [of sz] assms by (auto simp: unat_gt_0)

theorem ring_size_witness: "(3 :: 32 word) \<noteq> 0 \<and> (\<exists>k<32. queue_size 3 = 2 ^ k \<and> 3 \<le> (2 :: nat) ^ k \<and> (2 :: nat) ^ k < 6)"
  using ring_size [of 3] by simp

text \<open>The two rounds of a wait during which an event arrives.\<close>

definition silent_round :: "(equeue \<Rightarrow> equeue) \<Rightarrow> wait_round" where
  "silent_round late = \<lparr>wr_others = id, wr_killed = False, wr_mask = None, wr_late = late\<rparr>"

lemma all_events_allow: "t < ITC_EQUEUE_EVENT_TYPE_COUNT \<Longrightarrow> mask_allows ALL_EVENTS t"
proof -
  assume "t < ITC_EQUEUE_EVENT_TYPE_COUNT"
  then have "unat t < 2" by (simp add: ITC_EQUEUE_EVENT_TYPE_COUNT_def word_less_nat_alt)
  then have "unat t = 0 \<or> unat t = 1" by auto
  then show ?thesis by (auto simp: mask_allows_def ALL_EVENTS_def ITC_EQUEUE_EVENT_TYPE_COUNT_def)
qed

lemma put_event_found:
  assumes "eq_reach eq" and "itc_equeue_put [] token ev eq = Some (Ok (0, eq1))"
  shows "find_queue ALL_EVENTS 0 (eq_list eq1) \<noteq> None"
proof -
  have ok: "eq_ok eq" using assms(1) eq_reach_ok by blast
  let ?q = "eq_list eq ! unat token"
  have c: "token \<noteq> SCHED_TOKEN" "valid_event ev" "unat token < length (eq_list eq)" "q_type ?q = event_type ev" "\<not> q_full ?q"
    "eq1 = put_notify (q_type ?q) (set_queue (unat token) (queue_put ev ?q) eq)"
    using assms(2) by (auto simp: itc_equeue_put_def queue_at_cases put_wait_Nil queue_put_def split: if_splits)
  have t: "q_typed ?q" using eq_ok_nth [OF ok c(3)] .
  then have some: "q_contents (queue_put ev ?q) \<noteq> []" using q_put [OF _ c(5), of ev] by (simp add: q_typed_def)
  have "event_type ev < ITC_EQUEUE_EVENT_TYPE_COUNT"
    using c(2) by (cases ev) (simp_all add: ITC_EQUEUE_EVENT_TYPE_COUNT_def ITC_EQUEUE_EVENT_TYPE_IO_def
        ITC_EQUEUE_EVENT_TYPE_TASK_def word_less_nat_alt)
  then have "mask_allows ALL_EVENTS (q_type (queue_put ev ?q))" using all_events_allow c(4) by simp
  moreover have "queue_put ev ?q \<in> set (eq_list eq1)" using c(3,6) by (simp add: set_update_memI)
  ultimately show ?thesis using some find_queue_None by metis
qed

text \<open>C17: an event may arrive after the dispatcher found nothing and before it announces that it waits.
  Then nobody wakes it: it waits although an event is there. The next round, which the timeout of the
  wait starts at the latest, finds the event and returns with the mutex released.\<close>

theorem missed_event_found_next_round:
  assumes "eq_reach eq" and "find_queue ALL_EVENTS 0 (eq_list eq) = None" and "eq_waiting eq = 0"
    and "itc_equeue_put [] token ev eq = Some (Ok (0, eq1))"
  shows "wait_loop True ALL_EVENTS [silent_round (\<lambda>_. eq1)] eq = None
    \<and> eq_take_signals eq1 = eq_take_signals eq
    \<and> (\<exists>eq2. wait_loop True ALL_EVENTS (silent_round (\<lambda>_. eq1) # silent_round late # rounds) eq = Some (Ok (0, eq2))
        \<and> \<not> eq_take_locked eq2 \<and> eq_list eq2 = eq_list eq1)"
proof -
  have found: "find_queue ALL_EVENTS 0 (eq_list eq1) \<noteq> None" using put_event_found [OF assms(1,4)] .
  have "eq_take_signals eq1 = eq_take_signals eq"
    using assms(3,4) by (auto simp: itc_equeue_put_def put_notify_def set_queue_def mask_allows_def
        split: if_splits result.splits option.splits)
  then show ?thesis
    using assms(2) found by (simp add: silent_round_def Let_def eq_list_def)
qed

theorem missed_event_found_next_round_witness:
  "\<exists>eq eq1. eq_reach eq \<and> find_queue ALL_EVENTS 0 (eq_list eq) = None
    \<and> itc_equeue_put [] 0 (TaskEvent (Some 1) (Some 2) (Some 3)) eq = Some (Ok (0, eq1))
    \<and> wait_loop True ALL_EVENTS [silent_round (\<lambda>_. eq1)] eq = None
    \<and> eq_take_signals eq1 = eq_take_signals eq"
proof -
  let ?ev = "TaskEvent (Some 1) (Some 2) (Some 3)"
  obtain eq where eq: "eq_reach eq" "length (eq_list eq) = 1" "q_type (eq_list eq ! 0) = ITC_EQUEUE_EVENT_TYPE_TASK"
    "q_contents (eq_list eq ! 0) = []" "q_wf (eq_list eq ! 0)" "\<not> q_full (eq_list eq ! 0)" "eq_waiting eq = 0"
    using one_queue by blast
  then have none: "find_queue ALL_EVENTS 0 (eq_list eq) = None"
    unfolding find_queue_None by (cases "eq_list eq") auto
  have "ring_slot (q_size (eq_list eq ! 0)) (q_rear (eq_list eq ! 0)) < length (q_events (eq_list eq ! 0))"
    using eq(5) ring_slot_bound by (auto simp: q_wf_def)
  then obtain eq1 where put: "itc_equeue_put [] 0 ?ev eq = Some (Ok (0, eq1))"
    using eq by (simp add: itc_equeue_put_def queue_at_cases put_wait_Nil SCHED_TOKEN_def)
  show ?thesis using missed_event_found_next_round [OF eq(1) none eq(7) put] eq(1) none put by blast
qed

text \<open>
  A request for a token that fails has used up the number of the token: later threads get numbers
  that are one ahead of their queues, and the first put looks up a queue that does not exist.
\<close>

theorem failed_token_shifts:
  assumes "itc_equeue_init plenty = Ok eq" and "itc_equeue_module_token (\<lambda>k. k \<noteq> 0) sz 0 eq = Ok (t1, eq1)"
    and "itc_equeue_module_token plenty sz 0 eq1 = Ok (t2, eq2)" and "sz \<noteq> 0"
  shows "t1 = ERROR_TOKEN \<and> t2 = 1 \<and> length (eq_list eq2) = 1
    \<and> itc_equeue_put [] t2 (IoEvent (Some a) (Some b)) eq2 = Some Undef"
proof -
  have "eq_queues eq = \<lparr>vec_cap = 4, vec_data = []\<rparr>" "eq_next_token eq = 0"
    using assms(1) by (auto simp: itc_equeue_init_def vector_new_def ITC_EQUEUE_VEC_INIT_SIZE_def)
  then show ?thesis
    using assms(2,3,4)
    by (auto simp: itc_equeue_module_token_def vector_append_def vector_length_def ITC_EQUEUE_EVENT_TYPE_COUNT_def
        Let_def eq_list_def itc_equeue_put_def queue_at_cases SCHED_TOKEN_def)
qed

subsection \<open>Disposal\<close>

lemma finalize_slot_ring:
  assumes "k < 32" and "q_size q = 2 ^ k"
  shows "finalize_slot q j = unat j mod 2 ^ k"
proof -
  have "(2 ^ k - 1 :: 32 word) = mask k" by (simp add: mask_eq_exp_minus_1)
  then have "(ucast (2 ^ k - 1 :: 32 word) :: 64 word) = mask k" using assms(1) by (simp only: ucast_mask_eq) (simp add: min_def)
  then have "finalize_slot q j = unat (take_bit k j)" using assms(2) by (simp only: finalize_slot_def take_bit_eq_mask)
  also have "\<dots> = unat j mod 2 ^ k" by (simp only: unsigned_take_bit_eq) (simp only: take_bit_eq_mod)
  finally show ?thesis .
qed

lemma finalize_loop_Ok:
  assumes "q_wf q"
  shows "\<exists>ds. finalize_loop q j = Ok ds"
proof -
  obtain k where k: "k < 32" "q_size q = 2 ^ k" "length (q_events q) = 2 ^ k" using assms by (auto simp: q_wf_def ring_wf_def)
  have slot: "finalize_slot q j < length (q_events q)" for j using finalize_slot_ring [OF k(1,2)] k(3) by simp
  show ?thesis
  proof (induction "unat (ucast (q_rear q) - j)" arbitrary: j rule: less_induct)
    case less
    show ?case
    proof (cases "j = ucast (q_rear q)")
      case False
      then obtain ds where "finalize_loop q (j + 1) = Ok ds" using less unat_dist_less by blast
      then show ?thesis using slot [of j] False by (subst finalize_loop.simps) (simp add: not_le del: finalize_loop.simps)
    qed (simp add: finalize_loop.simps)
  qed
qed

lemma finalize_loop_step:
  assumes "q_wf q" and "j \<noteq> ucast (q_rear q)"
  shows "finalize_loop q j = rmap (\<lambda>ds. event_disposals (q_events q ! finalize_slot q j) @ ds) (finalize_loop q (j + 1))"
proof -
  obtain k where k: "k < 32" "q_size q = 2 ^ k" "length (q_events q) = 2 ^ k" using assms(1) by (auto simp: q_wf_def ring_wf_def)
  have "finalize_slot q j < length (q_events q)" using finalize_slot_ring [OF k(1,2)] k(3) by simp
  then show ?thesis using assms(2) by (subst finalize_loop.simps) (simp add: not_le del: finalize_loop.simps)
qed

lemma ucast_of_unat: "(ucast (w :: 32 word) :: 64 word) = of_nat (unat w)"
  by simp

text \<open>As long as the rear has not wrapped past the front, the loop disposes of what is in the ring.\<close>

lemma finalize_loop_contents:
  assumes wf: "q_wf q" and order: "unat (q_front q) \<le> unat (q_rear q)" and i: "i \<le> length (q_contents q)"
  shows "finalize_loop q (ucast (q_front q) + of_nat i) = Ok (concat (map event_disposals (drop i (q_contents q))))"
  using i
proof (induction "length (q_contents q) - i" arbitrary: i)
  case 0
  then have "i = unat (q_rear q) - unat (q_front q)"
    using order by (simp add: q_contents_def ring_length_def unat_sub word_le_nat_alt)
  then have "(ucast (q_front q) + of_nat i :: 64 word) = ucast (q_rear q)"
    using order by (simp only: ucast_of_unat) (simp flip: of_nat_add)
  then show ?case using 0 by (simp add: finalize_loop.simps)
next
  case (Suc n)
  then have i: "i < length (q_contents q)" by simp
  have len: "length (q_contents q) = unat (q_rear q) - unat (q_front q)"
    using order by (simp add: q_contents_def ring_length_def unat_sub word_le_nat_alt)
  let ?j = "ucast (q_front q) + of_nat i :: 64 word"
  have r32: "unat (q_rear q) < 2 ^ 32" using unsigned_less [of "q_rear q", where 'a = nat] by simp
  have j: "unat ?j = unat (q_front q) + i"
    using i len r32 by (simp add: unat_word_ariths unat_of_nat unsigned_ucast_eq take_bit_eq_mod)
  have "?j \<noteq> ucast (q_rear q)"
  proof
    assume "?j = ucast (q_rear q)"
    then have "unat (q_front q) + i = unat (ucast (q_rear q) :: 64 word)" using j by simp
    then have "unat (q_front q) + i = unat (q_rear q)" using r32 by (simp add: unsigned_ucast_eq take_bit_eq_mod)
    then show False using i len order by simp
  qed
  moreover obtain k where k: "k < 32" "q_size q = 2 ^ k" using wf by (auto simp: q_wf_def ring_wf_def)
  then have "finalize_slot q ?j = ring_slot (q_size q) (q_front q + of_nat i)"
    using j finalize_slot_ring [OF k] ring_slot_add [OF k(1)] by simp
  then have "q_events q ! finalize_slot q ?j = q_contents q ! i"
    using ring_nth [of i "q_front q" "q_rear q" "q_events q" "q_size q"] i by (simp add: q_contents_def)
  moreover have "finalize_loop q (?j + 1) = Ok (concat (map event_disposals (drop (Suc i) (q_contents q))))"
    using Suc.hyps(1) [of "Suc i"] Suc.hyps(2) i by (simp add: add.assoc add.commute [of 1])
  ultimately show ?case
    using finalize_loop_step [OF wf, of ?j] i by (simp add: Cons_nth_drop_Suc [symmetric] del: finalize_loop.simps)
qed

text \<open>A stretch of the loop that does not meet the rear.\<close>

definition slot_disposals :: "equeue_queue \<Rightarrow> nat \<Rightarrow> disposal list" where
  "slot_disposals q i = event_disposals (q_events q ! finalize_slot q (ucast (q_front q) + of_nat i))"

lemma finalize_loop_run:
  assumes "q_wf q" and "\<forall>i<m. (ucast (q_front q) + of_nat i :: 64 word) \<noteq> ucast (q_rear q)"
  shows "finalize_loop q (ucast (q_front q)) = rmap (\<lambda>ds. concat (map (slot_disposals q) [0..<m]) @ ds)
    (finalize_loop q (ucast (q_front q) + of_nat m))"
  using assms(2)
proof (induction m)
  case 0
  obtain ds where "finalize_loop q (ucast (q_front q)) = Ok ds" using finalize_loop_Ok [OF assms(1)] by blast
  then show ?case by (simp del: finalize_loop.simps)
next
  case (Suc m)
  let ?j = "ucast (q_front q) + of_nat m :: 64 word"
  have "?j \<noteq> ucast (q_rear q)" using Suc.prems by blast
  from finalize_loop_step [OF assms(1) this]
  have step: "finalize_loop q ?j = rmap (\<lambda>ds. slot_disposals q m @ ds) (finalize_loop q (ucast (q_front q) + of_nat (Suc m)))"
    by (simp add: slot_disposals_def add.assoc add.commute [of 1] del: finalize_loop.simps)
  obtain ds where "finalize_loop q (ucast (q_front q) + of_nat (Suc m)) = Ok ds" using finalize_loop_Ok [OF assms(1)] by blast
  then show ?case using Suc step by (simp del: finalize_loop.simps of_nat_Suc)
qed

lemma finalize_again:
  assumes wf: "q_wf q" and order: "unat (q_rear q) < unat (q_front q)"
  shows "\<exists>ds ds'. finalize_loop q (ucast (q_front q)) = Ok (concat (map event_disposals (q_contents q)) @ ds
    @ concat (map event_disposals (q_contents q)) @ ds')"
proof -
  obtain k where k: "k < 32" "q_size q = 2 ^ k" "length (q_contents q) \<le> 2 ^ k"
    using wf by (auto simp: q_wf_def ring_wf_def q_contents_def)
  let ?n = "length (q_contents q)" and ?s = "2 ^ k :: nat"
  have s: "?s \<le> 2 ^ 31" using k(1) by (intro power_increasing) simp_all
  have f32: "unat (q_front q) < 2 ^ 32" "unat (q_rear q) < 2 ^ 32" using unsigned_less [where 'a = nat and 'b = 32] by auto
  have j: "unat (ucast (q_front q) + of_nat i :: 64 word) = unat (q_front q) + i" if "i < 2 ^ 33" for i
    using that f32 by (simp add: unat_word_ariths unat_of_nat unsigned_ucast_eq take_bit_eq_mod)
  have "(ucast (q_front q) + of_nat i :: 64 word) \<noteq> ucast (q_rear q)" if "i < ?s + ?n" for i
  proof
    assume "(ucast (q_front q) + of_nat i :: 64 word) = ucast (q_rear q)"
    then have "unat (q_front q) + i = unat (ucast (q_rear q) :: 64 word)" using j [of i] that k(3) s by simp
    then show False using order f32 by (simp add: unsigned_ucast_eq take_bit_eq_mod)
  qed
  then have run: "finalize_loop q (ucast (q_front q)) = rmap (\<lambda>ds. concat (map (slot_disposals q) [0..<?s + ?n]) @ ds)
      (finalize_loop q (ucast (q_front q) + of_nat (?s + ?n)))" using finalize_loop_run [OF wf] by blast
  have slot: "slot_disposals q i = event_disposals (q_contents q ! (i mod ?s))" if "i < 2 ^ 33" "i mod ?s < ?n" for i
  proof -
    have "finalize_slot q (ucast (q_front q) + of_nat i) = (unat (q_front q) + i mod ?s) mod ?s"
      using finalize_slot_ring [OF k(1,2)] j [OF that(1)] by (simp add: mod_add_right_eq)
    also have "\<dots> = ring_slot (q_size q) (q_front q + of_nat (i mod ?s))" using ring_slot_add [OF k(1)] k(2) by simp
    finally show ?thesis
      using ring_nth [of "i mod ?s" "q_front q" "q_rear q" "q_events q" "q_size q"] that(2)
      by (simp add: slot_disposals_def q_contents_def)
  qed
  have one: "map (slot_disposals q) [0..<?n] = map event_disposals (q_contents q)"
    using slot s k(3) by (intro nth_equalityI) auto
  have two: "map (slot_disposals q) [?s..<?s + ?n] = map event_disposals (q_contents q)"
    using slot s k(3) by (intro nth_equalityI) auto
  have "[0..<?s + ?n] = [0..<?n] @ [?n..<?s] @ [?s..<?s + ?n]"
    using upt_add_eq_append [of 0 ?n "?s - ?n"] upt_add_eq_append [of 0 ?s ?n] k(3) by simp
  then have parts: "concat (map (slot_disposals q) [0..<?s + ?n]) = concat (map event_disposals (q_contents q))
      @ concat (map (slot_disposals q) [?n..<?s]) @ concat (map event_disposals (q_contents q))"
    using one two by simp
  obtain ds where "finalize_loop q (ucast (q_front q) + of_nat (?s + ?n)) = Ok ds" using finalize_loop_Ok [OF wf] by blast
  then have "finalize_loop q (ucast (q_front q)) = Ok (concat (map event_disposals (q_contents q))
      @ concat (map (slot_disposals q) [?n..<?s]) @ concat (map event_disposals (q_contents q)) @ ds)"
    using run parts by (simp del: finalize_loop.simps of_nat_add)
  then show ?thesis by blast
qed

text \<open>Disposing of the event queue. Of a ring whose positions have not wrapped it disposes of exactly
  the events that are in it. The counter of the loop has 64 bits, the rear has 32: once the rear has
  wrapped and the front has not, the loop runs on past the rear and disposes of every event again.\<close>

theorem finalize_disposes:
  assumes "q_wf q"
  shows "if unat (q_front q) \<le> unat (q_rear q)
    then finalize_loop q (ucast (q_front q)) = Ok (concat (map event_disposals (q_contents q)))
    else \<exists>ds ds'. finalize_loop q (ucast (q_front q)) = Ok (concat (map event_disposals (q_contents q)) @ ds
      @ concat (map event_disposals (q_contents q)) @ ds')"
  using finalize_loop_contents [OF assms, of 0] finalize_again [OF assms] by (auto simp del: finalize_loop.simps)

theorem finalize_disposes_witness:
  "\<exists>q ds ds'. q_wf q \<and> q_contents q = [IoEvent (Some 1) (Some 2)]
    \<and> finalize_loop q (ucast (q_front q)) = Ok ([PipeFreed 1, PipeFreed 2] @ ds @ [PipeFreed 1, PipeFreed 2] @ ds')"
proof -
  let ?q = "\<lparr>q_type = 0, q_size = 1, q_front = -1, q_rear = 0, q_events = [IoEvent (Some 1) (Some 2)]\<rparr>"
  have "q_wf ?q" by (auto simp: q_wf_def ring_wf_def ring_length_def intro!: exI [of _ 0])
  moreover have "q_contents ?q = [IoEvent (Some 1) (Some 2)]"
    by (simp add: q_contents_def ring_contents_def ring_length_def ring_slot_def)
  moreover have "\<not> unat (q_front ?q) \<le> unat (q_rear ?q)" by (simp add: unat_gt_0)
  ultimately show ?thesis using finalize_disposes [of ?q] by (intro exI [of _ ?q]) (auto simp del: finalize_loop.simps)
qed

end
