(* ===== verification/Async.thy ===== *)
theory Async
  imports RuntimeTask Linked EQueue
begin

unbundle bit_operations_syntax

text \<open>
  The async task processor, \<^verbatim>\<open>src/sched/async.c\<close>: the queue of the tasks that wait for an async
  thread, the list of the tasks that wait for a notification, and the handles that servlets hold.
  Handles live in an object pool, a store of addresses here; the access to a handle that was given
  back is undefined. The event queue is seen through the answer to each put; what a callback of a
  servlet does to its handle is an argument. Operations on mutexes and condition variables succeed.
\<close>

subsection \<open>Data\<close>

definition HANDLE_MAGIC :: "32 word" where "HANDLE_MAGIC = 0x35fc32ff"
definition FAKE_HANDLE_MAGIC :: "32 word" where "FAKE_HANDLE_MAGIC = 0x42c5ff3c"
definition NO_SLOT :: "32 word" where "NO_SLOT = - 1"

datatype async_state = STATE_INIT | STATE_EXEC | STATE_DONE | STATE_AWAITING | STATE_CANCELED

record async_handle_rec =
  h_await_id :: "32 word"
  h_status :: int
  h_state :: async_state
  h_loop :: "nat option"
  h_task :: "nat option"
  h_exec :: "runtime_task option"

text \<open>The memory a handle points to, told apart by its magic number: a handle or a fake one.\<close>

datatype handle_obj = Handle async_handle_rec | FakeHandle bool

fun magic_num :: "handle_obj \<Rightarrow> 32 word" where
  "magic_num (Handle h) = HANDLE_MAGIC"
| "magic_num (FakeHandle c) = FAKE_HANDLE_MAGIC"

record awaiter =
  aw_task :: "nat option"
  aw_valid :: bool
  aw_next :: "32 word"

text \<open>
  \<open>ac_posted\<close> has the completion events in the order in which they were handed to the event queue,
  each with its answer; \<open>ac_signals\<close> counts the signals on the condition variable of the queue.
\<close>

record async_ctx =
  ac_init :: bool
  ac_killed :: bool
  ac_cap :: "32 word"
  ac_front :: "32 word"
  ac_rear :: "32 word"
  ac_data :: "nat option list"
  ac_pool :: "handle_obj store"
  ac_al_cap :: "32 word"
  ac_unused :: "32 word"
  ac_done :: "32 word"
  ac_list :: "awaiter list"
  ac_nthreads :: "32 word"
  ac_posted :: "(itc_equeue_event \<times> bool) list"
  ac_signals :: nat

subsection \<open>Handles\<close>

text \<open>The handle at an address; the error is a handle of the wrong kind.\<close>

definition get_handle :: "async_ctx \<Rightarrow> nat \<Rightarrow> async_handle_rec result" where
  "get_handle c p = rbind (deref (ac_pool c) p) (\<lambda>obj. case obj of Handle h \<Rightarrow> Ok h | FakeHandle b \<Rightarrow> Error)"

definition set_handle :: "nat \<Rightarrow> async_handle_rec \<Rightarrow> async_ctx \<Rightarrow> async_ctx" where
  "set_handle p h c = c\<lparr>ac_pool := (ac_pool c)(p := Some (Handle h))\<rparr>"

definition free_handle :: "nat \<Rightarrow> async_ctx \<Rightarrow> async_ctx result" where
  "free_handle p c = rmap (\<lambda>_. c\<lparr>ac_pool := (ac_pool c)(p := None)\<rparr>) (deref (ac_pool c) p)"

definition get_awaiter :: "async_ctx \<Rightarrow> 32 word \<Rightarrow> awaiter result" where
  "get_awaiter c i = (if unat i < length (ac_list c) then Ok (ac_list c ! unat i) else Undef)"

definition set_awaiter :: "32 word \<Rightarrow> awaiter \<Rightarrow> async_ctx \<Rightarrow> async_ctx" where
  "set_awaiter i a c = c\<lparr>ac_list := (ac_list c)[unat i := a]\<rparr>"

text \<open>The functions that take a handle: the status is \<open>-1\<close> for NULL or a handle of the wrong kind.\<close>

definition with_handle :: "nat option \<Rightarrow> async_ctx \<Rightarrow> (nat \<Rightarrow> async_handle_rec \<Rightarrow> (int \<times> async_ctx) result)
    \<Rightarrow> (int \<times> async_ctx) result" where
  "with_handle p c f = (case p of None \<Rightarrow> Ok (-1, c)
     | Some r \<Rightarrow> (case get_handle c r of Ok h \<Rightarrow> f r h | Error \<Rightarrow> Ok (-1, c) | Undef \<Rightarrow> Undef))"

definition sched_async_handle_set_await :: "nat option \<Rightarrow> async_ctx \<Rightarrow> (int \<times> async_ctx) result" where
  "sched_async_handle_set_await handle c = with_handle handle c (\<lambda>r task.
     if h_await_id task \<noteq> NO_SLOT then Ok (-1, c)
     else if ac_unused c = NO_SLOT then Ok (-1, c)
     else let claimed = ac_unused c in
       rmap (\<lambda>a. (0, set_handle r (task\<lparr>h_await_id := claimed, h_state := STATE_AWAITING\<rparr>)
              (set_awaiter claimed \<lparr>aw_task = Some r, aw_valid = True, aw_next = NO_SLOT\<rparr>
                (c\<lparr>ac_unused := aw_next a\<rparr>))))
         (get_awaiter c claimed))"

definition sched_async_handle_await_complete :: "nat option \<Rightarrow> int \<Rightarrow> async_ctx \<Rightarrow> (int \<times> async_ctx) result" where
  "sched_async_handle_await_complete handle status c = with_handle handle c (\<lambda>r task.
     if h_await_id task = NO_SLOT then Ok (-1, c)
     else let slot = h_await_id task in
       rmap (\<lambda>c. (0, c\<lparr>ac_signals := ac_signals c + 1\<rparr>))
         (if h_state task = STATE_DONE then Ok c
          else rmap (\<lambda>a.
              set_handle r (task\<lparr>h_state := STATE_DONE, h_status := if status = -1 then -1 else h_status task\<rparr>)
                (set_awaiter slot (a\<lparr>aw_next := ac_done c\<rparr>) c\<lparr>ac_done := slot\<rparr>))
            (get_awaiter c slot)))"

text \<open>The buffer is the last argument; the status code is read into it.\<close>

definition sched_async_handle_status_code :: "nat option \<Rightarrow> bool \<Rightarrow> async_ctx \<Rightarrow> int option result" where
  "sched_async_handle_status_code handle resbuf c = (case handle of None \<Rightarrow> Ok None
     | Some r \<Rightarrow> (case get_handle c r of Ok h \<Rightarrow> Ok (if resbuf then Some (h_status h) else None)
                  | Error \<Rightarrow> Ok None | Undef \<Rightarrow> Undef))"

definition sched_async_handle_cancel :: "nat option \<Rightarrow> int \<Rightarrow> async_ctx \<Rightarrow> (int \<times> async_ctx) result" where
  "sched_async_handle_cancel handle status c = with_handle handle c (\<lambda>r task.
     let task = (if status = -1 then task\<lparr>h_status := -1\<rparr> else task)
     in if h_state task \<noteq> STATE_EXEC \<and> h_state task \<noteq> STATE_INIT then Ok (-1, set_handle r task c)
        else Ok (0, set_handle r (task\<lparr>h_state := STATE_CANCELED\<rparr>) c))"

definition sched_async_fake_handle_free :: "nat option \<Rightarrow> async_ctx \<Rightarrow> (int \<times> async_ctx) result" where
  "sched_async_fake_handle_free handle c = (case handle of None \<Rightarrow> Ok (-1, c)
     | Some r \<Rightarrow> rbind (deref (ac_pool c) r) (\<lambda>obj.
         if magic_num obj \<noteq> FAKE_HANDLE_MAGIC then Ok (-1, c) else rmap (\<lambda>c. (0, c)) (free_handle r c)))"

text \<open>After the pool was freed, disposing of a handle does nothing; \<open>pool\<close> says that it exists.\<close>

definition sched_async_handle_dispose :: "bool \<Rightarrow> nat option \<Rightarrow> async_ctx \<Rightarrow> (int \<times> async_ctx) result" where
  "sched_async_handle_dispose pool handle c =
     (if \<not> pool then Ok (0, c)
      else (case handle of None \<Rightarrow> Ok (-1, c)
        | Some r \<Rightarrow> rbind (deref (ac_pool c) r) (\<lambda>obj.
            if magic_num obj = FAKE_HANDLE_MAGIC then sched_async_fake_handle_free handle c
            else if magic_num obj \<noteq> HANDLE_MAGIC then Ok (-1, c)
            else rmap (\<lambda>c. (0, c)) (free_handle r c))))"

definition sched_async_fake_handle_new :: "nat option \<Rightarrow> async_ctx \<Rightarrow> nat option \<times> async_ctx" where
  "sched_async_fake_handle_new mem c = (case mem of None \<Rightarrow> (None, c)
     | Some r \<Rightarrow> (Some r, c\<lparr>ac_pool := (ac_pool c)(r \<mapsto> FakeHandle True)\<rparr>))"

definition sched_async_fake_handle_completed :: "nat option \<Rightarrow> async_ctx \<Rightarrow> int result" where
  "sched_async_fake_handle_completed handle c = (case handle of None \<Rightarrow> Ok (-1)
     | Some r \<Rightarrow> rmap (\<lambda>obj. case obj of FakeHandle b \<Rightarrow> if b then 1 else 0 | Handle h \<Rightarrow> -1) (deref (ac_pool c) r))"

subsection \<open>The control function of the servlets\<close>

datatype async_op = SET_WAIT | NOTIFY_WAIT int | RETCODE bool | CANCEL int | OTHER_OPCODE

text \<open>The result has the value that is stored through the argument, if any.\<close>

definition fake_handle_cntl :: "nat \<Rightarrow> async_op \<Rightarrow> async_ctx \<Rightarrow> (int \<times> int option \<times> async_ctx) result" where
  "fake_handle_cntl r oper c = (case oper of
       SET_WAIT \<Rightarrow> Ok (0, None, c\<lparr>ac_pool := (ac_pool c)(r \<mapsto> FakeHandle False)\<rparr>)
     | NOTIFY_WAIT s \<Rightarrow> Ok (0, None, c\<lparr>ac_pool := (ac_pool c)(r \<mapsto> FakeHandle True)\<rparr>)
     | RETCODE buf \<Rightarrow> if buf then Ok (0, Some 0, c) else Undef
     | CANCEL s \<Rightarrow> Ok (0, None, c)
     | OTHER_OPCODE \<Rightarrow> Ok (-1, None, c))"

definition sched_async_handle_cntl :: "nat option \<Rightarrow> async_op \<Rightarrow> async_ctx \<Rightarrow> (int \<times> int option \<times> async_ctx) result" where
  "sched_async_handle_cntl handle oper c = (case handle of None \<Rightarrow> Ok (-1, None, c)
     | Some r \<Rightarrow> rbind (deref (ac_pool c) r) (\<lambda>obj.
         if magic_num obj = FAKE_HANDLE_MAGIC then fake_handle_cntl r oper c
         else (case oper of
             SET_WAIT \<Rightarrow> rmap (\<lambda>(rc, c). (rc, None, c)) (sched_async_handle_set_await handle c)
           | NOTIFY_WAIT s \<Rightarrow> rmap (\<lambda>(rc, c). (rc, None, c)) (sched_async_handle_await_complete handle s c)
           | RETCODE buf \<Rightarrow> rmap (\<lambda>res. (if res = None then -1 else 0, res, c)) (sched_async_handle_status_code handle buf c)
           | CANCEL s \<Rightarrow> rmap (\<lambda>(rc, c). (rc, None, c)) (sched_async_handle_cancel handle s c)
           | OTHER_OPCODE \<Rightarrow> Ok (-1, None, c))))"

subsection \<open>Completion events\<close>

text \<open>
  The search for the element before the slot in the list of completed tasks, as it is written: it
  goes on as long as the next element is the slot. A search that does not end is \<open>None\<close>.
\<close>

partial_function (option) find_prev :: "async_ctx \<Rightarrow> 32 word \<Rightarrow> 32 word \<Rightarrow> 32 word result option" where
  "find_prev c slot prev =
     (if prev = NO_SLOT then Some (Ok prev)
      else (case get_awaiter c prev of
          Ok a \<Rightarrow> if aw_next a = slot then find_prev c slot (aw_next a) else Some (Ok prev)
        | Error \<Rightarrow> Some Error | Undef \<Rightarrow> Some Undef))"

definition set_next :: "32 word \<Rightarrow> 32 word \<Rightarrow> async_ctx \<Rightarrow> async_ctx result" where
  "set_next i n c = rmap (\<lambda>a. set_awaiter i (a\<lparr>aw_next := n\<rparr>) c) (get_awaiter c i)"

text \<open>Taking the slot of a handle out of the lists when its event could not be posted.\<close>

definition release_slot :: "async_handle_rec \<Rightarrow> async_ctx \<Rightarrow> async_ctx result" where
  "release_slot h c =
     (if h_await_id h = NO_SLOT then Ok c
      else let slot = h_await_id h; prev = (if h_state h = STATE_AWAITING then NO_SLOT else ac_done c) in
        rbind (if prev = slot then rmap (\<lambda>a. (NO_SLOT, c\<lparr>ac_done := aw_next a\<rparr>)) (get_awaiter c prev) else Ok (prev, c))
          (\<lambda>(prev, c). case find_prev c slot prev of None \<Rightarrow> Undef | Some r \<Rightarrow> rbind r (\<lambda>prev.
            rbind (get_awaiter c slot) (\<lambda>a.
            rbind (if prev \<noteq> NO_SLOT then set_next prev (aw_next a) c else Ok c) (\<lambda>c.
            rmap (\<lambda>c. c\<lparr>ac_unused := slot\<rparr>) (set_next slot (ac_unused c) c))))))"

definition post_task_complete_event :: "(nat \<Rightarrow> bool) \<Rightarrow> nat \<Rightarrow> async_ctx \<Rightarrow> (int \<times> async_ctx) result" where
  "post_task_complete_event put_ok p c = rbind (get_handle c p) (\<lambda>h.
     let ok = put_ok (length (ac_posted c));
         c = c\<lparr>ac_posted := ac_posted c @ [(TaskEvent (h_loop h) (h_task h) (Some p), ok)]\<rparr>
     in if ok then Ok (0, c)
        else rbind (release_slot h c) (\<lambda>c. rmap (\<lambda>c. (-1, c)) (free_handle p c)))"

text \<open>One completed awaiter: its event is posted and its slot goes to the unused list.\<close>

definition notify_one :: "(nat \<Rightarrow> bool) \<Rightarrow> bool \<Rightarrow> 32 word \<Rightarrow> async_ctx \<Rightarrow> (bool \<times> 32 word \<times> async_ctx) result" where
  "notify_one put_ok set_error cur c = rbind (get_awaiter c cur) (\<lambda>this.
     let ptr = aw_next this in
     case aw_task this of None \<Rightarrow> Undef | Some p \<Rightarrow>
       rbind (get_handle c p) (\<lambda>h.
       rmap (\<lambda>(rc, c). (rc \<noteq> -1, ptr,
            set_awaiter cur \<lparr>aw_task = None, aw_valid = False, aw_next = ac_unused c\<rparr> c\<lparr>ac_unused := cur, ac_done := ptr\<rparr>))
         (post_task_complete_event put_ok p (if set_error then set_handle p (h\<lparr>h_status := -1\<rparr>) c else c))))"

partial_function (option) notify_loop :: "(nat \<Rightarrow> bool) \<Rightarrow> bool \<Rightarrow> 32 word \<Rightarrow> bool \<Rightarrow> async_ctx
    \<Rightarrow> (bool \<times> async_ctx) result option" where
  "notify_loop put_ok set_error ptr ok c =
     (if ptr = NO_SLOT then Some (Ok (ok, c))
      else (case notify_one put_ok set_error ptr c of
          Ok (ok1, ptr1, c1) \<Rightarrow> notify_loop put_ok set_error ptr1 (ok \<and> ok1) c1
        | Error \<Rightarrow> Some Error | Undef \<Rightarrow> Some Undef))"

definition notify_completed_awaiters :: "(nat \<Rightarrow> bool) \<Rightarrow> bool \<Rightarrow> async_ctx \<Rightarrow> (bool \<times> async_ctx) result option" where
  "notify_completed_awaiters put_ok set_error c = notify_loop put_ok set_error (ac_done c) True c"

subsection \<open>The async threads\<close>

text \<open>Claiming a task under the queue mutex; \<open>None\<close> when there is none or the processor was killed.\<close>

definition ac_skip :: "nat \<Rightarrow> async_ctx \<Rightarrow> async_ctx" where
  "ac_skip n c = c\<lparr>ac_front := ac_front c + of_nat n\<rparr>"

definition claim_task :: "async_ctx \<Rightarrow> (nat option \<times> async_ctx) result" where
  "claim_task c =
     (if ac_killed c \<or> ac_front c = ac_rear c then Ok (None, c)
      else let i = ring_slot (ac_cap c) (ac_front c) in
        if i \<ge> length (ac_data c) then Undef
        else let c1 = ac_skip 1 c in
          Ok (ac_data c ! i, if ac_rear c1 - ac_front c1 = ac_cap c1 - 1 then c1\<lparr>ac_signals := ac_signals c1 + 1\<rparr> else c1))"

text \<open>
  Disposing of a task: the pipes and the buffer it owns are given back with the answers of \<open>env\<close>, its
  handle with \<^verbatim>\<open>sched_async_handle_dispose\<close>.
\<close>

definition task_dispose :: "(nat \<Rightarrow> bool) \<times> (nat \<Rightarrow> bool) \<Rightarrow> runtime_task option \<Rightarrow> async_ctx \<Rightarrow> (bool \<times> async_ctx) result" where
  "task_dispose env t c = (case t of None \<Rightarrow> Ok (False, c)
     | Some task \<Rightarrow>
         let d = task_disposal_of task; ok = (list_all (fst env) (freed_pipes d) \<and> pred_option (snd env) (freed_data d)) in
         (case freed_handle d of None \<Rightarrow> Ok (ok, c)
          | Some r \<Rightarrow> rmap (\<lambda>(rc, c). (ok \<and> rc \<noteq> -1, c)) (sched_async_handle_dispose True (Some r) c)))"

text \<open>
  Starting a task whose handle is \<open>p\<close>: \<open>run\<close> is what the servlet returns and does to the state. The
  task is marked before the callback runs.
\<close>

type_synonym servlet_run = "runtime_task \<Rightarrow> nat \<Rightarrow> async_ctx \<Rightarrow> servlet_def \<times> async_ctx"

definition start_task :: "servlet_run \<Rightarrow> nat \<Rightarrow> runtime_task option \<Rightarrow> async_ctx \<Rightarrow> (int \<times> runtime_task option \<times> async_ctx) result" where
  "start_task run p t c = (case t of None \<Rightarrow> Ok (-1, None, c)
     | Some task \<Rightarrow>
         if flag_invoked (rt_flags task) then Ok (-1, t, c)
         else let (def, c1) = run task p c in
           (case runtime_task_start def t of Ok (rc, t1) \<Rightarrow> Ok (rc, Some t1, c1) | Error \<Rightarrow> Ok (-1, t, c1) | Undef \<Rightarrow> Undef))"

text \<open>What a thread does with a task it claimed, access by access.\<close>

definition exec_start :: "servlet_run \<Rightarrow> nat \<Rightarrow> async_ctx \<Rightarrow> (int \<times> async_ctx) result" where
  "exec_start run p c = rbind (get_handle c p) (\<lambda>h.
     rbind (start_task run p (h_exec h) c) (\<lambda>(rc, t, c).
     rmap (\<lambda>h. (rc, set_handle p (h\<lparr>h_exec := t\<rparr>) c)) (get_handle c p)))"

definition exec_status :: "nat \<Rightarrow> int \<Rightarrow> async_ctx \<Rightarrow> async_ctx result" where
  "exec_status p rc c = rmap (\<lambda>h.
     let h = h\<lparr>h_status := if rc = -1 then -1 else 0\<rparr> in
     set_handle p (if h_await_id h = NO_SLOT then h\<lparr>h_state := STATE_DONE\<rparr> else h) c) (get_handle c p)"

definition exec_dispose :: "(nat \<Rightarrow> bool) \<times> (nat \<Rightarrow> bool) \<Rightarrow> nat \<Rightarrow> async_ctx \<Rightarrow> async_ctx result" where
  "exec_dispose env p c = rbind (get_handle c p) (\<lambda>h.
     rbind (task_dispose env (h_exec h) c) (\<lambda>(ok, c).
     rmap (\<lambda>h. set_handle p (h\<lparr>h_status := if ok then h_status h else -1, h_exec := None\<rparr>) c) (get_handle c p)))"

definition exec_post :: "(nat \<Rightarrow> bool) \<Rightarrow> nat \<Rightarrow> async_ctx \<Rightarrow> async_ctx result" where
  "exec_post put_ok p c = rbind (get_handle c p) (\<lambda>h.
     if h_await_id h = NO_SLOT then rmap snd (post_task_complete_event put_ok p c) else Ok c)"

definition process_task :: "servlet_run \<Rightarrow> (nat \<Rightarrow> bool) \<times> (nat \<Rightarrow> bool) \<Rightarrow> (nat \<Rightarrow> bool) \<Rightarrow> nat \<Rightarrow> async_ctx \<Rightarrow> async_ctx result" where
  "process_task run env put_ok p c =
     rbind (exec_start run p c) (\<lambda>(rc, c).
     rbind (exec_status p rc c) (\<lambda>c.
     rbind (exec_dispose env p c) (exec_post put_ok p)))"

text \<open>One round of a thread that nobody interrupts.\<close>

definition async_processor_round :: "servlet_run \<Rightarrow> (nat \<Rightarrow> bool) \<times> (nat \<Rightarrow> bool) \<Rightarrow> (nat \<Rightarrow> bool) \<Rightarrow> async_ctx
    \<Rightarrow> async_ctx result option" where
  "async_processor_round run env put_ok c = (case notify_completed_awaiters put_ok False c of
     None \<Rightarrow> None
   | Some r \<Rightarrow> Some (rbind r (\<lambda>(ok, c). rbind (claim_task c) (\<lambda>(t, c).
       case t of None \<Rightarrow> Ok c | Some p \<Rightarrow> process_task run env put_ok p c))))"

subsection \<open>Posting a task\<close>

definition ac_push :: "nat option \<Rightarrow> async_ctx \<Rightarrow> async_ctx" where
  "ac_push p c = c\<lparr>ac_data := (ac_data c)[ring_slot (ac_cap c) (ac_rear c) := p], ac_rear := ac_rear c + 1\<rparr>"

text \<open>
  The error exit: the execution task is freed, the cleanup task is run, the handle is given back. The
  result has the task that the caller is left with, the cleanup task once it was installed.
\<close>

definition post_error :: "servlet_run \<Rightarrow> (nat \<Rightarrow> bool) \<times> (nat \<Rightarrow> bool) \<Rightarrow> nat \<Rightarrow> runtime_task option \<Rightarrow> runtime_task option
    \<Rightarrow> runtime_task option \<Rightarrow> async_ctx \<Rightarrow> (int \<times> runtime_task option \<times> async_ctx) result" where
  "post_error run env p async_exec async_cleanup installed c =
     rbind (if async_exec = None then Ok c else rmap snd (task_dispose env async_exec c)) (\<lambda>c.
     rbind (if async_cleanup = None then Ok (installed, c)
            else rbind (get_handle c p) (\<lambda>h.
              rmap (\<lambda>(rc, t, c). (t, c)) (start_task run p async_cleanup (set_handle p (h\<lparr>h_status := -1\<rparr>) c))))
       (\<lambda>(installed, c). rmap (\<lambda>c. (-1, installed, c)) (free_handle p c)))"

definition post_enqueue :: "servlet_run \<Rightarrow> (nat \<Rightarrow> bool) \<times> (nat \<Rightarrow> bool) \<Rightarrow> nat \<Rightarrow> runtime_task \<Rightarrow> runtime_task \<Rightarrow> async_ctx
    \<Rightarrow> (int \<times> runtime_task option \<times> async_ctx) result" where
  "post_enqueue run env p async_exec async_cleanup c =
     (if ac_rear c - ac_front c \<ge> ac_cap c
      then post_error run env p (Some async_exec) (Some async_cleanup) (Some async_cleanup) c
      else if ac_killed c
      then rbind (task_dispose env (Some async_exec) c) (\<lambda>(ok, c).
           rmap (\<lambda>c. (if ok then 1 else -1, Some async_cleanup, c)) (free_handle p c))
      else if ring_slot (ac_cap c) (ac_rear c) \<ge> length (ac_data c) then Undef
      else let c = ac_push (Some p) c in
        Ok (1, Some async_cleanup,
          if ac_rear c - ac_front c = 1 then c\<lparr>ac_signals := ac_signals c + 1\<rparr> else c))"

text \<open>The tasks were created: install the cleanup task, dispose of the setup task, queue the handle.\<close>

definition post_companions :: "servlet_run \<Rightarrow> (nat \<Rightarrow> bool) \<times> (nat \<Rightarrow> bool) \<Rightarrow> nat \<Rightarrow> runtime_task \<Rightarrow> runtime_task \<Rightarrow> runtime_task
    \<Rightarrow> async_ctx \<Rightarrow> (int \<times> runtime_task option \<times> async_ctx) result" where
  "post_companions run env p async_exec async_cleanup async_setup c =
     rbind (task_dispose env (Some async_setup) c) (\<lambda>(ok, c).
     if \<not> ok then post_error run env p (Some async_exec) (Some async_cleanup) (Some async_cleanup) c
     else rbind (get_handle c p) (\<lambda>h.
       let c = set_handle p (h\<lparr>h_exec := Some async_exec\<rparr>) c in
       if h_state h = STATE_CANCELED \<or> h_state h = STATE_AWAITING
       then rbind (task_dispose env (Some async_exec) c) (\<lambda>(ok, c).
            if \<not> ok then post_error run env p (Some async_exec) (Some async_cleanup) (Some async_cleanup) c
            else rmap (\<lambda>h. (if h_state h = STATE_CANCELED then 0 else 1, Some async_cleanup,
                 set_handle p (h\<lparr>h_exec := None\<rparr>) c)) (get_handle c p))
       else post_enqueue run env p async_exec async_cleanup
              (set_handle p (h\<lparr>h_exec := Some async_exec, h_state := STATE_EXEC\<rparr>) c)))"

text \<open>
  \<open>new\<close> is the address of the new handle, \<open>None\<close> when the pool is exhausted; its member \<^verbatim>\<open>exec_task\<close> is
  not initialised. \<open>has_pool\<close> and \<open>mem\<close> are the answers to the creation of the companions. The result
  is the status, the task that the scheduler task has now, and the state.
\<close>

definition sched_async_task_post :: "servlet_run \<Rightarrow> servlet_run \<Rightarrow> (nat \<Rightarrow> bool) \<times> (nat \<Rightarrow> bool) \<Rightarrow> nat option \<Rightarrow> bool \<Rightarrow> alloc
    \<Rightarrow> nat option \<Rightarrow> nat option \<Rightarrow> runtime_task option \<Rightarrow> async_ctx \<Rightarrow> (int \<times> runtime_task option \<times> async_ctx) result" where
  "sched_async_task_post setup cleanup env new has_pool mem lp task exec c =
     (case exec of
        Some t \<Rightarrow>
          if lp = None \<or> task = None then Ok (-1, exec, c)
          else if get_action (rt_flags t) \<noteq> RUNTIME_TASK_FLAG_ACTION_INIT \<or> \<not> runtime_task_is_async t then Ok (-1, exec, c)
          else (case new of None \<Rightarrow> Ok (-1, exec, c)
            | Some p \<Rightarrow>
                rbind (start_task setup p (Some (t\<lparr>async_handle := Some p\<rparr>))
                    (set_handle p \<lparr>h_await_id = NO_SLOT, h_status = 0, h_state = STATE_INIT, h_loop = lp, h_task = task,
                                   h_exec = None\<rparr> c)) (\<lambda>(rc, t, c).
                if rc = -1 then post_error cleanup env p None None t c
                else (case t of None \<Rightarrow> Undef | Some t \<Rightarrow>
                  (case runtime_task_async_companions has_pool mem t of
                     Ok (async_exec, async_cleanup, async_setup) \<Rightarrow>
                       post_companions cleanup env p async_exec async_cleanup async_setup c
                   | Error \<Rightarrow> post_error cleanup env p None None (Some t) c
                   | Undef \<Rightarrow> Undef))))
      | None \<Rightarrow> Ok (-1, None, c))"

subsection \<open>Starting and stopping\<close>

definition initial_awaiters :: "nat \<Rightarrow> awaiter list" where
  "initial_awaiters n = map (\<lambda>i. \<lparr>aw_task = None, aw_valid = False,
     aw_next = if Suc i = n then NO_SLOT else of_nat (Suc i)\<rparr>) [0..<n]"

text \<open>
  \<open>mem\<close>: 0 to 2 the mutexes and the condition variable, 3 the queue, 4 the pool, 5 the awaiting list, 6
  the table of the threads, 7 and on the threads. \<open>ready\<close> says that every thread got its token from
  the event queue; the function waits for all of them and does not return when one did not, which is
  \<open>Undef\<close> here.
\<close>

definition sched_async_start :: "alloc \<Rightarrow> bool \<Rightarrow> async_ctx \<Rightarrow> (int \<times> async_ctx) result" where
  "sched_async_start mem ready c =
     (if ac_init c then Ok (-1, c)
      else let c = c\<lparr>ac_front := 0, ac_rear := 0\<rparr> in
        if \<not> mem 0 \<or> \<not> mem 1 \<or> \<not> mem 2 \<or> \<not> mem 3 \<or> \<not> mem 4 \<or> \<not> mem 5 then Ok (-1, c)
        else let c = c\<lparr>ac_data := replicate (unat (ac_cap c)) None, ac_unused := 0\<rparr> in
          if ac_al_cap c = 0 then Undef
          else let c = c\<lparr>ac_list := initial_awaiters (unat (ac_al_cap c)), ac_done := NO_SLOT\<rparr> in
            if \<not> mem 6 then Ok (-1, c)
            else if list_ex (\<lambda>i. \<not> mem (7 + i)) [0..<unat (ac_nthreads c)] then Ok (-1, c\<lparr>ac_killed := True\<rparr>)
            else if \<not> ready then Undef
            else Ok (0, c\<lparr>ac_init := True\<rparr>))"

text \<open>The tasks that are still in the queue: a loop over the positions, compared as numbers.\<close>

function kill_queue :: "(nat \<Rightarrow> bool) \<times> (nat \<Rightarrow> bool) \<Rightarrow> 32 word \<Rightarrow> 32 word \<Rightarrow> async_ctx \<Rightarrow> (bool \<times> async_ctx) result" where
  "kill_queue env rear i c =
     (if i < rear
      then (if ring_slot (ac_cap c) i \<ge> length (ac_data c) then Undef
            else (case ac_data c ! ring_slot (ac_cap c) i of
                None \<Rightarrow> kill_queue env rear (i + 1) c
              | Some p \<Rightarrow> rbind (get_handle c p) (\<lambda>h.
                  rbind (if h_exec h = None then Ok (True, c) else task_dispose env (h_exec h) c) (\<lambda>(ok, c).
                  rbind (free_handle p c) (\<lambda>c.
                  rmap (\<lambda>(ok', c). (ok \<and> ok', c)) (kill_queue env rear (i + 1) c))))))
      else Ok (True, c))"
  by pat_completeness auto

termination
  by (relation "measure (\<lambda>(env, rear, i, c). unat (rear - i))") (auto simp: word_up_less)

fun kill_awaiters :: "awaiter list \<Rightarrow> async_ctx \<Rightarrow> async_ctx result" where
  "kill_awaiters [] c = Ok c"
| "kill_awaiters (a # as) c =
     (if aw_valid a
      then (case aw_task a of None \<Rightarrow> Undef
            | Some p \<Rightarrow> rbind (get_handle c p) (\<lambda>h.
                if h_state h = STATE_AWAITING then rbind (free_handle p c) (kill_awaiters as) else kill_awaiters as c))
      else kill_awaiters as c)"

definition drop_pool :: "handle_obj store \<Rightarrow> handle_obj store" where
  "drop_pool h = (\<lambda>p. case h p of Some (FakeHandle b) \<Rightarrow> Some (FakeHandle b) | _ \<Rightarrow> None)"

text \<open>
  Every thread notifies the completed awaiters with an error before it ends; the first one leaves
  none for the others.
\<close>

definition sched_async_kill :: "(nat \<Rightarrow> bool) \<times> (nat \<Rightarrow> bool) \<Rightarrow> (nat \<Rightarrow> bool) \<Rightarrow> async_ctx \<Rightarrow> (bool \<times> async_ctx) result option" where
  "sched_async_kill env put_ok c =
     (if \<not> ac_init c then Some (Ok (False, c))
      else (case (if ac_nthreads c = 0 then Some (Ok (True, c)) else notify_completed_awaiters put_ok True c) of
          None \<Rightarrow> None
        | Some r \<Rightarrow> Some (rbind r (\<lambda>(_, c).
            rbind (kill_queue env (ac_rear c) (ac_front c) c) (\<lambda>(ok, c).
            rmap (\<lambda>c. (ok, c\<lparr>ac_pool := drop_pool (ac_pool c), ac_list := [], ac_data := [], ac_front := 0, ac_rear := 0,
                          ac_init := False, ac_killed := False\<rparr>))
              (kill_awaiters (ac_list c) c))))))"

subsection \<open>Properties of the processor\<close>

datatype prop_value = PropInteger "64 word" | PropOther

text \<open>The result is 1 when the symbol is known, 0 when it is not, and \<open>-1\<close> for a value of another type.\<close>

definition async_set_prop :: "string \<Rightarrow> prop_value \<Rightarrow> async_ctx \<Rightarrow> int \<times> async_ctx" where
  "async_set_prop symbol v c =
     (if symbol = ''nthreads''
      then (case v of PropInteger n \<Rightarrow> (1, c\<lparr>ac_nthreads := ucast n\<rparr>) | PropOther \<Rightarrow> (-1, c))
      else if symbol = ''queue_size''
      then (case v of PropInteger n \<Rightarrow> (1, c\<lparr>ac_cap := queue_size (ucast n)\<rparr>) | PropOther \<Rightarrow> (-1, c))
      else if symbol = ''wait_list_size''
      then (case v of PropInteger n \<Rightarrow> (1, c\<lparr>ac_al_cap := ucast n\<rparr>) | PropOther \<Rightarrow> (-1, c))
      else (0, c))"

definition async_get_prop :: "string \<Rightarrow> async_ctx \<Rightarrow> 64 word option" where
  "async_get_prop symbol c =
     (if symbol = ''nthreads'' then Some (ucast (ac_nthreads c))
      else if symbol = ''queue_size'' then Some (ucast (ac_cap c))
      else if symbol = ''wait_list_size'' then Some (ucast (ac_al_cap c))
      else None)"

definition sched_async_init :: "async_ctx \<Rightarrow> async_ctx" where
  "sched_async_init c = c\<lparr>ac_cap := 65536, ac_nthreads := 1, ac_al_cap := 65536\<rparr>"

interpretation ar: ring ac_cap ac_front ac_rear ac_data ac_push ac_skip
  by unfold_locales (simp_all add: ac_push_def ac_skip_def)

end
