(* ===== verification/AsyncAwait.thy ===== *)
theory AsyncAwait
  imports Async
begin

text \<open>
  The awaiting list of the async processor: the slots form two lists through their index links, the
  unused ones and those whose task is complete. The invariant says which handle owns which slot; the
  operations of the servlets and the notification keep it as long as the event queue takes the events.
\<close>

subsection \<open>Slots\<close>

fun slots :: "awaiter list \<Rightarrow> 32 word \<Rightarrow> nat list \<Rightarrow> bool" where
  "slots al p [] \<longleftrightarrow> p = NO_SLOT"
| "slots al p (x # xs) \<longleftrightarrow> p = of_nat x \<and> x < length al \<and> slots al (aw_next (al ! x)) xs"

definition small :: "awaiter list \<Rightarrow> bool" where
  "small al \<longleftrightarrow> length al < 2 ^ 32"

lemma small_index:
  assumes "small al" and "x < length al"
  shows "unat (of_nat x :: 32 word) = x" and "(of_nat x :: 32 word) \<noteq> NO_SLOT"
proof -
  have x: "x < 2 ^ 32 - 1" using assms by (simp add: small_def)
  then show u: "unat (of_nat x :: 32 word) = x" by (simp add: unat_of_nat)
  have "unat (NO_SLOT :: 32 word) = 2 ^ 32 - 1" by (simp add: NO_SLOT_def unsigned_minus_1_eq_mask mask_eq_exp_minus_1)
  then show "(of_nat x :: 32 word) \<noteq> NO_SLOT" using u x by (metis less_irrefl)
qed

lemma slots_cong: "\<lbrakk> slots al p xs; length al' = length al; \<forall>x\<in>set xs. aw_next (al' ! x) = aw_next (al ! x) \<rbrakk> \<Longrightarrow> slots al' p xs"
  by (induction xs arbitrary: p) auto

lemma slots_update: "\<lbrakk> slots al p xs; x \<notin> set xs \<rbrakk> \<Longrightarrow> slots (al[x := a]) p xs"
  by (rule slots_cong) (simp, simp, metis nth_list_update_neq)

lemma slots_bound: "slots al p xs \<Longrightarrow> x \<in> set xs \<Longrightarrow> x < length al"
  by (induction xs arbitrary: p) auto

lemma slots_push:
  assumes "slots al p xs" and "x \<notin> set xs" and "x < length al" and "aw_next a = p"
  shows "slots (al[x := a]) (of_nat x) (x # xs)"
  using assms slots_update by simp

lemma slots_head: "\<lbrakk> slots al p xs; small al \<rbrakk> \<Longrightarrow> p = NO_SLOT \<longleftrightarrow> xs = []"
  using small_index(2) by (cases xs) auto

subsection \<open>The invariant\<close>

definition slot_owned :: "async_ctx \<Rightarrow> nat list \<Rightarrow> nat \<Rightarrow> bool" where
  "slot_owned c ds i \<longleftrightarrow> (\<exists>p h. aw_task (ac_list c ! i) = Some p \<and> ac_pool c p = Some (Handle h)
     \<and> h_await_id h = of_nat i \<and> (h_state h = STATE_DONE \<longleftrightarrow> i \<in> set ds))"

definition await_inv :: "async_ctx \<Rightarrow> nat list \<Rightarrow> nat list \<Rightarrow> bool" where
  "await_inv c us ds \<longleftrightarrow> small (ac_list c)
     \<and> slots (ac_list c) (ac_unused c) us \<and> slots (ac_list c) (ac_done c) ds \<and> distinct (us @ ds)
     \<and> (\<forall>i<length (ac_list c). aw_valid (ac_list c ! i) \<longleftrightarrow> i \<notin> set us)
     \<and> (\<forall>i<length (ac_list c). aw_valid (ac_list c ! i) \<longrightarrow> slot_owned c ds i)
     \<and> (\<forall>p h. ac_pool c p = Some (Handle h) \<longrightarrow> h_await_id h \<noteq> NO_SLOT \<longrightarrow> h_state h \<noteq> STATE_DONE
         \<longrightarrow> (\<exists>i<length (ac_list c). h_await_id h = of_nat i \<and> aw_valid (ac_list c ! i) \<and> aw_task (ac_list c ! i) = Some p))"

lemma length_initial [simp]: "length (initial_awaiters n) = n"
  by (simp add: initial_awaiters_def)

lemma initial_nth:
  "i < n \<Longrightarrow> initial_awaiters n ! i = \<lparr>aw_task = None, aw_valid = False, aw_next = if Suc i = n then NO_SLOT else of_nat (Suc i)\<rparr>"
  by (simp add: initial_awaiters_def)

lemma initial_slots:
  assumes "m \<le> n"
  shows "slots (initial_awaiters n) (if m = n then NO_SLOT else of_nat m) [m..<n]"
  using assms
proof (induction "n - m" arbitrary: m)
  case (Suc k)
  then have m: "m < n" by simp
  have "slots (initial_awaiters n) (if Suc m = n then NO_SLOT else of_nat (Suc m)) [Suc m..<n]"
    using Suc.hyps(1) [of "Suc m"] Suc.hyps(2) m by simp
  then show ?case using m by (simp add: upt_conv_Cons initial_nth del: upt_Suc)
qed simp

lemma start_inv:
  assumes "sched_async_start mem ready c = Ok (0, c')" and "\<forall>p h. ac_pool c p \<noteq> Some (Handle h)"
  shows "await_inv c' [0..<unat (ac_al_cap c)] []"
proof -
  let ?n = "unat (ac_al_cap c)"
  have c': "ac_list c' = initial_awaiters ?n" "ac_unused c' = 0" "ac_done c' = NO_SLOT" "ac_pool c' = ac_pool c" "ac_al_cap c \<noteq> 0"
    using assms(1) by (auto simp: sched_async_start_def Let_def split: if_splits)
  then have n: "0 < ?n" "?n < 2 ^ 32" using unsigned_less [of "ac_al_cap c", where 'a = nat] by (simp_all add: unat_gt_0)
  have "slots (initial_awaiters ?n) 0 [0..<?n]" using initial_slots [of 0 ?n] n by simp
  moreover have "\<forall>i<?n. \<not> aw_valid (initial_awaiters ?n ! i)" by (simp add: initial_nth)
  ultimately show ?thesis
    using c' n assms(2) by (auto simp: await_inv_def small_def)
qed

subsection \<open>What keeps the invariant\<close>

lemma await_inv_cong:
  assumes "await_inv c us ds" and "ac_list c' = ac_list c" "ac_unused c' = ac_unused c" "ac_done c' = ac_done c"
    "ac_pool c' = ac_pool c"
  shows "await_inv c' us ds"
  using assms by (simp add: await_inv_def slot_owned_def)

lemma inv_owner:
  assumes "await_inv c us ds" and "ac_pool c p = Some (Handle h)" and "h_await_id h \<noteq> NO_SLOT" and "h_state h \<noteq> STATE_DONE"
  obtains i where "i < length (ac_list c)" "h_await_id h = of_nat i" "aw_valid (ac_list c ! i)" "aw_task (ac_list c ! i) = Some p"
  using assms unfolding await_inv_def by blast

lemma get_awaiter_small: "\<lbrakk> small (ac_list c); x < length (ac_list c) \<rbrakk> \<Longrightarrow> get_awaiter c (of_nat x) = Ok (ac_list c ! x)"
  using small_index(1) by (simp add: get_awaiter_def)

lemma of_nat_slot_eq:
  "\<lbrakk> small al; i < length al; j < length al \<rbrakk> \<Longrightarrow> (of_nat i :: 32 word) = of_nat j \<longleftrightarrow> i = j"
  using small_index(1) by metis

text \<open>Writing a handle: its slot and whether it is done stay, or it has no slot.\<close>

lemma inv_set_handle:
  assumes inv: "await_inv c us ds" and "ac_pool c p = Some (Handle h)" and "h_await_id h' = h_await_id h"
    and "h_await_id h \<noteq> NO_SLOT \<Longrightarrow> h_state h' = STATE_DONE \<longleftrightarrow> h_state h = STATE_DONE"
  shows "await_inv (set_handle p h' c) us ds"
proof -
  let ?c = "set_handle p h' c"
  have pool: "ac_pool ?c q = (if q = p then Some (Handle h') else ac_pool c q)" for q by (simp add: set_handle_def)
  have same: "ac_list ?c = ac_list c" "ac_unused ?c = ac_unused c" "ac_done ?c = ac_done c" by (simp_all add: set_handle_def)
  have "slot_owned ?c ds i" if i: "i < length (ac_list c)" "slot_owned c ds i" for i
  proof -
    obtain q g where q: "aw_task (ac_list c ! i) = Some q" "ac_pool c q = Some (Handle g)" "h_await_id g = of_nat i"
      "h_state g = STATE_DONE \<longleftrightarrow> i \<in> set ds" using i(2) by (auto simp: slot_owned_def)
    have "small (ac_list c)" using inv by (simp add: await_inv_def)
    then have "(of_nat i :: 32 word) \<noteq> NO_SLOT" using i(1) by (rule small_index(2))
    then show ?thesis using q assms(2-4) pool same by (cases "q = p") (auto simp: slot_owned_def)
  qed
  moreover have "\<exists>i<length (ac_list c). h_await_id g = of_nat i \<and> aw_valid (ac_list c ! i) \<and> aw_task (ac_list c ! i) = Some q"
    if "ac_pool ?c q = Some (Handle g)" "h_await_id g \<noteq> NO_SLOT" "h_state g \<noteq> STATE_DONE" for q g
    using that pool [of q] assms(2-4) inv by (cases "q = p") (auto simp: await_inv_def)
  ultimately show ?thesis using inv same by (simp add: await_inv_def)
qed

text \<open>A new handle, and one that is given back, have no part in the list.\<close>

lemma inv_new_handle:
  assumes inv: "await_inv c us ds" and "\<forall>h. ac_pool c p \<noteq> Some (Handle h)" and "h_await_id h' = NO_SLOT"
  shows "await_inv (set_handle p h' c) us ds"
proof -
  let ?c = "set_handle p h' c"
  have pool: "ac_pool ?c q = (if q = p then Some (Handle h') else ac_pool c q)" for q by (simp add: set_handle_def)
  have same: "ac_list ?c = ac_list c" "ac_unused ?c = ac_unused c" "ac_done ?c = ac_done c" by (simp_all add: set_handle_def)
  have "slot_owned ?c ds i" if "slot_owned c ds i" for i
    using that assms(2) pool same by (auto simp: slot_owned_def)
  then show ?thesis using inv assms(3) same pool by (auto simp: await_inv_def)
qed

lemma inv_free_handle:
  assumes inv: "await_inv c us ds" and "free_handle p c = Ok c'"
    and "\<forall>i<length (ac_list c). aw_valid (ac_list c ! i) \<longrightarrow> aw_task (ac_list c ! i) \<noteq> Some p"
  shows "await_inv c' us ds"
proof -
  have c': "ac_list c' = ac_list c" "ac_unused c' = ac_unused c" "ac_done c' = ac_done c" "ac_pool c' = (ac_pool c)(p := None)"
    using assms(2) by (auto simp: free_handle_def result_simps)
  have "slot_owned c' ds i" if "i < length (ac_list c)" "aw_valid (ac_list c ! i)" "slot_owned c ds i" for i
    using that assms(3) c' by (fastforce simp: slot_owned_def)
  then show ?thesis using inv c' by (auto simp: await_inv_def split: if_splits)
qed

lemma set_await_inv:
  assumes inv: "await_inv c us ds" and "sched_async_handle_set_await (Some p) c = Ok (0, c')"
  obtains u us' h where "us = u # us'" "await_inv c' us' ds" "ac_pool c p = Some (Handle h)" "h_await_id h = NO_SLOT"
    "ac_pool c' = (ac_pool c)(p := Some (Handle (h\<lparr>h_await_id := of_nat u, h_state := STATE_AWAITING\<rparr>)))"
    "u < length (ac_list c)" "ac_posted c' = ac_posted c"
proof -
  obtain h a where h: "ac_pool c p = Some (Handle h)" "h_await_id h = NO_SLOT" "ac_unused c \<noteq> NO_SLOT"
    "get_awaiter c (ac_unused c) = Ok a"
    and c': "c' = set_handle p (h\<lparr>h_await_id := ac_unused c, h_state := STATE_AWAITING\<rparr>)
       (set_awaiter (ac_unused c) \<lparr>aw_task = Some p, aw_valid = True, aw_next = NO_SLOT\<rparr> (c\<lparr>ac_unused := aw_next a\<rparr>))"
    using assms(2) by (auto simp: sched_async_handle_set_await_def with_handle_def get_handle_def deref_def Let_def
        result_simps split: result.splits option.splits handle_obj.splits if_splits)
  have small: "small (ac_list c)" and us: "slots (ac_list c) (ac_unused c) us" "distinct (us @ ds)"
    using inv by (simp_all add: await_inv_def)
  then obtain u us' where u: "us = u # us'" using h(3) by (cases us) auto
  then have ui: "ac_unused c = of_nat u" "u < length (ac_list c)" "slots (ac_list c) (aw_next (ac_list c ! u)) us'"
    using us(1) by auto
  have uu: "unat (of_nat u :: 32 word) = u" using small_index(1) [OF small ui(2)] .
  let ?w = "\<lparr>aw_task = Some p, aw_valid = True, aw_next = NO_SLOT\<rparr>" and ?h = "h\<lparr>h_await_id := of_nat u, h_state := STATE_AWAITING\<rparr>"
  have a: "a = ac_list c ! u" using h(4) get_awaiter_small [OF small ui(2)] ui(1) by simp
  have f: "ac_list c' = (ac_list c)[u := ?w]" "ac_unused c' = aw_next (ac_list c ! u)" "ac_done c' = ac_done c"
    "ac_pool c' = (ac_pool c)(p := Some (Handle ?h))" "ac_posted c' = ac_posted c"
    using c' ui(1) uu a by (simp_all add: set_handle_def set_awaiter_def)
  have len: "length (ac_list c') = length (ac_list c)" by (simp add: f)
  have "slots (ac_list c') (ac_unused c') us'" "slots (ac_list c') (ac_done c') ds"
    using slots_update ui(3) us(2) u inv f by (auto simp: await_inv_def)
  moreover have "\<forall>i<length (ac_list c'). aw_valid (ac_list c' ! i) \<longleftrightarrow> i \<notin> set us'"
    using inv u us(2) by (auto simp: f(1) await_inv_def nth_list_update)
  moreover have "slot_owned c' ds i" if i: "i < length (ac_list c')" "aw_valid (ac_list c' ! i)" for i
  proof (cases "i = u")
    case True
    then show ?thesis using ui(2) us(2) u by (simp add: slot_owned_def f)
  next
    case False
    then have "slot_owned c ds i" using i inv by (simp add: f(1) await_inv_def)
    then show ?thesis using False h(1,2) small_index(2) [OF small, of i] i by (auto simp: slot_owned_def f)
  qed
  moreover have "\<exists>i<length (ac_list c'). h_await_id g = of_nat i \<and> aw_valid (ac_list c' ! i) \<and> aw_task (ac_list c' ! i) = Some q"
    if g: "ac_pool c' q = Some (Handle g)" "h_await_id g \<noteq> NO_SLOT" "h_state g \<noteq> STATE_DONE" for q g
  proof (cases "q = p")
    case True
    then show ?thesis using g(1) ui(2) by (intro exI [of _ u]) (auto simp: f)
  next
    case False
    then obtain i where i: "i < length (ac_list c)" "h_await_id g = of_nat i" "aw_valid (ac_list c ! i)" "aw_task (ac_list c ! i) = Some q"
      using inv_owner [OF inv, of q g] g by (auto simp: f)
    then have "i \<noteq> u" using inv u ui(2) by (auto simp: await_inv_def)
    then show ?thesis using i by (intro exI [of _ i]) (simp add: f)
  qed
  ultimately have "await_inv c' us' ds" using small us(2) u len by (simp add: await_inv_def small_def)
  then show ?thesis using that u h(1,2) f ui(2) by blast
qed

lemma await_complete_inv:
  assumes inv: "await_inv c us ds" and "sched_async_handle_await_complete (Some p) status c = Ok (0, c')"
  obtains h where "ac_pool c p = Some (Handle h)" "h_state h = STATE_DONE" "await_inv c' us ds" "ac_pool c' = ac_pool c"
      "ac_posted c' = ac_posted c"
  | h i where "ac_pool c p = Some (Handle h)" "h_state h \<noteq> STATE_DONE" "h_await_id h = of_nat i" "i < length (ac_list c)"
      "await_inv c' us (i # ds)" "aw_task (ac_list c' ! i) = Some p"
      "ac_pool c' = (ac_pool c)(p := Some (Handle (h\<lparr>h_state := STATE_DONE, h_status := if status = -1 then -1 else h_status h\<rparr>)))"
      "ac_posted c' = ac_posted c"
proof -
  obtain h where h: "ac_pool c p = Some (Handle h)" "h_await_id h \<noteq> NO_SLOT"
    using assms(2) by (auto simp: sched_async_handle_await_complete_def with_handle_def get_handle_def deref_def Let_def
        result_simps split: result.splits option.splits handle_obj.splits if_splits)
  then have call: "sched_async_handle_await_complete (Some p) status c = rmap (\<lambda>c. (0, c\<lparr>ac_signals := ac_signals c + 1\<rparr>))
         (if h_state h = STATE_DONE then Ok c
          else rmap (\<lambda>a.
              set_handle p (h\<lparr>h_state := STATE_DONE, h_status := if status = -1 then -1 else h_status h\<rparr>)
                (set_awaiter (h_await_id h) (a\<lparr>aw_next := ac_done c\<rparr>) c\<lparr>ac_done := h_await_id h\<rparr>))
            (get_awaiter c (h_await_id h)))"
    by (simp add: sched_async_handle_await_complete_def with_handle_def get_handle_def deref_def Let_def)
  show ?thesis
  proof (cases "h_state h = STATE_DONE")
    case True
    then have "c' = c\<lparr>ac_signals := ac_signals c + 1\<rparr>" using call assms(2) by simp
    then show ?thesis using that(1) [OF h(1) True] await_inv_cong [OF inv, of c'] by simp
  next
    case False
    obtain i where i: "i < length (ac_list c)" "h_await_id h = of_nat i" "aw_valid (ac_list c ! i)" "aw_task (ac_list c ! i) = Some p"
      using inv_owner [OF inv h(1,2) False] .
    have small: "small (ac_list c)" and us: "slots (ac_list c) (ac_unused c) us" "slots (ac_list c) (ac_done c) ds" "distinct (us @ ds)"
      using inv by (simp_all add: await_inv_def)
    have uu: "unat (of_nat i :: 32 word) = i" using small_index(1) [OF small i(1)] .
    let ?w = "(ac_list c ! i)\<lparr>aw_next := ac_done c\<rparr>"
      and ?h = "h\<lparr>h_state := STATE_DONE, h_status := if status = -1 then -1 else h_status h\<rparr>"
    have c': "c' = (set_handle p ?h (set_awaiter (of_nat i) ?w c\<lparr>ac_done := of_nat i\<rparr>))\<lparr>ac_signals := ac_signals c + 1\<rparr>"
      using call assms(2) False i(2) get_awaiter_small [OF small i(1)] by (simp add: set_handle_def set_awaiter_def)
    then have f: "ac_list c' = (ac_list c)[i := ?w]" "ac_unused c' = ac_unused c" "ac_done c' = of_nat i"
      "ac_pool c' = (ac_pool c)(p := Some (Handle ?h))" "ac_posted c' = ac_posted c"
      using uu by (simp_all add: set_handle_def set_awaiter_def)
    have notin: "i \<notin> set us" "i \<notin> set ds"
      using inv i False h(1) small by (auto simp: await_inv_def slot_owned_def)
    have "slots (ac_list c') (ac_unused c') us" using slots_update [OF us(1) notin(1)] by (simp add: f)
    moreover have "slots (ac_list c') (ac_done c') (i # ds)" using slots_push [OF us(2) notin(2) i(1), of ?w] i(1) by (simp add: f)
    moreover have valid: "aw_valid (ac_list c' ! j) = aw_valid (ac_list c ! j)" if "j < length (ac_list c)" for j
      using that by (cases "j = i") (simp_all add: f(1))
    then have "\<forall>j<length (ac_list c'). aw_valid (ac_list c' ! j) \<longleftrightarrow> j \<notin> set us" using inv by (simp add: f(1) await_inv_def)
    moreover have "slot_owned c' (i # ds) j" if j: "j < length (ac_list c')" "aw_valid (ac_list c' ! j)" for j
    proof (cases "j = i")
      case True
      then show ?thesis using i by (simp add: slot_owned_def f)
    next
      case False
      then have "slot_owned c ds j" using j inv valid by (simp add: f(1) await_inv_def)
      then obtain q g where q: "aw_task (ac_list c ! j) = Some q" "ac_pool c q = Some (Handle g)" "h_await_id g = of_nat j"
        "h_state g = STATE_DONE \<longleftrightarrow> j \<in> set ds" by (auto simp: slot_owned_def)
      have "(of_nat i :: 32 word) \<noteq> of_nat j" using of_nat_slot_eq [OF small i(1)] j(1) False by (simp add: f)
      then have "q \<noteq> p" using q(2,3) h(1) i(2) by auto
      then show ?thesis using False q by (simp add: slot_owned_def f)
    qed
    moreover have "\<exists>j<length (ac_list c'). h_await_id g = of_nat j \<and> aw_valid (ac_list c' ! j) \<and> aw_task (ac_list c' ! j) = Some q"
      if g: "ac_pool c' q = Some (Handle g)" "h_await_id g \<noteq> NO_SLOT" "h_state g \<noteq> STATE_DONE" for q g
    proof -
      have q: "q \<noteq> p" "ac_pool c q = Some (Handle g)" using g by (auto simp: f split: if_splits)
      obtain j where j: "j < length (ac_list c)" "h_await_id g = of_nat j" "aw_valid (ac_list c ! j)" "aw_task (ac_list c ! j) = Some q"
        using inv_owner [OF inv q(2) g(2,3)] .
      then have "j \<noteq> i" using i(4) q(1) by auto
      then show ?thesis using j by (intro exI [of _ j]) (simp add: f)
    qed
    ultimately have "await_inv c' us (i # ds)" using small us(3) notin by (auto simp: await_inv_def small_def f(1))
    moreover have "aw_task (ac_list c' ! i) = Some p" using i by (simp add: f)
    ultimately show ?thesis using that(2) [OF h(1) False i(2,1)] f(4,5) by blast
  qed
qed

text \<open>Notifying one completed awaiter whose event is taken.\<close>

definition completion_event :: "async_ctx \<Rightarrow> nat \<Rightarrow> itc_equeue_event" where
  "completion_event c i = (case aw_task (ac_list c ! i) of
     None \<Rightarrow> OtherEvent 0
   | Some p \<Rightarrow> (case ac_pool c p of Some (Handle h) \<Rightarrow> TaskEvent (h_loop h) (h_task h) (Some p) | _ \<Rightarrow> OtherEvent 0))"

lemma notify_one_ok:
  assumes inv: "await_inv c us (d # ds)" and ok: "put_ok (length (ac_posted c))"
  obtains c' where "notify_one put_ok set_error (ac_done c) c = Ok (True, ac_done c', c')" "await_inv c' (d # us) ds"
    "ac_posted c' = ac_posted c @ [(completion_event c d, True)]"
    "\<forall>i\<in>set ds. completion_event c' i = completion_event c i"
    "dom (ac_pool c') = dom (ac_pool c)"
proof -
  have small: "small (ac_list c)" and us: "slots (ac_list c) (ac_unused c) us" "slots (ac_list c) (ac_done c) (d # ds)"
    "distinct (us @ d # ds)" using inv by (simp_all add: await_inv_def)
  then have d: "ac_done c = of_nat d" "d < length (ac_list c)" "slots (ac_list c) (aw_next (ac_list c ! d)) ds" by auto
  have du: "unat (of_nat d :: 32 word) = d" using small_index(1) [OF small d(2)] .
  have "aw_valid (ac_list c ! d)" using inv us(3) d(2) by (auto simp: await_inv_def)
  then have "slot_owned c (d # ds) d" using inv d(2) by (simp add: await_inv_def)
  then obtain p h where p: "aw_task (ac_list c ! d) = Some p" "ac_pool c p = Some (Handle h)" "h_await_id h = of_nat d" "h_state h = STATE_DONE"
    by (auto simp: slot_owned_def)
  let ?h = "if set_error then h\<lparr>h_status := -1\<rparr> else h"
  define c1 where "c1 = set_handle p ?h c"
  have c1: "c1 = (if set_error then set_handle p (h\<lparr>h_status := -1\<rparr>) c else c)"
    using p(2) by (cases set_error) (simp_all add: c1_def set_handle_def fun_upd_idem)
  have inv1: "await_inv c1 us (d # ds)" unfolding c1_def by (rule inv_set_handle [OF inv p(2)]) auto
  have f1: "ac_list c1 = ac_list c" "ac_unused c1 = ac_unused c" "ac_done c1 = ac_done c" "ac_posted c1 = ac_posted c"
    "ac_pool c1 = (ac_pool c)(p := Some (Handle ?h))" by (simp_all add: c1_def set_handle_def)
  let ?w = "\<lparr>aw_task = None, aw_valid = False, aw_next = ac_unused c\<rparr>"
  define c' where "c' = (set_awaiter (of_nat d) ?w (c1\<lparr>ac_posted := ac_posted c @ [(TaskEvent (h_loop h) (h_task h) (Some p), True)]\<rparr>))
    \<lparr>ac_unused := of_nat d, ac_done := aw_next (ac_list c ! d)\<rparr>"
  have "post_task_complete_event put_ok p c1 = Ok (0, c1\<lparr>ac_posted := ac_posted c @ [(TaskEvent (h_loop h) (h_task h) (Some p), True)]\<rparr>)"
    using ok by (simp add: post_task_complete_event_def get_handle_def deref_def f1 Let_def)
  then have run: "notify_one put_ok set_error (ac_done c) c = Ok (True, ac_done c', c')"
    using p(1,2) d get_awaiter_small [OF small d(2)]
    by (simp add: notify_one_def Let_def get_handle_def deref_def c'_def c1 [symmetric] f1 split del: if_split)
  have f: "ac_list c' = (ac_list c)[d := ?w]" "ac_unused c' = of_nat d" "ac_done c' = aw_next (ac_list c ! d)"
    "ac_pool c' = (ac_pool c)(p := Some (Handle ?h))" "ac_posted c' = ac_posted c @ [(TaskEvent (h_loop h) (h_task h) (Some p), True)]"
    using du by (simp_all add: c'_def set_awaiter_def f1)
  have "slots (ac_list c') (ac_unused c') (d # us)" using slots_push [OF us(1), of d ?w] us(3) d(2) by (simp add: f)
  moreover have "slots (ac_list c') (ac_done c') ds" using slots_update [OF d(3)] us(3) by (simp add: f)
  moreover have "\<forall>i<length (ac_list c'). aw_valid (ac_list c' ! i) \<longleftrightarrow> i \<notin> set (d # us)"
    using inv by (auto simp: f(1) await_inv_def nth_list_update)
  moreover have "slot_owned c' ds i" if i: "i < length (ac_list c')" "aw_valid (ac_list c' ! i)" for i
  proof -
    have ne: "i \<noteq> d" using i by (auto simp: f)
    then have "slot_owned c1 (d # ds) i" using i inv1 by (simp add: f f1 await_inv_def)
    then show ?thesis using ne by (simp add: slot_owned_def f f1)
  qed
  moreover have "\<exists>i<length (ac_list c'). h_await_id g = of_nat i \<and> aw_valid (ac_list c' ! i) \<and> aw_task (ac_list c' ! i) = Some q"
    if g: "ac_pool c' q = Some (Handle g)" "h_await_id g \<noteq> NO_SLOT" "h_state g \<noteq> STATE_DONE" for q g
  proof -
    have q: "ac_pool c1 q = Some (Handle g)" using g(1) by (simp add: f f1)
    obtain i where i: "i < length (ac_list c1)" "h_await_id g = of_nat i" "aw_valid (ac_list c1 ! i)" "aw_task (ac_list c1 ! i) = Some q"
      using inv_owner [OF inv1 q g(2,3)] .
    have "i \<noteq> d" using i(4) p(1,4) q g(3) f1 by (auto split: if_splits)
    then show ?thesis using i by (intro exI [of _ i]) (simp add: f f1)
  qed
  ultimately have inv': "await_inv c' (d # us) ds" using small us(3) by (auto simp: await_inv_def small_def f(1))
  have "completion_event c d = TaskEvent (h_loop h) (h_task h) (Some p)" using p by (simp add: completion_event_def)
  moreover have "completion_event c' i = completion_event c i" if "i \<in> set ds" for i
  proof -
    have "i \<noteq> d" using that us(3) by auto
    then show ?thesis using p(2) by (auto simp: completion_event_def f split: option.splits)
  qed
  ultimately show ?thesis using that run inv' f(4,5) p(2) by (metis dom_fun_upd insert_dom option.distinct(1))
qed

lemma notify_loop_ok:
  assumes "await_inv c us ds" and "\<forall>k. put_ok k"
  shows "\<exists>c'. notify_loop put_ok set_error (ac_done c) ok c = Some (Ok (ok, c')) \<and> await_inv c' (rev ds @ us) []
    \<and> ac_posted c' = ac_posted c @ map (\<lambda>i. (completion_event c i, True)) ds \<and> dom (ac_pool c') = dom (ac_pool c)"
  using assms(1)
proof (induction ds arbitrary: c us)
  case Nil
  then have "ac_done c = NO_SLOT" by (simp add: await_inv_def)
  then show ?case using Nil by (subst notify_loop.simps) simp
next
  case (Cons d ds)
  obtain c1 where c1: "notify_one put_ok set_error (ac_done c) c = Ok (True, ac_done c1, c1)" "await_inv c1 (d # us) ds"
    "ac_posted c1 = ac_posted c @ [(completion_event c d, True)]"
    "\<forall>i\<in>set ds. completion_event c1 i = completion_event c i" "dom (ac_pool c1) = dom (ac_pool c)"
    using notify_one_ok [OF Cons.prems] assms(2) by blast
  have "small (ac_list c)" "slots (ac_list c) (ac_done c) (d # ds)" using Cons.prems by (simp_all add: await_inv_def)
  then have "ac_done c \<noteq> NO_SLOT" using slots_head by blast
  then have step: "notify_loop put_ok set_error (ac_done c) ok c = notify_loop put_ok set_error (ac_done c1) ok c1"
    using c1(1) by (subst notify_loop.simps) simp
  have "map (\<lambda>i. (completion_event c1 i, True)) ds = map (\<lambda>i. (completion_event c i, True)) ds" using c1(4) by simp
  then show ?case using Cons.IH [OF c1(2)] step c1(3,5) by (auto simp del: map_eq_conv)
qed

subsection \<open>Reachable states\<close>

text \<open>
  What servlets and async threads do to the list: handles come and go, a servlet sets the wait mode,
  the completion is reported, a task is cancelled, its status is stored, and completed awaiters are
  notified. A handle is disposed of only when no slot belongs to it, which is when its event was posted
  or when it never waited.
\<close>

inductive aw_reach :: "async_ctx \<Rightarrow> bool" where
  start: "\<lbrakk> sched_async_start mem True c = Ok (0, c'); \<forall>p h. ac_pool c p \<noteq> Some (Handle h) \<rbrakk> \<Longrightarrow> aw_reach c'"
| create: "\<lbrakk> aw_reach c; \<forall>h. ac_pool c p \<noteq> Some (Handle h); h_await_id h' = NO_SLOT \<rbrakk> \<Longrightarrow> aw_reach (set_handle p h' c)"
| set_await: "\<lbrakk> aw_reach c; sched_async_handle_set_await (Some p) c = Ok (rc, c') \<rbrakk> \<Longrightarrow> aw_reach c'"
| complete: "\<lbrakk> aw_reach c; sched_async_handle_await_complete (Some p) status c = Ok (rc, c') \<rbrakk> \<Longrightarrow> aw_reach c'"
| cancel: "\<lbrakk> aw_reach c; sched_async_handle_cancel (Some p) status c = Ok (rc, c') \<rbrakk> \<Longrightarrow> aw_reach c'"
| status: "\<lbrakk> aw_reach c; exec_status p rc c = Ok c' \<rbrakk> \<Longrightarrow> aw_reach c'"
| notify: "\<lbrakk> aw_reach c; notify_completed_awaiters (\<lambda>_. True) set_error c = Some (Ok (ok, c')) \<rbrakk> \<Longrightarrow> aw_reach c'"
| dispose: "\<lbrakk> aw_reach c; \<forall>i<length (ac_list c). aw_valid (ac_list c ! i) \<longrightarrow> aw_task (ac_list c ! i) \<noteq> Some p;
    sched_async_handle_dispose True (Some p) c = Ok (rc, c') \<rbrakk> \<Longrightarrow> aw_reach c'"

lemma with_handle_Ok:
  assumes "with_handle (Some p) c f = Ok (rc, c')"
  obtains "rc = -1" "c' = c" | h where "ac_pool c p = Some (Handle h)" "f p h = Ok (rc, c')"
  using assms by (auto simp: with_handle_def get_handle_def deref_def split: option.splits handle_obj.splits)

lemma set_await_cases: "sched_async_handle_set_await (Some p) c = Ok (rc, c') \<Longrightarrow> rc = 0 \<or> rc = -1 \<and> c' = c"
  unfolding sched_async_handle_set_await_def by (erule with_handle_Ok) (auto simp: Let_def result_simps split: if_splits)

lemma complete_cases: "sched_async_handle_await_complete (Some p) status c = Ok (rc, c') \<Longrightarrow> rc = 0 \<or> rc = -1 \<and> c' = c"
  unfolding sched_async_handle_await_complete_def by (erule with_handle_Ok) (auto simp: Let_def result_simps split: if_splits)

lemma cancel_inv:
  assumes inv: "await_inv c us ds" and "sched_async_handle_cancel (Some p) status c = Ok (rc, c')"
  shows "await_inv c' us ds"
  using assms(2) unfolding sched_async_handle_cancel_def
  by (rule with_handle_Ok) (use inv in \<open>auto simp: Let_def split: if_splits intro!: inv_set_handle\<close>)

lemma status_inv:
  assumes inv: "await_inv c us ds" and "exec_status p rc c = Ok c'"
  shows "await_inv c' us ds"
proof -
  obtain h where h: "ac_pool c p = Some (Handle h)"
    using assms(2) by (auto simp: exec_status_def get_handle_def deref_def result_simps split: option.splits handle_obj.splits)
  then show ?thesis
    using assms by (auto simp: exec_status_def get_handle_def deref_def Let_def split: if_splits intro!: inv_set_handle [OF inv h])
qed

lemma dispose_inv:
  assumes "await_inv c us ds" and "sched_async_handle_dispose True (Some p) c = Ok (rc, c')"
    and "\<forall>i<length (ac_list c). aw_valid (ac_list c ! i) \<longrightarrow> aw_task (ac_list c ! i) \<noteq> Some p"
  shows "await_inv c' us ds"
proof (cases "c' = c")
  case False
  then have "free_handle p c = Ok c'"
    using assms(2) by (auto simp: sched_async_handle_dispose_def sched_async_fake_handle_free_def result_simps split: if_splits)
  then show ?thesis using inv_free_handle [OF assms(1) _ assms(3)] by blast
qed (use assms in simp)

lemma aw_reach_inv: "aw_reach c \<Longrightarrow> \<exists>us ds. await_inv c us ds"
proof (induction rule: aw_reach.induct)
  case (start mem c c')
  then show ?case using start_inv by blast
next
  case (create c p h')
  then show ?case using inv_new_handle by blast
next
  case (set_await c p rc c')
  then show ?case using set_await_cases set_await_inv by metis
next
  case (complete c p status rc c')
  then show ?case using complete_cases await_complete_inv by metis
next
  case (cancel c p status rc c')
  then show ?case using cancel_inv by blast
next
  case (status c p rc c')
  then show ?case using status_inv by blast
next
  case (notify c set_error ok c')
  then obtain us ds where "await_inv c us ds" by blast
  then show ?case using notify_loop_ok [of c us ds "\<lambda>_. True" set_error True] notify by (auto simp: notify_completed_awaiters_def)
next
  case (dispose c p rc c')
  then show ?case using dispose_inv by blast
qed

end
