(* ===== verification/AsyncProps.thy ===== *)
theory AsyncProps
  imports AsyncAwait
begin

text \<open>
  What the async processor promises: the tasks are claimed in the order in which they were posted, every
  completed awaiter is notified once; and what happens to a handle when a task cannot be posted or the
  event queue does not take an event.
\<close>

subsection \<open>Witness states\<close>

definition idle_ctx :: async_ctx where
  "idle_ctx = \<lparr>ac_init = False, ac_killed = False, ac_cap = 2, ac_front = 0, ac_rear = 0, ac_data = [],
     ac_pool = (\<lambda>_. None), ac_al_cap = 2, ac_unused = NO_SLOT, ac_done = NO_SLOT, ac_list = [], ac_nthreads = 1,
     ac_posted = [], ac_signals = 0\<rparr>"

definition fresh_handle :: async_handle_rec where
  "fresh_handle = \<lparr>h_await_id = NO_SLOT, h_status = 0, h_state = STATE_EXEC, h_loop = Some 1, h_task = Some 2, h_exec = None\<rparr>"

lemma set_await_succeeds:
  assumes "await_inv c (u # us) ds" and "ac_pool c p = Some (Handle h)" and "h_await_id h = NO_SLOT"
  shows "\<exists>c'. sched_async_handle_set_await (Some p) c = Ok (0, c')"
proof -
  have "small (ac_list c)" "u < length (ac_list c)" "ac_unused c = of_nat u" using assms(1) by (simp_all add: await_inv_def)
  then show ?thesis
    using assms(2,3) small_index(2) get_awaiter_small
    by (simp add: sched_async_handle_set_await_def with_handle_def get_handle_def deref_def Let_def)
qed

lemma complete_succeeds:
  assumes "await_inv c us ds" and "ac_pool c p = Some (Handle h)" and "h_await_id h \<noteq> NO_SLOT" and "h_state h \<noteq> STATE_DONE"
  shows "\<exists>c'. sched_async_handle_await_complete (Some p) status c = Ok (0, c')"
proof -
  obtain i where "i < length (ac_list c)" "h_await_id h = of_nat i" using inv_owner [OF assms] .
  then show ?thesis
    using assms get_awaiter_small [of c i]
    by (simp add: sched_async_handle_await_complete_def with_handle_def get_handle_def deref_def Let_def await_inv_def)
qed

lemma waiting_state:
  "\<exists>c c1 c2. aw_reach c \<and> sched_async_handle_set_await (Some 7) c = Ok (0, c1)
    \<and> sched_async_handle_await_complete (Some 7) 0 c1 = Ok (0, c2)"
proof -
  obtain c0 where c0: "sched_async_start plenty True idle_ctx = Ok (0, c0)" "ac_pool c0 = (\<lambda>_. None)"
    by (simp add: sched_async_start_def idle_ctx_def)
  have inv0: "await_inv c0 [0..<2] []" using start_inv [OF c0(1)] by (simp add: idle_ctx_def)
  let ?c = "set_handle 7 fresh_handle c0"
  have inv: "await_inv ?c [0, 1] []"
    using inv_new_handle [OF inv0, of 7 fresh_handle] c0(2) by (simp add: fresh_handle_def upt_conv_Cons)
  have "aw_reach c0" using aw_reach.start [OF c0(1)] by (simp add: idle_ctx_def)
  then have reach: "aw_reach ?c" using aw_reach.create [of c0 7 fresh_handle] c0(2) by (simp add: fresh_handle_def)
  have pool: "ac_pool ?c 7 = Some (Handle fresh_handle)" by (simp add: set_handle_def)
  obtain c1 where c1: "sched_async_handle_set_await (Some 7) ?c = Ok (0, c1)"
    using set_await_succeeds [OF inv pool] by (auto simp: fresh_handle_def)
  obtain u us' h where us: "[0, 1] = u # us'" "await_inv c1 us' []" "ac_pool ?c 7 = Some (Handle h)" "h_await_id h = NO_SLOT"
    "ac_pool c1 = (ac_pool ?c)(7 := Some (Handle (h\<lparr>h_await_id := of_nat u, h_state := STATE_AWAITING\<rparr>)))"
    "u < length (ac_list ?c)" "ac_posted c1 = ac_posted ?c" by (rule set_await_inv [OF inv c1])
  then have "await_inv c1 [1] []" "ac_pool c1 7 = Some (Handle (fresh_handle\<lparr>h_await_id := 0, h_state := STATE_AWAITING\<rparr>))"
    using pool by simp_all
  then obtain c2 where "sched_async_handle_await_complete (Some 7) 0 c1 = Ok (0, c2)"
    using complete_succeeds [of c1 "[1]" "[]" 7 "fresh_handle\<lparr>h_await_id := 0, h_state := STATE_AWAITING\<rparr>" 0]
    by (auto simp: NO_SLOT_def)
  then show ?thesis using reach c1 by blast
qed

subsection \<open>The awaiting list\<close>

lemma owner_unique:
  assumes "await_inv c us ds" and "i < length (ac_list c)" "j < length (ac_list c)" "aw_valid (ac_list c ! i)" "aw_valid (ac_list c ! j)"
    and "aw_task (ac_list c ! i) = Some p" "aw_task (ac_list c ! j) = Some p"
  shows "i = j"
proof -
  have "slot_owned c ds i" "slot_owned c ds j" "small (ac_list c)" using assms(1-5) by (simp_all add: await_inv_def)
  then show ?thesis using assms(2,3,6,7) of_nat_slot_eq by (auto simp: slot_owned_def)
qed

lemma done_valid: "\<lbrakk> await_inv c us ds; i \<in> set ds \<rbrakk> \<Longrightarrow> i < length (ac_list c) \<and> aw_valid (ac_list c ! i)"
  using slots_bound [of "ac_list c" "ac_done c" ds i] by (auto simp: await_inv_def)



text \<open>The handle an event is about.\<close>

fun event_handle :: "itc_equeue_event \<Rightarrow> nat option" where
  "event_handle (TaskEvent l t h) = h"
| "event_handle _ = None"

lemma completion_event_handle:
  assumes "await_inv c us ds" and "i \<in> set ds"
  shows "event_handle (completion_event c i) = aw_task (ac_list c ! i)"
proof -
  have "slot_owned c ds i" using done_valid [OF assms] assms(1) by (simp add: await_inv_def)
  then show ?thesis by (auto simp: slot_owned_def completion_event_def)
qed



subsection \<open>When a task cannot be posted\<close>

definition holds_handle :: "nat \<Rightarrow> runtime_task \<Rightarrow> bool" where
  "holds_handle p t \<longleftrightarrow> owns_async t \<and> async_handle t = Some p"

lemma dispose_dangling: "\<lbrakk> holds_handle p t; ac_pool c p = None \<rbrakk> \<Longrightarrow> task_dispose env (Some t) c = Undef"
  by (simp add: task_dispose_def holds_handle_def task_disposal_of_def sched_async_handle_dispose_def deref_def Let_def)

lemma free_handle_gone: "free_handle p c = Ok c' \<Longrightarrow> ac_pool c' p = None"
  by (auto simp: free_handle_def result_simps)

lemma holds_invoked: "holds_handle p t \<Longrightarrow> holds_handle p (t\<lparr>rt_flags := rt_flags t OR RUNTIME_TASK_FLAG_ACTION_INVOKED\<rparr>)"
  by (simp add: holds_handle_def owns_async_def invoked_flags)

lemma start_task_holds:
  assumes "start_task run p (Some t) c = Ok (rc, t', c')" and "holds_handle q t"
  shows "\<exists>t1. t' = Some t1 \<and> holds_handle q t1 \<and> async_owner t1 = async_owner t"
proof -
  have "t' = Some t \<or> t' = Some (t\<lparr>rt_flags := rt_flags t OR RUNTIME_TASK_FLAG_ACTION_INVOKED\<rparr>)"
    using assms(1) by (auto simp: start_task_def runtime_task_start_def Let_def split: if_splits prod.splits)
  then show ?thesis using assms(2) holds_invoked by auto
qed

lemma post_error_dangles:
  assumes "post_error run env p e cl inst c = Ok (rc, t', c')" and "cl = None \<Longrightarrow> \<exists>t. inst = Some t \<and> holds_handle p t"
    and "\<And>t. cl = Some t \<Longrightarrow> holds_handle p t"
  shows "\<exists>t1. t' = Some t1 \<and> holds_handle p t1 \<and> ac_pool c' p = None"
proof (cases cl)
  case None
  then show ?thesis using assms(1,2) free_handle_gone by (auto simp: post_error_def result_simps)
next
  case (Some t)
  then obtain c1 h rc1 c2 where "start_task run p (Some t) (set_handle p (h\<lparr>h_status := -1\<rparr>) c1) = Ok (rc1, t', c2)"
    "free_handle p c2 = Ok c'"
    using assms(1) by (auto simp: post_error_def result_simps)
  then show ?thesis using start_task_holds assms(3) [OF Some] free_handle_gone by blast
qed

lemma companions_holds:
  assumes "runtime_task_async_companions has_pool mem t = Ok (e, cl, su)" and "async_handle t = Some p"
  shows "holds_handle p cl" and "\<not> async_owner e" and "flag_async (rt_flags e)"
proof -
  let ?f = "rt_flags t AND NOT RUNTIME_TASK_FLAG_ACTION_MASK AND NOT RUNTIME_TASK_FLAG_ACTION_INVOKED"
  have "flag_async (rt_flags t)"
    using assms(1) by (auto simp: runtime_task_async_companions_def runtime_task_is_async_def split: if_splits)
  then have f: "flag_async (?f OR RUNTIME_TASK_FLAG_ACTION_EXEC)" "flag_async (?f OR RUNTIME_TASK_FLAG_ACTION_UNLOAD)"
    by (simp_all add: flag_async_def task_flag_defs bit.conj_disj_distrib2 and.assoc)
  have "cl = t\<lparr>rt_flags := ?f OR RUNTIME_TASK_FLAG_ACTION_UNLOAD, async_owner := True\<rparr>"
    "e = t\<lparr>rt_flags := ?f OR RUNTIME_TASK_FLAG_ACTION_EXEC, rt_pipes := [], async_owner := False\<rparr>"
    using assms(1) by (auto simp: runtime_task_async_companions_def Let_def split: if_splits)
  then show "holds_handle p cl" "\<not> async_owner e" "flag_async (rt_flags e)"
    using f assms(2) by (simp_all add: holds_handle_def owns_async_def)
qed

lemma post_enqueue_dangles:
  assumes "post_enqueue run env p e cl c = Ok (-1, t', c')" and "holds_handle p cl"
  shows "\<exists>t1. t' = Some t1 \<and> holds_handle p t1 \<and> ac_pool c' p = None"
proof (cases "ac_rear c - ac_front c \<ge> ac_cap c")
  case True
  then show ?thesis using assms post_error_dangles [of run env p "Some e" "Some cl" "Some cl" c "-1" t' c'] by (simp add: post_enqueue_def)
next
  case False
  then show ?thesis
    using assms free_handle_gone by (auto simp: post_enqueue_def Let_def result_simps split: if_splits)
qed

lemma post_companions_dangles:
  assumes "post_companions run env p e cl su c = Ok (-1, t', c')" and "holds_handle p cl"
  shows "\<exists>t1. t' = Some t1 \<and> holds_handle p t1 \<and> ac_pool c' p = None"
proof -
  have err: "post_error run env p (Some e) (Some cl) (Some cl) x = Ok (-1, t', c') \<Longrightarrow> ?thesis" for x
    using post_error_dangles [of run env p "Some e" "Some cl" "Some cl" x "-1" t' c'] assms(2) by auto
  have enq: "post_enqueue run env p e cl x = Ok (-1, t', c') \<Longrightarrow> ?thesis" for x
    using post_enqueue_dangles assms(2) by blast
  show ?thesis
    using assms(1) unfolding post_companions_def
    by (auto simp: Let_def result_simps split: if_splits dest: err enq)
qed

text \<open>Whenever posting a task fails after its handle was made, for whatever reason (the setup callback
  failed, no memory for the companions, the queue is full, the processor was killed), the handle has been
  given back to the pool, but the task that the scheduler is left with still owns it: when the scheduler
  disposes of the task, the handle is used again.\<close>

theorem failed_post_dangles:
  assumes "sched_async_task_post setup cleanup env (Some p) has_pool mem (Some l) (Some k) (Some t) c = Ok (-1, t', c')"
    and "get_action (rt_flags t) = RUNTIME_TASK_FLAG_ACTION_INIT" and "runtime_task_is_async t" and "async_owner t"
  shows "\<exists>t1. t' = Some t1 \<and> task_dispose env (Some t1) c' = Undef"
proof -
  let ?t = "t\<lparr>async_handle := Some p\<rparr>"
  have own: "holds_handle p ?t" using assms(3,4) by (simp add: holds_handle_def owns_async_def runtime_task_is_async_def)
  obtain rc ts c1 where run: "start_task setup p (Some ?t) (set_handle p \<lparr>h_await_id = NO_SLOT, h_status = 0, h_state = STATE_INIT,
      h_loop = Some l, h_task = Some k, h_exec = None\<rparr> c) = Ok (rc, ts, c1)"
    using assms by (auto simp: sched_async_task_post_def result_simps)
  then obtain t1 where t1: "ts = Some t1" "holds_handle p t1" using start_task_holds own by blast
  have rest: "(if rc = -1 then post_error cleanup env p None None ts c1
      else (case runtime_task_async_companions has_pool mem t1 of
              Ok (e, cl, su) \<Rightarrow> post_companions cleanup env p e cl su c1
            | Error \<Rightarrow> post_error cleanup env p None None (Some t1) c1
            | Undef \<Rightarrow> Undef)) = Ok (-1, t', c')"
    using assms(1-3) run t1(1) by (auto simp: sched_async_task_post_def)
  have err: "post_error cleanup env p None None (Some t1) c1 = Ok (-1, t', c') \<Longrightarrow> ?thesis"
    using post_error_dangles [of cleanup env p None None "Some t1" c1 "-1" t' c'] t1(2) dispose_dangling by blast
  show ?thesis
  proof (cases "rc = -1")
    case True
    then show ?thesis using rest err t1(1) by simp
  next
    case False
    show ?thesis
    proof (cases "runtime_task_async_companions has_pool mem t1")
      case (Ok x)
      obtain e cl su where x: "x = (e, cl, su)" by (cases x)
      have "post_companions cleanup env p e cl su c1 = Ok (-1, t', c')" using rest False Ok x by simp
      moreover have "holds_handle p cl" using companions_holds(1) Ok x t1(2) by (auto simp: holds_handle_def)
      ultimately show ?thesis using post_companions_dangles dispose_dangling by blast
    next
      case Error
      then show ?thesis using rest err False by simp
    next
      case Undef
      then show ?thesis using rest False by simp
    qed
  qed
qed

definition no_callbacks :: servlet_def where
  "no_callbacks = \<lparr>async_buf_size = 0, def_init = None, def_exec = None, def_unload = None, def_async_setup = None,
     def_async_exec = None, def_async_cleanup = None\<rparr>"

definition setup_task :: runtime_task where
  "setup_task = \<lparr>rt_flags = RUNTIME_TASK_FLAG_ACTION_ASYNC, rt_servlet = 0, async_owner = True, async_handle = None,
     async_data = None, rt_pipes = []\<rparr>"

theorem failed_post_dangles_witness:
  "\<exists>t1 c'. sched_async_task_post (\<lambda>t p c. (no_callbacks\<lparr>def_async_setup := Some (-1)\<rparr>, c)) (\<lambda>t p c. (no_callbacks, c))
      (\<lambda>_. True, \<lambda>_. True) (Some 7) True plenty (Some 1) (Some 2) (Some setup_task) idle_ctx = Ok (-1, Some t1, c')
    \<and> task_dispose (\<lambda>_. True, \<lambda>_. True) (Some t1) c' = Undef"
proof -
  let ?post = "sched_async_task_post (\<lambda>t p c. (no_callbacks\<lparr>def_async_setup := Some (-1)\<rparr>, c)) (\<lambda>t p c. (no_callbacks, c))
      (\<lambda>_. True, \<lambda>_. True) (Some 7) True plenty (Some 1) (Some 2) (Some setup_task) idle_ctx"
  have t: "get_action (rt_flags setup_task) = RUNTIME_TASK_FLAG_ACTION_INIT" "runtime_task_is_async setup_task" "async_owner setup_task"
    by (simp_all add: setup_task_def get_action_def runtime_task_is_async_def flag_async_def task_flag_defs)
  have "\<not> flag_invoked (rt_flags setup_task)" by (simp add: setup_task_def flag_invoked_def task_flag_defs)
  moreover have "get_action (rt_flags setup_task OR RUNTIME_TASK_FLAG_ACTION_INVOKED) = RUNTIME_TASK_FLAG_ACTION_INIT"
    "flag_async (rt_flags setup_task OR RUNTIME_TASK_FLAG_ACTION_INVOKED)"
    using t(1,2) by (simp_all add: invoked_flags runtime_task_is_async_def)
  ultimately obtain t' c' where "?post = Ok (-1, t', c')"
    using t by (simp add: sched_async_task_post_def start_task_def runtime_task_start_def callback_of_def Let_def
        post_error_def free_handle_def deref_def set_handle_def)
  then show ?thesis using failed_post_dangles [of _ _ "(\<lambda>_. True, \<lambda>_. True)"] t by blast
qed

subsection \<open>When an event is not taken\<close>

lemma notify_one_rejected:
  assumes inv: "await_inv c us [d]" and no: "\<not> put_ok (length (ac_posted c))"
  obtains c' p where "notify_one put_ok False (ac_done c) c = Ok (False, NO_SLOT, c')" "aw_task (ac_list c ! d) = Some p"
    "ac_pool c' = (ac_pool c)(p := None)" "ac_unused c' = of_nat d" "aw_next (ac_list c' ! d) = of_nat d"
    "length (ac_list c') = length (ac_list c)" "d < length (ac_list c)" "small (ac_list c)"
proof -
  have small: "small (ac_list c)" and d: "ac_done c = of_nat d" "d < length (ac_list c)" "aw_next (ac_list c ! d) = NO_SLOT"
    using inv by (simp_all add: await_inv_def)
  have du: "unat (of_nat d :: 32 word) = d" "(of_nat d :: 32 word) \<noteq> NO_SLOT" using small_index [OF small d(2)] .
  have "aw_valid (ac_list c ! d)" using inv d(2) by (auto simp: await_inv_def)
  then have "slot_owned c [d] d" using inv d(2) by (simp add: await_inv_def)
  then obtain p h where p: "aw_task (ac_list c ! d) = Some p" "ac_pool c p = Some (Handle h)" "h_await_id h = of_nat d" "h_state h = STATE_DONE"
    by (auto simp: slot_owned_def)
  let ?c1 = "c\<lparr>ac_posted := ac_posted c @ [(TaskEvent (h_loop h) (h_task h) (Some p), False)]\<rparr>"
  let ?c2 = "?c1\<lparr>ac_done := NO_SLOT, ac_list := (ac_list c)[d := (ac_list c ! d)\<lparr>aw_next := ac_unused c\<rparr>], ac_unused := of_nat d\<rparr>"
  have find: "find_prev x slot NO_SLOT = Some (Ok NO_SLOT)" for x slot by (subst find_prev.simps) simp
  have ga: "get_awaiter x (of_nat d) = Ok (ac_list x ! d)" if "ac_list x = ac_list c" for x
    using that du(1) d(2) by (simp add: get_awaiter_def)
  have "release_slot h ?c1 = Ok ?c2"
    using p d du by (simp add: release_slot_def Let_def ga find set_next_def set_awaiter_def)
  then have post: "post_task_complete_event put_ok p c = Ok (-1, ?c2\<lparr>ac_pool := (ac_pool c)(p := None)\<rparr>)"
    using no p(2) by (simp add: post_task_complete_event_def get_handle_def deref_def Let_def free_handle_def)
  let ?c3 = "(set_awaiter (of_nat d) \<lparr>aw_task = None, aw_valid = False, aw_next = of_nat d\<rparr> (?c2\<lparr>ac_pool := (ac_pool c)(p := None)\<rparr>))
    \<lparr>ac_unused := of_nat d, ac_done := NO_SLOT\<rparr>"
  have "notify_one put_ok False (ac_done c) c = Ok (False, NO_SLOT, ?c3)"
    using p(1,2) d ga [of c] post by (simp add: notify_one_def Let_def get_handle_def deref_def)
  then show ?thesis using that [of ?c3 p] p(1) d(2) du(1) small by (simp add: set_awaiter_def)
qed

text \<open>When the event queue does not take the completion event of an awaiter, its slot is put on the list of
  the unused slots twice and becomes its own successor. The next two tasks that ask for the wait mode
  get this same slot, so that the first of them can no longer be notified; and then the list of the unused
  slots is empty, whatever was on it.\<close>

theorem rejected_event_shares_slot:
  assumes "await_inv c us [d]" and "ac_pool c p = Some (Handle h)" and "ac_pool c q = Some (Handle g)" and "p \<noteq> q"
    and "h_await_id h = NO_SLOT" and "h_await_id g = NO_SLOT"
  shows "\<exists>c1 c2 c3 h' g'. notify_completed_awaiters (\<lambda>_. False) False c = Some (Ok (False, c1))
    \<and> sched_async_handle_set_await (Some p) c1 = Ok (0, c2) \<and> ac_pool c2 p = Some (Handle h')
    \<and> sched_async_handle_set_await (Some q) c2 = Ok (0, c3) \<and> ac_pool c3 q = Some (Handle g')
    \<and> h_await_id h' = h_await_id g' \<and> aw_task (ac_list c3 ! d) = Some q \<and> ac_unused c3 = NO_SLOT"
proof -
  obtain c1 r where c1: "notify_one (\<lambda>_. False) False (ac_done c) c = Ok (False, NO_SLOT, c1)" "aw_task (ac_list c ! d) = Some r"
    "ac_pool c1 = (ac_pool c)(r := None)" "ac_unused c1 = of_nat d" "aw_next (ac_list c1 ! d) = of_nat d"
    "length (ac_list c1) = length (ac_list c)" "d < length (ac_list c)" "small (ac_list c)"
    by (rule notify_one_rejected [OF assms(1), of "\<lambda>_. False"]) auto
  have du: "unat (of_nat d :: 32 word) = d" "(of_nat d :: 32 word) \<noteq> NO_SLOT" using small_index [OF c1(8,7)] .
  have "aw_valid (ac_list c ! d)" using assms(1) c1(7) by (auto simp: await_inv_def)
  then have "slot_owned c [d] d" using assms(1) c1(7) by (simp add: await_inv_def)
  then have "r \<noteq> p" "r \<noteq> q" using c1(2) assms(2,3,5,6) du(2) by (auto simp: slot_owned_def)
  then have pool: "ac_pool c1 p = Some (Handle h)" "ac_pool c1 q = Some (Handle g)" using c1(3) assms(2,3) by simp_all
  have "ac_done c \<noteq> NO_SLOT" using assms(1) du(2) by (simp add: await_inv_def)
  then have run: "notify_completed_awaiters (\<lambda>_. False) False c = Some (Ok (False, c1))"
    using c1(1) by (simp add: notify_completed_awaiters_def notify_loop.simps [of _ _ "ac_done c"] notify_loop.simps [of _ _ NO_SLOT])
  define c2 where "c2 = set_handle p (h\<lparr>h_await_id := of_nat d, h_state := STATE_AWAITING\<rparr>)
    (set_awaiter (of_nat d) \<lparr>aw_task = Some p, aw_valid = True, aw_next = NO_SLOT\<rparr> c1)"
  have s1: "sched_async_handle_set_await (Some p) c1 = Ok (0, c2)"
    using pool(1) assms(5) c1(4-7) du
    by (simp add: c2_def sched_async_handle_set_await_def with_handle_def get_handle_def deref_def Let_def get_awaiter_def
        set_awaiter_def set_handle_def)
  have f2: "ac_pool c2 p = Some (Handle (h\<lparr>h_await_id := of_nat d, h_state := STATE_AWAITING\<rparr>))" "ac_pool c2 q = Some (Handle g)"
    "ac_unused c2 = of_nat d" "ac_list c2 ! d = \<lparr>aw_task = Some p, aw_valid = True, aw_next = NO_SLOT\<rparr>" "length (ac_list c2) = length (ac_list c1)"
    using pool(2) assms(4) du(1) c1(4,6,7) by (simp_all add: c2_def set_handle_def set_awaiter_def)
  define c3 where "c3 = set_handle q (g\<lparr>h_await_id := of_nat d, h_state := STATE_AWAITING\<rparr>)
    (set_awaiter (of_nat d) \<lparr>aw_task = Some q, aw_valid = True, aw_next = NO_SLOT\<rparr> (c2\<lparr>ac_unused := NO_SLOT\<rparr>))"
  have s2: "sched_async_handle_set_await (Some q) c2 = Ok (0, c3)"
    using f2 assms(6) c1(6,7) du
    by (simp add: c3_def sched_async_handle_set_await_def with_handle_def get_handle_def deref_def Let_def get_awaiter_def)
  have f3: "ac_pool c3 q = Some (Handle (g\<lparr>h_await_id := of_nat d, h_state := STATE_AWAITING\<rparr>))" "aw_task (ac_list c3 ! d) = Some q"
    "ac_unused c3 = NO_SLOT" using du(1) f2(5) c1(6,7) by (simp_all add: c3_def set_handle_def set_awaiter_def)
  show ?thesis using run s1 f2(1) s2 f3
    by (intro exI [of _ c1] exI [of _ c2] exI [of _ c3] exI [of _ "h\<lparr>h_await_id := of_nat d, h_state := STATE_AWAITING\<rparr>"]
        exI [of _ "g\<lparr>h_await_id := of_nat d, h_state := STATE_AWAITING\<rparr>"]) simp
qed

theorem rejected_event_shares_slot_witness:
  "\<exists>c us d. await_inv c us [d] \<and> ac_pool c 8 = Some (Handle fresh_handle) \<and> ac_pool c 9 = Some (Handle fresh_handle)
    \<and> (\<exists>c1 c2 c3. notify_completed_awaiters (\<lambda>_. False) False c = Some (Ok (False, c1))
      \<and> sched_async_handle_set_await (Some 8) c1 = Ok (0, c2) \<and> sched_async_handle_set_await (Some 9) c2 = Ok (0, c3)
      \<and> aw_task (ac_list c3 ! d) = Some 9)"
proof -
  let ?h = "fresh_handle\<lparr>h_await_id := 0, h_state := STATE_DONE\<rparr>"
  let ?c = "idle_ctx\<lparr>ac_list := [\<lparr>aw_task = Some 7, aw_valid = True, aw_next = NO_SLOT\<rparr>], ac_done := 0,
    ac_pool := (\<lambda>_. None)(7 := Some (Handle ?h), 8 := Some (Handle fresh_handle), 9 := Some (Handle fresh_handle))\<rparr>"
  have "await_inv ?c [] [0]"
    by (auto simp: await_inv_def slot_owned_def small_def idle_ctx_def fresh_handle_def NO_SLOT_def split: if_splits)
  then show ?thesis
    using rejected_event_shares_slot [of ?c "[]" 0 8 fresh_handle 9 fresh_handle]
    by (intro exI [of _ ?c] exI [of _ "[]"] exI [of _ 0]) (auto simp: fresh_handle_def)
qed

subsection \<open>The queue of the tasks\<close>

definition ac_queue :: "async_ctx \<Rightarrow> nat option list" where
  "ac_queue c = ring_contents (ac_cap c) (ac_front c) (ac_rear c) (ac_data c)"

definition ac_ring :: "async_ctx \<Rightarrow> bool" where
  "ac_ring c \<longleftrightarrow> ring_wf (ac_cap c) (ac_front c) (ac_rear c) (ac_data c)"

lemma ac_queue_set_handle [simp]: "ac_queue (set_handle p h c) = ac_queue c" "ac_ring (set_handle p h c) = ac_ring c"
  by (simp_all add: ac_queue_def ac_ring_def set_handle_def)

lemma ac_full_iff:
  assumes "ac_ring c"
  shows "ac_rear c - ac_front c \<ge> ac_cap c \<longleftrightarrow> length (ac_queue c) = length (ac_data c)"
proof -
  obtain k where k: "k < 32" "ac_cap c = 2 ^ k" "length (ac_data c) = 2 ^ k" "ring_length (ac_front c) (ac_rear c) \<le> 2 ^ k"
    using assms by (auto simp: ac_ring_def ring_wf_def)
  then show ?thesis using unat_pow [OF k(1)] by (auto simp: word_le_nat_alt ac_queue_def ring_length_def)
qed

text \<open>The tasks are claimed in the order in which they were posted. A handle that is queued goes behind
  the others, a thread that claims a task takes the oldest one; a task is turned away exactly when the
  queue is full.\<close>

theorem async_queue_fifo:
  assumes "ac_ring c" and "\<not> ac_killed c"
  shows "(if length (ac_queue c) < length (ac_data c)
      then \<exists>c'. post_enqueue run env p e cl c = Ok (1, Some cl, c') \<and> ac_ring c' \<and> ac_queue c' = ac_queue c @ [Some p]
      else post_enqueue run env p e cl c = post_error run env p (Some e) (Some cl) (Some cl) c)
    \<and> (case ac_queue c of
        [] \<Rightarrow> claim_task c = Ok (None, c)
      | x # xs \<Rightarrow> \<exists>c'. claim_task c = Ok (x, c') \<and> ac_ring c' \<and> ac_queue c' = xs)"
proof
  have wf: "ring_wf (ac_cap c) (ac_front c) (ac_rear c) (ac_data c)" using assms(1) by (simp add: ac_ring_def)
  note slot = ring_slot_bound [OF wf]
  show "if length (ac_queue c) < length (ac_data c)
      then \<exists>c'. post_enqueue run env p e cl c = Ok (1, Some cl, c') \<and> ac_ring c' \<and> ac_queue c' = ac_queue c @ [Some p]
      else post_enqueue run env p e cl c = post_error run env p (Some e) (Some cl) (Some cl) c"
  proof (cases "length (ac_queue c) < length (ac_data c)")
    case True
    have push: "ac_ring (ac_push (Some p) c)" "ac_queue (ac_push (Some p) c) = ac_queue c @ [Some p]"
      using ar.put_queue [OF wf, of "Some p"] True by (simp_all add: ac_ring_def ac_queue_def)
    then have "ac_ring ((ac_push (Some p) c)\<lparr>ac_signals := n\<rparr>)" "ac_queue ((ac_push (Some p) c)\<lparr>ac_signals := n\<rparr>) = ac_queue c @ [Some p]" for n
      by (simp_all add: ac_ring_def ac_queue_def)
    then show ?thesis
      using True push ac_full_iff [OF assms(1)] assms(2) slot by (auto simp: post_enqueue_def Let_def not_le)
  next
    case False
    moreover have "length (ac_queue c) \<le> length (ac_data c)" using ring_length_bound [OF wf] by (simp add: ac_queue_def)
    ultimately show ?thesis using ac_full_iff [OF assms(1)] by (simp add: post_enqueue_def)
  qed
  show "case ac_queue c of
        [] \<Rightarrow> claim_task c = Ok (None, c)
      | x # xs \<Rightarrow> \<exists>c'. claim_task c = Ok (x, c') \<and> ac_ring c' \<and> ac_queue c' = xs"
  proof (cases "ac_queue c")
    case Nil
    then have "ac_front c = ac_rear c" using ring_empty_iff by (auto simp: ac_queue_def simp flip: length_0_conv)
    then show ?thesis using Nil by (simp add: claim_task_def)
  next
    case (Cons x xs)
    then have len: "ring_length (ac_front c) (ac_rear c) \<ge> 1"
      by (metis One_nat_def Suc_leI ac_queue_def length_greater_0_conv list.distinct(1) ring_length_contents)
    then have ne: "ac_front c \<noteq> ac_rear c" using ring_empty_iff [of "ac_front c" "ac_rear c"] by simp
    have hd: "ac_data c ! ring_slot (ac_cap c) (ac_front c) = x" using ar.head_slot [OF ne] Cons by (simp add: ac_queue_def)
    have skip: "ac_ring (ac_skip 1 c)" "ac_queue (ac_skip 1 c) = xs"
      using ar.skip_queue [OF wf, of 1] len Cons by (simp_all add: ac_ring_def ac_queue_def)
    then have "ac_ring ((ac_skip 1 c)\<lparr>ac_signals := n\<rparr>)" "ac_queue ((ac_skip 1 c)\<lparr>ac_signals := n\<rparr>) = xs" for n
      by (simp_all add: ac_ring_def ac_queue_def)
    then show ?thesis
      using Cons ne hd slot skip assms(2) by (auto simp: claim_task_def Let_def not_le)
  qed
qed

theorem async_queue_fifo_witness:
  "\<exists>c. ac_ring c \<and> \<not> ac_killed c \<and> ac_queue c = [Some 7]
    \<and> (\<exists>c'. post_enqueue (\<lambda>t p c. (no_callbacks, c)) (\<lambda>_. True, \<lambda>_. True) 8 setup_task setup_task c = Ok (1, Some setup_task, c')
      \<and> ac_queue c' = [Some 7, Some 8])
    \<and> (\<exists>c'. claim_task c = Ok (Some 7, c') \<and> ac_queue c' = [])"
proof -
  let ?c = "idle_ctx\<lparr>ac_data := [Some 7, None], ac_rear := 1\<rparr>"
  have c: "ac_ring ?c" "\<not> ac_killed ?c" "ac_queue ?c = [Some 7]" "length (ac_data ?c) = 2"
    by (auto simp: ac_ring_def ac_queue_def ring_wf_def ring_contents_def ring_length_def ring_slot_def idle_ctx_def intro!: exI [of _ 1])
  show ?thesis
    using async_queue_fifo [of ?c "\<lambda>t p c. (no_callbacks, c)" "(\<lambda>_. True, \<lambda>_. True)" 8 setup_task setup_task] c
    by (intro exI [of _ ?c]) auto
qed

end
