(* ===== verification/Bitmask.thy ===== *)
theory Bitmask
  imports Prelude
begin

unbundle bit_operations_syntax

text \<open>
  The allocator of small integers, \<^verbatim>\<open>src/utils/bitmask.c\<close>: a tree of 64-bit words of order 64 that is
  stored without pointers. The bits are numbered through the words; the children of bit \<open>b\<close> are the 64
  bits of word \<open>b + 1\<close>, and a bit is set when all its children are. The bits without children are the
  identifiers, those of the last level first. The contract that the connection pool relies on is the
  locale \<open>id_allocator\<close>.
\<close>

abbreviation BPN :: nat where "BPN \<equiv> 64"

record bitmask =
  bm_size :: nat
  bm_bits :: nat
  bm_nodes :: nat
  bm_last :: nat
  bm_mask :: "64 word list"

subsection \<open>Operations\<close>

text \<open>The number of the bits in the last level: the full levels, of 64, 64 * 64, ... bits, are taken off.\<close>

function last_level :: "nat \<Rightarrow> nat \<Rightarrow> nat" where
  "last_level n l = (if l > BPN ^ n then last_level (Suc n) (l - BPN ^ n) else l)"
  by pat_completeness auto

termination
  by (relation "measure snd") (auto intro!: diff_less)

text \<open>The bits of the last word that do not exist count as used.\<close>

definition last_word :: "nat \<Rightarrow> 64 word" where
  "last_word bits = NOT ((push_bit (bits mod BPN) 1) - 1)"

definition bitmask_new :: "bool \<Rightarrow> nat \<Rightarrow> bitmask result" where
  "bitmask_new mem sz =
     (if sz = 0 then Error
      else let bits = sz + (sz + BPN - 3) div (BPN - 1) - 1; nodes = (bits + BPN - 1) div BPN in
        if \<not> mem then Error
        else if nodes = 0 then Undef
        else Ok \<lparr>bm_size = sz, bm_bits = bits, bm_nodes = nodes, bm_last = last_level 1 bits,
                 bm_mask = (replicate nodes 0)[nodes - 1 := last_word bits]\<rparr>)"

definition bitmask_clear :: "bitmask \<Rightarrow> bitmask" where
  "bitmask_clear bm = bm\<lparr>bm_mask := (replicate (bm_nodes bm) 0)[bm_nodes bm - 1 := last_word (bm_bits bm)]\<rparr>"

text \<open>The bit of an identifier.\<close>

definition bit_offset :: "bitmask \<Rightarrow> nat \<Rightarrow> nat" where
  "bit_offset bm i =
     (if i < bm_last bm then bm_bits bm - bm_last bm + i
      else bm_bits bm + i - bm_size bm - bm_last bm)"

text \<open>Carry a change of word \<open>node\<close> up to the root, until a word above is right already.\<close>

function propagate :: "64 word list \<Rightarrow> nat \<Rightarrow> 64 word list" where
  "propagate m node =
     (if node > 0
      then let p = (node - 1) div BPN; b = (node - 1) mod BPN in
        if NOT (m ! node) = 0
        then (if bit (m ! p) b then m else propagate (m[p := m ! p OR push_bit b 1]) p)
        else (if \<not> bit (m ! p) b then m else propagate (m[p := m ! p AND NOT (push_bit b 1)]) p)
      else m)"
  by pat_completeness auto

termination
  by (relation "measure snd") (auto simp: less_eq_Suc_le le_trans [OF div_le_dividend])

definition bitmask_set :: "bitmask \<Rightarrow> nat \<Rightarrow> bool \<Rightarrow> bitmask result" where
  "bitmask_set bm i val =
     (let ofs = bit_offset bm i; node = ofs div BPN; b = ofs mod BPN; m = bm_mask bm in
      if node \<ge> length m then Undef
      else Ok (bm\<lparr>bm_mask := propagate
             (m[node := if val then m ! node OR push_bit b 1 else m ! node AND NOT (push_bit b 1)]) node\<rparr>))"

function trailing_ones :: "64 word \<Rightarrow> nat" where
  "trailing_ones cur = (if cur AND 1 \<noteq> 0 then Suc (trailing_ones (drop_bit 1 cur)) else 0)"
  by pat_completeness auto

termination
  by (relation "measure unat") (auto simp: drop_bit_eq_div unat_div unat_gt_0 intro!: div_less_dividend)

text \<open>Down from the root along the first child that is not full.\<close>

function descend :: "bitmask \<Rightarrow> nat \<Rightarrow> nat" where
  "descend bm idx =
     (if idx * BPN + 1 < bm_nodes bm
      then let nidx = idx * BPN + 1 + trailing_ones (bm_mask bm ! idx) in
        if nidx \<ge> bm_nodes bm then idx else descend bm nidx
      else idx)"
  by pat_completeness auto

termination
  by (relation "measure (\<lambda>(bm, idx). bm_nodes bm - idx)") auto

text \<open>The identifier, or \<open>None\<close> for the error code \<open>-1\<close>.\<close>

definition bitmask_alloc :: "bitmask \<Rightarrow> (nat option \<times> bitmask) result" where
  "bitmask_alloc bm =
     (if NOT (bm_mask bm ! 0) = 0 then Ok (None, bm)
      else let idx = descend bm 0; pos = idx * BPN + trailing_ones (bm_mask bm ! idx);
               ret = (if pos \<ge> bm_bits bm - bm_last bm then pos + bm_last bm - bm_bits bm
                      else pos + bm_last bm + bm_size bm - bm_bits bm) in
        rmap (\<lambda>bm. (Some ret, bm)) (bitmask_set bm ret True))"

definition bitmask_dealloc :: "bitmask \<Rightarrow> nat \<Rightarrow> bitmask result" where
  "bitmask_dealloc bm i = bitmask_set bm i False"

definition bitmask_full :: "bitmask \<Rightarrow> bool" where
  "bitmask_full bm \<longleftrightarrow> NOT (bm_mask bm ! 0) = 0"

definition bitmask_empty :: "bitmask \<Rightarrow> bool" where
  "bitmask_empty bm \<longleftrightarrow> bm_mask bm ! 0 = 0"

declare last_level.simps [simp del] propagate.simps [simp del] trailing_ones.simps [simp del] descend.simps [simp del]

subsection \<open>Bits\<close>

definition gbit :: "64 word list \<Rightarrow> nat \<Rightarrow> bool" where
  "gbit m b = bit (m ! (b div BPN)) (b mod BPN)"

definition set_gbit :: "64 word list \<Rightarrow> nat \<Rightarrow> bool \<Rightarrow> 64 word list" where
  "set_gbit m b val = m[b div BPN := if val then m ! (b div BPN) OR push_bit (b mod BPN) 1
     else m ! (b div BPN) AND NOT (push_bit (b mod BPN) 1)]"

lemma full_word: "w = - 1 \<longleftrightarrow> (\<forall>j<64. bit w j)" for w :: "64 word"
proof
  assume "\<forall>j<64. bit w j"
  then show "w = - 1" by (intro bit_word_eqI) simp
qed simp

lemma not_zero: "NOT w = 0 \<longleftrightarrow> w = - 1" for w :: "64 word"
proof
  assume "NOT w = 0"
  then have "NOT (NOT w) = NOT 0" by simp
  then show "w = - 1" by simp
qed simp

lemma full_gbit: "m ! w = - 1 \<longleftrightarrow> (\<forall>j<64. gbit m (w * 64 + j))"
  by (simp add: full_word gbit_def)

lemma length_set_gbit [simp]: "length (set_gbit m b v) = length m"
  by (simp add: set_gbit_def)

lemma gbit_set [simp]:
  assumes "b div BPN < length m"
  shows "gbit (set_gbit m b v) x = (if x = b then v else gbit m x)"
proof (cases "x div BPN = b div BPN")
  case True
  then have "x = b \<longleftrightarrow> x mod BPN = b mod BPN" by (metis div_mult_mod_eq)
  then show ?thesis using True assms
    by (auto simp: gbit_def set_gbit_def bit_simps)
next
  case False
  then show ?thesis by (auto simp: gbit_def set_gbit_def)
qed

lemma set_gbit_other: "w \<noteq> b div BPN \<Longrightarrow> set_gbit m b v ! w = m ! w"
  by (simp add: set_gbit_def)

lemma propagate_eq:
  "propagate m node =
     (if node = 0 \<or> (m ! node = - 1) = gbit m (node - 1) then m
      else propagate (set_gbit m (node - 1) (m ! node = - 1)) ((node - 1) div BPN))"
  by (subst propagate.simps) (simp add: Let_def gbit_def set_gbit_def not_zero)

lemma bitmask_set_eq:
  "bitmask_set bm i v =
     (if bit_offset bm i div BPN \<ge> length (bm_mask bm) then Undef
      else Ok (bm\<lparr>bm_mask := propagate (set_gbit (bm_mask bm) (bit_offset bm i) v) (bit_offset bm i div BPN)\<rparr>))"
  by (simp add: bitmask_set_def set_gbit_def Let_def)

text \<open>The words agree with their parents, except possibly word \<open>n\<close>.\<close>

definition linked_but :: "64 word list \<Rightarrow> nat \<Rightarrow> bool" where
  "linked_but m n \<longleftrightarrow> (\<forall>w. 0 < w \<and> w < length m \<and> w \<noteq> n \<longrightarrow> gbit m (w - 1) = (m ! w = - 1))"

lemma propagate_links:
  assumes "linked_but m n" and "n < length m"
  shows "linked_but (propagate m n) 0 \<and> length (propagate m n) = length m
    \<and> (\<forall>b\<ge>length m - 1. gbit (propagate m n) b = gbit m b)"
  using assms
proof (induction n arbitrary: m rule: less_induct)
  case (less n)
  show ?case
  proof (cases "n = 0 \<or> (m ! n = - 1) = gbit m (n - 1)")
    case True
    then have "linked_but m 0" using less.prems(1) by (auto simp: linked_but_def)
    then show ?thesis using True by (subst (1 2 3) propagate_eq) simp
  next
    case False
    let ?p = "(n - 1) div BPN" and ?m = "set_gbit m (n - 1) (m ! n = - 1)"
    have p: "?p < n" "?p < length m" using False less.prems(2) by (auto simp: less_eq_Suc_le le_trans [OF div_le_dividend])
    have "linked_but ?m ?p"
      unfolding linked_but_def
    proof (intro allI impI)
      fix w assume w: "0 < w \<and> w < length ?m \<and> w \<noteq> ?p"
      then have "w - 1 = n - 1 \<longleftrightarrow> w = n" using False by auto
      then show "gbit ?m (w - 1) = (?m ! w = - 1)"
        using w less.prems(1) p(2) by (simp add: linked_but_def set_gbit_other del: One_nat_def)
    qed
    then have "linked_but (propagate ?m ?p) 0 \<and> length (propagate ?m ?p) = length ?m
      \<and> (\<forall>b\<ge>length ?m - 1. gbit (propagate ?m ?p) b = gbit ?m b)"
      using less.IH [OF p(1)] p(2) by simp
    then show ?thesis
      using False p(2) less.prems(2) by (subst (1 2 3) propagate_eq) auto
  qed
qed

subsection \<open>The tree\<close>

text \<open>
  What \<open>bitmask_new\<close> computes, for a size whose bits do not fill the last word.
\<close>

definition bm_shape :: "bitmask \<Rightarrow> bool" where
  "bm_shape bm \<longleftrightarrow> 2 \<le> bm_size bm \<and> (bm_size bm - 1) mod 63 \<noteq> 0
     \<and> bm_bits bm = bm_size bm + (bm_size bm + 61) div 63 - 1 \<and> bm_nodes bm = (bm_bits bm + 63) div 64
     \<and> bm_last bm = last_level 1 (bm_bits bm) \<and> length (bm_mask bm) = bm_nodes bm"

definition bm_inv :: "bitmask \<Rightarrow> bool" where
  "bm_inv bm \<longleftrightarrow> bm_shape bm \<and> linked_but (bm_mask bm) 0
     \<and> (\<forall>b. bm_bits bm \<le> b \<and> b < 64 * bm_nodes bm \<longrightarrow> gbit (bm_mask bm) b)"

definition bm_used :: "bitmask \<Rightarrow> nat set" where
  "bm_used bm = {i. i < bm_size bm \<and> gbit (bm_mask bm) (bit_offset bm i)}"

lemma bits_and_nodes:
  fixes n bits nodes :: nat
  assumes "2 \<le> n" and "bits = n + (n + 61) div 63 - 1" and "nodes = (bits + 63) div 64"
  shows "bits + 1 = n + nodes" and "0 < nodes" and "bits \<le> 64 * nodes" and "64 * (nodes - 1) < bits"
    and "(n - 1) mod 63 \<noteq> 0 \<Longrightarrow> bits < 64 * nodes"
proof -
  obtain q r where qr: "n - 1 = 63 * q + r" "r < 63" by (metis mod_less_divisor mult_div_mod_eq zero_less_numeral)
  have d: "(n + 61) div 63 = (if r = 0 then q else q + 1)" using qr assms(1) by (intro div_nat_eqI) auto
  have b: "bits = (if r = 0 then 64 * q else 64 * q + r + 1)" using assms(1,2) qr d by (auto split: if_splits)
  have "r = 0 \<Longrightarrow> q \<noteq> 0" using assms(1) qr by auto
  moreover have nd: "nodes = (if r = 0 then q else q + 1)" using qr(2) b by (auto simp: assms(3) intro!: div_nat_eqI)
  ultimately show "bits + 1 = n + nodes" "0 < nodes" "bits \<le> 64 * nodes" "64 * (nodes - 1) < bits"
    using b qr assms(1) by (auto split: if_splits)
  have "(n - 1) mod 63 = r" using qr by simp
  then show "(n - 1) mod 63 \<noteq> 0 \<Longrightarrow> bits < 64 * nodes" using b nd qr(2) by auto
qed

lemma last_level_spec:
  assumes "s + BPN ^ n = BPN * (s + 1)" and "0 < l"
  shows "\<exists>s'. s + l = s' + last_level n l \<and> s + l \<le> BPN * (s' + 1) \<and> 0 < last_level n l"
  using assms
proof (induction n l arbitrary: s rule: last_level.induct)
  case (1 n l)
  show ?case
  proof (cases "l > BPN ^ n")
    case True
    then have "\<exists>s'. (s + BPN ^ n) + (l - BPN ^ n) = s' + last_level (Suc n) (l - BPN ^ n)
      \<and> (s + BPN ^ n) + (l - BPN ^ n) \<le> BPN * (s' + 1) \<and> 0 < last_level (Suc n) (l - BPN ^ n)"
      using 1 by (intro 1) (auto simp: algebra_simps)
    then show ?thesis using True by (simp add: last_level.simps [of n l])
  next
    case False
    then show ?thesis using 1 by (intro exI [of _ s]) (auto simp: last_level.simps [of n l])
  qed
qed

lemma bm_shape_facts:
  assumes "bm_shape bm"
  shows "bm_bits bm + 1 = bm_size bm + bm_nodes bm" and "0 < bm_nodes bm" and "bm_bits bm < 64 * bm_nodes bm"
    and "64 * (bm_nodes bm - 1) < bm_bits bm" and "bm_nodes bm - 1 \<le> bm_bits bm - bm_last bm"
    and "0 < bm_last bm" and "bm_last bm \<le> bm_bits bm" and "length (bm_mask bm) = bm_nodes bm"
proof -
  have a: "2 \<le> bm_size bm" "bm_bits bm = bm_size bm + (bm_size bm + 61) div 63 - 1" "bm_nodes bm = (bm_bits bm + 63) div 64"
    "(bm_size bm - 1) mod 63 \<noteq> 0" "bm_last bm = last_level 1 (bm_bits bm)" "length (bm_mask bm) = bm_nodes bm"
    using assms by (simp_all add: bm_shape_def)
  note n = bits_and_nodes [OF a(1-3)]
  obtain s where s: "bm_bits bm = s + last_level 1 (bm_bits bm)" "bm_bits bm \<le> BPN * (s + 1)" "0 < last_level 1 (bm_bits bm)"
    using last_level_spec [of 0 1 "bm_bits bm"] n(4) by auto
  show "bm_bits bm + 1 = bm_size bm + bm_nodes bm" "0 < bm_nodes bm" "bm_bits bm < 64 * bm_nodes bm"
    "64 * (bm_nodes bm - 1) < bm_bits bm" "0 < bm_last bm" "bm_last bm \<le> bm_bits bm" "length (bm_mask bm) = bm_nodes bm"
    using n a(4-6) s by simp_all
  show "bm_nodes bm - 1 \<le> bm_bits bm - bm_last bm" using s n(4) a(5) by simp
qed

text \<open>The identifiers are the bits without children.\<close>

lemma bit_offset_leaf:
  assumes "bm_shape bm" and "i < bm_size bm"
  shows "bm_nodes bm - 1 \<le> bit_offset bm i" and "bit_offset bm i < bm_bits bm"
  using bm_shape_facts [OF assms(1)] assms(2) by (auto simp: bit_offset_def)

lemma bit_offset_inj:
  assumes "bm_shape bm" and "i < bm_size bm" and "j < bm_size bm" and "bit_offset bm i = bit_offset bm j"
  shows "i = j"
  using bm_shape_facts [OF assms(1)] assms(2-4) by (auto simp: bit_offset_def split: if_splits)

definition leaf_id :: "bitmask \<Rightarrow> nat \<Rightarrow> nat" where
  "leaf_id bm pos = (if pos \<ge> bm_bits bm - bm_last bm then pos + bm_last bm - bm_bits bm
     else pos + bm_last bm + bm_size bm - bm_bits bm)"

lemma bit_offset_leaf_id:
  assumes "bm_shape bm" and "bm_nodes bm - 1 \<le> pos" and "pos < bm_bits bm"
  shows "leaf_id bm pos < bm_size bm" and "bit_offset bm (leaf_id bm pos) = pos"
  using bm_shape_facts [OF assms(1)] assms(2,3) by (auto simp: bit_offset_def leaf_id_def)

lemma bitmask_set_inv:
  assumes "bm_inv bm" and "i < bm_size bm"
  obtains bm' where "bitmask_set bm i v = Ok bm'" and "bm_inv bm'" and "bm_size bm' = bm_size bm"
    and "bm_used bm' = (if v then insert i (bm_used bm) else bm_used bm - {i})"
proof -
  have sh: "bm_shape bm" "linked_but (bm_mask bm) 0"
    and rest: "\<forall>b. bm_bits bm \<le> b \<and> b < 64 * bm_nodes bm \<longrightarrow> gbit (bm_mask bm) b"
    using assms(1) by (simp_all add: bm_inv_def)
  note f = bm_shape_facts [OF sh(1)]
  define ofs0 where "ofs0 = bit_offset bm i"
  define m where "m = propagate (set_gbit (bm_mask bm) ofs0 v) (ofs0 div BPN)"
  have ofs0: "bm_nodes bm - 1 \<le> ofs0" "ofs0 < bm_bits bm" "ofs0 div BPN < length (bm_mask bm)"
    using bit_offset_leaf [OF sh(1) assms(2)] f by (auto simp: ofs0_def less_mult_imp_div_less)
  have "w - 1 \<noteq> ofs0" if "0 < w" "w < bm_nodes bm" for w using that ofs0(1) by simp
  then have "linked_but (set_gbit (bm_mask bm) ofs0 v) (ofs0 div BPN)"
    using sh(2) ofs0(3) f(8) unfolding linked_but_def by (simp add: set_gbit_other del: One_nat_def)
  then have m: "linked_but m 0" "length m = bm_nodes bm"
    "\<forall>b\<ge>bm_nodes bm - 1. gbit m b = (if b = ofs0 then v else gbit (bm_mask bm) b)"
    using propagate_links [of "set_gbit (bm_mask bm) ofs0 v" "ofs0 div BPN"] ofs0(3) f(8) by (simp_all add: m_def)
  let ?bm = "bm\<lparr>bm_mask := m\<rparr>"
  have shape: "bm_shape ?bm" using sh(1) m(2) by (simp add: bm_shape_def)
  have ofs: "bit_offset ?bm j = bit_offset bm j" for j by (simp add: bit_offset_def)
  have "bm_inv ?bm" using shape m f rest ofs0(2) by (auto simp: bm_inv_def)
  moreover have "bm_used ?bm = (if v then insert i (bm_used bm) else bm_used bm - {i})"
  proof -
    have "gbit m (bit_offset bm j) = (if j = i then v else gbit (bm_mask bm) (bit_offset bm j))" if "j < bm_size bm" for j
      using that m(3) bit_offset_leaf(1) [OF sh(1) that] bit_offset_inj [OF sh(1) that assms(2)] by (auto simp: ofs0_def)
    then show ?thesis using assms(2) by (auto simp: bm_used_def ofs split: if_splits)
  qed
  moreover have "bitmask_set bm i v = Ok ?bm" using ofs0(3) by (simp add: bitmask_set_eq ofs0_def m_def)
  ultimately show ?thesis using that by simp
qed

subsection \<open>Allocation\<close>

lemma trailing_ones_bits: "\<not> bit w (trailing_ones w) \<and> (\<forall>j<trailing_ones w. bit w j)"
proof (induction w rule: trailing_ones.induct)
  case (1 w)
  show ?case
  proof (cases "w AND 1 = 0")
    case True
    then show ?thesis by (simp add: trailing_ones.simps [of w] and_one_eq even_iff_mod_2_eq_zero bit_0)
  next
    case False
    have "bit w j" if "j < Suc (trailing_ones (drop_bit 1 w))" for j
      using that 1 False by (cases j) (auto simp: bit_drop_bit_eq bit_0 and_one_eq even_iff_mod_2_eq_zero)
    then show ?thesis using 1 False by (simp add: trailing_ones.simps [of w] bit_drop_bit_eq)
  qed
qed

lemma trailing_ones_spec:
  assumes "w \<noteq> - 1"
  shows "trailing_ones w < 64 \<and> \<not> bit w (trailing_ones w)"
  using assms full_word [of w] trailing_ones_bits [of w] by (metis linorder_not_le order_less_le_trans)

lemma descend_spec:
  assumes "bm_inv bm" and "idx < bm_nodes bm" and "bm_mask bm ! idx \<noteq> - 1"
  shows "descend bm idx < bm_nodes bm \<and> bm_mask bm ! descend bm idx \<noteq> - 1
    \<and> bm_nodes bm \<le> descend bm idx * BPN + 1 + trailing_ones (bm_mask bm ! descend bm idx)"
  using assms
proof (induction bm idx rule: descend.induct)
  case (1 bm idx)
  let ?n = "idx * BPN + 1 + trailing_ones (bm_mask bm ! idx)"
  have t: "trailing_ones (bm_mask bm ! idx) < 64" "\<not> bit (bm_mask bm ! idx) (trailing_ones (bm_mask bm ! idx))"
    using trailing_ones_spec [OF 1(4)] by simp_all
  show ?case
  proof (cases "idx * BPN + 1 < bm_nodes bm \<and> ?n < bm_nodes bm")
    case True
    have "\<not> gbit (bm_mask bm) (?n - 1)" using t by (simp add: gbit_def)
    then have "bm_mask bm ! ?n \<noteq> - 1"
      using 1(2) True bm_shape_facts(8) [of bm] by (auto simp: bm_inv_def linked_but_def)
    then show ?thesis using 1 True by (subst (1 2 3 4) descend.simps) (simp add: Let_def)
  next
    case False
    then have "descend bm idx = idx" by (subst descend.simps) (auto simp: Let_def)
    then show ?thesis using 1 False by auto
  qed
qed

lemma root_full_iff:
  assumes "bm_inv bm"
  shows "bm_mask bm ! 0 = - 1 \<longleftrightarrow> bm_used bm = {..<bm_size bm}"
proof
  have sh: "bm_shape bm" "linked_but (bm_mask bm) 0"
    and rest: "\<forall>b. bm_bits bm \<le> b \<and> b < 64 * bm_nodes bm \<longrightarrow> gbit (bm_mask bm) b"
    using assms(1) by (simp_all add: bm_inv_def)
  note f = bm_shape_facts [OF sh(1)]
  {
    assume root: "bm_mask bm ! 0 = - 1"
    have "bm_mask bm ! w = - 1" if "w < bm_nodes bm" for w
      using that
    proof (induction w rule: less_induct)
      case (less w)
      show ?case
      proof (cases "w = 0")
        case False
        then have "(w - 1) div BPN < w" by (auto simp: less_eq_Suc_le le_trans [OF div_le_dividend])
        then have "gbit (bm_mask bm) (w - 1)" using less by (simp add: gbit_def)
        then show ?thesis using False less.prems sh(2) f(8) by (simp add: linked_but_def)
      qed (simp add: root)
    qed
    then have "gbit (bm_mask bm) b" if "b < bm_bits bm" for b
      using that f(3) by (simp add: gbit_def less_mult_imp_div_less)
    then show "bm_used bm = {..<bm_size bm}" using bit_offset_leaf(2) [OF sh(1)] by (auto simp: bm_used_def)
  }
  assume used: "bm_used bm = {..<bm_size bm}"
  have all: "gbit (bm_mask bm) b" if "b < 64 * bm_nodes bm" for b
    using that
  proof (induction "64 * bm_nodes bm - b" arbitrary: b rule: less_induct)
    case less
    consider "bm_bits bm \<le> b" | "bm_nodes bm - 1 \<le> b" "b < bm_bits bm" | "b + 1 < bm_nodes bm" by linarith
    then show ?case
    proof cases
      case 2
      then have "leaf_id bm b \<in> bm_used bm" using bit_offset_leaf_id(1) [OF sh(1) 2] used by simp
      then show ?thesis using bit_offset_leaf_id(2) [OF sh(1) 2] by (simp add: bm_used_def)
    next
      case 3
      then have "gbit (bm_mask bm) ((b + 1) * 64 + j)" if "j < 64" for j using that by (intro less(1)) auto
      then have "bm_mask bm ! (b + 1) = - 1" by (simp only: full_gbit) simp
      moreover have "gbit (bm_mask bm) (b + 1 - 1) = (bm_mask bm ! (b + 1) = - 1)"
        using sh(2) 3 f(8) unfolding linked_but_def by (metis add_gr_0 not_gr_zero zero_less_one)
      ultimately show ?thesis by simp
    qed (use less.prems rest in auto)
  qed
  show "bm_mask bm ! 0 = - 1" using all f(2) by (simp add: full_gbit)
qed

lemma bitmask_alloc_inv:
  assumes "bm_inv bm" and "bm_used bm \<noteq> {..<bm_size bm}"
  obtains i bm' where "bitmask_alloc bm = Ok (Some i, bm')" and "i < bm_size bm" and "i \<notin> bm_used bm"
    and "bm_inv bm'" and "bm_size bm' = bm_size bm" and "bm_used bm' = insert i (bm_used bm)"
proof -
  have sh: "bm_shape bm" using assms(1) by (simp add: bm_inv_def)
  have root: "bm_mask bm ! 0 \<noteq> - 1" using root_full_iff [OF assms(1)] assms(2) by simp
  define d where "d = descend bm 0"
  define pos where "pos = d * BPN + trailing_ones (bm_mask bm ! d)"
  have d: "d < bm_nodes bm" "bm_mask bm ! d \<noteq> - 1" "bm_nodes bm - 1 \<le> pos"
    using descend_spec [OF assms(1) bm_shape_facts(2) [OF sh] root] by (auto simp: d_def pos_def)
  have t: "trailing_ones (bm_mask bm ! d) < 64" "\<not> bit (bm_mask bm ! d) (trailing_ones (bm_mask bm ! d))"
    using trailing_ones_spec [OF d(2)] by simp_all
  then have free: "\<not> gbit (bm_mask bm) pos" by (simp add: gbit_def pos_def)
  moreover have "pos < 64 * bm_nodes bm" using d(1) t(1) by (simp add: pos_def)
  ultimately have "pos < bm_bits bm" using assms(1) by (auto simp: bm_inv_def not_le [symmetric])
  note leaf = bit_offset_leaf_id [OF sh d(3) this]
  obtain bm' where "bitmask_set bm (leaf_id bm pos) True = Ok bm'" "bm_inv bm'" "bm_size bm' = bm_size bm"
    "bm_used bm' = insert (leaf_id bm pos) (bm_used bm)"
    using bitmask_set_inv [OF assms(1) leaf(1), of True] by auto
  moreover have "leaf_id bm pos \<notin> bm_used bm" using free leaf(2) by (simp add: bm_used_def)
  ultimately show ?thesis
    using that [of "leaf_id bm pos" bm'] leaf(1) root
    by (simp add: bitmask_alloc_def not_zero leaf_id_def Let_def d_def pos_def)
qed

subsection \<open>Creation\<close>

lemma bit_last_word: "bit (last_word bits) j \<longleftrightarrow> bits mod BPN \<le> j \<and> j < BPN"
  by (auto simp: last_word_def bit_simps simp flip: mask_eq_exp_minus_1)

lemma empty_mask_gbit:
  assumes "0 < nodes" and "b < 64 * nodes"
  shows "gbit ((replicate nodes 0)[nodes - 1 := last_word bits]) b \<longleftrightarrow> b div BPN = nodes - 1 \<and> bits mod BPN \<le> b mod BPN"
  using assms less_mult_imp_div_less [of b nodes 64] by (auto simp: gbit_def nth_list_update bit_last_word)

lemma empty_mask_inv:
  assumes "bm_shape bm" and "bm_mask bm = (replicate (bm_nodes bm) 0)[bm_nodes bm - 1 := last_word (bm_bits bm)]"
  shows "bm_inv bm" and "bm_used bm = {}"
proof -
  note f = bm_shape_facts [OF assms(1)]
  have d: "bm_bits bm div BPN = bm_nodes bm - 1" using f(2-4) by (intro div_nat_eqI) auto
  have r: "bm_bits bm mod BPN \<noteq> 0" using f(3,4) d by (metis div_mult_mod_eq add_0_right mult.commute nat_less_le)
  have g: "gbit (bm_mask bm) b \<longleftrightarrow> bm_bits bm \<le> b" if "b < 64 * bm_nodes bm" for b
  proof -
    have "b div BPN \<le> bm_nodes bm - 1" using that f(2) by (simp add: less_mult_imp_div_less Suc_le_eq less_eq_nat.simps)
    then show ?thesis
      using empty_mask_gbit [OF f(2) that] d assms(2) div_mult_mod_eq [of b BPN] div_mult_mod_eq [of "bm_bits bm" BPN]
      by (smt (verit) add_le_cancel_left div_le_mono order_antisym_conv linorder_le_cases add_leD1 nat_add_left_cancel_le)
  qed
  have "linked_but (bm_mask bm) 0"
    unfolding linked_but_def
  proof (intro allI impI)
    fix w assume w: "0 < w \<and> w < length (bm_mask bm) \<and> w \<noteq> 0"
    then have "w - 1 < bm_bits bm" "w - 1 < 64 * bm_nodes bm" using f(4,8) by linarith+
    then have "\<not> gbit (bm_mask bm) (w - 1)" using g [of "w - 1"] by auto
    moreover have "\<not> gbit (bm_mask bm) (w * 64)" using g [of "w * 64"] w f(3,4,8) r by auto
    then have "bm_mask bm ! w \<noteq> - 1" using full_gbit [of "bm_mask bm" w] by (metis add_0_right zero_less_numeral)
    ultimately show "gbit (bm_mask bm) (w - 1) = (bm_mask bm ! w = - 1)" by simp
  qed
  then show "bm_inv bm" using assms(1) g by (simp add: bm_inv_def)
  show "bm_used bm = {}" using g bit_offset_leaf(2) [OF assms(1)] f(3) by (fastforce simp: bm_used_def)
qed

lemma bitmask_new_inv:
  assumes "2 \<le> sz" and "(sz - 1) mod 63 \<noteq> 0"
  obtains bm where "bitmask_new True sz = Ok bm" and "bm_inv bm" and "bm_used bm = {}" and "bm_size bm = sz"
proof -
  define bits where "bits = sz + (sz + 61) div 63 - 1"
  define nodes where "nodes = (bits + 63) div 64"
  have n: "0 < nodes" using bits_and_nodes(2) [OF assms(1) bits_def nodes_def] .
  let ?bm = "\<lparr>bm_size = sz, bm_bits = bits, bm_nodes = nodes, bm_last = last_level 1 bits,
    bm_mask = (replicate nodes 0)[nodes - 1 := last_word bits]\<rparr>"
  have "bm_shape ?bm" using assms by (simp add: bm_shape_def bits_def nodes_def)
  then have "bm_inv ?bm" "bm_used ?bm = {}" by (simp_all add: empty_mask_inv)
  moreover have "bitmask_new True sz = Ok ?bm"
    using assms(1) n by (simp add: bitmask_new_def Let_def bits_def nodes_def add.commute)
  ultimately show ?thesis using that by simp
qed

lemma bitmask_clear_inv:
  assumes "bm_inv bm"
  shows "bm_inv (bitmask_clear bm)" and "bm_used (bitmask_clear bm) = {}" and "bm_size (bitmask_clear bm) = bm_size bm"
proof -
  have "bm_shape (bitmask_clear bm)" using assms by (simp add: bm_inv_def bm_shape_def bitmask_clear_def)
  then show "bm_inv (bitmask_clear bm)" "bm_used (bitmask_clear bm) = {}"
    by (rule empty_mask_inv, simp add: bitmask_clear_def)+
qed (simp add: bitmask_clear_def)

subsection \<open>The contract\<close>

text \<open>What a client may rely on: an allocator of the numbers below its size, seen as the set of those in use.\<close>

locale id_allocator =
  fixes alloc :: "'b \<Rightarrow> (nat option \<times> 'b) result"
    and dealloc :: "'b \<Rightarrow> nat \<Rightarrow> 'b result"
    and full :: "'b \<Rightarrow> bool"
    and inv :: "'b \<Rightarrow> bool"
    and used :: "'b \<Rightarrow> nat set"
    and total :: "'b \<Rightarrow> nat"
  assumes used_bound: "inv b \<Longrightarrow> used b \<subseteq> {..<total b}"
    and full_iff: "inv b \<Longrightarrow> full b \<longleftrightarrow> used b = {..<total b}"
    and alloc_full: "inv b \<Longrightarrow> full b \<Longrightarrow> alloc b = Ok (None, b)"
    and alloc_fresh: "inv b \<Longrightarrow> \<not> full b \<Longrightarrow> \<exists>i b'. alloc b = Ok (Some i, b') \<and> i < total b \<and> i \<notin> used b
      \<and> inv b' \<and> total b' = total b \<and> used b' = insert i (used b)"
    and dealloc_used: "inv b \<Longrightarrow> i \<in> used b \<Longrightarrow> \<exists>b'. dealloc b i = Ok b' \<and> inv b' \<and> total b' = total b
      \<and> used b' = used b - {i}"
begin

lemma finite_used: "inv b \<Longrightarrow> finite (used b)"
  using used_bound finite_subset by blast

lemma card_used: "inv b \<Longrightarrow> card (used b) \<le> total b"
  using used_bound card_mono [of "{..<total b}"] by fastforce

lemma alloc_cases:
  assumes "inv b"
  obtains (full) "full b" "used b = {..<total b}" "alloc b = Ok (None, b)"
  | (fresh) i b' where "\<not> full b" "alloc b = Ok (Some i, b')" "i < total b" "i \<notin> used b" "inv b'" "total b' = total b"
      "used b' = insert i (used b)"
  using alloc_full [OF assms] alloc_fresh [OF assms] full_iff [OF assms] by (cases "full b") auto

lemma alloc_Some:
  assumes "inv b" and "alloc b = Ok (Some i, b')"
  shows "i < total b" "i \<notin> used b" "inv b'" "total b' = total b" "used b' = insert i (used b)"
  using alloc_cases [OF assms(1)] assms(2) by auto

lemma dealloc_Ok:
  assumes "inv b" and "i \<in> used b" and "dealloc b i = Ok b'"
  shows "inv b'" "total b' = total b" "used b' = used b - {i}"
  using dealloc_used [OF assms(1,2)] assms(3) by auto

lemma room_not_full: "inv b \<Longrightarrow> card (used b) < total b \<Longrightarrow> \<not> full b"
  using full_iff by fastforce

end

interpretation bm: id_allocator bitmask_alloc bitmask_dealloc bitmask_full bm_inv bm_used bm_size
proof
  fix b i
  assume inv: "bm_inv b"
  show "bm_used b \<subseteq> {..<bm_size b}" by (auto simp: bm_used_def)
  show full: "bitmask_full b \<longleftrightarrow> bm_used b = {..<bm_size b}" using root_full_iff [OF inv] by (simp add: bitmask_full_def not_zero)
  show "bitmask_full b \<Longrightarrow> bitmask_alloc b = Ok (None, b)" by (simp add: bitmask_full_def bitmask_alloc_def)
  show "\<not> bitmask_full b \<Longrightarrow> \<exists>i b'. bitmask_alloc b = Ok (Some i, b') \<and> i < bm_size b \<and> i \<notin> bm_used b
      \<and> bm_inv b' \<and> bm_size b' = bm_size b \<and> bm_used b' = insert i (bm_used b)"
    using bitmask_alloc_inv [OF inv] full by metis
  assume "i \<in> bm_used b"
  then have "i < bm_size b" by (simp add: bm_used_def)
  then show "\<exists>b'. bitmask_dealloc b i = Ok b' \<and> bm_inv b' \<and> bm_size b' = bm_size b \<and> bm_used b' = bm_used b - {i}"
    using bitmask_set_inv [OF inv, of i False] by (metis bitmask_dealloc_def)
qed

text \<open>The histories of a bitmask, with the identifiers that were handed out and not given back.\<close>

inductive bm_run :: "nat \<Rightarrow> bitmask \<Rightarrow> nat set \<Rightarrow> bool" where
  new: "bitmask_new True sz = Ok bm \<Longrightarrow> bm_run sz bm {}"
| alloc: "bm_run sz bm held \<Longrightarrow> bitmask_alloc bm = Ok (Some i, bm') \<Longrightarrow> bm_run sz bm' (insert i held)"
| dealloc: "bm_run sz bm held \<Longrightarrow> i \<in> held \<Longrightarrow> bitmask_dealloc bm i = Ok bm' \<Longrightarrow> bm_run sz bm' (held - {i})"
| clear: "bm_run sz bm held \<Longrightarrow> bm_run sz (bitmask_clear bm) {}"

lemma bm_run_inv:
  assumes "bm_run sz bm held" and "2 \<le> sz" and "(sz - 1) mod 63 \<noteq> 0"
  shows "bm_inv bm \<and> bm_used bm = held \<and> bm_size bm = sz"
  using assms
proof (induction rule: bm_run.induct)
  case (new sz bm)
  then show ?case using bitmask_new_inv [of sz] by (metis result.inject)
next
  case (alloc sz bm held i bm')
  then show ?case using bm.alloc_Some [of bm i bm'] by simp
next
  case (dealloc sz bm held i bm')
  then show ?case using bm.dealloc_Ok [of bm i bm'] by simp
next
  case (clear sz bm held)
  then show ?case using bitmask_clear_inv [of bm] by simp
qed

text \<open>C21: a bitmask hands out each identifier once. After any history of allocations and deallocations the
  next allocation gives an identifier below the size that is not in use, unless all of them are in use,
  which \<open>bitmask_full\<close> reports; no access is outside the words. This holds for every size from 2 on whose
  bits do not fill the last word.\<close>

theorem bitmask_ids_unique:
  assumes "2 \<le> sz" and "(sz - 1) mod 63 \<noteq> 0" and "bm_run sz bm held"
  shows "held \<subseteq> {..<sz} \<and> (bitmask_full bm \<longleftrightarrow> held = {..<sz})
    \<and> (if held = {..<sz} then bitmask_alloc bm = Ok (None, bm)
       else \<exists>i bm'. bitmask_alloc bm = Ok (Some i, bm') \<and> i < sz \<and> i \<notin> held)
    \<and> (\<forall>i\<in>held. \<exists>bm'. bitmask_dealloc bm i = Ok bm')"
proof -
  have i: "bm_inv bm" "bm_used bm = held" "bm_size bm = sz" using bm_run_inv [OF assms(3,1,2)] by simp_all
  show ?thesis
    using bm.used_bound [OF i(1)] bm.full_iff [OF i(1)] bm.alloc_full [OF i(1)] bm.alloc_fresh [OF i(1)] bm.dealloc_used [OF i(1)] i
    by (auto; metis)
qed

theorem bitmask_ids_unique_witness:
  "\<exists>bm. bm_run 1000 bm {} \<and> \<not> bitmask_full bm \<and> (\<exists>i bm'. bitmask_alloc bm = Ok (Some i, bm') \<and> i < 1000)"
proof -
  obtain bm where "bitmask_new True 1000 = Ok bm" using bitmask_new_inv [of 1000] by auto
  then have "bm_run 1000 bm {}" by (rule bm_run.new)
  moreover have "{..<1000::nat} \<noteq> {}" using lessThan_iff [of 0 "1000::nat"] by fastforce
  ultimately show ?thesis using bitmask_ids_unique [of 1000 bm "{}"] by auto
qed

subsection \<open>Sizes that fill the last word\<close>

lemma trailing_ones_full: "trailing_ones (- 1) = 64"
proof -
  have "\<not> trailing_ones (- 1) < 64" using trailing_ones_bits [of "- 1"] by auto
  moreover have "bit (- 1 :: 64 word) 64" if "64 < trailing_ones (- 1)" using that trailing_ones_bits [of "- 1"] by blast
  then have "\<not> 64 < trailing_ones (- 1)" by auto
  ultimately show ?thesis by simp
qed

text \<open>For the sizes \<open>63 * q + 1\<close> the bits fill the last word, which is then marked as used from the start.
  A bitmask of size 64 is full when it is created; one of size 127 hands out the identifier 64 again and
  again; for the size 1 the creation writes before the words.\<close>

theorem bitmask_full_last_word:
  "(\<exists>bm. bitmask_new True 64 = Ok bm \<and> bitmask_full bm)
   \<and> (\<exists>bm bm1 bm2. bitmask_new True 127 = Ok bm \<and> bitmask_alloc bm = Ok (Some 64, bm1) \<and> bitmask_alloc bm1 = Ok (Some 64, bm2))
   \<and> bitmask_new True 1 = Undef"
proof (intro conjI)
  have one: "last_word (64 * q) = - 1" for q by (simp add: last_word_def)
  show "\<exists>bm. bitmask_new True 64 = Ok bm \<and> bitmask_full bm"
    using one [of 1] by (simp add: bitmask_new_def bitmask_full_def Let_def)
  show "bitmask_new True 1 = Undef" by (simp add: bitmask_new_def Let_def)
  let ?bm = "\<lambda>w. \<lparr>bm_size = 127, bm_bits = 128, bm_nodes = 2, bm_last = 64, bm_mask = [w, - 1]\<rparr>"
  have "last_level 1 128 = 64" by (simp add: last_level.simps)
  then have new: "bitmask_new True 127 = Ok (?bm 0)"
    using one [of 2] by (simp add: bitmask_new_def Let_def numeral_2_eq_2)
  have t: "trailing_ones 0 = 0" "trailing_ones 2 = 0" by (simp_all add: trailing_ones.simps)
  have step: "bitmask_alloc (?bm w) = Ok (Some 64, ?bm (w OR 2))" if "trailing_ones w = 0" "w \<noteq> - 1" for w
  proof -
    have "descend (?bm w) 0 = 1" using that(1) by (simp add: descend.simps)
    then show ?thesis
      using that(2) by (simp add: bitmask_alloc_def Let_def not_zero trailing_ones_full bitmask_set_def bit_offset_def propagate.simps)
  qed
  show "\<exists>bm bm1 bm2. bitmask_new True 127 = Ok bm \<and> bitmask_alloc bm = Ok (Some 64, bm1) \<and> bitmask_alloc bm1 = Ok (Some 64, bm2)"
    using new step [of 0] step [of 2] t by simp
qed

end
