(* ===== verification/TcpPool.thy ===== *)
theory TcpPool
  imports Bitmask EQueue
begin

unbundle bit_operations_syntax

text \<open>
  The connection pool of the TCP module, \<^verbatim>\<open>src/module/tcp/pool.c\<close>. All connections are in one array: first
  the inactive ones, a heap by the time of their last use, then the active ones, which a servlet works
  on, then the ones that wait for a servlet. An index array leads from the identifier of a connection to
  its position. Positions and sizes are naturals; the capacity is assumed to be at most \<open>2 ^ 31\<close>, so that
  the children of a position do not wrap. Times are integers. What the operating system answers is an
  argument; the memory that \<^verbatim>\<open>malloc\<close> gives holds arbitrary values.
\<close>

subsection \<open>Data\<close>

datatype qm_type = QM_DEACTIVATE | QM_CLOSE | QM_CHECKIN | QM_INVALID

record queue_message =
  qm_kind :: qm_type
  qm_id :: nat
  qm_data :: "nat option"

record conn_node =
  cn_data :: "nat option"
  cn_id :: nat
  cn_fd :: int
  cn_ts :: int

record pool_conf =
  cf_size :: "32 word"
  cf_ttl :: int
  cf_min_timeout :: int
  cf_retry :: int
  cf_dispose :: bool

text \<open>The calls of the operating system and of the owner of the data that the pool makes, in order.\<close>

datatype pool_effect = Closed int | Disposed nat | PollAdd int nat | PollDel int

record pool =
  tp_bitmask :: "bitmask option"
  tp_index :: "nat list"
  tp_conn :: "conn_node list"
  tp_queue :: "queue_message list"
  tp_q_mask :: "32 word"
  tp_q_front :: "32 word"
  tp_q_rear :: "32 word"
  heap_limit :: nat
  active_limit :: nat
  wait_limit :: nat
  tp_conf :: pool_conf
  tp_listening :: bool
  tp_forks :: nat
  tp_killed :: bool
  tp_unaccepted :: bool
  tp_log :: "pool_effect list"

text \<open>\<open>ans\<close> has the answer to each of these calls, which may depend on when it is made.\<close>

type_synonym answers = "pool_effect \<Rightarrow> nat \<Rightarrow> bool"

definition perform :: "answers \<Rightarrow> pool_effect \<Rightarrow> pool \<Rightarrow> bool \<times> pool" where
  "perform ans e p = (ans e (length (tp_log p)), p\<lparr>tp_log := tp_log p @ [e]\<rparr>)"

definition conn_at :: "pool \<Rightarrow> nat \<Rightarrow> conn_node result" where
  "conn_at p i = (if i < length (tp_conn p) then Ok (tp_conn p ! i) else Undef)"

definition index_at :: "pool \<Rightarrow> nat \<Rightarrow> nat result" where
  "index_at p i = (if i < length (tp_index p) then Ok (tp_index p ! i) else Undef)"

subsection \<open>Creation and disposal\<close>

definition release_connection_object :: "answers \<Rightarrow> pool \<Rightarrow> nat \<Rightarrow> (bool \<times> pool) result" where
  "release_connection_object ans p idx = rbind (conn_at p idx) (\<lambda>n.
     let (ok1, p1) = perform ans (Closed (cn_fd n)) p in
     case cn_data n of None \<Rightarrow> Ok (ok1, p1)
     | Some d \<Rightarrow>
         if \<not> cf_dispose (tp_conf p1) then Ok (False, p1)
         else let (ok2, p2) = perform ans (Disposed d) p1 in Ok (ok1 \<and> ok2, p2))"

text \<open>
  \<open>mem\<close>: 0 the bitmask, 1 the index, 2 the connections, 3 the queue, 4 the mutex. \<open>junk\<close> is what the
  memory holds.
\<close>

definition init_conn_info :: "alloc \<Rightarrow> (nat \<Rightarrow> nat) \<times> (nat \<Rightarrow> conn_node) \<times> (nat \<Rightarrow> queue_message) \<Rightarrow> 32 word
    \<Rightarrow> pool \<Rightarrow> (int \<times> pool) result" where
  "init_conn_info mem junk capacity p =
     (let (ji, jc, jq) = junk; n = unat capacity; q_size = queue_size capacity in
      if tp_bitmask p \<noteq> None \<or> tp_index p \<noteq> [] \<or> tp_conn p \<noteq> [] then Ok (-1, p)
      else (case bitmask_new (mem 0) n of
          Error \<Rightarrow> Ok (-1, p) | Undef \<Rightarrow> Undef
        | Ok bm \<Rightarrow>
            let p = p\<lparr>tp_bitmask := Some bm\<rparr> in
            if \<not> mem 1 then Ok (-1, p)
            else let p = p\<lparr>tp_index := map ji [0..<n]\<rparr> in
              if \<not> mem 2 then Ok (-1, p)
              else let p = p\<lparr>tp_conn := map jc [0..<n]\<rparr> in
                if \<not> mem 3 then Ok (-1, p)
                else let p = p\<lparr>tp_queue := map jq [0..<unat q_size], tp_q_mask := q_size - 1\<rparr> in
                  if \<not> mem 4 then Ok (-1, p)
                  else Ok (0, p\<lparr>heap_limit := 0, active_limit := 0, wait_limit := 0\<rparr>)))"

fun release_all :: "answers \<Rightarrow> nat list \<Rightarrow> pool \<Rightarrow> pool result" where
  "release_all ans [] p = Ok p"
| "release_all ans (i # is) p = rbind (release_connection_object ans p i) (\<lambda>(ok, p). release_all ans is p)"

definition finalize_conn_info :: "answers \<Rightarrow> pool \<Rightarrow> pool result" where
  "finalize_conn_info ans p = rmap (\<lambda>p. p\<lparr>tp_conn := [], tp_bitmask := None, tp_index := [], tp_queue := []\<rparr>)
     (release_all ans [0..<wait_limit p] p)"

text \<open>\<open>mem\<close>: 0 the object, 1 and 2 the mutex and the condition variable of a master, 3 the poll object, 4 the user event.\<close>

definition blank_pool :: pool where
  "blank_pool = \<lparr>tp_bitmask = None, tp_index = [], tp_conn = [], tp_queue = [], tp_q_mask = 0, tp_q_front = 0, tp_q_rear = 0,
     heap_limit = 0, active_limit = 0, wait_limit = 0,
     tp_conf = \<lparr>cf_size = 0, cf_ttl = 0, cf_min_timeout = 0, cf_retry = 0, cf_dispose = False\<rparr>,
     tp_listening = False, tp_forks = 0, tp_killed = False, tp_unaccepted = False, tp_log = []\<rparr>"

definition pool_new :: "alloc \<Rightarrow> bool \<Rightarrow> pool option" where
  "pool_new mem master =
     (if \<not> mem 0 \<or> (master \<and> (\<not> mem 1 \<or> \<not> mem 2)) \<or> \<not> mem 3 \<or> \<not> mem 4 then None else Some blank_pool)"

definition module_tcp_pool_new :: "alloc \<Rightarrow> pool option" where
  "module_tcp_pool_new mem = pool_new mem True"

text \<open>The result is the master with its counter and the fork; the new pool is not checked for NULL.\<close>

definition module_tcp_pool_fork :: "alloc \<Rightarrow> pool option \<Rightarrow> (pool \<times> pool) result" where
  "module_tcp_pool_fork mem master = (case master of None \<Rightarrow> Error
     | Some m \<Rightarrow> (case pool_new mem False of None \<Rightarrow> Undef | Some p \<Rightarrow> Ok (m\<lparr>tp_forks := tp_forks m + 1\<rparr>, p)))"

definition module_tcp_pool_num_forks :: "pool option \<Rightarrow> nat option" where
  "module_tcp_pool_num_forks p = map_option tp_forks p"

text \<open>\<open>freed\<close>: the poll object and, of a master, the mutex and the condition variable could be destroyed.\<close>

definition module_tcp_pool_free :: "answers \<Rightarrow> bool \<Rightarrow> bool \<Rightarrow> pool option \<Rightarrow> (int \<times> pool) result" where
  "module_tcp_pool_free ans master freed p = (case p of None \<Rightarrow> Error
     | Some p \<Rightarrow> rmap (\<lambda>p. (if freed then 0 else -1, if master then p\<lparr>tp_listening := False\<rparr> else p)) (finalize_conn_info ans p))"

text \<open>
  \<open>sock\<close> says that the socket could be opened and added to the poll object; for a fork, \<open>master\<close> is the
  master once it is ready.
\<close>

definition module_tcp_pool_configure :: "answers \<Rightarrow> alloc \<Rightarrow> (nat \<Rightarrow> nat) \<times> (nat \<Rightarrow> conn_node) \<times> (nat \<Rightarrow> queue_message)
    \<Rightarrow> bool \<Rightarrow> pool option \<Rightarrow> pool_conf option \<Rightarrow> pool \<Rightarrow> (int \<times> pool) result" where
  "module_tcp_pool_configure ans mem junk sock master conf p =
     (if conf = None \<and> master = None then Ok (-1, p)
      else let p = p\<lparr>tp_killed := False\<rparr> in
        if tp_bitmask p \<noteq> None then Ok (-1, p)
        else (case conf of None \<Rightarrow> Ok (-1, p)
          | Some cf \<Rightarrow>
              let p = p\<lparr>tp_conf := (case master of None \<Rightarrow> cf | Some m \<Rightarrow> tp_conf m)\<rparr> in
              if \<not> sock then rmap (\<lambda>p. (-1, p)) (finalize_conn_info ans p)
              else let p = p\<lparr>tp_listening := True\<rparr> in
                rbind (init_conn_info mem junk (cf_size (tp_conf p)) p) (\<lambda>(rc, p).
                if rc = -1 then rmap (\<lambda>p. (-1, p)) (finalize_conn_info ans p) else Ok (0, p))))"

subsection \<open>The array\<close>

definition swap_conn :: "pool \<Rightarrow> nat \<Rightarrow> nat \<Rightarrow> pool result" where
  "swap_conn p a b =
     (if a < length (tp_conn p) \<and> b < length (tp_conn p)
      then let c = (tp_conn p)[a := tp_conn p ! b, b := tp_conn p ! a] in
        if cn_id (c ! a) < length (tp_index p) \<and> cn_id (c ! b) < length (tp_index p)
        then Ok (p\<lparr>tp_conn := c, tp_index := (tp_index p)[cn_id (c ! a) := a, cn_id (c ! b) := b]\<rparr>)
        else Undef
      else Undef)"

definition ts_less :: "pool \<Rightarrow> nat \<Rightarrow> nat \<Rightarrow> bool result" where
  "ts_less p a b = rbind (conn_at p a) (\<lambda>x. rmap (\<lambda>y. cn_ts x < cn_ts y) (conn_at p b))"

text \<open>The oldest of a position and its two children in the heap.\<close>

definition min_child :: "pool \<Rightarrow> nat \<Rightarrow> nat result" where
  "min_child p idx =
     rbind (if idx * 2 + 1 < heap_limit p then ts_less p (idx * 2 + 1) idx else Ok False) (\<lambda>l.
     let m = (if l then idx * 2 + 1 else idx) in
     rmap (\<lambda>r. if r then idx * 2 + 2 else m) (if idx * 2 + 2 < heap_limit p then ts_less p (idx * 2 + 2) m else Ok False))"

lemma min_child_less: "min_child p idx = Ok m \<Longrightarrow> m \<noteq> idx \<Longrightarrow> idx < m \<and> m < heap_limit p"
  by (auto simp: min_child_def result_simps Let_def split: if_splits)

lemma swap_conn_Ok:
  assumes "swap_conn p a b = Ok p'"
  shows "\<exists>c i. p' = p\<lparr>tp_conn := c, tp_index := i\<rparr> \<and> length c = length (tp_conn p) \<and> length i = length (tp_index p)"
proof -
  let ?c = "(tp_conn p)[a := tp_conn p ! b, b := tp_conn p ! a]"
  have "p' = p\<lparr>tp_conn := ?c, tp_index := (tp_index p)[cn_id (?c ! a) := a, cn_id (?c ! b) := b]\<rparr>"
    using assms unfolding swap_conn_def Let_def by (metis result.distinct(3) result.inject)
  then show ?thesis by (metis length_list_update)
qed

function heapify :: "pool \<Rightarrow> nat \<Rightarrow> pool result" where
  "heapify p idx =
     (if idx < heap_limit p
      then (case min_child p idx of
          Ok m \<Rightarrow> if m = idx then Ok p
                  else (case swap_conn p idx m of Ok p1 \<Rightarrow> heapify p1 m | Error \<Rightarrow> Error | Undef \<Rightarrow> Undef)
        | Error \<Rightarrow> Error | Undef \<Rightarrow> Undef)
      else Ok p)"
  by pat_completeness auto

termination
  by (relation "measure (\<lambda>(p, idx). heap_limit p - idx)") (auto dest!: min_child_less swap_conn_Ok)

function decrease :: "pool \<Rightarrow> nat \<Rightarrow> pool result" where
  "decrease p idx =
     (if idx > 0
      then (case ts_less p idx ((idx - 1) div 2) of
          Ok True \<Rightarrow> (case swap_conn p idx ((idx - 1) div 2) of Ok p1 \<Rightarrow> decrease p1 ((idx - 1) div 2) | Error \<Rightarrow> Error | Undef \<Rightarrow> Undef)
        | Ok False \<Rightarrow> Ok p | Error \<Rightarrow> Error | Undef \<Rightarrow> Undef)
      else Ok p)"
  by pat_completeness auto

termination
  by (relation "measure snd") (auto simp: less_eq_Suc_le le_trans [OF div_le_dividend])

declare heapify.simps [simp del] decrease.simps [simp del]

subsection \<open>The states of a connection\<close>

definition set_conn :: "pool \<Rightarrow> nat \<Rightarrow> conn_node \<Rightarrow> pool" where
  "set_conn p i n = p\<lparr>tp_conn := (tp_conn p)[i := n]\<rparr>"

definition get_bitmask :: "pool \<Rightarrow> bitmask result" where
  "get_bitmask p = (case tp_bitmask p of None \<Rightarrow> Undef | Some bm \<Rightarrow> Ok bm)"

text \<open>The last connection of a segment takes the place of the one that is closed.\<close>

definition fill_hole :: "pool \<Rightarrow> nat \<Rightarrow> nat \<Rightarrow> pool result" where
  "fill_hole p idx l =
     (if idx \<ge> length (tp_conn p) \<or> l \<ge> length (tp_conn p) then Undef
      else let n = tp_conn p ! l in
        if l > idx
        then (if cn_id n < length (tp_index p)
              then Ok (p\<lparr>tp_conn := (tp_conn p)[idx := n], tp_index := (tp_index p)[cn_id n := idx]\<rparr>) else Undef)
        else Ok (p\<lparr>tp_conn := (tp_conn p)[idx := n]\<rparr>))"

definition close_heap :: "pool \<Rightarrow> nat \<Rightarrow> (nat \<times> pool) result" where
  "close_heap p idx =
     (if idx < heap_limit p
      then rbind (fill_hole (p\<lparr>heap_limit := heap_limit p - 1\<rparr>) idx (heap_limit p - 1)) (\<lambda>p.
           rmap (\<lambda>p. (heap_limit p, p)) (heapify p idx))
      else Ok (idx, p))"

definition close_active :: "pool \<Rightarrow> nat \<Rightarrow> (nat \<times> pool) result" where
  "close_active p idx =
     (if idx < active_limit p
      then rmap (\<lambda>p. (active_limit p, p)) (fill_hole (p\<lparr>active_limit := active_limit p - 1\<rparr>) idx (active_limit p - 1))
      else Ok (idx, p))"

definition close_wait :: "pool \<Rightarrow> nat \<Rightarrow> pool result" where
  "close_wait p idx =
     (if idx < wait_limit p then fill_hole (p\<lparr>wait_limit := wait_limit p - 1\<rparr>) idx (wait_limit p - 1) else Ok p)"

definition remove_conn :: "pool \<Rightarrow> nat \<Rightarrow> pool result" where
  "remove_conn p idx =
     rbind (close_heap p idx) (\<lambda>(idx, p). rbind (close_active p idx) (\<lambda>(idx, p). close_wait p idx))"

definition connection_close :: "answers \<Rightarrow> pool \<Rightarrow> nat \<Rightarrow> pool result" where
  "connection_close ans p idx =
     rbind (release_connection_object ans p idx) (\<lambda>(ok, p).
     rbind (conn_at p idx) (\<lambda>n.
     rbind (get_bitmask p) (\<lambda>bm.
     rbind (bitmask_dealloc bm (cn_id n)) (\<lambda>bm. remove_conn (p\<lparr>tp_bitmask := Some bm\<rparr>) idx))))"

definition connection_activate :: "answers \<Rightarrow> pool \<Rightarrow> nat \<Rightarrow> (int \<times> pool) result" where
  "connection_activate ans p idx =
     (if idx \<ge> heap_limit p then Ok (-1, p)
      else rbind (conn_at p idx) (\<lambda>n.
        let (ok, p) = perform ans (PollDel (cn_fd n)) p in
        if \<not> ok then Ok (-1, p)
        else let h = heap_limit p - 1 in
          rbind (swap_conn (p\<lparr>heap_limit := h\<rparr>) idx h) (\<lambda>p.
          rbind (heapify p idx) (\<lambda>p.
          let a = active_limit p - 1 in
          rmap (\<lambda>p. (0, p)) (swap_conn (p\<lparr>active_limit := a\<rparr>) (heap_limit p) a)))))"

definition connection_checkout :: "pool \<Rightarrow> nat \<Rightarrow> (int \<times> pool) result" where
  "connection_checkout p idx =
     (if idx < active_limit p \<or> idx \<ge> wait_limit p then Ok (-1, p)
      else rmap (\<lambda>p. (0, p)) (swap_conn (p\<lparr>active_limit := active_limit p + 1\<rparr>) idx (active_limit p)))"

definition connection_checkin :: "pool \<Rightarrow> nat \<Rightarrow> (int \<times> pool) result" where
  "connection_checkin p idx =
     (if idx < heap_limit p \<or> idx \<ge> active_limit p then Ok (-1, p)
      else rmap (\<lambda>p. (0, p)) (swap_conn (p\<lparr>active_limit := active_limit p - 1\<rparr>) idx (active_limit p - 1)))"

definition connection_deactivate :: "answers \<Rightarrow> pool \<Rightarrow> nat \<Rightarrow> int \<Rightarrow> (int \<times> pool) result" where
  "connection_deactivate ans p idx now =
     (if idx < heap_limit p \<or> idx \<ge> active_limit p then Ok (-1, p)
      else rbind (conn_at p idx) (\<lambda>n.
        let (ok, p) = perform ans (PollAdd (cn_fd n) (cn_id n)) p;
            p = set_conn p idx (n\<lparr>cn_ts := now\<rparr>) in
        rbind (swap_conn (p\<lparr>heap_limit := heap_limit p + 1\<rparr>) idx (heap_limit p)) (\<lambda>p.
        rmap (\<lambda>p. (if ok then 0 else -1, p)) (decrease p (heap_limit p - 1)))))"

subsection \<open>Accepting\<close>

text \<open>A connection that \<^verbatim>\<open>accept\<close> returned, with whether it could be set to non-blocking.\<close>

definition add_connection :: "answers \<Rightarrow> int \<Rightarrow> int \<Rightarrow> nat \<Rightarrow> pool \<Rightarrow> pool result" where
  "add_connection ans now fd cid p =
     (let w = wait_limit p in
      if w \<ge> length (tp_conn p) \<or> cid \<ge> length (tp_index p) then Undef
      else let p = p\<lparr>tp_conn := (tp_conn p)[w := \<lparr>cn_data = None, cn_id = cid, cn_fd = fd, cn_ts = now\<rparr>],
                     tp_index := (tp_index p)[cid := w], wait_limit := w + 1\<rparr> in
        rbind (swap_conn (p\<lparr>active_limit := active_limit p + 1\<rparr>) (wait_limit p - 1) (active_limit p)) (\<lambda>p.
        rbind (swap_conn (p\<lparr>heap_limit := heap_limit p + 1\<rparr>) (active_limit p - 1) (heap_limit p)) (\<lambda>p.
        rmap (\<lambda>p. snd (perform ans (PollAdd fd cid) p)) (decrease p (heap_limit p - 1)))))"

definition accept_one :: "answers \<Rightarrow> int \<Rightarrow> int \<times> bool \<Rightarrow> pool \<Rightarrow> pool result" where
  "accept_one ans now conn p = rbind (get_bitmask p) (\<lambda>bm.
     rbind (bitmask_alloc bm) (\<lambda>(cid, bm).
     let p = p\<lparr>tp_bitmask := Some bm\<rparr> in
     case cid of None \<Rightarrow> Ok (snd (perform ans (Closed (fst conn)) p))
     | Some cid \<Rightarrow>
         if \<not> snd conn
         then rmap (\<lambda>bm. snd (perform ans (Closed (fst conn)) (p\<lparr>tp_bitmask := Some bm\<rparr>))) (bitmask_dealloc bm cid)
         else add_connection ans now (fst conn) cid p))"

fun accept_loop :: "answers \<Rightarrow> int \<Rightarrow> (int \<times> bool) list \<Rightarrow> pool \<Rightarrow> pool result" where
  "accept_loop ans now [] p = Ok p"
| "accept_loop ans now (c # cs) p = rbind (accept_one ans now c p) (accept_loop ans now cs)"

text \<open>\<open>drained\<close>: the last \<^verbatim>\<open>accept\<close> failed because there was nothing more to accept.\<close>

definition accept_request :: "answers \<Rightarrow> int \<Rightarrow> (int \<times> bool) list \<Rightarrow> bool \<Rightarrow> pool \<Rightarrow> (int \<times> pool) result" where
  "accept_request ans now conns drained p = rbind (get_bitmask p) (\<lambda>bm.
     if bitmask_full bm then Ok (-1, p)
     else rmap (\<lambda>p. (0, p\<lparr>tp_unaccepted := \<not> drained\<rparr>)) (accept_loop ans now conns p))"

subsection \<open>Messages\<close>

definition process_queue_message :: "answers \<Rightarrow> int \<Rightarrow> queue_message \<Rightarrow> pool \<Rightarrow> (int \<times> pool) result" where
  "process_queue_message ans now msg p = rbind (index_at p (qm_id msg)) (\<lambda>i.
     case qm_kind msg of
       QM_DEACTIVATE \<Rightarrow> rbind (conn_at p i) (\<lambda>n. connection_deactivate ans (set_conn p i (n\<lparr>cn_data := qm_data msg\<rparr>)) i now)
     | QM_CLOSE \<Rightarrow> rmap (\<lambda>p. (0, p)) (connection_close ans p i)
     | QM_CHECKIN \<Rightarrow> rbind (conn_at p i) (\<lambda>n. connection_checkin (set_conn p i (n\<lparr>cn_data := qm_data msg\<rparr>)) i)
     | QM_INVALID \<Rightarrow> Ok (-1, p))"

definition queue_slot :: "pool \<Rightarrow> 32 word \<Rightarrow> nat" where
  "queue_slot p pos = unat (pos AND tp_q_mask p)"

text \<open>The loop from the front to the rear, as many rounds as there are messages between them.\<close>

fun exec_loop :: "answers \<Rightarrow> int \<Rightarrow> nat \<Rightarrow> pool \<Rightarrow> (int \<times> pool) result" where
  "exec_loop ans now 0 p = Ok (0, p)"
| "exec_loop ans now (Suc n) p =
     (let s = queue_slot p (tp_q_front p) in
      if s \<ge> length (tp_queue p) then Undef
      else rbind (process_queue_message ans now (tp_queue p ! s) p) (\<lambda>(rc, p).
        if rc = -1 then Ok (-1, p) else exec_loop ans now n (p\<lparr>tp_q_front := tp_q_front p + 1\<rparr>)))"

definition queue_message_exec :: "answers \<Rightarrow> bool \<Rightarrow> int \<Rightarrow> pool \<Rightarrow> (int \<times> pool) result" where
  "queue_message_exec ans consumed now p =
     (if \<not> consumed then Ok (-1, p) else exec_loop ans now (ring_length (tp_q_front p) (tp_q_rear p)) p)"

definition RELEASE_MODE_AUTO :: int where "RELEASE_MODE_AUTO = 0"
definition RELEASE_MODE_PURGE :: int where "RELEASE_MODE_PURGE = 1"
definition RELEASE_MODE_WAIT_FOR_READ :: int where "RELEASE_MODE_WAIT_FOR_READ = 2"
definition RELEASE_MODE_WAIT_FOR_DATA :: int where "RELEASE_MODE_WAIT_FOR_DATA = 3"

text \<open>The message that is written into a slot of the queue; a close message leaves the data of the slot as it is.\<close>

definition release_message :: "queue_message \<Rightarrow> nat \<Rightarrow> nat option \<Rightarrow> int \<Rightarrow> queue_message option" where
  "release_message slot cid data mode =
     (let mode = (if mode = RELEASE_MODE_AUTO
                  then (if data = None then RELEASE_MODE_WAIT_FOR_DATA else RELEASE_MODE_WAIT_FOR_READ) else mode) in
      if mode = RELEASE_MODE_WAIT_FOR_DATA then Some \<lparr>qm_kind = QM_DEACTIVATE, qm_id = cid, qm_data = data\<rparr>
      else if mode = RELEASE_MODE_PURGE then Some (slot\<lparr>qm_kind := QM_CLOSE, qm_id := cid\<rparr>)
      else if mode = RELEASE_MODE_WAIT_FOR_READ then Some \<lparr>qm_kind = QM_CHECKIN, qm_id = cid, qm_data = data\<rparr>
      else None)"

definition module_tcp_pool_connection_release :: "bool \<Rightarrow> pool \<Rightarrow> nat \<Rightarrow> nat option \<Rightarrow> int \<Rightarrow> (int \<times> pool) result" where
  "module_tcp_pool_connection_release written p cid data mode =
     (let s = queue_slot p (tp_q_rear p) in
      if s \<ge> length (tp_queue p) then Undef
      else (case release_message (tp_queue p ! s) cid data mode of
          None \<Rightarrow> Ok (-1, p)
        | Some m \<Rightarrow> Ok (if written then 0 else -1, p\<lparr>tp_queue := (tp_queue p)[s := m], tp_q_rear := tp_q_rear p + 1\<rparr>)))"

definition module_tcp_pool_loop_killed :: "pool \<Rightarrow> pool" where
  "module_tcp_pool_loop_killed p = p\<lparr>tp_killed := True\<rparr>"

subsection \<open>Polling\<close>

text \<open>How long to wait, in milliseconds; \<open>-1\<close> is without limit.\<close>

definition poll_timeout :: "int \<Rightarrow> pool \<Rightarrow> int result" where
  "poll_timeout now p =
     rmap (\<lambda>sleep.
         let timeout = (if sleep > 0 then sleep * 1000 else -1) in
         if tp_unaccepted p \<and> (timeout = -1 \<or> timeout > 50) then cf_retry (tp_conf p) else timeout)
       (if heap_limit p > 0
        then rmap (\<lambda>n. let sleep = cf_min_timeout (tp_conf p); e = cn_ts n + cf_ttl (tp_conf p) in
               if e \<ge> now + sleep then e - now else sleep) (conn_at p 0)
        else Ok 0)"

definition same_rest :: "pool \<Rightarrow> pool \<Rightarrow> bool" where
  "same_rest p p' \<longleftrightarrow> p\<lparr>tp_conn := [], tp_index := []\<rparr> = p'\<lparr>tp_conn := [], tp_index := []\<rparr>
     \<and> length (tp_conn p') = length (tp_conn p) \<and> length (tp_index p') = length (tp_index p)"

lemma same_rest_refl [simp]: "same_rest p p"
  by (simp add: same_rest_def)

lemma same_rest_trans: "same_rest p q \<Longrightarrow> same_rest q r \<Longrightarrow> same_rest p r"
  by (simp add: same_rest_def)

lemma same_rest_fields:
  assumes "same_rest p p'"
  shows "heap_limit p' = heap_limit p" "active_limit p' = active_limit p" "wait_limit p' = wait_limit p"
    "tp_bitmask p' = tp_bitmask p" "tp_log p' = tp_log p" "tp_conf p' = tp_conf p" "tp_queue p' = tp_queue p"
    "tp_q_mask p' = tp_q_mask p" "tp_q_front p' = tp_q_front p" "tp_q_rear p' = tp_q_rear p" "tp_killed p' = tp_killed p"
    "tp_unaccepted p' = tp_unaccepted p" "length (tp_conn p') = length (tp_conn p)" "length (tp_index p') = length (tp_index p)"
  using assms by (cases p; cases p'; simp add: same_rest_def)+

lemma swap_same_rest: "swap_conn p a b = Ok p' \<Longrightarrow> same_rest p p'"
  using swap_conn_Ok by (fastforce simp: same_rest_def)

lemma heapify_same_rest: "heapify p idx = Ok p' \<Longrightarrow> same_rest p p'"
proof (induction p idx arbitrary: p' rule: heapify.induct)
  case (1 p idx)
  then show ?case
    by (subst (asm) (2) heapify.simps) (auto split: if_splits result.splits dest: swap_same_rest intro: same_rest_trans)
qed

lemma decrease_same_rest: "decrease p idx = Ok p' \<Longrightarrow> same_rest p p'"
proof (induction p idx arbitrary: p' rule: decrease.induct)
  case (1 p idx)
  then show ?case
    by (subst (asm) (2) decrease.simps) (auto split: if_splits result.splits bool.splits dest: swap_same_rest intro: same_rest_trans)
qed

lemma fill_same_rest: "fill_hole p idx l = Ok p' \<Longrightarrow> same_rest p p'"
proof -
  assume a: "fill_hole p idx l = Ok p'"
  have "p' = p\<lparr>tp_conn := (tp_conn p)[idx := tp_conn p ! l],
      tp_index := (if l > idx then (tp_index p)[cn_id (tp_conn p ! l) := idx] else tp_index p)\<rparr>"
    using a by (auto simp: fill_hole_def Let_def split: if_splits)
  then show ?thesis by (auto simp: same_rest_def)
qed

lemma release_fields:
  assumes "release_connection_object ans p idx = Ok (ok, p')"
  shows "\<exists>es. p' = p\<lparr>tp_log := tp_log p @ es\<rparr>"
  using assms by (auto simp: release_connection_object_def perform_def result_simps Let_def split: option.splits if_splits)

lemma close_heap_fields:
  assumes "close_heap p idx = Ok (j, p')"
  shows "heap_limit p' = (if idx < heap_limit p then heap_limit p - 1 else heap_limit p)"
  using assms
  by (auto simp: close_heap_def result_simps split: if_splits dest!: fill_same_rest heapify_same_rest same_rest_fields(1))

lemma close_active_fields: "close_active p idx = Ok (j, p') \<Longrightarrow> heap_limit p' = heap_limit p"
  by (auto simp: close_active_def result_simps split: if_splits dest!: fill_same_rest same_rest_fields(1))

lemma close_wait_fields: "close_wait p idx = Ok p' \<Longrightarrow> heap_limit p' = heap_limit p"
  by (auto simp: close_wait_def split: if_splits dest!: fill_same_rest same_rest_fields(1))

lemma close_Ok:
  assumes "connection_close ans p idx = Ok p'"
  shows "\<exists>es n bm. conn_at p idx = Ok n \<and> remove_conn (p\<lparr>tp_log := tp_log p @ es, tp_bitmask := Some bm\<rparr>) idx = Ok p'"
proof -
  obtain ok q n b bm where a: "release_connection_object ans p idx = Ok (ok, q)" "conn_at q idx = Ok n" "get_bitmask q = Ok b"
    "bitmask_dealloc b (cn_id n) = Ok bm" "remove_conn (q\<lparr>tp_bitmask := Some bm\<rparr>) idx = Ok p'"
    using assms by (auto simp: connection_close_def result_simps)
  obtain es where "q = p\<lparr>tp_log := tp_log p @ es\<rparr>" using release_fields [OF a(1)] by blast
  then show ?thesis using a(2,5) by (intro exI [of _ es] exI [of _ n] exI [of _ bm]) (auto simp: conn_at_def split: if_splits)
qed

lemma close_shrinks_heap:
  assumes "connection_close ans p 0 = Ok p'" and "0 < heap_limit p"
  shows "heap_limit p' = heap_limit p - 1"
  using close_Ok [OF assms(1)] assms(2)
  by (auto simp: remove_conn_def result_simps dest!: close_wait_fields close_active_fields close_heap_fields)

text \<open>The connections that were inactive for too long are closed, the oldest first.\<close>

function expire :: "answers \<Rightarrow> int \<Rightarrow> pool \<Rightarrow> pool result" where
  "expire ans now p =
     (if 0 < heap_limit p
      then (case conn_at p 0 of
          Ok n \<Rightarrow> if cn_ts n + cf_ttl (tp_conf p) \<le> now
                  then (case connection_close ans p 0 of Ok p1 \<Rightarrow> expire ans now p1 | Error \<Rightarrow> Error | Undef \<Rightarrow> Undef)
                  else Ok p
        | Error \<Rightarrow> Error | Undef \<Rightarrow> Undef)
      else Ok p)"
  by pat_completeness auto

termination
  by (relation "measure (\<lambda>(ans, now, p). heap_limit p)") (auto dest: close_shrinks_heap)

declare expire.simps [simp del]

text \<open>
  What a call of \<^verbatim>\<open>epoll_wait\<close> reports: the event descriptor of the queue (with whether it could be read),
  a connection by its identifier, or the listening socket.
\<close>

datatype poll_datum = EventFd bool | ConnFd nat | ListenFd

fun handle_events :: "answers \<Rightarrow> int \<Rightarrow> poll_datum list \<Rightarrow> bool \<Rightarrow> pool \<Rightarrow> (bool \<times> pool) result" where
  "handle_events ans now [] incoming p = Ok (incoming, p)"
| "handle_events ans now (EventFd c # ds) incoming p =
     rbind (queue_message_exec ans c now p) (\<lambda>(rc, p). handle_events ans now ds incoming p)"
| "handle_events ans now (ConnFd i # ds) incoming p =
     rbind (index_at p i) (\<lambda>idx. rbind (connection_activate ans p idx) (\<lambda>(rc, p). handle_events ans now ds incoming p))"
| "handle_events ans now (ListenFd # ds) incoming p = handle_events ans now ds True p"

record poll_round =
  pr_now :: int
  pr_events :: "poll_datum list option"
  pr_conns :: "(int \<times> bool) list"
  pr_drained :: bool
  pr_killed :: bool

definition poll_event :: "answers \<Rightarrow> poll_round \<Rightarrow> pool \<Rightarrow> (int \<times> pool) result" where
  "poll_event ans r p = rbind (poll_timeout (pr_now r) p) (\<lambda>timeout.
     case pr_events r of None \<Rightarrow> Ok (-1, p)
     | Some ds \<Rightarrow>
         rbind (handle_events ans (pr_now r) ds (tp_unaccepted p) p) (\<lambda>(incoming, p).
         rbind (expire ans (pr_now r) p) (\<lambda>p.
         if incoming then rmap (\<lambda>(rc, p). (0, p)) (accept_request ans (pr_now r) (pr_conns r) (pr_drained r) p) else Ok (0, p))))"

definition module_tcp_pool_poll_event :: "answers \<Rightarrow> poll_round \<Rightarrow> pool \<Rightarrow> (int \<times> pool) result" where
  "module_tcp_pool_poll_event ans r p = poll_event ans r p"

text \<open>
  The loop of \<^verbatim>\<open>module_tcp_pool_connection_get\<close> over a script of rounds; \<open>pr_killed\<close> says that the loop was
  killed during the round. \<open>None\<close>: the script is used up and the thread still waits.
\<close>

fun wait_connection :: "answers \<Rightarrow> poll_round list \<Rightarrow> pool \<Rightarrow> pool result option" where
  "wait_connection ans rs p =
     (if tp_killed p \<or> active_limit p \<noteq> wait_limit p then Some (Ok p)
      else (case rs of [] \<Rightarrow> None
        | r # rs \<Rightarrow> (case poll_event ans r p of
              Ok (rc, p1) \<Rightarrow>
                let p1 = (if pr_killed r then module_tcp_pool_loop_killed p1 else p1) in
                if rc = -1 then Some (Ok p1) else wait_connection ans rs p1
            | Error \<Rightarrow> Some Error | Undef \<Rightarrow> Some Undef)))"

record conninfo =
  ci_fd :: int
  ci_idx :: nat
  ci_data :: "nat option"

text \<open>The last waiting connection is handed out; its data goes to the caller.\<close>

definition take_connection :: "pool \<Rightarrow> (conninfo option \<times> pool) result" where
  "take_connection p =
     (if tp_killed p then Ok (None, p)
      else if wait_limit p = 0 then Undef
      else let i = wait_limit p - 1 in
        rbind (conn_at p i) (\<lambda>n.
        rmap (\<lambda>(rc, p). (if rc < 0 then None else Some \<lparr>ci_fd = cn_fd n, ci_idx = cn_id n, ci_data = cn_data n\<rparr>, p))
          (connection_checkout (set_conn p i (n\<lparr>cn_data := None\<rparr>)) i)))"

definition module_tcp_pool_connection_get :: "answers \<Rightarrow> poll_round list \<Rightarrow> pool \<Rightarrow> (conninfo option \<times> pool) result option" where
  "module_tcp_pool_connection_get ans rs p =
     map_option (\<lambda>r. rbind r take_connection) (wait_connection ans rs p)"

end
