(* ===== verification/TcpPoolInv.thy ===== *)
theory TcpPoolInv
  imports TcpPool
begin

text \<open>
  What the array of the connection pool stands for: a map from the identifiers of the connections to their
  state and their data. Every operation is a sequence of exchanges inside a segment and of shifts of a
  boundary between two segments; here each of these is shown to be an update of the map.
\<close>

datatype phase = Inactive | Active | Waiting

definition phase_of :: "pool \<Rightarrow> nat \<Rightarrow> phase" where
  "phase_of p i = (if i < heap_limit p then Inactive else if i < active_limit p then Active else Waiting)"

lemma phase_of_upd [simp]:
  "phase_of (p\<lparr>tp_conn := c\<rparr>) i = phase_of p i" "phase_of (p\<lparr>tp_index := x\<rparr>) i = phase_of p i"
  by (simp_all add: phase_of_def)

type_synonym conn_map = "nat \<rightharpoonup> phase \<times> conn_node"

text \<open>
  The pool holds the map \<open>M\<close>; the position \<open>h\<close>, if it is inside the array, is a hole whose contents do not
  count.
\<close>

definition rep_at :: "pool \<Rightarrow> conn_map \<Rightarrow> nat \<Rightarrow> bool" where
  "rep_at p M i \<longleftrightarrow> cn_id (tp_conn p ! i) < length (tp_conn p) \<and> tp_index p ! cn_id (tp_conn p ! i) = i
     \<and> M (cn_id (tp_conn p ! i)) = Some (phase_of p i, tp_conn p ! i)"

definition rep :: "pool \<Rightarrow> nat \<Rightarrow> conn_map \<Rightarrow> bool" where
  "rep p h M \<longleftrightarrow> heap_limit p \<le> active_limit p \<and> active_limit p \<le> wait_limit p \<and> wait_limit p \<le> length (tp_conn p)
     \<and> length (tp_index p) = length (tp_conn p)
     \<and> (\<forall>i<wait_limit p. i \<noteq> h \<longrightarrow> rep_at p M i)
     \<and> (\<forall>k\<in>dom M. \<exists>i<wait_limit p. i \<noteq> h \<and> cn_id (tp_conn p ! i) = k)"

lemma rep_limits:
  assumes "rep p h M"
  shows "heap_limit p \<le> active_limit p" "active_limit p \<le> wait_limit p" "wait_limit p \<le> length (tp_conn p)"
    "length (tp_index p) = length (tp_conn p)"
  using assms by (simp_all add: rep_def)

lemma repI:
  assumes "heap_limit p \<le> active_limit p" "active_limit p \<le> wait_limit p" "wait_limit p \<le> length (tp_conn p)"
    "length (tp_index p) = length (tp_conn p)"
    and "\<And>i. i < wait_limit p \<Longrightarrow> i \<noteq> h \<Longrightarrow> rep_at p M i"
    and "\<And>k. k \<in> dom M \<Longrightarrow> \<exists>i<wait_limit p. i \<noteq> h \<and> cn_id (tp_conn p ! i) = k"
  shows "rep p h M"
  using assms unfolding rep_def by blast

lemma rep_dom: "rep p h M \<Longrightarrow> k \<in> dom M \<Longrightarrow> \<exists>i<wait_limit p. i \<noteq> h \<and> cn_id (tp_conn p ! i) = k"
  unfolding rep_def by blast

lemma repD:
  assumes "rep p h M" and "i < wait_limit p" and "i \<noteq> h"
  shows "cn_id (tp_conn p ! i) < length (tp_conn p)" "tp_index p ! cn_id (tp_conn p ! i) = i"
    "M (cn_id (tp_conn p ! i)) = Some (phase_of p i, tp_conn p ! i)"
  using assms by (simp_all add: rep_def rep_at_def)

lemma rep_id_inj:
  assumes "rep p h M" and "i < wait_limit p" "j < wait_limit p" and "i \<noteq> h" "j \<noteq> h"
  shows "cn_id (tp_conn p ! i) = cn_id (tp_conn p ! j) \<longleftrightarrow> i = j"
  using assms repD(2) by metis

lemma rep_find:
  assumes "rep p h M" and "M k = Some (ph, n)"
  obtains i where "i < wait_limit p" "i \<noteq> h" "tp_conn p ! i = n" "cn_id n = k" "phase_of p i = ph" "tp_index p ! k = i"
    "k < length (tp_conn p)"
proof -
  obtain i where i: "i < wait_limit p" "i \<noteq> h" "cn_id (tp_conn p ! i) = k"
    using assms by (auto simp: rep_def)
  then show ?thesis using repD [OF assms(1) i(1,2)] assms(2) that by auto
qed

lemma rep_no_hole: "rep p h M \<Longrightarrow> wait_limit p \<le> h \<Longrightarrow> wait_limit p \<le> h' \<Longrightarrow> rep p h' M"
  unfolding rep_def by (metis leD)

lemma rep_cong:
  assumes "rep p h M" and "tp_conn p' = tp_conn p" "tp_index p' = tp_index p" "heap_limit p' = heap_limit p"
    "active_limit p' = active_limit p" "wait_limit p' = wait_limit p"
  shows "rep p' h M"
  using assms unfolding rep_def rep_at_def phase_of_def by simp

subsection \<open>Exchanges\<close>

lemma rep_swap:
  assumes "rep p h M" and "a < wait_limit p" "b < wait_limit p" "a \<noteq> h" "b \<noteq> h" and "phase_of p a = phase_of p b"
  obtains p' where "swap_conn p a b = Ok p'" and "rep p' h M" and "same_rest p p'"
    and "tp_conn p' = (tp_conn p)[a := tp_conn p ! b, b := tp_conn p ! a]"
proof -
  let ?c = "(tp_conn p)[a := tp_conn p ! b, b := tp_conn p ! a]"
  let ?i = "(tp_index p)[cn_id (tp_conn p ! b) := a, cn_id (tp_conn p ! a) := b]"
  let ?p = "p\<lparr>tp_conn := ?c, tp_index := ?i\<rparr>"
  note l = rep_limits [OF assms(1)]
  note A = repD [OF assms(1,2,4)] and B = repD [OF assms(1,3,5)]
  have c: "?c ! a = tp_conn p ! b" "?c ! b = tp_conn p ! a" using assms(2,3) l by (auto simp: nth_list_update)
  have s: "swap_conn p a b = Ok ?p" using assms(2,3) l A(1) B(1) c by (simp add: swap_conn_def Let_def)
  have ab: "cn_id (tp_conn p ! a) = cn_id (tp_conn p ! b) \<longleftrightarrow> a = b" by (rule rep_id_inj [OF assms(1-5)])
  have "rep_at ?p M i" if "i < wait_limit p" "i \<noteq> h" for i
  proof -
    note I = repD [OF assms(1) that]
    have ia: "cn_id (tp_conn p ! i) = cn_id (tp_conn p ! a) \<longleftrightarrow> i = a" "cn_id (tp_conn p ! i) = cn_id (tp_conn p ! b) \<longleftrightarrow> i = b"
      using rep_id_inj [OF assms(1) that(1) assms(2) that(2) assms(4)] rep_id_inj [OF assms(1) that(1) assms(3) that(2) assms(5)] by simp_all
    consider "i = b" | "i = a" "a \<noteq> b" | "i \<noteq> a" "i \<noteq> b" by blast
    then show ?thesis
    proof cases
      case 1
      then show ?thesis using A l assms(2,3,6) by (simp add: rep_at_def)
    next
      case 2
      then show ?thesis using B l ab assms(2,3,6) by (simp add: rep_at_def)
    next
      case 3
      then show ?thesis using I ia by (simp add: rep_at_def)
    qed
  qed
  moreover have "\<exists>i<wait_limit p. i \<noteq> h \<and> cn_id (?c ! i) = k" if k: "k \<in> dom M" for k
  proof -
    obtain i where i: "i < wait_limit p" "i \<noteq> h" "cn_id (tp_conn p ! i) = k" using assms(1) k by (auto simp: rep_def)
    show ?thesis
    proof (intro exI [of _ "if i = a then b else if i = b then a else i"] conjI)
      show "cn_id (?c ! (if i = a then b else if i = b then a else i)) = k" using i c by auto
    qed (use i assms(2-5) in auto)
  qed
  ultimately have "rep ?p h M" using l by (simp add: rep_def)
  then show ?thesis using that s swap_same_rest [OF s] by simp
qed

lemma swap_limits:
  "swap_conn (p\<lparr>heap_limit := x\<rparr>) a b = rmap (\<lambda>q. q\<lparr>heap_limit := x\<rparr>) (swap_conn p a b)"
  "swap_conn (p\<lparr>active_limit := x\<rparr>) a b = rmap (\<lambda>q. q\<lparr>active_limit := x\<rparr>) (swap_conn p a b)"
  by (simp_all add: swap_conn_def Let_def)

lemma fill_limits:
  "fill_hole (p\<lparr>heap_limit := x\<rparr>) a b = rmap (\<lambda>q. q\<lparr>heap_limit := x\<rparr>) (fill_hole p a b)"
  "fill_hole (p\<lparr>active_limit := x\<rparr>) a b = rmap (\<lambda>q. q\<lparr>active_limit := x\<rparr>) (fill_hole p a b)"
  "fill_hole (p\<lparr>wait_limit := x\<rparr>) a b = rmap (\<lambda>q. q\<lparr>wait_limit := x\<rparr>) (fill_hole p a b)"
  by (simp_all add: fill_hole_def Let_def)

lemma rep_fill:
  assumes "rep p h M" and "h \<le> l" "l < wait_limit p" and "phase_of p h = phase_of p l"
  obtains p' where "fill_hole p h l = Ok p'" and "rep p' l M" and "same_rest p p'"
    and "tp_conn p' = (tp_conn p)[h := tp_conn p ! l]"
proof (cases "h = l")
  case True
  then have "fill_hole p h l = Ok p" using assms(3) rep_limits [OF assms(1)] by (simp add: fill_hole_def Let_def)
  then show ?thesis using that [of p] assms(1) True by simp
next
  case False
  let ?c = "(tp_conn p)[h := tp_conn p ! l]"
  let ?i = "(tp_index p)[cn_id (tp_conn p ! l) := h]"
  let ?p = "p\<lparr>tp_conn := ?c, tp_index := ?i\<rparr>"
  note lm = rep_limits [OF assms(1)]
  have hl: "h < l" "h < wait_limit p" "l \<noteq> h" using False assms(2,3) by auto
  note L = repD [OF assms(1,3) hl(3)]
  have s: "fill_hole p h l = Ok ?p" using hl lm L(1) assms(3) by (simp add: fill_hole_def Let_def)
  have "rep_at ?p M i" if "i < wait_limit p" "i \<noteq> l" for i
  proof (cases "i = h")
    case True
    then show ?thesis using hl lm L assms(4) by (simp add: rep_at_def)
  next
    case False
    then show ?thesis
      using repD [OF assms(1) that(1) False] rep_id_inj [OF assms(1) that(1) assms(3) False hl(3)] that(2)
      by (simp add: rep_at_def)
  qed
  moreover have "\<exists>i<wait_limit p. i \<noteq> l \<and> cn_id (?c ! i) = k" if k: "k \<in> dom M" for k
  proof -
    obtain i where i: "i < wait_limit p" "i \<noteq> h" "cn_id (tp_conn p ! i) = k" using assms(1) k by (auto simp: rep_def)
    then show ?thesis using hl lm by (intro exI [of _ "if i = l then h else i"]) auto
  qed
  ultimately have "rep ?p l M" using lm by (simp add: rep_def)
  then show ?thesis using that s fill_same_rest [OF s] by simp
qed

subsection \<open>Shifts of a boundary\<close>

lemma rep_shift:
  assumes "rep p h M" and "tp_conn p' = tp_conn p" "tp_index p' = tp_index p" "wait_limit p' = wait_limit p"
    and "heap_limit p' \<le> active_limit p'" "active_limit p' \<le> wait_limit p'"
    and "j < wait_limit p" "j \<noteq> h" and "\<And>i. i < wait_limit p \<Longrightarrow> i \<noteq> h \<Longrightarrow> i \<noteq> j \<Longrightarrow> phase_of p' i = phase_of p i"
  shows "rep p' h (M(cn_id (tp_conn p ! j) \<mapsto> (phase_of p' j, tp_conn p ! j)))" (is "rep p' h ?M")
proof -
  have "rep_at p' ?M i" if "i < wait_limit p" "i \<noteq> h" for i
    using repD [OF assms(1) that] assms(2,3,9) that rep_id_inj [OF assms(1) that(1) assms(7) that(2) assms(8)]
    by (auto simp: rep_at_def)
  moreover have "\<exists>i<wait_limit p. i \<noteq> h \<and> cn_id (tp_conn p ! i) = k" if "k \<in> dom ?M" for k
    using that assms(1,7,8) by (auto simp: rep_def split: if_splits)
  ultimately show ?thesis using assms(2-6) rep_limits [OF assms(1)] by (simp add: rep_def)
qed

lemma rep_shift_hole:
  assumes "rep p h M" and "tp_conn p' = tp_conn p" "tp_index p' = tp_index p" "wait_limit p' = wait_limit p"
    and "heap_limit p' \<le> active_limit p'" "active_limit p' \<le> wait_limit p'"
    and "\<And>i. i < wait_limit p \<Longrightarrow> i \<noteq> h \<Longrightarrow> phase_of p' i = phase_of p i"
  shows "rep p' h M"
proof -
  have "rep_at p' M i" if "i < wait_limit p" "i \<noteq> h" for i
    using repD [OF assms(1) that] assms(2,3,7) that by (auto simp: rep_at_def)
  then show ?thesis using assms(1-6) unfolding rep_def by simp
qed

lemma rep_drop:
  assumes "rep p h M" and "h = wait_limit p - 1" "active_limit p \<le> h" "0 < wait_limit p"
  shows "rep (p\<lparr>wait_limit := h\<rparr>) h M"
proof -
  have "rep_at (p\<lparr>wait_limit := h\<rparr>) M i" if "i < h" for i
    using repD [OF assms(1), of i] assms(2,4) that by (auto simp: rep_at_def phase_of_def)
  moreover have "\<exists>i<h. cn_id (tp_conn p ! i) = k" if k: "k \<in> dom M" for k
  proof -
    obtain i where "i < wait_limit p" "i \<noteq> h" "cn_id (tp_conn p ! i) = k" using rep_dom [OF assms(1) k] by blast
    then show ?thesis using assms(2) by (intro exI [of _ i]) auto
  qed
  ultimately show ?thesis using assms(2-4) rep_limits [OF assms(1)] by (intro repI) auto
qed

lemma rep_punch:
  assumes "rep p h M" and "wait_limit p \<le> h" and "idx < wait_limit p"
  shows "rep p idx (M(cn_id (tp_conn p ! idx) := None))" (is "rep p idx ?M")
proof -
  have h: "i \<noteq> h" if "i < wait_limit p" for i using that assms(2) by auto
  have "rep_at p ?M i" if "i < wait_limit p" "i \<noteq> idx" for i
    using repD [OF assms(1) that(1) h [OF that(1)]] rep_id_inj [OF assms(1) that(1) assms(3) h [OF that(1)] h [OF assms(3)]] that(2)
    by (simp add: rep_at_def)
  moreover have "\<exists>i<wait_limit p. i \<noteq> idx \<and> cn_id (tp_conn p ! i) = k" if k: "k \<in> dom ?M" for k
  proof -
    obtain i where "i < wait_limit p" "cn_id (tp_conn p ! i) = k" using assms(1) k by (auto simp: rep_def split: if_splits)
    then show ?thesis using k by (intro exI [of _ i]) auto
  qed
  ultimately show ?thesis using rep_limits [OF assms(1)] by (simp add: rep_def)
qed

lemma rep_set:
  assumes "rep p h M" and "i < wait_limit p" "i \<noteq> h" and "cn_id n = cn_id (tp_conn p ! i)"
  shows "rep (set_conn p i n) h (M(cn_id n \<mapsto> (phase_of p i, n)))" (is "rep ?p h ?M")
proof -
  note l = rep_limits [OF assms(1)]
  have "rep_at ?p ?M j" if "j < wait_limit p" "j \<noteq> h" for j
    using repD [OF assms(1) that] rep_id_inj [OF assms(1) that(1) assms(2) that(2) assms(3)] assms(2,4) l
    by (cases "j = i") (auto simp: rep_at_def set_conn_def)
  moreover have "\<exists>j<wait_limit p. j \<noteq> h \<and> cn_id (tp_conn ?p ! j) = k" if k: "k \<in> dom ?M" for k
  proof -
    have "\<exists>j<wait_limit p. j \<noteq> h \<and> cn_id (tp_conn p ! j) = k"
      using k assms by (auto simp: rep_def split: if_splits)
    then show ?thesis using assms(2,4) l by (auto simp: set_conn_def nth_list_update)
  qed
  ultimately show ?thesis using l by (simp add: rep_def set_conn_def)
qed

lemma rep_push:
  assumes "rep p (length (tp_conn p)) M" and "wait_limit p < length (tp_conn p)" and "cn_id n < length (tp_conn p)" and "M (cn_id n) = None"
  shows "rep (p\<lparr>tp_conn := (tp_conn p)[wait_limit p := n], tp_index := (tp_index p)[cn_id n := wait_limit p], wait_limit := wait_limit p + 1\<rparr>)
    (length (tp_conn p)) (M(cn_id n \<mapsto> (Waiting, n)))" (is "rep ?p ?h ?M")
proof -
  note l = rep_limits [OF assms(1)]
  have "rep_at ?p ?M i" if "i < wait_limit p + 1" for i
  proof (cases "i = wait_limit p")
    case True
    then show ?thesis using assms(2,3) l by (simp add: rep_at_def phase_of_def)
  next
    case False
    then have i: "i < wait_limit p" "i \<noteq> ?h" using that assms(2) by auto
    have "cn_id (tp_conn p ! i) \<noteq> cn_id n" using repD(3) [OF assms(1) i] assms(4) by auto
    then show ?thesis using repD [OF assms(1) i] False by (simp add: rep_at_def phase_of_def)
  qed
  moreover have "\<exists>i<wait_limit p + 1. i \<noteq> ?h \<and> cn_id (tp_conn ?p ! i) = k" if k: "k \<in> dom ?M" for k
  proof (cases "k = cn_id n")
    case False
    then obtain i where "i < wait_limit p" "cn_id (tp_conn p ! i) = k" using k assms(1) by (auto simp: rep_def)
    then show ?thesis using assms(2) by (intro exI [of _ i]) simp
  qed (use assms(2) in \<open>auto intro: exI [of _ "wait_limit p"]\<close>)
  ultimately show ?thesis using l assms(2) by (intro repI) auto
qed

subsection \<open>The heap\<close>

text \<open>The order of the heap, and the order with one position out of place: too large for its children, or too small for its parent.\<close>

definition parent :: "nat \<Rightarrow> nat" where
  "parent i = (i - 1) div 2"

definition heap_ok :: "(nat \<Rightarrow> int) \<Rightarrow> nat \<Rightarrow> bool" where
  "heap_ok t n \<longleftrightarrow> (\<forall>i. 0 < i \<and> i < n \<longrightarrow> t (parent i) \<le> t i)"

definition heap_down :: "(nat \<Rightarrow> int) \<Rightarrow> nat \<Rightarrow> nat \<Rightarrow> bool" where
  "heap_down t n k \<longleftrightarrow> (\<forall>i. 0 < i \<and> i < n \<longrightarrow>
     (parent i \<noteq> k \<longrightarrow> t (parent i) \<le> t i) \<and> (parent i = k \<and> 0 < k \<longrightarrow> t (parent k) \<le> t i))"

definition heap_up :: "(nat \<Rightarrow> int) \<Rightarrow> nat \<Rightarrow> nat \<Rightarrow> bool" where
  "heap_up t n k \<longleftrightarrow> (\<forall>i. 0 < i \<and> i < n \<and> i \<noteq> k \<longrightarrow>
     t (parent i) \<le> t i \<and> (parent i = k \<and> 0 < k \<longrightarrow> t (parent k) \<le> t i))"

lemma parent_less: "0 < i \<Longrightarrow> parent i < i"
  unfolding parent_def by linarith

lemma heap_down_step:
  assumes "heap_down t n k" and "0 < m" "m < n" and "parent m = k" and "t m \<le> t k"
    and "\<And>i. 0 < i \<Longrightarrow> i < n \<Longrightarrow> parent i = k \<Longrightarrow> t m \<le> t i"
  shows "heap_down (t(k := t m, m := t k)) n m"
  unfolding heap_down_def
proof (intro allI impI)
  fix i assume i: "0 < i \<and> i < n"
  let ?t = "t(k := t m, m := t k)"
  have km: "k < m" "k \<noteq> m" using parent_less [OF assms(2)] assms(4) by auto
  have down: "parent i \<noteq> k \<Longrightarrow> t (parent i) \<le> t i" using assms(1) i by (simp add: heap_down_def)
  have up: "0 < k \<Longrightarrow> t (parent k) \<le> t m" using assms(1-4) by (simp add: heap_down_def)
  have lt: "parent i < i" using i parent_less by simp
  have "?t (parent i) \<le> ?t i" if "parent i \<noteq> m"
  proof -
    consider "i = k" | "i = m" | "i \<noteq> k" "i \<noteq> m" "parent i = k" | "i \<noteq> k" "i \<noteq> m" "parent i \<noteq> k" by blast
    then show ?thesis
    proof cases
      case 1
      then show ?thesis using up i km lt by simp
    next
      case 2
      then show ?thesis using assms(4,5) km by simp
    next
      case 3
      then show ?thesis using assms(6) [of i] i km by simp
    next
      case 4
      then show ?thesis using down that by simp
    qed
  qed
  moreover have "?t (parent m) \<le> ?t i" if "parent i = m"
    using that km lt down assms(4) by simp
  ultimately show "(parent i \<noteq> m \<longrightarrow> ?t (parent i) \<le> ?t i) \<and> (parent i = m \<and> 0 < m \<longrightarrow> ?t (parent m) \<le> ?t i)" by blast
qed

lemma heap_up_step:
  assumes "heap_up t n k" and "0 < k" "k < n" and "t k < t (parent k)"
  shows "heap_up (t(k := t (parent k), parent k := t k)) n (parent k)"
  unfolding heap_up_def
proof (intro allI impI)
  let ?q = "parent k" and ?t = "t(k := t (parent k), parent k := t k)"
  fix i assume i: "0 < i \<and> i < n \<and> i \<noteq> ?q"
  have qk: "?q < k" "?q \<noteq> k" using parent_less [OF assms(2)] by auto
  have up: "i \<noteq> k \<Longrightarrow> t (parent i) \<le> t i" "i \<noteq> k \<Longrightarrow> parent i = k \<Longrightarrow> t ?q \<le> t i"
    using assms(1,2) i by (simp_all add: heap_up_def)
  have q: "0 < ?q \<Longrightarrow> t (parent ?q) \<le> t ?q" using assms(1,3) qk by (simp add: heap_up_def)
  have lt: "parent i < i" "0 < ?q \<Longrightarrow> parent ?q < ?q" using i parent_less by auto
  have "?t (parent i) \<le> ?t i"
  proof -
    consider "i = k" | "i \<noteq> k" "parent i = k" | "i \<noteq> k" "parent i = ?q" | "i \<noteq> k" "parent i \<noteq> k" "parent i \<noteq> ?q" by blast
    then show ?thesis
    proof cases
      case 1
      then show ?thesis using assms(4) qk by simp
    next
      case 2
      then show ?thesis using up(2) i qk by simp
    next
      case 3
      then show ?thesis using up(1) i qk assms(4) by simp
    next
      case 4
      then show ?thesis using up(1) i by simp
    qed
  qed
  moreover have "?t (parent ?q) \<le> ?t i" if "parent i = ?q" "0 < ?q"
  proof (cases "i = k")
    case True
    then show ?thesis using q lt(2) that(2) qk by simp
  next
    case False
    then have "t ?q \<le> t i" using up(1) that(1) by simp
    then show ?thesis using q lt(2) that(2) qk i False by simp
  qed
  ultimately show "?t (parent i) \<le> ?t i \<and> (parent i = ?q \<and> 0 < ?q \<longrightarrow> ?t (parent ?q) \<le> ?t i)" by blast
qed

lemma heap_down_ok: "heap_down t n k \<Longrightarrow> (\<And>i. 0 < i \<Longrightarrow> i < n \<Longrightarrow> parent i = k \<Longrightarrow> t k \<le> t i) \<Longrightarrow> heap_ok t n"
  unfolding heap_down_def heap_ok_def by metis

lemma heap_up_ok: "heap_up t n k \<Longrightarrow> (0 < k \<Longrightarrow> t (parent k) \<le> t k) \<Longrightarrow> heap_ok t n"
  unfolding heap_up_def heap_ok_def by metis

lemma heap_ok_root: "heap_ok t n \<Longrightarrow> i < n \<Longrightarrow> t 0 \<le> t i"
proof (induction i rule: less_induct)
  case (less i)
  show ?case
  proof (cases "i = 0")
    case False
    then have "parent i < i" by (intro parent_less) simp
    then have "t 0 \<le> t (parent i)" using less by simp
    also have "\<dots> \<le> t i" using less.prems False by (simp add: heap_ok_def)
    finally show ?thesis .
  qed simp
qed

abbreviation ts_of :: "pool \<Rightarrow> nat \<Rightarrow> int" where "ts_of p \<equiv> \<lambda>i. cn_ts (tp_conn p ! i)"

lemma ts_of_swap:
  assumes "tp_conn p' = (tp_conn p)[a := tp_conn p ! b, b := tp_conn p ! a]" and "a < length (tp_conn p)" "b < length (tp_conn p)"
  shows "ts_of p' = (ts_of p)(a := ts_of p b, b := ts_of p a)"
  using assms by (auto simp: fun_eq_iff nth_list_update)

lemma min_child_spec:
  assumes "heap_limit p \<le> length (tp_conn p)" and "idx < heap_limit p"
  obtains m where "min_child p idx = Ok m" "m < heap_limit p" "m = idx \<or> 0 < m \<and> parent m = idx" "ts_of p m \<le> ts_of p idx"
    "\<And>i. 0 < i \<Longrightarrow> i < heap_limit p \<Longrightarrow> parent i = idx \<Longrightarrow> ts_of p m \<le> ts_of p i"
proof -
  have less: "ts_less p a b = Ok (ts_of p a < ts_of p b)" if "a < heap_limit p" "b < heap_limit p" for a b
    using that assms(1) by (simp add: ts_less_def conn_at_def)
  define l where "l \<longleftrightarrow> idx * 2 + 1 < heap_limit p \<and> ts_of p (idx * 2 + 1) < ts_of p idx"
  define m1 where "m1 = (if l then idx * 2 + 1 else idx)"
  define m where "m = (if idx * 2 + 2 < heap_limit p \<and> ts_of p (idx * 2 + 2) < ts_of p m1 then idx * 2 + 2 else m1)"
  have m1: "m1 < heap_limit p" using assms(2) by (simp add: m1_def l_def)
  have "min_child p idx = Ok m"
    using less assms(2) m1 by (simp add: min_child_def Let_def m_def m1_def l_def)
  moreover have "m < heap_limit p" using m1 by (simp add: m_def)
  moreover have "m = idx \<or> 0 < m \<and> parent m = idx" by (auto simp: m_def m1_def parent_def)
  moreover have "ts_of p m \<le> ts_of p idx" by (auto simp: m_def m1_def l_def)
  moreover have "ts_of p m \<le> ts_of p i" if "0 < i" "i < heap_limit p" "parent i = idx" for i
  proof -
    have "i = idx * 2 + 1 \<or> i = idx * 2 + 2" using that(1,3) unfolding parent_def by linarith
    then show ?thesis using that(2) by (auto simp: m_def m1_def l_def)
  qed
  ultimately show ?thesis using that by blast
qed

lemma heapify_rep:
  assumes "rep p h M" and "heap_limit p \<le> h"
  shows "\<exists>p'. heapify p idx = Ok p' \<and> rep p' h M \<and> same_rest p p' \<and> (\<forall>i\<ge>heap_limit p. tp_conn p' ! i = tp_conn p ! i)
    \<and> (heap_down (ts_of p) (heap_limit p) idx \<longrightarrow> heap_ok (ts_of p') (heap_limit p))"
  using assms
proof (induction p idx rule: heapify.induct)
  case (1 p idx)
  note lim = rep_limits [OF "1.prems"(1)]
  show ?case
  proof (cases "idx < heap_limit p")
    case False
    have "heap_ok (ts_of p) (heap_limit p)" if "heap_down (ts_of p) (heap_limit p) idx"
      using that by (rule heap_down_ok) (metis False parent_less less_trans)
    then show ?thesis using False "1.prems" by (simp add: heapify.simps [of p idx])
  next
    case True
    obtain m where m: "min_child p idx = Ok m" "m < heap_limit p" "m = idx \<or> 0 < m \<and> parent m = idx" "ts_of p m \<le> ts_of p idx"
      "\<And>i. 0 < i \<Longrightarrow> i < heap_limit p \<Longrightarrow> parent i = idx \<Longrightarrow> ts_of p m \<le> ts_of p i"
      by (rule min_child_spec [OF _ True]) (use lim in auto)
    show ?thesis
    proof (cases "m = idx")
      case eq: True
      then have "heap_ok (ts_of p) (heap_limit p)" if "heap_down (ts_of p) (heap_limit p) idx"
        using that m(5) by (intro heap_down_ok [of _ _ idx]) auto
      then show ?thesis using eq True m(1) "1.prems" by (simp add: heapify.simps [of p idx])
    next
      case False
      have ph: "phase_of p idx = phase_of p m" using True m(2) by (simp add: phase_of_def)
      obtain p1 where p1: "swap_conn p idx m = Ok p1" "rep p1 h M" "same_rest p p1"
        "tp_conn p1 = (tp_conn p)[idx := tp_conn p ! m, m := tp_conn p ! idx]"
        by (rule rep_swap [OF "1.prems"(1) _ _ _ _ ph]) (use True m(2) lim "1.prems"(2) in auto)
      have hl: "heap_limit p1 = heap_limit p" using same_rest_fields [OF p1(3)] by simp
      obtain p' where p': "heapify p1 m = Ok p'" "rep p' h M" "same_rest p1 p'" "\<forall>i\<ge>heap_limit p. tp_conn p' ! i = tp_conn p1 ! i"
        "heap_down (ts_of p1) (heap_limit p) m \<Longrightarrow> heap_ok (ts_of p') (heap_limit p)"
        using "1.IH" [OF True m(1) False p1(1,2)] hl "1.prems"(2) by auto
      have "ts_of p1 = (ts_of p)(idx := ts_of p m, m := ts_of p idx)"
        by (rule ts_of_swap [OF p1(4)]) (use True m(2) lim in auto)
      moreover have "heap_down ((ts_of p)(idx := ts_of p m, m := ts_of p idx)) (heap_limit p) m"
        if "heap_down (ts_of p) (heap_limit p) idx"
        by (rule heap_down_step [OF that]) (use m False in auto)
      ultimately have "heap_ok (ts_of p') (heap_limit p)" if "heap_down (ts_of p) (heap_limit p) idx"
        using p'(5) that by simp
      moreover have "tp_conn p' ! i = tp_conn p ! i" if "heap_limit p \<le> i" for i
        using that p'(4) p1(4) True m(2) by simp
      moreover have "heapify p idx = Ok p'" using True m(1) False p1(1) p'(1) by (simp add: heapify.simps [of p idx])
      ultimately show ?thesis using p'(2,3) p1(3) same_rest_trans by blast
    qed
  qed
qed

lemma decrease_rep:
  assumes "rep p h M" and "heap_limit p \<le> h" and "idx < heap_limit p"
  shows "\<exists>p'. decrease p idx = Ok p' \<and> rep p' h M \<and> same_rest p p' \<and> (\<forall>i\<ge>heap_limit p. tp_conn p' ! i = tp_conn p ! i)
    \<and> (heap_up (ts_of p) (heap_limit p) idx \<longrightarrow> heap_ok (ts_of p') (heap_limit p))"
  using assms
proof (induction p idx rule: decrease.induct)
  case (1 p idx)
  note lim = rep_limits [OF "1.prems"(1)]
  have ts: "0 < idx \<Longrightarrow> ts_less p idx ((idx - 1) div 2) = Ok (ts_of p idx < ts_of p (parent idx))"
    using "1.prems"(3) lim parent_less [of idx] by (simp add: ts_less_def conn_at_def parent_def)
  show ?case
  proof (cases "0 < idx \<and> ts_of p idx < ts_of p (parent idx)")
    case False
    then have "heap_ok (ts_of p) (heap_limit p)" if "heap_up (ts_of p) (heap_limit p) idx"
      using that by (intro heap_up_ok [of _ _ idx]) auto
    moreover have "decrease p idx = Ok p" using False ts by (cases "0 < idx") (auto simp: decrease.simps [of p idx] decrease.simps [of p 0])
    ultimately show ?thesis using "1.prems" by simp
  next
    case True
    let ?q = "parent idx"
    have q: "?q < idx" "?q < heap_limit p" using True parent_less "1.prems"(3) by (auto intro: less_trans)
    then have ph: "phase_of p idx = phase_of p ?q" using "1.prems"(3) by (simp add: phase_of_def)
    obtain p1 where p1: "swap_conn p idx ?q = Ok p1" "rep p1 h M" "same_rest p p1"
      "tp_conn p1 = (tp_conn p)[idx := tp_conn p ! ?q, ?q := tp_conn p ! idx]"
      by (rule rep_swap [OF "1.prems"(1) _ _ _ _ ph]) (use q "1.prems"(2,3) lim in auto)
    have hl: "heap_limit p1 = heap_limit p" using same_rest_fields [OF p1(3)] by simp
    obtain p' where p': "decrease p1 ?q = Ok p'" "rep p' h M" "same_rest p1 p'" "\<forall>i\<ge>heap_limit p. tp_conn p' ! i = tp_conn p1 ! i"
      "heap_up (ts_of p1) (heap_limit p) ?q \<Longrightarrow> heap_ok (ts_of p') (heap_limit p)"
      using "1.IH" [OF _ _ _ _ p1(2)] True ts p1(1) hl q(2) "1.prems"(2) by (fastforce simp: parent_def)
    have "ts_of p1 = (ts_of p)(idx := ts_of p ?q, ?q := ts_of p idx)"
      by (rule ts_of_swap [OF p1(4)]) (use q "1.prems"(3) lim in auto)
    then have "heap_ok (ts_of p') (heap_limit p)" if "heap_up (ts_of p) (heap_limit p) idx"
      using p'(5) heap_up_step [OF that] True "1.prems"(3) by simp
    moreover have "tp_conn p' ! i = tp_conn p ! i" if "heap_limit p \<le> i" for i
      using that p'(4) p1(4) q "1.prems"(3) by simp
    moreover have "decrease p idx = Ok p'" using True ts p1(1) p'(1) by (simp add: decrease.simps [of p idx] parent_def)
    ultimately show ?thesis using p'(2,3) p1(3) same_rest_trans by blast
  qed
qed

end
