(* ===== verification/TcpPoolOps.thy ===== *)
theory TcpPoolOps
  imports TcpPoolInv
begin

text \<open>
  The operations of the connection pool as updates of the map that the pool holds.
\<close>

abbreviation rep0 :: "pool \<Rightarrow> conn_map \<Rightarrow> bool" where
  "rep0 p M \<equiv> rep p (length (tp_conn p)) M"

text \<open>What no operation on the array touches.\<close>

definition pool_frame :: "pool \<Rightarrow> pool \<Rightarrow> bool" where
  "pool_frame p p' \<longleftrightarrow>
     p\<lparr>tp_bitmask := None, tp_conn := [], tp_index := [], heap_limit := 0, active_limit := 0, wait_limit := 0, tp_log := []\<rparr>
     = p'\<lparr>tp_bitmask := None, tp_conn := [], tp_index := [], heap_limit := 0, active_limit := 0, wait_limit := 0, tp_log := []\<rparr>
     \<and> length (tp_conn p') = length (tp_conn p) \<and> length (tp_index p') = length (tp_index p)"

lemma pool_frame_refl [simp]: "pool_frame p p"
  by (simp add: pool_frame_def)

lemma pool_frame_trans: "pool_frame p q \<Longrightarrow> pool_frame q r \<Longrightarrow> pool_frame p r"
  by (simp add: pool_frame_def)

lemma pool_frame_fields:
  assumes "pool_frame p p'"
  shows "tp_conf p' = tp_conf p" "tp_queue p' = tp_queue p" "tp_q_mask p' = tp_q_mask p" "tp_q_front p' = tp_q_front p"
    "tp_q_rear p' = tp_q_rear p" "tp_killed p' = tp_killed p" "tp_unaccepted p' = tp_unaccepted p"
    "length (tp_conn p') = length (tp_conn p)" "length (tp_index p') = length (tp_index p)"
  using assms by (cases p; cases p'; simp add: pool_frame_def)+

lemma same_rest_frame: "same_rest p p' \<Longrightarrow> pool_frame p p'"
  by (cases p; cases p'; simp add: same_rest_def pool_frame_def)

lemma frame_updates [simp]:
  "pool_frame p (q\<lparr>heap_limit := x\<rparr>) = pool_frame p q" "pool_frame p (q\<lparr>active_limit := x\<rparr>) = pool_frame p q"
  "pool_frame p (q\<lparr>wait_limit := x\<rparr>) = pool_frame p q" "pool_frame p (q\<lparr>tp_log := l\<rparr>) = pool_frame p q"
  "pool_frame p (q\<lparr>tp_bitmask := b\<rparr>) = pool_frame p q"
  "pool_frame (q\<lparr>heap_limit := x\<rparr>) p = pool_frame q p" "pool_frame (q\<lparr>active_limit := x\<rparr>) p = pool_frame q p"
  "pool_frame (q\<lparr>wait_limit := x\<rparr>) p = pool_frame q p" "pool_frame (q\<lparr>tp_log := l\<rparr>) p = pool_frame q p"
  "pool_frame (q\<lparr>tp_bitmask := b\<rparr>) p = pool_frame q p"
  "pool_frame (set_conn q i n) p = pool_frame q p" "pool_frame p (set_conn q i n) = pool_frame p q"
  by (cases p; cases q; auto simp: pool_frame_def set_conn_def)+

lemma length_set_conn [simp]: "length (tp_conn (set_conn p i n)) = length (tp_conn p)"
  by (simp add: set_conn_def)

lemma rep_log [simp]: "rep (p\<lparr>tp_log := l\<rparr>) h M = rep p h M" "rep (p\<lparr>tp_bitmask := b\<rparr>) h M = rep p h M"
  by (simp_all add: rep_def rep_at_def phase_of_def)

subsection \<open>Activation\<close>

lemma activate_rep:
  assumes "rep0 p M" and "idx < heap_limit p" and "tp_conn p ! idx = n" and "ans (PollDel (cn_fd n)) (length (tp_log p))"
  shows "\<exists>p'. connection_activate ans p idx = Ok (0, p') \<and> rep0 p' (M(cn_id n \<mapsto> (Waiting, n))) \<and> pool_frame p p'
    \<and> tp_bitmask p' = tp_bitmask p \<and> tp_log p' = tp_log p @ [PollDel (cn_fd n)] \<and> heap_limit p' = heap_limit p - 1"
proof -
  let ?L = "length (tp_conn p)" and ?h = "heap_limit p - 1" and ?a = "active_limit p - 1"
  let ?q = "p\<lparr>tp_log := tp_log p @ [PollDel (cn_fd n)]\<rparr>"
  note lim = rep_limits [OF assms(1)]
  have q: "rep ?q ?L M" using assms(1) by simp
  have ph: "phase_of ?q idx = phase_of ?q ?h" using assms(2) by (simp add: phase_of_def)
  obtain q1 where q1: "swap_conn ?q idx ?h = Ok q1" "rep q1 ?L M" "same_rest ?q q1"
    "tp_conn q1 = (tp_conn ?q)[idx := tp_conn ?q ! ?h, ?h := tp_conn ?q ! idx]"
    by (rule rep_swap [OF q _ _ _ _ ph]) (use assms(2) lim in auto)
  note f1 = same_rest_fields [OF q1(3)]
  have n1: "tp_conn q1 ! ?h = n" using q1(4) assms(2,3) lim by (auto simp: nth_list_update)
  let ?q2 = "q1\<lparr>heap_limit := ?h\<rparr>"
  have "rep ?q2 ?L (M(cn_id (tp_conn q1 ! ?h) \<mapsto> (phase_of ?q2 ?h, tp_conn q1 ! ?h)))"
    by (rule rep_shift [OF q1(2)]) (use f1 lim assms(2) in \<open>auto simp: phase_of_def\<close>)
  moreover have "phase_of ?q2 ?h = Active" using f1 lim assms(2) by (auto simp: phase_of_def)
  ultimately have q2: "rep ?q2 ?L (M(cn_id n \<mapsto> (Active, n)))" using n1 by simp
  have hb: "heap_limit ?q2 \<le> ?L" using lim by simp
  obtain q3 where q3: "heapify ?q2 idx = Ok q3" "rep q3 ?L (M(cn_id n \<mapsto> (Active, n)))" "same_rest ?q2 q3"
    "\<forall>i\<ge>?h. tp_conn q3 ! i = tp_conn q1 ! i"
    using heapify_rep [OF q2 hb, of idx] by auto
  note f3 = same_rest_fields [OF q3(3)]
  have l3: "heap_limit q3 = ?h" "active_limit q3 = active_limit p" "wait_limit q3 = wait_limit p" "length (tp_conn q3) = ?L"
    using f1 f3 by simp_all
  have "?h < active_limit p" "?h \<le> ?a" "?a < active_limit p" using lim assms(2) by linarith+
  then have ph3: "phase_of q3 ?h = phase_of q3 ?a" using l3 by (simp add: phase_of_def)
  obtain q4 where q4: "swap_conn q3 ?h ?a = Ok q4" "rep q4 ?L (M(cn_id n \<mapsto> (Active, n)))" "same_rest q3 q4"
    "tp_conn q4 = (tp_conn q3)[?h := tp_conn q3 ! ?a, ?a := tp_conn q3 ! ?h]"
    by (rule rep_swap [OF q3(2) _ _ _ _ ph3]) (use l3 lim assms(2) in auto)
  note f4 = same_rest_fields [OF q4(3)]
  have "tp_conn q4 ! ?a = tp_conn q3 ! ?h" using q4(4) l3 lim assms(2) by (simp add: nth_list_update)
  then have n4: "tp_conn q4 ! ?a = n" using q3(4) n1 by simp
  let ?q5 = "q4\<lparr>active_limit := ?a\<rparr>"
  have "rep ?q5 ?L (M(cn_id n \<mapsto> (Active, n), cn_id (tp_conn q4 ! ?a) \<mapsto> (phase_of ?q5 ?a, tp_conn q4 ! ?a)))"
    by (rule rep_shift [OF q4(2)]) (use f4 l3 lim assms(2) in \<open>auto simp: phase_of_def\<close>)
  moreover have "phase_of ?q5 ?a = Waiting" using f4 l3 lim assms(2) by (auto simp: phase_of_def)
  ultimately have q5: "rep ?q5 ?L (M(cn_id n \<mapsto> (Waiting, n)))" using n4 by simp
  have "connection_activate ans p idx = Ok (0, ?q5)"
    using assms lim q1(1) q3(1) q4(1) l3 by (simp add: connection_activate_def conn_at_def perform_def Let_def swap_limits)
  moreover have "pool_frame p ?q5" using same_rest_frame [OF q1(3)] same_rest_frame [OF q3(3)] same_rest_frame [OF q4(3)]
    by (simp add: pool_frame_def)
  ultimately show ?thesis using q5 f1 f3 f4 by (intro exI [of _ ?q5]) simp
qed

subsection \<open>Checking out and in\<close>

lemma checkout_rep:
  assumes "rep0 p M" and "active_limit p \<le> idx" "idx < wait_limit p" and "tp_conn p ! idx = n"
  shows "\<exists>p'. connection_checkout p idx = Ok (0, p') \<and> rep0 p' (M(cn_id n \<mapsto> (Active, n))) \<and> pool_frame p p'
    \<and> tp_bitmask p' = tp_bitmask p \<and> tp_log p' = tp_log p \<and> heap_limit p' = heap_limit p \<and> (\<forall>i<heap_limit p. tp_conn p' ! i = tp_conn p ! i)
    \<and> active_limit p' = active_limit p + 1 \<and> tp_conn p' ! active_limit p = n"
proof -
  let ?L = "length (tp_conn p)" and ?a = "active_limit p"
  note lim = rep_limits [OF assms(1)]
  have ph: "phase_of p idx = phase_of p ?a" using assms(2) lim by (simp add: phase_of_def)
  obtain q where q: "swap_conn p idx ?a = Ok q" "rep q ?L M" "same_rest p q"
    "tp_conn q = (tp_conn p)[idx := tp_conn p ! ?a, ?a := tp_conn p ! idx]"
    by (rule rep_swap [OF assms(1) _ _ _ _ ph]) (use assms(2,3) lim in auto)
  note f = same_rest_fields [OF q(3)]
  have n: "tp_conn q ! ?a = n" using q(4) assms(2-4) lim by (simp add: nth_list_update)
  let ?q = "q\<lparr>active_limit := ?a + 1\<rparr>"
  have "rep ?q ?L (M(cn_id (tp_conn q ! ?a) \<mapsto> (phase_of ?q ?a, tp_conn q ! ?a)))"
    by (rule rep_shift [OF q(2)]) (use f lim assms(2,3) in \<open>auto simp: phase_of_def\<close>)
  moreover have "phase_of ?q ?a = Active" using f lim by (simp add: phase_of_def)
  moreover have "connection_checkout p idx = Ok (0, ?q)" using assms(2,3) q(1) by (simp add: connection_checkout_def swap_limits)
  moreover have "\<forall>i<heap_limit p. tp_conn ?q ! i = tp_conn p ! i" using q(4) assms(2) lim by simp
  ultimately show ?thesis using n f same_rest_frame [OF q(3)] by (intro exI [of _ ?q]) simp
qed

lemma checkin_rep:
  assumes "rep0 p M" and "heap_limit p \<le> idx" "idx < active_limit p" and "tp_conn p ! idx = n"
  shows "\<exists>p'. connection_checkin p idx = Ok (0, p') \<and> rep0 p' (M(cn_id n \<mapsto> (Waiting, n))) \<and> pool_frame p p'
    \<and> tp_bitmask p' = tp_bitmask p \<and> tp_log p' = tp_log p \<and> heap_limit p' = heap_limit p \<and> (\<forall>i<heap_limit p. tp_conn p' ! i = tp_conn p ! i)"
proof -
  let ?L = "length (tp_conn p)" and ?a = "active_limit p - 1"
  note lim = rep_limits [OF assms(1)]
  have ph: "phase_of p idx = phase_of p ?a" using assms(2,3) lim by (simp add: phase_of_def)
  obtain q where q: "swap_conn p idx ?a = Ok q" "rep q ?L M" "same_rest p q"
    "tp_conn q = (tp_conn p)[idx := tp_conn p ! ?a, ?a := tp_conn p ! idx]"
    by (rule rep_swap [OF assms(1) _ _ _ _ ph]) (use assms(2,3) lim in auto)
  note f = same_rest_fields [OF q(3)]
  have n: "tp_conn q ! ?a = n" using q(4) assms(2-4) lim by (simp add: nth_list_update)
  let ?q = "q\<lparr>active_limit := ?a\<rparr>"
  have "rep ?q ?L (M(cn_id (tp_conn q ! ?a) \<mapsto> (phase_of ?q ?a, tp_conn q ! ?a)))"
    by (rule rep_shift [OF q(2)]) (use f lim assms(2,3) in \<open>auto simp: phase_of_def\<close>)
  moreover have "phase_of ?q ?a = Waiting" using f lim assms(2,3) by (simp add: phase_of_def)
  moreover have "connection_checkin p idx = Ok (0, ?q)" using assms(2,3) q(1) by (simp add: connection_checkin_def swap_limits)
  moreover have "\<forall>i<heap_limit p. tp_conn ?q ! i = tp_conn p ! i" using q(4) assms(2,3) lim by simp
  ultimately show ?thesis using n f same_rest_frame [OF q(3)] by (intro exI [of _ ?q]) simp
qed

subsection \<open>Deactivation\<close>

text \<open>The last step of deactivating and of accepting: the connection at the boundary joins the heap.\<close>

lemma join_heap_rep:
  assumes "rep0 p M" and "heap_limit p \<le> idx" "idx < active_limit p" and "tp_conn p ! idx = n"
  shows "\<exists>p1 p'. swap_conn (p\<lparr>heap_limit := heap_limit p + 1\<rparr>) idx (heap_limit p) = Ok p1 \<and> decrease p1 (heap_limit p) = Ok p'
    \<and> heap_limit p1 = heap_limit p + 1
    \<and> rep0 p' (M(cn_id n \<mapsto> (Inactive, n))) \<and> pool_frame p p' \<and> tp_bitmask p' = tp_bitmask p \<and> tp_log p' = tp_log p
    \<and> heap_limit p' = heap_limit p + 1 \<and> (heap_ok (ts_of p) (heap_limit p) \<longrightarrow> heap_ok (ts_of p') (heap_limit p'))"
proof -
  let ?L = "length (tp_conn p)" and ?h = "heap_limit p"
  note lim = rep_limits [OF assms(1)]
  have ph: "phase_of p idx = phase_of p ?h" using assms(2,3) lim by (simp add: phase_of_def)
  obtain q where q: "swap_conn p idx ?h = Ok q" "rep q ?L M" "same_rest p q"
    "tp_conn q = (tp_conn p)[idx := tp_conn p ! ?h, ?h := tp_conn p ! idx]"
    by (rule rep_swap [OF assms(1) _ _ _ _ ph]) (use assms(2,3) lim in auto)
  note f = same_rest_fields [OF q(3)]
  have n: "tp_conn q ! ?h = n" using q(4) assms(2-4) lim by (simp add: nth_list_update)
  let ?q = "q\<lparr>heap_limit := ?h + 1\<rparr>"
  have "rep ?q ?L (M(cn_id (tp_conn q ! ?h) \<mapsto> (phase_of ?q ?h, tp_conn q ! ?h)))"
    by (rule rep_shift [OF q(2)]) (use f lim assms(2,3) in \<open>auto simp: phase_of_def\<close>)
  moreover have "phase_of ?q ?h = Inactive" by (simp add: phase_of_def)
  ultimately have r: "rep ?q ?L (M(cn_id n \<mapsto> (Inactive, n)))" using n by simp
  have hb: "heap_limit ?q \<le> ?L" "?h < heap_limit ?q" using lim assms(2,3) by simp_all
  obtain p' where p': "decrease ?q ?h = Ok p'" "rep p' ?L (M(cn_id n \<mapsto> (Inactive, n)))" "same_rest ?q p'"
    "heap_up (ts_of ?q) (heap_limit ?q) ?h \<Longrightarrow> heap_ok (ts_of p') (heap_limit ?q)"
    using decrease_rep [OF r hb] by auto
  have same: "ts_of q i = ts_of p i" if "i < ?h" for i using that q(4) assms(2) by simp
  have "heap_up (ts_of ?q) (heap_limit ?q) ?h" if "heap_ok (ts_of p) ?h"
    unfolding heap_up_def
  proof (intro allI impI)
    fix i assume i: "0 < i \<and> i < heap_limit ?q \<and> i \<noteq> ?h"
    then have "parent i < i" "i < ?h" using parent_less by auto
    moreover then have "parent i < ?h" by simp
    ultimately show "ts_of ?q (parent i) \<le> ts_of ?q i \<and> (parent i = ?h \<and> 0 < ?h \<longrightarrow> ts_of ?q (parent ?h) \<le> ts_of ?q i)"
      using that i same by (simp add: heap_ok_def)
  qed
  then have "heap_ok (ts_of p) ?h \<longrightarrow> heap_ok (ts_of p') (heap_limit p')"
    using p'(4) same_rest_fields [OF p'(3)] by simp
  moreover have "pool_frame p p'" using same_rest_frame [OF q(3)] same_rest_frame [OF p'(3)] pool_frame_trans by simp
  ultimately show ?thesis
    using q(1) p'(1,2) f same_rest_fields [OF p'(3)]
    by (intro exI [of _ ?q] exI [of _ p']) (simp add: swap_limits)
qed

lemma deactivate_rep:
  assumes "rep0 p M" and "heap_limit p \<le> idx" "idx < active_limit p" and "tp_conn p ! idx = n"
  shows "\<exists>p'. connection_deactivate ans p idx now = Ok (if ans (PollAdd (cn_fd n) (cn_id n)) (length (tp_log p)) then 0 else -1, p')
    \<and> rep0 p' (M(cn_id n \<mapsto> (Inactive, n\<lparr>cn_ts := now\<rparr>))) \<and> pool_frame p p' \<and> tp_bitmask p' = tp_bitmask p
    \<and> tp_log p' = tp_log p @ [PollAdd (cn_fd n) (cn_id n)] \<and> heap_limit p' = heap_limit p + 1
    \<and> (heap_ok (ts_of p) (heap_limit p) \<longrightarrow> heap_ok (ts_of p') (heap_limit p'))"
proof -
  let ?n = "n\<lparr>cn_ts := now\<rparr>"
  let ?q = "set_conn (p\<lparr>tp_log := tp_log p @ [PollAdd (cn_fd n) (cn_id n)]\<rparr>) idx ?n"
  note lim = rep_limits [OF assms(1)]
  have ph: "phase_of p idx = Active" using assms(2,3) by (simp add: phase_of_def)
  have "rep (set_conn p idx ?n) (length (tp_conn p)) (M(cn_id ?n \<mapsto> (phase_of p idx, ?n)))"
    by (rule rep_set [OF assms(1)]) (use assms lim in auto)
  moreover have q_eq: "?q = (set_conn p idx ?n)\<lparr>tp_log := tp_log p @ [PollAdd (cn_fd n) (cn_id n)]\<rparr>" by (simp add: set_conn_def)
  ultimately have r: "rep0 ?q (M(cn_id n \<mapsto> (Active, ?n)))" unfolding q_eq using ph by simp
  have q: "heap_limit ?q \<le> idx" "idx < active_limit ?q" "tp_conn ?q ! idx = ?n" "heap_limit ?q = heap_limit p"
    using assms(2,3) lim by (simp_all add: set_conn_def)
  obtain p1 p' where p': "swap_conn (?q\<lparr>heap_limit := heap_limit ?q + 1\<rparr>) idx (heap_limit ?q) = Ok p1" "decrease p1 (heap_limit ?q) = Ok p'"
    "heap_limit p1 = heap_limit ?q + 1" "rep0 p' (M(cn_id n \<mapsto> (Active, ?n), cn_id ?n \<mapsto> (Inactive, ?n)))" "pool_frame ?q p'"
    "tp_bitmask p' = tp_bitmask ?q" "tp_log p' = tp_log ?q" "heap_limit p' = heap_limit ?q + 1"
    "heap_ok (ts_of ?q) (heap_limit ?q) \<longrightarrow> heap_ok (ts_of p') (heap_limit p')"
    using join_heap_rep [OF r q(1-3)] by blast
  have same: "ts_of ?q i = ts_of p i" if "i < heap_limit p" for i using that assms(2) by (simp add: set_conn_def)
  have "heap_ok (ts_of ?q) (heap_limit p)" if "heap_ok (ts_of p) (heap_limit p)"
    unfolding heap_ok_def
  proof (intro allI impI)
    fix i assume i: "0 < i \<and> i < heap_limit p"
    then have "parent i < heap_limit p" using parent_less [of i] by simp
    then show "ts_of ?q (parent i) \<le> ts_of ?q i" using that i same by (simp add: heap_ok_def)
  qed
  moreover have "connection_deactivate ans p idx now = Ok (if ans (PollAdd (cn_fd n) (cn_id n)) (length (tp_log p)) then 0 else -1, p')"
    using assms(2-4) lim p'(1-3) by (simp add: connection_deactivate_def conn_at_def perform_def Let_def set_conn_def)
  moreover have "pool_frame p p'" using p'(5) by simp
  moreover have "tp_bitmask ?q = tp_bitmask p" "tp_log ?q = tp_log p @ [PollAdd (cn_fd n) (cn_id n)]" by (simp_all add: set_conn_def)
  ultimately show ?thesis using p'(4,6-9) q(4) by (intro exI [of _ p']) simp
qed

subsection \<open>Closing\<close>

lemma heap_ok_cong:
  assumes "\<And>i. i < n \<Longrightarrow> t' i = t i" and "heap_ok t n" shows "heap_ok t' n"
  unfolding heap_ok_def
proof (intro allI impI)
  fix i assume i: "0 < i \<and> i < n"
  then have "parent i < n" using parent_less [of i] by simp
  then show "t' (parent i) \<le> t' i" using assms i by (simp add: heap_ok_def)
qed

lemma close_heap_rep:
  assumes "rep p idx M" and "idx < wait_limit p"
  shows "\<exists>j p'. close_heap p idx = Ok (j, p') \<and> rep p' j M \<and> heap_limit p' \<le> j \<and> j < wait_limit p' \<and> wait_limit p' = wait_limit p
    \<and> pool_frame p p' \<and> tp_bitmask p' = tp_bitmask p \<and> tp_log p' = tp_log p
    \<and> (idx = 0 \<or> heap_limit p \<le> idx \<longrightarrow> heap_ok (ts_of p) (heap_limit p) \<longrightarrow> heap_ok (ts_of p') (heap_limit p'))"
proof (cases "idx < heap_limit p")
  case False
  then show ?thesis using assms by (intro exI [of _ idx] exI [of _ p]) (simp add: close_heap_def)
next
  case True
  let ?l = "heap_limit p - 1"
  note lim = rep_limits [OF assms(1)]
  have l: "idx \<le> ?l" "?l < wait_limit p" "phase_of p idx = phase_of p ?l" using True lim by (auto simp: phase_of_def)
  obtain q where q: "fill_hole p idx ?l = Ok q" "rep q ?l M" "same_rest p q" "tp_conn q = (tp_conn p)[idx := tp_conn p ! ?l]"
    by (rule rep_fill [OF assms(1) l])
  note f = same_rest_fields [OF q(3)]
  let ?q = "q\<lparr>heap_limit := ?l\<rparr>"
  have r: "rep ?q ?l M" by (rule rep_shift_hole [OF q(2)]) (use f lim True in \<open>auto simp: phase_of_def\<close>)
  have hb: "heap_limit ?q \<le> ?l" by simp
  obtain p' where p': "heapify ?q idx = Ok p'" "rep p' ?l M" "same_rest ?q p'"
    "heap_down (ts_of ?q) ?l idx \<Longrightarrow> heap_ok (ts_of p') ?l"
    using heapify_rep [OF r hb, of idx] by auto
  have "heap_ok (ts_of p') ?l" if z: "idx = 0" "heap_ok (ts_of p) (heap_limit p)"
  proof (rule p'(4), unfold heap_down_def, intro allI impI)
    fix i assume i: "0 < i \<and> i < ?l"
    then have "0 < i \<and> i < heap_limit p" by linarith
    then have "ts_of p (parent i) \<le> ts_of p i" using z(2) by (simp add: heap_ok_def)
    then show "(parent i \<noteq> idx \<longrightarrow> ts_of ?q (parent i) \<le> ts_of ?q i) \<and> (parent i = idx \<and> 0 < idx \<longrightarrow> ts_of ?q (parent idx) \<le> ts_of ?q i)"
      using z(1) q(4) i by simp
  qed
  moreover have "close_heap p idx = Ok (?l, p')"
    using True q(1) p'(1) same_rest_fields [OF p'(3)] by (simp add: close_heap_def fill_limits)
  moreover have "pool_frame p p'" using same_rest_frame [OF q(3)] same_rest_frame [OF p'(3)] pool_frame_trans by simp
  ultimately show ?thesis
    using p'(2) f same_rest_fields [OF p'(3)] True l(2) by (intro exI [of _ ?l] exI [of _ p']) simp
qed

lemma close_active_rep:
  assumes "rep p j M" and "heap_limit p \<le> j" "j < wait_limit p"
  shows "\<exists>k p'. close_active p j = Ok (k, p') \<and> rep p' k M \<and> active_limit p' \<le> k \<and> k < wait_limit p' \<and> wait_limit p' = wait_limit p
    \<and> pool_frame p p' \<and> tp_bitmask p' = tp_bitmask p \<and> tp_log p' = tp_log p \<and> heap_limit p' = heap_limit p
    \<and> (\<forall>i<heap_limit p. tp_conn p' ! i = tp_conn p ! i)"
proof (cases "j < active_limit p")
  case False
  then show ?thesis using assms by (intro exI [of _ j] exI [of _ p]) (simp add: close_active_def)
next
  case True
  let ?l = "active_limit p - 1"
  note lim = rep_limits [OF assms(1)]
  have l: "j \<le> ?l" "?l < wait_limit p" "phase_of p j = phase_of p ?l" using True lim assms(2) by (auto simp: phase_of_def)
  obtain q where q: "fill_hole p j ?l = Ok q" "rep q ?l M" "same_rest p q" "tp_conn q = (tp_conn p)[j := tp_conn p ! ?l]"
    by (rule rep_fill [OF assms(1) l])
  note f = same_rest_fields [OF q(3)]
  let ?q = "q\<lparr>active_limit := ?l\<rparr>"
  have "rep ?q ?l M" by (rule rep_shift_hole [OF q(2)]) (use f lim True assms(2) in \<open>auto simp: phase_of_def\<close>)
  moreover have "close_active p j = Ok (?l, ?q)" using True q(1) by (simp add: close_active_def fill_limits)
  moreover have "\<forall>i<heap_limit p. tp_conn ?q ! i = tp_conn p ! i" using q(4) assms(2) by simp
  ultimately show ?thesis
    using f same_rest_frame [OF q(3)] l(2) by (intro exI [of _ ?l] exI [of _ ?q]) simp
qed

lemma close_wait_rep:
  assumes "rep p k M" and "active_limit p \<le> k" "k < wait_limit p"
  shows "\<exists>p'. close_wait p k = Ok p' \<and> rep0 p' M \<and> pool_frame p p' \<and> tp_bitmask p' = tp_bitmask p \<and> tp_log p' = tp_log p
    \<and> heap_limit p' = heap_limit p \<and> (\<forall>i<heap_limit p. tp_conn p' ! i = tp_conn p ! i)"
proof -
  let ?l = "wait_limit p - 1"
  note lim = rep_limits [OF assms(1)]
  have l: "k \<le> ?l" "?l < wait_limit p" "phase_of p k = phase_of p ?l" using lim assms(2,3) by (auto simp: phase_of_def)
  obtain q where q: "fill_hole p k ?l = Ok q" "rep q ?l M" "same_rest p q" "tp_conn q = (tp_conn p)[k := tp_conn p ! ?l]"
    by (rule rep_fill [OF assms(1) l])
  note f = same_rest_fields [OF q(3)]
  let ?q = "q\<lparr>wait_limit := ?l\<rparr>"
  have "rep ?q ?l M" by (rule rep_drop [OF q(2)]) (use f lim assms(2,3) in auto)
  then have "rep0 ?q M" by (rule rep_no_hole) (use f lim in simp_all)
  moreover have "close_wait p k = Ok ?q" using assms(3) q(1) by (simp add: close_wait_def fill_limits)
  moreover have "\<forall>i<heap_limit p. tp_conn ?q ! i = tp_conn p ! i" using q(4) assms(2) lim by simp
  ultimately show ?thesis using f same_rest_frame [OF q(3)] by (intro exI [of _ ?q]) simp
qed

lemma remove_rep:
  assumes "rep0 p M" and "idx < wait_limit p" and "tp_conn p ! idx = n"
  shows "\<exists>p'. remove_conn p idx = Ok p' \<and> rep0 p' (M(cn_id n := None)) \<and> pool_frame p p' \<and> tp_bitmask p' = tp_bitmask p \<and> tp_log p' = tp_log p
    \<and> (idx = 0 \<or> heap_limit p \<le> idx \<longrightarrow> heap_ok (ts_of p) (heap_limit p) \<longrightarrow> heap_ok (ts_of p') (heap_limit p'))"
proof -
  have "rep p idx (M(cn_id n := None))" using rep_punch [OF assms(1) _ assms(2)] rep_limits [OF assms(1)] assms(3) by simp
  then obtain j q where q: "close_heap p idx = Ok (j, q)" "rep q j (M(cn_id n := None))" "heap_limit q \<le> j" "j < wait_limit q" "pool_frame p q"
    "tp_bitmask q = tp_bitmask p" "tp_log q = tp_log p"
    "idx = 0 \<or> heap_limit p \<le> idx \<longrightarrow> heap_ok (ts_of p) (heap_limit p) \<longrightarrow> heap_ok (ts_of q) (heap_limit q)"
    using close_heap_rep [OF _ assms(2)] by blast
  obtain k q1 where q1: "close_active q j = Ok (k, q1)" "rep q1 k (M(cn_id n := None))" "active_limit q1 \<le> k" "k < wait_limit q1" "pool_frame q q1"
    "tp_bitmask q1 = tp_bitmask q" "tp_log q1 = tp_log q" "heap_limit q1 = heap_limit q" "\<forall>i<heap_limit q. tp_conn q1 ! i = tp_conn q ! i"
    using close_active_rep [OF q(2-4)] by blast
  obtain p' where p': "close_wait q1 k = Ok p'" "rep0 p' (M(cn_id n := None))" "pool_frame q1 p'" "tp_bitmask p' = tp_bitmask q1" "tp_log p' = tp_log q1"
    "heap_limit p' = heap_limit q1" "\<forall>i<heap_limit q1. tp_conn p' ! i = tp_conn q1 ! i"
    using close_wait_rep [OF q1(2-4)] by blast
  have "heap_ok (ts_of p') (heap_limit p')" if "heap_ok (ts_of q) (heap_limit q)"
    by (rule heap_ok_cong [where t = "ts_of q"]) (use that q1(8,9) p'(6,7) in simp_all)
  moreover have "pool_frame p p'" using q(5) q1(5) p'(3) pool_frame_trans by blast
  ultimately show ?thesis
    using q q1 p' by (intro exI [of _ p']) (simp add: remove_conn_def)
qed

end
