(* ===== verification/TcpPoolSafe.thy ===== *)
theory TcpPoolSafe
  imports TcpPoolOps
begin

text \<open>
  The connection pool with its allocator of identifiers and its message queue: the state that the pool
  keeps as long as a servlet gives back only what it was given, and that no operation leaves it.
\<close>

subsection \<open>Identifiers\<close>

definition pool_inv :: "pool \<Rightarrow> conn_map \<Rightarrow> bool" where
  "pool_inv p M \<longleftrightarrow> rep0 p M
     \<and> (\<exists>bm. tp_bitmask p = Some bm \<and> bm_inv bm \<and> bm_size bm = length (tp_conn p) \<and> bm_used bm = dom M)"

lemma rep_card:
  assumes "rep0 p M"
  shows "card (dom M) = wait_limit p"
proof -
  let ?f = "\<lambda>i. cn_id (tp_conn p ! i)"
  note lim = rep_limits [OF assms]
  have "dom M = ?f ` {..<wait_limit p}"
  proof
    show "dom M \<subseteq> ?f ` {..<wait_limit p}" using rep_dom [OF assms] by blast
    show "?f ` {..<wait_limit p} \<subseteq> dom M" using repD(3) [OF assms] lim(3) by fastforce
  qed
  moreover have "inj_on ?f {..<wait_limit p}" using rep_id_inj [OF assms] lim(3) by (intro inj_onI) simp
  ultimately show ?thesis by (simp add: card_image)
qed

lemma close_inv:
  assumes "pool_inv p M" and "M k = Some (ph, n)"
  shows "\<exists>p'. connection_close ans p (tp_index p ! k) = Ok p' \<and> pool_inv p' (M(k := None)) \<and> pool_frame p p'
    \<and> tp_log p' = tp_log p @ Closed (cn_fd n) # (case cn_data n of Some d \<Rightarrow> if cf_dispose (tp_conf p) then [Disposed d] else [] | None \<Rightarrow> [])
    \<and> (tp_index p ! k = 0 \<or> ph \<noteq> Inactive \<longrightarrow> heap_ok (ts_of p) (heap_limit p) \<longrightarrow> heap_ok (ts_of p') (heap_limit p'))"
proof -
  have r: "rep0 p M" using assms(1) by (simp add: pool_inv_def)
  obtain bm where bm: "tp_bitmask p = Some bm" "bm_inv bm" "bm_size bm = length (tp_conn p)" "bm_used bm = dom M"
    using assms(1) by (auto simp: pool_inv_def)
  obtain i where i: "i < wait_limit p" "tp_conn p ! i = n" "cn_id n = k" "phase_of p i = ph" "tp_index p ! k = i"
    using rep_find [OF r assms(2)] by metis
  have len: "i < length (tp_conn p)" using i(1) rep_limits [OF r] by simp
  obtain bm' where bm': "bitmask_dealloc bm k = Ok bm'" "bm_inv bm'" "bm_size bm' = bm_size bm" "bm_used bm' = bm_used bm - {k}"
    using bm.dealloc_used [OF bm(2), of k] bm(4) assms(2) by blast
  let ?es = "Closed (cn_fd n) # (case cn_data n of Some d \<Rightarrow> if cf_dispose (tp_conf p) then [Disposed d] else [] | None \<Rightarrow> [])"
  let ?q = "p\<lparr>tp_log := tp_log p @ ?es\<rparr>"
  have "\<exists>ok. release_connection_object ans p i = Ok (ok, ?q)"
    using i(2) len by (cases "cn_data n"; cases "cf_dispose (tp_conf p)") (auto simp: release_connection_object_def conn_at_def perform_def)
  then obtain ok where rel: "release_connection_object ans p i = Ok (ok, ?q)" by blast
  have r': "rep0 (?q\<lparr>tp_bitmask := Some bm'\<rparr>) M" "i < wait_limit (?q\<lparr>tp_bitmask := Some bm'\<rparr>)" "tp_conn (?q\<lparr>tp_bitmask := Some bm'\<rparr>) ! i = n"
    using r i by simp_all
  obtain p' where p': "remove_conn (?q\<lparr>tp_bitmask := Some bm'\<rparr>) i = Ok p'" "rep0 p' (M(k := None))" "pool_frame ?q p'"
    "tp_bitmask p' = Some bm'" "tp_log p' = tp_log ?q"
    "i = 0 \<or> heap_limit p \<le> i \<longrightarrow> heap_ok (ts_of p) (heap_limit p) \<longrightarrow> heap_ok (ts_of p') (heap_limit p')"
    using remove_rep [OF r'] i(3) by auto
  have "connection_close ans p i = Ok p'"
    using rel len i(2,3) bm(1) bm'(1) p'(1) by (simp add: connection_close_def conn_at_def get_bitmask_def)
  moreover have "pool_inv p' (M(k := None))"
    using p'(2,4) bm' bm(3,4) pool_frame_fields(8) [OF p'(3)] by (simp add: pool_inv_def)
  moreover have "ph \<noteq> Inactive \<Longrightarrow> heap_limit p \<le> i" using i(4) by (auto simp: phase_of_def split: if_splits)
  ultimately show ?thesis using p'(3,5,6) i(5) by (intro exI [of _ p']) auto
qed

lemma accept_inv:
  assumes "pool_inv p M"
  shows "\<exists>p' M'. accept_one ans now (fd, nb) p = Ok p' \<and> pool_inv p' M' \<and> pool_frame p p'
    \<and> (M' = M \<and> tp_log p' = tp_log p @ [Closed fd]
       \<or> (\<exists>k. M k = None \<and> nb \<and> M' = M(k \<mapsto> (Inactive, \<lparr>cn_data = None, cn_id = k, cn_fd = fd, cn_ts = now\<rparr>))
            \<and> tp_log p' = tp_log p @ [PollAdd fd k]))
    \<and> (heap_ok (ts_of p) (heap_limit p) \<longrightarrow> heap_ok (ts_of p') (heap_limit p'))"
proof -
  have r: "rep0 p M" using assms(1) by (simp add: pool_inv_def)
  note lim = rep_limits [OF r]
  obtain bm where bm: "tp_bitmask p = Some bm" "bm_inv bm" "bm_size bm = length (tp_conn p)" "bm_used bm = dom M"
    using assms(1) by (auto simp: pool_inv_def)
  show ?thesis
    using bm(2)
  proof (cases rule: bm.alloc_cases)
    case full
    let ?p = "p\<lparr>tp_log := tp_log p @ [Closed fd]\<rparr>"
    have "accept_one ans now (fd, nb) p = Ok ?p"
      using full(3) bm(1) by (simp add: accept_one_def get_bitmask_def perform_def)
    moreover have "pool_inv ?p M" using r bm by (simp add: pool_inv_def)
    ultimately show ?thesis by (intro exI [of _ ?p] exI [of _ M]) simp
  next
    case (fresh k bm')
    have k: "M k = None" "k < length (tp_conn p)" using fresh(3,4) bm(3,4) by (metis domIff, simp)
    show ?thesis
    proof (cases nb)
      case False
      obtain bm2 where bm2: "bitmask_dealloc bm' k = Ok bm2" "bm_inv bm2" "bm_size bm2 = bm_size bm'" "bm_used bm2 = bm_used bm' - {k}"
        using bm.dealloc_used [OF fresh(5), of k] fresh(7) by auto
      let ?p = "p\<lparr>tp_bitmask := Some bm2, tp_log := tp_log p @ [Closed fd]\<rparr>"
      have "accept_one ans now (fd, nb) p = Ok ?p"
        using fresh(2) bm(1) bm2(1) False by (simp add: accept_one_def get_bitmask_def perform_def)
      moreover have "pool_inv ?p M" using r bm bm2 fresh k(1) by (auto simp: pool_inv_def)
      ultimately show ?thesis by (intro exI [of _ ?p] exI [of _ M]) simp
    next
      case True
      let ?n = "\<lparr>cn_data = None, cn_id = k, cn_fd = fd, cn_ts = now\<rparr>"
      let ?b = "p\<lparr>tp_bitmask := Some bm'\<rparr>"
      have "card (dom M) < card (insert k (dom M))" using k(1) bm.finite_used [OF bm(2)] bm(4) by (simp add: domIff card_insert_if)
      also have "\<dots> \<le> length (tp_conn p)" using bm.card_used [OF fresh(5)] fresh(6,7) bm(3,4) by simp
      finally have w: "wait_limit p < length (tp_conn p)" using rep_card [OF r] by simp
      let ?q = "?b\<lparr>tp_conn := (tp_conn p)[wait_limit p := ?n], tp_index := (tp_index p)[k := wait_limit p], wait_limit := wait_limit p + 1\<rparr>"
      have q: "rep0 ?q (M(k \<mapsto> (Waiting, ?n)))"
        using rep_push [of ?b M ?n] r k w by simp
      have ql: "active_limit ?q \<le> wait_limit p" "wait_limit p < wait_limit ?q" "tp_conn ?q ! wait_limit p = ?n" using lim w by simp_all
      obtain q1 where q1: "connection_checkout ?q (wait_limit p) = Ok (0, q1)" "rep0 q1 (M(k \<mapsto> (Waiting, ?n), k \<mapsto> (Active, ?n)))" "pool_frame ?q q1"
        "tp_bitmask q1 = tp_bitmask ?q" "tp_log q1 = tp_log ?q" "heap_limit q1 = heap_limit ?q" "\<forall>i<heap_limit ?q. tp_conn q1 ! i = tp_conn ?q ! i"
        "active_limit q1 = active_limit ?q + 1" "tp_conn q1 ! active_limit ?q = ?n"
        using checkout_rep [OF q ql] by auto
      have c1: "swap_conn (?q\<lparr>active_limit := active_limit p + 1\<rparr>) (wait_limit p) (active_limit p) = Ok q1"
        using q1(1) lim by (auto simp: connection_checkout_def result_simps split: if_splits)
      have f1: "tp_conn ?q = (tp_conn p)[wait_limit p := ?n]" "heap_limit ?q = heap_limit p" by simp_all
      have at: "heap_limit q1 \<le> active_limit p" "active_limit p < active_limit q1" "tp_conn q1 ! active_limit p = ?n"
        using q1(6,8,9) lim by simp_all
      obtain q2 p1 where p1: "swap_conn (q1\<lparr>heap_limit := heap_limit q1 + 1\<rparr>) (active_limit p) (heap_limit q1) = Ok q2"
        "decrease q2 (heap_limit q1) = Ok p1" "heap_limit q2 = heap_limit q1 + 1"
        "rep0 p1 (M(k \<mapsto> (Waiting, ?n), k \<mapsto> (Active, ?n), cn_id ?n \<mapsto> (Inactive, ?n)))" "pool_frame q1 p1"
        "tp_bitmask p1 = tp_bitmask q1" "tp_log p1 = tp_log q1" "heap_limit p1 = heap_limit q1 + 1"
        "heap_ok (ts_of q1) (heap_limit q1) \<longrightarrow> heap_ok (ts_of p1) (heap_limit p1)"
        using join_heap_rep [OF q1(2) at] by blast
      let ?p = "p1\<lparr>tp_log := tp_log p1 @ [PollAdd fd k]\<rparr>"
      have "accept_one ans now (fd, nb) p = add_connection ans now fd k ?b"
        using fresh(2) bm(1) True by (simp add: accept_one_def get_bitmask_def)
      also have "\<dots> = Ok ?p"
        using w k(2) lim c1 p1(1-3) q1(8)
        by (simp add: add_connection_def Let_def perform_def)
      finally have acc: "accept_one ans now (fd, nb) p = Ok ?p" .
      have fr: "pool_frame p ?p"
        using pool_frame_trans [OF q1(3) p1(5)] by (simp add: pool_frame_def)
      have "pool_inv ?p (M(k \<mapsto> (Inactive, ?n)))"
        using p1(4,6) q1(4) fresh(5-7) bm(3,4) pool_frame_fields(8) [OF fr] by (simp add: pool_inv_def)
      moreover have "heap_ok (ts_of ?p) (heap_limit ?p)" if "heap_ok (ts_of p) (heap_limit p)"
      proof -
        have "heap_ok (ts_of q1) (heap_limit q1)"
          by (rule heap_ok_cong [where t = "ts_of p"]) (use that q1(6,7) lim in simp_all)
        then show ?thesis using p1(9) by simp
      qed
      ultimately show ?thesis
        using acc fr True k(1) p1(7) q1(5) by (intro exI [of _ ?p] exI [of _ "M(k \<mapsto> (Inactive, ?n))"]) auto
    qed
  qed
qed

subsection \<open>Events and messages\<close>

lemma pool_inv_keep:
  assumes "pool_inv p M" and "rep0 p' M'" and "dom M' = dom M" and "pool_frame p p'" and "tp_bitmask p' = tp_bitmask p"
  shows "pool_inv p' M'"
  using assms pool_frame_fields(8) [OF assms(4)] by (auto simp: pool_inv_def)

lemma dom_upd_same: "M k = Some x \<Longrightarrow> dom (M(k \<mapsto> y)) = dom M"
  by (auto simp: domI)

lemma set_data_rep:
  assumes "rep0 p M" and "M k = Some (ph, n)"
  shows "\<exists>i q. tp_index p ! k = i \<and> i < length (tp_conn p) \<and> k < length (tp_index p) \<and> tp_conn p ! i = n \<and> cn_id n = k \<and> phase_of p i = ph
    \<and> q = set_conn p i (n\<lparr>cn_data := d\<rparr>) \<and> rep0 q (M(k \<mapsto> (ph, n\<lparr>cn_data := d\<rparr>)))
    \<and> tp_conn q ! i = n\<lparr>cn_data := d\<rparr> \<and> phase_of q i = ph \<and> pool_frame p q \<and> tp_bitmask q = tp_bitmask p \<and> tp_log q = tp_log p
    \<and> heap_limit q = heap_limit p \<and> active_limit q = active_limit p \<and> wait_limit q = wait_limit p \<and> i < wait_limit p \<and> (ts_of q = ts_of p)"
proof -
  obtain i where i: "i < wait_limit p" "i \<noteq> length (tp_conn p)" "tp_conn p ! i = n" "cn_id n = k" "phase_of p i = ph" "tp_index p ! k = i" "k < length (tp_conn p)"
    by (rule rep_find [OF assms])
  note lim = rep_limits [OF assms(1)]
  have "rep0 (set_conn p i (n\<lparr>cn_data := d\<rparr>)) (M(cn_id (n\<lparr>cn_data := d\<rparr>) \<mapsto> (phase_of p i, n\<lparr>cn_data := d\<rparr>)))"
    using rep_set [OF assms(1) i(1,2), of "n\<lparr>cn_data := d\<rparr>"] i(3) by simp
  moreover have "ts_of (set_conn p i (n\<lparr>cn_data := d\<rparr>)) = ts_of p"
    using i lim by (auto simp: fun_eq_iff set_conn_def nth_list_update)
  ultimately show ?thesis using i lim by (intro exI [of _ i]) (auto simp: set_conn_def phase_of_def pool_frame_def)
qed

lemma phase_range:
  assumes "phase_of p i = ph"
  shows "ph = Inactive \<Longrightarrow> i < heap_limit p" "ph = Active \<Longrightarrow> heap_limit p \<le> i \<and> i < active_limit p" "ph = Waiting \<Longrightarrow> active_limit p \<le> i"
  using assms by (auto simp: phase_of_def split: if_splits)

text \<open>What a message does to the connection it names.\<close>

definition msg_update :: "int \<Rightarrow> queue_message \<Rightarrow> conn_node \<Rightarrow> conn_map \<Rightarrow> conn_map" where
  "msg_update now m n M = (case qm_kind m of
       QM_DEACTIVATE \<Rightarrow> M(qm_id m \<mapsto> (Inactive, n\<lparr>cn_data := qm_data m, cn_ts := now\<rparr>))
     | QM_CLOSE \<Rightarrow> M(qm_id m := None)
     | QM_CHECKIN \<Rightarrow> M(qm_id m \<mapsto> (Waiting, n\<lparr>cn_data := qm_data m\<rparr>))
     | QM_INVALID \<Rightarrow> M)"

lemma message_inv:
  assumes "pool_inv p M" and "M (qm_id m) = Some (Active, n)" and "qm_kind m \<noteq> QM_INVALID"
  shows "\<exists>p'. process_queue_message ans now m p
      = Ok (if qm_kind m = QM_DEACTIVATE \<and> \<not> ans (PollAdd (cn_fd n) (qm_id m)) (length (tp_log p)) then -1 else 0, p')
    \<and> pool_inv p' (msg_update now m n M) \<and> pool_frame p p'
    \<and> (heap_ok (ts_of p) (heap_limit p) \<longrightarrow> heap_ok (ts_of p') (heap_limit p'))"
proof -
  have r: "rep0 p M" using assms(1) by (simp add: pool_inv_def)
  let ?n = "n\<lparr>cn_data := qm_data m\<rparr>"
  obtain i q where i: "tp_index p ! qm_id m = i" "i < length (tp_conn p)" "qm_id m < length (tp_index p)" "tp_conn p ! i = n" "cn_id n = qm_id m"
    and q: "q = set_conn p i ?n" "rep0 q (M(qm_id m \<mapsto> (Active, ?n)))" "tp_conn q ! i = ?n" "phase_of q i = Active" "pool_frame p q"
      "tp_bitmask q = tp_bitmask p" "tp_log q = tp_log p" "heap_limit q = heap_limit p" "ts_of q = ts_of p"
    using set_data_rep [OF r assms(2), of "qm_data m"] by blast
  have at: "index_at p (qm_id m) = Ok i" "conn_at p i = Ok n" using i by (simp_all add: index_at_def conn_at_def)
  have d: "dom (M(qm_id m \<mapsto> x)) = dom M" for x using dom_upd_same [of M, OF assms(2)] .
  show ?thesis
  proof (cases "qm_kind m")
    case QM_DEACTIVATE
    have range: "heap_limit q \<le> i" "i < active_limit q" using phase_range(2) [OF q(4)] by simp_all
    obtain p' where p': "connection_deactivate ans q i now = Ok (if ans (PollAdd (cn_fd ?n) (cn_id ?n)) (length (tp_log q)) then 0 else -1, p')"
      "rep0 p' (M(qm_id m \<mapsto> (Active, ?n), cn_id ?n \<mapsto> (Inactive, ?n\<lparr>cn_ts := now\<rparr>)))" "pool_frame q p'" "tp_bitmask p' = tp_bitmask q"
      "heap_ok (ts_of q) (heap_limit q) \<longrightarrow> heap_ok (ts_of p') (heap_limit p')"
      using deactivate_rep [OF q(2) range q(3), of ans now] by blast
    have fr: "pool_frame p p'" using q(5) p'(3) pool_frame_trans by blast
    have "pool_inv p' (msg_update now m n M)"
      by (rule pool_inv_keep [OF assms(1) _ _ fr]) (use p'(2,4) q(6) i(5) QM_DEACTIVATE d in \<open>simp_all add: msg_update_def\<close>)
    then show ?thesis
      using p'(1,5) q(1,7,8,9) at i(5) QM_DEACTIVATE fr by (intro exI [of _ p']) (simp add: process_queue_message_def)
  next
    case QM_CLOSE
    then show ?thesis
      using close_inv [OF assms(1,2), of ans] at(1) i(1) by (auto simp: process_queue_message_def msg_update_def)
  next
    case QM_CHECKIN
    have range: "heap_limit q \<le> i" "i < active_limit q" using phase_range(2) [OF q(4)] by simp_all
    obtain p' where p': "connection_checkin q i = Ok (0, p')"
      "rep0 p' (M(qm_id m \<mapsto> (Active, ?n), cn_id ?n \<mapsto> (Waiting, ?n)))" "pool_frame q p'" "tp_bitmask p' = tp_bitmask q"
      "heap_limit p' = heap_limit q" "\<forall>i<heap_limit q. tp_conn p' ! i = tp_conn q ! i"
      using checkin_rep [OF q(2) range q(3)] by blast
    have fr: "pool_frame p p'" using q(5) p'(3) pool_frame_trans by blast
    have "pool_inv p' (msg_update now m n M)"
      by (rule pool_inv_keep [OF assms(1) _ _ fr]) (use p'(2,4) q(6) i(5) QM_CHECKIN d in \<open>simp_all add: msg_update_def\<close>)
    moreover have "heap_ok (ts_of p') (heap_limit p')" if "heap_ok (ts_of p) (heap_limit p)"
      by (rule heap_ok_cong [where t = "ts_of q"]) (use that p'(5,6) q(8,9) in simp_all)
    ultimately show ?thesis
      using p'(1) q(1) at QM_CHECKIN fr by (intro exI [of _ p']) (simp add: process_queue_message_def)
  qed (use assms(3) in simp)
qed

lemma activate_inv:
  assumes "pool_inv p M" and "M k = Some (Inactive, n)"
  shows "\<exists>rc p' M'. connection_activate ans p (tp_index p ! k) = Ok (rc, p') \<and> pool_inv p' M' \<and> pool_frame p p'
    \<and> (if ans (PollDel (cn_fd n)) (length (tp_log p)) then rc = 0 \<and> M' = M(k \<mapsto> (Waiting, n)) else rc = -1 \<and> M' = M)"
proof -
  have r: "rep0 p M" using assms(1) by (simp add: pool_inv_def)
  obtain i where i: "i < wait_limit p" "tp_conn p ! i = n" "cn_id n = k" "phase_of p i = Inactive" "tp_index p ! k = i"
    using rep_find [OF r assms(2)] by metis
  have h: "i < heap_limit p" using phase_range(1) [OF i(4)] by simp
  show ?thesis
  proof (cases "ans (PollDel (cn_fd n)) (length (tp_log p))")
    case True
    obtain p' where p': "connection_activate ans p i = Ok (0, p')" "rep0 p' (M(k \<mapsto> (Waiting, n)))" "pool_frame p p'" "tp_bitmask p' = tp_bitmask p"
      using activate_rep [OF r h i(2), of ans] True i(3) by blast
    then have "pool_inv p' (M(k \<mapsto> (Waiting, n)))"
      by (intro pool_inv_keep [OF assms(1) _ dom_upd_same [of M, OF assms(2)]]) simp_all
    then show ?thesis using True p'(1,3) i(5) by auto
  next
    case False
    let ?p = "p\<lparr>tp_log := tp_log p @ [PollDel (cn_fd n)]\<rparr>"
    have "connection_activate ans p i = Ok (-1, ?p)"
      using False h i(2) rep_limits [OF r] i(1) by (simp add: connection_activate_def conn_at_def perform_def)
    moreover have "pool_inv ?p M" using assms(1) by (simp add: pool_inv_def)
    ultimately show ?thesis using False i(5) by (intro exI [of _ "-1"] exI [of _ ?p] exI [of _ M]) simp
  qed
qed

lemma take_inv:
  assumes "pool_inv p M" and "\<not> tp_killed p" and "active_limit p \<noteq> wait_limit p"
  shows "\<exists>k n p'. M k = Some (Waiting, n) \<and> take_connection p = Ok (Some \<lparr>ci_fd = cn_fd n, ci_idx = k, ci_data = cn_data n\<rparr>, p')
    \<and> pool_inv p' (M(k \<mapsto> (Active, n\<lparr>cn_data := None\<rparr>))) \<and> pool_frame p p'
    \<and> (heap_ok (ts_of p) (heap_limit p) \<longrightarrow> heap_ok (ts_of p') (heap_limit p'))"
proof -
  have r: "rep0 p M" using assms(1) by (simp add: pool_inv_def)
  note lim = rep_limits [OF r]
  define i where "i = wait_limit p - 1"
  have i: "i < wait_limit p" "active_limit p \<le> i" "i \<noteq> length (tp_conn p)" using assms(3) lim by (auto simp: i_def)
  define n where "n = tp_conn p ! i"
  have M: "M (cn_id n) = Some (Waiting, n)" "tp_index p ! cn_id n = i"
    using repD [OF r i(1,3)] i(2) lim(1) by (auto simp: n_def phase_of_def)
  let ?n = "n\<lparr>cn_data := None\<rparr>"
  obtain q where q: "q = set_conn p i ?n" "rep0 q (M(cn_id n \<mapsto> (Waiting, ?n)))" "tp_conn q ! i = ?n" "phase_of q i = Waiting" "pool_frame p q"
      "tp_bitmask q = tp_bitmask p" "heap_limit q = heap_limit p" "ts_of q = ts_of p" "wait_limit q = wait_limit p"
    using set_data_rep [OF r M(1), of None] M(2) by blast
  have range: "active_limit q \<le> i" "i < wait_limit q" using phase_range(3) [OF q(4)] i(1) q(9) by simp_all
  obtain p' where p': "connection_checkout q i = Ok (0, p')" "rep0 p' (M(cn_id n \<mapsto> (Waiting, ?n), cn_id ?n \<mapsto> (Active, ?n)))" "pool_frame q p'"
    "tp_bitmask p' = tp_bitmask q" "heap_limit p' = heap_limit q" "\<forall>i<heap_limit q. tp_conn p' ! i = tp_conn q ! i"
    using checkout_rep [OF q(2) range q(3)] by blast
  have fr: "pool_frame p p'" using q(5) p'(3) pool_frame_trans by blast
  have "pool_inv p' (M(cn_id n \<mapsto> (Active, ?n)))"
    by (rule pool_inv_keep [OF assms(1) _ dom_upd_same [of M, OF M(1)] fr]) (use p'(2,4) q(6) in simp_all)
  moreover have "heap_ok (ts_of p') (heap_limit p')" if "heap_ok (ts_of p) (heap_limit p)"
    by (rule heap_ok_cong [where t = "ts_of q"]) (use that p'(5,6) q(7,8) in simp_all)
  moreover have "take_connection p = Ok (Some \<lparr>ci_fd = cn_fd n, ci_idx = cn_id n, ci_data = cn_data n\<rparr>, p')"
    using assms(2) i p'(1) q(1) lim unfolding n_def i_def by (simp add: take_connection_def conn_at_def Let_def)
  ultimately show ?thesis using M(1) fr by (intro exI [of _ "cn_id n"] exI [of _ n] exI [of _ p']) simp
qed

subsection \<open>Expiry\<close>

definition expired :: "int \<Rightarrow> pool \<Rightarrow> (phase \<times> conn_node) option \<Rightarrow> bool" where
  "expired now p e = (case e of Some (Inactive, n) \<Rightarrow> cn_ts n + cf_ttl (tp_conf p) \<le> now | _ \<Rightarrow> False)"

lemma expiredD: "expired now p e \<Longrightarrow> \<exists>n. e = Some (Inactive, n) \<and> cn_ts n + cf_ttl (tp_conf p) \<le> now"
  unfolding expired_def by (cases e) (auto split: phase.splits prod.splits intro: phase.exhaust)

text \<open>Only connections that were inactive for too long are closed, and all of them when the heap is in order.\<close>

lemma expire_inv:
  assumes "pool_inv p M"
  shows "\<exists>p' M'. expire ans now p = Ok p' \<and> pool_inv p' M' \<and> pool_frame p p' \<and> (\<forall>k. M' k = M k \<or> M' k = None \<and> expired now p (M k))
    \<and> (heap_ok (ts_of p) (heap_limit p) \<longrightarrow> heap_ok (ts_of p') (heap_limit p') \<and> (\<forall>k. \<not> expired now p (M' k)))"
  using assms
proof (induction ans now p arbitrary: M rule: expire.induct)
  case (1 ans now p)
  have r: "rep0 p M" using 1(2) by (simp add: pool_inv_def)
  note lim = rep_limits [OF r]
  have found: "\<exists>i<heap_limit p. tp_conn p ! i = n" if "M k = Some (Inactive, n)" for k n
    using rep_find [OF r that] phase_range(1) by metis
  show ?case
  proof (cases "0 < heap_limit p \<and> ts_of p 0 + cf_ttl (tp_conf p) \<le> now")
    case False
    have "\<not> expired now p (M k)" if "heap_ok (ts_of p) (heap_limit p)" for k
    proof
      assume "expired now p (M k)"
      then obtain n where n: "M k = Some (Inactive, n)" "cn_ts n + cf_ttl (tp_conf p) \<le> now"
        using expiredD by blast
      obtain i where i: "i < heap_limit p" "tp_conn p ! i = n" using found [OF n(1)] by blast
      then show False using False n(2) heap_ok_root [OF that i(1)] by auto
    qed
    moreover have "expire ans now p = Ok p"
      using False lim by (subst expire.simps) (auto simp: conn_at_def)
    ultimately show ?thesis using 1(2) by (intro exI [of _ p] exI [of _ M]) simp
  next
    case True
    define n where "n = tp_conn p ! 0"
    have w: "0 < wait_limit p" "0 \<noteq> length (tp_conn p)" using True lim by auto
    have M: "M (cn_id n) = Some (Inactive, n)" "tp_index p ! cn_id n = 0"
      using repD [OF r w] True by (auto simp: n_def phase_of_def)
    obtain p1 where p1: "connection_close ans p 0 = Ok p1" "pool_inv p1 (M(cn_id n := None))" "pool_frame p p1"
      "heap_ok (ts_of p) (heap_limit p) \<longrightarrow> heap_ok (ts_of p1) (heap_limit p1)"
      using close_inv [OF 1(2) M(1), of ans] M(2) by auto
    have cf: "expired now p1 e = expired now p e" for e by (simp only: expired_def pool_frame_fields(1) [OF p1(3)])
    have at: "conn_at p 0 = Ok n" using w by (simp add: conn_at_def n_def)
    have old: "expired now p (M (cn_id n))" using M(1) True by (simp add: expired_def n_def)
    obtain p' M' where p': "expire ans now p1 = Ok p'" "pool_inv p' M'" "pool_frame p1 p'"
      "\<forall>k. M' k = (M(cn_id n := None)) k \<or> M' k = None \<and> expired now p1 ((M(cn_id n := None)) k)"
      "heap_ok (ts_of p1) (heap_limit p1) \<longrightarrow> heap_ok (ts_of p') (heap_limit p') \<and> (\<forall>k. \<not> expired now p1 (M' k))"
      using 1(1) [OF _ at _ p1(1,2)] True by (auto simp: n_def)
    have "\<forall>k. M' k = M k \<or> M' k = None \<and> expired now p (M k)"
    proof
      fix k
      show "M' k = M k \<or> M' k = None \<and> expired now p (M k)"
        using p'(4) [rule_format, of k] cf old by (cases "k = cn_id n") auto
    qed
    moreover have "expire ans now p = Ok p'" using True at p1(1) p'(1) by (subst expire.simps) (auto simp: n_def)
    moreover have "pool_frame p p'" using p1(3) p'(3) pool_frame_trans by blast
    ultimately show ?thesis using p'(2,5) p1(4) cf by (intro exI [of _ p'] exI [of _ M']) auto
  qed
qed

subsection \<open>The message queue\<close>

definition tp_put :: "queue_message \<Rightarrow> pool \<Rightarrow> pool" where
  "tp_put m p = p\<lparr>tp_queue := (tp_queue p)[queue_slot p (tp_q_rear p) := m], tp_q_rear := tp_q_rear p + 1\<rparr>"

definition tp_skip :: "nat \<Rightarrow> pool \<Rightarrow> pool" where
  "tp_skip n p = p\<lparr>tp_q_front := tp_q_front p + of_nat n\<rparr>"

lemma queue_slot_ring: "queue_slot p pos = ring_slot (tp_q_mask p + 1) pos"
  by (simp add: queue_slot_def ring_slot_def)

interpretation tr: ring "\<lambda>p. tp_q_mask p + 1" tp_q_front tp_q_rear tp_queue tp_put tp_skip
  by unfold_locales (simp_all add: tp_put_def tp_skip_def queue_slot_ring)

abbreviation pending :: "pool \<Rightarrow> queue_message list" where
  "pending p \<equiv> ring_contents (tp_q_mask p + 1) (tp_q_front p) (tp_q_rear p) (tp_queue p)"

abbreviation pending_ids :: "pool \<Rightarrow> nat list" where
  "pending_ids p \<equiv> map qm_id (pending p)"

definition ids_in :: "phase \<Rightarrow> conn_map \<Rightarrow> nat set" where
  "ids_in ph M = {k. \<exists>n. M k = Some (ph, n)}"

text \<open>
  \<open>H\<close> has the connections that servlets hold. Every active connection is held by a servlet or has one
  message in the queue.
\<close>

definition queue_ok :: "pool \<Rightarrow> conn_map \<Rightarrow> nat set \<Rightarrow> bool" where
  "queue_ok p M H \<longleftrightarrow> ring_wf (tp_q_mask p + 1) (tp_q_front p) (tp_q_rear p) (tp_queue p) \<and> length (tp_conn p) \<le> length (tp_queue p)
     \<and> distinct (pending_ids p) \<and> (\<forall>m\<in>set (pending p). qm_kind m \<noteq> QM_INVALID)
     \<and> H \<inter> set (pending_ids p) = {} \<and> ids_in Active M = H \<union> set (pending_ids p)"

definition adds_succeed :: "answers \<Rightarrow> bool" where
  "adds_succeed ans \<longleftrightarrow> (\<forall>fd k j. ans (PollAdd fd k) j)"

lemma queue_ok_frame:
  assumes "queue_ok p M H" and "pool_frame p p'" and "ids_in Active M' = ids_in Active M"
  shows "queue_ok p' M' H"
  using assms(1,3) pool_frame_fields [OF assms(2)] by (simp add: queue_ok_def)

lemma msg_update_other: "k \<noteq> qm_id m \<Longrightarrow> msg_update now m n M k = M k"
  by (cases "qm_kind m") (simp_all add: msg_update_def)

lemma msg_update_active:
  assumes "qm_kind m \<noteq> QM_INVALID"
  shows "ids_in Active (msg_update now m n M) = ids_in Active M - {qm_id m}"
  using assms by (cases "qm_kind m") (auto simp: msg_update_def ids_in_def)

text \<open>The rest of the pool, which the messages leave alone.\<close>

definition calm :: "pool \<Rightarrow> pool \<Rightarrow> bool" where
  "calm p p' \<longleftrightarrow> length (tp_conn p') = length (tp_conn p) \<and> tp_conf p' = tp_conf p \<and> tp_killed p' = tp_killed p"

lemma calm_simps: "calm p p" "calm p q \<Longrightarrow> calm q r \<Longrightarrow> calm p r" "pool_frame p p' \<Longrightarrow> calm p p'"
  using pool_frame_fields [of p p'] by (simp_all add: calm_def)

lemma queue_ok_processed:
  assumes "queue_ok p M H" and "pending p = m # ms" and "pool_frame p p'" and "ids_in Active M' = ids_in Active M - {qm_id m}"
  shows "queue_ok (tp_skip 1 p') M' H" and "pending (tp_skip 1 p') = ms" and "ring_length (tp_q_front p) (tp_q_rear p) = Suc (length ms)"
    and "tp_queue p ! queue_slot p (tp_q_front p) = m" and "queue_slot p (tp_q_front p) < length (tp_queue p)"
proof -
  note f = pool_frame_fields [OF assms(3)]
  have wf: "ring_wf (tp_q_mask p + 1) (tp_q_front p) (tp_q_rear p) (tp_queue p)" using assms(1) by (simp add: queue_ok_def)
  show len: "ring_length (tp_q_front p) (tp_q_rear p) = Suc (length ms)" using assms(2) by (metis length_Cons ring_length_contents)
  have skip: "ring_wf (tp_q_mask p + 1) (tp_q_front p + 1) (tp_q_rear p) (tp_queue p)"
    "ring_contents (tp_q_mask p + 1) (tp_q_front p + 1) (tp_q_rear p) (tp_queue p) = ms"
    using tr.skip_queue [OF wf, of 1] len assms(2) by (simp_all add: tp_skip_def)
  then show pend: "pending (tp_skip 1 p') = ms" using f by (simp add: tp_skip_def)
  show "queue_ok (tp_skip 1 p') M' H"
    using assms(1,2,4) skip pend f unfolding queue_ok_def by (auto simp: tp_skip_def)
  have "tp_q_front p \<noteq> tp_q_rear p" using len ring_empty_iff [of "tp_q_front p" "tp_q_rear p"] by auto
  then show "tp_queue p ! queue_slot p (tp_q_front p) = m"
    using tr.head_slot [of p] assms(2) by (simp add: queue_slot_ring)
  show "queue_slot p (tp_q_front p) < length (tp_queue p)" using ring_slot_bound [OF wf] by (simp add: queue_slot_ring)
qed

lemma exec_loop_inv:
  assumes "pool_inv p M" and "queue_ok p M H" and "adds_succeed ans" and "n = ring_length (tp_q_front p) (tp_q_rear p)"
  shows "\<exists>p' M'. exec_loop ans now n p = Ok (0, p') \<and> pool_inv p' M' \<and> queue_ok p' M' H \<and> pending p' = [] \<and> calm p p'
    \<and> (\<forall>k. k \<notin> ids_in Active M \<longrightarrow> M' k = M k) \<and> (heap_ok (ts_of p) (heap_limit p) \<longrightarrow> heap_ok (ts_of p') (heap_limit p'))"
  using assms
proof (induction n arbitrary: p M)
  case 0
  then have "pending p = []" by (simp flip: length_0_conv)
  then show ?case using 0 calm_simps(1) by auto
next
  case (Suc n)
  obtain m ms where ms: "pending p = m # ms" using Suc.prems(4) by (metis length_Suc_conv ring_length_contents)
  then have m: "qm_id m \<in> ids_in Active M" "qm_kind m \<noteq> QM_INVALID" using Suc.prems(2) by (auto simp: queue_ok_def)
  then obtain x where x: "M (qm_id m) = Some (Active, x)" by (auto simp: ids_in_def)
  obtain p1 where p1: "process_queue_message ans now m p = Ok (0, p1)" "pool_inv p1 (msg_update now m x M)" "pool_frame p p1"
    "heap_ok (ts_of p) (heap_limit p) \<longrightarrow> heap_ok (ts_of p1) (heap_limit p1)"
    using message_inv [OF Suc.prems(1) x m(2), of ans now] Suc.prems(3) by (auto simp: adds_succeed_def)
  note q = queue_ok_processed [OF Suc.prems(2) ms p1(3) msg_update_active [OF m(2)]]
  have inv: "pool_inv (tp_skip 1 p1) (msg_update now m x M)" using p1(2) by (simp add: pool_inv_def tp_skip_def rep_def rep_at_def phase_of_def)
  have len: "n = ring_length (tp_q_front (tp_skip 1 p1)) (tp_q_rear (tp_skip 1 p1))"
    using q(2,3) Suc.prems(4) by (metis Suc_inject ring_length_contents)
  obtain p' M' where p': "exec_loop ans now n (tp_skip 1 p1) = Ok (0, p')" "pool_inv p' M'" "queue_ok p' M' H" "pending p' = []" "calm (tp_skip 1 p1) p'"
    "\<forall>k. k \<notin> ids_in Active (msg_update now m x M) \<longrightarrow> M' k = msg_update now m x M k"
    "heap_ok (ts_of (tp_skip 1 p1)) (heap_limit (tp_skip 1 p1)) \<longrightarrow> heap_ok (ts_of p') (heap_limit p')"
    using Suc.IH [OF inv q(1) Suc.prems(3) len] by blast
  have "exec_loop ans now (Suc n) p = Ok (0, p')" using q(4,5) p1(1) p'(1) by (simp add: tp_skip_def Let_def)
  moreover have "calm p p'" using calm_simps(3) [OF p1(3)] p'(5) by (auto simp: calm_def tp_skip_def)
  moreover have "\<forall>k. k \<notin> ids_in Active M \<longrightarrow> M' k = M k"
    using p'(6) m msg_update_active [OF m(2), of now x M] msg_update_other by (metis Diff_iff)
  moreover have "heap_ok (ts_of p) (heap_limit p) \<longrightarrow> heap_ok (ts_of p') (heap_limit p')"
    using p1(4) p'(7) by (simp add: tp_skip_def)
  ultimately show ?case using p'(2-4) by blast
qed

subsection \<open>A round of the event loop\<close>

fun conn_ids :: "poll_datum list \<Rightarrow> nat list" where
  "conn_ids [] = []"
| "conn_ids (ConnFd k # ds) = k # conn_ids ds"
| "conn_ids (d # ds) = conn_ids ds"

text \<open>The operating system reports only descriptors that are registered, each once.\<close>

definition events_ok :: "conn_map \<Rightarrow> poll_datum list \<Rightarrow> bool" where
  "events_ok M ds \<longleftrightarrow> distinct (conn_ids ds) \<and> set (conn_ids ds) \<subseteq> ids_in Inactive M"

definition pool_ok :: "pool \<Rightarrow> conn_map \<Rightarrow> nat set \<Rightarrow> bool" where
  "pool_ok p M H \<longleftrightarrow> pool_inv p M \<and> queue_ok p M H"

lemma events_inv:
  assumes "pool_ok p M H" and "adds_succeed ans" and "events_ok M ds"
  shows "\<exists>inc' p' M'. handle_events ans now ds inc p = Ok (inc', p') \<and> pool_ok p' M' H \<and> calm p p'"
  using assms
proof (induction ans now ds inc p arbitrary: M rule: handle_events.induct)
  case (1 ans now incoming p)
  then show ?case using calm_simps(1) by auto
next
  case (2 ans now c ds incoming p)
  obtain rc p1 M1 where p1: "queue_message_exec ans c now p = Ok (rc, p1)" "pool_ok p1 M1 H" "calm p p1" "\<forall>k. k \<notin> ids_in Active M \<longrightarrow> M1 k = M k"
  proof (cases c)
    case True
    then show ?thesis
      using that exec_loop_inv [of p M H ans _ now] 2(2,3) by (fastforce simp: pool_ok_def queue_message_exec_def)
  next
    case False
    then show ?thesis using that 2(2) calm_simps(1) by (auto simp: queue_message_exec_def)
  qed
  have "ids_in Inactive M \<subseteq> ids_in Inactive M1" using p1(4) by (auto simp: ids_in_def)
  then have "events_ok M1 ds" using 2(4) by (auto simp: events_ok_def)
  then obtain inc' p' M' where "handle_events ans now ds incoming p1 = Ok (inc', p')" "pool_ok p' M' H" "calm p1 p'"
    using 2(1) [OF p1(2) 2(3)] by blast
  then show ?case using p1(1,3) calm_simps(2) by auto
next
  case (3 ans now k ds incoming p)
  obtain n where n: "M k = Some (Inactive, n)" using 3(4) by (auto simp: events_ok_def ids_in_def)
  have inv: "pool_inv p M" "rep0 p M" using 3(2) by (simp_all add: pool_ok_def pool_inv_def)
  have k: "k < length (tp_index p)" using rep_find [OF inv(2) n] rep_limits(4) [OF inv(2)] by metis
  obtain rc p1 M1 where p1: "connection_activate ans p (tp_index p ! k) = Ok (rc, p1)" "pool_inv p1 M1" "pool_frame p p1"
    "if ans (PollDel (cn_fd n)) (length (tp_log p)) then rc = 0 \<and> M1 = M(k \<mapsto> (Waiting, n)) else rc = -1 \<and> M1 = M"
    using activate_inv [OF inv(1) n, of ans] by blast
  have same: "M1 j = M j \<or> j = k \<and> M1 k = Some (Waiting, n)" for j using p1(4) by (auto split: if_splits)
  have act: "M1 j = Some (Active, x) \<longleftrightarrow> M j = Some (Active, x)" for j x using same [of j] n by auto
  then have "ids_in Active M1 = ids_in Active M" by (simp add: ids_in_def)
  then have "pool_ok p1 M1 H" using p1(2,3) 3(2) queue_ok_frame by (auto simp: pool_ok_def)
  moreover have "events_ok M1 ds"
  proof -
    have "distinct (conn_ids ds)" "k \<notin> set (conn_ids ds)" "set (conn_ids ds) \<subseteq> ids_in Inactive M" using 3(4) by (simp_all add: events_ok_def)
    moreover have "j \<in> ids_in Inactive M1" if "j \<in> ids_in Inactive M" "j \<noteq> k" for j using that same [of j] by (auto simp: ids_in_def)
    ultimately show ?thesis by (auto simp: events_ok_def)
  qed
  ultimately obtain inc' p' M' where "handle_events ans now ds incoming p1 = Ok (inc', p')" "pool_ok p' M' H" "calm p1 p'"
    using 3(1) 3(3) by blast
  then show ?case using p1(1) k calm_simps(2) [OF calm_simps(3) [OF p1(3)]] by (auto simp: index_at_def)
next
  case (4 ans now ds incoming p)
  then show ?case by (simp add: events_ok_def)
qed

lemma accept_loop_inv:
  assumes "pool_ok p M H"
  shows "\<exists>p' M'. accept_loop ans now cs p = Ok p' \<and> pool_ok p' M' H \<and> calm p p'
    \<and> (heap_ok (ts_of p) (heap_limit p) \<longrightarrow> heap_ok (ts_of p') (heap_limit p'))"
  using assms
proof (induction cs arbitrary: p M)
  case Nil
  then show ?case using calm_simps(1) by auto
next
  case (Cons c cs)
  obtain fd nb where c: "c = (fd, nb)" by fastforce
  obtain p1 M1 where p1: "accept_one ans now c p = Ok p1" "pool_inv p1 M1" "pool_frame p p1"
    "M1 = M \<or> (\<exists>k n. M k = None \<and> M1 = M(k \<mapsto> (Inactive, n)))" "heap_ok (ts_of p) (heap_limit p) \<longrightarrow> heap_ok (ts_of p1) (heap_limit p1)"
    using accept_inv [of p M ans now fd nb] Cons.prems c by (auto simp: pool_ok_def)
  have "M1 j = Some (Active, x) \<longleftrightarrow> M j = Some (Active, x)" for j x using p1(4) by (auto split: if_splits)
  then have "ids_in Active M1 = ids_in Active M" by (simp add: ids_in_def)
  then have "pool_ok p1 M1 H" using p1(2,3) Cons.prems queue_ok_frame by (auto simp: pool_ok_def)
  then obtain p' M' where "accept_loop ans now cs p1 = Ok p'" "pool_ok p' M' H" "calm p1 p'"
    "heap_ok (ts_of p1) (heap_limit p1) \<longrightarrow> heap_ok (ts_of p') (heap_limit p')" using Cons.IH by blast
  then show ?case using p1(1,5) calm_simps(2) [OF calm_simps(3) [OF p1(3)]] by auto
qed

lemma poll_inv:
  assumes "pool_ok p M H" and "adds_succeed ans" and "\<forall>ds. pr_events r = Some ds \<longrightarrow> events_ok M ds"
  shows "\<exists>rc p' M'. poll_event ans r p = Ok (rc, p') \<and> pool_ok p' M' H \<and> calm p p' \<and> (rc = -1 \<longleftrightarrow> pr_events r = None)"
proof -
  have r: "rep0 p M" using assms(1) by (simp add: pool_ok_def pool_inv_def)
  have "\<exists>t. poll_timeout (pr_now r) p = Ok t" using rep_limits [OF r] by (auto simp: poll_timeout_def conn_at_def)
  then obtain t where t: "poll_timeout (pr_now r) p = Ok t" by blast
  show ?thesis
  proof (cases "pr_events r")
    case None
    then show ?thesis using assms(1) t calm_simps(1) by (auto simp: poll_event_def)
  next
    case (Some ds)
    then have "events_ok M ds" using assms(3) by simp
    then obtain inc p1 M1 where p1: "handle_events ans (pr_now r) ds (tp_unaccepted p) p = Ok (inc, p1)" "pool_ok p1 M1 H" "calm p p1"
      using events_inv [OF assms(1,2)] by blast
    obtain p2 M2 where p2: "expire ans (pr_now r) p1 = Ok p2" "pool_inv p2 M2" "pool_frame p1 p2"
      "\<forall>k. M2 k = M1 k \<or> M2 k = None \<and> expired (pr_now r) p1 (M1 k)"
      using expire_inv [of p1 M1 ans "pr_now r"] p1(2) by (auto simp: pool_ok_def)
    have "ids_in Active M2 = ids_in Active M1"
    proof -
      have "M2 k = Some (Active, n) \<longleftrightarrow> M1 k = Some (Active, n)" for k n
        using p2(4) [rule_format, of k] expiredD [of "pr_now r" p1 "M1 k"] by auto
      then show ?thesis by (simp add: ids_in_def)
    qed
    then have ok2: "pool_ok p2 M2 H" using p2(2,3) p1(2) queue_ok_frame by (auto simp: pool_ok_def)
    have c2: "calm p p2" using calm_simps(2) [OF p1(3) calm_simps(3) [OF p2(3)]] .
    show ?thesis
    proof (cases inc)
      case False
      then show ?thesis using t Some p1(1) p2(1) ok2 c2 by (auto simp: poll_event_def)
    next
      case True
      have "\<exists>rc p3 M3. accept_request ans (pr_now r) (pr_conns r) (pr_drained r) p2 = Ok (rc, p3) \<and> pool_ok p3 M3 H \<and> calm p2 p3"
      proof -
        obtain bm where bm: "tp_bitmask p2 = Some bm" using p2(2) by (auto simp: pool_inv_def)
        obtain p3 M3 where p3: "accept_loop ans (pr_now r) (pr_conns r) p2 = Ok p3" "pool_ok p3 M3 H" "calm p2 p3"
          using accept_loop_inv [OF ok2] by blast
        let ?p = "p3\<lparr>tp_unaccepted := \<not> pr_drained r\<rparr>"
        have "pool_ok ?p M3 H" "calm p2 ?p"
          using p3(2,3) by (simp_all add: pool_ok_def pool_inv_def rep_def rep_at_def phase_of_def queue_ok_def calm_def)
        then show ?thesis using bm p3(1) ok2 calm_simps(1) by (auto simp: accept_request_def get_bitmask_def)
      qed
      then show ?thesis using True t Some p1(1) p2(1) c2 calm_simps(2) [OF c2] by (auto simp: poll_event_def)
    qed
  qed
qed

end
