(* ===== verification/TcpPoolProps.thy ===== *)
theory TcpPoolProps
  imports TcpPoolSafe
begin

text \<open>
  The properties of the connection pool: what every state has that the event loop and the servlets reach
  together, that no call goes wrong there, and the failures that are not handled.
\<close>

subsection \<open>The map that a pool holds\<close>

definition conn_map_of :: "pool \<Rightarrow> conn_map" where
  "conn_map_of p k = (if k < length (tp_index p) \<and> tp_index p ! k < wait_limit p \<and> cn_id (tp_conn p ! (tp_index p ! k)) = k
     then Some (phase_of p (tp_index p ! k), tp_conn p ! (tp_index p ! k)) else None)"

lemma rep_map: "rep0 p M \<Longrightarrow> M = conn_map_of p"
proof
  fix k assume r: "rep0 p M"
  note lim = rep_limits [OF r]
  show "M k = conn_map_of p k"
  proof (cases "M k")
    case None
    have "conn_map_of p k = None"
    proof (rule ccontr)
      assume "conn_map_of p k \<noteq> None"
      then have "tp_index p ! k < wait_limit p" "cn_id (tp_conn p ! (tp_index p ! k)) = k" by (auto simp: conn_map_of_def split: if_splits)
      then show False using repD(3) [OF r, of "tp_index p ! k"] lim(3) None by auto
    qed
    then show ?thesis using None by simp
  next
    case (Some x)
    then obtain ph n where x: "M k = Some (ph, n)" by (cases x) auto
    then show ?thesis using rep_find [OF r x] lim by (metis conn_map_of_def)
  qed
qed

lemma pool_ok_map: "pool_ok p M H \<Longrightarrow> M = conn_map_of p"
  using rep_map by (auto simp: pool_ok_def pool_inv_def)

subsection \<open>Reachable states\<close>

definition good_size :: "32 word \<Rightarrow> bool" where
  "good_size c \<longleftrightarrow> 2 \<le> unat c \<and> unat c \<le> 2 ^ 31 \<and> (unat c - 1) mod 63 \<noteq> 0"

text \<open>
  \<open>pool_reach p H\<close>: the pool after some rounds of the event loop, with \<open>H\<close> the connections that servlets
  hold. A servlet gives back what it holds, in one of the documented modes; the operating system reports
  registered descriptors, and adding a descriptor to the poll object succeeds.
\<close>

inductive pool_reach :: "pool \<Rightarrow> nat set \<Rightarrow> bool" where
  configure: "module_tcp_pool_configure ans mem junk sock None (Some cf) blank_pool = Ok (0, p) \<Longrightarrow> good_size (cf_size cf) \<Longrightarrow> pool_reach p {}"
| poll: "pool_reach p H \<Longrightarrow> adds_succeed ans \<Longrightarrow> (\<forall>ds. pr_events r = Some ds \<longrightarrow> events_ok (conn_map_of p) ds)
    \<Longrightarrow> poll_event ans r p = Ok (rc, p') \<Longrightarrow> pool_reach p' H"
| take: "pool_reach p H \<Longrightarrow> active_limit p \<noteq> wait_limit p \<Longrightarrow> take_connection p = Ok (Some c, p') \<Longrightarrow> pool_reach p' (insert (ci_idx c) H)"
| release: "pool_reach p H \<Longrightarrow> k \<in> H \<Longrightarrow> mode \<in> {0..3} \<Longrightarrow> module_tcp_pool_connection_release written p k d mode = Ok (rc, p')
    \<Longrightarrow> pool_reach p' (H - {k})"
| killed: "pool_reach p H \<Longrightarrow> pool_reach (module_tcp_pool_loop_killed p) H"

lemma configure_ok:
  assumes "module_tcp_pool_configure ans mem junk sock None (Some cf) blank_pool = Ok (0, p)" and "good_size (cf_size cf)"
  shows "pool_ok p Map.empty {}"
proof -
  obtain ji jc jq where j: "junk = (ji, jc, jq)" by (cases junk) auto
  let ?n = "unat (cf_size cf)"
  obtain bm where bm: "bitmask_new True ?n = Ok bm" "bm_inv bm" "bm_used bm = {}" "bm_size bm = ?n"
    using bitmask_new_inv [of ?n] assms(2) by (auto simp: good_size_def)
  have mem: "mem 0 \<and> mem 1 \<and> mem 2 \<and> mem 3 \<and> mem 4"
    using assms(1) j by (auto simp: module_tcp_pool_configure_def init_conn_info_def blank_pool_def bitmask_new_def Let_def result_simps
        split: if_splits result.splits)
  then have new: "bitmask_new (mem 0) ?n = Ok bm" using bm(1) by simp
  have p: "tp_bitmask p = Some bm" "tp_index p = map ji [0..<?n]" "tp_conn p = map jc [0..<?n]" "tp_queue p = map jq [0..<unat (queue_size (cf_size cf))]"
    "tp_q_mask p = queue_size (cf_size cf) - 1" "tp_q_front p = 0" "tp_q_rear p = 0" "heap_limit p = 0" "active_limit p = 0" "wait_limit p = 0"
    using assms(1) j mem new
    by (auto simp: module_tcp_pool_configure_def init_conn_info_def blank_pool_def Let_def result_simps split: if_splits)
  have "pool_inv p Map.empty" using bm p by (simp add: pool_inv_def rep_def)
  moreover obtain e where e: "e < 32" "queue_size (cf_size cf) = 2 ^ e" "?n \<le> 2 ^ e"
    using queue_size_pow [of "cf_size cf"] assms(2) by (auto simp: good_size_def)
  then have "queue_ok p Map.empty {}"
    using p unat_pow [OF e(1)] by (auto simp: queue_ok_def ring_wf_def ring_empty ids_in_def intro!: exI [of _ e])
  ultimately show ?thesis by (simp add: pool_ok_def)
qed

lemma release_ok:
  assumes "pool_ok p M H" and "k \<in> H" and "mode \<in> {0..3}"
  shows "\<exists>p' m. module_tcp_pool_connection_release written p k d mode = Ok (if written then 0 else -1, p') \<and> pool_ok p' M (H - {k})
    \<and> pending p' = pending p @ [m] \<and> qm_id m = k"
proof -
  let ?s = "queue_slot p (tp_q_rear p)"
  have q: "ring_wf (tp_q_mask p + 1) (tp_q_front p) (tp_q_rear p) (tp_queue p)" "length (tp_conn p) \<le> length (tp_queue p)"
    "distinct (pending_ids p)" "H \<inter> set (pending_ids p) = {}" "ids_in Active M = H \<union> set (pending_ids p)" "\<forall>m\<in>set (pending p). qm_kind m \<noteq> QM_INVALID"
    and inv: "pool_inv p M" using assms(1) by (simp_all add: pool_ok_def queue_ok_def)
  have slot: "?s < length (tp_queue p)" using ring_slot_bound [OF q(1)] by (simp add: queue_slot_ring)
  have "mode = 0 \<or> mode = 1 \<or> mode = 2 \<or> mode = 3" using assms(3) by auto
  then obtain m where m: "release_message (tp_queue p ! ?s) k d mode = Some m" "qm_id m = k" "qm_kind m \<noteq> QM_INVALID"
    by (cases "d = None") (auto simp: release_message_def Let_def RELEASE_MODE_AUTO_def RELEASE_MODE_PURGE_def RELEASE_MODE_WAIT_FOR_DATA_def RELEASE_MODE_WAIT_FOR_READ_def)
  have room: "ring_length (tp_q_front p) (tp_q_rear p) < length (tp_queue p)"
  proof -
    have r: "rep0 p M" using inv by (simp add: pool_inv_def)
    obtain b where b: "bm_used b = dom M" using inv by (auto simp: pool_inv_def)
    have fin: "finite (dom M)" unfolding b [symmetric] by (simp add: bm_used_def)
    have le: "card (dom M) \<le> length (tp_conn p)" using rep_card [OF r] rep_limits(3) [OF r] by simp
    have "k \<notin> set (pending_ids p)" "k \<in> ids_in Active M" using q(4,5) assms(2) by auto
    then have "set (pending_ids p) \<subset> ids_in Active M" using q(5) by blast
    moreover have "ids_in Active M \<subseteq> dom M" by (auto simp: ids_in_def)
    ultimately have "card (set (pending_ids p)) < card (dom M)" using fin by (meson psubset_card_mono psubset_subset_trans)
    then show ?thesis using le q(2,3) distinct_card [of "pending_ids p"] by simp
  qed
  let ?p = "tp_put m p"
  have put: "ring_wf (tp_q_mask ?p + 1) (tp_q_front ?p) (tp_q_rear ?p) (tp_queue ?p)" "pending ?p = pending p @ [m]"
    using tr.put_queue [OF q(1) room, of m] by simp_all
  have "module_tcp_pool_connection_release written p k d mode = Ok (if written then 0 else -1, ?p)"
    using slot m(1) by (simp add: module_tcp_pool_connection_release_def tp_put_def Let_def)
  moreover have "pool_inv ?p M" using inv by (simp add: pool_inv_def tp_put_def rep_def rep_at_def phase_of_def)
  moreover have "queue_ok ?p M (H - {k})"
    using put q assms(2) m(2,3) unfolding queue_ok_def put(2) by (auto simp: tp_put_def)
  ultimately show ?thesis using put(2) m(2) by (auto simp: pool_ok_def)
qed

lemma take_ok:
  assumes "pool_ok p M H" and "\<not> tp_killed p" and "active_limit p \<noteq> wait_limit p"
  shows "\<exists>k n p'. M k = Some (Waiting, n) \<and> k \<notin> H \<and> take_connection p = Ok (Some \<lparr>ci_fd = cn_fd n, ci_idx = k, ci_data = cn_data n\<rparr>, p')
    \<and> pool_ok p' (M(k \<mapsto> (Active, n\<lparr>cn_data := None\<rparr>))) (insert k H)"
proof -
  obtain k n p' where t: "M k = Some (Waiting, n)" "take_connection p = Ok (Some \<lparr>ci_fd = cn_fd n, ci_idx = k, ci_data = cn_data n\<rparr>, p')"
    "pool_inv p' (M(k \<mapsto> (Active, n\<lparr>cn_data := None\<rparr>)))" "pool_frame p p'"
    using take_inv [of p M] assms by (auto simp: pool_ok_def)
  have k: "k \<notin> ids_in Active M" using t(1) by (simp add: ids_in_def)
  have "ids_in Active (M(k \<mapsto> (Active, n\<lparr>cn_data := None\<rparr>))) = insert k (ids_in Active M)" by (auto simp: ids_in_def)
  then have "queue_ok p' (M(k \<mapsto> (Active, n\<lparr>cn_data := None\<rparr>))) (insert k H)"
    using assms(1) k pool_frame_fields [OF t(4)] by (auto simp: pool_ok_def queue_ok_def)
  then show ?thesis using t k assms(1) by (auto simp: pool_ok_def queue_ok_def)
qed

lemma reach_ok: "pool_reach p H \<Longrightarrow> pool_ok p (conn_map_of p) H"
proof (induction rule: pool_reach.induct)
  case (configure ans mem junk sock cf p)
  then show ?case using configure_ok [of ans mem junk sock cf p] pool_ok_map by metis
next
  case (poll p H ans r rc p')
  then show ?case using poll_inv [of p "conn_map_of p" H ans r] pool_ok_map by (metis prod.inject result.inject)
next
  case (take p H c p')
  have "\<not> tp_killed p" using take(3) by (auto simp: take_connection_def)
  then show ?case using take_ok [OF take(4) _ take(2)] take(3) pool_ok_map by fastforce
next
  case (release p H k mode written d rc p')
  then show ?case using release_ok [of p "conn_map_of p" H k mode written d] pool_ok_map by (metis prod.inject result.inject)
next
  case (killed p H)
  have "pool_ok (module_tcp_pool_loop_killed p) (conn_map_of p) H"
    using killed(2) by (simp add: module_tcp_pool_loop_killed_def pool_ok_def pool_inv_def queue_ok_def rep_def rep_at_def phase_of_def)
  then show ?case using pool_ok_map by metis
qed

subsection \<open>Properties\<close>


definition sample_conf :: pool_conf where
  "sample_conf = \<lparr>cf_size = 100, cf_ttl = 60, cf_min_timeout = 1, cf_retry = 50, cf_dispose = False\<rparr>"

lemma sample_reach: "\<exists>p. pool_reach p {} \<and> tp_killed p = False"
proof -
  have gs: "good_size (cf_size sample_conf)" by (simp add: good_size_def sample_conf_def)
  obtain bm where bm: "bitmask_new True (unat (cf_size sample_conf)) = Ok bm"
    using bitmask_new_inv [of "unat (cf_size sample_conf)"] gs by (auto simp: good_size_def)
  let ?c = "module_tcp_pool_configure (\<lambda>e j. True) plenty (\<lambda>i. 0, \<lambda>i. \<lparr>cn_data = None, cn_id = 0, cn_fd = 0, cn_ts = 0\<rparr>,
      \<lambda>i. \<lparr>qm_kind = QM_INVALID, qm_id = 0, qm_data = None\<rparr>) True None (Some sample_conf) blank_pool"
  have "\<exists>p. ?c = Ok (0, p) \<and> \<not> tp_killed p"
    using bm by (simp add: module_tcp_pool_configure_def init_conn_info_def blank_pool_def Let_def)
  then show ?thesis using pool_reach.configure [OF _ gs] by blast
qed




text \<open>C19: every event of a connection is exactly its step in the abstract pool, a map from identifiers to a
  state and a node. Data on an inactive connection makes it wait for a servlet, a message of a servlet
  makes its connection inactive, waiting or gone, and the connections that other calls are about do not
  change, however the array is rearranged.\<close>

theorem pool_ops_refine:
  assumes "pool_reach p H" and "conn_map_of p k = Some (ph, n)"
  shows "(ph = Inactive \<longrightarrow> (\<exists>rc p'. connection_activate ans p (tp_index p ! k) = Ok (rc, p')
        \<and> conn_map_of p' = (if ans (PollDel (cn_fd n)) (length (tp_log p)) then (conn_map_of p)(k \<mapsto> (Waiting, n)) else conn_map_of p)))
    \<and> (ph = Active \<and> qm_id m = k \<and> qm_kind m \<noteq> QM_INVALID
      \<longrightarrow> (\<exists>rc p'. process_queue_message ans now m p = Ok (rc, p') \<and> conn_map_of p' = msg_update now m n (conn_map_of p)))"
proof (intro conjI impI)
  have inv: "pool_inv p (conn_map_of p)" using reach_ok [OF assms(1)] by (simp add: pool_ok_def)
  have map: "M = conn_map_of p'" if "pool_inv p' M" for p' M using that rep_map by (simp add: pool_inv_def)
  {
    assume "ph = Inactive"
    then obtain rc p' M where "connection_activate ans p (tp_index p ! k) = Ok (rc, p')" "pool_inv p' M"
      "M = (if ans (PollDel (cn_fd n)) (length (tp_log p)) then (conn_map_of p)(k \<mapsto> (Waiting, n)) else conn_map_of p)"
      using activate_inv [OF inv, of k n ans] assms(2) by (metis (no_types, lifting))
    then show "\<exists>rc p'. connection_activate ans p (tp_index p ! k) = Ok (rc, p')
        \<and> conn_map_of p' = (if ans (PollDel (cn_fd n)) (length (tp_log p)) then (conn_map_of p)(k \<mapsto> (Waiting, n)) else conn_map_of p)"
      using map by metis
  next
    assume "ph = Active \<and> qm_id m = k \<and> qm_kind m \<noteq> QM_INVALID"
    then show "\<exists>rc p'. process_queue_message ans now m p = Ok (rc, p') \<and> conn_map_of p' = msg_update now m n (conn_map_of p)"
      using message_inv [OF inv, of m n ans now] assms(2) map by metis
  }
qed

text \<open>When the heap is in order, the clean-up of a round closes exactly the connections that were inactive
  for the whole time to live, and no other.\<close>

theorem expire_exact:
  assumes "pool_reach p H" and "heap_ok (\<lambda>i. cn_ts (tp_conn p ! i)) (heap_limit p)"
  shows "\<exists>p'. expire ans now p = Ok p' \<and> conn_map_of p' = (\<lambda>k. if expired now p (conn_map_of p k) then None else conn_map_of p k)"
proof -
  have inv: "pool_inv p (conn_map_of p)" using reach_ok [OF assms(1)] by (simp add: pool_ok_def)
  obtain p' M where e: "expire ans now p = Ok p'" "pool_inv p' M" "\<forall>k. M k = conn_map_of p k \<or> M k = None \<and> expired now p (conn_map_of p k)"
    "\<forall>k. \<not> expired now p (M k)" using expire_inv [OF inv, of ans now] assms(2) by blast
  have M: "M = conn_map_of p'" using e(2) rep_map by (simp add: pool_inv_def)
  have "M k = (if expired now p (conn_map_of p k) then None else conn_map_of p k)" for k
    using e(3,4) by (metis (no_types, lifting))
  then show ?thesis using e(1) M by (intro exI [of _ p'] conjI ext) simp_all
qed

subsection \<open>A run of the event loop\<close>

text \<open>A script of rounds in which every call succeeds; \<open>None\<close> when a round reports a connection that is not registered.\<close>

definition inactive :: "pool \<Rightarrow> nat \<Rightarrow> bool" where
  "inactive p k = (case conn_map_of p k of Some (ph, n) \<Rightarrow> ph = Inactive | None \<Rightarrow> False)"

fun run_rounds :: "(int \<times> nat list \<times> (int \<times> bool) list) list \<Rightarrow> pool \<Rightarrow> pool option" where
  "run_rounds [] p = Some p"
| "run_rounds ((now, ks, cs) # rs) p =
     (if distinct ks \<and> list_all (inactive p) ks
      then (case poll_event (\<lambda>e j. True) \<lparr>pr_now = now, pr_events = Some (map ConnFd ks @ [ListenFd]), pr_conns = cs, pr_drained = True, pr_killed = False\<rparr> p of
          Ok (rc, p') \<Rightarrow> run_rounds rs p' | _ \<Rightarrow> None)
      else None)"

lemma conn_ids_map: "conn_ids (map ConnFd ks @ [ListenFd]) = ks"
  by (induction ks) simp_all

lemma run_reach: "run_rounds rs p = Some p' \<Longrightarrow> pool_reach p H \<Longrightarrow> pool_reach p' H"
proof (induction rs p rule: run_rounds.induct)
  case (2 now ks cs rs p)
  let ?r = "\<lparr>pr_now = now, pr_events = Some (map ConnFd ks @ [ListenFd]), pr_conns = cs, pr_drained = True, pr_killed = False\<rparr>"
  have d: "distinct ks \<and> list_all (inactive p) ks" using 2(2) by (simp split: if_splits)
  then obtain rc q where q: "poll_event (\<lambda>e j. True) ?r p = Ok (rc, q)" "run_rounds rs q = Some p'"
    using 2(2) by (auto split: result.splits)
  have "events_ok (conn_map_of p) (map ConnFd ks @ [ListenFd])"
    using d by (auto simp: events_ok_def conn_ids_map ids_in_def inactive_def list_all_iff split: option.splits)
  then have "pool_reach q H" using pool_reach.poll [OF 2(3) _ _ q(1)] by (simp add: adds_succeed_def)
  then show ?case using 2(1) [OF d q(1) refl q(2)] by blast
qed simp

definition small_conf :: pool_conf where
  "small_conf = \<lparr>cf_size = 10, cf_ttl = 20, cf_min_timeout = 1, cf_retry = 50, cf_dispose = False\<rparr>"

definition small_pool :: "(int \<times> pool) result" where
  "small_pool = module_tcp_pool_configure (\<lambda>e j. True) plenty (\<lambda>i. 0, \<lambda>i. \<lparr>cn_data = None, cn_id = 0, cn_fd = 0, cn_ts = 0\<rparr>,
      \<lambda>i. \<lparr>qm_kind = QM_INVALID, qm_id = 0, qm_data = None\<rparr>) True None (Some small_conf) blank_pool"

definition after_rounds :: "(int \<times> nat list \<times> (int \<times> bool) list) list \<Rightarrow> pool option" where
  "after_rounds rs = (case small_pool of Ok (rc, p) \<Rightarrow> if rc = 0 then run_rounds rs p else None | _ \<Rightarrow> None)"

lemma after_reach: "after_rounds rs = Some p \<Longrightarrow> pool_reach p {}"
proof -
  assume a: "after_rounds rs = Some p"
  then obtain q where q: "small_pool = Ok (0, q)" "run_rounds rs q = Some p"
    by (auto simp: after_rounds_def split: result.splits if_splits)
  have "pool_reach q {}"
    using pool_reach.configure [OF q(1) [unfolded small_pool_def]] by (simp add: good_size_def small_conf_def)
  then show ?thesis using run_reach [OF q(2)] by blast
qed

text \<open>One connection comes and is inactive.\<close>

definition one_round :: "(int \<times> nat list \<times> (int \<times> bool) list) list" where
  "one_round = [(1, [], [(5, True)])]"

lemma one_run: "\<exists>p. pool_reach p {} \<and> heap_limit p = 1
   \<and> conn_map_of p 0 = Some (Inactive, \<lparr>cn_data = None, cn_id = 0, cn_fd = 5, cn_ts = 1\<rparr>) \<and> cf_ttl (tp_conf p) = 20"
proof -
  have "map_option (\<lambda>p. (heap_limit p, conn_map_of p 0, cf_ttl (tp_conf p))) (after_rounds one_round)
     = Some (1, Some (Inactive, \<lparr>cn_data = None, cn_id = 0, cn_fd = 5, cn_ts = 1\<rparr>), 20)" by code_simp
  then show ?thesis using after_reach [of one_round] by auto
qed

theorem pool_ops_refine_witness:
  "\<exists>p p' rc. pool_reach p {} \<and> connection_activate (\<lambda>e j. True) p (tp_index p ! 0) = Ok (rc, p')
     \<and> conn_map_of p' = (conn_map_of p)(0 \<mapsto> (Waiting, \<lparr>cn_data = None, cn_id = 0, cn_fd = 5, cn_ts = 1\<rparr>))"
proof -
  obtain p where p: "pool_reach p {}" "conn_map_of p 0 = Some (Inactive, \<lparr>cn_data = None, cn_id = 0, cn_fd = 5, cn_ts = 1\<rparr>)"
    using one_run by blast
  have "\<exists>rc p'. connection_activate (\<lambda>e j. True) p (tp_index p ! 0) = Ok (rc, p')
      \<and> conn_map_of p' = (conn_map_of p)(0 \<mapsto> (Waiting, \<lparr>cn_data = None, cn_id = 0, cn_fd = 5, cn_ts = 1\<rparr>))"
    using conjunct1 [OF pool_ops_refine [OF p, of "\<lambda>e j. True"]] by (simp only: if_True refl simp_thms)
  then show ?thesis using p(1) by blast
qed

theorem expire_exact_witness:
  "\<exists>p p'. pool_reach p {} \<and> conn_map_of p 0 \<noteq> None \<and> expire (\<lambda>e j. True) 21 p = Ok p' \<and> conn_map_of p' 0 = None"
proof -
  obtain p where p: "pool_reach p {}" "heap_limit p = 1"
    "conn_map_of p 0 = Some (Inactive, \<lparr>cn_data = None, cn_id = 0, cn_fd = 5, cn_ts = 1\<rparr>)" "cf_ttl (tp_conf p) = 20" using one_run by blast
  have "heap_ok (\<lambda>i. cn_ts (tp_conn p ! i)) (heap_limit p)" using p(2) by (simp add: heap_ok_def)
  then obtain p' where e: "expire (\<lambda>e j. True) 21 p = Ok p'"
    "conn_map_of p' = (\<lambda>k. if expired 21 p (conn_map_of p k) then None else conn_map_of p k)"
    using expire_exact [OF p(1), of "\<lambda>e j. True" 21] by blast
  have "expired 21 p (conn_map_of p 0)" using p(3,4) by (simp add: expired_def)
  then have "conn_map_of p' 0 = None" unfolding e(2) by simp
  then show ?thesis using p(1,3) e(1) by blast
qed

subsection \<open>Failures that are not handled\<close>

text \<open>
  Nine connections come one after the other; then data arrives on some of them. Each takes the last of
  the heap into its place, from where it moves down but never up.
\<close>

definition hiding_rounds :: "(int \<times> nat list \<times> (int \<times> bool) list) list" where
  "hiding_rounds = map (\<lambda>i. (int i, [], [(int i + 4, True)])) [1..<10] @ [(10, [0, 3, 4, 7], [(14, True)]), (26, [1, 2], [])]"

lemma hiding_run:
  "map_option (\<lambda>p. (conn_map_of p 5, conn_at p 0, cf_ttl (tp_conf p))) (after_rounds hiding_rounds)
   = Some (Some (Inactive, \<lparr>cn_data = None, cn_id = 5, cn_fd = 10, cn_ts = 6\<rparr>), Ok \<lparr>cn_data = None, cn_id = 6, cn_fd = 11, cn_ts = 7\<rparr>, 20)"
  by code_simp

text \<open>C40: activating connections can put the heap of inactive connections out of order. There is a run with a
  clock that only goes forward after which a connection has been inactive for the whole time to live, and
  the clean-up at that time does not find it.\<close>

theorem activation_hides_expired:
  "\<exists>p. pool_reach p {} \<and> expired 26 p (conn_map_of p 5) \<and> expire ans 26 p = Ok p"
proof -
  obtain p where p: "pool_reach p {}" "conn_map_of p 5 = Some (Inactive, \<lparr>cn_data = None, cn_id = 5, cn_fd = 10, cn_ts = 6\<rparr>)"
    "conn_at p 0 = Ok \<lparr>cn_data = None, cn_id = 6, cn_fd = 11, cn_ts = 7\<rparr>" "cf_ttl (tp_conf p) = 20"
    using hiding_run after_reach [of hiding_rounds] by auto
  have "expire ans 26 p = Ok p" by (subst expire.simps) (simp add: p(3,4))
  moreover have "expired 26 p (conn_map_of p 5)" by (simp add: p(2,4) expired_def)
  ultimately show ?thesis using p(1) by blast
qed

text \<open>The queue is run again and again.\<close>

fun exec_again :: "(answers \<times> int) list \<Rightarrow> pool \<Rightarrow> (int list \<times> pool) result" where
  "exec_again [] p = Ok ([], p)"
| "exec_again ((ans, now) # xs) p = rbind (queue_message_exec ans True now p) (\<lambda>(rc, p). rmap (\<lambda>(rcs, p). (rc # rcs, p)) (exec_again xs p))"

definition blocked :: "queue_message \<Rightarrow> pool \<Rightarrow> bool" where
  "blocked m p \<longleftrightarrow> (\<exists>M n ms. rep0 p M \<and> M (qm_id m) = Some (Inactive, n) \<and> ring_wf (tp_q_mask p + 1) (tp_q_front p) (tp_q_rear p) (tp_queue p)
     \<and> pending p = m # ms \<and> qm_kind m = QM_DEACTIVATE)"

lemma pending_front:
  assumes "ring_wf (tp_q_mask p + 1) (tp_q_front p) (tp_q_rear p) (tp_queue p)" and "pending p = m # ms"
  shows "ring_length (tp_q_front p) (tp_q_rear p) = Suc (length ms)" and "tp_queue p ! queue_slot p (tp_q_front p) = m"
    and "queue_slot p (tp_q_front p) < length (tp_queue p)"
proof -
  show len: "ring_length (tp_q_front p) (tp_q_rear p) = Suc (length ms)" using assms(2) by (metis length_Cons ring_length_contents)
  have "tp_q_front p \<noteq> tp_q_rear p" using len ring_empty_iff [of "tp_q_front p" "tp_q_rear p"] by auto
  then show "tp_queue p ! queue_slot p (tp_q_front p) = m" using tr.head_slot [of p] assms(2) by (simp add: queue_slot_ring)
  show "queue_slot p (tp_q_front p) < length (tp_queue p)" using ring_slot_bound [OF assms(1)] by (simp add: queue_slot_ring)
qed

lemma exec_fails:
  assumes "ring_wf (tp_q_mask p + 1) (tp_q_front p) (tp_q_rear p) (tp_queue p)" and "pending p = m # ms"
    and "process_queue_message ans now m p = Ok (-1, p')"
  shows "queue_message_exec ans True now p = Ok (-1, p')"
  using pending_front [OF assms(1,2)] assms(3) by (simp add: queue_message_exec_def Let_def)

lemma blocked_step:
  assumes "blocked m p"
  shows "\<exists>p'. queue_message_exec ans True now p = Ok (-1, p') \<and> blocked m p' \<and> pending p' = pending p"
proof -
  obtain M n ms where b: "rep0 p M" "M (qm_id m) = Some (Inactive, n)" "ring_wf (tp_q_mask p + 1) (tp_q_front p) (tp_q_rear p) (tp_queue p)"
    "pending p = m # ms" "qm_kind m = QM_DEACTIVATE" using assms by (auto simp: blocked_def)
  obtain i q where i: "tp_index p ! qm_id m = i" "i < length (tp_conn p)" "qm_id m < length (tp_index p)" "tp_conn p ! i = n"
    and q: "q = set_conn p i (n\<lparr>cn_data := qm_data m\<rparr>)" "rep0 q (M(qm_id m \<mapsto> (Inactive, n\<lparr>cn_data := qm_data m\<rparr>)))"
      "phase_of q i = Inactive" "pool_frame p q"
    using set_data_rep [OF b(1,2), of "qm_data m"] by blast
  have "i < heap_limit q" using phase_range(1) [OF q(3)] by simp
  then have "process_queue_message ans now m p = Ok (-1, q)"
    using i q(1) b(5) by (simp add: process_queue_message_def index_at_def conn_at_def connection_deactivate_def)
  then have "queue_message_exec ans True now p = Ok (-1, q)" by (rule exec_fails [OF b(3,4)])
  moreover have "blocked m q" "pending q = pending p"
    using q(2) b(3-5) pool_frame_fields [OF q(4)] by (auto simp: blocked_def)
  ultimately show ?thesis by blast
qed

lemma blocked_again:
  "blocked m p \<Longrightarrow> \<exists>q. exec_again xs p = Ok (replicate (length xs) (-1), q) \<and> pending q = pending p"
proof (induction xs arbitrary: p)
  case (Cons x xs)
  obtain ans now where x: "x = (ans, now)" by (cases x)
  obtain p1 where p1: "queue_message_exec ans True now p = Ok (-1, p1)" "blocked m p1" "pending p1 = pending p"
    using blocked_step [OF Cons.prems] by blast
  then show ?case using Cons.IH [OF p1(2)] x by auto
qed simp

text \<open>A message that could not be carried out blocks the queue for ever. When a servlet has given a
  connection back to wait for data and the poll object refuses its descriptor, the message stays at the
  front, and every later run of the queue fails on it, whatever the system answers then: no other message
  is processed any more.\<close>

theorem failed_deactivate_blocks_queue:
  assumes "pool_reach p H" and "pending p = m # ms" and "qm_kind m = QM_DEACTIVATE" and "\<forall>fd k j. \<not> ans (PollAdd fd k) j"
  shows "\<exists>q. exec_again ((ans, now) # xs) p = Ok (replicate (Suc (length xs)) (-1), q) \<and> pending q = m # ms"
proof -
  let ?M = "conn_map_of p"
  have ok: "pool_inv p ?M" "queue_ok p ?M H" using reach_ok [OF assms(1)] by (simp_all add: pool_ok_def)
  have wf: "ring_wf (tp_q_mask p + 1) (tp_q_front p) (tp_q_rear p) (tp_queue p)" and "qm_id m \<in> ids_in Active ?M"
    using ok(2) assms(2) by (auto simp: queue_ok_def)
  then obtain n where n: "?M (qm_id m) = Some (Active, n)" by (auto simp: ids_in_def)
  obtain p' where p': "process_queue_message ans now m p = Ok (-1, p')" "pool_inv p' (msg_update now m n ?M)" "pool_frame p p'"
    using message_inv [OF ok(1) n, of ans now] assms(3,4) by auto
  have "blocked m p'" using p'(2) wf assms(2,3) pool_frame_fields [OF p'(3)] unfolding blocked_def
    by (intro exI [of _ "msg_update now m n ?M"]) (auto simp: pool_inv_def msg_update_def)
  then obtain q where "exec_again xs p' = Ok (replicate (length xs) (-1), q)" "pending q = pending p'" using blocked_again by blast
  then show ?thesis using exec_fails [OF wf assms(2) p'(1)] pool_frame_fields [OF p'(3)] assms(2) by simp
qed

text \<open>A connection that was handed out and is given back.\<close>

definition given_back :: "(pool \<times> conninfo \<times> pool \<times> pool) option" where
  "given_back = (case after_rounds [(1, [], [(5, True)]), (2, [0], [])] of
     Some p \<Rightarrow> (case take_connection p of
         Ok (Some c, p1) \<Rightarrow> (case module_tcp_pool_connection_release True p1 (ci_idx c) None RELEASE_MODE_AUTO of
             Ok (rc, p2) \<Rightarrow> Some (p, c, p1, p2) | _ \<Rightarrow> None)
       | _ \<Rightarrow> None)
   | None \<Rightarrow> None)"

lemma given_back_run:
  "map_option (\<lambda>(p, c, p1, p2). (active_limit p = wait_limit p, pending p2)) given_back
   = Some (False, [\<lparr>qm_kind = QM_DEACTIVATE, qm_id = 0, qm_data = None\<rparr>])"
  by code_simp

lemma given_back_reach: "\<exists>p H. pool_reach p H \<and> pending p = [\<lparr>qm_kind = QM_DEACTIVATE, qm_id = 0, qm_data = None\<rparr>]"
proof -
  obtain p c p1 p2 where g: "given_back = Some (p, c, p1, p2)" "active_limit p \<noteq> wait_limit p"
    "pending p2 = [\<lparr>qm_kind = QM_DEACTIVATE, qm_id = 0, qm_data = None\<rparr>]" using given_back_run by auto
  then obtain rc where r: "pool_reach p {}" "take_connection p = Ok (Some c, p1)"
    "module_tcp_pool_connection_release True p1 (ci_idx c) None RELEASE_MODE_AUTO = Ok (rc, p2)"
    using after_reach by (auto simp: given_back_def split: option.splits result.splits prod.splits)
  have "pool_reach p1 (insert (ci_idx c) {})" by (rule pool_reach.take [OF r(1) g(2) r(2)])
  then have "pool_reach p2 (insert (ci_idx c) {} - {ci_idx c})"
    by (rule pool_reach.release) (use r(3) in \<open>simp_all add: RELEASE_MODE_AUTO_def\<close>)
  then show ?thesis using g(3) by blast
qed

theorem failed_deactivate_blocks_queue_witness:
  "\<exists>p q H. pool_reach p H \<and> exec_again [(\<lambda>e j. False, 3), (\<lambda>e j. True, 4)] p = Ok ([-1, -1], q) \<and> pending q = pending p"
proof -
  obtain p H where p: "pool_reach p H" "pending p = [\<lparr>qm_kind = QM_DEACTIVATE, qm_id = 0, qm_data = None\<rparr>]" using given_back_reach by blast
  then have "\<exists>q. exec_again [(\<lambda>e j. False, 3), (\<lambda>e j. True, 4)] p = Ok (replicate (Suc (length [(\<lambda>e j. True, 4 :: int)])) (-1), q) \<and> pending q = pending p"
    using failed_deactivate_blocks_queue [OF p, of "\<lambda>e j. False" 3 "[(\<lambda>e j. True, 4)]"] by simp
  then show ?thesis using p(1) by auto
qed

end
