(* ===== verification/PssFrame.thy ===== *)
theory PssFrame
  imports Prelude
begin

unbundle bit_operations_syntax

text \<open>
  The registers of the script interpreter: runtime values (\<^verbatim>\<open>lib/pss/value.c\<close>) and the copy-on-write
  frame (\<^verbatim>\<open>lib/pss/frame.c\<close>). A frame is a search tree over the register numbers in which frames share
  subtrees; every node and every object has a reference counter. The heap maps addresses to the blocks
  that are allocated; an access to any other address is undefined. Counters are naturals: a 32-bit
  counter wraps only with more pointers than the memory holds. What the owner of an object does when it
  is disposed of is recorded, not modelled.
\<close>

subsection \<open>Values and objects\<close>

datatype pss_value = VUndef | VNum "64 word" | VBuiltin nat | VRef nat | VError

record pss_ref =
  rf_refcnt :: nat
  rf_type :: nat
  rf_data :: nat

record cow_node =
  cw_ref :: nat
  cw_val :: pss_value
  cw_leaf :: bool
  cw_left :: "nat option"
  cw_right :: "nat option"

record pss_heap =
  hp_refs :: "nat \<rightharpoonup> pss_ref"
  hp_nodes :: "nat \<rightharpoonup> cow_node"
  hp_freed :: "nat list"
  hp_next :: nat

text \<open>\<open>ops\<close> has the types whose operations are set, \<open>mk\<close> the constructor of each type.\<close>

definition pss_value_ref_new :: "(nat \<Rightarrow> bool) \<Rightarrow> (nat \<Rightarrow> nat \<Rightarrow> nat option) \<Rightarrow> alloc \<Rightarrow> nat \<Rightarrow> nat \<Rightarrow> pss_heap \<Rightarrow> pss_value \<times> pss_heap" where
  "pss_value_ref_new ops mk mem type data h =
     (if \<not> ops type then (VError, h)
      else let a = hp_next h; h = h\<lparr>hp_next := Suc a\<rparr> in
        if \<not> mem a then (VError, h)
        else (case mk type data of None \<Rightarrow> (VError, h)
          | Some v \<Rightarrow> (VRef a, h\<lparr>hp_refs := (hp_refs h)(a \<mapsto> \<lparr>rf_refcnt = 0, rf_type = type, rf_data = v\<rparr>)\<rparr>)))"

definition ref_at :: "pss_heap \<Rightarrow> nat \<Rightarrow> pss_ref result" where
  "ref_at h r = (case hp_refs h r of None \<Rightarrow> Undef | Some x \<Rightarrow> Ok x)"

definition pss_value_ref_type :: "pss_value \<Rightarrow> pss_heap \<Rightarrow> nat result" where
  "pss_value_ref_type v h = (case v of VRef r \<Rightarrow> rmap rf_type (ref_at h r) | _ \<Rightarrow> Error)"

definition pss_value_get_data :: "pss_value \<Rightarrow> pss_heap \<Rightarrow> nat option result" where
  "pss_value_get_data v h = (case v of VRef r \<Rightarrow> rmap (\<lambda>x. Some (rf_data x)) (ref_at h r) | _ \<Rightarrow> Ok None)"

definition pss_value_incref :: "pss_value \<Rightarrow> pss_heap \<Rightarrow> pss_heap result" where
  "pss_value_incref v h = (case v of
     VRef r \<Rightarrow> rmap (\<lambda>x. h\<lparr>hp_refs := (hp_refs h)(r \<mapsto> x\<lparr>rf_refcnt := rf_refcnt x + 1\<rparr>)\<rparr>) (ref_at h r)
   | _ \<Rightarrow> Ok h)"

definition pss_value_decref :: "(nat \<Rightarrow> bool) \<Rightarrow> pss_value \<Rightarrow> pss_heap \<Rightarrow> (bool \<times> pss_heap) result" where
  "pss_value_decref ops v h = (case v of
     VRef r \<Rightarrow> rmap (\<lambda>x.
         let c = rf_refcnt x - 1 in
         if c = 0
         then (if ops (rf_type x) then (True, h\<lparr>hp_refs := (hp_refs h)(r := None), hp_freed := hp_freed h @ [rf_data x]\<rparr>)
               else (False, h\<lparr>hp_refs := (hp_refs h)(r \<mapsto> x\<lparr>rf_refcnt := c\<rparr>)\<rparr>))
         else (True, h\<lparr>hp_refs := (hp_refs h)(r \<mapsto> x\<lparr>rf_refcnt := c\<rparr>)\<rparr>)) (ref_at h r)
   | _ \<Rightarrow> Ok (True, h))"

subsection \<open>Nodes\<close>

definition node_at :: "pss_heap \<Rightarrow> nat \<Rightarrow> cow_node result" where
  "node_at h a = (case hp_nodes h a of None \<Rightarrow> Undef | Some n \<Rightarrow> Ok n)"

definition put_node :: "nat \<Rightarrow> cow_node \<Rightarrow> pss_heap \<Rightarrow> pss_heap" where
  "put_node a n h = h\<lparr>hp_nodes := (hp_nodes h)(a \<mapsto> n)\<rparr>"

definition zero_node :: "bool \<Rightarrow> cow_node" where
  "zero_node leaf = \<lparr>cw_ref = 0, cw_val = VUndef, cw_leaf = leaf, cw_left = None, cw_right = None\<rparr>"

definition node_new :: "alloc \<Rightarrow> bool \<Rightarrow> pss_heap \<Rightarrow> nat option \<times> pss_heap" where
  "node_new mem leaf h =
     (let a = hp_next h; h = h\<lparr>hp_next := Suc a\<rparr> in if mem a then (Some a, put_node a (zero_node leaf) h) else (None, h))"

definition add_ref :: "nat \<Rightarrow> pss_heap \<Rightarrow> pss_heap result" where
  "add_ref a h = rmap (\<lambda>n. put_node a (n\<lparr>cw_ref := cw_ref n + 1\<rparr>) h) (node_at h a)"

text \<open>
  The node of a register, \<open>None\<close> if there is none. A leaf has no room for children; a range that is empty
  lies below a leaf.
\<close>

function cow_get :: "pss_heap \<Rightarrow> nat option \<Rightarrow> nat \<Rightarrow> nat \<Rightarrow> nat \<Rightarrow> cow_node option result" where
  "cow_get h root l r t = (case root of None \<Rightarrow> Ok None
     | Some a \<Rightarrow> (case node_at h a of Error \<Rightarrow> Error | Undef \<Rightarrow> Undef
        | Ok n \<Rightarrow> let mid = (l + r) div 2 in
            if mid = t then Ok (Some n)
            else if cw_leaf n \<or> r \<le> l then Undef
            else if t < mid then cow_get h (cw_left n) l mid t
            else cow_get h (cw_right n) (mid + 1) r t))"
  by pat_completeness auto

termination
  by (relation "measure (\<lambda>(h, root, l, r, t). r - l)") auto

subsection \<open>Writing\<close>

text \<open>Where the pointer to the current node is: in the frame or in a node.\<close>

datatype slot = InFrame | InLeft nat | InRight nat

definition set_slot :: "slot \<Rightarrow> nat \<Rightarrow> nat \<Rightarrow> pss_heap \<Rightarrow> (nat \<times> pss_heap) result" where
  "set_slot s a ret h = (case s of InFrame \<Rightarrow> Ok (a, h)
     | InLeft b \<Rightarrow> rmap (\<lambda>n. (ret, put_node b (n\<lparr>cw_left := Some a\<rparr>) h)) (node_at h b)
     | InRight b \<Rightarrow> rmap (\<lambda>n. (ret, put_node b (n\<lparr>cw_right := Some a\<rparr>) h)) (node_at h b))"

text \<open>The two children of a node that has none; \<open>False\<close> is the error return.\<close>

definition new_children :: "alloc \<Rightarrow> nat \<Rightarrow> nat \<Rightarrow> nat \<Rightarrow> pss_heap \<Rightarrow> (bool \<times> pss_heap) result" where
  "new_children mem a l r h = rbind (node_at h a) (\<lambda>n.
     if even ((l + r) div 2) then Ok (True, h)
     else if cw_leaf n then Undef
     else if cw_left n \<noteq> None then Ok (True, h)
     else if cw_right n \<noteq> None then Ok (False, h)
     else (case node_new mem (r - l = 3) h of
         (None, h) \<Rightarrow> Ok (False, h)
       | (Some x, h) \<Rightarrow>
           let n = n\<lparr>cw_left := Some x\<rparr>; h = put_node a n h in
           (case node_new mem (r - l = 3) h of
               (None, h) \<Rightarrow> Ok (False, h)
             | (Some y, h) \<Rightarrow>
                 let child = (zero_node (r - l = 3))\<lparr>cw_ref := 1\<rparr> in
                 Ok (True, put_node x child (put_node y child (put_node a (n\<lparr>cw_right := Some y\<rparr>) h))))))"

text \<open>A node that other frames use is copied; the result of the allocation is not checked.\<close>

definition own_node :: "alloc \<Rightarrow> nat \<Rightarrow> nat \<Rightarrow> nat \<Rightarrow> pss_heap \<Rightarrow> (nat \<times> pss_heap) result" where
  "own_node mem a l r h = rbind (node_at h a) (\<lambda>n.
     if cw_ref n > 1
     then (case node_new mem (r - l = 1) h of
         (None, h) \<Rightarrow> Undef
       | (Some c, h) \<Rightarrow> rbind (pss_value_incref (cw_val n) h) (\<lambda>h.
           let m = (zero_node (r - l = 1))\<lparr>cw_ref := 1, cw_val := cw_val n\<rparr>;
               h = put_node a (n\<lparr>cw_ref := cw_ref n - 1\<rparr>) (put_node c m h) in
           if r - l > 1
           then (case (cw_left n, cw_right n) of
               (Some x, Some y) \<Rightarrow> rmap (\<lambda>h. (c, h))
                 (rbind (add_ref x (put_node c (m\<lparr>cw_left := Some x, cw_right := Some y\<rparr>) h)) (add_ref y))
             | _ \<Rightarrow> Undef)
           else Ok (c, h)))
     else Ok (a, h))"

text \<open>One round of the loop: the pointer to the frame's tree and the node, which the frame owns alone afterwards.\<close>

definition cow_step :: "alloc \<Rightarrow> slot \<Rightarrow> nat \<Rightarrow> nat \<Rightarrow> nat \<Rightarrow> nat \<Rightarrow> pss_heap \<Rightarrow> ((nat \<times> nat) option \<times> pss_heap) result" where
  "cow_step mem s ret a l r h = rbind (new_children mem a l r h) (\<lambda>(ok, h).
     if \<not> ok then Ok (None, h)
     else rbind (own_node mem a l r h) (\<lambda>(a, h). rmap (\<lambda>(ret, h). (Some (ret, a), h)) (set_slot s a ret h)))"

definition set_value :: "(nat \<Rightarrow> bool) \<Rightarrow> pss_value \<Rightarrow> nat \<Rightarrow> pss_heap \<Rightarrow> (bool \<times> pss_heap) result" where
  "set_value ops v a h = rbind (node_at h a) (\<lambda>n. rbind (pss_value_decref ops (cw_val n) h) (\<lambda>(ok, h).
     if \<not> ok then Ok (False, h) else rmap (\<lambda>h. (True, h)) (pss_value_incref v (put_node a (n\<lparr>cw_val := v\<rparr>) h))))"

function cow_loop :: "alloc \<Rightarrow> (nat \<Rightarrow> bool) \<Rightarrow> pss_value \<Rightarrow> nat \<Rightarrow> slot \<Rightarrow> nat \<Rightarrow> nat \<Rightarrow> nat \<Rightarrow> nat \<Rightarrow> pss_heap
    \<Rightarrow> (nat option \<times> pss_heap) result" where
  "cow_loop mem ops v t s ret a l r h = (case cow_step mem s ret a l r h of Error \<Rightarrow> Error | Undef \<Rightarrow> Undef
     | Ok (None, h) \<Rightarrow> Ok (None, h)
     | Ok (Some (ret, a), h) \<Rightarrow>
         let mid = (l + r) div 2 in
         if t = mid then rmap (\<lambda>(ok, h). (if ok then Some ret else None, h)) (set_value ops v a h)
         else (case node_at h a of Error \<Rightarrow> Error | Undef \<Rightarrow> Undef
           | Ok n \<Rightarrow>
               if cw_leaf n \<or> r \<le> l then Undef
               else if t < mid then (case cw_left n of None \<Rightarrow> Undef | Some c \<Rightarrow> cow_loop mem ops v t (InLeft a) ret c l mid h)
               else (case cw_right n of None \<Rightarrow> Undef | Some c \<Rightarrow> cow_loop mem ops v t (InRight a) ret c (mid + 1) r h)))"
  by pat_completeness auto

termination
  by (relation "measure (\<lambda>(mem, ops, v, t, s, ret, a, l, r, h). r - l)") auto

definition cow_write :: "alloc \<Rightarrow> (nat \<Rightarrow> bool) \<Rightarrow> nat option \<Rightarrow> nat \<Rightarrow> nat \<Rightarrow> nat \<Rightarrow> pss_value \<Rightarrow> pss_heap \<Rightarrow> (nat option \<times> pss_heap) result" where
  "cow_write mem ops root l r t v h =
     (case (case root of None \<Rightarrow> node_new mem False h | Some a \<Rightarrow> (Some a, h)) of
         (None, h) \<Rightarrow> Ok (None, h)
       | (Some a, h) \<Rightarrow> rbind (node_at h a) (\<lambda>n.
           cow_loop mem ops v t InFrame a a l r (if cw_ref n = 0 then put_node a (n\<lparr>cw_ref := 1\<rparr>) h else h)))"

subsection \<open>Disposal\<close>

function tree_decref :: "(nat \<Rightarrow> bool) \<Rightarrow> nat option \<Rightarrow> nat \<Rightarrow> nat \<Rightarrow> pss_heap \<Rightarrow> (bool \<times> pss_heap) result" where
  "tree_decref ops root l r h = (case root of None \<Rightarrow> Ok (True, h)
     | Some a \<Rightarrow> (case node_at h a of Error \<Rightarrow> Error | Undef \<Rightarrow> Undef
        | Ok n \<Rightarrow>
            let n = n\<lparr>cw_ref := cw_ref n - 1\<rparr>; h = put_node a n h; mid = (l + r) div 2 in
            if cw_ref n = 0
            then rbind (if r - l > 1
                then (if cw_leaf n then Undef
                      else (case tree_decref ops (cw_left n) l mid h of Error \<Rightarrow> Error | Undef \<Rightarrow> Undef
                        | Ok (ok1, h) \<Rightarrow> rmap (\<lambda>(ok2, h). (ok1 \<and> ok2, h)) (tree_decref ops (cw_right n) (mid + 1) r h)))
                else Ok (True, h)) (\<lambda>(ok1, h).
              rmap (\<lambda>(ok2, h). (ok1 \<and> ok2, h\<lparr>hp_nodes := (hp_nodes h)(a := None)\<rparr>)) (pss_value_decref ops (cw_val n) h))
            else Ok (True, h)))"
  by pat_completeness auto

termination
  by (relation "measure (\<lambda>(ops, root, l, r, h). r - l)") auto

declare cow_get.simps [simp del] cow_loop.simps [simp del] tree_decref.simps [simp del]

subsection \<open>Frames\<close>

text \<open>A register number is below \<open>65535\<close>, which is the error code of its type.\<close>

abbreviation NO_REG :: nat where "NO_REG \<equiv> 65535"

record pss_frame =
  fr_root :: "nat option"

definition pss_frame_new :: "alloc \<Rightarrow> pss_frame option \<Rightarrow> pss_heap \<Rightarrow> (pss_frame option \<times> pss_heap) result" where
  "pss_frame_new mem from h =
     (let a = hp_next h; h = h\<lparr>hp_next := Suc a\<rparr> in
      if \<not> mem a then Ok (None, h)
      else let root = Option.bind from fr_root in
        (case root of None \<Rightarrow> Ok (Some \<lparr>fr_root = root\<rparr>, h)
         | Some b \<Rightarrow> rmap (\<lambda>h. (Some \<lparr>fr_root = root\<rparr>, h)) (add_ref b h)))"

definition pss_frame_free :: "(nat \<Rightarrow> bool) \<Rightarrow> pss_frame option \<Rightarrow> pss_heap \<Rightarrow> (bool \<times> pss_heap) result" where
  "pss_frame_free ops frame h = (case frame of None \<Rightarrow> Ok (False, h) | Some f \<Rightarrow> tree_decref ops (fr_root f) 0 NO_REG h)"

definition pss_frame_reg_get :: "pss_frame option \<Rightarrow> nat \<Rightarrow> pss_heap \<Rightarrow> pss_value result" where
  "pss_frame_reg_get frame regid h = (case frame of None \<Rightarrow> Ok VError
     | Some f \<Rightarrow> if regid = NO_REG then Ok VError
         else rmap (\<lambda>n. case n of None \<Rightarrow> VUndef | Some n \<Rightarrow> cw_val n) (cow_get h (fr_root f) 0 NO_REG regid))"

definition pss_frame_reg_set :: "alloc \<Rightarrow> (nat \<Rightarrow> bool) \<Rightarrow> pss_frame option \<Rightarrow> nat \<Rightarrow> pss_value \<Rightarrow> pss_heap
    \<Rightarrow> (bool \<times> pss_frame option \<times> pss_heap) result" where
  "pss_frame_reg_set mem ops frame regid v h = (case frame of None \<Rightarrow> Ok (False, None, h)
     | Some f \<Rightarrow> if regid = NO_REG \<or> v = VError then Ok (False, frame, h)
         else rmap (\<lambda>(root, h). case root of None \<Rightarrow> (False, frame, h) | Some a \<Rightarrow> (True, Some (f\<lparr>fr_root := Some a\<rparr>), h))
           (cow_write mem ops (fr_root f) 0 NO_REG regid v h))"

definition pss_frame_reg_move :: "alloc \<Rightarrow> (nat \<Rightarrow> bool) \<Rightarrow> pss_frame option \<Rightarrow> nat \<Rightarrow> nat \<Rightarrow> pss_heap
    \<Rightarrow> (bool \<times> pss_frame option \<times> pss_heap) result" where
  "pss_frame_reg_move mem ops frame src dst h = rbind (pss_frame_reg_get frame src h) (\<lambda>v. pss_frame_reg_set mem ops frame dst v h)"

subsection \<open>Register numbers\<close>

text \<open>The registers in the order of their depth in the tree.\<close>

fun log2_loop :: "nat \<Rightarrow> nat" where
  "log2_loop x = (if x > 1 then Suc (log2_loop (x div 2)) else 0)"

definition pss_frame_serial_to_regid :: "16 word \<Rightarrow> 16 word" where
  "pss_frame_serial_to_regid serial =
     (let log2 = log2_loop (1 + unat serial) in
      push_bit (16 - log2) (1 + serial) OR drop_bit log2 0x7fff)"

definition pss_frame_regid_to_serial :: "16 word \<Rightarrow> 16 word" where
  "pss_frame_regid_to_serial regid =
     (let r = ucast regid :: 32 word; x = (r XOR (r + 1)) + 1 in ucast (0xffff div x + r div x))"

end
