(* ===== verification/PssFrameInv.thy ===== *)
theory PssFrameInv
  imports PssFrame
begin

text \<open>
  The pointers of the copy-on-write frames as a graph. A pointer is in a frame or in a node; the counter
  of a node is the number of the pointers to it. What a frame holds is what walks in this graph find,
  and creating children or copying a node does not change it.
\<close>

subsection \<open>The pointer graph\<close>

datatype src = Frame nat | Kid nat bool

type_synonym ptrs = "src \<Rightarrow> nat option"

definition inrefs :: "ptrs \<Rightarrow> nat \<Rightarrow> src set" where
  "inrefs T a = {s. T s = Some a}"

definition fin_ptrs :: "ptrs \<Rightarrow> bool" where
  "fin_ptrs T \<longleftrightarrow> finite {s. T s \<noteq> None}"

lemma finite_inrefs: "fin_ptrs T \<Longrightarrow> finite (inrefs T a)"
  unfolding fin_ptrs_def by (rule finite_subset [of _ "{s. T s \<noteq> None}"]) (auto simp: inrefs_def)

lemma fin_ptrs_upd: "fin_ptrs T \<Longrightarrow> fin_ptrs (T(s := x))"
  unfolding fin_ptrs_def by (rule finite_subset [of _ "insert s {s. T s \<noteq> None}"]) auto

lemma card_inrefs_upd:
  assumes "fin_ptrs T"
  shows "card (inrefs (T(s := x)) a) + (if T s = Some a then 1 else 0) = card (inrefs T a) + (if x = Some a then 1 else 0)"
proof -
  have fin: "finite (inrefs T a)" by (rule finite_inrefs [OF assms])
  have eq: "inrefs (T(s := x)) a = (if x = Some a then insert s (inrefs T a) else inrefs T a - {s})"
    by (auto simp: inrefs_def)
  show ?thesis
  proof (cases "T s = Some a")
    case True
    then have "s \<in> inrefs T a" by (simp add: inrefs_def)
    then show ?thesis using True fin card_Suc_Diff1 [of "inrefs T a" s] by (auto simp: eq insert_absorb)
  next
    case False
    then have "s \<notin> inrefs T a" by (simp add: inrefs_def)
    then show ?thesis using False fin by (auto simp: eq)
  qed
qed

fun walk :: "ptrs \<Rightarrow> src \<Rightarrow> bool list \<Rightarrow> nat option" where
  "walk T s [] = T s"
| "walk T s (d # p) = (case T s of None \<Rightarrow> None | Some a \<Rightarrow> walk T (Kid a d) p)"

lemma walk_snoc: "walk T s (p @ [d]) = (case walk T s p of None \<Rightarrow> None | Some b \<Rightarrow> T (Kid b d))"
  by (induction T s p rule: walk.induct) (auto split: option.splits)

text \<open>New nodes below a node that had none.\<close>

lemma walk_extend:
  assumes "\<And>s. T s \<noteq> None \<Longrightarrow> T' s = T s" and "\<And>s z. T s = None \<Longrightarrow> T' s = Some z \<Longrightarrow> z \<in> N" and "\<And>z d. z \<in> N \<Longrightarrow> T' (Kid z d) = None"
  shows "walk T' s p = walk T s p \<or> walk T s p = None \<and> (\<exists>z\<in>N. walk T' s p = Some z)"
proof (induction p arbitrary: s)
  case Nil
  show ?case using assms(1,2) [of s] by (cases "T s"; cases "T' s") auto
next
  case (Cons d p)
  show ?case
  proof (cases "T s")
    case None
    have "walk T' (Kid z d) p = None" if "z \<in> N" for z using assms(3) [OF that] by (cases p) auto
    then show ?thesis using None assms(2) [of s] by (cases "T' s") auto
  next
    case (Some a)
    then show ?thesis using Cons.IH [of "Kid a d"] assms(1) [of s] by simp
  qed
qed

text \<open>A copy takes the place of a node in one pointer.\<close>

lemma walk_copy:
  assumes "T \<sigma> = Some a" and "T' \<sigma> = Some c" and "\<And>d. T' (Kid c d) = T (Kid a d)" and "\<And>d. Kid a d \<noteq> \<sigma>"
    and "\<And>s. s \<noteq> \<sigma> \<Longrightarrow> (\<forall>d. s \<noteq> Kid c d) \<Longrightarrow> T' s = T s" and "\<And>d. T (Kid c d) = None" and "a \<noteq> c" and "\<forall>d. s \<noteq> Kid c d" and "\<And>s. T s \<noteq> Some c"
  shows "walk T' s p = walk T s p \<or> walk T s p = Some a \<and> walk T' s p = Some c"
  using assms(8)
proof (induction p arbitrary: s)
  case Nil
  then show ?case using assms(1,2) assms(5) [of s] by (cases "s = \<sigma>") auto
next
  case (Cons d p)
  have same: "walk T' (Kid c d) p = walk T' (Kid a d) p"
    using assms(3) [of d] assms(4) [of d] assms(5) [of "Kid a d"] assms(7) by (cases p) auto
  have IH: "walk T' (Kid b d) p = walk T (Kid b d) p \<or> walk T (Kid b d) p = Some a \<and> walk T' (Kid b d) p = Some c" if "b \<noteq> c" for b
    using Cons.IH [of "Kid b d"] that by simp
  show ?case
  proof (cases "s = \<sigma>")
    case True
    then show ?thesis using assms(1,2) IH [of a] assms(7) same by simp
  next
    case False
    then have s: "T' s = T s" using assms(5) [of s] Cons.prems by simp
    show ?thesis
    proof (cases "T s")
      case (Some b)
      then have "b \<noteq> c" using assms(9) by metis
      then show ?thesis using IH [of b] s Some by simp
    qed (use s in simp)
  qed
qed

subsection \<open>Ranges\<close>

definition span :: "nat \<Rightarrow> nat \<Rightarrow> nat \<Rightarrow> bool" where
  "span k l r \<longleftrightarrow> (\<exists>j. l = j * 2 ^ k) \<and> r + 1 = l + 2 ^ k"

lemma span_mid:
  assumes "span (Suc k) l r"
  shows "(l + r) div 2 + 1 = l + 2 ^ k" and "span k l ((l + r) div 2)" and "span k ((l + r) div 2 + 1) r"
    and "odd ((l + r) div 2) \<longleftrightarrow> 0 < k" and "l < r" and "r - l = 2 ^ Suc k - 1"
proof -
  obtain j where j: "l = j * 2 ^ Suc k" "r + 1 = l + 2 ^ Suc k" using assms by (auto simp: span_def)
  have p: "(1 :: nat) \<le> 2 ^ k" by simp
  obtain e :: nat where e: "2 ^ k = Suc e" using p by (cases "(2 :: nat) ^ k") simp_all
  have "l + r = 2 * (l + (2 ^ k - 1)) + 1" using j(2) by (simp add: e)
  then have m: "(l + r) div 2 = l + (2 ^ k - 1)" by simp
  then show mid: "(l + r) div 2 + 1 = l + 2 ^ k" using p by simp
  show "span k l ((l + r) div 2)" using mid j(1) by (auto simp: span_def intro: exI [of _ "2 * j"])
  show "span k ((l + r) div 2 + 1) r" using mid j by (auto simp: span_def algebra_simps intro: exI [of _ "2 * j + 1"])
  show "odd ((l + r) div 2) \<longleftrightarrow> 0 < k" unfolding m unfolding j(1) by (cases k) simp_all
  show "l < r" "r - l = 2 ^ Suc k - 1" using j(2) by (simp_all add: e)
qed

lemma span_leaf:
  assumes "span (Suc k) l r"
  shows "r - l = 1 \<longleftrightarrow> k = 0" and "r - l > 1 \<longleftrightarrow> 0 < k" and "r - l = 3 \<longleftrightarrow> k = 1"
proof -
  have d: "r - l = 2 ^ Suc k - 1" by (rule span_mid(6) [OF assms])
  have big: "(4 :: nat) \<le> 2 ^ k" if "2 \<le> k" using power_increasing [OF that, of "2 :: nat"] by simp
  consider "k = 0" | "k = 1" | "2 \<le> k" by linarith
  then show "r - l = 1 \<longleftrightarrow> k = 0" "r - l > 1 \<longleftrightarrow> 0 < k" "r - l = 3 \<longleftrightarrow> k = 1"
    by (cases; use d big in auto)+
qed

text \<open>The way from the root of a range to a register.\<close>

fun dirs :: "nat \<Rightarrow> nat \<Rightarrow> nat \<Rightarrow> bool list" where
  "dirs 0 l t = []"
| "dirs (Suc k) l t = (if t + 1 = l + 2 ^ k then [] else if t + 1 < l + 2 ^ k then True # dirs k l t else False # dirs k (l + 2 ^ k) t)"

lemma dirs_inj:
  assumes "l \<le> t" and "t + 1 < l + 2 ^ k" and "l \<le> u" and "u + 1 < l + 2 ^ k" and "dirs k l t = dirs k l u"
  shows "t = u"
  using assms
proof (induction k arbitrary: l)
  case (Suc k)
  consider "t + 1 = l + 2 ^ k" | "t + 1 < l + 2 ^ k" | "l + 2 ^ k < t + 1" by linarith
  then show ?case
  proof cases
    case 1
    then show ?thesis using Suc.prems(5) by (auto split: if_splits)
  next
    case 2
    then have u: "u + 1 < l + 2 ^ k" "dirs k l t = dirs k l u" using Suc.prems(5) by (auto split: if_splits)
    show ?thesis by (rule Suc.IH [of l]) (use Suc.prems 2 u in auto)
  next
    case 3
    then have u: "l + 2 ^ k < u + 1" "dirs k (l + 2 ^ k) t = dirs k (l + 2 ^ k) u"
      using Suc.prems(5) by (auto split: if_splits)
    show ?thesis by (rule Suc.IH [of "l + 2 ^ k"]) (use Suc.prems 3 u in auto)
  qed
qed simp

subsection \<open>The invariant\<close>

definition kid :: "cow_node \<Rightarrow> bool \<Rightarrow> nat option" where
  "kid n d = (if d then cw_left n else cw_right n)"

text \<open>
  \<open>T\<close> has the pointers that count, \<open>lev\<close> the height of each node. The nodes in \<open>D\<close> are about to be freed:
  no pointer to them counts any more, and those in them are given up one after the other.
\<close>

definition node_ok :: "ptrs \<Rightarrow> (nat \<Rightarrow> nat) \<Rightarrow> nat set \<Rightarrow> nat \<Rightarrow> cow_node \<Rightarrow> bool" where
  "node_ok T lev D a n \<longleftrightarrow> 1 \<le> lev a \<and> lev a \<le> 16 \<and> (cw_leaf n \<longleftrightarrow> lev a = 1) \<and> (cw_leaf n \<longrightarrow> cw_left n = None)
     \<and> (cw_left n = None \<longleftrightarrow> cw_right n = None) \<and> (a \<notin> D \<longrightarrow> (\<forall>d. T (Kid a d) = kid n d))
     \<and> cw_ref n = card (inrefs T a) \<and> (a \<in> D \<longleftrightarrow> cw_ref n = 0)"

fun ptr_ok :: "(nat \<Rightarrow> nat) \<Rightarrow> src \<Rightarrow> nat \<Rightarrow> bool" where
  "ptr_ok lev (Frame f) a \<longleftrightarrow> lev a = 16"
| "ptr_ok lev (Kid b d) a \<longleftrightarrow> Suc (lev a) = lev b"

definition cow_inv :: "pss_heap \<Rightarrow> ptrs \<Rightarrow> (nat \<Rightarrow> nat) \<Rightarrow> nat set \<Rightarrow> bool" where
  "cow_inv h T lev D \<longleftrightarrow> finite (dom (hp_nodes h)) \<and> dom (hp_nodes h) \<subseteq> {..<hp_next h} \<and> D \<subseteq> dom (hp_nodes h)
     \<and> fin_ptrs T \<and> (\<forall>b d. b \<notin> dom (hp_nodes h) \<longrightarrow> T (Kid b d) = None)
     \<and> (\<forall>s a. T s = Some a \<longrightarrow> a \<in> dom (hp_nodes h) \<and> ptr_ok lev s a)
     \<and> (\<forall>a n. hp_nodes h a = Some n \<longrightarrow> node_ok T lev D a n)"

lemma cow_invD:
  assumes "cow_inv h T lev D"
  shows "finite (dom (hp_nodes h))" "dom (hp_nodes h) \<subseteq> {..<hp_next h}" "D \<subseteq> dom (hp_nodes h)" "fin_ptrs T"
    "b \<notin> dom (hp_nodes h) \<Longrightarrow> T (Kid b d) = None" "T s = Some a \<Longrightarrow> a \<in> dom (hp_nodes h)" "T s = Some a \<Longrightarrow> ptr_ok lev s a"
    "hp_nodes h a = Some n \<Longrightarrow> node_ok T lev D a n"
  using assms by (auto simp: cow_inv_def)

lemma fresh_node:
  assumes "cow_inv h T lev D" and "hp_next h \<le> c"
  shows "hp_nodes h c = None" "T s \<noteq> Some c" "T (Kid c d) = None" "inrefs T c = {}"
proof -
  have c: "c \<notin> dom (hp_nodes h)" using cow_invD(2) [OF assms(1)] assms(2) by auto
  then show "hp_nodes h c = None" by (simp add: domIff)
  show s: "T s \<noteq> Some c" for s using cow_invD(6) [OF assms(1), of s c] c by auto
  then show "inrefs T c = {}" by (simp add: inrefs_def)
  show "T (Kid c d) = None" by (rule cow_invD(5) [OF assms(1) c])
qed

text \<open>Objects: \<open>cnt\<close> says how many references to each of them count.\<close>

definition obj_cnt :: "(nat \<Rightarrow> bool) \<Rightarrow> pss_heap \<Rightarrow> (nat \<Rightarrow> nat) \<Rightarrow> bool" where
  "obj_cnt ops h cnt \<longleftrightarrow> dom (hp_refs h) \<subseteq> {..<hp_next h} \<and> (\<forall>r. hp_refs h r = None \<longrightarrow> cnt r = 0)
     \<and> (\<forall>r x. hp_refs h r = Some x \<longrightarrow> rf_refcnt x = cnt r \<and> ops (rf_type x))"

definition holders :: "pss_heap \<Rightarrow> nat \<Rightarrow> nat set" where
  "holders h r = {a. \<exists>n. hp_nodes h a = Some n \<and> cw_val n = VRef r}"

text \<open>\<open>ext\<close>: the references that are not in a frame.\<close>

definition obj_inv :: "(nat \<Rightarrow> bool) \<Rightarrow> (nat \<Rightarrow> nat) \<Rightarrow> pss_heap \<Rightarrow> bool" where
  "obj_inv ops ext h \<longleftrightarrow> obj_cnt ops h (\<lambda>r. card (holders h r) + ext r)"

lemma incref_cnt:
  assumes "obj_cnt ops h cnt" and "\<And>r. v = VRef r \<Longrightarrow> r \<in> dom (hp_refs h)"
  shows "\<exists>h'. pss_value_incref v h = Ok h' \<and> obj_cnt ops h' (\<lambda>r. cnt r + (if v = VRef r then 1 else 0))
    \<and> hp_nodes h' = hp_nodes h \<and> hp_next h' = hp_next h \<and> dom (hp_refs h') = dom (hp_refs h)"
proof (cases v)
  case (VRef r)
  then obtain x where "hp_refs h r = Some x" using assms(2) by blast
  then show ?thesis using assms(1) VRef by (auto simp: pss_value_incref_def ref_at_def obj_cnt_def)
qed (use assms(1) in \<open>auto simp: pss_value_incref_def obj_cnt_def\<close>)

lemma decref_cnt:
  assumes "obj_cnt ops h cnt" and "\<And>r. v = VRef r \<Longrightarrow> 0 < cnt r"
  shows "\<exists>h'. pss_value_decref ops v h = Ok (True, h') \<and> obj_cnt ops h' (\<lambda>r. cnt r - (if v = VRef r then 1 else 0))
    \<and> hp_nodes h' = hp_nodes h \<and> hp_next h' = hp_next h \<and> (\<forall>r. r \<in> dom (hp_refs h) \<longrightarrow> v \<noteq> VRef r \<or> 1 < cnt r \<longrightarrow> r \<in> dom (hp_refs h'))"
proof (cases v)
  case (VRef r)
  then have "hp_refs h r \<noteq> None" using assms by (auto simp: obj_cnt_def)
  then obtain x where x: "hp_refs h r = Some x" "rf_refcnt x = cnt r" "ops (rf_type x)" using assms(1) by (auto simp: obj_cnt_def)
  have "dom (hp_refs h) \<subseteq> {..<hp_next h}" using assms(1) by (simp add: obj_cnt_def)
  then show ?thesis using x VRef assms(1) by (auto simp: pss_value_decref_def ref_at_def obj_cnt_def Let_def)
qed (use assms(1) in \<open>auto simp: pss_value_decref_def obj_cnt_def\<close>)

end
