(* ===== verification/PssFrameOps.thy ===== *)
theory PssFrameOps
  imports PssFrameInv
begin

text \<open>
  The operations on nodes keep the invariant, and all of them but the last assignment leave what every
  frame holds as it is.
\<close>

subsection \<open>What a frame holds\<close>

definition lookup :: "pss_heap \<Rightarrow> ptrs \<Rightarrow> src \<Rightarrow> bool list \<Rightarrow> pss_value" where
  "lookup h T s p = (case Option.bind (walk T s p) (hp_nodes h) of None \<Rightarrow> VUndef | Some n \<Rightarrow> cw_val n)"

text \<open>Nothing that is seen from the frames has changed; the ways to the nodes other than \<open>a\<close> are the same.\<close>

definition keeps :: "nat \<Rightarrow> pss_heap \<Rightarrow> ptrs \<Rightarrow> pss_heap \<Rightarrow> ptrs \<Rightarrow> bool" where
  "keeps a h T h' T' \<longleftrightarrow> (\<forall>g p. lookup h' T' (Frame g) p = lookup h T (Frame g) p) \<and> dom (hp_nodes h) \<subseteq> dom (hp_nodes h')
     \<and> (\<forall>b g q. b \<in> dom (hp_nodes h) \<longrightarrow> b \<noteq> a \<longrightarrow> (walk T' (Frame g) q = Some b \<longleftrightarrow> walk T (Frame g) q = Some b))"

lemma keeps_refl: "keeps a h T h T"
  by (simp add: keeps_def)

lemma keeps_trans: "keeps a h T h1 T1 \<Longrightarrow> keeps a h1 T1 h2 T2 \<Longrightarrow> keeps a h T h2 T2"
  unfolding keeps_def by (metis subset_iff)

lemma inrefs_Some: "T s = Some a \<Longrightarrow> s \<in> inrefs T a"
  by (simp add: inrefs_def)

subsection \<open>Children\<close>

lemma put_node_simps [simp]: "hp_nodes (put_node a n h) = (hp_nodes h)(a \<mapsto> n)" "hp_next (put_node a n h) = hp_next h"
  "hp_refs (put_node a n h) = hp_refs h"
  by (simp_all add: put_node_def)

lemma node_new_plenty: "mem (hp_next h) \<Longrightarrow> node_new mem leaf h = (Some (hp_next h), put_node (hp_next h) (zero_node leaf) (h\<lparr>hp_next := Suc (hp_next h)\<rparr>))"
  by (simp add: node_new_def Let_def)

lemma obj_cnt_cong:
  assumes "obj_cnt ops h cnt" and "hp_refs h' = hp_refs h" and "hp_next h \<le> hp_next h'" and "cnt' = cnt"
  shows "obj_cnt ops h' cnt'"
  using assms by (auto simp: obj_cnt_def)

lemma add_children:
  assumes inv: "cow_inv h T lev {}" and n: "hp_nodes h a = Some n" "cw_left n = None" and k: "lev a = Suc (Suc k)"
    and x: "x = hp_next h" "y = Suc x" and child: "child = (zero_node (k = 0))\<lparr>cw_ref := 1\<rparr>"
    and h': "hp_nodes h' = (hp_nodes h)(a \<mapsto> n\<lparr>cw_left := Some x, cw_right := Some y\<rparr>, y \<mapsto> child, x \<mapsto> child)" "hp_next h' = Suc y"
  shows "cow_inv h' (T(Kid a True \<mapsto> x, Kid a False \<mapsto> y)) (lev(x := Suc k, y := Suc k)) {}"
    and "keeps a h T h' (T(Kid a True \<mapsto> x, Kid a False \<mapsto> y))"
proof -
  let ?T = "T(Kid a True \<mapsto> x, Kid a False \<mapsto> y)" and ?lev = "lev(x := Suc k, y := Suc k)"
  have ok: "node_ok T lev {} a n" by (rule cow_invD(8) [OF inv n(1)])
  have none: "T (Kid a d) = None" for d using ok n(2) by (cases d) (auto simp: node_ok_def kid_def)
  have fx: "hp_nodes h x = None" "T s \<noteq> Some x" "T (Kid x d) = None" "inrefs T x = {}" for s d using fresh_node [OF inv, of x] x by auto
  have fy: "hp_nodes h y = None" "T s \<noteq> Some y" "T (Kid y d) = None" "inrefs T y = {}" for s d using fresh_node [OF inv, of y] x by auto
  have ne: "a \<noteq> x" "a \<noteq> y" "x \<noteq> y" using n(1) fx(1) fy(1) x(2) by auto
  have fin: "fin_ptrs T" by (rule cow_invD(4) [OF inv])
  have card: "card (inrefs ?T b) = card (inrefs T b) + (if b = x then 1 else 0) + (if b = y then 1 else 0)" for b
    using card_inrefs_upd [OF fin, of "Kid a True" "Some x" b] card_inrefs_upd [OF fin_ptrs_upd [OF fin], of "Kid a True" "Some x" "Kid a False" "Some y" b] none
    by (auto split: if_splits)
  show "cow_inv h' ?T ?lev {}" unfolding cow_inv_def
  proof (intro conjI allI impI)
    show "finite (dom (hp_nodes h'))" using cow_invD(1) [OF inv] by (simp add: h')
    show "dom (hp_nodes h') \<subseteq> {..<hp_next h'}" using cow_invD(2) [OF inv] n(1) x by (auto simp: h' less_Suc_eq subset_iff)
    show "fin_ptrs ?T" by (intro fin_ptrs_upd fin)
    show "?T (Kid b d) = None" if "b \<notin> dom (hp_nodes h')" for b d
      using that cow_invD(5) [OF inv, of b d] by (auto simp: h' split: if_splits)
    show "b \<in> dom (hp_nodes h')" if "?T s = Some b" for s b
      using that cow_invD(6) [OF inv, of s b] by (auto simp: h' split: if_splits)
    show "ptr_ok ?lev s b" if "?T s = Some b" for s b
    proof (cases "s = Kid a True \<or> s = Kid a False")
      case True
      then show ?thesis using that k ne by auto
    next
      case False
      then have s: "T s = Some b" using that by (auto split: if_splits)
      then have b: "b \<noteq> x" "b \<noteq> y" using fx(2) [of s] fy(2) [of s] by auto
      have "c \<noteq> x \<and> c \<noteq> y" if "s = Kid c d" for c d using that s fx(3) [of d] fy(3) [of d] by auto
      then show ?thesis using cow_invD(7) [OF inv s] b by (cases s) auto
    qed
    show "node_ok ?T ?lev {} b m" if "hp_nodes h' b = Some m" for b m
    proof (cases "b = x \<or> b = y")
      case True
      then have "m = child" using that ne by (auto simp: h')
      moreover have "card (inrefs ?T b) = 1" using True card [of b] fx(4) fy(4) ne by auto
      moreover have "?lev b = Suc k" using True by auto
      moreover have "Suc k \<le> 16" using ok k by (simp add: node_ok_def)
      moreover have "?T (Kid b d) = None" for d using True ne fx(3) fy(3) by auto
      ultimately show ?thesis by (simp add: node_ok_def child zero_node_def kid_def)
    next
      case False
      show ?thesis
      proof (cases "b = a")
        case True
        then have m: "m = n\<lparr>cw_left := Some x, cw_right := Some y\<rparr>" using that ne by (simp add: h')
        have "?T (Kid a d) = kid m d" for d by (cases d) (simp_all add: m kid_def)
        then show ?thesis using ok card [of a] ne k True by (simp add: node_ok_def m)
      next
        case F: False
        then have m: "hp_nodes h b = Some m" using that False by (simp add: h')
        have "?T (Kid b d) = T (Kid b d)" for d using F by simp
        then show ?thesis using cow_invD(8) [OF inv m] False card [of b] by (simp add: node_ok_def)
      qed
    qed
  qed simp
  have walk: "walk ?T s p = walk T s p \<or> walk T s p = None \<and> (\<exists>z\<in>{x, y}. walk ?T s p = Some z)" for s p
    by (rule walk_extend) (use none ne fx(3) fy(3) in \<open>auto split: if_splits\<close>)
  have val: "hp_nodes h' z = Some child" if "z \<in> {x, y}" for z using that ne by (auto simp: h')
  have old: "map_option cw_val (hp_nodes h' b) = map_option cw_val (hp_nodes h b)" if "b \<noteq> x" "b \<noteq> y" for b using that n(1) by (simp add: h')
  have "lookup h' ?T s p = lookup h T s p" for s p
  proof (cases "walk T s p")
    case None
    then show ?thesis using walk [of s p] val by (auto simp: lookup_def child zero_node_def)
  next
    case (Some b)
    then have w: "walk ?T s p = Some b" using walk [of s p] by simp
    have "\<exists>s'. T s' = Some b" using Some by (induction T s p rule: walk.induct) (auto split: option.splits)
    then have "b \<noteq> x" "b \<noteq> y" using fx(2) fy(2) by blast+
    then show ?thesis using old [of b] Some w by (cases "hp_nodes h' b"; cases "hp_nodes h b") (auto simp: lookup_def)
  qed
  moreover have "walk ?T s q = Some b \<longleftrightarrow> walk T s q = Some b" if "b \<in> dom (hp_nodes h)" for b s q
    using walk [of s q] that fx(1) fy(1) by auto
  ultimately show "keeps a h T h' ?T" by (auto simp: keeps_def h')
qed

subsection \<open>Copies\<close>

text \<open>The heap that a pointer graph describes, with the values of another heap.\<close>

definition relink :: "ptrs \<Rightarrow> nat \<Rightarrow> cow_node \<Rightarrow> cow_node" where
  "relink T b m = m\<lparr>cw_ref := card (inrefs T b), cw_left := T (Kid b True), cw_right := T (Kid b False)\<rparr>"

lemma relink_simps [simp]: "cw_val (relink T b m) = cw_val m" "cw_leaf (relink T b m) = cw_leaf m" "kid (relink T b m) d = T (Kid b d)"
  "cw_ref (relink T b m) = card (inrefs T b)" "cw_left (relink T b m) = T (Kid b True)" "cw_right (relink T b m) = T (Kid b False)"
  by (simp_all add: relink_def kid_def)

lemma relink_same: "cow_inv h T lev {} \<Longrightarrow> hp_nodes h b = Some m \<Longrightarrow> relink T b m = m"
  using cow_invD(8) [of h T lev "{}" b m] by (cases m) (simp add: node_ok_def relink_def kid_def)

definition copy_ptrs :: "src \<Rightarrow> nat \<Rightarrow> nat \<Rightarrow> ptrs \<Rightarrow> ptrs" where
  "copy_ptrs \<sigma> a c T = T(\<sigma> \<mapsto> c, Kid c True := T (Kid a True), Kid c False := T (Kid a False))"

lemma copy_card:
  assumes "cow_inv h T lev D" and "T \<sigma> = Some a" and "c = hp_next h"
  shows "card (inrefs (copy_ptrs \<sigma> a c T) b) + (if b = a then 1 else 0)
    = card (inrefs T b) + (if b = c then 1 else 0) + (if T (Kid a True) = Some b then 1 else 0) + (if T (Kid a False) = Some b then 1 else 0)"
proof -
  have fin: "fin_ptrs T" by (rule cow_invD(4) [OF assms(1)])
  have c: "T (Kid c d) = None" for d using fresh_node(3) [OF assms(1)] assms(3) by simp
  then have ne: "Kid c d \<noteq> \<sigma>" for d using assms(2) by (metis option.distinct(1))
  let ?T1 = "T(\<sigma> \<mapsto> c)" and ?T2 = "T(\<sigma> \<mapsto> c, Kid c True := T (Kid a True))"
  have "?T1 (Kid c True) = None" "?T2 (Kid c False) = None" using c ne by simp_all
  then show ?thesis
    using card_inrefs_upd [OF fin, of \<sigma> "Some c" b] card_inrefs_upd [OF fin_ptrs_upd [OF fin], of \<sigma> "Some c" "Kid c True" "T (Kid a True)" b]
      card_inrefs_upd [OF fin_ptrs_upd [OF fin_ptrs_upd [OF fin]], of \<sigma> "Some c" "Kid c True" "T (Kid a True)" "Kid c False" "T (Kid a False)" b] assms(2)
    unfolding copy_ptrs_def by (auto split: if_splits)
qed

lemma copy_inv:
  assumes inv: "cow_inv h T lev {}" and \<sigma>: "T \<sigma> = Some a" and n: "hp_nodes h a = Some n" "cw_ref n > 1" and c: "c = hp_next h"
    and m: "cw_val m = cw_val n" "cw_leaf m = cw_leaf n"
    and h': "hp_nodes h' = (\<lambda>b. if b = c then Some (relink (copy_ptrs \<sigma> a c T) c m) else map_option (relink (copy_ptrs \<sigma> a c T) b) (hp_nodes h b))"
      "hp_next h' = Suc c"
  shows "cow_inv h' (copy_ptrs \<sigma> a c T) (lev(c := lev a)) {}" and "keeps a h T h' (copy_ptrs \<sigma> a c T)" and "inrefs (copy_ptrs \<sigma> a c T) c = {\<sigma>}"
proof -
  let ?T = "copy_ptrs \<sigma> a c T" and ?lev = "lev(c := lev a)"
  have fin: "fin_ptrs T" by (rule cow_invD(4) [OF inv])
  have f: "hp_nodes h c = None" "T s \<noteq> Some c" "T (Kid c d) = None" "inrefs T c = {}" for s d using fresh_node [OF inv, of c] c by auto
  have ok: "node_ok T lev {} a n" by (rule cow_invD(8) [OF inv n(1)])
  have ac: "a \<noteq> c" using n(1) f(1) by auto
  have \<sigma>c: "\<sigma> \<noteq> Kid c d" for d using \<sigma> f(3) by (metis option.distinct(1))
  have \<sigma>a: "Kid a d \<noteq> \<sigma>" for d using cow_invD(7) [OF inv \<sigma>] by auto
  have at: "?T \<sigma> = Some c" "?T (Kid c d) = T (Kid a d)" for d using \<sigma>c by (auto simp: copy_ptrs_def)
  have other: "?T s = T s" if "s \<noteq> \<sigma>" "\<forall>d. s \<noteq> Kid c d" for s using that by (simp add: copy_ptrs_def)
  have dom': "dom (hp_nodes h') = insert c (dom (hp_nodes h))" by (auto simp: h' split: if_splits)
  show sole: "inrefs ?T c = {\<sigma>}"
  proof
    show "inrefs ?T c \<subseteq> {\<sigma>}" using f(2) by (auto simp: inrefs_def copy_ptrs_def split: if_splits)
    show "{\<sigma>} \<subseteq> inrefs ?T c" using at(1) by (simp add: inrefs_def)
  qed
  show "cow_inv h' ?T ?lev {}" unfolding cow_inv_def
  proof (intro conjI allI impI)
    show "finite (dom (hp_nodes h'))" "dom (hp_nodes h') \<subseteq> {..<hp_next h'}" unfolding dom'
      using cow_invD(1,2) [OF inv] c by (auto simp: h'(2) less_Suc_eq)
    show "fin_ptrs ?T" unfolding copy_ptrs_def by (intro fin_ptrs_upd fin)
    show "?T (Kid b d) = None" if "b \<notin> dom (hp_nodes h')" for b d
    proof -
      have b: "b \<noteq> c" "b \<notin> dom (hp_nodes h)" using that dom' by auto
      then have "T (Kid b d) = None" using cow_invD(5) [OF inv] by blast
      moreover have "Kid b d \<noteq> \<sigma>" using \<sigma> calculation by auto
      ultimately show ?thesis using other [of "Kid b d"] b by simp
    qed
    show "b \<in> dom (hp_nodes h')" if "?T s = Some b" for s b
      using that cow_invD(6) [OF inv] unfolding dom' copy_ptrs_def by (auto split: if_splits)
    show "ptr_ok ?lev s b" if sb: "?T s = Some b" for s b
    proof (cases "s = \<sigma> \<or> (\<exists>d. s = Kid c d)")
      case True
      then show ?thesis
      proof
        assume s: "s = \<sigma>"
        then have "b = c" using sb at(1) by simp
        then show ?thesis using cow_invD(7) [OF inv \<sigma>] s \<sigma>c by (cases \<sigma>) auto
      next
        assume "\<exists>d. s = Kid c d"
        then obtain d where s: "s = Kid c d" by blast
        then have "T (Kid a d) = Some b" using sb at(2) by simp
        then show ?thesis using cow_invD(7) [OF inv] f(2) s by fastforce
      qed
    next
      case False
      then have b: "T s = Some b" using other [of s] sb by auto
      then have "b \<noteq> c" using f(2) by metis
      then show ?thesis using cow_invD(7) [OF inv b] False by (cases s) auto
    qed
    show "node_ok ?T ?lev {} b q" if q: "hp_nodes h' b = Some q" for b q
    proof (cases "b = c")
      case True
      have "card (inrefs ?T c) = 1" unfolding sole by simp
      moreover have "(T (Kid a True) = None) = (T (Kid a False) = None)" using ok by (auto simp: node_ok_def kid_def)
      moreover have "cw_leaf n \<longrightarrow> T (Kid a True) = None" using ok by (auto simp: node_ok_def kid_def)
      moreover have "q = relink ?T c m" using q True by (simp add: h')
      ultimately show ?thesis using True ok m(2) at(2) by (simp add: node_ok_def)
    next
      case False
      then obtain q0 where q0: "hp_nodes h b = Some q0" "q = relink ?T b q0" using q by (auto simp: h')
      have ok0: "node_ok T lev {} b q0" by (rule cow_invD(8) [OF inv q0(1)])
      have kids: "?T (Kid b d) = None \<longleftrightarrow> T (Kid b d) = None" for d
        using other [of "Kid b d"] False at(1) \<sigma> by (cases "Kid b d = \<sigma>") auto
      have "card (inrefs ?T b) > 0" using copy_card [OF inv \<sigma> c, of b] ok0 n q0(1) by (cases "b = a") (auto simp: node_ok_def)
      then show ?thesis using ok0 q0(2) False kids by (auto simp: node_ok_def kid_def)
    qed
  qed simp
  have walk: "walk ?T s p = walk T s p \<or> walk T s p = Some a \<and> walk ?T s p = Some c" if "\<forall>d. s \<noteq> Kid c d" for s p
    by (rule walk_copy [OF \<sigma> at(1) at(2) \<sigma>a other _ ac that]) (use f(2,3) in auto)
  have vals: "map_option cw_val (hp_nodes h' b) = map_option cw_val (hp_nodes h b)" if "b \<noteq> c" for b using that by (cases "hp_nodes h b") (auto simp: h')
  have cval: "map_option cw_val (hp_nodes h' c) = map_option cw_val (hp_nodes h a)" using n(1) m(1) by (simp add: h')
  have look: "lookup h T s p = (case Option.bind (walk T s p) (\<lambda>b. map_option cw_val (hp_nodes h b)) of None \<Rightarrow> VUndef | Some v \<Rightarrow> v)" for h T s p
    by (cases "walk T s p") (auto simp: lookup_def split: option.splits)
  have nc: "walk T (Frame g) p \<noteq> Some c" for g p
    by (cases p rule: rev_cases) (use f(2) in \<open>auto simp: walk_snoc split: option.splits\<close>)
  have "lookup h' ?T (Frame g) p = lookup h T (Frame g) p" for g p
    using walk [of "Frame g" p] nc [of g p] vals cval unfolding look by (cases "walk T (Frame g) p") auto
  moreover have "walk ?T (Frame g) q = Some b \<longleftrightarrow> walk T (Frame g) q = Some b" if "b \<in> dom (hp_nodes h)" "b \<noteq> a" for b g q
    using walk [of "Frame g" q] that f(1) by auto
  ultimately show "keeps a h T h' ?T" unfolding keeps_def dom' by auto
qed

definition src_of :: "nat \<Rightarrow> slot \<Rightarrow> src" where
  "src_of f s = (case s of InFrame \<Rightarrow> Frame f | InLeft b \<Rightarrow> Kid b True | InRight b \<Rightarrow> Kid b False)"

lemma copy_relink:
  assumes inv: "cow_inv h T lev {}" and \<sigma>: "T \<sigma> = Some a" and n: "hp_nodes h a = Some n" and c: "c = hp_next h" and q: "hp_nodes h z = Some q"
  shows "relink (copy_ptrs \<sigma> a c T) z q = q\<lparr>cw_ref := cw_ref q - (if z = a then 1 else 0) + (if cw_left n = Some z then 1 else 0) + (if cw_right n = Some z then 1 else 0),
      cw_left := if \<sigma> = Kid z True then Some c else cw_left q, cw_right := if \<sigma> = Kid z False then Some c else cw_right q\<rparr>"
proof -
  have zc: "z \<noteq> c" using q fresh_node(1) [OF inv, of c] c by auto
  have kids: "T (Kid a True) = cw_left n" "T (Kid a False) = cw_right n" "T (Kid z True) = cw_left q" "T (Kid z False) = cw_right q"
    using cow_invD(8) [OF inv n] cow_invD(8) [OF inv q] by (simp_all add: node_ok_def kid_def)
  have ref: "cw_ref q = card (inrefs T z)" using cow_invD(8) [OF inv q] by (simp add: node_ok_def)
  have loop: "cw_left n \<noteq> Some a" "cw_right n \<noteq> Some a" using cow_invD(7) [OF inv, of "Kid a _" a] kids(1,2) by fastforce+
  have pos: "z = a \<Longrightarrow> 0 < card (inrefs T z)" using \<sigma> finite_inrefs [OF cow_invD(4) [OF inv], of z] inrefs_Some [of T \<sigma> a] card_gt_0_iff by blast
  have "card (inrefs (copy_ptrs \<sigma> a c T) z) = cw_ref q - (if z = a then 1 else 0) + (if cw_left n = Some z then 1 else 0) + (if cw_right n = Some z then 1 else 0)"
    using copy_card [OF inv \<sigma> c, of z] pos zc kids(1,2) ref loop by (auto split: if_splits)
  moreover have "copy_ptrs \<sigma> a c T (Kid z True) = (if \<sigma> = Kid z True then Some c else cw_left q)"
    "copy_ptrs \<sigma> a c T (Kid z False) = (if \<sigma> = Kid z False then Some c else cw_right q)" using zc kids(3,4) by (auto simp: copy_ptrs_def)
  ultimately show ?thesis by (simp add: relink_def)
qed

lemma own_copies:
  assumes inv: "cow_inv h T lev {}" and obj: "obj_inv ops ext h" and n: "hp_nodes h a = Some n" "cw_ref n > 1" and k: "lev a = Suc k" "span (Suc k) l r"
    and kids: "0 < k \<Longrightarrow> cw_left n \<noteq> None" and mem: "mem (hp_next h)" and c: "c = hp_next h"
  shows "\<exists>h1. own_node mem a l r h = Ok (c, h1) \<and> hp_next h1 = Suc c \<and> dom (hp_refs h1) = dom (hp_refs h) \<and> obj_cnt ops h1 (\<lambda>r. card (holders h r) + ext r + (if cw_val n = VRef r then 1 else 0))
    \<and> hp_nodes h1 c = Some \<lparr>cw_ref = 1, cw_val = cw_val n, cw_leaf = cw_leaf n, cw_left = cw_left n, cw_right = cw_right n\<rparr>
    \<and> (\<forall>z. z \<noteq> c \<longrightarrow> hp_nodes h1 z = map_option (\<lambda>q. q\<lparr>cw_ref := cw_ref q - (if z = a then 1 else 0) + (if cw_left n = Some z then 1 else 0)
        + (if cw_right n = Some z then 1 else 0)\<rparr>) (hp_nodes h z))"
proof -
  have ok: "node_ok T lev {} a n" by (rule cow_invD(8) [OF inv n(1)])
  have leaf: "cw_leaf n \<longleftrightarrow> k = 0" using ok k(1) by (simp add: node_ok_def)
  have fc: "hp_nodes h c = None" using fresh_node(1) [OF inv] c by simp
  then have ac: "a \<noteq> c" using n(1) by auto
  note sp = span_leaf [OF k(2)]
  let ?h = "put_node c (zero_node (r - l = 1)) (h\<lparr>hp_next := Suc c\<rparr>)"
  have new: "node_new mem (r - l = 1) h = (Some c, ?h)" using node_new_plenty mem c by simp
  have cnt: "obj_cnt ops ?h (\<lambda>r. card (holders h r) + ext r)" using obj unfolding obj_inv_def by (rule obj_cnt_cong) (simp_all add: c)
  have live: "r \<in> dom (hp_refs ?h)" if "cw_val n = VRef r" for r
  proof -
    have "a \<in> holders h r" using n(1) that by (simp add: holders_def)
    moreover have "finite (holders h r)" using cow_invD(1) [OF inv] by (rule finite_subset [rotated]) (auto simp: holders_def)
    ultimately have "0 < card (holders h r)" by (auto simp: card_gt_0_iff)
    then show ?thesis using obj by (auto simp: obj_inv_def obj_cnt_def domIff)
  qed
  obtain g where g: "pss_value_incref (cw_val n) ?h = Ok g" "obj_cnt ops g (\<lambda>r. card (holders h r) + ext r + (if cw_val n = VRef r then 1 else 0))"
    "hp_nodes g = hp_nodes ?h" "hp_next g = hp_next ?h" "dom (hp_refs g) = dom (hp_refs ?h)" using incref_cnt [OF cnt live] by blast
  show ?thesis
  proof (cases k)
    case 0
    then have none: "cw_left n = None" "cw_right n = None" using ok leaf by (auto simp: node_ok_def)
    let ?g = "put_node a (n\<lparr>cw_ref := cw_ref n - 1\<rparr>) (put_node c ((zero_node (r - l = 1))\<lparr>cw_ref := 1, cw_val := cw_val n\<rparr>) g)"
    have "own_node mem a l r h = Ok (c, ?g)" using n g(1) new 0 sp by (simp add: own_node_def node_at_def Let_def)
    moreover have "obj_cnt ops ?g (\<lambda>r. card (holders h r) + ext r + (if cw_val n = VRef r then 1 else 0))" using g(2) by (rule obj_cnt_cong) simp_all
    ultimately show ?thesis using g(3-5) ac none leaf 0 sp(1) n(1) fc
      by (intro exI [of _ ?g]) (auto simp: zero_node_def map_option_case split: option.splits)
  next
    case (Suc j)
    then obtain x y where xy: "cw_left n = Some x" "cw_right n = Some y" using kids ok by (cases "cw_left n"; cases "cw_right n") (auto simp: node_ok_def)
    have T: "T (Kid a True) = Some x" "T (Kid a False) = Some y" using ok xy by (simp_all add: node_ok_def kid_def)
    have live: "x \<in> dom (hp_nodes h)" "y \<in> dom (hp_nodes h)" using cow_invD(6) [OF inv] T by blast+
    then obtain nx ny where nx: "hp_nodes h x = Some nx" "hp_nodes h y = Some ny" by blast
    have ne: "x \<noteq> a" "y \<noteq> a" "x \<noteq> c" "y \<noteq> c" using cow_invD(7) [OF inv T(1)] cow_invD(7) [OF inv T(2)] nx fc by auto
    let ?m = "(zero_node (r - l = 1))\<lparr>cw_ref := 1, cw_val := cw_val n\<rparr>"
    let ?g = "put_node c (?m\<lparr>cw_left := Some x, cw_right := Some y\<rparr>) (put_node a (n\<lparr>cw_ref := cw_ref n - 1\<rparr>) (put_node c ?m g))"
    let ?gx = "put_node x (nx\<lparr>cw_ref := cw_ref nx + 1\<rparr>) ?g"
    define ny' where "ny' = (if y = x then nx\<lparr>cw_ref := cw_ref nx + 1\<rparr> else ny)"
    let ?gy = "put_node y (ny'\<lparr>cw_ref := cw_ref ny' + 1\<rparr>) ?gx"
    have "add_ref x ?g = Ok ?gx" using nx ne g(3) by (simp add: add_ref_def node_at_def)
    moreover have "add_ref y ?gx = Ok ?gy" using nx ne g(3) by (auto simp: add_ref_def node_at_def ny'_def)
    ultimately have "own_node mem a l r h = Ok (c, ?gy)" using n g(1) new Suc sp xy by (simp add: own_node_def node_at_def Let_def)
    moreover have "obj_cnt ops ?gy (\<lambda>r. card (holders h r) + ext r + (if cw_val n = VRef r then 1 else 0))" using g(2) by (rule obj_cnt_cong) simp_all
    moreover have "hp_nodes ?gy c = Some \<lparr>cw_ref = 1, cw_val = cw_val n, cw_leaf = cw_leaf n, cw_left = cw_left n, cw_right = cw_right n\<rparr>"
      using ne xy leaf Suc sp(1) by (auto simp: zero_node_def)
    moreover have "hp_nodes ?gy z = map_option (\<lambda>q. q\<lparr>cw_ref := cw_ref q - (if z = a then 1 else 0) + (if cw_left n = Some z then 1 else 0)
        + (if cw_right n = Some z then 1 else 0)\<rparr>) (hp_nodes h z)" if "z \<noteq> c" for z
      using that ne xy nx n(1) g(3) by (auto simp: ny'_def map_option_case split: option.splits)
    ultimately show ?thesis using g(4,5) by (intro exI [of _ ?gy]) simp
  qed
qed

lemma own_step:
  assumes inv: "cow_inv h T lev {}" and obj: "obj_inv ops ext h" and \<sigma>: "T (src_of f s) = Some a" and ret: "T (Frame f) = Some ret"
    and n: "hp_nodes h a = Some n" "cw_ref n > 1" and k: "lev a = Suc k" "span (Suc k) l r"
    and kids: "0 < k \<Longrightarrow> cw_left n \<noteq> None" and mem: "mem (hp_next h)" and c: "c = hp_next h"
  shows "\<exists>h1 h' ret'. own_node mem a l r h = Ok (c, h1) \<and> set_slot s c ret h1 = Ok (ret', h') \<and> copy_ptrs (src_of f s) a c T (Frame f) = Some ret'
    \<and> cow_inv h' (copy_ptrs (src_of f s) a c T) (lev(c := lev a)) {} \<and> keeps a h T h' (copy_ptrs (src_of f s) a c T) \<and> obj_inv ops ext h'
    \<and> inrefs (copy_ptrs (src_of f s) a c T) c = {src_of f s} \<and> dom (hp_refs h') = dom (hp_refs h)"
proof -
  let ?\<sigma> = "src_of f s" and ?T = "copy_ptrs (src_of f s) a c T"
  let ?m = "\<lparr>cw_ref = 1, cw_val = cw_val n, cw_leaf = cw_leaf n, cw_left = cw_left n, cw_right = cw_right n\<rparr>"
  obtain h1 where h1: "own_node mem a l r h = Ok (c, h1)" "hp_next h1 = Suc c" "obj_cnt ops h1 (\<lambda>r. card (holders h r) + ext r + (if cw_val n = VRef r then 1 else 0))"
    "hp_nodes h1 c = Some ?m"
    "\<forall>z. z \<noteq> c \<longrightarrow> hp_nodes h1 z = map_option (\<lambda>q. q\<lparr>cw_ref := cw_ref q - (if z = a then 1 else 0) + (if cw_left n = Some z then 1 else 0)
        + (if cw_right n = Some z then 1 else 0)\<rparr>) (hp_nodes h z)"
    "dom (hp_refs h1) = dom (hp_refs h)"
    using own_copies [where mem = mem and lev = lev and a = a, OF inv obj n k kids mem c] by blast
  have fc: "hp_nodes h c = None" "T (Kid c d) = None" "T s' \<noteq> Some c" for d s' using fresh_node [OF inv] c by simp_all
  have mc: "relink ?T c ?m = ?m"
  proof -
    have "card (inrefs ?T c) = 1" using copy_inv(3) [OF inv \<sigma> n c refl refl, of "\<lparr>hp_refs = \<lambda>r. None, hp_nodes = \<lambda>b. if b = c then Some (relink ?T c n) else map_option (relink ?T b) (hp_nodes h b), hp_freed = [], hp_next = Suc c\<rparr>"] by simp
    moreover have "?T (Kid c d) = T (Kid a d)" for d by (cases d) (simp_all add: copy_ptrs_def)
    moreover have "T (Kid a d) = kid n d" for d using cow_invD(8) [OF inv n(1)] by (simp add: node_ok_def)
    ultimately show ?thesis by (simp add: relink_def kid_def)
  qed
  have rel: "relink ?T z q = q\<lparr>cw_ref := cw_ref q - (if z = a then 1 else 0) + (if cw_left n = Some z then 1 else 0) + (if cw_right n = Some z then 1 else 0),
      cw_left := if ?\<sigma> = Kid z True then Some c else cw_left q, cw_right := if ?\<sigma> = Kid z False then Some c else cw_right q\<rparr>" if "hp_nodes h z = Some q" for z q
    by (rule copy_relink [OF inv \<sigma> n(1) c that])
  have "\<exists>h' ret'. set_slot s c ret h1 = Ok (ret', h') \<and> ?T (Frame f) = Some ret' \<and> hp_next h' = Suc c \<and> hp_refs h' = hp_refs h1
    \<and> hp_nodes h' = (\<lambda>b. if b = c then Some (relink ?T c ?m) else map_option (relink ?T b) (hp_nodes h b))"
  proof (cases s)
    case InFrame
    have "hp_nodes h1 z = (if z = c then Some (relink ?T c ?m) else map_option (relink ?T z) (hp_nodes h z))" for z
      unfolding mc using h1(4,5) rel [of z] InFrame by (cases "hp_nodes h z") (auto simp: src_of_def)
    then show ?thesis using InFrame h1(2) by (auto simp: set_slot_def src_of_def copy_ptrs_def)
  next
    case (InLeft b)
    then have Tb: "T (Kid b True) = Some a" using \<sigma> by (simp add: src_of_def)
    then have b: "b \<noteq> c" "b \<noteq> a" using fc(2) cow_invD(7) [OF inv Tb] by auto
    have "b \<in> dom (hp_nodes h)" using cow_invD(5) [OF inv, of b True] Tb by (metis option.distinct(1))
    then obtain q where q: "hp_nodes h b = Some q" by blast
    then obtain q1 where q1: "hp_nodes h1 b = Some q1" using h1(5) b by simp
    have "((hp_nodes h1)(b \<mapsto> q1\<lparr>cw_left := Some c\<rparr>)) z = (if z = c then Some (relink ?T c ?m) else map_option (relink ?T z) (hp_nodes h z))" for z
      unfolding mc using h1(4,5) rel [of z] InLeft b q q1 by (cases "hp_nodes h z") (auto simp: src_of_def)
    then show ?thesis using InLeft h1(2) q1 ret by (auto simp: set_slot_def node_at_def src_of_def copy_ptrs_def)
  next
    case (InRight b)
    then have Tb: "T (Kid b False) = Some a" using \<sigma> by (simp add: src_of_def)
    then have b: "b \<noteq> c" "b \<noteq> a" using fc(2) cow_invD(7) [OF inv Tb] by auto
    have "b \<in> dom (hp_nodes h)" using cow_invD(5) [OF inv, of b False] Tb by (metis option.distinct(1))
    then obtain q where q: "hp_nodes h b = Some q" by blast
    then obtain q1 where q1: "hp_nodes h1 b = Some q1" using h1(5) b by simp
    have "((hp_nodes h1)(b \<mapsto> q1\<lparr>cw_right := Some c\<rparr>)) z = (if z = c then Some (relink ?T c ?m) else map_option (relink ?T z) (hp_nodes h z))" for z
      unfolding mc using h1(4,5) rel [of z] InRight b q q1 by (cases "hp_nodes h z") (auto simp: src_of_def)
    then show ?thesis using InRight h1(2) q1 ret by (auto simp: set_slot_def node_at_def src_of_def copy_ptrs_def)
  qed
  then obtain h' ret' where h': "set_slot s c ret h1 = Ok (ret', h')" "?T (Frame f) = Some ret'" "hp_next h' = Suc c" "hp_refs h' = hp_refs h1"
    "hp_nodes h' = (\<lambda>b. if b = c then Some (relink ?T c ?m) else map_option (relink ?T b) (hp_nodes h b))" by blast
  have "holders h' r = holders h r \<union> (if cw_val n = VRef r then {c} else {})" for r
    using fc(1) by (auto simp: holders_def h'(5) split: if_splits)
  moreover have "finite (holders h r)" for r using cow_invD(1) [OF inv] by (rule finite_subset [rotated]) (auto simp: holders_def)
  moreover have "c \<notin> holders h r" for r using fc(1) by (simp add: holders_def)
  ultimately have "card (holders h' r) + ext r = card (holders h r) + ext r + (if cw_val n = VRef r then 1 else 0)" for r by simp
  then have "obj_inv ops ext h'" unfolding obj_inv_def by (intro obj_cnt_cong [OF h1(3) h'(4)]) (simp_all add: h1(2) h'(3) fun_eq_iff)
  then show ?thesis using h1(1,6) h'(1,2,4) copy_inv [OF inv \<sigma> n c _ _ h'(5,3)] by auto
qed

subsection \<open>One round of the loop\<close>

text \<open>Only frame \<open>f\<close> leads to the node, and on one way.\<close>

definition sole :: "ptrs \<Rightarrow> nat \<Rightarrow> bool list \<Rightarrow> nat \<Rightarrow> bool" where
  "sole T f p a \<longleftrightarrow> walk T (Frame f) p = Some a \<and> (\<forall>g q. walk T (Frame g) q = Some a \<longrightarrow> g = f \<and> q = p)"

definition slot_path :: "ptrs \<Rightarrow> nat \<Rightarrow> slot \<Rightarrow> bool list \<Rightarrow> bool" where
  "slot_path T f s p \<longleftrightarrow> (case s of InFrame \<Rightarrow> p = [] | InLeft b \<Rightarrow> \<exists>q. p = q @ [True] \<and> sole T f q b | InRight b \<Rightarrow> \<exists>q. p = q @ [False] \<and> sole T f q b)"

lemma slot_pathD:
  assumes "slot_path T f s p" and "src_of f s = Kid b d"
  shows "\<exists>q. p = q @ [d] \<and> sole T f q b"
  using assms by (auto simp: slot_path_def src_of_def split: slot.splits)

lemma src_of_cases: "src_of f s = Frame f \<and> s = InFrame \<or> (\<exists>b d. src_of f s = Kid b d)"
  by (auto simp: src_of_def split: slot.splits)

lemma soleD: "sole T f p a \<Longrightarrow> walk T (Frame f) p = Some a"
  by (simp add: sole_def)

lemma slot_path_walk: "slot_path T f s p \<Longrightarrow> walk T (Frame f) p = T (src_of f s)"
  by (cases s) (auto simp: slot_path_def src_of_def walk_snoc dest: soleD)

lemma sole_slot:
  assumes sp: "slot_path T f s p" and one: "inrefs T a = {src_of f s}"
  shows "sole T f p a"
  unfolding sole_def
proof (intro conjI allI impI)
  have "T (src_of f s) = Some a" using one by (auto simp: inrefs_def)
  then show "walk T (Frame f) p = Some a" using slot_path_walk [OF sp] by simp
next
  fix g q assume w: "walk T (Frame g) q = Some a"
  have "g = f \<and> q = p"
  proof (cases q rule: rev_cases)
    case Nil
    then have "Frame g \<in> inrefs T a" using w by (simp add: inrefs_def)
    then have "src_of f s = Frame g" using one by simp
    then show ?thesis using Nil src_of_cases [of f s] sp by (auto simp: slot_path_def)
  next
    case (snoc q' d)
    then obtain b where b: "walk T (Frame g) q' = Some b" "T (Kid b d) = Some a" using w by (auto simp: walk_snoc split: option.splits)
    then have "Kid b d \<in> inrefs T a" by (simp add: inrefs_def)
    then have "src_of f s = Kid b d" using one by simp
    then obtain q0 where "p = q0 @ [d]" "sole T f q0 b" using slot_pathD [OF sp] by blast
    then show ?thesis using b(1) snoc unfolding sole_def by blast
  qed
  then show "g = f" "q = p" by simp_all
qed

lemma slot_path_keeps:
  assumes inv: "cow_inv h T lev {}" and k: "keeps a h T h' T'" and sp: "slot_path T f s p" and \<sigma>: "T (src_of f s) = Some a"
  shows "slot_path T' f s p"
proof -
  have "sole T' f q b" if "src_of f s = Kid b d" "sole T f q b" for b d q
  proof -
    have Tb: "T (Kid b d) = Some a" using \<sigma> that(1) by simp
    then have "b \<noteq> a" using cow_invD(7) [OF inv Tb] by auto
    moreover have "b \<in> dom (hp_nodes h)" using cow_invD(5) [OF inv, of b d] Tb by (metis option.distinct(1))
    ultimately show ?thesis using k that(2) by (simp add: keeps_def sole_def)
  qed
  then show ?thesis using sp by (cases s) (auto simp: slot_path_def src_of_def)
qed

lemma set_slot_same:
  assumes inv: "cow_inv h T lev {}" and \<sigma>: "T (src_of f s) = Some a" and ret: "T (Frame f) = Some ret"
  shows "set_slot s a ret h = Ok (ret, h)"
proof (cases s)
  case InFrame
  then show ?thesis using \<sigma> ret by (simp add: set_slot_def src_of_def)
next
  case (InLeft b)
  then have "T (Kid b True) = Some a" using \<sigma> by (simp add: src_of_def)
  moreover from this obtain m where m: "hp_nodes h b = Some m" using cow_invD(5) [OF inv, of b True] by fastforce
  ultimately have "cw_left m = Some a" using cow_invD(8) [OF inv m] by (auto simp: node_ok_def kid_def)
  then show ?thesis using InLeft m by (cases h; cases m) (simp add: set_slot_def node_at_def put_node_def fun_upd_idem)
next
  case (InRight b)
  then have "T (Kid b False) = Some a" using \<sigma> by (simp add: src_of_def)
  moreover from this obtain m where m: "hp_nodes h b = Some m" using cow_invD(5) [OF inv, of b False] by fastforce
  ultimately have "cw_right m = Some a" using cow_invD(8) [OF inv m] by (auto simp: node_ok_def kid_def)
  then show ?thesis using InRight m by (cases h; cases m) (simp add: set_slot_def node_at_def put_node_def fun_upd_idem)
qed

lemma children_step:
  assumes inv: "cow_inv h T lev {}" and obj: "obj_inv ops ext h" and n: "hp_nodes h a = Some n" and k: "lev a = Suc k" "span (Suc k) l r"
    and mem: "\<And>x. mem x" and \<sigma>: "T \<sigma> = Some a"
  shows "\<exists>h1 T1 lev1 n1. new_children mem a l r h = Ok (True, h1) \<and> cow_inv h1 T1 lev1 {} \<and> obj_inv ops ext h1 \<and> keeps a h T h1 T1 \<and> lev1 a = Suc k
    \<and> hp_nodes h1 a = Some n1 \<and> (0 < k \<longrightarrow> cw_left n1 \<noteq> None) \<and> T1 \<sigma> = Some a \<and> (\<forall>g. T1 (Frame g) = T (Frame g)) \<and> hp_refs h1 = hp_refs h"
proof -
  have ok: "node_ok T lev {} a n" by (rule cow_invD(8) [OF inv n])
  note sm = span_mid [OF k(2)] and sl = span_leaf [OF k(2)]
  show ?thesis
  proof (cases "k = 0 \<or> cw_left n \<noteq> None")
    case True
    then have "new_children mem a l r h = Ok (True, h)" using n sm(4) ok k(1) by (auto simp: new_children_def node_at_def node_ok_def)
    then show ?thesis using True inv obj n k(1) \<sigma> keeps_refl by blast
  next
    case False
    then obtain j where j: "k = Suc j" by (cases k) auto
    have none: "cw_left n = None" "cw_right n = None" "\<not> cw_leaf n" using False ok k(1) j by (auto simp: node_ok_def)
    define x where "x = hp_next h"
    define y where "y = Suc x"
    define child where "child = (zero_node (j = 0))\<lparr>cw_ref := 1\<rparr>"
    have fx: "hp_nodes h x = None" "hp_nodes h y = None" using fresh_node(1) [OF inv] by (simp_all add: x_def y_def)
    have ne: "a \<noteq> x" "a \<noteq> y" "x \<noteq> y" using n fx by (auto simp: y_def)
    let ?g = "h\<lparr>hp_next := Suc x\<rparr>" and ?b = "zero_node (j = 0)" and ?n1 = "n\<lparr>cw_left := Some x, cw_right := Some y\<rparr>"
    let ?g1 = "put_node a (n\<lparr>cw_left := Some x\<rparr>) (put_node x ?b ?g)"
    let ?g2 = "put_node y ?b (?g1\<lparr>hp_next := Suc y\<rparr>)"
    let ?h1 = "put_node x child (put_node y child (put_node a ?n1 ?g2))"
    have "node_new mem (r - l = 3) h = (Some x, put_node x ?b ?g)" "node_new mem (r - l = 3) ?g1 = (Some y, ?g2)"
      using node_new_plenty mem sl(3) j by (simp_all add: x_def y_def)
    then have run: "new_children mem a l r h = Ok (True, ?h1)"
      using n none sm(4) j sl(3) by (simp add: new_children_def node_at_def Let_def child_def)
    have nodes: "hp_nodes ?h1 = (hp_nodes h)(a \<mapsto> ?n1, y \<mapsto> child, x \<mapsto> child)" "hp_next ?h1 = Suc y" "hp_refs ?h1 = hp_refs h"
      using ne by (auto simp: fun_eq_iff put_node_def)
    have lev: "lev a = Suc (Suc j)" using k(1) j by simp
    note add = add_children [OF inv n none(1) lev x_def y_def child_def nodes(1,2)]
    have "holders ?h1 r = holders h r" for r
      using n fx ne unfolding holders_def nodes(1) by (auto simp: child_def zero_node_def split: if_splits)
    then have "obj_inv ops ext ?h1" unfolding obj_inv_def
      by (intro obj_cnt_cong [OF obj [unfolded obj_inv_def] nodes(3)]) (simp_all add: nodes(2) x_def y_def)
    moreover have "\<sigma> \<noteq> Kid a d" for d using ok \<sigma> none by (cases d) (auto simp: node_ok_def kid_def)
    moreover have "hp_nodes ?h1 a = Some ?n1" unfolding nodes(1) using ne by simp
    ultimately show ?thesis using run add nodes(3) \<sigma> k(1) ne
      by (intro exI [of _ ?h1] exI [of _ "T(Kid a True \<mapsto> x, Kid a False \<mapsto> y)"] exI [of _ "lev(x := Suc j, y := Suc j)"] exI [of _ ?n1]) (simp del: put_node_simps)
  qed
qed

lemma cow_step_inv:
  assumes inv: "cow_inv h T lev {}" and obj: "obj_inv ops ext h" and \<sigma>: "T (src_of f s) = Some a" and ret: "T (Frame f) = Some ret"
    and k: "lev a = Suc k" "span (Suc k) l r" and sp: "slot_path T f s p" and mem: "\<And>x. mem x"
  shows "\<exists>h' T' lev' ret' a'. cow_step mem s ret a l r h = Ok (Some (ret', a'), h') \<and> cow_inv h' T' lev' {} \<and> obj_inv ops ext h'
    \<and> T' (Frame f) = Some ret' \<and> T' (src_of f s) = Some a' \<and> lev' a' = Suc k \<and> sole T' f p a' \<and> (0 < k \<longrightarrow> (\<forall>d. T' (Kid a' d) \<noteq> None))
    \<and> (\<forall>g q. lookup h' T' (Frame g) q = lookup h T (Frame g) q) \<and> (\<forall>g. g \<noteq> f \<longrightarrow> T' (Frame g) = T (Frame g))
    \<and> (\<forall>r. r \<in> dom (hp_refs h) \<longrightarrow> r \<in> dom (hp_refs h'))"
proof -
  obtain n where n: "hp_nodes h a = Some n" using cow_invD(6) [OF inv \<sigma>] by blast
  have "\<exists>h1 T1 lev1 n1. new_children mem a l r h = Ok (True, h1) \<and> cow_inv h1 T1 lev1 {} \<and> obj_inv ops ext h1 \<and> keeps a h T h1 T1 \<and> lev1 a = Suc k
    \<and> hp_nodes h1 a = Some n1 \<and> (0 < k \<longrightarrow> cw_left n1 \<noteq> None) \<and> T1 (src_of f s) = Some a \<and> (\<forall>g. T1 (Frame g) = T (Frame g)) \<and> hp_refs h1 = hp_refs h"
    by (rule children_step [OF inv obj n k]) (use mem \<sigma> in auto)
  then obtain h1 T1 lev1 n1 where c1: "new_children mem a l r h = Ok (True, h1)" and inv1: "cow_inv h1 T1 lev1 {}" and obj1: "obj_inv ops ext h1"
    and keep1: "keeps a h T h1 T1" and lev1: "lev1 a = Suc k" and n1: "hp_nodes h1 a = Some n1" "0 < k \<longrightarrow> cw_left n1 \<noteq> None" and \<sigma>1: "T1 (src_of f s) = Some a"
    and fr1: "\<And>g. T1 (Frame g) = T (Frame g)" and refs1: "hp_refs h1 = hp_refs h" by blast
  have sp1: "slot_path T1 f s p" by (rule slot_path_keeps [OF inv keep1 sp \<sigma>])
  have ok1: "node_ok T1 lev1 {} a n1" by (rule cow_invD(8) [OF inv1 n1(1)])
  have kids1: "T1 (Kid a d) \<noteq> None" if "0 < k" for d using ok1 n1(2) that by (cases d) (auto simp: node_ok_def kid_def)
  have look1: "lookup h1 T1 (Frame g) q = lookup h T (Frame g) q" for g q using keep1 by (simp add: keeps_def)
  show ?thesis
  proof (cases "cw_ref n1 > 1")
    case True
    let ?c = "hp_next h1" and ?T = "copy_ptrs (src_of f s) a (hp_next h1) T1"
    obtain h2 h' ret' where o: "own_node mem a l r h1 = Ok (?c, h2)" "set_slot s ?c ret h2 = Ok (ret', h')" "?T (Frame f) = Some ret'"
      "cow_inv h' ?T (lev1(?c := lev1 a)) {}" "keeps a h1 T1 h' ?T" "obj_inv ops ext h'" "inrefs ?T ?c = {src_of f s}" "dom (hp_refs h') = dom (hp_refs h1)"
      using own_step [where mem = mem and lev = lev1 and a = a and c = ?c, OF inv1 obj1 \<sigma>1 _ n1(1) True lev1 k(2)] n1(2) mem fr1 ret by auto
    have "cow_step mem s ret a l r h = Ok (Some (ret', ?c), h')" using c1 o(1,2) by (simp add: cow_step_def)
    moreover have "?T (src_of f s) = Some ?c" using o(7) by (auto simp: inrefs_def)
    moreover have "sole ?T f p ?c" by (rule sole_slot [OF slot_path_keeps [OF inv1 o(5) sp1 \<sigma>1] o(7)])
    moreover have "?T (Kid ?c d) \<noteq> None" if "0 < k" for d using kids1 [OF that] by (cases d) (auto simp: copy_ptrs_def)
    moreover have "lookup h' ?T (Frame g) q = lookup h T (Frame g) q" for g q using o(5) look1 by (simp add: keeps_def)
    moreover have "?T (Frame g) = T (Frame g)" if "g \<noteq> f" for g using that fr1 src_of_cases [of f s] by (auto simp: copy_ptrs_def)
    ultimately show ?thesis using o(3,4,6,8) lev1 refs1 by (intro exI [of _ h'] exI [of _ ?T] exI [of _ "lev1(?c := lev1 a)"] exI [of _ ret'] exI [of _ ?c]) simp
  next
    case False
    then have "card (inrefs T1 a) = 1" using ok1 by (auto simp: node_ok_def)
    then have "inrefs T1 a = {src_of f s}" using inrefs_Some [of T1, OF \<sigma>1] by (metis card_1_singletonE singletonD)
    then have sole: "sole T1 f p a" by (rule sole_slot [OF sp1])
    have "own_node mem a l r h1 = Ok (a, h1)" using n1(1) False by (simp add: own_node_def node_at_def)
    moreover obtain h' where "set_slot s a ret h1 = Ok (ret, h')" "h' = h1"
      using set_slot_same [OF inv1 \<sigma>1, of ret] fr1 ret by auto
    ultimately have "cow_step mem s ret a l r h = Ok (Some (ret, a), h1)" using c1 by (simp add: cow_step_def)
    then show ?thesis using inv1 obj1 fr1 ret \<sigma>1 lev1 sole kids1 look1 refs1
      by (intro exI [of _ h1] exI [of _ T1] exI [of _ lev1] exI [of _ ret] exI [of _ a]) simp
  qed
qed

end
