(* ===== verification/PssFrameSafe.thy ===== *)
theory PssFrameSafe
  imports PssFrameOps
begin

text \<open>Reading, writing and disposing of frames in terms of what every frame holds.\<close>

subsection \<open>The assignment\<close>

lemma finite_holders: "cow_inv h T lev D \<Longrightarrow> finite (holders h r)"
  using cow_invD(1) [of h T lev D] by (rule finite_subset [rotated]) (auto simp: holders_def)

lemma cow_inv_val:
  assumes "cow_inv h T lev D" and "hp_nodes h a = Some n" and "hp_nodes h' = (hp_nodes h)(a \<mapsto> n\<lparr>cw_val := v\<rparr>)" and "hp_next h' = hp_next h"
  shows "cow_inv h' T lev D"
proof -
  have dom: "dom (hp_nodes h') = dom (hp_nodes h)" using assms(2,3) by auto
  have "node_ok T lev D b m" if m: "hp_nodes h' b = Some m" for b m
  proof (cases "b = a")
    case True
    then have "m = n\<lparr>cw_val := v\<rparr>" using m assms(3) by simp
    then show ?thesis using cow_invD(8) [OF assms(1,2)] True by (simp add: node_ok_def kid_def)
  next
    case False
    then have "hp_nodes h b = Some m" using m assms(3) by simp
    then show ?thesis by (rule cow_invD(8) [OF assms(1)])
  qed
  then show ?thesis using assms(1) unfolding cow_inv_def dom assms(4) by blast
qed

lemma set_value_inv:
  assumes inv: "cow_inv h T lev {}" and obj: "obj_inv ops ext h" and n: "hp_nodes h a = Some n"
    and safe: "\<And>r. v = VRef r \<Longrightarrow> r \<in> dom (hp_refs h) \<and> (cw_val n = VRef r \<longrightarrow> 1 < card (holders h r) + ext r)"
  shows "\<exists>h'. set_value ops v a h = Ok (True, h') \<and> cow_inv h' T lev {} \<and> obj_inv ops ext h' \<and> hp_nodes h' = (hp_nodes h)(a \<mapsto> n\<lparr>cw_val := v\<rparr>)"
proof -
  let ?cnt = "\<lambda>r. card (holders h r) + ext r" and ?old = "cw_val n"
  have cnt: "obj_cnt ops h ?cnt" using obj by (simp add: obj_inv_def)
  have held: "0 < card (holders h r)" if "?old = VRef r" for r
    using n that finite_holders [OF inv, of r] by (auto simp: card_gt_0_iff holders_def)
  obtain g where g: "pss_value_decref ops ?old h = Ok (True, g)" "obj_cnt ops g (\<lambda>r. ?cnt r - (if ?old = VRef r then 1 else 0))"
    "hp_nodes g = hp_nodes h" "hp_next g = hp_next h" "\<forall>r. r \<in> dom (hp_refs h) \<longrightarrow> ?old \<noteq> VRef r \<or> 1 < ?cnt r \<longrightarrow> r \<in> dom (hp_refs g)"
    using decref_cnt [OF cnt, of ?old] held by fastforce
  let ?g = "put_node a (n\<lparr>cw_val := v\<rparr>) g"
  have "obj_cnt ops ?g (\<lambda>r. ?cnt r - (if ?old = VRef r then 1 else 0))" by (rule obj_cnt_cong [OF g(2)]) simp_all
  moreover have "r \<in> dom (hp_refs ?g)" if "v = VRef r" for r using safe [OF that] g(5) by auto
  ultimately obtain h' where h': "pss_value_incref v ?g = Ok h'"
    "obj_cnt ops h' (\<lambda>r. ?cnt r - (if ?old = VRef r then 1 else 0) + (if v = VRef r then 1 else 0))" "hp_nodes h' = hp_nodes ?g" "hp_next h' = hp_next ?g"
    using incref_cnt [of ops ?g _ v] by blast
  have nodes: "hp_nodes h' = (hp_nodes h)(a \<mapsto> n\<lparr>cw_val := v\<rparr>)" using h'(3) g(3) by simp
  have "holders h' r = (if v = VRef r then insert a (holders h r) else holders h r - {a})" for r
    by (auto simp: holders_def nodes split: if_splits)
  moreover have "a \<in> holders h r \<longleftrightarrow> ?old = VRef r" for r using n by (simp add: holders_def)
  ultimately have "card (holders h' r) + ext r = ?cnt r - (if ?old = VRef r then 1 else 0) + (if v = VRef r then 1 else 0)" for r
    using finite_holders [OF inv, of r] held [of r] by (cases "v = VRef r"; cases "?old = VRef r") (auto simp: insert_absorb card_Diff_singleton)
  then have "obj_inv ops ext h'" unfolding obj_inv_def by (intro obj_cnt_cong [OF h'(2) refl]) (simp_all add: fun_eq_iff)
  moreover have "cow_inv h' T lev {}" by (rule cow_inv_val [OF inv n nodes]) (simp add: h'(4) g(4))
  moreover have "set_value ops v a h = Ok (True, h')" using n g(1) h'(1) by (simp add: set_value_def node_at_def)
  ultimately show ?thesis using nodes by blast
qed

subsection \<open>Writing\<close>

text \<open>The object of \<open>v\<close> exists, and when the register holds it already somebody else does, too.\<close>

definition keeps_alive :: "pss_heap \<Rightarrow> ptrs \<Rightarrow> (nat \<Rightarrow> nat) \<Rightarrow> nat \<Rightarrow> bool list \<Rightarrow> pss_value \<Rightarrow> bool" where
  "keeps_alive h T ext f p v \<longleftrightarrow> (\<forall>r. v = VRef r \<longrightarrow> r \<in> dom (hp_refs h) \<and> (lookup h T (Frame f) p = VRef r
     \<longrightarrow> 0 < ext r \<or> (\<exists>g q. (g, q) \<noteq> (f, p) \<and> lookup h T (Frame g) q = VRef r)))"

lemma lookup_at: "walk T s p = Some a \<Longrightarrow> hp_nodes h a = Some n \<Longrightarrow> lookup h T s p = cw_val n"
  by (simp add: lookup_def)

lemma lookup_assign:
  assumes "sole T f p a" and "hp_nodes h a = Some n" and "hp_nodes h' = (hp_nodes h)(a \<mapsto> n\<lparr>cw_val := v\<rparr>)"
  shows "lookup h' T (Frame g) q = (if g = f \<and> q = p then v else lookup h T (Frame g) q)"
proof (cases "walk T (Frame g) q = Some a")
  case True
  then have "g = f \<and> q = p" using assms(1) unfolding sole_def by blast
  then show ?thesis using True assms(3) by (simp add: lookup_def)
next
  case False
  then have "\<not> (g = f \<and> q = p)" using soleD [OF assms(1)] by blast
  then show ?thesis using False assms(3) by (cases "walk T (Frame g) q") (auto simp: lookup_def)
qed

lemma assign_inv:
  assumes inv: "cow_inv h T lev {}" and obj: "obj_inv ops ext h" and sole: "sole T f p a" and alive: "keeps_alive h T ext f p v"
  shows "\<exists>h'. set_value ops v a h = Ok (True, h') \<and> cow_inv h' T lev {} \<and> obj_inv ops ext h'
    \<and> (\<forall>g q. lookup h' T (Frame g) q = (if g = f \<and> q = p then v else lookup h T (Frame g) q))"
proof -
  note w = soleD [OF sole]
  have "\<exists>s. T s = Some a" using w by (cases p rule: rev_cases) (auto simp: walk_snoc split: option.splits)
  then obtain n where n: "hp_nodes h a = Some n" using cow_invD(6) [OF inv] by blast
  have safe: "r \<in> dom (hp_refs h) \<and> (cw_val n = VRef r \<longrightarrow> 1 < card (holders h r) + ext r)" if v: "v = VRef r" for r
  proof (intro conjI impI)
    show "r \<in> dom (hp_refs h)" using alive v by (simp add: keeps_alive_def)
    assume r: "cw_val n = VRef r"
    have a: "a \<in> holders h r" using n r by (simp add: holders_def)
    have "0 < ext r \<or> (\<exists>g q. (g, q) \<noteq> (f, p) \<and> lookup h T (Frame g) q = VRef r)" using alive v lookup_at [OF w n] r by (simp add: keeps_alive_def)
    then show "1 < card (holders h r) + ext r"
    proof
      assume "0 < ext r"
      moreover have "0 < card (holders h r)" using a finite_holders [OF inv] by (auto simp: card_gt_0_iff)
      ultimately show ?thesis by simp
    next
      assume "\<exists>g q. (g, q) \<noteq> (f, p) \<and> lookup h T (Frame g) q = VRef r"
      then obtain g q where gq: "(g, q) \<noteq> (f, p)" "lookup h T (Frame g) q = VRef r" by blast
      then obtain b m where b: "walk T (Frame g) q = Some b" "hp_nodes h b = Some m" "cw_val m = VRef r"
        by (cases "walk T (Frame g) q") (auto simp: lookup_def split: option.splits)
      have "b \<noteq> a" using b(1) gq(1) sole unfolding sole_def by blast
      then have "{a, b} \<subseteq> holders h r" "card {a, b} = 2" using a b by (auto simp: holders_def)
      then show ?thesis using card_mono [OF finite_holders [OF inv], of "{a, b}" r] by simp
    qed
  qed
  obtain h' where "set_value ops v a h = Ok (True, h')" "cow_inv h' T lev {}" "obj_inv ops ext h'" "hp_nodes h' = (hp_nodes h)(a \<mapsto> n\<lparr>cw_val := v\<rparr>)"
    using set_value_inv [OF inv obj n safe] by blast
  then show ?thesis using lookup_assign [OF sole n] by blast
qed

lemma keeps_alive_cong:
  assumes "keeps_alive h T ext f p v" and "\<And>g q. lookup h' T' (Frame g) q = lookup h T (Frame g) q" and "\<And>r. r \<in> dom (hp_refs h) \<Longrightarrow> r \<in> dom (hp_refs h')"
  shows "keeps_alive h' T' ext f p v"
  using assms by (simp add: keeps_alive_def)

lemma cow_loop_inv:
  assumes "cow_inv h T lev {}" and "obj_inv ops ext h" and "T (src_of f s) = Some a" and "T (Frame f) = Some ret"
    and "lev a = Suc k" and "span (Suc k) l r" and "slot_path T f s p" and "\<And>x. mem x" and "l \<le> t" and "t < r"
    and "keeps_alive h T ext f (p @ dirs (Suc k) l t) v"
  shows "\<exists>h' T' lev' root. cow_loop mem ops v t s ret a l r h = Ok (Some root, h') \<and> cow_inv h' T' lev' {} \<and> obj_inv ops ext h'
    \<and> T' (Frame f) = Some root \<and> (\<forall>g. g \<noteq> f \<longrightarrow> T' (Frame g) = T (Frame g))
    \<and> (\<forall>g q. lookup h' T' (Frame g) q = (if g = f \<and> q = p @ dirs (Suc k) l t then v else lookup h T (Frame g) q))"
  using assms
proof (induction k arbitrary: h T lev s a ret l r p)
  case 0
  obtain h1 T1 lev1 ret1 a1 where st: "cow_step mem s ret a l r h = Ok (Some (ret1, a1), h1)" "cow_inv h1 T1 lev1 {}" "obj_inv ops ext h1"
    "T1 (Frame f) = Some ret1" "sole T1 f p a1" "\<forall>g q. lookup h1 T1 (Frame g) q = lookup h T (Frame g) q" "\<forall>g. g \<noteq> f \<longrightarrow> T1 (Frame g) = T (Frame g)"
    "\<forall>r. r \<in> dom (hp_refs h) \<longrightarrow> r \<in> dom (hp_refs h1)"
    using cow_step_inv [where mem = mem and k = 0 and lev = lev and a = a, OF 0(1-8)] by blast
  have t: "t = (l + r) div 2" "dirs (Suc 0) l t = []" using span_mid(1) [OF 0(6)] 0(9,10) 0(6) by (auto simp: span_def)
  have "keeps_alive h1 T1 ext f p v" using keeps_alive_cong [OF 0(11)] st(6,8) t(2) by simp
  then obtain h' where h': "set_value ops v a1 h1 = Ok (True, h')" "cow_inv h' T1 lev1 {}" "obj_inv ops ext h'"
    "\<forall>g q. lookup h' T1 (Frame g) q = (if g = f \<and> q = p then v else lookup h1 T1 (Frame g) q)"
    using assign_inv [OF st(2,3,5)] by blast
  have "cow_loop mem ops v t s ret a l r h = Ok (Some ret1, h')" using st(1) h'(1) t(1) by (subst cow_loop.simps) simp
  then show ?case using h'(2-4) st(4,6,7) t(2) by auto
next
  case (Suc k)
  let ?mid = "(l + r) div 2"
  obtain h1 T1 lev1 ret1 a1 where st: "cow_step mem s ret a l r h = Ok (Some (ret1, a1), h1)" "cow_inv h1 T1 lev1 {}" "obj_inv ops ext h1"
    "T1 (Frame f) = Some ret1" "lev1 a1 = Suc (Suc k)" "sole T1 f p a1" "\<forall>d. T1 (Kid a1 d) \<noteq> None" "T1 (src_of f s) = Some a1"
    "\<forall>g q. lookup h1 T1 (Frame g) q = lookup h T (Frame g) q" "\<forall>g. g \<noteq> f \<longrightarrow> T1 (Frame g) = T (Frame g)"
    "\<forall>r. r \<in> dom (hp_refs h) \<longrightarrow> r \<in> dom (hp_refs h1)"
    using cow_step_inv [where mem = mem and k = "Suc k" and lev = lev and a = a, OF Suc.prems(1-8)] by blast
  note sm = span_mid [OF Suc.prems(6)]
  have alive: "keeps_alive h1 T1 ext f (p @ dirs (Suc (Suc k)) l t) v" using keeps_alive_cong [OF Suc.prems(11)] st(9,11) by simp
  obtain n where n: "hp_nodes h1 a1 = Some n" using cow_invD(6) [OF st(2,8)] by blast
  have ok: "node_ok T1 lev1 {} a1 n" by (rule cow_invD(8) [OF st(2) n])
  show ?case
  proof (cases "t = ?mid")
    case True
    then have d: "dirs (Suc (Suc k)) l t = []" using sm(1) by simp
    obtain h' where h': "set_value ops v a1 h1 = Ok (True, h')" "cow_inv h' T1 lev1 {}" "obj_inv ops ext h'"
      "\<forall>g q. lookup h' T1 (Frame g) q = (if g = f \<and> q = p then v else lookup h1 T1 (Frame g) q)"
      using assign_inv [OF st(2,3,6) alive [unfolded d append_Nil2]] by blast
    have "cow_loop mem ops v t s ret a l r h = Ok (Some ret1, h')" using st(1) h'(1) True by (subst cow_loop.simps) simp
    then show ?thesis using h'(2-4) st(4,9,10) d by auto
  next
    case False
    define d where "d = (t < ?mid)"
    define l' where "l' = (if d then l else ?mid + 1)"
    define r' where "r' = (if d then ?mid else r)"
    define s' where "s' = (if d then InLeft a1 else InRight a1)"
    obtain c where c: "T1 (Kid a1 d) = Some c" using st(7) by blast
    have kid: "kid n d = Some c" "\<not> cw_leaf n" using ok c st(5) by (auto simp: node_ok_def)
    have dirs: "dirs (Suc (Suc k)) l t = d # dirs (Suc k) l' t" using False sm(1) by (auto simp: d_def l'_def)
    have loop: "cow_loop mem ops v t s ret a l r h = cow_loop mem ops v t s' ret1 c l' r' h1"
      using st(1) n kid False sm(5) by (subst cow_loop.simps) (auto simp: node_at_def kid_def d_def l'_def r'_def s'_def split: if_splits)
    have src: "src_of f s' = Kid a1 d" by (simp add: s'_def src_of_def)
    have path: "slot_path T1 f s' (p @ [d])" using st(6) by (simp add: s'_def slot_path_def)
    have lev: "lev1 c = Suc k" using cow_invD(7) [OF st(2) c] st(5) by simp
    have span: "span (Suc k) l' r'" using sm(2,3) by (simp add: l'_def r'_def)
    have t: "l' \<le> t" "t < r'" using False Suc.prems(9,10) by (auto simp: l'_def r'_def d_def)
    have alive': "keeps_alive h1 T1 ext f ((p @ [d]) @ dirs (Suc k) l' t) v" using alive dirs by simp
    obtain h' T' lev' root where "cow_loop mem ops v t s' ret1 c l' r' h1 = Ok (Some root, h')" "cow_inv h' T' lev' {}" "obj_inv ops ext h'"
      "T' (Frame f) = Some root" "\<forall>g. g \<noteq> f \<longrightarrow> T' (Frame g) = T1 (Frame g)"
      "\<forall>g q. lookup h' T' (Frame g) q = (if g = f \<and> q = (p @ [d]) @ dirs (Suc k) l' t then v else lookup h1 T1 (Frame g) q)"
      using Suc.IH [OF st(2,3) _ st(4) lev span path Suc.prems(8) t alive'] src c by auto
    then show ?thesis using loop st(9,10) dirs by auto
  qed
qed

text \<open>The first write to a frame makes the root.\<close>

lemma add_root:
  assumes inv: "cow_inv h T lev {}" and f: "T (Frame f) = None" and a: "a = hp_next h"
    and h': "hp_nodes h' = (hp_nodes h)(a \<mapsto> (zero_node False)\<lparr>cw_ref := 1\<rparr>)" "hp_next h' = Suc a"
  shows "cow_inv h' (T(Frame f \<mapsto> a)) (lev(a := 16)) {}" and "lookup h' (T(Frame f \<mapsto> a)) (Frame g) q = lookup h T (Frame g) q"
    and "holders h' r = holders h r"
proof -
  let ?T = "T(Frame f \<mapsto> a)" and ?lev = "lev(a := 16)"
  have fin: "fin_ptrs T" by (rule cow_invD(4) [OF inv])
  have fa: "hp_nodes h a = None" "T s \<noteq> Some a" "T (Kid a d) = None" "inrefs T a = {}" for s d using fresh_node [OF inv, of a] a by auto
  have card: "card (inrefs ?T b) = card (inrefs T b) + (if b = a then 1 else 0)" for b
    using card_inrefs_upd [OF fin, of "Frame f" "Some a" b] f by (auto split: if_splits)
  show "cow_inv h' ?T ?lev {}" unfolding cow_inv_def
  proof (intro conjI allI impI)
    show "finite (dom (hp_nodes h'))" "dom (hp_nodes h') \<subseteq> {..<hp_next h'}" using cow_invD(1,2) [OF inv] a by (auto simp: h' less_Suc_eq subset_iff)
    show "fin_ptrs ?T" by (rule fin_ptrs_upd [OF fin])
    show "?T (Kid b d) = None" if "b \<notin> dom (hp_nodes h')" for b d using that cow_invD(5) [OF inv, of b d] by (auto simp: h' split: if_splits)
    show "b \<in> dom (hp_nodes h')" if "?T s = Some b" for s b using that cow_invD(6) [OF inv, of s b] by (auto simp: h' split: if_splits)
    show "ptr_ok ?lev s b" if sb: "?T s = Some b" for s b
    proof (cases "s = Frame f")
      case False
      then have b: "T s = Some b" using sb by simp
      then have "b \<noteq> a" using fa(2) by metis
      moreover have "s \<noteq> Kid a d" for d using b fa(3) by auto
      ultimately show ?thesis using cow_invD(7) [OF inv b] by (cases s) auto
    qed (use sb in simp)
    show "node_ok ?T ?lev {} b m" if m: "hp_nodes h' b = Some m" for b m
    proof (cases "b = a")
      case True
      then have "m = (zero_node False)\<lparr>cw_ref := 1\<rparr>" using m by (simp add: h')
      then show ?thesis using True card [of a] fa(3,4) by (simp add: node_ok_def zero_node_def kid_def)
    next
      case False
      then have "hp_nodes h b = Some m" using m by (simp add: h')
      then have "node_ok T lev {} b m" by (rule cow_invD(8) [OF inv])
      then show ?thesis using card [of b] False by (simp add: node_ok_def)
    qed
  qed simp
  have walk: "walk ?T s p = walk T s p \<or> walk T s p = None \<and> (\<exists>z\<in>{a}. walk ?T s p = Some z)" for s p
    by (rule walk_extend) (use f fa(3) in \<open>auto split: if_splits\<close>)
  have na: "walk T (Frame g) q \<noteq> Some a"
    by (cases q rule: rev_cases) (use fa(2) in \<open>auto simp: walk_snoc split: option.splits\<close>)
  show "lookup h' ?T (Frame g) q = lookup h T (Frame g) q"
    using walk [of "Frame g" q] na by (cases "walk T (Frame g) q") (auto simp: lookup_def h' zero_node_def)
  show "holders h' r = holders h r" using fa(1) by (auto simp: holders_def h' zero_node_def split: if_splits)
qed

abbreviation reg_path :: "nat \<Rightarrow> bool list" where "reg_path t \<equiv> dirs 16 0 t"

lemma span_regs: "span (Suc 15) 0 NO_REG"
  by (simp add: span_def)

lemma cow_write_inv:
  assumes inv: "cow_inv h T lev {}" and obj: "obj_inv ops ext h" and mem: "\<And>x. mem x" and t: "t < NO_REG"
    and alive: "keeps_alive h T ext f (reg_path t) v"
  shows "\<exists>h' T' lev' root. cow_write mem ops (T (Frame f)) 0 NO_REG t v h = Ok (Some root, h') \<and> cow_inv h' T' lev' {} \<and> obj_inv ops ext h'
    \<and> T' (Frame f) = Some root \<and> (\<forall>g. g \<noteq> f \<longrightarrow> T' (Frame g) = T (Frame g))
    \<and> (\<forall>g q. lookup h' T' (Frame g) q = (if g = f \<and> q = reg_path t then v else lookup h T (Frame g) q))"
proof -
  have loop: "\<exists>h' T' lev' root. cow_loop mem ops v t InFrame a a 0 NO_REG g = Ok (Some root, h') \<and> cow_inv h' T' lev' {} \<and> obj_inv ops ext h'
    \<and> T' (Frame f) = Some root \<and> (\<forall>g. g \<noteq> f \<longrightarrow> T' (Frame g) = S (Frame g))
    \<and> (\<forall>e q. lookup h' T' (Frame e) q = (if e = f \<and> q = reg_path t then v else lookup g S (Frame e) q))"
    if i: "cow_inv g S lv {}" and o: "obj_inv ops ext g" and a: "S (Frame f) = Some a" and al: "keeps_alive g S ext f (reg_path t) v" for g S lv a
  proof -
    have lev: "lv a = Suc 15" using cow_invD(7) [OF i a] by simp
    have n16: "Suc 15 = (16 :: nat)" by simp
    have src: "S (src_of f InFrame) = Some a" using a by (simp add: src_of_def)
    have sp: "slot_path S f InFrame []" by (simp add: slot_path_def)
    show ?thesis
      using cow_loop_inv [where mem = mem and lev = lv and k = 15 and T = S, OF i o src a lev span_regs sp mem _ t] al
      unfolding n16 append_Nil by blast
  qed
  show ?thesis
  proof (cases "T (Frame f)")
    case None
    define a where "a = hp_next h"
    let ?b = "zero_node False"
    let ?h1 = "put_node a (?b\<lparr>cw_ref := 1\<rparr>) (put_node a ?b (h\<lparr>hp_next := Suc a\<rparr>))"
    have new: "node_new mem False h = (Some a, put_node a ?b (h\<lparr>hp_next := Suc a\<rparr>))" using node_new_plenty mem by (simp add: a_def)
    have nodes: "hp_nodes ?h1 = (hp_nodes h)(a \<mapsto> ?b\<lparr>cw_ref := 1\<rparr>)" "hp_next ?h1 = Suc a" by simp_all
    note root = add_root [OF inv None a_def nodes]
    have o1: "obj_inv ops ext ?h1" unfolding obj_inv_def unfolding root(3) by (rule obj_cnt_cong [OF obj [unfolded obj_inv_def]]) (simp_all add: a_def)
    have al: "keeps_alive ?h1 (T(Frame f \<mapsto> a)) ext f (reg_path t) v" by (rule keeps_alive_cong [OF alive]) (simp_all only: root(2), simp)
    have "cow_write mem ops (T (Frame f)) 0 NO_REG t v h = cow_loop mem ops v t InFrame a a 0 NO_REG ?h1"
      using None new by (simp add: cow_write_def node_at_def zero_node_def)
    then show ?thesis using loop [OF root(1) o1 _ al] unfolding root(2) by simp
  next
    case (Some a)
    obtain n where n: "hp_nodes h a = Some n" using cow_invD(6) [OF inv Some] by blast
    have "cw_ref n \<noteq> 0" using cow_invD(8) [OF inv n] by (auto simp: node_ok_def)
    then have "cow_write mem ops (T (Frame f)) 0 NO_REG t v h = cow_loop mem ops v t InFrame a a 0 NO_REG h"
      using Some n by (simp add: cow_write_def node_at_def)
    then show ?thesis using loop [OF inv obj Some alive] by simp
  qed
qed

subsection \<open>Reading\<close>

lemma cow_get_lookup:
  assumes inv: "cow_inv h T lev {}" and "T s = root" and "\<And>a. root = Some a \<Longrightarrow> lev a = Suc k" and "span (Suc k) l r" and "l \<le> t" and "t < r"
  shows "\<exists>m. cow_get h root l r t = Ok m \<and> (case m of None \<Rightarrow> VUndef | Some n \<Rightarrow> cw_val n) = lookup h T s (dirs (Suc k) l t)"
  using assms(2-)
proof (induction k arbitrary: s root l r)
  case 0
  have t: "(l + r) div 2 = t" "dirs (Suc 0) l t = []" using span_mid(1) [OF 0(3)] 0(3,4,5) by (auto simp: span_def)
  show ?case
  proof (cases root)
    case None
    then show ?thesis using 0(1) t by (subst cow_get.simps) (simp add: lookup_def)
  next
    case (Some a)
    obtain n where n: "hp_nodes h a = Some n" using cow_invD(6) [OF inv] 0(1) Some by blast
    then show ?thesis using Some 0(1) t by (subst cow_get.simps) (simp add: lookup_def node_at_def)
  qed
next
  case (Suc k)
  let ?mid = "(l + r) div 2"
  note sm = span_mid [OF Suc.prems(3)]
  show ?case
  proof (cases root)
    case None
    moreover have "walk T s p = None" for p using None Suc.prems(1) by (cases p) simp_all
    ultimately show ?thesis by (subst cow_get.simps) (simp add: lookup_def)
  next
    case (Some a)
    obtain n where n: "hp_nodes h a = Some n" using cow_invD(6) [OF inv] Suc.prems(1) Some by blast
    have ok: "node_ok T lev {} a n" by (rule cow_invD(8) [OF inv n])
    have lev: "lev a = Suc (Suc k)" by (rule Suc.prems(2) [OF Some])
    show ?thesis
    proof (cases "t = ?mid")
      case True
      then have "dirs (Suc (Suc k)) l t = []" using sm(1) by simp
      then show ?thesis using Some Suc.prems(1) n True by (subst cow_get.simps) (auto simp: lookup_def node_at_def simp del: dirs.simps)
    next
      case False
      define d where "d = (t < ?mid)"
      define l' where "l' = (if d then l else ?mid + 1)"
      define r' where "r' = (if d then ?mid else r)"
      have dirs: "dirs (Suc (Suc k)) l t = d # dirs (Suc k) l' t" using False sm(1) by (auto simp: d_def l'_def)
      have get: "cow_get h root l r t = cow_get h (kid n d) l' r' t"
        using Some n False sm(5) ok lev by (subst cow_get.simps) (auto simp: node_at_def kid_def d_def l'_def r'_def node_ok_def)
      have look: "lookup h T s (d # p) = lookup h T (Kid a d) p" for p using Some Suc.prems(1) by (simp add: lookup_def)
      have Td: "T (Kid a d) = kid n d" using ok by (simp add: node_ok_def)
      have "lev b = Suc k" if "kid n d = Some b" for b using cow_invD(7) [OF inv, of "Kid a d" b] Td that lev by simp
      moreover have "span (Suc k) l' r'" "l' \<le> t" "t < r'" using sm(2,3) False Suc.prems(4,5) by (auto simp: l'_def r'_def d_def)
      ultimately show ?thesis using Suc.IH [OF Td, of l' r'] get look dirs by simp
    qed
  qed
qed

subsection \<open>Disposal\<close>

text \<open>The pointers that are left when some nodes are gone.\<close>

definition pruned :: "ptrs \<Rightarrow> pss_heap \<Rightarrow> ptrs \<Rightarrow> bool" where
  "pruned T h' T' \<longleftrightarrow> (\<forall>g. T' (Frame g) = T (Frame g)) \<and> (\<forall>b d. T' (Kid b d) = (if b \<in> dom (hp_nodes h') then T (Kid b d) else None))"

text \<open>Nodes disappear or change their counter.\<close>

definition shrinks :: "pss_heap \<Rightarrow> pss_heap \<Rightarrow> bool" where
  "shrinks h h' \<longleftrightarrow> (\<forall>b q. hp_nodes h' b = Some q \<longrightarrow> (\<exists>q0. hp_nodes h b = Some q0 \<and> q = q0\<lparr>cw_ref := cw_ref q\<rparr>))"

lemma shrinks_refl: "shrinks h h"
  by (simp add: shrinks_def)

lemma shrinks_trans:
  assumes "shrinks h g" and "shrinks g h'"
  shows "shrinks h h'"
  unfolding shrinks_def
proof (intro allI impI)
  fix b q assume "hp_nodes h' b = Some q"
  then obtain q1 where q1: "hp_nodes g b = Some q1" "q = q1\<lparr>cw_ref := cw_ref q\<rparr>" using assms(2) unfolding shrinks_def by blast
  then obtain q0 where q0: "hp_nodes h b = Some q0" "q1 = q0\<lparr>cw_ref := cw_ref q1\<rparr>" using assms(1) unfolding shrinks_def by blast
  then have "q = q0\<lparr>cw_ref := cw_ref q\<rparr>" using q1(2) by (metis cow_node.fold_congs(1) cow_node.surjective cow_node.update_convs(1))
  then show "\<exists>q0. hp_nodes h b = Some q0 \<and> q = q0\<lparr>cw_ref := cw_ref q\<rparr>" using q0(1) by blast
qed

lemma shrinks_dom: "shrinks h h' \<Longrightarrow> dom (hp_nodes h') \<subseteq> dom (hp_nodes h)"
  unfolding shrinks_def by blast

lemma drop_ptr:
  assumes inv: "cow_inv h T lev D" and s: "T s = Some a" "\<And>b d. s = Kid b d \<Longrightarrow> b \<in> D" and n: "hp_nodes h a = Some n"
    and h': "hp_nodes h' = (hp_nodes h)(a \<mapsto> n\<lparr>cw_ref := cw_ref n - 1\<rparr>)" "hp_next h' = hp_next h"
  shows "cow_inv h' (T(s := None)) lev (if cw_ref n = 1 then insert a D else D)" and "a \<notin> D"
proof -
  let ?T = "T(s := None)" and ?D = "if cw_ref n = 1 then insert a D else D"
  have fin: "fin_ptrs T" by (rule cow_invD(4) [OF inv])
  have ok: "node_ok T lev D a n" by (rule cow_invD(8) [OF inv n])
  have pos: "0 < card (inrefs T a)" using inrefs_Some [of T, OF s(1)] finite_inrefs [OF fin] by (auto simp: card_gt_0_iff)
  then show aD: "a \<notin> D" using ok by (simp add: node_ok_def)
  have card: "card (inrefs ?T b) = card (inrefs T b) - (if b = a then 1 else 0)" for b
    using card_inrefs_upd [OF fin, of s None b] s(1) pos by (auto split: if_splits)
  have dom: "dom (hp_nodes h') = dom (hp_nodes h)" using n by (auto simp: h')
  have kid: "?T (Kid b d) = T (Kid b d)" if "b \<notin> D" for b d using s(2) that by auto
  show "cow_inv h' ?T lev ?D" unfolding cow_inv_def dom h'(2)
  proof (intro conjI allI impI)
    show "finite (dom (hp_nodes h))" "dom (hp_nodes h) \<subseteq> {..<hp_next h}" "?D \<subseteq> dom (hp_nodes h)" using cow_invD(1-3) [OF inv] n by auto
    show "fin_ptrs ?T" by (rule fin_ptrs_upd [OF fin])
    show "?T (Kid b d) = None" if "b \<notin> dom (hp_nodes h)" for b d using cow_invD(5) [OF inv that] by simp
    show "b \<in> dom (hp_nodes h)" "ptr_ok lev s' b" if "?T s' = Some b" for s' b using that cow_invD(6,7) [OF inv, of s' b] by (auto split: if_splits)
    show "node_ok ?T lev ?D b q" if q: "hp_nodes h' b = Some q" for b q
    proof (cases "b = a")
      case True
      then have q: "q = n\<lparr>cw_ref := cw_ref n - 1\<rparr>" using q by (simp add: h')
      have "cw_ref n = card (inrefs T a)" using ok by (simp add: node_ok_def)
      then show ?thesis using ok True aD pos card [of a] kid [OF aD] unfolding q node_ok_def kid_def by auto
    next
      case False
      then have "hp_nodes h b = Some q" using q by (simp add: h')
      then have "node_ok T lev D b q" by (rule cow_invD(8) [OF inv])
      then show ?thesis using False card [of b] kid [of b] by (auto simp: node_ok_def)
    qed
  qed
qed

lemma drop_node:
  assumes inv: "cow_inv h T lev (insert a D)" and aD: "a \<notin> D" and kids: "\<And>d. T (Kid a d) = None"
    and h': "hp_nodes h' = (hp_nodes h)(a := None)" "hp_next h' = hp_next h"
  shows "cow_inv h' T lev D"
proof -
  obtain n where n: "hp_nodes h a = Some n" using cow_invD(3) [OF inv] by blast
  have "card (inrefs T a) = 0" using cow_invD(8) [OF inv n] by (simp add: node_ok_def)
  then have none: "T s \<noteq> Some a" for s using finite_inrefs [OF cow_invD(4) [OF inv], of a] by (auto simp: inrefs_def)
  have dom: "dom (hp_nodes h') = dom (hp_nodes h) - {a}" by (simp add: h')
  show ?thesis unfolding cow_inv_def dom h'(2)
  proof (intro conjI allI impI)
    show "finite (dom (hp_nodes h) - {a})" "dom (hp_nodes h) - {a} \<subseteq> {..<hp_next h}" "D \<subseteq> dom (hp_nodes h) - {a}" "fin_ptrs T"
      using cow_invD(1-4) [OF inv] aD by auto
    show "T (Kid b d) = None" if "b \<notin> dom (hp_nodes h) - {a}" for b d using that kids cow_invD(5) [OF inv, of b d] by (cases "b = a") simp_all
    show "b \<in> dom (hp_nodes h) - {a}" "ptr_ok lev s b" if "T s = Some b" for s b using cow_invD(6,7) [OF inv that] none that by auto
    show "node_ok T lev D b q" if "hp_nodes h' b = Some q" for b q
    proof -
      have "b \<noteq> a" "hp_nodes h b = Some q" using that by (auto simp: h' split: if_splits)
      then show ?thesis using cow_invD(8) [OF inv, of b q] by (simp add: node_ok_def)
    qed
  qed
qed

lemma tree_decref_inv:
  assumes "cow_inv h T lev D" and "obj_inv ops ext h" and "T s = root" and "\<And>b d. s = Kid b d \<Longrightarrow> b \<in> D"
    and "\<And>a. root = Some a \<Longrightarrow> lev a = k" and "span k l r"
  shows "\<exists>h' T'. tree_decref ops root l r h = Ok (True, h') \<and> cow_inv h' T' lev D \<and> obj_inv ops ext h' \<and> pruned (T(s := None)) h' T' \<and> shrinks h h'"
  using assms
proof (induction k arbitrary: h T D s root l r)
  case 0
  have "root = None"
  proof (cases root)
    case (Some a)
    then obtain n where "hp_nodes h a = Some n" using cow_invD(6) [OF 0(1)] 0(3) by blast
    then have "node_ok T lev D a n" by (rule cow_invD(8) [OF 0(1)])
    then show ?thesis using 0(5) [OF Some] by (simp add: node_ok_def)
  qed
  moreover have "pruned (T(s := None)) h T" using 0(3) calculation cow_invD(5) [OF 0(1)] by (auto simp: pruned_def)
  ultimately show ?case using 0(1,2) shrinks_refl by (subst tree_decref.simps) auto
next
  case (Suc k)
  note inv = Suc.prems(1) and obj = Suc.prems(2)
  show ?case
  proof (cases root)
    case None
    then have "pruned (T(s := None)) h T" using Suc.prems(3) cow_invD(5) [OF inv] by (auto simp: pruned_def)
    then show ?thesis using None inv obj shrinks_refl by (subst tree_decref.simps) auto
  next
    case (Some a)
    then have Ts: "T s = Some a" using Suc.prems(3) by simp
    obtain n where n: "hp_nodes h a = Some n" using cow_invD(6) [OF inv Ts] by blast
    let ?n = "n\<lparr>cw_ref := cw_ref n - 1\<rparr>"
    define T0 where "T0 = T(s := None)"
    let ?h1 = "put_node a ?n h"
    have nodes1: "hp_nodes ?h1 = (hp_nodes h)(a \<mapsto> ?n)" "hp_next ?h1 = hp_next h" by simp_all
    have drop: "cow_inv ?h1 T0 lev (if cw_ref n = 1 then insert a D else D)" "a \<notin> D"
      unfolding T0_def by (rule drop_ptr [OF inv Ts _ n nodes1], use Suc.prems(4) in blast)+
    have ok: "node_ok T lev D a n" by (rule cow_invD(8) [OF inv n])
    have pos: "0 < cw_ref n" using ok drop(2) by (simp add: node_ok_def)
    have obj1: "obj_inv ops ext ?h1"
    proof -
      have "holders ?h1 r = holders h r" for r using n by (auto simp: holders_def split: if_splits)
      then show ?thesis using obj unfolding obj_inv_def by (intro obj_cnt_cong [OF obj [unfolded obj_inv_def]]) simp_all
    qed
    have shr1: "shrinks h ?h1" using n by (auto simp: shrinks_def split: if_splits)
    show ?thesis
    proof (cases "cw_ref n = 1")
      case False
      then have inv1: "cow_inv ?h1 T0 lev D" using drop(1) by simp
      have "pruned T0 ?h1 T0" using cow_invD(5) [OF inv1] by (auto simp: pruned_def)
      moreover have "tree_decref ops root l r h = Ok (True, ?h1)" using Some n False pos by (subst tree_decref.simps) (simp add: node_at_def Let_def)
      ultimately show ?thesis using inv1 obj1 shr1 unfolding T0_def by blast
    next
      case True
      then have inv1: "cow_inv ?h1 T0 lev (insert a D)" using drop(1) by simp
      let ?mid = "(l + r) div 2"
      note sm = span_mid [OF Suc.prems(6)] and sl = span_leaf [OF Suc.prems(6)]
      have lev: "lev a = Suc k" by (rule Suc.prems(5) [OF Some])
      have "Kid a d \<noteq> s" for d using drop(2) Suc.prems(4) [of a d] by blast
      then have Ta: "T0 (Kid a d) = kid n d" for d using ok drop(2) by (simp add: node_ok_def T0_def)
      have levk: "lev b = k" if "kid n d = Some b" for b d using cow_invD(7) [OF inv1, of "Kid a d" b] Ta that lev by simp
      obtain h2 T2 where t2: "tree_decref ops (kid n True) l ?mid ?h1 = Ok (True, h2)" "cow_inv h2 T2 lev (insert a D)" "obj_inv ops ext h2"
        "pruned (T0(Kid a True := None)) h2 T2" "shrinks ?h1 h2"
        using Suc.IH [of ?h1 T0 "insert a D" "Kid a True" "kid n True" l ?mid] inv1 obj1 Ta [of True] sm(2) levk by blast
      have a2: "a \<in> dom (hp_nodes h2)" using cow_invD(3) [OF t2(2)] by simp
      have T2a: "T2 (Kid a False) = kid n False" "T2 (Kid a True) = None" using t2(4) a2 Ta [of False] by (auto simp: pruned_def)
      obtain h3 T3 where t3: "tree_decref ops (kid n False) (?mid + 1) r h2 = Ok (True, h3)" "cow_inv h3 T3 lev (insert a D)" "obj_inv ops ext h3"
        "pruned (T2(Kid a False := None)) h3 T3" "shrinks h2 h3"
        using Suc.IH [of h2 T2 "insert a D" "Kid a False" "kid n False" "?mid + 1" r] t2(2,3) T2a(1) sm(3) levk by blast
      obtain n3 where n3: "hp_nodes h3 a = Some n3" using cow_invD(3) [OF t3(2)] by blast
      have shr3: "shrinks h h3" using shrinks_trans [OF shr1 shrinks_trans [OF t2(5) t3(5)]] .
      then have val: "cw_val n3 = cw_val n" using n3 n unfolding shrinks_def by (metis cow_node.ext_inject cow_node.surjective cow_node.update_convs(1) option.inject)
      have T3a: "T3 (Kid a d) = None" for d using t3(4) n3 T2a(2) by (cases d) (auto simp: pruned_def)
      let ?cnt = "\<lambda>r. card (holders h3 r) + ext r"
      have held: "0 < card (holders h3 r)" if "cw_val n = VRef r" for r
        using n3 val that finite_holders [OF t3(2), of r] by (auto simp: card_gt_0_iff holders_def)
      then have cnt: "0 < ?cnt r" if "cw_val n = VRef r" for r using that by simp
      obtain h4 where h4: "pss_value_decref ops (cw_val n) h3 = Ok (True, h4)" "obj_cnt ops h4 (\<lambda>r. ?cnt r - (if cw_val n = VRef r then 1 else 0))"
        "hp_nodes h4 = hp_nodes h3" "hp_next h4 = hp_next h3"
        using decref_cnt [OF t3(3) [unfolded obj_inv_def], of "cw_val n"] cnt by blast
      let ?h = "h4\<lparr>hp_nodes := (hp_nodes h4)(a := None)\<rparr>"
      have nodes: "hp_nodes ?h = (hp_nodes h3)(a := None)" "hp_next ?h = hp_next h3" using h4(3,4) by simp_all
      have inv': "cow_inv ?h T3 lev D" by (rule drop_node [OF t3(2) drop(2) T3a nodes])
      have "holders ?h r = holders h3 r - {a}" for r unfolding holders_def nodes(1) by (auto split: if_splits)
      moreover have "a \<in> holders h3 r \<longleftrightarrow> cw_val n = VRef r" for r using n3 val by (simp add: holders_def)
      ultimately have "card (holders ?h r) + ext r = ?cnt r - (if cw_val n = VRef r then 1 else 0)" for r
        using finite_holders [OF t3(2), of r] held [of r] by (auto simp: card_Diff_singleton)
      then have obj': "obj_inv ops ext ?h" unfolding obj_inv_def by (intro obj_cnt_cong [OF h4(2)]) (simp_all add: fun_eq_iff)
      have "dom (hp_nodes h3) \<subseteq> dom (hp_nodes h2)" by (rule shrinks_dom [OF t3(5)])
      then have pr: "pruned T0 ?h T3"
        using t2(4) t3(4) T3a unfolding pruned_def nodes(1) by (auto simp: subset_iff)
      have shr: "shrinks h ?h" using shr3 unfolding shrinks_def nodes(1) by (auto split: if_splits)
      have "tree_decref ops root l r h = Ok (True, ?h)"
      proof (cases "k = 0")
        case False
        then have "\<not> cw_leaf n" using ok lev by (simp add: node_ok_def)
        then show ?thesis using Some n True t2(1) t3(1) h4(1) sl(2) False
          by (subst tree_decref.simps) (simp add: node_at_def Let_def kid_def)
      next
        case k0: True
        then have none: "kid n d = None" for d using ok lev by (cases d) (auto simp: node_ok_def kid_def)
        have "h3 = ?h1" using t2(1) t3(1) none by (simp add: tree_decref.simps)
        then show ?thesis using Some n True h4(1) sl(2) k0 by (subst tree_decref.simps) (simp add: node_at_def Let_def)
      qed
      then show ?thesis using inv' obj' pr shr unfolding T0_def by blast
    qed
  qed
qed

text \<open>Disposing of a frame leaves what the others hold as it is.\<close>

lemma shrinks_lookup:
  assumes inv': "cow_inv h' T' lev {}" and pr: "pruned (T(Frame f := None)) h' T'" and sh: "shrinks h h'" and g: "g \<noteq> f"
  shows "lookup h' T' (Frame g) q = lookup h T (Frame g) q"
proof -
  have kid: "walk T' (Kid b d) p = walk T (Kid b d) p" if "b \<in> dom (hp_nodes h')" for b d p
    using that
  proof (induction p arbitrary: b d)
    case Nil
    then show ?case using pr by (simp add: pruned_def)
  next
    case (Cons e p)
    have eq: "T' (Kid b d) = T (Kid b d)" using pr Cons.prems by (simp add: pruned_def)
    show ?case
    proof (cases "T' (Kid b d)")
      case (Some c)
      then have "c \<in> dom (hp_nodes h')" by (rule cow_invD(6) [OF inv'])
      then show ?thesis using Cons.IH [of c e] Some eq by simp
    qed (use eq in simp)
  qed
  have root: "T' (Frame g) = T (Frame g)" using pr g by (simp add: pruned_def)
  have walk: "walk T' (Frame g) q = walk T (Frame g) q"
  proof (cases q)
    case (Cons e p)
    show ?thesis
    proof (cases "T' (Frame g)")
      case (Some b)
      then have "b \<in> dom (hp_nodes h')" by (rule cow_invD(6) [OF inv'])
      then show ?thesis using Cons root [symmetric] Some kid [of b e p] by simp
    qed (use Cons root in simp)
  qed (use root in simp)
  show ?thesis
  proof (cases "walk T' (Frame g) q")
    case (Some a)
    have "\<exists>s. T' s = Some a" using Some by (cases q rule: rev_cases) (auto simp: walk_snoc split: option.splits)
    then obtain m where m: "hp_nodes h' a = Some m" using cow_invD(6) [OF inv'] by blast
    then obtain m0 where m0: "hp_nodes h a = Some m0" "m = m0\<lparr>cw_ref := cw_ref m\<rparr>" using sh unfolding shrinks_def by blast
    then have "cw_val m = cw_val m0" by (metis cow_node.select_convs(2) cow_node.surjective cow_node.update_convs(1))
    then show ?thesis using Some walk m m0(1) by (simp add: lookup_def)
  qed (use walk in \<open>simp add: lookup_def\<close>)
qed

end
