(* ===== verification/PssFrameProps.thy ===== *)
theory PssFrameProps
  imports PssFrameSafe
begin

text \<open>
  The properties of the frames: in every state that the interpreter can reach a frame behaves like an
  array of its own, the counters are exact and nothing leaks; and the failures that are not handled.
\<close>

subsection \<open>Reachable states\<close>

type_synonym frames = "nat \<Rightarrow> pss_frame option"

definition ptrs_of :: "pss_heap \<Rightarrow> frames \<Rightarrow> ptrs" where
  "ptrs_of h F s = (case s of Frame g \<Rightarrow> Option.bind (F g) fr_root | Kid b d \<Rightarrow> Option.bind (hp_nodes h b) (\<lambda>n. kid n d))"

definition frames_ok :: "(nat \<Rightarrow> bool) \<Rightarrow> pss_heap \<Rightarrow> frames \<Rightarrow> (nat \<Rightarrow> nat) \<Rightarrow> bool" where
  "frames_ok ops h F E \<longleftrightarrow> (\<exists>lev. cow_inv h (ptrs_of h F) lev {}) \<and> obj_inv ops E h"

lemma frames_okI:
  assumes "cow_inv h T lev {}" and "obj_inv ops E h" and "\<And>g. T (Frame g) = Option.bind (F g) fr_root"
  shows "frames_ok ops h F E" and "T = ptrs_of h F"
proof -
  have "T (Kid b d) = Option.bind (hp_nodes h b) (\<lambda>n. kid n d)" for b d
  proof (cases "hp_nodes h b")
    case None
    then show ?thesis using cow_invD(5) [OF assms(1), of b d] by (simp add: domIff)
  next
    case (Some n)
    then show ?thesis using cow_invD(8) [OF assms(1) Some] by (simp add: node_ok_def)
  qed
  then show T: "T = ptrs_of h F" using assms(3) by (auto simp: fun_eq_iff ptrs_of_def split: src.splits)
  then show "frames_ok ops h F E" using assms(1,2) by (auto simp: frames_ok_def)
qed

text \<open>
  The object of \<open>v\<close> exists; when it is the one that the register holds already, there is another
  reference to it.
\<close>

definition may_set :: "pss_heap \<Rightarrow> frames \<Rightarrow> (nat \<Rightarrow> nat) \<Rightarrow> nat \<Rightarrow> nat \<Rightarrow> pss_value \<Rightarrow> bool" where
  "may_set h F E g t v \<longleftrightarrow> v \<noteq> VError \<and> (\<forall>r. v = VRef r \<longrightarrow> r \<in> dom (hp_refs h) \<and> (pss_frame_reg_get (F g) t h = Ok (VRef r)
     \<longrightarrow> 0 < E r \<or> (\<exists>e u. (e, u) \<noteq> (g, t) \<and> u < NO_REG \<and> pss_frame_reg_get (F e) u h = Ok (VRef r))))"

text \<open>
  \<open>F\<close> has the frames, \<open>E r\<close> the number of the references to object \<open>r\<close> outside of them. Memory does not run
  out in these runs.
\<close>

inductive frames_reach :: "(nat \<Rightarrow> bool) \<Rightarrow> pss_heap \<Rightarrow> frames \<Rightarrow> (nat \<Rightarrow> nat) \<Rightarrow> bool" for ops :: "nat \<Rightarrow> bool" where
  start: "frames_reach ops \<lparr>hp_refs = Map.empty, hp_nodes = Map.empty, hp_freed = [], hp_next = 0\<rparr> (\<lambda>g. None) (\<lambda>r. 0)"
| object: "frames_reach ops h F E \<Longrightarrow> pss_value_ref_new ops mk mem type d h = (v, h') \<Longrightarrow> frames_reach ops h' F E"
| hold: "frames_reach ops h F E \<Longrightarrow> pss_value_incref (VRef r) h = Ok h' \<Longrightarrow> frames_reach ops h' F (E(r := E r + 1))"
| drop: "frames_reach ops h F E \<Longrightarrow> 0 < E r \<Longrightarrow> pss_value_decref ops (VRef r) h = Ok (ok, h') \<Longrightarrow> frames_reach ops h' F (E(r := E r - 1))"
| create: "frames_reach ops h F E \<Longrightarrow> F g = None \<Longrightarrow> pss_frame_new plenty None h = Ok (fr, h') \<Longrightarrow> frames_reach ops h' (F(g := fr)) E"
| fork: "frames_reach ops h F E \<Longrightarrow> F g = None \<Longrightarrow> pss_frame_new plenty (F e) h = Ok (fr, h') \<Longrightarrow> frames_reach ops h' (F(g := fr)) E"
| assign: "frames_reach ops h F E \<Longrightarrow> F g \<noteq> None \<Longrightarrow> t < NO_REG \<Longrightarrow> may_set h F E g t v \<Longrightarrow> pss_frame_reg_set plenty ops (F g) t v h = Ok (ok, fr, h')
    \<Longrightarrow> frames_reach ops h' (F(g := fr)) E"
| dispose: "frames_reach ops h F E \<Longrightarrow> F g \<noteq> None \<Longrightarrow> pss_frame_free ops (F g) h = Ok (ok, h') \<Longrightarrow> frames_reach ops h' (F(g := None)) E"

subsection \<open>The operations\<close>

lemma get_lookup:
  assumes inv: "cow_inv h T lev {}" and T: "T (Frame g) = fr_root fr" and t: "t < NO_REG"
  shows "pss_frame_reg_get (Some fr) t h = Ok (lookup h T (Frame g) (reg_path t))"
proof -
  have n16: "Suc 15 = (16 :: nat)" by simp
  have "lev a = Suc 15" if "fr_root fr = Some a" for a using cow_invD(7) [OF inv, of "Frame g" a] T that by simp
  then obtain m where "cow_get h (fr_root fr) 0 NO_REG t = Ok m" "(case m of None \<Rightarrow> VUndef | Some n \<Rightarrow> cw_val n) = lookup h T (Frame g) (reg_path t)"
    using cow_get_lookup [OF inv T _ span_regs _ t] unfolding n16 by blast
  then show ?thesis using t by (simp add: pss_frame_reg_get_def)
qed

lemma get_None: "pss_frame_reg_get None t h = Ok VError"
  by (simp add: pss_frame_reg_get_def)

lemma reg_path_inj: "t < NO_REG \<Longrightarrow> u < NO_REG \<Longrightarrow> reg_path t = reg_path u \<longleftrightarrow> t = u"
  using dirs_inj [of 0 t 16 u] by auto

lemma may_set_alive:
  assumes ok: "cow_inv h (ptrs_of h F) lev {}" and m: "may_set h F E g t v" and g: "F g = Some fr" and t: "t < NO_REG"
  shows "keeps_alive h (ptrs_of h F) E g (reg_path t) v"
proof -
  have get: "pss_frame_reg_get (F e) u h = Ok (lookup h (ptrs_of h F) (Frame e) (reg_path u))" if "F e = Some fe" "u < NO_REG" for e u fe
    using get_lookup [OF ok, of e fe u] that by (simp add: ptrs_of_def)
  have "\<exists>p q. (p, q) \<noteq> (g, reg_path t) \<and> lookup h (ptrs_of h F) (Frame p) q = VRef r"
    if eu: "(e, u) \<noteq> (g, t)" "u < NO_REG" "pss_frame_reg_get (F e) u h = Ok (VRef r)" for e u r
  proof -
    obtain fe where fe: "F e = Some fe" using eu(3) get_None by (cases "F e") auto
    then have "lookup h (ptrs_of h F) (Frame e) (reg_path u) = VRef r" using get [OF fe eu(2)] eu(3) by simp
    moreover have "(e, reg_path u) \<noteq> (g, reg_path t)" using eu(1,2) reg_path_inj [of u t] t by auto
    ultimately show ?thesis by blast
  qed
  then show ?thesis using m get [OF g t] unfolding may_set_def keeps_alive_def by (metis (no_types, lifting))
qed

lemma set_ok:
  assumes ok: "frames_ok ops h F E" and g: "F g = Some fr" and t: "t < NO_REG" and m: "may_set h F E g t v"
  shows "\<exists>fr' h'. pss_frame_reg_set plenty ops (F g) t v h = Ok (True, Some fr', h') \<and> frames_ok ops h' (F(g \<mapsto> fr')) E
    \<and> (\<forall>e q. lookup h' (ptrs_of h' (F(g \<mapsto> fr'))) (Frame e) q = (if e = g \<and> q = reg_path t then v else lookup h (ptrs_of h F) (Frame e) q))"
proof -
  obtain lev where inv: "cow_inv h (ptrs_of h F) lev {}" and obj: "obj_inv ops E h" using ok by (auto simp: frames_ok_def)
  have root: "ptrs_of h F (Frame g) = fr_root fr" using g by (simp add: ptrs_of_def)
  obtain h' T' lev' a where w: "cow_write plenty ops (fr_root fr) 0 NO_REG t v h = Ok (Some a, h')" "cow_inv h' T' lev' {}" "obj_inv ops E h'"
    "T' (Frame g) = Some a" "\<forall>e. e \<noteq> g \<longrightarrow> T' (Frame e) = ptrs_of h F (Frame e)"
    "\<forall>e q. lookup h' T' (Frame e) q = (if e = g \<and> q = reg_path t then v else lookup h (ptrs_of h F) (Frame e) q)"
    using cow_write_inv [OF inv obj _ t may_set_alive [OF inv m g t], of plenty] unfolding root by blast
  let ?fr = "fr\<lparr>fr_root := Some a\<rparr>"
  have "T' (Frame e) = Option.bind ((F(g \<mapsto> ?fr)) e) fr_root" for e using w(4,5) by (simp add: ptrs_of_def)
  note ok' = frames_okI [where F = "F(g \<mapsto> ?fr)", OF w(2,3) this]
  have "pss_frame_reg_set plenty ops (F g) t v h = Ok (True, Some ?fr, h')" using g t m w(1) by (simp add: pss_frame_reg_set_def may_set_def)
  then show ?thesis using ok' w(6) by metis
qed

lemma cow_inv_next:
  assumes "cow_inv h T lev D" and "hp_nodes h' = hp_nodes h" and "hp_next h \<le> hp_next h'"
  shows "cow_inv h' T lev D"
  using assms by (auto simp: cow_inv_def subset_iff)

lemma obj_inv_next:
  assumes "obj_inv ops E h" and "hp_nodes h' = hp_nodes h" and "hp_refs h' = hp_refs h" and "hp_next h \<le> hp_next h'"
  shows "obj_inv ops E h'"
proof -
  have "holders h' r = holders h r" for r using assms(2) by (simp add: holders_def)
  then show ?thesis using assms(1) unfolding obj_inv_def by (intro obj_cnt_cong [OF _ assms(3,4)]) simp_all
qed

lemma add_frame_ptr:
  assumes inv: "cow_inv h T lev {}" and g: "T (Frame g) = None" and b: "T (Frame e) = Some b" "hp_nodes h b = Some n"
    and h': "hp_nodes h' = (hp_nodes h)(b \<mapsto> n\<lparr>cw_ref := cw_ref n + 1\<rparr>)" "hp_next h \<le> hp_next h'"
  shows "cow_inv h' (T(Frame g \<mapsto> b)) lev {}"
proof -
  let ?T = "T(Frame g \<mapsto> b)"
  have fin: "fin_ptrs T" by (rule cow_invD(4) [OF inv])
  have card: "card (inrefs ?T a) = card (inrefs T a) + (if a = b then 1 else 0)" for a
    using card_inrefs_upd [OF fin, of "Frame g" "Some b" a] g by (auto split: if_splits)
  have dom: "dom (hp_nodes h') = dom (hp_nodes h)" using b(2) by (auto simp: h')
  show ?thesis unfolding cow_inv_def dom
  proof (intro conjI allI impI)
    show "finite (dom (hp_nodes h))" "dom (hp_nodes h) \<subseteq> {..<hp_next h'}" using cow_invD(1,2) [OF inv] h'(2) by auto
    show "fin_ptrs ?T" by (rule fin_ptrs_upd [OF fin])
    show "?T (Kid a d) = None" if "a \<notin> dom (hp_nodes h)" for a d using cow_invD(5) [OF inv that] by simp
    show "a \<in> dom (hp_nodes h)" "ptr_ok lev s a" if "?T s = Some a" for s a
      using that b cow_invD(6,7) [OF inv, of s a] cow_invD(7) [OF inv b(1)] by (auto split: if_splits)
    show "node_ok ?T lev {} a m" if m: "hp_nodes h' a = Some m" for a m
    proof (cases "a = b")
      case True
      then have "m = n\<lparr>cw_ref := cw_ref n + 1\<rparr>" using m by (simp add: h')
      then show ?thesis using cow_invD(8) [OF inv b(2)] True card [of b] by (simp add: node_ok_def kid_def)
    next
      case False
      then have "hp_nodes h a = Some m" using m by (simp add: h')
      then have "node_ok T lev {} a m" by (rule cow_invD(8) [OF inv])
      then show ?thesis using False card [of a] by (simp add: node_ok_def)
    qed
  qed simp
qed

lemma walk_other_frame: "s \<noteq> Frame g \<Longrightarrow> walk (T(Frame g := x)) s q = walk T s q"
  by (induction T s q rule: walk.induct) (auto split: option.splits)

lemma walk_same_root: "T (Frame g) = T (Frame e) \<Longrightarrow> walk T (Frame g) q = walk T (Frame e) q"
  by (cases q) simp_all

lemma new_ok:
  assumes ok: "frames_ok ops h F E" and g: "F g = None" and src: "src = None \<or> src = F e"
  shows "\<exists>fr h'. pss_frame_new plenty src h = Ok (Some fr, h') \<and> frames_ok ops h' (F(g \<mapsto> fr)) E \<and> fr_root fr = Option.bind src fr_root
    \<and> (\<forall>p q. p \<noteq> g \<longrightarrow> lookup h' (ptrs_of h' (F(g \<mapsto> fr))) (Frame p) q = lookup h (ptrs_of h F) (Frame p) q)"
proof -
  let ?T = "ptrs_of h F" and ?g = "h\<lparr>hp_next := Suc (hp_next h)\<rparr>"
  obtain lev where inv: "cow_inv h ?T lev {}" and obj: "obj_inv ops E h" using ok by (auto simp: frames_ok_def)
  have Tg: "?T (Frame g) = None" using g by (simp add: ptrs_of_def)
  show ?thesis
  proof (cases "Option.bind src fr_root")
    case None
    let ?fr = "\<lparr>fr_root = None\<rparr> :: pss_frame"
    have root: "?T (Frame p) = Option.bind ((F(g \<mapsto> ?fr)) p) fr_root" for p using Tg by (simp add: ptrs_of_def)
    have inv': "cow_inv ?g ?T lev {}" and obj': "obj_inv ops E ?g" using cow_inv_next [OF inv, of ?g] obj_inv_next [OF obj, of ?g] by simp_all
    note ok' = frames_okI [where F = "F(g \<mapsto> ?fr)", OF inv' obj' root]
    have "pss_frame_new plenty src h = Ok (Some ?fr, ?g)" using None by (simp add: pss_frame_new_def Let_def)
    moreover have "lookup ?g ?T (Frame p) q = lookup h ?T (Frame p) q" for p q by (simp add: lookup_def)
    ultimately show ?thesis using ok'(1) None unfolding ok'(2) [symmetric] by (intro exI [of _ ?fr] exI [of _ ?g]) (auto simp: ok'(2))
  next
    case (Some b)
    then have e: "?T (Frame e) = Some b" using src by (auto simp: ptrs_of_def)
    obtain n where n: "hp_nodes h b = Some n" using cow_invD(6) [OF inv e] by blast
    let ?h = "put_node b (n\<lparr>cw_ref := cw_ref n + 1\<rparr>) ?g" and ?fr = "\<lparr>fr_root = Some b\<rparr> :: pss_frame" and ?T' = "?T(Frame g \<mapsto> b)"
    have inv': "cow_inv ?h ?T' lev {}" by (rule add_frame_ptr [OF inv Tg e n]) simp_all
    have "holders ?h r = holders h r" for r using n by (auto simp: holders_def split: if_splits)
    then have obj': "obj_inv ops E ?h" using obj unfolding obj_inv_def by (intro obj_cnt_cong [OF obj [unfolded obj_inv_def]]) simp_all
    have root: "?T' (Frame p) = Option.bind ((F(g \<mapsto> ?fr)) p) fr_root" for p by (simp add: ptrs_of_def)
    note ok' = frames_okI [where F = "F(g \<mapsto> ?fr)" and T = ?T', OF inv' obj' root]
    have "pss_frame_new plenty src h = Ok (Some ?fr, ?h)" using Some n by (simp add: pss_frame_new_def add_ref_def node_at_def Let_def)
    moreover have "lookup ?h ?T' (Frame p) q = lookup h ?T (Frame p) q" if "p \<noteq> g" for p q
    proof -
      have "walk ?T' (Frame p) q = walk ?T (Frame p) q" by (rule walk_other_frame) (use that in simp)
      then show ?thesis using n by (cases "walk ?T (Frame p) q") (auto simp: lookup_def)
    qed
    ultimately show ?thesis using ok'(1) Some unfolding ok'(2) [symmetric] by (intro exI [of _ ?fr] exI [of _ ?h]) (auto simp: ok'(2))
  qed
qed

lemma free_ok:
  assumes ok: "frames_ok ops h F E" and g: "F g = Some fr"
  shows "\<exists>h'. pss_frame_free ops (F g) h = Ok (True, h') \<and> frames_ok ops h' (F(g := None)) E
    \<and> (\<forall>p q. p \<noteq> g \<longrightarrow> lookup h' (ptrs_of h' (F(g := None))) (Frame p) q = lookup h (ptrs_of h F) (Frame p) q)"
proof -
  let ?T = "ptrs_of h F"
  obtain lev where inv: "cow_inv h ?T lev {}" and obj: "obj_inv ops E h" using ok by (auto simp: frames_ok_def)
  have root: "?T (Frame g) = fr_root fr" using g by (simp add: ptrs_of_def)
  have lev: "lev a = Suc 15" if "fr_root fr = Some a" for a using cow_invD(7) [OF inv, of "Frame g" a] root that by simp
  obtain h' T' where t: "tree_decref ops (fr_root fr) 0 NO_REG h = Ok (True, h')" "cow_inv h' T' lev {}" "obj_inv ops E h'"
    "pruned (?T(Frame g := None)) h' T'" "shrinks h h'"
    using tree_decref_inv [of h ?T lev "{}" ops E "Frame g" "fr_root fr" "Suc 15" 0 NO_REG] inv obj root lev span_regs by blast
  have "T' (Frame p) = Option.bind ((F(g := None)) p) fr_root" for p using t(4) by (simp add: pruned_def ptrs_of_def)
  note ok' = frames_okI [where F = "F(g := None)", OF t(2,3) this]
  have "lookup h' T' (Frame p) q = lookup h ?T (Frame p) q" if "p \<noteq> g" for p q by (rule shrinks_lookup [OF t(2,4,5) that])
  moreover have "pss_frame_free ops (F g) h = Ok (True, h')" using g t(1) by (simp add: pss_frame_free_def)
  ultimately show ?thesis using ok' by metis
qed

lemma reach_frames_ok: "frames_reach ops h F E \<Longrightarrow> frames_ok ops h F E"
proof (induction rule: frames_reach.induct)
  case start
  have "ptrs_of \<lparr>hp_refs = Map.empty, hp_nodes = Map.empty, hp_freed = [], hp_next = 0\<rparr> (\<lambda>g. None) s = None" for s
    by (cases s) (simp_all add: ptrs_of_def)
  then show ?case by (simp add: frames_ok_def cow_inv_def obj_inv_def obj_cnt_def holders_def fin_ptrs_def)
next
  case (object h F E mk mem type d v h')
  have n: "hp_nodes h' = hp_nodes h" "hp_next h \<le> hp_next h'" using object(2) by (auto simp: pss_value_ref_new_def Let_def split: if_splits option.splits)
  have p: "ptrs_of h' F = ptrs_of h F" using n(1) by (simp add: ptrs_of_def fun_eq_iff split: src.splits)
  have hold: "holders h' r = holders h r" for r using n(1) by (simp add: holders_def)
  have cnt: "obj_cnt ops h (\<lambda>r. card (holders h r) + E r)" using object(3) by (simp add: frames_ok_def obj_inv_def)
  then have "hp_refs h (hp_next h) = None" unfolding obj_cnt_def by (metis domI lessThan_iff less_irrefl not_None_eq subsetD)
  moreover have "t < hp_next h" if "hp_refs h t = Some y" for t y using cnt that unfolding obj_cnt_def by blast
  ultimately have "obj_cnt ops h' (\<lambda>r. card (holders h r) + E r)"
    using cnt object(2) unfolding obj_cnt_def pss_value_ref_new_def Let_def by (auto split: if_splits option.splits simp: less_Suc_eq)
  then show ?case using object(3) cow_inv_next [OF _ n] unfolding frames_ok_def p obj_inv_def hold by blast
next
  case (hold h F E r h')
  have cnt: "obj_cnt ops h (\<lambda>r. card (holders h r) + E r)" using hold(3) by (simp add: frames_ok_def obj_inv_def)
  have "r \<in> dom (hp_refs h)" using hold(2) by (auto simp: pss_value_incref_def ref_at_def split: option.splits)
  then have i: "obj_cnt ops h' (\<lambda>q. card (holders h q) + E q + (if VRef r = VRef q then 1 else 0))" "hp_nodes h' = hp_nodes h" "hp_next h' = hp_next h"
    using incref_cnt [OF cnt, of "VRef r"] hold(2) by auto
  have p: "ptrs_of h' F = ptrs_of h F" "holders h' q = holders h q" for q using i(2) by (auto simp: ptrs_of_def fun_eq_iff holders_def split: src.splits)
  have "obj_inv ops (E(r := E r + 1)) h'" unfolding obj_inv_def p(2) by (rule obj_cnt_cong [OF i(1)]) (auto simp: fun_eq_iff)
  then show ?case using hold(3) cow_inv_next [OF _ i(2)] i(3) unfolding frames_ok_def p(1) by auto
next
  case (drop h F E r ok h')
  have cnt: "obj_cnt ops h (\<lambda>r. card (holders h r) + E r)" using drop(4) by (simp add: frames_ok_def obj_inv_def)
  have i: "obj_cnt ops h' (\<lambda>q. card (holders h q) + E q - (if VRef r = VRef q then 1 else 0))" "hp_nodes h' = hp_nodes h" "hp_next h' = hp_next h"
    using decref_cnt [OF cnt, of "VRef r"] drop(2,3) by auto
  have p: "ptrs_of h' F = ptrs_of h F" "holders h' q = holders h q" for q using i(2) by (auto simp: ptrs_of_def fun_eq_iff holders_def split: src.splits)
  have "obj_inv ops (E(r := E r - 1)) h'" unfolding obj_inv_def p(2) by (rule obj_cnt_cong [OF i(1)]) (use drop(2) in \<open>auto simp: fun_eq_iff\<close>)
  then show ?case using drop(4) cow_inv_next [OF _ i(2)] i(3) unfolding frames_ok_def p(1) by auto
next
  case (create h F E g fr h')
  then show ?case using new_ok [OF create(4,2), of None] by (auto simp: fun_upd_def)
next
  case (fork h F E g e fr h')
  then show ?case using new_ok [OF fork(4,2), of "F e" e] by (auto simp: fun_upd_def)
next
  case (assign h F E g t v ok fr h')
  then show ?case using set_ok [OF assign(6), of g _ t v] by (fastforce simp: fun_upd_def)
next
  case (dispose h F E g ok h')
  then show ?case using free_ok [OF dispose(4), of g] by (fastforce simp: fun_upd_def)
qed

subsection \<open>Properties\<close>

lemma get_view:
  assumes "frames_ok ops h F E" and "F e \<noteq> None" and "u < NO_REG"
  shows "pss_frame_reg_get (F e) u h = Ok (lookup h (ptrs_of h F) (Frame e) (reg_path u))"
proof -
  obtain fr where fr: "F e = Some fr" using assms(2) by blast
  obtain lev where "cow_inv h (ptrs_of h F) lev {}" using assms(1) by (auto simp: frames_ok_def)
  then show ?thesis using get_lookup [of h "ptrs_of h F" lev e fr u] fr assms(3) by (simp add: ptrs_of_def)
qed

text \<open>C22: a frame behaves like an array of registers of its own, although frames share their memory. In
  every state that is reached, setting a register succeeds without leaving the memory; the register then
  holds the value, and all other registers of this and of all other frames hold what they held.\<close>

theorem frames_isolated:
  assumes "frames_reach ops h F E" and "F g \<noteq> None" and "t < NO_REG" and "may_set h F E g t v"
  shows "\<exists>fr h'. pss_frame_reg_set plenty ops (F g) t v h = Ok (True, Some fr, h') \<and> frames_reach ops h' (F(g \<mapsto> fr)) E
    \<and> (\<forall>e u. F e \<noteq> None \<and> u < NO_REG
      \<longrightarrow> pss_frame_reg_get ((F(g \<mapsto> fr)) e) u h' = (if e = g \<and> u = t then Ok v else pss_frame_reg_get (F e) u h))"
proof -
  have ok: "frames_ok ops h F E" by (rule reach_frames_ok [OF assms(1)])
  obtain fr0 where fr0: "F g = Some fr0" using assms(2) by blast
  obtain fr h' where set: "pss_frame_reg_set plenty ops (F g) t v h = Ok (True, Some fr, h')" "frames_ok ops h' (F(g \<mapsto> fr)) E"
    "\<forall>e q. lookup h' (ptrs_of h' (F(g \<mapsto> fr))) (Frame e) q = (if e = g \<and> q = reg_path t then v else lookup h (ptrs_of h F) (Frame e) q)"
    using set_ok [OF ok fr0 assms(3,4)] by blast
  have "pss_frame_reg_get ((F(g \<mapsto> fr)) e) u h' = (if e = g \<and> u = t then Ok v else pss_frame_reg_get (F e) u h)" if "F e \<noteq> None" "u < NO_REG" for e u
  proof -
    have "(F(g \<mapsto> fr)) e \<noteq> None" using that(1) by simp
    then show ?thesis using get_view [OF set(2) _ that(2), of e] get_view [OF ok that] set(3) reg_path_inj [OF that(2) assms(3)] by simp
  qed
  then show ?thesis using set(1) frames_reach.assign [OF assms set(1)] by blast
qed

text \<open>C24: a fork of a frame reads the same registers, and neither creating the fork nor disposing of a frame
  changes what any other frame reads; both always succeed.\<close>

theorem frame_fork_free:
  assumes "frames_reach ops h F E" and "F e \<noteq> None"
  shows "(F g = None \<longrightarrow> (\<exists>fr h'. pss_frame_new plenty (F e) h = Ok (Some fr, h') \<and> frames_reach ops h' (F(g \<mapsto> fr)) E
        \<and> (\<forall>u<NO_REG. pss_frame_reg_get (Some fr) u h' = pss_frame_reg_get (F e) u h)
        \<and> (\<forall>p u. F p \<noteq> None \<and> u < NO_REG \<longrightarrow> pss_frame_reg_get (F p) u h' = pss_frame_reg_get (F p) u h)))
    \<and> (\<exists>h'. pss_frame_free ops (F e) h = Ok (True, h') \<and> frames_reach ops h' (F(e := None)) E
        \<and> (\<forall>p u. p \<noteq> e \<and> F p \<noteq> None \<and> u < NO_REG \<longrightarrow> pss_frame_reg_get (F p) u h' = pss_frame_reg_get (F p) u h))"
proof (intro conjI impI)
  have ok: "frames_ok ops h F E" by (rule reach_frames_ok [OF assms(1)])
  show "\<exists>h'. pss_frame_free ops (F e) h = Ok (True, h') \<and> frames_reach ops h' (F(e := None)) E
        \<and> (\<forall>p u. p \<noteq> e \<and> F p \<noteq> None \<and> u < NO_REG \<longrightarrow> pss_frame_reg_get (F p) u h' = pss_frame_reg_get (F p) u h)"
  proof -
    obtain fr where "F e = Some fr" using assms(2) by blast
    then obtain h' where f: "pss_frame_free ops (F e) h = Ok (True, h')" "frames_ok ops h' (F(e := None)) E"
      "\<forall>p q. p \<noteq> e \<longrightarrow> lookup h' (ptrs_of h' (F(e := None))) (Frame p) q = lookup h (ptrs_of h F) (Frame p) q" using free_ok [OF ok] by blast
    have "pss_frame_reg_get (F p) u h' = pss_frame_reg_get (F p) u h" if "p \<noteq> e" "F p \<noteq> None" "u < NO_REG" for p u
      using get_view [OF f(2) _ that(3), of p] get_view [OF ok that(2,3)] f(3) that(1,2) by simp
    then show ?thesis using f(1) frames_reach.dispose [OF assms f(1)] by blast
  qed
  assume g: "F g = None"
  then have ge: "g \<noteq> e" using assms(2) by blast
  obtain fr h' where n: "pss_frame_new plenty (F e) h = Ok (Some fr, h')" "frames_ok ops h' (F(g \<mapsto> fr)) E" "fr_root fr = Option.bind (F e) fr_root"
    "\<forall>p q. p \<noteq> g \<longrightarrow> lookup h' (ptrs_of h' (F(g \<mapsto> fr))) (Frame p) q = lookup h (ptrs_of h F) (Frame p) q" using new_ok [OF ok g, of "F e" e] by blast
  let ?F = "F(g \<mapsto> fr)"
  have old: "pss_frame_reg_get (F p) u h' = pss_frame_reg_get (F p) u h" if "F p \<noteq> None" "u < NO_REG" for p u
  proof -
    have "p \<noteq> g" using that(1) g by auto
    then show ?thesis using get_view [OF n(2) _ that(2), of p] get_view [OF ok that] n(4) that(1) by simp
  qed
  have "pss_frame_reg_get (Some fr) u h' = pss_frame_reg_get (F e) u h" if "u < NO_REG" for u
  proof -
    have "ptrs_of h' ?F (Frame g) = ptrs_of h' ?F (Frame e)" using n(3) ge by (simp add: ptrs_of_def)
    then have "lookup h' (ptrs_of h' ?F) (Frame g) q = lookup h' (ptrs_of h' ?F) (Frame e) q" for q using walk_same_root by (metis lookup_def)
    then show ?thesis using get_view [OF n(2) _ that, of g] get_view [OF ok assms(2) that] n(4) ge by simp
  qed
  then show "\<exists>fr h'. pss_frame_new plenty (F e) h = Ok (Some fr, h') \<and> frames_reach ops h' (F(g \<mapsto> fr)) E
        \<and> (\<forall>u<NO_REG. pss_frame_reg_get (Some fr) u h' = pss_frame_reg_get (F e) u h)
        \<and> (\<forall>p u. F p \<noteq> None \<and> u < NO_REG \<longrightarrow> pss_frame_reg_get (F p) u h' = pss_frame_reg_get (F p) u h)"
    using n(1) frames_reach.fork [OF assms(1) g n(1)] old by blast
qed

text \<open>C23: the reference counters are exact. In every reachable state the counter of a node is the number of
  the pointers to it, from frames and from other nodes, and at least 1; every pointer is to a node that
  exists; the counter of an object is the number of the registers' nodes that hold it and of the
  references outside. When the last frame is disposed of, no node is left.\<close>

theorem frame_counters_exact:
  assumes "frames_reach ops h F E"
  shows "(\<forall>a n. hp_nodes h a = Some n \<longrightarrow> 0 < cw_ref n \<and> cw_ref n = card {s. ptrs_of h F s = Some a})
    \<and> (\<forall>s a. ptrs_of h F s = Some a \<longrightarrow> a \<in> dom (hp_nodes h))
    \<and> (\<forall>r x. hp_refs h r = Some x \<longrightarrow> rf_refcnt x = card (holders h r) + E r)
    \<and> ((\<forall>g. F g = None) \<longrightarrow> hp_nodes h = Map.empty)"
proof (intro conjI)
  let ?T = "ptrs_of h F"
  obtain lev where inv: "cow_inv h ?T lev {}" and obj: "obj_inv ops E h" using reach_frames_ok [OF assms] by (auto simp: frames_ok_def)
  have cnt: "0 < cw_ref n \<and> cw_ref n = card (inrefs ?T a)" if "hp_nodes h a = Some n" for a n using cow_invD(8) [OF inv that] by (simp add: node_ok_def)
  show "\<forall>a n. hp_nodes h a = Some n \<longrightarrow> 0 < cw_ref n \<and> cw_ref n = card {s. ?T s = Some a}" using cnt unfolding inrefs_def by blast
  show "\<forall>s a. ?T s = Some a \<longrightarrow> a \<in> dom (hp_nodes h)" using cow_invD(6) [OF inv] by blast
  show "\<forall>r x. hp_refs h r = Some x \<longrightarrow> rf_refcnt x = card (holders h r) + E r" using obj by (simp add: obj_inv_def obj_cnt_def)
  show "(\<forall>g. F g = None) \<longrightarrow> hp_nodes h = Map.empty"
  proof
    assume none: "\<forall>g. F g = None"
    show "hp_nodes h = Map.empty"
    proof (rule ccontr)
      assume "hp_nodes h \<noteq> Map.empty"
      then have "dom (hp_nodes h) \<noteq> {}" by simp
      then have "Max (lev ` dom (hp_nodes h)) \<in> lev ` dom (hp_nodes h)" using cow_invD(1) [OF inv] by (intro Max_in) auto
      then obtain a where a: "a \<in> dom (hp_nodes h)" "lev a = Max (lev ` dom (hp_nodes h))" by (metis imageE)
      then have top: "lev b \<le> lev a" if "b \<in> dom (hp_nodes h)" for b using that cow_invD(1) [OF inv] by simp
      have "0 < card (inrefs ?T a)" using cnt a(1) by force
      then obtain s where s: "?T s = Some a" by (auto simp: card_gt_0_iff inrefs_def)
      then obtain b d where b: "s = Kid b d" using none by (cases s) (auto simp: ptrs_of_def)
      have "b \<in> dom (hp_nodes h)" using s b cow_invD(5) [OF inv, of b d] by (metis option.distinct(1))
      then show False using top [of b] cow_invD(7) [OF inv s] b by simp
    qed
  qed
qed

subsection \<open>Scripts\<close>

datatype cmd = Create nat | Fork nat nat | Object nat | Assign nat nat pss_value

definition plain_set :: "pss_heap \<Rightarrow> frames \<Rightarrow> nat \<Rightarrow> nat \<Rightarrow> pss_value \<Rightarrow> bool" where
  "plain_set h F g t v = (case v of VError \<Rightarrow> False
     | VRef r \<Rightarrow> hp_refs h r \<noteq> None \<and> (case pss_frame_reg_get (F g) t h of Ok w \<Rightarrow> w \<noteq> v | _ \<Rightarrow> True) | _ \<Rightarrow> True)"

fun run_script :: "cmd list \<Rightarrow> pss_heap \<times> frames \<Rightarrow> (pss_heap \<times> frames) option" where
  "run_script [] s = Some s"
| "run_script (Create g # cs) (h, F) = (case pss_frame_new plenty None h of Ok (fr, h') \<Rightarrow> if F g = None then run_script cs (h', F(g := fr)) else None | _ \<Rightarrow> None)"
| "run_script (Fork g e # cs) (h, F) = (case pss_frame_new plenty (F e) h of Ok (fr, h') \<Rightarrow> if F g = None then run_script cs (h', F(g := fr)) else None | _ \<Rightarrow> None)"
| "run_script (Object d # cs) (h, F) = (let (v, h') = pss_value_ref_new plenty (\<lambda>t d. Some d) plenty 1 d h in run_script cs (h', F))"
| "run_script (Assign g t v # cs) (h, F) =
     (if F g \<noteq> None \<and> t < NO_REG \<and> plain_set h F g t v
      then (case pss_frame_reg_set plenty plenty (F g) t v h of Ok (ok, fr, h') \<Rightarrow> run_script cs (h', F(g := fr)) | _ \<Rightarrow> None) else None)"

lemma plain_may_set: "plain_set h F g t v \<Longrightarrow> may_set h F E g t v"
  by (cases v) (auto simp: plain_set_def may_set_def split: result.splits)

lemma script_reach: "run_script cs (h, F) = Some (h', F') \<Longrightarrow> frames_reach plenty h F E \<Longrightarrow> frames_reach plenty h' F' E"
proof (induction cs arbitrary: h F)
  case (Cons c cs)
  show ?case
  proof (cases c)
    case (Create g)
    then obtain fr h1 where s: "pss_frame_new plenty None h = Ok (fr, h1)" "F g = None" "run_script cs (h1, F(g := fr)) = Some (h', F')"
      using Cons.prems(1) by (auto split: result.splits if_splits)
    show ?thesis by (rule Cons.IH [OF s(3) frames_reach.create [OF Cons.prems(2) s(2,1)]])
  next
    case (Fork g e)
    then obtain fr h1 where s: "pss_frame_new plenty (F e) h = Ok (fr, h1)" "F g = None" "run_script cs (h1, F(g := fr)) = Some (h', F')"
      using Cons.prems(1) by (auto split: result.splits if_splits)
    show ?thesis by (rule Cons.IH [OF s(3) frames_reach.fork [OF Cons.prems(2) s(2,1)]])
  next
    case (Object d)
    then obtain v h1 where s: "pss_value_ref_new plenty (\<lambda>t d. Some d) plenty 1 d h = (v, h1)" "run_script cs (h1, F) = Some (h', F')"
      using Cons.prems(1) by (auto split: prod.splits)
    show ?thesis by (rule Cons.IH [OF s(2) frames_reach.object [OF Cons.prems(2) s(1)]])
  next
    case (Assign g t v)
    then have c: "F g \<noteq> None" "t < NO_REG" "may_set h F E g t v" using Cons.prems(1) plain_may_set by (auto split: if_splits)
    obtain ok fr h1 where s: "pss_frame_reg_set plenty plenty (F g) t v h = Ok (ok, fr, h1)" "run_script cs (h1, F(g := fr)) = Some (h', F')"
      using Cons.prems(1) Assign by (auto split: if_splits result.splits)
    show ?thesis by (rule Cons.IH [OF s(2) frames_reach.assign [OF Cons.prems(2) c s(1)]])
  qed
qed simp

definition no_frames :: "pss_heap \<times> frames" where
  "no_frames = (\<lparr>hp_refs = Map.empty, hp_nodes = Map.empty, hp_freed = [], hp_next = 0\<rparr>, \<lambda>g. None)"

lemma script_start: "run_script cs no_frames = Some (h, F) \<Longrightarrow> frames_reach plenty h F (\<lambda>r. 0)"
  using script_reach [OF _ frames_reach.start] by (simp add: no_frames_def)

lemmas frame_eval = pss_frame_new_def pss_frame_reg_set_def pss_frame_reg_get_def pss_frame_reg_move_def pss_value_ref_new_def pss_value_incref_def
  pss_value_decref_def ref_at_def node_at_def put_node_def node_new_def add_ref_def zero_node_def set_slot_def new_children_def own_node_def cow_step_def
  set_value_def cow_write_def cow_loop.simps cow_get.simps plain_set_def no_frames_def Let_def

text \<open>Two frames that share register 32767, which is in the root.\<close>

definition shared :: "cmd list" where
  "shared = [Create 0, Assign 0 32767 (VNum 7), Fork 1 0]"

lemma shared_run: "\<exists>h F. frames_reach plenty h F (\<lambda>r. 0) \<and> F 0 \<noteq> None \<and> F 1 \<noteq> None \<and> F 2 = None \<and> pss_frame_reg_get (F 0) 32767 h = Ok (VNum 7)"
proof -
  have "(case run_script shared no_frames of Some (h, F) \<Rightarrow> (F 0 \<noteq> None, F 1 \<noteq> None, F 2 = None, pss_frame_reg_get (F 0) 32767 h) | None \<Rightarrow> (False, False, False, Undef))
      = (True, True, True, Ok (VNum 7))" by (simp add: shared_def frame_eval)
  then obtain h F where "run_script shared no_frames = Some (h, F)" "F 0 \<noteq> None" "F 1 \<noteq> None" "F 2 = None" "pss_frame_reg_get (F 0) 32767 h = Ok (VNum 7)"
    by (cases "run_script shared no_frames") auto
  then show ?thesis using script_start by blast
qed

theorem frames_isolated_witness:
  "\<exists>h F fr h'. frames_reach plenty h F (\<lambda>r. 0) \<and> pss_frame_reg_set plenty plenty (F 1) 32767 (VNum 9) h = Ok (True, Some fr, h')
     \<and> pss_frame_reg_get (Some fr) 32767 h' = Ok (VNum 9) \<and> pss_frame_reg_get (F 0) 32767 h' = Ok (VNum 7)"
proof -
  obtain h F where s: "frames_reach plenty h F (\<lambda>r. 0)" "F 0 \<noteq> None" "F 1 \<noteq> None" "pss_frame_reg_get (F 0) 32767 h = Ok (VNum 7)" using shared_run by blast
  have "may_set h F (\<lambda>r. 0) 1 32767 (VNum 9)" by (simp add: may_set_def)
  then obtain fr h' where r: "pss_frame_reg_set plenty plenty (F 1) 32767 (VNum 9) h = Ok (True, Some fr, h')"
    "\<forall>e u. F e \<noteq> None \<and> u < NO_REG \<longrightarrow> pss_frame_reg_get ((F(1 \<mapsto> fr)) e) u h' = (if e = 1 \<and> u = 32767 then Ok (VNum 9) else pss_frame_reg_get (F e) u h)"
    using frames_isolated [OF s(1,3), of 32767 "VNum 9"] by auto
  have "pss_frame_reg_get (Some fr) 32767 h' = Ok (VNum 9)" using r(2) [rule_format, of 1 32767] s(3) by simp
  moreover have "pss_frame_reg_get (F 0) 32767 h' = Ok (VNum 7)" using r(2) [rule_format, of 0 32767] s(2,4) by simp
  ultimately show ?thesis using s(1) r(1) by blast
qed

theorem frame_fork_free_witness:
  "\<exists>h F fr h' h''. frames_reach plenty h F (\<lambda>r. 0) \<and> pss_frame_new plenty (F 0) h = Ok (Some fr, h') \<and> pss_frame_reg_get (Some fr) 32767 h' = Ok (VNum 7)
     \<and> pss_frame_free plenty (F 0) h = Ok (True, h'')"
proof -
  obtain h F where s: "frames_reach plenty h F (\<lambda>r. 0)" "F 0 \<noteq> None" "F 2 = None" "pss_frame_reg_get (F 0) 32767 h = Ok (VNum 7)" using shared_run by blast
  note f = frame_fork_free [OF s(1,2), of 2]
  obtain fr h' where "pss_frame_new plenty (F 0) h = Ok (Some fr, h')" "\<forall>u<NO_REG. pss_frame_reg_get (Some fr) u h' = pss_frame_reg_get (F 0) u h"
    using conjunct1 [OF f] s(3) by blast
  moreover have "pss_frame_reg_get (Some fr) 32767 h' = Ok (VNum 7)" using calculation(2) [rule_format, of 32767] s(4) by simp
  moreover obtain h'' where "pss_frame_free plenty (F 0) h = Ok (True, h'')" using conjunct2 [OF f] by blast
  ultimately show ?thesis using s(1) by blast
qed

theorem frame_counters_exact_witness:
  "\<exists>h F. frames_reach plenty h F (\<lambda>r. 0) \<and> F 0 \<noteq> None \<and> (\<forall>s a. ptrs_of h F s = Some a \<longrightarrow> a \<in> dom (hp_nodes h))"
proof -
  obtain h F where s: "frames_reach plenty h F (\<lambda>r. 0)" "F 0 \<noteq> None" using shared_run by blast
  then show ?thesis using frame_counters_exact [OF s(1)] by blast
qed

subsection \<open>Failures that are not handled\<close>

definition is_undef :: "'a result \<Rightarrow> bool" where
  "is_undef r = (case r of Undef \<Rightarrow> True | _ \<Rightarrow> False)"

lemma is_undef_iff: "is_undef r \<longleftrightarrow> r = Undef"
  by (cases r) (simp_all add: is_undef_def)


text \<open>A write that runs out of memory is not always reported. When a shared node cannot be copied the
  NULL pointer is used; when the second of two children cannot be allocated the write is refused, but the
  frame is left with half of them and a later write to it goes through the NULL pointer.\<close>

theorem failed_write_breaks_frame:
  "\<exists>h F fr h'. frames_reach plenty h F (\<lambda>r. 0) \<and> pss_frame_reg_set (\<lambda>x. False) plenty (F 1) 32767 (VNum 9) h = Undef
     \<and> pss_frame_reg_set (\<lambda>x. x \<noteq> hp_next h + 1) plenty (F 2) 8191 (VNum 1) h = Ok (False, fr, h') \<and> pss_frame_reg_set plenty plenty fr 24575 (VNum 2) h' = Undef"
proof -
  let ?cs = "shared @ [Create 2, Assign 2 32767 (VNum 3)]"
  have "(case run_script ?cs no_frames of None \<Rightarrow> (False, False, False)
     | Some (h, F) \<Rightarrow> (is_undef (pss_frame_reg_set (\<lambda>x. False) plenty (F 1) 32767 (VNum 9) h),
         case pss_frame_reg_set (\<lambda>x. x \<noteq> hp_next h + 1) plenty (F 2) 8191 (VNum 1) h of
           Ok (ok, fr, h') \<Rightarrow> (ok, is_undef (pss_frame_reg_set plenty plenty fr 24575 (VNum 2) h')) | _ \<Rightarrow> (True, False)))
      = (True, False, True)" by (simp add: shared_def is_undef_def frame_eval)
  then obtain h F where s: "run_script ?cs no_frames = Some (h, F)" "pss_frame_reg_set (\<lambda>x. False) plenty (F 1) 32767 (VNum 9) h = Undef"
    and t: "(case pss_frame_reg_set (\<lambda>x. x \<noteq> hp_next h + 1) plenty (F 2) 8191 (VNum 1) h of
           Ok (ok, fr, h') \<Rightarrow> (ok, is_undef (pss_frame_reg_set plenty plenty fr 24575 (VNum 2) h')) | _ \<Rightarrow> (True, False)) = (False, True)"
    by (cases "run_script ?cs no_frames") (auto simp: is_undef_iff)
  obtain fr h' where "pss_frame_reg_set (\<lambda>x. x \<noteq> hp_next h + 1) plenty (F 2) 8191 (VNum 1) h = Ok (False, fr, h')" "pss_frame_reg_set plenty plenty fr 24575 (VNum 2) h' = Undef"
    using t by (auto simp: is_undef_iff split: result.splits prod.splits)
  then show ?thesis using s script_start by blast
qed

end
