(* ===== verification/PssRegs.thy ===== *)
theory PssRegs
  imports PssFrameInv
begin

unbundle bit_operations_syntax

text \<open>
  The numbering of the registers by their depth in the tree of a frame (\<^verbatim>\<open>lib/pss/include/pss/frame.h\<close>):
  serial numbers and register numbers correspond one to one, and the serial number tells the depth.
\<close>

declare log2_loop.simps [simp del]

lemma log2_spec: "0 < x \<Longrightarrow> 2 ^ log2_loop x \<le> x \<and> x < 2 ^ Suc (log2_loop x)"
proof (induction x rule: log2_loop.induct)
  case (1 x)
  show ?case
  proof (cases "x > 1")
    case True
    then have "2 ^ log2_loop (x div 2) \<le> x div 2 \<and> x div 2 < 2 ^ Suc (log2_loop (x div 2))" using 1 by simp
    moreover have "log2_loop x = Suc (log2_loop (x div 2))" using True by (subst log2_loop.simps) simp
    ultimately show ?thesis by auto
  next
    case False
    then have "log2_loop x = 0" by (subst log2_loop.simps) simp
    then show ?thesis using 1(2) False by simp
  qed
qed

lemma log2_eq: "2 ^ k \<le> x \<Longrightarrow> x < 2 ^ Suc k \<Longrightarrow> log2_loop x = k"
proof (rule ccontr)
  assume x: "2 ^ k \<le> x" "x < 2 ^ Suc k" and ne: "log2_loop x \<noteq> k"
  have "0 < x" using x(1) by (metis gr0I le_zero_eq power_not_zero zero_neq_numeral)
  note s = log2_spec [OF this]
  show False
  proof (cases "log2_loop x < k")
    case True
    then have "2 ^ Suc (log2_loop x) \<le> (2 :: nat) ^ k" by (intro power_increasing) auto
    then show ?thesis using s x(1) by linarith
  next
    case False
    then have "2 ^ Suc k \<le> (2 :: nat) ^ log2_loop x" using ne by (intro power_increasing) auto
    then show ?thesis using s x(2) by linarith
  qed
qed

lemma or_low: "c < 2 ^ e \<Longrightarrow> push_bit e j OR c = j * 2 ^ e + c" for j c :: nat
proof -
  assume c: "c < 2 ^ e"
  have "push_bit e j + c = push_bit e j OR c"
  proof (rule disjunctive_add)
    fix n
    have "\<not> bit c n" if "e \<le> n" using c that by (simp add: bit_iff_odd less_le_trans [OF c power_increasing])
    then show "\<not> bit (push_bit e j) n \<or> \<not> bit c n" by (cases "e \<le> n") (auto simp: bit_push_bit_iff)
  qed
  then show ?thesis by (simp add: push_bit_eq_mult)
qed

lemma xor_succ:
  fixes j f :: nat
  shows "(j * 2 ^ Suc f + (2 ^ f - 1)) XOR (j * 2 ^ Suc f + 2 ^ f) = 2 ^ Suc f - 1"
proof -
  have "(2 :: nat) ^ f - 1 < 2 ^ Suc f" by (rule le_less_trans [of _ "2 ^ f"]) simp_all
  then have a: "j * 2 ^ Suc f + (2 ^ f - 1) = push_bit (Suc f) j OR mask f"
    unfolding mask_eq_exp_minus_1 by (rule or_low [symmetric])
  have b: "j * 2 ^ Suc f + 2 ^ f = push_bit (Suc f) j OR push_bit f 1"
    using or_low [of "2 ^ f" "Suc f" j] by (simp add: push_bit_eq_mult)
  have "(push_bit (Suc f) j OR mask f) XOR (push_bit (Suc f) j OR push_bit f 1) = (mask (Suc f) :: nat)"
    by (rule bit_eqI) (auto simp: bit_xor_iff bit_or_iff bit_push_bit_iff bit_mask_iff bit_1_iff bit_exp_iff bit_0 less_Suc_eq)
  then show ?thesis unfolding a b by (simp add: mask_eq_exp_minus_1)
qed

text \<open>The register number of a serial number.\<close>

lemma regid_value:
  assumes "k \<le> 15" and "j < 2 ^ k" and "unat s + 1 = 2 ^ k + j"
  shows "unat (pss_frame_serial_to_regid s) = j * 2 ^ (16 - k) + (2 ^ (15 - k) - 1)"
proof -
  have n: "unat s + 1 < 2 ^ 16"
  proof -
    have "(2 :: nat) ^ k \<le> 2 ^ 15" using assms(1) by (intro power_increasing) auto
    then show ?thesis using assms(2,3) by simp
  qed
  have l: "log2_loop (1 + unat s) = k" using assms(2,3) by (intro log2_eq) auto
  have s1: "unat (1 + s) = 2 ^ k + j" using n assms(3) by (simp add: unat_word_ariths)
  have e: "(2 :: nat) ^ k * 2 ^ (16 - k) = 2 ^ 16" using assms(1) by (simp flip: power_add)
  have small: "j * 2 ^ (16 - k) < 2 ^ 16" using assms(2) e by (metis mult_less_cancel2 zero_less_numeral zero_less_power)
  have p: "unat (push_bit (16 - k) (1 + s)) = j * 2 ^ (16 - k)"
  proof -
    have "unat (push_bit (16 - k) (1 + s)) = (unat (1 + s) * 2 ^ (16 - k)) mod 2 ^ 16"
      unfolding unsigned_push_bit_eq unfolding take_bit_eq_mod push_bit_eq_mult by simp
    also have "\<dots> = (2 ^ 16 + j * 2 ^ (16 - k)) mod 2 ^ 16" unfolding s1 using e by (simp add: add_mult_distrib)
    finally show ?thesis using small by simp
  qed
  have d: "unat (drop_bit k (0x7fff :: 16 word)) = 2 ^ (15 - k) - 1"
  proof -
    have "drop_bit k (mask 15) = (mask (15 - k) :: nat)" using assms(1) by (simp add: drop_bit_mask_eq)
    then show ?thesis unfolding mask_eq_exp_minus_1 by (simp add: unat_drop_bit_eq)
  qed
  have lt: "(2 :: nat) ^ (15 - k) - 1 < 2 ^ (16 - k)"
  proof -
    have "(2 :: nat) ^ (15 - k) \<le> 2 ^ (16 - k)" by (intro power_increasing) auto
    then show ?thesis by (simp add: less_le_trans [of _ "2 ^ (15 - k)"])
  qed
  have "unat (push_bit (16 - k) (1 + s) OR drop_bit k (0x7fff :: 16 word)) = push_bit (16 - k) j OR (2 ^ (15 - k) - 1)"
    using p d by (simp add: unsigned_or_eq push_bit_eq_mult)
  then show ?thesis using l or_low [OF lt, of j] by (simp add: pss_frame_serial_to_regid_def Let_def)
qed

lemma serial_value:
  assumes "k \<le> 15" and "j < 2 ^ k" and r: "unat r = j * 2 ^ (16 - k) + (2 ^ (15 - k) - 1)"
  shows "unat (pss_frame_regid_to_serial r) + 1 = 2 ^ k + j"
proof -
  define f where "f = 15 - k"
  have f: "16 - k = Suc f" "15 - k = f" using assms(1) by (simp_all add: f_def)
  let ?r = "ucast r :: 32 word"
  have pf: "(1 :: nat) \<le> 2 ^ f" "(2 :: nat) ^ Suc f \<le> 2 ^ 16" using f(1) by (simp, intro power_increasing) auto
  have "unat r < 2 ^ 16" using unsigned_less [of r] by simp
  moreover have ur: "unat ?r = j * 2 ^ Suc f + (2 ^ f - 1)" using r f calculation unfolding unsigned_ucast_eq take_bit_eq_mod by simp
  ultimately have lt16: "unat r < 2 ^ 16" by simp
  then have ur1: "unat (?r + 1) = j * 2 ^ Suc f + 2 ^ f" using ur r f pf(1) by (simp add: unat_word_ariths)
  have x: "unat (?r XOR (?r + 1)) = 2 ^ Suc f - 1" unfolding unsigned_xor_eq ur ur1 by (rule xor_succ)
  have x1: "unat ((?r XOR (?r + 1)) + 1) = 2 ^ Suc f" using x pf(2) by (simp add: unat_word_ariths)
  have a: "(65535 :: nat) div 2 ^ Suc f = 2 ^ k - 1"
  proof -
    have "drop_bit (Suc f) (mask 16) = (mask k :: nat)" using assms(1) by (simp add: drop_bit_mask_eq f_def)
    then show ?thesis by (simp add: drop_bit_eq_div mask_eq_exp_minus_1)
  qed
  have b: "(j * 2 ^ Suc f + (2 ^ f - 1)) div 2 ^ Suc f = j"
  proof -
    have "(2 :: nat) ^ f - 1 < 2 ^ Suc f" by (rule le_less_trans [of _ "2 ^ f"]) simp_all
    moreover have "(j * d + c) div d = j" if "c < d" for c d :: nat using that by simp
    ultimately show ?thesis by blast
  qed
  have "(2 :: nat) ^ k \<le> 2 ^ 15" using assms(1) by (intro power_increasing) auto
  then have lt: "2 ^ k - 1 + j < (2 :: nat) ^ 16" using assms(2) by simp
  have sum: "unat (0xffff div ((?r XOR (?r + 1)) + 1) + ?r div ((?r XOR (?r + 1)) + 1)) = 2 ^ k - 1 + j"
  proof -
    have "unat (0xffff div ((?r XOR (?r + 1)) + 1)) = 2 ^ k - 1" unfolding unat_div x1 using a by simp
    moreover have "unat (?r div ((?r XOR (?r + 1)) + 1)) = j" unfolding unat_div x1 ur by (rule b)
    ultimately show ?thesis using lt by (simp add: unat_word_ariths)
  qed
  have "unat (pss_frame_regid_to_serial r) = 2 ^ k - 1 + j"
    unfolding pss_frame_regid_to_serial_def Let_def unsigned_ucast_eq sum take_bit_eq_mod using lt by simp
  moreover have "(1 :: nat) \<le> 2 ^ k" by simp
  ultimately show ?thesis by linarith
qed

lemma unat_error_id: "unat (- 1 :: 16 word) = 65535"
  by (simp add: unsigned_minus_1_eq_mask mask_eq_exp_minus_1)

lemma serial_split:
  fixes s :: "16 word"
  assumes "s \<noteq> - 1"
  obtains k j where "k \<le> 15" "j < 2 ^ k" "unat s + 1 = 2 ^ k + j" "log2_loop (1 + unat s) = k"
proof -
  have "unat s \<noteq> 65535" using assms unat_error_id by (metis word_unat_eq_iff)
  moreover have "unat s < 2 ^ 16" using unsigned_less [of s] by simp
  ultimately have n: "unat s < 65535" by simp
  define k where "k = log2_loop (1 + unat s)"
  have k: "2 ^ k \<le> 1 + unat s" "1 + unat s < 2 ^ Suc k" using log2_spec [of "1 + unat s"] by (simp_all add: k_def)
  have "k \<le> 15"
  proof (rule ccontr)
    assume "\<not> k \<le> 15"
    then have "(2 :: nat) ^ 16 \<le> 2 ^ k" by (intro power_increasing) auto
    then show False using k(1) n by simp
  qed
  then show thesis using that [of k "1 + unat s - 2 ^ k"] k by (simp add: k_def)
qed

text \<open>The depth of a register.\<close>

lemma depth_value:
  assumes "e \<le> K" and "j < 2 ^ (K - e)"
  shows "length (dirs (Suc K) l (l + j * 2 ^ Suc e + (2 ^ e - 1))) = K - e"
  using assms
proof (induction K arbitrary: j l)
  case 0
  then show ?case by simp
next
  case (Suc K)
  let ?t = "l + j * 2 ^ Suc e + (2 ^ e - 1)"
  have pe: "(1 :: nat) \<le> 2 ^ e" by simp
  show ?case
  proof (cases "e = Suc K")
    case True
    then show ?thesis using Suc.prems(2) by simp
  next
    case False
    then have e: "e \<le> K" using Suc.prems(1) by simp
    have half: "(2 :: nat) ^ (K - e) * 2 ^ Suc e = 2 ^ Suc K" using e by (simp flip: power_add)
    show ?thesis
    proof (cases "j < 2 ^ (K - e)")
      case True
      then have "(j + 1) * 2 ^ Suc e \<le> 2 ^ (K - e) * 2 ^ Suc e" by (intro mult_right_mono) auto
      then have "j * 2 ^ Suc e + 2 ^ Suc e \<le> 2 ^ Suc K" unfolding half by (simp add: add_mult_distrib)
      moreover have "(2 :: nat) ^ e < 2 ^ Suc e" by simp
      ultimately have "?t + 1 < l + 2 ^ Suc K" using pe by linarith
      then show ?thesis using Suc.IH [OF e True, of l] e by (simp add: Suc_diff_le)
    next
      case F: False
      define i where "i = j - 2 ^ (K - e)"
      have j: "j = 2 ^ (K - e) + i" using F by (simp add: i_def)
      have i: "i < 2 ^ (K - e)" using Suc.prems(2) e j by (simp add: Suc_diff_le)
      have t: "?t = (l + 2 ^ Suc K) + i * 2 ^ Suc e + (2 ^ e - 1)" unfolding j add_mult_distrib half by simp
      have "\<not> ?t + 1 \<le> l + 2 ^ Suc K" unfolding t using pe by linarith
      then show ?thesis using Suc.IH [OF e i, of "l + 2 ^ Suc K"] e unfolding t by (simp add: Suc_diff_le del: power_Suc)
    qed
  qed
qed

text \<open>C25: serial numbers and register numbers correspond one to one, the error code apart, and the serial
  numbers count the registers by their depth in the tree: register number \<open>serial_to_regid s\<close> is as many
  steps below the root as the logarithm of \<open>s + 1\<close> says.\<close>

theorem serial_regid_roundtrip:
  assumes "s \<noteq> - 1"
  shows "pss_frame_serial_to_regid s \<noteq> - 1 \<and> pss_frame_regid_to_serial (pss_frame_serial_to_regid s) = s
    \<and> pss_frame_serial_to_regid (pss_frame_regid_to_serial s) = s
    \<and> length (dirs 16 0 (unat (pss_frame_serial_to_regid s))) = log2_loop (1 + unat s)"
proof -
  have fwd: "pss_frame_serial_to_regid s \<noteq> - 1 \<and> pss_frame_regid_to_serial (pss_frame_serial_to_regid s) = s
      \<and> length (dirs 16 0 (unat (pss_frame_serial_to_regid s))) = log2_loop (1 + unat s)" if s: "s \<noteq> - 1" for s
  proof -
    obtain k j where k: "k \<le> 15" "j < 2 ^ k" "unat s + 1 = 2 ^ k + j" "log2_loop (1 + unat s) = k" using serial_split [OF s] by blast
    note r = regid_value [OF k(1-3)]
    have inv: "pss_frame_regid_to_serial (pss_frame_serial_to_regid s) = s"
      using serial_value [OF k(1,2) r] k(3) by (simp add: word_unat_eq_iff)
    have len: "length (dirs 16 0 (unat (pss_frame_serial_to_regid s))) = k"
    proof -
      have "16 - k = Suc (15 - k)" "15 - (15 - k) = k" using k(1) by simp_all
      then show ?thesis using depth_value [of "15 - k" 15 j 0] k(2) unfolding r by (simp del: power_Suc)
    qed
    have ne: "pss_frame_serial_to_regid s \<noteq> - 1"
    proof
      assume m: "pss_frame_serial_to_regid s = - 1"
      have "(j + 1) * 2 ^ (16 - k) \<le> 2 ^ k * 2 ^ (16 - k)" using k(2) by (intro mult_right_mono) auto
      also have "\<dots> = 65536" using k(1) by (simp flip: power_add)
      finally have "j * 2 ^ (16 - k) + 2 ^ (16 - k) \<le> 65536" by simp
      moreover have "(2 :: nat) ^ (16 - k) = 2 * 2 ^ (15 - k)" using k(1) by (simp flip: power_Suc add: Suc_diff_le [symmetric])
      moreover have "(1 :: nat) \<le> 2 ^ (15 - k)" by simp
      ultimately show False using r unfolding m unat_error_id by linarith
    qed
    then show ?thesis using inv len k(4) by simp
  qed
  have "pss_frame_serial_to_regid ` {s. s \<noteq> - 1} = {s. s \<noteq> - 1}"
  proof (rule endo_inj_surj)
    show "inj_on pss_frame_serial_to_regid {s. s \<noteq> - 1}" using fwd by (metis (mono_tags, lifting) inj_onI mem_Collect_eq)
  qed (use fwd in auto)
  then obtain u where "u \<noteq> - 1" "s = pss_frame_serial_to_regid u" using assms by (metis (mono_tags, lifting) imageE mem_Collect_eq)
  then show ?thesis using fwd [OF assms] fwd [of u] by simp
qed

theorem serial_regid_roundtrip_witness:
  "pss_frame_regid_to_serial (pss_frame_serial_to_regid 5) = 5 \<and> pss_frame_serial_to_regid (pss_frame_regid_to_serial 5) = 5"
  using serial_regid_roundtrip [of 5] by simp

end
