(* ===== verification/PssLex.thy ===== *)
theory PssLex
  imports Prelude
begin

text \<open>
  The lexer of the service scripts (\<^verbatim>\<open>lib/pss/comp/lex.c\<close>) and the printer of string literals
  (\<^verbatim>\<open>lib/pss/string.c\<close>). Characters are bytes; the code reads them as \<^verbatim>\<open>char\<close>, which is signed, into an
  \<^verbatim>\<open>int\<close>, so a byte from 128 on is negative and the byte 255 is the error code. A number that does not fit
  its type is a signed overflow, which is undefined. Positions and line numbers are naturals: they are
  bounded by the size of the script, a 32-bit number, and a position plus the length of a keyword wraps only
  for a script within a few bytes of 4 GiB.
\<close>

subsection \<open>Characters\<close>

definition ci :: "char \<Rightarrow> int" where
  "ci c = (let n = of_char c in if n < 128 then n else n - 256)"

definition to_char :: "int \<Rightarrow> char" where
  "to_char n = char_of (n mod 256)"

abbreviation TAB :: char where "TAB \<equiv> CHR 0x09"
abbreviation LF :: char where "LF \<equiv> CHR 0x0A"
abbreviation CR :: char where "CR \<equiv> CHR 0x0D"
abbreviation QUOTE :: char where "QUOTE \<equiv> CHR 0x22"
abbreviation APOSTROPHE :: char where "APOSTROPHE \<equiv> CHR 0x27"
abbreviation BACKSLASH :: char where "BACKSLASH \<equiv> CHR 0x5C"

subsection \<open>The lexer object\<close>

record lexer =
  lx_error :: bool
  lx_line :: nat
  lx_offset :: nat
  lx_next :: nat
  lx_errstr :: string
  lx_filename :: string
  lx_buffer :: string

definition PATH_MAX :: nat where "PATH_MAX = 4096"

definition pss_comp_lex_new :: "bool \<Rightarrow> string \<Rightarrow> string option \<Rightarrow> lexer option" where
  "pss_comp_lex_new mem filename buffer = (case buffer of None \<Rightarrow> None
     | Some b \<Rightarrow> if \<not> mem then None
         else Some \<lparr>lx_error = False, lx_line = 0, lx_offset = 0, lx_next = 0, lx_errstr = [], lx_filename = take PATH_MAX filename, lx_buffer = b\<rparr>)"

definition peek :: "lexer \<Rightarrow> nat \<Rightarrow> int" where
  "peek lx n = (if lx_next lx + n \<ge> length (lx_buffer lx) then -1
     else let c = ci (lx_buffer lx ! (lx_next lx + n)) in if c = 0 then -1 else c)"

fun consume :: "lexer \<Rightarrow> nat \<Rightarrow> lexer" where
  "consume lx 0 = lx"
| "consume lx (Suc n) =
     (if lx_next lx \<ge> length (lx_buffer lx) then lx
      else let c = lx_buffer lx ! lx_next lx; lx = lx\<lparr>lx_next := lx_next lx + 1, lx_offset := lx_offset lx + 1\<rparr> in
        consume (if c = CR \<and> peek lx 0 \<noteq> ci LF \<or> c = LF then lx\<lparr>lx_offset := 0, lx_line := lx_line lx + 1\<rparr> else lx) n)"

definition lex_fail :: "string \<Rightarrow> lexer \<Rightarrow> lexer" where
  "lex_fail msg lx = lx\<lparr>lx_error := True, lx_errstr := msg\<rparr>"

text \<open>What is left of the buffer: every loop below takes some of it.\<close>

abbreviation left :: "lexer \<Rightarrow> nat" where
  "left lx \<equiv> length (lx_buffer lx) - lx_next lx"

lemma consume_one_left: "peek lx 0 \<noteq> -1 \<Longrightarrow> left (consume lx 1) < left lx"
  by (auto simp: peek_def Let_def split: if_splits)

lemma consume_buffer: "lx_buffer (consume lx n) = lx_buffer lx"
  by (induction lx n rule: consume.induct) (simp_all add: Let_def)

lemma consume_next: "lx_next (consume lx n) = max (lx_next lx) (min (lx_next lx + n) (length (lx_buffer lx)))"
  by (induction lx n rule: consume.induct) (auto simp: Let_def)

declare consume.simps(2) [simp del]

subsection \<open>White space and comments\<close>

function skip_ws :: "lexer \<Rightarrow> lexer" where
  "skip_ws lx = (if peek lx 0 \<in> {ci TAB, ci CHR '' '', ci CR, ci LF} then skip_ws (consume lx 1) else lx)"
  by pat_completeness auto

termination
  by (relation "measure left") (use consume_one_left in \<open>auto simp: ci_def\<close>)

function skip_line :: "nat \<Rightarrow> lexer \<Rightarrow> lexer" where
  "skip_line current lx = (if current = lx_line lx \<and> peek lx 0 \<noteq> -1 then skip_line current (consume lx 1) else lx)"
  by pat_completeness auto

termination
  by (relation "measure (\<lambda>(_, lx). left lx)") (use consume_one_left in auto)

definition comment_state :: "nat \<Rightarrow> int \<Rightarrow> nat" where
  "comment_state st ch = (if st = 0 \<and> ch = ci CHR ''*'' then 1
     else if st = 1 then (if ch = ci CHR ''/'' then 2 else if ch \<noteq> ci CHR ''*'' then 0 else 1) else 0)"

function comment_loop :: "nat \<Rightarrow> lexer \<Rightarrow> nat \<times> lexer" where
  "comment_loop st lx = (if st = 2 \<or> peek lx 0 = -1 then (st, lx) else comment_loop (comment_state st (peek lx 0)) (consume lx 1))"
  by pat_completeness auto

termination
  by (relation "measure (\<lambda>(_, lx). left lx)") (use consume_one_left in auto)

declare skip_ws.simps [simp del] skip_line.simps [simp del] comment_loop.simps [simp del]

lemma skip_ws_left: "left (skip_ws lx) \<le> left lx"
proof (induction lx rule: skip_ws.induct)
  case (1 lx)
  show ?case
  proof (cases "peek lx 0 \<in> {ci TAB, ci CHR '' '', ci CR, ci LF}")
    case True
    then have "peek lx 0 \<noteq> -1" by (auto simp: ci_def)
    then show ?thesis using 1 [OF True] True consume_one_left [of lx] by (simp add: skip_ws.simps [of lx])
  next
    case False
    then show ?thesis by (simp add: skip_ws.simps [of lx])
  qed
qed

lemma skip_line_left: "left (skip_line k lx) \<le> left lx"
proof (induction k lx rule: skip_line.induct)
  case (1 k lx)
  then show ?case using consume_one_left [of lx] by (auto simp: skip_line.simps [of k lx])
qed

lemma skip_line_less: "peek lx 0 \<noteq> -1 \<Longrightarrow> left (skip_line (lx_line lx) lx) < left lx"
  using consume_one_left [of lx] skip_line_left [of "lx_line lx" "consume lx 1"] by (simp add: skip_line.simps [of _ lx])

lemma comment_loop_left: "left (snd (comment_loop st lx)) \<le> left lx"
proof (induction st lx rule: comment_loop.induct)
  case (1 st lx)
  then show ?case using consume_one_left [of lx] by (auto simp: comment_loop.simps [of st lx])
qed

lemma comment_less: "peek lx 0 \<noteq> -1 \<Longrightarrow> left (snd (comment_loop st (consume lx 2))) < left lx"
proof -
  assume "peek lx 0 \<noteq> -1"
  then have "left (consume lx 2) < left lx" by (auto simp: consume_buffer consume_next peek_def split: if_splits)
  then show ?thesis using comment_loop_left [of st "consume lx 2"] by simp
qed

text \<open>\<open>False\<close>: the script ends within a comment.\<close>

function comments_or_ws :: "lexer \<Rightarrow> bool \<times> lexer" where
  "comments_or_ws lx =
     (let lx = skip_ws lx in
      if peek lx 0 = ci CHR ''#'' then comments_or_ws (skip_line (lx_line lx) lx)
      else if peek lx 0 = ci CHR ''/'' then
        (if peek lx 1 = ci CHR ''/'' then comments_or_ws (skip_line (lx_line lx) lx)
         else if peek lx 1 = ci CHR ''*'' then
           (case comment_loop 0 (consume lx 2) of (st, lx) \<Rightarrow>
              if st \<noteq> 2 then (False, lex_fail ''Unexpected EOF in comment block'' lx) else comments_or_ws lx)
         else (True, lx))
      else (True, lx))"
  by pat_completeness auto

termination
proof (relation "measure left", goal_cases)
  case (2 lx x)
  then have "peek x 0 \<noteq> -1" by (simp add: ci_def)
  then show ?case using skip_line_less [of x] skip_ws_left [of lx] 2(1) by simp
next
  case (3 lx x)
  then have "peek x 0 \<noteq> -1" by (simp add: ci_def)
  then show ?case using skip_line_less [of x] skip_ws_left [of lx] 3(1) by simp
next
  case (4 lx x st y)
  then have "peek x 0 \<noteq> -1" by (simp add: ci_def)
  then show ?case using comment_less [of x 0] skip_ws_left [of lx] 4 by (metis in_measure le_trans less_le_trans not_le snd_conv)
qed simp

declare comments_or_ws.simps [simp del]

subsection \<open>Words and numbers\<close>

definition in_range :: "char \<Rightarrow> char \<Rightarrow> int \<Rightarrow> bool" where
  "in_range a b ch \<longleftrightarrow> ci a \<le> ch \<and> ch \<le> ci b"

definition in_id_charset :: "int \<Rightarrow> bool" where
  "in_id_charset ch \<longleftrightarrow> in_range CHR ''a'' CHR ''z'' ch \<or> in_range CHR ''A'' CHR ''Z'' ch \<or> in_range CHR ''0'' CHR ''9'' ch
     \<or> ch = ci CHR ''_'' \<or> ch = ci CHR ''$'' \<or> ch = ci CHR ''.''"

definition hex_digit_to_val :: "int \<Rightarrow> int" where
  "hex_digit_to_val ch = (if in_range CHR ''a'' CHR ''f'' ch then 10 + ch - ci CHR ''a''
     else if in_range CHR ''A'' CHR ''F'' ch then 10 + ch - ci CHR ''A''
     else if in_range CHR ''0'' CHR ''9'' ch then ch - ci CHR ''0'' else -1)"

definition dec_digit_to_val :: "int \<Rightarrow> int" where
  "dec_digit_to_val ch = (if in_range CHR ''0'' CHR ''9'' ch then ch - ci CHR ''0'' else -1)"

definition oct_digit_to_val :: "int \<Rightarrow> int" where
  "oct_digit_to_val ch = (if in_range CHR ''0'' CHR ''7'' ch then ch - ci CHR ''0'' else -1)"

fun match_from :: "lexer \<Rightarrow> nat \<Rightarrow> string \<Rightarrow> bool" where
  "match_from lx i [] = (\<not> in_id_charset (peek lx i))"
| "match_from lx i (c # cs) = (if peek lx i \<noteq> ci c then False else match_from lx (Suc i) cs)"

definition match_word :: "lexer \<Rightarrow> string \<Rightarrow> lexer option" where
  "match_word lx str = (if match_from lx 0 str then Some (consume lx (length str)) else None)"

datatype keyword = KEYWORD_IN | KEYWORD_IF | KEYWORD_ELSE | KEYWORD_FUNCTION | KEYWORD_VAR | KEYWORD_WHILE | KEYWORD_FOR
  | KEYWORD_BREAK | KEYWORD_CONTINUE | KEYWORD_RETURN | KEYWORD_UNDEFINED

text \<open>The keywords in the order in which they are tried.\<close>

definition keyword_table :: "(string \<times> keyword) list" where
  "keyword_table = [(''in'', KEYWORD_IN), (''if'', KEYWORD_IF), (''else'', KEYWORD_ELSE), (''var'', KEYWORD_VAR), (''while'', KEYWORD_WHILE),
     (''for'', KEYWORD_FOR), (''break'', KEYWORD_BREAK), (''continue'', KEYWORD_CONTINUE), (''undefined'', KEYWORD_UNDEFINED),
     (''function'', KEYWORD_FUNCTION), (''return'', KEYWORD_RETURN)]"

fun find_keyword :: "lexer \<Rightarrow> (string \<times> keyword) list \<Rightarrow> (keyword \<times> lexer) option" where
  "find_keyword lx [] = None"
| "find_keyword lx ((str, k) # ks) = (case match_word lx str of Some lx' \<Rightarrow> Some (k, lx') | None \<Rightarrow> find_keyword lx ks)"

lemma id_charset_peek: "in_id_charset (peek lx 0) \<Longrightarrow> peek lx 0 \<noteq> -1"
  by (auto simp: in_id_charset_def in_range_def ci_def)

text \<open>A character goes into a buffer while there is room for it and the terminator.\<close>

definition put_char :: "int \<Rightarrow> string \<times> nat \<Rightarrow> string \<times> nat" where
  "put_char ch ob = (case ob of (out, sz) \<Rightarrow> if sz > 1 then (out @ [to_char ch], sz - 1) else (out, sz))"

function id_loop :: "string \<times> nat \<Rightarrow> lexer \<Rightarrow> string \<times> lexer" where
  "id_loop ob lx = (if in_id_charset (peek lx 0) then id_loop (put_char (peek lx 0) ob) (consume lx 1) else (fst ob, lx))"
  by pat_completeness auto

termination
  by (relation "measure (\<lambda>(_, lx). left lx)") (use consume_one_left id_charset_peek in auto)

definition id_or_keyword :: "nat \<Rightarrow> lexer \<Rightarrow> (keyword + string) \<times> lexer" where
  "id_or_keyword sz lx = (case find_keyword lx keyword_table of Some (k, lx) \<Rightarrow> (Inl k, lx)
     | None \<Rightarrow> (case id_loop ([], sz) lx of (s, lx) \<Rightarrow> (Inr s, if s = [] then lex_fail ''Invalid identifier'' lx else lx)))"

datatype radix = Hex | Dec | Oct

fun radix_val :: "radix \<Rightarrow> int" where
  "radix_val Hex = 16" | "radix_val Dec = 10" | "radix_val Oct = 8"

fun digit_val :: "radix \<Rightarrow> int \<Rightarrow> int" where
  "digit_val Hex ch = hex_digit_to_val ch"
| "digit_val Dec ch = dec_digit_to_val ch"
| "digit_val Oct ch = oct_digit_to_val ch"

lemma digit_val_peek: "digit_val b (peek lx 0) \<noteq> -1 \<Longrightarrow> peek lx 0 \<noteq> -1"
  by (cases b) (auto simp: hex_digit_to_val_def dec_digit_to_val_def oct_digit_to_val_def in_range_def ci_def)

text \<open>\<open>n\<close> is the value so far, of type \<^verbatim>\<open>int64_t\<close>; the flag says whether there was a digit.\<close>

function num_loop :: "radix \<Rightarrow> int \<Rightarrow> bool \<Rightarrow> lexer \<Rightarrow> (int \<times> bool \<times> lexer) result" where
  "num_loop b n valid lx =
     (if digit_val b (peek lx 0) = -1 then Ok (n, valid, lx)
      else let n = n * radix_val b + digit_val b (peek lx 0) in if n \<ge> 2 ^ 63 then Undef else num_loop b n True (consume lx 1))"
  by pat_completeness auto

termination
  by (relation "measure (\<lambda>(_, _, _, lx). left lx)") (use consume_one_left digit_val_peek in auto)

text \<open>Whether there is a number, and its value if one was stored.\<close>

definition lex_num :: "lexer \<Rightarrow> (bool \<times> int option \<times> lexer) result" where
  "lex_num lx =
     (if peek lx 0 = ci CHR ''0'' then
        (if peek lx 1 = ci CHR ''x'' then rmap (\<lambda>(n, valid, lx). (valid, Some n, lx)) (num_loop Hex 0 False (consume lx 2))
         else if oct_digit_to_val (peek lx 1) \<noteq> -1 then
           rmap (\<lambda>(n, _, lx). (True, Some n, lx)) (num_loop Oct (oct_digit_to_val (peek lx 1)) True (consume lx 2))
         else Ok (True, Some 0, consume lx 1))
      else if dec_digit_to_val (peek lx 0) \<noteq> -1 then
        rmap (\<lambda>(n, _, lx). (True, Some n, lx)) (num_loop Dec (dec_digit_to_val (peek lx 0)) True (consume lx 1))
      else Ok (True, None, lx))"

declare id_loop.simps [simp del] num_loop.simps [simp del]

subsection \<open>Strings\<close>

datatype str_state = NORMAL_STR | ESC_BEGIN | ESC_OCT_1 | ESC_OCT_2 | ESC_HEX | STR_END | STR_ERROR

definition escapes :: "(char \<times> char) list" where
  "escapes = [(CHR ''a'', CHR 0x07), (CHR ''b'', CHR 0x08), (CHR ''f'', CHR 0x0C), (CHR ''n'', LF), (CHR ''r'', CR), (CHR ''t'', TAB),
     (CHR ''v'', CHR 0x0B), (BACKSLASH, BACKSLASH), (APOSTROPHE, APOSTROPHE), (CHR ''?'', CHR ''?''), (QUOTE, QUOTE)]"

text \<open>
  One pass of the switch: the next state, the value of the escape sequence (of type \<^verbatim>\<open>int\<close>), the
  character to store (-1 for none) and whether the input character is to be looked at again.
\<close>

definition oct_switch :: "bool \<Rightarrow> int \<Rightarrow> int \<Rightarrow> str_state \<times> int \<times> int \<times> bool" where
  "oct_switch fin e ch =
     (if in_range CHR ''0'' CHR ''8'' ch
      then let e = e * 8 + oct_digit_to_val ch in if fin then (NORMAL_STR, e, e, False) else (ESC_OCT_2, e, -1, False)
      else (NORMAL_STR, e, e, True))"

definition str_switch :: "bool \<Rightarrow> str_state \<Rightarrow> int \<Rightarrow> int \<Rightarrow> (str_state \<times> int \<times> int \<times> bool) result" where
  "str_switch esc st e ch = (case st of
     NORMAL_STR \<Rightarrow> Ok (if ch = ci BACKSLASH \<and> esc then (ESC_BEGIN, e, -1, False)
        else if ch = ci QUOTE then (STR_END, e, -1, False) else (NORMAL_STR, e, ch, False))
   | ESC_BEGIN \<Rightarrow> Ok (case find (\<lambda>(c, _). ch = ci c) escapes of
        Some (_, d) \<Rightarrow> (NORMAL_STR, e, ci d, False)
      | None \<Rightarrow> if in_range CHR ''0'' CHR ''8'' ch then (ESC_OCT_1, oct_digit_to_val ch, -1, False)
          else if ch = ci CHR ''x'' then (ESC_HEX, 0, -1, False) else (STR_ERROR, e, -1, False))
   | ESC_OCT_1 \<Rightarrow> Ok (oct_switch False e ch)
   | ESC_OCT_2 \<Rightarrow> Ok (oct_switch True e ch)
   | ESC_HEX \<Rightarrow> if hex_digit_to_val ch \<noteq> -1
       then let e = e * 16 + hex_digit_to_val ch in if e \<ge> 2 ^ 31 then Undef else Ok (ESC_HEX, e, -1, False)
       else Ok (NORMAL_STR, e, e, True)
   | STR_END \<Rightarrow> Ok (STR_END, e, -1, False)
   | STR_ERROR \<Rightarrow> Ok (STR_ERROR, e, -1, False))"

text \<open>
  The work on one input character. It is looked at again only after a character was stored, and then in the
  normal state, which does not ask for a third look.
\<close>

definition str_char :: "bool \<Rightarrow> str_state \<Rightarrow> int \<Rightarrow> string \<times> nat \<Rightarrow> int \<Rightarrow> (str_state \<times> int \<times> string \<times> nat) result" where
  "str_char esc st e ob ch = rbind (str_switch esc st e ch) (\<lambda>(st, e, u, again).
     if u < 0 then Ok (st, e, ob)
     else if \<not> again then Ok (st, e, put_char u ob)
     else rmap (\<lambda>(st, e, v, _). (st, e, if v < 0 then put_char u ob else put_char v (put_char u ob))) (str_switch esc st e ch))"

function str_loop :: "bool \<Rightarrow> str_state \<Rightarrow> int \<Rightarrow> string \<times> nat \<Rightarrow> lexer \<Rightarrow> (str_state \<times> string \<times> lexer) result" where
  "str_loop esc st e ob lx =
     (if st = STR_END \<or> st = STR_ERROR \<or> peek lx 0 = -1 then Ok (st, fst ob, lx)
      else case str_char esc st e ob (peek lx 0) of Error \<Rightarrow> Error | Undef \<Rightarrow> Undef
        | Ok (st, e, ob) \<Rightarrow> str_loop esc st e ob (consume (if st = STR_ERROR then lex_fail ''Invalid escape sequence'' lx else lx) 1))"
  by pat_completeness auto

termination
proof (relation "measure (\<lambda>(_, _, _, _, lx). left lx)", goal_cases)
  case (2 esc st e ob lx z st' y e' ob')
  have "peek (lex_fail m lx) 0 = peek lx 0" "left (lex_fail m lx) = left lx" for m by (simp_all add: lex_fail_def peek_def)
  then show ?case using 2 consume_one_left [of lx] consume_one_left [of "lex_fail ''Invalid escape sequence'' lx"] by auto
qed simp

definition lex_str :: "nat \<Rightarrow> bool \<Rightarrow> lexer \<Rightarrow> (bool \<times> string \<times> lexer) result" where
  "lex_str sz esc lx = (if peek lx 0 \<noteq> ci QUOTE then Ok (False, [], lx)
     else rmap (\<lambda>(st, s, lx). (st \<noteq> STR_ERROR, s, lx)) (str_loop esc NORMAL_STR 0 ([], sz) (consume lx 1)))"

declare str_loop.simps [simp del]

text \<open>A property in the language of graphviz, with brackets counted outside of its strings.\<close>

datatype dot_state = DOT_CODE | DOT_STRING | DOT_ESC

definition dot_switch :: "dot_state \<Rightarrow> int \<Rightarrow> int \<Rightarrow> dot_state \<times> int \<times> bool" where
  "dot_switch st level ch = (case st of
     DOT_CODE \<Rightarrow> if ch = ci QUOTE then (DOT_STRING, level, True)
       else if ch = ci CHR ''['' then (DOT_CODE, level + 1, level \<ge> 0)
       else if ch = ci CHR '']'' then (DOT_CODE, level - 1, \<not> level \<le> 1) else (DOT_CODE, level, True)
   | DOT_STRING \<Rightarrow> (if ch = ci BACKSLASH then DOT_ESC else if ch = ci QUOTE then DOT_CODE else DOT_STRING, level, True)
   | DOT_ESC \<Rightarrow> (DOT_STRING, level, True))"

function dot_loop :: "dot_state \<Rightarrow> int \<Rightarrow> bool \<Rightarrow> string \<times> nat \<Rightarrow> lexer \<Rightarrow> bool \<times> string \<times> lexer" where
  "dot_loop st level pos ob lx =
     (if peek lx 0 = -1 \<or> \<not> pos then (pos, fst ob, lx)
      else case dot_switch st level (peek lx 0) of (st, level, pos) \<Rightarrow>
        dot_loop st level pos (if pos then put_char (peek lx 0) ob else ob) (consume lx 1))"
  by pat_completeness auto

termination
  by (relation "measure (\<lambda>(_, _, _, _, lx). left lx)") (use consume_one_left in auto)

definition graphviz_prop :: "nat \<Rightarrow> lexer \<Rightarrow> bool \<times> string \<times> lexer" where
  "graphviz_prop sz lx = (if peek lx 0 \<noteq> ci CHR ''@'' \<or> peek lx 1 \<noteq> ci CHR ''['' then (False, [], lx)
     else case dot_loop DOT_CODE 1 True ([], sz) (consume lx 2) of (pos, s, lx) \<Rightarrow> (\<not> pos, s, lx))"

declare dot_loop.simps [simp del]

subsection \<open>Tokens\<close>

datatype token_type = TOKEN_NAT | TOKEN_ERROR | TOKEN_KEYWORD | TOKEN_IDENTIFIER | TOKEN_INTEGER | TOKEN_STRING | TOKEN_EQUAL | TOKEN_COLON
  | TOKEN_COLON_EQUAL | TOKEN_LPARENTHESIS | TOKEN_RPARENTHESIS | TOKEN_GRAPHVIZ_PROP | TOKEN_LBRACKET | TOKEN_RBRACKET | TOKEN_LBRACE
  | TOKEN_RBRACE | TOKEN_LT | TOKEN_LE | TOKEN_GT | TOKEN_TRIPLE_GT | TOKEN_GE | TOKEN_EQUALEQUAL | TOKEN_NE | TOKEN_NOT | TOKEN_AND | TOKEN_OR
  | TOKEN_ARROW | TOKEN_SEMICOLON | TOKEN_ADD | TOKEN_ADD_EQUAL | TOKEN_INCREASE | TOKEN_MINUS | TOKEN_MINUS_EQUAL | TOKEN_DECREASE
  | TOKEN_TIMES | TOKEN_TIMES_EQUAL | TOKEN_DIVIDE | TOKEN_DIVIDE_EQUAL | TOKEN_MODULAR | TOKEN_MODULAR_EQUAL | TOKEN_COMMA | TOKEN_EOF

text \<open>What the union of the token holds.\<close>

datatype token_value = NoVal | IntVal int | StrVal string | ErrVal string | KeyVal keyword

record lex_token =
  tk_file :: string
  tk_line :: nat
  tk_offset :: nat
  tk_type :: token_type
  tk_value :: token_value

definition TOKEN_SIZE :: nat where "TOKEN_SIZE = 4096"

definition take_op :: "nat \<Rightarrow> token_type \<Rightarrow> lexer \<Rightarrow> lex_token \<Rightarrow> (lexer \<times> lex_token) result" where
  "take_op n ty lx tok = Ok (consume lx n, tok\<lparr>tk_type := ty\<rparr>)"

definition fail_op :: "string \<Rightarrow> token_type \<Rightarrow> lexer \<Rightarrow> lex_token \<Rightarrow> (lexer \<times> lex_token) result" where
  "fail_op msg ty lx tok = Ok (lex_fail msg lx, tok\<lparr>tk_type := ty\<rparr>)"

definition single_tokens :: "(char \<times> token_type) list" where
  "single_tokens = [(CHR ''('', TOKEN_LPARENTHESIS), (CHR '')'', TOKEN_RPARENTHESIS), (CHR ''{'', TOKEN_LBRACE), (CHR ''}'', TOKEN_RBRACE),
     (CHR '';'', TOKEN_SEMICOLON), (CHR '','', TOKEN_COMMA), (CHR ''['', TOKEN_LBRACKET), (CHR '']'', TOKEN_RBRACKET)]"

definition op_token :: "int \<Rightarrow> lexer \<Rightarrow> lex_token \<Rightarrow> (lexer \<times> lex_token) result option" where
  "op_token ch lx tok =
     (let nxt = peek lx 1 in
      if ch = ci CHR ''&'' then Some (if nxt = ci CHR ''&'' then take_op 2 TOKEN_AND lx tok else fail_op ''Invalid token'' TOKEN_AND lx tok)
      else if ch = ci CHR ''|'' then Some (if nxt = ci CHR ''|'' then take_op 2 TOKEN_OR lx tok else fail_op ''Invalid token'' TOKEN_OR lx tok)
      else if ch = ci CHR ''!'' then Some (if nxt = ci CHR ''='' then take_op 2 TOKEN_NE lx tok else take_op 1 TOKEN_NOT lx tok)
      else if ch = ci CHR ''='' then Some (if nxt = ci CHR ''='' then take_op 2 TOKEN_EQUALEQUAL lx tok else take_op 1 TOKEN_EQUAL lx tok)
      else if ch = ci CHR ''>'' then Some (if nxt = ci CHR ''='' then take_op 2 TOKEN_GE lx tok
        else if nxt = ci CHR ''>'' \<and> peek lx 2 = ci CHR ''>'' then take_op 3 TOKEN_TRIPLE_GT lx tok else take_op 1 TOKEN_GT lx tok)
      else if ch = ci CHR ''<'' then Some (if nxt = ci CHR ''='' then take_op 2 TOKEN_LE lx tok else take_op 1 TOKEN_LT lx tok)
      else if ch = ci CHR '':'' then Some (if nxt = ci CHR ''='' then take_op 2 TOKEN_COLON_EQUAL lx tok else take_op 1 TOKEN_COLON lx tok)
      else if ch = ci CHR ''+'' then Some (if nxt = ci CHR ''+'' then take_op 2 TOKEN_INCREASE lx tok
        else if nxt = ci CHR ''='' then take_op 2 TOKEN_ADD_EQUAL lx tok else take_op 1 TOKEN_ADD lx tok)
      else if ch = ci CHR ''-'' then Some (if nxt = ci CHR ''>'' then take_op 2 TOKEN_ARROW lx tok
        else if nxt = ci CHR ''-'' then take_op 2 TOKEN_DECREASE lx tok
        else if nxt = ci CHR ''='' then take_op 2 TOKEN_MINUS_EQUAL lx tok else take_op 1 TOKEN_MINUS lx tok)
      else if ch = ci CHR ''*'' then Some (if nxt = ci CHR ''='' then take_op 2 TOKEN_TIMES_EQUAL lx tok else take_op 1 TOKEN_TIMES lx tok)
      else if ch = ci CHR ''/'' then Some (if nxt = ci CHR ''='' then take_op 2 TOKEN_DIVIDE_EQUAL lx tok else take_op 1 TOKEN_DIVIDE lx tok)
      else if ch = ci CHR ''%'' then Some (if nxt = ci CHR ''='' then take_op 2 TOKEN_MODULAR_EQUAL lx tok else take_op 1 TOKEN_MODULAR lx tok)
      else None)"

definition str_token :: "bool \<Rightarrow> lexer \<Rightarrow> lex_token \<Rightarrow> (lexer \<times> lex_token) result" where
  "str_token esc lx tok = rmap (\<lambda>(ok, s, lx). (if ok then lx else lex_fail ''Invalid string'' lx, tok\<lparr>tk_type := TOKEN_STRING, tk_value := StrVal s\<rparr>))
     (lex_str TOKEN_SIZE esc lx)"

definition at_token :: "lexer \<Rightarrow> lex_token \<Rightarrow> (lexer \<times> lex_token) result" where
  "at_token lx tok =
     (if peek lx 1 = ci CHR ''['' then
        (case graphviz_prop TOKEN_SIZE lx of (ok, s, lx) \<Rightarrow>
           Ok (if ok then lx else lex_fail ''Invalid Graphviz property'' lx, tok\<lparr>tk_type := TOKEN_GRAPHVIZ_PROP, tk_value := StrVal s\<rparr>))
      else if peek lx 1 = ci QUOTE then str_token False (consume lx 1) tok
      else fail_op ''Invalid token'' TOKEN_GRAPHVIZ_PROP lx tok)"

definition num_token :: "lexer \<Rightarrow> lex_token \<Rightarrow> (lexer \<times> lex_token) result" where
  "num_token lx tok = rmap (\<lambda>(ok, n, lx). (if ok then lx else lex_fail ''Invalid number'' lx,
     tok\<lparr>tk_type := TOKEN_INTEGER, tk_value := (case n of None \<Rightarrow> tk_value tok | Some n \<Rightarrow> IntVal n)\<rparr>)) (lex_num lx)"

definition word_token :: "lexer \<Rightarrow> lex_token \<Rightarrow> (lexer \<times> lex_token) result" where
  "word_token lx tok = (case id_or_keyword TOKEN_SIZE lx of
     (Inl k, lx) \<Rightarrow> Ok (lx, tok\<lparr>tk_type := TOKEN_KEYWORD, tk_value := KeyVal k\<rparr>)
   | (Inr s, lx) \<Rightarrow> Ok (lx, tok\<lparr>tk_type := TOKEN_IDENTIFIER, tk_value := StrVal s\<rparr>))"

definition token_switch :: "lexer \<Rightarrow> lex_token \<Rightarrow> (lexer \<times> lex_token) result" where
  "token_switch lx tok =
     (let ch = peek lx 0 in
      if ch = -1 then take_op 1 TOKEN_EOF lx tok
      else case find (\<lambda>(c, _). ch = ci c) single_tokens of Some (_, ty) \<Rightarrow> take_op 1 ty lx tok
      | None \<Rightarrow> (case op_token ch lx tok of Some r \<Rightarrow> r
        | None \<Rightarrow>
            if ch = ci CHR ''@'' then at_token lx tok
            else if ch = ci QUOTE then str_token True lx tok
            else if in_range CHR ''0'' CHR ''9'' ch then num_token lx tok
            else word_token lx tok))"

text \<open>When a comment does not end, the token is left as it was and the error is reported by the next call.\<close>

definition pss_comp_lex_next_token :: "lexer \<Rightarrow> lex_token \<Rightarrow> (lexer \<times> lex_token) result" where
  "pss_comp_lex_next_token lx tok = (case comments_or_ws lx of
     (False, lx) \<Rightarrow> Ok (lex_fail ''Invalid comment block, unexpected EOF'' lx, tok)
   | (True, lx) \<Rightarrow> rmap (\<lambda>(lx, tok).
         if lx_error lx then (lx\<lparr>lx_error := False\<rparr>, tok\<lparr>tk_type := TOKEN_ERROR, tk_value := ErrVal (lx_errstr lx)\<rparr>) else (lx, tok))
       (token_switch lx (tok\<lparr>tk_file := lx_filename lx, tk_line := lx_line lx, tk_offset := lx_offset lx\<rparr>)))"

subsection \<open>Printing strings\<close>

definition esc_code :: "char \<Rightarrow> char option" where
  "esc_code c = map_option fst (find (\<lambda>(_, d). c = d) escapes)"

definition literal_size :: "string \<Rightarrow> nat" where
  "literal_size str = sum_list (map (\<lambda>c. if esc_code c = None then 1 else 2) str)"

definition literal_char :: "char \<Rightarrow> string" where
  "literal_char c = (case esc_code c of None \<Rightarrow> [c] | Some d \<Rightarrow> [BACKSLASH, d])"

text \<open>
  \<open>buf\<close> is the size of the buffer, \<open>None\<close> if one has to be allocated. The result is the string in the
  buffer, without its terminator; to write past the end is undefined.
\<close>

definition pss_string_literal :: "bool \<Rightarrow> string option \<Rightarrow> nat option \<Rightarrow> string result" where
  "pss_string_literal mem str buf = (case str of None \<Rightarrow> Error
     | Some s \<Rightarrow>
         let t = QUOTE # concat (map literal_char s) @ [QUOTE] in
         (case buf of
            Some sz \<Rightarrow> if sz < 1 then Error else if literal_size s + 3 > sz then Ok [] else if length t + 1 > sz then Undef else Ok t
          | None \<Rightarrow> if \<not> mem then Error else if length t + 1 > literal_size s + 3 then Undef else Ok t))"

definition pss_string_concat :: "bool \<Rightarrow> string option \<Rightarrow> string option \<Rightarrow> string result" where
  "pss_string_concat mem l r = (case (l, r) of (Some l, Some r) \<Rightarrow> if mem then Ok (l @ r) else Error | _ \<Rightarrow> Error)"

end
