(* ===== verification/PssLexMove.thy ===== *)
theory PssLexMove
  imports PssLex
begin

text \<open>
  Every operation of the lexer consumes a piece of the script and does nothing else to the position: the
  line and the offset are those of the position, the position stays inside the script, and a call
  returns.
\<close>

subsection \<open>Characters\<close>

lemma ci_less_256: "0 \<le> (of_char c :: int) \<and> (of_char c :: int) < 256"
proof -
  have "(of_char c :: int) = int (of_char c)" by (simp only: of_nat_of_char)
  then show ?thesis using nat_of_char_less_256 [of c] by linarith
qed

lemma to_char_ci: "to_char (ci c) = c"
proof -
  have "ci c mod 256 = of_char c" using ci_less_256 [of c] by (auto simp: ci_def Let_def mod_pos_pos_trivial minus_mod_self2)
  then show ?thesis by (simp add: to_char_def)
qed

lemma ci_eq_iff [simp]: "ci c = ci d \<longleftrightarrow> c = d"
  by (metis to_char_ci)

lemma ci_range: "-128 \<le> ci c \<and> ci c < 128"
  using ci_less_256 [of c] by (auto simp: ci_def Let_def)

lemma peek_ci: "ci c \<noteq> -1 \<Longrightarrow> ci c \<noteq> 0 \<Longrightarrow> peek lx n = ci c \<longleftrightarrow> lx_next lx + n < length (lx_buffer lx) \<and> lx_buffer lx ! (lx_next lx + n) = c"
  by (auto simp: peek_def Let_def)

subsection \<open>Consuming\<close>

lemma consume_end: "length (lx_buffer lx) \<le> lx_next lx \<Longrightarrow> consume lx n = lx"
  by (cases n) (simp_all add: consume.simps(2))

lemma consume_add: "consume lx (a + b) = consume (consume lx a) b"
proof (induction a arbitrary: lx)
  case (Suc a)
  show ?case
  proof (cases "length (lx_buffer lx) \<le> lx_next lx")
    case True
    then show ?thesis by (simp add: consume_end)
  next
    case False
    then show ?thesis using Suc by (simp add: consume.simps(2) Let_def)
  qed
qed simp

definition strip :: "lexer \<Rightarrow> lexer" where
  "strip lx = lx\<lparr>lx_error := False, lx_errstr := []\<rparr>"

lemma strip_simps [simp]: "lx_next (strip lx) = lx_next lx" "lx_buffer (strip lx) = lx_buffer lx" "lx_line (strip lx) = lx_line lx"
  "lx_offset (strip lx) = lx_offset lx" "lx_filename (strip lx) = lx_filename lx" "strip (strip lx) = strip lx" "strip (lex_fail m lx) = strip lx"
  "strip (lx\<lparr>lx_error := b\<rparr>) = strip lx"
  by (simp_all add: strip_def lex_fail_def)

lemma peek_strip [simp]: "peek (strip lx) n = peek lx n"
  by (simp add: peek_def)

lemma consume_Suc: "consume lx (Suc n) = consume (consume lx 1) n"
  using consume_add [of lx 1 n] by simp

lemma strip_consume: "strip (consume lx n) = consume (strip lx) n"
proof (induction n arbitrary: lx)
  case (Suc n)
  have "strip (consume lx 1) = consume (strip lx) 1" by (cases lx) (simp add: consume.simps(2) Let_def strip_def peek_def)
  then show ?case using Suc [of "consume lx 1"] by (simp only: consume_Suc [of _ n])
qed simp

definition moves :: "lexer \<Rightarrow> lexer \<Rightarrow> bool" where
  "moves lx lx' \<longleftrightarrow> (\<exists>n. strip lx' = consume (strip lx) n)"

named_theorems moves_intros \<open>operations that only consume\<close>

lemma moves_refl [moves_intros]: "moves lx lx"
  unfolding moves_def by (rule exI [of _ 0]) simp

lemma moves_trans: "moves x y \<Longrightarrow> moves y z \<Longrightarrow> moves x z"
  unfolding moves_def by (metis consume_add)

lemma moves_consume: "moves lx lx' \<Longrightarrow> moves lx (consume lx' n)"
  unfolding moves_def by (metis consume_add strip_consume)

lemma moves_fail [simp]: "moves lx (lex_fail m lx') = moves lx lx'" "moves (lex_fail m lx) lx' = moves lx lx'"
  "moves lx (lx'\<lparr>lx_error := b\<rparr>) = moves lx lx'"
  by (simp_all add: moves_def)

lemma moves_next: "moves lx lx' \<Longrightarrow> lx_buffer lx' = lx_buffer lx \<and> lx_filename lx' = lx_filename lx \<and> lx_next lx \<le> lx_next lx'"
proof -
  have f: "lx_filename (consume lx n) = lx_filename lx" for lx n by (induction lx n rule: consume.induct) (simp_all add: consume.simps(2) Let_def)
  assume "moves lx lx'"
  then obtain n where n: "strip lx' = consume (strip lx) n" by (auto simp: moves_def)
  then have "lx_next lx' = lx_next (consume (strip lx) n)" "lx_buffer lx' = lx_buffer (consume (strip lx) n)"
    "lx_filename lx' = lx_filename (consume (strip lx) n)" by (metis strip_simps)+
  then show ?thesis by (simp add: consume_next consume_buffer f)
qed

subsection \<open>Lines\<close>

text \<open>A line ends with LF, CR LF or CR alone.\<close>

definition is_break :: "string \<Rightarrow> nat \<Rightarrow> bool" where
  "is_break b i \<longleftrightarrow> b ! i = LF \<or> b ! i = CR \<and> \<not> (Suc i < length b \<and> b ! Suc i = LF)"

definition line_at :: "string \<Rightarrow> nat \<Rightarrow> nat" where
  "line_at b n = length (filter (is_break b) [0..<n])"

definition offset_at :: "string \<Rightarrow> nat \<Rightarrow> nat" where
  "offset_at b n = length (takeWhile (\<lambda>i. \<not> is_break b i) (rev [0..<n]))"

definition pos_ok :: "lexer \<Rightarrow> bool" where
  "pos_ok lx \<longleftrightarrow> lx_next lx \<le> length (lx_buffer lx) \<and> lx_line lx = line_at (lx_buffer lx) (lx_next lx) \<and> lx_offset lx = offset_at (lx_buffer lx) (lx_next lx)"

lemma consume_pos: "pos_ok lx \<Longrightarrow> pos_ok (consume lx n)"
proof (induction lx n rule: consume.induct)
  case (2 lx n)
  show ?case
  proof (cases "length (lx_buffer lx) \<le> lx_next lx")
    case True
    then show ?thesis using 2(2) by (simp add: consume_end)
  next
    case False
    define y where "y = lx\<lparr>lx_next := lx_next lx + 1, lx_offset := lx_offset lx + 1\<rparr>"
    define z where "z = (if lx_buffer lx ! lx_next lx = CR \<and> peek y 0 \<noteq> ci LF \<or> lx_buffer lx ! lx_next lx = LF
      then y\<lparr>lx_offset := 0, lx_line := lx_line y + 1\<rparr> else y)"
    have "peek y 0 = ci LF \<longleftrightarrow> Suc (lx_next lx) < length (lx_buffer lx) \<and> lx_buffer lx ! Suc (lx_next lx) = LF"
      using peek_ci [of LF y 0] by (simp add: y_def) (simp add: ci_def)
    then have "is_break (lx_buffer lx) (lx_next lx) \<longleftrightarrow> lx_buffer lx ! lx_next lx = CR \<and> peek y 0 \<noteq> ci LF \<or> lx_buffer lx ! lx_next lx = LF"
      by (auto simp: is_break_def)
    then have "pos_ok z" using 2(2) False by (auto simp: pos_ok_def z_def y_def line_at_def offset_at_def)
    moreover have "consume lx (Suc n) = consume z n" using False by (simp add: consume.simps(2) Let_def y_def z_def)
    ultimately show ?thesis using 2(1) [OF False refl y_def] z_def by simp
  qed
qed simp

lemma moves_pos: "moves lx lx' \<Longrightarrow> pos_ok lx \<Longrightarrow> pos_ok lx'"
proof -
  have s: "pos_ok (strip lx) = pos_ok lx" for lx by (simp add: pos_ok_def)
  assume "moves lx lx'" "pos_ok lx"
  then show ?thesis using consume_pos [of "strip lx"] by (metis moves_def s)
qed

subsection \<open>The loops only consume\<close>

lemma moves_first: "moves (consume lx n) z \<Longrightarrow> moves lx z"
  by (rule moves_trans [OF moves_consume [OF moves_refl]])

lemma skip_ws_moves: "moves lx (skip_ws lx)"
proof (induction lx rule: skip_ws.induct)
  case (1 lx)
  then show ?case by (auto simp: skip_ws.simps [of lx] intro: moves_first moves_refl)
qed

lemma skip_line_moves: "moves lx (skip_line k lx)"
proof (induction k lx rule: skip_line.induct)
  case (1 k lx)
  then show ?case by (auto simp: skip_line.simps [of k lx] intro: moves_first moves_refl)
qed

lemma comment_loop_moves: "moves lx (snd (comment_loop st lx))"
proof (induction st lx rule: comment_loop.induct)
  case (1 st lx)
  then show ?case by (auto simp: comment_loop.simps [of st lx] intro: moves_first moves_refl)
qed

lemma comments_moves: "moves lx (snd (comments_or_ws lx))"
proof (induction lx rule: comments_or_ws.induct)
  case (1 lx)
  let ?x = "skip_ws lx"
  have x: "moves lx z" if "moves ?x z" for z using moves_trans [OF skip_ws_moves that] .
  obtain st y where c: "comment_loop 0 (consume ?x 2) = (st, y)" by (metis surj_pair)
  have y: "moves ?x y" using comment_loop_moves [of "consume ?x 2" 0] c by (auto intro: moves_first)
  have line: "moves ?x z" if "moves (skip_line (lx_line ?x) ?x) z" for z using moves_trans [OF skip_line_moves that] .
  show ?case unfolding comments_or_ws.simps [of lx] Let_def c
    using 1 (1,2) [OF refl] 1(3) [OF refl _ _ _ _ c [symmetric]] x y line moves_refl moves_trans [OF y] by (auto simp: c)
qed

lemma id_loop_moves: "moves lx (snd (id_loop ob lx))"
proof (induction ob lx rule: id_loop.induct)
  case (1 ob lx)
  then show ?case by (auto simp: id_loop.simps [of ob lx] intro: moves_first moves_refl)
qed

lemma dot_loop_moves: "moves lx (snd (snd (dot_loop st level pos ob lx)))"
proof (induction st level pos ob lx rule: dot_loop.induct)
  case (1 st level pos ob lx)
  obtain st2 level2 pos2 where c: "dot_switch st level (peek lx 0) = (st2, level2, pos2)" by (metis prod_cases3)
  show ?case
  proof (cases "peek lx 0 = -1 \<or> \<not> pos")
    case True
    then show ?thesis by (simp add: dot_loop.simps [of st level pos ob lx] moves_refl)
  next
    case False
    then show ?thesis using moves_first [OF 1 [OF False c [symmetric] refl]] c unfolding dot_loop.simps [of st level pos ob lx] by simp
  qed
qed

lemma num_loop_moves: "num_loop b n v lx = Ok (m, w, lx') \<Longrightarrow> moves lx lx'"
proof (induction b n v lx rule: num_loop.induct)
  case (1 b n v lx)
  then show ?case by (auto simp: num_loop.simps [of b n v lx] Let_def intro: moves_first moves_refl split: if_splits)
qed

lemma str_loop_moves: "str_loop esc st e ob lx = Ok (st', s, lx') \<Longrightarrow> moves lx lx'"
proof (induction esc st e ob lx rule: str_loop.induct)
  case (1 esc st e ob lx)
  show ?case
  proof (cases "st = STR_END \<or> st = STR_ERROR \<or> peek lx 0 = -1")
    case True
    then show ?thesis using 1(2) by (simp add: str_loop.simps [of esc st e ob lx] moves_refl)
  next
    case F: False
    then obtain st2 e2 ob2 where c: "str_char esc st e ob (peek lx 0) = Ok (st2, e2, ob2)"
      using 1(2) by (auto simp: str_loop.simps [of esc st e ob lx] split: result.splits)
    let ?y = "if st2 = STR_ERROR then lex_fail ''Invalid escape sequence'' lx else lx"
    have "str_loop esc st2 e2 ob2 (consume ?y 1) = Ok (st', s, lx')" using 1(2) F c by (simp add: str_loop.simps [of esc st e ob lx])
    then have "moves (consume ?y 1) lx'" using 1(1) [OF F c refl refl] by simp
    then have "moves ?y lx'" by (rule moves_first)
    then show ?thesis by (cases "st2 = STR_ERROR") simp_all
  qed
qed

subsection \<open>Numbers that fit\<close>

text \<open>No eight hexadecimal digits in a row: neither a number nor an escape sequence is too large.\<close>

definition is_hex :: "char \<Rightarrow> bool" where
  "is_hex c \<longleftrightarrow> hex_digit_to_val (ci c) \<noteq> -1"

definition short_numbers :: "string \<Rightarrow> bool" where
  "short_numbers b \<longleftrightarrow> (\<forall>i. i + 8 \<le> length b \<longrightarrow> (\<exists>j<8. \<not> is_hex (b ! (i + j))))"

text \<open>The \<open>k\<close> characters before the position are digits.\<close>

definition hex_run :: "lexer \<Rightarrow> nat \<Rightarrow> bool" where
  "hex_run lx k \<longleftrightarrow> k \<le> lx_next lx \<and> lx_next lx \<le> length (lx_buffer lx) \<and> (\<forall>i. lx_next lx - k \<le> i \<and> i < lx_next lx \<longrightarrow> is_hex (lx_buffer lx ! i))"

lemma hex_run_short: "hex_run lx k \<Longrightarrow> short_numbers (lx_buffer lx) \<Longrightarrow> k \<le> 7"
proof (rule ccontr)
  assume r: "hex_run lx k" and s: "short_numbers (lx_buffer lx)" and k: "\<not> k \<le> 7"
  let ?i = "lx_next lx - 8"
  have "?i + 8 \<le> length (lx_buffer lx)" using r k by (simp add: hex_run_def)
  then obtain j where "j < 8" "\<not> is_hex (lx_buffer lx ! (?i + j))" using s unfolding short_numbers_def by blast
  then show False using r k by (auto simp: hex_run_def dest: spec [of _ "?i + j"])
qed

lemma hex_run_0: "hex_run lx 0 \<longleftrightarrow> lx_next lx \<le> length (lx_buffer lx)"
  by (auto simp: hex_run_def)

lemma hex_run_Suc:
  assumes "hex_run lx k" and "hex_digit_to_val (peek lx 0) \<noteq> -1"
  shows "hex_run (consume lx 1) (Suc k)"
proof -
  have p: "peek lx 0 \<noteq> -1" using digit_val_peek [of Hex lx] assms(2) by simp
  then have "lx_next lx < length (lx_buffer lx)" "peek lx 0 = ci (lx_buffer lx ! lx_next lx)" by (auto simp: peek_def Let_def split: if_splits)
  then show ?thesis using assms by (auto simp: hex_run_def consume_next consume_buffer is_hex_def less_Suc_eq)
qed

lemma digit_val_range: "digit_val b ch \<noteq> -1 \<Longrightarrow> 0 \<le> digit_val b ch \<and> digit_val b ch < radix_val b \<and> radix_val b \<le> 16 \<and> hex_digit_to_val ch \<noteq> -1"
  by (cases b) (auto simp: hex_digit_to_val_def dec_digit_to_val_def oct_digit_to_val_def in_range_def ci_def split: if_splits)

lemma power_16_short: "k \<le> 7 \<Longrightarrow> (16 :: int) ^ k \<le> 16 ^ 7"
  by (rule power_increasing) auto

lemma num_loop_Ok:
  assumes "short_numbers (lx_buffer lx)" and "hex_run lx k" and "0 \<le> n" and "n < 16 ^ k"
  shows "\<exists>r. num_loop b n v lx = Ok r"
  using assms
proof (induction b n v lx arbitrary: k rule: num_loop.induct)
  case (1 b n v lx)
  let ?d = "digit_val b (peek lx 0)"
  show ?case
  proof (cases "?d = -1")
    case True
    then show ?thesis by (simp add: num_loop.simps [of b n v lx])
  next
    case False
    note d = digit_val_range [OF False]
    have r: "hex_run (consume lx 1) (Suc k)" using hex_run_Suc [OF 1(3)] d by simp
    have k: "Suc k \<le> 7" using hex_run_short [OF r] 1(2) by (simp add: consume_buffer)
    have "n * radix_val b \<le> n * 16" using d 1(4) by (intro mult_left_mono) auto
    then have lt: "n * radix_val b + ?d < 16 ^ Suc k" using d 1(5) by simp
    moreover have "0 \<le> n * radix_val b + ?d" using d 1(4) by simp
    moreover have "n * radix_val b + ?d < 2 ^ 63" using lt power_16_short [OF k] by simp
    ultimately show ?thesis using 1(1) [OF False refl _ _ r] 1(2) False by (simp add: num_loop.simps [of b n v lx] Let_def consume_buffer)
  qed
qed

lemma put_char_room: "length (fst ob) + snd ob = N \<Longrightarrow> 1 \<le> snd ob \<Longrightarrow> length (fst (put_char u ob)) + snd (put_char u ob) = N \<and> 1 \<le> snd (put_char u ob)"
  by (auto simp: put_char_def split: prod.splits)

lemma str_char_Ok:
  assumes "st = ESC_HEX \<longrightarrow> hex_digit_to_val ch \<noteq> -1 \<longrightarrow> e * 16 + hex_digit_to_val ch < 2 ^ 31"
    and ob: "length (fst ob) + snd ob = N" "1 \<le> snd ob"
  shows "\<exists>st' e' ob'. str_char esc st e ob ch = Ok (st', e', ob') \<and> length (fst ob') + snd ob' = N \<and> 1 \<le> snd ob'
     \<and> (st' = ESC_HEX \<longrightarrow> e' = 0 \<or> st = ESC_HEX \<and> hex_digit_to_val ch \<noteq> -1 \<and> e' = e * 16 + hex_digit_to_val ch)"
proof -
  have sw: "\<exists>st' e' u g. str_switch esc st e ch = Ok (st', e', u, g) \<and> (g \<longrightarrow> st' = NORMAL_STR)
      \<and> (st' = ESC_HEX \<longrightarrow> e' = 0 \<or> st = ESC_HEX \<and> hex_digit_to_val ch \<noteq> -1 \<and> e' = e * 16 + hex_digit_to_val ch)"
    using assms(1) by (cases st) (auto simp: str_switch_def oct_switch_def Let_def split: option.splits prod.splits)
  then obtain st' e' u g where s: "str_switch esc st e ch = Ok (st', e', u, g)" "g \<longrightarrow> st' = NORMAL_STR"
    "st' = ESC_HEX \<longrightarrow> e' = 0 \<or> st = ESC_HEX \<and> hex_digit_to_val ch \<noteq> -1 \<and> e' = e * 16 + hex_digit_to_val ch" by blast
  have p: "length (fst (put_char u ob)) + snd (put_char u ob) = N" "1 \<le> snd (put_char u ob)" for u using put_char_room [OF ob] by blast+
  obtain st2 v where t: "str_switch esc NORMAL_STR e' ch = Ok (st2, e', v, False)" "st2 \<noteq> ESC_HEX"
    by (cases "ch = ci BACKSLASH \<and> esc"; cases "ch = ci QUOTE") (auto simp: str_switch_def)
  show ?thesis
  proof (cases "u < 0 \<or> \<not> g")
    case True
    then have "str_char esc st e ob ch = Ok (st', e', if u < 0 then ob else put_char u ob)" using s(1) by (auto simp: str_char_def)
    moreover have "length (fst (if u < 0 then ob else put_char u ob)) + snd (if u < 0 then ob else put_char u ob) = N" using ob p by simp
    moreover have "1 \<le> snd (if u < 0 then ob else put_char u ob)" using ob p by simp
    ultimately show ?thesis using s(3) by blast
  next
    case False
    define o2 where "o2 = (if v < 0 then put_char u ob else put_char v (put_char u ob))"
    have "str_char esc st e ob ch = Ok (st2, e', o2)" using False s(1,2) t(1) by (simp add: str_char_def o2_def)
    moreover have "length (fst o2) + snd o2 = N" "1 \<le> snd o2" using p put_char_room [OF p [of u], of v] by (simp_all add: o2_def)
    ultimately show ?thesis using t(2) by blast
  qed
qed

lemma str_loop_Ok:
  assumes "short_numbers (lx_buffer lx)" and "lx_next lx \<le> length (lx_buffer lx)" and "st = ESC_HEX \<longrightarrow> hex_run lx k \<and> 0 \<le> e \<and> e < 16 ^ k"
    and "length (fst ob) + snd ob = N" and "1 \<le> snd ob"
  shows "\<exists>st' s lx'. str_loop esc st e ob lx = Ok (st', s, lx') \<and> length s < N"
  using assms
proof (induction esc st e ob lx arbitrary: k rule: str_loop.induct)
  case (1 esc st e ob lx)
  show ?case
  proof (cases "st = STR_END \<or> st = STR_ERROR \<or> peek lx 0 = -1")
    case True
    then show ?thesis using 1(5,6) by (auto simp: str_loop.simps [of esc st e ob lx])
  next
    case F: False
    let ?h = "hex_digit_to_val (peek lx 0)"
    have hex: "hex_run (consume lx 1) (Suc k) \<and> 0 \<le> e * 16 + ?h \<and> e * 16 + ?h < 16 ^ Suc k \<and> Suc k \<le> 7" if "st = ESC_HEX" "?h \<noteq> -1"
    proof -
      have r: "hex_run (consume lx 1) (Suc k)" using hex_run_Suc 1(4) that by simp
      have h: "0 \<le> ?h" "?h < 16" using digit_val_range [of Hex "peek lx 0"] that(2) by auto
      moreover have "0 \<le> e" "e < 16 ^ k" using 1(4) that(1) by auto
      ultimately have "0 \<le> e * 16 + ?h" "e * 16 + ?h < 16 ^ Suc k" by simp_all
      then show ?thesis using r hex_run_short [OF r] 1(2) by (simp add: consume_buffer)
    qed
    have "st = ESC_HEX \<longrightarrow> ?h \<noteq> -1 \<longrightarrow> e * 16 + ?h < 2 ^ 31"
    proof (intro impI)
      assume "st = ESC_HEX" "?h \<noteq> -1"
      then have "e * 16 + ?h < 16 ^ Suc k" "(16 :: int) ^ Suc k \<le> 16 ^ 7" using hex power_16_short by blast+
      then show "e * 16 + ?h < 2 ^ 31" by simp
    qed
    then obtain st2 e2 ob2 where c: "str_char esc st e ob (peek lx 0) = Ok (st2, e2, ob2)" "length (fst ob2) + snd ob2 = N" "1 \<le> snd ob2"
      "st2 = ESC_HEX \<longrightarrow> e2 = 0 \<or> st = ESC_HEX \<and> ?h \<noteq> -1 \<and> e2 = e * 16 + ?h" using str_char_Ok [OF _ 1(5,6)] by blast
    define y where "y = (if st2 = STR_ERROR then lex_fail ''Invalid escape sequence'' lx else lx)"
    have y: "lx_buffer y = lx_buffer lx" "lx_next y = lx_next lx" "st2 = ESC_HEX \<Longrightarrow> y = lx" by (simp_all add: y_def lex_fail_def)
    have le: "lx_next (consume y 1) \<le> length (lx_buffer (consume y 1))" using 1(3) y by (simp add: consume_next consume_buffer)
    have "\<exists>k. st2 = ESC_HEX \<longrightarrow> hex_run (consume y 1) k \<and> 0 \<le> e2 \<and> e2 < 16 ^ k"
    proof (cases "e2 = 0")
      case True
      then show ?thesis using le by (intro exI [of _ 0]) (simp add: hex_run_0)
    next
      case False
      then show ?thesis using c(4) hex y(3) by (intro exI [of _ "Suc k"]) auto
    qed
    then obtain k2 where "st2 = ESC_HEX \<longrightarrow> hex_run (consume y 1) k2 \<and> 0 \<le> e2 \<and> e2 < 16 ^ k2" by blast
    then have "\<exists>st' s lx'. str_loop esc st2 e2 ob2 (consume y 1) = Ok (st', s, lx') \<and> length s < N"
      using 1(1) [OF F c(1) refl refl, folded y_def, OF _ le _ c(2,3), of k2] 1(2) y(1) by (simp add: consume_buffer)
    then show ?thesis using F c(1) by (simp add: str_loop.simps [of esc st e ob lx] flip: y_def)
  qed
qed

end
