(* ===== verification/PssLexSafe.thy ===== *)
theory PssLexSafe
  imports PssLexMove
begin

text \<open>The calls of the lexer: a token takes a piece of the script, its text fits the buffer of the token.\<close>

definition str_fits :: "token_value \<Rightarrow> bool" where
  "str_fits v \<longleftrightarrow> (case v of StrVal s \<Rightarrow> length s < TOKEN_SIZE | _ \<Rightarrow> True)"

lemma str_fits_simps [simp]: "str_fits (StrVal s) \<longleftrightarrow> length s < TOKEN_SIZE" "str_fits (IntVal n)" "str_fits (KeyVal k)" "str_fits (ErrVal m)" "str_fits NoVal"
  by (simp_all add: str_fits_def)

definition same_place :: "lex_token \<Rightarrow> lex_token \<Rightarrow> bool" where
  "same_place t t' \<longleftrightarrow> tk_file t' = tk_file t \<and> tk_line t' = tk_line t \<and> tk_offset t' = tk_offset t"

definition takes :: "lexer \<Rightarrow> lex_token \<Rightarrow> (lexer \<times> lex_token) result \<Rightarrow> bool" where
  "takes lx tok r \<longleftrightarrow> (\<exists>lx' tok'. r = Ok (lx', tok') \<and> moves lx lx' \<and> (lx_error lx' \<or> tk_type tok' = TOKEN_EOF \<or> lx_next lx < lx_next lx')
     \<and> (str_fits (tk_value tok) \<longrightarrow> str_fits (tk_value tok')) \<and> same_place tok tok')"

lemma takesI:
  assumes "r = Ok (lx', tok')" and "moves lx lx'" and "lx_error lx' \<or> tk_type tok' = TOKEN_EOF \<or> lx_next lx < lx_next lx'"
    and "str_fits (tk_value tok) \<Longrightarrow> str_fits (tk_value tok')" and "same_place tok tok'"
  shows "takes lx tok r"
  using assms unfolding takes_def by blast

lemma lex_fail_simps [simp]: "lx_error (lex_fail m lx)" "lx_next (lex_fail m lx) = lx_next lx" "lx_buffer (lex_fail m lx) = lx_buffer lx"
  by (simp_all add: lex_fail_def)

lemma takes_or_fail:
  assumes "r = Ok (if ok then z else lex_fail m z, tok')" and "moves lx z" and "ok \<Longrightarrow> lx_next lx < lx_next z"
    and "str_fits (tk_value tok) \<Longrightarrow> str_fits (tk_value tok')" and "same_place tok tok'"
  shows "takes lx tok r"
  using assms by (intro takesI [OF assms(1)]) auto

lemma consume_further: "peek lx 0 \<noteq> -1 \<Longrightarrow> 1 \<le> n \<Longrightarrow> lx_next lx < lx_next (consume lx n)"
  by (auto simp: consume_next peek_def split: if_splits)

lemma moves_further: "peek lx 0 \<noteq> -1 \<Longrightarrow> 1 \<le> n \<Longrightarrow> moves (consume lx n) z \<Longrightarrow> lx_next lx < lx_next z"
  using consume_further moves_next less_le_trans by blast

lemma peek_consume: "lx_next lx + n \<le> length (lx_buffer lx) \<Longrightarrow> peek (consume lx n) m = peek lx (n + m)"
  by (simp add: peek_def consume_next consume_buffer add.assoc)

lemma take_op_takes: "peek lx 0 \<noteq> -1 \<Longrightarrow> 1 \<le> n \<Longrightarrow> takes lx tok (take_op n ty lx tok)"
  by (rule takesI [OF take_op_def]) (simp_all add: moves_consume moves_refl consume_further same_place_def)

lemma fail_op_takes: "takes lx tok (fail_op m ty lx tok)"
  by (rule takesI [OF fail_op_def]) (simp_all add: moves_refl same_place_def)

lemma op_token_takes: "peek lx 0 \<noteq> -1 \<Longrightarrow> op_token (peek lx 0) lx tok = Some r \<Longrightarrow> takes lx tok r"
  by (auto simp: op_token_def Let_def take_op_takes fail_op_takes split: if_splits)

lemma id_loop_room: "length (fst ob) + snd ob = N \<Longrightarrow> 1 \<le> snd ob \<Longrightarrow> length (fst (id_loop ob lx)) < N"
proof (induction ob lx rule: id_loop.induct)
  case (1 ob lx)
  then show ?case using put_char_room [OF 1(2,3)] by (auto simp: id_loop.simps [of ob lx])
qed

lemma dot_loop_room: "length (fst ob) + snd ob = N \<Longrightarrow> 1 \<le> snd ob \<Longrightarrow> length (fst (snd (dot_loop st level pos ob lx))) < N"
proof (induction st level pos ob lx rule: dot_loop.induct)
  case (1 st level pos ob lx)
  obtain st2 level2 pos2 where c: "dot_switch st level (peek lx 0) = (st2, level2, pos2)" by (metis prod_cases3)
  show ?case
  proof (cases "peek lx 0 = -1 \<or> \<not> pos")
    case True
    then show ?thesis using 1(2,3) by (auto simp: dot_loop.simps [of st level pos ob lx])
  next
    case False
    then show ?thesis using 1(1) [OF False c [symmetric] refl] 1(2,3) put_char_room [OF 1(2,3)] c unfolding dot_loop.simps [of st level pos ob lx] by simp
  qed
qed

lemma find_keyword_consumes: "find_keyword lx ks = Some (k, lx') \<Longrightarrow> \<exists>str. (str, k) \<in> set ks \<and> lx' = consume lx (length str)"
  by (induction ks) (auto simp: match_word_def split: option.splits if_splits)

lemma word_token_takes: "peek lx 0 \<noteq> -1 \<Longrightarrow> takes lx tok (word_token lx tok)"
proof (cases "find_keyword lx keyword_table")
  case (Some r)
  obtain k lx' where r: "r = (k, lx')" by (metis surj_pair)
  obtain str where s: "(str, k) \<in> set keyword_table" "lx' = consume lx (length str)" using find_keyword_consumes Some r by blast
  then have "1 \<le> length str" by (auto simp: keyword_table_def)
  moreover assume "peek lx 0 \<noteq> -1"
  moreover have w: "word_token lx tok = Ok (lx', tok\<lparr>tk_type := TOKEN_KEYWORD, tk_value := KeyVal k\<rparr>)"
    using Some r by (simp add: word_token_def id_or_keyword_def)
  ultimately show ?thesis using s(2) by (intro takesI [OF w]) (simp_all add: moves_consume moves_refl consume_further same_place_def)
next
  case None
  assume p: "peek lx 0 \<noteq> -1"
  obtain s y where i: "id_loop ([], TOKEN_SIZE) lx = (s, y)" by (metis surj_pair)
  let ?y = "if s = [] then lex_fail ''Invalid identifier'' y else y"
  have len: "length s < TOKEN_SIZE" using id_loop_room [of "([], TOKEN_SIZE)" TOKEN_SIZE lx] i by (simp add: TOKEN_SIZE_def)
  have m: "moves lx y" using id_loop_moves [of lx "([], TOKEN_SIZE)"] i by simp
  have "lx_next lx < lx_next y" if "s \<noteq> []"
  proof -
    have id: "in_id_charset (peek lx 0)" using that i by (auto simp: id_loop.simps [of _ lx] split: if_splits)
    then have "moves (consume lx 1) y" using id_loop_moves [of "consume lx 1"] i by (metis id_loop.simps snd_conv)
    then show ?thesis using moves_further [OF p order_refl] by blast
  qed
  moreover have w: "word_token lx tok = Ok (?y, tok\<lparr>tk_type := TOKEN_IDENTIFIER, tk_value := StrVal s\<rparr>)"
    using None i by (simp add: word_token_def id_or_keyword_def)
  ultimately show ?thesis using m len by (intro takesI [OF w]) (simp_all add: same_place_def)
qed

lemma num_token_takes:
  assumes short: "short_numbers (lx_buffer lx)" and d: "in_range CHR ''0'' CHR ''9'' (peek lx 0)"
  shows "takes lx tok (num_token lx tok)"
proof -
  have p: "peek lx 0 \<noteq> -1" using d by (auto simp: in_range_def ci_def)
  then have le: "lx_next lx < length (lx_buffer lx)" by (auto simp: peek_def split: if_splits)
  have run: "\<exists>m v z. num_loop b n v0 (consume lx k) = Ok (m, v, z) \<and> moves lx z \<and> lx_next lx < lx_next z"
    if r: "hex_run (consume lx k) j" and n: "0 \<le> n" "n < 16 ^ j" and k: "1 \<le> k" for b n v0 k j
  proof -
    obtain m v z where z: "num_loop b n v0 (consume lx k) = Ok (m, v, z)"
      using num_loop_Ok [OF _ r n, of b v0] short by (metis consume_buffer surj_pair)
    then show ?thesis using num_loop_moves [OF z] moves_first moves_further [OF p k] by blast
  qed
  have one: "hex_run (consume lx 1) 0" using le by (simp add: hex_run_0 consume_next consume_buffer)
  have "\<exists>ok n z. lex_num lx = Ok (ok, n, z) \<and> moves lx z \<and> lx_next lx < lx_next z"
  proof (cases "peek lx 0 = ci CHR ''0''")
    case z: True
    show ?thesis
    proof (cases "peek lx 1 = ci CHR ''x''")
      case True
      have "hex_run (consume lx 2) 0" using le by (simp add: hex_run_0 consume_next consume_buffer)
      then show ?thesis using run [of 2 0 0 Hex False] z True by (auto simp: lex_num_def)
    next
      case x: False
      show ?thesis
      proof (cases "oct_digit_to_val (peek lx 1) = -1")
        case True
        then have "lex_num lx = Ok (True, Some 0, consume lx 1)" using z x by (simp add: lex_num_def)
        then show ?thesis using consume_further [OF p, of 1] moves_consume [OF moves_refl, of lx 1] by blast
      next
        case False
        have o: "0 \<le> oct_digit_to_val (peek lx 1)" "oct_digit_to_val (peek lx 1) < 16" "hex_digit_to_val (peek lx 1) \<noteq> -1"
          using digit_val_range [of Oct "peek lx 1"] False by auto
        have "hex_run (consume (consume lx 1) 1) 1" using hex_run_Suc [OF one] o(3) peek_consume [of lx 1 0] le by simp
        then have "hex_run (consume lx 2) 1" using consume_add [of lx 1 1] by (simp add: numeral_2_eq_2)
        then show ?thesis using run [of 2 1 "oct_digit_to_val (peek lx 1)" Oct True] z x False o by (auto simp: lex_num_def)
      qed
    qed
  next
    case z: False
    have dd: "dec_digit_to_val (peek lx 0) \<noteq> -1" using d by (auto simp: dec_digit_to_val_def in_range_def ci_def)
    then have o: "0 \<le> dec_digit_to_val (peek lx 0)" "dec_digit_to_val (peek lx 0) < 16" "hex_digit_to_val (peek lx 0) \<noteq> -1"
      using digit_val_range [of Dec "peek lx 0"] by auto
    have "hex_run (consume lx 1) 1" using hex_run_Suc [of lx 0] o(3) le by (simp add: hex_run_0)
    then show ?thesis using run [of 1 1 "dec_digit_to_val (peek lx 0)" Dec True] z dd o by (auto simp: lex_num_def)
  qed
  then obtain ok n z where n: "lex_num lx = Ok (ok, n, z)" "moves lx z" "lx_next lx < lx_next z" by blast
  then have w: "num_token lx tok = Ok (if ok then z else lex_fail ''Invalid number'' z,
      tok\<lparr>tk_type := TOKEN_INTEGER, tk_value := (case n of None \<Rightarrow> tk_value tok | Some n \<Rightarrow> IntVal n)\<rparr>)" by (simp add: num_token_def)
  show ?thesis by (rule takes_or_fail [OF w n(2,3)]) (simp_all add: same_place_def split: option.splits)
qed

lemma str_token_takes:
  assumes short: "short_numbers (lx_buffer lx)" and p: "peek lx 0 \<noteq> -1" and x: "moves lx0 lx" "lx_next lx0 \<le> lx_next lx"
  shows "takes lx0 tok (str_token esc lx tok)"
proof (cases "peek lx 0 = ci QUOTE")
  case True
  have le: "lx_next (consume lx 1) \<le> length (lx_buffer (consume lx 1))" using p by (auto simp: consume_next consume_buffer peek_def split: if_splits)
  obtain st s z where z: "str_loop esc NORMAL_STR 0 ([], TOKEN_SIZE) (consume lx 1) = Ok (st, s, z)" "length s < TOKEN_SIZE"
    using str_loop_Ok [of "consume lx 1" NORMAL_STR 0 0 "([], TOKEN_SIZE)" TOKEN_SIZE esc] short le by (auto simp: consume_buffer TOKEN_SIZE_def)
  have m: "moves (consume lx 1) z" using str_loop_moves [OF z(1)] .
  then have "lx_next lx < lx_next z" "moves lx z" using moves_further [OF p order_refl] moves_first by blast+
  moreover have w: "str_token esc lx tok = Ok (if st \<noteq> STR_ERROR then z else lex_fail ''Invalid string'' z, tok\<lparr>tk_type := TOKEN_STRING, tk_value := StrVal s\<rparr>)"
    using True z(1) by (simp add: str_token_def lex_str_def)
  ultimately show ?thesis using z(2) moves_trans [OF x(1)] x(2) by (intro takes_or_fail [OF w]) (simp_all add: same_place_def)
next
  case False
  then have w: "str_token esc lx tok = Ok (lex_fail ''Invalid string'' lx, tok\<lparr>tk_type := TOKEN_STRING, tk_value := StrVal []\<rparr>)"
    by (simp add: str_token_def lex_str_def)
  show ?thesis using x(1) by (intro takesI [OF w]) (simp_all add: same_place_def TOKEN_SIZE_def)
qed

lemma at_token_takes:
  assumes "short_numbers (lx_buffer lx)" and p: "peek lx 0 = ci CHR ''@''"
  shows "takes lx tok (at_token lx tok)"
proof -
  have p1: "peek lx 0 \<noteq> -1" using p by (simp add: ci_def)
  then have le: "lx_next lx + 1 \<le> length (lx_buffer lx)" by (auto simp: peek_def split: if_splits)
  consider "peek lx 1 = ci CHR ''[''" | "peek lx 1 = ci QUOTE" | "peek lx 1 \<noteq> ci CHR ''[''" "peek lx 1 \<noteq> ci QUOTE" by blast
  then show ?thesis
  proof cases
    case 1
    obtain pos s z where z: "dot_loop DOT_CODE 1 True ([], TOKEN_SIZE) (consume lx 2) = (pos, s, z)" by (metis prod_cases3)
    have "moves (consume lx 2) z" using dot_loop_moves [of "consume lx 2" DOT_CODE 1 True "([], TOKEN_SIZE)"] z by simp
    then have "moves lx z" "lx_next lx < lx_next z" using moves_first moves_further [OF p1, of 2] by (blast, simp)
    moreover have "length s < TOKEN_SIZE" using dot_loop_room [of "([], TOKEN_SIZE)" TOKEN_SIZE DOT_CODE 1 True "consume lx 2"] z by (simp add: TOKEN_SIZE_def)
    moreover have w: "at_token lx tok = Ok (if \<not> pos then z else lex_fail ''Invalid Graphviz property'' z,
        tok\<lparr>tk_type := TOKEN_GRAPHVIZ_PROP, tk_value := StrVal s\<rparr>)" using 1 p z by (simp add: at_token_def graphviz_prop_def)
    ultimately show ?thesis by (intro takes_or_fail [OF w]) (simp_all add: same_place_def)
  next
    case 2
    have "peek (consume lx 1) 0 \<noteq> -1" using peek_consume [OF le, of 0] 2 by (simp add: ci_def)
    then show ?thesis using str_token_takes [of "consume lx 1" lx tok False] assms(1) 2 consume_further [OF p1, of 1]
      by (simp add: at_token_def consume_buffer moves_consume moves_refl)
  next
    case 3
    then show ?thesis using fail_op_takes by (simp add: at_token_def)
  qed
qed

lemma token_switch_takes:
  assumes short: "short_numbers (lx_buffer lx)"
  shows "takes lx tok (token_switch lx tok)"
proof (cases "peek lx 0 = -1")
  case True
  then have w: "token_switch lx tok = Ok (consume lx 1, tok\<lparr>tk_type := TOKEN_EOF\<rparr>)" by (simp add: token_switch_def take_op_def)
  show ?thesis by (rule takesI [OF w]) (simp_all add: moves_consume moves_refl same_place_def)
next
  case False
  then show ?thesis
    using take_op_takes [OF False] op_token_takes [OF False] at_token_takes [OF short] str_token_takes [OF short False moves_refl order_refl] num_token_takes [OF short]
      word_token_takes [OF False]
    by (auto simp: token_switch_def Let_def split: option.splits)
qed

end
