(* ===== verification/PssLexPrint.thy ===== *)
theory PssLexPrint
  imports PssLexSafe
begin

text \<open>
  What the lexer makes of the text of a token: the loops as functions of the characters that are left.
  \<open>lexeme\<close> is a token without its place, \<open>lexeme_text\<close> prints it.
\<close>

subsection \<open>The characters that are left\<close>

definition rest :: "lexer \<Rightarrow> string" where
  "rest lx = drop (lx_next lx) (lx_buffer lx)"

definition plain :: "char \<Rightarrow> bool" where
  "plain c \<longleftrightarrow> ci c \<noteq> 0 \<and> ci c \<noteq> -1"

lemma rest_consume [simp]: "rest (consume lx n) = drop n (rest lx)"
  by (auto simp: rest_def consume_next consume_buffer max_def min_def add.commute)

lemma peek_rest: "n < length (rest lx) \<Longrightarrow> plain (rest lx ! n) \<Longrightarrow> peek lx n = ci (rest lx ! n)"
  by (auto simp: rest_def peek_def plain_def Let_def)

lemma peek_at: "rest lx = c # r \<Longrightarrow> plain c \<Longrightarrow> peek lx 0 = ci c"
  using peek_rest [of 0 lx] by simp

lemma peek_at1: "rest lx = c # d # r \<Longrightarrow> plain d \<Longrightarrow> peek lx 1 = ci d"
  using peek_rest [of 1 lx] by simp

lemma peek_at2: "rest lx = c # d # e # r \<Longrightarrow> plain e \<Longrightarrow> peek lx 2 = ci e"
  using peek_rest [of 2 lx] by simp

lemma peek_end: "rest lx = [] \<Longrightarrow> peek lx n = -1"
  by (simp add: rest_def peek_def)

abbreviation white :: "char \<Rightarrow> bool" where
  "white c \<equiv> c \<in> {TAB, CHR '' '', CR, LF}"

lemma white_plain: "white c \<Longrightarrow> plain c"
  by (auto simp: plain_def ci_def)

subsection \<open>White space\<close>

lemma skip_ws_text:
  "rest lx = ws @ r \<Longrightarrow> \<forall>c \<in> set ws. white c \<Longrightarrow> r = [] \<or> plain (hd r) \<and> \<not> white (hd r) \<Longrightarrow> skip_ws lx = consume lx (length ws)"
proof (induction ws arbitrary: lx)
  case Nil
  then have "peek lx 0 \<notin> {ci TAB, ci CHR '' '', ci CR, ci LF}"
    using peek_at [of lx "hd r" "tl r"] by (cases "r = []") (auto simp: peek_end, auto simp: ci_def)
  then show ?case by (simp add: skip_ws.simps [of lx])
next
  case (Cons c ws)
  have p: "peek lx 0 = ci c" using peek_at [of lx c "ws @ r"] Cons.prems white_plain by simp
  have "skip_ws (consume lx 1) = consume (consume lx 1) (length ws)" using Cons.prems by (intro Cons.IH) auto
  then show ?case using p Cons.prems(2) by (simp add: skip_ws.simps [of lx] flip: consume_Suc [unfolded One_nat_def])
qed

text \<open>The text does not begin with a comment.\<close>

definition no_comment :: "string \<Rightarrow> bool" where
  "no_comment r \<longleftrightarrow> r = [] \<or> plain (hd r) \<and> \<not> white (hd r) \<and> hd r \<noteq> CHR ''#''
     \<and> (hd r = CHR ''/'' \<longrightarrow> (\<exists>d e. r = hd r # d # e \<and> plain d \<and> d \<noteq> CHR ''/'' \<and> d \<noteq> CHR ''*''))"

lemma comments_text:
  assumes "rest lx = ws @ r" and "\<forall>c \<in> set ws. white c" and "no_comment r"
  shows "comments_or_ws lx = (True, consume lx (length ws))"
proof -
  let ?x = "consume lx (length ws)"
  have s: "skip_ws lx = ?x" using skip_ws_text assms by (auto simp: no_comment_def)
  have r: "rest ?x = r" using assms(1) by simp
  have "peek ?x 0 \<noteq> ci CHR ''#'' \<and> (peek ?x 0 = ci CHR ''/'' \<longrightarrow> peek ?x 1 \<noteq> ci CHR ''/'' \<and> peek ?x 1 \<noteq> ci CHR ''*'')"
  proof (cases "r = []")
    case True
    then have "peek ?x 0 = -1" using r peek_end [of ?x 0] by simp
    then show ?thesis by (simp add: ci_def)
  next
    case False
    then have "peek ?x 0 = ci (hd r)" "hd r \<noteq> CHR ''#''" using peek_at [of ?x "hd r" "tl r"] r assms(3) by (simp_all add: no_comment_def)
    moreover have "peek ?x 1 \<noteq> ci CHR ''/'' \<and> peek ?x 1 \<noteq> ci CHR ''*''" if "hd r = CHR ''/''"
    proof -
      obtain d e where "r = hd r # d # e" "plain d" "d \<noteq> CHR ''/''" "d \<noteq> CHR ''*''" using assms(3) False \<open>hd r = CHR ''/''\<close> by (auto simp: no_comment_def)
      then show ?thesis using peek_at1 [of ?x "hd r" d e] r by simp
    qed
    ultimately show ?thesis by simp
  qed
  then show ?thesis by (simp add: comments_or_ws.simps [of lx] s Let_def)
qed

subsection \<open>Words\<close>

abbreviation id_char :: "char \<Rightarrow> bool" where
  "id_char c \<equiv> in_id_charset (ci c)"

lemma id_char_plain: "id_char c \<Longrightarrow> plain c"
  by (auto simp: plain_def in_id_charset_def in_range_def) (simp_all add: ci_def)

lemma white_not_id: "white c \<Longrightarrow> \<not> id_char c"
  by (auto simp: in_id_charset_def in_range_def ci_def)

lemma match_from_text:
  "drop i (rest lx) = u @ w # r \<Longrightarrow> \<forall>c \<in> set u. id_char c \<Longrightarrow> plain w \<Longrightarrow> \<not> id_char w \<Longrightarrow> \<forall>c \<in> set str. id_char c \<Longrightarrow> match_from lx i str \<longleftrightarrow> str = u"
proof (induction str arbitrary: i u)
  case Nil
  have "rest lx ! i = hd (u @ w # r)" "i < length (rest lx)" using Nil(1) by (metis hd_drop_conv_nth drop_eq_Nil not_less Nil_is_append_conv list.distinct(1))+
  then show ?case using peek_rest [of i lx] Nil by (cases u) (auto simp: id_char_plain)
next
  case (Cons c str)
  have p: "rest lx ! i = hd (u @ w # r)" "i < length (rest lx)" using Cons(2) by (metis hd_drop_conv_nth drop_eq_Nil not_less Nil_is_append_conv list.distinct(1))+
  show ?case
  proof (cases u)
    case Nil
    then show ?thesis using p peek_rest [of i lx] Cons.prems by auto
  next
    case u: (Cons d v)
    have "peek lx i = ci d" using u p peek_rest [of i lx] Cons.prems(2) by (simp add: id_char_plain)
    moreover have "drop (Suc i) (rest lx) = v @ w # r" using Cons.prems(1) u by (metis append_Cons drop_Suc list.sel(3) tl_drop)
    ultimately show ?thesis using Cons.IH [of "Suc i" v] Cons.prems u by auto
  qed
qed

lemma find_keyword_text:
  assumes "rest lx = u @ w # r" and "\<forall>c \<in> set u. id_char c" and "plain w" and "\<not> id_char w" and "\<forall>(s, k) \<in> set ks. \<forall>c \<in> set s. id_char c"
  shows "find_keyword lx ks = map_option (\<lambda>k. (k, consume lx (length u))) (map_of ks u)"
  using assms(5)
proof (induction ks)
  case (Cons a ks)
  obtain s k where a: "a = (s, k)" by (metis surj_pair)
  have "match_word lx s = (if s = u then Some (consume lx (length u)) else None)"
    using match_from_text [of 0 lx u w r s] assms(1-4) Cons.prems a by (auto simp: match_word_def)
  then show ?case using Cons a by auto
qed simp

lemma keyword_chars: "\<forall>(s, k) \<in> set keyword_table. \<forall>c \<in> set s. id_char c"
  by (simp add: keyword_table_def in_id_charset_def in_range_def ci_def)

lemma id_loop_text:
  "rest lx = u @ w # r \<Longrightarrow> \<forall>c \<in> set u. id_char c \<Longrightarrow> plain w \<Longrightarrow> \<not> id_char w \<Longrightarrow> id_loop (out, sz) lx = (out @ take (sz - 1) u, consume lx (length u))"
proof (induction u arbitrary: lx out sz)
  case Nil
  then show ?case using peek_at [of lx w r] by (simp add: id_loop.simps [of _ lx])
next
  case (Cons c u)
  have p: "peek lx 0 = ci c" using peek_at [of lx c "u @ w # r"] Cons.prems id_char_plain by simp
  have IH: "id_loop (out2, sz2) (consume lx 1) = (out2 @ take (sz2 - 1) u, consume lx (Suc (length u)))" for out2 sz2
    unfolding consume_Suc [of lx "length u"] by (rule Cons.IH) (use Cons.prems in auto)
  show ?case using IH p Cons.prems(2) by (cases "sz - 1") (auto simp: id_loop.simps [of _ lx] put_char_def to_char_ci)
qed

subsection \<open>Numbers\<close>

definition dec_digit :: "nat \<Rightarrow> char" where
  "dec_digit n = char_of (48 + n)"

fun dec_text :: "nat \<Rightarrow> string" where
  "dec_text n = (if n < 10 then [dec_digit n] else dec_text (n div 10) @ [dec_digit (n mod 10)])"

declare dec_text.simps [simp del]

definition dec_val :: "int \<Rightarrow> char \<Rightarrow> int" where
  "dec_val n c = n * 10 + dec_digit_to_val (ci c)"

lemma ci_digit: "n < 10 \<Longrightarrow> ci (dec_digit n) = 48 + int n"
proof -
  assume n: "n < 10"
  have "(of_char (dec_digit n) :: nat) = 48 + n" using n by (simp add: dec_digit_def)
  then have "(of_char (dec_digit n) :: int) = 48 + int n" by (metis of_nat_add of_nat_numeral of_nat_of_char)
  then show ?thesis using n by (simp add: ci_def)
qed

lemma digit_facts: "n < 10 \<Longrightarrow> dec_digit_to_val (ci (dec_digit n)) = int n \<and> plain (dec_digit n)"
  using ci_digit [of n] by (simp add: dec_digit_to_val_def in_range_def plain_def) (simp add: ci_def)

lemma dec_text_digits: "\<forall>c \<in> set (dec_text n). \<exists>d < 10. c = dec_digit d"
proof (induction n rule: dec_text.induct)
  case (1 n)
  have "\<exists>d < 10. dec_digit (n mod 10) = dec_digit d" by (rule exI [of _ "n mod 10"]) simp
  then show ?case using 1 by (auto simp: dec_text.simps [of n])
qed

lemma dec_text_val: "foldl dec_val 0 (dec_text n) = int n"
proof (induction n rule: dec_text.induct)
  case (1 n)
  show ?case
  proof (cases "n < 10")
    case True
    then show ?thesis using digit_facts [of n] by (simp add: dec_text.simps [of n] dec_val_def)
  next
    case False
    have "int (n div 10) * 10 + int (n mod 10) = int n" by (metis div_mult_mod_eq of_nat_add of_nat_mult of_nat_numeral)
    then have "dec_val (int (n div 10)) (dec_digit (n mod 10)) = int n" using digit_facts [of "n mod 10"] by (simp add: dec_val_def)
    then show ?thesis using 1 [OF False] False by (simp add: dec_text.simps [of n])
  qed
qed

lemma dec_text_head: "\<exists>d ds. dec_text n = dec_digit d # ds \<and> d < 10 \<and> (d = 0 \<longrightarrow> n = 0 \<and> ds = [])"
proof (induction n rule: dec_text.induct)
  case (1 n)
  show ?case
  proof (cases "n < 10")
    case True
    then show ?thesis by (auto simp: dec_text.simps [of n])
  next
    case False
    then have "n div 10 \<noteq> 0" by simp
    then show ?thesis using 1 [OF False] False by (auto simp: dec_text.simps [of n])
  qed
qed

lemma dec_val_grows: "0 \<le> n \<Longrightarrow> \<forall>c \<in> set ds. \<exists>d < 10. c = dec_digit d \<Longrightarrow> n \<le> foldl dec_val n ds"
proof (induction ds arbitrary: n)
  case (Cons c ds)
  then have "n \<le> dec_val n c" using digit_facts by (auto simp: dec_val_def)
  moreover have "dec_val n c \<le> foldl dec_val (dec_val n c) ds" using Cons calculation by auto
  ultimately show ?case by simp
qed simp

lemma white_not_digit: "white w \<Longrightarrow> dec_digit_to_val (ci w) = -1 \<and> oct_digit_to_val (ci w) = -1 \<and> ci w \<noteq> ci CHR ''x''"
  by (elim insertE emptyE) (simp_all add: dec_digit_to_val_def oct_digit_to_val_def in_range_def ci_def)

lemma num_loop_text:
  "rest lx = ds @ w # r \<Longrightarrow> \<forall>c \<in> set ds. \<exists>d < 10. c = dec_digit d \<Longrightarrow> white w \<Longrightarrow> 0 \<le> n \<Longrightarrow> foldl dec_val n ds < 2 ^ 63
     \<Longrightarrow> num_loop Dec n True lx = Ok (foldl dec_val n ds, True, consume lx (length ds))"
proof (induction ds arbitrary: lx n)
  case Nil
  have "digit_val Dec (peek lx 0) = -1" using peek_at [of lx w r] Nil(1) white_plain [OF Nil(3)] white_not_digit [OF Nil(3)] by simp
  then show ?case by (simp add: num_loop.simps [of _ _ _ lx])
next
  case (Cons c ds)
  obtain d where d: "d < 10" "c = dec_digit d" using Cons.prems(2) by auto
  have p: "digit_val Dec (peek lx 0) = int d" using peek_at [of lx c "ds @ w # r"] Cons.prems(1) digit_facts [OF d(1)] d(2) by simp
  have v: "dec_val n c = n * 10 + int d" using digit_facts [OF d(1)] d(2) by (simp add: dec_val_def)
  have "dec_val n c \<le> foldl dec_val (dec_val n c) ds" using Cons.prems(2,4) v by (intro dec_val_grows) auto
  then have lt: "n * 10 + int d < 2 ^ 63" using Cons.prems(5) v by simp
  have IH: "num_loop Dec (dec_val n c) True (consume lx 1) = Ok (foldl dec_val (dec_val n c) ds, True, consume lx (Suc (length ds)))"
    unfolding consume_Suc [of lx "length ds"] by (rule Cons.IH) (use Cons.prems v in auto)
  show ?case using IH p lt v by (simp add: num_loop.simps [of _ _ _ lx])
qed

lemma lex_num_text:
  assumes "rest lx = dec_text n @ w # r" and "white w" and "n < 2 ^ 63"
  shows "lex_num lx = Ok (True, Some (int n), consume lx (length (dec_text n)))"
proof -
  obtain d ds where t: "dec_text n = dec_digit d # ds" "d < 10" "d = 0 \<longrightarrow> n = 0 \<and> ds = []" using dec_text_head by blast
  have p: "peek lx 0 = 48 + int d" using peek_at [of lx "dec_digit d" "ds @ w # r"] assms(1) t digit_facts ci_digit by simp
  show ?thesis
  proof (cases "d = 0")
    case True
    then have "rest lx = dec_digit 0 # w # r" "n = 0" "length (dec_text n) = 1" using assms(1) t by simp_all
    moreover have "peek lx 1 = ci w" using peek_at1 calculation(1) white_plain assms(2) by blast
    moreover have "ci w \<noteq> ci CHR ''x'' \<and> oct_digit_to_val (ci w) = -1" using white_not_digit [OF assms(2)] by blast
    ultimately show ?thesis using p True by (simp add: lex_num_def ci_def [of "CHR ''0''"])
  next
    case False
    have dv: "dec_digit_to_val (peek lx 0) = int d" using digit_facts [OF t(2)] ci_digit [OF t(2)] p by simp
    have "foldl dec_val (int d) ds = int n" using dec_text_val [of n] t(1) digit_facts [OF t(2)] by (simp add: dec_val_def)
    moreover have "num_loop Dec (int d) True (consume lx 1) = Ok (foldl dec_val (int d) ds, True, consume (consume lx 1) (length ds))"
      by (rule num_loop_text) (use assms t(1) dec_text_digits [of n] calculation in auto)
    ultimately show ?thesis using p dv False t(1) consume_Suc [of lx "length ds"] by (simp add: lex_num_def ci_def [of "CHR ''0''"])
  qed
qed

subsection \<open>Strings\<close>

abbreviation ascii :: "char \<Rightarrow> bool" where
  "ascii c \<equiv> 0 \<le> ci c"

lemma esc_code_lexed: "esc_code c = Some d \<Longrightarrow> plain d \<and> ascii c \<and> str_switch True ESC_BEGIN e (ci d) = Ok (NORMAL_STR, e, ci c, False)"
proof -
  have "\<forall>(d, c) \<in> set escapes. plain d \<and> ascii c \<and> str_switch True ESC_BEGIN e (ci d) = Ok (NORMAL_STR, e, ci c, False)"
    by (simp add: escapes_def str_switch_def plain_def ci_def)
  moreover assume "esc_code c = Some d"
  then have "(d, c) \<in> set escapes" by (auto simp: esc_code_def find_Some_iff) (metis nth_mem)
  ultimately show ?thesis by fastforce
qed

lemma esc_code_None: "esc_code c = None \<Longrightarrow> c \<noteq> BACKSLASH \<and> c \<noteq> QUOTE"
  by (auto simp: esc_code_def escapes_def)

lemma literal_length: "length (concat (map literal_char s)) = literal_size s"
  by (induction s) (auto simp: literal_size_def literal_char_def split: option.splits)

definition store :: "string \<times> nat \<Rightarrow> string \<Rightarrow> string" where
  "store ob s = fst ob @ take (snd ob - 1) s"

lemma store_put: "ascii c \<Longrightarrow> store (put_char (ci c) ob) s = store ob (c # s)"
  by (cases ob; cases "snd ob - 1") (auto simp: store_def put_char_def to_char_ci)

lemma str_loop_text:
  "rest lx = concat (map literal_char s) @ QUOTE # r \<Longrightarrow> \<forall>c \<in> set s. plain c
     \<Longrightarrow> str_loop True NORMAL_STR 0 ob lx = Ok (STR_END, store ob (filter ascii s), consume lx (literal_size s + 1))"
proof (induction s arbitrary: lx ob)
  case Nil
  have "peek lx 0 = ci QUOTE" using peek_at [of lx QUOTE r] Nil by (simp add: plain_def ci_def)
  moreover have "(ci QUOTE) \<noteq> -1" by (simp add: ci_def)
  ultimately show ?case by (simp add: str_loop.simps [of _ _ _ _ lx] str_loop.simps [of _ STR_END] str_char_def str_switch_def store_def literal_size_def)
next
  case (Cons c s)
  define ob2 where "ob2 = (if ascii c then put_char (ci c) ob else ob)"
  have st: "store ob2 (filter ascii s) = store ob (filter ascii (c # s))" using store_put by (simp add: ob2_def)
  show ?case
  proof (cases "esc_code c")
    case None
    have r: "rest lx = c # concat (map literal_char s) @ QUOTE # r" using Cons.prems(1) None by (simp add: literal_char_def [of c])
    have p: "peek lx 0 = ci c" "peek lx 0 \<noteq> -1" using peek_at [OF r] Cons.prems(2) by (simp_all add: plain_def)
    have sz: "literal_size (c # s) + 1 = Suc (literal_size s + 1)" using None by (simp add: literal_size_def)
    have IH: "str_loop True NORMAL_STR 0 ob2 (consume lx 1) = Ok (STR_END, store ob2 (filter ascii s), consume (consume lx 1) (literal_size s + 1))"
      by (rule Cons.IH) (use r Cons.prems(2) in auto)
    have "str_char True NORMAL_STR 0 ob (ci c) = Ok (NORMAL_STR, 0, ob2)" using esc_code_None [OF None] by (auto simp: str_char_def str_switch_def ob2_def)
    then show ?thesis unfolding sz consume_Suc [of lx "literal_size s + 1"] st [symmetric]
      using IH p by (simp add: str_loop.simps [of _ _ _ _ lx])
  next
    case (Some d)
    note e = esc_code_lexed [OF Some, of 0]
    have r: "rest lx = BACKSLASH # d # concat (map literal_char s) @ QUOTE # r" using Cons.prems(1) Some by (simp add: literal_char_def [of c])
    have p: "peek lx 0 = ci BACKSLASH" using peek_at [OF r] by (simp add: plain_def ci_def)
    have p2: "peek (consume lx 1) 0 = ci d" "ci d \<noteq> -1" using peek_at [of "consume lx 1" d] r e by (simp_all add: plain_def)
    have sz: "literal_size (c # s) + 1 = Suc (Suc (literal_size s + 1))" using Some by (simp add: literal_size_def)
    have IH: "str_loop True NORMAL_STR 0 ob2 (consume (consume lx 1) 1) = Ok (STR_END, store ob2 (filter ascii s), consume (consume (consume lx 1) 1) (literal_size s + 1))"
      by (rule Cons.IH) (use r Cons.prems(2) in auto)
    have c1: "str_char True NORMAL_STR 0 ob (ci BACKSLASH) = Ok (ESC_BEGIN, 0, ob)" by (simp add: str_char_def str_switch_def)
    have c2: "str_char True ESC_BEGIN 0 ob (ci d) = Ok (NORMAL_STR, 0, ob2)" using e by (simp add: str_char_def ob2_def)
    have "str_loop True ESC_BEGIN 0 ob (consume lx 1) = str_loop True NORMAL_STR 0 ob2 (consume (consume lx 1) 1)"
      using p2 c2 by (simp add: str_loop.simps [of True ESC_BEGIN 0 ob "consume lx (Suc 0)"])
    moreover have "str_loop True NORMAL_STR 0 ob lx = str_loop True ESC_BEGIN 0 ob (consume lx 1)"
      using p c1 by (simp add: str_loop.simps [of True NORMAL_STR 0 ob lx]) (simp add: ci_def)
    ultimately show ?thesis unfolding sz consume_Suc [of lx "Suc (literal_size s + 1)"] consume_Suc [of "consume lx 1"] st [symmetric] using IH by simp
  qed
qed

subsection \<open>Lexemes\<close>

datatype lexeme = LKey keyword | LIdent string | LInt nat | LStr string | LOp token_type

definition op_table :: "(string \<times> token_type) list" where
  "op_table = [(''('', TOKEN_LPARENTHESIS), ('')'', TOKEN_RPARENTHESIS), (''{'', TOKEN_LBRACE), (''}'', TOKEN_RBRACE), ('';'', TOKEN_SEMICOLON),
     ('','', TOKEN_COMMA), (''['', TOKEN_LBRACKET), ('']'', TOKEN_RBRACKET), (''&&'', TOKEN_AND), (''||'', TOKEN_OR), (''!='', TOKEN_NE), (''!'', TOKEN_NOT),
     (''=='', TOKEN_EQUALEQUAL), (''='', TOKEN_EQUAL), (''>='', TOKEN_GE), (''>>>'', TOKEN_TRIPLE_GT), (''>'', TOKEN_GT), (''<='', TOKEN_LE), (''<'', TOKEN_LT),
     ('':='', TOKEN_COLON_EQUAL), ('':'', TOKEN_COLON), (''++'', TOKEN_INCREASE), (''+='', TOKEN_ADD_EQUAL), (''+'', TOKEN_ADD), (''->'', TOKEN_ARROW),
     (''--'', TOKEN_DECREASE), (''-='', TOKEN_MINUS_EQUAL), (''-'', TOKEN_MINUS), (''*='', TOKEN_TIMES_EQUAL), (''*'', TOKEN_TIMES), (''/='', TOKEN_DIVIDE_EQUAL),
     (''/'', TOKEN_DIVIDE), (''%='', TOKEN_MODULAR_EQUAL), (''%'', TOKEN_MODULAR)]"

fun lexeme_ok :: "lexeme \<Rightarrow> bool" where
  "lexeme_ok (LKey k) = True"
| "lexeme_ok (LIdent s) = (s \<noteq> [] \<and> (\<forall>c \<in> set s. id_char c) \<and> \<not> in_range CHR ''0'' CHR ''9'' (ci (hd s)) \<and> s \<notin> fst ` set keyword_table)"
| "lexeme_ok (LInt n) = (n < 2 ^ 63)"
| "lexeme_ok (LStr s) = (\<forall>c \<in> set s. plain c)"
| "lexeme_ok (LOp ty) = (ty \<in> snd ` set op_table)"

fun lexeme_text :: "lexeme \<Rightarrow> string" where
  "lexeme_text (LKey k) = (case find (\<lambda>(_, l). l = k) keyword_table of Some (s, _) \<Rightarrow> s | None \<Rightarrow> [])"
| "lexeme_text (LIdent s) = s"
| "lexeme_text (LInt n) = dec_text n"
| "lexeme_text (LStr s) = (case pss_string_literal True (Some s) None of Ok t \<Rightarrow> t | _ \<Rightarrow> [])"
| "lexeme_text (LOp ty) = (case find (\<lambda>(_, t). t = ty) op_table of Some (s, _) \<Rightarrow> s | None \<Rightarrow> [])"

text \<open>The token that the lexer is to give; an operator leaves the value of the token as it was.\<close>

fun lexeme_token :: "lexeme \<Rightarrow> lex_token \<Rightarrow> lex_token" where
  "lexeme_token (LKey k) tok = tok\<lparr>tk_type := TOKEN_KEYWORD, tk_value := KeyVal k\<rparr>"
| "lexeme_token (LIdent s) tok = tok\<lparr>tk_type := TOKEN_IDENTIFIER, tk_value := StrVal (take 4095 s)\<rparr>"
| "lexeme_token (LInt n) tok = tok\<lparr>tk_type := TOKEN_INTEGER, tk_value := IntVal (int n)\<rparr>"
| "lexeme_token (LStr s) tok = tok\<lparr>tk_type := TOKEN_STRING, tk_value := StrVal (take 4095 (filter ascii s))\<rparr>"
| "lexeme_token (LOp ty) tok = tok\<lparr>tk_type := ty\<rparr>"

text \<open>A word is not one of the other tokens.\<close>

lemma word_switch: "id_char c \<Longrightarrow> \<not> in_range CHR ''0'' CHR ''9'' (ci c) \<Longrightarrow> peek lx 0 = ci c \<Longrightarrow> token_switch lx tok = word_token lx tok"
proof -
  have "\<forall>d \<in> set ''(){};,[]&|!=><:+-*/%@''. \<not> id_char d" "\<not> id_char QUOTE" by (simp_all add: in_id_charset_def in_range_def ci_def)
  moreover assume "id_char c" "\<not> in_range CHR ''0'' CHR ''9'' (ci c)" "peek lx 0 = ci c"
  moreover have "ci c \<noteq> -1" using id_char_plain \<open>id_char c\<close> by (simp add: plain_def)
  ultimately show ?thesis by (auto simp: token_switch_def single_tokens_def op_token_def Let_def)
qed

lemma word_text:
  assumes "rest lx = u @ w # r" and "\<forall>c \<in> set u. id_char c" and "u \<noteq> []" and "\<not> in_range CHR ''0'' CHR ''9'' (ci (hd u))" and w: "white w"
  shows "token_switch lx tok = (case map_of keyword_table u of Some k \<Rightarrow> Ok (consume lx (length u), lexeme_token (LKey k) tok)
     | None \<Rightarrow> Ok (consume lx (length u), lexeme_token (LIdent u) tok))"
proof -
  have c: "id_char (hd u)" "peek lx 0 = ci (hd u)"
    using assms(1-3) peek_at [of lx "hd u" "tl u @ w # r"] id_char_plain by (cases u; simp)+
  have w2: "plain w" "\<not> id_char w" using white_plain [OF w] white_not_id [OF w] by blast+
  have "find_keyword lx keyword_table = map_option (\<lambda>k. (k, consume lx (length u))) (map_of keyword_table u)"
    by (rule find_keyword_text [OF assms(1,2) w2 keyword_chars])
  moreover have "id_loop ([], TOKEN_SIZE) lx = (take 4095 u, consume lx (length u))" using id_loop_text [OF assms(1,2) w2, of "[]" TOKEN_SIZE] by (simp add: TOKEN_SIZE_def)
  moreover have "take 4095 u \<noteq> []" using assms(3) by simp
  ultimately show ?thesis using word_switch [OF c(1) assms(4) c(2)] by (auto simp: word_token_def id_or_keyword_def split: option.splits)
qed

lemma white_not_op: "white w \<Longrightarrow> w \<notin> {CHR ''&'', CHR ''|'', CHR ''='', CHR ''>'', CHR ''+'', CHR ''-'', CHR ''/'', CHR ''*''}"
  by auto

lemma op_chars: "\<forall>(s, ty) \<in> set op_table. s \<noteq> [] \<and> (\<forall>c \<in> set s. plain c \<and> c \<noteq> CHR ''#'' \<and> \<not> white c) \<and> s \<noteq> ''//'' \<and> s \<noteq> ''/*'' \<and> (hd s = CHR ''/'' \<longrightarrow> s = ''/'' \<or> s = ''/='')"
  by (simp add: op_table_def plain_def ci_def)

lemma op_token_eqs:
  "op_token (ci CHR ''&'') lx tok = Some (if peek lx 1 = ci CHR ''&'' then take_op 2 TOKEN_AND lx tok else fail_op ''Invalid token'' TOKEN_AND lx tok)"
  "op_token (ci CHR ''|'') lx tok = Some (if peek lx 1 = ci CHR ''|'' then take_op 2 TOKEN_OR lx tok else fail_op ''Invalid token'' TOKEN_OR lx tok)"
  "op_token (ci CHR ''!'') lx tok = Some (if peek lx 1 = ci CHR ''='' then take_op 2 TOKEN_NE lx tok else take_op 1 TOKEN_NOT lx tok)"
  "op_token (ci CHR ''='') lx tok = Some (if peek lx 1 = ci CHR ''='' then take_op 2 TOKEN_EQUALEQUAL lx tok else take_op 1 TOKEN_EQUAL lx tok)"
  "op_token (ci CHR ''>'') lx tok = Some (if peek lx 1 = ci CHR ''='' then take_op 2 TOKEN_GE lx tok else if peek lx 1 = ci CHR ''>'' \<and> peek lx 2 = ci CHR ''>'' then take_op 3 TOKEN_TRIPLE_GT lx tok else take_op 1 TOKEN_GT lx tok)"
  "op_token (ci CHR ''<'') lx tok = Some (if peek lx 1 = ci CHR ''='' then take_op 2 TOKEN_LE lx tok else take_op 1 TOKEN_LT lx tok)"
  "op_token (ci CHR '':'') lx tok = Some (if peek lx 1 = ci CHR ''='' then take_op 2 TOKEN_COLON_EQUAL lx tok else take_op 1 TOKEN_COLON lx tok)"
  "op_token (ci CHR ''+'') lx tok = Some (if peek lx 1 = ci CHR ''+'' then take_op 2 TOKEN_INCREASE lx tok else if peek lx 1 = ci CHR ''='' then take_op 2 TOKEN_ADD_EQUAL lx tok else take_op 1 TOKEN_ADD lx tok)"
  "op_token (ci CHR ''-'') lx tok = Some (if peek lx 1 = ci CHR ''>'' then take_op 2 TOKEN_ARROW lx tok else if peek lx 1 = ci CHR ''-'' then take_op 2 TOKEN_DECREASE lx tok else if peek lx 1 = ci CHR ''='' then take_op 2 TOKEN_MINUS_EQUAL lx tok else take_op 1 TOKEN_MINUS lx tok)"
  "op_token (ci CHR ''*'') lx tok = Some (if peek lx 1 = ci CHR ''='' then take_op 2 TOKEN_TIMES_EQUAL lx tok else take_op 1 TOKEN_TIMES lx tok)"
  "op_token (ci CHR ''/'') lx tok = Some (if peek lx 1 = ci CHR ''='' then take_op 2 TOKEN_DIVIDE_EQUAL lx tok else take_op 1 TOKEN_DIVIDE lx tok)"
  "op_token (ci CHR ''%'') lx tok = Some (if peek lx 1 = ci CHR ''='' then take_op 2 TOKEN_MODULAR_EQUAL lx tok else take_op 1 TOKEN_MODULAR lx tok)"
  by (simp_all add: op_token_def Let_def)

lemma switch_op: "peek lx 0 = ci c \<Longrightarrow> c \<in> set ''&|!=><:+-*/%'' \<Longrightarrow> token_switch lx tok = (case op_token (ci c) lx tok of Some r \<Rightarrow> r | None \<Rightarrow> Undef)"
proof -
  assume p: "peek lx 0 = ci c" and c: "c \<in> set ''&|!=><:+-*/%''"
  have "ci c \<noteq> -1" using c by (auto simp: ci_def)
  moreover have "find (\<lambda>(d, _). ci c = ci d) single_tokens = None" using c by (auto simp: single_tokens_def)
  moreover have "op_token (ci c) lx tok \<noteq> None" using c by (auto simp: op_token_eqs)
  ultimately show ?thesis using p by (auto simp: token_switch_def)
qed

lemma switch_single: "peek lx 0 = ci c \<Longrightarrow> (c, ty) \<in> set single_tokens \<Longrightarrow> token_switch lx tok = take_op 1 ty lx tok"
proof -
  assume p: "peek lx 0 = ci c" and c: "(c, ty) \<in> set single_tokens"
  have "ci c \<noteq> -1" using c by (auto simp: single_tokens_def ci_def)
  moreover have "find (\<lambda>(d, _). ci c = ci d) single_tokens = Some (c, ty)" using c by (auto simp: single_tokens_def)
  ultimately show ?thesis using p by (simp add: token_switch_def)
qed

lemma op_kinds: "\<forall>(s, ty) \<in> set op_table. length s = 1 \<and> (hd s, ty) \<in> set single_tokens \<or> hd s \<in> set ''&|!=><:+-*/%''"
  by (simp add: op_table_def single_tokens_def)

lemma op_token_table:
  assumes w: "white w"
  shows "\<forall>(s, ty) \<in> set op_table. hd s \<in> set ''&|!=><:+-*/%'' \<longrightarrow> peek lx 1 = ci ((s @ [w]) ! 1) \<longrightarrow> (2 \<le> length s \<longrightarrow> peek lx 2 = ci ((s @ [w]) ! 2))
     \<longrightarrow> op_token (ci (hd s)) lx tok = Some (take_op (length s) ty lx tok)"
  using white_not_op [OF w] by (simp add: op_table_def op_token_eqs) (simp add: numeral_eq_Suc)

lemma op_switch:
  assumes "(s, ty) \<in> set op_table" and r: "rest lx = s @ w # r" and w: "white w"
  shows "token_switch lx tok = take_op (length s) ty lx tok"
proof -
  have all: "\<forall>c \<in> set (s @ [w]). plain c" using bspec [OF op_chars assms(1)] white_plain [OF w] by simp
  have pk: "peek lx i = ci ((s @ [w]) ! i)" if "i < Suc (length s)" for i
  proof -
    have "rest lx ! i = (s @ [w]) ! i" "i < length (rest lx)" using that r by (auto simp: nth_append)
    moreover have "(s @ [w]) ! i \<in> set (s @ [w])" using that by (intro nth_mem) simp
    then have "plain ((s @ [w]) ! i)" using all by blast
    ultimately show ?thesis using peek_rest [of i lx] by simp
  qed
  have s: "s \<noteq> []" using bspec [OF op_chars assms(1)] by simp
  then have p0: "peek lx 0 = ci (hd s)" using pk [of 0] by (simp add: hd_conv_nth nth_append)
  consider "length s = 1" "(hd s, ty) \<in> set single_tokens" | "hd s \<in> set ''&|!=><:+-*/%''" using bspec [OF op_kinds assms(1)] unfolding split by blast
  then show ?thesis
  proof cases
    case 1
    then show ?thesis using switch_single [OF p0] by simp
  next
    case 2
    have "1 \<le> length s" using s by (simp add: Suc_leI)
    then have "op_token (ci (hd s)) lx tok = Some (take_op (length s) ty lx tok)"
      using bspec [OF op_token_table [OF w] assms(1), of lx tok] 2 pk [of 1] pk [of 2] unfolding split less_Suc_eq_le by blast
    then show ?thesis using switch_op [OF p0 2] by simp
  qed
qed

lemma digit_switch: "d < 10 \<Longrightarrow> peek lx 0 = ci (dec_digit d) \<Longrightarrow> token_switch lx tok = num_token lx tok"
proof -
  assume d: "d < 10" and p: "peek lx 0 = ci (dec_digit d)"
  have r: "in_range CHR ''0'' CHR ''9'' (ci (dec_digit d))" using ci_digit [OF d] d by (simp add: in_range_def ci_def)
  have no: "\<forall>c \<in> set ''(){};,[]&|!=><:+-*/%@''. \<not> in_range CHR ''0'' CHR ''9'' (ci c)" by (simp add: in_range_def ci_def)
  have "\<forall>c \<in> set ''(){};,[]&|!=><:+-*/%@''. dec_digit d \<noteq> c" using no r by blast
  moreover have "dec_digit d \<noteq> QUOTE" "ci (dec_digit d) \<noteq> -1" using r by (auto simp: in_range_def ci_def)
  ultimately show ?thesis using r p by (simp add: token_switch_def single_tokens_def op_token_def Let_def)
qed

lemma quote_switch: "peek lx 0 = ci QUOTE \<Longrightarrow> token_switch lx tok = str_token True lx tok"
proof -
  assume p: "peek lx 0 = ci QUOTE"
  have "ci QUOTE \<noteq> -1" by (simp add: ci_def)
  then show ?thesis using p by (simp add: token_switch_def single_tokens_def op_token_def)
qed

lemma find_snd: "k \<in> snd ` set tb \<Longrightarrow> \<exists>s. find (\<lambda>(_, l). l = k) tb = Some (s, k) \<and> (s, k) \<in> set tb"
  by (induction tb) auto

lemma keyword_facts: "\<forall>(s, k) \<in> set keyword_table. map_of keyword_table s = Some k \<and> s \<noteq> [] \<and> \<not> in_range CHR ''0'' CHR ''9'' (ci (hd s))"
  by (simp add: keyword_table_def in_range_def ci_def)

lemma key_text: "\<exists>s. lexeme_text (LKey k) = s \<and> (s, k) \<in> set keyword_table"
proof -
  have "k \<in> snd ` set keyword_table" by (cases k) (simp_all add: keyword_table_def)
  then show ?thesis using find_snd [of k keyword_table] by auto
qed

lemma literal_text: "lexeme_text (LStr s) = QUOTE # concat (map literal_char s) @ [QUOTE]"
  by (simp add: pss_string_literal_def literal_length)

lemma lexeme_switch:
  assumes ok: "lexeme_ok l" and r: "rest lx = lexeme_text l @ w # r" and w: "white w"
  shows "token_switch lx tok = Ok (consume lx (length (lexeme_text l)), lexeme_token l tok)"
proof (cases l)
  case (LKey k)
  obtain s where s: "lexeme_text (LKey k) = s" "(s, k) \<in> set keyword_table" using key_text by blast
  note f = bspec [OF keyword_facts s(2), unfolded split] bspec [OF keyword_chars s(2), unfolded split]
  show ?thesis using word_text [of lx s w r tok] r w f s(1) LKey by simp
next
  case (LIdent s)
  then have "map_of keyword_table s = None" using ok by (simp add: map_of_eq_None_iff)
  then show ?thesis using word_text [of lx s w r tok] r w ok LIdent by simp
next
  case (LInt n)
  obtain d ds where t: "dec_text n = dec_digit d # ds" "d < 10" using dec_text_head by blast
  have "token_switch lx tok = num_token lx tok" using digit_switch [OF t(2)] peek_at [of lx "dec_digit d"] r LInt t digit_facts [OF t(2)] by simp
  moreover have "lex_num lx = Ok (True, Some (int n), consume lx (length (dec_text n)))" using lex_num_text [OF _ w] r ok LInt by simp
  ultimately show ?thesis using LInt by (simp add: num_token_def)
next
  case (LStr s)
  have r2: "rest lx = QUOTE # concat (map literal_char s) @ QUOTE # w # r" using r LStr literal_text [of s] by simp
  have p: "peek lx 0 = ci QUOTE" using peek_at [OF r2] by (simp add: plain_def ci_def)
  have "str_loop True NORMAL_STR 0 ([], TOKEN_SIZE) (consume lx 1) = Ok (STR_END, store ([], TOKEN_SIZE) (filter ascii s), consume (consume lx 1) (literal_size s + 1))"
    by (rule str_loop_text [where r = "w # r"]) (use r2 ok LStr in auto)
  then have "lex_str TOKEN_SIZE True lx = Ok (True, take 4095 (filter ascii s), consume lx (Suc (literal_size s + 1)))"
    using p consume_Suc [of lx "literal_size s + 1"] by (simp add: lex_str_def store_def TOKEN_SIZE_def)
  then show ?thesis using quote_switch [OF p] LStr literal_text [of s] literal_length [of s] by (simp add: str_token_def)
next
  case (LOp ty)
  then obtain s where "find (\<lambda>(_, t). t = ty) op_table = Some (s, ty)" "(s, ty) \<in> set op_table" using find_snd [of ty op_table] ok by auto
  then show ?thesis using op_switch [of s ty lx w r tok] r w LOp by (simp add: take_op_def)
qed

lemma lexeme_no_comment:
  assumes ok: "lexeme_ok l" and w: "white w"
  shows "no_comment (lexeme_text l @ w # r)"
proof -
  have id: "plain c \<and> \<not> white c \<and> c \<noteq> CHR ''#'' \<and> c \<noteq> CHR ''/''" if "id_char c" for c
    using that id_char_plain white_not_id [of c] by (auto simp: in_id_charset_def in_range_def ci_def)
  have head: "no_comment (c # t)" if "plain c \<and> \<not> white c \<and> c \<noteq> CHR ''#'' \<and> c \<noteq> CHR ''/''" for c t using that by (simp add: no_comment_def)
  show ?thesis
  proof (cases l)
    case (LKey k)
    obtain s where s: "lexeme_text (LKey k) = s" "(s, k) \<in> set keyword_table" using key_text by blast
    have "s \<noteq> []" "id_char (hd s)" using bspec [OF keyword_facts s(2), unfolded split] bspec [OF keyword_chars s(2), unfolded split] by simp_all
    then show ?thesis using head [OF id [of "hd s"], of "tl s @ w # r"] s(1) LKey by (cases s) simp_all
  next
    case (LIdent s)
    then show ?thesis using head [OF id [of "hd s"], of "tl s @ w # r"] ok by (cases s) simp_all
  next
    case (LInt n)
    obtain d ds where t: "dec_text n = dec_digit d # ds" "d < 10" using dec_text_head by blast
    have "id_char (dec_digit d)" using ci_digit [OF t(2)] t(2) by (simp add: in_id_charset_def in_range_def ci_def [of "CHR ''0''"] ci_def [of "CHR ''9''"])
    then show ?thesis using head [OF id] t(1) LInt by simp
  next
    case (LStr s)
    have "plain QUOTE" by (simp add: plain_def ci_def)
    then show ?thesis using head [of QUOTE] literal_text [of s] LStr by simp
  next
    case (LOp ty)
    then obtain s where s: "find (\<lambda>(_, t). t = ty) op_table = Some (s, ty)" "(s, ty) \<in> set op_table" using find_snd [of ty op_table] ok by auto
    note f = bspec [OF op_chars s(2), unfolded split]
    have "plain (CHR ''='')" by (simp add: plain_def ci_def)
    moreover have "plain (CHR ''/'')" by (simp add: plain_def ci_def)
    ultimately have slash: "no_comment (s @ w # r)" if "s = ''/'' \<or> s = ''/=''" using that white_plain [OF w] white_not_op [OF w] by (elim disjE) (simp_all add: no_comment_def)
    have "no_comment (s @ w # r)"
    proof (cases "hd s = CHR ''/''")
      case True
      then show ?thesis using f slash by blast
    next
      case False
      have "hd s \<in> set s" using f by simp
      then have "plain (hd s) \<and> \<not> white (hd s) \<and> hd s \<noteq> CHR ''#'' \<and> hd s \<noteq> CHR ''/''" using f False by blast
      then show ?thesis using head [of "hd s" "tl s @ w # r"] f by (metis append_Cons list.collapse)
    qed
    then show ?thesis using s(1) LOp by simp
  qed
qed

end
