(* ===== verification/PssLexProps.thy ===== *)
theory PssLexProps
  imports PssLexPrint
begin

text \<open>
  The properties of the lexer: a call returns and makes progress, the places of the tokens are right, and
  a printed script is read back.
\<close>

subsection \<open>Reachable states\<close>

inductive lex_reach :: "lexer \<Rightarrow> bool" where
  start: "pss_comp_lex_new mem filename buffer = Some lx \<Longrightarrow> lex_reach lx"
| call: "lex_reach lx \<Longrightarrow> pss_comp_lex_next_token lx tok = Ok (lx', tok') \<Longrightarrow> lex_reach lx'"

lemma op_token_moves: "op_token ch lx tok = Some (Ok (lx', tok')) \<Longrightarrow> moves lx lx' \<and> same_place tok tok'"
  by (auto simp: op_token_def Let_def take_op_def fail_op_def same_place_def moves_consume moves_refl split: if_splits)

lemma str_token_moves:
  assumes "str_token esc lx tok = Ok (lx', tok')"
  shows "moves lx lx' \<and> same_place tok tok'"
proof -
  obtain ok s z where z: "lex_str TOKEN_SIZE esc lx = Ok (ok, s, z)" "lx' = (if ok then z else lex_fail ''Invalid string'' z)"
    "tok' = tok\<lparr>tk_type := TOKEN_STRING, tk_value := StrVal s\<rparr>" using assms by (auto simp: str_token_def rmap_eq_Ok)
  have "moves lx z" using z(1) by (auto simp: lex_str_def rmap_eq_Ok moves_refl split: if_splits dest!: str_loop_moves intro: moves_first)
  then show ?thesis using z(2,3) by (simp add: same_place_def)
qed

lemma num_token_moves:
  assumes "num_token lx tok = Ok (lx', tok')"
  shows "moves lx lx' \<and> same_place tok tok'"
proof -
  obtain ok n z where z: "lex_num lx = Ok (ok, n, z)" "lx' = (if ok then z else lex_fail ''Invalid number'' z)"
    "tok' = tok\<lparr>tk_type := TOKEN_INTEGER, tk_value := (case n of None \<Rightarrow> tk_value tok | Some n \<Rightarrow> IntVal n)\<rparr>" using assms by (auto simp: num_token_def rmap_eq_Ok)
  have "moves lx z" using z(1)
    by (auto simp: lex_num_def rmap_eq_Ok moves_refl moves_consume split: if_splits dest!: num_loop_moves intro: moves_first)
  then show ?thesis using z(2,3) by (simp add: same_place_def)
qed

lemma word_token_moves: "word_token lx tok = Ok (lx', tok') \<Longrightarrow> moves lx lx' \<and> same_place tok tok'"
  using id_loop_moves [of lx "([], TOKEN_SIZE)"]
  by (auto simp: word_token_def id_or_keyword_def same_place_def moves_consume moves_refl split: option.splits prod.splits if_splits dest!: find_keyword_consumes)

lemma at_token_moves:
  assumes "at_token lx tok = Ok (lx', tok')"
  shows "moves lx lx' \<and> same_place tok tok'"
proof -
  obtain pos s z where z: "dot_loop DOT_CODE 1 True ([], TOKEN_SIZE) (consume lx 2) = (pos, s, z)" by (metis prod_cases3)
  have "moves lx z" using dot_loop_moves [of "consume lx 2" DOT_CODE 1 True "([], TOKEN_SIZE)"] z by (auto intro: moves_first)
  then show ?thesis using assms z
    by (auto simp: at_token_def graphviz_prop_def fail_op_def same_place_def moves_refl split: if_splits dest!: str_token_moves intro: moves_first)
qed

lemma token_switch_moves: "token_switch lx tok = Ok (lx', tok') \<Longrightarrow> moves lx lx' \<and> same_place tok tok'"
  using op_token_moves [of "peek lx 0" lx tok lx' tok'] at_token_moves [of lx tok lx' tok'] str_token_moves [of True lx tok lx' tok']
    num_token_moves [of lx tok lx' tok'] word_token_moves [of lx tok lx' tok']
  by (auto simp: token_switch_def Let_def take_op_def same_place_def moves_consume moves_refl split: if_splits option.splits)

text \<open>A call: white space and comments, then the token; or a comment that does not end.\<close>

lemma next_token_moves:
  assumes "pss_comp_lex_next_token lx tok = Ok (lx', tok')"
  shows "moves lx lx' \<and> (lx_error lx' \<and> tok' = tok \<or>
    (\<exists>y. moves lx y \<and> moves y lx' \<and> tk_file tok' = lx_filename y \<and> tk_line tok' = lx_line y \<and> tk_offset tok' = lx_offset y))"
proof -
  obtain ok y where c: "comments_or_ws lx = (ok, y)" by (metis surj_pair)
  have y: "moves lx y" using comments_moves [of lx] c by simp
  show ?thesis
  proof (cases ok)
    case False
    then show ?thesis using assms c y by (auto simp: pss_comp_lex_next_token_def)
  next
    case True
    then obtain z t where t: "token_switch y (tok\<lparr>tk_file := lx_filename y, tk_line := lx_line y, tk_offset := lx_offset y\<rparr>) = Ok (z, t)"
      "(lx', tok') = (if lx_error z then (z\<lparr>lx_error := False\<rparr>, t\<lparr>tk_type := TOKEN_ERROR, tk_value := ErrVal (lx_errstr z)\<rparr>) else (z, t))"
      using assms c by (auto simp: pss_comp_lex_next_token_def rmap_eq_Ok)
    have m: "moves y z" "tk_file t = lx_filename y" "tk_line t = lx_line y" "tk_offset t = lx_offset y"
      using token_switch_moves [OF t(1)] by (simp_all add: same_place_def)
    then have "moves y lx'" "tk_file tok' = lx_filename y \<and> tk_line tok' = lx_line y \<and> tk_offset tok' = lx_offset y" using t(2) by (auto split: if_splits)
    then show ?thesis using moves_trans [OF y] y by blast
  qed
qed

lemma reach_pos: "lex_reach lx \<Longrightarrow> pos_ok lx"
proof (induction rule: lex_reach.induct)
  case (start mem filename buffer lx)
  then show ?case by (auto simp: pss_comp_lex_new_def pos_ok_def line_at_def offset_at_def split: option.splits if_splits)
next
  case (call lx tok lx' tok')
  then show ?case using next_token_moves moves_pos by blast
qed

subsection \<open>Progress\<close>

lemma next_token_takes:
  assumes short: "short_numbers (lx_buffer lx)"
  shows "\<exists>lx' tok'. pss_comp_lex_next_token lx tok = Ok (lx', tok')
    \<and> (lx_error lx' \<or> tk_type tok' \<in> {TOKEN_EOF, TOKEN_ERROR} \<or> lx_next lx < lx_next lx') \<and> (str_fits (tk_value tok) \<longrightarrow> str_fits (tk_value tok'))"
proof -
  obtain ok y where c: "comments_or_ws lx = (ok, y)" by (metis surj_pair)
  have y: "lx_buffer y = lx_buffer lx" "lx_next lx \<le> lx_next y" using comments_moves [of lx] moves_next [of lx y] c by simp_all
  show ?thesis
  proof (cases ok)
    case False
    then show ?thesis using c by (simp add: pss_comp_lex_next_token_def)
  next
    case True
    let ?t = "tok\<lparr>tk_file := lx_filename y, tk_line := lx_line y, tk_offset := lx_offset y\<rparr>"
    obtain z t where t: "token_switch y ?t = Ok (z, t)" "lx_error z \<or> tk_type t = TOKEN_EOF \<or> lx_next y < lx_next z" "str_fits (tk_value tok) \<longrightarrow> str_fits (tk_value t)"
      using token_switch_takes [of y ?t] short y(1) by (auto simp: takes_def)
    show ?thesis
    proof (cases "lx_error z")
      case e: True
      then show ?thesis using c True t(1) by (simp add: pss_comp_lex_next_token_def)
    next
      case e: False
      then show ?thesis using c True t y(2) by (auto simp: pss_comp_lex_next_token_def)
    qed
  qed
qed

text \<open>The tokens of a number of calls.\<close>

primrec lex_calls :: "nat \<Rightarrow> lexer \<Rightarrow> lex_token \<Rightarrow> (lex_token list \<times> lexer) result" where
  "lex_calls 0 lx tok = Ok ([], lx)"
| "lex_calls (Suc n) lx tok = rbind (pss_comp_lex_next_token lx tok) (\<lambda>(lx, tok). rmap (\<lambda>(ts, lx). (tok # ts, lx)) (lex_calls n lx tok))"

definition lexing_over :: "lex_token list \<Rightarrow> lexer \<Rightarrow> bool" where
  "lexing_over ts lx \<longleftrightarrow> ts \<noteq> [] \<and> (lx_error lx \<or> tk_type (last ts) \<in> {TOKEN_EOF, TOKEN_ERROR})"

lemma lex_calls_end:
  assumes "short_numbers (lx_buffer lx)" and "pos_ok lx"
  shows "\<exists>n \<le> left lx + 1. \<exists>ts lx'. lex_calls n lx tok = Ok (ts, lx') \<and> lexing_over ts lx'"
  using assms
proof (induction "left lx" arbitrary: lx tok rule: less_induct)
  case less
  obtain lx' tok' where n: "pss_comp_lex_next_token lx tok = Ok (lx', tok')" "lx_error lx' \<or> tk_type tok' \<in> {TOKEN_EOF, TOKEN_ERROR} \<or> lx_next lx < lx_next lx'"
    using next_token_takes [OF less.prems(1)] by blast
  have m: "moves lx lx'" using next_token_moves [OF n(1)] by blast
  show ?case
  proof (cases "lx_error lx' \<or> tk_type tok' \<in> {TOKEN_EOF, TOKEN_ERROR}")
    case True
    then show ?thesis using n(1) by (intro exI [of _ 1]) (simp add: lexing_over_def)
  next
    case False
    have p: "pos_ok lx'" "lx_buffer lx' = lx_buffer lx" using moves_pos [OF m less.prems(2)] moves_next [OF m] by simp_all
    then have "left lx' < left lx" using n(2) False by (auto simp: pos_ok_def)
    then obtain k ts z where k: "k \<le> left lx' + 1" "lex_calls k lx' tok' = Ok (ts, z)" "lexing_over ts z"
      using less.hyps [of lx' tok'] less.prems(1) p by auto
    then have "lex_calls (Suc k) lx tok = Ok (tok' # ts, z)" "lexing_over (tok' # ts) z" using n(1) by (auto simp: lexing_over_def)
    moreover have "Suc k \<le> left lx + 1" using k(1) \<open>left lx' < left lx\<close> by simp
    ultimately show ?thesis by blast
  qed
qed

text \<open>C27: the lexer returns. In a script without eight hexadecimal digits in a row every call returns a token,
  which fits its buffer; a call that gives neither the end, nor an error, nor finds a comment without an
  end takes at least one character, and after at most one call more than there are characters left one
  of these comes.\<close>

theorem lexer_returns:
  assumes "lex_reach lx" and "short_numbers (lx_buffer lx)"
  shows "(\<exists>lx' tok'. pss_comp_lex_next_token lx tok = Ok (lx', tok') \<and> lx_next lx \<le> lx_next lx' \<and> lx_next lx' \<le> length (lx_buffer lx)
      \<and> (lx_error lx' \<or> tk_type tok' \<in> {TOKEN_EOF, TOKEN_ERROR} \<or> lx_next lx < lx_next lx') \<and> (str_fits (tk_value tok) \<longrightarrow> str_fits (tk_value tok')))
    \<and> (\<exists>n \<le> length (lx_buffer lx) - lx_next lx + 1. \<exists>ts lx'. lex_calls n lx tok = Ok (ts, lx') \<and> lexing_over ts lx')"
proof -
  obtain lx' tok' where n: "pss_comp_lex_next_token lx tok = Ok (lx', tok')" "lx_error lx' \<or> tk_type tok' \<in> {TOKEN_EOF, TOKEN_ERROR} \<or> lx_next lx < lx_next lx'"
    "str_fits (tk_value tok) \<longrightarrow> str_fits (tk_value tok')" using next_token_takes [OF assms(2)] by blast
  have m: "moves lx lx'" using next_token_moves [OF n(1)] by blast
  have "lx_next lx \<le> lx_next lx'" "lx_next lx' \<le> length (lx_buffer lx)" using moves_next [OF m] moves_pos [OF m reach_pos [OF assms(1)]] by (simp_all add: pos_ok_def)
  then show ?thesis using n lex_calls_end [OF assms(2) reach_pos [OF assms(1)], of tok] by blast
qed

text \<open>C28: the places are right. In every reachable state the line is the number of line breaks before the
  position and the offset the number of characters after the last one, and a token carries the line and
  the offset of a position that the call passed.\<close>

theorem lexer_places:
  assumes "lex_reach lx" and "pss_comp_lex_next_token lx tok = Ok (lx', tok')"
  shows "lx_next lx' \<le> length (lx_buffer lx') \<and> lx_line lx' = line_at (lx_buffer lx') (lx_next lx') \<and> lx_offset lx' = offset_at (lx_buffer lx') (lx_next lx')
    \<and> (lx_error lx' \<and> tok' = tok \<or> (\<exists>p. lx_next lx \<le> p \<and> p \<le> lx_next lx' \<and> tk_line tok' = line_at (lx_buffer lx') p \<and> tk_offset tok' = offset_at (lx_buffer lx') p))"
proof -
  note m = next_token_moves [OF assms(2)]
  have pos: "pos_ok lx" using reach_pos [OF assms(1)] .
  have "pos_ok lx'" using moves_pos m pos by blast
  moreover have "\<exists>p. lx_next lx \<le> p \<and> p \<le> lx_next lx' \<and> tk_line tok' = line_at (lx_buffer lx') p \<and> tk_offset tok' = offset_at (lx_buffer lx') p"
    if y: "moves lx y" "moves y lx'" "tk_line tok' = lx_line y" "tk_offset tok' = lx_offset y" for y
    using moves_next [OF y(1)] moves_next [OF y(2)] moves_pos [OF y(1) pos] y(3,4) by (intro exI [of _ "lx_next y"]) (simp add: pos_ok_def)
  ultimately show ?thesis using m by (auto simp: pos_ok_def)
qed

subsection \<open>Printing and reading\<close>

text \<open>A script as a list of lexemes, each followed by white space.\<close>

type_synonym script = "(lexeme \<times> string) list"

definition good_script :: "script \<Rightarrow> bool" where
  "good_script ls \<longleftrightarrow> (\<forall>(l, sep) \<in> set ls. lexeme_ok l \<and> sep \<noteq> [] \<and> (\<forall>c \<in> set sep. white c))"

definition script_text :: "script \<Rightarrow> string" where
  "script_text ls = concat (map (\<lambda>(l, sep). lexeme_text l @ sep) ls)"

text \<open>The token has the type and the value of the lexeme.\<close>

definition is_token :: "lexeme \<Rightarrow> lex_token \<Rightarrow> bool" where
  "is_token l t \<longleftrightarrow> lexeme_token l t = t"

lemma lexeme_token_is: "is_token l (lexeme_token l t)"
  by (cases l) (simp_all add: is_token_def)

lemma consume_error: "lx_error (consume lx n) = lx_error lx"
  by (induction lx n rule: consume.induct) (simp_all add: consume.simps(2) Let_def)

lemma next_lexeme:
  assumes r: "rest lx = ws @ lexeme_text l @ w # r" and ws: "\<forall>c \<in> set ws. white c" and l: "lexeme_ok l" and w: "white w" and e: "\<not> lx_error lx"
  shows "\<exists>lx' tok'. pss_comp_lex_next_token lx tok = Ok (lx', tok') \<and> is_token l tok' \<and> rest lx' = w # r \<and> \<not> lx_error lx'"
proof -
  let ?y = "consume lx (length ws)"
  let ?t = "tok\<lparr>tk_file := lx_filename ?y, tk_line := lx_line ?y, tk_offset := lx_offset ?y\<rparr>"
  let ?z = "consume ?y (length (lexeme_text l))"
  have "comments_or_ws lx = (True, ?y)" by (rule comments_text [OF r ws lexeme_no_comment [OF l w]])
  moreover have "token_switch ?y ?t = Ok (?z, lexeme_token l ?t)" by (rule lexeme_switch [OF l _ w]) (simp add: r)
  ultimately have "pss_comp_lex_next_token lx tok = Ok (?z, lexeme_token l ?t)" using e by (simp add: pss_comp_lex_next_token_def consume_error)
  then show ?thesis using lexeme_token_is r e by (intro exI) (auto simp: consume_error)
qed

lemma next_eof:
  assumes "rest lx = ws" and "\<forall>c \<in> set ws. white c" and e: "\<not> lx_error lx"
  shows "\<exists>lx' tok'. pss_comp_lex_next_token lx tok = Ok (lx', tok') \<and> tk_type tok' = TOKEN_EOF"
proof -
  have "comments_or_ws lx = (True, consume lx (length ws))" using comments_text [of lx ws "[]"] assms by (simp add: no_comment_def)
  moreover have "peek (consume lx (length ws)) 0 = -1" using peek_end assms(1) by simp
  ultimately show ?thesis using e by (simp add: pss_comp_lex_next_token_def token_switch_def take_op_def consume_error)
qed

lemma lex_script:
  assumes "good_script ls" and "rest lx = ws @ script_text ls" and "\<forall>c \<in> set ws. white c" and "\<not> lx_error lx"
  shows "\<exists>ts lx'. lex_calls (length ls) lx tok = Ok (ts, lx') \<and> list_all2 (\<lambda>(l, _) t. is_token l t) ls ts \<and> (\<forall>c \<in> set (rest lx'). white c) \<and> \<not> lx_error lx'"
  using assms
proof (induction ls arbitrary: lx tok ws)
  case Nil
  then show ?case by (simp add: script_text_def)
next
  case (Cons a ls)
  obtain l sep where a: "a = (l, sep)" by (metis surj_pair)
  have g: "lexeme_ok l" "sep \<noteq> []" "\<forall>c \<in> set sep. white c" "good_script ls" using Cons.prems(1) a by (auto simp: good_script_def)
  obtain w sp where sep: "sep = w # sp" using g(2) by (cases sep) auto
  have w: "white w" using g(3) unfolding sep by (rule bspec) simp
  have r: "rest lx = ws @ lexeme_text l @ w # sp @ script_text ls" using Cons.prems(2) a sep by (simp add: script_text_def)
  obtain lx' tok' where n: "pss_comp_lex_next_token lx tok = Ok (lx', tok')" "is_token l tok'" "rest lx' = w # sp @ script_text ls" "\<not> lx_error lx'"
    using next_lexeme [OF r Cons.prems(3) g(1) w Cons.prems(4)] by blast
  obtain ts z where "lex_calls (length ls) lx' tok' = Ok (ts, z)" "list_all2 (\<lambda>(l, _) t. is_token l t) ls ts" "\<forall>c \<in> set (rest z). white c" "\<not> lx_error z"
    using Cons.IH [OF g(4) _ g(3) n(4), of tok'] n(3) unfolding sep append_Cons by blast
  then show ?case using n(1,2) a by simp
qed

text \<open>C26: a printed script is read back. The text of a list of keywords, identifiers, numbers, strings and
  operators, with white space around them, is read as exactly these tokens and then the end: strings are
  printed by \<open>pss_string_literal\<close>, identifiers and strings are cut to the 4095 characters that a token has
  room for, and a string comes back without its bytes from 128 on.\<close>

theorem lex_print_roundtrip:
  assumes "good_script ls" and "\<forall>c \<in> set lead. white c" and "pss_comp_lex_new True filename (Some (lead @ script_text ls)) = Some lx"
  shows "\<exists>ts lx' lx'' eof. lex_calls (length ls) lx tok = Ok (ts, lx') \<and> list_all2 (\<lambda>(l, _) t. is_token l t) ls ts
    \<and> pss_comp_lex_next_token lx' tok' = Ok (lx'', eof) \<and> tk_type eof = TOKEN_EOF"
proof -
  have "rest lx = lead @ script_text ls" "\<not> lx_error lx" using assms(3) by (auto simp: pss_comp_lex_new_def rest_def)
  then obtain ts z where z: "lex_calls (length ls) lx tok = Ok (ts, z)" "list_all2 (\<lambda>(l, _) t. is_token l t) ls ts" "\<forall>c \<in> set (rest z). white c" "\<not> lx_error z"
    using lex_script [OF assms(1) _ assms(2)] by blast
  obtain z' eof where "pss_comp_lex_next_token z tok' = Ok (z', eof)" "tk_type eof = TOKEN_EOF" using next_eof [OF refl z(3,4)] by blast
  then show ?thesis using z(1,2) by blast
qed

subsection \<open>Examples\<close>

definition no_token :: lex_token where
  "no_token = \<lparr>tk_file = [], tk_line = 0, tk_offset = 0, tk_type = TOKEN_NAT, tk_value = NoVal\<rparr>"

definition lexer_on :: "string \<Rightarrow> lexer" where
  "lexer_on b = \<lparr>lx_error = False, lx_line = 0, lx_offset = 0, lx_next = 0, lx_errstr = [], lx_filename = ''test'', lx_buffer = b\<rparr>"

lemma lexer_on_new: "pss_comp_lex_new True ''test'' (Some b) = Some (lexer_on b)"
  by (simp add: pss_comp_lex_new_def lexer_on_def PATH_MAX_def)

lemma lexer_on_reach: "lex_reach (lexer_on b)"
  by (rule lex_reach.start [OF lexer_on_new])

definition greeting :: script where
  "greeting = [(LKey KEYWORD_VAR, '' ''), (LIdent ''x'', '' ''), (LOp TOKEN_EQUAL, '' ''), (LStr [CHR ''h'', CHR 0xC3, CHR 0xA9, LF], [LF])]"

theorem lex_print_roundtrip_witness:
  "script_text greeting = ''var x = '' @ [QUOTE, CHR ''h'', CHR 0xC3, CHR 0xA9, BACKSLASH, CHR ''n'', QUOTE, LF]
   \<and> (\<exists>ts lx'. lex_calls 4 (lexer_on (script_text greeting)) no_token = Ok (ts, lx') \<and> tk_value (ts ! 3) = StrVal [CHR ''h'', LF])"
proof
  show "script_text greeting = ''var x = '' @ [QUOTE, CHR ''h'', CHR 0xC3, CHR 0xA9, BACKSLASH, CHR ''n'', QUOTE, LF]" by code_simp
  have len: "length greeting = 4" by (simp add: greeting_def)
  have "good_script greeting"
    by (simp add: good_script_def greeting_def in_id_charset_def in_range_def keyword_table_def op_table_def plain_def ci_def)
  then obtain ts lx' where t: "lex_calls (length greeting) (lexer_on (script_text greeting)) no_token = Ok (ts, lx')" "list_all2 (\<lambda>(l, _) t. is_token l t) greeting ts"
    using lex_print_roundtrip [of greeting "[]" "''test''" "lexer_on (script_text greeting)" no_token no_token] by (auto simp: lexer_on_new)
  have "is_token (LStr [CHR ''h'', CHR 0xC3, CHR 0xA9, LF]) (ts ! 3)"
    using list_all2_nthD [OF t(2), of 3] by (simp add: greeting_def numeral_3_eq_3)
  then have "tk_value (ts ! 3) = StrVal [CHR ''h'', LF]" by (cases "ts ! 3") (simp add: is_token_def ci_def)
  then show "\<exists>ts lx'. lex_calls 4 (lexer_on (script_text greeting)) no_token = Ok (ts, lx') \<and> tk_value (ts ! 3) = StrVal [CHR ''h'', LF]"
    using t(1) len by metis
qed

theorem lexer_returns_witness:
  "lex_reach (lexer_on ''a b'') \<and> (\<exists>n \<le> 4. \<exists>ts lx'. lex_calls n (lexer_on ''a b'') no_token = Ok (ts, lx') \<and> lexing_over ts lx')"
proof -
  have "short_numbers ''a b''" by (simp add: short_numbers_def)
  moreover have "lx_buffer (lexer_on ''a b'') = ''a b''" "length (lx_buffer (lexer_on ''a b'')) - lx_next (lexer_on ''a b'') + 1 = 4" by (simp_all add: lexer_on_def)
  ultimately show ?thesis using conjunct2 [OF lexer_returns [OF lexer_on_reach [of "''a b''"], of no_token]] lexer_on_reach by metis
qed

theorem lexer_places_witness:
  "\<exists>lx' tok'. pss_comp_lex_next_token (lexer_on [LF, CHR ''a'', LF]) no_token = Ok (lx', tok') \<and> lx_line lx' = line_at (lx_buffer lx') (lx_next lx')"
proof -
  have "short_numbers (lx_buffer (lexer_on [LF, CHR ''a'', LF]))" by (simp add: short_numbers_def lexer_on_def)
  then obtain lx' tok' where n: "pss_comp_lex_next_token (lexer_on [LF, CHR ''a'', LF]) no_token = Ok (lx', tok')" using next_token_takes by blast
  then show ?thesis using lexer_places [OF lexer_on_reach n] by blast
qed

text \<open>What the lexer accepts or repeats although it should not: a string that does not end is a string, a comment
  that does not end gives the token before it once more, an octal escape takes the digit 8 and drops it
  together with the character after it, and an operator that is cut off is reported again and again
  because it is not consumed.\<close>

theorem lexer_oddities:
  "rmap (\<lambda>(ts, _). map (\<lambda>t. (tk_type t, tk_value t)) ts) (lex_calls 2 (lexer_on [QUOTE, CHR ''a'']) no_token)
     = Ok [(TOKEN_STRING, StrVal ''a''), (TOKEN_EOF, StrVal ''a'')]
   \<and> rmap (\<lambda>(ts, _). map (\<lambda>t. (tk_type t, tk_value t)) ts) (lex_calls 2 (lexer_on ''x /*'') no_token)
     = Ok [(TOKEN_IDENTIFIER, StrVal ''x''), (TOKEN_IDENTIFIER, StrVal ''x'')]
   \<and> rmap (\<lambda>(ts, _). map (\<lambda>t. (tk_type t, tk_value t)) ts) (lex_calls 1 (lexer_on [QUOTE, BACKSLASH, CHR ''8'', CHR ''z'', CHR ''y'', QUOTE]) no_token)
     = Ok [(TOKEN_STRING, StrVal ''y'')]
   \<and> rmap (\<lambda>(ts, _). map tk_type ts) (lex_calls 2 (lexer_on ''&'') no_token) = Ok [TOKEN_ERROR, TOKEN_ERROR]"
  by code_simp

text \<open>A number that does not fit 64 bits is not refused: its value overflows a signed integer, which is
  undefined. All numbers up to the largest one that fits are read exactly.\<close>

theorem large_number_undefined:
  "pss_comp_lex_next_token (lexer_on ''9223372036854775808 '') no_token = Undef
   \<and> rmap (\<lambda>(_, t). tk_value t) (pss_comp_lex_next_token (lexer_on ''9223372036854775807 '') no_token) = Ok (IntVal 9223372036854775807)"
  by code_simp

end
