(* ===== verification/Spec2Isabelle.thy ===== *)
theory Spec2Isabelle
  imports ServiceDump Step Rscope HashMap Kmp HttpStream EQueueConc AsyncProps TcpPoolProps PssFrameProps PssRegs PssLexProps
begin

text \<open>
  Plumber is a middleware that runs a service as a graph of servlets joined by pipes. A script
  describes the graph; the framework loads the servlets, checks and analyses the graph, and then, for
  every request that arrives at the input node, schedules one task per node, in the order in which
  their input pipes become ready. This development models the framework at the level of its C
  functions and proves what they promise to one another. Paths below are relative to \<^verbatim>\<open>src/\<close> of the
  repository.

  \<^bold>\<open>Conventions.\<close> \<open>Prelude\<close> has the type \<open>'a result\<close> of a C call: \<open>Ok\<close> is a normal return, \<open>Error\<close> the
  error code of \<^verbatim>\<open>include/error.h\<close> (\<open>ERROR_CODE\<close>, a NULL pointer), and \<open>Undef\<close> an access that C leaves
  undefined: a theorem that a call is \<open>Ok\<close> therefore says that it stays inside its memory. Fixed-width
  integers are words where they can wrap; sizes that are bounded by the memory that holds the counted
  objects are naturals. An allocator is a function from the number of the allocation (and its size) to
  whether it succeeds, so every failure path of the code is a path of the model. Calls into other
  programs (the dynamic loader, servlet callbacks, the pipe modules, the file descriptors) are
  arguments of the definitions. A loop whose termination is not structural is a \<open>function\<close> with a
  measure or a \<open>partial_function\<close> whose return is proved; there is no fuel in the development except
  the scripts of answers that stand for the operating system, which are finite lists.

  \<^bold>\<open>Utilities.\<close> \<open>Vector\<close>: the growable array of \<^verbatim>\<open>src/utils/vector.c\<close>, with the contract
  \<open>append_store\<close> that the tables built on it use. \<open>StrBuf\<close>: the bounded string builder of
  \<^verbatim>\<open>src/utils/string.c\<close>. \<open>HashMap\<close>: \<^verbatim>\<open>src/utils/hashmap.c\<close>, whose insertion and lookup satisfy the
  contract \<open>kv_store\<close>. \<open>Linked\<close>: intrusive doubly linked lists on a store, the representation the task
  table uses; the locale \<open>linked\<close> proves once that the pointer operations are list operations.
  \<open>Bitmask\<close>: the identifier allocator of \<^verbatim>\<open>src/utils/bitmask.c\<close>, a tree of words, with the contract
  \<open>id_allocator\<close> and the sizes for which it fails.

  \<^bold>\<open>Runtime.\<close> \<open>Pdt\<close> (\<^verbatim>\<open>src/runtime/pdt.c\<close>): the pipes of a servlet; the invariant of every reachable
  table, insertion and lookup. \<open>Stab\<close> (\<^verbatim>\<open>src/runtime/stab.c\<close>): the servlet table with its name spaces;
  loading, identifiers, owners. \<open>RuntimeTask\<close> (\<^verbatim>\<open>src/runtime/task.c\<close>): what a task owns, that the three
  tasks of an asynchronous servlet release every resource once, that a task runs once.

  \<^bold>\<open>Service.\<close> \<open>ServiceBuf\<close>, \<open>Service\<close>, \<open>Cnode\<close>, \<open>ServiceBuild\<close>, \<open>FdIo\<close>, \<open>ServiceDump\<close>
  (\<^verbatim>\<open>src/sched/service.c\<close>, \<^verbatim>\<open>src/sched/cnode.c\<close>): the buffer a script fills, the graph built from it,
  the check that it is connected and acyclic, the analysis of the nodes whose failure cuts others
  off, and the binary dump. \<open>Digraph\<close> is the abstract theory of finite graphs, interpreted on every
  service.

  \<^bold>\<open>Scheduler.\<close> \<open>SchedTask\<close> is the task table of \<^verbatim>\<open>src/sched/task.c\<close> at pointer level, \<open>TaskLists\<close> its
  refinement to queues and finite maps, \<open>Step\<close> the execution of one task by \<^verbatim>\<open>src/sched/step.c\<close>. \<open>Rscope\<close>
  (\<^verbatim>\<open>src/sched/rscope.c\<close>) is the table of objects shared by the tasks of a request.

  \<^bold>\<open>Events and asynchronous tasks.\<close> \<open>Ring\<close> is the contract of a ring of a power-of-two size with free
  running 32-bit positions; the three rings of the framework are interpretations of it. \<open>EQueue\<close> is the
  event queue of \<^verbatim>\<open>src/itc/equeue.c\<close>: its typing and its refinement to one queue per token. \<open>EQueueConc\<close>
  interleaves the accesses of a module thread and the dispatcher in a step relation and proves that the
  ring is first in, first out under every interleaving, what a missed wakeup costs, and what the
  finalization does. \<open>Async\<close>, \<open>AsyncAwait\<close> and \<open>AsyncProps\<close> are the async task processor of
  \<^verbatim>\<open>src/sched/async.c\<close>: handles, the wait list with its invariant, the queue of the tasks, a round of a
  thread, and what happens when an event is rejected or a task cannot be posted. The order of the memory
  accesses is the order of the program (sequential consistency), critical sections are atomic, and calls
  on mutexes and condition variables succeed.

  \<^bold>\<open>Connections.\<close> \<open>TcpPool\<close> is the connection pool of \<^verbatim>\<open>src/module/tcp/pool.c\<close>: one array of
  connections in three segments (a heap of inactive ones, active, waiting), the index array, the
  message queue of the servlets and the event loop. \<open>TcpPoolInv\<close> relates the array to an abstract map from
  identifiers to a state and a node and shows that the heap operations keep it, \<open>TcpPoolOps\<close> does the same
  for the changes of state, \<open>TcpPoolSafe\<close> for messages, events, expiry and a whole round; \<open>TcpPoolProps\<close>
  has the reachable states, the refinement, and the two failures that are not handled. The clients
  are assumed to give back only connections that they hold, in a documented mode; the size of the pool is
  from 2 to \<open>2 ^ 31\<close> and not one of those for which the identifier allocator fails; the operating system
  reports registered descriptors only. Answers of socket calls are arguments, what fresh memory holds is
  arbitrary, times are integers.

  \<^bold>\<open>Registers of the script interpreter.\<close> \<open>PssFrame\<close> has the runtime values of \<^verbatim>\<open>lib/pss/value.c\<close> and the
  copy-on-write register frames of \<^verbatim>\<open>lib/pss/frame.c\<close> on a heap of nodes and objects with reference
  counters. \<open>PssFrameInv\<close> describes the heap as a graph of pointers, with the invariant that every
  counter is the number of the pointers, and the value that a path from a frame leads to; \<open>PssFrameOps\<close> shows
  what one round of a write does to the graph, \<open>PssFrameSafe\<close> does so for whole writes and for the
  disposal of a frame. \<open>PssFrameProps\<close> has the reachable states: a frame is a function from registers to
  values that no other frame can change, the counters are exact, nothing leaks, and the cases the code
  does not handle. \<open>PssRegs\<close> is the numbering of the registers by their depth. In the reachable states memory
  does not run out, and a value that is written is held by something other than the register it replaces.

  \<^bold>\<open>Lexer of the scripts.\<close> \<open>PssLex\<close> is \<^verbatim>\<open>lib/pss/comp/lex.c\<close> and the printer of string literals of
  \<^verbatim>\<open>lib/pss/string.c\<close>, byte by byte. \<open>PssLexMove\<close> shows that every operation only consumes a piece of the
  script, so the line and the offset stay those of the position; \<open>PssLexSafe\<close> that a call returns, makes
  progress and stays in the buffer of the token; \<open>PssLexPrint\<close> what is read for the text of each kind of
  token. \<open>PssLexProps\<close> has the reachable states, the end of the lexing, the places and the round trip.
  A number or an escape sequence that overflows is undefined; \<open>short_numbers\<close> is a condition on the script
  that excludes it.

  \<^bold>\<open>Servlets.\<close> \<open>Kmp\<close> (\<^verbatim>\<open>servlets/dataflow/regex/kmp.c\<close>): the streaming string search. \<open>HttpParser\<close>,
  \<open>HttpSafety\<close>, \<open>HttpChunks\<close>, \<open>HttpRequest\<close>, \<open>HttpStream\<close> (\<^verbatim>\<open>servlets/network/http/parser/parser.c\<close>): the
  request parser, that it terminates inside its memory, that it does not depend on how the stream
  is cut, and that it reads back what a client prints. \<open>Chunks\<close> is the contract of a component fed
  with the pieces of a stream, which both satisfy.

  \<^bold>\<open>Hypotheses.\<close> \<open>no_empty_block\<close> says that the allocator gives no block for a request of 0 bytes, one
  of the two behaviours the C standard allows; \<open>content_length_overflow\<close> shows what happens under the
  other. The theorems on the dump assume that the file holds the bytes that were written.

  \<^bold>\<open>Not modelled.\<close> The socket set-up, the TCP and TLS modules above the connection pool and the event
  loops of the operating system (system calls and third-party libraries), the parser,
  the code generator and the virtual machine of the script interpreter and the conversion of its values to
  strings (the rest of \<^verbatim>\<open>lib/pss\<close>), the type library (\<^verbatim>\<open>lib/proto\<close>), the command line tools, the daemon, logging and
  threads, and the profiler; what an object of a script does when it is disposed of is recorded only. The pipe modules are a parameter of the step. Freeing
  memory is not observable in the models except where a double release is possible.
\<close>

end
